(* ===== verification/Prelude.thy ===== *)
theory Prelude
  imports Main "HOL-Library.Word" "HOL-Library.Multiset"
begin

text \<open>
  Shared vocabulary of the development.

  \<^item> \<open>panic\<close> and \<open>'a res\<close>: a Rust function that may panic returns a value of the sum
    type \<open>panic + 'a\<close>; \<open>Inl\<close> names the reason of the panic, \<open>Inr\<close> carries the
    returned value. The model follows the build with debug assertions and overflow checks
    switched on (the default of \<^verbatim>\<open>cargo build\<close> and \<^verbatim>\<open>cargo test\<close>), so a failing
    \<^verbatim>\<open>debug_assert!\<close> and an overflowing \<^verbatim>\<open>+\<close> are panics.
  \<^item> the widths of the machine integers the modelled code uses;
  \<^item> the theorem collections \<open>panic_simps\<close> (evaluation of the panic type) and
    \<open>model_defs\<close> (definitions that simple proofs unfold);
  \<^item> generic lemmas on lists that several components share.
\<close>

section \<open>Panics\<close>

datatype panic =
    Overflow
  | DebugAssert
  | AssertFailed
  | UnwrapNone
  | IndexOutOfBounds
  | Unreachable
  | Explicit string

type_synonym 'a res = "panic + 'a"

named_theorems panic_simps
named_theorems model_defs

definition res_bind :: "'a res \<Rightarrow> ('a \<Rightarrow> 'b res) \<Rightarrow> 'b res" where
  "res_bind r f = (case r of Inl e \<Rightarrow> Inl e | Inr a \<Rightarrow> f a)"

definition res_map :: "('a \<Rightarrow> 'b) \<Rightarrow> 'a res \<Rightarrow> 'b res" where
  "res_map f r = (case r of Inl e \<Rightarrow> Inl e | Inr a \<Rightarrow> Inr (f a))"

definition unwrap :: "'a option \<Rightarrow> 'a res" where
  "unwrap x = (case x of None \<Rightarrow> Inl UnwrapNone | Some a \<Rightarrow> Inr a)"

definition returns :: "'a res \<Rightarrow> bool" where
  "returns r \<longleftrightarrow> (case r of Inl _ \<Rightarrow> False | Inr _ \<Rightarrow> True)"

lemma res_bind_simps [simp, panic_simps]:
  "res_bind (Inl e) f = Inl e"
  "res_bind (Inr a) f = f a"
  by (simp_all add: res_bind_def)

lemma res_map_simps [simp, panic_simps]:
  "res_map f (Inl e) = Inl e"
  "res_map f (Inr a) = Inr (f a)"
  by (simp_all add: res_map_def)

lemma unwrap_simps [simp, panic_simps]:
  "unwrap None = Inl UnwrapNone"
  "unwrap (Some a) = Inr a"
  by (simp_all add: unwrap_def)

lemma returns_simps [simp, panic_simps]:
  "\<not> returns (Inl e)"
  "returns (Inr a)"
  by (simp_all add: returns_def)

lemma res_bind_eq_Inr [panic_simps]:
  "res_bind r f = Inr b \<longleftrightarrow> (\<exists>a. r = Inr a \<and> f a = Inr b)"
  by (cases r) auto

lemma res_map_eq_Inr [panic_simps]:
  "res_map f r = Inr b \<longleftrightarrow> (\<exists>a. r = Inr a \<and> f a = b)"
  by (cases r) auto

lemma unwrap_eq_Inr [panic_simps]: "unwrap x = Inr a \<longleftrightarrow> x = Some a"
  by (cases x) auto

lemma res_bind_cong [fundef_cong]:
  "r = r' \<Longrightarrow> (\<And>a. r' = Inr a \<Longrightarrow> f a = g a) \<Longrightarrow> res_bind r f = res_bind r' g"
  by (cases r') (auto simp: res_bind_def)

lemma res_map_cong [fundef_cong]:
  "r = r' \<Longrightarrow> (\<And>a. r' = Inr a \<Longrightarrow> f a = g a) \<Longrightarrow> res_map f r = res_map g r'"
  by (cases r') (auto simp: res_map_def)

lemma returns_iff: "returns r \<longleftrightarrow> (\<exists>a. r = Inr a)"
  by (cases r) auto

section \<open>Computations that may not end\<close>

text \<open>
  A computation that may also not end: \<open>None\<close> is divergence. \<open>run_bind\<close> sequences two of
  them, \<open>lift_res\<close> and \<open>lift_opt\<close> embed a computation that ends and one that does not panic.
\<close>

type_synonym 'a run = "'a res option"

definition run_bind :: "'a run \<Rightarrow> ('a \<Rightarrow> 'b run) \<Rightarrow> 'b run" where
  "run_bind m f = (case m of None \<Rightarrow> None | Some (Inl e) \<Rightarrow> Some (Inl e) | Some (Inr a) \<Rightarrow> f a)"

definition lift_res :: "'a res \<Rightarrow> 'a run" where
  "lift_res r = Some r"

definition lift_opt :: "'a option \<Rightarrow> 'a run" where
  "lift_opt m = map_option Inr m"

definition ok :: "'a \<Rightarrow> 'a run" where
  "ok a = Some (Inr a)"

lemma run_bind_simps [simp, panic_simps]:
  "run_bind None f = None"
  "run_bind (Some (Inl e)) f = Some (Inl e)"
  "run_bind (Some (Inr a)) f = f a"
  "run_bind (ok a) f = f a"
  by (simp_all add: run_bind_def ok_def)

lemma lift_simps [simp, panic_simps]:
  "lift_res (Inr a) = ok a" "lift_opt (Some a) = ok a" "lift_opt None = None"
  by (simp_all add: lift_res_def lift_opt_def ok_def)

lemma ok_inject [simp]: "ok a = ok b \<longleftrightarrow> a = b"
  by (simp add: ok_def)

lemma run_bind_eq_ok [panic_simps]: "run_bind m f = ok b \<longleftrightarrow> (\<exists>a. m = ok a \<and> f a = ok b)"
  by (auto simp: run_bind_def ok_def split: option.splits sum.splits)

lemma lift_res_eq_ok [simp]: "lift_res r = ok a \<longleftrightarrow> r = Inr a"
  by (simp add: lift_res_def ok_def)

lemma lift_opt_eq_ok [simp]: "lift_opt r = ok a \<longleftrightarrow> r = Some a"
  by (auto simp: lift_opt_def ok_def)

lemma run_bind_cong [fundef_cong]:
  "m = m' \<Longrightarrow> (\<And>a. m' = ok a \<Longrightarrow> f a = g a) \<Longrightarrow> run_bind m f = run_bind m' g"
  by (cases m') (auto simp: run_bind_def ok_def split: sum.split)

lemma run_bind_mono [partial_function_mono]:
  assumes "mono_option m" and "\<And>y. mono_option (\<lambda>f. g y f)"
  shows "mono_option (\<lambda>f. run_bind (m f) (\<lambda>y. g y f))"
proof -
  have eq: "(\<lambda>f. run_bind (m f) (\<lambda>y. g y f)) =
      (\<lambda>f. Option.bind (m f) (\<lambda>r. case r of Inl e \<Rightarrow> Some (Inl e) | Inr y \<Rightarrow> g y f))"
    by (auto simp: run_bind_def fun_eq_iff split: option.splits sum.splits)
  have "mono_option (\<lambda>f. case r of Inl e \<Rightarrow> Some (Inl e) | Inr y \<Rightarrow> g y f)" for r
    using assms(2) by (cases r) (simp_all add: option.const_mono)
  then show ?thesis unfolding eq using assms(1) by (intro bind_mono) simp_all
qed

section \<open>Machine integers\<close>

type_synonym u8 = "8 word"
type_synonym u32 = "32 word"
type_synonym u64 = "64 word"
type_synonym scope = nat

lemma unat_drop_bit_31: "unat (drop_bit 31 (w :: u32)) = unat w div 2 ^ 31"
  by (simp add: drop_bit_eq_div unat_div)

lemma unat_take_bit_31: "unat (take_bit 31 (w :: u32)) = unat w mod 2 ^ 31"
  by (simp add: take_bit_eq_mod unat_mod)

lemma unat_u32_less: "unat (w :: u32) < 2 ^ 32"
proof -
  have "unat w < 2 ^ LENGTH(32)" by (rule unsigned_less)
  then show ?thesis by simp
qed

lemma unat_u32_max: "unat (- 1 :: u32) = 2 ^ 32 - 1"
  by (simp add: unsigned_minus_1_eq_mask mask_eq_exp_minus_1)

lemma unat_u32_eqI: "unat (a :: u32) = unat b \<Longrightarrow> a = b"
  by (simp add: word_unat_eq_iff)


text \<open>
  The operations of \<^verbatim>\<open>usize\<close> (64 bits) and \<^verbatim>\<open>i32\<close> that the spine uses. A shift by 64 or more panics, a shift
  that loses bits does not; sums and products are checked.
\<close>

fun bit_length :: "nat \<Rightarrow> nat" where
  "bit_length n = (if n = 0 then 0 else bit_length (n div 2) + 1)"

declare bit_length.simps [simp del]

definition next_power_of_two :: "nat \<Rightarrow> nat" where
  "next_power_of_two n = (if n \<le> 1 then 1 else 2 ^ bit_length (n - 1))"

lemma bit_length_bound: "n < 2 ^ bit_length n"
proof (induction n rule: less_induct)
  case (less n)
  show ?case
  proof (cases "n = 0")
    case False
    then have "n div 2 < 2 ^ bit_length (n div 2)" using less.IH [of "n div 2"] by simp
    then show ?thesis using False by (subst bit_length.simps) simp
  qed (simp add: bit_length.simps)
qed

lemma bit_length_bound2: "0 < n \<Longrightarrow> 2 ^ bit_length n \<le> 2 * n"
proof (induction n rule: less_induct)
  case (less n)
  show ?case
  proof (cases "n div 2 = 0")
    case False
    then have "2 ^ bit_length (n div 2) \<le> 2 * (n div 2)" using less.IH [of "n div 2"] less.prems by simp
    then show ?thesis using less.prems by (subst bit_length.simps) simp
  next
    case True
    then have "n = 1" using less.prems by simp
    then show ?thesis by (simp add: bit_length.simps)
  qed
qed

lemma next_power_of_two_bounds: "2 \<le> n \<Longrightarrow> next_power_of_two n < 2 * n"
  using bit_length_bound2 [of "n - 1"] by (simp add: next_power_of_two_def)

fun trailing_zeros :: "nat \<Rightarrow> nat" where
  "trailing_zeros n = (if n = 0 then 64 else if odd n then 0 else trailing_zeros (n div 2) + 1)"

declare trailing_zeros.simps [simp del]

definition usize_next_power_of_two :: "nat \<Rightarrow> nat res" where
  "usize_next_power_of_two n = (if n \<le> 2 ^ 63 then Inr (next_power_of_two n) else Inl Overflow)"

definition usize_shl :: "nat \<Rightarrow> nat \<Rightarrow> nat res" where
  "usize_shl x n = (if n < 64 then Inr (x * 2 ^ n mod 2 ^ 64) else Inl Overflow)"

definition usize_add :: "nat \<Rightarrow> nat \<Rightarrow> nat res" where
  "usize_add x y = (if x + y < 2 ^ 64 then Inr (x + y) else Inl Overflow)"

definition usize_mul :: "nat \<Rightarrow> nat \<Rightarrow> nat res" where
  "usize_mul x y = (if x * y < 2 ^ 64 then Inr (x * y) else Inl Overflow)"

definition usize_as_isize :: "nat \<Rightarrow> int" where
  "usize_as_isize x = (if x < 2 ^ 63 then int x else int x - 2 ^ 64)"

definition i32_wrap :: "int \<Rightarrow> int" where
  "i32_wrap x = (x + 2 ^ 31) mod 2 ^ 32 - 2 ^ 31"

definition i32_shl :: "int \<Rightarrow> nat \<Rightarrow> int res" where
  "i32_shl x n = (if n < 32 then Inr (i32_wrap (x * 2 ^ n)) else Inl Overflow)"

definition i32_add :: "int \<Rightarrow> int \<Rightarrow> int res" where
  "i32_add x y = (if - (2 ^ 31) \<le> x + y \<and> x + y < 2 ^ 31 then Inr (x + y) else Inl Overflow)"

definition isize_as_usize :: "int \<Rightarrow> nat" where
  "isize_as_usize x = nat (x mod 2 ^ 64)"

lemma trailing_zeros_power [simp]: "trailing_zeros (2 ^ e) = e"
  by (induction e) (simp_all add: trailing_zeros.simps)

text \<open>The exponent of the next power of two.\<close>

definition log_ceil :: "nat \<Rightarrow> nat" where
  "log_ceil n = (if n \<le> 1 then 0 else bit_length (n - 1))"

lemma next_power_of_two_log: "next_power_of_two n = 2 ^ log_ceil n"
  by (simp add: next_power_of_two_def log_ceil_def)

lemma log_ceil_bounds: "n \<le> 2 ^ log_ceil n" "0 < n \<Longrightarrow> 2 ^ log_ceil n < 2 * n"
proof -
  show "n \<le> 2 ^ log_ceil n"
    using bit_length_bound [of "n - 1"] by (cases "n \<le> 1") (auto simp: log_ceil_def)
  show "0 < n \<Longrightarrow> 2 ^ log_ceil n < 2 * n"
    using next_power_of_two_bounds [of n]
    by (cases "n \<le> 1") (auto simp: next_power_of_two_log log_ceil_def)
qed

section \<open>Sequences with a falling predicate\<close>

text \<open>
  \<open>position\<close> is Rust's \<^verbatim>\<open>Iterator::position\<close>. Several algorithms rely on a predicate that
  stays false once it is false along a slice; \<open>falling\<close> states it, and then the number of
  elements that satisfy the predicate is the length of the longest satisfying prefix.
\<close>

fun position :: "('a \<Rightarrow> bool) \<Rightarrow> 'a list \<Rightarrow> nat option" where
  "position p [] = None"
| "position p (x # xs) = (if p x then Some 0 else map_option Suc (position p xs))"

definition unwrap_or :: "'a option \<Rightarrow> 'a \<Rightarrow> 'a" where
  "unwrap_or x d = (case x of None \<Rightarrow> d | Some a \<Rightarrow> a)"

definition falling :: "('a \<Rightarrow> bool) \<Rightarrow> 'a list \<Rightarrow> bool" where
  "falling p xs \<longleftrightarrow> sorted_wrt (\<lambda>a b. p b \<longrightarrow> p a) xs"

lemma unwrap_or_simps [simp]: "unwrap_or None d = d" "unwrap_or (Some a) d = a"
  by (simp_all add: unwrap_or_def)

lemma position_takeWhile:
  "unwrap_or (position (\<lambda>x. \<not> f x) xs) (length xs) = length (takeWhile f xs)"
  by (induction xs) (auto simp: unwrap_or_def split: option.splits)

lemma falling_nth:
  assumes "falling f xs" and "i < length xs"
  shows "f (xs ! i) \<longleftrightarrow> i < length (takeWhile f xs)"
proof
  assume fi: "f (xs ! i)"
  have "f (xs ! j)" if "j \<le> i" for j
    using assms fi that unfolding falling_def sorted_wrt_iff_nth_less
    by (cases "j = i") (auto dest: le_neq_implies_less)
  then show "i < length (takeWhile f xs)"
    using assms(2)
    by (metis leD leI length_takeWhile_le nth_length_takeWhile order_le_less_trans)
next
  assume "i < length (takeWhile f xs)"
  then show "f (xs ! i)"
    by (metis nth_mem set_takeWhileD takeWhile_nth)
qed

lemma falling_Cons:
  "falling f (x # xs) \<longleftrightarrow> (\<forall>y \<in> set xs. f y \<longrightarrow> f x) \<and> falling f xs"
  by (simp add: falling_def)

lemma falling_rev: "falling f (rev xs) \<longleftrightarrow> sorted_wrt (\<lambda>a b. f a \<longrightarrow> f b) xs"
  by (simp add: falling_def sorted_wrt_rev)

lemma takeWhile_falling_filter: "falling f xs \<Longrightarrow> takeWhile f xs = filter f xs"
  by (induction xs) (auto simp: falling_Cons filter_empty_conv)

lemma dropWhile_falling_filter: "falling f xs \<Longrightarrow> dropWhile f xs = filter (\<lambda>x. \<not> f x) xs"
  by (induction xs) (auto simp: falling_Cons filter_id_conv)


section \<open>Slices as lists\<close>

text \<open>\<^verbatim>\<open>slice.swap(i, j)\<close> (and \<^verbatim>\<open>ptr::swap\<close>) on two positions of a slice.\<close>

definition swap_at :: "'a list \<Rightarrow> nat \<Rightarrow> nat \<Rightarrow> 'a list" where
  "swap_at xs i j = xs[i := xs ! j, j := xs ! i]"

lemma length_swap_at [simp]: "length (swap_at xs i j) = length xs"
  by (simp add: swap_at_def)

lemma mset_swap_at [simp]: "i < length xs \<Longrightarrow> j < length xs \<Longrightarrow> mset (swap_at xs i j) = mset xs"
  by (simp add: swap_at_def mset_swap)

lemma nth_swap_at:
  "i < length xs \<Longrightarrow> j < length xs \<Longrightarrow> k < length xs \<Longrightarrow>
     swap_at xs i j ! k = (if k = j then xs ! i else if k = i then xs ! j else xs ! k)"
  by (auto simp: swap_at_def nth_list_update)

lemma take_swap_at [simp]: "n \<le> i \<Longrightarrow> n \<le> j \<Longrightarrow> take n (swap_at xs i j) = take n xs"
  by (simp add: swap_at_def)

lemma drop_swap_at [simp]: "i < n \<Longrightarrow> j < n \<Longrightarrow> drop n (swap_at xs i j) = drop n xs"
  by (simp add: swap_at_def)

lemma swap_at_zip:
  "length xs = length ys \<Longrightarrow> i < length xs \<Longrightarrow> j < length xs \<Longrightarrow>
     zip (swap_at xs i j) (swap_at ys i j) = swap_at (zip xs ys) i j"
  by (simp add: swap_at_def update_zip)

lemma map_swap_at:
  "i < length xs \<Longrightarrow> j < length xs \<Longrightarrow> map f (swap_at xs i j) = swap_at (map f xs) i j"
  by (simp add: swap_at_def map_update)

lemma map_fst_zip_eq [simp]: "length xs = length ys \<Longrightarrow> map fst (zip xs ys) = xs"
  by simp

end
