(* ===== verification/Order_Lattice.thy ===== *)
theory Order_Lattice
  imports Prelude
begin

text \<open>
  Partial orders and lattices of logical time:
  \<^verbatim>\<open>crates/dbsp/src/algebra/order.rs\<close> and \<^verbatim>\<open>crates/dbsp/src/algebra/lattice.rs\<close>.

  The Rust traits \<^verbatim>\<open>PartialOrder\<close> and \<^verbatim>\<open>Lattice\<close> are interfaces: a type provides
  \<^verbatim>\<open>less_equal\<close>, \<^verbatim>\<open>join\<close> and \<^verbatim>\<open>meet\<close>, and the clients (antichains, frontiers,
  \<^verbatim>\<open>advance_by\<close>) rely on the laws of a partial order and of a lattice. The provided methods
  of the traits are top-level definitions that take the required methods as arguments; the
  laws are the locales \<open>time_order\<close> and \<open>time_lattice\<close>.
\<close>

section \<open>The provided methods\<close>

text \<open>\<^verbatim>\<open>PartialOrder::less_than\<close>: the default of the trait.\<close>

definition less_than :: "('t \<Rightarrow> 't \<Rightarrow> bool) \<Rightarrow> 't \<Rightarrow> 't \<Rightarrow> bool" where
  "less_than less_equal self other \<longleftrightarrow> self \<noteq> other \<and> less_equal self other"

text \<open>\<^verbatim>\<open>Lattice::join_assign\<close> and \<^verbatim>\<open>meet_assign\<close> overwrite \<open>self\<close>.\<close>

definition join_assign :: "('t \<Rightarrow> 't \<Rightarrow> 't) \<Rightarrow> 't \<Rightarrow> 't \<Rightarrow> 't" where
  "join_assign join self other = join self other"

definition meet_assign :: "('t \<Rightarrow> 't \<Rightarrow> 't) \<Rightarrow> 't \<Rightarrow> 't \<Rightarrow> 't" where
  "meet_assign meet self other = meet self other"

text \<open>
  \<^verbatim>\<open>Lattice::advance_by\<close>: \<open>advance_by_loop\<close> is the \<^verbatim>\<open>for f in iter\<close> loop over the
  elements of the frontier after the first.
\<close>

fun advance_by_loop ::
  "('t \<Rightarrow> 't \<Rightarrow> 't) \<Rightarrow> ('t \<Rightarrow> 't \<Rightarrow> 't) \<Rightarrow> 't \<Rightarrow> 't \<Rightarrow> 't list \<Rightarrow> 't" where
  "advance_by_loop join meet self result [] = result"
| "advance_by_loop join meet self result (f # iter) =
     advance_by_loop join meet self (meet_assign meet result (join self f)) iter"

definition advance_by ::
  "('t \<Rightarrow> 't \<Rightarrow> 't) \<Rightarrow> ('t \<Rightarrow> 't \<Rightarrow> 't) \<Rightarrow> 't \<Rightarrow> 't list \<Rightarrow> 't" where
  "advance_by join meet self frontier =
     (case frontier of
        [] \<Rightarrow> self
      | first # iter \<Rightarrow> advance_by_loop join meet self (join self first) iter)"

section \<open>The contracts\<close>

locale time_preorder =
  fixes less_equal :: "'t \<Rightarrow> 't \<Rightarrow> bool"
  assumes le_refl: "less_equal a a"
    and le_trans: "less_equal a b \<Longrightarrow> less_equal b c \<Longrightarrow> less_equal a c"

locale time_order = time_preorder less_equal
  for less_equal :: "'t \<Rightarrow> 't \<Rightarrow> bool" +
  assumes le_antisym: "less_equal a b \<Longrightarrow> less_equal b a \<Longrightarrow> a = b"
begin

lemma less_than_iff: "less_than less_equal a b \<longleftrightarrow> less_equal a b \<and> \<not> less_equal b a"
  by (auto simp: less_than_def le_refl dest: le_antisym)

lemma less_than_irrefl: "\<not> less_than less_equal a a"
  by (simp add: less_than_def)

lemma less_than_trans:
  "less_than less_equal a b \<Longrightarrow> less_than less_equal b c \<Longrightarrow> less_than less_equal a c"
  by (meson less_than_iff le_trans)

end

locale time_total_order = time_order less_equal
  for less_equal :: "'t \<Rightarrow> 't \<Rightarrow> bool" +
  assumes le_total: "less_equal a b \<or> less_equal b a"

text \<open>
  The laws of \<^verbatim>\<open>Lattice\<close>: \<^verbatim>\<open>join\<close> is the smallest element greater than or equal to both
  arguments, \<^verbatim>\<open>meet\<close> the largest element less than or equal to both.
\<close>

locale time_lattice = time_order less_equal
  for less_equal :: "'t \<Rightarrow> 't \<Rightarrow> bool" +
  fixes join :: "'t \<Rightarrow> 't \<Rightarrow> 't"
    and meet :: "'t \<Rightarrow> 't \<Rightarrow> 't"
  assumes join_upper1: "less_equal a (join a b)"
    and join_upper2: "less_equal b (join a b)"
    and join_least: "less_equal a c \<Longrightarrow> less_equal b c \<Longrightarrow> less_equal (join a b) c"
    and meet_lower1: "less_equal (meet a b) a"
    and meet_lower2: "less_equal (meet a b) b"
    and meet_greatest: "less_equal c a \<Longrightarrow> less_equal c b \<Longrightarrow> less_equal c (meet a b)"
begin

lemma le_meet_iff: "less_equal c (meet a b) \<longleftrightarrow> less_equal c a \<and> less_equal c b"
  using meet_lower1 meet_lower2 meet_greatest le_trans by blast

lemma join_le_iff: "less_equal (join a b) c \<longleftrightarrow> less_equal a c \<and> less_equal b c"
  using join_upper1 join_upper2 join_least le_trans by blast

text \<open>The loop of \<open>advance_by\<close> computes the greatest lower bound of its start and the joins.\<close>

lemma le_advance_by_loop_iff:
  "less_equal c (advance_by_loop join meet self result iter) \<longleftrightarrow>
     less_equal c result \<and> (\<forall>f \<in> set iter. less_equal c (join self f))"
  by (induction iter arbitrary: result) (auto simp: meet_assign_def le_meet_iff)

lemma le_advance_by_iff:
  assumes "frontier \<noteq> []"
  shows "less_equal c (advance_by join meet self frontier) \<longleftrightarrow>
     (\<forall>f \<in> set frontier. less_equal c (join self f))"
  using assms by (auto simp: advance_by_def le_advance_by_loop_iff split: list.split)

lemma advance_by_upper: "less_equal self (advance_by join meet self frontier)"
proof (cases "frontier = []")
  case True
  then show ?thesis by (simp add: advance_by_def le_refl)
next
  case False
  then show ?thesis by (simp add: le_advance_by_iff join_upper1)
qed

lemma advance_by_indistinguishable:
  assumes "f \<in> set frontier" and "less_equal f t"
  shows "less_equal (advance_by join meet self frontier) t \<longleftrightarrow> less_equal self t"
proof
  assume "less_equal (advance_by join meet self frontier) t"
  then show "less_equal self t" using advance_by_upper le_trans by blast
next
  assume "less_equal self t"
  with assms(2) have "less_equal (join self f) t" by (simp add: join_le_iff)
  moreover have "less_equal (advance_by join meet self frontier) (join self f)"
    using assms(1) le_advance_by_iff [of frontier] le_refl by (metis empty_iff empty_set)
  ultimately show "less_equal (advance_by join meet self frontier) t" by (rule le_trans [rotated])
qed

lemma advance_by_largest:
  assumes "frontier \<noteq> []"
    and same: "\<And>f t. f \<in> set frontier \<Longrightarrow> less_equal f t \<Longrightarrow> less_equal x t \<longleftrightarrow> less_equal self t"
  shows "less_equal x (advance_by join meet self frontier)"
proof -
  have "less_equal x (join self f)" if "f \<in> set frontier" for f
    using same [OF that join_upper2] join_upper1 by blast
  then show ?thesis using assms(1) by (simp add: le_advance_by_iff)
qed

end

section \<open>Primitive integers and the unit type\<close>

text \<open>
  \<^verbatim>\<open>impl_order!\<close> and \<^verbatim>\<open>implement_lattice!\<close>: the machine comparison, \<^verbatim>\<open>max\<close> and
  \<^verbatim>\<open>min\<close>. The macros are expanded at every primitive width; the model is polymorphic in a
  linear order and the theories use it at \<^typ>\<open>u32\<close> and at \<^typ>\<open>unit\<close>.
\<close>

definition prim_less_than :: "'a::linorder \<Rightarrow> 'a \<Rightarrow> bool" where
  "prim_less_than self other \<longleftrightarrow> self < other"

definition prim_less_equal :: "'a::linorder \<Rightarrow> 'a \<Rightarrow> bool" where
  "prim_less_equal self other \<longleftrightarrow> self \<le> other"

definition prim_join :: "'a::linorder \<Rightarrow> 'a \<Rightarrow> 'a" where
  "prim_join self other = max self other"

definition prim_meet :: "'a::linorder \<Rightarrow> 'a \<Rightarrow> 'a" where
  "prim_meet self other = min self other"

lemmas prim_defs [model_defs] =
  prim_less_than_def prim_less_equal_def prim_join_def prim_meet_def

lemma prim_lattice:
  "time_lattice (prim_less_equal :: 'a::linorder \<Rightarrow> 'a \<Rightarrow> bool) prim_join prim_meet"
  by unfold_locales (auto simp: prim_defs)

interpretation prim_total: time_total_order "prim_less_equal :: 'a::linorder \<Rightarrow> 'a \<Rightarrow> bool"
  by unfold_locales (auto simp: prim_defs)

interpretation prim_lat:
  time_lattice "prim_less_equal :: 'a::linorder \<Rightarrow> 'a \<Rightarrow> bool" prim_join prim_meet
  by (rule prim_lattice)

text \<open>The overridden \<^verbatim>\<open>less_than\<close> of the primitive types agrees with the trait's default.\<close>

lemma prim_less_than_default: "prim_less_than a b \<longleftrightarrow> less_than prim_less_equal a b"
  by (auto simp: prim_defs less_than_def)

end
