(* ===== verification/Antichains.thy ===== *)
theory Antichains
  imports Order_Lattice
begin

text \<open>
  Antichains and frontiers: \<^verbatim>\<open>crates/dbsp/src/time/antichain.rs\<close> and the lattice instance of
  \<^verbatim>\<open>Antichain<T>\<close> in \<^verbatim>\<open>crates/dbsp/src/algebra/lattice.rs\<close>.

  An \<^verbatim>\<open>Antichain<T>\<close> keeps a vector of mutually incomparable times. The operations take the
  \<^verbatim>\<open>less_equal\<close> (and \<^verbatim>\<open>join\<close>) of the element type as arguments. \<open>antichain_inv\<close> is the
  type's invariant; its meaning is the upward closed set \<open>upset\<close> of the times at or beyond
  the frontier.
\<close>

section \<open>Antichain\<close>

record 't antichain =
  elements :: "'t list"

definition antichain_new :: "'t antichain" where
  "antichain_new = \<lparr>elements = []\<rparr>"

definition antichain_with_capacity :: "nat \<Rightarrow> 't antichain" where
  "antichain_with_capacity capacity = \<lparr>elements = []\<rparr>"

definition antichain_from_elem :: "'t \<Rightarrow> 't antichain" where
  "antichain_from_elem element = \<lparr>elements = [element]\<rparr>"

definition antichain_clear :: "'t antichain \<Rightarrow> 't antichain" where
  "antichain_clear self = self\<lparr>elements := []\<rparr>"

definition antichain_sort :: "'t::linorder antichain \<Rightarrow> 't antichain" where
  "antichain_sort self = self\<lparr>elements := sort (elements self)\<rparr>"

definition antichain_as_slice :: "'t antichain \<Rightarrow> 't list" where
  "antichain_as_slice self = elements self"

text \<open>\<^verbatim>\<open>Antichain::insert\<close> returns the new antichain and whether the element was added.\<close>

definition antichain_insert ::
  "('t \<Rightarrow> 't \<Rightarrow> bool) \<Rightarrow> 't antichain \<Rightarrow> 't \<Rightarrow> 't antichain \<times> bool" where
  "antichain_insert less_equal self element =
     (if \<not> list_ex (\<lambda>x. less_equal x element) (elements self) then
        (let self = self\<lparr>elements := filter (\<lambda>x. \<not> less_equal element x) (elements self)\<rparr>;
             self = self\<lparr>elements := elements self @ [element]\<rparr>
         in (self, True))
      else (self, False))"

fun antichain_extend ::
  "('t \<Rightarrow> 't \<Rightarrow> bool) \<Rightarrow> 't antichain \<Rightarrow> 't list \<Rightarrow> bool \<Rightarrow> 't antichain \<times> bool" where
  "antichain_extend less_equal self [] added = (self, added)"
| "antichain_extend less_equal self (element # iterator) added =
     (let (self, inserted) = antichain_insert less_equal self element
      in antichain_extend less_equal self iterator (added \<or> inserted))"

definition antichain_less_than :: "('t \<Rightarrow> 't \<Rightarrow> bool) \<Rightarrow> 't antichain \<Rightarrow> 't \<Rightarrow> bool" where
  "antichain_less_than less_equal self time \<longleftrightarrow>
     list_ex (\<lambda>x. less_than less_equal x time) (elements self)"

definition antichain_less_equal :: "('t \<Rightarrow> 't \<Rightarrow> bool) \<Rightarrow> 't antichain \<Rightarrow> 't \<Rightarrow> bool" where
  "antichain_less_equal less_equal self time \<longleftrightarrow>
     list_ex (\<lambda>x. less_equal x time) (elements self)"

text \<open>\<^verbatim>\<open>into_option\<close> and \<^verbatim>\<open>as_option\<close> of a totally ordered time start with a debug assertion.\<close>

definition antichain_into_option :: "'t antichain \<Rightarrow> 't option res" where
  "antichain_into_option self =
     (if length (elements self) \<le> 1
      then Inr (if elements self = [] then None else Some (last (elements self)))
      else Inl DebugAssert)"

definition antichain_as_option :: "'t antichain \<Rightarrow> 't option res" where
  "antichain_as_option self =
     (if length (elements self) \<le> 1
      then Inr (if elements self = [] then None else Some (last (elements self)))
      else Inl DebugAssert)"

text \<open>\<^verbatim>\<open>PartialEq\<close>, \<^verbatim>\<open>PartialOrder\<close> and \<^verbatim>\<open>Hash\<close> of antichains.\<close>

definition antichain_eq :: "'t antichain \<Rightarrow> 't antichain \<Rightarrow> bool" where
  "antichain_eq self other \<longleftrightarrow>
     length (elements self) = length (elements other) \<and>
     (list_all (\<lambda>(t1, t2). t1 = t2) (zip (elements self) (elements other)) \<or>
      list_all (\<lambda>t1. list_ex (\<lambda>t2. t1 = t2) (elements other)) (elements self))"

definition antichain_le :: "('t \<Rightarrow> 't \<Rightarrow> bool) \<Rightarrow> 't antichain \<Rightarrow> 't antichain \<Rightarrow> bool" where
  "antichain_le less_equal self other \<longleftrightarrow>
     list_all (\<lambda>t2. list_ex (\<lambda>t1. less_equal t1 t2) (elements self)) (elements other)"

definition antichain_hash :: "('t::linorder \<Rightarrow> 'h \<Rightarrow> 'h) \<Rightarrow> 't antichain \<Rightarrow> 'h \<Rightarrow> 'h" where
  "antichain_hash hash self state = fold hash (sort (elements self)) state"

text \<open>\<^verbatim>\<open>From<Vec<T>>\<close> and \<^verbatim>\<open>FromIterator\<close>.\<close>

fun antichain_from_vec_loop ::
  "('t \<Rightarrow> 't \<Rightarrow> bool) \<Rightarrow> 't antichain \<Rightarrow> 't list \<Rightarrow> 't antichain" where
  "antichain_from_vec_loop less_equal temp [] = temp"
| "antichain_from_vec_loop less_equal temp (elem # vec) =
     antichain_from_vec_loop less_equal (fst (antichain_insert less_equal temp elem)) vec"

definition antichain_from_vec :: "('t \<Rightarrow> 't \<Rightarrow> bool) \<Rightarrow> 't list \<Rightarrow> 't antichain" where
  "antichain_from_vec less_equal vec = antichain_from_vec_loop less_equal antichain_new vec"

definition antichain_from_iter :: "('t \<Rightarrow> 't \<Rightarrow> bool) \<Rightarrow> 't list \<Rightarrow> 't antichain" where
  "antichain_from_iter less_equal iterator =
     fst (antichain_extend less_equal antichain_new iterator False)"

text \<open>
  The lattice instance of \<^verbatim>\<open>Antichain<T>\<close>: the two nested \<^verbatim>\<open>for\<close> loops of \<^verbatim>\<open>join\<close>, and
  the two loops of \<^verbatim>\<open>meet\<close>, which insert every element of both arguments.
\<close>

fun antichain_join_inner ::
  "('t \<Rightarrow> 't \<Rightarrow> bool) \<Rightarrow> ('t \<Rightarrow> 't \<Rightarrow> 't) \<Rightarrow> 't \<Rightarrow> 't antichain \<Rightarrow> 't list \<Rightarrow> 't antichain" where
  "antichain_join_inner less_equal join time1 upper [] = upper"
| "antichain_join_inner less_equal join time1 upper (time2 # other) =
     antichain_join_inner less_equal join time1
       (fst (antichain_insert less_equal upper (join time1 time2))) other"

fun antichain_join_outer ::
  "('t \<Rightarrow> 't \<Rightarrow> bool) \<Rightarrow> ('t \<Rightarrow> 't \<Rightarrow> 't) \<Rightarrow> 't antichain \<Rightarrow> 't list \<Rightarrow> 't list \<Rightarrow> 't antichain"
where
  "antichain_join_outer less_equal join upper [] other = upper"
| "antichain_join_outer less_equal join upper (time1 # self) other =
     antichain_join_outer less_equal join
       (antichain_join_inner less_equal join time1 upper other) self other"

definition antichain_join ::
  "('t \<Rightarrow> 't \<Rightarrow> bool) \<Rightarrow> ('t \<Rightarrow> 't \<Rightarrow> 't) \<Rightarrow> 't antichain \<Rightarrow> 't antichain \<Rightarrow> 't antichain" where
  "antichain_join less_equal join self other =
     antichain_join_outer less_equal join antichain_new (elements self) (elements other)"

definition antichain_meet ::
  "('t \<Rightarrow> 't \<Rightarrow> bool) \<Rightarrow> 't antichain \<Rightarrow> 't antichain \<Rightarrow> 't antichain" where
  "antichain_meet less_equal self other =
     (let upper = antichain_from_vec_loop less_equal antichain_new (elements self)
      in antichain_from_vec_loop less_equal upper (elements other))"

section \<open>AntichainRef\<close>

record 't antichain_ref =
  frontier :: "'t list"

definition antichain_as_ref :: "'t antichain \<Rightarrow> 't antichain_ref" where
  "antichain_as_ref self = \<lparr>frontier = elements self\<rparr>"

definition antichain_ref_new :: "'t list \<Rightarrow> 't antichain_ref" where
  "antichain_ref_new fr = \<lparr>frontier = fr\<rparr>"

definition antichain_ref_empty :: "'t antichain_ref" where
  "antichain_ref_empty = \<lparr>frontier = []\<rparr>"

definition antichain_ref_to_owned :: "'t antichain_ref \<Rightarrow> 't antichain" where
  "antichain_ref_to_owned self = \<lparr>elements = frontier self\<rparr>"

definition antichain_ref_less_than ::
  "('t \<Rightarrow> 't \<Rightarrow> bool) \<Rightarrow> 't antichain_ref \<Rightarrow> 't \<Rightarrow> bool" where
  "antichain_ref_less_than less_equal self time \<longleftrightarrow>
     list_ex (\<lambda>x. less_than less_equal x time) (frontier self)"

definition antichain_ref_less_equal ::
  "('t \<Rightarrow> 't \<Rightarrow> bool) \<Rightarrow> 't antichain_ref \<Rightarrow> 't \<Rightarrow> bool" where
  "antichain_ref_less_equal less_equal self time \<longleftrightarrow>
     list_ex (\<lambda>x. less_equal x time) (frontier self)"

definition antichain_ref_as_option :: "'t antichain_ref \<Rightarrow> 't option res" where
  "antichain_ref_as_option self =
     (if length (frontier self) \<le> 1
      then Inr (if frontier self = [] then None else Some (last (frontier self)))
      else Inl DebugAssert)"

definition antichain_ref_eq :: "'t antichain_ref \<Rightarrow> 't antichain_ref \<Rightarrow> bool" where
  "antichain_ref_eq self other \<longleftrightarrow>
     length (frontier self) = length (frontier other) \<and>
     (list_all (\<lambda>(t1, t2). t1 = t2) (zip (frontier self) (frontier other)) \<or>
      list_all (\<lambda>t1. list_ex (\<lambda>t2. t1 = t2) (frontier other)) (frontier self))"

definition antichain_ref_le ::
  "('t \<Rightarrow> 't \<Rightarrow> bool) \<Rightarrow> 't antichain_ref \<Rightarrow> 't antichain_ref \<Rightarrow> bool" where
  "antichain_ref_le less_equal self other \<longleftrightarrow>
     list_all (\<lambda>t2. list_ex (\<lambda>t1. less_equal t1 t2) (frontier self)) (frontier other)"

definition antichain_ref_join ::
  "('t \<Rightarrow> 't \<Rightarrow> bool) \<Rightarrow> ('t \<Rightarrow> 't \<Rightarrow> 't) \<Rightarrow> 't antichain_ref \<Rightarrow> 't antichain_ref \<Rightarrow> 't antichain"
where
  "antichain_ref_join less_equal join self other =
     antichain_join_outer less_equal join antichain_new (frontier self) (frontier other)"

definition antichain_ref_meet ::
  "('t \<Rightarrow> 't \<Rightarrow> bool) \<Rightarrow> 't antichain_ref \<Rightarrow> 't antichain_ref \<Rightarrow> 't antichain" where
  "antichain_ref_meet less_equal self other =
     (let upper = antichain_from_vec_loop less_equal antichain_new (frontier self)
      in antichain_from_vec_loop less_equal upper (frontier other))"

section \<open>Invariant and meaning\<close>

definition antichain_inv :: "('t \<Rightarrow> 't \<Rightarrow> bool) \<Rightarrow> 't antichain \<Rightarrow> bool" where
  "antichain_inv less_equal A \<longleftrightarrow>
     sorted_wrt (\<lambda>a b. \<not> less_equal a b \<and> \<not> less_equal b a) (elements A)"

definition upset :: "('t \<Rightarrow> 't \<Rightarrow> bool) \<Rightarrow> 't antichain \<Rightarrow> 't set" where
  "upset less_equal A = {t. \<exists>x \<in> set (elements A). less_equal x t}"

lemma antichain_inv_new [simp]: "antichain_inv le antichain_new"
  by (simp add: antichain_inv_def antichain_new_def)

lemma antichain_inv_from_elem [simp]: "antichain_inv le (antichain_from_elem e)"
  by (simp add: antichain_inv_def antichain_from_elem_def)

lemma upset_new [simp]: "upset le antichain_new = {}"
  by (simp add: upset_def antichain_new_def)

lemma antichain_less_equal_upset: "antichain_less_equal le A t \<longleftrightarrow> t \<in> upset le A"
  by (simp add: antichain_less_equal_def upset_def list_ex_iff)

lemma antichain_insert_snd:
  "snd (antichain_insert le A e) \<longleftrightarrow> e \<notin> upset le A"
  by (simp add: antichain_insert_def upset_def list_ex_iff Let_def)

lemma antichain_insert_unchanged:
  "e \<in> upset le A \<Longrightarrow> fst (antichain_insert le A e) = A"
  by (auto simp: antichain_insert_def upset_def list_ex_iff Let_def)

lemma antichain_insert_elements:
  "e \<notin> upset le A \<Longrightarrow>
     elements (fst (antichain_insert le A e)) = filter (\<lambda>x. \<not> le e x) (elements A) @ [e]"
  by (auto simp: antichain_insert_def upset_def list_ex_iff Let_def)

lemma antichain_insert_inv:
  "antichain_inv le A \<Longrightarrow> antichain_inv le (fst (antichain_insert le A e))"
  by (auto simp: antichain_inv_def antichain_insert_def Let_def list_ex_iff sorted_wrt_append
      sorted_wrt_filter)

lemma antichain_extend_inv:
  "antichain_inv le A \<Longrightarrow> antichain_inv le (fst (antichain_extend le A xs b))"
proof (induction xs arbitrary: A b)
  case (Cons x xs)
  then show ?case
    using antichain_insert_inv [of le A x] by (auto simp: split_beta)
qed simp

lemma antichain_from_vec_loop_inv:
  "antichain_inv le A \<Longrightarrow> antichain_inv le (antichain_from_vec_loop le A xs)"
  by (induction xs arbitrary: A) (simp_all add: antichain_insert_inv)

lemma antichain_join_inner_inv:
  "antichain_inv le A \<Longrightarrow> antichain_inv le (antichain_join_inner le jn t A ys)"
  by (induction ys arbitrary: A) (simp_all add: antichain_insert_inv)

lemma antichain_join_outer_inv:
  "antichain_inv le A \<Longrightarrow> antichain_inv le (antichain_join_outer le jn A xs ys)"
  by (induction xs arbitrary: A) (simp_all add: antichain_join_inner_inv)

lemma antichain_extend_from_vec_loop:
  "fst (antichain_extend le A xs b) = antichain_from_vec_loop le A xs"
  by (induction xs arbitrary: A b) (simp_all add: split_beta)

lemmas antichain_inv_intros =
  antichain_inv_new antichain_inv_from_elem antichain_insert_inv antichain_extend_inv
  antichain_from_vec_loop_inv antichain_join_outer_inv


section \<open>The frontier as an upward closed set\<close>

context time_preorder
begin

lemma upset_insert:
  "upset less_equal (fst (antichain_insert less_equal A e)) =
     upset less_equal A \<union> {t. less_equal e t}"
proof (cases "e \<in> upset less_equal A")
  case True
  then show ?thesis by (auto simp: antichain_insert_unchanged upset_def intro: le_trans)
next
  case False
  then have elems: "set (elements (fst (antichain_insert less_equal A e))) =
      {x \<in> set (elements A). \<not> less_equal e x} \<union> {e}"
    by (auto simp: antichain_insert_elements)
  show ?thesis
    unfolding upset_def elems using le_trans by blast
qed

lemma upset_from_vec_loop:
  "upset less_equal (antichain_from_vec_loop less_equal A xs) =
     upset less_equal A \<union> {t. \<exists>x \<in> set xs. less_equal x t}"
  by (induction xs arbitrary: A) (auto simp: upset_insert)

lemma upset_from_vec:
  "upset less_equal (antichain_from_vec less_equal xs) = {t. \<exists>x \<in> set xs. less_equal x t}"
  by (simp add: antichain_from_vec_def upset_from_vec_loop)

lemma upset_meet:
  "upset less_equal (antichain_meet less_equal A B) = upset less_equal A \<union> upset less_equal B"
  by (simp add: antichain_meet_def upset_from_vec_loop Let_def) (simp add: upset_def)

lemma upset_join_inner:
  "upset less_equal (antichain_join_inner less_equal jn x A ys) =
     upset less_equal A \<union> {t. \<exists>y \<in> set ys. less_equal (jn x y) t}"
  by (induction ys arbitrary: A) (auto simp: upset_insert)

lemma upset_join_outer:
  "upset less_equal (antichain_join_outer less_equal jn A xs ys) =
     upset less_equal A \<union> {t. \<exists>x \<in> set xs. \<exists>y \<in> set ys. less_equal (jn x y) t}"
  by (induction xs arbitrary: A) (auto simp: upset_join_inner)

lemma antichain_le_iff_upset:
  "antichain_le less_equal A B \<longleftrightarrow> upset less_equal B \<subseteq> upset less_equal A"
proof
  assume "antichain_le less_equal A B"
  then show "upset less_equal B \<subseteq> upset less_equal A"
    unfolding antichain_le_def upset_def list_all_iff list_ex_iff using le_trans by blast
next
  assume sub: "upset less_equal B \<subseteq> upset less_equal A"
  have "b \<in> upset less_equal B" if "b \<in> set (elements B)" for b
    using that le_refl by (auto simp: upset_def)
  with sub show "antichain_le less_equal A B"
    by (fastforce simp: antichain_le_def upset_def list_all_iff list_ex_iff)
qed

lemma antichain_le_refl: "antichain_le less_equal A A"
  by (simp add: antichain_le_iff_upset)

lemma antichain_le_trans:
  "antichain_le less_equal A B \<Longrightarrow> antichain_le less_equal B C \<Longrightarrow> antichain_le less_equal A C"
  by (auto simp: antichain_le_iff_upset)

text \<open>An element is reported as inserted exactly when the frontier moves.\<close>

lemma antichain_insert_moves:
  "snd (antichain_insert less_equal A e) \<longleftrightarrow>
     upset less_equal (fst (antichain_insert less_equal A e)) \<noteq> upset less_equal A"
proof (cases "e \<in> upset less_equal A")
  case True
  then show ?thesis by (simp add: antichain_insert_snd antichain_insert_unchanged)
next
  case False
  then show ?thesis using le_refl [of e] by (auto simp: antichain_insert_snd upset_insert)
qed

lemma antichain_extend_moves:
  "snd (antichain_extend less_equal A xs b) \<longleftrightarrow>
     b \<or> upset less_equal (antichain_from_vec_loop less_equal A xs) \<noteq> upset less_equal A"
proof (induction xs arbitrary: A b)
  case (Cons x xs)
  define A' where "A' = fst (antichain_insert less_equal A x)"
  have sub: "upset less_equal A \<subseteq> upset less_equal A'"
    by (auto simp: A'_def upset_insert)
  have sub': "upset less_equal A' \<subseteq> upset less_equal (antichain_from_vec_loop less_equal A' xs)"
    by (auto simp: upset_from_vec_loop)
  have "snd (antichain_extend less_equal A (x # xs) b) \<longleftrightarrow>
      b \<or> upset less_equal A' \<noteq> upset less_equal A \<or>
      upset less_equal (antichain_from_vec_loop less_equal A' xs) \<noteq> upset less_equal A'"
    by (auto simp: split_beta Cons.IH antichain_insert_moves A'_def)
  also have "\<dots> \<longleftrightarrow> b \<or>
      upset less_equal (antichain_from_vec_loop less_equal A' xs) \<noteq> upset less_equal A"
    using sub sub' by blast
  finally show ?case by (simp add: A'_def)
qed simp

end

lemma antichain_preorder:
  "time_preorder less_equal \<Longrightarrow> time_preorder (antichain_le less_equal)"
  by (simp add: time_preorder.antichain_le_iff_upset time_preorder_def [of "antichain_le _"])
    blast

context time_order
begin

lemma antichain_inv_distinct: "antichain_inv less_equal A \<Longrightarrow> distinct (elements A)"
  unfolding antichain_inv_def distinct_conv_nth sorted_wrt_iff_nth_less
  using le_refl by (metis linorder_neqE_nat)

lemma antichain_eq_iff:
  assumes "antichain_inv less_equal A" and "antichain_inv less_equal B"
  shows "antichain_eq A B \<longleftrightarrow> set (elements A) = set (elements B)"
proof -
  have dist: "distinct (elements A)" "distinct (elements B)"
    using assms by (auto intro: antichain_inv_distinct)
  have "set (elements A) = set (elements B)"
    if "length (elements A) = length (elements B)" "set (elements A) \<subseteq> set (elements B)"
    using card_subset_eq [OF List.finite_set that(2)] that(1) dist by (simp add: distinct_card)
  moreover have "elements A = elements B"
    if "length (elements A) = length (elements B)"
      "list_all (\<lambda>(t1, t2). t1 = t2) (zip (elements A) (elements B))"
    using that by (simp add: list_eq_iff_zip_eq list_all_iff)
  moreover have "length (elements A) = length (elements B)"
    if "set (elements A) = set (elements B)"
    using that dist distinct_card [of "elements A"] distinct_card [of "elements B"] by simp
  ultimately show ?thesis
    by (auto simp: antichain_eq_def list_all_iff list_ex_iff)
qed

lemma minimal_of_upset:
  assumes "antichain_inv less_equal A"
  shows "set (elements A) = {t \<in> upset less_equal A. \<forall>s \<in> upset less_equal A. less_equal s t \<longrightarrow> s = t}"
proof -
  have inc: "a = b" if ab: "a \<in> set (elements A)" "b \<in> set (elements A)" "less_equal a b" for a b
  proof -
    obtain i j where "i < length (elements A)" "j < length (elements A)"
      "elements A ! i = a" "elements A ! j = b"
      using ab by (auto simp: in_set_conv_nth)
    with assms ab(3) show ?thesis
      by (cases i j rule: linorder_cases) (auto simp: antichain_inv_def sorted_wrt_iff_nth_less)
  qed
  show ?thesis
  proof (intro set_eqI iffI)
    fix t assume t: "t \<in> set (elements A)"
    have "s = t" if "x \<in> set (elements A)" "less_equal x s" "less_equal s t" for x s
      using that t inc [of x t] le_trans le_antisym by blast
    then show "t \<in> {t \<in> upset less_equal A. \<forall>s \<in> upset less_equal A. less_equal s t \<longrightarrow> s = t}"
      using t le_refl by (auto simp: upset_def)
  next
    fix t assume "t \<in> {t \<in> upset less_equal A. \<forall>s \<in> upset less_equal A. less_equal s t \<longrightarrow> s = t}"
    then obtain x where "x \<in> set (elements A)" "less_equal x t"
      "\<forall>s \<in> upset less_equal A. less_equal s t \<longrightarrow> s = t" by (auto simp: upset_def)
    moreover from this(1) have "x \<in> upset less_equal A" using le_refl by (auto simp: upset_def)
    ultimately show "t \<in> set (elements A)" by blast
  qed
qed

text \<open>Two antichains are equal as Rust values exactly when they denote the same frontier.\<close>

lemma antichain_eq_iff_upset:
  assumes "antichain_inv less_equal A" and "antichain_inv less_equal B"
  shows "antichain_eq A B \<longleftrightarrow> upset less_equal A = upset less_equal B"
proof
  assume "antichain_eq A B"
  then show "upset less_equal A = upset less_equal B"
    using assms by (simp add: antichain_eq_iff upset_def)
next
  assume "upset less_equal A = upset less_equal B"
  then show "antichain_eq A B"
    using assms minimal_of_upset [OF assms(1)] minimal_of_upset [OF assms(2)]
    by (simp add: antichain_eq_iff)
qed

lemma antichain_le_antisym:
  assumes "antichain_inv less_equal A" and "antichain_inv less_equal B"
    and "antichain_le less_equal A B" and "antichain_le less_equal B A"
  shows "antichain_eq A B"
  using assms by (simp add: antichain_eq_iff_upset antichain_le_iff_upset)

end

lemma antichain_hash_eq:
  assumes "time_order less_equal" and "antichain_inv less_equal A" and "antichain_inv less_equal B"
    and "antichain_eq A B"
  shows "antichain_hash hash A st = antichain_hash hash B st"
proof -
  have "mset (elements A) = mset (elements B)"
    using assms time_order.antichain_inv_distinct [OF assms(1)]
      time_order.antichain_eq_iff [OF assms(1)]
    by (metis set_eq_iff_mset_eq_distinct)
  then have "sort (elements A) = sort (elements B)"
    by (metis mset_sort properties_for_sort sorted_sort)
  then show ?thesis by (simp add: antichain_hash_def)
qed

context time_total_order
begin

lemma antichain_length_le_1: "antichain_inv less_equal A \<Longrightarrow> length (elements A) \<le> 1"
  unfolding antichain_inv_def using le_total
  by (cases "elements A" rule: remdups_adj.cases) auto

end

context time_lattice
begin

lemma upset_join:
  "upset less_equal (antichain_join less_equal join A B) =
     upset less_equal A \<inter> upset less_equal B"
  unfolding antichain_join_def upset_join_outer upset_new by (auto simp: upset_def join_le_iff)

end

section \<open>Properties\<close>

text \<open>
  C28. \<^verbatim>\<open>Antichain::insert\<close> keeps the elements pairwise incomparable, adds exactly the times at or
  after the new element to the frontier, and returns true exactly when the frontier moved.
\<close>

theorem antichain_insert_frontier:
  assumes "time_preorder le" and "antichain_inv le A" and "antichain_insert le A e = (A', inserted)"
  shows "antichain_inv le A' \<and> upset le A' = upset le A \<union> {t. le e t} \<and>
    (inserted \<longleftrightarrow> upset le A' \<noteq> upset le A)"
  using antichain_insert_inv [OF assms(2), of e] time_preorder.upset_insert [OF assms(1), of A e]
    time_preorder.antichain_insert_moves [OF assms(1), of A e] assms(3)
  by simp

theorem antichain_insert_frontier_witness:
  "antichain_inv (\<le>) \<lparr>elements = [3 :: nat]\<rparr> \<and>
    upset (\<le>) \<lparr>elements = [3 :: nat]\<rparr> = upset (\<le>) \<lparr>elements = [5 :: nat]\<rparr> \<union> {t. 3 \<le> t} \<and>
    (True \<longleftrightarrow> upset (\<le>) \<lparr>elements = [3 :: nat]\<rparr> \<noteq> upset (\<le>) \<lparr>elements = [5 :: nat]\<rparr>)"
  by (rule antichain_insert_frontier)
    (auto simp: time_preorder_def antichain_inv_def antichain_insert_def)

text \<open>
  \<^verbatim>\<open>Antichain\<close>'s equality and order are those of the frontiers: two antichains are equal
  exactly when they have the same frontier, equal antichains have equal hashes whatever the
  order of their elements, and one is below another exactly when its frontier contains the other.
\<close>

theorem antichain_eq_hash_le:
  assumes "time_order le" and "antichain_inv le A" and "antichain_inv le B"
  shows "(antichain_eq A B \<longleftrightarrow> upset le A = upset le B) \<and>
    (antichain_eq A B \<longrightarrow> antichain_hash hash A st = antichain_hash hash B st) \<and>
    (antichain_le le A B \<longleftrightarrow> upset le B \<subseteq> upset le A)"
  using time_order.antichain_eq_iff_upset [OF assms] antichain_hash_eq [OF assms, of hash st]
    time_preorder.antichain_le_iff_upset [OF time_order.axioms(1) [OF assms(1)], of A B]
  by simp

theorem antichain_eq_hash_le_witness:
  "antichain_eq \<lparr>elements = [3 :: nat]\<rparr> \<lparr>elements = [3]\<rparr> \<and>
    upset prim_less_equal \<lparr>elements = [3 :: nat]\<rparr> = upset prim_less_equal \<lparr>elements = [3]\<rparr> \<and>
    antichain_hash (#) \<lparr>elements = [3 :: nat]\<rparr> [] = antichain_hash (#) \<lparr>elements = [3]\<rparr> []"
proof -
  have "antichain_inv prim_less_equal \<lparr>elements = [3 :: nat]\<rparr>" by (simp add: antichain_inv_def)
  moreover have "antichain_eq \<lparr>elements = [3 :: nat]\<rparr> \<lparr>elements = [3]\<rparr>"
    by (simp add: antichain_eq_def)
  ultimately show ?thesis
    using antichain_eq_hash_le [of prim_less_equal "\<lparr>elements = [3 :: nat]\<rparr>"
        "\<lparr>elements = [3]\<rparr>" "(#)" "[]"] prim_total.time_order_axioms
    by simp
qed

text \<open>
  C29. Over a lattice of times, \<^verbatim>\<open>join\<close> and \<^verbatim>\<open>meet\<close> of antichains are antichains, for the
  intersection and the union of the two frontiers.
\<close>

theorem antichain_lattice:
  assumes "time_lattice le jn mt"
  shows "antichain_inv le (antichain_join le jn A B) \<and>
    upset le (antichain_join le jn A B) = upset le A \<inter> upset le B \<and>
    antichain_inv le (antichain_meet le A B) \<and>
    upset le (antichain_meet le A B) = upset le A \<union> upset le B"
proof -
  have "time_preorder le"
    using assms by (simp add: time_lattice_def time_order_def)
  then show ?thesis
    using time_lattice.upset_join [OF assms, of A B] time_preorder.upset_meet [of le A B]
    by (simp add: antichain_join_def antichain_meet_def Let_def antichain_inv_intros)
qed

theorem antichain_lattice_witness:
  "antichain_inv prim_less_equal (antichain_join prim_less_equal prim_join
      \<lparr>elements = [3 :: nat]\<rparr> \<lparr>elements = [5]\<rparr>) \<and>
    upset prim_less_equal (antichain_join prim_less_equal prim_join
      \<lparr>elements = [3 :: nat]\<rparr> \<lparr>elements = [5]\<rparr>) =
      upset prim_less_equal \<lparr>elements = [3]\<rparr> \<inter> upset prim_less_equal \<lparr>elements = [5]\<rparr> \<and>
    antichain_inv prim_less_equal (antichain_meet prim_less_equal
      \<lparr>elements = [3 :: nat]\<rparr> \<lparr>elements = [5]\<rparr>) \<and>
    upset prim_less_equal (antichain_meet prim_less_equal
      \<lparr>elements = [3 :: nat]\<rparr> \<lparr>elements = [5]\<rparr>) =
      upset prim_less_equal \<lparr>elements = [3]\<rparr> \<union> upset prim_less_equal \<lparr>elements = [5]\<rparr>"
  by (rule antichain_lattice [OF prim_lat.time_lattice_axioms])

text \<open>
  Over a total order of times an antichain has at most one element, so \<^verbatim>\<open>into_option\<close> and
  \<^verbatim>\<open>as_option\<close>, which assert this, return, and what they return is the least time of the
  frontier.
\<close>

theorem antichain_total_order_option:
  assumes "time_total_order le" and "antichain_inv le A"
  shows "\<exists>r. antichain_into_option A = Inr r \<and> antichain_as_option A = Inr r \<and>
    upset le A = (case r of None \<Rightarrow> {} | Some t \<Rightarrow> {s. le t s})"
proof (cases "elements A")
  case Nil
  then show ?thesis
    by (simp add: antichain_into_option_def antichain_as_option_def upset_def)
next
  case (Cons x xs)
  then have "xs = []"
    using time_total_order.antichain_length_le_1 [OF assms] by simp
  with Cons show ?thesis
    by (simp add: antichain_into_option_def antichain_as_option_def upset_def)
qed

theorem antichain_total_order_option_witness:
  "\<exists>r. antichain_into_option \<lparr>elements = [3 :: nat]\<rparr> = Inr r \<and>
    antichain_as_option \<lparr>elements = [3 :: nat]\<rparr> = Inr r \<and>
    upset prim_less_equal \<lparr>elements = [3 :: nat]\<rparr> =
      (case r of None \<Rightarrow> {} | Some t \<Rightarrow> {s. prim_less_equal t s})"
  by (rule antichain_total_order_option [OF prim_total.time_total_order_axioms])
    (simp add: antichain_inv_def)

end
