(* ===== verification/Timestamps.thy ===== *)
theory Timestamps
  imports Antichains
begin

unbundle bit_operations_syntax

text \<open>
  Logical time: \<^verbatim>\<open>crates/dbsp/src/time/mod.rs\<close> (the \<^verbatim>\<open>Timestamp\<close> trait and its instances for
  \<^verbatim>\<open>UnitTimestamp\<close>, \<^verbatim>\<open>()\<close> and \<^verbatim>\<open>u32\<close>), \<^verbatim>\<open>nested_ts32.rs\<close> and \<^verbatim>\<open>product.rs\<close>.

  The trait is a record of operations (\<open>timestamp_ops\<close>); \<^verbatim>\<open>Product<TOuter, TInner>\<close> builds its
  record from those of its components, as the generic \<^verbatim>\<open>impl\<close> does. What the documentation of
  the trait promises is the locale \<open>timestamp\<close> and, for the clocks that can tick back,
  \<open>receding_timestamp\<close>; both are interpreted for every instance that satisfies them.
\<close>

section \<open>The Timestamp trait\<close>

record 't timestamp_ops =
  ts_less_equal :: "'t \<Rightarrow> 't \<Rightarrow> bool"
  ts_join :: "'t \<Rightarrow> 't \<Rightarrow> 't"
  ts_meet :: "'t \<Rightarrow> 't \<Rightarrow> 't"
  ts_minimum :: 't
  ts_clock_start :: 't
  ts_advance :: "'t \<Rightarrow> scope \<Rightarrow> 't res"
  ts_recede :: "'t \<Rightarrow> scope \<Rightarrow> 't res"
  ts_checked_recede :: "'t \<Rightarrow> scope \<Rightarrow> 't option"
  ts_epoch_start :: "'t \<Rightarrow> scope \<Rightarrow> 't res"
  ts_epoch_end :: "'t \<Rightarrow> scope \<Rightarrow> 't res"

section \<open>UnitTimestamp\<close>

datatype unit_timestamp = UnitTimestamp

definition unit_timestamp_ops :: "unit_timestamp timestamp_ops" where
  "unit_timestamp_ops =
     \<lparr>ts_less_equal = (\<lambda>self other. True),
      ts_join = (\<lambda>self other. UnitTimestamp),
      ts_meet = (\<lambda>self other. UnitTimestamp),
      ts_minimum = UnitTimestamp,
      ts_clock_start = UnitTimestamp,
      ts_advance = (\<lambda>self scope. Inr UnitTimestamp),
      ts_recede = (\<lambda>self scope. Inr UnitTimestamp),
      ts_checked_recede = (\<lambda>self scope. None),
      ts_epoch_start = (\<lambda>self scope. Inr UnitTimestamp),
      ts_epoch_end = (\<lambda>self scope. Inr UnitTimestamp)\<rparr>"

section \<open>The unit type\<close>

definition unit_ops :: "unit timestamp_ops" where
  "unit_ops =
     \<lparr>ts_less_equal = prim_less_equal,
      ts_join = prim_join,
      ts_meet = prim_meet,
      ts_minimum = (),
      ts_clock_start = (),
      ts_advance = (\<lambda>self scope. Inr ()),
      ts_recede = (\<lambda>self scope. Inr ()),
      ts_checked_recede = (\<lambda>self scope. Some ()),
      ts_epoch_start = (\<lambda>self scope. Inr ()),
      ts_epoch_end = (\<lambda>self scope. Inr ())\<rparr>"

section \<open>u32\<close>

definition u32_advance :: "u32 \<Rightarrow> scope \<Rightarrow> u32 res" where
  "u32_advance self scope = (if self = - 1 then Inl Overflow else Inr (self + 1))"

definition u32_recede :: "u32 \<Rightarrow> scope \<Rightarrow> u32 res" where
  "u32_recede self scope = (if self = 0 then Inl Overflow else Inr (self - 1))"

definition u32_checked_recede :: "u32 \<Rightarrow> scope \<Rightarrow> u32 option" where
  "u32_checked_recede self scope = (if self = 0 then None else Some (self - 1))"

definition u32_ops :: "u32 timestamp_ops" where
  "u32_ops =
     \<lparr>ts_less_equal = prim_less_equal,
      ts_join = prim_join,
      ts_meet = prim_meet,
      ts_minimum = 0,
      ts_clock_start = 0,
      ts_advance = u32_advance,
      ts_recede = u32_recede,
      ts_checked_recede = u32_checked_recede,
      ts_epoch_start = (\<lambda>self scope. Inr 0),
      ts_epoch_end = (\<lambda>self scope. Inr (- 1))\<rparr>"

section \<open>NestedTimestamp32\<close>

text \<open>
  One bit for the parent clock (the epoch), 31 bits for the child clock.
  \<^verbatim>\<open>NestedTimestamp32::new\<close> asserts in debug builds that its second argument leaves the epoch
  bit clear; \<open>nts_new_assert\<close> is that assertion, and the lemmas below show that no caller in
  the file can violate it.
\<close>

datatype nested_timestamp32 = NestedTimestamp32 (nts_raw: u32)

definition INNER_MASK :: u32 where
  "INNER_MASK = 0x7fffffff"

definition EPOCH_MASK :: u32 where
  "EPOCH_MASK = 0x80000000"

definition nts_new_assert :: "u32 \<Rightarrow> bool" where
  "nts_new_assert inner \<longleftrightarrow> drop_bit 31 inner = 0"

definition nts_new :: "bool \<Rightarrow> u32 \<Rightarrow> nested_timestamp32" where
  "nts_new epoch inner = NestedTimestamp32 ((if epoch then EPOCH_MASK else 0) OR inner)"

definition nts_epoch :: "nested_timestamp32 \<Rightarrow> bool" where
  "nts_epoch self \<longleftrightarrow> drop_bit 31 (nts_raw self) = 1"

definition nts_inner :: "nested_timestamp32 \<Rightarrow> u32" where
  "nts_inner self = nts_raw self AND INNER_MASK"

definition nts_less_equal :: "nested_timestamp32 \<Rightarrow> nested_timestamp32 \<Rightarrow> bool" where
  "nts_less_equal self other \<longleftrightarrow>
     (nts_epoch self \<le> nts_epoch other) \<and> prim_less_equal (nts_inner self) (nts_inner other)"

definition nts_advance :: "nested_timestamp32 \<Rightarrow> scope \<Rightarrow> nested_timestamp32 res" where
  "nts_advance self scope =
     (if scope = 0 then
        if nts_raw self AND INNER_MASK = INNER_MASK
        then Inl (Explicit ''NestedTimestamp32::advance timestamp overflow'')
        else Inr (NestedTimestamp32 (nts_raw self + 1))
      else Inr (nts_new True 0))"

definition nts_checked_recede :: "nested_timestamp32 \<Rightarrow> scope \<Rightarrow> nested_timestamp32 option" where
  "nts_checked_recede self scope =
     (if scope = 0 then
        if nts_raw self AND INNER_MASK = 0 then None
        else Some (NestedTimestamp32 (nts_raw self - 1))
      else if scope = 1 then Some (NestedTimestamp32 (nts_raw self AND INNER_MASK))
      else Some self)"

definition nts_recede :: "nested_timestamp32 \<Rightarrow> scope \<Rightarrow> nested_timestamp32 res" where
  "nts_recede self scope =
     (case nts_checked_recede self scope of
        None \<Rightarrow> Inl (Explicit ''NestedTimestamp32::recede timestamp underflow'')
      | Some t \<Rightarrow> Inr t)"

definition nts_epoch_start :: "nested_timestamp32 \<Rightarrow> scope \<Rightarrow> nested_timestamp32 res" where
  "nts_epoch_start self scope =
     (if scope = 0 then Inr (nts_new (nts_epoch self) 0)
      else if scope = 1 then Inr (nts_new False 0)
      else Inl Unreachable)"

definition nts_epoch_end :: "nested_timestamp32 \<Rightarrow> scope \<Rightarrow> nested_timestamp32 res" where
  "nts_epoch_end self scope =
     (if scope = 0 then Inr (nts_new (nts_epoch self) INNER_MASK)
      else if scope = 1 then Inr (nts_new True INNER_MASK)
      else Inl Unreachable)"

definition nts_join :: "nested_timestamp32 \<Rightarrow> nested_timestamp32 \<Rightarrow> nested_timestamp32" where
  "nts_join self other =
     nts_new (nts_epoch self \<or> nts_epoch other) (prim_join (nts_inner self) (nts_inner other))"

definition nts_meet :: "nested_timestamp32 \<Rightarrow> nested_timestamp32 \<Rightarrow> nested_timestamp32" where
  "nts_meet self other =
     nts_new (nts_epoch self \<and> nts_epoch other) (prim_meet (nts_inner self) (nts_inner other))"

definition nts_ops :: "nested_timestamp32 timestamp_ops" where
  "nts_ops =
     \<lparr>ts_less_equal = nts_less_equal,
      ts_join = nts_join,
      ts_meet = nts_meet,
      ts_minimum = nts_new False 0,
      ts_clock_start = nts_new True 0,
      ts_advance = nts_advance,
      ts_recede = nts_recede,
      ts_checked_recede = nts_checked_recede,
      ts_epoch_start = nts_epoch_start,
      ts_epoch_end = nts_epoch_end\<rparr>"

section \<open>Product\<close>

datatype ('o, 'i) product_time = Product (pt_outer: 'o) (pt_inner: 'i)

definition product_join ::
  "('o \<Rightarrow> 'o \<Rightarrow> 'o) \<Rightarrow> ('i \<Rightarrow> 'i \<Rightarrow> 'i) \<Rightarrow>
   ('o, 'i) product_time \<Rightarrow> ('o, 'i) product_time \<Rightarrow> ('o, 'i) product_time" where
  "product_join ojoin ijoin self other =
     Product (ojoin (pt_outer self) (pt_outer other)) (ijoin (pt_inner self) (pt_inner other))"

definition product_meet ::
  "('o \<Rightarrow> 'o \<Rightarrow> 'o) \<Rightarrow> ('i \<Rightarrow> 'i \<Rightarrow> 'i) \<Rightarrow>
   ('o, 'i) product_time \<Rightarrow> ('o, 'i) product_time \<Rightarrow> ('o, 'i) product_time" where
  "product_meet omeet imeet self other =
     Product (omeet (pt_outer self) (pt_outer other)) (imeet (pt_inner self) (pt_inner other))"

definition product_less_equal ::
  "('o \<Rightarrow> 'o \<Rightarrow> bool) \<Rightarrow> ('i \<Rightarrow> 'i \<Rightarrow> bool) \<Rightarrow>
   ('o, 'i) product_time \<Rightarrow> ('o, 'i) product_time \<Rightarrow> bool" where
  "product_less_equal ole ile self other \<longleftrightarrow>
     ole (pt_outer self) (pt_outer other) \<and> ile (pt_inner self) (pt_inner other)"

definition product_advance ::
  "'o timestamp_ops \<Rightarrow> 'i timestamp_ops \<Rightarrow> ('o, 'i) product_time \<Rightarrow> scope \<Rightarrow>
   ('o, 'i) product_time res" where
  "product_advance outer_ops inner_ops self scope =
     (if scope = 0 then res_map (\<lambda>i. Product (pt_outer self) i) (ts_advance inner_ops (pt_inner self) 0)
      else res_map (\<lambda>o'. Product o' (ts_minimum inner_ops))
             (ts_advance outer_ops (pt_outer self) (scope - 1)))"

definition product_recede ::
  "'o timestamp_ops \<Rightarrow> 'i timestamp_ops \<Rightarrow> ('o, 'i) product_time \<Rightarrow> scope \<Rightarrow>
   ('o, 'i) product_time res" where
  "product_recede outer_ops inner_ops self scope =
     (if scope = 0 then res_map (\<lambda>i. Product (pt_outer self) i) (ts_recede inner_ops (pt_inner self) 0)
      else res_map (\<lambda>o'. Product o' (pt_inner self))
             (ts_recede outer_ops (pt_outer self) (scope - 1)))"

definition product_checked_recede ::
  "'o timestamp_ops \<Rightarrow> 'i timestamp_ops \<Rightarrow> ('o, 'i) product_time \<Rightarrow> scope \<Rightarrow>
   ('o, 'i) product_time option" where
  "product_checked_recede outer_ops inner_ops self scope =
     (if scope = 0 then
        map_option (\<lambda>inner. Product (pt_outer self) inner)
          (ts_checked_recede inner_ops (pt_inner self) 0)
      else
        map_option (\<lambda>outer. Product outer (pt_inner self))
          (ts_checked_recede outer_ops (pt_outer self) (scope - 1)))"

definition product_epoch_start ::
  "'o timestamp_ops \<Rightarrow> 'i timestamp_ops \<Rightarrow> ('o, 'i) product_time \<Rightarrow> scope \<Rightarrow>
   ('o, 'i) product_time res" where
  "product_epoch_start outer_ops inner_ops self scope =
     (if scope = 0 then Inr (Product (pt_outer self) (ts_minimum inner_ops))
      else res_map (\<lambda>o'. Product o' (ts_minimum inner_ops))
             (ts_epoch_start outer_ops (pt_outer self) (scope - 1)))"

definition product_epoch_end ::
  "'o timestamp_ops \<Rightarrow> 'i timestamp_ops \<Rightarrow> ('o, 'i) product_time \<Rightarrow> scope \<Rightarrow>
   ('o, 'i) product_time res" where
  "product_epoch_end outer_ops inner_ops self scope =
     (if scope = 0 then res_map (\<lambda>i. Product (pt_outer self) i)
        (ts_epoch_end inner_ops (pt_inner self) 0)
      else res_bind (ts_epoch_end outer_ops (pt_outer self) (scope - 1))
             (\<lambda>o'. res_map (\<lambda>i. Product o' i) (ts_epoch_end inner_ops (pt_inner self) 0)))"

definition product_ops ::
  "'o timestamp_ops \<Rightarrow> 'i timestamp_ops \<Rightarrow> ('o, 'i) product_time timestamp_ops" where
  "product_ops outer_ops inner_ops =
     \<lparr>ts_less_equal = product_less_equal (ts_less_equal outer_ops) (ts_less_equal inner_ops),
      ts_join = product_join (ts_join outer_ops) (ts_join inner_ops),
      ts_meet = product_meet (ts_meet outer_ops) (ts_meet inner_ops),
      ts_minimum = Product (ts_minimum outer_ops) (ts_minimum inner_ops),
      ts_clock_start = Product (ts_clock_start outer_ops) (ts_clock_start inner_ops),
      ts_advance = product_advance outer_ops inner_ops,
      ts_recede = product_recede outer_ops inner_ops,
      ts_checked_recede = product_checked_recede outer_ops inner_ops,
      ts_epoch_start = product_epoch_start outer_ops inner_ops,
      ts_epoch_end = product_epoch_end outer_ops inner_ops\<rparr>"

section \<open>The bits of a nested timestamp\<close>

lemma INNER_MASK_mask: "INNER_MASK = mask 31"
  by (simp add: INNER_MASK_def mask_eq_exp_minus_1)

lemma nts_inner_take_bit: "nts_inner t = take_bit 31 (nts_raw t)"
  by (simp add: nts_inner_def INNER_MASK_mask take_bit_eq_mask)

lemma unat_nts_inner: "unat (nts_inner t) = unat (nts_raw t) mod 2 ^ 31"
  by (simp only: nts_inner_take_bit unat_take_bit_31)

lemma nts_epoch_iff: "nts_epoch t \<longleftrightarrow> 2 ^ 31 \<le> unat (nts_raw t)"
proof -
  have "nts_epoch t \<longleftrightarrow> unat (nts_raw t) div 2 ^ 31 = 1"
    unfolding nts_epoch_def by (simp only: word_unat_eq_iff unat_drop_bit_31 unat_1)
  then show ?thesis
    using unat_u32_less [of "nts_raw t"] by auto
qed

lemma nts_raw_decomp:
  "unat (nts_raw t) = (if nts_epoch t then 2 ^ 31 else 0) + unat (nts_inner t)"
  using unat_u32_less [of "nts_raw t"] by (auto simp: nts_epoch_iff unat_nts_inner le_mod_geq)

lemma nts_of_unat:
  assumes "unat (nts_raw t) = (if e then 2 ^ 31 else 0) + i" and "i < 2 ^ 31"
  shows "nts_epoch t = e" and "unat (nts_inner t) = i"
proof -
  show "nts_epoch t = e" using assms unfolding nts_epoch_iff by auto
  show "unat (nts_inner t) = i"
    using assms unfolding unat_nts_inner by (cases e) (simp_all only: mod_add_self1 if_True if_False mod_less add_0)
qed

lemma nts_inner_less: "unat (nts_inner t) < 2 ^ 31"
  by (simp add: unat_nts_inner)

lemma nts_new_assert_iff: "nts_new_assert i \<longleftrightarrow> unat i < 2 ^ 31"
proof -
  have "nts_new_assert i \<longleftrightarrow> unat i div 2 ^ 31 = 0"
    unfolding nts_new_assert_def by (simp only: word_unat_eq_iff unat_drop_bit_31 unat_0)
  then show ?thesis by auto
qed

lemma unat_nts_new:
  assumes "nts_new_assert i"
  shows "unat (nts_raw (nts_new e i)) = (if e then 2 ^ 31 else 0) + unat i"
proof (cases e)
  case True
  have "EPOCH_MASK AND i = 0"
  proof (rule bit_word_eqI)
    fix n
    assume "n < LENGTH(32)"
    have exp: "EPOCH_MASK = 2 ^ 31" by (simp add: EPOCH_MASK_def)
    have "bit EPOCH_MASK n \<longrightarrow> n = 31" unfolding exp bit_exp_iff by blast
    moreover have "\<not> bit i 31"
    proof -
      have "bit (drop_bit 31 i) 0 = bit i 31"
        by (simp only: bit_drop_bit_eq o_apply add_0_right)
      with assms show ?thesis unfolding nts_new_assert_def by (simp only: bit_0_eq) simp
    qed
    ultimately show "bit (EPOCH_MASK AND i) n = bit 0 n"
      by (auto simp: bit_and_iff)
  qed
  then have "EPOCH_MASK OR i = EPOCH_MASK + i" by (simp add: disjunctive_add_eq_or)
  moreover have "unat (EPOCH_MASK + i) = unat EPOCH_MASK + unat i"
    using assms by (simp add: nts_new_assert_iff EPOCH_MASK_def unat_word_ariths)
  ultimately show ?thesis using True by (simp add: nts_new_def EPOCH_MASK_def)
next
  case False
  then show ?thesis by (simp add: nts_new_def)
qed

lemma nts_epoch_new [simp]: "nts_new_assert i \<Longrightarrow> nts_epoch (nts_new e i) = e"
  by (rule nts_of_unat [OF unat_nts_new]) (simp_all only: nts_new_assert_iff)

lemma nts_inner_new [simp]: "nts_new_assert i \<Longrightarrow> nts_inner (nts_new e i) = i"
  by (rule unat_u32_eqI, rule nts_of_unat [OF unat_nts_new]) (simp_all only: nts_new_assert_iff)

lemma nts_eqI: "nts_epoch a = nts_epoch b \<Longrightarrow> nts_inner a = nts_inner b \<Longrightarrow> a = b"
  using nts_raw_decomp [of a] nts_raw_decomp [of b] unat_u32_eqI [of "nts_raw a" "nts_raw b"]
  by (auto intro: nested_timestamp32.expand)

lemma nts_assert_inner [simp]: "nts_new_assert (nts_inner t)"
  by (simp only: nts_new_assert_iff nts_inner_less)

lemma nts_assert_0 [simp]: "nts_new_assert 0"
  by (simp add: nts_new_assert_iff)

lemma nts_assert_mask [simp]: "nts_new_assert INNER_MASK"
  by (simp add: nts_new_assert_iff INNER_MASK_def)

lemma nts_assert_join [simp]: "nts_new_assert (prim_join (nts_inner a) (nts_inner b))"
  and nts_assert_meet [simp]: "nts_new_assert (prim_meet (nts_inner a) (nts_inner b))"
  by (simp_all add: prim_defs max_def min_def)

lemma nts_new_inverse: "nts_new (nts_epoch t) (nts_inner t) = t"
  by (rule nts_eqI) simp_all

lemma nts_inner_le_mask: "nts_inner t \<le> INNER_MASK"
  using nts_inner_less [of t] by (simp add: word_le_nat_alt INNER_MASK_def)

lemma nts_less_equal_iff:
  "nts_less_equal a b \<longleftrightarrow> (nts_epoch a \<longrightarrow> nts_epoch b) \<and> nts_inner a \<le> nts_inner b"
  by (simp add: nts_less_equal_def prim_defs le_bool_def)

text \<open>Ticking the child clock: the guard keeps the carry out of the epoch bit.\<close>

lemma nts_tick:
  assumes "nts_inner t \<noteq> INNER_MASK"
  shows "nts_epoch (NestedTimestamp32 (nts_raw t + 1)) = nts_epoch t"
    and "nts_inner (NestedTimestamp32 (nts_raw t + 1)) = nts_inner t + 1"
proof -
  have less: "unat (nts_inner t) < 2 ^ 31 - 1"
    using assms nts_inner_less [of t] by (auto simp: word_unat_eq_iff INNER_MASK_def)
  then have raw: "unat (nts_raw t + 1) = unat (nts_raw t) + 1"
    using nts_raw_decomp [of t] by (simp add: unat_word_ariths split: if_splits)
  then have dec: "unat (nts_raw (NestedTimestamp32 (nts_raw t + 1))) =
      (if nts_epoch t then 2 ^ 31 else 0) + (unat (nts_inner t) + 1)"
    using nts_raw_decomp [of t] by simp
  show "nts_epoch (NestedTimestamp32 (nts_raw t + 1)) = nts_epoch t"
    by (rule nts_of_unat [OF dec]) (use less in simp)
  have "unat (nts_inner (NestedTimestamp32 (nts_raw t + 1))) = unat (nts_inner t) + 1"
    by (rule nts_of_unat [OF dec]) (use less in simp)
  then show "nts_inner (NestedTimestamp32 (nts_raw t + 1)) = nts_inner t + 1"
    using less by (intro unat_u32_eqI) (simp add: unat_word_ariths)
qed

lemma nts_tick_back:
  assumes "nts_inner t \<noteq> 0"
  shows "nts_epoch (NestedTimestamp32 (nts_raw t - 1)) = nts_epoch t"
    and "nts_inner (NestedTimestamp32 (nts_raw t - 1)) = nts_inner t - 1"
proof -
  have pos: "0 < unat (nts_inner t)"
    using assms by (simp add: word_unat_eq_iff)
  then have "nts_raw t \<noteq> 0" using nts_raw_decomp [of t] by (auto simp: word_unat_eq_iff)
  then have raw: "unat (nts_raw t - 1) = unat (nts_raw t) - 1"
    by (simp add: unat_minus_one)
  then have dec: "unat (nts_raw (NestedTimestamp32 (nts_raw t - 1))) =
      (if nts_epoch t then 2 ^ 31 else 0) + (unat (nts_inner t) - 1)"
    using pos nts_raw_decomp [of t] by simp
  show "nts_epoch (NestedTimestamp32 (nts_raw t - 1)) = nts_epoch t"
    by (rule nts_of_unat [OF dec]) (use nts_inner_less [of t] in simp)
  have "unat (nts_inner (NestedTimestamp32 (nts_raw t - 1))) = unat (nts_inner t) - 1"
    by (rule nts_of_unat [OF dec]) (use nts_inner_less [of t] in simp)
  then show "nts_inner (NestedTimestamp32 (nts_raw t - 1)) = nts_inner t - 1"
    using assms by (intro unat_u32_eqI) (simp add: unat_minus_one)
qed

lemmas nts_defs = nts_advance_def nts_checked_recede_def nts_recede_def nts_epoch_start_def
  nts_epoch_end_def nts_join_def nts_meet_def


section \<open>What the documentation of the trait promises\<close>

text \<open>
  \<open>timestamp\<close>: the times form a lattice with a least element; a tick of the innermost clock
  moves forward; a time that is pushed back is not later; the time lies between the start and
  the end of its epoch. Ticks of an outer clock reset the inner clocks and are incomparable
  with the old time in general, so only scope 0 is monotone.
\<close>

locale timestamp =
  fixes ops :: "'t timestamp_ops"
  assumes lattice: "time_lattice (ts_less_equal ops) (ts_join ops) (ts_meet ops)"
    and minimum_le: "ts_less_equal ops (ts_minimum ops) t"
    and advance_le: "ts_advance ops t 0 = Inr t' \<Longrightarrow> ts_less_equal ops t t'"
    and checked_recede_le: "ts_checked_recede ops t s = Some t' \<Longrightarrow> ts_less_equal ops t' t"
    and epoch_start_le: "ts_epoch_start ops t s = Inr t' \<Longrightarrow> ts_less_equal ops t' t"
    and epoch_end_ge: "ts_epoch_end ops t s = Inr t' \<Longrightarrow> ts_less_equal ops t t'"
begin

lemma order: "time_order (ts_less_equal ops)"
  using lattice by (simp add: time_lattice_def)

lemma epoch_start_le_end:
  assumes "ts_epoch_start ops t s = Inr b" and "ts_epoch_end ops t s = Inr e"
  shows "ts_less_equal ops b e"
  using epoch_start_le [OF assms(1)] epoch_end_ge [OF assms(2)] order
  by (meson time_order.axioms(1) time_preorder.le_trans)

end

text \<open>
  \<open>receding_timestamp\<close>: \<^verbatim>\<open>recede\<close> returns exactly when \<^verbatim>\<open>checked_recede\<close> yields a time, and
  pushing back undoes a tick of the innermost clock.
\<close>

locale receding_timestamp = timestamp ops for ops :: "'t timestamp_ops" +
  assumes recede_checked: "ts_recede ops t s = Inr t' \<longleftrightarrow> ts_checked_recede ops t s = Some t'"
    and recede_advance: "ts_advance ops t 0 = Inr t' \<Longrightarrow> ts_checked_recede ops t' 0 = Some t"
begin

lemma recede_panics_iff: "(\<exists>e. ts_recede ops t s = Inl e) \<longleftrightarrow> ts_checked_recede ops t s = None"
  using recede_checked [of t s] by (cases "ts_recede ops t s") auto

end

section \<open>Instances\<close>

lemma unit_timestamp_eq: "(a :: unit_timestamp) = b"
  by (cases a; cases b) simp

interpretation unit_ts: timestamp unit_timestamp_ops
proof (rule timestamp.intro)
  show "time_lattice (ts_less_equal unit_timestamp_ops) (ts_join unit_timestamp_ops)
      (ts_meet unit_timestamp_ops)"
    by unfold_locales (simp_all add: unit_timestamp_ops_def unit_timestamp_eq)
qed (simp_all add: unit_timestamp_ops_def)

interpretation unit_time: receding_timestamp unit_ops
  by unfold_locales (auto simp: unit_ops_def prim_defs)

lemma u32_tick: "t \<noteq> - 1 \<Longrightarrow> t \<le> t + (1 :: u32)"
proof -
  assume "t \<noteq> - 1"
  then have "unat t \<noteq> 2 ^ 32 - 1" unfolding word_unat_eq_iff unat_u32_max .
  then have "unat (t + 1) = unat t + 1"
    using unat_u32_less [of t] by (simp add: unat_word_ariths)
  then show ?thesis by (simp add: word_le_nat_alt)
qed

lemma u32_tick_back: "t \<noteq> 0 \<Longrightarrow> t - 1 \<le> (t :: u32)"
  by (simp add: word_le_nat_alt unat_minus_one)

lemma u32_succ_nonzero: "t \<noteq> - 1 \<Longrightarrow> t + 1 \<noteq> (0 :: u32)"
  by (metis add.commute add_eq_0_iff)

interpretation u32_time: receding_timestamp u32_ops
proof
  show "ts_less_equal u32_ops t t'" if "ts_advance u32_ops t 0 = Inr t'" for t t'
    using that by (auto simp: u32_ops_def u32_advance_def prim_defs u32_tick split: if_splits)
  show "ts_checked_recede u32_ops t' 0 = Some t" if "ts_advance u32_ops t 0 = Inr t'" for t t'
    using that
    by (auto simp: u32_ops_def u32_advance_def u32_checked_recede_def u32_succ_nonzero
        split: if_splits)
  show "ts_less_equal u32_ops t' t" if "ts_checked_recede u32_ops t s = Some t'" for t t' s
    using that
    by (auto simp: u32_ops_def u32_checked_recede_def prim_defs u32_tick_back split: if_splits)
qed (auto simp: u32_ops_def prim_defs u32_recede_def u32_checked_recede_def)

lemma nts_join_simps [simp]:
  "nts_epoch (nts_join a b) \<longleftrightarrow> nts_epoch a \<or> nts_epoch b"
  "nts_inner (nts_join a b) = max (nts_inner a) (nts_inner b)"
  by (simp_all add: nts_join_def) (simp add: prim_defs)

lemma nts_meet_simps [simp]:
  "nts_epoch (nts_meet a b) \<longleftrightarrow> nts_epoch a \<and> nts_epoch b"
  "nts_inner (nts_meet a b) = min (nts_inner a) (nts_inner b)"
  by (simp_all add: nts_meet_def) (simp add: prim_defs)

lemma nts_order: "time_order nts_less_equal"
proof
  show "a = b" if "nts_less_equal a b" "nts_less_equal b a" for a b
    by (rule nts_eqI) (use that in \<open>auto simp: nts_less_equal_iff\<close>)
qed (auto simp: nts_less_equal_iff)

lemma nts_lattice: "time_lattice nts_less_equal nts_join nts_meet"
  using nts_order unfolding time_lattice_def time_lattice_axioms_def
  by (auto simp: nts_less_equal_iff)

lemma nts_inner_tick_le: "nts_inner t \<noteq> INNER_MASK \<Longrightarrow> nts_inner t \<le> nts_inner t + 1"
  using nts_inner_less [of t] by (intro u32_tick) (auto simp: unat_u32_max)

lemma nts_recede_clears_epoch:
  "nts_epoch (NestedTimestamp32 (nts_raw t AND INNER_MASK)) = False"
  "nts_inner (NestedTimestamp32 (nts_raw t AND INNER_MASK)) = nts_inner t"
proof -
  have dec: "unat (nts_raw (NestedTimestamp32 (nts_raw t AND INNER_MASK))) =
      (if False then 2 ^ 31 else 0) + unat (nts_inner t)"
    by (simp add: nts_inner_def)
  show "nts_epoch (NestedTimestamp32 (nts_raw t AND INNER_MASK)) = False"
    by (rule nts_of_unat [OF dec nts_inner_less])
  show "nts_inner (NestedTimestamp32 (nts_raw t AND INNER_MASK)) = nts_inner t"
    by (rule unat_u32_eqI, rule nts_of_unat [OF dec nts_inner_less])
qed

lemma nts_tick_nonzero: "nts_inner t \<noteq> INNER_MASK \<Longrightarrow> nts_inner t + 1 \<noteq> 0"
  using nts_inner_less [of t] by (intro u32_succ_nonzero) (auto simp: unat_u32_max)

lemma nts_advance_0:
  "nts_advance t 0 =
     (if nts_inner t = INNER_MASK
      then Inl (Explicit ''NestedTimestamp32::advance timestamp overflow'')
      else Inr (NestedTimestamp32 (nts_raw t + 1)))"
  by (simp add: nts_advance_def nts_inner_def)

lemma nts_checked_recede_0:
  "nts_checked_recede t 0 =
     (if nts_inner t = 0 then None else Some (NestedTimestamp32 (nts_raw t - 1)))"
  by (simp add: nts_checked_recede_def nts_inner_def)

interpretation nested_time: receding_timestamp nts_ops
proof (rule receding_timestamp.intro; (rule timestamp.intro | rule receding_timestamp_axioms.intro))
  show "time_lattice (ts_less_equal nts_ops) (ts_join nts_ops) (ts_meet nts_ops)"
    by (simp add: nts_ops_def nts_lattice)
  show "ts_less_equal nts_ops (ts_minimum nts_ops) t" for t
    by (simp add: nts_ops_def nts_less_equal_iff)
  show "ts_less_equal nts_ops t t'" if "ts_advance nts_ops t 0 = Inr t'" for t t'
    using that
    by (auto simp: nts_ops_def nts_less_equal_iff nts_advance_0 nts_tick nts_inner_tick_le
        split: if_splits)
  show "ts_less_equal nts_ops t' t" if "ts_checked_recede nts_ops t s = Some t'" for t t' s
  proof (cases "s = 0")
    case True
    then show ?thesis
      using that
      by (auto simp: nts_ops_def nts_less_equal_iff nts_checked_recede_0 nts_tick_back u32_tick_back
          split: if_splits)
  next
    case False
    then show ?thesis
      using that
      by (auto simp: nts_ops_def nts_less_equal_iff nts_checked_recede_def nts_recede_clears_epoch
          split: if_splits)
  qed
  show "ts_less_equal nts_ops t' t" if "ts_epoch_start nts_ops t s = Inr t'" for t t' s
    using that
    by (auto simp: nts_ops_def nts_less_equal_iff nts_epoch_start_def split: if_splits)
  show "ts_less_equal nts_ops t t'" if "ts_epoch_end nts_ops t s = Inr t'" for t t' s
    using that
    by (auto simp: nts_ops_def nts_less_equal_iff nts_epoch_end_def nts_inner_le_mask
        split: if_splits)
  show "ts_recede nts_ops t s = Inr t' \<longleftrightarrow> ts_checked_recede nts_ops t s = Some t'" for t t' s
    by (simp add: nts_ops_def nts_recede_def split: option.split)
  show "ts_checked_recede nts_ops t' 0 = Some t" if "ts_advance nts_ops t 0 = Inr t'" for t t'
    using that
    by (auto simp: nts_ops_def nts_advance_0 nts_checked_recede_0 nts_tick nts_tick_nonzero
        split: if_splits)
qed

section \<open>Products of clocks\<close>

locale product_clock =
  oc: timestamp outer_ops + ic: timestamp inner_ops
  for outer_ops :: "'o timestamp_ops" and inner_ops :: "'i timestamp_ops"
begin

lemma product_lattice:
  "time_lattice (ts_less_equal (product_ops outer_ops inner_ops)) (ts_join (product_ops outer_ops inner_ops))
     (ts_meet (product_ops outer_ops inner_ops))"
proof -
  note laws = oc.lattice ic.lattice
  have order: "time_order (ts_less_equal (product_ops outer_ops inner_ops))"
    using laws
    unfolding time_lattice_def time_order_def time_order_axioms_def time_preorder_def
    by (simp add: product_ops_def product_less_equal_def) (blast intro: product_time.expand)
  show ?thesis
    using laws order unfolding time_lattice_def time_lattice_axioms_def
    by (simp add: product_ops_def product_less_equal_def product_join_def product_meet_def)
qed

lemma le_reflexive:
  "ts_less_equal outer_ops a a" "ts_less_equal inner_ops b b"
  using oc.order ic.order by (simp_all add: time_order_def time_preorder_def)

lemma product_timestamp: "timestamp (product_ops outer_ops inner_ops)"
proof (rule timestamp.intro)
  show "time_lattice (ts_less_equal (product_ops outer_ops inner_ops)) (ts_join (product_ops outer_ops inner_ops))
     (ts_meet (product_ops outer_ops inner_ops))" by (rule product_lattice)
qed (auto simp: product_ops_def product_less_equal_def product_advance_def
    product_checked_recede_def product_epoch_start_def product_epoch_end_def le_reflexive
    oc.minimum_le ic.minimum_le panic_simps oc.advance_le ic.advance_le oc.checked_recede_le
    ic.checked_recede_le oc.epoch_start_le oc.epoch_end_ge ic.epoch_end_ge split: if_splits)

end

sublocale product_clock \<subseteq> prod: timestamp "product_ops outer_ops inner_ops"
  by (rule product_timestamp)

locale receding_product_clock = oc: receding_timestamp outer_ops + ic: receding_timestamp inner_ops
  for outer_ops :: "'o timestamp_ops" and inner_ops :: "'i timestamp_ops"
begin

lemma product_receding: "receding_timestamp (product_ops outer_ops inner_ops)"
proof -
  have "product_clock outer_ops inner_ops" by unfold_locales
  then have "timestamp (product_ops outer_ops inner_ops)" by (rule product_clock.product_timestamp)
  moreover have "receding_timestamp_axioms (product_ops outer_ops inner_ops)"
    by (rule receding_timestamp_axioms.intro)
      (auto simp: product_ops_def product_recede_def product_checked_recede_def
        product_advance_def panic_simps oc.recede_checked ic.recede_checked ic.recede_advance
        split: if_splits)
  ultimately show ?thesis by (simp add: receding_timestamp_def)
qed

end

interpretation product_time: receding_product_clock nts_ops u32_ops
  by unfold_locales

text \<open>\<^verbatim>\<open>Product<NestedTimestamp32, u32>\<close> is the \<^verbatim>\<open>Nested\<close> time of \<^verbatim>\<open>NestedTimestamp32\<close>.\<close>

interpretation nested_product: receding_timestamp "product_ops nts_ops u32_ops"
  by (rule product_time.product_receding)

section \<open>Properties\<close>

text \<open>
  C30. \<^verbatim>\<open>NestedTimestamp32\<close> packs an epoch bit and a 31-bit inner time into 32 bits without loss:
  \<^verbatim>\<open>new\<close> followed by the accessors gives back the parts, and every raw value is the packing of
  its own parts, whose inner time passes the assertion of \<^verbatim>\<open>new\<close>.
\<close>

theorem nts_pack_unpack:
  assumes "nts_new_assert i"
  shows "nts_epoch (nts_new e i) = e \<and> nts_inner (nts_new e i) = i \<and>
    nts_new_assert (nts_inner t) \<and> nts_new (nts_epoch t) (nts_inner t) = t"
  using assms by (simp add: nts_new_inverse)

theorem nts_pack_unpack_witness:
  "nts_epoch (nts_new True 5) \<and> nts_inner (nts_new True 5) = 5 \<and>
    nts_new (nts_epoch (NestedTimestamp32 2147483653)) (nts_inner (NestedTimestamp32 2147483653)) =
      NestedTimestamp32 2147483653"
  using nts_pack_unpack [of 5 True "NestedTimestamp32 2147483653"]
  by (simp add: nts_new_assert_iff)

text \<open>
  The nested clock \<^verbatim>\<open>Product<NestedTimestamp32, u32>\<close>: a tick of the innermost clock moves
  forward and \<^verbatim>\<open>checked_recede\<close> undoes it; \<^verbatim>\<open>recede\<close> returns exactly when
  \<^verbatim>\<open>checked_recede\<close> yields a time; a receded time is not later; the time lies between the start
  and the end of its epoch in every scope.
\<close>

theorem product_clock_laws:
  defines "P \<equiv> product_ops nts_ops u32_ops"
  shows "(ts_advance P t 0 = Inr t' \<longrightarrow> ts_less_equal P t t' \<and> ts_checked_recede P t' 0 = Some t) \<and>
    (ts_recede P t s = Inr t' \<longleftrightarrow> ts_checked_recede P t s = Some t') \<and>
    (ts_checked_recede P t s = Some t' \<longrightarrow> ts_less_equal P t' t) \<and>
    (ts_epoch_start P t s = Inr t' \<longrightarrow> ts_less_equal P t' t) \<and>
    (ts_epoch_end P t s = Inr t' \<longrightarrow> ts_less_equal P t t')"
  unfolding P_def
  using nested_product.advance_le nested_product.recede_advance nested_product.recede_checked
    nested_product.checked_recede_le nested_product.epoch_start_le nested_product.epoch_end_ge
  by blast

theorem product_clock_laws_witness:
  "ts_advance (product_ops nts_ops u32_ops) (Product (NestedTimestamp32 3) 5) 0 =
      Inr (Product (NestedTimestamp32 3) 6) \<and>
    ts_checked_recede (product_ops nts_ops u32_ops) (Product (NestedTimestamp32 3) 6) 0 =
      Some (Product (NestedTimestamp32 3) 5)"
proof -
  have adv: "ts_advance (product_ops nts_ops u32_ops) (Product (NestedTimestamp32 3) 5) 0 =
      Inr (Product (NestedTimestamp32 3) 6)"
    by (simp add: product_ops_def product_advance_def u32_ops_def u32_advance_def)
  then show ?thesis
    using product_clock_laws [of "Product (NestedTimestamp32 3) 5" "Product (NestedTimestamp32 3) 6" 0]
    by blast
qed

text \<open>
  C31. \<^verbatim>\<open>Lattice::advance_by\<close> at \<^verbatim>\<open>NestedTimestamp32\<close> and a non-empty frontier: the advanced time
  compares with every time at or beyond the frontier as the original does, and it is the
  latest time that does.
\<close>

theorem nts_advance_by_optimal:
  assumes "fr \<noteq> []"
  shows "(\<forall>f \<in> set fr. \<forall>t. nts_less_equal f t \<longrightarrow>
      (nts_less_equal (advance_by nts_join nts_meet s fr) t \<longleftrightarrow> nts_less_equal s t)) \<and>
    (\<forall>x. (\<forall>f \<in> set fr. \<forall>t. nts_less_equal f t \<longrightarrow>
        (nts_less_equal x t \<longleftrightarrow> nts_less_equal s t)) \<longrightarrow>
      nts_less_equal x (advance_by nts_join nts_meet s fr))"
  using time_lattice.advance_by_indistinguishable [OF nts_lattice, of _ fr _ s]
    time_lattice.advance_by_largest [OF nts_lattice assms, of _ s]
  by blast

theorem nts_advance_by_optimal_witness:
  "nts_less_equal (advance_by nts_join nts_meet (NestedTimestamp32 1) [NestedTimestamp32 4])
      (NestedTimestamp32 6) \<longleftrightarrow>
    nts_less_equal (NestedTimestamp32 1) (NestedTimestamp32 6)"
proof -
  have "nts_less_equal (NestedTimestamp32 4) (NestedTimestamp32 6)"
    by (simp add: nts_less_equal_def nts_epoch_def nts_inner_def INNER_MASK_def EPOCH_MASK_def
        prim_defs)
  then show ?thesis
    using nts_advance_by_optimal [of "[NestedTimestamp32 4]" "NestedTimestamp32 1"] by simp
qed

end
