(* ===== verification/Weights.thy ===== *)
theory Weights
  imports Prelude
begin

text \<open>
  Weights and their arithmetic: \<^verbatim>\<open>crates/dbsp/src/algebra/checked_int.rs\<close>,
  \<^verbatim>\<open>crates/dbsp/src/algebra/present.rs\<close> and the scalar products of
  \<^verbatim>\<open>crates/dbsp/src/algebra/mod.rs\<close>.

  The traits \<^verbatim>\<open>HasZero\<close>, \<^verbatim>\<open>MonoidValue\<close> and \<^verbatim>\<open>GroupValue\<close> ask for a commutative monoid or
  group; the other theories state them as the type classes \<open>comm_monoid_add\<close> and
  \<open>ab_group_add\<close>, with \<open>is_zero x\<close> written \<open>x = 0\<close>. This theory treats the machine
  integers, where the laws hold up to the width of the type: a signed \<open>n\<close>-bit integer is an
  \<open>n\<close>-bit word read by \<open>sint\<close>.
\<close>

section \<open>Checked arithmetic of the signed primitive types\<close>

definition in_signed_range :: "nat \<Rightarrow> int \<Rightarrow> bool" where
  "in_signed_range n x \<longleftrightarrow> - (2 ^ (n - 1)) \<le> x \<and> x < 2 ^ (n - 1)"

definition checked_add_signed :: "'n::len word \<Rightarrow> 'n word \<Rightarrow> 'n word option" where
  "checked_add_signed a b =
     (if in_signed_range LENGTH('n) (sint a + sint b) then Some (a + b) else None)"

definition checked_mul_signed :: "'n::len word \<Rightarrow> 'n word \<Rightarrow> 'n word option" where
  "checked_mul_signed a b =
     (if in_signed_range LENGTH('n) (sint a * sint b) then Some (a * b) else None)"

definition checked_neg_signed :: "'n::len word \<Rightarrow> 'n word option" where
  "checked_neg_signed a = (if in_signed_range LENGTH('n) (- sint a) then Some (- a) else None)"

section \<open>CheckedInt\<close>

text \<open>
  \<^verbatim>\<open>CheckedInt<T>\<close> panics when the checked operation of \<open>T\<close> fails. The checked operations
  are arguments, as in the generic implementation.
\<close>

record 'a checked_int =
  ci_value :: 'a

definition checked_int_overflow :: panic where
  "checked_int_overflow = Explicit ''an operation on a CheckedInt overflowed or underflowed''"

definition checked_int_new :: "'a \<Rightarrow> 'a checked_int" where
  "checked_int_new v = \<lparr>ci_value = v\<rparr>"

definition checked_int_into_inner :: "'a checked_int \<Rightarrow> 'a" where
  "checked_int_into_inner self = ci_value self"

definition unwrap_or_overflow :: "'a option \<Rightarrow> 'a checked_int res" where
  "unwrap_or_overflow x =
     (case x of None \<Rightarrow> Inl checked_int_overflow | Some v \<Rightarrow> Inr \<lparr>ci_value = v\<rparr>)"

definition checked_int_add ::
  "('a \<Rightarrow> 'a \<Rightarrow> 'a option) \<Rightarrow> 'a checked_int \<Rightarrow> 'a checked_int \<Rightarrow> 'a checked_int res" where
  "checked_int_add checked_add self other =
     unwrap_or_overflow (checked_add (ci_value self) (ci_value other))"

definition checked_int_add_by_ref ::
  "('a \<Rightarrow> 'a \<Rightarrow> 'a option) \<Rightarrow> 'a checked_int \<Rightarrow> 'a checked_int \<Rightarrow> 'a checked_int res" where
  "checked_int_add_by_ref checked_add self other =
     unwrap_or_overflow (checked_add (ci_value self) (ci_value other))"

definition checked_int_add_assign ::
  "('a \<Rightarrow> 'a \<Rightarrow> 'a option) \<Rightarrow> 'a checked_int \<Rightarrow> 'a checked_int \<Rightarrow> 'a checked_int res" where
  "checked_int_add_assign checked_add self other =
     unwrap_or_overflow (checked_add (ci_value self) (ci_value other))"

definition checked_int_add_assign_by_ref ::
  "('a \<Rightarrow> 'a \<Rightarrow> 'a option) \<Rightarrow> 'a checked_int \<Rightarrow> 'a checked_int \<Rightarrow> 'a checked_int res" where
  "checked_int_add_assign_by_ref checked_add self other =
     unwrap_or_overflow (checked_add (ci_value self) (ci_value other))"

definition checked_int_mul_by_ref ::
  "('a \<Rightarrow> 'a \<Rightarrow> 'a option) \<Rightarrow> 'a checked_int \<Rightarrow> 'a checked_int \<Rightarrow> 'a checked_int res" where
  "checked_int_mul_by_ref checked_mul self rhs =
     unwrap_or_overflow (checked_mul (ci_value self) (ci_value rhs))"

definition checked_int_neg_by_ref ::
  "('a \<Rightarrow> 'a option) \<Rightarrow> 'a checked_int \<Rightarrow> 'a checked_int res" where
  "checked_int_neg_by_ref checked_neg self = unwrap_or_overflow (checked_neg (ci_value self))"

definition checked_int_neg ::
  "('a \<Rightarrow> 'a option) \<Rightarrow> 'a checked_int \<Rightarrow> 'a checked_int res" where
  "checked_int_neg checked_neg self = unwrap_or_overflow (checked_neg (ci_value self))"

definition checked_int_is_zero :: "('a \<Rightarrow> bool) \<Rightarrow> 'a checked_int \<Rightarrow> bool" where
  "checked_int_is_zero is_zero self \<longleftrightarrow> is_zero (ci_value self)"

definition checked_int_zero :: "'a \<Rightarrow> 'a checked_int" where
  "checked_int_zero zero = checked_int_new zero"

definition checked_int_one :: "'a \<Rightarrow> 'a checked_int" where
  "checked_int_one one = checked_int_new one"

section \<open>Scalar products\<close>

text \<open>
  \<^verbatim>\<open>impl MulByRef<isize> for i32\<close> widens to 64 bits, multiplies (an overflow check of the
  build) and casts back, which keeps the low bits. \<open>mul_cast\<close> is the expression
  \<^verbatim>\<open>(*self as isize * w) as Self\<close>.
\<close>

definition mul_overflow_checked :: "'n::len word \<Rightarrow> 'n word \<Rightarrow> 'n word res" where
  "mul_overflow_checked a b =
     (case checked_mul_signed a b of None \<Rightarrow> Inl Overflow | Some c \<Rightarrow> Inr c)"

definition i32_mul_by_ref :: "32 word \<Rightarrow> 64 word \<Rightarrow> 32 word res" where
  "i32_mul_by_ref self w =
     res_map (scast :: 64 word \<Rightarrow> 32 word) (mul_overflow_checked (scast self :: 64 word) w)"

definition i64_mul_by_ref :: "64 word \<Rightarrow> 64 word \<Rightarrow> 64 word res" where
  "i64_mul_by_ref self w = mul_overflow_checked self w"

definition opt_i32_mul_by_ref :: "32 word option \<Rightarrow> 64 word \<Rightarrow> 32 word option res" where
  "opt_i32_mul_by_ref self w =
     (case self of None \<Rightarrow> Inr None | Some x \<Rightarrow> res_map Some (i32_mul_by_ref x w))"

definition opt_i64_mul_by_ref :: "64 word option \<Rightarrow> 64 word \<Rightarrow> 64 word option res" where
  "opt_i64_mul_by_ref self w =
     (case self of None \<Rightarrow> Inr None | Some x \<Rightarrow> res_map Some (i64_mul_by_ref x w))"

text \<open>\<^verbatim>\<open>ZRingValue::ge0\<close> and \<^verbatim>\<open>le0\<close>: the default implementations.\<close>

definition ge0 :: "'r::{zero,ord} \<Rightarrow> bool" where
  "ge0 self \<longleftrightarrow> self \<ge> 0"

definition le0 :: "'r::{zero,ord} \<Rightarrow> bool" where
  "le0 self \<longleftrightarrow> self \<le> 0"

section \<open>Present\<close>

text \<open>
  The zero-sized weight. Its \<^verbatim>\<open>zero\<close> is the only value of the type and \<^verbatim>\<open>is_zero\<close> denies
  that it is zero, as the source notes.
\<close>

datatype present = Present

definition present_zero :: present where
  "present_zero = Present"

definition present_is_zero :: "present \<Rightarrow> bool" where
  "present_is_zero self \<longleftrightarrow> False"

definition present_add :: "present \<Rightarrow> 'a \<Rightarrow> 'a" where
  "present_add self rhs = rhs"

definition present_sub :: "present \<Rightarrow> 'a \<Rightarrow> 'a" where
  "present_sub self rhs = rhs"

definition present_mul :: "present \<Rightarrow> 'a \<Rightarrow> 'a" where
  "present_mul self rhs = rhs"

definition present_mul_by_ref :: "'a \<Rightarrow> present \<Rightarrow> 'a" where
  "present_mul_by_ref self other = self"

definition present_neg :: "present \<Rightarrow> present" where
  "present_neg self = Present"

lemma present_zero_is_not_zero: "\<not> present_is_zero present_zero"
  by (simp add: present_is_zero_def)

section \<open>Exactness of the checked operations\<close>

lemma signed_exact:
  fixes w :: "'n::len word"
  assumes "in_signed_range LENGTH('n) x" and "w = word_of_int x"
  shows "sint w = x"
proof -
  have "sint w = signed_take_bit (LENGTH('n) - 1) x"
    using assms(2) by (simp add: signed_of_int)
  also have "\<dots> = x"
    using assms(1) by (intro signed_take_bit_int_eq_self) (auto simp: in_signed_range_def)
  finally show ?thesis .
qed

lemma signed_unique:
  fixes w :: "'n::len word"
  assumes "sint w = x"
  shows "w = word_of_int x" and "in_signed_range LENGTH('n) x"
  using assms sint_ge [of w] sint_lt [of w] by (auto simp: in_signed_range_def)

lemma checked_add_signed_iff:
  "checked_add_signed a b = Some c \<longleftrightarrow> sint c = sint a + sint b"
  for a b c :: "'n::len word"
proof
  assume "checked_add_signed a b = Some c"
  then have r: "in_signed_range LENGTH('n) (sint a + sint b)" and c: "c = a + b"
    by (auto simp: checked_add_signed_def split: if_splits)
  show "sint c = sint a + sint b"
    by (rule signed_exact [OF r]) (simp add: c)
next
  assume c: "sint c = sint a + sint b"
  have "c = a + b"
    using signed_unique(1) [OF c] by simp
  moreover have "in_signed_range LENGTH('n) (sint a + sint b)"
    by (rule signed_unique(2) [OF c])
  ultimately show "checked_add_signed a b = Some c" by (simp add: checked_add_signed_def)
qed

lemma checked_mul_signed_iff:
  "checked_mul_signed a b = Some c \<longleftrightarrow> sint c = sint a * sint b"
  for a b c :: "'n::len word"
proof
  assume "checked_mul_signed a b = Some c"
  then have r: "in_signed_range LENGTH('n) (sint a * sint b)" and c: "c = a * b"
    by (auto simp: checked_mul_signed_def split: if_splits)
  show "sint c = sint a * sint b"
    by (rule signed_exact [OF r]) (simp add: c)
next
  assume c: "sint c = sint a * sint b"
  have "c = a * b"
    using signed_unique(1) [OF c] by simp
  moreover have "in_signed_range LENGTH('n) (sint a * sint b)"
    by (rule signed_unique(2) [OF c])
  ultimately show "checked_mul_signed a b = Some c" by (simp add: checked_mul_signed_def)
qed

lemma checked_neg_signed_iff:
  "checked_neg_signed a = Some c \<longleftrightarrow> sint c = - sint a"
  for a c :: "'n::len word"
proof
  assume "checked_neg_signed a = Some c"
  then have r: "in_signed_range LENGTH('n) (- sint a)" and c: "c = - a"
    by (auto simp: checked_neg_signed_def split: if_splits)
  show "sint c = - sint a"
    by (rule signed_exact [OF r]) (simp add: c)
next
  assume c: "sint c = - sint a"
  have "c = - a"
    using signed_unique(1) [OF c] by simp
  moreover have "in_signed_range LENGTH('n) (- sint a)"
    by (rule signed_unique(2) [OF c])
  ultimately show "checked_neg_signed a = Some c" by (simp add: checked_neg_signed_def)
qed

lemma unwrap_or_overflow_eq_Inr [panic_simps]:
  "unwrap_or_overflow x = Inr c \<longleftrightarrow> x = Some (ci_value c)"
  by (cases x) (auto simp: unwrap_or_overflow_def)

lemma unwrap_or_overflow_eq_Inl [panic_simps]:
  "unwrap_or_overflow x = Inl e \<longleftrightarrow> x = None \<and> e = checked_int_overflow"
  by (cases x) (auto simp: unwrap_or_overflow_def)

lemmas checked_int_defs = checked_int_add_def checked_int_add_by_ref_def
  checked_int_add_assign_def checked_int_add_assign_by_ref_def checked_int_mul_by_ref_def
  checked_int_neg_by_ref_def checked_int_neg_def

section \<open>Properties\<close>

text \<open>
  Addition, product and negation of \<^verbatim>\<open>CheckedInt\<close> over a signed machine integer of any width
  return exactly when the mathematical result fits the width, and then return that result; they
  panic otherwise, and never wrap.
\<close>

theorem checked_int_exact:
  fixes a b c :: "'n::len word checked_int"
  shows "(checked_int_add checked_add_signed a b = Inr c \<longleftrightarrow>
      sint (ci_value c) = sint (ci_value a) + sint (ci_value b)) \<and>
    (checked_int_mul_by_ref checked_mul_signed a b = Inr c \<longleftrightarrow>
      sint (ci_value c) = sint (ci_value a) * sint (ci_value b)) \<and>
    (checked_int_neg checked_neg_signed a = Inr c \<longleftrightarrow>
      sint (ci_value c) = - sint (ci_value a))"
  by (simp add: checked_int_defs panic_simps checked_add_signed_iff checked_mul_signed_iff
      checked_neg_signed_iff)

end
