(* ===== verification/Advance.thy ===== *)
theory Advance
  imports Prelude
begin

text \<open>
  Exponential search in sorted slices: \<^verbatim>\<open>crates/dbsp/src/trace/layers/advance.rs\<close>.

  \<open>advance_raw\<close>, \<open>retreat_raw\<close> and \<open>advance_erased\<close> read their slice only through an
  index; the two loops they share (\<^verbatim>\<open>advance in exponentially growing steps\<close> and
  \<^verbatim>\<open>in exponentially shrinking steps\<close>) are \<open>search_grow\<close> and \<open>search_shrink\<close>, which take
  the accessor of the caller as an argument. \<open>search_grow\<close> is a partial function: \<open>None\<close>
  stands for a loop that does not end, and the theorems show that the result is \<open>Some\<close>.
\<close>

section \<open>The loops\<close>

partial_function (option) search_grow ::
  "nat \<Rightarrow> (nat \<Rightarrow> 'e) \<Rightarrow> ('e \<Rightarrow> bool) \<Rightarrow> nat \<Rightarrow> nat \<Rightarrow> (nat \<times> nat) option" where
  "search_grow len get function index step =
     (if index + step < len \<and> function (get (index + step))
      then search_grow len get function (index + step) (step * 2)
      else Some (index, step))"

fun search_shrink ::
  "nat \<Rightarrow> (nat \<Rightarrow> 'e) \<Rightarrow> ('e \<Rightarrow> bool) \<Rightarrow> nat \<Rightarrow> nat \<Rightarrow> nat" where
  "search_shrink len get function index step =
     (if step > 0 then
        search_shrink len get function
          (if index + step < len \<and> function (get (index + step)) then index + step else index)
          (step div 2)
      else index)"

declare search_shrink.simps [simp del]

section \<open>advance\<close>

definition DEFAULT_SMALL_LIMIT :: nat where
  "DEFAULT_SMALL_LIMIT = 8"

definition advance_raw :: "nat \<Rightarrow> 'e list \<Rightarrow> ('e \<Rightarrow> bool) \<Rightarrow> nat option" where
  "advance_raw SMALL_LIMIT sl function =
     (if length sl > SMALL_LIMIT \<and> function (sl ! SMALL_LIMIT) then
        (let index = SMALL_LIMIT + 1
         in if index < length sl \<and> function (sl ! index) then
              map_option
                (\<lambda>(index, step).
                   search_shrink (length sl) ((!) sl) function index (step div 2) + 1)
                (search_grow (length sl) ((!) sl) function index 1)
            else Some index)
      else
        (let limit = min (length sl) SMALL_LIMIT
         in Some (unwrap_or (position (\<lambda>x. \<not> function x) (take limit sl)) limit)))"

definition advance :: "'e list \<Rightarrow> ('e \<Rightarrow> bool) \<Rightarrow> nat option" where
  "advance sl function = advance_raw DEFAULT_SMALL_LIMIT sl function"

section \<open>retreat\<close>

definition retreat_raw :: "nat \<Rightarrow> 'e list \<Rightarrow> ('e \<Rightarrow> bool) \<Rightarrow> nat option" where
  "retreat_raw SMALL_LIMIT sl function =
     (if sl = [] then Some 0
      else
        (let last_index = length sl - 1
         in if length sl > SMALL_LIMIT \<and> function (sl ! (last_index - SMALL_LIMIT)) then
              (let index = SMALL_LIMIT + 1; get = (\<lambda>i. sl ! (last_index - i))
               in if index < length sl \<and> function (sl ! (last_index - index)) then
                    map_option
                      (\<lambda>(index, step).
                         search_shrink (length sl) get function index (step div 2) + 1)
                      (search_grow (length sl) get function index 1)
                  else Some index)
            else
              (let limit = min last_index SMALL_LIMIT
               in Some (unwrap_or
                    (position (\<lambda>x. \<not> function x) (rev (drop (last_index - limit) sl)))
                    (limit + 1)))))"

definition retreat :: "'e list \<Rightarrow> ('e \<Rightarrow> bool) \<Rightarrow> nat option" where
  "retreat sl function = retreat_raw DEFAULT_SMALL_LIMIT sl function"

section \<open>advance\_erased\<close>

text \<open>
  A type-erased slice is its bytes and the size of an element. \<^verbatim>\<open>get_unchecked\<close> yields the
  address of an element; the model yields the bytes found there, which is all the callback can
  read. \<^verbatim>\<open>SlicePtr::new\<close> asserts that the length is a multiple of the size, and the remainder
  by a size of zero panics.
\<close>

record 'b slice_ptr =
  sp_bytes :: "'b list"
  sp_elements :: nat
  sp_element_size :: nat

definition slice_ptr_new :: "'b list \<Rightarrow> nat \<Rightarrow> 'b slice_ptr res" where
  "slice_ptr_new sl element_size =
     (if element_size = 0 then Inl (Explicit ''division by zero'')
      else if length sl mod element_size = 0 then
        Inr \<lparr>sp_bytes = sl, sp_elements = length sl div element_size,
             sp_element_size = element_size\<rparr>
      else Inl AssertFailed)"

definition slice_ptr_len :: "'b slice_ptr \<Rightarrow> nat" where
  "slice_ptr_len self = sp_elements self"

definition slice_ptr_is_empty :: "'b slice_ptr \<Rightarrow> bool" where
  "slice_ptr_is_empty self \<longleftrightarrow> sp_elements self = 0"

definition slice_ptr_get_unchecked :: "'b slice_ptr \<Rightarrow> nat \<Rightarrow> 'b list" where
  "slice_ptr_get_unchecked self idx =
     take (sp_element_size self) (drop (idx * sp_element_size self) (sp_bytes self))"

text \<open>The linear scan \<^verbatim>\<open>for offset in 0..limit\<close>; \<open>fuel\<close> is the number of offsets left.\<close>

fun erased_scan :: "(nat \<Rightarrow> 'e) \<Rightarrow> ('e \<Rightarrow> bool) \<Rightarrow> nat \<Rightarrow> nat \<Rightarrow> nat" where
  "erased_scan get function offset 0 = offset"
| "erased_scan get function offset (Suc fuel) =
     (if \<not> function (get offset) then offset
      else erased_scan get function (offset + 1) fuel)"

definition advance_erased :: "'b list \<Rightarrow> nat \<Rightarrow> ('b list \<Rightarrow> bool) \<Rightarrow> nat option res" where
  "advance_erased sl elem_size function =
     res_map
       (\<lambda>sl.
          if slice_ptr_is_empty sl then Some 0
          else if slice_ptr_len sl > DEFAULT_SMALL_LIMIT \<and>
                  function (slice_ptr_get_unchecked sl DEFAULT_SMALL_LIMIT) then
            (let index = DEFAULT_SMALL_LIMIT + 1
             in if index < slice_ptr_len sl \<and> function (slice_ptr_get_unchecked sl index)
                then map_option
                  (\<lambda>(index, step).
                     search_shrink (slice_ptr_len sl) (slice_ptr_get_unchecked sl) function
                       index (step div 2) + 1)
                  (search_grow (slice_ptr_len sl) (slice_ptr_get_unchecked sl) function
                     index 1)
                else Some index)
          else
            (let limit = min (slice_ptr_len sl) DEFAULT_SMALL_LIMIT
             in Some (erased_scan (slice_ptr_get_unchecked sl) function 0 limit)))
       (slice_ptr_new sl elem_size)"

section \<open>Correctness of the loops\<close>

text \<open>
  \<open>cut len get f c\<close>: below \<open>len\<close>, exactly the first \<open>c\<close> elements satisfy the predicate.
\<close>

definition cut :: "nat \<Rightarrow> (nat \<Rightarrow> 'e) \<Rightarrow> ('e \<Rightarrow> bool) \<Rightarrow> nat \<Rightarrow> bool" where
  "cut len get f c \<longleftrightarrow> c \<le> len \<and> (\<forall>i < len. f (get i) \<longleftrightarrow> i < c)"

lemma cut_probe: "cut len get f c \<Longrightarrow> i < len \<and> f (get i) \<longleftrightarrow> i < c"
  by (auto simp: cut_def)

lemma search_grow_correct:
  assumes "cut len get f c" and "index < c" and "step = 2 ^ k"
  shows "\<exists>index' k'. search_grow len get f index step = Some (index', 2 ^ k') \<and>
    index' < c \<and> c \<le> index' + 2 ^ k'"
  using assms(2,3)
proof (induction "len - index" arbitrary: index step k rule: less_induct)
  case less
  show ?case
  proof (cases "index + step < c")
    case True
    then have probe: "index + step < len \<and> f (get (index + step))"
      using cut_probe [OF assms(1)] by blast
    have "search_grow len get f index step = search_grow len get f (index + step) (step * 2)"
      by (subst search_grow.simps) (simp add: probe)
    moreover have "0 < step" using less.prems by simp
    then have "len - (index + step) < len - index" using probe by linarith
    ultimately show ?thesis
      using less.hyps [of "index + step" "step * 2" "Suc k"] True less.prems by simp
  next
    case False
    then have "\<not> (index + step < len \<and> f (get (index + step)))"
      using cut_probe [OF assms(1)] by blast
    then have "search_grow len get f index step = Some (index, 2 ^ k)"
      by (subst search_grow.simps) (auto simp: less.prems)
    then show ?thesis using False less.prems by auto
  qed
qed

lemma search_shrink_correct:
  assumes "cut len get f c" and "index < c" and "c \<le> index + 2 ^ k"
  shows "search_shrink len get f index (2 ^ k div 2) + 1 = c"
  using assms(2,3)
proof (induction k arbitrary: index)
  case 0
  then show ?case by (simp add: search_shrink.simps)
next
  case (Suc k)
  let ?index = "if index + 2 ^ k < len \<and> f (get (index + 2 ^ k)) then index + 2 ^ k else index"
  have "search_shrink len get f index (2 ^ Suc k div 2) =
      search_shrink len get f ?index (2 ^ k div 2)"
    by (subst search_shrink.simps) simp
  moreover have "?index < c" "c \<le> ?index + 2 ^ k"
    using cut_probe [OF assms(1), of "index + 2 ^ k"] Suc.prems by auto
  ultimately show ?case using Suc.IH by simp
qed

lemma search_correct:
  assumes "cut len get f c" and "index < c"
  shows "map_option (\<lambda>(index, step). search_shrink len get f index (step div 2) + 1)
    (search_grow len get f index 1) = Some c"
proof -
  obtain index' k' where "search_grow len get f index 1 = Some (index', 2 ^ k')"
    and "index' < c" "c \<le> index' + 2 ^ k'"
    using search_grow_correct [OF assms, of 1 0] by auto
  then show ?thesis using search_shrink_correct [OF assms(1)] by simp
qed

lemma cut_falling: "falling f xs \<Longrightarrow> cut (length xs) ((!) xs) f (length (takeWhile f xs))"
  by (simp add: cut_def falling_nth length_takeWhile_le)

lemma erased_scan_eq:
  assumes "cut len get f c" and "offset \<le> c" and "offset + fuel \<le> len"
  shows "erased_scan get f offset fuel = min c (offset + fuel)"
  using assms(2,3)
proof (induction fuel arbitrary: offset)
  case (Suc fuel)
  then show ?case
    using cut_probe [OF assms(1), of offset] by (auto simp: min_def)
qed simp

lemma takeWhile_take: "length (takeWhile f (take n xs)) = min n (length (takeWhile f xs))"
  by (induction xs arbitrary: n) (auto simp: take_Cons split: nat.splits)

lemma position_take:
  "n \<le> length xs \<Longrightarrow>
     unwrap_or (position (\<lambda>x. \<not> f x) (take n xs)) n = min n (length (takeWhile f xs))"
  using position_takeWhile [of f "take n xs"] by (simp add: takeWhile_take min_absorb2)

lemma advance_raw_correct:
  assumes "falling f sl"
  shows "advance_raw L sl f = Some (length (takeWhile f sl))"
proof -
  let ?c = "length (takeWhile f sl)"
  note cut = cut_falling [OF assms]
  show ?thesis
  proof (cases "L < ?c")
    case True
    then have "L < length sl \<and> f (sl ! L)" using cut_probe [OF cut] by blast
    moreover have "L + 1 < length sl \<and> f (sl ! (L + 1)) \<longleftrightarrow> L + 1 < ?c"
      by (rule cut_probe [OF cut])
    ultimately show ?thesis
      using True search_correct [OF cut, of "L + 1"] by (auto simp: advance_raw_def Let_def)
  next
    case False
    then have "\<not> (L < length sl \<and> f (sl ! L))" using cut_probe [OF cut] by blast
    with False show ?thesis
      using position_take [of "min (length sl) L" sl f] length_takeWhile_le [of f sl]
      by (auto simp: advance_raw_def Let_def min_def)
  qed
qed

lemma rev_nth_last: "i < length xs \<Longrightarrow> xs ! (length xs - 1 - i) = rev xs ! i"
  by (simp add: rev_nth)

lemma retreat_raw_correct:
  assumes "falling f (rev sl)"
  shows "retreat_raw L sl f = Some (length (takeWhile f (rev sl)))"
proof (cases "sl = []")
  case False
  let ?c = "length (takeWhile f (rev sl))"
  let ?get = "\<lambda>i. sl ! (length sl - 1 - i)"
  have cut: "cut (length sl) ?get f ?c"
    using cut_falling [OF assms] rev_nth_last [of _ sl] by (simp add: cut_def)
  have drop_rev: "rev (drop (length sl - 1 - n) sl) = take (n + 1) (rev sl)"
    if "n \<le> length sl - 1" for n
  proof -
    have "length sl - (length sl - 1 - n) = n + 1"
      using that False by (cases "length sl") auto
    then show ?thesis by (simp only: rev_drop)
  qed
  show ?thesis
  proof (cases "L < ?c")
    case True
    then have "L < length sl \<and> f (?get L)" using cut_probe [OF cut] by blast
    moreover have "L + 1 < length sl \<and> f (?get (L + 1)) \<longleftrightarrow> L + 1 < ?c"
      by (rule cut_probe [OF cut])
    ultimately show ?thesis
      using True False search_correct [OF cut, of "L + 1"] by (auto simp: retreat_raw_def Let_def)
  next
    case c: False
    then have small: "\<not> (L < length sl \<and> f (?get L))" using cut_probe [OF cut] by blast
    define limit where "limit = min (length sl - 1) L"
    have "limit + 1 \<le> length (rev sl)"
      using False by (cases "length sl") (auto simp: limit_def)
    moreover have "?c \<le> limit + 1"
      using c length_takeWhile_le [of f "rev sl"] by (auto simp: limit_def min_def)
    ultimately have "unwrap_or (position (\<lambda>x. \<not> f x) (take (limit + 1) (rev sl))) (limit + 1) = ?c"
      using position_take [of "limit + 1" "rev sl" f] by simp
    moreover have "retreat_raw L sl f = Some (unwrap_or
        (position (\<lambda>x. \<not> f x) (rev (drop (length sl - 1 - limit) sl))) (limit + 1))"
      unfolding retreat_raw_def Let_def limit_def using small False by (simp only: if_False)
    moreover have "limit \<le> length sl - 1" by (simp add: limit_def)
    ultimately show ?thesis by (simp only: drop_rev)
  qed
qed (simp add: retreat_raw_def)


lemma advance_erased_correct:
  assumes "0 < elem_size" and "length bytes = n * elem_size"
    and "falling f (map (\<lambda>i. take elem_size (drop (i * elem_size) bytes)) [0..<n])"
  shows "advance_erased bytes elem_size f =
    Inr (Some (length (takeWhile f (map (\<lambda>i. take elem_size (drop (i * elem_size) bytes)) [0..<n]))))"
proof -
  let ?elems = "map (\<lambda>i. take elem_size (drop (i * elem_size) bytes)) [0..<n]"
  let ?c = "length (takeWhile f ?elems)"
  define sp where
    "sp = \<lparr>sp_bytes = bytes, sp_elements = n, sp_element_size = elem_size\<rparr>"
  have new: "slice_ptr_new bytes elem_size = Inr sp"
    using assms(1,2) by (simp add: slice_ptr_new_def sp_def)
  have len: "slice_ptr_len sp = n" by (simp add: slice_ptr_len_def sp_def)
  have empty: "slice_ptr_is_empty sp \<longleftrightarrow> n = 0" by (simp add: slice_ptr_is_empty_def sp_def)
  have cut: "cut n (slice_ptr_get_unchecked sp) f ?c"
    using cut_falling [OF assms(3)] by (simp add: cut_def slice_ptr_get_unchecked_def sp_def)
  let ?L = DEFAULT_SMALL_LIMIT
  show ?thesis
  proof (cases "?L < ?c")
    case True
    then have "?L < n \<and> f (slice_ptr_get_unchecked sp ?L)" using cut_probe [OF cut] by blast
    moreover have "?L + 1 < n \<and> f (slice_ptr_get_unchecked sp (?L + 1)) \<longleftrightarrow> ?L + 1 < ?c"
      by (rule cut_probe [OF cut])
    ultimately show ?thesis
      using True search_correct [OF cut, of "?L + 1"]
      by (auto simp: advance_erased_def new Let_def len empty)
  next
    case False
    then have "\<not> (?L < n \<and> f (slice_ptr_get_unchecked sp ?L))" using cut_probe [OF cut] by blast
    with False show ?thesis
      using erased_scan_eq [OF cut, of 0 "min n ?L"] cut
      by (auto simp: advance_erased_def new Let_def len empty cut_def)
  qed
qed

section \<open>Properties\<close>

text \<open>
  C27. On a slice where the predicate holds on a prefix and fails behind it, \<^verbatim>\<open>advance\<close> ends and
  returns the length of that prefix: everything before the result satisfies the predicate and
  nothing at or behind it does.
\<close>

theorem advance_exact:
  assumes "falling f sl"
  shows "\<exists>n \<le> length sl. advance sl f = Some n \<and>
    (\<forall>x \<in> set (take n sl). f x) \<and> (\<forall>x \<in> set (drop n sl). \<not> f x)"
proof -
  let ?n = "length (takeWhile f sl)"
  have "take ?n sl = takeWhile f sl" "drop ?n sl = dropWhile f sl"
    by (simp_all add: takeWhile_eq_take [symmetric] dropWhile_eq_drop [symmetric])
  then have "(\<forall>x \<in> set (take ?n sl). f x) \<and> (\<forall>x \<in> set (drop ?n sl). \<not> f x)"
    using dropWhile_falling_filter [OF assms] by (auto dest: set_takeWhileD)
  then show ?thesis
    using advance_raw_correct [OF assms] length_takeWhile_le [of f sl]
    by (intro exI [of _ ?n]) (simp add: advance_def)
qed

theorem advance_exact_witness:
  "\<exists>n \<le> 20. advance [1..<21::nat] (\<lambda>x. x < 15) = Some n \<and>
    (\<forall>x \<in> set (take n [1..<21]). x < 15) \<and> (\<forall>x \<in> set (drop n [1..<21]). \<not> x < 15)"
proof -
  have "falling (\<lambda>x. x < 15) [1..<21::nat]" unfolding falling_def by code_simp
  from advance_exact [OF this] show ?thesis by simp
qed

text \<open>
  On a slice where the predicate fails on a prefix and holds behind it, \<^verbatim>\<open>retreat\<close> ends and
  returns the length of the suffix on which the predicate holds.
\<close>

theorem retreat_exact:
  assumes "falling f (rev sl)"
  shows "\<exists>n \<le> length sl. retreat sl f = Some n \<and>
    (\<forall>x \<in> set (take n (rev sl)). f x) \<and> (\<forall>x \<in> set (drop n (rev sl)). \<not> f x)"
proof -
  let ?n = "length (takeWhile f (rev sl))"
  have "take ?n (rev sl) = takeWhile f (rev sl)" "drop ?n (rev sl) = dropWhile f (rev sl)"
    by (simp_all add: takeWhile_eq_take [symmetric] dropWhile_eq_drop [symmetric])
  then have "(\<forall>x \<in> set (take ?n (rev sl)). f x) \<and> (\<forall>x \<in> set (drop ?n (rev sl)). \<not> f x)"
    using dropWhile_falling_filter [OF assms] by (auto dest: set_takeWhileD)
  then show ?thesis
    using retreat_raw_correct [OF assms] length_takeWhile_le [of f "rev sl"]
    by (intro exI [of _ ?n]) (simp add: retreat_def)
qed

theorem retreat_exact_witness:
  "\<exists>n \<le> 20. retreat [1..<21::nat] (\<lambda>x. 4 < x) = Some n \<and>
    (\<forall>x \<in> set (take n (rev [1..<21])). 4 < x) \<and> (\<forall>x \<in> set (drop n (rev [1..<21])). \<not> 4 < x)"
proof -
  have "falling (\<lambda>x. 4 < x) (rev [1..<21::nat])" unfolding falling_def by code_simp
  from retreat_exact [OF this] show ?thesis by simp
qed

text \<open>
  On the bytes of \<open>n\<close> elements of a positive size, \<^verbatim>\<open>advance_erased\<close> does not panic, ends,
  and returns what \<^verbatim>\<open>advance\<close> returns on the slice of the elements.
\<close>

theorem advance_erased_as_advance:
  assumes "0 < elem_size" and "length bytes = n * elem_size"
    and "falling f (map (\<lambda>i. take elem_size (drop (i * elem_size) bytes)) [0..<n])"
  shows "advance_erased bytes elem_size f =
    Inr (advance (map (\<lambda>i. take elem_size (drop (i * elem_size) bytes)) [0..<n]) f)"
  using advance_erased_correct [OF assms] advance_raw_correct [OF assms(3)]
  by (simp add: advance_def)

theorem advance_erased_as_advance_witness:
  "advance_erased [1, 7, 2, 8, 5, 9::nat] 2 (\<lambda>e. hd e < 3) =
    Inr (advance [[1, 7], [2, 8], [5, 9 :: nat]] (\<lambda>e. hd e < 3))"
  using advance_erased_as_advance [of 2 "[1, 7, 2, 8, 5, 9::nat]" 3 "\<lambda>e. hd e < 3"]
  by (simp add: falling_def upt_rec)

end
