(* ===== verification/Circuit_Events.thy ===== *)
theory Circuit_Events
  imports Prelude
begin

text \<open>
  Identifiers of nodes and edges of a circuit (\<^verbatim>\<open>crates/dbsp/src/circuit/circuit_builder.rs\<close>) and the
  events a circuit reports while it is built and while it runs (\<^verbatim>\<open>circuit/trace.rs\<close>).  A reference to
  a node inside an event is the global id of the node, which is all its readers ask for.
\<close>

section \<open>Identifiers\<close>

type_synonym node_id = nat
type_synonym global_node_id = "node_id list"
type_synonym scope = nat

definition gid_root :: global_node_id where
  "gid_root = []"

definition gid_child :: "global_node_id \<Rightarrow> node_id \<Rightarrow> global_node_id" where
  "gid_child self child_id = self @ [child_id]"

definition local_node_id :: "global_node_id \<Rightarrow> node_id option" where
  "local_node_id self = (if self = [] then None else Some (last self))"

definition parent_id :: "global_node_id \<Rightarrow> global_node_id option" where
  "parent_id self = (if self = [] then None else Some (butlast self))"

text \<open>Display of a number, of a node id and of a global id, as the error messages print them.\<close>

fun display_nat :: "nat \<Rightarrow> string" where
  "display_nat n =
     (if n < 10 then [char_of (48 + n)] else display_nat (n div 10) @ [char_of (48 + n mod 10)])"

declare display_nat.simps [simp del]

definition display_node_id :: "node_id \<Rightarrow> string" where
  "display_node_id n = ''n'' @ display_nat n"

fun display_path :: "node_id list \<Rightarrow> string" where
  "display_path [] = []"
| "display_path [n] = display_nat n"
| "display_path (n # m # ns) = display_nat n @ ''.'' @ display_path (m # ns)"

definition display_gid :: "global_node_id \<Rightarrow> string" where
  "display_gid g = ''['' @ display_path g @ '']''"

lemma gid_child_simps [simp]:
  "gid_child g i \<noteq> []" "gid_child g i = gid_child h j \<longleftrightarrow> g = h \<and> i = j"
  "local_node_id (gid_child g i) = Some i" "parent_id (gid_child g i) = Some g"
  "length (gid_child g i) = Suc (length g)"
  by (simp_all add: gid_child_def local_node_id_def parent_id_def)

section \<open>Edges\<close>

type_synonym ownership_preference = nat

definition INDIFFERENT :: ownership_preference where
  "INDIFFERENT = 0"

definition WEAKLY_PREFER_OWNED :: ownership_preference where
  "WEAKLY_PREFER_OWNED = 40"

definition PREFER_OWNED :: ownership_preference where
  "PREFER_OWNED = 50"

definition STRONGLY_PREFER_OWNED :: ownership_preference where
  "STRONGLY_PREFER_OWNED = 100"

record edge =
  e_from :: node_id
  e_to :: node_id
  e_origin :: global_node_id
  e_preference :: "ownership_preference option"

definition edge_is_dependency :: "edge \<Rightarrow> bool" where
  "edge_is_dependency e \<longleftrightarrow> e_preference e = None"

definition edge_is_stream :: "edge \<Rightarrow> bool" where
  "edge_is_stream e \<longleftrightarrow> e_preference e \<noteq> None"

section \<open>Events\<close>

type_synonym operator_location = "(string \<times> nat \<times> nat) option"

datatype edge_kind =
    StreamEdge ownership_preference
  | Dependency

definition is_stream_kind :: "edge_kind \<Rightarrow> bool" where
  "is_stream_kind k = (case k of StreamEdge _ \<Rightarrow> True | Dependency \<Rightarrow> False)"

datatype circuit_event =
    PushRegion string operator_location
  | PopRegion
  | OperatorEvent global_node_id string operator_location
  | StrictOperatorOutput global_node_id string operator_location
  | StrictOperatorInput global_node_id node_id
  | Subcircuit global_node_id bool
  | SubcircuitComplete global_node_id
  | EdgeEvent edge_kind global_node_id global_node_id

fun is_strict_input_event :: "circuit_event \<Rightarrow> bool" where
  "is_strict_input_event (StrictOperatorInput _ _) = True"
| "is_strict_input_event _ = False"

fun is_strict_output_event :: "circuit_event \<Rightarrow> bool" where
  "is_strict_output_event (StrictOperatorOutput _ _ _) = True"
| "is_strict_output_event _ = False"

fun is_operator_event :: "circuit_event \<Rightarrow> bool" where
  "is_operator_event (OperatorEvent _ _ _) = True"
| "is_operator_event _ = False"

fun is_subcircuit_event :: "circuit_event \<Rightarrow> bool" where
  "is_subcircuit_event (Subcircuit _ _) = True"
| "is_subcircuit_event _ = False"

fun is_iterative_subcircuit_event :: "circuit_event \<Rightarrow> bool" where
  "is_iterative_subcircuit_event (Subcircuit _ iterative) = iterative"
| "is_iterative_subcircuit_event _ = False"

fun is_edge_event :: "circuit_event \<Rightarrow> bool" where
  "is_edge_event (EdgeEvent _ _ _) = True"
| "is_edge_event _ = False"

fun is_node_event :: "circuit_event \<Rightarrow> bool" where
  "is_node_event (PushRegion _ _) = False"
| "is_node_event PopRegion = False"
| "is_node_event (EdgeEvent _ _ _) = False"
| "is_node_event _ = True"

fun is_new_node_event :: "circuit_event \<Rightarrow> bool" where
  "is_new_node_event (OperatorEvent _ _ _) = True"
| "is_new_node_event (StrictOperatorOutput _ _ _) = True"
| "is_new_node_event (StrictOperatorInput _ _) = True"
| "is_new_node_event (Subcircuit _ _) = True"
| "is_new_node_event _ = False"

fun event_node_id :: "circuit_event \<Rightarrow> global_node_id option" where
  "event_node_id (OperatorEvent node_id _ _) = Some node_id"
| "event_node_id (StrictOperatorOutput node_id _ _) = Some node_id"
| "event_node_id (StrictOperatorInput node_id _) = Some node_id"
| "event_node_id (Subcircuit node_id _) = Some node_id"
| "event_node_id (SubcircuitComplete node_id) = Some node_id"
| "event_node_id _ = None"

fun event_node_name :: "circuit_event \<Rightarrow> string option" where
  "event_node_name (OperatorEvent _ name _) = Some name"
| "event_node_name (StrictOperatorOutput _ name _) = Some name"
| "event_node_name _ = None"

fun event_location :: "circuit_event \<Rightarrow> operator_location" where
  "event_location (PushRegion _ location) = location"
| "event_location (OperatorEvent _ _ location) = location"
| "event_location (StrictOperatorOutput _ _ location) = location"
| "event_location _ = None"

fun event_output_node_id :: "circuit_event \<Rightarrow> node_id option" where
  "event_output_node_id (StrictOperatorInput _ output_node_id) = Some output_node_id"
| "event_output_node_id _ = None"

fun event_from :: "circuit_event \<Rightarrow> global_node_id option" where
  "event_from (EdgeEvent _ from _) = Some from"
| "event_from _ = None"

fun event_to :: "circuit_event \<Rightarrow> global_node_id option" where
  "event_to (EdgeEvent _ _ to) = Some to"
| "event_to _ = None"

fun event_edge_kind :: "circuit_event \<Rightarrow> edge_kind option" where
  "event_edge_kind (EdgeEvent kind _ _) = Some kind"
| "event_edge_kind _ = None"

datatype scheduler_event =
    EvalStart global_node_id
  | EvalEnd global_node_id
  | WaitStart global_node_id
  | WaitEnd global_node_id
  | StepStart global_node_id
  | StepEnd global_node_id
  | ClockStart
  | ClockEnd

end
