(* ===== verification/Scheduler.thy ===== *)
theory Scheduler
  imports Circuit_Events "HOL-Library.AList"
begin

text \<open>
  The schedulers of a circuit (\<^verbatim>\<open>crates/dbsp/src/circuit/schedule\<close>): the constraints derived from
  ownership preferences, the dynamic scheduler with its run queue and its ready notifications, and
  the static scheduler.

  Parameters stand for what the schedulers call: a table of the circuit's methods, a table of the
  priority queue of the crate \<^verbatim>\<open>priority_queue\<close>, \<^verbatim>\<open>toposort\<close> of the crate \<^verbatim>\<open>petgraph\<close>, and the orders in
  which a hash map or hash set is iterated.  What other threads do between two looks of the
  scheduler at the shared state (kill signal, state of asynchronous operators, notifications and
  the token of the thread's parker) is an explicit input of every turn of its loop.
\<close>

datatype sched_error =
    OwnershipConflict global_node_id "global_node_id list"
  | CyclicCircuit global_node_id
  | Killed

text \<open>
  The methods of a circuit the schedulers use.  Evaluating a node may report an error, emits the
  events of the circuits nested in it, and changes the circuit.
\<close>

record 'c circuit_ops =
  co_global_id :: global_node_id
  co_edges :: "edge list"
  co_node_ids :: "node_id list"
  co_is_async :: "node_id \<Rightarrow> bool"
  co_ready :: "'c \<Rightarrow> node_id \<Rightarrow> bool"
  co_eval :: "'c \<Rightarrow> node_id \<Rightarrow> (sched_error option \<times> scheduler_event list \<times> 'c) res"
  co_tick :: "'c \<Rightarrow> 'c"

definition num_nodes :: "('c, 'z) circuit_ops_scheme \<Rightarrow> nat" where
  "num_nodes c = length (co_node_ids c)"

section \<open>Graph and ownership constraints\<close>

record digraph =
  dg_nodes :: "node_id list"
  dg_edges :: "(node_id \<times> node_id) list"

definition dg_add_node :: "digraph \<Rightarrow> node_id \<Rightarrow> digraph" where
  "dg_add_node g n = g\<lparr>dg_nodes := (if n \<in> set (dg_nodes g) then dg_nodes g else dg_nodes g @ [n])\<rparr>"

definition dg_add_edge :: "digraph \<Rightarrow> node_id \<times> node_id \<Rightarrow> digraph" where
  "dg_add_edge g e =
     (let g = dg_add_node (dg_add_node g (fst e)) (snd e)
      in g\<lparr>dg_edges := (if e \<in> set (dg_edges g) then dg_edges g else dg_edges g @ [e])\<rparr>)"

definition circuit_digraph :: "('c, 'z) circuit_ops_scheme \<Rightarrow> digraph" where
  "circuit_digraph c =
     foldl (\<lambda>g e. dg_add_edge g (e_from e, e_to e))
       (foldl dg_add_node \<lparr>dg_nodes = [], dg_edges = []\<rparr> (co_node_ids c)) (co_edges c)"

text \<open>\<^verbatim>\<open>map.entry(k).or_insert_with(Vec::new).push(v)\<close>\<close>

definition entry_push :: "('k \<times> 'v list) list \<Rightarrow> 'k \<Rightarrow> 'v \<Rightarrow> ('k \<times> 'v list) list" where
  "entry_push m k v =
     AList.update k ((case map_of m k of None \<Rightarrow> [] | Some vs \<Rightarrow> vs) @ [v]) m"

type_synonym successor = "node_id \<times> ownership_preference option"
type_synonym successor_map = "(global_node_id \<times> successor list) list"

definition origin_successors :: "edge list \<Rightarrow> successor_map" where
  "origin_successors edges =
     foldl (\<lambda>m e. entry_push m (e_origin e) (e_to e, e_preference e)) [] edges"

definition is_strong :: "ownership_preference option \<Rightarrow> bool" where
  "is_strong pref = (case pref of None \<Rightarrow> False | Some p \<Rightarrow> STRONGLY_PREFER_OWNED \<le> p)"

definition strong_successors :: "successor list \<Rightarrow> (nat \<times> successor) list" where
  "strong_successors succ = filter (\<lambda>(_, (_, pref)). is_strong pref) (enumerate 0 succ)"

definition constraints_of ::
  "global_node_id \<Rightarrow> global_node_id \<Rightarrow> successor list \<Rightarrow> sched_error + (node_id \<times> node_id) list" where
  "constraints_of circuit origin succ =
     (case strong_successors succ of
        [] \<Rightarrow> Inr []
      | [(index, _)] \<Rightarrow>
          Inr (map (\<lambda>(_, s). (fst s, fst (succ ! index)))
                 (filter (\<lambda>(i, s). i \<noteq> index \<and> snd s \<noteq> None) (enumerate 0 succ)))
      | strong \<Rightarrow>
          Inl (OwnershipConflict origin (map (\<lambda>(_, (suc, _)). gid_child circuit suc) strong)))"

fun constraints_loop ::
  "global_node_id \<Rightarrow> (node_id \<times> node_id) list \<Rightarrow> successor_map \<Rightarrow> sched_error + (node_id \<times> node_id) list"
where
  "constraints_loop circuit constraints [] = Inr constraints"
| "constraints_loop circuit constraints ((origin, succ) # successors) =
     (case constraints_of circuit origin succ of
        Inl e \<Rightarrow> Inl e
      | Inr cs \<Rightarrow> constraints_loop circuit (constraints @ cs) successors)"

definition ownership_constraints ::
  "(successor_map \<Rightarrow> successor_map) \<Rightarrow> ('c, 'z) circuit_ops_scheme \<Rightarrow>
   sched_error + (node_id \<times> node_id) list" where
  "ownership_constraints iter_order c =
     constraints_loop (co_global_id c) [] (iter_order (origin_successors (co_edges c)))"

type_synonym toposort = "digraph \<Rightarrow> node_id + node_id list"

definition constrained_digraph ::
  "('c, 'z) circuit_ops_scheme \<Rightarrow> (node_id \<times> node_id) list \<Rightarrow> digraph" where
  "constrained_digraph c extra = foldl dg_add_edge (circuit_digraph c) extra"

section \<open>Dynamic scheduler: tasks and run queue\<close>

record task =
  t_node_id :: node_id
  t_num_predecessors :: nat
  t_successors :: "node_id list"
  t_priority :: int
  t_is_async :: bool
  t_unsatisfied_dependencies :: nat
  t_is_ready :: bool
  t_scheduled :: bool

record 'q queue_ops =
  qo_new :: 'q
  qo_is_empty :: "'q \<Rightarrow> bool"
  qo_push :: "'q \<Rightarrow> node_id \<Rightarrow> int \<Rightarrow> 'q"
  qo_pop :: "'q \<Rightarrow> (node_id \<times> int) option \<times> 'q"

record 'q inner =
  in_tasks :: "task list"
  in_notifications :: "node_id list"
  in_runnable :: 'q

definition run_queue_push :: "('q, 'z) queue_ops_scheme \<Rightarrow> 'q \<Rightarrow> task \<Rightarrow> ('q \<times> task) res" where
  "run_queue_push qo q task =
     (if t_unsatisfied_dependencies task \<noteq> 0 then Inl DebugAssert
      else if \<not> t_is_ready task then Inl DebugAssert
      else if t_scheduled task then Inl DebugAssert
      else Inr (qo_push qo q (t_node_id task) (t_priority task), task\<lparr>t_scheduled := True\<rparr>))"

fun release_successors ::
  "('q, 'z) queue_ops_scheme \<Rightarrow> 'q inner \<Rightarrow> node_id list \<Rightarrow> 'q inner res" where
  "release_successors qo self [] = Inr self"
| "release_successors qo self (succ_id # succs) =
     (if succ_id \<ge> length (in_tasks self) then Inl DebugAssert
      else
        let successor = in_tasks self ! succ_id
        in if t_unsatisfied_dependencies successor = 0 then Inl DebugAssert
           else
             let successor = successor\<lparr>t_unsatisfied_dependencies :=
                   t_unsatisfied_dependencies successor - 1\<rparr>
             in if t_unsatisfied_dependencies successor = 0 \<and> t_is_ready successor then
                  res_bind (run_queue_push qo (in_runnable self) successor) (\<lambda>(q, successor).
                    release_successors qo
                      (self\<lparr>in_tasks := (in_tasks self)[succ_id := successor], in_runnable := q\<rparr>)
                      succs)
                else
                  release_successors qo
                    (self\<lparr>in_tasks := (in_tasks self)[succ_id := successor]\<rparr>) succs)"

definition dequeue_next_task ::
  "('q, 'z) queue_ops_scheme \<Rightarrow> 'q inner \<Rightarrow> (node_id option \<times> 'q inner) res" where
  "dequeue_next_task qo self =
     (case qo_pop qo (in_runnable self) of
        (None, q) \<Rightarrow> Inr (None, self\<lparr>in_runnable := q\<rparr>)
      | (Some (node_id, _), q) \<Rightarrow>
          if node_id \<ge> length (in_tasks self) then Inl DebugAssert
          else res_map (Pair (Some node_id))
                 (release_successors qo (self\<lparr>in_runnable := q\<rparr>)
                    (t_successors (in_tasks self ! node_id))))"

definition notify :: "node_id list \<Rightarrow> node_id \<Rightarrow> node_id list" where
  "notify nodes node_id = List.insert node_id nodes"

fun notification_loop ::
  "('q, 'z) queue_ops_scheme \<Rightarrow> (node_id \<Rightarrow> bool) \<Rightarrow> 'q inner \<Rightarrow> node_id list \<Rightarrow> 'q inner res" where
  "notification_loop qo ready self [] = Inr self"
| "notification_loop qo ready self (i # nodes) =
     (if i \<ge> length (in_tasks self) then Inl IndexOutOfBounds
      else
        let task = in_tasks self ! i
        in if \<not> t_is_async task then Inl DebugAssert
           else if t_is_ready task then notification_loop qo ready self nodes
           else if ready i then
             let task = task\<lparr>t_is_ready := True\<rparr>
             in if t_unsatisfied_dependencies task = 0 \<and> \<not> t_scheduled task then
                  res_bind (run_queue_push qo (in_runnable self) task) (\<lambda>(q, task).
                    notification_loop qo ready
                      (self\<lparr>in_tasks := (in_tasks self)[i := task], in_runnable := q\<rparr>) nodes)
                else
                  notification_loop qo ready (self\<lparr>in_tasks := (in_tasks self)[i := task]\<rparr>) nodes
           else notification_loop qo ready self nodes)"

definition process_notifications ::
  "('q, 'z) queue_ops_scheme \<Rightarrow> (node_id list \<Rightarrow> node_id list) \<Rightarrow> (node_id \<Rightarrow> bool) \<Rightarrow> 'q inner \<Rightarrow>
   'q inner res" where
  "process_notifications qo drain_order ready self =
     notification_loop qo ready (self\<lparr>in_notifications := []\<rparr>) (drain_order (in_notifications self))"

section \<open>Dynamic scheduler: preparation\<close>

type_synonym adjacency = "(node_id \<times> node_id list) list"

definition adj_get :: "adjacency \<Rightarrow> node_id \<Rightarrow> node_id list" where
  "adj_get m n = (case map_of m n of None \<Rightarrow> [] | Some ns \<Rightarrow> ns)"

definition all_edges ::
  "('c, 'z) circuit_ops_scheme \<Rightarrow> (node_id \<times> node_id) list \<Rightarrow> (node_id \<times> node_id) list" where
  "all_edges c extra = map (\<lambda>e. (e_from e, e_to e)) (co_edges c) @ extra"

definition successors_map :: "(node_id \<times> node_id) list \<Rightarrow> adjacency" where
  "successors_map es = foldl (\<lambda>m e. entry_push m (fst e) (snd e)) [] es"

definition predecessors_map :: "(node_id \<times> node_id) list \<Rightarrow> adjacency" where
  "predecessors_map es = foldl (\<lambda>m e. entry_push m (snd e) (fst e)) [] es"

definition new_task ::
  "('c, 'z) circuit_ops_scheme \<Rightarrow> adjacency \<Rightarrow> adjacency \<Rightarrow> node_id \<Rightarrow> task" where
  "new_task c successors predecessors node_id =
     (let num_predecessors = length (adj_get predecessors node_id);
          num_successors = length (adj_get successors node_id)
      in \<lparr>t_node_id = node_id,
          t_num_predecessors = num_predecessors,
          t_successors = adj_get successors node_id,
          t_priority = int num_predecessors - int num_successors,
          t_is_async = co_is_async c node_id,
          t_unsatisfied_dependencies = num_predecessors,
          t_is_ready = (\<not> co_is_async c node_id),
          t_scheduled = False\<rparr>)"

fun tasks_loop ::
  "('c, 'z) circuit_ops_scheme \<Rightarrow> adjacency \<Rightarrow> adjacency \<Rightarrow> task list \<Rightarrow> (nat \<times> node_id) list \<Rightarrow>
   task list res" where
  "tasks_loop c successors predecessors tasks [] = Inr tasks"
| "tasks_loop c successors predecessors tasks ((i, node_id) # ids) =
     (if i \<noteq> node_id then Inl AssertFailed
      else tasks_loop c successors predecessors
             (tasks @ [new_task c successors predecessors node_id]) ids)"

definition initial_notifications ::
  "('c, 'z) circuit_ops_scheme \<Rightarrow> 'c \<Rightarrow> node_id list" where
  "initial_notifications c circuit =
     foldl (\<lambda>nodes n. if co_is_async c n \<and> co_ready c circuit n then notify nodes n else nodes)
       [] (co_node_ids c)"

definition dynamic_prepare ::
  "('q, 'y) queue_ops_scheme \<Rightarrow> toposort \<Rightarrow> (successor_map \<Rightarrow> successor_map) \<Rightarrow>
   ('c, 'z) circuit_ops_scheme \<Rightarrow> 'c \<Rightarrow> (sched_error + 'q inner) res" where
  "dynamic_prepare qo toposort iter_order c circuit =
     (case ownership_constraints iter_order c of
        Inl e \<Rightarrow> Inr (Inl e)
      | Inr extra \<Rightarrow>
          (case toposort (constrained_digraph c extra) of
             Inl n \<Rightarrow> Inr (Inl (CyclicCircuit (gid_child (co_global_id c) n)))
           | Inr _ \<Rightarrow>
               let edges = all_edges c extra
               in res_map (\<lambda>tasks.
                    Inr \<lparr>in_tasks = tasks,
                         in_notifications = initial_notifications c circuit,
                         in_runnable = qo_new qo\<rparr>)
                  (tasks_loop c (successors_map edges) (predecessors_map edges) []
                     (enumerate 0 (co_node_ids c)))))"

section \<open>Evaluating a node\<close>

text \<open>
  \<^verbatim>\<open>Circuit::eval_node\<close>: the events it logs, around those of the node itself; on an error the end of
  the evaluation is not logged.
\<close>

definition eval_node ::
  "('c, 'z) circuit_ops_scheme \<Rightarrow> 'c \<Rightarrow> node_id \<Rightarrow>
   (sched_error option \<times> scheduler_event list \<times> 'c) res" where
  "eval_node c circuit i =
     (if i \<ge> num_nodes c then Inl DebugAssert
      else
        let node = gid_child (co_global_id c) i
        in res_map (\<lambda>(err, events, circuit').
             case err of
               None \<Rightarrow> (None, [EvalStart node] @ events @ [EvalEnd node], circuit')
             | Some e \<Rightarrow> (Some e, [EvalStart node] @ events, circuit'))
           (co_eval c circuit i))"

section \<open>Dynamic scheduler: a step\<close>

text \<open>
  What the other threads did since the previous turn: \<^verbatim>\<open>kill\<close> was signalled, they changed their part
  of the circuit, they inserted notifications and unparked the thread.  \<open>ev_drain\<close> is the order in
  which the set of notifications is drained, should this turn drain it.
\<close>

record 'c environment =
  ev_kill :: bool
  ev_act :: "'c \<Rightarrow> 'c"
  ev_notified :: "node_id list"
  ev_unpark :: bool
  ev_drain :: "node_id list \<Rightarrow> node_id list"

datatype phase =
    Looping
  | Parked
  | Finished
  | Failed sched_error

record ('c, 'q) step_state =
  ss_inner :: "'q inner"
  ss_circuit :: 'c
  ss_completed_tasks :: nat
  ss_phase :: phase
  ss_token :: bool
  ss_log :: "scheduler_event list"

fun reset_loop ::
  "('q, 'z) queue_ops_scheme \<Rightarrow> 'q \<Rightarrow> task list \<Rightarrow> task list \<Rightarrow> ('q \<times> task list) res" where
  "reset_loop qo q finished [] = Inr (q, finished)"
| "reset_loop qo q finished (task # tasks) =
     (let task = task\<lparr>t_unsatisfied_dependencies := t_num_predecessors task,
                      t_scheduled := False\<rparr>
      in if t_unsatisfied_dependencies task = 0 \<and> t_is_ready task then
           res_bind (run_queue_push qo q task) (\<lambda>(q, task).
             reset_loop qo q (finished @ [task]) tasks)
         else reset_loop qo q (finished @ [task]) tasks)"

definition dynamic_start ::
  "('q, 'y) queue_ops_scheme \<Rightarrow> ('c, 'z) circuit_ops_scheme \<Rightarrow> 'q inner \<Rightarrow> 'c \<Rightarrow> bool \<Rightarrow>
   ('c, 'q) step_state res" where
  "dynamic_start qo c self circuit token =
     res_map (\<lambda>(q, tasks).
         \<lparr>ss_inner = self\<lparr>in_tasks := tasks, in_runnable := q\<rparr>,
          ss_circuit = circuit,
          ss_completed_tasks = 0,
          ss_phase = Looping,
          ss_token = token,
          ss_log = [StepStart (co_global_id c)]\<rparr>)
       (reset_loop qo (in_runnable self) [] (in_tasks self))"

definition deliver :: "'c environment \<Rightarrow> ('c, 'q) step_state \<Rightarrow> ('c, 'q) step_state" where
  "deliver ev st =
     st\<lparr>ss_circuit := ev_act ev (ss_circuit st),
        ss_inner := (ss_inner st)\<lparr>in_notifications :=
          foldl notify (in_notifications (ss_inner st)) (ev_notified ev)\<rparr>,
        ss_token := (ss_token st \<or> ev_unpark ev)\<rparr>"

definition run_task ::
  "('c, 'z) circuit_ops_scheme \<Rightarrow> ('c, 'q) step_state \<Rightarrow> node_id \<Rightarrow> ('c, 'q) step_state res" where
  "run_task c st node_id =
     res_map (\<lambda>(err, events, circuit).
         let st = st\<lparr>ss_circuit := circuit, ss_log := ss_log st @ events\<rparr>
         in case err of
              Some e \<Rightarrow> st\<lparr>ss_phase := Failed e\<rparr>
            | None \<Rightarrow>
                let tasks = in_tasks (ss_inner st);
                    tasks = (if t_is_async (tasks ! node_id)
                             then tasks[node_id := (tasks ! node_id)\<lparr>t_is_ready := False\<rparr>]
                             else tasks)
                in st\<lparr>ss_inner := (ss_inner st)\<lparr>in_tasks := tasks\<rparr>,
                      ss_completed_tasks := ss_completed_tasks st + 1\<rparr>)
       (eval_node c (ss_circuit st) node_id)"

definition idle_turn ::
  "('q, 'y) queue_ops_scheme \<Rightarrow> ('c, 'z) circuit_ops_scheme \<Rightarrow> 'c environment \<Rightarrow>
   ('c, 'q) step_state \<Rightarrow> ('c, 'q) step_state res" where
  "idle_turn qo c ev st =
     res_map (\<lambda>inner.
         let st = st\<lparr>ss_inner := inner\<rparr>
         in if qo_is_empty qo (in_runnable inner)
            then st\<lparr>ss_phase := Parked, ss_log := ss_log st @ [WaitStart (co_global_id c)]\<rparr>
            else st)
       (process_notifications qo (ev_drain ev) (co_ready c (ss_circuit st)) (ss_inner st))"

definition loop_turn ::
  "('q, 'y) queue_ops_scheme \<Rightarrow> ('c, 'z) circuit_ops_scheme \<Rightarrow> 'c environment \<Rightarrow>
   ('c, 'q) step_state \<Rightarrow> ('c, 'q) step_state res" where
  "loop_turn qo c ev st =
     (if ss_completed_tasks st < length (in_tasks (ss_inner st)) then
        if ev_kill ev then Inr (st\<lparr>ss_phase := Failed Killed\<rparr>)
        else
          res_bind (dequeue_next_task qo (ss_inner st)) (\<lambda>(next_task, inner).
            let st = st\<lparr>ss_inner := inner\<rparr>
            in case next_task of
                 None \<Rightarrow> idle_turn qo c ev st
               | Some node_id \<Rightarrow> run_task c st node_id)
      else
        Inr (st\<lparr>ss_circuit := co_tick c (ss_circuit st), ss_phase := Finished,
                ss_log := ss_log st @ [StepEnd (co_global_id c)]\<rparr>))"

definition dynamic_turn ::
  "('q, 'y) queue_ops_scheme \<Rightarrow> ('c, 'z) circuit_ops_scheme \<Rightarrow> 'c environment \<Rightarrow>
   ('c, 'q) step_state \<Rightarrow> ('c, 'q) step_state res" where
  "dynamic_turn qo c ev st =
     (let st = deliver ev st
      in case ss_phase st of
           Looping \<Rightarrow> loop_turn qo c ev st
         | Parked \<Rightarrow>
             Inr (if ss_token st
                  then st\<lparr>ss_token := False, ss_phase := Looping,
                          ss_log := ss_log st @ [WaitEnd (co_global_id c)]\<rparr>
                  else st)
         | _ \<Rightarrow> Inr st)"

fun dynamic_run ::
  "('q, 'y) queue_ops_scheme \<Rightarrow> ('c, 'z) circuit_ops_scheme \<Rightarrow> 'c environment list \<Rightarrow>
   ('c, 'q) step_state \<Rightarrow> ('c, 'q) step_state res" where
  "dynamic_run qo c [] st = Inr st"
| "dynamic_run qo c (ev # evs) st =
     res_bind (dynamic_turn qo c ev st) (\<lambda>st. dynamic_run qo c evs st)"

section \<open>Static scheduler\<close>

definition static_prepare ::
  "toposort \<Rightarrow> (successor_map \<Rightarrow> successor_map) \<Rightarrow> ('c, 'z) circuit_ops_scheme \<Rightarrow>
   sched_error + (node_id \<times> bool) list" where
  "static_prepare toposort iter_order c =
     (case ownership_constraints iter_order c of
        Inl e \<Rightarrow> Inl e
      | Inr extra \<Rightarrow>
          (case toposort (constrained_digraph c extra) of
             Inl n \<Rightarrow> Inl (CyclicCircuit (gid_child (co_global_id c) n))
           | Inr ns \<Rightarrow> Inr (map (\<lambda>n. (n, co_is_async c n)) ns)))"

text \<open>
  One look at the head of the schedule; the rest of the schedule is the state of the loop.
\<close>

record 'c static_state =
  st_schedule :: "(node_id \<times> bool) list"
  st_circuit :: 'c
  st_phase :: phase
  st_log :: "scheduler_event list"

definition static_start ::
  "('c, 'z) circuit_ops_scheme \<Rightarrow> (node_id \<times> bool) list \<Rightarrow> 'c \<Rightarrow> 'c static_state" where
  "static_start c schedule circuit =
     \<lparr>st_schedule = schedule, st_circuit = circuit, st_phase = Looping,
      st_log = [StepStart (co_global_id c)]\<rparr>"

definition static_turn ::
  "('c, 'z) circuit_ops_scheme \<Rightarrow> 'c environment \<Rightarrow> 'c static_state \<Rightarrow> 'c static_state res" where
  "static_turn c ev st =
     (let st = st\<lparr>st_circuit := ev_act ev (st_circuit st)\<rparr>
      in if st_phase st \<noteq> Looping then Inr st
         else
           case st_schedule st of
             [] \<Rightarrow>
               Inr (st\<lparr>st_circuit := co_tick c (st_circuit st), st_phase := Finished,
                       st_log := st_log st @ [StepEnd (co_global_id c)]\<rparr>)
           | (node_id, is_async) # rest \<Rightarrow>
               if ev_kill ev then Inr (st\<lparr>st_phase := Failed Killed\<rparr>)
               else if is_async \<and> \<not> co_ready c (st_circuit st) node_id then
                 Inr (st\<lparr>st_log := st_log st @
                        [WaitStart (co_global_id c), WaitEnd (co_global_id c)]\<rparr>)
               else
                 res_map (\<lambda>(err, events, circuit).
                     let st = st\<lparr>st_circuit := circuit, st_log := st_log st @ events\<rparr>
                     in case err of
                          Some e \<Rightarrow> st\<lparr>st_phase := Failed e\<rparr>
                        | None \<Rightarrow> st\<lparr>st_schedule := rest\<rparr>)
                   (eval_node c (st_circuit st) node_id))"

fun static_run ::
  "('c, 'z) circuit_ops_scheme \<Rightarrow> 'c environment list \<Rightarrow> 'c static_state \<Rightarrow> 'c static_state res" where
  "static_run c [] st = Inr st"
| "static_run c (ev # evs) st = res_bind (static_turn c ev st) (\<lambda>st. static_run c evs st)"

section \<open>Executors\<close>

text \<open>
  \<^verbatim>\<open>IterativeExecutor::run\<close> over a scheduler given by its effect on the circuit in each iteration;
  the loop may not end, so the number of iterations is bounded by the fuel and exhausting it is
  \<open>None\<close>.  \<open>clock_start\<close> and \<open>clock_end\<close> are the circuit's.
\<close>

fun iterate_loop ::
  "('c \<Rightarrow> (sched_error option \<times> scheduler_event list \<times> 'c)) \<Rightarrow> ('c \<Rightarrow> sched_error + bool) \<Rightarrow> nat \<Rightarrow> 'c \<Rightarrow>
   (sched_error option \<times> scheduler_event list \<times> 'c) option" where
  "iterate_loop step termination_check 0 circuit = None"
| "iterate_loop step termination_check (Suc n) circuit =
     (case step circuit of
        (Some e, events, circuit) \<Rightarrow> Some (Some e, events, circuit)
      | (None, events, circuit) \<Rightarrow>
          (case termination_check circuit of
             Inl e \<Rightarrow> Some (Some e, events, circuit)
           | Inr True \<Rightarrow> Some (None, events, circuit)
           | Inr False \<Rightarrow>
               map_option (\<lambda>(err, events', circuit). (err, events @ events', circuit))
                 (iterate_loop step termination_check n circuit)))"

definition iterative_executor_run ::
  "('c \<Rightarrow> 'c) \<Rightarrow> ('c \<Rightarrow> 'c) \<Rightarrow> ('c \<Rightarrow> (sched_error option \<times> scheduler_event list \<times> 'c)) \<Rightarrow>
   ('c \<Rightarrow> sched_error + bool) \<Rightarrow> nat \<Rightarrow> 'c \<Rightarrow>
   (sched_error option \<times> scheduler_event list \<times> 'c) option" where
  "iterative_executor_run clock_start clock_end step termination_check n circuit =
     map_option (\<lambda>(err, events, circuit).
         case err of
           Some e \<Rightarrow> (Some e, [ClockStart] @ events, circuit)
         | None \<Rightarrow> (None, [ClockStart] @ events @ [ClockEnd], clock_end circuit))
       (iterate_loop step termination_check n (clock_start circuit))"

end
