(* ===== verification/Scheduler_Laws.thy ===== *)
theory Scheduler_Laws
  imports Scheduler
begin

text \<open>
  The invariant of the dynamic scheduler.  The documented behaviour of the priority queue is the
  predicate \<open>priority_queue\<close>; the tasks are related to the dependency graph they were prepared from
  by \<open>tasks_shape\<close>; \<open>sched_inv\<close> counts, for every task, the predecessors that are still to be
  evaluated and says that a task is in the run queue exactly when it is ready, has no such
  predecessor and was not evaluated yet.
\<close>

section \<open>The priority queue\<close>

text \<open>
  Documented behaviour of \<^verbatim>\<open>priority_queue::PriorityQueue\<close>: a queue is a map from items to
  priorities, \<^verbatim>\<open>push\<close> inserts an item or changes its priority, \<^verbatim>\<open>pop\<close> removes an item of the highest
  priority and returns none exactly when the queue is empty.
\<close>

definition priority_queue ::
  "('q, 'z) queue_ops_scheme \<Rightarrow> ('q \<Rightarrow> node_id \<Rightarrow> int option) \<Rightarrow> bool" where
  "priority_queue qo items \<longleftrightarrow>
     items (qo_new qo) = Map.empty \<and>
     (\<forall>q. qo_is_empty qo q \<longleftrightarrow> items q = Map.empty) \<and>
     (\<forall>q n p. items (qo_push qo q n p) = (items q)(n \<mapsto> p)) \<and>
     (\<forall>q. case qo_pop qo q of
            (None, q') \<Rightarrow> items q = Map.empty \<and> items q' = Map.empty
          | (Some (n, p), q') \<Rightarrow>
              items q n = Some p \<and> items q' = (items q)(n := None) \<and>
              (\<forall>m r. items q m = Some r \<longrightarrow> r \<le> p))"

lemma priority_queueD:
  assumes "priority_queue qo items"
  shows pq_new: "items (qo_new qo) = Map.empty"
    and pq_is_empty: "qo_is_empty qo q \<longleftrightarrow> items q = Map.empty"
    and pq_push: "items (qo_push qo q n p) = (items q)(n \<mapsto> p)"
    and pq_pop_None: "qo_pop qo q = (None, q') \<Longrightarrow> items q = Map.empty \<and> items q' = Map.empty"
    and pq_pop_Some: "qo_pop qo q = (Some (n, p), q') \<Longrightarrow>
      items q n = Some p \<and> items q' = (items q)(n := None)"
  using assms unfolding priority_queue_def
  by (auto dest!: spec [of _ q] split: prod.splits option.splits)

section \<open>Tasks and their graph\<close>

record task_graph =
  tg_n :: nat
  tg_succ :: "node_id \<Rightarrow> node_id list"
  tg_async :: "node_id \<Rightarrow> bool"

definition tasks_shape :: "task_graph \<Rightarrow> task list \<Rightarrow> bool" where
  "tasks_shape G ts \<longleftrightarrow>
     length ts = tg_n G \<and>
     (\<forall>i<tg_n G.
        t_node_id (ts ! i) = i \<and>
        t_successors (ts ! i) = tg_succ G i \<and>
        t_num_predecessors (ts ! i) = (\<Sum>j<tg_n G. count_list (tg_succ G j) i) \<and>
        t_is_async (ts ! i) = tg_async G i \<and>
        (tg_async G i \<or> t_is_ready (ts ! i)))"

definition graph_closed :: "task_graph \<Rightarrow> bool" where
  "graph_closed G \<longleftrightarrow> (\<forall>i<tg_n G. set (tg_succ G i) \<subseteq> {..<tg_n G})"

text \<open>A node cannot be reached from itself.\<close>

definition graph_acyclic :: "task_graph \<Rightarrow> bool" where
  "graph_acyclic G \<longleftrightarrow>
     (\<exists>rank :: node_id \<Rightarrow> nat. \<forall>i<tg_n G. \<forall>j\<in>set (tg_succ G i). rank i < rank j)"

definition waiting :: "task_graph \<Rightarrow> node_id set \<Rightarrow> node_id \<Rightarrow> nat" where
  "waiting G D i = (\<Sum>j\<in>{..<tg_n G} - D. count_list (tg_succ G j) i)"

text \<open>
  One task: \<open>w\<close> predecessors are to be evaluated, \<open>s\<close> says whether it is queued or evaluated.
\<close>

definition task_ok :: "nat \<Rightarrow> bool \<Rightarrow> task \<Rightarrow> bool" where
  "task_ok w s t \<longleftrightarrow>
     t_unsatisfied_dependencies t = w \<and>
     t_scheduled t = s \<and>
     (s \<longrightarrow> w = 0) \<and>
     (w = 0 \<and> t_is_ready t \<longrightarrow> s)"

definition sched_inv ::
  "task_graph \<Rightarrow> ('q \<Rightarrow> node_id \<Rightarrow> int option) \<Rightarrow> 'q inner \<Rightarrow> node_id set \<Rightarrow> node_id list \<Rightarrow> bool" where
  "sched_inv G items inner D pending \<longleftrightarrow>
     tasks_shape G (in_tasks inner) \<and>
     D \<subseteq> {..<tg_n G} \<and>
     dom (items (in_runnable inner)) \<subseteq> {..<tg_n G} - D \<and>
     set (in_notifications inner) \<subseteq> {i. i < tg_n G \<and> tg_async G i} \<and>
     (\<forall>i<tg_n G. task_ok (waiting G D i + count_list pending i)
        (i \<in> D \<or> i \<in> dom (items (in_runnable inner))) (in_tasks inner ! i))"

lemma sched_invD:
  assumes "sched_inv G items inner D pending"
  shows "tasks_shape G (in_tasks inner)"
    and "length (in_tasks inner) = tg_n G"
    and "D \<subseteq> {..<tg_n G}"
    and "dom (items (in_runnable inner)) \<subseteq> {..<tg_n G} - D"
    and "set (in_notifications inner) \<subseteq> {i. i < tg_n G \<and> tg_async G i}"
    and "i < tg_n G \<Longrightarrow>
      t_unsatisfied_dependencies (in_tasks inner ! i) = waiting G D i + count_list pending i"
    and "i < tg_n G \<Longrightarrow>
      t_scheduled (in_tasks inner ! i) \<longleftrightarrow> i \<in> D \<or> i \<in> dom (items (in_runnable inner))"
    and "i < tg_n G \<Longrightarrow> t_scheduled (in_tasks inner ! i) \<Longrightarrow>
      t_unsatisfied_dependencies (in_tasks inner ! i) = 0"
    and "i < tg_n G \<Longrightarrow> t_unsatisfied_dependencies (in_tasks inner ! i) = 0 \<Longrightarrow>
      t_is_ready (in_tasks inner ! i) \<Longrightarrow> t_scheduled (in_tasks inner ! i)"
    and "i < tg_n G \<Longrightarrow> task_ok (waiting G D i + count_list pending i)
        (i \<in> D \<or> i \<in> dom (items (in_runnable inner))) (in_tasks inner ! i)"
proof -
  show "tasks_shape G (in_tasks inner)" "D \<subseteq> {..<tg_n G}"
    "dom (items (in_runnable inner)) \<subseteq> {..<tg_n G} - D"
    "set (in_notifications inner) \<subseteq> {i. i < tg_n G \<and> tg_async G i}"
    using assms by (simp_all only: sched_inv_def)
  then show "length (in_tasks inner) = tg_n G" by (simp add: tasks_shape_def)
  assume i: "i < tg_n G"
  show ok: "task_ok (waiting G D i + count_list pending i)
      (i \<in> D \<or> i \<in> dom (items (in_runnable inner))) (in_tasks inner ! i)"
    using assms i by (simp only: sched_inv_def)
  show "t_unsatisfied_dependencies (in_tasks inner ! i) = waiting G D i + count_list pending i"
    "t_scheduled (in_tasks inner ! i) \<longleftrightarrow> i \<in> D \<or> i \<in> dom (items (in_runnable inner))"
    using ok by (simp_all only: task_ok_def)
  show "t_scheduled (in_tasks inner ! i) \<Longrightarrow> t_unsatisfied_dependencies (in_tasks inner ! i) = 0"
    "t_unsatisfied_dependencies (in_tasks inner ! i) = 0 \<Longrightarrow>
      t_is_ready (in_tasks inner ! i) \<Longrightarrow> t_scheduled (in_tasks inner ! i)"
    using ok unfolding task_ok_def by argo+
qed

lemma tasks_shapeD:
  assumes "tasks_shape G ts" "i < tg_n G"
  shows "t_node_id (ts ! i) = i" "t_successors (ts ! i) = tg_succ G i"
    "t_is_async (ts ! i) = tg_async G i" "tg_async G i \<or> t_is_ready (ts ! i)"
    "t_num_predecessors (ts ! i) = (\<Sum>j<tg_n G. count_list (tg_succ G j) i)"
    "length ts = tg_n G"
  using assms by (auto simp: tasks_shape_def)

text \<open>Changing the bookkeeping of one task keeps the shape.\<close>

lemma tasks_shape_update:
  assumes "tasks_shape G ts" "i < tg_n G"
    and "t_node_id t = i" "t_successors t = tg_succ G i" "t_is_async t = tg_async G i"
      "t_num_predecessors t = t_num_predecessors (ts ! i)" "tg_async G i \<or> t_is_ready t"
  shows "tasks_shape G (ts[i := t])"
  using assms by (auto simp: tasks_shape_def nth_list_update)

text \<open>
  The three ways a turn touches one task, as one rule: the new task has its count of waiting
  predecessors, and it enters the queue when that is zero and it is ready.
\<close>

lemma sched_inv_update:
  assumes inv: "sched_inv G items inner D pending" and i: "i < tg_n G"
    and t: "t_node_id t = i" "t_successors t = tg_succ G i" "t_is_async t = tg_async G i"
      "t_num_predecessors t = t_num_predecessors (in_tasks inner ! i)"
      "tg_async G i \<or> t_is_ready t"
    and unsat: "t_unsatisfied_dependencies t = waiting G D i + count_list pending' i"
    and others: "\<And>j. j < tg_n G \<Longrightarrow> j \<noteq> i \<Longrightarrow> count_list pending' j = count_list pending j"
    and items': "items q = (if t_scheduled t \<and> \<not> t_scheduled (in_tasks inner ! i)
        then (items (in_runnable inner))(i \<mapsto> p) else items (in_runnable inner))"
    and mono: "t_scheduled (in_tasks inner ! i) \<Longrightarrow> t_scheduled t"
    and sched: "t_scheduled t \<Longrightarrow> t_unsatisfied_dependencies t = 0"
      "t_unsatisfied_dependencies t = 0 \<Longrightarrow> t_is_ready t \<Longrightarrow> t_scheduled t"
  shows "sched_inv G items (inner\<lparr>in_tasks := (in_tasks inner)[i := t], in_runnable := q\<rparr>) D pending'"
proof -
  note I = sched_invD [OF inv]
  have shape: "tasks_shape G ((in_tasks inner)[i := t])"
    using I(1) i t by (intro tasks_shape_update) auto
  have notD: "i \<notin> D" if "\<not> t_scheduled (in_tasks inner ! i)" using that I(7) [OF i] by blast
  have dom: "dom (items q) \<subseteq> {..<tg_n G} - D"
  proof (cases "t_scheduled t \<and> \<not> t_scheduled (in_tasks inner ! i)")
    case True
    then show ?thesis using I(4) items' i notD by auto
  next
    case False
    have "items q = items (in_runnable inner)" by (subst items', rule if_not_P [OF False])
    then show ?thesis using I(4) by simp
  qed
  have task: "task_ok (waiting G D j + count_list pending' j) (j \<in> D \<or> j \<in> dom (items q))
      ((in_tasks inner)[i := t] ! j)" if j: "j < tg_n G" for j
  proof (cases "j = i")
    case True
    have "t_scheduled t \<longleftrightarrow> i \<in> D \<or> i \<in> dom (items q)"
    proof (cases "t_scheduled (in_tasks inner ! i)")
      case True
      then show ?thesis using I(7) [OF i] mono items' by simp
    next
      case False
      then show ?thesis using I(7) [OF i] items' by (cases "t_scheduled t") simp_all
    qed
    moreover have "(in_tasks inner)[i := t] ! j = t" using True i I(2) by simp
    ultimately show ?thesis unfolding task_ok_def using True unsat sched by metis
  next
    case False
    have "j \<in> dom (items q) \<longleftrightarrow> j \<in> dom (items (in_runnable inner))"
      using False by (cases "t_scheduled t \<and> \<not> t_scheduled (in_tasks inner ! i)")
        (simp_all add: items')
    then show ?thesis using False others [OF j False] I(10) [OF j] by simp
  qed
  show ?thesis using shape dom task I(3,5) by (simp add: sched_inv_def)
qed

lemma run_queue_push_ok:
  assumes "t_unsatisfied_dependencies t = 0" "t_is_ready t" "\<not> t_scheduled t"
  shows "run_queue_push qo q t =
    Inr (qo_push qo q (t_node_id t) (t_priority t), t\<lparr>t_scheduled := True\<rparr>)"
  using assms by (simp add: run_queue_push_def)

section \<open>Dequeueing a task\<close>

definition advances :: "'q inner \<Rightarrow> 'q inner \<Rightarrow> bool" where
  "advances inner inner' \<longleftrightarrow>
     in_notifications inner' = in_notifications inner \<and>
     length (in_tasks inner') = length (in_tasks inner) \<and>
     (\<forall>i<length (in_tasks inner).
        t_is_ready (in_tasks inner' ! i) = t_is_ready (in_tasks inner ! i) \<and>
        (t_scheduled (in_tasks inner ! i) \<longrightarrow> t_scheduled (in_tasks inner' ! i)))"

lemma advances_refl [simp]: "advances a a" and
  advances_trans: "advances a b \<Longrightarrow> advances b c \<Longrightarrow> advances a c"
  by (auto simp: advances_def)

lemma release_successors_ok:
  assumes pq: "priority_queue qo items"
  shows "sched_inv G items inner D pending \<Longrightarrow> set pending \<subseteq> {..<tg_n G} \<Longrightarrow>
    \<exists>inner'. release_successors qo inner pending = Inr inner' \<and> sched_inv G items inner' D [] \<and>
      advances inner inner'"
proof (induction pending arbitrary: inner)
  case (Cons s ps)
  note I = sched_invD [OF Cons.prems(1)]
  have s: "s < tg_n G" and ps: "set ps \<subseteq> {..<tg_n G}" using Cons.prems(2) by simp_all
  let ?old = "in_tasks inner ! s"
  let ?t = "?old\<lparr>t_unsatisfied_dependencies := t_unsatisfied_dependencies ?old - 1\<rparr>"
  have unsat: "t_unsatisfied_dependencies ?old = Suc (waiting G D s + count_list ps s)"
    using I(6) [OF s] by simp
  have nsched: "\<not> t_scheduled ?old" using I(8) [OF s] unsat by auto
  have others: "count_list ps j = count_list (s # ps) j" if "j \<noteq> s" for j using that by simp
  note shape = tasks_shapeD [OF I(1) s]
  show ?case
  proof (cases "t_unsatisfied_dependencies ?t = 0 \<and> t_is_ready ?t")
    case True
    let ?q = "qo_push qo (in_runnable inner) (t_node_id ?t) (t_priority ?t)"
    let ?in = "inner\<lparr>in_tasks := (in_tasks inner)[s := ?t\<lparr>t_scheduled := True\<rparr>], in_runnable := ?q\<rparr>"
    have inv': "sched_inv G items ?in D ps"
      using True shape unsat nsched others
      by (intro sched_inv_update [OF Cons.prems(1) s, where p = "t_priority ?t"])
        (simp_all add: pq_push [OF pq] fun_upd_def)
    have sr: "advances inner ?in"
      using s I(2) by (simp add: advances_def nth_list_update)
    have push: "run_queue_push qo (in_runnable inner) ?t = Inr (?q, ?t\<lparr>t_scheduled := True\<rparr>)"
      using True nsched by (intro run_queue_push_ok) auto
    have eq: "release_successors qo inner (s # ps) = release_successors qo ?in ps"
      using True s I(2) unsat push by (simp add: Let_def)
    show ?thesis unfolding eq
      using Cons.IH [OF inv' ps] advances_trans [OF sr] by blast
  next
    case False
    let ?in = "inner\<lparr>in_tasks := (in_tasks inner)[s := ?t]\<rparr>"
    have "sched_inv G items (?in\<lparr>in_runnable := in_runnable inner\<rparr>) D ps"
      using False shape unsat nsched others
      by (intro sched_inv_update [OF Cons.prems(1) s]) simp_all
    then have inv': "sched_inv G items ?in D ps" by simp
    have sr: "advances inner ?in"
      using s I(2) by (simp add: advances_def nth_list_update)
    have eq: "release_successors qo inner (s # ps) = release_successors qo ?in ps"
      using False s I(2) unsat by (auto simp: Let_def)
    show ?thesis unfolding eq
      using Cons.IH [OF inv' ps] advances_trans [OF sr] by blast
  qed
qed auto

lemma waiting_insert:
  assumes "k < tg_n G" "k \<notin> D"
  shows "waiting G D i = waiting G (insert k D) i + count_list (tg_succ G k) i"
proof -
  have "{..<tg_n G} - D = insert k ({..<tg_n G} - insert k D)" using assms by auto
  then have "waiting G D i = (\<Sum>j\<in>insert k ({..<tg_n G} - insert k D). count_list (tg_succ G j) i)"
    unfolding waiting_def by (rule arg_cong)
  also have "\<dots> = count_list (tg_succ G k) i + waiting G (insert k D) i"
    unfolding waiting_def by (rule sum.insert) simp_all
  finally show ?thesis by simp
qed

lemma sched_inv_popped:
  assumes inv: "sched_inv G items inner D []"
    and k: "k < tg_n G" "k \<notin> D" "items (in_runnable inner) k = Some p"
    and q: "items q = (items (in_runnable inner))(k := None)"
  shows "sched_inv G items (inner\<lparr>in_runnable := q\<rparr>) (insert k D) (tg_succ G k)"
proof -
  note I = sched_invD [OF inv]
  have "task_ok (waiting G (insert k D) i + count_list (tg_succ G k) i)
      (i \<in> insert k D \<or> i \<in> dom (items q)) (in_tasks inner ! i)" if i: "i < tg_n G" for i
  proof -
    have "i \<in> insert k D \<or> i \<in> dom (items q) \<longleftrightarrow> i \<in> D \<or> i \<in> dom (items (in_runnable inner))"
      using q k(3) by (cases "i = k") auto
    then show ?thesis using I(10) [OF i] waiting_insert [OF k(1,2), of i] by simp
  qed
  moreover have "dom (items q) \<subseteq> {..<tg_n G} - insert k D" using I(4) q by auto
  ultimately show ?thesis using I(1,3,5) k by (simp add: sched_inv_def)
qed

lemma dequeue_next_task_ok:
  assumes pq: "priority_queue qo items" and closed: "graph_closed G"
    and inv: "sched_inv G items inner D []"
  shows "(items (in_runnable inner) = Map.empty \<and>
      (\<exists>q. dequeue_next_task qo inner = Inr (None, inner\<lparr>in_runnable := q\<rparr>) \<and> items q = Map.empty)) \<or>
    items (in_runnable inner) \<noteq> Map.empty \<and>
    (\<exists>k inner'. dequeue_next_task qo inner = Inr (Some k, inner') \<and> k < tg_n G \<and> k \<notin> D \<and>
      waiting G D k = 0 \<and> sched_inv G items inner' (insert k D) [] \<and> advances inner inner')"
proof (cases "qo_pop qo (in_runnable inner)")
  case (Pair r q)
  note I = sched_invD [OF inv]
  show ?thesis
  proof (cases r)
    case None
    then show ?thesis
      using Pair pq_pop_None [OF pq, of "in_runnable inner" q] by (auto simp: dequeue_next_task_def)
  next
    case (Some kp)
    obtain k p where kp: "kp = (k, p)" by fastforce
    have pop: "items (in_runnable inner) k = Some p" "items q = (items (in_runnable inner))(k := None)"
      using pq_pop_Some [OF pq, of "in_runnable inner" k p q] Pair Some kp by auto
    have k: "k < tg_n G" "k \<notin> D" using I(4) pop(1) by auto
    have sched: "t_scheduled (in_tasks inner ! k)" using I(7) [OF k(1)] pop(1) by auto
    have w: "waiting G D k = 0" using I(6) [OF k(1)] I(8) [OF k(1) sched] by simp
    have inv': "sched_inv G items (inner\<lparr>in_runnable := q\<rparr>) (insert k D) (tg_succ G k)"
      by (rule sched_inv_popped [OF inv k pop])
    have "set (tg_succ G k) \<subseteq> {..<tg_n G}" using closed k(1) by (simp add: graph_closed_def)
    then obtain inner' where r: "release_successors qo (inner\<lparr>in_runnable := q\<rparr>) (tg_succ G k) =
        Inr inner'" "sched_inv G items inner' (insert k D) []"
        "advances (inner\<lparr>in_runnable := q\<rparr>) inner'"
      using release_successors_ok [OF pq inv'] by auto
    have "dequeue_next_task qo inner = Inr (Some k, inner')"
      using Pair Some kp k(1) I(2) r(1) tasks_shapeD(2) [OF I(1) k(1)]
      by (simp add: dequeue_next_task_def)
    moreover have "advances inner inner'" using r(3) by (simp add: advances_def)
    moreover have "items (in_runnable inner) \<noteq> Map.empty" using pop(1) by auto
    ultimately show ?thesis using k w r(2) by blast
  qed
qed

section \<open>Notifications\<close>

lemma notification_loop_ok:
  assumes pq: "priority_queue qo items"
  shows "sched_inv G items inner D [] \<Longrightarrow> set nodes \<subseteq> {i. i < tg_n G \<and> tg_async G i} \<Longrightarrow>
    \<exists>inner'. notification_loop qo ready inner nodes = Inr inner' \<and> sched_inv G items inner' D [] \<and>
      in_notifications inner' = in_notifications inner \<and>
      (\<forall>i<tg_n G. (t_is_ready (in_tasks inner' ! i) \<longleftrightarrow>
         t_is_ready (in_tasks inner ! i) \<or> i \<in> set nodes \<and> ready i) \<and>
         (t_scheduled (in_tasks inner ! i) \<longrightarrow> t_scheduled (in_tasks inner' ! i)))"
proof (induction nodes arbitrary: inner)
  case (Cons s ns)
  note I = sched_invD [OF Cons.prems(1)]
  have s: "s < tg_n G" "tg_async G s" and ns: "set ns \<subseteq> {i. i < tg_n G \<and> tg_async G i}"
    using Cons.prems(2) by auto
  let ?old = "in_tasks inner ! s"
  let ?t = "?old\<lparr>t_is_ready := True\<rparr>"
  note shape = tasks_shapeD [OF I(1) s(1)]
  have len: "\<not> length (in_tasks inner) \<le> s" using s(1) I(2) by simp
  show ?case
  proof (cases "\<not> t_is_ready ?old \<and> ready s")
    case False
    have eq: "notification_loop qo ready inner (s # ns) = notification_loop qo ready inner ns"
      using False shape(3) s(2) len by (auto simp: Let_def)
    have "t_is_ready ?old \<or> \<not> ready s" using False by blast
    then show ?thesis unfolding eq using Cons.IH [OF Cons.prems(1) ns] by fastforce
  next
    case True
    have unsat: "t_unsatisfied_dependencies ?old = waiting G D s" using I(6) [OF s(1)] by simp
    show ?thesis
    proof (cases "t_unsatisfied_dependencies ?t = 0 \<and> \<not> t_scheduled ?t")
      case push: True
      let ?q = "qo_push qo (in_runnable inner) (t_node_id ?t) (t_priority ?t)"
      let ?in = "inner\<lparr>in_tasks := (in_tasks inner)[s := ?t\<lparr>t_scheduled := True\<rparr>], in_runnable := ?q\<rparr>"
      have inv': "sched_inv G items ?in D []"
        using push shape unsat s(2)
        by (intro sched_inv_update [OF Cons.prems(1) s(1), where p = "t_priority ?t"])
          (simp_all add: pq_push [OF pq] fun_upd_def)
      have "run_queue_push qo (in_runnable inner) ?t = Inr (?q, ?t\<lparr>t_scheduled := True\<rparr>)"
        using push by (intro run_queue_push_ok) auto
      then have eq: "notification_loop qo ready inner (s # ns) = notification_loop qo ready ?in ns"
        using True push shape(3) s(2) len by (simp add: Let_def)
      have rdy: "t_is_ready (in_tasks ?in ! i) \<longleftrightarrow> t_is_ready (in_tasks inner ! i) \<or> i = s" for i
        using s(1) I(2) by (simp add: nth_list_update)
      have "t_scheduled (in_tasks inner ! i) \<Longrightarrow> t_scheduled (in_tasks ?in ! i)" for i
        using s(1) I(2) by (simp add: nth_list_update)
      then show ?thesis unfolding eq using Cons.IH [OF inv' ns] True unfolding rdy by auto
    next
      case skip: False
      let ?in = "inner\<lparr>in_tasks := (in_tasks inner)[s := ?t]\<rparr>"
      have "sched_inv G items (?in\<lparr>in_runnable := in_runnable inner\<rparr>) D []"
        using skip shape unsat s(2) I(8) [OF s(1)]
        by (intro sched_inv_update [OF Cons.prems(1) s(1)]) simp_all
      then have inv': "sched_inv G items ?in D []" by simp
      have eq: "notification_loop qo ready inner (s # ns) = notification_loop qo ready ?in ns"
        using True skip shape(3) s(2) len by (auto simp: Let_def)
      have rdy: "t_is_ready (in_tasks ?in ! i) \<longleftrightarrow> t_is_ready (in_tasks inner ! i) \<or> i = s" for i
        using s(1) I(2) by (simp add: nth_list_update)
      have "t_scheduled (in_tasks inner ! i) \<Longrightarrow> t_scheduled (in_tasks ?in ! i)" for i
        using s(1) I(2) by (simp add: nth_list_update)
      then show ?thesis unfolding eq using Cons.IH [OF inv' ns] True unfolding rdy by auto
    qed
  qed
qed auto

lemma process_notifications_ok:
  assumes pq: "priority_queue qo items" and inv: "sched_inv G items inner D []"
    and drain: "set (drain (in_notifications inner)) = set (in_notifications inner)"
  shows "\<exists>inner'. process_notifications qo drain ready inner = Inr inner' \<and>
    sched_inv G items inner' D [] \<and> in_notifications inner' = [] \<and>
    (\<forall>i<tg_n G. (t_is_ready (in_tasks inner' ! i) \<longleftrightarrow>
       t_is_ready (in_tasks inner ! i) \<or> i \<in> set (in_notifications inner) \<and> ready i) \<and>
       (t_scheduled (in_tasks inner ! i) \<longrightarrow> t_scheduled (in_tasks inner' ! i)))"
proof -
  have "sched_inv G items (inner\<lparr>in_notifications := []\<rparr>) D []"
    using inv by (simp add: sched_inv_def)
  from notification_loop_ok [OF pq this, of "drain (in_notifications inner)" ready]
  show ?thesis using drain sched_invD(5) [OF inv] by (auto simp: process_notifications_def)
qed

end
