(* ===== verification/Schedule_Runs.thy ===== *)
theory Schedule_Runs
  imports Scheduler_Laws
begin

text \<open>
  Runs of the schedulers.  \<open>step_log\<close> describes the events logged by a step that evaluated the given
  nodes in the given order, \<open>valid_order\<close> says that no node is evaluated twice or before one of its
  predecessors, and \<open>run_inv\<close> ties the state of the dynamic scheduler to both.
\<close>

section \<open>Logs and orders\<close>

inductive step_log :: "('c, 'z) circuit_ops_scheme \<Rightarrow> scheduler_event list \<Rightarrow> node_id list \<Rightarrow> bool"
  for c where
  start: "step_log c [StepStart (co_global_id c)] []"
| wait_start: "step_log c l xs \<Longrightarrow> step_log c (l @ [WaitStart (co_global_id c)]) xs"
| wait_end: "step_log c l xs \<Longrightarrow> step_log c (l @ [WaitEnd (co_global_id c)]) xs"
| eval: "step_log c l xs \<Longrightarrow> i < num_nodes c \<Longrightarrow> co_eval c circuit i = Inr (None, evs, circuit') \<Longrightarrow>
    step_log c (l @ [EvalStart (gid_child (co_global_id c) i)] @ evs @
                    [EvalEnd (gid_child (co_global_id c) i)]) (xs @ [i])"

definition valid_order :: "task_graph \<Rightarrow> node_id list \<Rightarrow> bool" where
  "valid_order G xs \<longleftrightarrow>
     distinct xs \<and> set xs \<subseteq> {..<tg_n G} \<and>
     (\<forall>k<length xs. \<forall>j<tg_n G. xs ! k \<in> set (tg_succ G j) \<longrightarrow> j \<in> set (take k xs))"

lemma valid_order_Nil [simp]: "valid_order G []"
  by (simp add: valid_order_def)

lemma waiting_0_iff: "waiting G D i = 0 \<longleftrightarrow> (\<forall>j<tg_n G. i \<in> set (tg_succ G j) \<longrightarrow> j \<in> D)"
  by (auto simp: waiting_def count_list_0_iff)

lemma valid_order_snoc:
  assumes "valid_order G xs" "i < tg_n G" "i \<notin> set xs" "waiting G (set xs) i = 0"
  shows "valid_order G (xs @ [i])"
  using assms unfolding valid_order_def waiting_0_iff
  by (auto simp: nth_append less_Suc_eq)

lemma valid_order_complete:
  assumes "valid_order G xs" "length xs \<ge> tg_n G"
  shows "set xs = {..<tg_n G}"
  using assms card_subset_eq [of "{..<tg_n G}" "set xs"] card_mono [of "{..<tg_n G}" "set xs"]
  by (auto simp: valid_order_def distinct_card)

section \<open>Between two steps\<close>

definition rest_inv :: "task_graph \<Rightarrow> ('q \<Rightarrow> node_id \<Rightarrow> int option) \<Rightarrow> 'q inner \<Rightarrow> bool" where
  "rest_inv G items inner \<longleftrightarrow>
     tasks_shape G (in_tasks inner) \<and>
     items (in_runnable inner) = Map.empty \<and>
     set (in_notifications inner) \<subseteq> {i. i < tg_n G \<and> tg_async G i}"

definition reset_task :: "task \<Rightarrow> task" where
  "reset_task t =
     t\<lparr>t_unsatisfied_dependencies := t_num_predecessors t,
       t_scheduled := (t_num_predecessors t = 0 \<and> t_is_ready t)\<rparr>"

lemma reset_loop_ok:
  assumes pq: "priority_queue qo items"
  shows "\<exists>q'. reset_loop qo q fin ts = Inr (q', fin @ map reset_task ts) \<and>
    dom (items q') = dom (items q) \<union> t_node_id ` {t \<in> set ts. t_num_predecessors t = 0 \<and> t_is_ready t}"
proof (induction ts arbitrary: q fin)
  case (Cons t ts)
  let ?t = "t\<lparr>t_unsatisfied_dependencies := t_num_predecessors t, t_scheduled := False\<rparr>"
  show ?case
  proof (cases "t_num_predecessors t = 0 \<and> t_is_ready t")
    case True
    let ?q = "qo_push qo q (t_node_id t) (t_priority t)"
    have "run_queue_push qo q ?t = Inr (?q, reset_task t)"
      using True by (simp add: run_queue_push_def reset_task_def)
    then have eq: "reset_loop qo q fin (t # ts) = reset_loop qo ?q (fin @ [reset_task t]) ts"
      using True by (simp add: Let_def)
    have "dom (items ?q) = insert (t_node_id t) (dom (items q))" by (simp add: pq_push [OF pq] dom_def) auto
    then show ?thesis unfolding eq using Cons.IH [of ?q "fin @ [reset_task t]"] True by fastforce
  next
    case False
    have eq: "reset_loop qo q fin (t # ts) = reset_loop qo q (fin @ [reset_task t]) ts"
      using False by (auto simp: Let_def reset_task_def)
    show ?thesis unfolding eq using Cons.IH [of q "fin @ [reset_task t]"] False by fastforce
  qed
qed simp

lemma dynamic_start_ok:
  assumes pq: "priority_queue qo items" and rest: "rest_inv G items inner"
  shows "\<exists>st. dynamic_start qo c inner circuit token = Inr st \<and>
    sched_inv G items (ss_inner st) {} [] \<and>
    (\<forall>i<tg_n G. t_is_ready (in_tasks (ss_inner st) ! i) = t_is_ready (in_tasks inner ! i)) \<and>
    in_notifications (ss_inner st) = in_notifications inner \<and>
    ss_circuit st = circuit \<and> ss_completed_tasks st = 0 \<and> ss_phase st = Looping \<and>
    ss_token st = token \<and> ss_log st = [StepStart (co_global_id c)]"
proof -
  let ?ts = "in_tasks inner"
  obtain q where q: "reset_loop qo (in_runnable inner) [] ?ts = Inr (q, map reset_task ?ts)"
      "dom (items q) = dom (items (in_runnable inner)) \<union>
         t_node_id ` {t \<in> set ?ts. t_num_predecessors t = 0 \<and> t_is_ready t}"
    using reset_loop_ok [OF pq, of "in_runnable inner" "[]" ?ts] by auto
  have shape: "tasks_shape G ?ts" using rest by (simp add: rest_inv_def)
  note S = tasks_shapeD [OF shape]
  have len: "length ?ts = tg_n G" using shape by (simp add: tasks_shape_def)
  have dom: "i \<in> dom (items q) \<longleftrightarrow> i < tg_n G \<and> t_num_predecessors (?ts ! i) = 0 \<and> t_is_ready (?ts ! i)"
    for i
    using rest q(2) S(1) len by (auto simp: rest_inv_def image_iff set_conv_nth Bex_def)
  let ?in = "inner\<lparr>in_tasks := map reset_task ?ts, in_runnable := q\<rparr>"
  have "tasks_shape G (map reset_task ?ts)"
    using shape by (simp add: tasks_shape_def reset_task_def)
  moreover have "task_ok (waiting G {} i + count_list [] i) (i \<in> {} \<or> i \<in> dom (items q))
      (map reset_task ?ts ! i)" if i: "i < tg_n G" for i
    using i len S(5) [OF i] dom [of i] unfolding task_ok_def
    by (simp add: reset_task_def waiting_def)
  moreover have "dom (items q) \<subseteq> {..<tg_n G}" using dom by auto
  ultimately have "sched_inv G items ?in {} []"
    using rest by (simp add: sched_inv_def rest_inv_def)
  moreover have "t_is_ready (in_tasks ?in ! i) = t_is_ready (?ts ! i)" if "i < tg_n G" for i
    using that len by (simp add: reset_task_def)
  ultimately show ?thesis using q(1) by (simp add: dynamic_start_def)
qed

section \<open>One turn of the dynamic scheduler\<close>

definition env_ok :: "task_graph \<Rightarrow> 'c environment \<Rightarrow> bool" where
  "env_ok G ev \<longleftrightarrow>
     (\<forall>i\<in>set (ev_notified ev). i < tg_n G \<and> tg_async G i) \<and>
     (\<forall>xs. set (ev_drain ev xs) = set xs)"

definition eval_returns :: "('c, 'z) circuit_ops_scheme \<Rightarrow> bool" where
  "eval_returns c \<longleftrightarrow> (\<forall>circuit i. i < num_nodes c \<longrightarrow> returns (co_eval c circuit i))"

definition may_fail :: "('c, 'z) circuit_ops_scheme \<Rightarrow> node_id \<Rightarrow> bool" where
  "may_fail c i \<longleftrightarrow> (\<exists>circuit e evs circuit'. co_eval c circuit i = Inr (Some e, evs, circuit'))"

definition run_inv ::
  "task_graph \<Rightarrow> ('q \<Rightarrow> node_id \<Rightarrow> int option) \<Rightarrow> ('c, 'z) circuit_ops_scheme \<Rightarrow>
   ('c, 'q) step_state \<Rightarrow> node_id list \<Rightarrow> bool" where
  "run_inv G items c st xs \<longleftrightarrow>
     valid_order G xs \<and>
     (case ss_phase st of
        Looping \<Rightarrow>
          sched_inv G items (ss_inner st) (set xs) [] \<and> ss_completed_tasks st = length xs \<and>
          step_log c (ss_log st) xs
      | Parked \<Rightarrow>
          sched_inv G items (ss_inner st) (set xs) [] \<and> ss_completed_tasks st = length xs \<and>
          step_log c (ss_log st) xs \<and> items (in_runnable (ss_inner st)) = Map.empty \<and>
          length xs < tg_n G
      | Finished \<Rightarrow>
          rest_inv G items (ss_inner st) \<and> set xs = {..<tg_n G} \<and>
          (\<exists>l. ss_log st = l @ [StepEnd (co_global_id c)] \<and> step_log c l xs)
      | Failed e \<Rightarrow>
          (\<exists>l tail. ss_log st = l @ tail \<and> step_log c l xs \<and>
             (tail = [] \<or>
              (\<exists>i evs. tail = EvalStart (gid_child (co_global_id c) i) # evs \<and>
                 valid_order G (xs @ [i])))))"

lemma foldl_notify: "set (foldl notify ns xs) = set ns \<union> set xs"
  by (induction xs arbitrary: ns) (auto simp: notify_def)

lemma sched_inv_notifications:
  "sched_inv G items inner D p \<Longrightarrow> set ns \<subseteq> {i. i < tg_n G \<and> tg_async G i} \<Longrightarrow>
   sched_inv G items (inner\<lparr>in_notifications := ns\<rparr>) D p"
  by (simp add: sched_inv_def)

lemma rest_inv_notifications:
  "rest_inv G items inner \<Longrightarrow> set ns \<subseteq> {i. i < tg_n G \<and> tg_async G i} \<Longrightarrow>
   rest_inv G items (inner\<lparr>in_notifications := ns\<rparr>)"
  by (simp add: rest_inv_def)

lemma deliver_inv:
  assumes "run_inv G items c st xs" "env_ok G ev"
  shows "run_inv G items c (deliver ev st) xs"
proof -
  have "set (foldl notify (in_notifications (ss_inner st)) (ev_notified ev)) \<subseteq>
      {i. i < tg_n G \<and> tg_async G i}"
    if "set (in_notifications (ss_inner st)) \<subseteq> {i. i < tg_n G \<and> tg_async G i}"
    using assms(2) that by (auto simp: foldl_notify env_ok_def)
  then show ?thesis
    using assms(1) sched_invD(5) [of G items "ss_inner st" "set xs" "[]"]
    by (auto simp: run_inv_def deliver_def rest_inv_def split: phase.splits
      intro!: sched_inv_notifications)
qed

lemma deliver_simps [simp]:
  "ss_phase (deliver ev st) = ss_phase st" "ss_log (deliver ev st) = ss_log st"
  "ss_completed_tasks (deliver ev st) = ss_completed_tasks st"
  "in_tasks (ss_inner (deliver ev st)) = in_tasks (ss_inner st)"
  "in_runnable (ss_inner (deliver ev st)) = in_runnable (ss_inner st)"
  "ss_circuit (deliver ev st) = ev_act ev (ss_circuit st)"
  "ss_token (deliver ev st) \<longleftrightarrow> ss_token st \<or> ev_unpark ev"
  "set (in_notifications (ss_inner (deliver ev st))) =
     set (in_notifications (ss_inner st)) \<union> set (ev_notified ev)"
  by (simp_all add: deliver_def foldl_notify)

text \<open>An asynchronous task that was evaluated has to become ready again.\<close>

lemma sched_inv_unready:
  assumes inv: "sched_inv G items inner D []" and i: "i < tg_n G" "i \<in> D" "tg_async G i"
  shows "sched_inv G items
    (inner\<lparr>in_tasks := (in_tasks inner)[i := (in_tasks inner ! i)\<lparr>t_is_ready := False\<rparr>]\<rparr>) D []"
proof -
  note I = sched_invD [OF inv]
  have "task_ok (waiting G D j + count_list [] j) (j \<in> D \<or> j \<in> dom (items (in_runnable inner)))
      ((in_tasks inner)[i := (in_tasks inner ! i)\<lparr>t_is_ready := False\<rparr>] ! j)" if j: "j < tg_n G" for j
  proof (cases "j = i")
    case True
    have "task_ok w s (t\<lparr>t_is_ready := False\<rparr>)" if "task_ok w s t" for w s t
      using that unfolding task_ok_def by simp
    then show ?thesis using True I(10) [OF j] i(1) I(2) by simp
  next
    case False
    then show ?thesis using I(10) [OF j] by simp
  qed
  moreover have "tasks_shape G ((in_tasks inner)[i := (in_tasks inner ! i)\<lparr>t_is_ready := False\<rparr>])"
    using tasks_shapeD [OF I(1) i(1)] i I(1) by (intro tasks_shape_update) simp_all
  ultimately show ?thesis using I(3,4,5) by (simp add: sched_inv_def)
qed

lemma eval_node_cases:
  assumes "eval_returns c" "i < num_nodes c"
  shows "\<exists>err evs circuit'. co_eval c circuit i = Inr (err, evs, circuit') \<and>
    eval_node c circuit i = Inr (err, [EvalStart (gid_child (co_global_id c) i)] @ evs @
      (if err = None then [EvalEnd (gid_child (co_global_id c) i)] else []), circuit')"
proof -
  obtain err evs circuit' where e: "co_eval c circuit i = Inr (err, evs, circuit')"
    using assms by (force simp: eval_returns_def returns_iff)
  show ?thesis using assms(2) by (cases err) (simp_all add: e eval_node_def Let_def)
qed

definition task_after :: "('c, 'q) step_state \<Rightarrow> node_id \<Rightarrow> task list" where
  "task_after st i =
     (let ts = in_tasks (ss_inner st)
      in if t_is_async (ts ! i) then ts[i := (ts ! i)\<lparr>t_is_ready := False\<rparr>] else ts)"

lemma run_task_inv:
  assumes ret: "eval_returns c" "num_nodes c = tg_n G"
    and st: "valid_order G xs" "sched_inv G items (ss_inner st) (insert i (set xs)) []"
      "ss_completed_tasks st = length xs" "step_log c (ss_log st) xs" "ss_phase st = Looping"
    and i: "i < tg_n G" "i \<notin> set xs" "waiting G (set xs) i = 0"
  shows "\<exists>st'. run_task c st i = Inr st' \<and> ss_token st' = ss_token st \<and>
    in_notifications (ss_inner st') = in_notifications (ss_inner st) \<and>
    (run_inv G items c st' (xs @ [i]) \<and> ss_phase st' = Looping \<and>
       in_tasks (ss_inner st') = task_after st i \<or>
     run_inv G items c st' xs \<and> (\<exists>e. ss_phase st' = Failed e) \<and>
       may_fail c i)"
proof -
  obtain err evs circuit' where e: "co_eval c (ss_circuit st) i = Inr (err, evs, circuit')"
      "eval_node c (ss_circuit st) i = Inr (err, [EvalStart (gid_child (co_global_id c) i)] @ evs @
        (if err = None then [EvalEnd (gid_child (co_global_id c) i)] else []), circuit')"
    using eval_node_cases [OF ret(1), of i "ss_circuit st"] i(1) ret(2) by auto
  have vo: "valid_order G (xs @ [i])" by (rule valid_order_snoc [OF st(1) i])
  show ?thesis
  proof (cases err)
    case None
    have log: "step_log c (ss_log st @ [EvalStart (gid_child (co_global_id c) i)] @ evs @
        [EvalEnd (gid_child (co_global_id c) i)]) (xs @ [i])"
      using st(4) i(1) ret(2) e(1) None by (intro step_log.eval) auto
    let ?in = "(ss_inner st)\<lparr>in_tasks := task_after st i\<rparr>"
    have inv: "sched_inv G items ?in (set (xs @ [i])) []"
      using sched_inv_unready [OF st(2) i(1)] st(2) i(1) tasks_shapeD(3) [OF sched_invD(1) [OF st(2)] i(1)]
      by (simp add: task_after_def Let_def)
    show ?thesis
      using e(2) None log inv vo st(3,5)
      by (simp add: run_task_def run_inv_def Let_def task_after_def)
  next
    case (Some x)
    show ?thesis
      using e Some vo st(1,4) by (auto simp: run_task_def run_inv_def Let_def may_fail_def)
  qed
qed

lemma idle_turn_inv:
  assumes pq: "priority_queue qo items" and ev: "env_ok G ev"
    and st: "valid_order G xs" "sched_inv G items (ss_inner st) (set xs) []"
      "ss_completed_tasks st = length xs" "step_log c (ss_log st) xs" "ss_phase st = Looping"
      "length xs < tg_n G"
  shows "\<exists>st'. idle_turn qo c ev st = Inr st' \<and> run_inv G items c st' xs \<and>
    ss_token st' = ss_token st \<and> in_notifications (ss_inner st') = [] \<and>
    ss_phase st' = (if items (in_runnable (ss_inner st')) = Map.empty then Parked else Looping) \<and>
    (\<forall>i<tg_n G. (t_is_ready (in_tasks (ss_inner st') ! i) \<longleftrightarrow>
         t_is_ready (in_tasks (ss_inner st) ! i) \<or>
         i \<in> set (in_notifications (ss_inner st)) \<and> co_ready c (ss_circuit st) i) \<and>
       (t_scheduled (in_tasks (ss_inner st) ! i) \<longrightarrow> t_scheduled (in_tasks (ss_inner st') ! i)))"
proof -
  have "set (ev_drain ev (in_notifications (ss_inner st))) = set (in_notifications (ss_inner st))"
    using ev by (simp add: env_ok_def)
  then obtain inner' where p: "process_notifications qo (ev_drain ev) (co_ready c (ss_circuit st))
        (ss_inner st) = Inr inner'" "sched_inv G items inner' (set xs) []"
      "in_notifications inner' = []"
      "\<forall>i<tg_n G. (t_is_ready (in_tasks inner' ! i) \<longleftrightarrow> t_is_ready (in_tasks (ss_inner st) ! i) \<or>
         i \<in> set (in_notifications (ss_inner st)) \<and> co_ready c (ss_circuit st) i) \<and>
         (t_scheduled (in_tasks (ss_inner st) ! i) \<longrightarrow> t_scheduled (in_tasks inner' ! i))"
    using process_notifications_ok [OF pq st(2), of "ev_drain ev" "co_ready c (ss_circuit st)"] by auto
  show ?thesis
  proof (cases "items (in_runnable inner') = Map.empty")
    case True
    have "step_log c (ss_log st @ [WaitStart (co_global_id c)]) xs"
      by (rule step_log.wait_start [OF st(4)])
    then show ?thesis
      using p True st by (simp add: idle_turn_def run_inv_def Let_def pq_is_empty [OF pq])
  next
    case False
    then show ?thesis
      using p st by (simp add: idle_turn_def run_inv_def Let_def pq_is_empty [OF pq])
  qed
qed

section \<open>The cases of a turn\<close>

text \<open>
  A turn of the loop evaluates a task, looks for notifications, or ends the step; a parked thread
  waits for its token.  \<open>stalled\<close> is what a loop turn finds when no task can run.
\<close>

lemma loop_run_turn:
  assumes pq: "priority_queue qo items" and G: "graph_closed G" "num_nodes c = tg_n G" "eval_returns c"
    and inv: "run_inv G items c st xs" and ev: "env_ok G ev"
    and ph: "ss_phase st = Looping" "length xs < tg_n G" "\<not> ev_kill ev"
    and q: "items (in_runnable (ss_inner st)) \<noteq> Map.empty"
  shows "\<exists>st' i. dynamic_turn qo c ev st = Inr st' \<and> ss_token st' = (ss_token st \<or> ev_unpark ev) \<and>
    set (in_notifications (ss_inner st')) =
      set (in_notifications (ss_inner st)) \<union> set (ev_notified ev) \<and>
    (run_inv G items c st' (xs @ [i]) \<and> ss_phase st' = Looping \<and>
       (\<forall>j<tg_n G. (j \<noteq> i \<longrightarrow>
          t_is_ready (in_tasks (ss_inner st') ! j) = t_is_ready (in_tasks (ss_inner st) ! j)) \<and>
          (t_scheduled (in_tasks (ss_inner st) ! j) \<longrightarrow> t_scheduled (in_tasks (ss_inner st') ! j))) \<or>
     run_inv G items c st' xs \<and> (\<exists>e. ss_phase st' = Failed e) \<and>
       may_fail c i \<and> i < tg_n G)"
proof -
  let ?st = "deliver ev st"
  have d: "valid_order G xs" "sched_inv G items (ss_inner ?st) (set xs) []"
      "ss_completed_tasks ?st = length xs" "step_log c (ss_log ?st) xs"
    using deliver_inv [OF inv ev] ph(1) by (auto simp: run_inv_def)
  obtain k inner' where k: "dequeue_next_task qo (ss_inner ?st) = Inr (Some k, inner')" "k < tg_n G"
      "k \<notin> set xs" "waiting G (set xs) k = 0" "sched_inv G items inner' (insert k (set xs)) []"
      "advances (ss_inner ?st) inner'"
    using dequeue_next_task_ok [OF pq G(1) d(2)] q by auto
  let ?st1 = "?st\<lparr>ss_inner := inner'\<rparr>"
  obtain st' where st': "run_task c ?st1 k = Inr st'" "ss_token st' = ss_token ?st1"
      "in_notifications (ss_inner st') = in_notifications (ss_inner ?st1)"
      "run_inv G items c st' (xs @ [k]) \<and> ss_phase st' = Looping \<and>
         in_tasks (ss_inner st') = task_after ?st1 k \<or>
       run_inv G items c st' xs \<and> (\<exists>e. ss_phase st' = Failed e) \<and>
         may_fail c k"
    using run_task_inv [OF G(3,2) d(1), of items ?st1 k] k d ph(1) by auto
  have len: "length (in_tasks (ss_inner st)) = tg_n G" using sched_invD(2) [OF d(2)] by simp
  have turn: "dynamic_turn qo c ev st = Inr st'"
    using ph d(3) len k(1) st'(1) by (simp add: dynamic_turn_def loop_turn_def Let_def)
  have rdy: "t_is_ready (task_after ?st1 k ! j) = t_is_ready (in_tasks (ss_inner st) ! j)"
    if "j < tg_n G" "j \<noteq> k" for j
    using that k(6) len by (simp add: task_after_def Let_def advances_def)
  have sch: "t_scheduled (task_after ?st1 k ! j)"
    if "j < tg_n G" "t_scheduled (in_tasks (ss_inner st) ! j)" for j
    using that k(2,6) len by (auto simp: task_after_def Let_def advances_def nth_list_update)
  have "set (in_notifications (ss_inner st')) =
      set (in_notifications (ss_inner st)) \<union> set (ev_notified ev)"
    using st'(3) k(6) by (simp add: advances_def)
  then show ?thesis using turn st'(2,4) rdy sch k(2) by (intro exI [of _ st'] exI [of _ k]) auto
qed

lemma loop_idle_turn:
  assumes pq: "priority_queue qo items" and G: "graph_closed G"
    and inv: "run_inv G items c st xs" and ev: "env_ok G ev"
    and ph: "ss_phase st = Looping" "length xs < tg_n G" "\<not> ev_kill ev"
    and q: "items (in_runnable (ss_inner st)) = Map.empty"
  shows "\<exists>st'. dynamic_turn qo c ev st = Inr st' \<and> run_inv G items c st' xs \<and>
    ss_token st' = (ss_token st \<or> ev_unpark ev) \<and> in_notifications (ss_inner st') = [] \<and>
    ss_phase st' = (if items (in_runnable (ss_inner st')) = Map.empty then Parked else Looping) \<and>
    (\<forall>i<tg_n G. (t_is_ready (in_tasks (ss_inner st') ! i) \<longleftrightarrow>
         t_is_ready (in_tasks (ss_inner st) ! i) \<or>
         i \<in> set (in_notifications (ss_inner st)) \<union> set (ev_notified ev) \<and>
         co_ready c (ev_act ev (ss_circuit st)) i) \<and>
       (t_scheduled (in_tasks (ss_inner st) ! i) \<longrightarrow> t_scheduled (in_tasks (ss_inner st') ! i)))"
proof -
  let ?st = "deliver ev st"
  have d: "valid_order G xs" "sched_inv G items (ss_inner ?st) (set xs) []"
      "ss_completed_tasks ?st = length xs" "step_log c (ss_log ?st) xs"
    using deliver_inv [OF inv ev] ph(1) by (auto simp: run_inv_def)
  obtain q' where q': "dequeue_next_task qo (ss_inner ?st) = Inr (None, (ss_inner ?st)\<lparr>in_runnable := q'\<rparr>)"
      "items q' = Map.empty"
    using dequeue_next_task_ok [OF pq G d(2)] q by auto
  let ?st1 = "?st\<lparr>ss_inner := (ss_inner ?st)\<lparr>in_runnable := q'\<rparr>\<rparr>"
  have d1: "sched_inv G items (ss_inner ?st1) (set xs) []"
    using d(2) q q'(2) by (simp add: sched_inv_def)
  have len: "length (in_tasks (ss_inner st)) = tg_n G" using sched_invD(2) [OF d(2)] by simp
  have turn: "dynamic_turn qo c ev st = idle_turn qo c ev ?st1"
    using ph d(3) len q'(1) by (simp add: dynamic_turn_def loop_turn_def Let_def)
  show ?thesis unfolding turn
    using idle_turn_inv [OF pq ev d(1) d1, of c] d(3,4) ph(1,2) by auto
qed

lemma loop_end_turn:
  assumes inv: "run_inv G items c st xs" and ev: "env_ok G ev"
    and ph: "ss_phase st = Looping" "length xs \<ge> tg_n G"
  shows "\<exists>st'. dynamic_turn qo c ev st = Inr st' \<and> run_inv G items c st' xs \<and> ss_phase st' = Finished"
proof -
  let ?st = "deliver ev st"
  have d: "valid_order G xs" "sched_inv G items (ss_inner ?st) (set xs) []"
      "ss_completed_tasks ?st = length xs" "step_log c (ss_log ?st) xs"
    using deliver_inv [OF inv ev] ph(1) by (auto simp: run_inv_def)
  have all: "set xs = {..<tg_n G}" by (rule valid_order_complete [OF d(1) ph(2)])
  have len: "length (in_tasks (ss_inner st)) = tg_n G" using sched_invD(2) [OF d(2)] by simp
  have rest: "rest_inv G items (ss_inner ?st)"
    using sched_invD(1,4,5) [OF d(2)] all by (auto simp: rest_inv_def)
  show ?thesis
    using ph d len all rest by (simp add: dynamic_turn_def loop_turn_def Let_def run_inv_def)
qed

lemma loop_kill_turn:
  assumes inv: "run_inv G items c st xs" and ev: "env_ok G ev"
    and ph: "ss_phase st = Looping" "length xs < tg_n G" "ev_kill ev"
  shows "\<exists>st'. dynamic_turn qo c ev st = Inr st' \<and> run_inv G items c st' xs"
proof -
  let ?st = "deliver ev st"
  have d: "valid_order G xs" "sched_inv G items (ss_inner ?st) (set xs) []"
      "ss_completed_tasks ?st = length xs" "step_log c (ss_log ?st) xs"
    using deliver_inv [OF inv ev] ph(1) by (auto simp: run_inv_def)
  have len: "length (in_tasks (ss_inner st)) = tg_n G" using sched_invD(2) [OF d(2)] by simp
  have turn: "dynamic_turn qo c ev st = Inr (?st\<lparr>ss_phase := Failed Killed\<rparr>)"
    using ph d(3) len by (simp add: dynamic_turn_def loop_turn_def Let_def)
  have "run_inv G items c (?st\<lparr>ss_phase := Failed Killed\<rparr>) xs"
    using d(1,4) by (auto simp: run_inv_def)
  then show ?thesis using turn by blast
qed

lemma parked_turn:
  assumes inv: "run_inv G items c st xs" and ev: "env_ok G ev" and ph: "ss_phase st = Parked"
  shows "\<exists>st'. dynamic_turn qo c ev st = Inr st' \<and> run_inv G items c st' xs \<and>
    ss_inner st' = ss_inner (deliver ev st) \<and> ss_circuit st' = ev_act ev (ss_circuit st) \<and>
    (if ss_token st \<or> ev_unpark ev then ss_phase st' = Looping
     else ss_phase st' = Parked \<and> \<not> ss_token st')"
proof -
  let ?st = "deliver ev st"
  have d: "run_inv G items c ?st xs" by (rule deliver_inv [OF inv ev])
  have "step_log c (ss_log st @ [WaitEnd (co_global_id c)]) xs"
    using d ph by (intro step_log.wait_end) (simp add: run_inv_def)
  then show ?thesis
    using d ph by (auto simp: dynamic_turn_def Let_def run_inv_def)
qed

lemma stopped_turn:
  assumes inv: "run_inv G items c st xs" and ev: "env_ok G ev"
    and ph: "ss_phase st \<notin> {Looping, Parked}"
  shows "dynamic_turn qo c ev st = Inr (deliver ev st) \<and> run_inv G items c (deliver ev st) xs"
  using deliver_inv [OF inv ev] ph by (auto simp: dynamic_turn_def Let_def split: phase.splits)

lemma dynamic_turn_inv:
  assumes pq: "priority_queue qo items" and G: "graph_closed G" "num_nodes c = tg_n G" "eval_returns c"
    and inv: "run_inv G items c st xs" and ev: "env_ok G ev"
  shows "\<exists>st' xs'. dynamic_turn qo c ev st = Inr st' \<and> run_inv G items c st' xs'"
proof (cases "ss_phase st = Looping")
  case True
  consider "length xs \<ge> tg_n G" | "length xs < tg_n G" "ev_kill ev"
    | "length xs < tg_n G" "\<not> ev_kill ev" "items (in_runnable (ss_inner st)) = Map.empty"
    | "length xs < tg_n G" "\<not> ev_kill ev" "items (in_runnable (ss_inner st)) \<noteq> Map.empty"
    by linarith
  then show ?thesis
  proof cases
    case 1
    then show ?thesis using loop_end_turn [OF inv ev True] by blast
  next
    case 2
    then show ?thesis using loop_kill_turn [OF inv ev True] by blast
  next
    case 3
    then show ?thesis using loop_idle_turn [OF pq G(1) inv ev True] by blast
  next
    case 4
    then show ?thesis using loop_run_turn [OF pq G inv ev True] by blast
  qed
next
  case False
  then show ?thesis
    using parked_turn [OF inv ev, of qo] stopped_turn [OF inv ev, of qo]
    by (cases "ss_phase st = Parked") blast+
qed

lemma dynamic_run_inv:
  assumes pq: "priority_queue qo items" and G: "graph_closed G" "num_nodes c = tg_n G" "eval_returns c"
  shows "run_inv G items c st xs \<Longrightarrow> \<forall>ev\<in>set evs. env_ok G ev \<Longrightarrow>
    \<exists>st' xs'. dynamic_run qo c evs st = Inr st' \<and> run_inv G items c st' xs'"
proof (induction evs arbitrary: st xs)
  case (Cons ev evs)
  obtain st1 xs1 where "dynamic_turn qo c ev st = Inr st1" "run_inv G items c st1 xs1"
    using dynamic_turn_inv [OF pq G Cons.prems(1), of ev] Cons.prems(2) by auto
  then show ?case using Cons.IH [of st1 xs1] Cons.prems(2) by simp
qed auto

lemma dynamic_start_inv:
  assumes "priority_queue qo items" "rest_inv G items inner"
  shows "\<exists>st. dynamic_start qo c inner circuit token = Inr st \<and> run_inv G items c st []"
  using dynamic_start_ok [OF assms, of c circuit token] step_log.start [of c]
  by (auto simp: run_inv_def)

end
