(* ===== verification/Schedule_Validity.thy ===== *)
theory Schedule_Validity
  imports Schedule_Runs
begin

text \<open>
  From the circuit to its schedules: the tasks prepared by the dynamic scheduler represent the graph
  of the circuit with its ownership constraints, and every step of either scheduler evaluates the
  nodes of that graph in a valid order.
\<close>

section \<open>The prepared graph\<close>

definition circuit_wf :: "('c, 'z) circuit_ops_scheme \<Rightarrow> bool" where
  "circuit_wf c \<longleftrightarrow>
     co_node_ids c = [0..<num_nodes c] \<and>
     (\<forall>e\<in>set (co_edges c). e_from e < num_nodes c \<and> e_to e < num_nodes c)"

definition graph_of ::
  "('c, 'z) circuit_ops_scheme \<Rightarrow> (node_id \<times> node_id) list \<Rightarrow> task_graph" where
  "graph_of c extra =
     \<lparr>tg_n = num_nodes c,
      tg_succ = (\<lambda>i. map snd (filter (\<lambda>e. fst e = i) (all_edges c extra))),
      tg_async = co_is_async c\<rparr>"

text \<open>
  Documented behaviour of \<^verbatim>\<open>petgraph::algo::toposort\<close>: when it returns an order of the nodes, every
  node of the graph is in it once, after its predecessors.
\<close>

definition topological_sort :: "toposort \<Rightarrow> bool" where
  "topological_sort ts \<longleftrightarrow>
     (\<forall>g. case ts g of
            Inr ns \<Rightarrow>
              distinct ns \<and> set ns = set (dg_nodes g) \<and>
              (\<forall>k<length ns. \<forall>a. (a, ns ! k) \<in> set (dg_edges g) \<longrightarrow> a \<in> set (take k ns))
          | Inl _ \<Rightarrow> True)"

lemma map_of_entry_push:
  "map_of (entry_push m k v) k' =
     (if k' = k then Some ((case map_of m k of None \<Rightarrow> [] | Some vs \<Rightarrow> vs) @ [v]) else map_of m k')"
  by (simp add: entry_push_def update_conv')

lemma adj_get_successors: "adj_get (successors_map es) i = map snd (filter (\<lambda>e. fst e = i) es)"
proof (induction es rule: rev_induct)
  case (snoc e es)
  then show ?case
    by (auto simp: successors_map_def adj_get_def map_of_entry_push split: option.splits)
qed (simp add: successors_map_def adj_get_def)

lemma adj_get_predecessors: "adj_get (predecessors_map es) i = map fst (filter (\<lambda>e. snd e = i) es)"
proof (induction es rule: rev_induct)
  case (snoc e es)
  then show ?case
    by (auto simp: predecessors_map_def adj_get_def map_of_entry_push split: option.splits)
qed (simp add: predecessors_map_def adj_get_def)

lemma count_predecessors:
  "\<forall>e\<in>set es. fst e < (n :: nat) \<Longrightarrow>
   (\<Sum>j<n. count_list (map snd (filter (\<lambda>e. fst e = j) es)) i) = length (filter (\<lambda>e. snd e = i) es)"
proof (induction es)
  case (Cons e es)
  have "count_list (map snd (filter (\<lambda>e. fst e = j) (e # es))) i =
      count_list (map snd (filter (\<lambda>e. fst e = j) es)) i +
      (if j = fst e then if snd e = i then 1 else 0 else 0)" for j by auto
  moreover have "(\<Sum>j<n. if j = fst e then x else 0) = x" for x :: nat
    using Cons.prems by (subst sum.delta) auto
  ultimately show ?case using Cons by (simp add: sum.distrib)
qed simp

lemma tasks_loop_ok:
  "\<forall>x\<in>set ids. fst x = snd x \<Longrightarrow>
   tasks_loop c s p ts ids = Inr (ts @ map (\<lambda>x. new_task c s p (snd x)) ids)"
  by (induction ids arbitrary: ts) auto

lemma origin_successors_to:
  "(origin, ss) \<in> set (origin_successors es) \<Longrightarrow> s \<in> set ss \<Longrightarrow> fst s \<in> e_to ` set es"
proof (induction es arbitrary: origin ss s rule: rev_induct)
  case (snoc e es)
  let ?m = "origin_successors es"
  have eq: "origin_successors (es @ [e]) = entry_push ?m (e_origin e) (e_to e, e_preference e)"
    by (simp add: origin_successors_def)
  have "set (AList.update k v m) \<subseteq> insert (k, v) (set m)" for k v and m :: successor_map
    by (induction m) auto
  then consider "(origin, ss) \<in> set ?m"
    | "ss = (case map_of ?m (e_origin e) of None \<Rightarrow> [] | Some vs \<Rightarrow> vs) @ [(e_to e, e_preference e)]"
    using snoc.prems(1) unfolding eq entry_push_def by blast
  then show ?case
  proof cases
    case 1
    then show ?thesis using snoc.IH snoc.prems(2) by auto
  next
    case 2
    show ?thesis
    proof (cases "s = (e_to e, e_preference e)")
      case False
      then obtain vs where vs: "map_of ?m (e_origin e) = Some vs" "s \<in> set vs"
        using 2 snoc.prems(2) by (auto split: option.splits)
      then show ?thesis using snoc.IH [OF map_of_SomeD [OF vs(1)]] by auto
    qed simp
  qed
qed (simp add: origin_successors_def)

lemma constraints_of_to:
  assumes "constraints_of g origin ss = Inr cs" "(a, b) \<in> set cs"
  shows "a \<in> fst ` set ss \<and> b \<in> fst ` set ss"
proof -
  obtain index s where strong: "strong_successors ss = [(index, s)]"
    and cs: "cs = map (\<lambda>(_, s). (fst s, fst (ss ! index)))
       (filter (\<lambda>(i, s). i \<noteq> index \<and> snd s \<noteq> None) (enumerate 0 ss))"
    using assms by (auto simp: constraints_of_def split: list.splits)
  have "(index, s) \<in> set (strong_successors ss)" by (simp add: strong)
  then have "index < length ss" by (auto simp: strong_successors_def in_set_enumerate_eq)
  moreover obtain k where "k < length ss" "a = fst (ss ! k)" "b = fst (ss ! index)"
    using assms(2) unfolding cs by (auto simp: in_set_enumerate_eq)
  ultimately show ?thesis by simp
qed

lemma constraints_loop_to:
  "constraints_loop g cs m = Inr cs' \<Longrightarrow> (a, b) \<in> set cs' \<Longrightarrow>
   (a, b) \<in> set cs \<or> (\<exists>origin ss. (origin, ss) \<in> set m \<and> a \<in> fst ` set ss \<and> b \<in> fst ` set ss)"
proof (induction g cs m rule: constraints_loop.induct)
  case (2 g cs origin ss m)
  then obtain new where new: "constraints_of g origin ss = Inr new"
      "constraints_loop g (cs @ new) m = Inr cs'"
    by (auto split: sum.splits)
  from "2.IH" [OF new "2.prems"(2)] consider "(a, b) \<in> set cs" | "(a, b) \<in> set new"
    | o' ss' where "(o', ss') \<in> set m" "a \<in> fst ` set ss'" "b \<in> fst ` set ss'"
    by auto
  then show ?case
  proof cases
    case 2
    then show ?thesis using constraints_of_to [OF new(1)] by (meson list.set_intros(1))
  qed auto
qed auto

lemma ownership_constraints_to:
  assumes "ownership_constraints iter_order c = Inr extra" "\<And>m. mset (iter_order m) = mset m"
    and "(a, b) \<in> set extra"
  shows "a \<in> e_to ` set (co_edges c) \<and> b \<in> e_to ` set (co_edges c)"
proof -
  have set: "set (iter_order m) = set m" for m using assms(2) [of m] by (metis set_mset_mset)
  obtain origin ss where "(origin, ss) \<in> set (origin_successors (co_edges c))"
      "a \<in> fst ` set ss" "b \<in> fst ` set ss"
    using constraints_loop_to [OF assms(1) [unfolded ownership_constraints_def] assms(3)] set by auto
  then show ?thesis using origin_successors_to by blast
qed

lemma all_edges_bounds:
  assumes "circuit_wf c" "ownership_constraints iter_order c = Inr extra"
    and "\<And>m. mset (iter_order m) = mset m" "e \<in> set (all_edges c extra)"
  shows "fst e < num_nodes c \<and> snd e < num_nodes c"
proof -
  have to: "x < num_nodes c" if "x \<in> e_to ` set (co_edges c)" for x
    using that assms(1) by (auto simp: circuit_wf_def)
  show ?thesis
    using assms(4) assms(1) ownership_constraints_to [OF assms(2,3), of "fst e" "snd e"] to
    by (auto simp: all_edges_def circuit_wf_def)
qed

lemma dg_add_node_simps [simp]:
  "set (dg_nodes (dg_add_node g n)) = insert n (set (dg_nodes g))"
  "dg_edges (dg_add_node g n) = dg_edges g"
  by (auto simp: dg_add_node_def)

lemma dg_add_edge_simps [simp]:
  "set (dg_nodes (dg_add_edge g e)) = {fst e, snd e} \<union> set (dg_nodes g)"
  "set (dg_edges (dg_add_edge g e)) = insert e (set (dg_edges g))"
  by (auto simp: dg_add_edge_def Let_def)

lemma foldl_dg_add_edge [simp]:
  "set (dg_edges (foldl dg_add_edge g es)) = set (dg_edges g) \<union> set es"
  "set (dg_nodes (foldl dg_add_edge g es)) = set (dg_nodes g) \<union> fst ` set es \<union> snd ` set es"
  by (induction es arbitrary: g) auto

lemma foldl_dg_add_node [simp]:
  "set (dg_nodes (foldl dg_add_node g ns)) = set (dg_nodes g) \<union> set ns"
  "dg_edges (foldl dg_add_node g ns) = dg_edges g"
  by (induction ns arbitrary: g) auto

lemma constrained_digraph_simps:
  "set (dg_edges (constrained_digraph c extra)) = set (all_edges c extra)"
  "set (dg_nodes (constrained_digraph c extra)) =
     set (co_node_ids c) \<union> fst ` set (all_edges c extra) \<union> snd ` set (all_edges c extra)"
proof -
  have "foldl (\<lambda>g e. dg_add_edge g (e_from e, e_to e)) g es =
      foldl dg_add_edge g (map (\<lambda>e. (e_from e, e_to e)) es)" for g and es :: "edge list"
    by (induction es arbitrary: g) auto
  then have "constrained_digraph c extra =
      foldl dg_add_edge (foldl dg_add_node \<lparr>dg_nodes = [], dg_edges = []\<rparr> (co_node_ids c))
        (all_edges c extra)"
    by (simp add: constrained_digraph_def circuit_digraph_def all_edges_def)
  then show "set (dg_edges (constrained_digraph c extra)) = set (all_edges c extra)"
    "set (dg_nodes (constrained_digraph c extra)) =
       set (co_node_ids c) \<union> fst ` set (all_edges c extra) \<union> snd ` set (all_edges c extra)"
    by simp_all
qed

text \<open>The order \<^verbatim>\<open>toposort\<close> returns is a valid schedule of the graph, and witnesses its acyclicity.\<close>

lemma toposort_valid:
  assumes "circuit_wf c" "ownership_constraints iter_order c = Inr extra"
    and "\<And>m. mset (iter_order m) = mset m"
    and ts: "topological_sort ts" "ts (constrained_digraph c extra) = Inr ns"
  shows "valid_order (graph_of c extra) ns \<and> set ns = {..<num_nodes c}"
proof -
  let ?g = "constrained_digraph c extra"
  have t: "distinct ns" "set ns = set (dg_nodes ?g)"
      "\<And>k a. k < length ns \<Longrightarrow> (a, ns ! k) \<in> set (dg_edges ?g) \<Longrightarrow> a \<in> set (take k ns)"
    using ts unfolding topological_sort_def by (auto dest!: spec [of _ ?g])
  have nodes: "set (co_node_ids c) = {..<num_nodes c}"
  proof -
    have "co_node_ids c = [0..<num_nodes c]" using assms(1) by (simp only: circuit_wf_def)
    then have "set (co_node_ids c) = set [0..<num_nodes c]" by (rule arg_cong)
    then show ?thesis by (simp add: lessThan_atLeast0)
  qed
  have "set (dg_nodes ?g) = {..<num_nodes c}"
    using nodes all_edges_bounds [OF assms(1-3)] by (auto simp: constrained_digraph_simps)
  then show ?thesis
    using t by (auto simp: valid_order_def graph_of_def constrained_digraph_simps)
qed

lemma valid_order_acyclic:
  assumes "valid_order G ns" "set ns = {..<tg_n G}" "graph_closed G"
  shows "graph_acyclic G"
proof -
  define rank where "rank i = (LEAST k. ns ! k = i)" for i
  have dist: "distinct ns" using assms(1) by (simp add: valid_order_def)
  have rank: "rank (ns ! k) = k" if "k < length ns" for k
    unfolding rank_def
  proof (rule Least_equality)
    fix m
    assume m: "ns ! m = ns ! k"
    show "k \<le> m"
    proof (rule ccontr)
      assume "\<not> k \<le> m"
      then have "m < length ns" "m \<noteq> k" using that by auto
      then show False using nth_eq_iff_index_eq [OF dist] that m by blast
    qed
  qed simp
  have "rank i < rank j" if i: "i < tg_n G" and j: "j \<in> set (tg_succ G i)" for i j
  proof -
    have "j < tg_n G" using assms(3) i j by (auto simp: graph_closed_def)
    then obtain k where k: "k < length ns" "ns ! k = j" using assms(2) by (metis in_set_conv_nth lessThan_iff)
    then have "i \<in> set (take k ns)" using assms(1) i j by (auto simp: valid_order_def)
    then obtain m where "m < k" "ns ! m = i" using k(1) by (auto simp: in_set_conv_nth)
    then show ?thesis using rank k by auto
  qed
  then show ?thesis unfolding graph_acyclic_def by blast
qed

lemma dynamic_prepare_ok:
  assumes pq: "priority_queue qo items" and wf: "circuit_wf c"
    and iter: "\<And>m. mset (iter_order m) = mset m" and ts: "topological_sort toposort"
    and prep: "dynamic_prepare qo toposort iter_order c circuit = Inr (Inr inner)"
  obtains extra where "ownership_constraints iter_order c = Inr extra"
    "rest_inv (graph_of c extra) items inner" "graph_closed (graph_of c extra)"
    "graph_acyclic (graph_of c extra)"
proof -
  let ?s = "\<lambda>extra. successors_map (all_edges c extra)"
  let ?p = "\<lambda>extra. predecessors_map (all_edges c extra)"
  have ids: "co_node_ids c = [0..<num_nodes c]" using wf by (simp only: circuit_wf_def)
  have "\<forall>x\<in>set (enumerate 0 (co_node_ids c)). fst x = snd x"
    unfolding ids by (auto simp: in_set_enumerate_eq)
  note loop = tasks_loop_ok [OF this]
  obtain extra ns where extra: "ownership_constraints iter_order c = Inr extra"
      "toposort (constrained_digraph c extra) = Inr ns"
    and inner: "inner = \<lparr>in_tasks = map (\<lambda>x. new_task c (?s extra) (?p extra) (snd x))
          (enumerate 0 (co_node_ids c)),
        in_notifications = initial_notifications c circuit, in_runnable = qo_new qo\<rparr>"
    using prep by (auto simp: dynamic_prepare_def Let_def loop split: sum.splits)
  let ?G = "graph_of c extra"
  note bounds = all_edges_bounds [OF wf extra(1) iter]
  have closed: "graph_closed ?G" using bounds by (auto simp: graph_closed_def graph_of_def)
  have tasks: "in_tasks inner = map (new_task c (?s extra) (?p extra)) [0..<num_nodes c]"
    unfolding inner ids by (simp add: map_snd_enumerate flip: map_map [unfolded comp_def])
  have "tasks_shape ?G (in_tasks inner)"
    unfolding tasks using bounds
    by (simp add: tasks_shape_def graph_of_def new_task_def Let_def adj_get_successors
      adj_get_predecessors count_predecessors)
  moreover have "set (foldl (\<lambda>nodes n. if P n then notify nodes n else nodes) ns xs) =
      set ns \<union> {n \<in> set xs. P n}" for P xs and ns :: "node_id list"
    by (induction xs arbitrary: ns) (auto simp: notify_def)
  then have "set (in_notifications inner) \<subseteq> {i. i < tg_n ?G \<and> tg_async ?G i}"
    unfolding inner by (auto simp: initial_notifications_def ids graph_of_def)
  moreover have "items (in_runnable inner) = Map.empty" unfolding inner by (simp add: pq_new [OF pq])
  ultimately have rest: "rest_inv ?G items inner" by (simp add: rest_inv_def)
  have acyclic: "graph_acyclic ?G"
    using toposort_valid [OF wf extra(1) iter ts extra(2)] closed
    by (intro valid_order_acyclic) (auto simp: graph_of_def)
  show ?thesis by (rule that [OF extra(1) rest closed acyclic])
qed

section \<open>Valid schedules\<close>

text \<open>What a step has logged, in each phase: the nodes \<open>xs\<close> were evaluated, in a valid order.\<close>

definition schedule_ok ::
  "task_graph \<Rightarrow> ('c, 'z) circuit_ops_scheme \<Rightarrow> phase \<Rightarrow> scheduler_event list \<Rightarrow> node_id list \<Rightarrow> bool" where
  "schedule_ok G c phase log xs \<longleftrightarrow>
     valid_order G xs \<and>
     (case phase of
        Finished \<Rightarrow>
          set xs = {..<tg_n G} \<and> (\<exists>l. log = l @ [StepEnd (co_global_id c)] \<and> step_log c l xs)
      | Failed _ \<Rightarrow>
          (\<exists>l tail. log = l @ tail \<and> step_log c l xs \<and>
             (tail = [] \<or>
              (\<exists>i evs. tail = EvalStart (gid_child (co_global_id c) i) # evs \<and>
                 valid_order G (xs @ [i]))))
      | _ \<Rightarrow> step_log c log xs)"

lemma run_inv_schedule_ok:
  "run_inv G items c st xs \<Longrightarrow> schedule_ok G c (ss_phase st) (ss_log st) xs"
  by (auto simp: run_inv_def schedule_ok_def split: phase.splits)

text \<open>
  Consecutive calls of \<^verbatim>\<open>step\<close>, the next one when the previous one has finished; the result is the
  list of their final states.
\<close>

fun dynamic_steps ::
  "('q, 'y) queue_ops_scheme \<Rightarrow> ('c, 'z) circuit_ops_scheme \<Rightarrow> 'c environment list list \<Rightarrow>
   'q inner \<Rightarrow> 'c \<Rightarrow> bool \<Rightarrow> ('c, 'q) step_state list res" where
  "dynamic_steps qo c [] inner circuit token = Inr []"
| "dynamic_steps qo c (evs # evss) inner circuit token =
     res_bind (dynamic_start qo c inner circuit token) (\<lambda>st.
     res_bind (dynamic_run qo c evs st) (\<lambda>st.
     if ss_phase st = Finished
     then res_map ((#) st) (dynamic_steps qo c evss (ss_inner st) (ss_circuit st) (ss_token st))
     else Inr [st]))"

lemma dynamic_steps_ok:
  assumes pq: "priority_queue qo items" and G: "graph_closed G" "num_nodes c = tg_n G" "eval_returns c"
  shows "rest_inv G items inner \<Longrightarrow> \<forall>evs\<in>set evss. \<forall>ev\<in>set evs. env_ok G ev \<Longrightarrow>
    \<exists>sts. dynamic_steps qo c evss inner circuit token = Inr sts \<and>
      (\<forall>st\<in>set sts. \<exists>xs. schedule_ok G c (ss_phase st) (ss_log st) xs)"
proof (induction evss arbitrary: inner circuit token)
  case (Cons evs evss)
  obtain st0 where st0: "dynamic_start qo c inner circuit token = Inr st0" "run_inv G items c st0 []"
    using dynamic_start_inv [OF pq Cons.prems(1), of c circuit token] by auto
  obtain st xs where st: "dynamic_run qo c evs st0 = Inr st" "run_inv G items c st xs"
    using dynamic_run_inv [OF pq G st0(2), of evs] Cons.prems(2) by auto
  note ok = run_inv_schedule_ok [OF st(2)]
  show ?case
  proof (cases "ss_phase st = Finished")
    case True
    then have "rest_inv G items (ss_inner st)" using st(2) by (simp add: run_inv_def)
    then obtain sts where "dynamic_steps qo c evss (ss_inner st) (ss_circuit st) (ss_token st) = Inr sts"
        "\<forall>st\<in>set sts. \<exists>xs. schedule_ok G c (ss_phase st) (ss_log st) xs"
      using Cons.IH Cons.prems(2) by (meson list.set_intros(2))
    then show ?thesis using st0(1) st(1) ok True by auto
  next
    case False
    then show ?thesis using st0(1) st(1) ok by auto
  qed
qed simp

section \<open>The static scheduler\<close>

lemma valid_order_prefix:
  assumes "valid_order G (xs @ ys)"
  shows "valid_order G xs"
proof -
  have "j \<in> set (take k xs)"
    if k: "k < length xs" and j: "j < tg_n G" "xs ! k \<in> set (tg_succ G j)" for k j
  proof -
    have "(xs @ ys) ! k = xs ! k" "take k (xs @ ys) = take k xs" "k < length (xs @ ys)"
      using k by (simp_all add: nth_append)
    then show ?thesis using assms j unfolding valid_order_def by metis
  qed
  then show ?thesis using assms by (simp add: valid_order_def)
qed

definition static_inv ::
  "task_graph \<Rightarrow> ('c, 'z) circuit_ops_scheme \<Rightarrow> node_id list \<Rightarrow> 'c static_state \<Rightarrow> node_id list \<Rightarrow> bool" where
  "static_inv G c ns st xs \<longleftrightarrow>
     schedule_ok G c (st_phase st) (st_log st) xs \<and> st_phase st \<noteq> Parked \<and>
     (st_phase st = Looping \<longrightarrow>
        (\<exists>rest. ns = xs @ rest \<and> st_schedule st = map (\<lambda>n. (n, co_is_async c n)) rest))"

lemma static_turn_inv:
  assumes G: "num_nodes c = tg_n G" "eval_returns c" and ns: "valid_order G ns" "set ns = {..<tg_n G}"
    and inv: "static_inv G c ns st xs"
  shows "\<exists>st' xs'. static_turn c ev st = Inr st' \<and> static_inv G c ns st' xs'"
proof (cases "st_phase st = Looping")
  case False
  then show ?thesis using inv by (auto simp: static_turn_def static_inv_def)
next
  case True
  then obtain rest where rest: "ns = xs @ rest" "st_schedule st = map (\<lambda>n. (n, co_is_async c n)) rest"
    and log: "valid_order G xs" "step_log c (st_log st) xs"
    using inv by (auto simp: static_inv_def schedule_ok_def)
  show ?thesis
  proof (cases rest)
    case Nil
    then show ?thesis
      using True rest log ns(2) by (auto simp: static_turn_def static_inv_def schedule_ok_def Let_def)
  next
    case (Cons i rest')
    have i: "i < num_nodes c" using rest(1) Cons ns(2) G(1) by auto
    have vo: "valid_order G (xs @ [i])" using ns(1) rest(1) Cons valid_order_prefix [of G "xs @ [i]" rest'] by simp
    let ?circuit = "ev_act ev (st_circuit st)"
    obtain err evs circuit' where e: "co_eval c ?circuit i = Inr (err, evs, circuit')"
        "eval_node c ?circuit i = Inr (err, [EvalStart (gid_child (co_global_id c) i)] @ evs @
          (if err = None then [EvalEnd (gid_child (co_global_id c) i)] else []), circuit')"
      using eval_node_cases [OF G(2) i, of ?circuit] by auto
    consider "ev_kill ev" | "\<not> ev_kill ev" "co_is_async c i" "\<not> co_ready c ?circuit i"
      | "\<not> ev_kill ev" "\<not> (co_is_async c i \<and> \<not> co_ready c ?circuit i)" by blast
    then show ?thesis
    proof cases
      case 1
      then have "\<exists>st'. static_turn c ev st = Inr st' \<and> static_inv G c ns st' xs"
        using True rest Cons log by (auto simp: static_turn_def static_inv_def schedule_ok_def Let_def)
      then show ?thesis by blast
    next
      case 2
      have "step_log c ((st_log st @ [WaitStart (co_global_id c)]) @ [WaitEnd (co_global_id c)]) xs"
        by (intro step_log.wait_end step_log.wait_start log(2))
      then show ?thesis
        using 2 True rest Cons log(1)
        by (auto simp: static_turn_def static_inv_def schedule_ok_def Let_def)
    next
      case 3
      show ?thesis
      proof (cases err)
        case None
        have "step_log c (st_log st @ [EvalStart (gid_child (co_global_id c) i)] @ evs @
            [EvalEnd (gid_child (co_global_id c) i)]) (xs @ [i])"
          using log(2) i e(1) None by (intro step_log.eval) auto
        then have "\<exists>st'. static_turn c ev st = Inr st' \<and> static_inv G c ns st' (xs @ [i])"
          using 3 True rest Cons vo e(2) None
          by (auto simp: static_turn_def static_inv_def schedule_ok_def Let_def)
        then show ?thesis by blast
      next
        case (Some x)
        then have "\<exists>st'. static_turn c ev st = Inr st' \<and> static_inv G c ns st' xs"
          using 3 True rest Cons vo e(2) log
          by (auto simp: static_turn_def static_inv_def schedule_ok_def Let_def)
        then show ?thesis by blast
      qed
    qed
  qed
qed

lemma static_run_inv:
  assumes G: "num_nodes c = tg_n G" "eval_returns c" and ns: "valid_order G ns" "set ns = {..<tg_n G}"
  shows "static_inv G c ns st xs \<Longrightarrow>
    \<exists>st' xs'. static_run c evs st = Inr st' \<and> static_inv G c ns st' xs'"
proof (induction evs arbitrary: st xs)
  case (Cons ev evs)
  obtain st1 xs1 where "static_turn c ev st = Inr st1" "static_inv G c ns st1 xs1"
    using static_turn_inv [OF G ns Cons.prems, of ev] by auto
  then show ?case using Cons.IH by simp
qed auto

lemma static_schedule_ok:
  assumes wf: "circuit_wf c" "eval_returns c" and iter: "\<And>m. mset (iter_order m) = mset m"
    and ts: "topological_sort toposort" and prep: "static_prepare toposort iter_order c = Inr schedule"
  obtains extra st xs where "ownership_constraints iter_order c = Inr extra"
    "static_run c evs (static_start c schedule circuit) = Inr st"
    "schedule_ok (graph_of c extra) c (st_phase st) (st_log st) xs"
proof -
  obtain extra ns where extra: "ownership_constraints iter_order c = Inr extra"
      "toposort (constrained_digraph c extra) = Inr ns" "schedule = map (\<lambda>n. (n, co_is_async c n)) ns"
    using prep by (auto simp: static_prepare_def split: sum.splits)
  have ns: "valid_order (graph_of c extra) ns" "set ns = {..<tg_n (graph_of c extra)}"
    using toposort_valid [OF wf(1) extra(1) iter ts extra(2)] by (auto simp: graph_of_def)
  have "static_inv (graph_of c extra) c ns (static_start c schedule circuit) []"
    using extra(3) step_log.start [of c] by (simp add: static_inv_def static_start_def schedule_ok_def)
  from static_run_inv [OF _ wf(2) ns this, of evs]
  obtain st xs where "static_run c evs (static_start c schedule circuit) = Inr st"
      "static_inv (graph_of c extra) c ns st xs"
    by (auto simp: graph_of_def)
  then show ?thesis using that extra(1) by (auto simp: static_inv_def)
qed

end
