(* ===== verification/Schedule_Liveness.thy ===== *)
theory Schedule_Liveness
  imports Schedule_Validity
begin

text \<open>
  A step of the dynamic scheduler ends: when every asynchronous node that is not ready yet is
  notified, stays ready from then on until the scheduler has put it on the run queue, and the
  thread is unparked at or after that notification, no wake-up is lost and all nodes get
  evaluated.
\<close>

section \<open>One turn of a run that neither fails nor is killed\<close>

definition eval_succeeds :: "('c, 'z) circuit_ops_scheme \<Rightarrow> bool" where
  "eval_succeeds c \<longleftrightarrow>
     (\<forall>circuit i. i < num_nodes c \<longrightarrow> (\<exists>evs circuit'. co_eval c circuit i = Inr (None, evs, circuit')))"

lemma eval_succeedsD:
  assumes "eval_succeeds c"
  shows "eval_returns c" and "may_fail c i \<Longrightarrow> \<not> i < num_nodes c"
proof -
  show "eval_returns c" using assms by (fastforce simp: eval_succeeds_def eval_returns_def returns_iff)
  show "\<not> i < num_nodes c" if "may_fail c i"
  proof
    assume i: "i < num_nodes c"
    obtain circuit e evs circuit' where "co_eval c circuit i = Inr (Some e, evs, circuit')"
      using \<open>may_fail c i\<close> by (auto simp: may_fail_def)
    moreover obtain evs' c' where "co_eval c circuit i = Inr (None, evs', c')"
      using assms i unfolding eval_succeeds_def by metis
    ultimately show False by simp
  qed
qed

text \<open>The effect of a turn that does not end the step: it runs a task, looks for notifications, or waits.\<close>

definition ready_at :: "('c, 'q) step_state \<Rightarrow> node_id \<Rightarrow> bool" where
  "ready_at st i \<longleftrightarrow> t_is_ready (in_tasks (ss_inner st) ! i)"

definition scheduled_at :: "('c, 'q) step_state \<Rightarrow> node_id \<Rightarrow> bool" where
  "scheduled_at st i \<longleftrightarrow> t_scheduled (in_tasks (ss_inner st) ! i)"

definition notified_at :: "('c, 'q) step_state \<Rightarrow> node_id \<Rightarrow> bool" where
  "notified_at st i \<longleftrightarrow> i \<in> set (in_notifications (ss_inner st))"

definition queue_empty :: "('q \<Rightarrow> node_id \<Rightarrow> int option) \<Rightarrow> ('c, 'q) step_state \<Rightarrow> bool" where
  "queue_empty items st \<longleftrightarrow> items (in_runnable (ss_inner st)) = Map.empty"

definition run_effect ::
  "task_graph \<Rightarrow> ('q \<Rightarrow> node_id \<Rightarrow> int option) \<Rightarrow> 'c environment \<Rightarrow>
   ('c, 'q) step_state \<Rightarrow> ('c, 'q) step_state \<Rightarrow> node_id list \<Rightarrow> node_id list \<Rightarrow> bool" where
  "run_effect G items ev st st' xs xs' \<longleftrightarrow>
     ss_phase st = Looping \<and> \<not> queue_empty items st \<and> ss_phase st' = Looping \<and>
     ss_token st' = (ss_token st \<or> ev_unpark ev) \<and>
     (\<forall>i<tg_n G. notified_at st' i \<longleftrightarrow> notified_at st i \<or> i \<in> set (ev_notified ev)) \<and>
     (\<exists>k. xs' = xs @ [k] \<and> (\<forall>i<tg_n G. i \<noteq> k \<longrightarrow> ready_at st' i = ready_at st i))"

definition idle_effect ::
  "task_graph \<Rightarrow> ('q \<Rightarrow> node_id \<Rightarrow> int option) \<Rightarrow> ('c, 'z) circuit_ops_scheme \<Rightarrow> 'c environment \<Rightarrow>
   ('c, 'q) step_state \<Rightarrow> ('c, 'q) step_state \<Rightarrow> node_id list \<Rightarrow> node_id list \<Rightarrow> bool" where
  "idle_effect G items c ev st st' xs xs' \<longleftrightarrow>
     ss_phase st = Looping \<and> queue_empty items st \<and> xs' = xs \<and>
     ss_phase st' = (if queue_empty items st' then Parked else Looping) \<and>
     ss_token st' = (ss_token st \<or> ev_unpark ev) \<and>
     (\<forall>i<tg_n G. ready_at st' i \<longleftrightarrow>
        ready_at st i \<or>
        (notified_at st i \<or> i \<in> set (ev_notified ev)) \<and> co_ready c (ev_act ev (ss_circuit st)) i)"

definition wait_effect ::
  "task_graph \<Rightarrow> ('q \<Rightarrow> node_id \<Rightarrow> int option) \<Rightarrow> 'c environment \<Rightarrow>
   ('c, 'q) step_state \<Rightarrow> ('c, 'q) step_state \<Rightarrow> node_id list \<Rightarrow> node_id list \<Rightarrow> bool" where
  "wait_effect G items ev st st' xs xs' \<longleftrightarrow>
     ss_phase st = Parked \<and> queue_empty items st \<and> xs' = xs \<and>
     (if ss_token st \<or> ev_unpark ev then ss_phase st' = Looping
      else ss_phase st' = Parked \<and> \<not> ss_token st') \<and>
     (\<forall>i<tg_n G. (notified_at st' i \<longleftrightarrow> notified_at st i \<or> i \<in> set (ev_notified ev)) \<and>
        ready_at st' i = ready_at st i)"

lemma live_turn:
  assumes pq: "priority_queue qo items" and G: "graph_closed G" "num_nodes c = tg_n G" "eval_succeeds c"
    and inv: "run_inv G items c st xs" and ev: "env_ok G ev" "\<not> ev_kill ev"
    and ph: "ss_phase st = Looping \<or> ss_phase st = Parked"
  shows "\<exists>st' xs'. dynamic_turn qo c ev st = Inr st' \<and> run_inv G items c st' xs' \<and>
    (ss_phase st' = Finished \<or>
     (ss_phase st' = Looping \<or> ss_phase st' = Parked) \<and>
     (\<forall>i<tg_n G. scheduled_at st i \<longrightarrow> scheduled_at st' i) \<and>
     (run_effect G items ev st st' xs xs' \<or> idle_effect G items c ev st st' xs xs' \<or>
      wait_effect G items ev st st' xs xs'))"
proof (cases "ss_phase st = Parked")
  case True
  have q: "queue_empty items st" using inv True by (simp add: run_inv_def queue_empty_def)
  obtain st' where st': "dynamic_turn qo c ev st = Inr st'" "run_inv G items c st' xs"
      "ss_inner st' = ss_inner (deliver ev st)"
      "if ss_token st \<or> ev_unpark ev then ss_phase st' = Looping
       else ss_phase st' = Parked \<and> \<not> ss_token st'"
    using parked_turn [OF inv ev(1) True, of qo] by auto
  have "wait_effect G items ev st st' xs xs"
    using st'(3,4) q True by (simp add: wait_effect_def notified_at_def ready_at_def)
  moreover have "ss_phase st' = Looping \<or> ss_phase st' = Parked" using st'(4) by (auto split: if_splits)
  moreover have "\<forall>i<tg_n G. scheduled_at st i \<longrightarrow> scheduled_at st' i"
    using st'(3) by (simp add: scheduled_at_def)
  ultimately show ?thesis using st'(1,2) by blast
next
  case False
  then have loop: "ss_phase st = Looping" using ph by blast
  consider "length xs \<ge> tg_n G"
    | "length xs < tg_n G" "queue_empty items st" | "length xs < tg_n G" "\<not> queue_empty items st"
    by linarith
  then show ?thesis
  proof cases
    case 1
    then show ?thesis using loop_end_turn [OF inv ev(1) loop] by blast
  next
    case 2
    obtain st' where st': "dynamic_turn qo c ev st = Inr st'" "run_inv G items c st' xs"
        "ss_token st' = (ss_token st \<or> ev_unpark ev)" "in_notifications (ss_inner st') = []"
        "ss_phase st' = (if items (in_runnable (ss_inner st')) = Map.empty then Parked else Looping)"
        "\<forall>i<tg_n G. (t_is_ready (in_tasks (ss_inner st') ! i) \<longleftrightarrow>
             t_is_ready (in_tasks (ss_inner st) ! i) \<or>
             i \<in> set (in_notifications (ss_inner st)) \<union> set (ev_notified ev) \<and>
             co_ready c (ev_act ev (ss_circuit st)) i) \<and>
           (t_scheduled (in_tasks (ss_inner st) ! i) \<longrightarrow> t_scheduled (in_tasks (ss_inner st') ! i))"
      using loop_idle_turn [OF pq G(1) inv ev(1) loop 2(1) ev(2)] 2(2) by (auto simp: queue_empty_def)
    have "idle_effect G items c ev st st' xs xs"
      using st'(3,5,6) loop 2(2)
      by (simp add: idle_effect_def queue_empty_def ready_at_def notified_at_def)
    moreover have "ss_phase st' = Looping \<or> ss_phase st' = Parked" using st'(5) by simp
    moreover have "\<forall>i<tg_n G. scheduled_at st i \<longrightarrow> scheduled_at st' i"
      using st'(6) by (simp add: scheduled_at_def)
    ultimately show ?thesis using st'(1,2) by blast
  next
    case 3
    obtain st' k where st': "dynamic_turn qo c ev st = Inr st'" "ss_token st' = (ss_token st \<or> ev_unpark ev)"
        "set (in_notifications (ss_inner st')) = set (in_notifications (ss_inner st)) \<union> set (ev_notified ev)"
        "run_inv G items c st' (xs @ [k])" "ss_phase st' = Looping"
        "\<forall>j<tg_n G. (j \<noteq> k \<longrightarrow>
            t_is_ready (in_tasks (ss_inner st') ! j) = t_is_ready (in_tasks (ss_inner st) ! j)) \<and>
            (t_scheduled (in_tasks (ss_inner st) ! j) \<longrightarrow> t_scheduled (in_tasks (ss_inner st') ! j))"
      using loop_run_turn [OF pq G(1,2) eval_succeedsD(1) [OF G(3)] inv ev(1) loop 3(1) ev(2)] 3(2)
        eval_succeedsD(2) [OF G(3)] G(2) by (auto simp: queue_empty_def)
    have "run_effect G items ev st st' xs (xs @ [k])"
      using st'(2,3,5,6) loop 3(2) by (auto simp: run_effect_def ready_at_def notified_at_def)
    moreover have "\<forall>i<tg_n G. scheduled_at st i \<longrightarrow> scheduled_at st' i"
      using st'(6) by (simp add: scheduled_at_def)
    ultimately show ?thesis using st'(1,4,5) by blast
  qed
qed

section \<open>Runs that never end\<close>

lemma appending_stabilises:
  fixes X :: "nat \<Rightarrow> 'a list"
  assumes step: "\<And>t. X (Suc t) = X t \<or> (\<exists>k. X (Suc t) = X t @ [k])" and bound: "\<And>t. length (X t) \<le> n"
  obtains T where "\<And>t. t \<ge> T \<Longrightarrow> X t = X T"
proof -
  obtain T where T: "\<And>t. length (X t) \<le> length (X T)"
    using ex_has_greatest_nat [of "\<lambda>_. True" 0 "\<lambda>t. length (X t)" "Suc n"] bound
    by (auto simp: less_Suc_eq_le)
  have "X t = X T" if "t \<ge> T" for t
    using that
  proof (induction t rule: dec_induct)
    case (step t)
    then show ?case using assms(1) [of t] T [of "Suc t"] by auto
  qed simp
  then show ?thesis using that by blast
qed

text \<open>An unevaluated node all of whose predecessors are evaluated.\<close>

lemma next_node:
  assumes "graph_acyclic G" "valid_order G xs" "length xs < tg_n G"
  obtains i where "i < tg_n G" "i \<notin> set xs" "waiting G (set xs) i = 0"
proof -
  obtain rank :: "node_id \<Rightarrow> nat" where rank: "\<And>i j. i < tg_n G \<Longrightarrow> j \<in> set (tg_succ G i) \<Longrightarrow> rank i < rank j"
    using assms(1) by (auto simp: graph_acyclic_def)
  have "card (set xs) < card {..<tg_n G}"
    using assms(2,3) by (simp add: valid_order_def distinct_card)
  then have "\<exists>i. i < tg_n G \<and> i \<notin> set xs"
    by (metis card_mono finite_set lessThan_iff linorder_not_le subsetI)
  then obtain i where i: "i < tg_n G" "i \<notin> set xs"
      "\<And>j. j < tg_n G \<Longrightarrow> j \<notin> set xs \<Longrightarrow> rank i \<le> rank j"
    using ex_has_least_nat [of "\<lambda>i. i < tg_n G \<and> i \<notin> set xs" _ rank] by blast
  have "waiting G (set xs) i = 0" unfolding waiting_0_iff using rank i(3) by (meson linorder_not_le)
  then show ?thesis using that i by blast
qed

lemma queue_empty_not_ready:
  assumes "sched_inv G items (ss_inner st) D []" "queue_empty items st"
    and "i < tg_n G" "i \<notin> D" "waiting G D i = 0"
  shows "\<not> ready_at st i" and "\<not> scheduled_at st i"
  using sched_invD(6,7,9) [OF assms(1,3)] assms by (auto simp: ready_at_def scheduled_at_def queue_empty_def)

text \<open>
  The states of an infinite run, with the nodes evaluated so far, in which every asynchronous node
  is notified while it stays ready.
\<close>

lemma no_infinite_run:
  fixes S :: "nat \<Rightarrow> ('c, 'q) step_state"
  assumes acyclic: "graph_acyclic G"
    and inv: "\<And>t. run_inv G items c (S t) (X t)"
    and ph: "\<And>t. ss_phase (S t) = Looping \<or> ss_phase (S t) = Parked" "ss_phase (S 0) = Looping"
    and sched: "\<And>t i. i < tg_n G \<Longrightarrow> scheduled_at (S t) i \<Longrightarrow> scheduled_at (S (Suc t)) i"
    and eff: "\<And>t. run_effect G items (env t) (S t) (S (Suc t)) (X t) (X (Suc t)) \<or>
      idle_effect G items c (env t) (S t) (S (Suc t)) (X t) (X (Suc t)) \<or>
      wait_effect G items (env t) (S t) (S (Suc t)) (X t) (X (Suc t))"
    and fair: "\<And>i. i < tg_n G \<Longrightarrow> tg_async G i \<Longrightarrow> \<not> ready_at (S 0) i \<Longrightarrow>
      \<exists>t0. (\<forall>t\<ge>t0. \<not> scheduled_at (S t) i \<longrightarrow> co_ready c (ev_act (env t) (ss_circuit (S t))) i) \<and>
        (t0 = 0 \<and> notified_at (S 0) i \<or>
         i \<in> set (ev_notified (env t0)) \<and> (\<exists>t1\<ge>t0. ev_unpark (env t1)))"
  shows False
proof -
  have sinv: "sched_inv G items (ss_inner (S t)) (set (X t)) []" "valid_order G (X t)"
      "ss_phase (S t) = Parked \<Longrightarrow> queue_empty items (S t)" for t
    using inv [of t] ph(1) [of t] by (auto simp: run_inv_def queue_empty_def)
  have grow: "X (Suc t) = X t \<or> (\<exists>k. X (Suc t) = X t @ [k])" for t
    using eff [of t] by (auto simp: run_effect_def idle_effect_def wait_effect_def)
  have bound: "length (X t) \<le> tg_n G" for t
    using sinv(2) [of t] card_mono [of "{..<tg_n G}" "set (X t)"]
    by (auto simp: valid_order_def distinct_card)
  obtain T where T: "\<And>t. t \<ge> T \<Longrightarrow> X t = X T"
    using appending_stabilises [of X, OF grow bound] by blast
  \<comment> \<open>From \<open>T\<close> on nothing is evaluated, so the run queue stays empty.\<close>
  have norun: "\<not> run_effect G items (env t) (S t) (S (Suc t)) (X t) (X (Suc t))" if "t \<ge> T" for t
    using T [of t] T [of "Suc t"] that by (auto simp: run_effect_def)
  have empty: "queue_empty items (S t)" if "t \<ge> T" for t
    using eff [of t] norun [OF that] by (auto simp: idle_effect_def wait_effect_def)
  have parks: "ss_phase (S (Suc t)) = Parked" if "t \<ge> T" "ss_phase (S t) = Looping" for t
    using eff [of t] norun [OF that(1)] empty [of "Suc t"] that
    by (auto simp: idle_effect_def wait_effect_def)
  have short: "length (X T) < tg_n G"
  proof -
    obtain t where "t \<ge> T" "ss_phase (S t) = Parked"
      using parks [of T] ph(1) [of T] by (metis le_SucI order_refl)
    then show ?thesis using inv [of t] T [of t] by (auto simp: run_inv_def)
  qed
  obtain i where i: "i < tg_n G" "i \<notin> set (X T)" "waiting G (set (X T)) i = 0"
    using next_node [OF acyclic sinv(2) [of T] short] .
  have unev: "i \<notin> set (X t)" for t
  proof
    assume "i \<in> set (X t)"
    have "i \<in> set (X (t + m))" for m
    proof (induction m)
      case (Suc m)
      then show ?case using grow [of "t + m"] by auto
    qed (simp add: \<open>i \<in> set (X t)\<close>)
    then show False using T [of "t + T"] i(2) by (metis le_add2)
  qed
  \<comment> \<open>That node never becomes ready and is never put on the queue.\<close>
  have ready_mono: "ready_at (S (Suc t)) i" if "ready_at (S t) i" for t
    using eff [of t] that i(1) unev [of "Suc t"]
    by (auto simp: run_effect_def idle_effect_def wait_effect_def)
  have late: "\<not> ready_at (S t) i \<and> \<not> scheduled_at (S t) i" if "t \<ge> T" for t
    using queue_empty_not_ready [OF sinv(1) empty [OF that] i(1)] T [OF that] i by simp
  have never: "\<not> ready_at (S t) i" "\<not> scheduled_at (S t) i" for t
  proof -
    have "ready_at (S (t + m)) i" if "ready_at (S t) i" for m
      by (induction m) (use that ready_mono in auto)
    then show "\<not> ready_at (S t) i" using late [of "t + T"] by auto
    have "scheduled_at (S (t + m)) i" if "scheduled_at (S t) i" for m
      by (induction m) (use that sched i(1) in auto)
    then show "\<not> scheduled_at (S t) i" using late [of "t + T"] by auto
  qed
  have "tg_async G i"
    using tasks_shapeD(4) [OF sched_invD(1) [OF sinv(1) [of 0]] i(1)] never(1) [of 0]
    by (simp add: ready_at_def)
  then obtain t0 where n: "\<And>t. t \<ge> t0 \<Longrightarrow> co_ready c (ev_act (env t) (ss_circuit (S t))) i"
      "t0 = 0 \<and> notified_at (S 0) i \<or> i \<in> set (ev_notified (env t0)) \<and> (\<exists>t1\<ge>t0. ev_unpark (env t1))"
    using fair [OF i(1) _ never(1)] never(2) by metis
  have first: "notified_at (S t0) i \<or> i \<in> set (ev_notified (env t0))" using n(2) by auto
  \<comment> \<open>The notification stays in the set, so it is never looked at.\<close>
  have kept: "notified_at (S (Suc t)) i \<and> \<not> idle_effect G items c (env t) (S t) (S (Suc t)) (X t) (X (Suc t))"
    if "notified_at (S t) i \<or> i \<in> set (ev_notified (env t))" "t \<ge> t0" for t
  proof -
    have "\<not> idle_effect G items c (env t) (S t) (S (Suc t)) (X t) (X (Suc t))"
      using that n(1) [OF that(2)] never(1) [of "Suc t"] i(1) by (auto simp: idle_effect_def)
    then show ?thesis using eff [of t] that i(1) by (auto simp: run_effect_def wait_effect_def)
  qed
  have pending: "notified_at (S (Suc t)) i" if "t \<ge> t0" for t
    using that by (induction t rule: dec_induct) (use kept first in auto)
  have noidle: "\<not> idle_effect G items c (env t) (S t) (S (Suc t)) (X t) (X (Suc t))" if t: "t \<ge> t0" for t
  proof (cases "t = t0")
    case False
    then obtain t' where "t = Suc t'" "t' \<ge> t0" using t by (cases t) auto
    then show ?thesis using kept [of t] pending [of t'] by auto
  qed (use kept first in auto)
  \<comment> \<open>So the thread stays parked from some time on, which the token forbids.\<close>
  have parked: "ss_phase (S t) = Parked \<and> \<not> ss_token (S t) \<and> \<not> ev_unpark (env t)"
    if "t \<ge> T" "t \<ge> t0" for t
  proof -
    have "wait_effect G items (env t) (S t) (S (Suc t)) (X t) (X (Suc t))"
        "wait_effect G items (env (Suc t)) (S (Suc t)) (S (Suc (Suc t))) (X (Suc t)) (X (Suc (Suc t)))"
      using eff norun noidle that by (meson le_SucI)+
    then show ?thesis by (auto simp: wait_effect_def)
  qed
  obtain u where u: "u \<ge> t0" "ss_phase (S u) = Looping \<or> ss_token (S u)"
  proof (cases "\<exists>t1\<ge>t0. ev_unpark (env t1)")
    case True
    then obtain t1 where "t1 \<ge> t0" "ev_unpark (env t1)" by blast
    then show ?thesis
      using that [of "Suc t1"] eff [of t1] noidle [of t1] by (auto simp: run_effect_def wait_effect_def)
  next
    case False
    then show ?thesis using that [of 0] n(2) ph(2) by auto
  qed
  have token: "ss_phase (S t) = Looping \<or> ss_token (S t)" if "t \<ge> u" for t
    using that
  proof (induction t rule: dec_induct)
    case (step t)
    then show ?case
      using eff [of t] noidle [of t] u(1) by (auto simp: run_effect_def wait_effect_def)
  qed (rule u(2))
  show False
    using token [of "u + T"] parked [of "u + T"] u(1) by auto
qed

section \<open>A step ends\<close>

lemma dynamic_run_snoc:
  "dynamic_run qo c (evs @ [ev]) st = res_bind (dynamic_run qo c evs st) (dynamic_turn qo c ev)"
  by (induction evs arbitrary: st) (auto simp: res_bind_def split: sum.splits)

lemma step_ends:
  fixes st0 :: "('c, 'q) step_state"
  assumes pq: "priority_queue qo items"
    and G: "graph_closed G" "graph_acyclic G" "num_nodes c = tg_n G" "eval_succeeds c"
    and inv: "run_inv G items c st0 []" and ph: "ss_phase st0 = Looping"
    and env: "\<And>t. env_ok G (env t)" "\<And>t. \<not> ev_kill (env t)"
    and fair: "\<And>i. i < tg_n G \<Longrightarrow> tg_async G i \<Longrightarrow> \<not> ready_at st0 i \<Longrightarrow>
      \<exists>t0. (\<forall>t\<ge>t0. \<forall>st. dynamic_run qo c (map env [0..<t]) st0 = Inr st \<longrightarrow>
           \<not> scheduled_at st i \<longrightarrow> co_ready c (ev_act (env t) (ss_circuit st)) i) \<and>
        (t0 = 0 \<and> notified_at st0 i \<or>
         i \<in> set (ev_notified (env t0)) \<and> (\<exists>t1\<ge>t0. ev_unpark (env t1)))"
  shows "\<exists>t st. dynamic_run qo c (map env [0..<t]) st0 = Inr st \<and> ss_phase st = Finished"
proof (rule ccontr)
  assume never: "\<not> ?thesis"
  define P where "P t p \<longleftrightarrow> (case p of (st, xs) \<Rightarrow> dynamic_run qo c (map env [0..<t]) st0 = Inr st \<and>
      run_inv G items c st xs \<and> (ss_phase st = Looping \<or> ss_phase st = Parked))"
    for t :: nat and p :: "('c, 'q) step_state \<times> node_id list"
  define Q where "Q t p p' \<longleftrightarrow> (case (p, p') of ((st, xs), (st', xs')) \<Rightarrow>
      (\<forall>i<tg_n G. scheduled_at st i \<longrightarrow> scheduled_at st' i) \<and>
      (run_effect G items (env t) st st' xs xs' \<or> idle_effect G items c (env t) st st' xs xs' \<or>
       wait_effect G items (env t) st st' xs xs'))"
    for t :: nat and p p' :: "('c, 'q) step_state \<times> node_id list"
  have "P 0 (st0, [])" using inv ph by (simp add: P_def)
  moreover have "\<exists>p'. P (Suc t) p' \<and> Q t p p'" if "P t p" for t p
  proof -
    obtain st xs where p: "p = (st, xs)" by fastforce
    have st: "dynamic_run qo c (map env [0..<t]) st0 = Inr st" "run_inv G items c st xs"
        "ss_phase st = Looping \<or> ss_phase st = Parked"
      using that by (simp_all add: P_def p)
    obtain st' xs' where turn: "dynamic_turn qo c (env t) st = Inr st'" "run_inv G items c st' xs'"
        "ss_phase st' = Finished \<or>
         (ss_phase st' = Looping \<or> ss_phase st' = Parked) \<and>
         (\<forall>i<tg_n G. scheduled_at st i \<longrightarrow> scheduled_at st' i) \<and>
         (run_effect G items (env t) st st' xs xs' \<or> idle_effect G items c (env t) st st' xs xs' \<or>
          wait_effect G items (env t) st st' xs xs')"
      using live_turn [OF pq G(1,3,4) st(2) env st(3)] by blast
    have run: "dynamic_run qo c (map env [0..<Suc t]) st0 = Inr st'"
      using st(1) turn(1) by (simp add: dynamic_run_snoc)
    then have "ss_phase st' \<noteq> Finished" using never by blast
    then show ?thesis using turn run by (intro exI [of _ "(st', xs')"]) (simp add: P_def Q_def p)
  qed
  ultimately obtain f where f: "\<And>t. P t (f t)" "\<And>t. Q t (f t) (f (Suc t))"
    using dependent_nat_choice [of P Q] by metis
  define S where "S t = fst (f t)" for t
  define X where "X t = snd (f t)" for t
  have PS: "dynamic_run qo c (map env [0..<t]) st0 = Inr (S t)" "run_inv G items c (S t) (X t)"
      "ss_phase (S t) = Looping \<or> ss_phase (S t) = Parked" for t
    using f(1) [of t] by (auto simp: P_def S_def X_def split: prod.splits)
  have QS: "\<forall>i<tg_n G. scheduled_at (S t) i \<longrightarrow> scheduled_at (S (Suc t)) i"
      "run_effect G items (env t) (S t) (S (Suc t)) (X t) (X (Suc t)) \<or>
       idle_effect G items c (env t) (S t) (S (Suc t)) (X t) (X (Suc t)) \<or>
       wait_effect G items (env t) (S t) (S (Suc t)) (X t) (X (Suc t))" for t
    using f(2) [of t] by (auto simp: Q_def S_def X_def split: prod.splits)
  have "S 0 = st0" using PS(1) [of 0] by simp
  show False
  proof (rule no_infinite_run [OF G(2) PS(2) PS(3)])
    show "scheduled_at (S (Suc t)) i" if "i < tg_n G" "scheduled_at (S t) i" for t i
      using QS(1) that by blast
    show "ss_phase (S 0) = Looping" by (simp add: \<open>S 0 = st0\<close> ph)
    show "\<exists>t0. (\<forall>t\<ge>t0. \<not> scheduled_at (S t) i \<longrightarrow> co_ready c (ev_act (env t) (ss_circuit (S t))) i) \<and>
        (t0 = 0 \<and> notified_at (S 0) i \<or>
         i \<in> set (ev_notified (env t0)) \<and> (\<exists>t1\<ge>t0. ev_unpark (env t1)))"
      if i: "i < tg_n G" "tg_async G i" "\<not> ready_at (S 0) i" for i
    proof -
      obtain t0 where t0: "\<forall>t\<ge>t0. \<forall>st. dynamic_run qo c (map env [0..<t]) st0 = Inr st \<longrightarrow>
             \<not> scheduled_at st i \<longrightarrow> co_ready c (ev_act (env t) (ss_circuit st)) i"
          "t0 = 0 \<and> notified_at (S 0) i \<or>
           i \<in> set (ev_notified (env t0)) \<and> (\<exists>t1\<ge>t0. ev_unpark (env t1))"
        using fair [OF i(1,2)] i(3) unfolding \<open>S 0 = st0\<close> by metis
      then show ?thesis using PS(1) by (intro exI [of _ t0]) simp
    qed
  qed (rule QS(2))
qed

end
