(* ===== verification/Schedule_Theorems.thy ===== *)
theory Schedule_Theorems
  imports Schedule_Liveness
begin

text \<open>
  The theorems on the dynamic scheduler, over all states it can be in between two steps, with a
  reference priority queue, a reference topological sort and a small circuit as witnesses.
\<close>

section \<open>States between two steps\<close>

text \<open>
  The environment notifies asynchronous nodes only, since the callback is registered on those, and a
  hash set is drained in some order of its elements.
\<close>

definition env_wf :: "('c, 'z) circuit_ops_scheme \<Rightarrow> 'c environment \<Rightarrow> bool" where
  "env_wf c ev \<longleftrightarrow>
     (\<forall>i\<in>set (ev_notified ev). i < num_nodes c \<and> co_is_async c i) \<and>
     (\<forall>xs. set (ev_drain ev xs) = set xs)"

lemma env_wf_ok [simp]: "env_ok (graph_of c extra) ev \<longleftrightarrow> env_wf c ev"
  by (simp add: env_ok_def env_wf_def graph_of_def)

inductive reachable ::
  "('q, 'y) queue_ops_scheme \<Rightarrow> toposort \<Rightarrow> (successor_map \<Rightarrow> successor_map) \<Rightarrow>
   ('c, 'z) circuit_ops_scheme \<Rightarrow> 'q inner \<Rightarrow> bool"
  for qo toposort iter_order c where
  prepared: "dynamic_prepare qo toposort iter_order c circuit = Inr (Inr inner) \<Longrightarrow>
    reachable qo toposort iter_order c inner"
| notified: "reachable qo toposort iter_order c inner \<Longrightarrow> i < num_nodes c \<Longrightarrow> co_is_async c i \<Longrightarrow>
    reachable qo toposort iter_order c
      (inner\<lparr>in_notifications := notify (in_notifications inner) i\<rparr>)"
| stepped: "reachable qo toposort iter_order c inner \<Longrightarrow>
    dynamic_start qo c inner circuit token = Inr st0 \<Longrightarrow> \<forall>ev\<in>set evs. env_wf c ev \<Longrightarrow>
    dynamic_run qo c evs st0 = Inr st \<Longrightarrow> ss_phase st = Finished \<Longrightarrow>
    reachable qo toposort iter_order c (ss_inner st)"

lemma reachable_rest_inv:
  assumes pq: "priority_queue qo items" and ts: "topological_sort toposort"
    and iter: "\<And>m. mset (iter_order m) = mset m" and wf: "circuit_wf c" "eval_returns c"
    and reach: "reachable qo toposort iter_order c inner"
  shows "\<exists>extra. ownership_constraints iter_order c = Inr extra \<and>
    rest_inv (graph_of c extra) items inner \<and> graph_closed (graph_of c extra) \<and>
    graph_acyclic (graph_of c extra)"
  using reach
proof (induction rule: reachable.induct)
  case (prepared circuit inner)
  show ?case using dynamic_prepare_ok [OF pq wf(1) iter ts prepared] by blast
next
  case (notified inner i)
  then show ?case
    by (auto simp: rest_inv_def graph_of_def notify_def)
next
  case (stepped inner circuit token st0 evs st)
  then obtain extra where extra: "ownership_constraints iter_order c = Inr extra"
      "rest_inv (graph_of c extra) items inner" "graph_closed (graph_of c extra)"
      "graph_acyclic (graph_of c extra)"
    by auto
  have n: "num_nodes c = tg_n (graph_of c extra)" by (simp add: graph_of_def)
  have "run_inv (graph_of c extra) items c st0 []"
    using dynamic_start_inv [OF pq extra(2), of c circuit token] stepped(2) by auto
  then obtain xs where "run_inv (graph_of c extra) items c st xs"
    using dynamic_run_inv [OF pq extra(3) n wf(2), of st0 "[]" evs] stepped(3,4) by auto
  then have "rest_inv (graph_of c extra) items (ss_inner st)"
    using stepped(5) by (simp add: run_inv_def)
  then show ?case using extra by blast
qed

section \<open>A reference priority queue and topological sort\<close>

fun max_item :: "(node_id \<times> int) list \<Rightarrow> (node_id \<times> int) option" where
  "max_item [] = None"
| "max_item (x # xs) =
     (case max_item xs of None \<Rightarrow> Some x | Some y \<Rightarrow> if snd y \<le> snd x then Some x else Some y)"

definition list_queue :: "(node_id \<times> int) list queue_ops" where
  "list_queue =
     \<lparr>qo_new = [], qo_is_empty = (\<lambda>q. q = []), qo_push = (\<lambda>q n p. AList.update n p q),
      qo_pop = (\<lambda>q. case max_item (AList.clearjunk q) of
                      None \<Rightarrow> (None, q)
                    | Some (n, p) \<Rightarrow> (Some (n, p), AList.delete n q))\<rparr>"

fun in_order :: "(node_id \<times> node_id) list \<Rightarrow> node_id list \<Rightarrow> node_id list \<Rightarrow> bool" where
  "in_order es seen [] \<longleftrightarrow> True"
| "in_order es seen (n # ns) \<longleftrightarrow>
     n \<notin> set seen \<and> (\<forall>e\<in>set es. snd e = n \<longrightarrow> fst e \<in> set seen) \<and> in_order es (seen @ [n]) ns"

definition index_sort :: toposort where
  "index_sort g =
     (if in_order (dg_edges g) [] (dg_nodes g) then Inr (dg_nodes g) else Inl (hd (dg_nodes g)))"

lemma in_order_valid:
  "in_order es seen ns \<Longrightarrow> distinct seen \<Longrightarrow>
   distinct (seen @ ns) \<and>
   (\<forall>k<length ns. \<forall>a. (a, ns ! k) \<in> set es \<longrightarrow> a \<in> set (seen @ take k ns))"
proof (induction ns arbitrary: seen)
  case (Cons n ns)
  then have IH: "distinct ((seen @ [n]) @ ns)"
      "\<And>k a. k < length ns \<Longrightarrow> (a, ns ! k) \<in> set es \<Longrightarrow> a \<in> set ((seen @ [n]) @ take k ns)"
    using Cons.IH [of "seen @ [n]"] by auto
  have "a \<in> set (seen @ take k (n # ns))" if "k < length (n # ns)" "(a, (n # ns) ! k) \<in> set es" for k a
  proof (cases k)
    case 0
    then show ?thesis using that Cons.prems(1) by fastforce
  next
    case (Suc j)
    then show ?thesis using that IH(2) [of j a] by simp
  qed
  then show ?case using IH(1) by simp
qed simp

lemma index_sort_topological: "topological_sort index_sort"
  using in_order_valid [of _ "[]"] by (auto simp: topological_sort_def index_sort_def)

lemma max_item_cases:
  "max_item xs = None \<longleftrightarrow> xs = []"
  "max_item xs = Some y \<Longrightarrow> y \<in> set xs \<and> (\<forall>x\<in>set xs. snd x \<le> snd y)"
  by (induction xs arbitrary: y) (auto split: option.splits if_splits)

lemma list_queue_priority_queue: "priority_queue list_queue map_of"
proof -
  have pop: "case qo_pop list_queue q of
          (None, q') \<Rightarrow> map_of q = Map.empty \<and> map_of q' = Map.empty
        | (Some (n, p), q') \<Rightarrow> map_of q n = Some p \<and> map_of q' = (map_of q)(n := None) \<and>
            (\<forall>m r. map_of q m = Some r \<longrightarrow> r \<le> p)" for q
  proof (cases "max_item (AList.clearjunk q)")
    case None
    then have "map_of (AList.clearjunk q) = Map.empty" by (simp add: max_item_cases(1))
    then have "q = []" by (simp add: map_of_clearjunk)
    then show ?thesis by (simp add: list_queue_def)
  next
    case (Some x)
    obtain n p where x: "x = (n, p)" by fastforce
    have m: "(n, p) \<in> set (AList.clearjunk q)" "\<forall>y\<in>set (AList.clearjunk q). snd y \<le> p"
      using max_item_cases(2) [OF Some] x by auto
    have in_q: "map_of q k = Some v \<longleftrightarrow> (k, v) \<in> set (AList.clearjunk q)" for k v
      using map_of_eq_Some_iff [OF distinct_clearjunk, of q k v] by (simp add: map_of_clearjunk)
    have eq: "qo_pop list_queue q = (Some (n, p), AList.delete n q)"
      using Some x by (simp add: list_queue_def)
    have le: "v \<le> p" if "map_of q k = Some v" for k v
      using bspec [OF m(2), of "(k, v)"] in_q [of k v] that by simp
    have get: "map_of q n = Some p" unfolding in_q by (rule m(1))
    show ?thesis unfolding eq prod.case option.case
      by (intro conjI allI impI get delete_conv') (rule le)
  qed
  show ?thesis unfolding priority_queue_def
    by (intro conjI allI pop) (simp_all add: list_queue_def update_conv')
qed

section \<open>A circuit\<close>

text \<open>
  Four nodes: a source, an asynchronous node, a consumer of both and a consumer of the source that
  insists on owning its input.  The state of the circuit is the list of evaluated nodes.
\<close>

definition sample_edge :: "node_id \<Rightarrow> node_id \<Rightarrow> ownership_preference \<Rightarrow> edge" where
  "sample_edge a b p = \<lparr>e_from = a, e_to = b, e_origin = [a], e_preference = Some p\<rparr>"

definition sample_circuit :: "node_id list circuit_ops" where
  "sample_circuit =
     \<lparr>co_global_id = [],
      co_edges = [sample_edge 0 3 STRONGLY_PREFER_OWNED, sample_edge 1 2 INDIFFERENT,
                  sample_edge 0 2 PREFER_OWNED],
      co_node_ids = [0, 1, 2, 3],
      co_is_async = (\<lambda>n. n = 1),
      co_ready = (\<lambda>_ _. True),
      co_eval = (\<lambda>s n. Inr (None, [], s @ [n])),
      co_tick = (\<lambda>s. s)\<rparr>"

definition sample_env :: "nat \<Rightarrow> node_id list environment" where
  "sample_env t =
     \<lparr>ev_kill = False, ev_act = (\<lambda>s. s), ev_notified = (if t = 1 then [1] else []),
      ev_unpark = (t = 3), ev_drain = (\<lambda>xs. xs)\<rparr>"

definition sample_inner :: "(node_id \<times> int) list inner" where
  "sample_inner =
     (case dynamic_prepare list_queue index_sort id sample_circuit [] of
        Inr (Inr inner) \<Rightarrow> inner
      | _ \<Rightarrow> \<lparr>in_tasks = [], in_notifications = [], in_runnable = []\<rparr>)"

lemma sample_facts:
  "circuit_wf sample_circuit" "eval_succeeds sample_circuit" "eval_returns sample_circuit"
  "reachable list_queue index_sort id sample_circuit sample_inner"
  "env_wf sample_circuit (sample_env t)" "\<not> ev_kill (sample_env t)"
proof -
  show "circuit_wf sample_circuit"
    by (simp add: circuit_wf_def num_nodes_def sample_circuit_def sample_edge_def upt_rec)
  show "eval_succeeds sample_circuit" by (simp add: eval_succeeds_def sample_circuit_def)
  then show "eval_returns sample_circuit" by (rule eval_succeedsD)
  have "dynamic_prepare list_queue index_sort id sample_circuit [] = Inr (Inr sample_inner)"
    unfolding sample_inner_def sample_circuit_def sample_edge_def list_queue_def by code_simp
  then show "reachable list_queue index_sort id sample_circuit sample_inner"
    by (rule reachable.prepared)
  show "env_wf sample_circuit (sample_env t)" "\<not> ev_kill (sample_env t)"
    by (simp_all add: env_wf_def sample_env_def sample_circuit_def num_nodes_def)
qed

section \<open>Theorems\<close>

text \<open>
  C5. Safety of the dynamic scheduler.  From every state it can be in between two steps, whatever
  the other threads do, a step panics nowhere, and the events it has logged at any time are those of
  an evaluation of distinct nodes, each after all its predecessors in the graph of the circuit and
  of the ownership constraints; a step that has finished has evaluated every node exactly once.
\<close>

theorem dynamic_schedule_valid:
  assumes "priority_queue qo items" "topological_sort toposort" "\<And>m. mset (iter_order m) = mset m"
    and "circuit_wf c" "eval_returns c"
    and "reachable qo toposort iter_order c inner" "\<forall>ev\<in>set evs. env_wf c ev"
  shows "\<exists>extra st0 st xs. ownership_constraints iter_order c = Inr extra \<and>
    dynamic_start qo c inner circuit token = Inr st0 \<and> dynamic_run qo c evs st0 = Inr st \<and>
    schedule_ok (graph_of c extra) c (ss_phase st) (ss_log st) xs"
proof -
  obtain extra where extra: "ownership_constraints iter_order c = Inr extra"
      "rest_inv (graph_of c extra) items inner" "graph_closed (graph_of c extra)"
    using reachable_rest_inv [OF assms(1-6)] by blast
  have n: "num_nodes c = tg_n (graph_of c extra)" by (simp add: graph_of_def)
  obtain st0 where st0: "dynamic_start qo c inner circuit token = Inr st0"
      "run_inv (graph_of c extra) items c st0 []"
    using dynamic_start_inv [OF assms(1) extra(2), of c circuit token] by auto
  obtain st xs where "dynamic_run qo c evs st0 = Inr st" "run_inv (graph_of c extra) items c st xs"
    using dynamic_run_inv [OF assms(1) extra(3) n assms(5) st0(2), of evs] assms(7) by auto
  then show ?thesis using extra(1) st0(1) run_inv_schedule_ok by blast
qed

theorem dynamic_schedule_valid_witness:
  "\<exists>st0 st. dynamic_start list_queue sample_circuit sample_inner [] False = Inr st0 \<and>
    dynamic_run list_queue sample_circuit (map sample_env [0..<10]) st0 = Inr st \<and>
    ss_phase st = Finished \<and> ss_circuit st = [0, 1, 2, 3] \<and>
    (\<exists>extra xs. schedule_ok (graph_of sample_circuit extra) sample_circuit (ss_phase st) (ss_log st) xs)"
proof -
  have "mset (id m) = mset m" for m :: successor_map by simp
  then obtain st0 st where st: "dynamic_start list_queue sample_circuit sample_inner [] False = Inr st0"
      "dynamic_run list_queue sample_circuit (map sample_env [0..<10]) st0 = Inr st"
      "\<exists>extra xs. schedule_ok (graph_of sample_circuit extra) sample_circuit (ss_phase st) (ss_log st) xs"
    using dynamic_schedule_valid [OF list_queue_priority_queue index_sort_topological _ sample_facts(1,3,4),
        of "map sample_env [0..<10]" "[]" False] sample_facts(5) by auto
  have "(case dynamic_start list_queue sample_circuit sample_inner [] False of
        Inl _ \<Rightarrow> None
      | Inr st0 \<Rightarrow>
          (case dynamic_run list_queue sample_circuit (map sample_env [0..<10]) st0 of
             Inl _ \<Rightarrow> None
           | Inr st \<Rightarrow> Some (ss_phase st, ss_circuit st))) = Some (Finished, [0, 1, 2, 3])"
    unfolding sample_inner_def sample_circuit_def sample_edge_def list_queue_def sample_env_def
    by code_simp
  then show ?thesis using st by auto
qed

text \<open>
  C6. Liveness of the dynamic scheduler.  If no evaluation fails and the runtime is not killed, and
  every asynchronous node that is not ready has been notified, or is at some time notified with the
  thread unparked at or after that time, and from then on stays ready until it is put on the run
  queue, then the step finishes: no wake-up is lost between looking at the notifications and parking.
\<close>

theorem dynamic_step_finishes:
  assumes "priority_queue qo items" "topological_sort toposort" "\<And>m. mset (iter_order m) = mset m"
    and "circuit_wf c" "eval_succeeds c"
    and "reachable qo toposort iter_order c inner"
    and "dynamic_start qo c inner circuit token = Inr st0"
    and "\<And>t. env_wf c (env t)" "\<And>t. \<not> ev_kill (env t)"
    and "\<And>i. i < num_nodes c \<Longrightarrow> co_is_async c i \<Longrightarrow> \<not> t_is_ready (in_tasks inner ! i) \<Longrightarrow>
      \<exists>t0. (\<forall>t\<ge>t0. \<forall>st. dynamic_run qo c (map env [0..<t]) st0 = Inr st \<longrightarrow>
           \<not> t_scheduled (in_tasks (ss_inner st) ! i) \<longrightarrow> co_ready c (ev_act (env t) (ss_circuit st)) i) \<and>
        (t0 = 0 \<and> i \<in> set (in_notifications inner) \<or>
         i \<in> set (ev_notified (env t0)) \<and> (\<exists>t1\<ge>t0. ev_unpark (env t1)))"
  shows "\<exists>t st. dynamic_run qo c (map env [0..<t]) st0 = Inr st \<and> ss_phase st = Finished"
proof -
  note ret = eval_succeedsD(1) [OF assms(5)]
  obtain extra where extra: "rest_inv (graph_of c extra) items inner" "graph_closed (graph_of c extra)"
      "graph_acyclic (graph_of c extra)"
    using reachable_rest_inv [OF assms(1-4) ret assms(6)] by blast
  let ?G = "graph_of c extra"
  have n: "num_nodes c = tg_n ?G" "co_is_async c = tg_async ?G" by (simp_all add: graph_of_def)
  have st0: "run_inv ?G items c st0 []" "ss_phase st0 = Looping"
      "\<And>i. i < tg_n ?G \<Longrightarrow> ready_at st0 i = t_is_ready (in_tasks inner ! i)"
      "in_notifications (ss_inner st0) = in_notifications inner"
    using dynamic_start_ok [OF assms(1) extra(1), of c circuit token]
      dynamic_start_inv [OF assms(1) extra(1), of c circuit token] assms(7)
    by (auto simp: ready_at_def)
  show ?thesis
  proof (rule step_ends [OF assms(1) extra(2,3) n(1) assms(5) st0(1,2)])
    show "\<exists>t0. (\<forall>t\<ge>t0. \<forall>st. dynamic_run qo c (map env [0..<t]) st0 = Inr st \<longrightarrow>
             \<not> scheduled_at st i \<longrightarrow> co_ready c (ev_act (env t) (ss_circuit st)) i) \<and>
          (t0 = 0 \<and> notified_at st0 i \<or>
           i \<in> set (ev_notified (env t0)) \<and> (\<exists>t1\<ge>t0. ev_unpark (env t1)))"
      if "i < tg_n ?G" "tg_async ?G i" "\<not> ready_at st0 i" for i
      using assms(10) [of i] that st0(3,4) n by (simp add: scheduled_at_def notified_at_def)
  qed (use assms(8,9) in simp_all)
qed

theorem dynamic_step_finishes_witness:
  "\<exists>st0 t st. dynamic_start list_queue sample_circuit sample_inner [] False = Inr st0 \<and>
    dynamic_run list_queue sample_circuit (map sample_env [0..<t]) st0 = Inr st \<and> ss_phase st = Finished"
proof -
  have id: "mset (id m) = mset m" for m :: successor_map by simp
  have "returns (dynamic_start list_queue sample_circuit sample_inner [] False)"
    unfolding sample_inner_def sample_circuit_def sample_edge_def list_queue_def by code_simp
  then obtain st0 where st0: "dynamic_start list_queue sample_circuit sample_inner [] False = Inr st0"
    by (auto simp: returns_iff)
  have "\<exists>t st. dynamic_run list_queue sample_circuit (map sample_env [0..<t]) st0 = Inr st \<and>
      ss_phase st = Finished"
  proof (rule dynamic_step_finishes [OF list_queue_priority_queue index_sort_topological id
        sample_facts(1,2,4) st0 sample_facts(5,6)])
    show "\<exists>t0. (\<forall>t\<ge>t0. \<forall>st. dynamic_run list_queue sample_circuit (map sample_env [0..<t]) st0 = Inr st \<longrightarrow>
           \<not> t_scheduled (in_tasks (ss_inner st) ! i) \<longrightarrow>
           co_ready sample_circuit (ev_act (sample_env t) (ss_circuit st)) i) \<and>
        (t0 = 0 \<and> i \<in> set (in_notifications sample_inner) \<or>
         i \<in> set (ev_notified (sample_env t0)) \<and> (\<exists>t1\<ge>t0. ev_unpark (sample_env t1)))"
      if "co_is_async sample_circuit i" for i
      using that by (intro exI [of _ 1]) (auto simp: sample_circuit_def sample_env_def)
  qed
  then show ?thesis using st0 by blast
qed

end
