(* ===== verification/Trace_Monitor.thy ===== *)
theory Trace_Monitor
  imports Circuit_Events "HOL-Library.AList"
begin

text \<open>
  The trace monitor (\<^verbatim>\<open>crates/dbsp/src/monitor/mod.rs\<close>, \<^verbatim>\<open>monitor/circuit_graph.rs\<close>): it rebuilds the graph
  of a circuit from the events of its construction and checks the events of its execution against
  a stack of automata, one per circuit under evaluation.  It is the specification of what a
  scheduler reports that the repository itself provides.

  Hash maps are association lists with one entry per key, hash sets lists without repetition.  A
  mutable reference to a node is the pair of \<open>node_ref\<close> and \<open>node_set\<close>.
\<close>

section \<open>Regions\<close>

type_synonym region_id = "nat list"

definition region_root :: region_id where
  "region_root = []"

definition region_pop :: "region_id \<Rightarrow> region_id" where
  "region_pop self = butlast self"

definition region_child :: "region_id \<Rightarrow> nat \<Rightarrow> region_id" where
  "region_child self child_id = self @ [child_id]"

datatype region =
  Region (rg_id: region_id) (rg_nodes: "node_id list") (rg_name: string)
    (rg_location: operator_location) (rg_children: "region list")

definition region_new :: "region_id \<Rightarrow> string \<Rightarrow> operator_location \<Rightarrow> region" where
  "region_new i name location = Region i [] name location []"

fun do_add_region ::
  "region \<Rightarrow> nat list \<Rightarrow> string \<Rightarrow> operator_location \<Rightarrow> (region_id \<times> region) res" where
  "do_add_region (Region rid nodes nm loc children) [] name location =
     (let new_region_id = region_child rid (length children)
      in Inr (new_region_id,
              Region rid nodes nm loc (children @ [region_new new_region_id name location])))"
| "do_add_region (Region rid nodes nm loc children) (i # ids) name location =
     (if i < length children
      then res_map (\<lambda>(r, c). (r, Region rid nodes nm loc (children[i := c])))
             (do_add_region (children ! i) ids name location)
      else Inl IndexOutOfBounds)"

definition add_region ::
  "region \<Rightarrow> region_id \<Rightarrow> string \<Rightarrow> operator_location \<Rightarrow> (region_id \<times> region) res" where
  "add_region self parent name location =
     (if rg_id self = region_root then do_add_region self parent name location
      else Inl DebugAssert)"

text \<open>\<^verbatim>\<open>get_region(path).nodes.push(n)\<close>, its only use.\<close>

fun do_get_region_push :: "region \<Rightarrow> nat list \<Rightarrow> node_id \<Rightarrow> region res" where
  "do_get_region_push (Region rid nodes nm loc children) [] n =
     Inr (Region rid (nodes @ [n]) nm loc children)"
| "do_get_region_push (Region rid nodes nm loc children) (i # ids) n =
     (if i < length children
      then res_map (\<lambda>c. Region rid nodes nm loc (children[i := c]))
             (do_get_region_push (children ! i) ids n)
      else Inl IndexOutOfBounds)"

definition get_region_push :: "region \<Rightarrow> region_id \<Rightarrow> node_id \<Rightarrow> region res" where
  "get_region_push self rid n =
     (if rg_id self = region_root then do_get_region_push self rid n else Inl DebugAssert)"

section \<open>The graph of a circuit\<close>

datatype graph_node =
  GNode (gn_id: global_node_id) (gn_name: string) (gn_location: operator_location)
    (gn_region_id: region_id) (gn_kind: node_kind)
and node_kind =
    KOperator
  | KCircuit bool "(node_id \<times> graph_node) list" region
  | KStrictInput node_id
  | KStrictOutput

fun node_ref :: "graph_node \<Rightarrow> node_id list \<Rightarrow> graph_node option" where
  "node_ref self [] = Some self"
| "node_ref self (node_id # path) =
     (case gn_kind self of
        KCircuit _ children _ \<Rightarrow>
          (case map_of children node_id of None \<Rightarrow> None | Some c \<Rightarrow> node_ref c path)
      | _ \<Rightarrow> None)"

definition set_kind :: "graph_node \<Rightarrow> node_kind \<Rightarrow> graph_node" where
  "set_kind n k = GNode (gn_id n) (gn_name n) (gn_location n) (gn_region_id n) k"

fun node_set :: "graph_node \<Rightarrow> node_id list \<Rightarrow> graph_node \<Rightarrow> graph_node" where
  "node_set self [] new = new"
| "node_set self (node_id # path) new =
     (case gn_kind self of
        KCircuit iterative children region \<Rightarrow>
          (case map_of children node_id of
             None \<Rightarrow> self
           | Some c \<Rightarrow>
               set_kind self
                 (KCircuit iterative (AList.update node_id (node_set c path new) children) region))
      | _ \<Rightarrow> self)"

definition gn_is_circuit :: "graph_node \<Rightarrow> bool" where
  "gn_is_circuit n = (case gn_kind n of KCircuit _ _ _ \<Rightarrow> True | _ \<Rightarrow> False)"

definition gn_is_iterative :: "graph_node \<Rightarrow> bool" where
  "gn_is_iterative n = (case gn_kind n of KCircuit iterative _ _ \<Rightarrow> iterative | _ \<Rightarrow> False)"

definition gn_children :: "graph_node \<Rightarrow> (node_id \<times> graph_node) list option" where
  "gn_children n = (case gn_kind n of KCircuit _ children _ \<Rightarrow> Some children | _ \<Rightarrow> None)"

definition gn_is_strict_input :: "graph_node \<Rightarrow> bool" where
  "gn_is_strict_input n = (case gn_kind n of KStrictInput _ \<Rightarrow> True | _ \<Rightarrow> False)"

definition gn_output_id :: "graph_node \<Rightarrow> node_id option" where
  "gn_output_id n = (case gn_kind n of KStrictInput out \<Rightarrow> Some out | _ \<Rightarrow> None)"

record circuit_graph =
  cg_nodes :: graph_node
  cg_edges :: "(global_node_id \<times> (global_node_id \<times> edge_kind) list) list"

definition circuit_graph_new :: circuit_graph where
  "circuit_graph_new =
     \<lparr>cg_nodes = GNode gid_root ''root'' None region_root
        (KCircuit True [] (region_new region_root ''root'' None)),
      cg_edges = []\<rparr>"

definition cg_node_ref :: "circuit_graph \<Rightarrow> global_node_id \<Rightarrow> graph_node option" where
  "cg_node_ref self i = node_ref (cg_nodes self) i"

definition cg_add_edge ::
  "circuit_graph \<Rightarrow> global_node_id \<Rightarrow> global_node_id \<Rightarrow> edge_kind \<Rightarrow> circuit_graph" where
  "cg_add_edge self from to kind =
     self\<lparr>cg_edges :=
       (case map_of (cg_edges self) from of
          Some es \<Rightarrow> AList.update from (es @ [(to, kind)]) (cg_edges self)
        | None \<Rightarrow> AList.update from [(to, kind)] (cg_edges self))\<rparr>"

section \<open>The monitor\<close>

datatype circuit_state =
    Idle
  | Running
  | Step "node_id list"
  | Eval "node_id list" node_id

fun state_name :: "circuit_state \<Rightarrow> string" where
  "state_name Idle = ''Idle''"
| "state_name Running = ''Running''"
| "state_name (Step _) = ''Step''"
| "state_name (Eval _ _) = ''Eval''"

definition is_idle :: "circuit_state \<Rightarrow> bool" where
  "is_idle s \<longleftrightarrow> s = Idle"

definition is_running :: "circuit_state \<Rightarrow> bool" where
  "is_running s \<longleftrightarrow> s = Running"

datatype trace_error =
    EmptyPath
  | UnknownNode global_node_id
  | NodeExists global_node_id
  | NotACircuit global_node_id
  | NodeOutsideCurrentScope global_node_id global_node_id
  | UnexpectedNodeId
  | NoRegion
  | InvalidEvent string

record monitor =
  mo_circuit :: circuit_graph
  mo_current_scope :: global_node_id
  mo_region_stack :: "region_id list"
  mo_state :: "circuit_state list"

definition monitor_new :: monitor where
  "monitor_new =
     \<lparr>mo_circuit = circuit_graph_new, mo_current_scope = [], mo_region_stack = [region_root],
      mo_state = [Idle]\<rparr>"

text \<open>The result of an event: the error reported, if any, and the monitor after it.\<close>

type_synonym verdict = "trace_error option \<times> monitor"

definition vec_last :: "'a list \<Rightarrow> 'a res" where
  "vec_last xs = (if xs = [] then Inl UnwrapNone else Inr (last xs))"

lemma vec_last_simps [simp]: "vec_last [] = Inl UnwrapNone" "vec_last (xs @ [x]) = Inr x"
  by (simp_all add: vec_last_def)

definition current_region :: "monitor \<Rightarrow> region_id res" where
  "current_region self = vec_last (mo_region_stack self)"

definition set_current_region :: "monitor \<Rightarrow> region_id \<Rightarrow> monitor res" where
  "set_current_region self region =
     (if mo_region_stack self = [] then Inl UnwrapNone
      else Inr (self\<lparr>mo_region_stack := butlast (mo_region_stack self) @ [region]\<rparr>))"

definition put_node :: "monitor \<Rightarrow> global_node_id \<Rightarrow> graph_node \<Rightarrow> monitor" where
  "put_node self i n =
     self\<lparr>mo_circuit := (mo_circuit self)\<lparr>cg_nodes := node_set (cg_nodes (mo_circuit self)) i n\<rparr>\<rparr>"

definition push_region :: "monitor \<Rightarrow> string \<Rightarrow> operator_location \<Rightarrow> monitor res" where
  "push_region self name location =
     res_bind (current_region self) (\<lambda>current.
     res_bind (unwrap (cg_node_ref (mo_circuit self) (mo_current_scope self))) (\<lambda>circuit_node.
     case gn_kind circuit_node of
       KCircuit iterative children region \<Rightarrow>
         res_bind (add_region region current name location) (\<lambda>(current', region').
           set_current_region
             (put_node self (mo_current_scope self)
                (set_kind circuit_node (KCircuit iterative children region')))
             current')
     | _ \<Rightarrow> Inl UnwrapNone))"

definition pop_region :: "monitor \<Rightarrow> verdict res" where
  "pop_region self =
     res_bind (current_region self) (\<lambda>current.
     if current = region_root then Inr (Some NoRegion, self)
     else res_map (Pair None) (set_current_region self (region_pop current)))"

text \<open>
  The node a construction event adds.  \<open>Inl\<close> of the inner sum is the error the event is
  answered with.
\<close>

definition new_node ::
  "circuit_event \<Rightarrow> global_node_id \<Rightarrow> global_node_id \<Rightarrow> (node_id \<times> graph_node) list \<Rightarrow> region_id \<Rightarrow>
   (trace_error + graph_node) res" where
  "new_node event node_id parent children region_id =
     (if is_operator_event event then
        res_map (\<lambda>name. Inr (GNode node_id name (event_location event) region_id KOperator))
          (unwrap (event_node_name event))
      else if is_strict_output_event event then
        res_map (\<lambda>name. Inr (GNode node_id name (event_location event) region_id KStrictOutput))
          (unwrap (event_node_name event))
      else if is_strict_input_event event then
        res_map (\<lambda>out.
            case map_of children out of
              None \<Rightarrow> Inl (UnknownNode (gid_child parent out))
            | Some node \<Rightarrow>
                Inr (GNode node_id (gn_name node) (gn_location node) region_id (KStrictInput out)))
          (unwrap (event_output_node_id event))
      else
        Inr (Inr (GNode node_id [] None region_id
               (KCircuit (is_iterative_subcircuit_event event) []
                  (region_new region_root [] None)))))"

definition add_node_event ::
  "monitor \<Rightarrow> circuit_event \<Rightarrow> global_node_id \<Rightarrow> node_id \<Rightarrow> global_node_id \<Rightarrow> region_id \<Rightarrow> graph_node \<Rightarrow>
   verdict res" where
  "add_node_event self event node_id local_id parent current parent_node =
     (if parent \<noteq> mo_current_scope self then
        Inr (Some (NodeOutsideCurrentScope node_id (mo_current_scope self)), self)
      else
        case gn_kind parent_node of
          KCircuit iterative children region \<Rightarrow>
            if map_of children local_id \<noteq> None then Inr (Some (NodeExists node_id), self)
            else
              res_bind (new_node event node_id parent children current) (\<lambda>r.
              case r of
                Inl e \<Rightarrow> Inr (Some e, self)
              | Inr node \<Rightarrow>
                  res_map (\<lambda>region'.
                      let self' = put_node self parent
                            (set_kind parent_node
                               (KCircuit iterative (AList.update local_id node children) region'))
                      in (None,
                          if is_subcircuit_event event
                          then self'\<lparr>mo_current_scope := node_id,
                                     mo_region_stack := mo_region_stack self @ [region_root]\<rparr>
                          else self'))
                    (get_region_push region current local_id))
        | _ \<Rightarrow> Inr (Some (NotACircuit parent), self))"

definition node_event :: "monitor \<Rightarrow> circuit_event \<Rightarrow> verdict res" where
  "node_event self event =
     res_bind (unwrap (event_node_id event)) (\<lambda>node_id.
     case local_node_id node_id of
       None \<Rightarrow> Inr (Some EmptyPath, self)
     | Some local_id \<Rightarrow>
         res_bind (unwrap (parent_id node_id)) (\<lambda>parent.
         res_bind (current_region self) (\<lambda>current.
         case cg_node_ref (mo_circuit self) parent of
           None \<Rightarrow> Inr (Some (UnknownNode parent), self)
         | Some parent_node \<Rightarrow>
             if is_new_node_event event then
               add_node_event self event node_id local_id parent current parent_node
             else if node_id \<noteq> mo_current_scope self then Inr (Some UnexpectedNodeId, self)
             else
               Inr (None, self\<lparr>mo_current_scope := parent,
                               mo_region_stack := butlast (mo_region_stack self)\<rparr>))))"

definition edge_event :: "monitor \<Rightarrow> circuit_event \<Rightarrow> verdict res" where
  "edge_event self event =
     res_bind (unwrap (event_from event)) (\<lambda>from.
     res_bind (unwrap (event_to event)) (\<lambda>to.
     res_bind (unwrap (event_edge_kind event)) (\<lambda>kind.
     if cg_node_ref (mo_circuit self) from = None then Inr (Some (UnknownNode from), self)
     else if cg_node_ref (mo_circuit self) to = None then Inr (Some (UnknownNode to), self)
     else Inr (None, self\<lparr>mo_circuit := cg_add_edge (mo_circuit self) from to kind\<rparr>))))"

definition monitor_circuit_event :: "monitor \<Rightarrow> circuit_event \<Rightarrow> verdict res" where
  "monitor_circuit_event self event =
     (if is_node_event event then node_event self event
      else if is_edge_event event then edge_event self event
      else case event of
             PushRegion name location \<Rightarrow> res_map (Pair None) (push_region self name location)
           | PopRegion \<Rightarrow> pop_region self
           | _ \<Rightarrow> Inl (Explicit ''unknown event''))"

section \<open>Execution events\<close>

fun current_node_id :: "circuit_state list \<Rightarrow> global_node_id" where
  "current_node_id (Eval _ i # states) = i # current_node_id states"
| "current_node_id _ = []"

definition set_current_state :: "monitor \<Rightarrow> circuit_state \<Rightarrow> monitor" where
  "set_current_state self s = self\<lparr>mo_state := butlast (mo_state self) @ [s]\<rparr>"

definition pop_state :: "monitor \<Rightarrow> monitor" where
  "pop_state self = self\<lparr>mo_state := butlast (mo_state self)\<rparr>"

definition push_state :: "monitor \<Rightarrow> circuit_state \<Rightarrow> monitor" where
  "push_state self s = self\<lparr>mo_state := mo_state self @ [s]\<rparr>"

definition reject :: "monitor \<Rightarrow> string \<Rightarrow> verdict" where
  "reject self msg = (Some (InvalidEvent msg), self)"

definition monitor_clock_start :: "monitor \<Rightarrow> graph_node \<Rightarrow> circuit_state \<Rightarrow> verdict" where
  "monitor_clock_start self node state =
     (if \<not> gn_is_iterative node then
        reject self ''received 'ClockStart' event for a non-iterative circuit''
      else if \<not> is_idle state then
        reject self (''received 'ClockStart' event in state '' @ state_name state)
      else (None, set_current_state self Running))"

definition monitor_clock_end :: "monitor \<Rightarrow> circuit_state \<Rightarrow> verdict" where
  "monitor_clock_end self state =
     (if \<not> is_running state then
        reject self (''received 'ClockEnd' event in state '' @ state_name state)
      else (None, pop_state self))"

definition wrong_circuit :: "string \<Rightarrow> global_node_id \<Rightarrow> global_node_id \<Rightarrow> string" where
  "wrong_circuit what circuit_id current =
     what @ ''for node '' @ display_gid circuit_id @
     '' while evaluating node '' @ display_gid current"

definition monitor_step_start ::
  "monitor \<Rightarrow> global_node_id \<Rightarrow> global_node_id \<Rightarrow> circuit_state \<Rightarrow> verdict res" where
  "monitor_step_start self circuit_id current state =
     (if circuit_id \<noteq> current then
        Inr (reject self (wrong_circuit ''received 'StepStart' event '' circuit_id current))
      else
        res_map (\<lambda>node.
            if gn_is_iterative node \<and> \<not> is_running state then
              reject self (''received 'StepStart' event in state '' @ state_name state @
                           '' of an iterative circuit'')
            else if \<not> gn_is_iterative node \<and> \<not> is_idle state then
              reject self (''received 'StepStart' event in state '' @ state_name state @
                           '' of a non-iterative subcircuit'')
            else (None, set_current_state self (Step [])))
          (unwrap (cg_node_ref (mo_circuit self) current)))"

definition monitor_step_end ::
  "monitor \<Rightarrow> global_node_id \<Rightarrow> global_node_id \<Rightarrow> circuit_state \<Rightarrow> verdict res" where
  "monitor_step_end self circuit_id current state =
     (if circuit_id \<noteq> current then
        Inr (reject self (wrong_circuit ''received 'StepEnd' event '' circuit_id current))
      else
        case state of
          Step visited \<Rightarrow>
            res_bind (unwrap (cg_node_ref (mo_circuit self) current)) (\<lambda>node.
            res_map (\<lambda>children.
                if length visited \<noteq> length children then
                  reject self (''received 'StepEnd' event after evaluating '' @
                    display_nat (length visited) @ '' nodes instead of the expected '' @
                    display_nat (length children))
                else if gn_is_iterative node then (None, set_current_state self Running)
                else (None, pop_state self))
              (unwrap (gn_children node)))
        | _ \<Rightarrow> Inr (reject self (''received 'StepEnd' event in state '' @ state_name state)))"

text \<open>
  The state is taken off the stack first and put back on the last branch only; the two errors
  found in a \<open>Step\<close> state leave the stack without it.
\<close>

definition monitor_eval_start :: "monitor \<Rightarrow> global_node_id \<Rightarrow> circuit_state \<Rightarrow> verdict res" where
  "monitor_eval_start self global_id state =
     res_bind (unwrap (local_node_id global_id)) (\<lambda>local_id.
     let self = pop_state self
     in case state of
          Step visited \<Rightarrow>
            if local_id \<in> set visited then
              Inr (reject self (''node id '' @ display_node_id local_id @
                                '' evaluated twice in one clock cycle''))
            else
              (case cg_node_ref (mo_circuit self) global_id of
                 None \<Rightarrow> Inr (Some (UnknownNode global_id), self)
               | Some cnode \<Rightarrow>
                   if gn_is_strict_input cnode \<and> the (gn_output_id cnode) \<notin> set visited then
                     Inr (reject self (''input node '' @ display_node_id local_id @
                       '' of a strict operator is evaluated before the output node '' @
                       display_node_id (the (gn_output_id cnode))))
                   else if gn_is_circuit cnode then
                     Inr (None, push_state (push_state self (Eval visited local_id)) Idle)
                   else Inr (None, push_state self (Eval visited local_id)))
        | _ \<Rightarrow>
            Inr (Some (InvalidEvent (''received 'EvalStart' event in state '' @ state_name state)),
                 push_state self state))"

definition monitor_eval_end :: "monitor \<Rightarrow> global_node_id \<Rightarrow> circuit_state \<Rightarrow> verdict res" where
  "monitor_eval_end self global_id state =
     (case state of
        Eval visited eval_node_id \<Rightarrow>
          res_map (\<lambda>local_id.
              if eval_node_id \<noteq> local_id then
                reject self (''received 'EvalEnd' event for node id '' @ display_node_id local_id @
                  '' while evaluating node '' @ display_node_id eval_node_id)
              else (None, set_current_state self (Step (List.insert eval_node_id visited))))
            (unwrap (local_node_id global_id))
      | _ \<Rightarrow> Inr (reject self (''received 'EvalEnd' event in state '' @ state_name state)))"

definition monitor_wait ::
  "monitor \<Rightarrow> string \<Rightarrow> global_node_id \<Rightarrow> global_node_id \<Rightarrow> verdict" where
  "monitor_wait self what circuit_id current =
     (if circuit_id \<noteq> current then reject self (wrong_circuit what circuit_id current)
      else (None, self))"

definition monitor_scheduler_event :: "monitor \<Rightarrow> scheduler_event \<Rightarrow> verdict res" where
  "monitor_scheduler_event self event =
     (if mo_state self = [] then
        Inr (reject self
          ''scheduler event received after circuit execution has terminated'')
      else
        let current = current_node_id (mo_state self);
            state = last (mo_state self)
        in case event of
             ClockStart \<Rightarrow>
               res_map (\<lambda>node. monitor_clock_start self node state)
                 (unwrap (cg_node_ref (mo_circuit self) current))
           | ClockEnd \<Rightarrow> Inr (monitor_clock_end self state)
           | StepStart circuit_id \<Rightarrow> monitor_step_start self circuit_id current state
           | StepEnd circuit_id \<Rightarrow> monitor_step_end self circuit_id current state
           | EvalStart node \<Rightarrow> monitor_eval_start self node state
           | EvalEnd node \<Rightarrow> monitor_eval_end self node state
           | WaitStart circuit_id \<Rightarrow> Inr (monitor_wait self ''received 'WaitStart' event '' circuit_id current)
           | WaitEnd circuit_id \<Rightarrow> Inr (monitor_wait self ''received 'WaitEnd' event '' circuit_id current))"

text \<open>
  A monitor built by \<^verbatim>\<open>new_panic_on_error\<close> panics at the first error: it accepts a sequence of
  events when it reports none.
\<close>

fun accepts :: "monitor \<Rightarrow> scheduler_event list \<Rightarrow> monitor \<Rightarrow> bool" where
  "accepts m [] m' \<longleftrightarrow> m' = m"
| "accepts m (e # es) m' \<longleftrightarrow>
     (case monitor_scheduler_event m e of
        Inr (None, m1) \<Rightarrow> accepts m1 es m'
      | _ \<Rightarrow> False)"

lemma accepts_append: "accepts m (es @ fs) m' \<longleftrightarrow> (\<exists>m1. accepts m es m1 \<and> accepts m1 fs m')"
  by (induction es arbitrary: m) (auto split: sum.splits prod.splits option.splits)

end
