(* ===== verification/Schedule_Monitor.thy ===== *)
theory Schedule_Monitor
  imports Schedule_Theorems Trace_Monitor
begin

text \<open>
  The trace monitor accepts what the schedulers log.  The monitor holds the graph of the circuit;
  its stack has one \<open>Eval\<close> frame per circuit around the one that is running.
\<close>

section \<open>The stack of the monitor\<close>

definition eval_frames :: "(node_id list \<times> node_id) list \<Rightarrow> circuit_state list" where
  "eval_frames fs = map (\<lambda>(visited, i). Eval visited i) fs"

lemma current_node_id_frames [simp]:
  "(\<And>v i. s \<noteq> Eval v i) \<Longrightarrow> current_node_id (eval_frames fs @ [s]) = map snd fs"
  "current_node_id (eval_frames fs) = map snd fs"
  by (induction fs) (auto simp: eval_frames_def split: prod.splits, cases s, auto)

definition on_top :: "monitor \<Rightarrow> (node_id list \<times> node_id) list \<Rightarrow> circuit_state list \<Rightarrow> monitor" where
  "on_top m fs ss = m\<lparr>mo_state := eval_frames fs @ ss\<rparr>"

lemma on_top_simps [simp]:
  "mo_state (on_top m fs ss) = eval_frames fs @ ss" "mo_circuit (on_top m fs ss) = mo_circuit m"
  "set_current_state (on_top m fs [s]) s' = on_top m fs [s']"
  "pop_state (on_top m fs [s]) = on_top m fs []"
  "push_state (on_top m fs ss) s = on_top m fs (ss @ [s])"
  "on_top m (fs @ [(v, i)]) ss = on_top m fs (Eval v i # ss)"
  by (simp_all add: on_top_def set_current_state_def pop_state_def push_state_def eval_frames_def)

text \<open>
  The node of the graph the monitor holds for the circuit \<open>c\<close>: its children are the nodes of the
  circuit, and the input half of a strict operator depends on its output half.
\<close>

definition describes :: "monitor \<Rightarrow> ('c, 'z) circuit_ops_scheme \<Rightarrow> bool \<Rightarrow> (node_id \<times> graph_node) list \<Rightarrow> bool" where
  "describes m c iterative children \<longleftrightarrow>
     (\<exists>node region. cg_node_ref (mo_circuit m) (co_global_id c) = Some node \<and>
        gn_kind node = KCircuit iterative children region) \<and>
     distinct (map fst children) \<and> set (map fst children) = {..<num_nodes c} \<and>
     (\<forall>i child out. map_of children i = Some child \<longrightarrow> gn_kind child = KStrictInput out \<longrightarrow>
        (\<exists>e\<in>set (co_edges c). e_from e = out \<and> e_to e = i))"

lemma node_ref_child:
  "node_ref n p = Some node \<Longrightarrow> gn_kind node = KCircuit it ch rg \<Longrightarrow>
   node_ref n (p @ [i]) = map_of ch i"
  by (induction n p rule: node_ref.induct) (auto split: node_kind.splits option.splits)

lemma describes_child:
  assumes "describes m c it ch"
  shows "cg_node_ref (mo_circuit m) (gid_child (co_global_id c) i) = map_of ch i"
  using assms node_ref_child by (fastforce simp: describes_def cg_node_ref_def gid_child_def)

text \<open>
  Evaluating an operator logs nothing of its own; evaluating a subcircuit logs events that the
  monitor accepts from the initial state of its automaton, which they leave terminated.
\<close>

definition nested_accepted ::
  "monitor \<Rightarrow> ('c, 'z) circuit_ops_scheme \<Rightarrow> (node_id \<times> graph_node) list \<Rightarrow> bool" where
  "nested_accepted m c children \<longleftrightarrow>
     (\<forall>circuit i evs circuit' child. co_eval c circuit i = Inr (None, evs, circuit') \<longrightarrow>
        map_of children i = Some child \<longrightarrow>
        (if gn_is_circuit child
         then \<forall>fs. map snd fs = gid_child (co_global_id c) i \<longrightarrow>
                accepts (on_top m fs [Idle]) evs (on_top m fs [])
         else evs = []))"

section \<open>A step\<close>

lemma eval_accepted:
  assumes d: "describes m c it ch" and nest: "nested_accepted m c ch"
    and fs: "map snd fs = co_global_id c" and i: "i < num_nodes c" "i \<notin> set vis"
    and out: "\<And>child out. map_of ch i = Some child \<Longrightarrow> gn_kind child = KStrictInput out \<Longrightarrow> out \<in> set vis"
    and e: "co_eval c circuit i = Inr (None, evs, circuit')"
  shows "accepts (on_top m fs [Step vis])
    ([EvalStart (gid_child (co_global_id c) i)] @ evs @ [EvalEnd (gid_child (co_global_id c) i)])
    (on_top m fs [Step (List.insert i vis)])"
proof -
  have "i \<in> set (map fst ch)" using d i(1) by (simp add: describes_def)
  then obtain child where child: "map_of ch i = Some child" by (metis map_of_eq_None_iff not_None_eq list.set_map)
  have ref: "cg_node_ref (mo_circuit m) (gid_child (co_global_id c) i) = Some child"
    using describes_child [OF d] child by simp
  have strict: "\<not> (gn_is_strict_input child \<and> the (gn_output_id child) \<notin> set vis)"
    using out [OF child] by (auto simp: gn_is_strict_input_def gn_output_id_def split: node_kind.splits)
  let ?top = "on_top m (fs @ [(vis, i)]) (if gn_is_circuit child then [Idle] else [])"
  have start: "monitor_scheduler_event (on_top m fs [Step vis]) (EvalStart (gid_child (co_global_id c) i)) =
      Inr (None, ?top)"
    using ref strict i(2) by (auto simp: monitor_scheduler_event_def monitor_eval_start_def Let_def)
  have finish: "monitor_scheduler_event (on_top m (fs @ [(vis, i)]) []) (EvalEnd (gid_child (co_global_id c) i)) =
      Inr (None, on_top m fs [Step (List.insert i vis)])"
    by (simp add: monitor_scheduler_event_def monitor_eval_end_def Let_def)
  have path: "map snd (fs @ [(vis, i)]) = gid_child (co_global_id c) i" using fs by (simp add: gid_child_def)
  note law = nest [unfolded nested_accepted_def, THEN spec, THEN spec, THEN spec, THEN spec, THEN spec,
      THEN mp, THEN mp, OF e child]
  have "accepts ?top evs (on_top m (fs @ [(vis, i)]) [])"
  proof (cases "gn_is_circuit child")
    case True
    then show ?thesis using law path by (simp del: on_top_simps)
  next
    case False
    then show ?thesis using law by simp
  qed
  then have "accepts ?top (evs @ [EvalEnd (gid_child (co_global_id c) i)]) (on_top m fs [Step (List.insert i vis)])"
    using finish unfolding accepts_append by (auto intro!: exI)
  then show ?thesis using start by simp
qed

lemma step_log_accepted:
  assumes d: "describes m c it ch" and nest: "nested_accepted m c ch"
    and fs: "map snd fs = co_global_id c" and log: "step_log c l xs"
    and G: "\<And>a b. (\<exists>e\<in>set (co_edges c). e_from e = a \<and> e_to e = b) \<Longrightarrow> a < tg_n G \<and> b \<in> set (tg_succ G a)"
  shows "valid_order G xs \<Longrightarrow>
    \<exists>vis. accepts (on_top m fs [if it then Running else Idle]) l (on_top m fs [Step vis]) \<and>
      set vis = set xs \<and> distinct vis"
  using log
proof (induction rule: step_log.induct)
  case start
  obtain node region where "cg_node_ref (mo_circuit m) (co_global_id c) = Some node"
      "gn_kind node = KCircuit it ch region"
    using d by (auto simp: describes_def)
  then show ?case
    using fs by (auto simp: monitor_scheduler_event_def monitor_step_start_def Let_def
      gn_is_iterative_def is_running_def is_idle_def intro!: exI [of _ "[]"])
next
  case (wait_start l xs)
  then obtain vis where "accepts (on_top m fs [if it then Running else Idle]) l (on_top m fs [Step vis])"
      "set vis = set xs" "distinct vis" by auto
  then show ?case
    using fs by (auto simp: accepts_append monitor_scheduler_event_def monitor_wait_def Let_def
      intro!: exI [of _ vis])
next
  case (wait_end l xs)
  then obtain vis where "accepts (on_top m fs [if it then Running else Idle]) l (on_top m fs [Step vis])"
      "set vis = set xs" "distinct vis" by auto
  then show ?case
    using fs by (auto simp: accepts_append monitor_scheduler_event_def monitor_wait_def Let_def
      intro!: exI [of _ vis])
next
  case (eval l xs i circuit evs circuit')
  have v: "valid_order G xs" "i \<notin> set xs" and pred: "\<And>j. j < tg_n G \<Longrightarrow> i \<in> set (tg_succ G j) \<Longrightarrow> j \<in> set xs"
    using eval.prems valid_order_prefix [of G xs "[i]"]
    by (auto simp: valid_order_def nth_append dest: spec [of _ "length xs"])
  obtain vis where vis: "accepts (on_top m fs [if it then Running else Idle]) l (on_top m fs [Step vis])"
      "set vis = set xs" "distinct vis" using eval.IH [OF v(1)] by auto
  have "accepts (on_top m fs [Step vis])
    ([EvalStart (gid_child (co_global_id c) i)] @ evs @ [EvalEnd (gid_child (co_global_id c) i)])
    (on_top m fs [Step (List.insert i vis)])"
  proof (rule eval_accepted [OF d nest fs eval.hyps(2) _ _ eval.hyps(3)])
    show "out \<in> set vis" if "map_of ch i = Some child" "gn_kind child = KStrictInput out" for child out
      using d that G [of out i] pred [of out] vis(2) by (fastforce simp: describes_def)
  qed (use v(2) vis(2) in auto)
  then show ?case using vis by (intro exI [of _ "List.insert i vis"]) (auto simp: accepts_append)
qed

lemma schedule_accepted:
  assumes d: "describes m c it ch" and nest: "nested_accepted m c ch"
    and fs: "map snd fs = co_global_id c" and n: "num_nodes c = tg_n G"
    and ok: "schedule_ok G c Finished log xs"
    and G: "\<And>a b. (\<exists>e\<in>set (co_edges c). e_from e = a \<and> e_to e = b) \<Longrightarrow> a < tg_n G \<and> b \<in> set (tg_succ G a)"
  shows "accepts (on_top m fs [if it then Running else Idle]) log
    (on_top m fs (if it then [Running] else []))"
proof -
  obtain l where l: "log = l @ [StepEnd (co_global_id c)]" "step_log c l xs" "valid_order G xs"
      "set xs = {..<tg_n G}"
    using ok by (auto simp: schedule_ok_def)
  obtain vis where vis: "accepts (on_top m fs [if it then Running else Idle]) l (on_top m fs [Step vis])"
      "set vis = set xs" "distinct vis"
    using step_log_accepted [OF d nest fs l(2) G l(3)] by blast
  obtain node region where node: "cg_node_ref (mo_circuit m) (co_global_id c) = Some node"
      "gn_kind node = KCircuit it ch region" and ch: "distinct (map fst ch)" "set (map fst ch) = {..<num_nodes c}"
    using d by (auto simp: describes_def)
  have "length vis = length ch"
    using vis(2,3) l(4) n ch distinct_card [of vis] distinct_card [of "map fst ch"] by simp
  then have "monitor_scheduler_event (on_top m fs [Step vis]) (StepEnd (co_global_id c)) =
      Inr (None, on_top m fs (if it then [Running] else []))"
    using node fs by (simp add: monitor_scheduler_event_def monitor_step_end_def Let_def
      gn_children_def gn_is_iterative_def)
  then show ?thesis using vis(1) l(1) by (auto simp: accepts_append)
qed

text \<open>
  An iterative circuit run to termination: the events of its executor take its automaton from idle
  to terminated, which is what \<open>nested_accepted\<close> asks of a subcircuit.
\<close>

lemma iterate_loop_accepted:
  assumes step: "\<And>circuit evs circuit'. step circuit = (None, evs, circuit') \<Longrightarrow>
      accepts (on_top m fs [Running]) evs (on_top m fs [Running])"
  shows "iterate_loop step check n circuit = Some (None, evs, circuit') \<Longrightarrow>
    accepts (on_top m fs [Running]) evs (on_top m fs [Running])"
proof (induction n arbitrary: circuit evs)
  case (Suc n)
  obtain evs1 circuit1 where s: "step circuit = (None, evs1, circuit1)"
    using Suc.prems by (auto split: prod.splits option.splits)
  show ?case
  proof (cases "check circuit1")
    case (Inr stop)
    then show ?thesis
      using Suc s step [OF s] by (cases stop) (auto simp: accepts_append intro!: exI)
  qed (use Suc.prems s in auto)
qed simp

lemma iterative_executor_accepted:
  assumes step: "\<And>circuit evs circuit'. step circuit = (None, evs, circuit') \<Longrightarrow>
      accepts (on_top m fs [Running]) evs (on_top m fs [Running])"
    and ref: "cg_node_ref (mo_circuit m) (map snd fs) = Some node" "gn_is_iterative node"
    and run: "iterative_executor_run clock_start clock_end step check n circuit = Some (None, evs, circuit')"
  shows "accepts (on_top m fs [Idle]) evs (on_top m fs [])"
proof -
  obtain evs1 circuit1 where loop: "iterate_loop step check n (clock_start circuit) = Some (None, evs1, circuit1)"
      and evs: "evs = [ClockStart] @ evs1 @ [ClockEnd]"
    using run by (auto simp: iterative_executor_run_def split: option.splits prod.splits)
  have "monitor_scheduler_event (on_top m fs [Idle]) ClockStart = Inr (None, on_top m fs [Running])"
    using ref by (simp add: monitor_scheduler_event_def monitor_clock_start_def Let_def is_idle_def)
  moreover have "monitor_scheduler_event (on_top m fs [Running]) ClockEnd = Inr (None, on_top m fs [])"
    by (simp add: monitor_scheduler_event_def monitor_clock_end_def Let_def is_running_def)
  moreover have "accepts (on_top m fs [Running]) evs1 (on_top m fs [Running])"
    using loop by (rule iterate_loop_accepted [rotated]) (rule step)
  ultimately show ?thesis unfolding evs accepts_append by (auto intro!: exI)
qed

section \<open>Theorems\<close>

lemma graph_of_edge:
  assumes "circuit_wf c" "e \<in> set (co_edges c)"
  shows "e_from e < tg_n (graph_of c extra) \<and> e_to e \<in> set (tg_succ (graph_of c extra) (e_from e))"
  using assms by (force simp: graph_of_def circuit_wf_def all_edges_def)

text \<open>
  C7. The trace monitor accepts the schedulers.  When the monitor holds the graph of a circuit and
  accepts what the subcircuits log, it accepts the events of every finished step of the dynamic and
  of the static scheduler, whatever the other threads did meanwhile, and is then ready for the next
  step (or, for a circuit that is not iterative, done with it).
\<close>

theorem monitor_accepts_schedulers:
  assumes "priority_queue qo items" "topological_sort toposort" "\<And>m. mset (iter_order m) = mset m"
    and "circuit_wf c" "eval_returns c"
    and "describes m c iterative children" "nested_accepted m c children"
    and "map snd fs = co_global_id c"
    and "before = on_top m fs [if iterative then Running else Idle]"
    and "after = on_top m fs (if iterative then [Running] else [])"
  shows "(\<forall>inner circuit token st0 evs st. reachable qo toposort iter_order c inner \<longrightarrow>
      (\<forall>ev\<in>set evs. env_wf c ev) \<longrightarrow> dynamic_start qo c inner circuit token = Inr st0 \<longrightarrow>
      dynamic_run qo c evs st0 = Inr st \<longrightarrow> ss_phase st = Finished \<longrightarrow>
      accepts before (ss_log st) after) \<and>
    (\<forall>schedule circuit evs st. static_prepare toposort iter_order c = Inr schedule \<longrightarrow>
      static_run c evs (static_start c schedule circuit) = Inr st \<longrightarrow> st_phase st = Finished \<longrightarrow>
      accepts before (st_log st) after)"
proof -
  have acc: "accepts before log after" if "schedule_ok (graph_of c extra) c Finished log xs" for log xs extra
    unfolding assms(9,10)
  proof (rule schedule_accepted [OF assms(6-8) _ that])
    show "a < tg_n (graph_of c extra) \<and> b \<in> set (tg_succ (graph_of c extra) a)"
      if "\<exists>e\<in>set (co_edges c). e_from e = a \<and> e_to e = b" for a b
      using that graph_of_edge [OF assms(4)] by blast
  qed (simp add: graph_of_def)
  have dyn: "accepts before (ss_log st) after"
    if h: "reachable qo toposort iter_order c inner" "\<forall>ev\<in>set evs. env_wf c ev"
      "dynamic_start qo c inner circuit token = Inr st0" "dynamic_run qo c evs st0 = Inr st"
      "ss_phase st = Finished" for inner circuit token st0 evs st
  proof -
    obtain extra where extra: "rest_inv (graph_of c extra) items inner" "graph_closed (graph_of c extra)"
      using reachable_rest_inv [OF assms(1-5) h(1)] by blast
    have n: "num_nodes c = tg_n (graph_of c extra)" by (simp add: graph_of_def)
    have "run_inv (graph_of c extra) items c st0 []"
      using dynamic_start_inv [OF assms(1) extra(1), of c circuit token] h(3) by auto
    then obtain xs where "run_inv (graph_of c extra) items c st xs"
      using dynamic_run_inv [OF assms(1) extra(2) n assms(5), of st0 "[]" evs] h(2,4) by auto
    then show ?thesis using run_inv_schedule_ok h(5) acc by metis
  qed
  have stat: "accepts before (st_log st) after"
    if "static_prepare toposort iter_order c = Inr schedule"
      "static_run c evs (static_start c schedule circuit) = Inr st" "st_phase st = Finished"
    for schedule circuit evs st
    using static_schedule_ok [OF assms(4,5,3,2) that(1), of evs circuit] that(2,3) acc
    by (metis sum.inject(2))
  show ?thesis using dyn stat by blast
qed

text \<open>The monitor after the construction of the sample circuit.\<close>

fun feed :: "monitor \<Rightarrow> circuit_event list \<Rightarrow> monitor option" where
  "feed m [] = Some m"
| "feed m (e # es) =
     (case monitor_circuit_event m e of
        Inr (None, m') \<Rightarrow> feed m' es
      | _ \<Rightarrow> None)"

definition sample_children :: "(node_id \<times> graph_node) list" where
  "sample_children = map (\<lambda>i. (i, GNode [i] ''op'' None [] KOperator)) [0, 1, 2, 3]"

definition sample_monitor :: monitor where
  "sample_monitor =
     the (feed monitor_new (map (\<lambda>i. OperatorEvent [i] ''op'' None) [0, 1, 2, 3]))"

lemma sample_monitor_facts:
  "describes sample_monitor sample_circuit True sample_children"
  "nested_accepted sample_monitor sample_circuit sample_children"
proof -
  have "cg_node_ref (mo_circuit sample_monitor) [] =
      Some (GNode [] ''root'' None [] (KCircuit True sample_children (Region [] [0, 1, 2, 3] ''root'' None [])))"
    by code_simp
  then show "describes sample_monitor sample_circuit True sample_children"
    by (auto simp: describes_def sample_circuit_def sample_children_def num_nodes_def split: if_splits)
  show "nested_accepted sample_monitor sample_circuit sample_children"
    by (auto simp: nested_accepted_def sample_circuit_def sample_children_def gn_is_circuit_def split: if_splits)
qed

theorem monitor_accepts_schedulers_witness:
  "\<exists>st0 st. dynamic_start list_queue sample_circuit sample_inner [] False = Inr st0 \<and>
    dynamic_run list_queue sample_circuit (map sample_env [0..<10]) st0 = Inr st \<and>
    accepts (on_top sample_monitor [] [Running]) (ss_log st) (on_top sample_monitor [] [Running])"
proof -
  have id: "mset (id m) = mset m" for m :: successor_map by simp
  have fs: "map snd [] = co_global_id sample_circuit" by (simp add: sample_circuit_def)
  have "(case dynamic_start list_queue sample_circuit sample_inner [] False of
        Inl _ \<Rightarrow> None
      | Inr st0 \<Rightarrow>
          (case dynamic_run list_queue sample_circuit (map sample_env [0..<10]) st0 of
             Inl _ \<Rightarrow> None
           | Inr st \<Rightarrow> Some (ss_phase st))) = Some Finished"
    unfolding sample_inner_def sample_circuit_def sample_edge_def list_queue_def sample_env_def
    by code_simp
  then obtain st0 st where st: "dynamic_start list_queue sample_circuit sample_inner [] False = Inr st0"
      "dynamic_run list_queue sample_circuit (map sample_env [0..<10]) st0 = Inr st" "ss_phase st = Finished"
    by (auto split: sum.splits)
  have env: "\<forall>ev\<in>set (map sample_env [0..<10]). env_wf sample_circuit ev"
    using sample_facts(5) by auto
  note accepted = monitor_accepts_schedulers [OF list_queue_priority_queue index_sort_topological id
      sample_facts(1,3) sample_monitor_facts fs refl refl]
  have "accepts (on_top sample_monitor [] [if True then Running else Idle]) (ss_log st)
      (on_top sample_monitor [] (if True then [Running] else []))"
    using conjunct1 [OF accepted] sample_facts(4) env st by blast
  then show ?thesis using st by auto
qed

text \<open>
  C40. A node evaluated twice makes the monitor forget the step.  The monitor takes the state of the
  automaton off its stack before it checks the event and does not put it back on this error: after
  the report, at the root circuit, it takes the execution for terminated and answers every
  further event with an error of its own.
\<close>

theorem monitor_loses_step:
  assumes "mo_state m = [Step visited]" "i \<in> set visited"
  shows "\<exists>e m'. monitor_scheduler_event m (EvalStart [i]) = Inr (Some e, m') \<and> mo_state m' = [] \<and>
    (\<forall>event. monitor_scheduler_event m' event =
       Inr (Some (InvalidEvent ''scheduler event received after circuit execution has terminated''), m'))"
  using assms
  by (simp add: monitor_scheduler_event_def monitor_eval_start_def local_node_id_def Let_def
    pop_state_def reject_def)

theorem monitor_loses_step_witness:
  "\<exists>e m'. monitor_scheduler_event (sample_monitor\<lparr>mo_state := [Step [0]]\<rparr>) (EvalStart [0]) =
      Inr (Some e, m') \<and> mo_state m' = []"
  using monitor_loses_step [of "sample_monitor\<lparr>mo_state := [Step [0]]\<rparr>" "[0]" 0] by auto

end
