(* ===== verification/Circuit_Nodes.thy ===== *)
theory Circuit_Nodes
  imports Scheduler
begin

text \<open>
  Streams and nodes of a circuit (\<^verbatim>\<open>crates/dbsp/src/circuit/circuit_builder.rs\<close>,
  \<^verbatim>\<open>circuit/operator_traits.rs\<close>).  A stream is a shared cell with one value, the number of its
  consumers and the number of consumers that have yet to read in the current clock cycle (tokens);
  the consumer that takes the last token gets the value itself, the others a reference.

  The cells shared by \<^verbatim>\<open>Rc<UnsafeCell<_>>\<close> live in an explicit store: cells of streams, and the
  states of operators (the two halves of a feedback node share one).  Values of all streams have
  one type \<^typ>\<open>'d\<close> and states of all operators one type \<^typ>\<open>'s\<close>.  An operator is a table of the
  methods of its trait, in which a method of \<^verbatim>\<open>&mut self\<close> maps the state to a result and the new state.
\<close>

section \<open>Streams\<close>

record 'd stream_value =
  sv_val :: "'d option"
  sv_consumers :: nat
  sv_tokens :: nat

definition sv_empty :: "'d stream_value" where
  "sv_empty = \<lparr>sv_val = None, sv_consumers = 0, sv_tokens = 0\<rparr>"

datatype 'd cow =
    Owned 'd
  | Borrowed 'd

fun cow_value :: "'d cow \<Rightarrow> 'd" where
  "cow_value (Owned d) = d"
| "cow_value (Borrowed d) = d"

text \<open>A handle of a stream; its circuit is named by the global id of the circuit.\<close>

record stream =
  st_local_node_id :: node_id
  st_origin_node_id :: global_node_id
  st_circuit :: global_node_id
  st_val :: nat

definition stream_ptr_eq :: "stream \<Rightarrow> stream \<Rightarrow> bool" where
  "stream_ptr_eq self other \<longleftrightarrow> st_origin_node_id self = st_origin_node_id other"

record ('s, 'd) store =
  so_streams :: "'d stream_value list"
  so_operators :: "'s list"

definition sv_take :: "'d stream_value \<Rightarrow> ('d cow \<times> 'd stream_value) res" where
  "sv_take v =
     (if sv_tokens v = 0 then Inl DebugAssert
      else let v = v\<lparr>sv_tokens := sv_tokens v - 1\<rparr> in
        if sv_tokens v = 0
        then res_map (\<lambda>d. (Owned d, v\<lparr>sv_val := None\<rparr>)) (unwrap (sv_val v))
        else res_map (\<lambda>d. (Borrowed d, v)) (unwrap (sv_val v)))"

definition sv_peek :: "'d stream_value \<Rightarrow> 'd res" where
  "sv_peek v = (if sv_tokens v = 0 then Inl DebugAssert else unwrap (sv_val v))"

definition sv_put :: "'d \<Rightarrow> 'd stream_value \<Rightarrow> 'd stream_value" where
  "sv_put d v =
     (if 0 < sv_consumers v then v\<lparr>sv_tokens := sv_consumers v, sv_val := Some d\<rparr> else v)"

definition stream_cell :: "stream \<Rightarrow> ('s, 'd) store \<Rightarrow> 'd stream_value" where
  "stream_cell st so = so_streams so ! st_val st"

definition set_cell :: "stream \<Rightarrow> 'd stream_value \<Rightarrow> ('s, 'd) store \<Rightarrow> ('s, 'd) store" where
  "set_cell st v so = so\<lparr>so_streams := (so_streams so)[st_val st := v]\<rparr>"

definition stream_take :: "stream \<Rightarrow> ('s, 'd) store \<Rightarrow> ('d cow \<times> ('s, 'd) store) res" where
  "stream_take st so = res_map (\<lambda>(c, v). (c, set_cell st v so)) (sv_take (stream_cell st so))"

definition stream_peek :: "stream \<Rightarrow> ('s, 'd) store \<Rightarrow> 'd res" where
  "stream_peek st so = sv_peek (stream_cell st so)"

definition stream_put :: "stream \<Rightarrow> 'd \<Rightarrow> ('s, 'd) store \<Rightarrow> ('s, 'd) store" where
  "stream_put st d so = set_cell st (sv_put d (stream_cell st so)) so"

section \<open>Operators\<close>

text \<open>
  The methods every operator has, and the traits that extend them.  An n-ary operator gets an iterator;
  the operators of the repository draw all its elements before they compute, so the table takes
  the list.
\<close>

record 's operator =
  op_name :: string
  op_location :: operator_location
  op_is_async :: bool
  op_ready :: "'s \<Rightarrow> bool"
  op_clock_start :: "scope \<Rightarrow> 's \<Rightarrow> 's"
  op_clock_end :: "scope \<Rightarrow> 's \<Rightarrow> 's"
  op_fixedpoint :: "scope \<Rightarrow> 's \<Rightarrow> bool res"

record ('s, 'd) source_operator = "'s operator" +
  src_eval :: "'s \<Rightarrow> ('d \<times> 's) res"

record ('s, 'd) sink_operator = "'s operator" +
  snk_eval :: "'d \<Rightarrow> 's \<Rightarrow> 's res"
  snk_eval_owned :: "'d \<Rightarrow> 's \<Rightarrow> 's res"
  snk_input_preference :: ownership_preference

record ('s, 'd) unary_operator = "'s operator" +
  un_eval :: "'d \<Rightarrow> 's \<Rightarrow> ('d \<times> 's) res"
  un_eval_owned :: "'d \<Rightarrow> 's \<Rightarrow> ('d \<times> 's) res"
  un_input_preference :: ownership_preference

record ('s, 'd) binary_operator = "'s operator" +
  bin_eval :: "'d \<Rightarrow> 'd \<Rightarrow> 's \<Rightarrow> ('d \<times> 's) res"
  bin_eval_owned :: "'d \<Rightarrow> 'd \<Rightarrow> 's \<Rightarrow> ('d \<times> 's) res"
  bin_eval_owned_and_ref :: "'d \<Rightarrow> 'd \<Rightarrow> 's \<Rightarrow> ('d \<times> 's) res"
  bin_eval_ref_and_owned :: "'d \<Rightarrow> 'd \<Rightarrow> 's \<Rightarrow> ('d \<times> 's) res"
  bin_input_preference :: "ownership_preference \<times> ownership_preference"

record ('s, 'd) ternary_operator = "'s operator" +
  ter_eval :: "'d cow \<Rightarrow> 'd cow \<Rightarrow> 'd cow \<Rightarrow> 's \<Rightarrow> ('d \<times> 's) res"
  ter_input_preference :: "ownership_preference \<times> ownership_preference \<times> ownership_preference"

record ('s, 'd) quaternary_operator = "'s operator" +
  qua_eval :: "'d cow \<Rightarrow> 'd cow \<Rightarrow> 'd cow \<Rightarrow> 'd cow \<Rightarrow> 's \<Rightarrow> ('d \<times> 's) res"
  qua_input_preference ::
    "ownership_preference \<times> ownership_preference \<times> ownership_preference \<times> ownership_preference"

record ('s, 'd) nary_operator = "'s operator" +
  nar_eval :: "'d cow list \<Rightarrow> 's \<Rightarrow> ('d \<times> 's) res"
  nar_input_preference :: ownership_preference

record ('s, 'd) strict_unary_operator = "'s operator" +
  str_get_output :: "'s \<Rightarrow> ('d \<times> 's) res"
  str_get_final_output :: "'s \<Rightarrow> ('d \<times> 's) res"
  str_eval_strict :: "'d \<Rightarrow> 's \<Rightarrow> 's res"
  str_eval_strict_owned :: "'d \<Rightarrow> 's \<Rightarrow> 's res"
  str_input_preference :: ownership_preference

record ('s, 'd) import_operator = "'s operator" +
  imp_import :: "'d \<Rightarrow> 's \<Rightarrow> 's"
  imp_import_owned :: "'d \<Rightarrow> 's \<Rightarrow> 's"
  imp_eval :: "'s \<Rightarrow> ('d \<times> 's) res"
  imp_input_preference :: ownership_preference

text \<open>Call of a method on the operator at an address.\<close>

definition call_operator ::
  "nat \<Rightarrow> ('s \<Rightarrow> ('a \<times> 's) res) \<Rightarrow> ('s, 'd) store \<Rightarrow> ('a \<times> ('s, 'd) store) res" where
  "call_operator a f so =
     res_map (\<lambda>(r, s). (r, so\<lparr>so_operators := (so_operators so)[a := s]\<rparr>)) (f (so_operators so ! a))"

definition update_operator :: "nat \<Rightarrow> ('s \<Rightarrow> 's res) \<Rightarrow> ('s, 'd) store \<Rightarrow> ('s, 'd) store res" where
  "update_operator a f so =
     res_map (\<lambda>s. so\<lparr>so_operators := (so_operators so)[a := s]\<rparr>) (f (so_operators so ! a))"

section \<open>Nodes\<close>

text \<open>
  Every node has its global id, the methods of its operator, the address of the operator's state, and
  its streams.
\<close>

datatype ('s, 'd) node =
    SourceNode global_node_id "('s, 'd) source_operator" nat stream
  | UnaryNode global_node_id "('s, 'd) unary_operator" nat stream stream
  | SinkNode global_node_id "('s, 'd) sink_operator" nat stream
  | BinaryNode global_node_id "('s, 'd) binary_operator" nat stream stream stream bool
  | TernaryNode global_node_id "('s, 'd) ternary_operator" nat stream stream stream stream bool bool
  | QuaternaryNode global_node_id "('s, 'd) quaternary_operator" nat
      stream stream stream stream stream bool bool bool
  | NaryNode global_node_id "('s, 'd) nary_operator" nat "(stream \<times> bool) list" "nat list" stream
  | FeedbackOutputNode global_node_id "('s, 'd) strict_unary_operator" nat stream stream
  | FeedbackInputNode global_node_id "('s, 'd) strict_unary_operator" nat stream
  | ImportNode global_node_id "('s, 'd) import_operator" nat stream stream

fun global_id :: "('s, 'd) node \<Rightarrow> global_node_id" where
  "global_id (SourceNode g op a out) = g"
| "global_id (UnaryNode g op a i out) = g"
| "global_id (SinkNode g op a i) = g"
| "global_id (BinaryNode g op a i1 i2 out al) = g"
| "global_id (TernaryNode g op a i1 i2 i3 out al1 al2) = g"
| "global_id (QuaternaryNode g op a i1 i2 i3 i4 out al1 al2 al3) = g"
| "global_id (NaryNode g op a ins aliases out) = g"
| "global_id (FeedbackOutputNode g op a out export) = g"
| "global_id (FeedbackInputNode g op a i) = g"
| "global_id (ImportNode g op a parent out) = g"

definition local_id :: "('s, 'd) node \<Rightarrow> node_id res" where
  "local_id n = unwrap (local_node_id (global_id n))"

text \<open>Evaluation of a node.\<close>

definition peek_or_take ::
  "bool \<Rightarrow> stream \<Rightarrow> ('s, 'd) store \<Rightarrow> ('d cow \<times> ('s, 'd) store) res" where
  "peek_or_take alias st so =
     (if alias then res_map (\<lambda>d. (Borrowed d, so)) (stream_peek st so) else stream_take st so)"

fun read_inputs ::
  "(stream \<times> bool) list \<Rightarrow> ('s, 'd) store \<Rightarrow> ('d cow list \<times> ('s, 'd) store) res" where
  "read_inputs [] so = Inr ([], so)"
| "read_inputs ((st, alias) # sts) so =
     res_bind (peek_or_take alias st so) (\<lambda>(c, so).
       res_map (\<lambda>(cs, so). (c # cs, so)) (read_inputs sts so))"

fun take_aliases ::
  "(stream \<times> bool) list \<Rightarrow> nat list \<Rightarrow> ('s, 'd) store \<Rightarrow> ('s, 'd) store res" where
  "take_aliases ins [] so = Inr so"
| "take_aliases ins (i # is) so =
     (if length ins \<le> i then Inl IndexOutOfBounds
      else res_bind (stream_take (fst (ins ! i)) so) (\<lambda>(_, so). take_aliases ins is so))"

definition put_result ::
  "stream \<Rightarrow> ('d \<times> ('s, 'd) store) res \<Rightarrow> ('s, 'd) store res" where
  "put_result out r = res_map (\<lambda>(d, so). stream_put out d so) r"

fun eval_binary ::
  "('s, 'd) binary_operator \<Rightarrow> 'd cow \<Rightarrow> 'd cow \<Rightarrow> 's \<Rightarrow> ('d \<times> 's) res" where
  "eval_binary op (Owned v1) (Owned v2) = bin_eval_owned op v1 v2"
| "eval_binary op (Owned v1) (Borrowed v2) = bin_eval_owned_and_ref op v1 v2"
| "eval_binary op (Borrowed v1) (Owned v2) = bin_eval_ref_and_owned op v1 v2"
| "eval_binary op (Borrowed v1) (Borrowed v2) = bin_eval op v1 v2"

definition eval_unary :: "('s, 'd) unary_operator \<Rightarrow> 'd cow \<Rightarrow> 's \<Rightarrow> ('d \<times> 's) res" where
  "eval_unary op c = (case c of Owned v \<Rightarrow> un_eval_owned op v | Borrowed v \<Rightarrow> un_eval op v)"

definition eval_sink :: "('s, 'd) sink_operator \<Rightarrow> 'd cow \<Rightarrow> 's \<Rightarrow> 's res" where
  "eval_sink op c = (case c of Owned v \<Rightarrow> snk_eval_owned op v | Borrowed v \<Rightarrow> snk_eval op v)"

definition eval_strict :: "('s, 'd) strict_unary_operator \<Rightarrow> 'd cow \<Rightarrow> 's \<Rightarrow> 's res" where
  "eval_strict op c =
     (case c of Owned v \<Rightarrow> str_eval_strict_owned op v | Borrowed v \<Rightarrow> str_eval_strict op v)"

text \<open>One evaluation per kind of node, of the operator at address \<open>a\<close>.\<close>

definition source_node_eval ::
  "('s, 'd) source_operator \<Rightarrow> nat \<Rightarrow> stream \<Rightarrow> ('s, 'd) store \<Rightarrow> ('s, 'd) store res" where
  "source_node_eval op a out so = put_result out (call_operator a (src_eval op) so)"

definition unary_node_eval ::
  "('s, 'd) unary_operator \<Rightarrow> nat \<Rightarrow> stream \<Rightarrow> stream \<Rightarrow> ('s, 'd) store \<Rightarrow> ('s, 'd) store res" where
  "unary_node_eval op a i out so =
     res_bind (stream_take i so) (\<lambda>(c, so).
       put_result out (call_operator a (eval_unary op c) so))"

definition sink_node_eval ::
  "('s, 'd) sink_operator \<Rightarrow> nat \<Rightarrow> stream \<Rightarrow> ('s, 'd) store \<Rightarrow> ('s, 'd) store res" where
  "sink_node_eval op a i so =
     res_bind (stream_take i so) (\<lambda>(c, so). update_operator a (eval_sink op c) so)"

definition binary_node_eval ::
  "('s, 'd) binary_operator \<Rightarrow> nat \<Rightarrow> stream \<Rightarrow> stream \<Rightarrow> stream \<Rightarrow> bool \<Rightarrow> ('s, 'd) store \<Rightarrow>
   ('s, 'd) store res" where
  "binary_node_eval op a i1 i2 out is_alias so =
     (if is_alias then
        res_bind (stream_take i1 so) (\<lambda>(c1, so).
        res_bind (stream_peek i2 so) (\<lambda>v2.
          case c1 of
            Owned _ \<Rightarrow> Inl Unreachable
          | Borrowed v1 \<Rightarrow>
              res_bind (put_result out (call_operator a (bin_eval op v1 v2) so)) (\<lambda>so.
                res_map snd (stream_take i2 so))))
      else
        res_bind (stream_take i1 so) (\<lambda>(c1, so).
        res_bind (stream_take i2 so) (\<lambda>(c2, so).
          put_result out (call_operator a (eval_binary op c1 c2) so))))"

definition ternary_node_eval ::
  "('s, 'd) ternary_operator \<Rightarrow> nat \<Rightarrow> stream \<Rightarrow> stream \<Rightarrow> stream \<Rightarrow> stream \<Rightarrow> bool \<Rightarrow> bool \<Rightarrow>
   ('s, 'd) store \<Rightarrow> ('s, 'd) store res" where
  "ternary_node_eval op a i1 i2 i3 out is_alias1 is_alias2 so =
     res_bind (peek_or_take is_alias1 i1 so) (\<lambda>(c1, so).
     res_bind (peek_or_take is_alias2 i2 so) (\<lambda>(c2, so).
     res_bind (stream_take i3 so) (\<lambda>(c3, so).
       put_result out (call_operator a (ter_eval op c1 c2 c3) so))))"

definition quaternary_node_eval ::
  "('s, 'd) quaternary_operator \<Rightarrow> nat \<Rightarrow> stream \<Rightarrow> stream \<Rightarrow> stream \<Rightarrow> stream \<Rightarrow> stream \<Rightarrow> bool \<Rightarrow> bool \<Rightarrow> bool \<Rightarrow>
   ('s, 'd) store \<Rightarrow> ('s, 'd) store res" where
  "quaternary_node_eval op a i1 i2 i3 i4 out is_alias1 is_alias2 is_alias3 so =
     res_bind (peek_or_take is_alias1 i1 so) (\<lambda>(c1, so).
     res_bind (peek_or_take is_alias2 i2 so) (\<lambda>(c2, so).
     res_bind (peek_or_take is_alias3 i3 so) (\<lambda>(c3, so).
     res_bind (stream_take i4 so) (\<lambda>(c4, so).
       put_result out (call_operator a (qua_eval op c1 c2 c3 c4) so)))))"

definition nary_node_eval ::
  "('s, 'd) nary_operator \<Rightarrow> nat \<Rightarrow> (stream \<times> bool) list \<Rightarrow> nat list \<Rightarrow> stream \<Rightarrow> ('s, 'd) store \<Rightarrow>
   ('s, 'd) store res" where
  "nary_node_eval op a ins aliases out so =
     res_bind (read_inputs ins so) (\<lambda>(cs, so).
     res_bind (put_result out (call_operator a (nar_eval op cs) so)) (take_aliases ins aliases))"

definition feedback_output_node_eval ::
  "('s, 'd) strict_unary_operator \<Rightarrow> nat \<Rightarrow> stream \<Rightarrow> ('s, 'd) store \<Rightarrow> ('s, 'd) store res" where
  "feedback_output_node_eval op a out so = put_result out (call_operator a (str_get_output op) so)"

definition feedback_input_node_eval ::
  "('s, 'd) strict_unary_operator \<Rightarrow> nat \<Rightarrow> stream \<Rightarrow> ('s, 'd) store \<Rightarrow> ('s, 'd) store res" where
  "feedback_input_node_eval op a i so =
     res_bind (stream_take i so) (\<lambda>(c, so). update_operator a (eval_strict op c) so)"

definition import_node_eval ::
  "('s, 'd) import_operator \<Rightarrow> nat \<Rightarrow> stream \<Rightarrow> ('s, 'd) store \<Rightarrow> ('s, 'd) store res" where
  "import_node_eval op a out so = put_result out (call_operator a (imp_eval op) so)"

fun node_eval :: "('s, 'd) node \<Rightarrow> ('s, 'd) store \<Rightarrow> ('s, 'd) store res" where
  "node_eval (SourceNode g op a out) so = source_node_eval op a out so"
| "node_eval (UnaryNode g op a i out) so = unary_node_eval op a i out so"
| "node_eval (SinkNode g op a i) so = sink_node_eval op a i so"
| "node_eval (BinaryNode g op a i1 i2 out is_alias) so = binary_node_eval op a i1 i2 out is_alias so"
| "node_eval (TernaryNode g op a i1 i2 i3 out is_alias1 is_alias2) so =
     ternary_node_eval op a i1 i2 i3 out is_alias1 is_alias2 so"
| "node_eval (QuaternaryNode g op a i1 i2 i3 i4 out is_alias1 is_alias2 is_alias3) so =
     quaternary_node_eval op a i1 i2 i3 i4 out is_alias1 is_alias2 is_alias3 so"
| "node_eval (NaryNode g op a ins aliases out) so = nary_node_eval op a ins aliases out so"
| "node_eval (FeedbackOutputNode g op a out export) so = feedback_output_node_eval op a out so"
| "node_eval (FeedbackInputNode g op a i) so = feedback_input_node_eval op a i so"
| "node_eval (ImportNode g op a parent out) so = import_node_eval op a out so"

lemmas node_eval_defs = source_node_eval_def unary_node_eval_def sink_node_eval_def binary_node_eval_def
  ternary_node_eval_def quaternary_node_eval_def nary_node_eval_def feedback_output_node_eval_def
  feedback_input_node_eval_def import_node_eval_def

declare node_eval_defs [simp]

text \<open>The other methods of a node.\<close>

fun node_operator :: "('s, 'd) node \<Rightarrow> nat \<times> 's operator" where
  "node_operator (SourceNode g op a out) = (a, operator.truncate op)"
| "node_operator (UnaryNode g op a i out) = (a, operator.truncate op)"
| "node_operator (SinkNode g op a i) = (a, operator.truncate op)"
| "node_operator (BinaryNode g op a i1 i2 out al) = (a, operator.truncate op)"
| "node_operator (TernaryNode g op a i1 i2 i3 out al1 al2) = (a, operator.truncate op)"
| "node_operator (QuaternaryNode g op a i1 i2 i3 i4 out al1 al2 al3) = (a, operator.truncate op)"
| "node_operator (NaryNode g op a ins aliases out) = (a, operator.truncate op)"
| "node_operator (FeedbackOutputNode g op a out export) = (a, operator.truncate op)"
| "node_operator (FeedbackInputNode g op a i) = (a, operator.truncate op)"
| "node_operator (ImportNode g op a parent out) = (a, operator.truncate op)"

definition node_is_async :: "('s, 'd) node \<Rightarrow> bool" where
  "node_is_async n = op_is_async (snd (node_operator n))"

definition node_ready :: "('s, 'd) node \<Rightarrow> ('s, 'd) store \<Rightarrow> bool" where
  "node_ready n so = (case node_operator n of (a, op) \<Rightarrow> op_ready op (so_operators so ! a))"

definition node_fixedpoint :: "('s, 'd) node \<Rightarrow> scope \<Rightarrow> ('s, 'd) store \<Rightarrow> bool res" where
  "node_fixedpoint n scope so =
     (case node_operator n of (a, op) \<Rightarrow> op_fixedpoint op scope (so_operators so ! a))"

definition operator_clock_start :: "('s, 'd) node \<Rightarrow> scope \<Rightarrow> ('s, 'd) store \<Rightarrow> ('s, 'd) store" where
  "operator_clock_start n scope so =
     (case node_operator n of (a, op) \<Rightarrow>
        so\<lparr>so_operators := (so_operators so)[a := op_clock_start op scope (so_operators so ! a)]\<rparr>)"

definition operator_clock_end :: "('s, 'd) node \<Rightarrow> scope \<Rightarrow> ('s, 'd) store \<Rightarrow> ('s, 'd) store" where
  "operator_clock_end n scope so =
     (case node_operator n of (a, op) \<Rightarrow>
        so\<lparr>so_operators := (so_operators so)[a := op_clock_end op scope (so_operators so ! a)]\<rparr>)"

text \<open>
  An import node reads the stream of the parent when a clock epoch starts; the output half of a feedback
  node exports its final output when the epoch ends; the input half leaves both to the output half.
\<close>

fun node_clock_start :: "('s, 'd) node \<Rightarrow> scope \<Rightarrow> ('s, 'd) store \<Rightarrow> ('s, 'd) store res" where
  "node_clock_start (ImportNode g op a parent out) scope so =
     (let so = operator_clock_start (ImportNode g op a parent out) scope so in
      if scope = 0 then
        res_bind (stream_take parent so) (\<lambda>(c, so).
          update_operator a
            (\<lambda>s. Inr (case c of Borrowed v \<Rightarrow> imp_import op v s | Owned v \<Rightarrow> imp_import_owned op v s)) so)
      else Inr so)"
| "node_clock_start (FeedbackInputNode g op a i) scope so = Inr so"
| "node_clock_start n scope so = Inr (operator_clock_start n scope so)"

fun node_clock_end :: "('s, 'd) node \<Rightarrow> scope \<Rightarrow> ('s, 'd) store \<Rightarrow> ('s, 'd) store res" where
  "node_clock_end (FeedbackOutputNode g op a out export) scope so =
     res_map (operator_clock_end (FeedbackOutputNode g op a out export) scope)
       (if scope = 0 then put_result export (call_operator a (str_get_final_output op) so) else Inr so)"
| "node_clock_end (FeedbackInputNode g op a i) scope so = Inr so"
| "node_clock_end n scope so = Inr (operator_clock_end n scope so)"

end
