(* ===== verification/Circuit_Builder.thy ===== *)
theory Circuit_Builder
  imports Circuit_Nodes
begin

text \<open>
  Construction of a circuit (\<^verbatim>\<open>crates/dbsp/src/circuit/circuit_builder.rs\<close>): nodes and edges, connection
  of streams, the constructors of every kind of node, feedback, exchange and import, the cache of
  derived streams (\<^verbatim>\<open>circuit/cache.rs\<close>), and the methods a running circuit offers to a scheduler.

  The state of a construction is the circuit, the store, and the events sent so far to the handlers.
  A new node takes its id from the number of nodes; new cells and operator states are appended to
  the store.  The clock of the circuit and the registered handlers are not part of the state.
\<close>

section \<open>Circuits\<close>

text \<open>Keys of the cache: one constructor per key type of the derived streams modelled here.\<close>

datatype cache_key =
    DelayedId global_node_id
  | NestedDelayedId global_node_id
  | ExportId global_node_id
  | IntegralId global_node_id
  | NestedIntegralId global_node_id
  | DifferentiateId global_node_id
  | NestedDifferentiateId global_node_id
  | ShardId global_node_id

record ('s, 'd) circuit =
  ci_root_scope :: scope
  ci_node_id :: node_id
  ci_global_node_id :: global_node_id
  ci_nodes :: "('s, 'd) node list"
  ci_edges :: "edge list"
  ci_cache :: "(cache_key \<times> stream) list"

record ('s, 'd) builder =
  bu_circuit :: "('s, 'd) circuit"
  bu_store :: "('s, 'd) store"
  bu_events :: "circuit_event list"

definition circuit_new :: "scope \<Rightarrow> node_id \<Rightarrow> global_node_id \<Rightarrow> ('s, 'd) circuit" where
  "circuit_new root_scope node_id global_node_id =
     \<lparr>ci_root_scope = root_scope, ci_node_id = node_id, ci_global_node_id = global_node_id,
      ci_nodes = [], ci_edges = [], ci_cache = []\<rparr>"

definition root_circuit_new :: "('s, 'd) builder" where
  "root_circuit_new =
     \<lparr>bu_circuit = circuit_new 0 0 gid_root,
      bu_store = \<lparr>so_streams = [], so_operators = []\<rparr>, bu_events = []\<rparr>"

definition circuit_with_parent :: "('s, 'd) circuit \<Rightarrow> node_id \<Rightarrow> ('s, 'd) circuit" where
  "circuit_with_parent parent nid =
     circuit_new (ci_root_scope parent + 1) nid (gid_child (ci_global_node_id parent) nid)"

definition log_circuit_event :: "circuit_event \<Rightarrow> ('s, 'd) builder \<Rightarrow> ('s, 'd) builder" where
  "log_circuit_event ev b = b\<lparr>bu_events := bu_events b @ [ev]\<rparr>"

definition circuit_add_edge :: "edge \<Rightarrow> ('s, 'd) circuit \<Rightarrow> ('s, 'd) circuit" where
  "circuit_add_edge e c = c\<lparr>ci_edges := ci_edges c @ [e]\<rparr>"

definition builder_gid :: "('s, 'd) builder \<Rightarrow> node_id \<Rightarrow> global_node_id" where
  "builder_gid b nid = gid_child (ci_global_node_id (bu_circuit b)) nid"

definition add_dependency :: "node_id \<Rightarrow> node_id \<Rightarrow> ('s, 'd) builder \<Rightarrow> ('s, 'd) builder" where
  "add_dependency from to b =
     (let b = log_circuit_event (EdgeEvent Dependency (builder_gid b from) (builder_gid b to)) b
      in b\<lparr>bu_circuit := circuit_add_edge
           \<lparr>e_from = from, e_to = to, e_origin = builder_gid b from, e_preference = None\<rparr>
           (bu_circuit b)\<rparr>)"

text \<open>Addition of a node: the callback gets the id of the node, and may change the circuit.\<close>

definition add_node ::
  "(node_id \<Rightarrow> ('s, 'd) builder \<Rightarrow> (('s, 'd) node \<times> 'a \<times> ('s, 'd) builder) res) \<Rightarrow>
   ('s, 'd) builder \<Rightarrow> ('a \<times> ('s, 'd) builder) res" where
  "add_node f b =
     res_map (\<lambda>(node, r, b).
         (r, b\<lparr>bu_circuit := (bu_circuit b)\<lparr>ci_nodes := ci_nodes (bu_circuit b) @ [node]\<rparr>\<rparr>))
       (f (length (ci_nodes (bu_circuit b))) b)"

text \<open>Allocation of the cell of a stream and of the state of an operator.\<close>

definition stream_with_origin ::
  "global_node_id \<Rightarrow> node_id \<Rightarrow> global_node_id \<Rightarrow> ('s, 'd) builder \<Rightarrow> stream \<times> ('s, 'd) builder" where
  "stream_with_origin circuit node_id origin b =
     (let so = bu_store b in
      (\<lparr>st_local_node_id = node_id, st_origin_node_id = origin, st_circuit = circuit,
        st_val = length (so_streams so)\<rparr>,
       b\<lparr>bu_store := so\<lparr>so_streams := so_streams so @ [sv_empty]\<rparr>\<rparr>))"

definition stream_new :: "node_id \<Rightarrow> ('s, 'd) builder \<Rightarrow> stream \<times> ('s, 'd) builder" where
  "stream_new node_id b =
     stream_with_origin (ci_global_node_id (bu_circuit b)) node_id (builder_gid b node_id) b"

definition operator_new :: "'s \<Rightarrow> ('s, 'd) builder \<Rightarrow> nat \<times> ('s, 'd) builder" where
  "operator_new s b =
     (let so = bu_store b in
      (length (so_operators so), b\<lparr>bu_store := so\<lparr>so_operators := so_operators so @ [s]\<rparr>\<rparr>))"

section \<open>Connection of streams\<close>

definition connect_stream ::
  "stream \<Rightarrow> node_id \<Rightarrow> ownership_preference \<Rightarrow> ('s, 'd) builder \<Rightarrow> ('s, 'd) builder res" where
  "connect_stream st to pref b =
     (let b = log_circuit_event
            (EdgeEvent (StreamEdge pref) (st_origin_node_id st) (builder_gid b to)) b;
          v = stream_cell st (bu_store b);
          b = b\<lparr>bu_store := set_cell st (v\<lparr>sv_consumers := sv_consumers v + 1\<rparr>) (bu_store b)\<rparr>
      in if ci_global_node_id (bu_circuit b) \<noteq> st_circuit st then Inl DebugAssert
         else Inr (b\<lparr>bu_circuit := circuit_add_edge
                \<lparr>e_from = st_local_node_id st, e_to = to, e_origin = st_origin_node_id st,
                 e_preference = Some pref\<rparr> (bu_circuit b)\<rparr>))"

fun connect_streams ::
  "(stream \<times> ownership_preference) list \<Rightarrow> node_id \<Rightarrow> ('s, 'd) builder \<Rightarrow> ('s, 'd) builder res" where
  "connect_streams [] to b = Inr b"
| "connect_streams ((st, pref) # sts) to b =
     res_bind (connect_stream st to pref b) (connect_streams sts to)"

section \<open>Constructors of nodes\<close>

definition operator_event :: "('s, 'z) operator_scheme \<Rightarrow> node_id \<Rightarrow> ('s, 'd) builder \<Rightarrow> ('s, 'd) builder" where
  "operator_event op nid b =
     log_circuit_event (OperatorEvent (builder_gid b nid) (op_name op) (op_location op)) b"

definition source_node ::
  "('s, 'd) source_operator \<Rightarrow> 's \<Rightarrow> node_id \<Rightarrow> ('s, 'd) builder \<Rightarrow>
   (('s, 'd) node \<times> stream \<times> ('s, 'd) builder) res" where
  "source_node op s nid b =
     (let b = operator_event op nid b; (a, b) = operator_new s b; (out, b) = stream_new nid b
      in Inr (SourceNode (builder_gid b nid) op a out, out, b))"

definition add_source ::
  "('s, 'd) source_operator \<Rightarrow> 's \<Rightarrow> ('s, 'd) builder \<Rightarrow> (stream \<times> ('s, 'd) builder) res" where
  "add_source op s = add_node (source_node op s)"

definition sink_node ::
  "('s, 'd) sink_operator \<Rightarrow> 's \<Rightarrow> stream \<Rightarrow> ownership_preference \<Rightarrow> node_id \<Rightarrow> ('s, 'd) builder \<Rightarrow>
   (('s, 'd) node \<times> node_id \<times> ('s, 'd) builder) res" where
  "sink_node op s input pref nid b =
     (let b = operator_event op nid b; (a, b) = operator_new s b
      in res_map (\<lambda>b. (SinkNode (builder_gid b nid) op a input, nid, b)) (connect_stream input nid pref b))"

definition add_sink_with_preference ::
  "('s, 'd) sink_operator \<Rightarrow> 's \<Rightarrow> stream \<Rightarrow> ownership_preference \<Rightarrow> ('s, 'd) builder \<Rightarrow>
   ('s, 'd) builder res" where
  "add_sink_with_preference op s input pref b = res_map snd (add_node (sink_node op s input pref) b)"

definition add_sink ::
  "('s, 'd) sink_operator \<Rightarrow> 's \<Rightarrow> stream \<Rightarrow> ('s, 'd) builder \<Rightarrow> ('s, 'd) builder res" where
  "add_sink op s input = add_sink_with_preference op s input (snk_input_preference op)"

definition add_exchange_with_preference ::
  "('s, 'd) sink_operator \<Rightarrow> 's \<Rightarrow> ('s, 'd) source_operator \<Rightarrow> 's \<Rightarrow> stream \<Rightarrow>
   ownership_preference \<Rightarrow> ('s, 'd) builder \<Rightarrow> (stream \<times> ('s, 'd) builder) res" where
  "add_exchange_with_preference sender s1 receiver s2 input pref b =
     res_bind (add_node (sink_node sender s1 input pref) b) (\<lambda>(sender_id, b).
     res_map (\<lambda>(out, b). (out, add_dependency sender_id (st_local_node_id out) b))
       (add_node (source_node receiver s2) b))"

definition add_exchange ::
  "('s, 'd) sink_operator \<Rightarrow> 's \<Rightarrow> ('s, 'd) source_operator \<Rightarrow> 's \<Rightarrow> stream \<Rightarrow>
   ('s, 'd) builder \<Rightarrow> (stream \<times> ('s, 'd) builder) res" where
  "add_exchange sender s1 receiver s2 input =
     add_exchange_with_preference sender s1 receiver s2 input (snk_input_preference sender)"

text \<open>The nodes with an operator, inputs and one output share the shape of their construction.\<close>

definition operator_node ::
  "('s, 'z) operator_scheme \<Rightarrow> 's \<Rightarrow> (stream \<times> ownership_preference) list \<Rightarrow>
   (global_node_id \<Rightarrow> nat \<Rightarrow> stream \<Rightarrow> ('s, 'd) node) \<Rightarrow> node_id \<Rightarrow> ('s, 'd) builder \<Rightarrow>
   (('s, 'd) node \<times> stream \<times> ('s, 'd) builder) res" where
  "operator_node op s inputs mk nid b =
     (let b = operator_event op nid b; (a, b) = operator_new s b; (out, b) = stream_new nid b
      in res_map (\<lambda>b. (mk (builder_gid b nid) a out, out, b)) (connect_streams inputs nid b))"

definition add_unary_operator_with_preference ::
  "('s, 'd) unary_operator \<Rightarrow> 's \<Rightarrow> stream \<Rightarrow> ownership_preference \<Rightarrow> ('s, 'd) builder \<Rightarrow>
   (stream \<times> ('s, 'd) builder) res" where
  "add_unary_operator_with_preference op s input pref =
     add_node (operator_node op s [(input, pref)] (\<lambda>g a out. UnaryNode g op a input out))"

definition add_unary_operator ::
  "('s, 'd) unary_operator \<Rightarrow> 's \<Rightarrow> stream \<Rightarrow> ('s, 'd) builder \<Rightarrow> (stream \<times> ('s, 'd) builder) res" where
  "add_unary_operator op s input =
     add_unary_operator_with_preference op s input (un_input_preference op)"

definition binary_node_new ::
  "('s, 'd) binary_operator \<Rightarrow> stream \<Rightarrow> stream \<Rightarrow> global_node_id \<Rightarrow> nat \<Rightarrow> stream \<Rightarrow> ('s, 'd) node" where
  "binary_node_new op i1 i2 g a out = BinaryNode g op a i1 i2 out (stream_ptr_eq i1 i2)"

definition add_binary_operator_with_preference ::
  "('s, 'd) binary_operator \<Rightarrow> 's \<Rightarrow> stream \<times> ownership_preference \<Rightarrow>
   stream \<times> ownership_preference \<Rightarrow> ('s, 'd) builder \<Rightarrow> (stream \<times> ('s, 'd) builder) res" where
  "add_binary_operator_with_preference op s i1 i2 =
     add_node (operator_node op s [i1, i2] (binary_node_new op (fst i1) (fst i2)))"

definition add_binary_operator ::
  "('s, 'd) binary_operator \<Rightarrow> 's \<Rightarrow> stream \<Rightarrow> stream \<Rightarrow> ('s, 'd) builder \<Rightarrow>
   (stream \<times> ('s, 'd) builder) res" where
  "add_binary_operator op s i1 i2 =
     (case bin_input_preference op of (p1, p2) \<Rightarrow>
        add_binary_operator_with_preference op s (i1, p1) (i2, p2))"

definition ternary_node_new ::
  "('s, 'd) ternary_operator \<Rightarrow> stream \<Rightarrow> stream \<Rightarrow> stream \<Rightarrow> global_node_id \<Rightarrow> nat \<Rightarrow> stream \<Rightarrow>
   ('s, 'd) node" where
  "ternary_node_new op i1 i2 i3 g a out =
     TernaryNode g op a i1 i2 i3 out
       (stream_ptr_eq i1 i2 \<or> stream_ptr_eq i1 i3) (stream_ptr_eq i2 i3)"

definition add_ternary_operator_with_preference ::
  "('s, 'd) ternary_operator \<Rightarrow> 's \<Rightarrow> stream \<times> ownership_preference \<Rightarrow>
   stream \<times> ownership_preference \<Rightarrow> stream \<times> ownership_preference \<Rightarrow> ('s, 'd) builder \<Rightarrow>
   (stream \<times> ('s, 'd) builder) res" where
  "add_ternary_operator_with_preference op s i1 i2 i3 =
     add_node (operator_node op s [i1, i2, i3] (ternary_node_new op (fst i1) (fst i2) (fst i3)))"

definition add_ternary_operator ::
  "('s, 'd) ternary_operator \<Rightarrow> 's \<Rightarrow> stream \<Rightarrow> stream \<Rightarrow> stream \<Rightarrow> ('s, 'd) builder \<Rightarrow>
   (stream \<times> ('s, 'd) builder) res" where
  "add_ternary_operator op s i1 i2 i3 =
     (case ter_input_preference op of (p1, p2, p3) \<Rightarrow>
        add_ternary_operator_with_preference op s (i1, p1) (i2, p2) (i3, p3))"

definition quaternary_node_new ::
  "('s, 'd) quaternary_operator \<Rightarrow> stream \<Rightarrow> stream \<Rightarrow> stream \<Rightarrow> stream \<Rightarrow> global_node_id \<Rightarrow> nat \<Rightarrow>
   stream \<Rightarrow> ('s, 'd) node" where
  "quaternary_node_new op i1 i2 i3 i4 g a out =
     QuaternaryNode g op a i1 i2 i3 i4 out
       (stream_ptr_eq i1 i2 \<or> stream_ptr_eq i1 i3 \<or> stream_ptr_eq i1 i4)
       (stream_ptr_eq i2 i3 \<or> stream_ptr_eq i2 i4) (stream_ptr_eq i3 i4)"

definition add_quaternary_operator_with_preference ::
  "('s, 'd) quaternary_operator \<Rightarrow> 's \<Rightarrow> stream \<times> ownership_preference \<Rightarrow>
   stream \<times> ownership_preference \<Rightarrow> stream \<times> ownership_preference \<Rightarrow>
   stream \<times> ownership_preference \<Rightarrow> ('s, 'd) builder \<Rightarrow> (stream \<times> ('s, 'd) builder) res" where
  "add_quaternary_operator_with_preference op s i1 i2 i3 i4 =
     add_node (operator_node op s [i1, i2, i3, i4]
       (quaternary_node_new op (fst i1) (fst i2) (fst i3) (fst i4)))"

definition add_quaternary_operator ::
  "('s, 'd) quaternary_operator \<Rightarrow> 's \<Rightarrow> stream \<Rightarrow> stream \<Rightarrow> stream \<Rightarrow> stream \<Rightarrow> ('s, 'd) builder \<Rightarrow>
   (stream \<times> ('s, 'd) builder) res" where
  "add_quaternary_operator op s i1 i2 i3 i4 =
     (case qua_input_preference op of (p1, p2, p3, p4) \<Rightarrow>
        add_quaternary_operator_with_preference op s (i1, p1) (i2, p2) (i3, p3) (i4, p4))"

text \<open>An n-ary node marks the inputs that are aliases of an earlier input and lists their indices.\<close>

fun mark_aliases :: "stream list \<Rightarrow> stream list \<Rightarrow> (stream \<times> bool) list" where
  "mark_aliases earlier [] = []"
| "mark_aliases earlier (st # sts) =
     (st, list_ex (stream_ptr_eq st) earlier) # mark_aliases (earlier @ [st]) sts"

definition alias_indices :: "(stream \<times> bool) list \<Rightarrow> nat list" where
  "alias_indices ins = map fst (filter (\<lambda>(i, _, alias). alias) (enumerate 0 ins))"

definition nary_node_new ::
  "('s, 'd) nary_operator \<Rightarrow> stream list \<Rightarrow> global_node_id \<Rightarrow> nat \<Rightarrow> stream \<Rightarrow> ('s, 'd) node" where
  "nary_node_new op inputs g a out =
     (let ins = mark_aliases [] inputs in NaryNode g op a ins (alias_indices ins) out)"

definition add_nary_operator_with_preference ::
  "('s, 'd) nary_operator \<Rightarrow> 's \<Rightarrow> stream list \<Rightarrow> ownership_preference \<Rightarrow> ('s, 'd) builder \<Rightarrow>
   (stream \<times> ('s, 'd) builder) res" where
  "add_nary_operator_with_preference op s inputs pref =
     add_node (operator_node op s (map (\<lambda>st. (st, pref)) inputs) (nary_node_new op inputs))"

definition add_nary_operator ::
  "('s, 'd) nary_operator \<Rightarrow> 's \<Rightarrow> stream list \<Rightarrow> ('s, 'd) builder \<Rightarrow>
   (stream \<times> ('s, 'd) builder) res" where
  "add_nary_operator op s inputs =
     add_nary_operator_with_preference op s inputs (nar_input_preference op)"

section \<open>Feedback and import\<close>

text \<open>The connector of a feedback node: its output half and the address of the operator.\<close>

record ('s, 'd) feedback_connector =
  fc_output_node_id :: node_id
  fc_methods :: "('s, 'd) strict_unary_operator"
  fc_operator :: nat

definition parent_circuit_gid :: "('s, 'd) circuit \<Rightarrow> global_node_id" where
  "parent_circuit_gid c = butlast (ci_global_node_id c)"

definition feedback_output_node ::
  "('s, 'd) strict_unary_operator \<Rightarrow> 's \<Rightarrow> node_id \<Rightarrow> ('s, 'd) builder \<Rightarrow>
   (('s, 'd) node \<times> ((stream \<times> stream) \<times> ('s, 'd) feedback_connector) \<times> ('s, 'd) builder) res" where
  "feedback_output_node op s nid b =
     (let b = log_circuit_event
            (StrictOperatorOutput (builder_gid b nid) (op_name op) (op_location op)) b;
          (a, b) = operator_new s b;
          (local, b) = stream_new nid b;
          (export, b) = stream_with_origin (parent_circuit_gid (bu_circuit b))
            (ci_node_id (bu_circuit b)) (builder_gid b nid) b
      in Inr (FeedbackOutputNode (builder_gid b nid) op a local export,
          ((local, export), \<lparr>fc_output_node_id = nid, fc_methods = op, fc_operator = a\<rparr>), b))"

definition add_feedback_with_export ::
  "('s, 'd) strict_unary_operator \<Rightarrow> 's \<Rightarrow> ('s, 'd) builder \<Rightarrow>
   (((stream \<times> stream) \<times> ('s, 'd) feedback_connector) \<times> ('s, 'd) builder) res" where
  "add_feedback_with_export op s = add_node (feedback_output_node op s)"

definition add_feedback ::
  "('s, 'd) strict_unary_operator \<Rightarrow> 's \<Rightarrow> ('s, 'd) builder \<Rightarrow>
   ((stream \<times> ('s, 'd) feedback_connector) \<times> ('s, 'd) builder) res" where
  "add_feedback op s b =
     res_map (\<lambda>(((local, export), connector), b). ((local, connector), b)) (add_feedback_with_export op s b)"

definition feedback_input_node ::
  "('s, 'd) feedback_connector \<Rightarrow> stream \<Rightarrow> ownership_preference \<Rightarrow> node_id \<Rightarrow> ('s, 'd) builder \<Rightarrow>
   (('s, 'd) node \<times> unit \<times> ('s, 'd) builder) res" where
  "feedback_input_node fc input pref nid b =
     (let b = log_circuit_event (StrictOperatorInput (builder_gid b nid) (fc_output_node_id fc)) b;
          g = gid_child (st_circuit input) nid
      in res_map (\<lambda>b. (FeedbackInputNode g (fc_methods fc) (fc_operator fc) input, (),
             add_dependency (fc_output_node_id fc) nid b))
           (connect_stream input nid pref b))"

definition connect_with_preference ::
  "('s, 'd) feedback_connector \<Rightarrow> stream \<Rightarrow> ownership_preference \<Rightarrow> ('s, 'd) builder \<Rightarrow>
   ('s, 'd) builder res" where
  "connect_with_preference fc input pref b = res_map snd (add_node (feedback_input_node fc input pref) b)"

definition connect :: "('s, 'd) feedback_connector \<Rightarrow> stream \<Rightarrow> ('s, 'd) builder \<Rightarrow> ('s, 'd) builder res" where
  "connect fc input = connect_with_preference fc input INDIFFERENT"

text \<open>
  Import of a stream of the parent: the edge is added to the parent, to the node of the child circuit.
\<close>

definition import_stream_with_preference ::
  "('s, 'd) import_operator \<Rightarrow> 's \<Rightarrow> stream \<Rightarrow> ownership_preference \<Rightarrow> ('s, 'd) circuit \<Rightarrow>
   ('s, 'd) builder \<Rightarrow> (stream \<times> ('s, 'd) circuit \<times> ('s, 'd) builder) res" where
  "import_stream_with_preference op s parent_stream pref parent b =
     (if st_circuit parent_stream \<noteq> ci_global_node_id parent then Inl AssertFailed
      else res_map (\<lambda>((out, parent), b). (out, parent, b))
        (add_node (\<lambda>nid b.
           let b = operator_event op nid b; (a, b) = operator_new s b; (out, b) = stream_new nid b;
               child = bu_circuit b
           in res_map (\<lambda>pb.
                (ImportNode (builder_gid b nid) op a parent_stream out, (out, bu_circuit pb),
                 pb\<lparr>bu_circuit := child\<rparr>))
              (connect_stream parent_stream (ci_node_id child) pref (b\<lparr>bu_circuit := parent\<rparr>))) b))"

definition import_stream ::
  "('s, 'd) import_operator \<Rightarrow> 's \<Rightarrow> stream \<Rightarrow> ('s, 'd) circuit \<Rightarrow> ('s, 'd) builder \<Rightarrow>
   (stream \<times> ('s, 'd) circuit \<times> ('s, 'd) builder) res" where
  "import_stream op s parent_stream =
     import_stream_with_preference op s parent_stream (imp_input_preference op)"

section \<open>Regions and cache\<close>

definition circuit_region ::
  "string \<Rightarrow> operator_location \<Rightarrow> (('s, 'd) builder \<Rightarrow> ('a \<times> ('s, 'd) builder) res) \<Rightarrow>
   ('s, 'd) builder \<Rightarrow> ('a \<times> ('s, 'd) builder) res" where
  "circuit_region name location f b =
     res_map (\<lambda>(r, b). (r, log_circuit_event PopRegion b))
       (f (log_circuit_event (PushRegion name location) b))"

definition cache_get :: "cache_key \<Rightarrow> ('s, 'd) builder \<Rightarrow> stream option" where
  "cache_get key b = map_of (ci_cache (bu_circuit b)) key"

definition cache_contains :: "cache_key \<Rightarrow> ('s, 'd) builder \<Rightarrow> bool" where
  "cache_contains key b \<longleftrightarrow> cache_get key b \<noteq> None"

definition cache_insert :: "cache_key \<Rightarrow> stream \<Rightarrow> ('s, 'd) builder \<Rightarrow> ('s, 'd) builder" where
  "cache_insert key st b =
     b\<lparr>bu_circuit := (bu_circuit b)\<lparr>ci_cache := AList.update key st (ci_cache (bu_circuit b))\<rparr>\<rparr>"

text \<open>The value is computed before it is entered, and an entry made meanwhile is kept.\<close>

definition cache_get_or_insert_with ::
  "cache_key \<Rightarrow> (('s, 'd) builder \<Rightarrow> (stream \<times> ('s, 'd) builder) res) \<Rightarrow> ('s, 'd) builder \<Rightarrow>
   (stream \<times> ('s, 'd) builder) res" where
  "cache_get_or_insert_with key f b =
     (case cache_get key b of
        Some st \<Rightarrow> Inr (st, b)
      | None \<Rightarrow> res_map (\<lambda>(st, b).
          case cache_get key b of Some st' \<Rightarrow> (st', b) | None \<Rightarrow> (st, cache_insert key st b)) (f b))"

section \<open>Running circuits\<close>

text \<open>Local ids of the nodes; every node has one (it is not the root).\<close>

fun collect_ids :: "('s, 'd) node list \<Rightarrow> node_id list res" where
  "collect_ids [] = Inr []"
| "collect_ids (n # ns) = res_bind (local_id n) (\<lambda>i. res_map (\<lambda>is. i # is) (collect_ids ns))"

definition node_ids :: "('s, 'd) circuit \<Rightarrow> node_id list res" where
  "node_ids c = collect_ids (ci_nodes c)"

definition circuit_ready :: "('s, 'd) circuit \<Rightarrow> node_id \<Rightarrow> ('s, 'd) store \<Rightarrow> bool res" where
  "circuit_ready c nid so =
     (if length (ci_nodes c) \<le> nid then Inl IndexOutOfBounds else Inr (node_ready (ci_nodes c ! nid) so))"

definition circuit_is_async_node :: "('s, 'd) circuit \<Rightarrow> node_id \<Rightarrow> bool res" where
  "circuit_is_async_node c nid =
     (if length (ci_nodes c) \<le> nid then Inl IndexOutOfBounds else Inr (node_is_async (ci_nodes c ! nid)))"

definition circuit_eval_node ::
  "('s, 'd) circuit \<Rightarrow> node_id \<Rightarrow> ('s, 'd) store \<Rightarrow> ('s, 'd) store res" where
  "circuit_eval_node c nid so =
     (if length (ci_nodes c) \<le> nid then Inl DebugAssert else node_eval (ci_nodes c ! nid) so)"

fun nodes_clock_start :: "('s, 'd) node list \<Rightarrow> scope \<Rightarrow> ('s, 'd) store \<Rightarrow> ('s, 'd) store res" where
  "nodes_clock_start [] scope so = Inr so"
| "nodes_clock_start (n # ns) scope so =
     res_bind (node_clock_start n scope so) (nodes_clock_start ns scope)"

definition circuit_clock_start ::
  "('s, 'd) circuit \<Rightarrow> scope \<Rightarrow> ('s, 'd) store \<Rightarrow> ('s, 'd) store res" where
  "circuit_clock_start c = nodes_clock_start (ci_nodes c)"

fun nodes_clock_end :: "('s, 'd) node list \<Rightarrow> scope \<Rightarrow> ('s, 'd) store \<Rightarrow> ('s, 'd) store res" where
  "nodes_clock_end [] scope so = Inr so"
| "nodes_clock_end (n # ns) scope so =
     res_bind (node_clock_end n scope so) (nodes_clock_end ns scope)"

definition circuit_clock_end ::
  "('s, 'd) circuit \<Rightarrow> scope \<Rightarrow> ('s, 'd) store \<Rightarrow> ('s, 'd) store res" where
  "circuit_clock_end c = nodes_clock_end (ci_nodes c)"

fun nodes_fixedpoint :: "('s, 'd) node list \<Rightarrow> scope \<Rightarrow> ('s, 'd) store \<Rightarrow> bool res" where
  "nodes_fixedpoint [] scope so = Inr True"
| "nodes_fixedpoint (n # ns) scope so =
     res_bind (node_fixedpoint n scope so) (\<lambda>f. if f then nodes_fixedpoint ns scope so else Inr False)"

definition circuit_fixedpoint :: "('s, 'd) circuit \<Rightarrow> scope \<Rightarrow> ('s, 'd) store \<Rightarrow> bool res" where
  "circuit_fixedpoint c = nodes_fixedpoint (ci_nodes c)"

definition circuit_clear :: "('s, 'd) circuit \<Rightarrow> ('s, 'd) circuit" where
  "circuit_clear c = c\<lparr>ci_nodes := [], ci_edges := [], ci_cache := []\<rparr>"

text \<open>
  The table of methods a scheduler uses.  No node of this table has circuits nested in it, so that evaluation
  neither fails nor emits events of its own.
\<close>

definition circuit_table :: "('s, 'd) circuit \<Rightarrow> ('s, 'd) store circuit_ops" where
  "circuit_table c =
     \<lparr>co_global_id = ci_global_node_id c, co_edges = ci_edges c,
      co_node_ids = (case node_ids c of Inl _ \<Rightarrow> [] | Inr ids \<Rightarrow> ids),
      co_is_async = (\<lambda>nid. circuit_is_async_node c nid = Inr True),
      co_ready = (\<lambda>so nid. circuit_ready c nid so = Inr True),
      co_eval = (\<lambda>so nid. res_map (\<lambda>so. (None, [], so)) (circuit_eval_node c nid so)),
      co_tick = (\<lambda>so. so)\<rparr>"

end
