(* ===== verification/Node_Semantics.thy ===== *)
theory Node_Semantics
  imports Circuit_Builder
begin

text \<open>
  What the evaluation of a node does, in one form for all nodes: it takes tokens of its input
  streams, computes an output and a new state from the values of the inputs, and puts the output in
  its output stream.  Operators may be given a value or a reference; the contract of the traits, that
  the result does not depend on it, is the predicate \<^verbatim>\<open>node_by_value\<close>.
\<close>

section \<open>The interface of a node\<close>

fun node_inputs :: "('s, 'd) node \<Rightarrow> stream list" where
  "node_inputs (SourceNode g op a out) = []"
| "node_inputs (UnaryNode g op a i out) = [i]"
| "node_inputs (SinkNode g op a i) = [i]"
| "node_inputs (BinaryNode g op a i1 i2 out al) = [i1, i2]"
| "node_inputs (TernaryNode g op a i1 i2 i3 out al1 al2) = [i1, i2, i3]"
| "node_inputs (QuaternaryNode g op a i1 i2 i3 i4 out al1 al2 al3) = [i1, i2, i3, i4]"
| "node_inputs (NaryNode g op a ins aliases out) = map fst ins"
| "node_inputs (FeedbackOutputNode g op a out export) = []"
| "node_inputs (FeedbackInputNode g op a i) = [i]"
| "node_inputs (ImportNode g op a parent out) = []"

fun node_output :: "('s, 'd) node \<Rightarrow> stream option" where
  "node_output (SourceNode g op a out) = Some out"
| "node_output (UnaryNode g op a i out) = Some out"
| "node_output (SinkNode g op a i) = None"
| "node_output (BinaryNode g op a i1 i2 out al) = Some out"
| "node_output (TernaryNode g op a i1 i2 i3 out al1 al2) = Some out"
| "node_output (QuaternaryNode g op a i1 i2 i3 i4 out al1 al2 al3) = Some out"
| "node_output (NaryNode g op a ins aliases out) = Some out"
| "node_output (FeedbackOutputNode g op a out export) = Some out"
| "node_output (FeedbackInputNode g op a i) = None"
| "node_output (ImportNode g op a parent out) = Some out"

text \<open>
  The inputs whose token a node takes.  A ternary or quaternary node only peeks at an input that is
  an alias of a later one; binary and n-ary nodes take the token of aliases too.
\<close>

fun node_takes :: "('s, 'd) node \<Rightarrow> stream list" where
  "node_takes (TernaryNode g op a i1 i2 i3 out al1 al2) =
     (if al1 then [] else [i1]) @ (if al2 then [] else [i2]) @ [i3]"
| "node_takes (QuaternaryNode g op a i1 i2 i3 i4 out al1 al2 al3) =
     (if al1 then [] else [i1]) @ (if al2 then [] else [i2]) @ (if al3 then [] else [i3]) @ [i4]"
| "node_takes (NaryNode g op a ins aliases out) =
     map fst (filter (\<lambda>(_, al). \<not> al) ins) @ map (\<lambda>i. fst (ins ! i)) aliases"
| "node_takes n = node_inputs n"

definition node_address :: "('s, 'd) node \<Rightarrow> nat" where
  "node_address n = fst (node_operator n)"

definition with_output :: "('d \<times> 's) res \<Rightarrow> ('d option \<times> 's) res" where
  "with_output = res_map (\<lambda>(d, s). (Some d, s))"

definition without_output :: "'s res \<Rightarrow> ('d option \<times> 's) res" where
  "without_output = res_map (\<lambda>s. (None, s))"

fun node_sem :: "('s, 'd) node \<Rightarrow> 'd list \<Rightarrow> 's \<Rightarrow> ('d option \<times> 's) res" where
  "node_sem (SourceNode g op a out) vs s = with_output (src_eval op s)"
| "node_sem (UnaryNode g op a i out) vs s = with_output (un_eval op (vs ! 0) s)"
| "node_sem (SinkNode g op a i) vs s = without_output (snk_eval op (vs ! 0) s)"
| "node_sem (BinaryNode g op a i1 i2 out al) vs s = with_output (bin_eval op (vs ! 0) (vs ! 1) s)"
| "node_sem (TernaryNode g op a i1 i2 i3 out al1 al2) vs s =
     with_output (ter_eval op (Borrowed (vs ! 0)) (Borrowed (vs ! 1)) (Borrowed (vs ! 2)) s)"
| "node_sem (QuaternaryNode g op a i1 i2 i3 i4 out al1 al2 al3) vs s =
     with_output (qua_eval op (Borrowed (vs ! 0)) (Borrowed (vs ! 1)) (Borrowed (vs ! 2))
       (Borrowed (vs ! 3)) s)"
| "node_sem (NaryNode g op a ins aliases out) vs s = with_output (nar_eval op (map Borrowed vs) s)"
| "node_sem (FeedbackOutputNode g op a out export) vs s = with_output (str_get_output op s)"
| "node_sem (FeedbackInputNode g op a i) vs s = without_output (str_eval_strict op (vs ! 0) s)"
| "node_sem (ImportNode g op a parent out) vs s = with_output (imp_eval op s)"

fun node_by_value :: "('s, 'd) node \<Rightarrow> bool" where
  "node_by_value (UnaryNode g op a i out) \<longleftrightarrow> un_eval_owned op = un_eval op"
| "node_by_value (SinkNode g op a i) \<longleftrightarrow> snk_eval_owned op = snk_eval op"
| "node_by_value (BinaryNode g op a i1 i2 out al) \<longleftrightarrow>
     bin_eval_owned op = bin_eval op \<and> bin_eval_owned_and_ref op = bin_eval op \<and>
     bin_eval_ref_and_owned op = bin_eval op"
| "node_by_value (TernaryNode g op a i1 i2 i3 out al1 al2) \<longleftrightarrow>
     (\<forall>c1 c2 c3. ter_eval op c1 c2 c3 =
        ter_eval op (Borrowed (cow_value c1)) (Borrowed (cow_value c2)) (Borrowed (cow_value c3)))"
| "node_by_value (QuaternaryNode g op a i1 i2 i3 i4 out al1 al2 al3) \<longleftrightarrow>
     (\<forall>c1 c2 c3 c4. qua_eval op c1 c2 c3 c4 =
        qua_eval op (Borrowed (cow_value c1)) (Borrowed (cow_value c2)) (Borrowed (cow_value c3))
          (Borrowed (cow_value c4)))"
| "node_by_value (NaryNode g op a ins aliases out) \<longleftrightarrow>
     (\<forall>cs. nar_eval op cs = nar_eval op (map (Borrowed \<circ> cow_value) cs))"
| "node_by_value (FeedbackInputNode g op a i) \<longleftrightarrow> str_eval_strict_owned op = str_eval_strict op"
| "node_by_value n \<longleftrightarrow> True"

text \<open>Aliases are recognised: the flags of a node say which inputs share a cell with another.\<close>

fun node_aliases_ok :: "('s, 'd) node \<Rightarrow> bool" where
  "node_aliases_ok (BinaryNode g op a i1 i2 out al) \<longleftrightarrow> (al \<longleftrightarrow> st_val i1 = st_val i2)"
| "node_aliases_ok (TernaryNode g op a i1 i2 i3 out al1 al2) \<longleftrightarrow>
     (al1 \<longleftrightarrow> st_val i1 \<in> {st_val i2, st_val i3}) \<and> (al2 \<longleftrightarrow> st_val i2 = st_val i3)"
| "node_aliases_ok (QuaternaryNode g op a i1 i2 i3 i4 out al1 al2 al3) \<longleftrightarrow>
     (al1 \<longleftrightarrow> st_val i1 \<in> {st_val i2, st_val i3, st_val i4}) \<and>
     (al2 \<longleftrightarrow> st_val i2 \<in> {st_val i3, st_val i4}) \<and> (al3 \<longleftrightarrow> st_val i3 = st_val i4)"
| "node_aliases_ok (NaryNode g op a ins aliases out) \<longleftrightarrow>
     (\<forall>j<length ins. snd (ins ! j) \<longleftrightarrow> (\<exists>i<j. st_val (fst (ins ! i)) = st_val (fst (ins ! j)))) \<and>
     aliases = alias_indices ins"
| "node_aliases_ok n \<longleftrightarrow> True"

section \<open>Tokens\<close>

definition drain1 :: "'d stream_value \<Rightarrow> 'd stream_value" where
  "drain1 v =
     (if sv_tokens v = 1 then v\<lparr>sv_tokens := 0, sv_val := None\<rparr>
      else v\<lparr>sv_tokens := sv_tokens v - 1\<rparr>)"

definition take_cow :: "'d stream_value \<Rightarrow> 'd \<Rightarrow> 'd cow" where
  "take_cow v d = (if sv_tokens v = 1 then Owned d else Borrowed d)"

fun drains :: "nat list \<Rightarrow> 'd stream_value list \<Rightarrow> 'd stream_value list" where
  "drains [] xs = xs"
| "drains (p # ps) xs = drains ps (xs[p := drain1 (xs ! p)])"

lemma cow_value_take_cow [simp]: "cow_value (take_cow v d) = d"
  by (simp add: take_cow_def)

lemma drain1_simps [simp]:
  "sv_tokens (drain1 v) = sv_tokens v - 1" "sv_consumers (drain1 v) = sv_consumers v"
  by (simp_all add: drain1_def)

lemma length_drains [simp]: "length (drains ps xs) = length xs"
  by (induction ps arbitrary: xs) simp_all

lemma drains_append: "drains (ps @ qs) xs = drains qs (drains ps xs)"
  by (induction ps arbitrary: xs) simp_all

lemma drains_other: "p \<notin> set ps \<Longrightarrow> drains ps (xs[p := v]) = (drains ps xs)[p := v]"
proof (induction ps arbitrary: xs)
  case (Cons q ps)
  then have "xs[p := v, q := drain1 (xs[p := v] ! q)] = xs[q := drain1 (xs ! q), p := v]"
    by (simp add: list_update_swap)
  then show ?case using Cons by simp
qed simp

lemma nth_drains:
  assumes "q < length xs" "count_list ps q \<le> sv_tokens (xs ! q)"
  shows "sv_tokens (drains ps xs ! q) = sv_tokens (xs ! q) - count_list ps q"
    "sv_val (drains ps xs ! q) =
      (if q \<in> set ps \<and> sv_tokens (xs ! q) = count_list ps q then None else sv_val (xs ! q))"
proof -
  have "sv_tokens (drains ps xs ! q) = sv_tokens (xs ! q) - count_list ps q \<and>
    sv_val (drains ps xs ! q) =
      (if q \<in> set ps \<and> sv_tokens (xs ! q) = count_list ps q then None else sv_val (xs ! q))"
    using assms
  proof (induction ps arbitrary: xs)
    case (Cons p ps)
    show ?case
    proof (cases "p = q")
      case True
      have z: "count_list ps q = 0" if "q \<notin> set ps" using that by simp
      show ?thesis
        using Cons.IH [of "xs[q := drain1 (xs ! q)]"] Cons.prems True z
        by (cases "q \<in> set ps") (auto simp: drain1_def)
    next
      case False
      then show ?thesis using Cons.IH [of "xs[p := drain1 (xs ! p)]"] Cons.prems by simp
    qed
  qed simp
  then show "sv_tokens (drains ps xs ! q) = sv_tokens (xs ! q) - count_list ps q"
    "sv_val (drains ps xs ! q) =
      (if q \<in> set ps \<and> sv_tokens (xs ! q) = count_list ps q then None else sv_val (xs ! q))"
    by simp_all
qed

lemma consumers_drains [simp]: "sv_consumers (drains ps xs ! q) = sv_consumers (xs ! q)"
proof (induction ps arbitrary: xs)
  case (Cons p ps)
  then show ?case by (cases "p = q"; cases "p < length xs") (simp_all add: list_update_beyond)
qed simp

lemma nth_drains_other: "q \<notin> set ps \<Longrightarrow> drains ps xs ! q = xs ! q"
  by (induction ps arbitrary: xs) auto

text \<open>
  A list of reads can be served: every cell that is read has a value and enough tokens.
\<close>

definition served :: "(nat \<Rightarrow> 'd) \<Rightarrow> nat list \<Rightarrow> 'd stream_value list \<Rightarrow> bool" where
  "served f ps xs \<longleftrightarrow>
     (\<forall>p\<in>set ps. p < length xs \<and> sv_val (xs ! p) = Some (f p) \<and> count_list ps p \<le> sv_tokens (xs ! p))"

lemma served_Cons:
  assumes "served f (p # ps) xs"
  shows "p < length xs" "sv_val (xs ! p) = Some (f p)" "sv_tokens (xs ! p) \<noteq> 0"
    "served f ps xs" "served f ps (xs[p := drain1 (xs ! p)])"
    "p \<in> set ps \<Longrightarrow> 1 < sv_tokens (xs ! p)"
proof -
  have *: "q \<in> set (p # ps) \<Longrightarrow> q < length xs \<and> sv_val (xs ! q) = Some (f q) \<and>
      (if p = q then count_list ps q + 1 else count_list ps q) \<le> sv_tokens (xs ! q)" for q
    using assms unfolding served_def by (auto split: if_splits)
  show 1: "p < length xs" "sv_val (xs ! p) = Some (f p)" "sv_tokens (xs ! p) \<noteq> 0"
    using * [of p] by auto
  show "served f ps xs" using * by (fastforce simp: served_def split: if_splits)
  have pos: "0 < count_list ps q" if "q \<in> set ps" for q
    using that by (metis count_list_0_iff neq0_conv)
  show "p \<in> set ps \<Longrightarrow> 1 < sv_tokens (xs ! p)" using * [of p] pos [of p] by simp
  show "served f ps (xs[p := drain1 (xs ! p)])"
    unfolding served_def
  proof
    fix q assume q: "q \<in> set ps"
    show "q < length (xs[p := drain1 (xs ! p)]) \<and> sv_val (xs[p := drain1 (xs ! p)] ! q) = Some (f q) \<and>
        count_list ps q \<le> sv_tokens (xs[p := drain1 (xs ! p)] ! q)"
      using * [of q] q pos [OF q] by (cases "p = q") (auto simp: drain1_def split: if_splits)
  qed
qed

lemma served_perm: "mset ps = mset qs \<Longrightarrow> served f ps xs \<longleftrightarrow> served f qs xs"
  by (metis served_def count_mset set_mset_mset)

lemma served_append: "served f (ps @ qs) xs \<Longrightarrow> served f ps xs \<and> served f qs (drains ps xs)"
proof (induction ps arbitrary: xs)
  case (Cons p ps)
  note s = served_Cons [OF Cons.prems [simplified]]
  have a: "served f qs (drains ps (xs[p := drain1 (xs ! p)]))" using Cons.IH [OF s(5)] by simp
  have "count_list (p # ps) q \<le> count_list ((p # ps) @ qs) q" for q by simp
  then have "served f (p # ps) xs"
    using Cons.prems unfolding served_def by (metis Un_iff le_trans set_append)
  then show ?case using a by simp
qed (simp add: served_def)

section \<open>Reading streams\<close>

definition cells_update ::
  "('d stream_value list \<Rightarrow> 'd stream_value list) \<Rightarrow> ('s, 'd) store \<Rightarrow> ('s, 'd) store" where
  "cells_update h so = so\<lparr>so_streams := h (so_streams so)\<rparr>"

lemma cells_update_simps [simp]:
  "so_streams (cells_update h so) = h (so_streams so)"
  "so_operators (cells_update h so) = so_operators so"
  "cells_update h (cells_update k so) = cells_update (h \<circ> k) so"
  by (simp_all add: cells_update_def)

lemma stream_take_served:
  assumes "served f (st_val st # ps) (so_streams so)"
  shows "stream_take st so =
    Inr (take_cow (so_streams so ! st_val st) (f (st_val st)), cells_update (drains [st_val st]) so)"
  using served_Cons [OF assms]
  by (simp add: stream_take_def sv_take_def stream_cell_def set_cell_def take_cow_def drain1_def
    cells_update_def Let_def)

lemma stream_peek_served:
  assumes "served f (st_val st # ps) (so_streams so)"
  shows "stream_peek st so = Inr (f (st_val st))"
  using served_Cons [OF assms] by (simp add: stream_peek_def sv_peek_def stream_cell_def)

lemma peek_or_take_served:
  assumes "served f (st_val st # ps) (so_streams so)"
  obtains c where "peek_or_take al st so =
      Inr (c, cells_update (drains (if al then [] else [st_val st])) so)" "cow_value c = f (st_val st)"
    "served f ps (drains (if al then [] else [st_val st]) (so_streams so))"
  using that served_Cons [OF assms] stream_peek_served [OF assms] stream_take_served [OF assms]
  by (cases al) (simp_all add: peek_or_take_def cells_update_def)

lemma read_inputs_served:
  assumes "served f (map (\<lambda>x. st_val (fst x)) ins @ ps) (so_streams so)"
  shows "\<exists>cs. read_inputs ins so =
      Inr (cs, cells_update (drains (map (\<lambda>x. st_val (fst x)) (filter (\<lambda>(_, al). \<not> al) ins))) so) \<and>
    map cow_value cs = map (\<lambda>x. f (st_val (fst x))) ins \<and>
    served f (map (\<lambda>x. st_val (fst x)) (filter snd ins) @ ps)
      (drains (map (\<lambda>x. st_val (fst x)) (filter (\<lambda>(_, al). \<not> al) ins)) (so_streams so))"
  using assms
proof (induction ins arbitrary: so ps)
  case Nil
  then show ?case by (simp add: cells_update_def)
next
  case (Cons sa ins)
  obtain st al where sa: "sa = (st, al)" by fastforce
  let ?rest = "if al then map (\<lambda>x. st_val (fst x)) ins @ st_val st # ps else map (\<lambda>x. st_val (fst x)) ins @ ps"
  have "served f (st_val st # map (\<lambda>x. st_val (fst x)) ins @ ps) (so_streams so)"
    using Cons.prems sa by simp
  then obtain c where c: "peek_or_take al st so =
        Inr (c, cells_update (drains (if al then [] else [st_val st])) so)"
      "cow_value c = f (st_val st)"
      "served f (map (\<lambda>x. st_val (fst x)) ins @ ps) (drains (if al then [] else [st_val st]) (so_streams so))"
    by (rule peek_or_take_served)
  have "served f ?rest (drains (if al then [] else [st_val st]) (so_streams so))"
  proof (cases al)
    case True
    have "mset (st_val st # map (\<lambda>x. st_val (fst x)) ins @ ps) = mset (map (\<lambda>x. st_val (fst x)) ins @ st_val st # ps)"
      by simp
    from served_perm [OF this, of f] show ?thesis using True Cons.prems sa by simp
  qed (use c(3) in simp)
  then obtain cs where cs: "read_inputs ins (cells_update (drains (if al then [] else [st_val st])) so) =
        Inr (cs, cells_update (drains (map (\<lambda>x. st_val (fst x)) (filter (\<lambda>(_, al). \<not> al) ins)))
          (cells_update (drains (if al then [] else [st_val st])) so))"
      "map cow_value cs = map (\<lambda>x. f (st_val (fst x))) ins"
      "served f (map (\<lambda>x. st_val (fst x)) (filter snd ins) @ (if al then st_val st # ps else ps))
        (drains (map (\<lambda>x. st_val (fst x)) (filter (\<lambda>(_, al). \<not> al) ins))
          (drains (if al then [] else [st_val st]) (so_streams so)))"
    using Cons.IH [of "if al then st_val st # ps else ps"
        "cells_update (drains (if al then [] else [st_val st])) so"] by (auto split: if_splits)
  have "mset (map (\<lambda>x. st_val (fst x)) (filter snd ins) @ st_val st # ps) =
      mset (st_val st # map (\<lambda>x. st_val (fst x)) (filter snd ins) @ ps)" by simp
  note perm = served_perm [OF this, of f]
  show ?case
    using cs c perm sa
    by (cases al) (auto simp: comp_def drains_append [symmetric] cells_update_def)
qed

lemma take_aliases_served:
  assumes "served f (map (\<lambda>i. st_val (fst (ins ! i))) is) (so_streams so)" "\<forall>i\<in>set is. i < length ins"
  shows "take_aliases ins is so = Inr (cells_update (drains (map (\<lambda>i. st_val (fst (ins ! i))) is)) so)"
  using assms
proof (induction "is" arbitrary: so)
  case Nil
  then show ?case by (simp add: cells_update_def)
next
  case (Cons i "is")
  have s: "served f (st_val (fst (ins ! i)) # map (\<lambda>i. st_val (fst (ins ! i))) is) (so_streams so)"
    using Cons.prems by simp
  show ?case
    using Cons.IH [of "cells_update (drains [st_val (fst (ins ! i))]) so"] served_Cons(5) [OF s]
      stream_take_served [OF s] Cons.prems
    by (simp add: comp_def)
qed

lemma served_update_other:
  "p \<notin> set ps \<Longrightarrow> served f ps (xs[p := v]) \<longleftrightarrow> served f ps xs"
  unfolding served_def by (metis length_list_update nth_list_update_neq)

section \<open>Evaluation in one form\<close>

definition put_cell :: "stream option \<Rightarrow> 'd option \<Rightarrow> 'd stream_value list \<Rightarrow> 'd stream_value list" where
  "put_cell out d xs =
     (case (out, d) of
        (Some out, Some d) \<Rightarrow> xs[st_val out := sv_put d (xs ! st_val out)]
      | _ \<Rightarrow> xs)"

definition commit :: "('s, 'd) node \<Rightarrow> 'd option \<Rightarrow> 's \<Rightarrow> ('s, 'd) store \<Rightarrow> ('s, 'd) store" where
  "commit n d s so =
     so\<lparr>so_streams := put_cell (node_output n) d (drains (map st_val (node_takes n)) (so_streams so)),
        so_operators := (so_operators so)[node_address n := s]\<rparr>"

lemma put_result_call:
  "put_result out (call_operator a h so) =
     res_map (\<lambda>(d, s). so\<lparr>so_streams := put_cell (Some out) (Some d) (so_streams so),
       so_operators := (so_operators so)[a := s]\<rparr>) (h (so_operators so ! a))"
  by (cases "h (so_operators so ! a)")
    (auto simp: put_result_def call_operator_def stream_put_def set_cell_def stream_cell_def put_cell_def)

lemma alias_indices_nth: "map (\<lambda>i. ins ! i) (alias_indices ins) = filter snd ins"
proof (induction ins rule: rev_induct)
  case (snoc x xs)
  have lt: "\<And>i. i \<in> set (alias_indices xs) \<Longrightarrow> i < length xs"
    by (auto simp: alias_indices_def in_set_enumerate_eq)
  have "alias_indices (xs @ [x]) = alias_indices xs @ (if snd x then [length xs] else [])"
    by (cases x) (simp add: alias_indices_def enumerate_append_eq)
  moreover have "map (\<lambda>i. (xs @ [x]) ! i) (alias_indices xs) = map (\<lambda>i. xs ! i) (alias_indices xs)"
    using lt by (simp add: nth_append)
  ultimately show ?case using snoc by simp
qed (simp add: alias_indices_def)

lemma alias_indices_less: "i \<in> set (alias_indices ins) \<Longrightarrow> i < length ins"
  by (auto simp: alias_indices_def in_set_enumerate_eq)

text \<open>Evaluation of a node whose inputs can be served.\<close>

lemma eval_unary_cow: "un_eval_owned op = un_eval op \<Longrightarrow> eval_unary op c = un_eval op (cow_value c)"
  by (cases c) (simp_all add: eval_unary_def)

lemma eval_sink_cow: "snk_eval_owned op = snk_eval op \<Longrightarrow> eval_sink op c = snk_eval op (cow_value c)"
  by (cases c) (simp_all add: eval_sink_def)

lemma eval_strict_cow:
  "str_eval_strict_owned op = str_eval_strict op \<Longrightarrow> eval_strict op c = str_eval_strict op (cow_value c)"
  by (cases c) (simp_all add: eval_strict_def)

lemma eval_binary_cow:
  "bin_eval_owned op = bin_eval op \<Longrightarrow> bin_eval_owned_and_ref op = bin_eval op \<Longrightarrow>
   bin_eval_ref_and_owned op = bin_eval op \<Longrightarrow>
   eval_binary op c1 c2 = bin_eval op (cow_value c1) (cow_value c2)"
  by (cases c1; cases c2) simp_all

lemma res_map_with_output: "res_map h (with_output r) = res_map (\<lambda>(d, s). h (Some d, s)) r"
  by (cases r) (auto simp: with_output_def)

lemma res_map_without_output: "res_map h (without_output r) = res_map (\<lambda>s. h (None, s)) r"
  by (cases r) (auto simp: without_output_def)

lemmas node_eval_simps =
  res_map_with_output res_map_without_output put_result_call update_operator_def commit_def
  node_address_def cells_update_def put_cell_def

definition node_serves :: "(nat \<Rightarrow> 'd) \<Rightarrow> ('s, 'd) node \<Rightarrow> ('s, 'd) store \<Rightarrow> bool" where
  "node_serves f n so \<longleftrightarrow>
     served f (map st_val (node_inputs n)) (so_streams so) \<and> node_by_value n \<and> node_aliases_ok n \<and>
     (\<forall>out. node_output n = Some out \<longrightarrow> st_val out \<notin> st_val ` set (node_inputs n))"

definition eval_as_sem :: "(nat \<Rightarrow> 'd) \<Rightarrow> ('s, 'd) node \<Rightarrow> ('s, 'd) store \<Rightarrow> bool" where
  "eval_as_sem f n so \<longleftrightarrow>
     node_eval n so = res_map (\<lambda>(d, s). commit n d s so)
       (node_sem n (map (\<lambda>i. f (st_val i)) (node_inputs n)) (so_operators so ! node_address n))"

lemma eval_no_inputs:
  "eval_as_sem f (SourceNode g op1 a out) so" "eval_as_sem f (FeedbackOutputNode g op2 a out export) so"
  "eval_as_sem f (ImportNode g op3 a parent out) so"
  by (simp_all add: eval_as_sem_def node_eval_simps)

lemma eval_one_input:
  "node_serves f (UnaryNode g op1 a i out) so \<Longrightarrow> eval_as_sem f (UnaryNode g op1 a i out) so"
  "node_serves f (SinkNode g op2 a i) so \<Longrightarrow> eval_as_sem f (SinkNode g op2 a i) so"
  "node_serves f (FeedbackInputNode g op3 a i) so \<Longrightarrow> eval_as_sem f (FeedbackInputNode g op3 a i) so"
  unfolding eval_as_sem_def node_serves_def
  by (simp_all add: stream_take_served [of f _ "[]"] eval_unary_cow eval_sink_cow eval_strict_cow
    node_eval_simps)

lemma update_twice: "q \<noteq> p \<Longrightarrow> xs[p := u, q := w, p := v] = xs[p := v, q := w]"
  by (metis list_update_overwrite list_update_swap)

lemma eval_two_inputs:
  assumes "node_serves f (BinaryNode g op a i1 i2 out al) so"
  shows "eval_as_sem f (BinaryNode g op a i1 i2 out al) so"
proof -
  let ?xs = "so_streams so"
  have s: "served f [st_val i1, st_val i2] ?xs" and al: "al \<longleftrightarrow> st_val i1 = st_val i2"
    and op: "bin_eval_owned op = bin_eval op" "bin_eval_owned_and_ref op = bin_eval op"
      "bin_eval_ref_and_owned op = bin_eval op"
    and out: "st_val out \<noteq> st_val i1" "st_val out \<noteq> st_val i2"
    using assms by (auto simp: node_serves_def)
  note S = served_Cons [OF s]
  have t1: "stream_take i1 so = Inr (take_cow (?xs ! st_val i1) (f (st_val i1)),
      cells_update (drains [st_val i1]) so)" by (rule stream_take_served [OF s])
  have s2: "served f [st_val i2] (so_streams (cells_update (drains [st_val i1]) so))" using S(5) by simp
  show ?thesis
  proof (cases al)
    case False
    then show ?thesis
      using t1 stream_take_served [OF s2] by (simp add: eval_as_sem_def eval_binary_cow op node_eval_simps)
  next
    case True
    then have b: "take_cow (?xs ! st_val i1) (f (st_val i1)) = Borrowed (f (st_val i1))"
      using S(6) al by (simp add: take_cow_def)
    show ?thesis
    proof (cases "bin_eval op (f (st_val i1)) (f (st_val i2)) (so_operators so ! a)")
      case (Inl e)
      then show ?thesis
        using True t1 b stream_peek_served [OF s2] by (simp add: eval_as_sem_def node_eval_simps)
    next
      case (Inr ds)
      obtain d s' where ds: "ds = (d, s')" by fastforce
      let ?ys = "?xs[st_val i1 := drain1 (?xs ! st_val i1)]"
      let ?so = "so\<lparr>so_streams := ?ys[st_val out := sv_put d (?ys ! st_val out)],
          so_operators := (so_operators so)[a := s']\<rparr>"
      have "served f [st_val i2] (so_streams ?so)"
        using S(5) out by (simp add: served_update_other)
      from stream_take_served [OF this]
      have "stream_take i2 ?so = Inr (take_cow (so_streams ?so ! st_val i2) (f (st_val i2)),
          cells_update (drains [st_val i2]) ?so)" .
      then show ?thesis
        using True t1 b stream_peek_served [OF s2] Inr ds out al S(1)
        by (simp add: eval_as_sem_def node_eval_simps update_twice)
    qed
  qed
qed

lemma eval_three_inputs:
  assumes "node_serves f (TernaryNode g op a i1 i2 i3 out al1 al2) so"
  shows "eval_as_sem f (TernaryNode g op a i1 i2 i3 out al1 al2) so"
proof -
  let ?d = "\<lambda>al i. drains (if al then [] else [st_val i])"
  have "served f (st_val i1 # [st_val i2, st_val i3]) (so_streams so)"
    and op: "\<And>c1 c2 c3. ter_eval op c1 c2 c3 =
        ter_eval op (Borrowed (cow_value c1)) (Borrowed (cow_value c2)) (Borrowed (cow_value c3))"
    using assms unfolding node_serves_def by auto
  from this(1) obtain c1 where c1: "peek_or_take al1 i1 so = Inr (c1, cells_update (?d al1 i1) so)"
      "cow_value c1 = f (st_val i1)" "served f [st_val i2, st_val i3] (?d al1 i1 (so_streams so))"
    by (rule peek_or_take_served)
  let ?s1 = "cells_update (?d al1 i1) so"
  have "served f (st_val i2 # [st_val i3]) (so_streams ?s1)" using c1(3) by simp
  then obtain c2 where c2: "peek_or_take al2 i2 ?s1 = Inr (c2, cells_update (?d al2 i2) ?s1)"
      "cow_value c2 = f (st_val i2)" "served f [st_val i3] (?d al2 i2 (so_streams ?s1))"
    by (rule peek_or_take_served)
  have "served f (st_val i3 # []) (so_streams (cells_update (?d al2 i2) ?s1))" using c2(3) by simp
  note c3 = stream_take_served [OF this]
  show ?thesis
    using op [of c1 c2] c1 c2 c3
    by (simp add: eval_as_sem_def node_eval_simps drains_append del: drains.simps)
qed

lemma eval_four_inputs:
  assumes "node_serves f (QuaternaryNode g op a i1 i2 i3 i4 out al1 al2 al3) so"
  shows "eval_as_sem f (QuaternaryNode g op a i1 i2 i3 i4 out al1 al2 al3) so"
proof -
  let ?d = "\<lambda>al i. drains (if al then [] else [st_val i])"
  have "served f (st_val i1 # [st_val i2, st_val i3, st_val i4]) (so_streams so)"
    and op: "\<And>c1 c2 c3 c4. qua_eval op c1 c2 c3 c4 = qua_eval op (Borrowed (cow_value c1))
        (Borrowed (cow_value c2)) (Borrowed (cow_value c3)) (Borrowed (cow_value c4))"
    using assms unfolding node_serves_def by auto
  from this(1) obtain c1 where c1: "peek_or_take al1 i1 so = Inr (c1, cells_update (?d al1 i1) so)"
      "cow_value c1 = f (st_val i1)" "served f [st_val i2, st_val i3, st_val i4] (?d al1 i1 (so_streams so))"
    by (rule peek_or_take_served)
  let ?s1 = "cells_update (?d al1 i1) so"
  have "served f (st_val i2 # [st_val i3, st_val i4]) (so_streams ?s1)" using c1(3) by simp
  then obtain c2 where c2: "peek_or_take al2 i2 ?s1 = Inr (c2, cells_update (?d al2 i2) ?s1)"
      "cow_value c2 = f (st_val i2)" "served f [st_val i3, st_val i4] (?d al2 i2 (so_streams ?s1))"
    by (rule peek_or_take_served)
  let ?s2 = "cells_update (?d al2 i2) ?s1"
  have "served f (st_val i3 # [st_val i4]) (so_streams ?s2)" using c2(3) by simp
  then obtain c3 where c3: "peek_or_take al3 i3 ?s2 = Inr (c3, cells_update (?d al3 i3) ?s2)"
      "cow_value c3 = f (st_val i3)" "served f [st_val i4] (?d al3 i3 (so_streams ?s2))"
    by (rule peek_or_take_served)
  have "served f (st_val i4 # []) (so_streams (cells_update (?d al3 i3) ?s2))" using c3(3) by simp
  note c4 = stream_take_served [OF this]
  show ?thesis
    using op [of c1 c2 c3] c1 c2 c3 c4
    by (simp add: eval_as_sem_def node_eval_simps drains_append del: drains.simps)
qed

lemma eval_many_inputs:
  assumes "node_serves f (NaryNode g op a ins aliases out) so"
  shows "eval_as_sem f (NaryNode g op a ins aliases out) so"
proof -
  let ?nal = "map (\<lambda>x. st_val (fst x)) (filter (\<lambda>(_, al). \<not> al) ins)"
  let ?al = "map (\<lambda>i. st_val (fst (ins ! i))) aliases"
  have s: "served f (map (\<lambda>x. st_val (fst x)) ins @ []) (so_streams so)"
    and al: "aliases = alias_indices ins" and out: "st_val out \<notin> (\<lambda>x. st_val (fst x)) ` set ins"
    and op: "\<And>cs. nar_eval op cs = nar_eval op (map (\<lambda>c. Borrowed (cow_value c)) cs)"
    using assms by (auto simp: node_serves_def comp_def image_image)
  have al_eq: "?al = map (\<lambda>x. st_val (fst x)) (filter snd ins)"
    using arg_cong [OF alias_indices_nth [of ins], of "map (\<lambda>x. st_val (fst x))"] al by (simp add: comp_def)
  obtain cs where cs: "read_inputs ins so = Inr (cs, cells_update (drains ?nal) so)"
      "map cow_value cs = map (\<lambda>x. f (st_val (fst x))) ins" "served f ?al (drains ?nal (so_streams so))"
    using read_inputs_served [OF s] al_eq by auto
  have "map (\<lambda>c. Borrowed (cow_value c)) cs = map Borrowed (map cow_value cs)" by simp
  then have op_cs: "nar_eval op cs = nar_eval op (map (\<lambda>x. Borrowed (f (st_val (fst x)))) ins)"
    using op [of cs] cs(2) by (simp add: comp_def)
  have out_al: "st_val out \<notin> set ?al" using out al_eq by auto
  show ?thesis
  proof (cases "nar_eval op cs (so_operators so ! a)")
    case (Inl e)
    then show ?thesis using cs op_cs by (simp add: eval_as_sem_def node_eval_simps comp_def)
  next
    case (Inr ds)
    obtain d s' where ds: "ds = (d, s')" by fastforce
    let ?ys = "drains ?nal (so_streams so)"
    let ?so = "so\<lparr>so_streams := ?ys[st_val out := sv_put d (?ys ! st_val out)],
        so_operators := (so_operators so)[a := s']\<rparr>"
    have "served f ?al (so_streams ?so)" using cs(3) out_al by (simp add: served_update_other)
    then have "take_aliases ins aliases ?so = Inr (cells_update (drains ?al) ?so)"
      using alias_indices_less al by (intro take_aliases_served) auto
    then show ?thesis
      using cs(1) op_cs Inr ds out_al
      by (simp add: eval_as_sem_def node_eval_simps drains_append drains_other nth_drains_other comp_def
        del: drains.simps)
  qed
qed

theorem node_eval_sem:
  assumes "node_serves f n so"
  shows "node_eval n so = res_map (\<lambda>(d, s). commit n d s so)
    (node_sem n (map (\<lambda>i. f (st_val i)) (node_inputs n)) (so_operators so ! node_address n))"
  using assms unfolding eval_as_sem_def [symmetric]
  by (cases n) (simp_all add: eval_no_inputs eval_one_input eval_two_inputs eval_three_inputs
    eval_four_inputs eval_many_inputs)

end
