(* ===== verification/Circuit_Dataflow.thy ===== *)
theory Circuit_Dataflow
  imports Node_Semantics
begin

text \<open>
  A circuit computes a synchronous dataflow.  \<open>denote\<close> is the specification of one clock cycle: the
  nodes one after the other in the order of their ids, over a valuation of the streams, with no
  tokens and no ownership.  Every schedule that respects the edges of a well formed circuit returns,
  with the same states of the operators and the same cells.
\<close>

section \<open>The specification of a clock cycle\<close>

definition set_output ::
  "stream option \<Rightarrow> 'd option \<Rightarrow> (nat \<Rightarrow> 'd option) \<Rightarrow> nat \<Rightarrow> 'd option" where
  "set_output out d f = (case out of None \<Rightarrow> f | Some st \<Rightarrow> f(st_val st := d))"

definition input_values :: "('s, 'd) node \<Rightarrow> (nat \<Rightarrow> 'd option) \<Rightarrow> 'd list" where
  "input_values nd f = map (\<lambda>i. the (f (st_val i))) (node_inputs nd)"

fun denote ::
  "('s, 'd) node list \<Rightarrow> (nat \<Rightarrow> 'd option) \<times> 's list \<Rightarrow> ((nat \<Rightarrow> 'd option) \<times> 's list) res" where
  "denote [] (f, ops) = Inr (f, ops)"
| "denote (nd # nds) (f, ops) =
     res_bind (node_sem nd (input_values nd f) (ops ! node_address nd)) (\<lambda>(d, s).
       denote nds (set_output (node_output nd) d f, ops[node_address nd := s]))"

lemma denote_append: "denote (ns @ ms) x = res_bind (denote ns x) (denote ms)"
proof (induction ns arbitrary: x)
  case (Cons nd ns)
  obtain f ops where x: "x = (f, ops)" by fastforce
  show ?case
    using Cons unfolding x
    by (cases "node_sem nd (input_values nd f) (ops ! node_address nd)") auto
qed (metis append_Nil denote.simps(1) res_bind_simps(2) surj_pair)

lemma node_sem_output:
  "node_sem nd vs s = Inr (d, s') \<Longrightarrow> d = None \<longleftrightarrow> node_output nd = None"
  by (cases nd) (auto simp: with_output_def without_output_def res_map_eq_Inr)

section \<open>Well formed circuits\<close>

definition connected :: "('s, 'd) circuit \<Rightarrow> node_id \<Rightarrow> node_id \<Rightarrow> bool" where
  "connected c j k \<longleftrightarrow> (\<exists>e\<in>set (ci_edges c). e_from e = j \<and> e_to e = k)"

text \<open>An edge that brings the stream to the node, with an ownership preference.\<close>

definition feeds :: "('s, 'd) circuit \<Rightarrow> stream \<Rightarrow> node_id \<Rightarrow> bool" where
  "feeds c i k \<longleftrightarrow>
     (\<exists>e\<in>set (ci_edges c). e_from e = st_local_node_id i \<and> e_to e = k \<and>
        e_origin e = st_origin_node_id i \<and> e_preference e \<noteq> None)"

definition node_reads :: "('s, 'd) node \<Rightarrow> nat \<Rightarrow> nat" where
  "node_reads nd p = count_list (map st_val (node_inputs nd)) p"

definition readers :: "('s, 'd) node list \<Rightarrow> nat \<Rightarrow> nat" where
  "readers nds p = (\<Sum>nd\<leftarrow>nds. node_reads nd p)"

definition nodes_ok :: "('s, 'd) circuit \<Rightarrow> ('s, 'd) store \<Rightarrow> bool" where
  "nodes_ok c so \<longleftrightarrow>
     (\<forall>k<length (ci_nodes c). global_id (ci_nodes c ! k) = gid_child (ci_global_node_id c) k \<and>
        node_aliases_ok (ci_nodes c ! k) \<and> node_address (ci_nodes c ! k) < length (so_operators so))"

definition inputs_ok :: "('s, 'd) circuit \<Rightarrow> bool" where
  "inputs_ok c \<longleftrightarrow>
     (\<forall>k<length (ci_nodes c). \<forall>i\<in>set (node_inputs (ci_nodes c ! k)).
        \<exists>j<k. node_output (ci_nodes c ! j) = Some i \<and> connected c j k \<and> feeds c i k)"

definition outputs_ok :: "('s, 'd) circuit \<Rightarrow> ('s, 'd) store \<Rightarrow> bool" where
  "outputs_ok c so \<longleftrightarrow>
     (\<forall>k<length (ci_nodes c). \<forall>out. node_output (ci_nodes c ! k) = Some out \<longrightarrow>
        st_local_node_id out = k \<and> st_origin_node_id out = gid_child (ci_global_node_id c) k \<and>
        st_circuit out = ci_global_node_id c \<and> st_val out < length (so_streams so) \<and>
        sv_consumers (so_streams so ! st_val out) = readers (ci_nodes c) (st_val out))"

definition cells_distinct :: "('s, 'd) circuit \<Rightarrow> bool" where
  "cells_distinct c \<longleftrightarrow>
     (\<forall>j<length (ci_nodes c). \<forall>k<length (ci_nodes c). \<forall>o1 o2. node_output (ci_nodes c ! j) = Some o1 \<longrightarrow>
        node_output (ci_nodes c ! k) = Some o2 \<longrightarrow> st_val o1 = st_val o2 \<longrightarrow> j = k)"

text \<open>Nodes that share an operator are ordered by an edge.\<close>

definition operators_ok :: "('s, 'd) circuit \<Rightarrow> bool" where
  "operators_ok c \<longleftrightarrow>
     (\<forall>k<length (ci_nodes c). \<forall>j<k.
        node_address (ci_nodes c ! j) = node_address (ci_nodes c ! k) \<longrightarrow> connected c j k)"

text \<open>Edges lead from older nodes to newer ones, so no circuit has a cycle.\<close>

definition edges_ok :: "('s, 'd) circuit \<Rightarrow> bool" where
  "edges_ok c \<longleftrightarrow> (\<forall>e\<in>set (ci_edges c). e_from e < e_to e \<and> e_to e < length (ci_nodes c))"

definition circuit_ok :: "('s, 'd) circuit \<Rightarrow> ('s, 'd) store \<Rightarrow> bool" where
  "circuit_ok c so \<longleftrightarrow>
     nodes_ok c so \<and> inputs_ok c \<and> outputs_ok c so \<and> cells_distinct c \<and> operators_ok c \<and> edges_ok c"

text \<open>A schedule evaluates every node once, after the nodes with an edge to it.\<close>

fun schedule_from :: "('s, 'd) circuit \<Rightarrow> node_id list \<Rightarrow> node_id list \<Rightarrow> bool" where
  "schedule_from c ys [] \<longleftrightarrow> True"
| "schedule_from c ys (k # ks) \<longleftrightarrow>
     k < length (ci_nodes c) \<and> k \<notin> set ys \<and>
     (\<forall>e\<in>set (ci_edges c). e_to e = k \<longrightarrow> e_from e \<in> set ys) \<and> schedule_from c (ys @ [k]) ks"

definition schedule :: "('s, 'd) circuit \<Rightarrow> node_id list \<Rightarrow> bool" where
  "schedule c xs \<longleftrightarrow> schedule_from c [] xs \<and> length xs = length (ci_nodes c)"

text \<open>The evaluation of nodes in a given order.\<close>

fun eval_nodes :: "('s, 'd) circuit \<Rightarrow> node_id list \<Rightarrow> ('s, 'd) store \<Rightarrow> ('s, 'd) store res" where
  "eval_nodes c [] so = Inr so"
| "eval_nodes c (k # ks) so = res_bind (circuit_eval_node c k so) (eval_nodes c ks)"

lemma eval_nodes_append: "eval_nodes c (xs @ ys) so = res_bind (eval_nodes c xs so) (eval_nodes c ys)"
proof (induction xs arbitrary: so)
  case (Cons k ks)
  show ?case using Cons by (cases "circuit_eval_node c k so") simp_all
qed simp

lemma circuit_okD:
  assumes "circuit_ok c so"
  shows "k < length (ci_nodes c) \<Longrightarrow> global_id (ci_nodes c ! k) = gid_child (ci_global_node_id c) k"
    "k < length (ci_nodes c) \<Longrightarrow> node_aliases_ok (ci_nodes c ! k)"
    "k < length (ci_nodes c) \<Longrightarrow> node_address (ci_nodes c ! k) < length (so_operators so)"
    "k < length (ci_nodes c) \<Longrightarrow> i \<in> set (node_inputs (ci_nodes c ! k)) \<Longrightarrow>
       \<exists>j<k. node_output (ci_nodes c ! j) = Some i \<and> connected c j k \<and> feeds c i k"
    "k < length (ci_nodes c) \<Longrightarrow> node_output (ci_nodes c ! k) = Some out \<Longrightarrow>
       st_val out < length (so_streams so)"
    "k < length (ci_nodes c) \<Longrightarrow> node_output (ci_nodes c ! k) = Some out \<Longrightarrow>
       sv_consumers (so_streams so ! st_val out) = readers (ci_nodes c) (st_val out)"
    "j < length (ci_nodes c) \<Longrightarrow> k < length (ci_nodes c) \<Longrightarrow> node_output (ci_nodes c ! j) = Some o1 \<Longrightarrow>
       node_output (ci_nodes c ! k) = Some o2 \<Longrightarrow> st_val o1 = st_val o2 \<Longrightarrow> j = k"
    "k < length (ci_nodes c) \<Longrightarrow> j < k \<Longrightarrow>
       node_address (ci_nodes c ! j) = node_address (ci_nodes c ! k) \<Longrightarrow> connected c j k"
    "e \<in> set (ci_edges c) \<Longrightarrow> e_from e < e_to e \<and> e_to e < length (ci_nodes c)"
proof -
  have ok: "nodes_ok c so" "inputs_ok c" "outputs_ok c so" "cells_distinct c" "operators_ok c" "edges_ok c"
    using assms by (simp_all add: circuit_ok_def)
  show "k < length (ci_nodes c) \<Longrightarrow> global_id (ci_nodes c ! k) = gid_child (ci_global_node_id c) k"
    "k < length (ci_nodes c) \<Longrightarrow> node_aliases_ok (ci_nodes c ! k)"
    "k < length (ci_nodes c) \<Longrightarrow> node_address (ci_nodes c ! k) < length (so_operators so)"
    using ok(1) by (simp_all add: nodes_ok_def)
  show "k < length (ci_nodes c) \<Longrightarrow> i \<in> set (node_inputs (ci_nodes c ! k)) \<Longrightarrow>
      \<exists>j<k. node_output (ci_nodes c ! j) = Some i \<and> connected c j k \<and> feeds c i k"
    using ok(2) by (simp add: inputs_ok_def)
  show "k < length (ci_nodes c) \<Longrightarrow> node_output (ci_nodes c ! k) = Some out \<Longrightarrow>
      st_val out < length (so_streams so)"
    "k < length (ci_nodes c) \<Longrightarrow> node_output (ci_nodes c ! k) = Some out \<Longrightarrow>
      sv_consumers (so_streams so ! st_val out) = readers (ci_nodes c) (st_val out)"
    using ok(3) by (simp_all add: outputs_ok_def)
  show "j < length (ci_nodes c) \<Longrightarrow> k < length (ci_nodes c) \<Longrightarrow> node_output (ci_nodes c ! j) = Some o1 \<Longrightarrow>
      node_output (ci_nodes c ! k) = Some o2 \<Longrightarrow> st_val o1 = st_val o2 \<Longrightarrow> j = k"
    using ok(4) unfolding cells_distinct_def by metis
  show "k < length (ci_nodes c) \<Longrightarrow> j < k \<Longrightarrow>
      node_address (ci_nodes c ! j) = node_address (ci_nodes c ! k) \<Longrightarrow> connected c j k"
    using ok(5) by (simp add: operators_ok_def)
  show "e \<in> set (ci_edges c) \<Longrightarrow> e_from e < e_to e \<and> e_to e < length (ci_nodes c)"
    using ok(6) by (simp add: edges_ok_def)
qed

lemma output_not_input:
  assumes "circuit_ok c so" "k < length (ci_nodes c)" "node_output (ci_nodes c ! k) = Some out"
  shows "st_val out \<notin> st_val ` set (node_inputs (ci_nodes c ! k))"
proof
  assume "st_val out \<in> st_val ` set (node_inputs (ci_nodes c ! k))"
  then obtain i where i: "i \<in> set (node_inputs (ci_nodes c ! k))" "st_val i = st_val out" by auto
  obtain j where "j < k" "node_output (ci_nodes c ! j) = Some i"
    using circuit_okD(4) [OF assms(1,2) i(1)] by auto
  then show False using circuit_okD(7) [OF assms(1), of j k i out] assms(2,3) i(2) by simp
qed

section \<open>The results of the specification\<close>

definition den_state :: "('s, 'd) circuit \<Rightarrow> 's list \<Rightarrow> nat \<Rightarrow> (nat \<Rightarrow> 'd option) \<times> 's list" where
  "den_state c ops k = projr (denote (take k (ci_nodes c)) (Map.empty, ops))"

definition den_result :: "('s, 'd) circuit \<Rightarrow> 's list \<Rightarrow> nat \<Rightarrow> 'd option \<times> 's" where
  "den_result c ops k =
     (let nd = ci_nodes c ! k; (f, os) = den_state c ops k
      in projr (node_sem nd (input_values nd f) (os ! node_address nd)))"

lemma den_step:
  assumes "denote (ci_nodes c) (Map.empty, ops) = Inr r" "k < length (ci_nodes c)"
  shows "denote (take k (ci_nodes c)) (Map.empty, ops) = Inr (den_state c ops k)"
    "node_sem (ci_nodes c ! k) (input_values (ci_nodes c ! k) (fst (den_state c ops k)))
       (snd (den_state c ops k) ! node_address (ci_nodes c ! k)) = Inr (den_result c ops k)"
    "den_state c ops (Suc k) =
       (set_output (node_output (ci_nodes c ! k)) (fst (den_result c ops k)) (fst (den_state c ops k)),
        (snd (den_state c ops k))[node_address (ci_nodes c ! k) := snd (den_result c ops k)])"
proof -
  let ?N = "ci_nodes c" let ?nd = "?N ! k"
  have "denote (take k ?N @ ?nd # drop (Suc k) ?N) (Map.empty, ops) = Inr r"
    using assms by (simp add: id_take_nth_drop [symmetric])
  then obtain x where x: "denote (take k ?N) (Map.empty, ops) = Inr x"
      "denote (?nd # drop (Suc k) ?N) x = Inr r"
    by (auto simp: denote_append res_bind_eq_Inr)
  show 1: "denote (take k ?N) (Map.empty, ops) = Inr (den_state c ops k)"
    using x(1) by (simp add: den_state_def)
  have xk: "x = den_state c ops k" using x(1) by (simp add: den_state_def)
  obtain f os where fo: "den_state c ops k = (f, os)" by fastforce
  obtain d s where ds: "node_sem ?nd (input_values ?nd f) (os ! node_address ?nd) = Inr (d, s)"
    using x(2) xk fo by (auto simp: res_bind_eq_Inr)
  show 2: "node_sem ?nd (input_values ?nd (fst (den_state c ops k)))
      (snd (den_state c ops k) ! node_address ?nd) = Inr (den_result c ops k)"
    using ds fo by (simp add: den_result_def)
  have "denote (take (Suc k) ?N) (Map.empty, ops) =
      denote [?nd] (den_state c ops k)"
    using 1 assms(2) by (simp add: take_Suc_conv_app_nth denote_append)
  then show "den_state c ops (Suc k) =
      (set_output (node_output ?nd) (fst (den_result c ops k)) (fst (den_state c ops k)),
       (snd (den_state c ops k))[node_address ?nd := snd (den_result c ops k)])"
    using 2 fo ds by (simp add: den_state_def [of c ops "Suc k"] den_result_def)
qed

section \<open>The state after some of the nodes\<close>

definition op_value :: "('s, 'd) circuit \<Rightarrow> 's list \<Rightarrow> node_id set \<Rightarrow> nat \<Rightarrow> 's" where
  "op_value c ops Y a =
     (let users = {j \<in> Y. node_address (ci_nodes c ! j) = a}
      in if users = {} then ops ! a else snd (den_result c ops (Max users)))"

definition takes :: "('s, 'd) circuit \<Rightarrow> node_id set \<Rightarrow> nat \<Rightarrow> nat" where
  "takes c Y p = (\<Sum>k\<in>Y. count_list (map st_val (node_takes (ci_nodes c ! k))) p)"

definition produces :: "('s, 'd) circuit \<Rightarrow> node_id \<Rightarrow> nat \<Rightarrow> bool" where
  "produces c j p \<longleftrightarrow> (\<exists>out. node_output (ci_nodes c ! j) = Some out \<and> st_val out = p)"

definition cell_after ::
  "('s, 'd) circuit \<Rightarrow> 's list \<Rightarrow> node_id set \<Rightarrow> nat \<Rightarrow> 'd stream_value \<Rightarrow> 'd stream_value" where
  "cell_after c ops Y p v =
     (if (\<exists>j\<in>Y. produces c j p) \<and> 0 < sv_consumers v
      then v\<lparr>sv_tokens := sv_consumers v - takes c Y p,
             sv_val := (if takes c Y p = sv_consumers v then None
                        else fst (den_state c ops (length (ci_nodes c))) p)\<rparr>
      else v)"

definition store_after :: "('s, 'd) circuit \<Rightarrow> ('s, 'd) store \<Rightarrow> node_id set \<Rightarrow> ('s, 'd) store" where
  "store_after c so Y =
     so\<lparr>so_streams := map (\<lambda>p. cell_after c (so_operators so) Y p (so_streams so ! p)) [0..<length (so_streams so)],
        so_operators := map (op_value c (so_operators so) Y) [0..<length (so_operators so)]\<rparr>"

lemma store_after_simps [simp]:
  "length (so_streams (store_after c so Y)) = length (so_streams so)"
  "length (so_operators (store_after c so Y)) = length (so_operators so)"
  "p < length (so_streams so) \<Longrightarrow>
     so_streams (store_after c so Y) ! p = cell_after c (so_operators so) Y p (so_streams so ! p)"
  "a < length (so_operators so) \<Longrightarrow>
     so_operators (store_after c so Y) ! a = op_value c (so_operators so) Y a"
  by (simp_all add: store_after_def)

lemma store_eqI:
  fixes x y :: "('s, 'd) store"
  assumes "length (so_streams x) = length (so_streams y)" "length (so_operators x) = length (so_operators y)"
    "\<And>p. p < length (so_streams y) \<Longrightarrow> so_streams x ! p = so_streams y ! p"
    "\<And>a. a < length (so_operators y) \<Longrightarrow> so_operators x ! a = so_operators y ! a"
  shows "x = y"
  using assms by (intro store.equality nth_equalityI) simp_all

lemma store_after_empty: "store_after c so {} = so"
  by (rule store_eqI) (simp_all add: cell_after_def op_value_def)

lemma den_state_0 [simp]: "den_state c ops 0 = (Map.empty, ops)"
  by (simp add: den_state_def)

lemma op_value_insert:
  assumes "finite Y" "\<And>j. j \<in> Y \<Longrightarrow> node_address (ci_nodes c ! j) = node_address (ci_nodes c ! k) \<Longrightarrow> j < k"
  shows "op_value c ops (insert k Y) a =
    (if node_address (ci_nodes c ! k) = a then snd (den_result c ops k) else op_value c ops Y a)"
proof (cases "node_address (ci_nodes c ! k) = a")
  case True
  let ?U = "{j \<in> insert k Y. node_address (ci_nodes c ! j) = a}"
  have "finite ?U" using assms(1) by simp
  then have "Max ?U = k" using assms(2) True by (intro Max_eqI) (auto intro: less_imp_le)
  moreover have "?U \<noteq> {}" using True by auto
  ultimately show ?thesis unfolding op_value_def Let_def using True by (simp only: if_False if_True refl)
next
  case False
  then have "{j \<in> insert k Y. node_address (ci_nodes c ! j) = a} = {j \<in> Y. node_address (ci_nodes c ! j) = a}"
    by auto
  then show ?thesis using False by (simp add: op_value_def)
qed

lemma den_operators:
  assumes "denote (ci_nodes c) (Map.empty, ops) = Inr r"
  shows "k \<le> length (ci_nodes c) \<Longrightarrow> length (snd (den_state c ops k)) = length ops \<and>
    (\<forall>a<length ops. snd (den_state c ops k) ! a = op_value c ops {..<k} a)"
proof (induction k)
  case 0
  then show ?case by (simp add: op_value_def)
next
  case (Suc k)
  have st: "snd (den_state c ops (Suc k)) =
      (snd (den_state c ops k))[node_address (ci_nodes c ! k) := snd (den_result c ops k)]"
    using den_step(3) [OF assms] Suc.prems by simp
  show ?case
    using Suc st op_value_insert [of "{..<k}" c k ops] by (auto simp: nth_list_update lessThan_Suc)
qed

lemma den_values:
  assumes "denote (ci_nodes c) (Map.empty, ops) = Inr r" "cells_distinct c"
    "j < length (ci_nodes c)" "node_output (ci_nodes c ! j) = Some out"
  shows "j < k \<Longrightarrow> k \<le> length (ci_nodes c) \<Longrightarrow>
    fst (den_state c ops k) (st_val out) = fst (den_result c ops j)"
proof (induction k)
  case (Suc k)
  have st: "fst (den_state c ops (Suc k)) =
      set_output (node_output (ci_nodes c ! k)) (fst (den_result c ops k)) (fst (den_state c ops k))"
    using den_step(3) [OF assms(1)] Suc.prems by simp
  show ?case
  proof (cases "j = k")
    case True
    then show ?thesis using st assms(4) by (simp add: set_output_def)
  next
    case False
    have "st_val o2 \<noteq> st_val out" if "node_output (ci_nodes c ! k) = Some o2" for o2
      using assms(2-4) that False Suc.prems unfolding cells_distinct_def by (metis Suc_le_eq)
    then show ?thesis using Suc False st by (auto simp: set_output_def split: option.splits)
  qed
qed simp

lemma den_inputs:
  assumes den: "denote (ci_nodes c) (Map.empty, so_operators so) = Inr r" and ok: "circuit_ok c so"
    and k: "k < length (ci_nodes c)"
  shows "input_values (ci_nodes c ! k) (fst (den_state c (so_operators so) k)) =
      input_values (ci_nodes c ! k) (fst (den_state c (so_operators so) (length (ci_nodes c))))"
    "i \<in> set (node_inputs (ci_nodes c ! k)) \<Longrightarrow>
      fst (den_state c (so_operators so) (length (ci_nodes c))) (st_val i) \<noteq> None"
proof -
  let ?ops = "so_operators so" let ?n = "length (ci_nodes c)"
  have "fst (den_state c ?ops k) (st_val i) = fst (den_state c ?ops ?n) (st_val i) \<and>
      fst (den_state c ?ops ?n) (st_val i) \<noteq> None" if i: "i \<in> set (node_inputs (ci_nodes c ! k))" for i
  proof -
    obtain j where j: "j < k" "node_output (ci_nodes c ! j) = Some i"
      using circuit_okD(4) [OF ok k i] by auto
    have "cells_distinct c" using ok by (simp add: circuit_ok_def)
    note v = den_values [OF den this, of j i]
    have "node_sem (ci_nodes c ! j) (input_values (ci_nodes c ! j) (fst (den_state c ?ops j)))
        (snd (den_state c ?ops j) ! node_address (ci_nodes c ! j)) =
        Inr (fst (den_result c ?ops j), snd (den_result c ?ops j))"
      using den_step(2) [OF den, of j] j k by simp
    then have "fst (den_result c ?ops j) \<noteq> None" using node_sem_output j(2) by fastforce
    then show ?thesis using v [of k] v [of ?n] j k by simp
  qed
  then show "input_values (ci_nodes c ! k) (fst (den_state c ?ops k)) =
      input_values (ci_nodes c ! k) (fst (den_state c ?ops ?n))"
    "i \<in> set (node_inputs (ci_nodes c ! k)) \<Longrightarrow> fst (den_state c ?ops ?n) (st_val i) \<noteq> None"
    by (simp_all add: input_values_def)
qed

section \<open>Tokens suffice\<close>

lemma count_filter_split: "count_list (map h (filter P xs)) p + count_list (map h (filter (\<lambda>x. \<not> P x) xs)) p =
    count_list (map h xs) p"
  by (induction xs) auto

lemma takes_le_reads:
  assumes "node_aliases_ok nd"
  shows "count_list (map st_val (node_takes nd)) p \<le> node_reads nd p"
proof (cases nd)
  case (NaryNode g op a ins aliases out)
  have "map (\<lambda>i. st_val (fst (ins ! i))) aliases = map (\<lambda>x. st_val (fst x)) (filter snd ins)"
    using arg_cong [OF alias_indices_nth [of ins], of "map (\<lambda>x. st_val (fst x))"] assms NaryNode
    by (simp add: comp_def)
  moreover have "(\<lambda>(x :: stream, y). \<not> y) = (\<lambda>x. \<not> snd x)" by auto
  ultimately show ?thesis
    using count_filter_split [of "\<lambda>x. st_val (fst x)" snd ins p] NaryNode
    by (simp add: node_reads_def comp_def count_list_append)
qed (auto simp: node_reads_def)

lemma readers_eq: "readers nds p = (\<Sum>k<length nds. node_reads (nds ! k) p)"
  by (simp add: readers_def sum_list_sum_nth atLeast0LessThan)

lemma takes_bound:
  assumes "circuit_ok c so" "Y \<subseteq> {..<length (ci_nodes c)}" "k < length (ci_nodes c)" "k \<notin> Y"
  shows "takes c Y p + node_reads (ci_nodes c ! k) p \<le> readers (ci_nodes c) p"
proof -
  have "takes c Y p \<le> (\<Sum>k\<in>Y. node_reads (ci_nodes c ! k) p)"
    unfolding takes_def using assms(2) circuit_okD(2) [OF assms(1)]
    by (intro sum_mono takes_le_reads) auto
  moreover have "(\<Sum>k\<in>Y. node_reads (ci_nodes c ! k) p) + node_reads (ci_nodes c ! k) p =
      (\<Sum>k\<in>insert k Y. node_reads (ci_nodes c ! k) p)"
    using assms(2,4) finite_subset by (subst sum.insert) auto
  moreover have "\<dots> \<le> readers (ci_nodes c) p"
    unfolding readers_eq using assms(2,3) by (intro sum_mono2) auto
  ultimately show ?thesis by simp
qed

section \<open>Evaluation of the next node\<close>

text \<open>The nodes evaluated so far include, with every node, those that have an edge to it.\<close>

definition down_closed :: "('s, 'd) circuit \<Rightarrow> node_id set \<Rightarrow> bool" where
  "down_closed c Y \<longleftrightarrow>
     Y \<subseteq> {..<length (ci_nodes c)} \<and> (\<forall>e\<in>set (ci_edges c). e_to e \<in> Y \<longrightarrow> e_from e \<in> Y)"

definition next_node :: "('s, 'd) circuit \<Rightarrow> node_id set \<Rightarrow> node_id \<Rightarrow> bool" where
  "next_node c Y k \<longleftrightarrow>
     k < length (ci_nodes c) \<and> k \<notin> Y \<and> (\<forall>e\<in>set (ci_edges c). e_to e = k \<longrightarrow> e_from e \<in> Y)"

lemma down_closed_insert: "down_closed c Y \<Longrightarrow> next_node c Y k \<Longrightarrow> down_closed c (insert k Y)"
  by (auto simp: down_closed_def next_node_def)

lemma down_closed_connected: "down_closed c Y \<Longrightarrow> connected c j k \<Longrightarrow> k \<in> Y \<Longrightarrow> j \<in> Y"
  by (auto simp: down_closed_def connected_def)

lemma next_node_connected: "next_node c Y k \<Longrightarrow> connected c j k \<Longrightarrow> j \<in> Y"
  by (auto simp: next_node_def connected_def)

lemma next_node_users:
  assumes "circuit_ok c so" "down_closed c Y" "next_node c Y k" "j < length (ci_nodes c)"
    "node_address (ci_nodes c ! j) = node_address (ci_nodes c ! k)"
  shows "j \<in> Y \<longleftrightarrow> j < k"
proof (cases j k rule: linorder_cases)
  case less
  have "connected c j k"
    using circuit_okD(8) [OF assms(1) _ less] assms(3,5) by (simp add: next_node_def)
  then show ?thesis using less next_node_connected [OF assms(3)] by simp
next
  case equal
  then show ?thesis using assms(3) by (simp add: next_node_def)
next
  case greater
  have "connected c k j" using circuit_okD(8) [OF assms(1,4) greater] assms(5) by simp
  then show ?thesis
    using greater down_closed_connected [OF assms(2), of k j] assms(3) by (auto simp: next_node_def)
qed

lemma finite_down_closed: "down_closed c Y \<Longrightarrow> finite Y"
  using finite_subset by (auto simp: down_closed_def)

lemma next_node_operator:
  assumes "circuit_ok c so" "down_closed c Y" "next_node c Y k"
  shows "op_value c ops Y (node_address (ci_nodes c ! k)) =
    op_value c ops {..<k} (node_address (ci_nodes c ! k))"
proof -
  have "{j \<in> Y. node_address (ci_nodes c ! j) = node_address (ci_nodes c ! k)} =
      {j \<in> {..<k}. node_address (ci_nodes c ! j) = node_address (ci_nodes c ! k)}"
    using next_node_users [OF assms] assms(2,3)
    by (auto simp: down_closed_def next_node_def subset_iff)
  then show ?thesis by (simp add: op_value_def)
qed

lemma produced_by:
  assumes "circuit_ok c so" "produces c j p" "j < length (ci_nodes c)"
  shows "p < length (so_streams so)" "sv_consumers (so_streams so ! p) = readers (ci_nodes c) p"
    "k < length (ci_nodes c) \<Longrightarrow> produces c k p \<Longrightarrow> k = j"
  using assms circuit_okD(5-7) [OF assms(1)] unfolding produces_def by blast+

lemma reads_produced:
  assumes "circuit_ok c so" "k < length (ci_nodes c)" "p \<in> st_val ` set (node_inputs (ci_nodes c ! k))"
  obtains j where "j < k" "produces c j p" "connected c j k"
  using circuit_okD(4) [OF assms(1,2)] assms(3) unfolding produces_def by blast

lemma takes_insert:
  "finite Y \<Longrightarrow> k \<notin> Y \<Longrightarrow>
   takes c (insert k Y) p = count_list (map st_val (node_takes (ci_nodes c ! k))) p + takes c Y p"
  by (simp add: takes_def)

lemma node_takes_subset: "node_aliases_ok nd \<Longrightarrow> st_val ` set (node_takes nd) \<subseteq> st_val ` set (node_inputs nd)"
proof
  fix p assume "node_aliases_ok nd" "p \<in> st_val ` set (node_takes nd)"
  then have "0 < node_reads nd p"
    using takes_le_reads [of nd p] count_list_0_iff [of "map st_val (node_takes nd)" p] by force
  then show "p \<in> st_val ` set (node_inputs nd)"
    using count_list_0_iff [of "map st_val (node_inputs nd)" p] by (auto simp: node_reads_def)
qed

lemma takes_unread:
  assumes "circuit_ok c so" "down_closed c Y" "k \<notin> Y" "k < length (ci_nodes c)" "produces c k p"
  shows "takes c Y p = 0"
proof -
  have "count_list (map st_val (node_takes (ci_nodes c ! m))) p = 0" if m: "m \<in> Y" for m
  proof (rule ccontr)
    assume "\<not> ?thesis"
    then have p: "p \<in> st_val ` set (node_takes (ci_nodes c ! m))"
      using count_list_0_iff [of "map st_val (node_takes (ci_nodes c ! m))" p] by simp
    have mn: "m < length (ci_nodes c)" using m assms(2) by (auto simp: down_closed_def)
    obtain j where "j < m" "produces c j p" "connected c j m"
      using reads_produced [OF assms(1) mn] p node_takes_subset [OF circuit_okD(2) [OF assms(1) mn]] by blast
    then show False
      using produced_by(3) [OF assms(1,5,4), of j] mn down_closed_connected [OF assms(2) _ m] assms(3) by auto
  qed
  then show ?thesis by (simp add: takes_def)
qed

lemma next_inputs:
  assumes den: "denote (ci_nodes c) (Map.empty, so_operators so) = Inr r" and ok: "circuit_ok c so"
    and Y: "down_closed c Y" "next_node c Y k"
    and p: "p \<in> st_val ` set (node_inputs (ci_nodes c ! k))"
  shows "p < length (so_streams so)" "\<exists>j\<in>Y. produces c j p" "\<not> produces c k p"
    "sv_consumers (so_streams so ! p) = readers (ci_nodes c) p"
    "fst (den_state c (so_operators so) (length (ci_nodes c))) p \<noteq> None"
    "takes c Y p + node_reads (ci_nodes c ! k) p \<le> readers (ci_nodes c) p"
    "0 < node_reads (ci_nodes c ! k) p"
proof -
  have k: "k < length (ci_nodes c)" "k \<notin> Y" using Y(2) by (simp_all add: next_node_def)
  obtain j where j: "j < k" "produces c j p" "connected c j k" by (rule reads_produced [OF ok k(1) p])
  then have jY: "j \<in> Y" using next_node_connected [OF Y(2)] by simp
  note pb = produced_by [OF ok j(2)]
  show "0 < node_reads (ci_nodes c ! k) p"
    using p count_list_0_iff [of "map st_val (node_inputs (ci_nodes c ! k))" p] by (simp add: node_reads_def)
  show "fst (den_state c (so_operators so) (length (ci_nodes c))) p \<noteq> None"
    using p den_inputs(2) [OF den ok k(1)] by auto
  show "takes c Y p + node_reads (ci_nodes c ! k) p \<le> readers (ci_nodes c) p"
    using takes_bound [OF ok _ k] Y(1) by (simp add: down_closed_def)
  show "p < length (so_streams so)" "sv_consumers (so_streams so ! p) = readers (ci_nodes c) p"
    "\<exists>j\<in>Y. produces c j p"
    using pb(1,2) j(1,2) jY k(1) by auto
  show "\<not> produces c k p" using pb(3) [of k] j(1) k(1) by auto
qed

lemma commit_cells:
  assumes den: "denote (ci_nodes c) (Map.empty, so_operators so) = Inr r" and ok: "circuit_ok c so"
    and Y: "down_closed c Y" "next_node c Y k" and p: "p < length (so_streams so)"
  shows "put_cell (node_output (ci_nodes c ! k)) (fst (den_result c (so_operators so) k))
      (drains (map st_val (node_takes (ci_nodes c ! k))) (so_streams (store_after c so Y))) ! p =
    cell_after c (so_operators so) (insert k Y) p (so_streams so ! p)"
proof -
  let ?nd = "ci_nodes c ! k" let ?v = "so_streams so ! p" let ?t = "map st_val (node_takes ?nd)"
  let ?xs = "so_streams (store_after c so Y)"
  have k: "k < length (ci_nodes c)" "k \<notin> Y" using Y(2) by (simp_all add: next_node_def)
  have sub: "set ?t \<subseteq> st_val ` set (node_inputs ?nd)"
    using node_takes_subset [OF circuit_okD(2) [OF ok k(1)]] by simp
  have ti: "takes c (insert k Y) p = count_list ?t p + takes c Y p"
    by (rule takes_insert [OF finite_down_closed [OF Y(1)] k(2)])
  show ?thesis
  proof (cases "produces c k p")
    case True
    then obtain out where out: "node_output ?nd = Some out" "st_val out = p" by (auto simp: produces_def)
    have nt: "p \<notin> set ?t" using output_not_input [OF ok k(1) out(1)] out(2) sub by auto
    have t0: "takes c (insert k Y) p = 0"
      using ti nt takes_unread [OF ok Y(1) k(2,1) True] count_list_0_iff [of ?t p] by simp
    have "\<not> (\<exists>j\<in>Y. produces c j p)"
      using produced_by(3) [OF ok True k(1)] Y(1) k(2) unfolding down_closed_def by blast
    then have v: "drains ?t ?xs ! p = ?v" using nt p by (simp add: nth_drains_other cell_after_def)
    have cd: "cells_distinct c" using ok by (simp add: circuit_ok_def)
    have d: "fst (den_state c (so_operators so) (length (ci_nodes c))) p = fst (den_result c (so_operators so) k)"
      using den_values [OF den cd k(1) out(1)] k(1) out(2) by simp
    obtain d where dd: "fst (den_result c (so_operators so) k) = Some d"
      using node_sem_output [of ?nd _ _ "fst (den_result c (so_operators so) k)"
          "snd (den_result c (so_operators so) k)"] den_step(2) [OF den k(1)] out(1) by fastforce
    show ?thesis
      using True v t0 d dd out p by (simp add: put_cell_def cell_after_def sv_put_def)
  next
    case False
    then have put: "put_cell (node_output ?nd) (fst (den_result c (so_operators so) k)) xs ! p = xs ! p" for xs
      by (auto simp: put_cell_def produces_def split: option.splits)
    have pr: "(\<exists>j\<in>insert k Y. produces c j p) \<longleftrightarrow> (\<exists>j\<in>Y. produces c j p)" using False by auto
    show ?thesis
    proof (cases "p \<in> set ?t")
      case False
      then show ?thesis
        using put pr ti p count_list_0_iff [of ?t p] by (simp add: nth_drains_other cell_after_def)
    next
      case True
      then have "p \<in> st_val ` set (node_inputs ?nd)" using sub by auto
      note I = next_inputs [OF den ok Y this]
      have le: "count_list ?t p \<le> node_reads ?nd p"
        by (rule takes_le_reads [OF circuit_okD(2) [OF ok k(1)]])
      have pos: "0 < count_list ?t p" using True count_list_0_iff [of ?t p] by (metis neq0_conv)
      have cell: "?xs ! p = ?v\<lparr>sv_tokens := readers (ci_nodes c) p - takes c Y p,
          sv_val := fst (den_state c (so_operators so) (length (ci_nodes c))) p\<rparr>"
        using I p by (simp add: cell_after_def)
      have "count_list ?t p \<le> sv_tokens (?xs ! p)" using cell I(6) le by simp
      note D = nth_drains [OF _ this]
      have "drains ?t ?xs ! p = cell_after c (so_operators so) (insert k Y) p ?v"
        using D p cell I pr ti True le pos
        by (intro stream_value.equality) (auto simp: cell_after_def)
      then show ?thesis using put by simp
    qed
  qed
qed

lemma eval_next_node:
  assumes den: "denote (ci_nodes c) (Map.empty, so_operators so) = Inr r" and ok: "circuit_ok c so"
    and bv: "\<forall>nd\<in>set (ci_nodes c). node_by_value nd"
    and Y: "down_closed c Y" "next_node c Y k"
  shows "circuit_eval_node c k (store_after c so Y) = Inr (store_after c so (insert k Y))"
proof -
  let ?nd = "ci_nodes c ! k" let ?ops = "so_operators so" let ?n = "length (ci_nodes c)"
  let ?f = "fst (den_state c ?ops ?n)" let ?so = "store_after c so Y"
  have k: "k < ?n" using Y(2) by (simp add: next_node_def)
  note I = next_inputs [OF den ok Y]
  have serve: "served (\<lambda>p. the (?f p)) (map st_val (node_inputs ?nd)) (so_streams ?so)"
    unfolding served_def
  proof
    fix p assume "p \<in> set (map st_val (node_inputs ?nd))"
    then have p: "p \<in> st_val ` set (node_inputs ?nd)" by simp
    show "p < length (so_streams ?so) \<and> sv_val (so_streams ?so ! p) = Some (the (?f p)) \<and>
        count_list (map st_val (node_inputs ?nd)) p \<le> sv_tokens (so_streams ?so ! p)"
      using I [OF p] by (auto simp: node_reads_def cell_after_def)
  qed
  have "node_serves (\<lambda>p. the (?f p)) ?nd ?so"
    using serve bv k circuit_okD(2) [OF ok k] output_not_input [OF ok k] by (simp add: node_serves_def)
  note ev = node_eval_sem [OF this]
  have opv: "so_operators ?so ! node_address ?nd = snd (den_state c ?ops k) ! node_address ?nd"
    using den_operators [OF den, of k] k circuit_okD(3) [OF ok k] next_node_operator [OF ok Y] by simp
  have "node_eval ?nd ?so = Inr (commit ?nd (fst (den_result c ?ops k)) (snd (den_result c ?ops k)) ?so)"
    using ev den_step(2) [OF den k] den_inputs(1) [OF den ok k] opv
    by (simp add: input_values_def [of ?nd ?f, symmetric] case_prod_unfold)
  moreover have "commit ?nd (fst (den_result c ?ops k)) (snd (den_result c ?ops k)) ?so =
      store_after c so (insert k Y)"
  proof (rule store_eqI)
    fix a assume a: "a < length (so_operators (store_after c so (insert k Y)))"
    have "op_value c ?ops (insert k Y) a =
        (if node_address ?nd = a then snd (den_result c ?ops k) else op_value c ?ops Y a)"
      using next_node_users [OF ok Y] Y(1)
      by (intro op_value_insert finite_down_closed [OF Y(1)]) (auto simp: down_closed_def)
    then show "so_operators (commit ?nd (fst (den_result c ?ops k)) (snd (den_result c ?ops k)) ?so) ! a =
        so_operators (store_after c so (insert k Y)) ! a"
      using a by (simp add: commit_def nth_list_update)
  qed (use commit_cells [OF den ok Y] in \<open>simp_all add: commit_def put_cell_def split: option.splits\<close>)
  ultimately show ?thesis using k by (simp add: circuit_eval_node_def)
qed

lemma eval_schedule_from:
  assumes den: "denote (ci_nodes c) (Map.empty, so_operators so) = Inr r" and ok: "circuit_ok c so"
    and bv: "\<forall>nd\<in>set (ci_nodes c). node_by_value nd"
  shows "down_closed c (set ys) \<Longrightarrow> schedule_from c ys xs \<Longrightarrow>
    eval_nodes c xs (store_after c so (set ys)) = Inr (store_after c so (set ys \<union> set xs))"
proof (induction xs arbitrary: ys)
  case (Cons k ks)
  have nx: "next_node c (set ys) k" using Cons.prems(2) by (simp add: next_node_def)
  have "down_closed c (set (ys @ [k]))" using down_closed_insert [OF Cons.prems(1) nx] by simp
  then show ?case
    using Cons.IH [of "ys @ [k]"] Cons.prems(2) eval_next_node [OF den ok bv Cons.prems(1) nx]
    by simp
qed simp

section \<open>A clock cycle\<close>

lemma schedule_from_nodes:
  "schedule_from c ys xs \<Longrightarrow> distinct ys \<Longrightarrow> distinct (ys @ xs) \<and> set xs \<subseteq> {..<length (ci_nodes c)}"
proof (induction xs arbitrary: ys)
  case (Cons k ks)
  then show ?case using Cons.IH [of "ys @ [k]"] by auto
qed simp

lemma schedule_nodes: "schedule c xs \<Longrightarrow> set xs = {..<length (ci_nodes c)}"
  using schedule_from_nodes [of c "[]" xs] card_subset_eq [of "{..<length (ci_nodes c)}" "set xs"]
  by (simp add: schedule_def distinct_card)

lemma den_state_all:
  "denote (ci_nodes c) (Map.empty, ops) = Inr r \<Longrightarrow> den_state c ops (length (ci_nodes c)) = r"
  by (simp add: den_state_def)

text \<open>
  The store after a cycle.  The cell of a stream holds a value only while it has tokens left.
\<close>

lemma eval_schedule:
  assumes den: "denote (ci_nodes c) (Map.empty, so_operators so) = Inr r" and ok: "circuit_ok c so"
    and bv: "\<forall>nd\<in>set (ci_nodes c). node_by_value nd" and xs: "schedule c xs"
  shows "eval_nodes c xs so = Inr (store_after c so {..<length (ci_nodes c)})"
  using eval_schedule_from [OF den ok bv, of "[]" xs] xs schedule_nodes [OF xs]
  by (simp add: schedule_def store_after_empty down_closed_def)

lemma cell_after_consumers [simp]: "sv_consumers (cell_after c ops Y p v) = sv_consumers v"
  by (simp add: cell_after_def)

lemma circuit_ok_store_after: "circuit_ok c so \<Longrightarrow> circuit_ok c (store_after c so Y)"
  by (simp add: circuit_ok_def nodes_ok_def outputs_ok_def)

lemma store_after_operators:
  assumes "denote (ci_nodes c) (Map.empty, so_operators so) = Inr (f, ops)"
  shows "so_operators (store_after c so {..<length (ci_nodes c)}) = ops"
  using den_operators [OF assms, of "length (ci_nodes c)"] den_state_all [OF assms]
  by (intro nth_equalityI) simp_all

text \<open>Nodes that take the token of each of their inputs.\<close>

fun takes_all :: "('s, 'd) node \<Rightarrow> bool" where
  "takes_all (TernaryNode g op a i1 i2 i3 out al1 al2) \<longleftrightarrow> \<not> al1 \<and> \<not> al2"
| "takes_all (QuaternaryNode g op a i1 i2 i3 i4 out al1 al2 al3) \<longleftrightarrow> \<not> al1 \<and> \<not> al2 \<and> \<not> al3"
| "takes_all nd \<longleftrightarrow> True"

lemma takes_all_reads:
  assumes "node_aliases_ok nd" "takes_all nd"
  shows "count_list (map st_val (node_takes nd)) p = node_reads nd p"
proof (cases nd)
  case (NaryNode g op a ins aliases out)
  have "map (\<lambda>i. st_val (fst (ins ! i))) aliases = map (\<lambda>x. st_val (fst x)) (filter snd ins)"
    using arg_cong [OF alias_indices_nth [of ins], of "map (\<lambda>x. st_val (fst x))"] assms(1) NaryNode
    by (simp add: comp_def)
  moreover have "(\<lambda>(x :: stream, y). \<not> y) = (\<lambda>x. \<not> snd x)" by auto
  ultimately show ?thesis
    using count_filter_split [of "\<lambda>x. st_val (fst x)" snd ins p] NaryNode
    by (simp add: node_reads_def comp_def count_list_append)
qed (use assms in \<open>auto simp: node_reads_def\<close>)

lemma cycle_tokens:
  assumes ok: "circuit_ok c so" and k: "k < length (ci_nodes c)" "node_output (ci_nodes c ! k) = Some out"
  defines "v \<equiv> so_streams (store_after c so {..<length (ci_nodes c)}) ! st_val out"
  shows "0 < sv_consumers v \<Longrightarrow>
      sv_tokens v = readers (ci_nodes c) (st_val out) - takes c {..<length (ci_nodes c)} (st_val out)"
    "0 < sv_consumers v \<Longrightarrow> sv_val v =
      (if sv_tokens v = 0 then None else fst (den_state c (so_operators so) (length (ci_nodes c))) (st_val out))"
proof -
  note P = circuit_okD(5,6) [OF ok k]
  have pr: "\<exists>j\<in>{..<length (ci_nodes c)}. produces c j (st_val out)" using k by (auto simp: produces_def)
  have le: "takes c {..<length (ci_nodes c)} (st_val out) \<le> readers (ci_nodes c) (st_val out)"
    unfolding takes_def readers_eq using circuit_okD(2) [OF ok] by (intro sum_mono takes_le_reads) simp
  then show "0 < sv_consumers v \<Longrightarrow>
      sv_tokens v = readers (ci_nodes c) (st_val out) - takes c {..<length (ci_nodes c)} (st_val out)"
    "0 < sv_consumers v \<Longrightarrow> sv_val v =
      (if sv_tokens v = 0 then None else fst (den_state c (so_operators so) (length (ci_nodes c))) (st_val out))"
    using P pr le_antisym [OF le] by (auto simp: v_def cell_after_def)
qed

lemma all_tokens_taken:
  assumes ok: "circuit_ok c so" and all: "\<forall>nd\<in>set (ci_nodes c). takes_all nd"
  shows "takes c {..<length (ci_nodes c)} p = readers (ci_nodes c) p"
  unfolding takes_def readers_eq using circuit_okD(2) [OF ok] all
  by (intro sum.cong takes_all_reads) simp_all

section \<open>Consecutive clock cycles\<close>

fun eval_cycles :: "('s, 'd) circuit \<Rightarrow> node_id list list \<Rightarrow> ('s, 'd) store \<Rightarrow> ('s, 'd) store res" where
  "eval_cycles c [] so = Inr so"
| "eval_cycles c (xs # xss) so = res_bind (eval_nodes c xs so) (eval_cycles c xss)"

text \<open>The values of the streams in each cycle, and the states of the operators at the end.\<close>

fun denote_cycles ::
  "('s, 'd) node list \<Rightarrow> nat \<Rightarrow> 's list \<Rightarrow> ((nat \<Rightarrow> 'd option) list \<times> 's list) res" where
  "denote_cycles nds 0 ops = Inr ([], ops)"
| "denote_cycles nds (Suc n) ops =
     res_bind (denote nds (Map.empty, ops)) (\<lambda>(f, ops).
       res_map (\<lambda>(fs, ops). (f # fs, ops)) (denote_cycles nds n ops))"

lemma eval_cycles_ok:
  assumes bv: "\<forall>nd\<in>set (ci_nodes c). node_by_value nd" and "\<forall>xs\<in>set xss. schedule c xs"
    and "circuit_ok c so" "denote_cycles (ci_nodes c) (length xss) (so_operators so) = Inr (fs, ops)"
  shows "\<exists>so'. eval_cycles c xss so = Inr so' \<and> so_operators so' = ops \<and> circuit_ok c so'"
  using assms(2-4)
proof (induction xss arbitrary: so fs)
  case (Cons xs xss)
  obtain f ops1 fs' where den: "denote (ci_nodes c) (Map.empty, so_operators so) = Inr (f, ops1)"
      "denote_cycles (ci_nodes c) (length xss) ops1 = Inr (fs', ops)"
    using Cons.prems(3) by (auto simp: res_bind_eq_Inr res_map_eq_Inr)
  let ?so = "store_after c so {..<length (ci_nodes c)}"
  have "eval_nodes c xs so = Inr ?so"
    using eval_schedule [OF den(1) Cons.prems(2) bv] Cons.prems(1) by simp
  then show ?case
    using Cons.IH [of ?so fs'] Cons.prems(1) circuit_ok_store_after [OF Cons.prems(2)]
      store_after_operators [OF den(1)] den(2) by simp
qed simp

end
