(* ===== verification/Circuit_Built.thy ===== *)
theory Circuit_Built
  imports Circuit_Dataflow
begin

text \<open>
  Circuits made by the constructors of \<^verbatim>\<open>Circuit_Builder\<close> are well formed: the inductive predicate
  \<open>built\<close> allows any sequence of calls, with streams and feedback connectors that earlier calls
  returned.
\<close>

section \<open>Adding one node\<close>

definition stream_of :: "('s, 'd) circuit \<Rightarrow> stream \<Rightarrow> bool" where
  "stream_of c st \<longleftrightarrow> (\<exists>nd\<in>set (ci_nodes c). node_output nd = Some st)"

lemma stream_ofE:
  assumes "stream_of c st"
  obtains j where "j < length (ci_nodes c)" "node_output (ci_nodes c ! j) = Some st"
  using assms by (auto simp: stream_of_def in_set_conv_nth)

lemma stream_of_facts:
  assumes "circuit_ok c so" "stream_of c st"
  shows "st_circuit st = ci_global_node_id c" "st_val st < length (so_streams so)"
    "st_local_node_id st < length (ci_nodes c)" "node_output (ci_nodes c ! st_local_node_id st) = Some st"
    "st_origin_node_id st = gid_child (ci_global_node_id c) (st_local_node_id st)"
proof -
  obtain j where "j < length (ci_nodes c)" "node_output (ci_nodes c ! j) = Some st"
    by (rule stream_ofE [OF assms(2)])
  moreover have "outputs_ok c so" using assms(1) by (simp add: circuit_ok_def)
  ultimately show "st_circuit st = ci_global_node_id c" "st_val st < length (so_streams so)"
    "st_local_node_id st < length (ci_nodes c)" "node_output (ci_nodes c ! st_local_node_id st) = Some st"
    "st_origin_node_id st = gid_child (ci_global_node_id c) (st_local_node_id st)"
    by (auto simp: outputs_ok_def)
qed

text \<open>Streams of one circuit with the same origin are the same stream.\<close>

lemma ptr_eq_cells:
  assumes "circuit_ok c so" "stream_of c i1" "stream_of c i2"
  shows "stream_ptr_eq i1 i2 \<longleftrightarrow> st_val i1 = st_val i2"
proof -
  note f1 = stream_of_facts [OF assms(1,2)] and f2 = stream_of_facts [OF assms(1,3)]
  have 1: "st_val i1 = st_val i2" if "st_local_node_id i1 = st_local_node_id i2"
    using f1(4) f2(4) that by (metis option.inject)
  have 2: "st_local_node_id i1 = st_local_node_id i2" if "st_val i1 = st_val i2"
    using circuit_okD(7) [OF assms(1) f1(3) f2(3) f1(4) f2(4) that] .
  have "stream_ptr_eq i1 i2 \<longleftrightarrow> st_local_node_id i1 = st_local_node_id i2"
    unfolding stream_ptr_eq_def f1(5) f2(5) by simp
  then show ?thesis using 1 2 by blast
qed

lemma readers_append [simp]: "readers (nds @ mds) p = readers nds p + readers mds p"
  by (simp add: readers_def)

lemma readers_single [simp]: "readers [nd] p = node_reads nd p"
  by (simp add: readers_def)

lemma readers_fresh:
  assumes "circuit_ok c so" "length (so_streams so) \<le> p"
  shows "readers (ci_nodes c) p = 0"
proof -
  have "node_reads (ci_nodes c ! k) p = 0" if k: "k < length (ci_nodes c)" for k
  proof -
    have "p \<notin> st_val ` set (node_inputs (ci_nodes c ! k))"
    proof
      assume "p \<in> st_val ` set (node_inputs (ci_nodes c ! k))"
      then obtain j where "j < k" "produces c j p" by (rule reads_produced [OF assms(1) k])
      then show False using produced_by(1) [OF assms(1), of j p] k assms(2) by simp
    qed
    then show ?thesis
      using count_list_0_iff [of "map st_val (node_inputs (ci_nodes c ! k))" p] by (simp add: node_reads_def)
  qed
  then show ?thesis by (simp add: readers_eq)
qed

text \<open>What a constructor does to the circuit and the store.\<close>

definition node_added ::
  "('s, 'd) circuit \<Rightarrow> ('s, 'd) store \<Rightarrow> ('s, 'd) node \<Rightarrow> edge list \<Rightarrow> ('s, 'd) circuit \<Rightarrow> ('s, 'd) store \<Rightarrow> bool"
where
  "node_added c so nd es c' so' \<longleftrightarrow>
     ci_nodes c' = ci_nodes c @ [nd] \<and> ci_edges c' = ci_edges c @ es \<and>
     ci_global_node_id c' = ci_global_node_id c \<and>
     length (so_streams so) \<le> length (so_streams so') \<and> length (so_operators so) \<le> length (so_operators so') \<and>
     (\<forall>p<length (so_streams so).
        sv_consumers (so_streams so' ! p) = sv_consumers (so_streams so ! p) + node_reads nd p) \<and>
     (\<forall>p<length (so_streams so'). length (so_streams so) \<le> p \<longrightarrow> sv_consumers (so_streams so' ! p) = 0)"

definition node_fits ::
  "('s, 'd) circuit \<Rightarrow> ('s, 'd) store \<Rightarrow> ('s, 'd) node \<Rightarrow> edge list \<Rightarrow> ('s, 'd) store \<Rightarrow> bool" where
  "node_fits c so nd es so' \<longleftrightarrow>
     global_id nd = gid_child (ci_global_node_id c) (length (ci_nodes c)) \<and> node_aliases_ok nd \<and>
     node_address nd < length (so_operators so') \<and>
     (\<forall>i\<in>set (node_inputs nd). stream_of c i \<and>
        (\<exists>e\<in>set es. e_from e = st_local_node_id i \<and> e_to e = length (ci_nodes c) \<and>
           e_origin e = st_origin_node_id i \<and> e_preference e \<noteq> None)) \<and>
     (\<forall>out. node_output nd = Some out \<longrightarrow> st_local_node_id out = length (ci_nodes c) \<and>
        st_origin_node_id out = gid_child (ci_global_node_id c) (length (ci_nodes c)) \<and>
        st_circuit out = ci_global_node_id c \<and>
        length (so_streams so) \<le> st_val out \<and> st_val out < length (so_streams so')) \<and>
     (\<forall>j<length (ci_nodes c). node_address (ci_nodes c ! j) = node_address nd \<longrightarrow>
        (\<exists>e\<in>set es. e_from e = j \<and> e_to e = length (ci_nodes c))) \<and>
     (\<forall>e\<in>set es. e_from e < length (ci_nodes c) \<and> e_to e = length (ci_nodes c))"

lemma circuit_ok_add:
  assumes ok: "circuit_ok c so" and add: "node_added c so nd es c' so'" and fit: "node_fits c so nd es so'"
  shows "circuit_ok c' so'"
proof -
  let ?n = "length (ci_nodes c)"
  have N: "ci_nodes c' = ci_nodes c @ [nd]" "ci_edges c' = ci_edges c @ es"
      "ci_global_node_id c' = ci_global_node_id c"
    and len: "length (so_streams so) \<le> length (so_streams so')" "length (so_operators so) \<le> length (so_operators so')"
    and con: "\<And>p. p < length (so_streams so) \<Longrightarrow>
        sv_consumers (so_streams so' ! p) = sv_consumers (so_streams so ! p) + node_reads nd p"
      "\<And>p. p < length (so_streams so') \<Longrightarrow> length (so_streams so) \<le> p \<Longrightarrow> sv_consumers (so_streams so' ! p) = 0"
    using add by (simp_all add: node_added_def)
  have fit_in: "\<And>i. i \<in> set (node_inputs nd) \<Longrightarrow> stream_of c i"
      "\<And>i. i \<in> set (node_inputs nd) \<Longrightarrow> \<exists>e\<in>set es. e_from e = st_local_node_id i \<and> e_to e = ?n \<and>
        e_origin e = st_origin_node_id i \<and> e_preference e \<noteq> None"
    and fit_out: "\<And>out. node_output nd = Some out \<Longrightarrow> st_local_node_id out = ?n \<and>
        st_origin_node_id out = gid_child (ci_global_node_id c) ?n \<and> st_circuit out = ci_global_node_id c \<and>
        length (so_streams so) \<le> st_val out \<and> st_val out < length (so_streams so')"
    using fit unfolding node_fits_def by blast+
  have conn: "connected c j k \<Longrightarrow> connected c' j k" for j k using N(2) by (auto simp: connected_def)
  have fds: "feeds c i k \<Longrightarrow> feeds c' i k" for i k using N(2) by (auto simp: feeds_def)
  have nth: "ci_nodes c' ! k = (if k < ?n then ci_nodes c ! k else nd)" if "k < length (ci_nodes c')" for k
    using that N(1) by (simp add: nth_append)
  have old: "nodes_ok c so" "inputs_ok c" "outputs_ok c so" "cells_distinct c" "operators_ok c" "edges_ok c"
    using ok by (simp_all add: circuit_ok_def)
  have "nodes_ok c' so'"
    using old(1) fit len nth N(1,3) by (auto simp: nodes_ok_def node_fits_def less_Suc_eq)
  moreover have "inputs_ok c'"
    unfolding inputs_ok_def
  proof (intro allI impI ballI)
    fix k i assume k: "k < length (ci_nodes c')" and i: "i \<in> set (node_inputs (ci_nodes c' ! k))"
    show "\<exists>j<k. node_output (ci_nodes c' ! j) = Some i \<and> connected c' j k \<and> feeds c' i k"
    proof (cases "k < ?n")
      case True
      then obtain j where "j < k" "node_output (ci_nodes c ! j) = Some i" "connected c j k" "feeds c i k"
        using circuit_okD(4) [OF ok, of k i] i nth [OF k] by auto
      then show ?thesis using True nth [of j] k conn fds by auto
    next
      case False
      then have kn: "k = ?n" using k N(1) by simp
      then have i': "i \<in> set (node_inputs nd)" using i nth [OF k] by simp
      note S = stream_of_facts [OF ok fit_in(1) [OF i']]
      have "connected c' (st_local_node_id i) k" "feeds c' i k"
        using fit_in(2) [OF i'] N(2) kn by (auto simp: connected_def feeds_def)
      then show ?thesis using S(3,4) kn nth [of "st_local_node_id i"] N(1) by auto
    qed
  qed
  moreover have "outputs_ok c' so'"
    unfolding outputs_ok_def
  proof (intro allI impI)
    fix k out assume k: "k < length (ci_nodes c')" and out: "node_output (ci_nodes c' ! k) = Some out"
    show "st_local_node_id out = k \<and> st_origin_node_id out = gid_child (ci_global_node_id c') k \<and>
        st_circuit out = ci_global_node_id c' \<and> st_val out < length (so_streams so') \<and>
        sv_consumers (so_streams so' ! st_val out) = readers (ci_nodes c') (st_val out)"
    proof (cases "k < ?n")
      case True
      then have "node_output (ci_nodes c ! k) = Some out" using out nth [OF k] by simp
      then show ?thesis using old(3) True con(1) [of "st_val out"] len N by (auto simp: outputs_ok_def)
    next
      case False
      then have kn: "k = ?n" using k N(1) by simp
      then have F: "node_output nd = Some out" using out nth [OF k] by simp
      note F = fit_out [OF F]
      have "node_reads nd (st_val out) = 0"
      proof -
        have "st_val out \<notin> st_val ` set (node_inputs nd)"
          using stream_of_facts(2) [OF ok fit_in(1)] F by fastforce
        then show ?thesis
          using count_list_0_iff [of "map st_val (node_inputs nd)" "st_val out"] by (simp add: node_reads_def)
      qed
      then show ?thesis
        using F kn con(2) [of "st_val out"] readers_fresh [OF ok, of "st_val out"] N by simp
    qed
  qed
  moreover have "cells_distinct c'"
    unfolding cells_distinct_def
  proof (intro allI impI)
    fix j k o1 o2
    assume jk: "j < length (ci_nodes c')" "k < length (ci_nodes c')"
      and o: "node_output (ci_nodes c' ! j) = Some o1" "node_output (ci_nodes c' ! k) = Some o2"
        "st_val o1 = st_val o2"
    have lt: "st_val out < length (so_streams so)" if "m < ?n" "node_output (ci_nodes c ! m) = Some out" for m out
      using circuit_okD(5) [OF ok that] .
    have new: "length (so_streams so) \<le> st_val out" if "node_output nd = Some out" for out
      using fit_out [OF that] by simp
    consider "j < ?n" "k < ?n" | "j < ?n" "k = ?n" | "j = ?n" "k < ?n" | "j = ?n" "k = ?n"
      using jk N(1) by (fastforce simp: less_Suc_eq)
    then show "j = k"
    proof cases
      case 1
      then show ?thesis using circuit_okD(7) [OF ok 1, of o1 o2] o nth [OF jk(1)] nth [OF jk(2)] by simp
    next
      case 2
      then show ?thesis using lt [of j o1] new [of o2] o nth [OF jk(1)] nth [OF jk(2)] by simp
    next
      case 3
      then show ?thesis using lt [of k o2] new [of o1] o nth [OF jk(1)] nth [OF jk(2)] by simp
    qed simp
  qed
  moreover have "operators_ok c'"
    unfolding operators_ok_def
  proof (intro allI impI)
    fix k j assume k: "k < length (ci_nodes c')" "j < k"
      and a: "node_address (ci_nodes c' ! j) = node_address (ci_nodes c' ! k)"
    show "connected c' j k"
    proof (cases "k < ?n")
      case True
      then show ?thesis using circuit_okD(8) [OF ok, of k j] k a nth [of j] nth [of k] conn by simp
    next
      case False
      then have "k = ?n" using k N(1) by simp
      then show ?thesis
        using fit k a nth [of j] nth [of k] N by (auto simp: node_fits_def connected_def)
    qed
  qed
  moreover have "edges_ok c'"
    using old(6) fit N by (auto simp: edges_ok_def node_fits_def)
  ultimately show ?thesis by (simp add: circuit_ok_def)
qed

section \<open>Connections\<close>

definition stream_edge :: "node_id \<Rightarrow> stream \<times> ownership_preference \<Rightarrow> edge" where
  "stream_edge to sp =
     \<lparr>e_from = st_local_node_id (fst sp), e_to = to, e_origin = st_origin_node_id (fst sp),
      e_preference = Some (snd sp)\<rparr>"

definition same_frame :: "('s, 'd) builder \<Rightarrow> ('s, 'd) builder \<Rightarrow> bool" where
  "same_frame b b' \<longleftrightarrow>
     ci_nodes (bu_circuit b') = ci_nodes (bu_circuit b) \<and>
     ci_global_node_id (bu_circuit b') = ci_global_node_id (bu_circuit b) \<and>
     ci_node_id (bu_circuit b') = ci_node_id (bu_circuit b) \<and>
     ci_cache (bu_circuit b') = ci_cache (bu_circuit b) \<and>
     so_operators (bu_store b') = so_operators (bu_store b) \<and>
     length (so_streams (bu_store b')) = length (so_streams (bu_store b))"

lemma connect_stream_effect:
  assumes "st_circuit st = ci_global_node_id (bu_circuit b)" "st_val st < length (so_streams (bu_store b))"
  shows "\<exists>b'. connect_stream st to pref b = Inr b' \<and> same_frame b b' \<and>
    ci_edges (bu_circuit b') = ci_edges (bu_circuit b) @ [stream_edge to (st, pref)] \<and>
    (\<forall>p<length (so_streams (bu_store b)). sv_consumers (so_streams (bu_store b') ! p) =
       sv_consumers (so_streams (bu_store b) ! p) + (if p = st_val st then 1 else 0))"
  using assms
  by (auto simp: connect_stream_def same_frame_def log_circuit_event_def circuit_add_edge_def set_cell_def
    stream_cell_def stream_edge_def nth_list_update Let_def)

lemma connect_streams_effect:
  assumes "\<forall>sp\<in>set sts. st_circuit (fst sp) = ci_global_node_id (bu_circuit b) \<and>
    st_val (fst sp) < length (so_streams (bu_store b))"
  shows "\<exists>b'. connect_streams sts to b = Inr b' \<and> same_frame b b' \<and>
    ci_edges (bu_circuit b') = ci_edges (bu_circuit b) @ map (stream_edge to) sts \<and>
    (\<forall>p<length (so_streams (bu_store b)). sv_consumers (so_streams (bu_store b') ! p) =
       sv_consumers (so_streams (bu_store b) ! p) + count_list (map (\<lambda>sp. st_val (fst sp)) sts) p)"
  using assms
proof (induction sts arbitrary: b)
  case Nil
  then show ?case by (simp add: same_frame_def)
next
  case (Cons sp sts)
  obtain st pref where sp: "sp = (st, pref)" by fastforce
  obtain b1 where b1: "connect_stream st to pref b = Inr b1" "same_frame b b1"
      "ci_edges (bu_circuit b1) = ci_edges (bu_circuit b) @ [stream_edge to (st, pref)]"
      "\<forall>p<length (so_streams (bu_store b)). sv_consumers (so_streams (bu_store b1) ! p) =
         sv_consumers (so_streams (bu_store b) ! p) + (if p = st_val st then 1 else 0)"
    using connect_stream_effect [of st b to pref] Cons.prems sp by auto
  have "\<forall>sp\<in>set sts. st_circuit (fst sp) = ci_global_node_id (bu_circuit b1) \<and>
      st_val (fst sp) < length (so_streams (bu_store b1))"
    using Cons.prems b1(2) by (simp add: same_frame_def)
  then obtain b2 where b2: "connect_streams sts to b1 = Inr b2" "same_frame b1 b2"
      "ci_edges (bu_circuit b2) = ci_edges (bu_circuit b1) @ map (stream_edge to) sts"
      "\<forall>p<length (so_streams (bu_store b1)). sv_consumers (so_streams (bu_store b2) ! p) =
         sv_consumers (so_streams (bu_store b1) ! p) + count_list (map (\<lambda>sp. st_val (fst sp)) sts) p"
    using Cons.IH [of b1] by auto
  have "same_frame b b2" using b1(2) b2(2) by (simp add: same_frame_def)
  then show ?case using b1 b2 sp by (simp add: same_frame_def)
qed

section \<open>The constructors\<close>

text \<open>A new node, with the state of its operator and its output appended to the store.\<close>

definition adds_node :: "('s, 'd) builder \<Rightarrow> ('s, 'd) node \<Rightarrow> ('s, 'd) builder \<Rightarrow> bool" where
  "adds_node b nd b' \<longleftrightarrow>
     circuit_ok (bu_circuit b') (bu_store b') \<and>
     ci_nodes (bu_circuit b') = ci_nodes (bu_circuit b) @ [nd] \<and>
     ci_global_node_id (bu_circuit b') = ci_global_node_id (bu_circuit b) \<and>
     ci_node_id (bu_circuit b') = ci_node_id (bu_circuit b) \<and>
     ci_cache (bu_circuit b') = ci_cache (bu_circuit b) \<and>
     length (so_streams (bu_store b)) \<le> length (so_streams (bu_store b')) \<and>
     (\<exists>ops. so_operators (bu_store b') = so_operators (bu_store b) @ ops) \<and>
     (\<exists>es. ci_edges (bu_circuit b') = ci_edges (bu_circuit b) @ es)"

lemma adds_node_stream_of: "adds_node b nd b' \<Longrightarrow> stream_of (bu_circuit b) st \<Longrightarrow> stream_of (bu_circuit b') st"
  by (auto simp: adds_node_def stream_of_def)

text \<open>
  What every constructor does: it appends nodes and operators and keeps the cache.  The operator of a new
  node is new too, or that of the output half of a feedback that is not connected yet.
\<close>

fun is_feedback_output :: "('s, 'd) node \<Rightarrow> bool" where
  "is_feedback_output (FeedbackOutputNode g op a out export) \<longleftrightarrow> True"
| "is_feedback_output nd \<longleftrightarrow> False"

definition closes_feedback :: "('s, 'd) circuit \<Rightarrow> ('s, 'd) node \<Rightarrow> bool" where
  "closes_feedback c nd \<longleftrightarrow>
     (\<exists>j<length (ci_nodes c). is_feedback_output (ci_nodes c ! j) \<and>
        (\<forall>k<length (ci_nodes c). node_address (ci_nodes c ! k) = node_address nd \<longleftrightarrow> k = j))"

definition extends :: "('s, 'd) builder \<Rightarrow> ('s, 'd) builder \<Rightarrow> bool" where
  "extends b b' \<longleftrightarrow>
     circuit_ok (bu_circuit b') (bu_store b') \<and>
     ci_global_node_id (bu_circuit b') = ci_global_node_id (bu_circuit b) \<and>
     ci_cache (bu_circuit b') = ci_cache (bu_circuit b) \<and>
     (\<exists>nds. ci_nodes (bu_circuit b') = ci_nodes (bu_circuit b) @ nds \<and>
        (\<forall>nd\<in>set nds. length (so_operators (bu_store b)) \<le> node_address nd \<or> closes_feedback (bu_circuit b) nd)) \<and>
     (\<exists>ops. so_operators (bu_store b') = so_operators (bu_store b) @ ops)"

lemma adds_node_extends:
  "adds_node b nd b' \<Longrightarrow> length (so_operators (bu_store b)) \<le> node_address nd \<or> closes_feedback (bu_circuit b) nd \<Longrightarrow>
   extends b b'"
  by (auto simp: adds_node_def extends_def)

lemma inputs_connectable:
  assumes "circuit_ok (bu_circuit b) so" "\<forall>sp\<in>set inputs. stream_of (bu_circuit b) (fst sp)"
  shows "\<forall>sp\<in>set inputs. st_circuit (fst sp) = ci_global_node_id (bu_circuit b) \<and>
    st_val (fst sp) < length (so_streams so)"
  using assms stream_of_facts(1,2) [OF assms(1)] by blast

text \<open>
  The common part of all constructors: allocate cells and operators (from \<open>b\<close> to \<open>b1\<close>), connect the
  inputs (to \<open>b2\<close>), perhaps add dependencies (to \<open>b3\<close>), and append the node.
\<close>

definition push_node :: "('s, 'd) node \<Rightarrow> ('s, 'd) builder \<Rightarrow> ('s, 'd) builder" where
  "push_node nd b = b\<lparr>bu_circuit := (bu_circuit b)\<lparr>ci_nodes := ci_nodes (bu_circuit b) @ [nd]\<rparr>\<rparr>"

lemma add_node_push: "add_node f b = res_map (\<lambda>(nd, r, b). (r, push_node nd b)) (f (length (ci_nodes (bu_circuit b))) b)"
  by (simp add: add_node_def push_node_def)

definition allocated ::
  "('s, 'd) builder \<Rightarrow> 'd stream_value list \<Rightarrow> 's list \<Rightarrow> ('s, 'd) builder \<Rightarrow> bool" where
  "allocated b cs os b1 \<longleftrightarrow>
     bu_circuit b1 = bu_circuit b \<and> so_streams (bu_store b1) = so_streams (bu_store b) @ cs \<and>
     so_operators (bu_store b1) = so_operators (bu_store b) @ os \<and> (\<forall>v\<in>set cs. sv_consumers v = 0)"

definition node_new_ok ::
  "('s, 'd) builder \<Rightarrow> 'd stream_value list \<Rightarrow> 's list \<Rightarrow> node_id list \<Rightarrow> ('s, 'd) node \<Rightarrow> bool" where
  "node_new_ok b cs os deps nd \<longleftrightarrow>
     global_id nd = builder_gid b (length (ci_nodes (bu_circuit b))) \<and> node_aliases_ok nd \<and>
     node_address nd < length (so_operators (bu_store b)) + length os \<and>
     (\<forall>i\<in>set (node_inputs nd). stream_of (bu_circuit b) i) \<and>
     (\<forall>out. node_output nd = Some out \<longrightarrow>
        st_local_node_id out = length (ci_nodes (bu_circuit b)) \<and>
        st_origin_node_id out = builder_gid b (length (ci_nodes (bu_circuit b))) \<and>
        st_circuit out = ci_global_node_id (bu_circuit b) \<and>
        length (so_streams (bu_store b)) \<le> st_val out \<and>
        st_val out < length (so_streams (bu_store b)) + length cs) \<and>
     (\<forall>j<length (ci_nodes (bu_circuit b)).
        node_address (ci_nodes (bu_circuit b) ! j) = node_address nd \<longrightarrow> j \<in> set deps) \<and>
     (\<forall>j\<in>set deps. j < length (ci_nodes (bu_circuit b)))"

definition dependencies_added :: "node_id list \<Rightarrow> node_id \<Rightarrow> ('s, 'd) builder \<Rightarrow> ('s, 'd) builder \<Rightarrow> bool" where
  "dependencies_added deps to b2 b3 \<longleftrightarrow>
     same_frame b2 b3 \<and> bu_store b3 = bu_store b2 \<and>
     (\<exists>ds. ci_edges (bu_circuit b3) = ci_edges (bu_circuit b2) @ ds \<and>
        e_from ` set ds = set deps \<and> (\<forall>e\<in>set ds. e_to e = to))"

lemma constructor_ok:
  assumes ok: "circuit_ok (bu_circuit b) (bu_store b)" and alloc: "allocated b cs os b1"
    and new: "node_new_ok b cs os deps nd" and inputs: "node_inputs nd = map fst inputs"
    and b2: "connect_streams inputs (length (ci_nodes (bu_circuit b))) b1 = Inr b2"
    and b3: "dependencies_added deps (length (ci_nodes (bu_circuit b))) b2 b3"
  shows "adds_node b nd (push_node nd b3)" "so_operators (bu_store b3) = so_operators (bu_store b) @ os"
proof -
  let ?n = "length (ci_nodes (bu_circuit b))" let ?len = "length (so_streams (bu_store b))"
  have b1: "bu_circuit b1 = bu_circuit b" "so_streams (bu_store b1) = so_streams (bu_store b) @ cs"
      "so_operators (bu_store b1) = so_operators (bu_store b) @ os" "\<forall>v\<in>set cs. sv_consumers v = 0"
    using alloc by (simp_all add: allocated_def)
  have ins: "\<forall>sp\<in>set inputs. stream_of (bu_circuit b) (fst sp)"
    using new inputs by (auto simp: node_new_ok_def)
  note con = inputs_connectable [OF ok ins]
  then have "\<forall>sp\<in>set inputs. st_circuit (fst sp) = ci_global_node_id (bu_circuit b1) \<and>
      st_val (fst sp) < length (so_streams (bu_store b1))"
    using b1 by auto
  from connect_streams_effect [OF this, of ?n]
  have E: "same_frame b1 b2" "ci_edges (bu_circuit b2) = ci_edges (bu_circuit b1) @ map (stream_edge ?n) inputs"
      "\<forall>p<length (so_streams (bu_store b1)). sv_consumers (so_streams (bu_store b2) ! p) =
         sv_consumers (so_streams (bu_store b1) ! p) + count_list (map (\<lambda>sp. st_val (fst sp)) inputs) p"
    using b2 by auto
  obtain ds where ds: "ci_edges (bu_circuit b3) = ci_edges (bu_circuit b2) @ ds"
      "e_from ` set ds = set deps" "\<forall>e\<in>set ds. e_to e = ?n" and fr3: "same_frame b2 b3" "bu_store b3 = bu_store b2"
    using b3 by (auto simp: dependencies_added_def)
  let ?es = "map (stream_edge ?n) inputs @ ds"
  have F: "ci_nodes (bu_circuit b3) = ci_nodes (bu_circuit b)"
      "ci_global_node_id (bu_circuit b3) = ci_global_node_id (bu_circuit b)"
      "ci_node_id (bu_circuit b3) = ci_node_id (bu_circuit b)"
      "ci_cache (bu_circuit b3) = ci_cache (bu_circuit b)"
      "ci_edges (bu_circuit b3) = ci_edges (bu_circuit b) @ ?es"
      "length (so_streams (bu_store b3)) = ?len + length cs"
    using E(1,2) b1 fr3 ds(1) by (simp_all add: same_frame_def)
  show ops: "so_operators (bu_store b3) = so_operators (bu_store b) @ os"
    using E(1) b1 fr3 by (simp add: same_frame_def)
  have rd: "node_reads nd p = count_list (map (\<lambda>sp. st_val (fst sp)) inputs) p" for p
    using inputs by (simp add: node_reads_def comp_def)
  have fresh: "count_list (map (\<lambda>sp. st_val (fst sp)) inputs) p = 0" if "?len \<le> p" for p
    using con that by (fastforce simp: count_list_0_iff)
  have "node_added (bu_circuit b) (bu_store b) nd ?es (bu_circuit (push_node nd b3)) (bu_store (push_node nd b3))"
    using E(3) F ops b1 rd fresh fr3(2)
    by (auto simp: node_added_def push_node_def nth_append)
  moreover have "node_fits (bu_circuit b) (bu_store b) nd ?es (bu_store (push_node nd b3))"
  proof -
    have "\<forall>i\<in>set (node_inputs nd). \<exists>e\<in>set ?es. e_from e = st_local_node_id i \<and> e_to e = ?n \<and>
        e_origin e = st_origin_node_id i \<and> e_preference e \<noteq> None"
      using inputs by (force simp: stream_edge_def)
    moreover have "\<forall>e\<in>set ?es. e_from e < ?n \<and> e_to e = ?n"
      using ins stream_of_facts(3) [OF ok] ds new by (auto simp: stream_edge_def node_new_ok_def)
    moreover have "\<exists>e\<in>set ?es. e_from e = j \<and> e_to e = ?n" if "j \<in> set deps" for j
      using that ds by (metis Un_iff image_iff set_append)
    ultimately show ?thesis
      using new F(6) ops unfolding node_new_ok_def node_fits_def builder_gid_def push_node_def by simp
  qed
  ultimately have "circuit_ok (bu_circuit (push_node nd b3)) (bu_store (push_node nd b3))"
    by (rule circuit_ok_add [OF ok])
  then show "adds_node b nd (push_node nd b3)"
    using F ops by (simp add: adds_node_def push_node_def)
qed

lemma connect_returns:
  assumes "circuit_ok (bu_circuit b) (bu_store b)" "allocated b cs os b1"
    "\<forall>sp\<in>set inputs. stream_of (bu_circuit b) (fst sp)"
  obtains b2 where "connect_streams inputs to b1 = Inr b2" "same_frame b1 b2"
proof -
  have "\<forall>sp\<in>set inputs. st_circuit (fst sp) = ci_global_node_id (bu_circuit b1) \<and>
      st_val (fst sp) < length (so_streams (bu_store b1))"
    using inputs_connectable [OF assms(1,3)] assms(2) by (auto simp: allocated_def)
  from connect_streams_effect [OF this, of to] show ?thesis using that by blast
qed

lemma no_dependencies: "dependencies_added [] to b b"
  by (simp add: dependencies_added_def same_frame_def)

lemma fresh_address:
  "circuit_ok (bu_circuit b) (bu_store b) \<Longrightarrow> j < length (ci_nodes (bu_circuit b)) \<Longrightarrow>
   node_address (ci_nodes (bu_circuit b) ! j) \<noteq> length (so_operators (bu_store b))"
  using circuit_okD(3) [of "bu_circuit b" "bu_store b" j] by simp

lemma operator_node_ok:
  assumes ok: "circuit_ok (bu_circuit b) (bu_store b)"
    and inputs: "\<forall>sp\<in>set inputs. stream_of (bu_circuit b) (fst sp)"
    and mk: "\<And>g a out. global_id (mk g a out) = g \<and> node_inputs (mk g a out) = map fst inputs \<and>
      node_output (mk g a out) = Some out \<and> node_address (mk g a out) = a \<and> node_aliases_ok (mk g a out)"
  shows "\<exists>out b'. add_node (operator_node op s inputs mk) b = Inr (out, b') \<and>
    so_operators (bu_store b') = so_operators (bu_store b) @ [s] \<and>
    adds_node b (mk (builder_gid b (length (ci_nodes (bu_circuit b)))) (length (so_operators (bu_store b))) out) b'"
proof -
  let ?n = "length (ci_nodes (bu_circuit b))" let ?a = "length (so_operators (bu_store b))"
  define b1 where "b1 = snd (stream_new ?n (snd (operator_new s (operator_event op ?n b))))"
  define out where "out = fst (stream_new ?n (snd (operator_new s (operator_event op ?n b))))"
  have al: "allocated b [sv_empty] [s] b1"
    and out: "out = \<lparr>st_local_node_id = ?n, st_origin_node_id = builder_gid b ?n,
      st_circuit = ci_global_node_id (bu_circuit b), st_val = length (so_streams (bu_store b))\<rparr>"
    by (simp_all add: b1_def out_def stream_new_def stream_with_origin_def operator_new_def operator_event_def
      log_circuit_event_def builder_gid_def Let_def allocated_def sv_empty_def)
  obtain b2 where b2: "connect_streams inputs ?n b1 = Inr b2" "same_frame b1 b2"
    by (rule connect_returns [OF ok al inputs])
  let ?nd = "mk (builder_gid b ?n) ?a out"
  have gid: "builder_gid b2 ?n = builder_gid b ?n"
    using b2(2) al by (simp add: builder_gid_def same_frame_def allocated_def)
  have "node_new_ok b [sv_empty] [s] [] ?nd"
    using mk [of "builder_gid b ?n" ?a out] inputs out fresh_address [OF ok]
    unfolding node_new_ok_def by auto
  note C = constructor_ok [OF ok al this _ b2(1) no_dependencies]
  have "add_node (operator_node op s inputs mk) b = Inr (out, push_node ?nd b2)"
    using b2(1) gid by (simp add: add_node_push operator_node_def case_prod_unfold Let_def b1_def out_def
      operator_new_def operator_event_def log_circuit_event_def)
  then show ?thesis using C mk by (auto simp: push_node_def)
qed

lemma source_node_eq: "source_node op s = operator_node op s [] (\<lambda>g a out. SourceNode g op a out)"
  by (intro ext) (simp add: source_node_def operator_node_def case_prod_unfold Let_def)

lemma sink_node_ok:
  assumes ok: "circuit_ok (bu_circuit b) (bu_store b)" and input: "stream_of (bu_circuit b) i"
  shows "\<exists>b'. add_node (sink_node op s i pref) b = Inr (length (ci_nodes (bu_circuit b)), b') \<and>
    so_operators (bu_store b') = so_operators (bu_store b) @ [s] \<and>
    adds_node b (SinkNode (builder_gid b (length (ci_nodes (bu_circuit b)))) op
      (length (so_operators (bu_store b))) i) b'"
proof -
  let ?n = "length (ci_nodes (bu_circuit b))" let ?a = "length (so_operators (bu_store b))"
  define b1 where "b1 = snd (operator_new s (operator_event op ?n b))"
  have al: "allocated b [] [s] b1"
    by (simp add: b1_def operator_new_def operator_event_def log_circuit_event_def Let_def allocated_def)
  have ins: "\<forall>sp\<in>set [(i, pref)]. stream_of (bu_circuit b) (fst sp)" using input by simp
  obtain b2 where b2: "connect_streams [(i, pref)] ?n b1 = Inr b2" "same_frame b1 b2"
    by (rule connect_returns [OF ok al ins])
  let ?nd = "SinkNode (builder_gid b ?n) op ?a i"
  have gid: "builder_gid b2 ?n = builder_gid b ?n"
    using b2(2) al by (simp add: builder_gid_def same_frame_def allocated_def)
  have "node_new_ok b [] [s] [] ?nd"
    using input fresh_address [OF ok] unfolding node_new_ok_def by (auto simp: node_address_def)
  note C = constructor_ok [OF ok al this _ b2(1) no_dependencies]
  have c: "connect_stream i ?n pref b1 = Inr b2" using b2(1) by (auto simp: res_bind_eq_Inr)
  have "add_node (sink_node op s i pref) b = Inr (?n, push_node ?nd b2)"
    using c gid by (simp add: add_node_push sink_node_def case_prod_unfold Let_def b1_def
      operator_new_def operator_event_def log_circuit_event_def)
  then show ?thesis using C by (auto simp: push_node_def)
qed

lemma feedback_output_ok:
  assumes ok: "circuit_ok (bu_circuit b) (bu_store b)"
  shows "\<exists>local export b'. add_feedback_with_export op s b =
      Inr (((local, export), \<lparr>fc_output_node_id = length (ci_nodes (bu_circuit b)), fc_methods = op,
        fc_operator = length (so_operators (bu_store b))\<rparr>), b') \<and>
    so_operators (bu_store b') = so_operators (bu_store b) @ [s] \<and>
    adds_node b (FeedbackOutputNode (builder_gid b (length (ci_nodes (bu_circuit b)))) op
      (length (so_operators (bu_store b))) local export) b'"
proof -
  let ?n = "length (ci_nodes (bu_circuit b))" let ?a = "length (so_operators (bu_store b))"
  let ?len = "length (so_streams (bu_store b))" let ?g = "ci_global_node_id (bu_circuit b)"
  let ?local = "\<lparr>st_local_node_id = ?n, st_origin_node_id = builder_gid b ?n, st_circuit = ?g, st_val = ?len\<rparr>"
  let ?export = "\<lparr>st_local_node_id = ci_node_id (bu_circuit b), st_origin_node_id = builder_gid b ?n,
    st_circuit = parent_circuit_gid (bu_circuit b), st_val = Suc ?len\<rparr>"
  let ?nd = "FeedbackOutputNode (builder_gid b ?n) op ?a ?local ?export"
  define b1 where "b1 = b\<lparr>bu_events := bu_events b @ [StrictOperatorOutput (builder_gid b ?n) (op_name op) (op_location op)],
    bu_store := (bu_store b)\<lparr>so_operators := so_operators (bu_store b) @ [s],
      so_streams := so_streams (bu_store b) @ [sv_empty, sv_empty]\<rparr>\<rparr>"
  have al: "allocated b [sv_empty, sv_empty] [s] b1" by (simp add: b1_def allocated_def sv_empty_def)
  have b1: "add_feedback_with_export op s b = Inr (((?local, ?export), \<lparr>fc_output_node_id = ?n, fc_methods = op,
        fc_operator = ?a\<rparr>), push_node ?nd b1)"
    by (simp add: b1_def add_feedback_with_export_def feedback_output_node_def add_node_push stream_new_def
      stream_with_origin_def operator_new_def log_circuit_event_def builder_gid_def Let_def)
  have "node_new_ok b [sv_empty, sv_empty] [s] [] ?nd"
    using fresh_address [OF ok] unfolding node_new_ok_def by (auto simp: node_address_def)
  note C = constructor_ok [OF ok al this _ _ no_dependencies, of "[]"]
  have "adds_node b ?nd (push_node ?nd b1)" "so_operators (bu_store b1) = so_operators (bu_store b) @ [s]"
    using C by simp_all
  then show ?thesis using b1 by (auto simp: push_node_def)
qed

text \<open>A connector can be used once: no input half has its operator yet.\<close>

definition connector_of :: "('s, 'd) circuit \<Rightarrow> ('s, 'd) feedback_connector \<Rightarrow> bool" where
  "connector_of c fc \<longleftrightarrow>
     fc_output_node_id fc < length (ci_nodes c) \<and>
     (\<exists>g out export. ci_nodes c ! fc_output_node_id fc = FeedbackOutputNode g (fc_methods fc) (fc_operator fc) out export) \<and>
     (\<forall>j<length (ci_nodes c). node_address (ci_nodes c ! j) = fc_operator fc \<longrightarrow> j = fc_output_node_id fc)"

lemma connector_ofD:
  assumes "connector_of c fc"
  shows "fc_output_node_id fc < length (ci_nodes c)" "is_feedback_output (ci_nodes c ! fc_output_node_id fc)"
    "j < length (ci_nodes c) \<Longrightarrow> node_address (ci_nodes c ! j) = fc_operator fc \<longleftrightarrow> j = fc_output_node_id fc"
proof -
  obtain g out export where fc: "fc_output_node_id fc < length (ci_nodes c)"
      "ci_nodes c ! fc_output_node_id fc = FeedbackOutputNode g (fc_methods fc) (fc_operator fc) out export"
      "\<forall>j<length (ci_nodes c). node_address (ci_nodes c ! j) = fc_operator fc \<longrightarrow> j = fc_output_node_id fc"
    using assms unfolding connector_of_def by blast
  have a: "node_address (ci_nodes c ! fc_output_node_id fc) = fc_operator fc"
    unfolding fc(2) by (simp add: node_address_def)
  show "fc_output_node_id fc < length (ci_nodes c)" by (rule fc(1))
  show "is_feedback_output (ci_nodes c ! fc_output_node_id fc)" unfolding fc(2) by simp
  show "node_address (ci_nodes c ! j) = fc_operator fc \<longleftrightarrow> j = fc_output_node_id fc" if "j < length (ci_nodes c)"
    using fc(3) that a by blast
qed

lemma connect_with_preference_ok:
  assumes ok: "circuit_ok (bu_circuit b) (bu_store b)" and input: "stream_of (bu_circuit b) i"
    and fc: "connector_of (bu_circuit b) fc"
  shows "\<exists>b'. connect_with_preference fc i pref b = Inr b' \<and>
    so_operators (bu_store b') = so_operators (bu_store b) \<and>
    adds_node b (FeedbackInputNode (builder_gid b (length (ci_nodes (bu_circuit b)))) (fc_methods fc)
      (fc_operator fc) i) b'"
proof -
  let ?n = "length (ci_nodes (bu_circuit b))"
  define b1 where "b1 = log_circuit_event (StrictOperatorInput (builder_gid b ?n) (fc_output_node_id fc)) b"
  have al: "allocated b [] [] b1" by (simp add: b1_def log_circuit_event_def allocated_def)
  have ins: "\<forall>sp\<in>set [(i, pref)]. stream_of (bu_circuit b) (fst sp)" using input by simp
  obtain b2 where b2: "connect_streams [(i, pref)] ?n b1 = Inr b2" "same_frame b1 b2"
    by (rule connect_returns [OF ok al ins])
  let ?b3 = "add_dependency (fc_output_node_id fc) ?n b2"
  have dep: "dependencies_added [fc_output_node_id fc] ?n b2 ?b3"
    by (auto simp: dependencies_added_def add_dependency_def same_frame_def log_circuit_event_def
      circuit_add_edge_def Let_def)
  let ?nd = "FeedbackInputNode (builder_gid b ?n) (fc_methods fc) (fc_operator fc) i"
  have gid: "gid_child (st_circuit i) ?n = builder_gid b ?n"
    using stream_of_facts(1) [OF ok input] by (simp add: builder_gid_def)
  have "fc_operator fc < length (so_operators (bu_store b))"
    using connector_ofD(1) [OF fc] connector_ofD(3) [OF fc, of "fc_output_node_id fc"]
      circuit_okD(3) [OF ok, of "fc_output_node_id fc"] by simp
  then have "node_new_ok b [] [] [fc_output_node_id fc] ?nd"
    using input connector_ofD [OF fc] unfolding node_new_ok_def by (auto simp: node_address_def)
  note C = constructor_ok [OF ok al this _ b2(1) dep]
  have c: "connect_stream i ?n pref b1 = Inr b2" using b2(1) by (auto simp: res_bind_eq_Inr)
  have "connect_with_preference fc i pref b = Inr (push_node ?nd ?b3)"
    using c gid by (simp add: connect_with_preference_def add_node_push feedback_input_node_def Let_def b1_def)
  then show ?thesis using C by (auto simp: push_node_def)
qed

section \<open>Operators, exchange and import\<close>

lemma add_source_ok:
  assumes "circuit_ok (bu_circuit b) (bu_store b)"
  shows "\<exists>out b'. add_source op s b = Inr (out, b') \<and>
    so_operators (bu_store b') = so_operators (bu_store b) @ [s] \<and>
    adds_node b (SourceNode (builder_gid b (length (ci_nodes (bu_circuit b)))) op
      (length (so_operators (bu_store b))) out) b'"
  unfolding add_source_def source_node_eq
  using operator_node_ok [OF assms, of "[]" "\<lambda>g a out. SourceNode g op a out" op s]
  by (simp add: node_address_def)

lemma add_unary_ok:
  assumes "circuit_ok (bu_circuit b) (bu_store b)" "stream_of (bu_circuit b) i"
  shows "\<exists>out b'. add_unary_operator_with_preference op s i pref b = Inr (out, b') \<and>
    so_operators (bu_store b') = so_operators (bu_store b) @ [s] \<and>
    adds_node b (UnaryNode (builder_gid b (length (ci_nodes (bu_circuit b)))) op
      (length (so_operators (bu_store b))) i out) b'"
  unfolding add_unary_operator_with_preference_def
  using operator_node_ok [OF assms(1), of "[(i, pref)]" "\<lambda>g a out. UnaryNode g op a i out" op s] assms(2)
  by (simp add: node_address_def)

lemma add_binary_ok:
  assumes "circuit_ok (bu_circuit b) (bu_store b)" "stream_of (bu_circuit b) i1" "stream_of (bu_circuit b) i2"
  shows "\<exists>out b'. add_binary_operator_with_preference op s (i1, p1) (i2, p2) b = Inr (out, b') \<and>
    so_operators (bu_store b') = so_operators (bu_store b) @ [s] \<and>
    adds_node b (binary_node_new op i1 i2 (builder_gid b (length (ci_nodes (bu_circuit b))))
      (length (so_operators (bu_store b))) out) b'"
  unfolding add_binary_operator_with_preference_def
  using operator_node_ok [OF assms(1), of "[(i1, p1), (i2, p2)]" "binary_node_new op i1 i2" op s]
    assms(2,3) ptr_eq_cells [OF assms]
  by (simp add: binary_node_new_def node_address_def)

lemma add_ternary_ok:
  assumes "circuit_ok (bu_circuit b) (bu_store b)" "stream_of (bu_circuit b) i1" "stream_of (bu_circuit b) i2"
    "stream_of (bu_circuit b) i3"
  shows "\<exists>out b'. add_ternary_operator_with_preference op s (i1, p1) (i2, p2) (i3, p3) b = Inr (out, b') \<and>
    so_operators (bu_store b') = so_operators (bu_store b) @ [s] \<and>
    adds_node b (ternary_node_new op i1 i2 i3 (builder_gid b (length (ci_nodes (bu_circuit b))))
      (length (so_operators (bu_store b))) out) b'"
  unfolding add_ternary_operator_with_preference_def
  using operator_node_ok [OF assms(1), of "[(i1, p1), (i2, p2), (i3, p3)]" "ternary_node_new op i1 i2 i3" op s]
    assms(2-4) ptr_eq_cells [OF assms(1)]
  by (simp add: ternary_node_new_def node_address_def)

lemma add_quaternary_ok:
  assumes "circuit_ok (bu_circuit b) (bu_store b)" "stream_of (bu_circuit b) i1" "stream_of (bu_circuit b) i2"
    "stream_of (bu_circuit b) i3" "stream_of (bu_circuit b) i4"
  shows "\<exists>out b'. add_quaternary_operator_with_preference op s (i1, p1) (i2, p2) (i3, p3) (i4, p4) b =
      Inr (out, b') \<and>
    so_operators (bu_store b') = so_operators (bu_store b) @ [s] \<and>
    adds_node b (quaternary_node_new op i1 i2 i3 i4 (builder_gid b (length (ci_nodes (bu_circuit b))))
      (length (so_operators (bu_store b))) out) b'"
  unfolding add_quaternary_operator_with_preference_def
  using operator_node_ok [OF assms(1), of "[(i1, p1), (i2, p2), (i3, p3), (i4, p4)]"
      "quaternary_node_new op i1 i2 i3 i4" op s]
    assms(2-5) ptr_eq_cells [OF assms(1)]
  by (simp add: quaternary_node_new_def node_address_def)

lemma mark_aliases_map_fst [simp]: "map fst (mark_aliases earlier sts) = sts"
  by (induction sts arbitrary: earlier) simp_all

lemma length_mark_aliases [simp]: "length (mark_aliases earlier sts) = length sts"
  by (induction sts arbitrary: earlier) simp_all

lemma mark_aliases_nth:
  "j < length sts \<Longrightarrow>
   mark_aliases earlier sts ! j = (sts ! j, \<exists>st\<in>set (earlier @ take j sts). stream_ptr_eq (sts ! j) st)"
proof (induction sts arbitrary: earlier j)
  case (Cons st sts)
  then show ?case by (cases j) (auto simp: list_ex_iff)
qed simp

lemma nary_aliases_ok:
  assumes ok: "circuit_ok c so" and inputs: "\<forall>st\<in>set sts. stream_of c st"
  shows "node_aliases_ok (nary_node_new op sts g a out)"
proof -
  have "(\<exists>st\<in>set (take j sts). stream_ptr_eq (sts ! j) st) \<longleftrightarrow> (\<exists>i<j. st_val (sts ! i) = st_val (sts ! j))"
    if j: "j < length sts" for j
  proof -
    have "stream_ptr_eq (sts ! j) (sts ! i) \<longleftrightarrow> st_val (sts ! i) = st_val (sts ! j)" if "i < j" for i
      using ptr_eq_cells [OF ok, of "sts ! j" "sts ! i"] inputs j that by auto
    then show ?thesis using j by (auto simp: Bex_def in_set_conv_nth)
  qed
  moreover have "fst (mark_aliases [] sts ! i) = sts ! i" if "i < length sts" for i
    using that by (simp add: mark_aliases_nth)
  ultimately show ?thesis
    by (auto simp: nary_node_new_def Let_def mark_aliases_nth)
qed

lemma add_nary_ok:
  assumes "circuit_ok (bu_circuit b) (bu_store b)" "\<forall>st\<in>set sts. stream_of (bu_circuit b) st"
  shows "\<exists>out b'. add_nary_operator_with_preference op s sts pref b = Inr (out, b') \<and>
    so_operators (bu_store b') = so_operators (bu_store b) @ [s] \<and>
    adds_node b (nary_node_new op sts (builder_gid b (length (ci_nodes (bu_circuit b))))
      (length (so_operators (bu_store b))) out) b'"
  unfolding add_nary_operator_with_preference_def
proof (rule operator_node_ok [OF assms(1)])
  show "\<forall>sp\<in>set (map (\<lambda>st. (st, pref)) sts). stream_of (bu_circuit b) (fst sp)" using assms(2) by simp
  fix g a out
  show "global_id (nary_node_new op sts g a out) = g \<and>
      node_inputs (nary_node_new op sts g a out) = map fst (map (\<lambda>st. (st, pref)) sts) \<and>
      node_output (nary_node_new op sts g a out) = Some out \<and>
      node_address (nary_node_new op sts g a out) = a \<and> node_aliases_ok (nary_node_new op sts g a out)"
    using nary_aliases_ok [OF assms]
    by (simp add: nary_node_new_def node_address_def Let_def comp_def)
qed

lemma circuit_ok_dependency:
  assumes "circuit_ok (bu_circuit b) (bu_store b)" "from < to" "to < length (ci_nodes (bu_circuit b))"
  shows "circuit_ok (bu_circuit (add_dependency from to b)) (bu_store (add_dependency from to b))"
proof -
  have eq: "ci_nodes (bu_circuit (add_dependency from to b)) = ci_nodes (bu_circuit b)"
      "ci_global_node_id (bu_circuit (add_dependency from to b)) = ci_global_node_id (bu_circuit b)"
      "bu_store (add_dependency from to b) = bu_store b"
      "connected (bu_circuit b) j k \<Longrightarrow> connected (bu_circuit (add_dependency from to b)) j k"
      "feeds (bu_circuit b) i k \<Longrightarrow> feeds (bu_circuit (add_dependency from to b)) i k"
      "e \<in> set (ci_edges (bu_circuit (add_dependency from to b))) \<longleftrightarrow> e \<in> set (ci_edges (bu_circuit b)) \<or>
         e = \<lparr>e_from = from, e_to = to, e_origin = builder_gid b from, e_preference = None\<rparr>" for i j k e
    by (auto simp: add_dependency_def log_circuit_event_def circuit_add_edge_def builder_gid_def connected_def
      feeds_def Let_def)
  have old: "inputs_ok (bu_circuit b)" "operators_ok (bu_circuit b)" "nodes_ok (bu_circuit b) (bu_store b)"
      "outputs_ok (bu_circuit b) (bu_store b)" "cells_distinct (bu_circuit b)"
    using assms(1) by (simp_all add: circuit_ok_def)
  have "inputs_ok (bu_circuit (add_dependency from to b))"
    using old(1) eq(4,5) unfolding inputs_ok_def eq(1) by blast
  moreover have "operators_ok (bu_circuit (add_dependency from to b))"
    using old(2) eq(4) unfolding operators_ok_def eq(1) by blast
  moreover have "edges_ok (bu_circuit (add_dependency from to b))"
    using assms eq(1,6) by (auto simp: circuit_ok_def edges_ok_def)
  moreover have "nodes_ok (bu_circuit (add_dependency from to b)) (bu_store (add_dependency from to b))"
    using old(3) unfolding nodes_ok_def eq(1-3) .
  moreover have "outputs_ok (bu_circuit (add_dependency from to b)) (bu_store (add_dependency from to b))"
    using old(4) unfolding outputs_ok_def eq(1-3) .
  moreover have "cells_distinct (bu_circuit (add_dependency from to b))"
    using old(5) unfolding cells_distinct_def eq(1) .
  ultimately show ?thesis by (simp add: circuit_ok_def)
qed

lemma add_exchange_ok:
  assumes ok: "circuit_ok (bu_circuit b) (bu_store b)" and i: "stream_of (bu_circuit b) i"
  shows "\<exists>out b'. add_exchange_with_preference snd_op s1 rcv_op s2 i pref b = Inr (out, b') \<and>
    extends b b'"
proof -
  let ?n = "length (ci_nodes (bu_circuit b))"
  obtain b1 nd1 where b1: "add_node (sink_node snd_op s1 i pref) b = Inr (?n, b1)" "adds_node b nd1 b1"
      "node_address nd1 = length (so_operators (bu_store b))"
      "so_operators (bu_store b1) = so_operators (bu_store b) @ [s1]"
    using sink_node_ok [OF ok i, of snd_op s1 pref] by (auto simp: node_address_def)
  have ok1: "circuit_ok (bu_circuit b1) (bu_store b1)" using b1(2) by (simp add: adds_node_def)
  obtain out b2 g a where b2: "add_source rcv_op s2 b1 = Inr (out, b2)" "adds_node b1 (SourceNode g rcv_op a out) b2"
      "a = length (so_operators (bu_store b1))"
    using add_source_ok [OF ok1] by blast
  have ok2: "circuit_ok (bu_circuit b2) (bu_store b2)" using b2(2) by (simp add: adds_node_def)
  have nodes: "ci_nodes (bu_circuit b2) = ci_nodes (bu_circuit b) @ [nd1, SourceNode g rcv_op a out]"
    using b1(2) b2(2) by (simp add: adds_node_def)
  have "outputs_ok (bu_circuit b2) (bu_store b2)" using ok2 by (simp add: circuit_ok_def)
  then have out: "st_local_node_id out = Suc ?n"
    unfolding outputs_ok_def nodes by (auto dest!: spec [of _ "Suc ?n"] simp: nth_append)
  let ?b3 = "add_dependency ?n (Suc ?n) b2"
  have "circuit_ok (bu_circuit ?b3) (bu_store ?b3)" using circuit_ok_dependency [OF ok2, of ?n "Suc ?n"] nodes by simp
  then have "extends b ?b3"
    using b1(2-4) b2(2,3) nodes
    by (auto simp: extends_def adds_node_def add_dependency_def log_circuit_event_def circuit_add_edge_def
      node_address_def Let_def)
  then show ?thesis
    using b1(1) b2(1) out by (simp add: add_exchange_with_preference_def add_source_def)
qed

text \<open>An import changes the consumers of a cell of the parent only.\<close>

lemma circuit_ok_other_cell:
  assumes ok: "circuit_ok c so" and p: "\<And>j. j < length (ci_nodes c) \<Longrightarrow> \<not> produces c j p"
  shows "circuit_ok c (so\<lparr>so_streams := (so_streams so)[p := v]\<rparr>)"
proof -
  have neq: "p \<noteq> st_val out" if "k < length (ci_nodes c)" "node_output (ci_nodes c ! k) = Some out" for k out
    using p [OF that(1)] that(2) by (auto simp: produces_def)
  have "outputs_ok c so" using ok by (simp add: circuit_ok_def)
  then have "outputs_ok c (so\<lparr>so_streams := (so_streams so)[p := v]\<rparr>)"
    using neq by (simp add: outputs_ok_def)
  then show ?thesis using ok by (simp add: circuit_ok_def nodes_ok_def)
qed

lemma import_stream_ok:
  assumes ok: "circuit_ok (bu_circuit b) (bu_store b)"
    and p: "st_circuit ps = ci_global_node_id parent" "st_val ps < length (so_streams (bu_store b))"
      "\<And>j. j < length (ci_nodes (bu_circuit b)) \<Longrightarrow> \<not> produces (bu_circuit b) j (st_val ps)"
  shows "\<exists>out parent' b'. import_stream_with_preference op s ps pref parent b = Inr (out, parent', b') \<and>
    extends b b' \<and>
    ci_edges parent' = ci_edges parent @ [stream_edge (ci_node_id (bu_circuit b)) (ps, pref)]"
proof -
  let ?n = "length (ci_nodes (bu_circuit b))" let ?a = "length (so_operators (bu_store b))"
  let ?v = "stream_cell ps (bu_store b)"
  define b0 where "b0 = b\<lparr>bu_store := set_cell ps (?v\<lparr>sv_consumers := sv_consumers ?v + 1\<rparr>) (bu_store b)\<rparr>"
  have ok0: "circuit_ok (bu_circuit b0) (bu_store b0)"
    using circuit_ok_other_cell [OF ok p(3)] by (simp add: b0_def set_cell_def)
  let ?out = "\<lparr>st_local_node_id = ?n, st_origin_node_id = builder_gid b ?n,
    st_circuit = ci_global_node_id (bu_circuit b), st_val = length (so_streams (bu_store b))\<rparr>"
  let ?nd = "ImportNode (builder_gid b ?n) op ?a ps ?out"
  define b1 where "b1 = b0\<lparr>bu_events := bu_events b @ [OperatorEvent (builder_gid b ?n) (op_name op) (op_location op),
      EdgeEvent (StreamEdge pref) (st_origin_node_id ps) (gid_child (ci_global_node_id parent) (ci_node_id (bu_circuit b)))],
    bu_store := (bu_store b0)\<lparr>so_operators := so_operators (bu_store b) @ [s],
      so_streams := so_streams (bu_store b0) @ [sv_empty]\<rparr>\<rparr>"
  have al: "allocated b0 [sv_empty] [s] b1" by (simp add: b1_def b0_def allocated_def sv_empty_def set_cell_def)
  have "node_new_ok b0 [sv_empty] [s] [] ?nd"
    using fresh_address [OF ok] unfolding node_new_ok_def
    by (auto simp: node_address_def b0_def builder_gid_def set_cell_def)
  note C = constructor_ok [OF ok0 al this _ _ no_dependencies, of "[]"]
  have "circuit_ok (bu_circuit (push_node ?nd b1)) (bu_store (push_node ?nd b1))"
    using C by (simp add: adds_node_def)
  then have "extends b (push_node ?nd b1)"
    by (simp add: extends_def push_node_def b1_def b0_def node_address_def)
  moreover have "import_stream_with_preference op s ps pref parent b = Inr (?out,
      circuit_add_edge (stream_edge (ci_node_id (bu_circuit b)) (ps, pref)) parent, push_node ?nd b1)"
    using p(1,2)
    by (simp add: import_stream_with_preference_def add_node_push operator_event_def log_circuit_event_def
      operator_new_def stream_new_def stream_with_origin_def connect_stream_def builder_gid_def
      circuit_add_edge_def stream_edge_def set_cell_def stream_cell_def b1_def b0_def push_node_def
      list_update_append1 nth_append Let_def)
  ultimately show ?thesis by (simp add: circuit_add_edge_def)
qed

section \<open>Built circuits\<close>

text \<open>
  One call of a constructor.  Streams given to a constructor are outputs of nodes of the circuit,
  connectors are used once, an imported stream is not one of the circuit's own.  A circuit starts empty,
  next to whatever the store already holds.
\<close>

inductive constructs :: "('s, 'd) builder \<Rightarrow> ('s, 'd) builder \<Rightarrow> bool" where
  source: "add_source op s b = Inr (out, b') \<Longrightarrow> constructs b b'"
| sink: "stream_of (bu_circuit b) i \<Longrightarrow> add_sink_with_preference op s i pref b = Inr b' \<Longrightarrow> constructs b b'"
| exchange: "stream_of (bu_circuit b) i \<Longrightarrow>
    add_exchange_with_preference sender s1 receiver s2 i pref b = Inr (out, b') \<Longrightarrow> constructs b b'"
| unary: "stream_of (bu_circuit b) i \<Longrightarrow>
    add_unary_operator_with_preference op s i pref b = Inr (out, b') \<Longrightarrow> constructs b b'"
| binary: "stream_of (bu_circuit b) i1 \<Longrightarrow> stream_of (bu_circuit b) i2 \<Longrightarrow>
    add_binary_operator_with_preference op s (i1, p1) (i2, p2) b = Inr (out, b') \<Longrightarrow> constructs b b'"
| ternary: "stream_of (bu_circuit b) i1 \<Longrightarrow> stream_of (bu_circuit b) i2 \<Longrightarrow> stream_of (bu_circuit b) i3 \<Longrightarrow>
    add_ternary_operator_with_preference op s (i1, p1) (i2, p2) (i3, p3) b = Inr (out, b') \<Longrightarrow>
    constructs b b'"
| quaternary: "stream_of (bu_circuit b) i1 \<Longrightarrow> stream_of (bu_circuit b) i2 \<Longrightarrow>
    stream_of (bu_circuit b) i3 \<Longrightarrow> stream_of (bu_circuit b) i4 \<Longrightarrow>
    add_quaternary_operator_with_preference op s (i1, p1) (i2, p2) (i3, p3) (i4, p4) b = Inr (out, b') \<Longrightarrow>
    constructs b b'"
| nary: "\<forall>i\<in>set is. stream_of (bu_circuit b) i \<Longrightarrow>
    add_nary_operator_with_preference op s is pref b = Inr (out, b') \<Longrightarrow> constructs b b'"
| feedback: "add_feedback_with_export op s b = Inr (r, b') \<Longrightarrow> constructs b b'"
| connect: "stream_of (bu_circuit b) i \<Longrightarrow> connector_of (bu_circuit b) fc \<Longrightarrow>
    connect_with_preference fc i pref b = Inr b' \<Longrightarrow> constructs b b'"
| import: "st_val ps < length (so_streams (bu_store b)) \<Longrightarrow>
    (\<And>j. j < length (ci_nodes (bu_circuit b)) \<Longrightarrow> \<not> produces (bu_circuit b) j (st_val ps)) \<Longrightarrow>
    import_stream_with_preference op s ps pref parent b = Inr (out, parent', b') \<Longrightarrow> constructs b b'"
| event: "constructs b (log_circuit_event ev b)"

inductive built :: "('s, 'd) builder \<Rightarrow> bool" where
  new: "built \<lparr>bu_circuit = circuit_new sc nid g, bu_store = so, bu_events = evs\<rparr>"
| step: "built b \<Longrightarrow> constructs b b' \<Longrightarrow> built b'"
| cache: "built b \<Longrightarrow> built (cache_insert key st b)"

lemma circuit_ok_new: "circuit_ok (circuit_new sc nid g) so"
  by (simp add: circuit_ok_def circuit_new_def nodes_ok_def inputs_ok_def outputs_ok_def cells_distinct_def
    operators_ok_def edges_ok_def)

lemma circuit_ok_frame:
  assumes "ci_nodes c' = ci_nodes c" "ci_edges c' = ci_edges c" "ci_global_node_id c' = ci_global_node_id c"
  shows "circuit_ok c' so = circuit_ok c so"
  by (simp only: circuit_ok_def nodes_ok_def inputs_ok_def outputs_ok_def cells_distinct_def operators_ok_def
    edges_ok_def connected_def feeds_def assms)

lemma new_operator: "node_address nd = length (so_operators (bu_store b)) \<Longrightarrow>
  length (so_operators (bu_store b)) \<le> node_address nd \<or> closes_feedback (bu_circuit b) nd"
  by simp

lemma constructs_extends:
  assumes "constructs b b'" "circuit_ok (bu_circuit b) (bu_store b)"
  shows "extends b b'"
  using assms
proof (cases rule: constructs.cases)
  case (source op s out)
  then show ?thesis
    using add_source_ok [OF assms(2), of op s] by (auto intro!: adds_node_extends new_operator simp: node_address_def)
next
  case (sink i op s pref)
  then show ?thesis
    using sink_node_ok [OF assms(2) sink(1), of op s pref]
    by (auto intro!: adds_node_extends new_operator simp: node_address_def add_sink_with_preference_def)
next
  case (exchange i sender s1 receiver s2 pref out)
  then show ?thesis using add_exchange_ok [OF assms(2) exchange(1), of sender s1 receiver s2 pref] by auto
next
  case (unary i op s pref out)
  then show ?thesis
    using add_unary_ok [OF assms(2) unary(1), of op s pref]
    by (auto intro!: adds_node_extends new_operator simp: node_address_def)
next
  case (binary i1 i2 op s p1 p2 out)
  then show ?thesis
    using add_binary_ok [OF assms(2) binary(1,2), of op s p1 p2]
    by (auto intro!: adds_node_extends new_operator simp: node_address_def binary_node_new_def)
next
  case (ternary i1 i2 i3 op s p1 p2 p3 out)
  then show ?thesis
    using add_ternary_ok [OF assms(2) ternary(1-3), of op s p1 p2 p3]
    by (auto intro!: adds_node_extends new_operator simp: node_address_def ternary_node_new_def)
next
  case (quaternary i1 i2 i3 i4 op s p1 p2 p3 p4 out)
  then show ?thesis
    using add_quaternary_ok [OF assms(2) quaternary(1-4), of op s p1 p2 p3 p4]
    by (auto intro!: adds_node_extends new_operator simp: node_address_def quaternary_node_new_def)
next
  case (nary "is" op s pref out)
  then show ?thesis
    using add_nary_ok [OF assms(2) nary(1), of op s pref]
    by (auto intro!: adds_node_extends new_operator simp: node_address_def nary_node_new_def Let_def)
next
  case (feedback op s r)
  then show ?thesis
    using feedback_output_ok [OF assms(2), of op s] by (auto intro!: adds_node_extends new_operator simp: node_address_def)
next
  case (connect i fc pref)
  have "closes_feedback (bu_circuit b) (FeedbackInputNode g (fc_methods fc) (fc_operator fc) i)" for g
    using connector_ofD [OF connect(2)] by (auto simp: closes_feedback_def node_address_def)
  then show ?thesis
    using connect_with_preference_ok [OF assms(2) connect(1,2), of pref] connect(3) adds_node_extends by fastforce
next
  case (import ps op s pref parent out parent')
  have "st_circuit ps = ci_global_node_id parent"
    using import(3) by (auto simp: import_stream_with_preference_def split: if_splits)
  from import_stream_ok [OF assms(2) this import(1), of op s pref] import(2)
  obtain out2 parent2 b2 where "import_stream_with_preference op s ps pref parent b = Inr (out2, parent2, b2)"
      "extends b b2" by blast
  then show ?thesis using import(3) by (metis Inr_inject prod.inject)
next
  case (event ev)
  then show ?thesis using assms(2) by (simp add: log_circuit_event_def extends_def)
qed

lemma circuit_ok_cache_insert [simp]:
  "circuit_ok (bu_circuit (cache_insert key st b)) so = circuit_ok (bu_circuit b) so"
  "bu_store (cache_insert key st b) = bu_store b"
proof -
  show "circuit_ok (bu_circuit (cache_insert key st b)) so = circuit_ok (bu_circuit b) so"
    by (rule circuit_ok_frame) (simp_all add: cache_insert_def)
qed (simp add: cache_insert_def)

lemma built_ok: "built b \<Longrightarrow> circuit_ok (bu_circuit b) (bu_store b)"
proof (induction rule: built.induct)
  case (step b b')
  then show ?case using constructs_extends [OF step.hyps(2) step.IH] by (simp add: extends_def)
qed (simp_all add: circuit_ok_new)

end
