(* ===== verification/Circuit_Schedule.thy ===== *)
theory Circuit_Schedule
  imports Circuit_Built Schedule_Theorems
begin

text \<open>
  Schedulers on circuits: the table of methods of a built circuit satisfies what the theory of
  schedulers assumes, the orders it proves valid are schedules of the circuit, and so a step of the
  dynamic scheduler computes the clock cycle that \<open>denote\<close> specifies.

  The theory of schedulers asks for evaluations that return.  That holds of a circuit only in the states
  a schedule reaches, so it is applied to a total variant of the table first, whose runs are then shown to
  be runs of the circuit.
\<close>

section \<open>The table of a circuit\<close>

lemma collect_ids_nth:
  assumes "\<And>k. k < length nds \<Longrightarrow> local_id (nds ! k) = Inr (m + k)"
  shows "collect_ids nds = Inr [m..<m + length nds]"
  using assms
proof (induction nds arbitrary: m)
  case (Cons nd nds)
  have "local_id nd = Inr m" using Cons.prems [of 0] by simp
  moreover have "collect_ids nds = Inr [Suc m..<Suc m + length nds]"
  proof (rule Cons.IH)
    fix k assume "k < length nds"
    then show "local_id (nds ! k) = Inr (Suc m + k)" using Cons.prems [of "Suc k"] by simp
  qed
  ultimately show ?case by (simp add: upt_conv_Cons del: upt_Suc)
qed simp

lemma circuit_node_ids:
  assumes "circuit_ok c so"
  shows "node_ids c = Inr [0..<length (ci_nodes c)]"
  unfolding node_ids_def
  using collect_ids_nth [of "ci_nodes c" 0] circuit_okD(1) [OF assms] by (simp add: local_id_def)

lemma circuit_table_simps [simp]:
  "co_global_id (circuit_table c) = ci_global_node_id c" "co_edges (circuit_table c) = ci_edges c"
  "co_eval (circuit_table c) so i = res_map (\<lambda>so. (None, [], so)) (circuit_eval_node c i so)"
  "co_tick (circuit_table c) so = so"
  by (simp_all add: circuit_table_def)

lemma num_nodes_circuit:
  assumes "circuit_ok c so"
  shows "num_nodes (circuit_table c) = length (ci_nodes c)"
  using circuit_node_ids [OF assms] by (simp add: num_nodes_def circuit_table_def)

lemma circuit_table_wf:
  assumes "circuit_ok c so"
  shows "circuit_wf (circuit_table c)"
  using num_nodes_circuit [OF assms] circuit_node_ids [OF assms] circuit_okD(9) [OF assms]
  by (fastforce simp: circuit_wf_def circuit_table_def)

definition total_eval :: "('s, 'd) circuit \<Rightarrow> node_id \<Rightarrow> ('s, 'd) store \<Rightarrow> ('s, 'd) store" where
  "total_eval c i so = (case circuit_eval_node c i so of Inl _ \<Rightarrow> so | Inr so \<Rightarrow> so)"

definition total_table :: "('s, 'd) circuit \<Rightarrow> ('s, 'd) store circuit_ops" where
  "total_table c = (circuit_table c)\<lparr>co_eval := (\<lambda>so i. Inr (None, [], total_eval c i so))\<rparr>"

lemma total_table_simps [simp]:
  "co_global_id (total_table c) = ci_global_node_id c" "co_edges (total_table c) = ci_edges c"
  "co_node_ids (total_table c) = co_node_ids (circuit_table c)"
  "co_is_async (total_table c) = co_is_async (circuit_table c)"
  "co_ready (total_table c) = co_ready (circuit_table c)"
  "co_eval (total_table c) so i = Inr (None, [], total_eval c i so)" "co_tick (total_table c) so = so"
  "num_nodes (total_table c) = num_nodes (circuit_table c)"
  by (simp_all add: total_table_def num_nodes_def)

lemma total_table_returns: "eval_returns (total_table c)"
  by (simp add: eval_returns_def)

lemma total_table_graph: "graph_of (total_table c) extra = graph_of (circuit_table c) extra"
  by (simp add: graph_of_def all_edges_def)

section \<open>Orders and schedules\<close>

definition scheduled_order :: "('s, 'd) circuit \<Rightarrow> node_id list \<Rightarrow> bool" where
  "scheduled_order c xs \<longleftrightarrow> (\<forall>ys k zs. xs = ys @ k # zs \<longrightarrow> next_node c (set ys) k)"

lemma scheduled_order_from: "scheduled_order c (ys @ xs) \<Longrightarrow> schedule_from c ys xs"
proof (induction xs arbitrary: ys)
  case (Cons k ks)
  have "next_node c (set ys) k" using Cons.prems by (auto simp: scheduled_order_def)
  then show ?case using Cons.IH [of "ys @ [k]"] Cons.prems by (simp add: next_node_def)
qed simp

lemma valid_order_scheduled:
  assumes ok: "circuit_ok c so" and vo: "valid_order (graph_of (circuit_table c) extra) xs"
  shows "scheduled_order c xs"
  unfolding scheduled_order_def
proof (intro allI impI)
  fix ys k zs assume xs: "xs = ys @ k # zs"
  let ?G = "graph_of (circuit_table c) extra"
  have n: "tg_n ?G = length (ci_nodes c)" using num_nodes_circuit [OF ok] by (simp add: graph_of_def)
  have "e_from e \<in> set ys" if e: "e \<in> set (ci_edges c)" "e_to e = k" for e
  proof -
    have succ: "k \<in> set (tg_succ ?G (e_from e))"
      using e by (force simp: graph_of_def all_edges_def)
    have "\<forall>k<length xs. \<forall>j<tg_n ?G. xs ! k \<in> set (tg_succ ?G j) \<longrightarrow> j \<in> set (take k xs)"
      using vo by (simp add: valid_order_def)
    from this [rule_format, of "length ys" "e_from e"]
    have "e_from e \<in> set (take (length ys) xs)" using xs succ circuit_okD(9) [OF ok e(1)] n by simp
    then show ?thesis using xs by simp
  qed
  then show "next_node c (set ys) k"
    using vo xs n by (auto simp: valid_order_def next_node_def)
qed

lemma scheduled_order_down_closed:
  "scheduled_order c xs \<Longrightarrow> down_closed c (set xs)"
proof (induction xs rule: rev_induct)
  case (snoc k xs)
  have "scheduled_order c xs" using snoc.prems unfolding scheduled_order_def by auto
  moreover have "next_node c (set xs) k" using snoc.prems unfolding scheduled_order_def by auto
  ultimately show ?case using snoc.IH down_closed_insert by fastforce
qed (simp add: down_closed_def)

section \<open>The log of a run\<close>

fun eval_ended :: "global_node_id \<Rightarrow> scheduler_event \<Rightarrow> node_id list" where
  "eval_ended g (EvalEnd h) = (if h \<noteq> [] \<and> butlast h = g then [last h] else [])"
| "eval_ended g _ = []"

definition evaluated :: "global_node_id \<Rightarrow> scheduler_event list \<Rightarrow> node_id list" where
  "evaluated g log = concat (map (eval_ended g) log)"

lemma evaluated_append [simp]: "evaluated g (l @ m) = evaluated g l @ evaluated g m"
  by (simp add: evaluated_def)

lemma evaluated_simps [simp]:
  "evaluated g [] = []" "evaluated g (EvalStart h # l) = evaluated g l"
  "evaluated g (WaitStart h # l) = evaluated g l" "evaluated g (WaitEnd h # l) = evaluated g l"
  "evaluated g (StepStart h # l) = evaluated g l" "evaluated g (StepEnd h # l) = evaluated g l"
  "evaluated g (EvalEnd (gid_child g i) # l) = i # evaluated g l"
  by (simp_all add: evaluated_def gid_child_def)

lemma step_log_evaluated:
  "step_log (total_table c) l xs \<Longrightarrow> evaluated (ci_global_node_id c) l = xs"
  by (induction rule: step_log.induct) simp_all

text \<open>A turn evaluates at most one node, and keeps the state of the circuit otherwise.\<close>

lemma total_turn:
  assumes "dynamic_turn qo (total_table c) ev st = Inr st'" "ev_act ev = (\<lambda>so. so)"
  shows "evaluated (ci_global_node_id c) (ss_log st') = evaluated (ci_global_node_id c) (ss_log st) \<and>
      ss_circuit st' = ss_circuit st \<and> dynamic_turn qo (circuit_table c) ev st = Inr st' \<or>
    (\<exists>i. evaluated (ci_global_node_id c) (ss_log st') = evaluated (ci_global_node_id c) (ss_log st) @ [i] \<and>
       ss_circuit st' = total_eval c i (ss_circuit st) \<and> ss_phase st = Looping \<and> ss_phase st' = Looping \<and>
       (returns (circuit_eval_node c i (ss_circuit st)) \<longrightarrow> dynamic_turn qo (circuit_table c) ev st = Inr st'))"
proof (cases "ss_phase st = Looping \<and> ss_completed_tasks st < length (in_tasks (ss_inner st)) \<and> \<not> ev_kill ev")
  case False
  then show ?thesis
    using assms by (auto simp: dynamic_turn_def loop_turn_def deliver_def Let_def split: phase.splits if_splits)
next
  case True
  obtain task inner where d: "dequeue_next_task qo (ss_inner (deliver ev st)) = Inr (task, inner)"
    using True assms(1) by (auto simp: dynamic_turn_def loop_turn_def Let_def res_bind_eq_Inr)
  let ?st = "(deliver ev st)\<lparr>ss_inner := inner\<rparr>"
  show ?thesis
  proof (cases task)
    case None
    then have "idle_turn qo (total_table c) ev ?st = Inr st'"
      using assms True d by (simp add: dynamic_turn_def loop_turn_def Let_def)
    moreover have "dynamic_turn qo (circuit_table c) ev st = idle_turn qo (circuit_table c) ev ?st"
      using True d None by (simp add: dynamic_turn_def loop_turn_def Let_def)
    ultimately show ?thesis
      using assms(2) by (auto simp: idle_turn_def Let_def res_map_eq_Inr)
  next
    case (Some i)
    then have t: "run_task (total_table c) ?st i = Inr st'"
      using assms True d by (simp add: dynamic_turn_def loop_turn_def Let_def)
    have r: "dynamic_turn qo (circuit_table c) ev st = run_task (circuit_table c) ?st i"
      using True d Some by (simp add: dynamic_turn_def loop_turn_def Let_def)
    have i: "i < num_nodes (circuit_table c)" using t by (auto simp: run_task_def eval_node_def split: if_splits)
    have "run_task (circuit_table c) ?st i = Inr st'" if "returns (circuit_eval_node c i (ss_circuit st))"
      using that t i assms(2)
      by (auto simp: run_task_def eval_node_def returns_iff total_eval_def Let_def)
    moreover have "evaluated (ci_global_node_id c) (ss_log st') = evaluated (ci_global_node_id c) (ss_log st) @ [i] \<and>
        ss_circuit st' = total_eval c i (ss_circuit st) \<and> ss_phase st' = Looping"
      using t i assms(2) True by (auto simp: run_task_def eval_node_def Let_def)
    ultimately show ?thesis using r True by metis
  qed
qed

section \<open>Runs of the dynamic scheduler\<close>

definition cycle_inv ::
  "task_graph \<Rightarrow> ('q \<Rightarrow> node_id \<Rightarrow> int option) \<Rightarrow> ('s, 'd) circuit \<Rightarrow> ('s, 'd) store \<Rightarrow>
   (('s, 'd) store, 'q) step_state \<Rightarrow> node_id list \<Rightarrow> bool" where
  "cycle_inv G items c so st xs \<longleftrightarrow>
     run_inv G items (total_table c) st xs \<and>
     ((\<nexists>e. ss_phase st = Failed e) \<longrightarrow> ss_circuit st = store_after c so (set xs))"

lemma run_inv_evaluated:
  assumes "run_inv G items (total_table c) st xs" "\<nexists>e. ss_phase st = Failed e"
  shows "evaluated (ci_global_node_id c) (ss_log st) = xs"
  using assms step_log_evaluated by (auto simp: run_inv_def split: phase.splits)

lemma cycle_turn:
  assumes den: "denote (ci_nodes c) (Map.empty, so_operators so) = Inr r" and ok: "circuit_ok c so"
    and bv: "\<forall>nd\<in>set (ci_nodes c). node_by_value nd" and pq: "priority_queue qo items"
    and G: "G = graph_of (circuit_table c) extra" "graph_closed G"
    and inv: "cycle_inv G items c so st xs" and ev: "env_ok G ev" "ev_act ev = (\<lambda>so. so)"
  shows "\<exists>st' xs'. dynamic_turn qo (circuit_table c) ev st = Inr st' \<and> cycle_inv G items c so st' xs'"
proof -
  let ?g = "ci_global_node_id c"
  have n: "num_nodes (total_table c) = tg_n G" by (simp add: G(1) graph_of_def)
  have run: "run_inv G items (total_table c) st xs" using inv by (simp add: cycle_inv_def)
  obtain st' xs' where st': "dynamic_turn qo (total_table c) ev st = Inr st'"
      "run_inv G items (total_table c) st' xs'"
    using dynamic_turn_inv [OF pq G(2) n total_table_returns run ev(1)] by auto
  note T = total_turn [OF st'(1) ev(2)]
  show ?thesis
  proof (cases "\<exists>e. ss_phase st = Failed e")
    case True
    then have "st' = deliver ev st" "dynamic_turn qo (circuit_table c) ev st = Inr st'"
      using st'(1) by (auto simp: dynamic_turn_def)
    then show ?thesis using st'(2) True by (auto simp: cycle_inv_def)
  next
    case False
    have xs: "evaluated ?g (ss_log st) = xs" by (rule run_inv_evaluated [OF run False])
    have so: "ss_circuit st = store_after c so (set xs)" using inv False by (simp add: cycle_inv_def)
    from T show ?thesis
    proof (elim disjE exE conjE)
      assume t: "evaluated ?g (ss_log st') = evaluated ?g (ss_log st)" "ss_circuit st' = ss_circuit st"
        "dynamic_turn qo (circuit_table c) ev st = Inr st'"
      have "xs' = xs" if "\<nexists>e. ss_phase st' = Failed e"
        using run_inv_evaluated [OF st'(2) that] t(1) xs by simp
      then show ?thesis using st'(2) t so by (auto simp: cycle_inv_def)
    next
      fix i
      assume t: "evaluated ?g (ss_log st') = evaluated ?g (ss_log st) @ [i]"
        "ss_circuit st' = total_eval c i (ss_circuit st)" "ss_phase st = Looping" "ss_phase st' = Looping"
        "returns (circuit_eval_node c i (ss_circuit st)) \<longrightarrow> dynamic_turn qo (circuit_table c) ev st = Inr st'"
      have "xs' = xs @ [i]" using run_inv_evaluated [OF st'(2)] t(1,4) xs by simp
      then have vo: "valid_order (graph_of (circuit_table c) extra) (xs @ [i])"
        using st'(2) G(1) by (simp add: run_inv_def)
      have sched: "scheduled_order c (xs @ [i])" by (rule valid_order_scheduled [OF ok vo])
      have nx: "next_node c (set xs) i" using sched by (auto simp: scheduled_order_def)
      have "scheduled_order c xs"
        using valid_order_scheduled [OF ok valid_order_prefix [OF vo]] .
      note down = scheduled_order_down_closed [OF this]
      have e: "circuit_eval_node c i (ss_circuit st) = Inr (store_after c so (set (xs @ [i])))"
        using eval_next_node [OF den ok bv down nx] so by simp
      then show ?thesis
        using t \<open>xs' = xs @ [i]\<close> st'(2) by (auto simp: cycle_inv_def total_eval_def)
    qed
  qed
qed

lemma cycle_run:
  assumes den: "denote (ci_nodes c) (Map.empty, so_operators so) = Inr r" and ok: "circuit_ok c so"
    and bv: "\<forall>nd\<in>set (ci_nodes c). node_by_value nd" and pq: "priority_queue qo items"
    and G: "G = graph_of (circuit_table c) extra" "graph_closed G"
  shows "cycle_inv G items c so st xs \<Longrightarrow> \<forall>ev\<in>set evs. env_ok G ev \<and> ev_act ev = (\<lambda>so. so) \<Longrightarrow>
    \<exists>st' xs'. dynamic_run qo (circuit_table c) evs st = Inr st' \<and> cycle_inv G items c so st' xs'"
proof (induction evs arbitrary: st xs)
  case (Cons ev evs)
  obtain st1 xs1 where "dynamic_turn qo (circuit_table c) ev st = Inr st1" "cycle_inv G items c so st1 xs1"
    using cycle_turn [OF den ok bv pq G Cons.prems(1), of ev] Cons.prems(2) by auto
  then show ?case using Cons.IH [of st1 xs1] Cons.prems(2) by auto
qed auto

text \<open>A step that has finished has computed a clock cycle.\<close>

lemma dynamic_step_computes:
  assumes den: "denote (ci_nodes c) (Map.empty, so_operators so) = Inr (f, ops)" and ok: "circuit_ok c so"
    and bv: "\<forall>nd\<in>set (ci_nodes c). node_by_value nd" and pq: "priority_queue qo items"
    and G: "G = graph_of (circuit_table c) extra" "graph_closed G" and inner: "rest_inv G items inner"
    and evs: "\<forall>ev\<in>set evs. env_ok G ev \<and> ev_act ev = (\<lambda>so. so)"
  shows "\<exists>st0 st. dynamic_start qo (circuit_table c) inner so token = Inr st0 \<and>
    dynamic_run qo (circuit_table c) evs st0 = Inr st \<and>
    (ss_phase st = Finished \<longrightarrow> rest_inv G items (ss_inner st) \<and>
       ss_circuit st = store_after c so {..<length (ci_nodes c)} \<and> so_operators (ss_circuit st) = ops \<and>
       circuit_ok c (ss_circuit st))"
proof -
  obtain st0 where st0: "dynamic_start qo (total_table c) inner so token = Inr st0"
      "run_inv G items (total_table c) st0 []"
    using dynamic_start_inv [OF pq inner, of "total_table c" so token] by auto
  have c0: "ss_circuit st0 = so" using st0(1) by (auto simp: dynamic_start_def res_map_eq_Inr)
  have "cycle_inv G items c so st0 []" using st0(2) c0 by (simp add: cycle_inv_def store_after_empty)
  then obtain st xs where st: "dynamic_run qo (circuit_table c) evs st0 = Inr st" "cycle_inv G items c so st xs"
    using cycle_run [OF den ok bv pq G _ evs] by blast
  have "dynamic_start qo (circuit_table c) inner so token = Inr st0" using st0(1) by (simp add: dynamic_start_def)
  moreover have "rest_inv G items (ss_inner st) \<and> ss_circuit st = store_after c so {..<length (ci_nodes c)}"
    if "ss_phase st = Finished"
    using st(2) that num_nodes_circuit [OF ok] by (auto simp: cycle_inv_def run_inv_def G(1) graph_of_def)
  ultimately show ?thesis
    using st(1) store_after_operators [OF den] circuit_ok_store_after [OF ok] by auto
qed

lemma dynamic_steps_compute:
  assumes bv: "\<forall>nd\<in>set (ci_nodes c). node_by_value nd" and pq: "priority_queue qo items"
    and G: "G = graph_of (circuit_table c) extra" "graph_closed G"
  shows "rest_inv G items inner \<Longrightarrow> circuit_ok c so \<Longrightarrow>
    \<forall>evs\<in>set evss. \<forall>ev\<in>set evs. env_ok G ev \<and> ev_act ev = (\<lambda>so. so) \<Longrightarrow>
    denote_cycles (ci_nodes c) (length evss) (so_operators so) = Inr (fs, ops) \<Longrightarrow>
    \<exists>sts. dynamic_steps qo (circuit_table c) evss inner so token = Inr sts \<and>
      (\<forall>k<length sts. ss_phase (sts ! k) = Finished \<longrightarrow>
         (\<exists>fs'. denote_cycles (ci_nodes c) (Suc k) (so_operators so) = Inr (fs', so_operators (ss_circuit (sts ! k)))))"
proof (induction evss arbitrary: inner so token fs)
  case (Cons evs evss)
  obtain f ops1 fs1 where den: "denote (ci_nodes c) (Map.empty, so_operators so) = Inr (f, ops1)"
      "denote_cycles (ci_nodes c) (length evss) ops1 = Inr (fs1, ops)"
    using Cons.prems(4) by (auto simp: res_bind_eq_Inr res_map_eq_Inr)
  obtain st0 st where st: "dynamic_start qo (circuit_table c) inner so token = Inr st0"
      "dynamic_run qo (circuit_table c) evs st0 = Inr st"
      "ss_phase st = Finished \<longrightarrow> rest_inv G items (ss_inner st) \<and>
         so_operators (ss_circuit st) = ops1 \<and> circuit_ok c (ss_circuit st)"
    using dynamic_step_computes [OF den(1) Cons.prems(2) bv pq G Cons.prems(1), of evs token] Cons.prems(3)
    by auto
  show ?case
  proof (cases "ss_phase st = Finished")
    case False
    then show ?thesis using st(1,2) by auto
  next
    case True
    then obtain sts where sts: "dynamic_steps qo (circuit_table c) evss (ss_inner st) (ss_circuit st) (ss_token st) = Inr sts"
        "\<forall>k<length sts. ss_phase (sts ! k) = Finished \<longrightarrow>
           (\<exists>fs'. denote_cycles (ci_nodes c) (Suc k) ops1 = Inr (fs', so_operators (ss_circuit (sts ! k))))"
      using Cons.IH [of "ss_inner st" "ss_circuit st" fs1 "ss_token st"] Cons.prems(3) st(3) den(2)
      by (auto simp del: denote_cycles.simps)
    have "dynamic_steps qo (circuit_table c) (evs # evss) inner so token = Inr (st # sts)"
      using st True sts(1) by simp
    moreover have "\<exists>fs'. denote_cycles (ci_nodes c) (Suc k) (so_operators so) =
        Inr (fs', so_operators (ss_circuit ((st # sts) ! k)))"
      if k: "k < length (st # sts)" "ss_phase ((st # sts) ! k) = Finished" for k
    proof (cases k)
      case 0
      then show ?thesis using den(1) st(3) True by simp
    next
      case (Suc m)
      then obtain fs' where "denote_cycles (ci_nodes c) (Suc m) ops1 = Inr (fs', so_operators (ss_circuit (sts ! m)))"
        using sts(2) k by auto
      then show ?thesis
        unfolding Suc denote_cycles.simps(2) [of _ "Suc m"] using den(1) by simp
    qed
    ultimately show ?thesis by blast
  qed
qed simp

section \<open>Ownership\<close>

text \<open>
  The constraints make every other consumer of a stream run before the one that strongly prefers to own
  the value.
\<close>

lemma origin_successors_map:
  "map_of (origin_successors es) g =
     (let ss = map (\<lambda>e. (e_to e, e_preference e)) (filter (\<lambda>e. e_origin e = g) es)
      in if ss = [] then None else Some ss)"
proof (induction es rule: rev_induct)
  case (snoc e es)
  have eq: "origin_successors (es @ [e]) = entry_push (origin_successors es) (e_origin e) (e_to e, e_preference e)"
    by (simp add: origin_successors_def)
  show ?case unfolding eq map_of_entry_push using snoc by (auto simp: Let_def)
qed (simp add: origin_successors_def)

lemma constraints_of_complete:
  assumes cs: "constraints_of g origin ss = Inr cs" and k: "(k, Some p) \<in> set ss" "STRONGLY_PREFER_OWNED \<le> p"
    and m: "(m, Some q) \<in> set ss" "m \<noteq> k"
  shows "(m, k) \<in> set cs"
proof -
  obtain i where i: "i < length ss" "ss ! i = (k, Some p)" using k(1) by (auto simp: in_set_conv_nth)
  obtain j where j: "j < length ss" "ss ! j = (m, Some q)" using m(1) by (auto simp: in_set_conv_nth)
  have "(i, (k, Some p)) \<in> set (strong_successors ss)"
    using i k(2) by (auto simp: strong_successors_def is_strong_def in_set_enumerate_eq)
  then obtain index s where one: "strong_successors ss = [(index, s)]"
    using cs by (auto simp: constraints_of_def split: list.splits prod.splits)
  with \<open>(i, (k, Some p)) \<in> set (strong_successors ss)\<close> have "index = i" by simp
  moreover have "(j, (m, Some q)) \<in> set (filter (\<lambda>(n, s). n \<noteq> i \<and> snd s \<noteq> None) (enumerate 0 ss))"
    using i j m(2) by (auto simp: in_set_enumerate_eq)
  ultimately show ?thesis using cs one i(2) by (force simp: constraints_of_def)
qed

lemma constraints_loop_complete:
  "constraints_loop g cs m = Inr cs' \<Longrightarrow> (origin, ss) \<in> set m \<Longrightarrow>
   set cs \<subseteq> set cs' \<and> (\<exists>new. constraints_of g origin ss = Inr new \<and> set new \<subseteq> set cs')"
proof (induction g cs m rule: constraints_loop.induct)
  case (2 g cs or1 ss1 m)
  obtain new where new: "constraints_of g or1 ss1 = Inr new" "constraints_loop g (cs @ new) m = Inr cs'"
    using 2(2) by (auto split: sum.splits)
  have mono: "set cs0 \<subseteq> set cs'" if "constraints_loop g cs0 m = Inr cs'" for cs0
    using that
  proof (induction g cs0 m rule: constraints_loop.induct)
    case (2 g cs origin succ m)
    then show ?case by (auto split: sum.splits)
  qed simp
  show ?case
    using 2(1) [OF new(1) new(2)] 2(3) new mono [OF new(2)] by auto
qed simp

lemma ownership_constraints_complete:
  assumes extra: "ownership_constraints iter_order c = Inr extra" and iter: "\<And>m. mset (iter_order m) = mset m"
    and e1: "e1 \<in> set (co_edges c)" "e_preference e1 = Some p" "STRONGLY_PREFER_OWNED \<le> p"
    and e2: "e2 \<in> set (co_edges c)" "e_preference e2 \<noteq> None" "e_origin e2 = e_origin e1" "e_to e2 \<noteq> e_to e1"
  shows "(e_to e2, e_to e1) \<in> set extra"
proof -
  let ?ss = "map (\<lambda>e. (e_to e, e_preference e)) (filter (\<lambda>e. e_origin e = e_origin e1) (co_edges c))"
  have in1: "(e_to e1, Some p) \<in> set ?ss" using e1(1,2) by force
  obtain q where q: "e_preference e2 = Some q" using e2(2) by auto
  have in2: "(e_to e2, Some q) \<in> set ?ss" using e2(1,3) q by force
  have "map_of (origin_successors (co_edges c)) (e_origin e1) = Some ?ss"
    unfolding origin_successors_map using in1 by (auto simp: Let_def filter_empty_conv)
  then have "(e_origin e1, ?ss) \<in> set (origin_successors (co_edges c))" by (rule map_of_SomeD)
  then have "(e_origin e1, ?ss) \<in> set (iter_order (origin_successors (co_edges c)))"
    using iter by (metis set_mset_mset)
  then obtain new where "constraints_of (co_global_id c) (e_origin e1) ?ss = Inr new" "set new \<subseteq> set extra"
    using constraints_loop_complete [OF extra [unfolded ownership_constraints_def]] by blast
  then show ?thesis using constraints_of_complete [OF _ in1 e1(3) in2] e2(4) by auto
qed

text \<open>
  When a node runs that alone strongly prefers to own an input, its token is the last one.
\<close>

lemma last_token:
  assumes ok: "circuit_ok c so" and all: "\<forall>nd\<in>set (ci_nodes c). takes_all nd"
    and Y: "down_closed c Y" and k: "k < length (ci_nodes c)" "k \<notin> Y"
    and others: "\<And>m. m < length (ci_nodes c) \<Longrightarrow> m \<noteq> k \<Longrightarrow> 0 < node_reads (ci_nodes c ! m) p \<Longrightarrow> m \<in> Y"
  shows "readers (ci_nodes c) p - takes c Y p = node_reads (ci_nodes c ! k) p"
proof -
  let ?n = "length (ci_nodes c)"
  have sub: "Y \<subseteq> {..<?n}" using Y by (simp add: down_closed_def)
  have "takes c Y p = (\<Sum>m\<in>Y. node_reads (ci_nodes c ! m) p)"
    unfolding takes_def using sub circuit_okD(2) [OF ok] all
    by (intro sum.cong takes_all_reads) auto
  also have "\<dots> = (\<Sum>m\<in>{..<?n} - {k}. node_reads (ci_nodes c ! m) p)"
    using sub k(2) others by (intro sum.mono_neutral_left) auto
  finally show ?thesis
    using k(1) by (simp add: readers_eq sum.remove [of "{..<?n}" k])
qed

end
