(* ===== verification/Circuit_Theorems.thy ===== *)
theory Circuit_Theorems
  imports Circuit_Schedule
begin

text \<open>
  What circuits guarantee: construction yields well formed circuits, a clock cycle does not depend on the
  schedule, the dynamic scheduler computes it, and ownership goes to the consumer that asks for it.
\<close>

section \<open>Sample circuits\<close>

text \<open>
  A counter with two consumers, a sink and an operator that strongly prefers to own its input, whose output
  is read twice by one adder; and a counter read three times by one ternary node.  The state of an operator
  is a number: the counter, or the sum of what a sink has seen.
\<close>

definition sample_base :: "int operator" where
  "sample_base = \<lparr>op_name = ''sample'', op_location = None, op_is_async = False, op_ready = (\<lambda>_. True),
     op_clock_start = (\<lambda>_ s. s), op_clock_end = (\<lambda>_ s. s), op_fixedpoint = (\<lambda>_ _. Inr True)\<rparr>"

definition counter_source :: "(int, int) source_operator" where
  "counter_source = operator.extend sample_base (source_operator.fields (\<lambda>s. Inr (s, s + 1)))"

definition doubler :: "(int, int) unary_operator" where
  "doubler = operator.extend sample_base
     (unary_operator.fields (\<lambda>a s. Inr (2 * a, s)) (\<lambda>a s. Inr (2 * a, s)) STRONGLY_PREFER_OWNED)"

definition summing_sink :: "(int, int) sink_operator" where
  "summing_sink = operator.extend sample_base
     (sink_operator.fields (\<lambda>a s. Inr (s + a)) (\<lambda>a s. Inr (s + a)) INDIFFERENT)"

definition adder :: "(int, int) binary_operator" where
  "adder = operator.extend sample_base
     (binary_operator.fields (\<lambda>a b s. Inr (a + b, s)) (\<lambda>a b s. Inr (a + b, s)) (\<lambda>a b s. Inr (a + b, s))
        (\<lambda>a b s. Inr (a + b, s)) (INDIFFERENT, INDIFFERENT))"

definition adder3 :: "(int, int) ternary_operator" where
  "adder3 = operator.extend sample_base
     (ternary_operator.fields (\<lambda>a b c s. Inr (cow_value a + cow_value b + cow_value c, s))
        (INDIFFERENT, INDIFFERENT, INDIFFERENT))"

lemma sample_operators [simp]:
  "op_name counter_source = ''sample''" "op_location counter_source = None" "op_is_async counter_source = False"
  "src_eval counter_source = (\<lambda>s. Inr (s, s + 1))"
  "op_name doubler = ''sample''" "op_location doubler = None" "op_is_async doubler = False"
  "un_eval doubler = (\<lambda>a s. Inr (2 * a, s))" "un_eval_owned doubler = (\<lambda>a s. Inr (2 * a, s))"
  "un_input_preference doubler = STRONGLY_PREFER_OWNED"
  "op_name summing_sink = ''sample''" "op_location summing_sink = None" "op_is_async summing_sink = False"
  "snk_eval summing_sink = (\<lambda>a s. Inr (s + a))" "snk_eval_owned summing_sink = (\<lambda>a s. Inr (s + a))"
  "snk_input_preference summing_sink = INDIFFERENT"
  "op_name adder = ''sample''" "op_location adder = None" "op_is_async adder = False"
  "bin_eval adder = (\<lambda>a b s. Inr (a + b, s))" "bin_eval_owned adder = (\<lambda>a b s. Inr (a + b, s))"
  "bin_eval_owned_and_ref adder = (\<lambda>a b s. Inr (a + b, s))"
  "bin_eval_ref_and_owned adder = (\<lambda>a b s. Inr (a + b, s))"
  "bin_input_preference adder = (INDIFFERENT, INDIFFERENT)"
  "op_name adder3 = ''sample''" "op_location adder3 = None" "op_is_async adder3 = False"
  "ter_eval adder3 = (\<lambda>a b c s. Inr (cow_value a + cow_value b + cow_value c, s))"
  "ter_input_preference adder3 = (INDIFFERENT, INDIFFERENT, INDIFFERENT)"
  by (simp_all add: counter_source_def doubler_def summing_sink_def adder_def adder3_def sample_base_def
    operator.defs source_operator.defs unary_operator.defs sink_operator.defs binary_operator.defs
    ternary_operator.defs)

definition sample_stream :: "nat \<Rightarrow> nat \<Rightarrow> stream" where
  "sample_stream n p = \<lparr>st_local_node_id = n, st_origin_node_id = [n], st_circuit = [], st_val = p\<rparr>"

definition sample_b1 :: "(int, int) builder" where
  "sample_b1 = snd (projr (add_source counter_source 5 root_circuit_new))"

definition sample_b2 :: "(int, int) builder" where
  "sample_b2 = projr (add_sink summing_sink 0 (sample_stream 0 0) sample_b1)"

definition sample_b3 :: "(int, int) builder" where
  "sample_b3 = snd (projr (add_unary_operator doubler 0 (sample_stream 0 0) sample_b2))"

definition sample_b4 :: "(int, int) builder" where
  "sample_b4 = snd (projr (add_binary_operator adder 0 (sample_stream 2 1) (sample_stream 2 1) sample_b3))"

definition alias_b2 :: "(int, int) builder" where
  "alias_b2 = snd (projr
     (add_ternary_operator adder3 0 (sample_stream 0 0) (sample_stream 0 0) (sample_stream 0 0) sample_b1))"

lemmas construction_defs =
  add_source_def source_node_def add_node_def operator_event_def log_circuit_event_def operator_new_def
  stream_new_def stream_with_origin_def builder_gid_def gid_child_def gid_root_def root_circuit_new_def
  circuit_new_def add_unary_operator_def add_unary_operator_with_preference_def operator_node_def
  connect_stream_def stream_cell_def set_cell_def circuit_add_edge_def add_binary_operator_def
  add_binary_operator_with_preference_def binary_node_new_def stream_ptr_eq_def add_sink_def
  add_sink_with_preference_def sink_node_def add_ternary_operator_def add_ternary_operator_with_preference_def
  ternary_node_new_def sv_empty_def Let_def

definition sample_edge4 :: "nat \<Rightarrow> nat \<Rightarrow> ownership_preference \<Rightarrow> edge" where
  "sample_edge4 m n p = \<lparr>e_from = m, e_to = n, e_origin = [m], e_preference = Some p\<rparr>"

lemmas sample_defs = sample_b1_def sample_b2_def sample_b3_def sample_b4_def alias_b2_def sample_stream_def
  sample_edge4_def

lemma sample_calls:
  "add_source counter_source 5 root_circuit_new = Inr (sample_stream 0 0, sample_b1)"
  "add_sink summing_sink 0 (sample_stream 0 0) sample_b1 = Inr sample_b2"
  "add_unary_operator doubler 0 (sample_stream 0 0) sample_b2 = Inr (sample_stream 2 1, sample_b3)"
  "add_binary_operator adder 0 (sample_stream 2 1) (sample_stream 2 1) sample_b3 = Inr (sample_stream 3 2, sample_b4)"
  "add_ternary_operator adder3 0 (sample_stream 0 0) (sample_stream 0 0) (sample_stream 0 0) sample_b1 =
     Inr (sample_stream 1 1, alias_b2)"
  by (simp_all add: sample_defs construction_defs)

lemma sample_nodes:
  "ci_nodes (bu_circuit sample_b1) = [SourceNode [0] counter_source 0 (sample_stream 0 0)]"
  "ci_nodes (bu_circuit sample_b2) = ci_nodes (bu_circuit sample_b1) @
     [SinkNode [1] summing_sink 1 (sample_stream 0 0)]"
  "ci_nodes (bu_circuit sample_b3) = ci_nodes (bu_circuit sample_b2) @
     [UnaryNode [2] doubler 2 (sample_stream 0 0) (sample_stream 2 1)]"
  "ci_nodes (bu_circuit sample_b4) = ci_nodes (bu_circuit sample_b3) @
     [BinaryNode [3] adder 3 (sample_stream 2 1) (sample_stream 2 1) (sample_stream 3 2) True]"
  "ci_nodes (bu_circuit alias_b2) = ci_nodes (bu_circuit sample_b1) @
     [TernaryNode [1] adder3 1 (sample_stream 0 0) (sample_stream 0 0) (sample_stream 0 0) (sample_stream 1 1)
        True True]"
  "ci_edges (bu_circuit sample_b4) = [sample_edge4 0 1 INDIFFERENT, sample_edge4 0 2 STRONGLY_PREFER_OWNED,
     sample_edge4 2 3 INDIFFERENT, sample_edge4 2 3 INDIFFERENT]"
  "ci_edges (bu_circuit alias_b2) = [sample_edge4 0 1 INDIFFERENT, sample_edge4 0 1 INDIFFERENT,
     sample_edge4 0 1 INDIFFERENT]"
  "so_operators (bu_store sample_b4) = [5, 0, 0, 0]" "so_operators (bu_store alias_b2) = [5, 0]"
  "ci_global_node_id (bu_circuit sample_b4) = []"
  by (simp_all add: sample_defs construction_defs)

lemma sample_built: "built sample_b4" "built alias_b2"
proof -
  have b0: "built (root_circuit_new :: (int, int) builder)" unfolding root_circuit_new_def by (rule built.new)
  have b1: "built sample_b1" by (rule built.step [OF b0 constructs.source [OF sample_calls(1)]])
  have s0: "stream_of (bu_circuit sample_b1) (sample_stream 0 0)" by (simp add: stream_of_def sample_nodes)
  have b2: "built sample_b2"
    by (rule built.step [OF b1 constructs.sink [OF s0 sample_calls(2) [unfolded add_sink_def]]])
  have "stream_of (bu_circuit sample_b2) (sample_stream 0 0)" by (simp add: stream_of_def sample_nodes)
  from constructs.unary [OF this sample_calls(3) [unfolded add_unary_operator_def]]
  have b3: "built sample_b3" by (rule built.step [OF b2])
  have s1: "stream_of (bu_circuit sample_b3) (sample_stream 2 1)" by (simp add: stream_of_def sample_nodes)
  have "constructs sample_b3 sample_b4"
    using constructs.binary [OF s1 s1] sample_calls(4) by (simp add: add_binary_operator_def)
  then show "built sample_b4" by (rule built.step [OF b3])
  have "constructs sample_b1 alias_b2"
    using constructs.ternary [OF s0 s0 s0] sample_calls(5) by (simp add: add_ternary_operator_def)
  then show "built alias_b2" by (rule built.step [OF b1])
qed

lemma sample_by_value:
  "\<forall>nd\<in>set (ci_nodes (bu_circuit sample_b4)). node_by_value nd \<and> takes_all nd"
  "\<forall>nd\<in>set (ci_nodes (bu_circuit alias_b2)). node_by_value nd"
  by (simp_all add: sample_nodes)

lemmas denote_simps = input_values_def node_address_def with_output_def without_output_def set_output_def
  sample_stream_def

lemma sample_denote:
  "\<exists>f. denote (ci_nodes (bu_circuit sample_b4)) (Map.empty, so_operators (bu_store sample_b4)) =
     Inr (f, [6, 5, 0, 0]) \<and> f 0 = Some 5"
  "\<exists>f. denote (ci_nodes (bu_circuit alias_b2)) (Map.empty, so_operators (bu_store alias_b2)) = Inr (f, [6, 0])"
  by (simp_all add: sample_nodes denote_simps)

section \<open>Construction\<close>

text \<open>The order of construction is a schedule.\<close>

lemma index_schedule:
  assumes "circuit_ok c so"
  shows "schedule c [0..<length (ci_nodes c)]"
proof -
  have "schedule_from c [0..<k] [k..<length (ci_nodes c)]" if "k \<le> length (ci_nodes c)" for k
    using that
  proof (induction k rule: inc_induct)
    case (step m)
    have "e_from e \<in> set [0..<m]" if "e \<in> set (ci_edges c)" "e_to e = m" for e
      using circuit_okD(9) [OF assms that(1)] that(2) by simp
    then show ?case using step by (simp add: upt_conv_Cons)
  qed simp
  from this [of 0] show ?thesis by (simp add: schedule_def)
qed

text \<open>C9. Every circuit made by the constructors is well formed: node ids are positions; every input of a node is the
  output of an older node, brought by an edge; edges lead from older to newer nodes, so that the order of
  construction is a schedule and no circuit is cyclic; a stream counts as many consumers as inputs read
  it; nodes that share an operator are ordered by an edge.\<close>

theorem built_circuit_wf:
  assumes "built b"
  shows "circuit_ok (bu_circuit b) (bu_store b) \<and>
    node_ids (bu_circuit b) = Inr [0..<length (ci_nodes (bu_circuit b))] \<and>
    schedule (bu_circuit b) [0..<length (ci_nodes (bu_circuit b))]"
  using built_ok [OF assms] circuit_node_ids [OF built_ok [OF assms]] index_schedule [OF built_ok [OF assms]] by blast

theorem built_circuit_wf_witness:
  "circuit_ok (bu_circuit sample_b4) (bu_store sample_b4) \<and> length (ci_nodes (bu_circuit sample_b4)) = 4 \<and>
    node_ids (bu_circuit sample_b4) = Inr [0, 1, 2, 3] \<and> schedule (bu_circuit sample_b4) [0, 1, 2, 3]"
  using built_circuit_wf [OF sample_built(1)] by (simp add: sample_nodes upt_rec eval_nat_numeral)

section \<open>Steps of the dynamic scheduler\<close>

text \<open>C8. On a built circuit whose operators do not distinguish owned from borrowed inputs, every step of the dynamic
  scheduler that finishes has computed the clock cycle of the specification: no assertion on tokens
  fails, no stream is read empty, and the operators are in the states the specification gives, cycle
  after cycle, whatever order the run queue and the notifications led to.\<close>

theorem dynamic_steps_dataflow:
  assumes "built b" "\<forall>nd\<in>set (ci_nodes (bu_circuit b)). node_by_value nd"
    and "priority_queue qo items" "topological_sort toposort" "\<And>m. mset (iter_order m) = mset m"
    and "dynamic_prepare qo toposort iter_order (circuit_table (bu_circuit b)) (bu_store b) = Inr (Inr inner)"
    and "\<forall>evs\<in>set evss. \<forall>ev\<in>set evs. env_wf (circuit_table (bu_circuit b)) ev \<and> ev_act ev = (\<lambda>so. so)"
    and "denote_cycles (ci_nodes (bu_circuit b)) (length evss) (so_operators (bu_store b)) = Inr (fs, ops)"
  shows "\<exists>sts. dynamic_steps qo (circuit_table (bu_circuit b)) evss inner (bu_store b) token = Inr sts \<and>
    (\<forall>k<length sts. ss_phase (sts ! k) = Finished \<longrightarrow>
       (\<exists>fs'. denote_cycles (ci_nodes (bu_circuit b)) (Suc k) (so_operators (bu_store b)) =
          Inr (fs', so_operators (ss_circuit (sts ! k)))))"
proof -
  let ?c = "bu_circuit b"
  note ok = built_ok [OF assms(1)]
  obtain extra where extra: "rest_inv (graph_of (circuit_table ?c) extra) items inner"
      "graph_closed (graph_of (circuit_table ?c) extra)"
    using dynamic_prepare_ok [OF assms(3) circuit_table_wf [OF ok] assms(5,4,6)] by blast
  have "\<forall>evs\<in>set evss. \<forall>ev\<in>set evs. env_ok (graph_of (circuit_table ?c) extra) ev \<and> ev_act ev = (\<lambda>so. so)"
    using assms(7) by simp
  from dynamic_steps_compute [OF assms(2,3) refl extra(2,1) ok this assms(8)] show ?thesis .
qed

section \<open>Ownership\<close>


text \<open>C35. A ternary node that reads one stream through two inputs never takes the token of the alias: at the end of every
  schedule of a clock cycle the cell still holds its value and a token, so that no consumer of the stream,
  not even one that strongly prefers it, ever owns the value.\<close>

theorem ternary_alias_leaks:
  assumes built: "built b" and bv: "\<forall>nd\<in>set (ci_nodes (bu_circuit b)). node_by_value nd"
    and den: "denote (ci_nodes (bu_circuit b)) (Map.empty, so_operators (bu_store b)) = Inr (f, ops)"
    and xs: "schedule (bu_circuit b) xs" and k: "k < length (ci_nodes (bu_circuit b))"
    and nd: "ci_nodes (bu_circuit b) ! k = TernaryNode g op a i1 i2 i3 out al1 al2" "al1 \<or> al2"
  shows "\<exists>so'. eval_nodes (bu_circuit b) xs (bu_store b) = Inr so' \<and>
    (\<exists>i\<in>{i1, i2}. 0 < sv_tokens (stream_cell i so') \<and> sv_val (stream_cell i so') \<noteq> None)"
proof -
  let ?c = "bu_circuit b" let ?so = "bu_store b" let ?n = "length (ci_nodes ?c)"
  note ok = built_ok [OF built]
  define i where "i = (if al1 then i1 else i2)"
  have i: "i \<in> set (node_inputs (ci_nodes ?c ! k))" "i \<in> {i1, i2}" using nd(1) by (simp_all add: i_def)
  obtain j where j: "j < k" "node_output (ci_nodes ?c ! j) = Some i" using circuit_okD(4) [OF ok k i(1)] by auto
  have less: "count_list (map st_val (node_takes (ci_nodes ?c ! k))) (st_val i) < node_reads (ci_nodes ?c ! k) (st_val i)"
    using nd circuit_okD(2) [OF ok k] by (auto simp: i_def node_reads_def)
  have "takes ?c {..<?n} (st_val i) < readers (ci_nodes ?c) (st_val i)"
    unfolding takes_def readers_eq
  proof (rule sum_strict_mono_ex1)
    show "\<forall>x\<in>{..<?n}. count_list (map st_val (node_takes (ci_nodes ?c ! x))) (st_val i) \<le>
        node_reads (ci_nodes ?c ! x) (st_val i)"
      using takes_le_reads circuit_okD(2) [OF ok] by blast
    show "\<exists>a\<in>{..<?n}. count_list (map st_val (node_takes (ci_nodes ?c ! a))) (st_val i) <
        node_reads (ci_nodes ?c ! a) (st_val i)"
      using less k by blast
  qed simp
  moreover have jn: "j < ?n" using j(1) k by simp
  ultimately have "0 < sv_consumers (so_streams ?so ! st_val i)" "st_val i < length (so_streams ?so)"
    using circuit_okD(5,6) [OF ok jn j(2)] by simp_all
  moreover have "f (st_val i) \<noteq> None" using den_inputs(2) [OF den ok k i(1)] den_state_all [OF den] by simp
  ultimately have "0 < sv_tokens (stream_cell i (store_after ?c ?so {..<?n}))"
      "sv_val (stream_cell i (store_after ?c ?so {..<?n})) \<noteq> None"
    using cycle_tokens [OF ok jn j(2)] \<open>takes ?c {..<?n} (st_val i) < readers (ci_nodes ?c) (st_val i)\<close>
      den_state_all [OF den] by (simp_all add: stream_cell_def)
  then show ?thesis using eval_schedule [OF den ok bv xs] i(2) by blast
qed

text \<open>The environment of a circuit without asynchronous nodes, in which nothing happens.\<close>

definition quiet :: "'c environment" where
  "quiet = \<lparr>ev_kill = False, ev_act = (\<lambda>c. c), ev_notified = [], ev_unpark = False, ev_drain = (\<lambda>xs. xs)\<rparr>"

definition sample_inner4 :: "(node_id \<times> int) list inner" where
  "sample_inner4 =
     (case dynamic_prepare list_queue index_sort id (circuit_table (bu_circuit sample_b4)) (bu_store sample_b4) of
        Inr (Inr inner) \<Rightarrow> inner
      | _ \<Rightarrow> \<lparr>in_tasks = [], in_notifications = [], in_runnable = []\<rparr>)"

lemma sample_inner4:
  "dynamic_prepare list_queue index_sort id (circuit_table (bu_circuit sample_b4)) (bu_store sample_b4) =
     Inr (Inr sample_inner4)"
  unfolding sample_inner4_def list_queue_def by code_simp

theorem dynamic_steps_dataflow_witness:
  "\<exists>sts. dynamic_steps list_queue (circuit_table (bu_circuit sample_b4)) (replicate 2 (replicate 6 quiet))
        sample_inner4 (bu_store sample_b4) False = Inr sts \<and>
     map ss_phase sts = [Finished, Finished] \<and> so_operators (ss_circuit (sts ! 1)) = [7, 11, 0, 0] \<and>
     (\<exists>fs. denote_cycles (ci_nodes (bu_circuit sample_b4)) 2 (so_operators (bu_store sample_b4)) =
        Inr (fs, [7, 11, 0, 0]))"
proof -
  let ?b = sample_b4 let ?evss = "replicate 2 (replicate 6 (quiet :: (int, int) store environment))"
  have id: "mset (id m) = mset m" for m :: successor_map by simp
  have bv: "\<forall>nd\<in>set (ci_nodes (bu_circuit ?b)). node_by_value nd" using sample_by_value(1) by blast
  have ev: "\<forall>evs\<in>set ?evss. \<forall>ev\<in>set evs. env_wf (circuit_table (bu_circuit ?b)) ev \<and> ev_act ev = (\<lambda>so. so)"
    by (simp add: env_wf_def quiet_def)
  have "\<exists>fs ops. denote_cycles (ci_nodes (bu_circuit ?b)) (length ?evss) (so_operators (bu_store ?b)) = Inr (fs, ops)"
    by (simp add: sample_nodes denote_simps eval_nat_numeral)
  then obtain fs ops where
    "denote_cycles (ci_nodes (bu_circuit ?b)) (length ?evss) (so_operators (bu_store ?b)) = Inr (fs, ops)" by blast
  from dynamic_steps_dataflow [OF sample_built(1) bv list_queue_priority_queue index_sort_topological id
      sample_inner4 ev this, of False]
  obtain sts where sts: "dynamic_steps list_queue (circuit_table (bu_circuit ?b)) ?evss sample_inner4
        (bu_store ?b) False = Inr sts"
      "\<forall>k<length sts. ss_phase (sts ! k) = Finished \<longrightarrow>
         (\<exists>fs'. denote_cycles (ci_nodes (bu_circuit ?b)) (Suc k) (so_operators (bu_store ?b)) =
            Inr (fs', so_operators (ss_circuit (sts ! k))))"
    by blast
  have "(case dynamic_steps list_queue (circuit_table (bu_circuit ?b)) ?evss sample_inner4 (bu_store ?b) False of
       Inl _ \<Rightarrow> None
     | Inr sts \<Rightarrow> Some (map ss_phase sts, so_operators (ss_circuit (sts ! 1)))) =
     Some ([Finished, Finished], [7, 11, 0, 0])"
    unfolding sample_inner4_def list_queue_def quiet_def by code_simp
  then have v: "map ss_phase sts = [Finished, Finished]" "so_operators (ss_circuit (sts ! 1)) = [7, 11, 0, 0]"
    using sts(1) by auto
  then have "length sts = 2" "ss_phase (sts ! 1) = Finished" by (auto simp: map_eq_Cons_conv)
  then have den: "\<exists>fs. denote_cycles (ci_nodes (bu_circuit ?b)) 2 (so_operators (bu_store ?b)) = Inr (fs, [7, 11, 0, 0])"
    using sts(2) [rule_format, of 1] v(2) by (simp add: numeral_2_eq_2 del: denote_cycles.simps)
  show ?thesis by (intro exI [of _ sts] conjI sts(1) v den)
qed


theorem ternary_alias_leaks_witness:
  "\<exists>so'. eval_nodes (bu_circuit alias_b2) [0, 1] (bu_store alias_b2) = Inr so' \<and>
     0 < sv_tokens (stream_cell (sample_stream 0 0) so') \<and> sv_val (stream_cell (sample_stream 0 0) so') \<noteq> None"
proof -
  let ?c = "bu_circuit alias_b2"
  obtain f where f: "denote (ci_nodes ?c) (Map.empty, so_operators (bu_store alias_b2)) = Inr (f, [6, 0])"
    using sample_denote(2) by blast
  have sched: "schedule ?c [0, 1]" using index_schedule [OF built_ok [OF sample_built(2)]]
    by (simp add: sample_nodes upt_rec)
  have nd: "ci_nodes ?c ! 1 = TernaryNode [1] adder3 1 (sample_stream 0 0) (sample_stream 0 0) (sample_stream 0 0)
      (sample_stream 1 1) True True"
    by (simp add: sample_nodes)
  have k: "1 < length (ci_nodes ?c)" by (simp add: sample_nodes)
  from ternary_alias_leaks [OF sample_built(2) sample_by_value(2) f sched k nd] show ?thesis by simp
qed

end
