(* ===== verification/Stream_Operators.thy ===== *)
theory Stream_Operators
  imports Circuit_Built
begin

text \<open>
  The operators on streams of values of a group (\<^verbatim>\<open>crates/dbsp/src/operator\<close>: \<^verbatim>\<open>z1.rs\<close>, \<^verbatim>\<open>plus.rs\<close>,
  \<^verbatim>\<open>neg.rs\<close>, \<^verbatim>\<open>sum.rs\<close>, \<^verbatim>\<open>delta0.rs\<close>, \<^verbatim>\<open>generator.rs\<close>, \<^verbatim>\<open>inspect.rs\<close>, \<^verbatim>\<open>apply.rs\<close>, \<^verbatim>\<open>apply2.rs\<close>) and the
  streams derived with them (\<^verbatim>\<open>integrate.rs\<close>, \<^verbatim>\<open>differentiate.rs\<close>, \<^verbatim>\<open>stream_fold.rs\<close>, the marks of
  \<^verbatim>\<open>communication/shard.rs\<close>).

  Values have the operations of \<^verbatim>\<open>ab_group_add\<close>; \<open>ne\<close> is \<^verbatim>\<open>num_entries_shallow\<close> of the values.  The
  states of the operators are the summands of one type, as the nodes of a circuit share a store; a method
  applied to the state of another operator is unreachable.  A closure of the user is a function on a state
  of the user's choice, which may panic.
\<close>

section \<open>States of operators\<close>

record 'd z1 =
  z1_zero :: 'd
  z1_empty_output :: bool
  z1_values :: 'd

record 'd z1_nested =
  zn_zero :: 'd
  zn_timestamp :: nat
  zn_values :: "'d list"

record 'd delta0 =
  d0_val :: "'d option"
  d0_fixedpoint :: bool

datatype ('d, 'x) op_state =
    Stateless
  | Z1State "'d z1"
  | Z1NestedState "'d z1_nested"
  | Delta0State "'d delta0"
  | ClosureState 'x
  | GeneratorNestedState 'x "'x option"

fun on_z1 :: "('d z1 \<Rightarrow> 'a \<times> 'd z1) \<Rightarrow> ('d, 'x) op_state \<Rightarrow> ('a \<times> ('d, 'x) op_state) res" where
  "on_z1 f (Z1State z) = (case f z of (r, z) \<Rightarrow> Inr (r, Z1State z))"
| "on_z1 f _ = Inl Unreachable"

fun on_z1_nested ::
  "('d z1_nested \<Rightarrow> ('a \<times> 'd z1_nested) res) \<Rightarrow> ('d, 'x) op_state \<Rightarrow> ('a \<times> ('d, 'x) op_state) res" where
  "on_z1_nested f (Z1NestedState z) = res_map (\<lambda>(r, z). (r, Z1NestedState z)) (f z)"
| "on_z1_nested f _ = Inl Unreachable"

fun on_closure :: "('x \<Rightarrow> ('a \<times> 'x) res) \<Rightarrow> ('d, 'x) op_state \<Rightarrow> ('a \<times> ('d, 'x) op_state) res" where
  "on_closure f (ClosureState x) = res_map (\<lambda>(r, x). (r, ClosureState x)) (f x)"
| "on_closure f _ = Inl Unreachable"

text \<open>The default methods of an operator: synchronous, always ready, nothing to do with the clock.\<close>

definition default_operator :: "string \<Rightarrow> operator_location \<Rightarrow> (scope \<Rightarrow> 's \<Rightarrow> bool res) \<Rightarrow> 's operator" where
  "default_operator name location fixedpoint =
     \<lparr>op_name = name, op_location = location, op_is_async = False, op_ready = (\<lambda>_. True),
      op_clock_start = (\<lambda>_ s. s), op_clock_end = (\<lambda>_ s. s), op_fixedpoint = fixedpoint\<rparr>"

definition always_fixed :: "scope \<Rightarrow> 's \<Rightarrow> bool res" where
  "always_fixed scope s = Inr True"

definition unimplemented_fixedpoint :: "scope \<Rightarrow> 's \<Rightarrow> bool res" where
  "unimplemented_fixedpoint scope s = Inl (Explicit ''not implemented'')"

section \<open>Delay\<close>

definition z1_new :: "'d \<Rightarrow> 'd z1" where
  "z1_new zero = \<lparr>z1_zero = zero, z1_empty_output = False, z1_values = zero\<rparr>"

definition z1_clock_end :: "scope \<Rightarrow> 'd z1 \<Rightarrow> 'd z1" where
  "z1_clock_end scope self = self\<lparr>z1_empty_output := False, z1_values := z1_zero self\<rparr>"

definition z1_fixedpoint :: "('d \<Rightarrow> nat) \<Rightarrow> scope \<Rightarrow> 'd z1 \<Rightarrow> bool" where
  "z1_fixedpoint ne scope self \<longleftrightarrow> (if scope = 0 then ne (z1_values self) = 0 \<and> z1_empty_output self else True)"

definition z1_eval :: "'d \<Rightarrow> 'd z1 \<Rightarrow> 'd \<times> 'd z1" where
  "z1_eval i self = (z1_values self, self\<lparr>z1_values := i\<rparr>)"

definition z1_get_output :: "('d \<Rightarrow> nat) \<Rightarrow> 'd z1 \<Rightarrow> 'd \<times> 'd z1" where
  "z1_get_output ne self =
     (z1_values self, self\<lparr>z1_empty_output := ne (z1_values self) = 0, z1_values := z1_zero self\<rparr>)"

definition z1_eval_strict :: "'d \<Rightarrow> 'd z1 \<Rightarrow> unit \<times> 'd z1" where
  "z1_eval_strict i self = ((), self\<lparr>z1_values := i\<rparr>)"

definition z1_operator :: "('d \<Rightarrow> nat) \<Rightarrow> ('d, 'x) op_state operator" where
  "z1_operator ne =
     (default_operator ''Z^-1'' None
        (\<lambda>scope s. case s of Z1State z \<Rightarrow> Inr (z1_fixedpoint ne scope z) | _ \<Rightarrow> Inl Unreachable))
     \<lparr>op_clock_end := (\<lambda>scope s. case s of Z1State z \<Rightarrow> Z1State (z1_clock_end scope z) | _ \<Rightarrow> s)\<rparr>"

definition z1_unary :: "('d \<Rightarrow> nat) \<Rightarrow> (('d, 'x) op_state, 'd) unary_operator" where
  "z1_unary ne = operator.extend (z1_operator ne)
     (unary_operator.fields (\<lambda>i. on_z1 (z1_eval i)) (\<lambda>i. on_z1 (z1_eval i)) PREFER_OWNED)"

definition z1_strict :: "('d \<Rightarrow> nat) \<Rightarrow> (('d, 'x) op_state, 'd) strict_unary_operator" where
  "z1_strict ne = operator.extend (z1_operator ne)
     (strict_unary_operator.fields (on_z1 (z1_get_output ne)) (on_z1 (z1_get_output ne))
        (\<lambda>i s. res_map snd (on_z1 (z1_eval_strict i) s)) (\<lambda>i s. res_map snd (on_z1 (z1_eval_strict i) s))
        PREFER_OWNED)"

section \<open>Nested delay\<close>

definition zn_new :: "'d \<Rightarrow> 'd z1_nested" where
  "zn_new zero = \<lparr>zn_zero = zero, zn_timestamp = 0, zn_values = []\<rparr>"

definition zn_reset :: "'d z1_nested \<Rightarrow> 'd z1_nested" where
  "zn_reset self = self\<lparr>zn_timestamp := 0, zn_values := []\<rparr>"

definition zn_clock_start :: "scope \<Rightarrow> 'd z1_nested \<Rightarrow> 'd z1_nested" where
  "zn_clock_start scope self =
     (if scope = 0 then self\<lparr>zn_values := take (zn_timestamp self) (zn_values self)\<rparr> else self)\<lparr>zn_timestamp := 0\<rparr>"

definition zn_clock_end :: "scope \<Rightarrow> 'd z1_nested \<Rightarrow> 'd z1_nested" where
  "zn_clock_end scope self = (if 0 < scope then zn_reset self else self)"

definition zn_fixedpoint :: "scope \<Rightarrow> 'd z1_nested \<Rightarrow> bool res" where
  "zn_fixedpoint scope self =
     (if scope = 0
      then if zn_timestamp self = 0 then Inl Overflow
           else Inr (\<forall>v\<in>set (drop (zn_timestamp self - 1) (zn_values self)). v = zn_zero self)
      else Inr False)"

text \<open>Past the end of the stored stream its last value is repeated; an empty stream yields zero.\<close>

definition zn_extend :: "'d z1_nested \<Rightarrow> 'd z1_nested" where
  "zn_extend self =
     (if zn_timestamp self = length (zn_values self)
      then self\<lparr>zn_values := zn_values self @ [zn_zero self]\<rparr>
      else if zn_timestamp self = length (zn_values self) - 1
      then self\<lparr>zn_values := zn_values self @ [last (zn_values self)]\<rparr>
      else self)"

definition zn_eval :: "'d \<Rightarrow> 'd z1_nested \<Rightarrow> ('d \<times> 'd z1_nested) res" where
  "zn_eval i self =
     (if length (zn_values self) < zn_timestamp self then Inl DebugAssert
      else let self = zn_extend self; t = zn_timestamp self
           in Inr (zn_values self ! t, self\<lparr>zn_values := (zn_values self)[t := i], zn_timestamp := t + 1\<rparr>))"

definition zn_get_output :: "'d z1_nested \<Rightarrow> ('d \<times> 'd z1_nested) res" where
  "zn_get_output self =
     (if length (zn_values self) < zn_timestamp self then Inl AssertFailed
      else let self = zn_extend self; t = zn_timestamp self
           in Inr (zn_values self ! t, self\<lparr>zn_values := (zn_values self)[t := zn_zero self]\<rparr>))"

definition zn_eval_strict :: "'d \<Rightarrow> 'd z1_nested \<Rightarrow> (unit \<times> 'd z1_nested) res" where
  "zn_eval_strict i self =
     (if length (zn_values self) \<le> zn_timestamp self then Inl DebugAssert
      else let t = zn_timestamp self
           in Inr ((), self\<lparr>zn_values := (zn_values self)[t := i], zn_timestamp := t + 1\<rparr>))"

definition z1_nested_operator :: "('d, 'x) op_state operator" where
  "z1_nested_operator =
     (default_operator ''Z^-1 (nested)'' None
        (\<lambda>scope s. case s of Z1NestedState z \<Rightarrow> zn_fixedpoint scope z | _ \<Rightarrow> Inl Unreachable))
     \<lparr>op_clock_start := (\<lambda>scope s. case s of Z1NestedState z \<Rightarrow> Z1NestedState (zn_clock_start scope z) | _ \<Rightarrow> s),
      op_clock_end := (\<lambda>scope s. case s of Z1NestedState z \<Rightarrow> Z1NestedState (zn_clock_end scope z) | _ \<Rightarrow> s)\<rparr>"

definition z1_nested_unary :: "(('d, 'x) op_state, 'd) unary_operator" where
  "z1_nested_unary = operator.extend z1_nested_operator
     (unary_operator.fields (\<lambda>i. on_z1_nested (zn_eval i)) (\<lambda>i. on_z1_nested (zn_eval i)) PREFER_OWNED)"

definition z1_nested_strict :: "(('d, 'x) op_state, 'd) strict_unary_operator" where
  "z1_nested_strict = operator.extend z1_nested_operator
     (strict_unary_operator.fields (on_z1_nested zn_get_output) (on_z1_nested zn_get_output)
        (\<lambda>i s. res_map snd (on_z1_nested (zn_eval_strict i) s))
        (\<lambda>i s. res_map snd (on_z1_nested (zn_eval_strict i) s)) PREFER_OWNED)"

section \<open>Import of the parent's value\<close>

definition delta0_new :: "'d delta0" where
  "delta0_new = \<lparr>d0_val = None, d0_fixedpoint = False\<rparr>"

definition delta0_fixedpoint :: "scope \<Rightarrow> 'd delta0 \<Rightarrow> bool" where
  "delta0_fixedpoint scope self \<longleftrightarrow> (if scope = 0 then d0_fixedpoint self else True)"

definition delta0_import :: "'d \<Rightarrow> 'd delta0 \<Rightarrow> 'd delta0" where
  "delta0_import val self = self\<lparr>d0_val := Some val, d0_fixedpoint := False\<rparr>"

definition delta0_eval :: "'d::zero delta0 \<Rightarrow> 'd \<times> 'd delta0" where
  "delta0_eval self =
     (let self = (if d0_val self = None then self\<lparr>d0_fixedpoint := True\<rparr> else self)
      in (unwrap_or (d0_val self) 0, self\<lparr>d0_val := None\<rparr>))"

definition delta0_operator :: "(('d::zero, 'x) op_state, 'd) import_operator" where
  "delta0_operator = operator.extend
     (default_operator ''delta0'' None
        (\<lambda>scope s. case s of Delta0State d \<Rightarrow> Inr (delta0_fixedpoint scope d) | _ \<Rightarrow> Inl Unreachable))
     (import_operator.fields
        (\<lambda>v s. case s of Delta0State d \<Rightarrow> Delta0State (delta0_import v d) | _ \<Rightarrow> s)
        (\<lambda>v s. case s of Delta0State d \<Rightarrow> Delta0State (delta0_import v d) | _ \<Rightarrow> s)
        (\<lambda>s. case s of Delta0State d \<Rightarrow> (case delta0_eval d of (v, d) \<Rightarrow> Inr (v, Delta0State d))
                     | _ \<Rightarrow> Inl Unreachable)
        PREFER_OWNED)"

section \<open>Sums and differences\<close>

definition plus_operator :: "(('d::ab_group_add, 'x) op_state, 'd) binary_operator" where
  "plus_operator = operator.extend (default_operator ''Plus'' None always_fixed)
     (binary_operator.fields (\<lambda>i1 i2 s. Inr (i1 + i2, s)) (\<lambda>i1 i2 s. Inr (i1 + i2, s))
        (\<lambda>i1 i2 s. Inr (i1 + i2, s)) (\<lambda>i1 i2 s. Inr (i2 + i1, s)) (PREFER_OWNED, PREFER_OWNED))"

definition minus_operator :: "(('d::ab_group_add, 'x) op_state, 'd) binary_operator" where
  "minus_operator = operator.extend (default_operator ''Minus'' None always_fixed)
     (binary_operator.fields (\<lambda>i1 i2 s. Inr (- i2 + i1, s)) (\<lambda>i1 i2 s. Inr (i1 + - i2, s))
        (\<lambda>i1 i2 s. Inr (i1 + - i2, s)) (\<lambda>i1 i2 s. Inr (- i2 + i1, s)) (PREFER_OWNED, PREFER_OWNED))"

definition unary_minus :: "(('d::ab_group_add, 'x) op_state, 'd) unary_operator" where
  "unary_minus = operator.extend (default_operator ''UnaryMinus'' None always_fixed)
     (unary_operator.fields (\<lambda>i s. Inr (- i, s)) (\<lambda>i s. Inr (- i, s)) PREFER_OWNED)"

text \<open>The n-ary sum adds the larger values first; its buffer of inputs is empty between evaluations.\<close>

fun sum_loop :: "'d::ab_group_add \<Rightarrow> 'd cow list \<Rightarrow> 'd" where
  "sum_loop res [] = res"
| "sum_loop res (input # input_vec) =
     sum_loop (if res = 0 then cow_value input else res + cow_value input) input_vec"

definition sum_eval :: "('d::ab_group_add \<Rightarrow> nat) \<Rightarrow> 'd cow list \<Rightarrow> 'd" where
  "sum_eval ne inputs = sum_loop 0 (sort_key (\<lambda>x. - int (ne (cow_value x))) inputs)"

definition sum_operator :: "('d::ab_group_add \<Rightarrow> nat) \<Rightarrow> (('d, 'x) op_state, 'd) nary_operator" where
  "sum_operator ne = operator.extend (default_operator ''Sum'' None always_fixed)
     (nary_operator.fields (\<lambda>inputs s. Inr (sum_eval ne inputs, s)) PREFER_OWNED)"

section \<open>Operators given by closures\<close>

definition generator :: "('x \<Rightarrow> ('d \<times> 'x) res) \<Rightarrow> (('d, 'x) op_state, 'd) source_operator" where
  "generator g = operator.extend (default_operator ''Generator'' None (\<lambda>_ _. Inr False))
     (source_operator.fields (on_closure g))"

text \<open>The state of a nested generator: that of the reset closure, and the generator it made, if any.\<close>

definition generator_nested ::
  "('x \<Rightarrow> 'x \<times> 'x) \<Rightarrow> ('x \<Rightarrow> ('d \<times> 'x) res) \<Rightarrow> (('d, 'x) op_state, 'd) source_operator" where
  "generator_nested reset g = operator.extend
     ((default_operator ''GeneratorNested'' None (\<lambda>_ _. Inr False))
      \<lparr>op_clock_start := (\<lambda>scope s. case s of
         GeneratorNestedState r gen \<Rightarrow>
           if scope = 0 then (case reset r of (gen, r) \<Rightarrow> GeneratorNestedState r (Some gen)) else s
       | _ \<Rightarrow> s)\<rparr>)
     (source_operator.fields (\<lambda>s. case s of
         GeneratorNestedState r gen \<Rightarrow>
           res_bind (unwrap gen) (\<lambda>x. res_map (\<lambda>(d, x). (d, GeneratorNestedState r (Some x))) (g x))
       | _ \<Rightarrow> Inl Unreachable))"

definition inspect_operator :: "('d \<Rightarrow> 'x \<Rightarrow> 'x res) \<Rightarrow> (('d, 'x) op_state, 'd) unary_operator" where
  "inspect_operator callback = operator.extend (default_operator ''Inspect'' None always_fixed)
     (unary_operator.fields (\<lambda>i. on_closure (\<lambda>x. res_map (\<lambda>x. (i, x)) (callback i x)))
        (\<lambda>i. on_closure (\<lambda>x. res_map (\<lambda>x. (i, x)) (callback i x))) INDIFFERENT)"

definition apply_operator ::
  "('d \<Rightarrow> 'x \<Rightarrow> ('d \<times> 'x) res) \<Rightarrow> string \<Rightarrow> operator_location \<Rightarrow> (('d, 'x) op_state, 'd) unary_operator" where
  "apply_operator func name location =
     operator.extend (default_operator name location unimplemented_fixedpoint)
       (unary_operator.fields (\<lambda>i. on_closure (func i)) (\<lambda>i. on_closure (func i)) INDIFFERENT)"

definition apply_owned_operator ::
  "('d \<Rightarrow> 'x \<Rightarrow> ('d \<times> 'x) res) \<Rightarrow> string \<Rightarrow> operator_location \<Rightarrow> (('d, 'x) op_state, 'd) unary_operator" where
  "apply_owned_operator func name location =
     operator.extend (default_operator name location unimplemented_fixedpoint)
       (unary_operator.fields (\<lambda>_ _. Inl Unreachable) (\<lambda>i. on_closure (func i)) STRONGLY_PREFER_OWNED)"

definition apply_core_operator ::
  "('d \<Rightarrow> 'x \<Rightarrow> ('d \<times> 'x) res) \<Rightarrow> ('d \<Rightarrow> 'x \<Rightarrow> ('d \<times> 'x) res) \<Rightarrow> (scope \<Rightarrow> bool) \<Rightarrow> string \<Rightarrow>
   operator_location \<Rightarrow> (('d, 'x) op_state, 'd) unary_operator" where
  "apply_core_operator owned borrowed fixpoint name location =
     operator.extend (default_operator name location (\<lambda>scope _. Inr (fixpoint scope)))
       (unary_operator.fields (\<lambda>i. on_closure (borrowed i)) (\<lambda>i. on_closure (owned i)) STRONGLY_PREFER_OWNED)"

definition apply2_operator ::
  "('d \<Rightarrow> 'd \<Rightarrow> 'd res) \<Rightarrow> operator_location \<Rightarrow> (('d, 'x) op_state, 'd) binary_operator" where
  "apply2_operator func location =
     operator.extend (default_operator ''Apply2'' location unimplemented_fixedpoint)
       (let eval = (\<lambda>i1 i2 s. res_map (\<lambda>d. (d, s)) (func i1 i2))
        in binary_operator.fields eval eval eval eval (INDIFFERENT, INDIFFERENT))"

definition apply2_owned_operator ::
  "('d \<Rightarrow> 'd \<Rightarrow> 'd res) \<Rightarrow> operator_location \<Rightarrow> (('d, 'x) op_state, 'd) binary_operator" where
  "apply2_owned_operator func location =
     operator.extend (default_operator ''Apply2Owned'' location unimplemented_fixedpoint)
       (let eval = (\<lambda>i1 i2 s. res_map (\<lambda>d. (d, s)) (func i1 i2));
            fail = (\<lambda>i1 i2 s. Inl (Explicit ''Apply2Owned: owned input expected''))
        in binary_operator.fields fail eval eval fail (STRONGLY_PREFER_OWNED, INDIFFERENT))"

end
