(* ===== verification/Derived_Streams.thy ===== *)
theory Derived_Streams
  imports Stream_Operators
begin

text \<open>
  The methods of streams that add operators to the circuit: delays, sums, integrals and differences
  (\<^verbatim>\<open>crates/dbsp/src/operator\<close>), with the cache of derived streams and the marks of sharded streams.
  The circuit runs in one worker, so that a stream is never resharded and the sharded version of a stream
  is a stream marked as such.
\<close>

section \<open>Marks of sharded streams\<close>

definition sharded_version :: "stream \<Rightarrow> ('s, 'd) circuit \<Rightarrow> stream option" where
  "sharded_version self c = map_of (ci_cache c) (ShardId (st_origin_node_id self))"

definition mark_sharded :: "stream \<Rightarrow> ('s, 'd) builder \<Rightarrow> stream \<times> ('s, 'd) builder" where
  "mark_sharded self b = (self, cache_insert (ShardId (st_origin_node_id self)) self b)"

definition has_sharded_version :: "stream \<Rightarrow> ('s, 'd) circuit \<Rightarrow> bool" where
  "has_sharded_version self c \<longleftrightarrow> sharded_version self c \<noteq> None"

definition try_sharded_version :: "stream \<Rightarrow> ('s, 'd) circuit \<Rightarrow> stream" where
  "try_sharded_version self c = unwrap_or (sharded_version self c) self"

text \<open>The input of \<open>mark_sharded_if\<close> may belong to another circuit.\<close>

definition mark_sharded_if :: "stream \<Rightarrow> stream \<Rightarrow> ('s, 'd) circuit \<Rightarrow> ('s, 'd) builder \<Rightarrow> ('s, 'd) builder" where
  "mark_sharded_if self input c b = (if has_sharded_version input c then snd (mark_sharded self b) else b)"

section \<open>Delays\<close>

type_synonym ('d, 'x) program = "(('d, 'x) op_state, 'd) builder"

record ('d, 'x) delayed_feedback =
  df_feedback :: "(('d, 'x) op_state, 'd) feedback_connector"
  df_output :: stream
  df_export :: stream

definition delayed_feedback_new ::
  "('d::zero \<Rightarrow> nat) \<Rightarrow> ('d, 'x) program \<Rightarrow> (('d, 'x) delayed_feedback \<times> ('d, 'x) program) res" where
  "delayed_feedback_new ne b =
     res_map (\<lambda>(((local, export), feedback), b).
         (\<lparr>df_feedback = feedback, df_output = local, df_export = export\<rparr>, b))
       (add_feedback_with_export (z1_strict ne) (Z1State (z1_new 0)) b)"

definition delayed_feedback_connect ::
  "('d, 'x) delayed_feedback \<Rightarrow> stream \<Rightarrow> ('d, 'x) program \<Rightarrow> ('d, 'x) program res" where
  "delayed_feedback_connect self input b =
     res_map (\<lambda>b.
         cache_insert (ExportId (st_origin_node_id input)) (df_export self)
           (cache_insert (DelayedId (st_origin_node_id input)) (df_output self) b))
       (connect_with_preference (df_feedback self) input STRONGLY_PREFER_OWNED b)"

record ('d, 'x) delayed_nested_feedback =
  dn_feedback :: "(('d, 'x) op_state, 'd) feedback_connector"
  dn_output :: stream

definition delayed_nested_feedback_new ::
  "('d::zero, 'x) program \<Rightarrow> (('d, 'x) delayed_nested_feedback \<times> ('d, 'x) program) res" where
  "delayed_nested_feedback_new b =
     res_map (\<lambda>((out, feedback), b). (\<lparr>dn_feedback = feedback, dn_output = out\<rparr>, b))
       (add_feedback z1_nested_strict (Z1NestedState (zn_new 0)) b)"

definition delayed_nested_feedback_connect ::
  "('d, 'x) delayed_nested_feedback \<Rightarrow> stream \<Rightarrow> ('d, 'x) program \<Rightarrow> ('d, 'x) program res" where
  "delayed_nested_feedback_connect self input b =
     res_map (cache_insert (NestedDelayedId (st_origin_node_id input)) (dn_output self))
       (connect_with_preference (dn_feedback self) input STRONGLY_PREFER_OWNED b)"

definition delay ::
  "('d::zero \<Rightarrow> nat) \<Rightarrow> stream \<Rightarrow> ('d, 'x) program \<Rightarrow> (stream \<times> ('d, 'x) program) res" where
  "delay ne self =
     cache_get_or_insert_with (DelayedId (st_origin_node_id self))
       (add_unary_operator (z1_unary ne) (Z1State (z1_new 0)) self)"

definition delay_nested ::
  "stream \<Rightarrow> ('d::zero, 'x) program \<Rightarrow> (stream \<times> ('d, 'x) program) res" where
  "delay_nested self =
     cache_get_or_insert_with (NestedDelayedId (st_origin_node_id self))
       (add_unary_operator z1_nested_unary (Z1NestedState (zn_new 0)) self)"

text \<open>The value at the end of the child's epoch; only streams of a connected feedback have one.\<close>

definition stream_export :: "stream \<Rightarrow> ('s, 'd) builder \<Rightarrow> (stream \<times> ('s, 'd) builder) res" where
  "stream_export self =
     cache_get_or_insert_with (ExportId (st_origin_node_id self))
       (\<lambda>_. Inl (Explicit ''not implemented''))"

section \<open>Sums and differences\<close>

text \<open>When both inputs are sharded the result is built from the sharded versions and marked.\<close>

definition binary_sharded ::
  "(('d, 'x) op_state, 'd) binary_operator \<Rightarrow> stream \<Rightarrow> stream \<Rightarrow> ('d, 'x) program \<Rightarrow>
   (stream \<times> ('d, 'x) program) res" where
  "binary_sharded op self other b =
     (let c = bu_circuit b in
      if has_sharded_version self c \<and> has_sharded_version other c
      then res_map (\<lambda>(out, b). mark_sharded out b)
        (add_binary_operator op Stateless (try_sharded_version self c) (try_sharded_version other c) b)
      else add_binary_operator op Stateless self other b)"

definition stream_plus ::
  "stream \<Rightarrow> stream \<Rightarrow> ('d::ab_group_add, 'x) program \<Rightarrow> (stream \<times> ('d, 'x) program) res" where
  "stream_plus = binary_sharded plus_operator"

definition stream_minus ::
  "stream \<Rightarrow> stream \<Rightarrow> ('d::ab_group_add, 'x) program \<Rightarrow> (stream \<times> ('d, 'x) program) res" where
  "stream_minus = binary_sharded minus_operator"

text \<open>A unary operator on the sharded version, if there is one, whose result is marked accordingly.\<close>

definition unary_sharded ::
  "(('d, 'x) op_state, 'd) unary_operator \<Rightarrow> ('d, 'x) op_state \<Rightarrow> stream \<Rightarrow> ('d, 'x) program \<Rightarrow>
   (stream \<times> ('d, 'x) program) res" where
  "unary_sharded op s self b =
     res_map (\<lambda>(out, b). (out, mark_sharded_if out self (bu_circuit b) b))
       (add_unary_operator op s (try_sharded_version self (bu_circuit b)) b)"

definition stream_neg ::
  "stream \<Rightarrow> ('d::ab_group_add, 'x) program \<Rightarrow> (stream \<times> ('d, 'x) program) res" where
  "stream_neg = unary_sharded unary_minus Stateless"

definition stream_inspect ::
  "('d \<Rightarrow> 'x \<Rightarrow> 'x res) \<Rightarrow> 'x \<Rightarrow> stream \<Rightarrow> ('d, 'x) program \<Rightarrow> (stream \<times> ('d, 'x) program) res" where
  "stream_inspect callback x = unary_sharded (inspect_operator callback) (ClosureState x)"

definition stream_sum ::
  "('d::ab_group_add \<Rightarrow> nat) \<Rightarrow> stream \<Rightarrow> stream list \<Rightarrow> ('d, 'x) program \<Rightarrow>
   (stream \<times> ('d, 'x) program) res" where
  "stream_sum ne self streams = add_nary_operator (sum_operator ne) Stateless (self # streams)"

section \<open>Integration and differentiation\<close>

definition integrate ::
  "('d::ab_group_add \<Rightarrow> nat) \<Rightarrow> stream \<Rightarrow> ('d, 'x) program \<Rightarrow> (stream \<times> ('d, 'x) program) res" where
  "integrate ne self =
     cache_get_or_insert_with (IntegralId (st_origin_node_id self))
       (circuit_region ''integrate'' (Some (''crates/dbsp/src/operator/integrate.rs'', 89, 32)) (\<lambda>b.
          res_bind (delayed_feedback_new ne b) (\<lambda>(feedback, b).
          res_bind (add_binary_operator_with_preference plus_operator Stateless
              (df_output feedback, STRONGLY_PREFER_OWNED) (self, PREFER_OWNED) b) (\<lambda>(integral, b).
          res_map (\<lambda>b. (integral, b)) (delayed_feedback_connect feedback integral b)))))"

definition integrate_nested ::
  "stream \<Rightarrow> ('d::ab_group_add, 'x) program \<Rightarrow> (stream \<times> ('d, 'x) program) res" where
  "integrate_nested self =
     cache_get_or_insert_with (NestedIntegralId (st_origin_node_id self))
       (circuit_region ''integrate_nested'' (Some (''crates/dbsp/src/operator/integrate.rs'', 139, 32)) (\<lambda>b.
          res_bind (delayed_nested_feedback_new b) (\<lambda>(feedback, b).
          res_bind (add_binary_operator_with_preference plus_operator Stateless
              (dn_output feedback, STRONGLY_PREFER_OWNED) (self, PREFER_OWNED) b) (\<lambda>(integral, b).
          res_map (\<lambda>b. (integral, b)) (delayed_nested_feedback_connect feedback integral b)))))"

definition differentiate ::
  "('d::ab_group_add \<Rightarrow> nat) \<Rightarrow> stream \<Rightarrow> ('d, 'x) program \<Rightarrow> (stream \<times> ('d, 'x) program) res" where
  "differentiate ne self =
     cache_get_or_insert_with (DifferentiateId (st_origin_node_id self)) (\<lambda>b.
       let v = try_sharded_version self (bu_circuit b) in
       res_bind (delay ne (try_sharded_version self (bu_circuit b)) b) (\<lambda>(delayed, b).
       res_map (\<lambda>(out, b). (out, mark_sharded_if out self (bu_circuit b) b))
         (add_binary_operator minus_operator Stateless v delayed b)))"

definition differentiate_nested ::
  "stream \<Rightarrow> ('d::ab_group_add, 'x) program \<Rightarrow> (stream \<times> ('d, 'x) program) res" where
  "differentiate_nested self =
     cache_get_or_insert_with (NestedDifferentiateId (st_origin_node_id self)) (\<lambda>b.
       let v = try_sharded_version self (bu_circuit b) in
       res_bind (delay_nested (try_sharded_version self (bu_circuit b)) b) (\<lambda>(delayed, b).
       res_map (\<lambda>(out, b). (out, mark_sharded_if out self (bu_circuit b) b))
         (add_binary_operator minus_operator Stateless v delayed b)))"

section \<open>Closures\<close>

definition stream_apply_named ::
  "string \<Rightarrow> ('d \<Rightarrow> 'x \<Rightarrow> ('d \<times> 'x) res) \<Rightarrow> 'x \<Rightarrow> operator_location \<Rightarrow> stream \<Rightarrow> ('d, 'x) program \<Rightarrow>
   (stream \<times> ('d, 'x) program) res" where
  "stream_apply_named name func x location =
     add_unary_operator (apply_operator func name location) (ClosureState x)"

definition stream_apply ::
  "('d \<Rightarrow> 'x \<Rightarrow> ('d \<times> 'x) res) \<Rightarrow> 'x \<Rightarrow> operator_location \<Rightarrow> stream \<Rightarrow> ('d, 'x) program \<Rightarrow>
   (stream \<times> ('d, 'x) program) res" where
  "stream_apply = stream_apply_named ''Apply''"

definition stream_apply_owned_named ::
  "string \<Rightarrow> ('d \<Rightarrow> 'x \<Rightarrow> ('d \<times> 'x) res) \<Rightarrow> 'x \<Rightarrow> operator_location \<Rightarrow> stream \<Rightarrow> ('d, 'x) program \<Rightarrow>
   (stream \<times> ('d, 'x) program) res" where
  "stream_apply_owned_named name func x location =
     add_unary_operator (apply_owned_operator func name location) (ClosureState x)"

definition stream_apply_owned ::
  "('d \<Rightarrow> 'x \<Rightarrow> ('d \<times> 'x) res) \<Rightarrow> 'x \<Rightarrow> operator_location \<Rightarrow> stream \<Rightarrow> ('d, 'x) program \<Rightarrow>
   (stream \<times> ('d, 'x) program) res" where
  "stream_apply_owned = stream_apply_owned_named ''ApplyOwned''"

definition stream_apply_core ::
  "string \<Rightarrow> ('d \<Rightarrow> 'x \<Rightarrow> ('d \<times> 'x) res) \<Rightarrow> ('d \<Rightarrow> 'x \<Rightarrow> ('d \<times> 'x) res) \<Rightarrow> (scope \<Rightarrow> bool) \<Rightarrow> 'x \<Rightarrow>
   operator_location \<Rightarrow> stream \<Rightarrow> ('d, 'x) program \<Rightarrow> (stream \<times> ('d, 'x) program) res" where
  "stream_apply_core name owned borrowed fixpoint x location =
     add_unary_operator (apply_core_operator owned borrowed fixpoint name location) (ClosureState x)"

definition stream_apply2 ::
  "('d \<Rightarrow> 'd \<Rightarrow> 'd res) \<Rightarrow> operator_location \<Rightarrow> stream \<Rightarrow> stream \<Rightarrow> ('d, 'x) program \<Rightarrow>
   (stream \<times> ('d, 'x) program) res" where
  "stream_apply2 func location = add_binary_operator (apply2_operator func location) Stateless"

definition stream_apply2_owned ::
  "('d \<Rightarrow> 'd \<Rightarrow> 'd res) \<Rightarrow> operator_location \<Rightarrow> stream \<Rightarrow> stream \<Rightarrow> ('d, 'x) program \<Rightarrow>
   (stream \<times> ('d, 'x) program) res" where
  "stream_apply2_owned func location self other =
     add_binary_operator_with_preference (apply2_owned_operator func location) Stateless
       (self, STRONGLY_PREFER_OWNED) (other, INDIFFERENT)"

definition stream_fold ::
  "('d \<Rightarrow> nat) \<Rightarrow> 'd \<Rightarrow> ('d \<Rightarrow> 'd \<Rightarrow> 'd res) \<Rightarrow> operator_location \<Rightarrow> stream \<Rightarrow> ('d, 'x) program \<Rightarrow>
   (stream \<times> ('d, 'x) program) res" where
  "stream_fold ne init fold_func location self b =
     res_bind (add_feedback (z1_strict ne) (Z1State (z1_new init)) b) (\<lambda>((prev_accumulator, feedback), b).
     res_bind (stream_apply2_owned fold_func location prev_accumulator self b) (\<lambda>(new_accumulator, b).
     res_map (\<lambda>b. (new_accumulator, cache_insert (DelayedId (st_origin_node_id new_accumulator)) prev_accumulator b))
       (connect_with_preference feedback new_accumulator STRONGLY_PREFER_OWNED b)))"

section \<open>Import\<close>

definition delta0_with_preference ::
  "stream \<Rightarrow> ownership_preference \<Rightarrow> (('d::zero, 'x) op_state, 'd) circuit \<Rightarrow> ('d, 'x) program \<Rightarrow>
   (stream \<times> (('d, 'x) op_state, 'd) circuit \<times> ('d, 'x) program) res" where
  "delta0_with_preference self pref parent b =
     res_map (\<lambda>(delta, parent, b). (delta, parent, mark_sharded_if delta self parent b))
       (import_stream_with_preference delta0_operator (Delta0State delta0_new)
          (try_sharded_version self parent) pref parent b)"

definition delta0_stream ::
  "stream \<Rightarrow> (('d::zero, 'x) op_state, 'd) circuit \<Rightarrow> ('d, 'x) program \<Rightarrow>
   (stream \<times> (('d, 'x) op_state, 'd) circuit \<times> ('d, 'x) program) res" where
  "delta0_stream self parent b =
     res_map (\<lambda>(delta, parent, b). (delta, parent, mark_sharded_if delta self parent b))
       (import_stream delta0_operator (Delta0State delta0_new) (try_sharded_version self parent) parent b)"

end
