(* ===== verification/Stream_Cycles.thy ===== *)
theory Stream_Cycles
  imports Derived_Streams
begin

text \<open>
  What the operators of a circuit make of the streams, cycle by cycle.  The equations read the nodes of the
  circuit off and hold in every circuit that contains them, whatever else was added before or after.
\<close>

section \<open>Operators\<close>

lemma z1_unary_simps [simp]:
  "un_eval (z1_unary ne) = (\<lambda>i. on_z1 (z1_eval i))" "un_eval_owned (z1_unary ne) = (\<lambda>i. on_z1 (z1_eval i))"
  "un_input_preference (z1_unary ne) = PREFER_OWNED"
  by (simp_all add: z1_unary_def z1_operator_def default_operator_def operator.defs unary_operator.defs)

lemma z1_strict_simps [simp]:
  "str_get_output (z1_strict ne) = on_z1 (z1_get_output ne)"
  "str_eval_strict (z1_strict ne) = (\<lambda>i s. res_map snd (on_z1 (z1_eval_strict i) s))"
  "str_eval_strict_owned (z1_strict ne) = (\<lambda>i s. res_map snd (on_z1 (z1_eval_strict i) s))"
  by (simp_all add: z1_strict_def z1_operator_def default_operator_def operator.defs strict_unary_operator.defs)

lemma group_operator_simps [simp]:
  "bin_eval plus_operator = (\<lambda>i1 i2 s. Inr (i1 + i2, s))"
  "bin_eval_owned plus_operator = (\<lambda>i1 i2 s. Inr (i1 + i2, s))"
  "bin_eval_owned_and_ref plus_operator = (\<lambda>i1 i2 s. Inr (i1 + i2, s))"
  "bin_eval_ref_and_owned plus_operator = (\<lambda>i1 i2 s. Inr (i1 + i2, s))"
  "bin_eval minus_operator = (\<lambda>i1 i2 s. Inr (i1 - i2, s))"
  "bin_eval_owned minus_operator = (\<lambda>i1 i2 s. Inr (i1 - i2, s))"
  "bin_eval_owned_and_ref minus_operator = (\<lambda>i1 i2 s. Inr (i1 - i2, s))"
  "bin_eval_ref_and_owned minus_operator = (\<lambda>i1 i2 s. Inr (i1 - i2, s))"
  "un_eval unary_minus = (\<lambda>i s. Inr (- i, s))" "un_eval_owned unary_minus = (\<lambda>i s. Inr (- i, s))"
  "bin_input_preference plus_operator = (PREFER_OWNED, PREFER_OWNED)"
  "bin_input_preference minus_operator = (PREFER_OWNED, PREFER_OWNED)"
  by (simp_all add: plus_operator_def minus_operator_def unary_minus_def default_operator_def operator.defs
    binary_operator.defs unary_operator.defs add.commute)

lemma sum_loop_eq: "sum_loop res xs = res + sum_list (map cow_value xs)"
  by (induction xs arbitrary: res) (auto simp: add.assoc)

lemma sum_list_sort_key: "sum_list (map f (sort_key g xs)) = sum_list (map f xs)" for f :: "'a \<Rightarrow> 'b::ab_group_add"
proof -
  have "mset (map f (sort_key g xs)) = mset (map f xs)" by simp
  then show ?thesis by (metis sum_mset_sum_list)
qed

lemma sum_operator_simps [simp]: "nar_eval (sum_operator ne) inputs s = Inr (sum_list (map cow_value inputs), s)"
  by (simp add: sum_operator_def default_operator_def operator.defs nary_operator.defs sum_eval_def sum_loop_eq
    sum_list_sort_key)

section \<open>One clock cycle\<close>

definition users :: "('s, 'd) circuit \<Rightarrow> nat \<Rightarrow> node_id set" where
  "users c a = {k. k < length (ci_nodes c) \<and> node_address (ci_nodes c ! k) = a}"

lemma op_value_users:
  "k \<le> length (ci_nodes c) \<Longrightarrow> op_value c ops {..<k} a =
     (if users c a \<inter> {..<k} = {} then ops ! a else snd (den_result c ops (Max (users c a \<inter> {..<k}))))"
proof -
  assume "k \<le> length (ci_nodes c)"
  then have "{j \<in> {..<k}. node_address (ci_nodes c ! j) = a} = users c a \<inter> {..<k}" by (auto simp: users_def)
  then show ?thesis by (simp add: op_value_def Let_def)
qed

lemma node_equation:
  assumes den: "denote (ci_nodes c) (Map.empty, so_operators so) = Inr (f, ops)" and ok: "circuit_ok c so"
    and k: "k < length (ci_nodes c)"
  shows "node_sem (ci_nodes c ! k) (map (\<lambda>i. the (f (st_val i))) (node_inputs (ci_nodes c ! k)))
      (op_value c (so_operators so) {..<k} (node_address (ci_nodes c ! k))) =
      Inr (den_result c (so_operators so) k)"
    "node_output (ci_nodes c ! k) = Some out \<Longrightarrow> f (st_val out) = fst (den_result c (so_operators so) k)"
    "i \<in> set (node_inputs (ci_nodes c ! k)) \<Longrightarrow> f (st_val i) \<noteq> None"
    "a < length (so_operators so) \<Longrightarrow> ops ! a = op_value c (so_operators so) {..<length (ci_nodes c)} a"
    "length ops = length (so_operators so)"
proof -
  let ?ops = "so_operators so" let ?n = "length (ci_nodes c)"
  note all = den_state_all [OF den]
  have "snd (den_state c ?ops k) ! node_address (ci_nodes c ! k) =
      op_value c ?ops {..<k} (node_address (ci_nodes c ! k))"
    using den_operators [OF den, of k] k circuit_okD(3) [OF ok k] by simp
  then show "node_sem (ci_nodes c ! k) (map (\<lambda>i. the (f (st_val i))) (node_inputs (ci_nodes c ! k)))
      (op_value c ?ops {..<k} (node_address (ci_nodes c ! k))) = Inr (den_result c ?ops k)"
    using den_step(2) [OF den k] den_inputs(1) [OF den ok k, unfolded all] by (simp only: input_values_def fst_conv)
  show "f (st_val out) = fst (den_result c ?ops k)" if "node_output (ci_nodes c ! k) = Some out"
    using den_values [OF den _ k that, of ?n] ok k all by (simp add: circuit_ok_def)
  show "f (st_val i) \<noteq> None" if "i \<in> set (node_inputs (ci_nodes c ! k))"
    using den_inputs(2) [OF den ok k that] all by simp
  show "a < length ?ops \<Longrightarrow> ops ! a = op_value c ?ops {..<?n} a" "length ops = length ?ops"
    using den_operators [OF den, of ?n] all by simp_all
qed

text \<open>A delay is a unary node with a state of its own, or a feedback whose two halves share one.\<close>

definition delay_at ::
  "('d \<Rightarrow> nat) \<Rightarrow> (('d, 'x) op_state, 'd) circuit \<Rightarrow> nat \<Rightarrow> stream \<Rightarrow> stream \<Rightarrow> bool" where
  "delay_at ne c a src out \<longleftrightarrow>
     (\<exists>g k. k < length (ci_nodes c) \<and> ci_nodes c ! k = UnaryNode g (z1_unary ne) a src out \<and> users c a = {k}) \<or>
     (\<exists>g g' export j k. j < k \<and> k < length (ci_nodes c) \<and>
        ci_nodes c ! j = FeedbackOutputNode g (z1_strict ne) a out export \<and>
        ci_nodes c ! k = FeedbackInputNode g' (z1_strict ne) a src \<and> users c a = {j, k})"

definition binary_at ::
  "('s, 'd) binary_operator \<Rightarrow> ('s, 'd) circuit \<Rightarrow> stream \<Rightarrow> stream \<Rightarrow> stream \<Rightarrow> bool" where
  "binary_at op c i1 i2 out \<longleftrightarrow>
     (\<exists>g a al k. k < length (ci_nodes c) \<and> ci_nodes c ! k = BinaryNode g op a i1 i2 out al)"

lemma delay_cycle:
  assumes den: "denote (ci_nodes c) (Map.empty, so_operators so) = Inr (f, ops)" and ok: "circuit_ok c so"
    and at: "delay_at ne c a src out" and z: "so_operators so ! a = Z1State z"
  shows "f (st_val out) = Some (z1_values z)" "f (st_val src) \<noteq> None"
    "\<exists>z'. ops ! a = Z1State z' \<and> z1_values z' = the (f (st_val src))"
proof -
  let ?ops = "so_operators so" let ?n = "length (ci_nodes c)"
  note E = node_equation [OF den ok]
  from at consider
      (unary) g k where "k < ?n" "ci_nodes c ! k = UnaryNode g (z1_unary ne) a src out" "users c a = {k}"
    | (feedback) g g' ex j k where "j < k" "k < ?n" "ci_nodes c ! j = FeedbackOutputNode g (z1_strict ne) a out ex"
        "ci_nodes c ! k = FeedbackInputNode g' (z1_strict ne) a src" "users c a = {j, k}"
    unfolding delay_at_def by blast
  then have "f (st_val out) = Some (z1_values z) \<and> f (st_val src) \<noteq> None \<and>
      (\<exists>z'. ops ! a = Z1State z' \<and> z1_values z' = the (f (st_val src)))"
  proof cases
    case unary
    have a: "node_address (ci_nodes c ! k) = a" using unary by (simp add: node_address_def)
    then have len: "a < length ?ops" using circuit_okD(3) [OF ok unary(1)] by simp
    have "op_value c ?ops {..<k} a = Z1State z" using op_value_users [of k c ?ops a] unary(1,3) z by simp
    then have r: "den_result c ?ops k = (Some (z1_values z), Z1State (z\<lparr>z1_values := the (f (st_val src))\<rparr>))"
      using E(1) [OF unary(1)] unary(2) a by (simp add: with_output_def z1_eval_def)
    moreover have "op_value c ?ops {..<?n} a = snd (den_result c ?ops k)"
      using op_value_users [of ?n c ?ops a] unary(1,3) by simp
    ultimately show ?thesis
      using E(2) [OF unary(1), of out] E(3) [OF unary(1), of src] E(4) [OF unary(1) len] unary(2) by simp
  next
    case feedback
    have j: "j < ?n" using feedback by simp
    have a: "node_address (ci_nodes c ! j) = a" "node_address (ci_nodes c ! k) = a"
      using feedback by (simp_all add: node_address_def)
    then have len: "a < length ?ops" using circuit_okD(3) [OF ok j] by simp
    have I: "users c a \<inter> {..<j} = {}" "users c a \<inter> {..<k} = {j}" "users c a \<inter> {..<?n} = {j, k}"
      using feedback(1,2,5) by auto
    have "op_value c ?ops {..<j} a = Z1State z" using op_value_users [of j c ?ops a] j I(1) z by simp
    then have rj: "den_result c ?ops j = (Some (z1_values z), Z1State (snd (z1_get_output ne z)))"
      using E(1) [OF j] feedback(3) a by (simp add: with_output_def z1_get_output_def)
    have "op_value c ?ops {..<k} a = Z1State (snd (z1_get_output ne z))"
      using op_value_users [of k c ?ops a] feedback(2) I(2) rj by simp
    then have rk: "den_result c ?ops k =
        (None, Z1State ((snd (z1_get_output ne z))\<lparr>z1_values := the (f (st_val src))\<rparr>))"
      using E(1) [OF feedback(2)] feedback(4) a by (simp add: without_output_def z1_eval_strict_def)
    have "op_value c ?ops {..<?n} a = snd (den_result c ?ops k)"
      using op_value_users [of ?n c ?ops a] I(3) feedback(1) by simp
    then show ?thesis
      using E(2) [OF j, of out] E(3) [OF feedback(2), of src] E(4) [OF j len] feedback(3,4) rj rk by simp
  qed
  then show "f (st_val out) = Some (z1_values z)" "f (st_val src) \<noteq> None"
    "\<exists>z'. ops ! a = Z1State z' \<and> z1_values z' = the (f (st_val src))"
    by blast+
qed

lemma binary_cycle:
  assumes den: "denote (ci_nodes c) (Map.empty, so_operators so) = Inr (f, ops)" and ok: "circuit_ok c so"
    and at: "binary_at op c i1 i2 out" and op: "bin_eval op = (\<lambda>x y s. Inr (h x y, s))"
  shows "f (st_val out) = Some (h (the (f (st_val i1))) (the (f (st_val i2))))"
    "f (st_val i1) \<noteq> None" "f (st_val i2) \<noteq> None"
proof -
  obtain g a al k where k: "k < length (ci_nodes c)" "ci_nodes c ! k = BinaryNode g op a i1 i2 out al"
    using at unfolding binary_at_def by blast
  note E = node_equation [OF den ok k(1)]
  have "fst (den_result c (so_operators so) k) = Some (h (the (f (st_val i1))) (the (f (st_val i2))))"
    using arg_cong [OF E(1), of "\<lambda>r. fst (projr r)"] k(2) op by (simp add: with_output_def)
  then show "f (st_val out) = Some (h (the (f (st_val i1))) (the (f (st_val i2))))"
    using E(2) k(2) by simp
  show "f (st_val i1) \<noteq> None" "f (st_val i2) \<noteq> None" using E(3) k(2) by simp_all
qed

section \<open>Consecutive clock cycles\<close>

lemma circuit_ok_operators:
  "circuit_ok c so \<Longrightarrow> length ops = length (so_operators so) \<Longrightarrow> circuit_ok c (so\<lparr>so_operators := ops\<rparr>)"
  by (simp add: circuit_ok_def nodes_ok_def outputs_ok_def)

lemma denote_cycles_length: "denote_cycles nds n ops = Inr (fs, ops') \<Longrightarrow> length fs = n"
  by (induction n arbitrary: ops fs) (auto simp: res_bind_eq_Inr res_map_eq_Inr)

text \<open>An equation of every cycle is an equation of all cycles.\<close>

lemma cycles_all:
  assumes step: "\<And>so f ops. circuit_ok c so \<Longrightarrow> denote (ci_nodes c) (Map.empty, so_operators so) = Inr (f, ops) \<Longrightarrow> P f"
  shows "circuit_ok c so \<Longrightarrow> denote_cycles (ci_nodes c) n (so_operators so) = Inr (fs, ops) \<Longrightarrow> t < n \<Longrightarrow> P (fs ! t)"
proof (induction n arbitrary: so fs t)
  case (Suc n)
  obtain f ops1 fs1 where den: "denote (ci_nodes c) (Map.empty, so_operators so) = Inr (f, ops1)"
      "denote_cycles (ci_nodes c) n ops1 = Inr (fs1, ops)" "fs = f # fs1"
    using Suc.prems(2) by (auto simp: res_bind_eq_Inr res_map_eq_Inr)
  show ?case
  proof (cases t)
    case 0
    then show ?thesis using step [OF Suc.prems(1) den(1)] den(3) by simp
  next
    case (Suc u)
    have "length ops1 = length (so_operators so)"
      using den_operators [OF den(1), of "length (ci_nodes c)"] den_state_all [OF den(1)] by simp
    then have "circuit_ok c (so\<lparr>so_operators := ops1\<rparr>)" using circuit_ok_operators [OF Suc.prems(1)] by simp
    then show ?thesis using Suc.IH [of "so\<lparr>so_operators := ops1\<rparr>" fs1 u] den(2,3) Suc Suc.prems(3) by simp
  qed
qed simp

lemma delay_cycles:
  assumes at: "delay_at ne c a src out"
  shows "circuit_ok c so \<Longrightarrow> denote_cycles (ci_nodes c) n (so_operators so) = Inr (fs, ops) \<Longrightarrow>
    so_operators so ! a = Z1State z \<Longrightarrow> t < n \<Longrightarrow>
    (fs ! t) (st_val out) = (if t = 0 then Some (z1_values z) else (fs ! (t - 1)) (st_val src))"
proof (induction n arbitrary: so fs t z)
  case (Suc n)
  obtain f ops1 fs1 where den: "denote (ci_nodes c) (Map.empty, so_operators so) = Inr (f, ops1)"
      "denote_cycles (ci_nodes c) n ops1 = Inr (fs1, ops)" "fs = f # fs1"
    using Suc.prems(2) by (auto simp: res_bind_eq_Inr res_map_eq_Inr)
  note D = delay_cycle [OF den(1) Suc.prems(1) at Suc.prems(3)]
  obtain z' where z': "ops1 ! a = Z1State z'" "z1_values z' = the (f (st_val src))" using D(3) by blast
  have "length ops1 = length (so_operators so)"
    using den_operators [OF den(1), of "length (ci_nodes c)"] den_state_all [OF den(1)] by simp
  then have ok: "circuit_ok c (so\<lparr>so_operators := ops1\<rparr>)" using circuit_ok_operators [OF Suc.prems(1)] by simp
  show ?case
  proof (cases t)
    case 0
    then show ?thesis using D(1) den(3) by simp
  next
    case (Suc u)
    then show ?thesis
      using Suc.IH [OF ok _ _, of fs1 z' u] den(2,3) z' Suc.prems(4) D(2) by (cases u) auto
  qed
qed simp

end
