(* ===== verification/Stream_Programs.thy ===== *)
theory Stream_Programs
  imports Stream_Cycles
begin

text \<open>
  Programs that derive streams.  The cache of derived streams is sound: an entry for the delay, the integral
  or the difference of a stream leads to nodes that compute it, whatever was constructed before and after.
\<close>

section \<open>Growth of a circuit\<close>

text \<open>An operator is open while its only user is the output half of a feedback.\<close>

definition closed_operator :: "('s, 'd) circuit \<Rightarrow> nat \<Rightarrow> bool" where
  "closed_operator c a \<longleftrightarrow>
     users c a \<noteq> {} \<and> (\<forall>j. users c a = {j} \<longrightarrow> \<not> is_feedback_output (ci_nodes c ! j))"

definition keeps :: "('s, 'd) builder \<Rightarrow> ('s, 'd) builder \<Rightarrow> bool" where
  "keeps b b' \<longleftrightarrow>
     circuit_ok (bu_circuit b') (bu_store b') \<and>
     ci_global_node_id (bu_circuit b') = ci_global_node_id (bu_circuit b) \<and>
     (\<exists>nds. ci_nodes (bu_circuit b') = ci_nodes (bu_circuit b) @ nds) \<and>
     (\<exists>ops. so_operators (bu_store b') = so_operators (bu_store b) @ ops) \<and>
     (\<forall>a. closed_operator (bu_circuit b) a \<longrightarrow> users (bu_circuit b') a = users (bu_circuit b) a)"

lemma users_bound: "circuit_ok c so \<Longrightarrow> k \<in> users c a \<Longrightarrow> a < length (so_operators so)"
  using circuit_okD(3) by (auto simp: users_def)

lemma extends_keeps:
  assumes "extends b b'" "circuit_ok (bu_circuit b) (bu_store b)"
  shows "keeps b b'"
proof -
  let ?c = "bu_circuit b" let ?c' = "bu_circuit b'"
  obtain nds where nds: "ci_nodes ?c' = ci_nodes ?c @ nds"
      "\<And>nd. nd \<in> set nds \<Longrightarrow> length (so_operators (bu_store b)) \<le> node_address nd \<or> closes_feedback ?c nd"
    using assms(1) by (auto simp: extends_def)
  have "users ?c' a = users ?c a" if a: "closed_operator ?c a" for a
  proof (rule set_eqI)
    fix k
    have "k < length (ci_nodes ?c)" if k: "k \<in> users ?c' a"
    proof (rule ccontr)
      assume n: "\<not> k < length (ci_nodes ?c)"
      then have nd: "ci_nodes ?c' ! k \<in> set nds" "node_address (ci_nodes ?c' ! k) = a"
        using k nds(1) by (auto simp: users_def nth_append)
      obtain j where "j \<in> users ?c a" using a by (auto simp: closed_operator_def)
      then have "a < length (so_operators (bu_store b))" by (rule users_bound [OF assms(2)])
      then have "closes_feedback ?c (ci_nodes ?c' ! k)" using nds(2) [OF nd(1)] nd(2) by simp
      then obtain j where "j < length (ci_nodes ?c)" "is_feedback_output (ci_nodes ?c ! j)"
          "\<And>i. i < length (ci_nodes ?c) \<Longrightarrow> node_address (ci_nodes ?c ! i) = a \<longleftrightarrow> i = j"
        using nd(2) by (auto simp: closes_feedback_def)
      moreover from this have "users ?c a = {j}" by (auto simp: users_def)
      ultimately show False using a by (auto simp: closed_operator_def)
    qed
    then show "k \<in> users ?c' a \<longleftrightarrow> k \<in> users ?c a" using nds(1) by (auto simp: users_def nth_append)
  qed
  then show ?thesis using assms(1) by (auto simp: keeps_def extends_def)
qed

lemma keeps_closed:
  assumes "keeps b b'" "closed_operator (bu_circuit b) a"
  shows "closed_operator (bu_circuit b') a" "users (bu_circuit b') a = users (bu_circuit b) a"
proof -
  show u: "users (bu_circuit b') a = users (bu_circuit b) a" using assms by (simp add: keeps_def)
  have "ci_nodes (bu_circuit b') ! j = ci_nodes (bu_circuit b) ! j" if "j \<in> users (bu_circuit b) a" for j
    using assms(1) that by (auto simp: keeps_def users_def nth_append)
  then show "closed_operator (bu_circuit b') a" using assms(2) u unfolding closed_operator_def by (metis insertI1)
qed

lemma keeps_trans: "keeps b b' \<Longrightarrow> keeps b' b'' \<Longrightarrow> keeps b b''"
proof -
  assume *: "keeps b b'" "keeps b' b''"
  then have "\<forall>a. closed_operator (bu_circuit b) a \<longrightarrow> users (bu_circuit b'') a = users (bu_circuit b) a"
    using keeps_closed by metis
  then show ?thesis using * by (auto simp: keeps_def)
qed

lemma keeps_refl: "circuit_ok (bu_circuit b) (bu_store b) \<Longrightarrow> keeps b b"
  by (simp add: keeps_def)

lemma keeps_frame:
  assumes "keeps b b1" "ci_nodes (bu_circuit b2) = ci_nodes (bu_circuit b1)"
    "ci_edges (bu_circuit b2) = ci_edges (bu_circuit b1)"
    "ci_global_node_id (bu_circuit b2) = ci_global_node_id (bu_circuit b1)" "bu_store b2 = bu_store b1"
  shows "keeps b b2"
proof -
  have "circuit_ok (bu_circuit b2) (bu_store b2)"
    using circuit_ok_frame [OF assms(2-4)] assms(1,5) by (simp add: keeps_def)
  then show ?thesis using assms by (simp add: keeps_def users_def)
qed

lemma keeps_stream_of: "keeps b b' \<Longrightarrow> stream_of (bu_circuit b) st \<Longrightarrow> stream_of (bu_circuit b') st"
  by (auto simp: keeps_def stream_of_def)

lemma keeps_binary_at: "keeps b b' \<Longrightarrow> binary_at op (bu_circuit b) i1 i2 out \<Longrightarrow> binary_at op (bu_circuit b') i1 i2 out"
  unfolding binary_at_def keeps_def by (fastforce simp: nth_append)

lemma keeps_delay_at:
  assumes k: "keeps b b'" and at: "delay_at ne (bu_circuit b) a src out"
  shows "delay_at ne (bu_circuit b') a src out"
proof -
  let ?c = "bu_circuit b" let ?c' = "bu_circuit b'"
  have nth: "k < length (ci_nodes ?c) \<Longrightarrow> k < length (ci_nodes ?c') \<and> ci_nodes ?c' ! k = ci_nodes ?c ! k" for k
    using k by (auto simp: keeps_def nth_append)
  have "closed_operator ?c a" using at by (auto simp: delay_at_def closed_operator_def)
  then have u: "users ?c' a = users ?c a" using k by (simp add: keeps_def)
  from at consider
      (unary) g k where "k < length (ci_nodes ?c)" "ci_nodes ?c ! k = UnaryNode g (z1_unary ne) a src out" "users ?c a = {k}"
    | (feedback) g g' ex j k where "j < k" "k < length (ci_nodes ?c)"
        "ci_nodes ?c ! j = FeedbackOutputNode g (z1_strict ne) a out ex"
        "ci_nodes ?c ! k = FeedbackInputNode g' (z1_strict ne) a src" "users ?c a = {j, k}"
    unfolding delay_at_def by blast
  then show ?thesis
  proof cases
    case unary
    then show ?thesis using nth [of k] u unfolding delay_at_def by auto
  next
    case feedback
    have "ci_nodes ?c' ! j = FeedbackOutputNode g (z1_strict ne) a out ex" using nth [of j] feedback(1-3) by simp
    moreover have "ci_nodes ?c' ! k = FeedbackInputNode g' (z1_strict ne) a src" "k < length (ci_nodes ?c')"
      using nth [of k] feedback(2,4) by simp_all
    ultimately show ?thesis using feedback(1,5) u unfolding delay_at_def by blast
  qed
qed

lemma keeps_operator:
  "keeps b b' \<Longrightarrow> a < length (so_operators (bu_store b)) \<Longrightarrow> so_operators (bu_store b') ! a = so_operators (bu_store b) ! a"
  by (auto simp: keeps_def nth_append)

section \<open>Soundness of the cache\<close>

definition delay_of :: "('d::zero \<Rightarrow> nat) \<Rightarrow> ('d, 'x) program \<Rightarrow> stream \<Rightarrow> stream \<Rightarrow> bool" where
  "delay_of ne b src out \<longleftrightarrow>
     (\<exists>a<length (so_operators (bu_store b)).
        delay_at ne (bu_circuit b) a src out \<and> so_operators (bu_store b) ! a = Z1State (z1_new 0))"

definition integral_of :: "('d::ab_group_add \<Rightarrow> nat) \<Rightarrow> ('d, 'x) program \<Rightarrow> stream \<Rightarrow> stream \<Rightarrow> bool" where
  "integral_of ne b src out \<longleftrightarrow>
     (\<exists>d. delay_of ne b out d \<and> binary_at plus_operator (bu_circuit b) d src out)"

definition difference_of :: "('d::ab_group_add \<Rightarrow> nat) \<Rightarrow> ('d, 'x) program \<Rightarrow> stream \<Rightarrow> stream \<Rightarrow> bool" where
  "difference_of ne b src out \<longleftrightarrow>
     (\<exists>d. delay_of ne b src d \<and> binary_at minus_operator (bu_circuit b) src d out)"

fun entry_sound :: "('d::ab_group_add \<Rightarrow> nat) \<Rightarrow> ('d, 'x) program \<Rightarrow> cache_key \<Rightarrow> stream \<Rightarrow> bool" where
  "entry_sound ne b (DelayedId g) st \<longleftrightarrow>
     (\<exists>src. stream_of (bu_circuit b) src \<and> st_origin_node_id src = g \<and> delay_of ne b src st)"
| "entry_sound ne b (IntegralId g) st \<longleftrightarrow>
     (\<exists>src. stream_of (bu_circuit b) src \<and> st_origin_node_id src = g \<and> integral_of ne b src st)"
| "entry_sound ne b (DifferentiateId g) st \<longleftrightarrow>
     (\<exists>src. stream_of (bu_circuit b) src \<and> st_origin_node_id src = g \<and> difference_of ne b src st)"
| "entry_sound ne b (ShardId g) st \<longleftrightarrow> st_origin_node_id st = g"
| "entry_sound ne b key st \<longleftrightarrow> True"

text \<open>Exported streams belong to the parent, the others to the circuit.\<close>

fun is_export :: "cache_key \<Rightarrow> bool" where
  "is_export (ExportId g) \<longleftrightarrow> True"
| "is_export key \<longleftrightarrow> False"

definition sound :: "('d::ab_group_add \<Rightarrow> nat) \<Rightarrow> ('d, 'x) program \<Rightarrow> bool" where
  "sound ne b \<longleftrightarrow>
     circuit_ok (bu_circuit b) (bu_store b) \<and>
     (\<forall>key st. map_of (ci_cache (bu_circuit b)) key = Some st \<longrightarrow>
        (\<not> is_export key \<longrightarrow> stream_of (bu_circuit b) st) \<and> entry_sound ne b key st)"

lemma soundD:
  assumes "sound ne b"
  shows "circuit_ok (bu_circuit b) (bu_store b)"
    "map_of (ci_cache (bu_circuit b)) key = Some st \<Longrightarrow> entry_sound ne b key st"
    "map_of (ci_cache (bu_circuit b)) key = Some st \<Longrightarrow> \<not> is_export key \<Longrightarrow> stream_of (bu_circuit b) st"
  using assms by (auto simp: sound_def)

lemma keeps_derived:
  assumes "keeps b b'"
  shows "delay_of ne b src out \<Longrightarrow> delay_of ne b' src out"
    "integral_of ne b src out \<Longrightarrow> integral_of ne b' src out"
    "difference_of ne b src out \<Longrightarrow> difference_of ne b' src out"
proof -
  have len: "length (so_operators (bu_store b)) \<le> length (so_operators (bu_store b'))"
    using assms by (auto simp: keeps_def)
  show d: "delay_of ne b src out \<Longrightarrow> delay_of ne b' src out" for src out
  proof -
    assume "delay_of ne b src out"
    then obtain a where "a < length (so_operators (bu_store b))" "delay_at ne (bu_circuit b) a src out"
        "so_operators (bu_store b) ! a = Z1State (z1_new 0)" unfolding delay_of_def by blast
    then show "delay_of ne b' src out"
      using keeps_delay_at [OF assms] keeps_operator [OF assms, of a] len unfolding delay_of_def by (intro exI [of _ a]) auto
  qed
  show "integral_of ne b src out \<Longrightarrow> integral_of ne b' src out"
    unfolding integral_of_def using d keeps_binary_at [OF assms] by blast
  show "difference_of ne b src out \<Longrightarrow> difference_of ne b' src out"
    unfolding difference_of_def using d keeps_binary_at [OF assms] by blast
qed

lemma keeps_entry: "keeps b b' \<Longrightarrow> entry_sound ne b key st \<Longrightarrow> entry_sound ne b' key st"
  by (cases key) (use keeps_derived keeps_stream_of in \<open>auto, blast+\<close>)

lemma keeps_sound:
  assumes "keeps b b'" "sound ne b" "ci_cache (bu_circuit b') = ci_cache (bu_circuit b)"
  shows "sound ne b'"
  using assms keeps_entry [OF assms(1)] keeps_stream_of [OF assms(1)] unfolding sound_def keeps_def by metis

lemma keeps_cache_insert: "keeps b b' \<Longrightarrow> keeps b (cache_insert key st b')"
  by (rule keeps_frame) (simp_all add: cache_insert_def)

lemma sound_cache_insert:
  assumes "sound ne b" "entry_sound ne b key st" "\<not> is_export key \<Longrightarrow> stream_of (bu_circuit b) st"
  shows "sound ne (cache_insert key st b)"
proof -
  have k: "keeps b (cache_insert key st b)" by (rule keeps_cache_insert [OF keeps_refl [OF soundD(1) [OF assms(1)]]])
  have "map_of (ci_cache (bu_circuit (cache_insert key st b))) = (map_of (ci_cache (bu_circuit b)))(key \<mapsto> st)"
    by (simp add: cache_insert_def update_conv')
  then show ?thesis
    using assms keeps_entry [OF k] keeps_stream_of [OF k] k unfolding sound_def keeps_def
    by (auto split: if_splits)
qed

end
