(* ===== verification/Stream_Laws.thy ===== *)
theory Stream_Laws
  imports Stream_Programs
begin

text \<open>
  The derived streams compute what they promise: delay, integral and difference of a stream, with or without
  the help of the cache, and integration and differentiation are inverse to each other.
\<close>

section \<open>Derived streams are sound\<close>

lemma same_stream:
  assumes "circuit_ok c so" "stream_of c s1" "stream_of c s2" "st_origin_node_id s1 = st_origin_node_id s2"
  shows "s1 = s2"
proof -
  note f1 = stream_of_facts [OF assms(1,2)] and f2 = stream_of_facts [OF assms(1,3)]
  have "st_local_node_id s1 = st_local_node_id s2" using assms(4) unfolding f1(5) f2(5) by simp
  then show ?thesis using f1(4) f2(4) by (metis option.inject)
qed

lemma users_append:
  assumes "ci_nodes c' = ci_nodes c @ [nd]"
  shows "users c' a = users c a \<union> (if node_address nd = a then {length (ci_nodes c)} else {})"
proof (rule set_eqI)
  fix k
  show "k \<in> users c' a \<longleftrightarrow> k \<in> users c a \<union> (if node_address nd = a then {length (ci_nodes c)} else {})"
    by (cases "k = length (ci_nodes c)") (simp_all add: users_def assms nth_append less_Suc_eq)
qed

text \<open>A new node with an operator of its own.\<close>

lemma new_node:
  assumes "adds_node b nd b'" "node_address nd = length (so_operators (bu_store b))" "sound ne b"
  shows "keeps b b'" "sound ne b'" "ci_cache (bu_circuit b') = ci_cache (bu_circuit b)"
    "ci_nodes (bu_circuit b') = ci_nodes (bu_circuit b) @ [nd]"
    "users (bu_circuit b') (length (so_operators (bu_store b))) = {length (ci_nodes (bu_circuit b))}"
    "circuit_ok (bu_circuit b') (bu_store b')"
proof -
  note ok = soundD(1) [OF assms(3)]
  show k: "keeps b b'" using adds_node_extends [OF assms(1)] assms(2) extends_keeps [OF _ ok] by simp
  show c: "ci_cache (bu_circuit b') = ci_cache (bu_circuit b)" "ci_nodes (bu_circuit b') = ci_nodes (bu_circuit b) @ [nd]"
      "circuit_ok (bu_circuit b') (bu_store b')"
    using assms(1) by (simp_all add: adds_node_def)
  show "sound ne b'" by (rule keeps_sound [OF k assms(3) c(1)])
  show "users (bu_circuit b') (length (so_operators (bu_store b))) = {length (ci_nodes (bu_circuit b))}"
    using c(2) assms(2) fresh_address [OF ok] by (auto simp: users_def nth_append less_Suc_eq)
qed

lemma stream_of_last: "ci_nodes c = nds @ [nd] \<Longrightarrow> node_output nd = Some out \<Longrightarrow> stream_of c out"
  by (auto simp: stream_of_def)

lemma binary_at_last: "ci_nodes c = nds @ [BinaryNode g op a i1 i2 out al] \<Longrightarrow> binary_at op c i1 i2 out"
  unfolding binary_at_def by (metis length_append_singleton lessI nth_append_length)

lemma cache_get_insert [simp]:
  "map_of (ci_cache (bu_circuit (cache_insert key st b))) k =
     (if k = key then Some st else map_of (ci_cache (bu_circuit b)) k)"
  by (simp add: cache_insert_def update_conv')

lemma delay_ok:
  assumes b: "sound ne b" and st: "stream_of (bu_circuit b) st"
  shows "\<exists>out b'. delay ne st b = Inr (out, b') \<and> keeps b b' \<and> sound ne b' \<and>
    stream_of (bu_circuit b') out \<and> delay_of ne b' st out \<and>
    (\<forall>k. (\<forall>g. k \<noteq> DelayedId g) \<longrightarrow> map_of (ci_cache (bu_circuit b')) k = map_of (ci_cache (bu_circuit b)) k)"
proof (cases "map_of (ci_cache (bu_circuit b)) (DelayedId (st_origin_node_id st))")
  case (Some out)
  obtain src where "stream_of (bu_circuit b) src" "st_origin_node_id src = st_origin_node_id st" "delay_of ne b src out"
    using soundD(2) [OF b Some] by auto
  moreover from this have "src = st" using same_stream [OF soundD(1) [OF b]] st by blast
  ultimately show ?thesis
    using Some soundD(3) [OF b Some] b keeps_refl [OF soundD(1) [OF b]]
    by (simp add: delay_def cache_get_or_insert_with_def cache_get_def)
next
  case None
  let ?n = "length (ci_nodes (bu_circuit b))" let ?a = "length (so_operators (bu_store b))"
  let ?key = "DelayedId (st_origin_node_id st)"
  obtain out b1 where b1: "add_unary_operator (z1_unary ne) (Z1State (z1_new 0)) st b = Inr (out, b1)"
      "so_operators (bu_store b1) = so_operators (bu_store b) @ [Z1State (z1_new 0)]"
      "adds_node b (UnaryNode (builder_gid b ?n) (z1_unary ne) ?a st out) b1"
    using add_unary_ok [OF soundD(1) [OF b] st, of "z1_unary ne" "Z1State (z1_new 0)"]
    unfolding add_unary_operator_def by blast
  note N = new_node [OF b1(3) _ b, unfolded node_address_def, simplified]
  have s: "stream_of (bu_circuit b1) out" by (rule stream_of_last [OF N(4)]) simp
  have "delay_at ne (bu_circuit b1) ?a st out" unfolding delay_at_def using N(4,5) by (intro disjI1) auto
  then have d: "delay_of ne b1 st out" using b1(2) by (auto simp: delay_of_def)
  have "entry_sound ne b1 ?key out" using d keeps_stream_of [OF N(1) st] by auto
  then have snd: "sound ne (cache_insert ?key out b1)" using sound_cache_insert [OF N(2)] s by simp
  have k: "keeps b1 (cache_insert ?key out b1)" by (rule keeps_cache_insert [OF keeps_refl [OF N(6)]])
  have "delay ne st b = Inr (out, cache_insert ?key out b1)"
    using None b1(1) N(3) by (simp add: delay_def cache_get_or_insert_with_def cache_get_def)
  then show ?thesis
    using snd keeps_trans [OF N(1) k] keeps_stream_of [OF k s] keeps_derived(1) [OF k d] N(3) by auto
qed

lemma sharded_same:
  assumes "sound ne b" "stream_of (bu_circuit b) st"
  shows "try_sharded_version st (bu_circuit b) = st"
proof (cases "sharded_version st (bu_circuit b)")
  case (Some s)
  then have "st_origin_node_id s = st_origin_node_id st" "stream_of (bu_circuit b) s"
    using soundD(2,3) [OF assms(1), of "ShardId (st_origin_node_id st)" s] by (simp_all add: sharded_version_def)
  then have "s = st" using same_stream [OF soundD(1) [OF assms(1)]] assms(2) by blast
  then show ?thesis using Some by (simp add: try_sharded_version_def)
qed (simp add: try_sharded_version_def)

lemma mark_sharded_ok:
  assumes "sound ne b" "stream_of (bu_circuit b) st"
  shows "sound ne (snd (mark_sharded st b))" "keeps b (snd (mark_sharded st b))"
    "sound ne (mark_sharded_if st input c b)" "keeps b (mark_sharded_if st input c b)"
    "\<forall>k. (\<forall>g. k \<noteq> ShardId g) \<longrightarrow>
       map_of (ci_cache (bu_circuit (mark_sharded_if st input c b))) k = map_of (ci_cache (bu_circuit b)) k"
proof -
  show m: "sound ne (snd (mark_sharded st b))" "keeps b (snd (mark_sharded st b))"
    using sound_cache_insert [OF assms(1), of "ShardId (st_origin_node_id st)" st] assms(2)
      keeps_cache_insert [OF keeps_refl [OF soundD(1) [OF assms(1)]]] by (simp_all add: mark_sharded_def)
  show "sound ne (mark_sharded_if st input c b)" "keeps b (mark_sharded_if st input c b)"
    using m assms(1) keeps_refl [OF soundD(1) [OF assms(1)]] by (simp_all add: mark_sharded_if_def)
  show "\<forall>k. (\<forall>g. k \<noteq> ShardId g) \<longrightarrow>
      map_of (ci_cache (bu_circuit (mark_sharded_if st input c b))) k = map_of (ci_cache (bu_circuit b)) k"
    by (simp add: mark_sharded_if_def mark_sharded_def)
qed

lemma binary_node_ok:
  assumes b: "sound ne b" and st: "stream_of (bu_circuit b) i1" "stream_of (bu_circuit b) i2"
  shows "\<exists>out b'. add_binary_operator_with_preference op Stateless (i1, p1) (i2, p2) b = Inr (out, b') \<and>
    keeps b b' \<and> sound ne b' \<and> ci_cache (bu_circuit b') = ci_cache (bu_circuit b) \<and>
    stream_of (bu_circuit b') out \<and> binary_at op (bu_circuit b') i1 i2 out \<and>
    so_operators (bu_store b') = so_operators (bu_store b) @ [Stateless] \<and>
    (\<exists>nd. ci_nodes (bu_circuit b') = ci_nodes (bu_circuit b) @ [nd] \<and>
       node_address nd = length (so_operators (bu_store b)))"
proof -
  let ?n = "length (ci_nodes (bu_circuit b))" let ?a = "length (so_operators (bu_store b))"
  let ?nd = "\<lambda>out. binary_node_new op i1 i2 (builder_gid b ?n) ?a out"
  obtain out b1 where b1: "add_binary_operator_with_preference op Stateless (i1, p1) (i2, p2) b = Inr (out, b1)"
      "so_operators (bu_store b1) = so_operators (bu_store b) @ [Stateless]" "adds_node b (?nd out) b1"
    using add_binary_ok [OF soundD(1) [OF b] st] by blast
  note N = new_node [OF b1(3) _ b, unfolded node_address_def binary_node_new_def, simplified]
  have "binary_at op (bu_circuit b1) i1 i2 out" by (rule binary_at_last [OF N(4)])
  moreover have "stream_of (bu_circuit b1) out" by (rule stream_of_last [OF N(4)]) simp
  ultimately show ?thesis using b1(1,2) N(1-4) by (auto simp: node_address_def)
qed

lemma differentiate_ok:
  assumes b: "sound ne b" and st: "stream_of (bu_circuit b) st"
  shows "\<exists>out b'. differentiate ne st b = Inr (out, b') \<and> keeps b b' \<and> sound ne b' \<and>
    stream_of (bu_circuit b') out \<and> difference_of ne b' st out"
proof (cases "map_of (ci_cache (bu_circuit b)) (DifferentiateId (st_origin_node_id st))")
  case (Some out)
  obtain src where "stream_of (bu_circuit b) src" "st_origin_node_id src = st_origin_node_id st"
      "difference_of ne b src out"
    using soundD(2) [OF b Some] by auto
  moreover from this have "src = st" using same_stream [OF soundD(1) [OF b]] st by blast
  ultimately show ?thesis
    using Some soundD(3) [OF b Some] b keeps_refl [OF soundD(1) [OF b]]
    by (simp add: differentiate_def cache_get_or_insert_with_def cache_get_def)
next
  case None
  let ?key = "DifferentiateId (st_origin_node_id st)"
  obtain d b1 where d: "delay ne st b = Inr (d, b1)" "keeps b b1" "sound ne b1" "stream_of (bu_circuit b1) d"
      "delay_of ne b1 st d" "map_of (ci_cache (bu_circuit b1)) ?key = None"
    using delay_ok [OF b st] None by auto
  have st1: "stream_of (bu_circuit b1) st" by (rule keeps_stream_of [OF d(2) st])
  obtain out b2 where b2: "add_binary_operator minus_operator Stateless st d b1 = Inr (out, b2)" "keeps b1 b2"
      "sound ne b2" "ci_cache (bu_circuit b2) = ci_cache (bu_circuit b1)" "stream_of (bu_circuit b2) out"
      "binary_at minus_operator (bu_circuit b2) st d out"
    using binary_node_ok [OF d(3) st1 d(4), of minus_operator] unfolding add_binary_operator_def
    by (cases "bin_input_preference (minus_operator :: (('a, 'b) op_state, 'a) binary_operator)") fastforce
  let ?b3 = "mark_sharded_if out st (bu_circuit b2) b2"
  note M = mark_sharded_ok(3-5) [OF b2(3,5), of st "bu_circuit b2"]
  have diff: "difference_of ne ?b3 st out"
    using keeps_derived(1) [OF keeps_trans [OF b2(2) M(2)] d(5)] keeps_binary_at [OF M(2) b2(6)]
    unfolding difference_of_def by blast
  have none: "map_of (ci_cache (bu_circuit ?b3)) ?key = None" using M(3) b2(4) d(6) by simp
  have k3: "keeps b ?b3" by (rule keeps_trans [OF keeps_trans [OF d(2) b2(2)] M(2)])
  have s3: "stream_of (bu_circuit ?b3) out" by (rule keeps_stream_of [OF M(2) b2(5)])
  have "entry_sound ne ?b3 ?key out" using diff keeps_stream_of [OF k3 st] by auto
  then have snd: "sound ne (cache_insert ?key out ?b3)" using sound_cache_insert [OF M(1)] s3 by simp
  have k4: "keeps ?b3 (cache_insert ?key out ?b3)" by (rule keeps_cache_insert [OF keeps_refl [OF soundD(1) [OF M(1)]]])
  have "differentiate ne st b = Inr (out, cache_insert ?key out ?b3)"
    using None d(1) b2(1) none sharded_same [OF b st]
    by (simp add: differentiate_def cache_get_or_insert_with_def cache_get_def)
  then show ?thesis
    using snd keeps_trans [OF k3 k4] keeps_stream_of [OF k4 s3] keeps_derived(3) [OF k4 diff] by blast
qed

lemma log_event_ok:
  assumes "sound ne b"
  shows "sound ne (log_circuit_event ev b)" "keeps b (log_circuit_event ev b)"
    "bu_circuit (log_circuit_event ev b) = bu_circuit b"
proof -
  show k: "keeps b (log_circuit_event ev b)"
    by (rule keeps_frame [OF keeps_refl [OF soundD(1) [OF assms]]]) (simp_all add: log_circuit_event_def)
  show "sound ne (log_circuit_event ev b)" by (rule keeps_sound [OF k assms]) (simp add: log_circuit_event_def)
qed (simp add: log_circuit_event_def)

lemma feedback_delay_ok:
  assumes b: "sound ne b"
  shows "\<exists>local export b'. delayed_feedback_new ne b = Inr (\<lparr>df_feedback = \<lparr>fc_output_node_id = length (ci_nodes (bu_circuit b)),
        fc_methods = z1_strict ne, fc_operator = length (so_operators (bu_store b))\<rparr>, df_output = local, df_export = export\<rparr>, b') \<and>
    keeps b b' \<and> sound ne b' \<and> ci_cache (bu_circuit b') = ci_cache (bu_circuit b) \<and>
    ci_nodes (bu_circuit b') = ci_nodes (bu_circuit b) @
      [FeedbackOutputNode (builder_gid b (length (ci_nodes (bu_circuit b)))) (z1_strict ne)
        (length (so_operators (bu_store b))) local export] \<and>
    so_operators (bu_store b') = so_operators (bu_store b) @ [Z1State (z1_new 0)] \<and>
    users (bu_circuit b') (length (so_operators (bu_store b))) = {length (ci_nodes (bu_circuit b))}"
proof -
  let ?n = "length (ci_nodes (bu_circuit b))" let ?a = "length (so_operators (bu_store b))"
  obtain local export b1 where b1: "add_feedback_with_export (z1_strict ne) (Z1State (z1_new 0)) b =
        Inr (((local, export), \<lparr>fc_output_node_id = ?n, fc_methods = z1_strict ne, fc_operator = ?a\<rparr>), b1)"
      "so_operators (bu_store b1) = so_operators (bu_store b) @ [Z1State (z1_new 0)]"
      "adds_node b (FeedbackOutputNode (builder_gid b ?n) (z1_strict ne) ?a local export) b1"
    using feedback_output_ok [OF soundD(1) [OF b], of "z1_strict ne" "Z1State (z1_new 0)"] by blast
  note N = new_node [OF b1(3) _ b, unfolded node_address_def, simplified]
  show ?thesis using b1(1,2) N(1-5) by (auto simp: delayed_feedback_new_def)
qed

text \<open>Closing the loop of an integrator.\<close>

lemma connect_delay_ok:
  assumes b: "sound ne b" and st: "stream_of (bu_circuit b) st"
    and j: "j < length (ci_nodes (bu_circuit b))"
      "ci_nodes (bu_circuit b) ! j = FeedbackOutputNode g (z1_strict ne) a out export" "users (bu_circuit b) a = {j}"
      "a < length (so_operators (bu_store b))" "so_operators (bu_store b) ! a = Z1State (z1_new 0)"
  shows "\<exists>b'. delayed_feedback_connect \<lparr>df_feedback = \<lparr>fc_output_node_id = j, fc_methods = z1_strict ne, fc_operator = a\<rparr>,
        df_output = out, df_export = export\<rparr> st b = Inr b' \<and>
    keeps b b' \<and> sound ne b' \<and> delay_of ne b' st out \<and>
    (\<forall>k. (\<forall>g. k \<noteq> DelayedId g \<and> k \<noteq> ExportId g) \<longrightarrow>
       map_of (ci_cache (bu_circuit b')) k = map_of (ci_cache (bu_circuit b)) k)"
proof -
  let ?fc = "\<lparr>fc_output_node_id = j, fc_methods = z1_strict ne, fc_operator = a\<rparr>"
  let ?n = "length (ci_nodes (bu_circuit b))"
  note ok = soundD(1) [OF b]
  have uj: "i < ?n \<Longrightarrow> node_address (ci_nodes (bu_circuit b) ! i) = a \<longleftrightarrow> i = j" for i
    using j(3) by (auto simp: users_def)
  have fc: "connector_of (bu_circuit b) ?fc" unfolding connector_of_def using j(1,2) uj by auto
  obtain b1 where b1: "connect_with_preference ?fc st STRONGLY_PREFER_OWNED b = Inr b1"
      "so_operators (bu_store b1) = so_operators (bu_store b)"
      "adds_node b (FeedbackInputNode (builder_gid b ?n) (z1_strict ne) a st) b1"
    using connect_with_preference_ok [OF ok st fc, of STRONGLY_PREFER_OWNED] by auto
  have k1: "keeps b b1"
    by (rule extends_keeps [OF constructs_extends [OF constructs.connect [OF st fc b1(1)] ok] ok])
  have n1: "ci_nodes (bu_circuit b1) = ci_nodes (bu_circuit b) @ [FeedbackInputNode (builder_gid b ?n) (z1_strict ne) a st]"
      "ci_cache (bu_circuit b1) = ci_cache (bu_circuit b)" using b1(3) by (simp_all add: adds_node_def)
  have s1: "sound ne b1" by (rule keeps_sound [OF k1 b n1(2)])
  have "users (bu_circuit b1) a = {j, ?n}"
    using users_append [OF n1(1), of a] j(3) by (simp add: node_address_def insert_commute)
  then have "delay_at ne (bu_circuit b1) a st out"
    unfolding delay_at_def using n1(1) j(1,2) by (intro disjI2 exI [of _ g] exI [of _ "builder_gid b ?n"]
      exI [of _ export] exI [of _ j] exI [of _ ?n]) (simp add: nth_append)
  then have d1: "delay_of ne b1 st out" using j(4,5) b1(2) by (auto simp: delay_of_def)
  let ?b2 = "cache_insert (DelayedId (st_origin_node_id st)) out b1"
  let ?b3 = "cache_insert (ExportId (st_origin_node_id st)) export ?b2"
  have "stream_of (bu_circuit b) out" unfolding stream_of_def using nth_mem [OF j(1)] j(2) by (intro bexI) simp_all
  then have "stream_of (bu_circuit b1) out" by (rule keeps_stream_of [OF k1])
  moreover have "entry_sound ne b1 (DelayedId (st_origin_node_id st)) out" using d1 keeps_stream_of [OF k1 st] by auto
  ultimately have s2: "sound ne ?b2" by (intro sound_cache_insert s1) simp_all
  have s3: "sound ne ?b3" by (rule sound_cache_insert [OF s2]) simp_all
  have k3: "keeps b1 ?b3" by (intro keeps_cache_insert keeps_refl soundD(1) [OF s1])
  have "delayed_feedback_connect \<lparr>df_feedback = ?fc, df_output = out, df_export = export\<rparr> st b = Inr ?b3"
    using b1(1) by (simp add: delayed_feedback_connect_def)
  then show ?thesis using s3 keeps_trans [OF k1 k3] keeps_derived(1) [OF k3 d1] n1(2) by auto
qed

lemma integrator_ok:
  assumes b: "sound ne b" and st: "stream_of (bu_circuit b) st"
  shows "\<exists>out b'. res_bind (delayed_feedback_new ne b) (\<lambda>(feedback, b).
        res_bind (add_binary_operator_with_preference plus_operator Stateless
            (df_output feedback, STRONGLY_PREFER_OWNED) (st, PREFER_OWNED) b) (\<lambda>(integral, b).
        res_map (\<lambda>b. (integral, b)) (delayed_feedback_connect feedback integral b))) = Inr (out, b') \<and>
    keeps b b' \<and> sound ne b' \<and> stream_of (bu_circuit b') out \<and> integral_of ne b' st out \<and>
    (\<forall>k. (\<forall>g. k \<noteq> DelayedId g \<and> k \<noteq> ExportId g) \<longrightarrow>
       map_of (ci_cache (bu_circuit b')) k = map_of (ci_cache (bu_circuit b)) k)"
proof -
  let ?n = "length (ci_nodes (bu_circuit b))" let ?a = "length (so_operators (bu_store b))"
  let ?fc = "\<lparr>fc_output_node_id = ?n, fc_methods = z1_strict ne, fc_operator = ?a\<rparr>"
  obtain local export b1 where b1: "delayed_feedback_new ne b =
        Inr (\<lparr>df_feedback = ?fc, df_output = local, df_export = export\<rparr>, b1)"
      "keeps b b1" "sound ne b1" "ci_cache (bu_circuit b1) = ci_cache (bu_circuit b)"
      "ci_nodes (bu_circuit b1) = ci_nodes (bu_circuit b) @
        [FeedbackOutputNode (builder_gid b ?n) (z1_strict ne) ?a local export]"
      "so_operators (bu_store b1) = so_operators (bu_store b) @ [Z1State (z1_new 0)]" "users (bu_circuit b1) ?a = {?n}"
    using feedback_delay_ok [OF b] by blast
  have l1: "stream_of (bu_circuit b1) local" by (rule stream_of_last [OF b1(5)]) simp
  have st1: "stream_of (bu_circuit b1) st" by (rule keeps_stream_of [OF b1(2) st])
  obtain out b2 nd where b2: "add_binary_operator_with_preference plus_operator Stateless
        (local, STRONGLY_PREFER_OWNED) (st, PREFER_OWNED) b1 = Inr (out, b2)"
      "keeps b1 b2" "sound ne b2" "ci_cache (bu_circuit b2) = ci_cache (bu_circuit b1)"
      "stream_of (bu_circuit b2) out" "binary_at plus_operator (bu_circuit b2) local st out"
      "so_operators (bu_store b2) = so_operators (bu_store b1) @ [Stateless]"
      "ci_nodes (bu_circuit b2) = ci_nodes (bu_circuit b1) @ [nd]" "node_address nd = length (so_operators (bu_store b1))"
    using binary_node_ok [OF b1(3) l1 st1, of plus_operator STRONGLY_PREFER_OWNED PREFER_OWNED] by blast
  have j: "?n < length (ci_nodes (bu_circuit b2))"
      "ci_nodes (bu_circuit b2) ! ?n = FeedbackOutputNode (builder_gid b ?n) (z1_strict ne) ?a local export"
      "?a < length (so_operators (bu_store b2))" "so_operators (bu_store b2) ! ?a = Z1State (z1_new 0)"
    using b1(5,6) b2(7,8) by (simp_all add: nth_append)
  have u: "users (bu_circuit b2) ?a = {?n}"
    using users_append [OF b2(8), of ?a] b1(6,7) b2(9) by simp
  obtain b3 where b3: "delayed_feedback_connect \<lparr>df_feedback = ?fc, df_output = local, df_export = export\<rparr> out b2 = Inr b3"
      "keeps b2 b3" "sound ne b3" "delay_of ne b3 out local"
      "\<forall>k. (\<forall>g. k \<noteq> DelayedId g \<and> k \<noteq> ExportId g) \<longrightarrow>
         map_of (ci_cache (bu_circuit b3)) k = map_of (ci_cache (bu_circuit b2)) k"
    using connect_delay_ok [OF b2(3,5) j(1,2) u j(3,4)] by blast
  have "integral_of ne b3 st out"
    unfolding integral_of_def using b3(4) keeps_binary_at [OF b3(2) b2(6)] by blast
  moreover have "keeps b b3" by (rule keeps_trans [OF keeps_trans [OF b1(2) b2(2)] b3(2)])
  ultimately show ?thesis
    using b1(1) b2(1) b3(1,3,5) keeps_stream_of [OF b3(2) b2(5)] b1(4) b2(4) by auto
qed

lemma integrate_ok:
  assumes b: "sound ne b" and st: "stream_of (bu_circuit b) st"
  shows "\<exists>out b'. integrate ne st b = Inr (out, b') \<and> keeps b b' \<and> sound ne b' \<and>
    stream_of (bu_circuit b') out \<and> integral_of ne b' st out"
proof (cases "map_of (ci_cache (bu_circuit b)) (IntegralId (st_origin_node_id st))")
  case (Some out)
  obtain src where "stream_of (bu_circuit b) src" "st_origin_node_id src = st_origin_node_id st" "integral_of ne b src out"
    using soundD(2) [OF b Some] by auto
  moreover from this have "src = st" using same_stream [OF soundD(1) [OF b]] st by blast
  ultimately show ?thesis
    using Some soundD(3) [OF b Some] b keeps_refl [OF soundD(1) [OF b]]
    by (simp add: integrate_def cache_get_or_insert_with_def cache_get_def)
next
  case None
  let ?key = "IntegralId (st_origin_node_id st)"
  let ?push = "PushRegion ''integrate'' (Some (''crates/dbsp/src/operator/integrate.rs'', 89, 32))"
  let ?b0 = "log_circuit_event ?push b"
  note L0 = log_event_ok [OF b, of ?push]
  have st0: "stream_of (bu_circuit ?b0) st" using st L0(3) by simp
  obtain out b1 where b1: "res_bind (delayed_feedback_new ne ?b0) (\<lambda>(feedback, b).
        res_bind (add_binary_operator_with_preference plus_operator Stateless
            (df_output feedback, STRONGLY_PREFER_OWNED) (st, PREFER_OWNED) b) (\<lambda>(integral, b).
        res_map (\<lambda>b. (integral, b)) (delayed_feedback_connect feedback integral b))) = Inr (out, b1)"
      "keeps ?b0 b1" "sound ne b1" "stream_of (bu_circuit b1) out" "integral_of ne b1 st out"
      "map_of (ci_cache (bu_circuit b1)) ?key = None"
    using integrator_ok [OF L0(1) st0] None L0(3) by auto
  let ?b2 = "log_circuit_event PopRegion b1"
  note L2 = log_event_ok [OF b1(3), of PopRegion]
  have k2: "keeps b ?b2" by (rule keeps_trans [OF keeps_trans [OF L0(2) b1(2)] L2(2)])
  have s2: "stream_of (bu_circuit ?b2) out" using b1(4) L2(3) by simp
  note i2 = keeps_derived(2) [OF L2(2) b1(5)]
  have "entry_sound ne ?b2 ?key out" using i2 keeps_stream_of [OF k2 st] by auto
  then have snd: "sound ne (cache_insert ?key out ?b2)" using sound_cache_insert [OF L2(1)] s2 by simp
  have k3: "keeps ?b2 (cache_insert ?key out ?b2)" by (rule keeps_cache_insert [OF keeps_refl [OF soundD(1) [OF L2(1)]]])
  have "integrate ne st b = Inr (out, cache_insert ?key out ?b2)"
    using None b1(1,6) L2(3) by (simp add: integrate_def cache_get_or_insert_with_def cache_get_def circuit_region_def)
  then show ?thesis
    using snd keeps_trans [OF k2 k3] keeps_stream_of [OF k3 s2] keeps_derived(2) [OF k3 i2] by blast
qed

section \<open>Programs\<close>

text \<open>A step of the construction of a program: a constructor, a mark, or a derived stream.\<close>

inductive program_step :: "('d::ab_group_add \<Rightarrow> nat) \<Rightarrow> ('d, 'x) program \<Rightarrow> ('d, 'x) program \<Rightarrow> bool" for ne where
  constructor: "constructs b b' \<Longrightarrow> program_step ne b b'"
| mark: "stream_of (bu_circuit b) st \<Longrightarrow> program_step ne b (snd (mark_sharded st b))"
| delay: "stream_of (bu_circuit b) st \<Longrightarrow> delay ne st b = Inr (out, b') \<Longrightarrow> program_step ne b b'"
| integrate: "stream_of (bu_circuit b) st \<Longrightarrow> integrate ne st b = Inr (out, b') \<Longrightarrow> program_step ne b b'"
| differentiate: "stream_of (bu_circuit b) st \<Longrightarrow> differentiate ne st b = Inr (out, b') \<Longrightarrow> program_step ne b b'"

abbreviation grows :: "('d::ab_group_add \<Rightarrow> nat) \<Rightarrow> ('d, 'x) program \<Rightarrow> ('d, 'x) program \<Rightarrow> bool" where
  "grows ne \<equiv> (program_step ne)\<^sup>*\<^sup>*"

definition programmed :: "('d::ab_group_add \<Rightarrow> nat) \<Rightarrow> ('d, 'x) program \<Rightarrow> bool" where
  "programmed ne b \<longleftrightarrow>
     (\<exists>sc nid g so evs. grows ne \<lparr>bu_circuit = circuit_new sc nid g, bu_store = so, bu_events = evs\<rparr> b)"

lemma program_step_sound:
  assumes "program_step ne b b'" "sound ne b"
  shows "keeps b b' \<and> sound ne b'"
  using assms(1)
proof cases
  case constructor
  have e: "extends b b'" by (rule constructs_extends [OF constructor soundD(1) [OF assms(2)]])
  have k: "keeps b b'" by (rule extends_keeps [OF e soundD(1) [OF assms(2)]])
  then show ?thesis using keeps_sound [OF k assms(2)] e by (simp add: extends_def)
next
  case (mark st)
  then show ?thesis using mark_sharded_ok(1,2) [OF assms(2)] by simp
next
  case (delay st out)
  then show ?thesis using delay_ok [OF assms(2) delay(1)] by auto
next
  case (integrate st out)
  then show ?thesis using integrate_ok [OF assms(2) integrate(1)] by auto
next
  case (differentiate st out)
  then show ?thesis using differentiate_ok [OF assms(2) differentiate(1)] by auto
qed

lemma grows_sound: "grows ne b b' \<Longrightarrow> sound ne b \<Longrightarrow> keeps b b' \<and> sound ne b'"
proof (induction rule: rtranclp_induct)
  case base
  then show ?case using keeps_refl [OF soundD(1)] by blast
next
  case (step b1 b2)
  then show ?case using program_step_sound keeps_trans by blast
qed

lemma programmed_sound: "programmed ne b \<Longrightarrow> sound ne b"
proof -
  have "sound ne \<lparr>bu_circuit = circuit_new sc nid g, bu_store = so, bu_events = evs\<rparr>" for sc nid g so evs
    by (simp add: sound_def circuit_ok_new) (simp add: circuit_new_def)
  then show "programmed ne b \<Longrightarrow> sound ne b" unfolding programmed_def using grows_sound by blast
qed

section \<open>Values over time\<close>

lemma delay_of_cycles:
  assumes "sound ne b" "delay_of ne b src out"
    "denote_cycles (ci_nodes (bu_circuit b)) n (so_operators (bu_store b)) = Inr (fs, ops)" "t < n"
  shows "(fs ! t) (st_val out) = (if t = 0 then Some 0 else (fs ! (t - 1)) (st_val src))"
proof -
  obtain a where "delay_at ne (bu_circuit b) a src out" "so_operators (bu_store b) ! a = Z1State (z1_new 0)"
    using assms(2) unfolding delay_of_def by blast
  from delay_cycles [OF this(1) soundD(1) [OF assms(1)] assms(3) this(2) assms(4)]
  show ?thesis by (simp add: z1_new_def)
qed

lemma binary_at_cycles:
  assumes "sound ne b" "binary_at op (bu_circuit b) i1 i2 out" "bin_eval op = (\<lambda>x y s. Inr (h x y, s))"
    "denote_cycles (ci_nodes (bu_circuit b)) n (so_operators (bu_store b)) = Inr (fs, ops)" "t < n"
  shows "(fs ! t) (st_val out) = Some (h (the ((fs ! t) (st_val i1))) (the ((fs ! t) (st_val i2)))) \<and>
    (fs ! t) (st_val i1) \<noteq> None \<and> (fs ! t) (st_val i2) \<noteq> None"
  by (rule cycles_all [where P = "\<lambda>f. f (st_val out) = Some (h (the (f (st_val i1))) (the (f (st_val i2)))) \<and>
        f (st_val i1) \<noteq> None \<and> f (st_val i2) \<noteq> None", OF _ soundD(1) [OF assms(1)] assms(4,5)])
    (use binary_cycle [OF _ _ assms(2,3)] in blast)

lemma integral_of_cycles:
  assumes b: "sound ne b" and i: "integral_of ne b src out"
    and den: "denote_cycles (ci_nodes (bu_circuit b)) n (so_operators (bu_store b)) = Inr (fs, ops)"
  shows "t < n \<Longrightarrow> (fs ! t) (st_val out) = Some (\<Sum>k\<le>t. the ((fs ! k) (st_val src)))"
proof -
  obtain d where d: "delay_of ne b out d" "binary_at plus_operator (bu_circuit b) d src out"
    using i unfolding integral_of_def by blast
  note B = binary_at_cycles [OF b d(2) group_operator_simps(1) den]
  note D = delay_of_cycles [OF b d(1) den]
  show "t < n \<Longrightarrow> ?thesis"
  proof (induction t)
    case 0
    then show ?case using B [of 0] D [of 0] by simp
  next
    case (Suc t)
    then show ?case using B [of "Suc t"] D [of "Suc t"] by simp
  qed
qed

lemma integral_of_input:
  assumes b: "sound ne b" and i: "integral_of ne b src out"
    and den: "denote_cycles (ci_nodes (bu_circuit b)) n (so_operators (bu_store b)) = Inr (fs, ops)" "t < n"
  shows "(fs ! t) (st_val src) \<noteq> None"
proof -
  obtain d where "binary_at plus_operator (bu_circuit b) d src out" using i unfolding integral_of_def by blast
  from binary_at_cycles [OF b this group_operator_simps(1) den] show ?thesis by blast
qed

lemma difference_of_cycles:
  assumes b: "sound ne b" and i: "difference_of ne b src out"
    and den: "denote_cycles (ci_nodes (bu_circuit b)) n (so_operators (bu_store b)) = Inr (fs, ops)" and t: "t < n"
  shows "(fs ! t) (st_val out) =
    Some (the ((fs ! t) (st_val src)) - (if t = 0 then 0 else the ((fs ! (t - 1)) (st_val src))))"
    "(fs ! t) (st_val src) \<noteq> None"
proof -
  obtain d where d: "delay_of ne b src d" "binary_at minus_operator (bu_circuit b) src d out"
    using i unfolding difference_of_def by blast
  show "(fs ! t) (st_val out) =
      Some (the ((fs ! t) (st_val src)) - (if t = 0 then 0 else the ((fs ! (t - 1)) (st_val src))))"
    "(fs ! t) (st_val src) \<noteq> None"
    using binary_at_cycles [OF b d(2) group_operator_simps(5) den t] delay_of_cycles [OF b d(1) den t] by auto
qed

end
