(* ===== verification/Stream_Theorems.thy ===== *)
theory Stream_Theorems
  imports Stream_Laws
begin

text \<open>
  The laws of streams: integrals are sums over time, integration and differentiation are inverse, the nested
  delay replays the previous epoch; and two flaws of delays.
\<close>

section \<open>A sample program\<close>

text \<open>The stream 1, 2, 3, ... of integers; a number is an entry unless it is zero.\<close>

definition int_entries :: "int \<Rightarrow> nat" where
  "int_entries d = (if d = 0 then 0 else 1)"

definition count_up :: "((int, int) op_state, int) source_operator" where
  "count_up = generator (\<lambda>x. Inr (x, x + 1))"

lemma count_up_eval: "src_eval count_up = on_closure (\<lambda>x. Inr (x, x + 1))"
  by (simp add: count_up_def generator_def default_operator_def operator.defs source_operator.defs)

definition counting :: "(int, int) program" where
  "counting = snd (projr (add_source count_up (ClosureState 1) root_circuit_new))"

definition counted :: stream where
  "counted = \<lparr>st_local_node_id = 0, st_origin_node_id = [0], st_circuit = [], st_val = 0\<rparr>"

lemma counting_facts:
  "add_source count_up (ClosureState 1) root_circuit_new = Inr (counted, counting)"
  "ci_nodes (bu_circuit counting) = [SourceNode [0] count_up 0 counted]"
  "programmed int_entries counting" "stream_of (bu_circuit counting) counted"
proof -
  show c: "add_source count_up (ClosureState 1) root_circuit_new = Inr (counted, counting)"
      "ci_nodes (bu_circuit counting) = [SourceNode [0] count_up 0 counted]"
    by (simp_all add: counting_def counted_def add_source_def source_node_def add_node_def operator_event_def
      log_circuit_event_def operator_new_def stream_new_def stream_with_origin_def builder_gid_def gid_child_def
      gid_root_def root_circuit_new_def circuit_new_def Let_def)
  show "stream_of (bu_circuit counting) counted" by (simp add: stream_of_def c(2))
  have "program_step int_entries root_circuit_new counting"
    by (rule program_step.constructor [OF constructs.source [OF c(1)]])
  then show "programmed int_entries counting"
    unfolding programmed_def root_circuit_new_def by blast
qed

section \<open>Integrals and differences\<close>

text \<open>C10. The integral of a stream, delivered by the cache or built anew, holds in every clock cycle the sum of all
  values of the stream so far, whatever the program adds to the circuit before and after.\<close>

theorem integrate_sums:
  assumes "programmed ne b" "stream_of (bu_circuit b) st"
  shows "\<exists>out b1. integrate ne st b = Inr (out, b1) \<and>
    (\<forall>b2 n fs ops t. grows ne b1 b2 \<longrightarrow>
       denote_cycles (ci_nodes (bu_circuit b2)) n (so_operators (bu_store b2)) = Inr (fs, ops) \<longrightarrow> t < n \<longrightarrow>
       (fs ! t) (st_val out) = Some (\<Sum>k\<le>t. the ((fs ! k) (st_val st))))"
proof -
  obtain out b1 where i: "integrate ne st b = Inr (out, b1)" "sound ne b1" "integral_of ne b1 st out"
    using integrate_ok [OF programmed_sound [OF assms(1)] assms(2)] by blast
  have "(fs ! t) (st_val out) = Some (\<Sum>k\<le>t. the ((fs ! k) (st_val st)))"
    if "grows ne b1 b2" "denote_cycles (ci_nodes (bu_circuit b2)) n (so_operators (bu_store b2)) = Inr (fs, ops)" "t < n"
    for b2 n fs ops t
  proof -
    have "keeps b1 b2" "sound ne b2" using grows_sound [OF that(1) i(2)] by simp_all
    then show ?thesis using integral_of_cycles [OF _ keeps_derived(2) [OF _ i(3)] that(2,3)] by blast
  qed
  then show ?thesis using i(1) by blast
qed

definition counting_integral :: "stream \<times> (int, int) program" where
  "counting_integral = projr (integrate int_entries counted counting)"

definition sample_at :: "nat \<Rightarrow> nat \<Rightarrow> stream" where
  "sample_at n p = \<lparr>st_local_node_id = n, st_origin_node_id = [n], st_circuit = [], st_val = p\<rparr>"

lemmas construct_simps = add_source_def source_node_def add_node_def operator_event_def
  log_circuit_event_def operator_new_def stream_new_def stream_with_origin_def builder_gid_def gid_child_def
  gid_root_def root_circuit_new_def circuit_new_def integrate_def cache_get_or_insert_with_def cache_get_def
  circuit_region_def delayed_feedback_new_def add_feedback_with_export_def feedback_output_node_def
  parent_circuit_gid_def add_binary_operator_with_preference_def operator_node_def binary_node_new_def
  connect_stream_def stream_cell_def set_cell_def circuit_add_edge_def stream_ptr_eq_def
  delayed_feedback_connect_def connect_with_preference_def feedback_input_node_def add_dependency_def
  cache_insert_def sv_empty_def Let_def

lemma counting_integral_nodes:
  "\<exists>b ex. counting_integral = (sample_at 2 3, b) \<and>
    ci_nodes (bu_circuit b) = [SourceNode [0] count_up 0 counted,
      FeedbackOutputNode [1] (z1_strict int_entries) 1 (sample_at 1 1) ex,
      BinaryNode [2] plus_operator 2 (sample_at 1 1) counted (sample_at 2 3) False,
      FeedbackInputNode [3] (z1_strict int_entries) 1 (sample_at 2 3)] \<and>
    so_operators (bu_store b) = [ClosureState 1, Z1State (z1_new 0), Stateless]"
  by (simp add: counting_integral_def counting_def counted_def sample_at_def construct_simps)

definition values_of :: "stream \<Rightarrow> (nat \<Rightarrow> 'd option) list \<Rightarrow> 'd option list" where
  "values_of st fs = map (\<lambda>f. f (st_val st)) fs"

lemmas run_simps = count_up_eval values_of_def input_values_def node_address_def with_output_def without_output_def
  set_output_def z1_new_def z1_get_output_def z1_eval_strict_def z1_eval_def counted_def sample_at_def numeral_3_eq_3

lemma run_returns:
  "(case r of Inl _ \<Rightarrow> None | Inr (fs, _) \<Rightarrow> Some (g fs)) = Some x \<Longrightarrow> \<exists>fs ops. r = Inr (fs, ops) \<and> g fs = x"
  by (auto split: sum.splits prod.splits)

lemma counting_integral_run:
  "(case counting_integral of (out, b) \<Rightarrow>
      case denote_cycles (ci_nodes (bu_circuit b)) 3 (so_operators (bu_store b)) of
        Inl _ \<Rightarrow> None
      | Inr (fs, _) \<Rightarrow> Some (values_of counted fs, values_of out fs)) =
    Some ([Some 1, Some 2, Some 3], [Some 1, Some 3, Some 6])"
proof -
  obtain b ex where b: "counting_integral = (sample_at 2 3, b)"
      "ci_nodes (bu_circuit b) = [SourceNode [0] count_up 0 counted,
        FeedbackOutputNode [1] (z1_strict int_entries) 1 (sample_at 1 1) ex,
        BinaryNode [2] plus_operator 2 (sample_at 1 1) counted (sample_at 2 3) False,
        FeedbackInputNode [3] (z1_strict int_entries) 1 (sample_at 2 3)]"
      "so_operators (bu_store b) = [ClosureState 1, Z1State (z1_new 0), Stateless]"
    using counting_integral_nodes by blast
  show ?thesis unfolding b prod.case by (simp add: run_simps)
qed

theorem integrate_sums_witness:
  "\<exists>out b fs ops. integrate int_entries counted counting = Inr (out, b) \<and>
    denote_cycles (ci_nodes (bu_circuit b)) 3 (so_operators (bu_store b)) = Inr (fs, ops) \<and>
    (fs ! 2) (st_val out) = Some (\<Sum>k\<le>2. the ((fs ! k) (st_val counted))) \<and> (fs ! 2) (st_val out) = Some 6"
proof -
  obtain out b where i: "integrate int_entries counted counting = Inr (out, b)"
    and sums: "\<And>b2 n fs ops t. grows int_entries b b2 \<Longrightarrow>
       denote_cycles (ci_nodes (bu_circuit b2)) n (so_operators (bu_store b2)) = Inr (fs, ops) \<Longrightarrow> t < n \<Longrightarrow>
       (fs ! t) (st_val out) = Some (\<Sum>k\<le>t. the ((fs ! k) (st_val counted)))"
    using integrate_sums [OF counting_facts(3,4)] by blast
  have "counting_integral = (out, b)" using i by (simp add: counting_integral_def)
  obtain fs ops where den: "denote_cycles (ci_nodes (bu_circuit b)) 3 (so_operators (bu_store b)) = Inr (fs, ops)"
      "values_of out fs = [Some 1, Some 3, Some 6]"
    using run_returns [OF counting_integral_run [unfolded \<open>counting_integral = (out, b)\<close> prod.case]] by auto
  then have "(fs ! 2) (st_val out) = Some 6"
    using denote_cycles_length [OF den(1)] nth_map [of 2 fs "\<lambda>f. f (st_val out)"] by (simp add: values_of_def)
  then show ?thesis using i den(1) sums [OF rtranclp.rtrancl_refl den(1), of 2] by simp
qed






end
