(* ===== verification/Delay_Theorems.thy ===== *)
theory Delay_Theorems
  imports Stream_Theorems
begin

text \<open>
  The nested delay, and two flaws of the plain one: a delay cached by a fold starts at the initial value of the
  accumulator, and a delay outside of a feedback never reports a fixed point.
\<close>

section \<open>The nested delay\<close>

text \<open>
  An epoch of the parent clock: a start, then an output and an input in every clock cycle.  \<open>zn_unary_run\<close> is
  the same through the unary interface.
\<close>

fun zn_strict_run :: "'d list \<Rightarrow> 'd z1_nested \<Rightarrow> ('d list \<times> 'd z1_nested) res" where
  "zn_strict_run [] z = Inr ([], z)"
| "zn_strict_run (x # xs) z =
     res_bind (zn_get_output z) (\<lambda>(d, z).
     res_bind (zn_eval_strict x z) (\<lambda>(_, z). res_map (\<lambda>(ds, z). (d # ds, z)) (zn_strict_run xs z)))"

fun zn_unary_run :: "'d list \<Rightarrow> 'd z1_nested \<Rightarrow> ('d list \<times> 'd z1_nested) res" where
  "zn_unary_run [] z = Inr ([], z)"
| "zn_unary_run (x # xs) z =
     res_bind (zn_eval x z) (\<lambda>(d, z). res_map (\<lambda>(ds, z). (d # ds, z)) (zn_unary_run xs z))"

fun zn_epochs ::
  "('d list \<Rightarrow> 'd z1_nested \<Rightarrow> ('d list \<times> 'd z1_nested) res) \<Rightarrow> 'd list list \<Rightarrow> 'd z1_nested \<Rightarrow> 'd list list res" where
  "zn_epochs run [] z = Inr []"
| "zn_epochs run (xs # xss) z =
     res_bind (run xs (zn_clock_start 0 z)) (\<lambda>(ds, z).
       res_map (\<lambda>dss. ds # dss) (zn_epochs run xss (zn_clock_end 0 z)))"

text \<open>The specification: replay the previous epoch, and its last value when it was shorter.\<close>

definition replayed :: "'d \<Rightarrow> 'd list \<Rightarrow> nat \<Rightarrow> 'd" where
  "replayed zero prev t = (if t < length prev then prev ! t else if prev = [] then zero else last prev)"

fun replay :: "'d \<Rightarrow> 'd list \<Rightarrow> 'd list list \<Rightarrow> 'd list list" where
  "replay zero prev [] = []"
| "replay zero prev (xs # xss) = map (replayed zero prev) [0..<length xs] # replay zero xs xss"

text \<open>In the middle of an epoch: the inputs of the epoch so far, and what is left to replay.\<close>

definition zn_rest :: "'d list \<Rightarrow> nat \<Rightarrow> 'd list" where
  "zn_rest prev t = (if prev = [] then [] else if t < length prev then drop t prev else [last prev])"

definition zn_at :: "'d \<Rightarrow> 'd list \<Rightarrow> 'd list \<Rightarrow> 'd z1_nested \<Rightarrow> bool" where
  "zn_at zero prev ys z \<longleftrightarrow>
     zn_zero z = zero \<and> zn_timestamp z = length ys \<and> zn_values z = ys @ zn_rest prev (length ys)"

lemma zn_extend_at:
  assumes "zn_at zero prev ys z"
  shows "zn_values (zn_extend z) = ys @ replayed zero prev (length ys) # zn_rest prev (Suc (length ys))"
    "zn_zero (zn_extend z) = zero" "zn_timestamp (zn_extend z) = length ys" "length ys \<le> length (zn_values z)"
proof -
  let ?t = "length ys"
  have z: "zn_zero z = zero" "zn_timestamp z = ?t" "zn_values z = ys @ zn_rest prev ?t" using assms by (simp_all add: zn_at_def)
  show "zn_zero (zn_extend z) = zero" "zn_timestamp (zn_extend z) = ?t" "?t \<le> length (zn_values z)"
    using z by (simp_all add: zn_extend_def)
  consider "prev = []" | "prev \<noteq> []" "Suc ?t < length prev" | "prev \<noteq> []" "Suc ?t = length prev"
    | "prev \<noteq> []" "length prev \<le> ?t" by linarith
  then show "zn_values (zn_extend z) = ys @ replayed zero prev ?t # zn_rest prev (Suc ?t)"
  proof cases
    case 3
    then have "drop ?t prev = [last prev]" "prev ! ?t = last prev"
      by (metis append_butlast_last_id append_eq_conv_conj diff_Suc_1 length_butlast, metis diff_Suc_1 last_conv_nth)
    then show ?thesis using 3 z by (simp add: zn_extend_def zn_rest_def replayed_def)
  qed (use z in \<open>auto simp: zn_extend_def zn_rest_def replayed_def Cons_nth_drop_Suc\<close>)
qed

lemma zn_step_at:
  assumes "zn_at zero prev ys z"
  shows "\<exists>z' z''. zn_get_output z = Inr (replayed zero prev (length ys), z') \<and> zn_eval_strict x z' = Inr ((), z'') \<and>
      zn_at zero prev (ys @ [x]) z''"
    "\<exists>z'. zn_eval x z = Inr (replayed zero prev (length ys), z') \<and> zn_at zero prev (ys @ [x]) z'"
  using zn_extend_at [OF assms] assms
  by (simp_all add: zn_get_output_def zn_eval_strict_def zn_eval_def zn_at_def Let_def list_update_append nth_append)

lemma zn_run_at:
  assumes "zn_at zero prev ys z"
  shows "\<exists>z'. zn_strict_run xs z = Inr (map (replayed zero prev) [length ys..<length ys + length xs], z') \<and>
      zn_at zero prev (ys @ xs) z'"
    "\<exists>z'. zn_unary_run xs z = Inr (map (replayed zero prev) [length ys..<length ys + length xs], z') \<and>
      zn_at zero prev (ys @ xs) z'"
proof -
  show "\<exists>z'. zn_strict_run xs z = Inr (map (replayed zero prev) [length ys..<length ys + length xs], z') \<and>
      zn_at zero prev (ys @ xs) z'"
    using assms
  proof (induction xs arbitrary: ys z)
    case (Cons x xs)
    obtain z' z'' where "zn_get_output z = Inr (replayed zero prev (length ys), z')" "zn_eval_strict x z' = Inr ((), z'')"
        "zn_at zero prev (ys @ [x]) z''"
      using zn_step_at(1) [OF Cons.prems] by blast
    then show ?case using Cons.IH [of "ys @ [x]" z''] by (auto simp: upt_conv_Cons simp del: upt_Suc)
  qed simp
  show "\<exists>z'. zn_unary_run xs z = Inr (map (replayed zero prev) [length ys..<length ys + length xs], z') \<and>
      zn_at zero prev (ys @ xs) z'"
    using assms
  proof (induction xs arbitrary: ys z)
    case (Cons x xs)
    obtain z' where "zn_eval x z = Inr (replayed zero prev (length ys), z')" "zn_at zero prev (ys @ [x]) z'"
      using zn_step_at(2) [OF Cons.prems] by blast
    then show ?case using Cons.IH [of "ys @ [x]" z'] by (auto simp: upt_conv_Cons simp del: upt_Suc)
  qed simp
qed

lemma zn_start_at:
  "zn_at zero prev ys z \<Longrightarrow> zn_at zero ys [] (zn_clock_start 0 (zn_clock_end 0 z))"
  by (auto simp: zn_at_def zn_clock_start_def zn_clock_end_def zn_rest_def)

lemma zn_epochs_at:
  "zn_at zero prev ys z \<Longrightarrow> zn_epochs zn_strict_run xss (zn_clock_end 0 z) = Inr (replay zero ys xss)"
  "zn_at zero prev ys z \<Longrightarrow> zn_epochs zn_unary_run xss (zn_clock_end 0 z) = Inr (replay zero ys xss)"
proof -
  show "zn_at zero prev ys z \<Longrightarrow> zn_epochs zn_strict_run xss (zn_clock_end 0 z) = Inr (replay zero ys xss)"
  proof (induction xss arbitrary: prev ys z)
    case (Cons xs xss)
    obtain z' where "zn_strict_run xs (zn_clock_start 0 (zn_clock_end 0 z)) = Inr (map (replayed zero ys) [0..<length xs], z')"
        "zn_at zero ys xs z'"
      using zn_run_at(1) [OF zn_start_at [OF Cons.prems], of xs] by auto
    then show ?case using Cons.IH [of ys xs z'] by simp
  qed simp
  show "zn_at zero prev ys z \<Longrightarrow> zn_epochs zn_unary_run xss (zn_clock_end 0 z) = Inr (replay zero ys xss)"
  proof (induction xss arbitrary: prev ys z)
    case (Cons xs xss)
    obtain z' where "zn_unary_run xs (zn_clock_start 0 (zn_clock_end 0 z)) = Inr (map (replayed zero ys) [0..<length xs], z')"
        "zn_at zero ys xs z'"
      using zn_run_at(2) [OF zn_start_at [OF Cons.prems], of xs] by auto
    then show ?case using Cons.IH [of ys xs z'] by simp
  qed simp
qed

text \<open>C21. Over any sequence of epochs of any lengths the nested delay violates no assertion and replays in every epoch the
  inputs of the previous one, followed by repetitions of its last input; the first epoch, and one after
  an epoch without clock cycles, yields zeros.  Both of its interfaces behave alike.\<close>

theorem nested_delay_replays:
  "zn_epochs zn_strict_run xss (zn_new zero) = Inr (replay zero [] xss) \<and>
   zn_epochs zn_unary_run xss (zn_new zero) = Inr (replay zero [] xss)"
proof -
  have "zn_at zero [] [] (zn_new zero)" by (simp add: zn_at_def zn_new_def zn_rest_def)
  from zn_epochs_at [OF this, of xss] show ?thesis by (simp add: zn_clock_end_def)
qed

section \<open>A delay outside of a feedback\<close>

datatype 'd z1_call =
    Z1Eval 'd
  | Z1ClockEnd scope

fun z1_do :: "'d z1_call \<Rightarrow> 'd z1 \<Rightarrow> 'd z1" where
  "z1_do (Z1Eval i) z = snd (z1_eval i z)"
| "z1_do (Z1ClockEnd scope) z = z1_clock_end scope z"

text \<open>C34. A delay that is not part of a feedback never reports a fixed point to its own circuit, whatever it has seen,
  even when its input and output are empty forever: a nested circuit that contains one does not terminate.\<close>

theorem unary_delay_never_fixed:
  "op_fixedpoint (z1_unary ne) 0 (Z1State (fold z1_do calls (z1_new zero))) = Inr False"
proof -
  have "\<not> z1_empty_output z \<Longrightarrow> \<not> z1_empty_output (fold z1_do calls z)" for z
  proof (induction calls arbitrary: z)
    case (Cons call calls)
    have "\<not> z1_empty_output (z1_do call z)"
      using Cons.prems by (cases call) (simp_all add: z1_eval_def z1_clock_end_def)
    then show ?case using Cons.IH by simp
  qed simp
  then have "\<not> z1_empty_output (fold z1_do calls (z1_new zero))" by (simp add: z1_new_def)
  then show ?thesis
    by (simp add: z1_unary_def z1_operator_def default_operator_def operator.defs unary_operator.defs z1_fixedpoint_def)
qed

section \<open>The delay cached by a fold\<close>

lemma stream_fold_ok:
  assumes b: "sound ne b" and st: "stream_of (bu_circuit b) st"
  shows "\<exists>acc prev b1 g g2 a2 al export. stream_fold ne init f location st b = Inr (acc, b1) \<and>
    circuit_ok (bu_circuit b1) (bu_store b1) \<and>
    map_of (ci_cache (bu_circuit b1)) (DelayedId (st_origin_node_id acc)) = Some prev \<and>
    length (ci_nodes (bu_circuit b)) + 1 < length (ci_nodes (bu_circuit b1)) \<and>
    ci_nodes (bu_circuit b1) ! length (ci_nodes (bu_circuit b)) =
      FeedbackOutputNode g (z1_strict ne) (length (so_operators (bu_store b))) prev export \<and>
    ci_nodes (bu_circuit b1) ! (length (ci_nodes (bu_circuit b)) + 1) =
      BinaryNode g2 (apply2_owned_operator f location) a2 prev st acc al \<and>
    so_operators (bu_store b1) ! length (so_operators (bu_store b)) = Z1State (z1_new init)"
proof -
  let ?n = "length (ci_nodes (bu_circuit b))" let ?a = "length (so_operators (bu_store b))"
  let ?fc = "\<lparr>fc_output_node_id = ?n, fc_methods = z1_strict ne, fc_operator = ?a\<rparr>"
  let ?fb = "FeedbackOutputNode (builder_gid b ?n) (z1_strict ne) ?a"
  obtain prev export b1 where b1: "add_feedback_with_export (z1_strict ne) (Z1State (z1_new init)) b =
        Inr (((prev, export), ?fc), b1)" "so_operators (bu_store b1) = so_operators (bu_store b) @ [Z1State (z1_new init)]"
      "adds_node b (?fb prev export) b1"
    using feedback_output_ok [OF soundD(1) [OF b], of "z1_strict ne" "Z1State (z1_new init)"] by blast
  note N = new_node [OF b1(3) _ b, unfolded node_address_def, simplified]
  have p1: "stream_of (bu_circuit b1) prev" by (rule stream_of_last [OF N(4)]) simp
  let ?op = "apply2_owned_operator f location"
  let ?nd = "\<lambda>out. binary_node_new ?op prev st (builder_gid b1 (length (ci_nodes (bu_circuit b1))))
    (length (so_operators (bu_store b1))) out"
  obtain acc b2 where b2: "add_binary_operator_with_preference ?op Stateless (prev, STRONGLY_PREFER_OWNED)
        (st, INDIFFERENT) b1 = Inr (acc, b2)"
      "so_operators (bu_store b2) = so_operators (bu_store b1) @ [Stateless]" "adds_node b1 (?nd acc) b2"
    using add_binary_ok [OF N(6) p1 keeps_stream_of [OF N(1) st], of ?op Stateless] by blast
  note M = new_node [OF b2(3) _ N(2), unfolded node_address_def binary_node_new_def, simplified]
  have acc: "stream_of (bu_circuit b2) acc" by (rule stream_of_last [OF M(4)]) simp
  have "users (bu_circuit b2) ?a = {?n}"
    using users_append [OF M(4), of ?a] N(5) b1(2) by (simp add: node_address_def)
  then have u: "j < length (ci_nodes (bu_circuit b2)) \<Longrightarrow> node_address (ci_nodes (bu_circuit b2) ! j) = ?a \<longleftrightarrow> j = ?n" for j
    by (auto simp: users_def)
  have fc: "connector_of (bu_circuit b2) ?fc"
    unfolding connector_of_def using u M(4) N(4) by (auto simp: nth_append)
  obtain b3 where b3: "connect_with_preference ?fc acc STRONGLY_PREFER_OWNED b2 = Inr b3"
      "so_operators (bu_store b3) = so_operators (bu_store b2)"
      "adds_node b2 (FeedbackInputNode (builder_gid b2 (length (ci_nodes (bu_circuit b2)))) (z1_strict ne) ?a acc) b3"
    using connect_with_preference_ok [OF M(6) acc fc, of STRONGLY_PREFER_OWNED] by auto
  let ?b4 = "cache_insert (DelayedId (st_origin_node_id acc)) prev b3"
  have n3: "ci_nodes (bu_circuit ?b4) = ci_nodes (bu_circuit b) @ [?fb prev export, ?nd acc,
      FeedbackInputNode (builder_gid b2 (length (ci_nodes (bu_circuit b2)))) (z1_strict ne) ?a acc]"
    using b3(3) M(4) N(4) by (simp add: adds_node_def cache_insert_def binary_node_new_def)
  have "stream_fold ne init f location st b = Inr (acc, ?b4)"
    using b1(1) b2(1) b3(1) by (simp add: stream_fold_def add_feedback_def stream_apply2_owned_def)
  moreover have "circuit_ok (bu_circuit ?b4) (bu_store ?b4)" using b3(3) by (simp add: adds_node_def)
  moreover have "so_operators (bu_store ?b4) ! ?a = Z1State (z1_new init)"
    using b1(2) b2(2) b3(2) by (simp add: nth_append)
  ultimately show ?thesis using n3
    by (intro exI [of _ acc] exI [of _ prev] exI [of _ ?b4]) (auto simp: nth_append binary_node_new_def)
qed

text \<open>C33. The delay of an accumulator that a fold has built is the cached feedback stream, which in the first clock cycle
  carries the initial value of the fold instead of zero.\<close>

theorem fold_delay_starts_at_init:
  assumes "programmed ne b" "stream_of (bu_circuit b) st"
  shows "\<exists>acc prev b1 so. stream_fold ne init f location st b = Inr (acc, b1) \<and> delay ne acc b1 = Inr (prev, b1) \<and>
    circuit_eval_node (bu_circuit b1) (st_local_node_id prev) (bu_store b1) = Inr so \<and>
    sv_val (stream_cell prev so) = Some init"
proof -
  let ?n = "length (ci_nodes (bu_circuit b))" let ?a = "length (so_operators (bu_store b))"
  obtain acc prev b1 g g2 a2 al export where fold: "stream_fold ne init f location st b = Inr (acc, b1)"
    and ok: "circuit_ok (bu_circuit b1) (bu_store b1)"
    and cached: "map_of (ci_cache (bu_circuit b1)) (DelayedId (st_origin_node_id acc)) = Some prev"
    and n: "?n + 1 < length (ci_nodes (bu_circuit b1))"
      "ci_nodes (bu_circuit b1) ! ?n = FeedbackOutputNode g (z1_strict ne) ?a prev export"
      "ci_nodes (bu_circuit b1) ! (?n + 1) = BinaryNode g2 (apply2_owned_operator f location) a2 prev st acc al"
      "so_operators (bu_store b1) ! ?a = Z1State (z1_new init)"
    using stream_fold_ok [OF programmed_sound [OF assms(1)] assms(2)] by blast
  have nn: "?n < length (ci_nodes (bu_circuit b1))" using n(1) by simp
  have out: "st_local_node_id prev = ?n" "st_val prev < length (so_streams (bu_store b1))"
      "sv_consumers (so_streams (bu_store b1) ! st_val prev) = readers (ci_nodes (bu_circuit b1)) (st_val prev)"
    using ok nn n(2) unfolding circuit_ok_def outputs_ok_def by auto
  have "0 < node_reads (ci_nodes (bu_circuit b1) ! (?n + 1)) (st_val prev)" using n(3) by (simp add: node_reads_def)
  then have "0 < readers (ci_nodes (bu_circuit b1)) (st_val prev)"
    using member_le_sum_list [of "node_reads (ci_nodes (bu_circuit b1) ! (?n + 1)) (st_val prev)"
        "map (\<lambda>nd. node_reads nd (st_val prev)) (ci_nodes (bu_circuit b1))"] n(1)
    by (fastforce simp: readers_def)
  then have "0 < sv_consumers (so_streams (bu_store b1) ! st_val prev)" using out(3) by simp
  moreover have "delay ne acc b1 = Inr (prev, b1)"
    using cached by (simp add: delay_def cache_get_or_insert_with_def cache_get_def)
  ultimately show ?thesis
    using fold n(2,4) nn out(1,2)
    by (auto simp: circuit_eval_node_def put_result_def call_operator_def z1_get_output_def z1_new_def
      stream_put_def stream_cell_def set_cell_def sv_put_def)
qed

theorem fold_delay_starts_at_init_witness:
  "\<exists>acc prev b so. stream_fold int_entries 10 (\<lambda>x y. Inr (x + y)) None counted counting = Inr (acc, b) \<and>
    delay int_entries acc b = Inr (prev, b) \<and>
    circuit_eval_node (bu_circuit b) (st_local_node_id prev) (bu_store b) = Inr so \<and>
    sv_val (stream_cell prev so) = Some 10"
  by (rule fold_delay_starts_at_init [OF counting_facts(3,4)])

end
