(* ===== verification/ZSets.thy ===== *)
theory ZSets
  imports Prelude
begin

text \<open>
  The abstract specification of the storage layer: a Z-set is a function from items to weights
  in a commutative monoid. A list of \<open>(item, weight)\<close> updates denotes the Z-set \<open>weight_of\<close>,
  and a list is \<open>consolidated\<close> when its items are strictly increasing and no weight is zero.
  Every consolidated list is the only one for its Z-set (\<open>consolidated_unique\<close>), so routines
  that consolidate in different ways compute the same list.
\<close>

type_synonym ('k, 'r) updates = "('k \<times> 'r) list"
type_synonym ('k, 'r) zset = "'k \<Rightarrow> 'r"

fun weight_of :: "('k, 'r::comm_monoid_add) updates \<Rightarrow> ('k, 'r) zset" where
  "weight_of [] k = 0"
| "weight_of ((k', r) # xs) k = (if k' = k then r + weight_of xs k else weight_of xs k)"

definition consolidated :: "('k::linorder, 'r::comm_monoid_add) updates \<Rightarrow> bool" where
  "consolidated xs \<longleftrightarrow> sorted_wrt (<) (map fst xs) \<and> (\<forall>x \<in> set xs. snd x \<noteq> 0)"

definition nonzero :: "('k \<times> 'r::zero) \<Rightarrow> bool" where
  "nonzero x \<longleftrightarrow> snd x \<noteq> 0"

definition zset_plus :: "('k, 'r::comm_monoid_add) zset \<Rightarrow> ('k, 'r) zset \<Rightarrow> ('k, 'r) zset" where
  "zset_plus f g = (\<lambda>k. f k + g k)"

definition zset_support :: "('k, 'r::zero) zset \<Rightarrow> 'k set" where
  "zset_support f = {k. f k \<noteq> 0}"

section \<open>Weights of lists\<close>

lemma weight_of_append [simp]: "weight_of (xs @ ys) k = weight_of xs k + weight_of ys k"
  by (induction xs) (auto simp: add.assoc)

lemma weight_of_notin: "k \<notin> fst ` set xs \<Longrightarrow> weight_of xs k = 0"
  by (induction xs) auto

lemma weight_of_mset: "mset xs = mset ys \<Longrightarrow> weight_of xs = weight_of ys"
proof (induction xs arbitrary: ys)
  case (Cons x xs)
  then have "x \<in> set ys" by (metis list.set_intros(1) mset_eq_setD)
  then obtain us vs where ys: "ys = us @ x # vs" by (meson split_list)
  with Cons.prems have "mset xs = mset (us @ vs)" by simp
  then have eq: "weight_of xs = weight_of (us @ vs)" by (rule Cons.IH)
  show ?case
  proof
    fix k
    show "weight_of (x # xs) k = weight_of ys k"
      by (cases x) (simp add: eq ys ac_simps)
  qed
qed simp

lemma weight_of_filter_nonzero [simp]: "weight_of (filter nonzero xs) = weight_of xs"
proof
  fix k
  show "weight_of (filter nonzero xs) k = weight_of xs k"
    by (induction xs) (auto simp: nonzero_def)
qed

lemma weight_of_filter_key: "weight_of (filter (\<lambda>x. P (fst x)) xs) k = (if P k then weight_of xs k else 0)"
  by (induction xs) auto

lemma weight_of_concat: "weight_of (concat xss) k = (\<Sum>xs\<leftarrow>xss. weight_of xs k)"
  by (induction xss) auto

section \<open>Consolidated lists\<close>

lemma consolidated_Nil [simp]: "consolidated []"
  by (simp add: consolidated_def)

lemma consolidated_Cons:
  "consolidated ((k, r) # xs) \<longleftrightarrow> r \<noteq> 0 \<and> (\<forall>x \<in> set xs. k < fst x) \<and> consolidated xs"
  by (auto simp: consolidated_def)

lemma consolidated_append:
  "consolidated (xs @ ys) \<longleftrightarrow>
     consolidated xs \<and> consolidated ys \<and> (\<forall>x \<in> set xs. \<forall>y \<in> set ys. fst x < fst y)"
  by (auto simp: consolidated_def sorted_wrt_append)

lemma consolidated_distinct: "consolidated xs \<Longrightarrow> distinct (map fst xs)"
  by (simp add: consolidated_def strict_sorted_iff)

lemma weight_of_member:
  "distinct (map fst xs) \<Longrightarrow> (k, r) \<in> set xs \<Longrightarrow> weight_of xs k = r"
proof (induction xs)
  case (Cons x xs)
  show ?case
  proof (cases "x = (k, r)")
    case True
    then have "weight_of xs k = 0" using Cons.prems by (auto intro: weight_of_notin)
    then show ?thesis using True by simp
  next
    case False
    then have mem: "(k, r) \<in> set xs" using Cons.prems by simp
    then have "k \<in> fst ` set xs" by force
    then have "fst x \<noteq> k" using Cons.prems by auto
    then show ?thesis using Cons.IH [OF _ mem] Cons.prems(1) by (cases x) simp
  qed
qed simp

lemma distinct_weight_map:
  "distinct (map fst xs) \<Longrightarrow> map (\<lambda>k. (k, weight_of xs k)) (map fst xs) = xs"
  by (auto simp: comp_def intro!: map_idI weight_of_member)

lemma consolidated_support:
  assumes "consolidated xs"
  shows "zset_support (weight_of xs) = fst ` set xs"
proof -
  have "weight_of xs k \<noteq> 0" if "(k, r) \<in> set xs" for k r
    using assms that weight_of_member [OF consolidated_distinct [OF assms] that]
    by (auto simp: consolidated_def)
  then show ?thesis using weight_of_notin by (fastforce simp: zset_support_def)
qed

lemma consolidated_unique:
  assumes "consolidated xs" and "consolidated ys" and "weight_of xs = weight_of ys"
  shows "xs = ys"
proof -
  have keys: "set (map fst xs) = set (map fst ys)"
    using consolidated_support [OF assms(1)] consolidated_support [OF assms(2)] assms(3) by simp
  have "map fst xs = map fst ys"
  proof (rule strict_sorted_equal)
    show "sorted_wrt (<) (map fst xs)" "sorted_wrt (<) (map fst ys)"
      using assms(1,2) by (simp_all add: consolidated_def)
  qed (use keys in auto)
  then show ?thesis
    using distinct_weight_map [OF consolidated_distinct [OF assms(1)]]
      distinct_weight_map [OF consolidated_distinct [OF assms(2)]] assms(3)
    by simp
qed

lemma consolidated_filter: "consolidated xs \<Longrightarrow> consolidated (filter P xs)"
  by (induction xs) (auto simp: consolidated_Cons)

lemma sorted_filter_nonzero:
  "sorted_wrt (<) (map fst xs) \<Longrightarrow> consolidated (filter nonzero xs)"
  by (induction xs) (auto simp: consolidated_def nonzero_def)

section \<open>Merging two consolidated lists\<close>

fun merge_updates ::
  "('k::linorder, 'r::comm_monoid_add) updates \<Rightarrow> ('k, 'r) updates \<Rightarrow> ('k, 'r) updates" where
  "merge_updates [] ys = ys"
| "merge_updates xs [] = xs"
| "merge_updates (x # xs) (y # ys) =
     (if fst x < fst y then x # merge_updates xs (y # ys)
      else if fst y < fst x then y # merge_updates (x # xs) ys
      else if snd x + snd y = 0 then merge_updates xs ys
      else (fst x, snd x + snd y) # merge_updates xs ys)"

lemma merge_updates_Nil2 [simp]: "merge_updates xs [] = xs"
  by (cases xs) simp_all

lemma weight_of_merge: "weight_of (merge_updates xs ys) k = weight_of xs k + weight_of ys k"
proof (induction xs ys rule: merge_updates.induct)
  case (3 x xs y ys)
  obtain a r b s where xy: "x = (a, r)" "y = (b, s)" by (cases x; cases y)
  consider "a < b" | "b < a" | "a = b" "r + s = 0" | "a = b" "r + s \<noteq> 0" by fastforce
  then show ?case
  proof cases
    case 1
    then show ?thesis using "3.IH"(1) by (simp add: xy ac_simps)
  next
    case 2
    then have "\<not> a < b" by simp
    then show ?thesis using 2 "3.IH"(2) by (simp add: xy ac_simps)
  next
    case eq: 3
    have "r + z + (s + z') = z + z'" for z z'
      using eq(2) by (metis add.assoc add.commute add.left_neutral)
    then show ?thesis using eq "3.IH"(3) by (simp add: xy)
  next
    case 4
    then show ?thesis using "3.IH"(4) by (simp add: xy ac_simps)
  qed
qed simp_all

lemma keys_merge_updates: "fst ` set (merge_updates xs ys) \<subseteq> fst ` set xs \<union> fst ` set ys"
proof (induction xs ys rule: merge_updates.induct)
  case (3 x xs y ys)
  consider "fst x < fst y" | "fst y < fst x" | "fst x = fst y" "snd x + snd y = 0"
    | "fst x = fst y" "snd x + snd y \<noteq> 0" by fastforce
  then show ?case
  proof cases
    case 1
    then show ?thesis using "3.IH"(1) by simp blast
  next
    case 2
    then have "\<not> fst x < fst y" by simp
    then show ?thesis using 2 "3.IH"(2) by simp blast
  next
    case eq: 3
    then show ?thesis using "3.IH"(3) by simp blast
  next
    case 4
    then show ?thesis using "3.IH"(4) by simp blast
  qed
qed simp_all

lemma consolidated_head:
  "consolidated (x # xs) \<longleftrightarrow> snd x \<noteq> 0 \<and> (\<forall>k \<in> fst ` set xs. fst x < k) \<and> consolidated xs"
  by (auto simp: consolidated_def)

lemma consolidated_merge:
  "consolidated xs \<Longrightarrow> consolidated ys \<Longrightarrow> consolidated (merge_updates xs ys)"
proof (induction xs ys rule: merge_updates.induct)
  case (3 x xs y ys)
  have x: "snd x \<noteq> 0" "\<And>k. k \<in> fst ` set xs \<Longrightarrow> fst x < k" "consolidated xs"
    and y: "snd y \<noteq> 0" "\<And>k. k \<in> fst ` set ys \<Longrightarrow> fst y < k" "consolidated ys"
    using "3.prems" unfolding consolidated_head by blast+
  consider "fst x < fst y" | "fst y < fst x" | "fst x = fst y" "snd x + snd y = 0"
    | "fst x = fst y" "snd x + snd y \<noteq> 0" by fastforce
  then show ?case
  proof cases
    case 1
    then have "fst x < k" if "k \<in> fst ` set (merge_updates xs (y # ys))" for k
      using subsetD [OF keys_merge_updates that] x(2) y(2) by fastforce
    then show ?thesis
      using "3.IH"(1) [OF 1 x(3) "3.prems"(2)] x(1) 1 by (simp add: consolidated_head)
  next
    case 2
    then have "fst y < k" if "k \<in> fst ` set (merge_updates (x # xs) ys)" for k
      using subsetD [OF keys_merge_updates that] x(2) y(2) by fastforce
    moreover have "\<not> fst x < fst y" using 2 by simp
    ultimately show ?thesis
      using "3.IH"(2) [OF _ 2 "3.prems"(1) y(3)] y(1) 2 by (simp add: consolidated_head)
  next
    case eq: 3
    then show ?thesis using "3.IH"(3) x(3) y(3) by simp
  next
    case 4
    then have "fst x < k" if "k \<in> fst ` set (merge_updates xs ys)" for k
      using subsetD [OF keys_merge_updates that] x(2) y(2) by fastforce
    then show ?thesis using "3.IH"(4) x(3) y(3) 4 by (simp add: consolidated_head)
  qed
qed simp_all

text \<open>A prefix of one list that lies below the other list is copied.\<close>

lemma merge_updates_copy_left:
  "(\<And>x. x \<in> set pre \<Longrightarrow> fst x < fst y) \<Longrightarrow>
     merge_updates (pre @ xs) (y # ys) = pre @ merge_updates xs (y # ys)"
  by (induction pre) auto

lemma merge_updates_copy_right:
  "(\<And>y. y \<in> set pre \<Longrightarrow> fst y < fst x) \<Longrightarrow>
     merge_updates (x # xs) (pre @ ys) = pre @ merge_updates (x # xs) ys"
proof (induction pre)
  case (Cons y pre)
  then have y: "fst y < fst x" by simp
  then have "\<not> fst x < fst y" by simp
  then show ?case using y Cons by simp
qed simp

lemma consolidated_sorted: "consolidated xs \<Longrightarrow> sorted (map fst xs)"
  by (simp add: consolidated_def strict_sorted_imp_sorted)

end
