(* ===== verification/Batch_Traits.thy ===== *)
theory Batch_Traits
  imports ZSets
begin

text \<open>
  The traits \<^verbatim>\<open>Builder\<close>, \<^verbatim>\<open>Merger\<close> and \<^verbatim>\<open>Batch\<close> of \<^verbatim>\<open>crates/dbsp/src/trace/mod.rs\<close>: a record of
  the methods an implementation provides for each of them, and the default methods, which call
  the provided ones. The locales are the contracts: a builder delivers the updates it was given in
  their order, and a merger that is left with fuel has merged its two sources.
\<close>

section \<open>Builder\<close>

record ('b, 'i, 't, 'r, 'o) builder_ops =
  bo_new_builder :: "'t \<Rightarrow> 'b"
  bo_with_capacity :: "'t \<Rightarrow> nat \<Rightarrow> 'b"
  bo_push :: "'b \<Rightarrow> 'i \<times> 'r \<Rightarrow> 'b res"
  bo_reserve :: "'b \<Rightarrow> nat \<Rightarrow> 'b res"
  bo_done :: "'b \<Rightarrow> 'o res"

fun bo_push_all ::
  "('b, 'i, 't, 'r, 'o, 'z) builder_ops_scheme \<Rightarrow> 'b \<Rightarrow> ('i \<times> 'r) list \<Rightarrow> 'b res" where
  "bo_push_all ops self [] = Inr self"
| "bo_push_all ops self (item # iter) =
     res_bind (bo_push ops self item) (\<lambda>self. bo_push_all ops self iter)"

definition bo_extend ::
  "('b, 'i, 't, 'r, 'o, 'z) builder_ops_scheme \<Rightarrow> 'b \<Rightarrow> ('i \<times> 'r) list \<Rightarrow> 'b res" where
  "bo_extend ops self iter =
     res_bind (bo_reserve ops self (length iter)) (\<lambda>self. bo_push_all ops self iter)"

definition batch_empty :: "('b, 'i, 't, 'r, 'o, 'z) builder_ops_scheme \<Rightarrow> 't \<Rightarrow> 'o res" where
  "batch_empty ops time = bo_done ops (bo_new_builder ops time)"

locale batch_builder =
  fixes ops :: "('b, 'i::linorder, 't, 'r::comm_monoid_add, 'o, 'z) builder_ops_scheme"
    and inv :: "'b \<Rightarrow> bool"
    and pushed :: "'b \<Rightarrow> ('i, 'r) updates"
    and contents :: "'o \<Rightarrow> ('i, 'r) updates"
    and wf :: "'o \<Rightarrow> bool"
  assumes new_builder: "inv (bo_new_builder ops t) \<and> pushed (bo_new_builder ops t) = []"
    and with_capacity: "inv (bo_with_capacity ops t n) \<and> pushed (bo_with_capacity ops t n) = []"
    and push: "inv b \<Longrightarrow> \<exists>b'. bo_push ops b x = Inr b' \<and> inv b' \<and> pushed b' = pushed b @ [x]"
    and reserve: "inv b \<Longrightarrow> \<exists>b'. bo_reserve ops b n = Inr b' \<and> inv b' \<and> pushed b' = pushed b"
    and finish: "inv b \<Longrightarrow> consolidated (pushed b) \<Longrightarrow>
      \<exists>out. bo_done ops b = Inr out \<and> wf out \<and> contents out = pushed b"
begin

lemma push_all: "inv b \<Longrightarrow> \<exists>b'. bo_push_all ops b xs = Inr b' \<and> inv b' \<and> pushed b' = pushed b @ xs"
proof (induction xs arbitrary: b)
  case (Cons x xs)
  obtain b' where b': "bo_push ops b x = Inr b'" "inv b'" "pushed b' = pushed b @ [x]"
    using push [OF Cons.prems] by blast
  show ?case using Cons.IH [OF b'(2)] b' by auto
qed simp

lemma extend: "inv b \<Longrightarrow> \<exists>b'. bo_extend ops b xs = Inr b' \<and> inv b' \<and> pushed b' = pushed b @ xs"
proof -
  assume "inv b"
  then obtain b' where "bo_reserve ops b (length xs) = Inr b'" "inv b'" "pushed b' = pushed b"
    using reserve by blast
  then show ?thesis using push_all [of b' xs] by (simp add: bo_extend_def)
qed

lemma empty: "\<exists>out. batch_empty ops t = Inr out \<and> wf out \<and> contents out = []"
  using finish [of "bo_new_builder ops t"] new_builder [of t] by (simp add: batch_empty_def)

end

section \<open>Merger\<close>

text \<open>The fuel is an \<^verbatim>\<open>isize\<close>; \<open>isize_max\<close> is its largest value.\<close>

definition isize_max :: int where
  "isize_max = 2 ^ 63 - 1"

record ('m, 'v, 'o) merger_ops =
  mo_new_merger :: "'o \<Rightarrow> 'o \<Rightarrow> 'm res"
  mo_work :: "'m \<Rightarrow> 'o \<Rightarrow> 'o \<Rightarrow> 'v option \<Rightarrow> int \<Rightarrow> ('m \<times> int) run"
  mo_done :: "'m \<Rightarrow> 'o res"

definition batch_merge :: "('m, 'v, 'o, 'z) merger_ops_scheme \<Rightarrow> 'o \<Rightarrow> 'o \<Rightarrow> 'o run" where
  "batch_merge ops self other =
     run_bind (lift_res (mo_new_merger ops self other)) (\<lambda>merger.
     run_bind (mo_work ops merger self other None isize_max) (\<lambda>(merger, fuel).
     lift_res (mo_done ops merger)))"

end
