(* ===== verification/Spine.thy ===== *)
theory Spine
  imports Prelude Antichains Timestamps Batch_Traits
begin

text \<open>
  The trace: \<^verbatim>\<open>crates/dbsp/src/trace/spine_fueled.rs\<close>, an append-only collection of batches that are
  merged progressively. The model is generic in the batch type, as the code is: \<open>batch_ops\<close> is the
  table of the methods of \<^verbatim>\<open>Batch\<close>, \<^verbatim>\<open>BatchReader\<close> and \<^verbatim>\<open>Merger\<close> that the spine calls.

  \<^verbatim>\<open>merging\<close> is a list of levels. The activator, when there is one, is the number of activations it
  received. The fuel is an \<^verbatim>\<open>isize\<close> held as an integer; shifts, sums and products are written
  out with their width and overflow behaviour.
\<close>

record ('b, 'm, 'k, 'v, 't) batch_ops =
  bt_len :: "'b \<Rightarrow> nat res"
  bt_key_count :: "'b \<Rightarrow> nat res"
  bt_lower :: "'b \<Rightarrow> 't antichain_ref"
  bt_upper :: "'b \<Rightarrow> 't antichain_ref"
  bt_truncate_keys_below :: "'b \<Rightarrow> 'k \<Rightarrow> 'b run"
  bt_recede_to :: "'b \<Rightarrow> 't \<Rightarrow> 'b run"
  bt_begin_merge :: "'b \<Rightarrow> 'b \<Rightarrow> 'm res"
  bt_work :: "'m \<Rightarrow> 'b \<Rightarrow> 'b \<Rightarrow> 'v option \<Rightarrow> int \<Rightarrow> ('m \<times> int) run"
  bt_done :: "'m \<Rightarrow> 'b res"

definition bt_is_empty :: "('b, 'm, 'k, 'v, 't) batch_ops \<Rightarrow> 'b \<Rightarrow> bool res" where
  "bt_is_empty bt b = res_map (\<lambda>n. n = 0) (bt_len bt b)"

section \<open>Levels\<close>

datatype ('b, 'm) merge_variant =
    InProgress 'b 'b 'm
  | Complete "'b option"

datatype ('b, 'm) merge_state =
    Vacant
  | Single "'b option"
  | Double "('b, 'm) merge_variant"

fun mv_work ::
  "('b, 'm, 'k, 'v, 't) batch_ops \<Rightarrow> ('b, 'm) merge_variant \<Rightarrow> 'v option \<Rightarrow> int \<Rightarrow>
   (('b, 'm) merge_variant \<times> int) run" where
  "mv_work bt (InProgress b1 b2 merge) lower_val_bound fuel =
     run_bind (bt_work bt merge b1 b2 lower_val_bound fuel) (\<lambda>(merge, fuel).
     if fuel > 0 then run_bind (lift_res (bt_done bt merge)) (\<lambda>b. ok (Complete (Some b), fuel))
     else ok (InProgress b1 b2 merge, fuel))"
| "mv_work bt (Complete b) lower_val_bound fuel = ok (Complete b, fuel)"

definition mv_complete ::
  "('b, 'm, 'k, 'v, 't) batch_ops \<Rightarrow> ('b, 'm) merge_variant \<Rightarrow> 'v option \<Rightarrow> 'b option run" where
  "mv_complete bt self lower_val_bound =
     run_bind (mv_work bt self lower_val_bound isize_max) (\<lambda>(variant, fuel).
     case variant of
       Complete batch \<Rightarrow> ok batch
     | InProgress _ _ _ \<Rightarrow> lift_res (Inl (Explicit ''Failed to complete a merge!'')))"

fun mg_len :: "('b, 'm, 'k, 'v, 't) batch_ops \<Rightarrow> ('b, 'm) merge_state \<Rightarrow> nat res" where
  "mg_len bt (Single (Some b)) = bt_len bt b"
| "mg_len bt (Double (InProgress b1 b2 _)) =
     res_bind (bt_len bt b1) (\<lambda>n1. res_bind (bt_len bt b2) (\<lambda>n2. usize_add n1 n2))"
| "mg_len bt (Double (Complete (Some b))) = bt_len bt b"
| "mg_len bt _ = Inr 0"

fun is_vacant :: "('b, 'm) merge_state \<Rightarrow> bool" where
  "is_vacant Vacant \<longleftrightarrow> True"
| "is_vacant _ \<longleftrightarrow> False"

fun is_single :: "('b, 'm) merge_state \<Rightarrow> bool" where
  "is_single (Single _) \<longleftrightarrow> True"
| "is_single _ \<longleftrightarrow> False"

fun is_double :: "('b, 'm) merge_state \<Rightarrow> bool" where
  "is_double (Double _) \<longleftrightarrow> True"
| "is_double _ \<longleftrightarrow> False"

fun is_complete :: "('b, 'm) merge_state \<Rightarrow> bool" where
  "is_complete (Double (Complete _)) \<longleftrightarrow> True"
| "is_complete _ \<longleftrightarrow> False"

fun is_inprogress :: "('b, 'm) merge_state \<Rightarrow> bool" where
  "is_inprogress (Double (InProgress _ _ _)) \<longleftrightarrow> True"
| "is_inprogress _ \<longleftrightarrow> False"

text \<open>The level itself becomes \<open>Vacant\<close>; see \<open>complete_at\<close>.\<close>

fun mg_complete ::
  "('b, 'm, 'k, 'v, 't) batch_ops \<Rightarrow> ('b, 'm) merge_state \<Rightarrow> 'v option \<Rightarrow> 'b option run" where
  "mg_complete bt Vacant lower_val_bound = ok None"
| "mg_complete bt (Single batch) lower_val_bound = ok batch"
| "mg_complete bt (Double variant) lower_val_bound = mv_complete bt variant lower_val_bound"

fun mg_work ::
  "('b, 'm, 'k, 'v, 't) batch_ops \<Rightarrow> ('b, 'm) merge_state \<Rightarrow> 'v option \<Rightarrow> int \<Rightarrow>
   ('b, 'm) merge_state run" where
  "mg_work bt (Double layer) lower_val_bound fuel =
     run_bind (mv_work bt layer lower_val_bound fuel) (\<lambda>(layer, fuel). ok (Double layer))"
| "mg_work bt Vacant lower_val_bound fuel = ok Vacant"
| "mg_work bt (Single b) lower_val_bound fuel = ok (Single b)"

fun mg_begin_merge ::
  "('b, 'm, 'k, 'v, 't) batch_ops \<Rightarrow> 'b option \<Rightarrow> 'b option \<Rightarrow> ('b, 'm) merge_state res" where
  "mg_begin_merge bt (Some batch1) (Some batch2) =
     res_map (\<lambda>begin_merge. Double (InProgress batch1 batch2 begin_merge)) (bt_begin_merge bt batch1 batch2)"
| "mg_begin_merge bt (Some batch) None = Inr (Double (Complete (Some batch)))"
| "mg_begin_merge bt None (Some batch) = Inr (Double (Complete (Some batch)))"
| "mg_begin_merge bt None None = Inr (Double (Complete None))"

section \<open>The spine\<close>

record ('b, 'm, 'k, 'v, 't) spine =
  merging :: "('b, 'm) merge_state list"
  sp_lower :: "'t antichain"
  sp_upper :: "'t antichain"
  sp_effort :: nat
  sp_activator :: "nat option"
  sp_dirty :: bool
  lower_key_bound :: "'k option"
  lower_val_bound :: "'v option"

definition with_effort :: "'t timestamp_ops \<Rightarrow> nat \<Rightarrow> nat option \<Rightarrow> ('b, 'm, 'k, 'v, 't) spine" where
  "with_effort ts effort activator =
     \<lparr>merging = [], sp_lower = antichain_from_elem (ts_minimum ts), sp_upper = antichain_new,
      sp_effort = (if effort = 0 then 1 else effort), sp_activator = activator, sp_dirty = False,
      lower_key_bound = None, lower_val_bound = None\<rparr>"

definition spine_new :: "'t timestamp_ops \<Rightarrow> nat option \<Rightarrow> ('b, 'm, 'k, 'v, 't) spine" where
  "spine_new ts activator = with_effort ts 1 activator"

definition activate :: "('b, 'm, 'k, 'v, 't) spine \<Rightarrow> ('b, 'm, 'k, 'v, 't) spine" where
  "activate self = self\<lparr>sp_activator := map_option Suc (sp_activator self)\<rparr>"

text \<open>The batches in the order of \<^verbatim>\<open>map_batches\<close>, \<^verbatim>\<open>fold_batches\<close> and \<^verbatim>\<open>cursor\<close>: from the top level down.\<close>

fun state_batches :: "('b, 'm) merge_state \<Rightarrow> 'b list" where
  "state_batches (Double (InProgress b1 b2 _)) = [b1, b2]"
| "state_batches (Double (Complete (Some b))) = [b]"
| "state_batches (Single (Some b)) = [b]"
| "state_batches _ = []"

fun fold_batches_loop :: "('acc \<Rightarrow> 'b \<Rightarrow> 'acc res) \<Rightarrow> 'acc \<Rightarrow> 'b list \<Rightarrow> 'acc res" where
  "fold_batches_loop f acc [] = Inr acc"
| "fold_batches_loop f acc (b # bs) = res_bind (f acc b) (\<lambda>acc. fold_batches_loop f acc bs)"

definition fold_batches ::
  "('b, 'm, 'k, 'v, 't) spine \<Rightarrow> 'acc \<Rightarrow> ('acc \<Rightarrow> 'b \<Rightarrow> 'acc res) \<Rightarrow> 'acc res" where
  "fold_batches self init f =
     fold_batches_loop f init (concat (map state_batches (rev (merging self))))"

definition spine_key_count :: "('b, 'm, 'k, 'v, 't) batch_ops \<Rightarrow> ('b, 'm, 'k, 'v, 't) spine \<Rightarrow> nat res" where
  "spine_key_count bt self = fold_batches self 0 (\<lambda>acc b. res_bind (bt_key_count bt b) (usize_add acc))"

definition spine_len :: "('b, 'm, 'k, 'v, 't) batch_ops \<Rightarrow> ('b, 'm, 'k, 'v, 't) spine \<Rightarrow> nat res" where
  "spine_len bt self = fold_batches self 0 (\<lambda>acc b. res_bind (bt_len bt b) (usize_add acc))"

definition spine_num_entries_shallow ::
  "('b, 'm, 'k, 'v, 't) batch_ops \<Rightarrow> ('b, 'm, 'k, 'v, 't) spine \<Rightarrow> nat res" where
  "spine_num_entries_shallow bt self =
     fold_batches self 0 (\<lambda>acc b. res_bind (bt_len bt b) (usize_add acc))"

text \<open>The cursors that \<^verbatim>\<open>cursor\<close> collects: those of the batches that are not empty.\<close>

definition spine_cursors ::
  "('b, 'm, 'k, 'v, 't) batch_ops \<Rightarrow> ('b \<Rightarrow> 'c res) \<Rightarrow> ('b, 'm, 'k, 'v, 't) spine \<Rightarrow> 'c list res" where
  "spine_cursors bt cursor self =
     fold_batches self [] (\<lambda>cursors b.
       res_bind (bt_is_empty bt b) (\<lambda>e.
       if \<not> e then res_map (\<lambda>c. cursors @ [c]) (cursor b) else Inr cursors))"

text \<open>\<^verbatim>\<open>map_batches\<close> calls a function on every batch; \<^verbatim>\<open>try_fold_batches\<close> stops at the first error.\<close>

definition map_batches :: "('b, 'm, 'k, 'v, 't) spine \<Rightarrow> ('b \<Rightarrow> 'a) \<Rightarrow> 'a list" where
  "map_batches self map_fn = map map_fn (concat (map state_batches (rev (merging self))))"

fun try_fold_loop :: "('acc \<Rightarrow> 'b \<Rightarrow> 'e + 'acc) \<Rightarrow> 'acc \<Rightarrow> 'b list \<Rightarrow> 'e + 'acc" where
  "try_fold_loop f acc [] = Inr acc"
| "try_fold_loop f acc (b # bs) = (case f acc b of Inl e \<Rightarrow> Inl e | Inr acc \<Rightarrow> try_fold_loop f acc bs)"

definition try_fold_batches ::
  "('b, 'm, 'k, 'v, 't) spine \<Rightarrow> 'acc \<Rightarrow> ('acc \<Rightarrow> 'b \<Rightarrow> 'e + 'acc) \<Rightarrow> 'e + 'acc" where
  "try_fold_batches self init f = try_fold_loop f init (concat (map state_batches (rev (merging self))))"

text \<open>The diagnostics.\<close>

fun describe_state :: "('b, 'm, 'k, 'v, 't) batch_ops \<Rightarrow> ('b, 'm) merge_state \<Rightarrow> (nat \<times> nat) res" where
  "describe_state bt Vacant = Inr (0, 0)"
| "describe_state bt (Single b) = res_map (\<lambda>n. (1, n)) (mg_len bt (Single b))"
| "describe_state bt (Double v) = res_map (\<lambda>n. (2, n)) (mg_len bt (Double v))"

fun describe_loop :: "('b, 'm, 'k, 'v, 't) batch_ops \<Rightarrow> ('b, 'm) merge_state list \<Rightarrow> (nat \<times> nat) list res" where
  "describe_loop bt [] = Inr []"
| "describe_loop bt (m # ms) =
     res_bind (describe_state bt m) (\<lambda>d. res_map (\<lambda>ds. d # ds) (describe_loop bt ms))"

definition describe :: "('b, 'm, 'k, 'v, 't) batch_ops \<Rightarrow> ('b, 'm, 'k, 'v, 't) spine \<Rightarrow> (nat \<times> nat) list res" where
  "describe bt self = describe_loop bt (merging self)"

fun reduced_loop ::
  "('b, 'm, 'k, 'v, 't) batch_ops \<Rightarrow> nat \<Rightarrow> ('b, 'm) merge_state list \<Rightarrow> bool res" where
  "reduced_loop bt non_empty [] = Inr True"
| "reduced_loop bt non_empty (m # ms) =
     (if is_double m then Inr False
      else
        res_bind (mg_len bt m) (\<lambda>n.
        let non_empty = (if n > 0 then non_empty + 1 else non_empty)
        in if non_empty > 1 then Inr False else reduced_loop bt non_empty ms))"

definition reduced :: "('b, 'm, 'k, 'v, 't) batch_ops \<Rightarrow> ('b, 'm, 'k, 'v, 't) spine \<Rightarrow> bool res" where
  "reduced bt self = reduced_loop bt 0 (merging self)"

definition pad_levels :: "nat \<Rightarrow> ('b, 'm) merge_state list \<Rightarrow> ('b, 'm) merge_state list" where
  "pad_levels index ms = ms @ replicate (index + 1 - length ms) Vacant"

definition insert_at ::
  "('b, 'm, 'k, 'v, 't) batch_ops \<Rightarrow> 'b option \<Rightarrow> nat \<Rightarrow> ('b, 'm) merge_state list \<Rightarrow>
   ('b, 'm) merge_state list run" where
  "insert_at bt batch index ms =
     (let ms = pad_levels index ms
      in case ms ! index of
           Vacant \<Rightarrow> ok (ms[index := Single batch])
         | Single old \<Rightarrow>
             run_bind (lift_res (mg_begin_merge bt old batch)) (\<lambda>state. ok (ms[index := state]))
         | Double _ \<Rightarrow> lift_res (Inl (Explicit ''Attempted to insert batch into incomplete merge!'')))"

definition complete_at ::
  "('b, 'm, 'k, 'v, 't) batch_ops \<Rightarrow> 'v option \<Rightarrow> nat \<Rightarrow> ('b, 'm) merge_state list \<Rightarrow>
   ('b option \<times> ('b, 'm) merge_state list) run" where
  "complete_at bt lvb index ms =
     (if index < length ms then
        run_bind (mg_complete bt (ms ! index) lvb) (\<lambda>b. ok (b, ms[index := Vacant]))
      else lift_res (Inl IndexOutOfBounds))"

text \<open>The loop runs over the levels that are there at the start.\<close>

fun apply_fuel_loop ::
  "('b, 'm, 'k, 'v, 't) batch_ops \<Rightarrow> 'v option \<Rightarrow> int \<Rightarrow> nat list \<Rightarrow> ('b, 'm) merge_state list \<Rightarrow>
   ('b, 'm) merge_state list run" where
  "apply_fuel_loop bt lvb fuel [] ms = ok ms"
| "apply_fuel_loop bt lvb fuel (index # indices) ms =
     run_bind (mg_work bt (ms ! index) lvb fuel) (\<lambda>state.
     let ms = ms[index := state]
     in run_bind
          (if is_complete (ms ! index) then
             run_bind (complete_at bt lvb index ms) (\<lambda>(complete, ms). insert_at bt complete (index + 1) ms)
           else ok ms)
          (\<lambda>ms. apply_fuel_loop bt lvb fuel indices ms))"

definition apply_fuel ::
  "('b, 'm, 'k, 'v, 't) batch_ops \<Rightarrow> int \<Rightarrow> ('b, 'm, 'k, 'v, 't) spine \<Rightarrow> ('b, 'm, 'k, 'v, 't) spine run" where
  "apply_fuel bt fuel self =
     run_bind (apply_fuel_loop bt (lower_val_bound self) fuel [0..<length (merging self)] (merging self))
       (\<lambda>ms. ok (self\<lparr>merging := ms\<rparr>))"

fun roll_up_loop ::
  "('b, 'm, 'k, 'v, 't) batch_ops \<Rightarrow> 'v option \<Rightarrow> nat list \<Rightarrow> 'b option \<Rightarrow> ('b, 'm) merge_state list \<Rightarrow>
   ('b option \<times> ('b, 'm) merge_state list) run" where
  "roll_up_loop bt lvb [] merged ms = ok (merged, ms)"
| "roll_up_loop bt lvb (i # indices) merged ms =
     run_bind (insert_at bt merged i ms) (\<lambda>ms.
     run_bind (complete_at bt lvb i ms) (\<lambda>(merged, ms).
     roll_up_loop bt lvb indices merged ms))"

definition roll_up ::
  "('b, 'm, 'k, 'v, 't) batch_ops \<Rightarrow> nat \<Rightarrow> ('b, 'm, 'k, 'v, 't) spine \<Rightarrow> ('b, 'm, 'k, 'v, 't) spine run" where
  "roll_up bt index self =
     (let lvb = lower_val_bound self; ms = pad_levels index (merging self)
      in if list_ex (\<lambda>m. \<not> is_vacant m) (take index ms) then
           run_bind (roll_up_loop bt lvb [0..<index] None ms) (\<lambda>(merged, ms).
           run_bind (insert_at bt merged index ms) (\<lambda>ms.
           run_bind
             (if is_double (ms ! index) then
                run_bind (complete_at bt lvb index ms) (\<lambda>(merged, ms). insert_at bt merged (index + 1) ms)
              else ok ms)
             (\<lambda>ms. ok (self\<lparr>merging := ms\<rparr>))))
         else ok (self\<lparr>merging := ms\<rparr>))"

section \<open>tidy\_layers\<close>

text \<open>
  No use of \<^verbatim>\<open>smaller\<close> fixes its integer type, so it is an \<^verbatim>\<open>i32\<close>, and so are the literals of the two
  shifts that are added to it and of the shift it is compared with.
\<close>

fun count_smaller :: "nat \<Rightarrow> int \<Rightarrow> ('b, 'm) merge_state list \<Rightarrow> int res" where
  "count_smaller index smaller [] = Inr smaller"
| "count_smaller index smaller (m # ms) =
     res_bind
       (case m of
          Vacant \<Rightarrow> Inr smaller
        | Single _ \<Rightarrow> res_bind (i32_shl 1 index) (i32_add smaller)
        | Double _ \<Rightarrow> res_bind (i32_shl 2 index) (i32_add smaller))
       (\<lambda>smaller. count_smaller (index + 1) smaller ms)"

definition remove_at :: "nat \<Rightarrow> 'a list \<Rightarrow> 'a list" where
  "remove_at i xs = take i xs @ drop (i + 1) xs"

lemma length_remove_at [simp]: "i < length xs \<Longrightarrow> length (remove_at i xs) = length xs - 1"
  by (simp add: remove_at_def)

function tidy_loop ::
  "('b, 'm, 'k, 'v, 't) batch_ops \<Rightarrow> nat \<Rightarrow> ('b, 'm) merge_state list \<Rightarrow> ('b, 'm) merge_state list run" where
  "tidy_loop bt appropriate_level ms =
     (let len = length ms
      in if appropriate_level < len - 1 then
           (case ms ! (len - 2) of
              Vacant \<Rightarrow> tidy_loop bt appropriate_level (remove_at (len - 2) ms)
            | Single None \<Rightarrow> tidy_loop bt appropriate_level (remove_at (len - 2) ms)
            | Single (Some batch) \<Rightarrow>
                run_bind (lift_res (count_smaller 0 0 (take (len - 2) ms))) (\<lambda>smaller.
                run_bind (lift_res (i32_shl 1 len)) (\<lambda>limit.
                if smaller \<le> limit div 8
                then insert_at bt (Some batch) (len - 2) (remove_at (len - 2) ms)
                else ok ms))
            | Double _ \<Rightarrow> ok ms)
         else ok ms)"
  by pat_completeness auto
termination
  by (relation "measure (\<lambda>(_, _, ms). length ms)") auto

declare tidy_loop.simps [simp del]

definition tidy_layers ::
  "('b, 'm, 'k, 'v, 't) batch_ops \<Rightarrow> ('b, 'm, 'k, 'v, 't) spine \<Rightarrow> ('b, 'm, 'k, 'v, 't) spine run" where
  "tidy_layers bt self =
     (let ms = merging self
      in if ms \<noteq> [] \<and> is_single (last ms) then
           run_bind (lift_res (res_bind (mg_len bt (last ms)) usize_next_power_of_two)) (\<lambda>p.
           run_bind (tidy_loop bt (trailing_zeros p) ms) (\<lambda>ms.
           ok (self\<lparr>merging := ms\<rparr>)))
         else ok self)"

section \<open>Introducing batches\<close>

definition introduce_batch ::
  "('b, 'm, 'k, 'v, 't) batch_ops \<Rightarrow> 'b option \<Rightarrow> nat \<Rightarrow> ('b, 'm, 'k, 'v, 't) spine \<Rightarrow>
   ('b, 'm, 'k, 'v, 't) spine run" where
  "introduce_batch bt batch batch_index self =
     run_bind (lift_res (usize_shl 8 batch_index)) (\<lambda>fuel.
     run_bind (lift_res (usize_mul fuel (sp_effort self))) (\<lambda>fuel.
     run_bind (apply_fuel bt (usize_as_isize fuel) self) (\<lambda>self.
     run_bind (roll_up bt batch_index self) (\<lambda>self.
     run_bind (insert_at bt batch batch_index (merging self)) (\<lambda>ms.
     tidy_layers bt (self\<lparr>merging := ms\<rparr>))))))"

definition spine_insert ::
  "('b, 'm, 'k, 'v, 't) batch_ops \<Rightarrow> 't timestamp_ops \<Rightarrow> 'b \<Rightarrow> ('b, 'm, 'k, 'v, 't) spine \<Rightarrow>
   ('b, 'm, 'k, 'v, 't) spine run" where
  "spine_insert bt ts batch self =
     (if antichain_ref_eq (bt_lower bt batch) (bt_upper bt batch) then lift_res (Inl AssertFailed)
      else
        run_bind (lift_res (bt_is_empty bt batch)) (\<lambda>e.
        if e then ok self
        else
          run_bind
            (case lower_key_bound self of
               Some bound \<Rightarrow> bt_truncate_keys_below bt batch bound
             | None \<Rightarrow> ok batch)
            (\<lambda>batch.
          let self = self\<lparr>sp_dirty := True,
            sp_lower := antichain_ref_meet (ts_less_equal ts) (antichain_as_ref (sp_lower self)) (bt_lower bt batch),
            sp_upper := antichain_ref_join (ts_less_equal ts) (ts_join ts)
              (antichain_as_ref (sp_upper self)) (bt_upper bt batch)\<rparr>
          in run_bind (lift_res (res_bind (bt_len bt batch) usize_next_power_of_two)) (\<lambda>index.
             run_bind (introduce_batch bt (Some batch) (trailing_zeros index) self) (\<lambda>self.
             run_bind (lift_res (reduced bt self)) (\<lambda>r.
             ok (if \<not> r then activate self else self)))))))"

definition exert ::
  "('b, 'm, 'k, 'v, 't) batch_ops \<Rightarrow> int \<Rightarrow> ('b, 'm, 'k, 'v, 't) spine \<Rightarrow> ('b, 'm, 'k, 'v, 't) spine run" where
  "exert bt effort self =
     run_bind (tidy_layers bt self) (\<lambda>self.
     run_bind (lift_res (reduced bt self)) (\<lambda>r.
     if \<not> r then
       run_bind
         (if list_ex is_double (merging self) then apply_fuel bt effort self
          else
            run_bind (lift_res (usize_next_power_of_two (isize_as_usize effort))) (\<lambda>p.
            introduce_batch bt None (trailing_zeros p) self))
         (\<lambda>self. ok (activate self))
     else ok self))"

partial_function (option) consolidate_loop ::
  "('b, 'm, 'k, 'v, 't) batch_ops \<Rightarrow> int \<Rightarrow> ('b, 'm, 'k, 'v, 't) spine \<Rightarrow> ('b, 'm, 'k, 'v, 't) spine run" where
  "consolidate_loop bt fuel self =
     run_bind (lift_res (reduced bt self)) (\<lambda>r.
     if \<not> r then run_bind (exert bt fuel self) (\<lambda>self. consolidate_loop bt fuel self) else ok self)"

fun find_single :: "('b, 'm, 'k, 'v, 't) batch_ops \<Rightarrow> ('b, 'm) merge_state list \<Rightarrow> 'b option res" where
  "find_single bt [] = Inr None"
| "find_single bt (Single (Some batch) # ms) =
     res_bind (bt_is_empty bt batch) (\<lambda>e. if \<not> e then Inr (Some batch) else find_single bt ms)"
| "find_single bt (m # ms) = find_single bt ms"

definition spine_consolidate ::
  "('b, 'm, 'k, 'v, 't) batch_ops \<Rightarrow> ('b, 'm, 'k, 'v, 't) spine \<Rightarrow> 'b option run" where
  "spine_consolidate bt self =
     run_bind (consolidate_loop bt isize_max self) (\<lambda>self. lift_res (find_single bt (merging self)))"

section \<open>Truncation and times\<close>

fun complete_merges_loop ::
  "('b, 'm, 'k, 'v, 't) batch_ops \<Rightarrow> 'v option \<Rightarrow> ('b, 'm) merge_state list \<Rightarrow> ('b, 'm) merge_state list run"
where
  "complete_merges_loop bt lvb [] = ok []"
| "complete_merges_loop bt lvb (m # ms) =
     run_bind (if is_inprogress m then mg_work bt m lvb isize_max else ok m) (\<lambda>m.
     run_bind (complete_merges_loop bt lvb ms) (\<lambda>ms. ok (m # ms)))"

definition complete_merges ::
  "('b, 'm, 'k, 'v, 't) batch_ops \<Rightarrow> ('b, 'm, 'k, 'v, 't) spine \<Rightarrow> ('b, 'm, 'k, 'v, 't) spine run" where
  "complete_merges bt self =
     run_bind (complete_merges_loop bt (lower_val_bound self) (merging self)) (\<lambda>ms.
     if \<not> list_all (\<lambda>m. \<not> is_inprogress m) ms then lift_res (Inl AssertFailed)
     else ok (self\<lparr>merging := ms\<rparr>))"

fun map_state_mut :: "('b \<Rightarrow> 'b run) \<Rightarrow> ('b, 'm) merge_state \<Rightarrow> ('b, 'm) merge_state run" where
  "map_state_mut f (Double (InProgress b1 b2 m)) =
     lift_res (Inl (Explicit ''map_batches_mut called on an in-progress batch''))"
| "map_state_mut f (Double (Complete (Some b))) =
     run_bind (f b) (\<lambda>b. ok (Double (Complete (Some b))))"
| "map_state_mut f (Single (Some b)) = run_bind (f b) (\<lambda>b. ok (Single (Some b)))"
| "map_state_mut f (Double (Complete None)) = ok (Double (Complete None))"
| "map_state_mut f (Single None) = ok (Single None)"
| "map_state_mut f Vacant = ok Vacant"

text \<open>The levels are visited from the top down.\<close>

fun map_batches_mut_loop ::
  "('b \<Rightarrow> 'b run) \<Rightarrow> ('b, 'm) merge_state list \<Rightarrow> ('b, 'm) merge_state list run" where
  "map_batches_mut_loop f [] = ok []"
| "map_batches_mut_loop f (m # ms) =
     run_bind (map_batches_mut_loop f ms) (\<lambda>ms.
     run_bind (map_state_mut f m) (\<lambda>m. ok (m # ms)))"

definition map_batches_mut ::
  "('b \<Rightarrow> 'b run) \<Rightarrow> ('b, 'm, 'k, 'v, 't) spine \<Rightarrow> ('b, 'm, 'k, 'v, 't) spine run" where
  "map_batches_mut f self =
     run_bind (map_batches_mut_loop f (merging self)) (\<lambda>ms. ok (self\<lparr>merging := ms\<rparr>))"

definition spine_truncate_keys_below ::
  "('b, 'm, 'k::linorder, 'v, 't) batch_ops \<Rightarrow> 'k \<Rightarrow> ('b, 'm, 'k, 'v, 't) spine \<Rightarrow>
   ('b, 'm, 'k, 'v, 't) spine run" where
  "spine_truncate_keys_below bt lower_bound self =
     run_bind (complete_merges bt self) (\<lambda>self.
     let bound = (case lower_key_bound self of Some bound \<Rightarrow> max bound lower_bound | None \<Rightarrow> lower_bound)
     in map_batches_mut (\<lambda>b. bt_truncate_keys_below bt b bound) (self\<lparr>lower_key_bound := Some bound\<rparr>))"

definition spine_recede_to ::
  "('b, 'm, 'k, 'v, 't) batch_ops \<Rightarrow> 't \<Rightarrow> ('b, 'm, 'k, 'v, 't) spine \<Rightarrow> ('b, 'm, 'k, 'v, 't) spine run" where
  "spine_recede_to bt fr self =
     run_bind (complete_merges bt self) (\<lambda>self. map_batches_mut (\<lambda>b. bt_recede_to bt b fr) self)"

definition clear_dirty_flag :: "('b, 'm, 'k, 'v, 't) spine \<Rightarrow> ('b, 'm, 'k, 'v, 't) spine" where
  "clear_dirty_flag self = self\<lparr>sp_dirty := False\<rparr>"

definition spine_truncate_values_below ::
  "'v::linorder \<Rightarrow> ('b, 'm, 'k, 'v, 't) spine \<Rightarrow> ('b, 'm, 'k, 'v, 't) spine" where
  "spine_truncate_values_below lower_bound self =
     self\<lparr>lower_val_bound :=
       Some (case lower_val_bound self of Some bound \<Rightarrow> max bound lower_bound | None \<Rightarrow> lower_bound)\<rparr>"

end
