(* ===== verification/Spine_Content.thy ===== *)
theory Spine_Content
  imports Spine
begin

text \<open>
  Whatever the batch type, the spine loses and invents no update. The locale \<open>mergeable_batch\<close> is
  what the spine relies on: a merger that is left with fuel has added the contents of its two
  sources (on the items that the lower value bound keeps), and the other operations keep or filter
  the contents. Every operation of the spine that returns keeps the sum of the contents of its
  batches, plus the batch it was given.
\<close>

lemma sum_list_zeros [simp]: "sum_list (replicate n (0 :: 'r::comm_monoid_add)) = 0"
  by (induction n) simp_all

locale mergeable_batch =
  fixes bt :: "('b, 'm, 'k::linorder, 'v, 't) batch_ops"
    and wf :: "'b \<Rightarrow> bool"
    and siz :: "'b \<Rightarrow> nat"
    and content :: "'b \<Rightarrow> 'x \<Rightarrow> 'r::comm_monoid_add"
    and minv :: "'v option \<Rightarrow> 'm \<Rightarrow> 'b \<Rightarrow> 'b \<Rightarrow> bool"
    and keep :: "'v option \<Rightarrow> 'x \<Rightarrow> bool"
    and key_of :: "'x \<Rightarrow> 'k"
  assumes len: "wf b \<Longrightarrow> bt_len bt b = Inr (siz b)"
    and empty: "wf b \<Longrightarrow> siz b = 0 \<Longrightarrow> content b x = 0"
    and begin_merge: "wf b1 \<Longrightarrow> wf b2 \<Longrightarrow> \<exists>m. bt_begin_merge bt b1 b2 = Inr m \<and> minv lvb m b1 b2"
    and work: "wf b1 \<Longrightarrow> wf b2 \<Longrightarrow> minv lvb m b1 b2 \<Longrightarrow>
      \<exists>m' fuel'. bt_work bt m b1 b2 lvb fuel = ok (m', fuel') \<and>
        (if fuel' > 0 then \<exists>b. bt_done bt m' = Inr b \<and> wf b \<and> siz b \<le> siz b1 + siz b2 \<and>
           (\<forall>x. keep lvb x \<longrightarrow> content b x = content b1 x + content b2 x)
         else minv lvb m' b1 b2)"
    and enough_fuel: "wf b1 \<Longrightarrow> wf b2 \<Longrightarrow> minv lvb m b1 b2 \<Longrightarrow>
      bt_work bt m b1 b2 lvb isize_max = ok (m', fuel') \<Longrightarrow> fuel' > 0"
    and truncate: "wf b \<Longrightarrow> \<exists>b'. bt_truncate_keys_below bt b k = ok b' \<and> wf b' \<and> siz b' \<le> siz b \<and>
      (\<forall>x. content b' x = (if k \<le> key_of x then content b x else 0))"
    and recede: "wf b \<Longrightarrow> \<exists>b'. bt_recede_to bt b t = ok b' \<and> wf b' \<and> siz b' \<le> siz b"
begin

definition opt_ok :: "'b option \<Rightarrow> bool" where
  "opt_ok b \<longleftrightarrow> (\<forall>b'. b = Some b' \<longrightarrow> wf b')"

definition opt_content :: "'b option \<Rightarrow> 'x \<Rightarrow> 'r" where
  "opt_content b x = (case b of None \<Rightarrow> 0 | Some b \<Rightarrow> content b x)"

definition opt_siz :: "'b option \<Rightarrow> nat" where
  "opt_siz b = (case b of None \<Rightarrow> 0 | Some b \<Rightarrow> siz b)"

lemma opt_simps [simp]:
  "opt_ok None" "opt_ok (Some b) \<longleftrightarrow> wf b" "opt_content None x = 0" "opt_content (Some b) x = content b x"
  "opt_siz None = 0" "opt_siz (Some b) = siz b"
  by (simp_all add: opt_ok_def opt_content_def opt_siz_def)

fun state_ok :: "'v option \<Rightarrow> ('b, 'm) merge_state \<Rightarrow> bool" where
  "state_ok lvb Vacant \<longleftrightarrow> True"
| "state_ok lvb (Single b) \<longleftrightarrow> opt_ok b"
| "state_ok lvb (Double (Complete b)) \<longleftrightarrow> opt_ok b"
| "state_ok lvb (Double (InProgress b1 b2 m)) \<longleftrightarrow> wf b1 \<and> wf b2 \<and> minv lvb m b1 b2"

definition state_content :: "('b, 'm) merge_state \<Rightarrow> 'x \<Rightarrow> 'r" where
  "state_content m x = (\<Sum>b\<leftarrow>state_batches m. content b x)"

definition state_siz :: "('b, 'm) merge_state \<Rightarrow> nat" where
  "state_siz m = (\<Sum>b\<leftarrow>state_batches m. siz b)"

lemma state_content_simps [simp]:
  "state_content Vacant x = 0" "state_content (Single b) x = opt_content b x"
  "state_content (Double (Complete b)) x = opt_content b x"
  "state_content (Double (InProgress b1 b2 m)) x = content b1 x + content b2 x"
  by (cases b; simp add: state_content_def)+

lemma state_siz_simps [simp]:
  "state_siz Vacant = 0" "state_siz (Single b) = opt_siz b"
  "state_siz (Double (Complete b)) = opt_siz b"
  "state_siz (Double (InProgress b1 b2 m)) = siz b1 + siz b2"
  by (cases b; simp add: state_siz_def)+

definition states_ok :: "'v option \<Rightarrow> ('b, 'm) merge_state list \<Rightarrow> bool" where
  "states_ok lvb ms \<longleftrightarrow> (\<forall>m \<in> set ms. state_ok lvb m)"

definition levels_content :: "('b, 'm) merge_state list \<Rightarrow> 'x \<Rightarrow> 'r" where
  "levels_content ms x = (\<Sum>m\<leftarrow>ms. state_content m x)"

definition levels_siz :: "('b, 'm) merge_state list \<Rightarrow> nat" where
  "levels_siz ms = (\<Sum>m\<leftarrow>ms. state_siz m)"

lemma states_ok_nth: "states_ok lvb ms \<Longrightarrow> i < length ms \<Longrightarrow> state_ok lvb (ms ! i)"
  by (simp add: states_ok_def)

lemma states_ok_update: "states_ok lvb ms \<Longrightarrow> state_ok lvb s \<Longrightarrow> states_ok lvb (ms[i := s])"
  by (auto simp: states_ok_def dest: set_update_subset_insert [THEN subsetD])

lemma pad_levels_simps [simp]:
  "length (pad_levels i ms) = max (length ms) (i + 1)"
  "j < length ms \<Longrightarrow> pad_levels i ms ! j = ms ! j"
  "length ms \<le> j \<Longrightarrow> j \<le> i \<Longrightarrow> pad_levels i ms ! j = Vacant"
  "states_ok lvb (pad_levels i ms) \<longleftrightarrow> states_ok lvb ms"
  "levels_content (pad_levels i ms) x = levels_content ms x"
  "levels_siz (pad_levels i ms) = levels_siz ms"
  by (auto simp: pad_levels_def nth_append states_ok_def levels_content_def levels_siz_def)

text \<open>An update of one level changes the sums by the change of that level.\<close>

lemma levels_update:
  assumes "i < length ms"
  shows "levels_content (ms[i := s]) x =
      levels_content (take i ms) x + state_content s x + levels_content (drop (Suc i) ms) x"
    and "levels_content ms x =
      levels_content (take i ms) x + state_content (ms ! i) x + levels_content (drop (Suc i) ms) x"
    and "levels_siz (ms[i := s]) = levels_siz (take i ms) + state_siz s + levels_siz (drop (Suc i) ms)"
    and "levels_siz ms = levels_siz (take i ms) + state_siz (ms ! i) + levels_siz (drop (Suc i) ms)"
proof -
  have "ms[i := s] = take i ms @ s # drop (Suc i) ms" using assms by (rule upd_conv_take_nth_drop)
  then show "levels_content (ms[i := s]) x =
      levels_content (take i ms) x + state_content s x + levels_content (drop (Suc i) ms) x"
    and "levels_siz (ms[i := s]) = levels_siz (take i ms) + state_siz s + levels_siz (drop (Suc i) ms)"
    by (simp_all add: levels_content_def levels_siz_def add.assoc)
  have "ms = take i ms @ ms ! i # drop (Suc i) ms" using assms by (rule id_take_nth_drop)
  then have "levels_content ms x = levels_content (take i ms @ ms ! i # drop (Suc i) ms) x"
    "levels_siz ms = levels_siz (take i ms @ ms ! i # drop (Suc i) ms)" by simp_all
  then show "levels_content ms x =
      levels_content (take i ms) x + state_content (ms ! i) x + levels_content (drop (Suc i) ms) x"
    and "levels_siz ms = levels_siz (take i ms) + state_siz (ms ! i) + levels_siz (drop (Suc i) ms)"
    by (simp_all add: levels_content_def levels_siz_def add.assoc)
qed

section \<open>One level\<close>

lemma mg_work_ok:
  assumes "state_ok lvb m"
  shows "\<exists>m'. mg_work bt m lvb fuel = ok m' \<and> state_ok lvb m' \<and> state_siz m' \<le> state_siz m \<and>
    is_double m' = is_double m \<and> is_vacant m' = is_vacant m \<and>
    (keep lvb x \<longrightarrow> state_content m' x = state_content m x)"
proof (cases m)
  case (Double v)
  show ?thesis
  proof (cases v)
    case (InProgress b1 b2 merger)
    then have wf: "wf b1" "wf b2" "minv lvb merger b1 b2" using assms Double by simp_all
    obtain m' fuel' where w: "bt_work bt merger b1 b2 lvb fuel = ok (m', fuel')"
      "if fuel' > 0 then \<exists>b. bt_done bt m' = Inr b \<and> wf b \<and> siz b \<le> siz b1 + siz b2 \<and>
           (\<forall>x. keep lvb x \<longrightarrow> content b x = content b1 x + content b2 x)
         else minv lvb m' b1 b2" using work [OF wf] by blast
    then show ?thesis using Double InProgress wf by (cases "fuel' > 0") auto
  qed (use assms Double in simp)
qed (use assms in simp_all)

lemma mg_complete_ok:
  assumes "state_ok lvb m"
  shows "\<exists>b. mg_complete bt m lvb = ok b \<and> opt_ok b \<and> opt_siz b \<le> state_siz m \<and>
    (keep lvb x \<longrightarrow> opt_content b x = state_content m x)"
proof (cases m)
  case (Double v)
  show ?thesis
  proof (cases v)
    case (InProgress b1 b2 merger)
    then have wf: "wf b1" "wf b2" "minv lvb merger b1 b2" using assms Double by simp_all
    obtain m' fuel' where w: "bt_work bt merger b1 b2 lvb isize_max = ok (m', fuel')"
      "if fuel' > 0 then \<exists>b. bt_done bt m' = Inr b \<and> wf b \<and> siz b \<le> siz b1 + siz b2 \<and>
           (\<forall>x. keep lvb x \<longrightarrow> content b x = content b1 x + content b2 x)
         else minv lvb m' b1 b2" using work [OF wf] by blast
    then have "fuel' > 0" using enough_fuel [OF wf] by blast
    then show ?thesis using w Double InProgress by (auto simp: mv_complete_def)
  qed (use assms Double in \<open>auto simp: mv_complete_def\<close>)
qed (use assms in simp_all)

lemma mg_begin_merge_ok:
  assumes "opt_ok b1" and "opt_ok b2"
  shows "\<exists>m. mg_begin_merge bt b1 b2 = Inr m \<and> state_ok lvb m \<and> is_double m \<and>
    state_siz m = opt_siz b1 + opt_siz b2 \<and> state_content m x = opt_content b1 x + opt_content b2 x"
proof (cases b1)
  case None
  then show ?thesis using assms by (cases b2) simp_all
next
  case (Some b)
  show ?thesis
  proof (cases b2)
    case None
    then show ?thesis using assms Some by simp
  next
    case (Some b')
    then show ?thesis using assms \<open>b1 = Some b\<close> begin_merge [of b b' lvb] by auto
  qed
qed

section \<open>Inserting and extracting\<close>

lemma insert_at_ok:
  assumes "states_ok lvb ms" and "opt_ok b" and "\<not> is_double (pad_levels i ms ! i)"
  shows "\<exists>s. insert_at bt b i ms = ok ((pad_levels i ms)[i := s]) \<and> state_ok lvb s \<and>
    state_siz s = state_siz (pad_levels i ms ! i) + opt_siz b \<and>
    is_double s = is_single (pad_levels i ms ! i) \<and> \<not> is_vacant s \<and>
    (\<forall>x. state_content s x = state_content (pad_levels i ms ! i) x + opt_content b x)"
proof (cases "pad_levels i ms ! i")
  case Vacant
  then show ?thesis using assms by (auto simp: insert_at_def Let_def)
next
  case (Single old)
  then have "opt_ok old" using states_ok_nth [of lvb "pad_levels i ms" i] assms(1) by simp
  then obtain m where m: "mg_begin_merge bt old b = Inr m" "state_ok lvb m" "is_double m"
    "state_siz m = opt_siz old + opt_siz b"
    using mg_begin_merge_ok assms(2) by blast
  have "state_content m x = opt_content old x + opt_content b x" for x
    using mg_begin_merge_ok [OF \<open>opt_ok old\<close> assms(2), of lvb x] m(1) by auto
  moreover have "\<not> is_vacant m" using m(3) by (cases m) simp_all
  ultimately show ?thesis using Single m by (auto simp: insert_at_def Let_def)
qed (use assms(3) in simp)

lemma insert_at_returns:
  assumes "states_ok lvb ms" and "opt_ok b" and "insert_at bt b i ms = ok ms'"
  shows "states_ok lvb ms' \<and> levels_content ms' x = levels_content ms x + opt_content b x \<and>
    levels_siz ms' = levels_siz ms + opt_siz b \<and> length ms' = max (length ms) (i + 1)"
proof -
  let ?p = "pad_levels i ms"
  have "\<not> is_double (?p ! i)" using assms(3) by (cases "?p ! i") (auto simp: insert_at_def Let_def)
  then obtain s where s: "insert_at bt b i ms = ok (?p[i := s])" "state_ok lvb s"
    "state_siz s = state_siz (?p ! i) + opt_siz b"
    "\<forall>x. state_content s x = state_content (?p ! i) x + opt_content b x"
    using insert_at_ok [OF assms(1,2)] by blast
  have ms': "ms' = ?p[i := s]" using s(1) assms(3) by simp
  have i: "i < length ?p" by simp
  have "levels_content ms' x = levels_content ?p x + opt_content b x"
    unfolding ms' levels_update(1) [OF i] levels_update(2) [OF i] using s(4) by (simp add: ac_simps)
  moreover have "levels_siz ms' = levels_siz ?p + opt_siz b"
    unfolding ms' levels_update(3) [OF i] levels_update(4) [OF i] using s(3) by simp
  ultimately show ?thesis using assms(1) s(2) ms' by (simp add: states_ok_update)
qed

lemma complete_at_ok:
  assumes "states_ok lvb ms" and "i < length ms"
  shows "\<exists>b. complete_at bt lvb i ms = ok (b, ms[i := Vacant]) \<and> opt_ok b \<and>
    opt_siz b + levels_siz (ms[i := Vacant]) \<le> levels_siz ms \<and>
    (\<forall>x. keep lvb x \<longrightarrow> levels_content ms x = levels_content (ms[i := Vacant]) x + opt_content b x)"
proof -
  note st = states_ok_nth [OF assms]
  obtain b where b: "mg_complete bt (ms ! i) lvb = ok b" "opt_ok b" "opt_siz b \<le> state_siz (ms ! i)"
    using mg_complete_ok [OF st] by blast
  have "keep lvb x \<longrightarrow> opt_content b x = state_content (ms ! i) x" for x
    using mg_complete_ok [OF st, of x] b(1) by auto
  moreover have "opt_siz b + levels_siz (ms[i := Vacant]) \<le> levels_siz ms"
    unfolding levels_update(3) [OF assms(2)] levels_update(4) [OF assms(2)] using b(3) by simp
  ultimately show ?thesis
    using b(1,2) assms(2) levels_update(1,2) [OF assms(2)]
    by (auto simp: complete_at_def ac_simps)
qed

section \<open>The loops\<close>

lemma work_at:
  assumes "states_ok lvb ms" and "i < length ms" and "mg_work bt (ms ! i) lvb fuel = ok s"
  shows "states_ok lvb (ms[i := s])" and "levels_siz (ms[i := s]) \<le> levels_siz ms"
    and "keep lvb x \<Longrightarrow> levels_content (ms[i := s]) x = levels_content ms x"
proof -
  have s: "state_ok lvb s" "state_siz s \<le> state_siz (ms ! i)"
    "keep lvb x \<longrightarrow> state_content s x = state_content (ms ! i) x"
    using mg_work_ok [OF states_ok_nth [OF assms(1,2)], of fuel x] assms(3) by auto
  show "states_ok lvb (ms[i := s])" using assms(1) s(1) by (rule states_ok_update)
  show "levels_siz (ms[i := s]) \<le> levels_siz ms"
    unfolding levels_update(3) [OF assms(2)] levels_update(4) [OF assms(2)] using s(2) by simp
  show "levels_content (ms[i := s]) x = levels_content ms x" if "keep lvb x"
    unfolding levels_update(1) [OF assms(2)] levels_update(2) [OF assms(2)] using s(3) that by simp
qed

text \<open>
  \<open>moves_to lvb ms ms' d n\<close>: the levels are still well-formed, their content grew by \<open>d\<close> on the
  items that are kept, and their size by at most \<open>n\<close>.
\<close>

definition moves_to ::
  "'v option \<Rightarrow> ('b, 'm) merge_state list \<Rightarrow> ('b, 'm) merge_state list \<Rightarrow> ('x \<Rightarrow> 'r) \<Rightarrow> nat \<Rightarrow> bool" where
  "moves_to lvb ms ms' d n \<longleftrightarrow> states_ok lvb ms' \<and> levels_siz ms' \<le> levels_siz ms + n \<and>
     (\<forall>x. keep lvb x \<longrightarrow> levels_content ms' x = levels_content ms x + d x)"

lemma moves_refl: "states_ok lvb ms \<Longrightarrow> moves_to lvb ms ms (\<lambda>_. 0) 0"
  by (simp add: moves_to_def)

lemma moves_trans:
  assumes "moves_to lvb ms ms1 d1 n1" and "moves_to lvb ms1 ms2 d2 n2"
  shows "moves_to lvb ms ms2 (\<lambda>x. d1 x + d2 x) (n1 + n2)"
  using assms by (auto simp: moves_to_def add.assoc)

lemma moves_trans0:
  assumes "moves_to lvb ms ms1 (\<lambda>_. 0) 0" and "moves_to lvb ms1 ms2 d n"
  shows "moves_to lvb ms ms2 d n"
  using moves_trans [OF assms] by simp

lemma moves_ok: "moves_to lvb ms ms' d n \<Longrightarrow> states_ok lvb ms'"
  by (simp add: moves_to_def)

lemma moves_insert:
  assumes "states_ok lvb ms" and "opt_ok b" and "insert_at bt b i ms = ok ms'"
  shows "moves_to lvb ms ms' (opt_content b) (opt_siz b)"
  using insert_at_returns [OF assms] by (simp add: moves_to_def)

lemma moves_work:
  assumes "states_ok lvb ms" and "i < length ms" and "mg_work bt (ms ! i) lvb fuel = ok s"
  shows "moves_to lvb ms (ms[i := s]) (\<lambda>_. 0) 0"
  using work_at [OF assms] by (simp add: moves_to_def)

lemma moves_reinsert:
  assumes "states_ok lvb ms" and "i < length ms"
    and "run_bind (complete_at bt lvb i ms) (\<lambda>(b, ms). insert_at bt b j ms) = ok ms'"
  shows "moves_to lvb ms ms' (\<lambda>_. 0) 0" and "length ms \<le> length ms'"
proof -
  obtain b where b: "complete_at bt lvb i ms = ok (b, ms[i := Vacant])" "opt_ok b"
    "opt_siz b + levels_siz (ms[i := Vacant]) \<le> levels_siz ms"
    "\<forall>x. keep lvb x \<longrightarrow> levels_content ms x = levels_content (ms[i := Vacant]) x + opt_content b x"
    using complete_at_ok [OF assms(1,2)] by blast
  have ok: "states_ok lvb (ms[i := Vacant])" using assms(1) by (simp add: states_ok_update)
  have ins: "insert_at bt b j (ms[i := Vacant]) = ok ms'" using assms(3) b(1) by simp
  show "moves_to lvb ms ms' (\<lambda>_. 0) 0" and "length ms \<le> length ms'"
    using insert_at_returns [OF ok b(2) ins] b(3,4) by (auto simp: moves_to_def)
qed

lemma apply_fuel_loop_returns:
  assumes "states_ok lvb ms" and "\<forall>i \<in> set is. i < length ms"
    and "apply_fuel_loop bt lvb fuel is ms = ok ms'"
  shows "moves_to lvb ms ms' (\<lambda>_. 0) 0"
  using assms
proof (induction "is" arbitrary: ms)
  case (Cons i indices)
  obtain s ms1 where s: "mg_work bt (ms ! i) lvb fuel = ok s"
    "(if is_complete (ms[i := s] ! i) then
       run_bind (complete_at bt lvb i (ms[i := s])) (\<lambda>(b, ms). insert_at bt b (i + 1) ms)
      else ok (ms[i := s])) = ok ms1" "apply_fuel_loop bt lvb fuel indices ms1 = ok ms'"
    using Cons.prems(3) by (auto simp: run_bind_eq_ok Let_def)
  have i: "i < length ms" using Cons.prems(2) by simp
  have w: "moves_to lvb ms (ms[i := s]) (\<lambda>_. 0) 0" using Cons.prems(1) i s(1) by (rule moves_work)
  have r: "moves_to lvb (ms[i := s]) ms1 (\<lambda>_. 0) 0 \<and> length ms \<le> length ms1"
  proof (cases "is_complete (ms[i := s] ! i)")
    case True
    then show ?thesis using moves_reinsert [OF moves_ok [OF w], of i "i + 1" ms1] s(2) i by auto
  next
    case False
    then show ?thesis using s(2) moves_ok [OF w] by (auto intro: moves_refl)
  qed
  then have ms1: "moves_to lvb ms ms1 (\<lambda>_. 0) 0" "length ms \<le> length ms1"
    using moves_trans0 [OF w] by simp_all
  have "moves_to lvb ms1 ms' (\<lambda>_. 0) 0"
    using Cons.prems(2) ms1 s(3) moves_ok [OF ms1(1)] by (intro Cons.IH) auto
  then show ?case by (rule moves_trans0 [OF ms1(1)])
qed (auto intro: moves_refl)

lemma roll_up_loop_returns:
  assumes "states_ok lvb ms" and "opt_ok b" and "roll_up_loop bt lvb is b ms = ok (b', ms')"
  shows "states_ok lvb ms' \<and> opt_ok b' \<and> opt_siz b' + levels_siz ms' \<le> opt_siz b + levels_siz ms \<and>
    length ms \<le> length ms' \<and>
    (\<forall>x. keep lvb x \<longrightarrow> levels_content ms' x + opt_content b' x = levels_content ms x + opt_content b x)"
  using assms
proof (induction "is" arbitrary: b ms)
  case (Cons i indices)
  obtain ms1 b2 ms2 where s: "insert_at bt b i ms = ok ms1" "complete_at bt lvb i ms1 = ok (b2, ms2)"
    "roll_up_loop bt lvb indices b2 ms2 = ok (b', ms')"
    using Cons.prems(3) by (auto simp: run_bind_eq_ok)
  have ins: "states_ok lvb ms1" "\<forall>x. levels_content ms1 x = levels_content ms x + opt_content b x"
    "levels_siz ms1 = levels_siz ms + opt_siz b" "length ms1 = max (length ms) (i + 1)"
    using insert_at_returns [OF Cons.prems(1,2) s(1)] by auto
  have i: "i < length ms1" using ins(4) by simp
  have c: "ms2 = ms1[i := Vacant]" "opt_ok b2" "opt_siz b2 + levels_siz ms2 \<le> levels_siz ms1"
    "\<forall>x. keep lvb x \<longrightarrow> levels_content ms1 x = levels_content ms2 x + opt_content b2 x"
    using complete_at_ok [OF ins(1) i] s(2) by auto
  have "states_ok lvb ms2" using c(1) ins(1) by (simp add: states_ok_update)
  from Cons.IH [OF this c(2) s(3)] show ?case using c ins by auto
qed simp

lemma roll_up_returns:
  assumes "states_ok (lower_val_bound sp) (merging sp)" and "roll_up bt i sp = ok sp'"
  shows "moves_to (lower_val_bound sp) (merging sp) (merging sp') (\<lambda>_. 0) 0 \<and>
    sp' = sp\<lparr>merging := merging sp'\<rparr> \<and> i < length (merging sp')"
proof -
  let ?lvb = "lower_val_bound sp" and ?p = "pad_levels i (merging sp)"
  have p: "states_ok ?lvb ?p" using assms(1) by simp
  have mp: "moves_to ?lvb (merging sp) ?p (\<lambda>_. 0) 0" using assms(1) by (simp add: moves_to_def)
  show ?thesis
  proof (cases "list_ex (\<lambda>m. \<not> is_vacant m) (take i ?p)")
    case True
    obtain b ms1 ms2 ms3 where r: "roll_up_loop bt ?lvb [0..<i] None ?p = ok (b, ms1)"
      "insert_at bt b i ms1 = ok ms2"
      "(if is_double (ms2 ! i) then
         run_bind (complete_at bt ?lvb i ms2) (\<lambda>(b, ms). insert_at bt b (i + 1) ms) else ok ms2) = ok ms3"
      "sp' = sp\<lparr>merging := ms3\<rparr>"
      using assms(2) True by (auto simp: roll_up_def Let_def run_bind_eq_ok)
    have l: "states_ok ?lvb ms1" "opt_ok b" "opt_siz b + levels_siz ms1 \<le> levels_siz ?p"
      "\<forall>x. keep ?lvb x \<longrightarrow> levels_content ms1 x + opt_content b x = levels_content ?p x"
      using roll_up_loop_returns [OF p opt_simps(1) r(1)] by auto
    have ins: "states_ok ?lvb ms2" "\<forall>x. levels_content ms2 x = levels_content ms1 x + opt_content b x"
      "levels_siz ms2 = levels_siz ms1 + opt_siz b" "i < length ms2"
      using insert_at_returns [OF l(1,2) r(2)] by auto
    have "moves_to ?lvb ?p ms2 (\<lambda>_. 0) 0" using l ins by (auto simp: moves_to_def)
    moreover have "moves_to ?lvb ms2 ms3 (\<lambda>_. 0) 0 \<and> i < length ms3"
    proof (cases "is_double (ms2 ! i)")
      case True
      then show ?thesis using moves_reinsert [OF ins(1,4), of "i + 1" ms3] r(3) ins(4) by auto
    next
      case False
      then show ?thesis using r(3) ins by (auto intro: moves_refl)
    qed
    ultimately show ?thesis using moves_trans0 [OF mp] moves_trans0 r(4) by auto
  next
    case False
    then show ?thesis using assms(2) mp by (auto simp: roll_up_def Let_def)
  qed
qed

lemma levels_remove:
  assumes "i < length ms"
  shows "levels_content ms x = levels_content (remove_at i ms) x + state_content (ms ! i) x"
    and "levels_siz ms = levels_siz (remove_at i ms) + state_siz (ms ! i)"
    and "states_ok lvb ms \<Longrightarrow> states_ok lvb (remove_at i ms)"
proof -
  have app: "levels_content (xs @ ys) x = levels_content xs x + levels_content ys x"
    "levels_siz (xs @ ys) = levels_siz xs + levels_siz ys" for xs ys
    by (simp_all add: levels_content_def levels_siz_def)
  show "levels_content ms x = levels_content (remove_at i ms) x + state_content (ms ! i) x"
    unfolding levels_update(2) [OF assms] by (simp add: remove_at_def app ac_simps)
  show "levels_siz ms = levels_siz (remove_at i ms) + state_siz (ms ! i)"
    unfolding levels_update(4) [OF assms] by (simp add: remove_at_def app)
  show "states_ok lvb ms \<Longrightarrow> states_ok lvb (remove_at i ms)"
    by (auto simp: states_ok_def remove_at_def dest: in_set_takeD in_set_dropD)
qed

lemma tidy_loop_returns:
  assumes "states_ok lvb ms" and "tidy_loop bt l ms = ok ms'"
  shows "moves_to lvb ms ms' (\<lambda>_. 0) 0"
  using assms
proof (induction "length ms" arbitrary: ms rule: less_induct)
  case (less ms)
  let ?i = "length ms - 2"
  show ?case
  proof (cases "l < length ms - 1")
    case False
    then show ?thesis using less.prems by (subst (asm) tidy_loop.simps) (auto simp: Let_def intro: moves_refl)
  next
    case True
    then have i: "?i < length ms" by simp
    note rem = levels_remove [OF i]
    have unfolded: "(case ms ! ?i of
        Vacant \<Rightarrow> tidy_loop bt l (remove_at ?i ms)
      | Single None \<Rightarrow> tidy_loop bt l (remove_at ?i ms)
      | Single (Some batch) \<Rightarrow>
          run_bind (lift_res (count_smaller 0 0 (take ?i ms))) (\<lambda>smaller.
          run_bind (lift_res (i32_shl 1 (length ms))) (\<lambda>limit.
          if smaller \<le> limit div 8 then insert_at bt (Some batch) ?i (remove_at ?i ms) else ok ms))
      | Double _ \<Rightarrow> ok ms) = ok ms'"
      using less.prems(2) True by (subst (asm) tidy_loop.simps) (simp add: Let_def)
    have dropped: "moves_to lvb ms ms' (\<lambda>_. 0) 0"
      if "\<forall>x. state_content (ms ! ?i) x = 0" "state_siz (ms ! ?i) = 0" "tidy_loop bt l (remove_at ?i ms) = ok ms'"
      using less.hyps [OF _ rem(3) [OF less.prems(1)] that(3)] rem(1,2) that(1,2) i by (simp add: moves_to_def)
    show ?thesis
    proof (cases "ms ! ?i")
      case (Single b)
      show ?thesis
      proof (cases b)
        case (Some batch)
        have wf: "opt_ok (Some batch)" using states_ok_nth [OF less.prems(1) i] Single Some by simp
        have "ms' = ms \<or> insert_at bt (Some batch) ?i (remove_at ?i ms) = ok ms'"
          using unfolded Single Some by (auto simp: run_bind_eq_ok split: if_splits)
        moreover have "moves_to lvb ms ms' (\<lambda>_. 0) 0"
          if "insert_at bt (Some batch) ?i (remove_at ?i ms) = ok ms'"
          using insert_at_returns [OF rem(3) [OF less.prems(1)] wf that] rem(1,2) Single Some
          by (simp add: moves_to_def)
        ultimately show ?thesis using less.prems(1) by (auto intro: moves_refl)
      qed (use dropped unfolded Single in simp)
    qed (use dropped unfolded less.prems(1) in \<open>auto intro: moves_refl\<close>)
  qed
qed

lemma tidy_layers_returns:
  assumes "states_ok (lower_val_bound sp) (merging sp)" and "tidy_layers bt sp = ok sp'"
  shows "moves_to (lower_val_bound sp) (merging sp) (merging sp') (\<lambda>_. 0) 0 \<and>
    sp' = sp\<lparr>merging := merging sp'\<rparr>"
  using assms tidy_loop_returns [OF assms(1)]
  by (auto simp: tidy_layers_def Let_def run_bind_eq_ok moves_refl split: if_splits)

lemma apply_fuel_returns:
  assumes "states_ok (lower_val_bound sp) (merging sp)" and "apply_fuel bt fuel sp = ok sp'"
  shows "moves_to (lower_val_bound sp) (merging sp) (merging sp') (\<lambda>_. 0) 0 \<and>
    sp' = sp\<lparr>merging := merging sp'\<rparr>"
  using assms(2) apply_fuel_loop_returns [OF assms(1), of "[0..<length (merging sp)]"]
  by (auto simp: apply_fuel_def run_bind_eq_ok)

section \<open>Introducing batches\<close>

lemma introduce_batch_returns:
  assumes "states_ok (lower_val_bound sp) (merging sp)" and "opt_ok b"
    and "introduce_batch bt b i sp = ok sp'"
  shows "moves_to (lower_val_bound sp) (merging sp) (merging sp') (opt_content b) (opt_siz b) \<and>
    sp' = sp\<lparr>merging := merging sp'\<rparr>"
proof -
  let ?lvb = "lower_val_bound sp"
  obtain fuel sp1 sp2 ms3 where s: "apply_fuel bt fuel sp = ok sp1" "roll_up bt i sp1 = ok sp2"
    "insert_at bt b i (merging sp2) = ok ms3" "tidy_layers bt (sp2\<lparr>merging := ms3\<rparr>) = ok sp'"
    using assms(3) by (auto simp: introduce_batch_def run_bind_eq_ok)
  have 1: "moves_to ?lvb (merging sp) (merging sp1) (\<lambda>_. 0) 0" "sp1 = sp\<lparr>merging := merging sp1\<rparr>"
    using apply_fuel_returns [OF assms(1) s(1)] by auto
  have l1: "lower_val_bound sp1 = ?lvb" by (subst 1(2)) simp
  have 2: "moves_to ?lvb (merging sp1) (merging sp2) (\<lambda>_. 0) 0" "sp2 = sp1\<lparr>merging := merging sp2\<rparr>"
    using roll_up_returns [OF _ s(2)] moves_ok [OF 1(1)] l1 by auto
  have l2: "lower_val_bound sp2 = ?lvb" by (subst 2(2)) (simp add: l1)
  have 3: "moves_to ?lvb (merging sp2) ms3 (opt_content b) (opt_siz b)"
    using moves_insert [OF moves_ok [OF 2(1)] assms(2) s(3)] .
  have 4: "moves_to ?lvb ms3 (merging sp') (\<lambda>_. 0) 0" "sp' = sp2\<lparr>merging := merging sp'\<rparr>"
    using tidy_layers_returns [OF _ s(4)] moves_ok [OF 3] l2 by auto
  have "moves_to ?lvb (merging sp) (merging sp') (\<lambda>x. opt_content b x + 0) (opt_siz b + 0)"
    by (rule moves_trans0 [OF 1(1)], rule moves_trans0 [OF 2(1)], rule moves_trans [OF 3 4(1)])
  moreover have "sp' = sp\<lparr>merging := merging sp'\<rparr>" by (subst 4(2), subst 2(2), subst 1(2)) simp
  ultimately show ?thesis by simp
qed

lemma exert_returns:
  assumes "states_ok (lower_val_bound sp) (merging sp)" and "exert bt effort sp = ok sp'"
  shows "moves_to (lower_val_bound sp) (merging sp) (merging sp') (\<lambda>_. 0) 0 \<and>
    lower_val_bound sp' = lower_val_bound sp"
proof -
  obtain sp1 where t: "tidy_layers bt sp = ok sp1"
    using assms(2) by (auto simp: exert_def run_bind_eq_ok)
  have 1: "moves_to (lower_val_bound sp) (merging sp) (merging sp1) (\<lambda>_. 0) 0"
    "sp1 = sp\<lparr>merging := merging sp1\<rparr>" using tidy_layers_returns [OF assms(1) t] by auto
  have l1: "lower_val_bound sp1 = lower_val_bound sp" by (subst 1(2)) simp
  have ok1: "states_ok (lower_val_bound sp1) (merging sp1)" using moves_ok [OF 1(1)] l1 by simp
  have fuel: "moves_to (lower_val_bound sp1) (merging sp1) (merging sp2) (\<lambda>_. 0) 0 \<and>
      lower_val_bound sp2 = lower_val_bound sp1" if a: "apply_fuel bt effort sp1 = ok sp2" for sp2
    using apply_fuel_returns [OF ok1 a] by (metis spine.update_convs(1) spine.surjective spine.select_convs(8))
  have intro: "moves_to (lower_val_bound sp1) (merging sp1) (merging sp2) (\<lambda>_. 0) 0 \<and>
      lower_val_bound sp2 = lower_val_bound sp1" if a: "introduce_batch bt None i sp1 = ok sp2" for i sp2
    using introduce_batch_returns [OF ok1 _ a]
    by (simp add: fun_eq_iff opt_content_def [abs_def])
       (metis spine.update_convs(1) spine.surjective spine.select_convs(8))
  consider "sp' = sp1" | sp2 where "sp' = activate sp2" "apply_fuel bt effort sp1 = ok sp2"
    | sp2 i where "sp' = activate sp2" "introduce_batch bt None i sp1 = ok sp2"
    using assms(2) t by (auto simp: exert_def run_bind_eq_ok split: if_splits)
  then show ?thesis
    using 1(1) l1 fuel intro moves_trans0 [OF 1(1)] by cases (auto simp: activate_def)
qed

section \<open>Truncation\<close>

lemma inprogress_work:
  assumes "state_ok lvb m" and "mg_work bt m lvb isize_max = ok m'"
  shows "\<not> is_inprogress m'"
proof (cases m)
  case (Double v)
  show ?thesis
  proof (cases v)
    case (InProgress b1 b2 merger)
    then have wf: "wf b1" "wf b2" "minv lvb merger b1 b2" using assms(1) Double by simp_all
    then obtain m1 fuel' where w: "bt_work bt merger b1 b2 lvb isize_max = ok (m1, fuel')"
      "fuel' > 0" using work [OF wf] enough_fuel [OF wf] by blast
    then show ?thesis using assms(2) Double InProgress by (auto simp: run_bind_eq_ok)
  qed (use assms(2) Double in auto)
qed (use assms(2) in auto)

lemma complete_merges_loop_ok:
  assumes "states_ok lvb ms"
  shows "\<exists>ms'. complete_merges_loop bt lvb ms = ok ms' \<and> states_ok lvb ms' \<and>
    levels_siz ms' \<le> levels_siz ms \<and> list_all (\<lambda>m. \<not> is_inprogress m) ms' \<and>
    map is_double ms' = map is_double ms \<and> map is_vacant ms' = map is_vacant ms \<and>
    (keep lvb x \<longrightarrow> levels_content ms' x = levels_content ms x)"
  using assms
proof (induction ms)
  case (Cons m ms)
  have m: "state_ok lvb m" and ms: "states_ok lvb ms" using Cons.prems by (simp_all add: states_ok_def)
  obtain m' where m': "(if is_inprogress m then mg_work bt m lvb isize_max else ok m) = ok m'"
    "state_ok lvb m'" "state_siz m' \<le> state_siz m" "\<not> is_inprogress m'" "is_double m' = is_double m"
    "is_vacant m' = is_vacant m" "keep lvb x \<longrightarrow> state_content m' x = state_content m x"
    using mg_work_ok [OF m, of isize_max x] inprogress_work [OF m] m by (cases "is_inprogress m") auto
  then show ?case using Cons.IH [OF ms] by (auto simp: states_ok_def levels_content_def levels_siz_def)
qed (simp add: states_ok_def levels_content_def levels_siz_def)

lemma complete_merges_ok:
  assumes "states_ok (lower_val_bound sp) (merging sp)"
  shows "\<exists>ms. complete_merges bt sp = ok (sp\<lparr>merging := ms\<rparr>) \<and>
    moves_to (lower_val_bound sp) (merging sp) ms (\<lambda>_. 0) 0 \<and> list_all (\<lambda>m. \<not> is_inprogress m) ms \<and>
    map is_double ms = map is_double (merging sp) \<and> map is_vacant ms = map is_vacant (merging sp)"
proof -
  obtain ms where ms: "complete_merges_loop bt (lower_val_bound sp) (merging sp) = ok ms"
    "states_ok (lower_val_bound sp) ms" "levels_siz ms \<le> levels_siz (merging sp)"
    "list_all (\<lambda>m. \<not> is_inprogress m) ms" "map is_double ms = map is_double (merging sp)"
    "map is_vacant ms = map is_vacant (merging sp)"
    using complete_merges_loop_ok [OF assms] by blast
  have "keep (lower_val_bound sp) x \<longrightarrow> levels_content ms x = levels_content (merging sp) x" for x
    using complete_merges_loop_ok [OF assms, of x] ms(1) by auto
  then show ?thesis using ms by (auto simp: complete_merges_def moves_to_def)
qed

lemma map_batches_mut_loop_ok:
  assumes "states_ok lvb ms" and "list_all (\<lambda>m. \<not> is_inprogress m) ms"
    and f: "\<And>b. wf b \<Longrightarrow> \<exists>b'. f b = ok b' \<and> wf b' \<and> siz b' \<le> siz b \<and>
      (q \<longrightarrow> content b' x = h (content b x))"
    and h: "h 0 = 0" "\<And>a c. h (a + c) = h a + h c"
  shows "\<exists>ms'. map_batches_mut_loop f ms = ok ms' \<and> states_ok lvb ms' \<and>
    levels_siz ms' \<le> levels_siz ms \<and> (q \<longrightarrow> levels_content ms' x = h (levels_content ms x)) \<and>
    map is_double ms' = map is_double ms \<and> map is_vacant ms' = map is_vacant ms"
  using assms(1,2)
proof (induction ms)
  case (Cons m ms)
  have m: "state_ok lvb m" "\<not> is_inprogress m" and ms: "states_ok lvb ms" "list_all (\<lambda>m. \<not> is_inprogress m) ms"
    using Cons.prems by (simp_all add: states_ok_def)
  have "\<exists>m'. map_state_mut f m = ok m' \<and> state_ok lvb m' \<and> state_siz m' \<le> state_siz m \<and>
      (q \<longrightarrow> state_content m' x = h (state_content m x)) \<and> is_double m' = is_double m \<and> is_vacant m' = is_vacant m"
  proof (cases m rule: state_batches.cases)
    case (2 b)
    then show ?thesis using f [of b] m by auto
  next
    case (3 b)
    then show ?thesis using f [of b] m by auto
  qed (use m h(1) in auto)
  then show ?case using Cons.IH [OF ms] h(2)
    by (auto simp: states_ok_def levels_content_def levels_siz_def)
qed (simp add: h(1) states_ok_def levels_content_def levels_siz_def)

lemma truncate_ok:
  assumes ok: "states_ok (lower_val_bound sp) (merging sp)"
  shows "\<exists>sp'. spine_truncate_keys_below bt k sp = ok sp' \<and>
    states_ok (lower_val_bound sp') (merging sp') \<and> lower_val_bound sp' = lower_val_bound sp \<and>
    levels_siz (merging sp') \<le> levels_siz (merging sp) \<and>
    map is_double (merging sp') = map is_double (merging sp) \<and>
    map is_vacant (merging sp') = map is_vacant (merging sp) \<and>
    lower_key_bound sp' = Some (case lower_key_bound sp of Some b \<Rightarrow> max b k | None \<Rightarrow> k) \<and>
    (keep (lower_val_bound sp) x \<longrightarrow> levels_content (merging sp') x =
      (if (case lower_key_bound sp of Some b \<Rightarrow> max b k | None \<Rightarrow> k) \<le> key_of x
       then levels_content (merging sp) x else 0))"
proof -
  let ?bound = "case lower_key_bound sp of Some b \<Rightarrow> max b k | None \<Rightarrow> k"
  obtain ms where ms: "complete_merges bt sp = ok (sp\<lparr>merging := ms\<rparr>)"
    "moves_to (lower_val_bound sp) (merging sp) ms (\<lambda>_. 0) 0" "list_all (\<lambda>m. \<not> is_inprogress m) ms"
    "map is_double ms = map is_double (merging sp)" "map is_vacant ms = map is_vacant (merging sp)"
    using complete_merges_ok [OF ok] by blast
  let ?h = "\<lambda>c :: 'r. if ?bound \<le> key_of x then c else 0"
  have "\<exists>b'. bt_truncate_keys_below bt b ?bound = ok b' \<and> wf b' \<and> siz b' \<le> siz b \<and>
      content b' x = ?h (content b x)" if "wf b" for b
    using truncate [OF that] by metis
  then have t: "\<exists>b'. bt_truncate_keys_below bt b ?bound = ok b' \<and> wf b' \<and> siz b' \<le> siz b \<and>
      (True \<longrightarrow> content b' x = ?h (content b x))" if "wf b" for b using that by simp
  have h: "?h 0 = 0" "\<And>a c. ?h (a + c) = ?h a + ?h c" by simp_all
  from map_batches_mut_loop_ok [where q = True and h = ?h, OF moves_ok [OF ms(2)] ms(3) t h]
  obtain ms' where ms': "map_batches_mut_loop (\<lambda>b. bt_truncate_keys_below bt b ?bound) ms = ok ms'"
    "states_ok (lower_val_bound sp) ms'" "levels_siz ms' \<le> levels_siz ms"
    "levels_content ms' x = ?h (levels_content ms x)"
    "map is_double ms' = map is_double ms" "map is_vacant ms' = map is_vacant ms" by auto
  then show ?thesis using ms
    by (auto simp: spine_truncate_keys_below_def map_batches_mut_def Let_def moves_to_def)
qed

lemma recede_ok:
  assumes ok: "states_ok (lower_val_bound sp) (merging sp)"
  shows "\<exists>ms. spine_recede_to bt t sp = ok (sp\<lparr>merging := ms\<rparr>) \<and> states_ok (lower_val_bound sp) ms \<and>
    levels_siz ms \<le> levels_siz (merging sp)"
proof -
  obtain ms where ms: "complete_merges bt sp = ok (sp\<lparr>merging := ms\<rparr>)"
    "moves_to (lower_val_bound sp) (merging sp) ms (\<lambda>_. 0) 0" "list_all (\<lambda>m. \<not> is_inprogress m) ms"
    using complete_merges_ok [OF ok] by blast
  have "\<exists>b'. bt_recede_to bt b t = ok b' \<and> wf b' \<and> siz b' \<le> siz b \<and>
      (False \<longrightarrow> content b' undefined = content b undefined)" if "wf b" for b
    using recede [OF that] by simp
  from map_batches_mut_loop_ok [where h = "\<lambda>c. c", OF moves_ok [OF ms(2)] ms(3) this]
  have "\<exists>ms'. map_batches_mut_loop (\<lambda>b. bt_recede_to bt b t) ms = ok ms' \<and>
      states_ok (lower_val_bound sp) ms' \<and> levels_siz ms' \<le> levels_siz ms" by auto
  then show ?thesis using ms by (auto simp: spine_recede_to_def map_batches_mut_def moves_to_def)
qed

end

end
