(* ===== verification/Spine_Levels.thy ===== *)
theory Spine_Levels
  imports Spine_Content
begin

text \<open>
  The spine never meets a merge that is still in progress where it needs room. A level is a digit
  (vacant 0, one batch 1, a merge 2) of a number in a redundant binary notation, \<open>weight\<close>: applying
  fuel normalises it, rolling up rounds it, introducing a batch adds a power of two, and tidying
  moves the top digit down. The invariant \<open>safe\<close> says that below a merge there is less than what
  would invade it, which is the comment of \<^verbatim>\<open>tidy_layers\<close> as a formula.
\<close>

fun digit :: "('b, 'm) merge_state \<Rightarrow> nat" where
  "digit Vacant = 0"
| "digit (Single _) = 1"
| "digit (Double _) = 2"

fun weight :: "('b, 'm) merge_state list \<Rightarrow> nat" where
  "weight [] = 0"
| "weight (m # ms) = digit m + 2 * weight ms"

definition safe :: "('b, 'm) merge_state list \<Rightarrow> bool" where
  "safe ms \<longleftrightarrow> (\<forall>k < length ms. is_double (ms ! k) \<longrightarrow> weight (take k ms) < 2 ^ k)"

definition top_held :: "('b, 'm) merge_state list \<Rightarrow> bool" where
  "top_held ms \<longleftrightarrow> ms = [] \<or> \<not> is_vacant (last ms)"

definition digits :: "('b, 'm) merge_state list \<Rightarrow> nat" where
  "digits ms = sum_list (map digit ms)"

lemma digit_kinds:
  "digit m = 0 \<longleftrightarrow> is_vacant m" "digit m = 1 \<longleftrightarrow> is_single m" "digit m = Suc 0 \<longleftrightarrow> is_single m"
  "digit m = 2 \<longleftrightarrow> is_double m" "digit m \<le> 2" "\<not> is_double m \<longleftrightarrow> digit m \<le> 1"
  by (cases m; simp)+

lemma weight_append: "weight (xs @ ys) = weight xs + 2 ^ length xs * weight ys"
  by (induction xs) (simp_all add: algebra_simps)

lemma weight_replicate [simp]: "weight (replicate n Vacant) = 0"
  by (induction n) simp_all

lemma weight_pad [simp]: "weight (pad_levels i ms) = weight ms"
  by (simp add: pad_levels_def weight_append)

lemma weight_split:
  "i < length ms \<Longrightarrow> weight ms = weight (take i ms) + digit (ms ! i) * 2 ^ i + 2 ^ Suc i * weight (drop (Suc i) ms)"
  by (subst id_take_nth_drop [of i ms]) (simp_all add: weight_append algebra_simps)

lemma weight_update:
  assumes "i < length ms"
  shows "weight (ms[i := s]) + digit (ms ! i) * 2 ^ i = weight ms + digit s * 2 ^ i"
proof -
  have "weight (ms[i := s]) = weight (take i ms) + digit s * 2 ^ i + 2 ^ Suc i * weight (drop (Suc i) ms)"
    using assms by (subst weight_split [of i]) simp_all
  then show ?thesis using weight_split [OF assms] by simp
qed

lemma weight_take_mono: "weight (take k ms) \<le> weight ms"
proof -
  have "weight (take k ms @ drop k ms) = weight (take k ms) + 2 ^ length (take k ms) * weight (drop k ms)"
    by (rule weight_append)
  then show ?thesis by simp
qed

lemma weight_bound: "(\<forall>m \<in> set ms. \<not> is_double m) \<Longrightarrow> weight ms < 2 ^ length ms"
  by (induction ms) (auto simp: digit_kinds)

lemma weight_zero: "weight ms = 0 \<longleftrightarrow> (\<forall>m \<in> set ms. m = Vacant)"
proof (induction ms)
  case (Cons m ms)
  then show ?case by (cases m) simp_all
qed simp

lemma top_held_length:
  assumes "top_held ms" and "ms \<noteq> []"
  shows "2 ^ (length ms - 1) \<le> weight ms"
proof -
  have "\<not> is_vacant (last ms)" using assms by (simp add: top_held_def)
  then have "1 \<le> digit (last ms)" by (cases "last ms") simp_all
  moreover have "weight ms = weight (butlast ms) + 2 ^ length (butlast ms) * digit (last ms)"
    using assms(2) weight_append [of "butlast ms" "[last ms]"] by simp
  ultimately show ?thesis by (cases "digit (last ms)") simp_all
qed

lemma top_held_bound: "top_held ms \<Longrightarrow> weight ms < 2 ^ n \<Longrightarrow> length ms \<le> n"
  using top_held_length [of ms] by (cases "ms = []") (auto dest: le_less_trans)

lemma pad_levels_nth: "j < length (pad_levels i ms) \<Longrightarrow> pad_levels i ms ! j = (if j < length ms then ms ! j else Vacant)"
  by (auto simp: pad_levels_def nth_append)

lemma pad_levels_id: "i < length ms \<Longrightarrow> pad_levels i ms = ms"
  by (simp add: pad_levels_def)

lemma length_pad [simp]: "length (pad_levels i ms) = max (length ms) (i + 1)"
  by (simp add: pad_levels_def)

lemma take_pad [simp]: "k \<le> length ms \<Longrightarrow> take k (pad_levels i ms) = take k ms"
  by (simp add: pad_levels_def)

lemma pad_not_Nil [simp]: "pad_levels i ms \<noteq> []"
  by (cases ms) (simp_all add: pad_levels_def)

lemma safe_pad: "safe ms \<Longrightarrow> safe (pad_levels i ms)"
  by (auto simp: safe_def pad_levels_nth less_max_iff_disj)

lemma safe_no_double: "(\<forall>m \<in> set ms. \<not> is_double m) \<Longrightarrow> safe ms"
  by (simp add: safe_def)

lemma safe_below_vacant:
  assumes "\<forall>j < i. ms ! j = Vacant" and "i \<le> length ms" and "\<forall>k < length ms. is_double (ms ! k) \<longrightarrow> k = i"
  shows "safe ms"
proof -
  have "weight (take i ms) = 0" using assms(1,2) by (auto simp: weight_zero in_set_conv_nth)
  then show ?thesis using assms(3) by (auto simp: safe_def)
qed

text \<open>A carry: the merge at level \<open>j\<close> is replaced by one more digit at the next level.\<close>

definition carried :: "nat \<Rightarrow> ('b, 'm) merge_state \<Rightarrow> ('b, 'm) merge_state list \<Rightarrow> ('b, 'm) merge_state list" where
  "carried j s ms = (pad_levels (Suc j) (ms[j := Vacant]))[Suc j := s]"

lemma length_carried [simp]: "length (carried j s ms) = max (length ms) (Suc (Suc j))"
  by (simp add: carried_def)

lemma carried_nth:
  "j < length ms \<Longrightarrow> i < length (carried j s ms) \<Longrightarrow>
     carried j s ms ! i = (if i = Suc j then s else if i = j then Vacant else ms ! i)"
  by (auto simp: carried_def pad_levels_nth nth_list_update)

lemma weight_carried:
  assumes "j < length ms" and "is_double (ms ! j)" and "digit s = digit (pad_levels (Suc j) ms ! Suc j) + 1"
  shows "weight (carried j s ms) = weight ms"
proof -
  have d: "digit (ms ! j) = 2" using assms(2) digit_kinds(4) by blast
  have p: "pad_levels (Suc j) (ms[j := Vacant]) ! Suc j = pad_levels (Suc j) ms ! Suc j"
    using assms(1) by (auto simp: pad_levels_nth)
  have "weight (carried j s ms) + digit (pad_levels (Suc j) ms ! Suc j) * 2 ^ Suc j =
      weight (ms[j := Vacant]) + digit s * 2 ^ Suc j"
    using weight_update [of "Suc j" "pad_levels (Suc j) (ms[j := Vacant])" s]
    unfolding carried_def p by simp
  moreover have "weight (ms[j := Vacant]) + 2 * 2 ^ j = weight ms"
    using weight_update [OF assms(1), of Vacant] d by simp
  ultimately show ?thesis using assms(3) by (simp add: algebra_simps)
qed

lemma weight_take_carried:
  assumes "is_double (ms ! j)" and "digit s = digit (pad_levels (Suc j) ms ! Suc j) + 1"
    and "Suc j < k" and "k < length ms"
  shows "weight (take k (carried j s ms)) = weight (take k ms)"
proof -
  have "take k (carried j s ms) = carried j s (take k ms)"
    using assms(3,4) by (simp add: carried_def take_update_swap pad_levels_id)
  moreover have "digit s = digit (pad_levels (Suc j) (take k ms) ! Suc j) + 1"
    using assms(2-4) by (simp add: pad_levels_id)
  ultimately show ?thesis using weight_carried [of j "take k ms" s] assms by simp
qed

lemma digits_update: "i < length ms \<Longrightarrow> digits (ms[i := s]) + digit (ms ! i) = digits ms + digit s"
  using sum_list_update [of i "map digit ms" "digit s"] elem_le_sum_list [of i "map digit ms"]
  by (simp add: digits_def map_update)

lemma digits_pad [simp]: "digits (pad_levels i ms) = digits ms"
  by (simp add: pad_levels_def digits_def sum_list_replicate)

lemma digits_carried:
  assumes "j < length ms" and "is_double (ms ! j)" and "digit s = digit (pad_levels (Suc j) ms ! Suc j) + 1"
  shows "digits (carried j s ms) + 1 = digits ms"
proof -
  have "digit (ms ! j) = 2" using assms(2) digit_kinds(4) by blast
  moreover have "pad_levels (Suc j) (ms[j := Vacant]) ! Suc j = pad_levels (Suc j) ms ! Suc j"
    using assms(1) by (auto simp: pad_levels_nth)
  ultimately show ?thesis
    using digits_update [of "Suc j" "pad_levels (Suc j) (ms[j := Vacant])" s]
      digits_update [OF assms(1), of Vacant] assms(3)
    by (simp add: carried_def)
qed

lemma top_held_carried:
  assumes "j < length ms" and "digit s = digit (pad_levels (Suc j) ms ! Suc j) + 1" and "top_held ms"
  shows "top_held (carried j s ms)"
proof -
  have len: "length (carried j s ms) = max (length ms) (Suc (Suc j))" by simp
  then have ne: "carried j s ms \<noteq> []" by (cases "carried j s ms") simp_all
  have "\<not> is_vacant s" using assms(2) by (cases s) simp_all
  moreover have "last (carried j s ms) = (if length ms \<le> Suc (Suc j) then s else last ms)"
  proof (cases "length ms \<le> Suc (Suc j)")
    case True
    then show ?thesis using carried_nth [OF assms(1), of "Suc j" s] ne by (simp add: last_conv_nth)
  next
    case False
    then have "last ms = ms ! (length ms - 1)" by (intro last_conv_nth) auto
    then show ?thesis using False carried_nth [OF assms(1), of "length ms - 1" s] ne
      by (auto simp: last_conv_nth)
  qed
  ultimately show ?thesis using assms(1,3) by (auto simp: top_held_def)
qed

lemma weight_less: "weight ms + 2 \<le> 2 ^ Suc (length ms)"
proof (induction ms)
  case (Cons m ms)
  then show ?case using digit_kinds(5) [of m] by simp
qed simp

lemma safe_append1:
  "safe (xs @ [t]) \<longleftrightarrow> safe xs \<and> (is_double t \<longrightarrow> weight xs < 2 ^ length xs)"
  by (auto simp: safe_def nth_append less_Suc_eq)

lemma remove_at_append: "remove_at (length xs) (xs @ m # ys) = xs @ ys"
  by (simp add: remove_at_def)

lemma i32_wrap_small: "0 \<le> x \<Longrightarrow> x < 2 ^ 31 \<Longrightarrow> i32_wrap x = x"
  by (simp add: i32_wrap_def)

lemma i32_add_small: "0 \<le> a \<Longrightarrow> 0 \<le> b \<Longrightarrow> a + b < 2 ^ 31 \<Longrightarrow> i32_add a b = Inr (a + b)"
  by (simp add: i32_add_def)

lemma i32_shl_small: "i < 30 \<Longrightarrow> i32_shl 1 i = Inr (2 ^ i)" "i < 30 \<Longrightarrow> i32_shl 2 i = Inr (2 * 2 ^ i)"
proof -
  assume "i < 30"
  then have "(2 :: int) ^ i \<le> 2 ^ 29" by (intro power_increasing) simp_all
  then show "i32_shl 1 i = Inr (2 ^ i)" "i32_shl 2 i = Inr (2 * 2 ^ i)"
    using \<open>i < 30\<close> i32_wrap_small [of "2 ^ i"] i32_wrap_small [of "2 * 2 ^ i"] by (simp_all add: i32_shl_def)
qed

text \<open>The level counts of \<^verbatim>\<open>tidy_layers\<close> stay in range for the levels below the second of 31.\<close>

lemma count_smaller_ok:
  assumes "i + length ms \<le> 29" and "0 \<le> a" and "a + 2 ^ i * int (weight ms) < 2 ^ 31"
  shows "count_smaller i a ms = Inr (a + 2 ^ i * int (weight ms))"
  using assms
proof (induction ms arbitrary: i a)
  case (Cons m ms)
  have i: "i < 30" using Cons.prems(1) by simp
  have w: "2 ^ i * int (weight (m # ms)) = 2 ^ i * int (digit m) + 2 ^ Suc i * int (weight ms)"
    by (simp add: algebra_simps)
  have nn: "0 \<le> (2 :: int) ^ Suc i * int (weight ms)" "0 < (2 :: int) ^ i" by simp_all
  have step: "(case m of Vacant \<Rightarrow> Inr a | Single _ \<Rightarrow> res_bind (i32_shl 1 i) (i32_add a)
      | Double _ \<Rightarrow> res_bind (i32_shl 2 i) (i32_add a)) = Inr (a + 2 ^ i * int (digit m))"
  proof (cases m)
    case (Single b)
    then have "2 ^ i * int (digit m) = 2 ^ i" by simp
    then have "a + 2 ^ i < 2 ^ 31" using Cons.prems(3) nn(1) unfolding w by linarith
    then show ?thesis using Single Cons.prems(2) i32_shl_small [OF i] by (simp add: i32_add_small)
  next
    case (Double v)
    then have "2 ^ i * int (digit m) = 2 * 2 ^ i" by simp
    then have "a + 2 * 2 ^ i < 2 ^ 31" using Cons.prems(3) nn(1) unfolding w by linarith
    then show ?thesis using Double Cons.prems(2) i32_shl_small [OF i] by (simp add: i32_add_small)
  qed simp
  have "count_smaller (Suc i) (a + 2 ^ i * int (digit m)) ms =
      Inr (a + 2 ^ i * int (digit m) + 2 ^ Suc i * int (weight ms))"
    using Cons.prems w by (intro Cons.IH) simp_all
  then show ?case using step w by simp
qed simp

text \<open>Rolling up leaves room at its level, and a merge at most at the next one.\<close>

definition rolled :: "nat \<Rightarrow> ('b, 'm) merge_state list \<Rightarrow> bool" where
  "rolled i ms \<longleftrightarrow> i < length ms \<and> (\<forall>j < i. ms ! j = Vacant) \<and> \<not> is_double (ms ! i) \<and>
     (\<forall>k < length ms. is_double (ms ! k) \<longrightarrow> k = Suc i \<and> ms ! i = Vacant) \<and>
     (Suc i < length ms \<longrightarrow> top_held ms)"

lemma rolled_weight:
  assumes "length ms1 = length ms" and "i < length ms"
    and "\<forall>k < length ms. ms1 ! k = (if k < i then Vacant else ms ! k)"
  shows "weight ms1 + weight (take i ms) = weight ms"
proof -
  have "drop (Suc i) ms1 = drop (Suc i) ms" using assms(1,3) by (intro nth_equalityI) simp_all
  moreover have "take i ms1 = replicate i Vacant" using assms by (intro nth_equalityI) simp_all
  ultimately show ?thesis using weight_split [of i ms1] weight_split [of i ms] assms by simp
qed

lemma top_held_update: "i < length ms \<Longrightarrow> \<not> is_vacant s \<Longrightarrow> Suc i < length ms \<longrightarrow> top_held ms \<Longrightarrow> top_held (ms[i := s])"
  by (cases "i = length ms - 1") (auto simp: top_held_def last_list_update)

text \<open>
  With 31 levels the shift of \<^verbatim>\<open>tidy_layers\<close> reaches the sign bit, and its comparison is false.
\<close>

lemma i32_limit:
  assumes "n \<le> 31"
  shows "\<exists>limit. i32_shl 1 n = Inr limit \<and> (int w \<le> limit div 8 \<longrightarrow> w < 2 ^ (n - 2))"
proof (cases "n = 31")
  case True
  then show ?thesis by (simp add: i32_shl_def i32_wrap_def)
next
  case False
  then have "n \<le> 30" using assms by simp
  then have "(2 :: int) ^ n \<le> 2 ^ 30" by (intro power_increasing) simp_all
  then have shl: "i32_shl 1 n = Inr (2 ^ n)"
    using i32_wrap_small [of "2 ^ n"] \<open>n \<le> 30\<close> by (simp add: i32_shl_def)
  have "w < 2 ^ (n - 2)" if "int w \<le> 2 ^ n div 8"
  proof (cases "n < 3")
    case True
    then have "n = 0 \<or> n = 1 \<or> n = 2" by auto
    then show ?thesis using that by auto
  next
    case False
    then have "n - 2 = Suc (n - 3)" "n = 3 + (n - 3)" by simp_all
    then have "(2 :: int) ^ n = 8 * 2 ^ (n - 3)" using power_add [of "2 :: int" 3 "n - 3"] by simp
    then have "int w \<le> 2 ^ (n - 3)" using that by simp
    then have "w \<le> 2 ^ (n - 3)" by (metis of_nat_le_iff of_nat_numeral of_nat_power)
    moreover have "(2 :: nat) ^ (n - 3) < 2 ^ (n - 2)" using \<open>n - 2 = Suc (n - 3)\<close> by simp
    ultimately show ?thesis by (rule le_less_trans)
  qed
  then show ?thesis using shl by simp
qed

section \<open>Eager mergers\<close>

text \<open>
  A merger is eager when every call of \<^verbatim>\<open>work\<close> finishes the merge, as the one of \<^verbatim>\<open>OrdZSet\<close> does. The
  time bounds of a batch are not empty.
\<close>

locale eager_batch = mergeable_batch bt wf siz content minv keep key_of
  for bt :: "('b, 'm, 'k::linorder, 'v, 't) batch_ops"
    and wf :: "'b \<Rightarrow> bool"
    and siz :: "'b \<Rightarrow> nat"
    and content :: "'b \<Rightarrow> 'x \<Rightarrow> 'r::comm_monoid_add"
    and minv :: "'v option \<Rightarrow> 'm \<Rightarrow> 'b \<Rightarrow> 'b \<Rightarrow> bool"
    and keep :: "'v option \<Rightarrow> 'x \<Rightarrow> bool"
    and key_of :: "'x \<Rightarrow> 'k" +
  assumes eager: "wf b1 \<Longrightarrow> wf b2 \<Longrightarrow> minv lvb m b1 b2 \<Longrightarrow>
      bt_work bt m b1 b2 lvb fuel = ok (m', fuel') \<Longrightarrow> fuel' > 0"
    and times: "wf b \<Longrightarrow> \<not> antichain_ref_eq (bt_lower bt b) (bt_upper bt b)"
begin

lemma eager_complete:
  assumes "state_ok lvb m"
  shows "\<exists>m'. mg_work bt m lvb fuel = ok m' \<and> is_complete m' = is_double m \<and> (\<not> is_double m \<longrightarrow> m' = m)"
proof (cases m)
  case (Double v)
  show ?thesis
  proof (cases v)
    case (InProgress b1 b2 merger)
    then have wf: "wf b1" "wf b2" "minv lvb merger b1 b2" using assms Double by simp_all
    obtain m' fuel' where w: "bt_work bt merger b1 b2 lvb fuel = ok (m', fuel')"
      "if fuel' > 0 then \<exists>b. bt_done bt m' = Inr b \<and> wf b \<and> siz b \<le> siz b1 + siz b2 \<and>
           (\<forall>x. keep lvb x \<longrightarrow> content b x = content b1 x + content b2 x)
         else minv lvb m' b1 b2" using work [OF wf] by blast
    then show ?thesis using eager [OF wf w(1)] Double InProgress by auto
  qed (use Double in simp)
qed simp_all

lemma carry_ok:
  assumes "states_ok lvb ms" and "j < length ms" and "\<not> is_double (pad_levels (Suc j) ms ! Suc j)"
  shows "\<exists>s. run_bind (complete_at bt lvb j ms) (\<lambda>(b, ms). insert_at bt b (j + 1) ms) = ok (carried j s ms) \<and>
    digit s = digit (pad_levels (Suc j) ms ! Suc j) + 1"
proof -
  obtain b where b: "complete_at bt lvb j ms = ok (b, ms[j := Vacant])" "opt_ok b"
    using complete_at_ok [OF assms(1,2)] by blast
  have v: "states_ok lvb (ms[j := Vacant])" using assms(1) by (simp add: states_ok_update)
  have p: "pad_levels (Suc j) (ms[j := Vacant]) ! Suc j = pad_levels (Suc j) ms ! Suc j"
    using assms(2) by (auto simp: pad_levels_nth)
  obtain s where s: "insert_at bt b (Suc j) (ms[j := Vacant]) = ok (carried j s ms)"
    "is_double s = is_single (pad_levels (Suc j) ms ! Suc j)" "\<not> is_vacant s"
    using insert_at_ok [OF v b(2), of "Suc j"] assms(3) unfolding p carried_def by auto
  have "digit s = digit (pad_levels (Suc j) ms ! Suc j) + 1"
    using s(2,3) assms(3) by (cases s; cases "pad_levels (Suc j) ms ! Suc j") simp_all
  then show ?thesis using b(1) s(1) by auto
qed

text \<open>Applying fuel from level \<open>j\<close> on, when no merge is below it.\<close>

lemma apply_fuel_loop_ok:
  assumes "states_ok lvb ms" and "j \<le> n" and "length ms = n \<or> j = n"
    and "\<forall>i < length ms. i < j \<or> j = n \<longrightarrow> \<not> is_double (ms ! i)"
    and "\<forall>k < length ms. j < k \<and> is_double (ms ! k) \<longrightarrow> weight (take k ms) < 2 ^ k"
  shows "\<exists>ms'. apply_fuel_loop bt lvb fuel [j..<n] ms = ok ms' \<and> (\<forall>m \<in> set ms'. \<not> is_double m) \<and>
    weight ms' = weight ms \<and> digits ms' \<le> digits ms \<and> (top_held ms \<longrightarrow> top_held ms') \<and>
    ((\<exists>m \<in> set ms. is_double m) \<longrightarrow> digits ms' < digits ms)"
  using assms
proof (induction "n - j" arbitrary: j ms)
  case 0
  then show ?case by (auto simp: in_set_conv_nth)
next
  case (Suc d)
  have j: "j < n" "length ms = n" using Suc.hyps(2) Suc.prems(3) by auto
  have idx: "[j..<n] = j # [Suc j..<n]" using j(1) by (rule upt_conv_Cons)
  obtain m' where m': "mg_work bt (ms ! j) lvb fuel = ok m'" "is_complete m' = is_double (ms ! j)"
    "\<not> is_double (ms ! j) \<longrightarrow> m' = ms ! j"
    using eager_complete [OF states_ok_nth [OF Suc.prems(1), of j], of fuel] j by auto
  show ?case
  proof (cases "is_double (ms ! j)")
    case False
    then have "apply_fuel_loop bt lvb fuel [j..<n] ms = apply_fuel_loop bt lvb fuel [Suc j..<n] ms"
      using m' j idx by simp
    moreover have "\<forall>i < length ms. i < Suc j \<or> Suc j = n \<longrightarrow> \<not> is_double (ms ! i)"
      using Suc.prems(4) False j by (metis less_Suc_eq)
    ultimately show ?thesis using Suc.hyps(1) [of "Suc j" ms] Suc.hyps(2) Suc.prems j by auto
  next
    case True
    let ?ms = "ms[j := m']"
    have st: "states_ok lvb ?ms" using work_at(1) [OF Suc.prems(1) _ m'(1)] j by simp
    have d2: "digit (ms ! j) = 2" using True digit_kinds(4) by blast
    have dm: "is_double (?ms ! j)" using m'(2) True j by (cases m' rule: is_complete.cases) auto
    have pad: "pad_levels (Suc j) ?ms ! Suc j = pad_levels (Suc j) ms ! Suc j"
      using j by (auto simp: pad_levels_nth)
    have nd: "\<not> is_double (pad_levels (Suc j) ms ! Suc j)"
    proof
      assume d: "is_double (pad_levels (Suc j) ms ! Suc j)"
      then have l: "Suc j < length ms" by (cases "Suc j < length ms") (auto simp: pad_levels_nth)
      then have "weight (take (Suc j) ms) < 2 ^ Suc j"
        using d Suc.prems(5) [rule_format, of "Suc j"] by (simp add: pad_levels_id)
      then show False using d2 j by (simp add: take_Suc_conv_app_nth weight_append)
    qed
    have "carried j t ?ms = carried j t ms" for t by (simp add: carried_def)
    then obtain s where s: "run_bind (complete_at bt lvb j ?ms) (\<lambda>(b, ms). insert_at bt b (j + 1) ms) =
        ok (carried j s ms)" "digit s = digit (pad_levels (Suc j) ms ! Suc j) + 1"
      using carry_ok [OF st, of j] j nd pad by auto
    let ?c = "carried j s ms"
    have dn: "d = n - Suc j" using Suc.hyps(2) by simp
    have lc: "length ?c = n \<or> Suc j = n" using j by (simp add: max_def) linarith
    have jl: "j < length ms" using j by simp
    have eq: "apply_fuel_loop bt lvb fuel [j..<n] ms = apply_fuel_loop bt lvb fuel [Suc j..<n] ?c"
      using m' j s True idx by (simp add: Let_def)
    have stc: "states_ok lvb ?c" using moves_reinsert(1) [OF st _ s(1)] j by (simp add: moves_to_def)
    have none: "\<forall>i < length ?c. i < Suc j \<or> Suc j = n \<longrightarrow> \<not> is_double (?c ! i)"
    proof (intro allI impI)
      fix i assume i: "i < length ?c" "i < Suc j \<or> Suc j = n"
      have "\<not> is_double s" if "Suc j = n"
        using s(2) that j by (simp add: digit_kinds(6) pad_levels_nth)
      then show "\<not> is_double (?c ! i)"
        using i carried_nth [OF jl i(1)] Suc.prems(4) j by auto
    qed
    have below: "\<forall>k < length ?c. Suc j < k \<and> is_double (?c ! k) \<longrightarrow> weight (take k ?c) < 2 ^ k"
    proof (intro allI impI)
      fix k assume k: "k < length ?c" "Suc j < k \<and> is_double (?c ! k)"
      then have "k < length ms" "is_double (ms ! k)" using carried_nth [OF jl k(1)] by auto
      then show "weight (take k ?c) < 2 ^ k"
        using weight_take_carried [OF True s(2)] k Suc.prems(5) by auto
    qed
    have "\<exists>ms'. apply_fuel_loop bt lvb fuel [Suc j..<n] ?c = ok ms' \<and> (\<forall>m \<in> set ms'. \<not> is_double m) \<and>
      weight ms' = weight ?c \<and> digits ms' \<le> digits ?c \<and> (top_held ?c \<longrightarrow> top_held ms')"
      using Suc.hyps(1) [OF dn stc _ lc none below] j by auto
    then show ?thesis
      unfolding eq using weight_carried [OF jl True s(2)] digits_carried [OF jl True s(2)]
        top_held_carried [OF jl s(2)] by auto
  qed
qed

lemma apply_fuel_ok:
  assumes "states_ok (lower_val_bound sp) (merging sp)" and "safe (merging sp)" and "top_held (merging sp)"
  shows "\<exists>ms. apply_fuel bt fuel sp = ok (sp\<lparr>merging := ms\<rparr>) \<and> (\<forall>m \<in> set ms. \<not> is_double m) \<and>
    weight ms = weight (merging sp) \<and> top_held ms \<and>
    (if \<exists>m \<in> set (merging sp). is_double m then digits ms < digits (merging sp)
     else digits ms \<le> digits (merging sp))"
proof -
  have "\<exists>ms'. apply_fuel_loop bt (lower_val_bound sp) fuel [0..<length (merging sp)] (merging sp) = ok ms' \<and>
      (\<forall>m \<in> set ms'. \<not> is_double m) \<and> weight ms' = weight (merging sp) \<and>
      digits ms' \<le> digits (merging sp) \<and> (top_held (merging sp) \<longrightarrow> top_held ms') \<and>
      ((\<exists>m \<in> set (merging sp). is_double m) \<longrightarrow> digits ms' < digits (merging sp))"
    using assms(1,2) by (intro apply_fuel_loop_ok) (auto simp: safe_def)
  then show ?thesis using assms(3) by (auto simp: apply_fuel_def)
qed

lemma roll_up_loop_ok:
  assumes "states_ok lvb ms" and "opt_ok b" and "n \<le> length ms" and "\<forall>m \<in> set ms. \<not> is_double m"
  shows "\<exists>b' ms'. roll_up_loop bt lvb [i..<n] b ms = ok (b', ms') \<and> length ms' = length ms \<and>
    (\<forall>k < length ms. ms' ! k = (if i \<le> k \<and> k < n then Vacant else ms ! k))"
  using assms
proof (induction "n - i" arbitrary: i b ms)
  case (Suc d)
  have i: "i < n" "i < length ms" using Suc.hyps(2) Suc.prems(3) by simp_all
  have d: "d = n - Suc i" using Suc.hyps(2) by simp
  have p: "pad_levels i ms = ms" using i(2) by (rule pad_levels_id)
  obtain s where s: "insert_at bt b i ms = ok (ms[i := s])" "state_ok lvb s"
    using insert_at_ok [OF Suc.prems(1,2), of i] Suc.prems(4) i p by auto
  have st: "states_ok lvb (ms[i := s])" using Suc.prems(1) s(2) by (rule states_ok_update)
  obtain b2 where b2: "complete_at bt lvb i (ms[i := s]) = ok (b2, ms[i := Vacant])" "opt_ok b2"
    using complete_at_ok [OF st, of i] i by auto
  have v: "states_ok lvb (ms[i := Vacant])" using Suc.prems(1) by (simp add: states_ok_update)
  have nd: "\<forall>m \<in> set (ms[i := Vacant]). \<not> is_double m"
    using Suc.prems(4) by (auto dest: set_update_subset_insert [THEN subsetD])
  obtain b' ms' where r: "roll_up_loop bt lvb [Suc i..<n] b2 (ms[i := Vacant]) = ok (b', ms')"
    "length ms' = length ms"
    "\<forall>k < length ms. ms' ! k = (if Suc i \<le> k \<and> k < n then Vacant else ms[i := Vacant] ! k)"
    using Suc.hyps(1) [OF d v b2(2) _ nd] Suc.prems(3) by auto
  have idx: "[i..<n] = i # [Suc i..<n]" using i(1) by (rule upt_conv_Cons)
  have "\<forall>k < length ms. ms' ! k = (if i \<le> k \<and> k < n then Vacant else ms ! k)"
    using r(3) i by (auto simp: nth_list_update)
  then show ?case using s(1) b2(1) r(1,2) idx by simp
qed auto

lemma roll_up_levels_ok:
  assumes "states_ok lvb ms" and nd: "\<forall>m \<in> set ms. \<not> is_double m" and "i < length ms"
    and th: "Suc i < length ms \<longrightarrow> top_held ms"
  shows "\<exists>ms'. run_bind (roll_up_loop bt lvb [0..<i] None ms) (\<lambda>(merged, ms).
      run_bind (insert_at bt merged i ms) (\<lambda>ms.
      if is_double (ms ! i) then
        run_bind (complete_at bt lvb i ms) (\<lambda>(merged, ms). insert_at bt merged (i + 1) ms)
      else ok ms)) = ok ms' \<and> rolled i ms' \<and> weight ms' \<le> weight ms + 2 ^ i \<and> weight ms \<le> weight ms'"
proof -
  obtain b ms1 where l: "roll_up_loop bt lvb [0..<i] None ms = ok (b, ms1)" "length ms1 = length ms"
    "\<forall>k < length ms. ms1 ! k = (if k < i then Vacant else ms ! k)"
    using roll_up_loop_ok [OF assms(1) opt_simps(1), of i 0] nd assms(3) by auto
  have st1: "states_ok lvb ms1" "opt_ok b" using roll_up_loop_returns [OF assms(1) opt_simps(1) l(1)] by auto
  have i: "i < length ms1" using l(2) assms(3) by simp
  have nd1: "\<not> is_double (ms1 ! k)" if "k < length ms1" for k
    using l that bspec [OF nd, of "ms ! k"] by simp
  have pi: "pad_levels i ms1 = ms1" using i by (rule pad_levels_id)
  obtain s where s: "insert_at bt b i ms1 = ok (ms1[i := s])" "state_ok lvb s" "\<not> is_vacant s"
    "is_double s = is_single (ms1 ! i)"
    using insert_at_ok [OF st1, of i] nd1 [OF i] unfolding pi by auto
  let ?ms = "ms1[i := s]"
  have st2: "states_ok lvb ?ms" using st1(1) s(2) by (rule states_ok_update)
  have dig: "digit s = digit (ms1 ! i) + 1"
    using s(3,4) nd1 [OF i] by (cases s; cases "ms1 ! i") auto
  have th2: "top_held ?ms"
  proof (rule top_held_update [OF i s(3)], rule impI)
    assume le: "Suc i < length ms1"
    then have "ms1 ! (length ms1 - 1) = ms ! (length ms - 1)" "ms \<noteq> []" "ms1 \<noteq> []" using l(2,3) by auto
    then show "top_held ms1" using th le l(2) by (simp add: top_held_def last_conv_nth)
  qed
  have "weight (take i ms) < 2 ^ i"
    using weight_bound [of "take i ms"] nd assms(3) by (auto dest: in_set_takeD)
  then have w2: "weight ?ms \<le> weight ms + 2 ^ i" "weight ms \<le> weight ?ms"
    using weight_update [OF i, of s] dig rolled_weight [OF l(2) assms(3) l(3)] by (simp_all add: algebra_simps)
  have below: "?ms ! j = Vacant" if "j < i" for j using that l(2,3) i by simp
  have other: "\<not> is_double (?ms ! k)" if "k < length ms1" "k \<noteq> i" for k using that nd1 by simp
  show ?thesis
  proof (cases "is_double s")
    case False
    then have "rolled i ?ms" using other below i th2 by (auto simp: rolled_def nth_list_update)
    then show ?thesis using False l(1) s(1) i w2 by auto
  next
    case True
    have il: "i < length ?ms" using i by simp
    have "\<not> is_double (pad_levels (Suc i) ?ms ! Suc i)" using other by (auto simp: pad_levels_nth)
    then obtain t where t: "run_bind (complete_at bt lvb i ?ms) (\<lambda>(b, ms). insert_at bt b (i + 1) ms) =
        ok (carried i t ?ms)" "digit t = digit (pad_levels (Suc i) ?ms ! Suc i) + 1"
      using carry_ok [OF st2 il] by auto
    have d: "is_double (?ms ! i)" using True i by simp
    have ck: "carried i t ?ms ! k = (if k = Suc i then t else if k = i then Vacant else ?ms ! k)"
      if "k < length (carried i t ?ms)" for k using carried_nth [OF il that] .
    have "\<not> is_double (carried i t ?ms ! k)" if "k < length (carried i t ?ms)" "k \<noteq> Suc i" for k
    proof -
      have "k = i \<or> k < length ms1" using that i by (auto simp: less_max_iff_disj less_Suc_eq)
      then show ?thesis using ck [OF that(1)] that(2) other by auto
    qed
    moreover have "\<forall>j < i. carried i t ?ms ! j = Vacant" using ck below by simp
    moreover have "carried i t ?ms ! i = Vacant" using ck by simp
    ultimately have "rolled i (carried i t ?ms)"
      using top_held_carried [OF il t(2) th2] unfolding rolled_def by (fastforce simp: less_max_iff_disj)
    then show ?thesis using True l(1) s(1) t(1) i w2 weight_carried [OF il d t(2)] by auto
  qed
qed

lemma roll_up_ok:
  assumes "states_ok (lower_val_bound sp) (merging sp)" and "\<forall>m \<in> set (merging sp). \<not> is_double m"
    and "top_held (merging sp)"
  shows "\<exists>ms. roll_up bt i sp = ok (sp\<lparr>merging := ms\<rparr>) \<and> rolled i ms \<and>
    weight ms \<le> weight (merging sp) + 2 ^ i \<and> weight (merging sp) \<le> weight ms"
proof -
  let ?lvb = "lower_val_bound sp" and ?p = "pad_levels i (merging sp)"
  have nd: "\<forall>m \<in> set ?p. \<not> is_double m" using assms(2) by (auto simp: pad_levels_def)
  have th: "Suc i < length ?p \<longrightarrow> top_held ?p" using assms(3) by (auto simp: pad_levels_def)
  show ?thesis
  proof (cases "list_ex (\<lambda>m. \<not> is_vacant m) (take i ?p)")
    case False
    then have "\<forall>m \<in> set (take i ?p). is_vacant m" by (simp add: list_ex_iff)
    then have "is_vacant (?p ! j)" if "j < i" for j using that nth_mem [of j "take i ?p"] by auto
    then have "\<forall>j < i. ?p ! j = Vacant" by (metis is_vacant.elims(2))
    then have "rolled i ?p" using nd th by (auto simp: rolled_def)
    then show ?thesis using False by (auto simp: roll_up_def Let_def)
  next
    case True
    have "states_ok ?lvb ?p" "i < length ?p" using assms(1) by simp_all
    from roll_up_levels_ok [OF this(1) nd this(2) th]
    obtain ms' where r: "run_bind (roll_up_loop bt ?lvb [0..<i] None ?p) (\<lambda>(merged, ms).
        run_bind (insert_at bt merged i ms) (\<lambda>ms.
        if is_double (ms ! i) then
          run_bind (complete_at bt ?lvb i ms) (\<lambda>(merged, ms). insert_at bt merged (i + 1) ms)
        else ok ms)) = ok ms'" "rolled i ms'"
      "weight ms' \<le> weight ?p + 2 ^ i" "weight ?p \<le> weight ms'" by blast
    have "roll_up bt i sp = ok (sp\<lparr>merging := ms'\<rparr>)"
      using r(1) True by (auto simp: roll_up_def Let_def run_bind_eq_ok split: if_splits)
    then show ?thesis using r(2-4) by auto
  qed
qed

section \<open>Tidying\<close>

lemma tidy_loop_ok:
  assumes "states_ok lvb ms" and "safe ms" and "ms \<noteq> []" and "is_single (last ms)" and "length ms \<le> 31"
  shows "\<exists>ms'. tidy_loop bt l ms = ok ms' \<and> safe ms' \<and> top_held ms' \<and> weight ms' \<le> weight ms \<and>
    digits ms' \<le> digits ms"
  using assms
proof (induction "length ms" arbitrary: ms rule: less_induct)
  case (less ms)
  have nv: "\<not> is_vacant (last ms)" using less.prems(4) by (cases "last ms") simp_all
  then have stay: "safe ms \<and> top_held ms \<and> weight ms \<le> weight ms \<and> digits ms \<le> digits ms"
    using less.prems(2) by (simp add: top_held_def)
  show ?case
  proof (cases "l < length ms - 1")
    case False
    then show ?thesis using stay by (subst tidy_loop.simps) (simp add: Let_def)
  next
    case True
    obtain ys t where ys: "ms = ys @ [t]" using less.prems(3) by (metis append_butlast_last_id)
    then have "ys \<noteq> []" using True by auto
    then obtain xs m where xs: "ys = xs @ [m]" by (metis append_butlast_last_id)
    have ms: "ms = xs @ [m, t]" using ys xs by simp
    have t: "is_single t" using less.prems(4) ms by simp
    have n: "length xs + 2 = length ms" "length ms - 2 = length xs" using ms by simp_all
    have safe: "safe xs" "safe (xs @ [t])"
      using less.prems(2) t unfolding ys xs safe_append1 by (cases t; simp)+
    have rem: "remove_at (length ms - 2) ms = xs @ [t]" unfolding n(2) using ms by (simp add: remove_at_append)
    have smaller: "weight (xs @ [t]) \<le> weight ms" "digits (xs @ [t]) \<le> digits ms"
      unfolding ms by (simp_all add: weight_append digits_def)
    have st: "states_ok lvb (xs @ [t])" using less.prems(1) ms by (simp add: states_ok_def)
    have shrink: ?thesis if "tidy_loop bt l ms = tidy_loop bt l (xs @ [t])"
      using less.hyps [OF _ st safe(2)] t less.prems(5) n that smaller by fastforce
    have nth: "ms ! (length ms - 2) = m" unfolding n(2) using ms by simp
    show ?thesis
    proof (cases m)
      case Vacant
      then show ?thesis using True nth rem by (intro shrink, subst tidy_loop.simps) (simp add: Let_def)
    next
      case (Double v)
      then show ?thesis using True nth stay by (subst tidy_loop.simps) (simp add: Let_def)
    next
      case (Single b)
      show ?thesis
      proof (cases b)
        case None
        then show ?thesis using Single True nth rem by (intro shrink, subst tidy_loop.simps) (simp add: Let_def)
      next
        case (Some batch)
        have "(2 :: nat) ^ Suc (length xs) \<le> 2 ^ 30" using less.prems(5) n by (intro power_increasing) simp_all
        then have "weight xs < 2 ^ 30" using weight_less [of xs] by simp
        then have c: "count_smaller 0 0 (take (length ms - 2) ms) = Inr (int (weight xs))"
          using count_smaller_ok [of 0 xs 0] n less.prems(5) ms by simp
        obtain limit where limit: "i32_shl 1 (length ms) = Inr limit"
          "int (weight xs) \<le> limit div 8 \<longrightarrow> weight xs < 2 ^ length xs"
          using i32_limit [OF less.prems(5), of "weight xs"] n by metis
        have pad: "pad_levels (length xs) (xs @ [t]) = xs @ [t]" by (simp add: pad_levels_id)
        have wf: "opt_ok (Some batch)" using less.prems(1) ms Single Some by (simp add: states_ok_def)
        have "\<not> is_double t" using t by (cases t) simp_all
        then obtain s where s: "insert_at bt (Some batch) (length xs) (xs @ [t]) = ok (xs @ [s])" "is_double s"
          using insert_at_ok [OF st wf, of "length xs"] t unfolding pad by auto
        have sz: "digit s = 2" "digit t = 1" "digit m = 1" using s(2) t Single digit_kinds(2,4) by auto
        have eq: "tidy_loop bt l ms = (if int (weight xs) \<le> limit div 8 then ok (xs @ [s]) else ok ms)"
          using True nth Single Some rem c limit(1) s(1) n(2) by (subst tidy_loop.simps) (simp add: Let_def)
        show ?thesis
        proof (cases "int (weight xs) \<le> limit div 8")
          case True
          then have "safe (xs @ [s])" using limit(2) safe(1) by (simp add: safe_append1)
          moreover have "top_held (xs @ [s])" using s(2) by (cases s) (simp_all add: top_held_def)
          moreover have "weight (xs @ [s]) \<le> weight ms" "digits (xs @ [s]) \<le> digits ms"
            unfolding ms using sz by (simp_all add: weight_append digits_def)
          ultimately show ?thesis using eq True by simp
        qed (use eq stay in simp)
      qed
    qed
  qed
qed

lemma tidy_layers_ok:
  assumes "states_ok (lower_val_bound sp) (merging sp)" and "safe (merging sp)" and "top_held (merging sp)"
    and "length (merging sp) \<le> 31" and "levels_siz (merging sp) < 2 ^ 63"
  shows "\<exists>ms. tidy_layers bt sp = ok (sp\<lparr>merging := ms\<rparr>) \<and> safe ms \<and> top_held ms \<and>
    weight ms \<le> weight (merging sp) \<and> digits ms \<le> digits (merging sp)"
proof (cases "merging sp \<noteq> [] \<and> is_single (last (merging sp))")
  case True
  obtain b where b: "last (merging sp) = Single b" using True by (cases "last (merging sp)") auto
  have mem: "last (merging sp) \<in> set (merging sp)" using True by simp
  then have wf: "opt_ok b" using assms(1) b by (auto simp: states_ok_def)
  have "state_siz (last (merging sp)) \<le> levels_siz (merging sp)"
    using mem unfolding levels_siz_def by (intro member_le_sum_list) simp_all
  then have "opt_siz b \<le> 2 ^ 63" using assms(5) b by simp
  then have p: "res_bind (mg_len bt (last (merging sp))) usize_next_power_of_two =
      Inr (2 ^ log_ceil (opt_siz b))"
    using b wf len by (cases b) (simp_all add: usize_next_power_of_two_def next_power_of_two_log)
  show ?thesis
    using tidy_loop_ok [OF assms(1,2), of "log_ceil (opt_siz b)"] True assms(4) p
    by (auto simp: tidy_layers_def Let_def)
next
  case False
  then have "tidy_layers bt sp = ok (sp\<lparr>merging := merging sp\<rparr>)" by (auto simp: tidy_layers_def Let_def)
  then show ?thesis using assms by blast
qed

section \<open>Introducing batches\<close>

definition spine_inv :: "('b, 'm, 'k, 'v, 't) spine \<Rightarrow> bool" where
  "spine_inv sp \<longleftrightarrow> states_ok (lower_val_bound sp) (merging sp) \<and> safe (merging sp) \<and> top_held (merging sp)"

lemma insert_rolled:
  assumes "states_ok lvb ms" and "opt_ok b" and r: "rolled i ms"
  shows "\<exists>s. insert_at bt b i ms = ok (ms[i := s]) \<and> safe (ms[i := s]) \<and> top_held (ms[i := s]) \<and>
    digit s = digit (ms ! i) + 1 \<and> weight (ms[i := s]) = weight ms + 2 ^ i"
proof -
  have i: "i < length ms" and nd: "\<not> is_double (ms ! i)" using r by (simp_all add: rolled_def)
  have pi: "pad_levels i ms = ms" using i by (rule pad_levels_id)
  obtain s where s: "insert_at bt b i ms = ok (ms[i := s])" "\<not> is_vacant s" "is_double s = is_single (ms ! i)"
    using insert_at_ok [OF assms(1,2), of i] nd unfolding pi by auto
  have dig: "digit s = digit (ms ! i) + 1" using s(2,3) nd by (cases s; cases "ms ! i") auto
  have w: "weight (ms[i := s]) = weight ms + 2 ^ i"
    using weight_update [OF i, of s] dig by (simp add: algebra_simps)
  have "take i ms = replicate i Vacant" using r by (intro nth_equalityI) (simp_all add: rolled_def)
  then have below: "weight (take i (ms[i := s])) = 0" by simp
  have "safe (ms[i := s])"
  proof (unfold safe_def, intro allI impI)
    fix k assume k: "k < length (ms[i := s])" "is_double (ms[i := s] ! k)"
    show "weight (take k (ms[i := s])) < 2 ^ k"
    proof (cases "k = i")
      case False
      then have "is_double (ms ! k)" "k < length ms" using k by simp_all
      then have v: "k = Suc i" "ms ! i = Vacant" using r unfolding rolled_def by blast+
      then have "weight (take k (ms[i := s])) = 2 ^ i"
        using below dig i weight_append [of "take i ms" "[s]"] by (simp add: take_Suc_conv_app_nth [of i])
      then show ?thesis using v by simp
    qed (use below in simp)
  qed
  moreover have "Suc i < length ms \<longrightarrow> top_held ms" using r unfolding rolled_def by blast
  then have "top_held (ms[i := s])" by (rule top_held_update [OF i s(2)])
  ultimately show ?thesis using s(1) dig w by blast
qed

text \<open>The steps of \<^verbatim>\<open>introduce_batch\<close> before the layers are tidied.\<close>

lemma introduce_steps:
  assumes inv: "spine_inv sp" and b: "opt_ok b"
    and fuel: "res_bind (usize_shl 8 i) (\<lambda>f. usize_mul f (sp_effort sp)) = Inr fuel"
  shows "\<exists>ms s. introduce_batch bt b i sp = tidy_layers bt (sp\<lparr>merging := ms[i := s]\<rparr>) \<and> rolled i ms \<and>
    states_ok (lower_val_bound sp) (ms[i := s]) \<and> safe (ms[i := s]) \<and> top_held (ms[i := s]) \<and>
    levels_siz (ms[i := s]) \<le> levels_siz (merging sp) + opt_siz b \<and> digit s = digit (ms ! i) + 1 \<and>
    weight (ms[i := s]) = weight ms + 2 ^ i \<and> weight ms \<le> weight (merging sp) + 2 ^ i \<and>
    weight (merging sp) \<le> weight ms"
proof -
  let ?lvb = "lower_val_bound sp"
  have st: "states_ok ?lvb (merging sp)" using inv by (simp add: spine_inv_def)
  obtain ms1 where a: "apply_fuel bt (usize_as_isize fuel) sp = ok (sp\<lparr>merging := ms1\<rparr>)"
    "\<forall>m \<in> set ms1. \<not> is_double m" "weight ms1 = weight (merging sp)" "top_held ms1"
    using apply_fuel_ok [OF st, of "usize_as_isize fuel"] inv by (auto simp: spine_inv_def)
  have m1: "moves_to ?lvb (merging sp) ms1 (\<lambda>_. 0) 0" using apply_fuel_returns [OF st a(1)] by simp
  then have st1: "states_ok (lower_val_bound (sp\<lparr>merging := ms1\<rparr>)) (merging (sp\<lparr>merging := ms1\<rparr>))"
    by (simp add: moves_to_def)
  obtain ms2 where r: "roll_up bt i (sp\<lparr>merging := ms1\<rparr>) = ok (sp\<lparr>merging := ms2\<rparr>)" "rolled i ms2"
    "weight ms2 \<le> weight ms1 + 2 ^ i" "weight ms1 \<le> weight ms2"
    using roll_up_ok [OF st1] a(2,4) by auto
  have m2: "moves_to ?lvb ms1 ms2 (\<lambda>_. 0) 0" using roll_up_returns [OF st1 r(1)] by simp
  obtain s where s: "insert_at bt b i ms2 = ok (ms2[i := s])" "safe (ms2[i := s])" "top_held (ms2[i := s])"
    "digit s = digit (ms2 ! i) + 1" "weight (ms2[i := s]) = weight ms2 + 2 ^ i"
    using insert_rolled [OF moves_ok [OF m2] b r(2)] by auto
  have m3: "moves_to ?lvb ms2 (ms2[i := s]) (opt_content b) (opt_siz b)"
    using moves_insert [OF moves_ok [OF m2] b s(1)] .
  have "introduce_batch bt b i sp = tidy_layers bt (sp\<lparr>merging := ms2[i := s]\<rparr>)"
    using fuel a(1) r(1) s(1) by (auto simp: introduce_batch_def res_bind_eq_Inr)
  moreover have "states_ok ?lvb (ms2[i := s])" "levels_siz (ms2[i := s]) \<le> levels_siz (merging sp) + opt_siz b"
    using m1 m2 m3 by (auto simp: moves_to_def)
  ultimately show ?thesis using r(2-4) s(2-5) a(3) by (intro exI [of _ ms2] exI [of _ s]) simp
qed

lemma introduce_batch_ok:
  assumes inv: "spine_inv sp" and b: "opt_ok b" and w: "weight (merging sp) + 2 * 2 ^ i < 2 ^ 31"
    and e: "sp_effort sp \<le> 2 ^ 30" and siz: "levels_siz (merging sp) + opt_siz b < 2 ^ 63"
  shows "\<exists>ms. introduce_batch bt b i sp = ok (sp\<lparr>merging := ms\<rparr>) \<and> spine_inv (sp\<lparr>merging := ms\<rparr>) \<and>
    weight ms \<le> weight (merging sp) + 2 * 2 ^ i"
proof -
  have "(2 :: nat) ^ i < 2 ^ 30" using w by simp
  then have "8 * 2 ^ i < (2 :: nat) ^ 33" by simp
  moreover from this e have "8 * 2 ^ i * sp_effort sp \<le> 2 ^ 33 * 2 ^ 30" by (intro mult_le_mono) simp_all
  moreover have "i < 30" using power_less_imp_less_exp [OF _ \<open>2 ^ i < 2 ^ 30\<close>] by simp
  ultimately have "res_bind (usize_shl 8 i) (\<lambda>f. usize_mul f (sp_effort sp)) = Inr (8 * 2 ^ i * sp_effort sp)"
    by (simp add: usize_shl_def usize_mul_def)
  from introduce_steps [OF inv b this] obtain ms where
    s: "introduce_batch bt b i sp = tidy_layers bt (sp\<lparr>merging := ms\<rparr>)"
    "states_ok (lower_val_bound sp) ms" "safe ms" "top_held ms" "levels_siz ms \<le> levels_siz (merging sp) + opt_siz b"
    "weight ms \<le> weight (merging sp) + 2 * 2 ^ i" by fastforce
  let ?sp = "sp\<lparr>merging := ms\<rparr>"
  have st: "states_ok (lower_val_bound ?sp) (merging ?sp)" using s(2) by simp
  obtain ms' where t: "tidy_layers bt ?sp = ok (sp\<lparr>merging := ms'\<rparr>)" "safe ms'" "top_held ms'" "weight ms' \<le> weight ms"
    using tidy_layers_ok [OF st] s(3-6) w siz top_held_bound [OF s(4), of 31] by auto
  have "states_ok (lower_val_bound sp) ms'" using tidy_layers_returns [OF st t(1)] by (simp add: moves_to_def)
  then show ?thesis using s(1,6) t by (auto simp: spine_inv_def)
qed

end

end
