(* ===== verification/Spine_Ops.thy ===== *)
theory Spine_Ops
  imports Spine_Levels
begin

text \<open>
  The operations of the trace over an eager batch type: an insertion always returns and adds the
  batch, the maintenance loop of \<^verbatim>\<open>consolidate\<close> ends, and what it returns is the whole content.
\<close>

lemma reduced_loop_cases:
  "reduced_loop bt c (m # ms) = (if is_double m then Inr False
     else res_bind (mg_len bt m) (\<lambda>n. if c + (if n > 0 then 1 else 0) > 1 then Inr False
       else reduced_loop bt (c + (if n > 0 then 1 else 0)) ms))"
  by (cases "mg_len bt m") (simp_all add: Let_def)

lemma log_ceil_power_pred: "log_ceil (2 ^ 63 - 1) = 63"
  by (simp add: log_ceil_def bit_length.simps)

lemma usize_next_power_of_two_max:
  "usize_next_power_of_two (isize_as_usize isize_max) = Inr (2 ^ 63)"
  using log_ceil_power_pred
  by (simp add: usize_next_power_of_two_def isize_as_usize_def isize_max_def next_power_of_two_log)

lemma trailing_zeros_63: "trailing_zeros 9223372036854775808 = 63"
  using trailing_zeros_power [of 63] by simp

context eager_batch
begin

definition held :: "('b, 'm) merge_state list \<Rightarrow> nat" where
  "held ms = length (filter (\<lambda>m. state_siz m > 0) ms)"

lemma mg_len_ok: "state_ok lvb m \<Longrightarrow> \<not> is_double m \<Longrightarrow> mg_len bt m = Inr (state_siz m)"
  using len by (cases "(bt, m)" rule: mg_len.cases) auto

lemma reduced_loop_ok:
  assumes "states_ok lvb ms" and "c \<le> 1"
  shows "reduced_loop bt c ms = Inr ((\<forall>m \<in> set ms. \<not> is_double m) \<and> c + held ms \<le> 1)"
  using assms
proof (induction ms arbitrary: c)
  case (Cons m ms)
  have m: "state_ok lvb m" and ms: "states_ok lvb ms" using Cons.prems by (simp_all add: states_ok_def)
  show ?case
  proof (cases "is_double m")
    case False
    let ?c = "c + (if state_siz m > 0 then 1 else 0)"
    have h: "held (m # ms) = (if state_siz m > 0 then 1 else 0) + held ms" by (simp add: held_def)
    have "reduced_loop bt c (m # ms) = (if ?c > 1 then Inr False else reduced_loop bt ?c ms)"
      using False mg_len_ok [OF m False] by (simp add: reduced_loop_cases del: reduced_loop.simps)
    then show ?thesis using Cons.IH [OF ms, of ?c] False h by auto
  qed simp
qed (simp add: held_def)

lemma reduced_ok:
  assumes "spine_inv sp"
  shows "reduced bt sp = Inr ((\<forall>m \<in> set (merging sp). \<not> is_double m) \<and> held (merging sp) \<le> 1)"
  using reduced_loop_ok [of "lower_val_bound sp" "merging sp" 0] assms by (simp add: reduced_def spine_inv_def)

lemma find_single_ok:
  assumes "states_ok lvb ms" and "\<forall>m \<in> set ms. \<not> is_double m" and "held ms \<le> 1"
  shows "\<exists>b. find_single bt ms = Inr b \<and> opt_ok b \<and> opt_siz b \<le> levels_siz ms \<and>
    (\<forall>x. opt_content b x = levels_content ms x)"
  using assms
proof (induction ms)
  case (Cons m ms)
  have ms: "states_ok lvb ms" "\<forall>m \<in> set ms. \<not> is_double m" and m: "state_ok lvb m" "\<not> is_double m"
    using Cons.prems by (simp_all add: states_ok_def)
  have zero: "levels_content ms x = 0" if "held ms = 0" for x
    using that ms
  proof (induction ms)
    case (Cons m ms)
    then have "state_siz m = 0" "held ms = 0" by (auto simp: held_def split: if_splits)
    moreover have "state_content m x = 0"
      using Cons.prems \<open>state_siz m = 0\<close> empty by (cases m rule: state_batches.cases) (auto simp: states_ok_def)
    ultimately show ?case using Cons by (simp add: levels_content_def states_ok_def)
  qed (simp add: levels_content_def)
  have app: "levels_content (m # ms) x = state_content m x + levels_content ms x"
    "levels_siz (m # ms) = state_siz m + levels_siz ms" for x
    by (simp_all add: levels_content_def levels_siz_def)
  have skip: ?case if "find_single bt (m # ms) = find_single bt ms" "\<forall>x. state_content m x = 0"
    using Cons.IH [OF ms] Cons.prems(3) that app by (fastforce simp: held_def split: if_splits)
  show ?case
  proof (cases m)
    case Vacant
    then show ?thesis by (intro skip) simp_all
  next
    case (Single b)
    show ?thesis
    proof (cases b)
      case None
      then show ?thesis using Single by (intro skip) simp_all
    next
      case (Some batch)
      then have wf: "wf batch" using m Single by simp
      then have e: "bt_is_empty bt batch = Inr (siz batch = 0)" using len by (simp add: bt_is_empty_def)
      show ?thesis
      proof (cases "siz batch = 0")
        case True
        then show ?thesis using Single Some e empty [OF wf] by (intro skip) simp_all
      next
        case False
        then have "held ms = 0" using Cons.prems(3) Single Some by (simp add: held_def)
        then show ?thesis using Single Some e False wf zero app by simp
      qed
    qed
  qed (use m in simp)
qed (simp add: levels_content_def)

text \<open>Insertion.\<close>

definition above :: "'k option \<Rightarrow> 'x \<Rightarrow> bool" where
  "above bound x \<longleftrightarrow> (case bound of None \<Rightarrow> True | Some k \<Rightarrow> k \<le> key_of x)"

lemma spine_insert_ok:
  assumes inv: "spine_inv sp" and b: "wf b" and w: "weight (merging sp) + 4 * siz b < 2 ^ 31"
    and e: "sp_effort sp \<le> 2 ^ 30" and siz: "levels_siz (merging sp) + siz b < 2 ^ 63"
  shows "\<exists>sp'. spine_insert bt ts b sp = ok sp' \<and> spine_inv sp' \<and>
    weight (merging sp') \<le> weight (merging sp) + 4 * siz b \<and>
    levels_siz (merging sp') \<le> levels_siz (merging sp) + siz b \<and> sp_effort sp' = sp_effort sp \<and>
    lower_val_bound sp' = lower_val_bound sp \<and> lower_key_bound sp' = lower_key_bound sp \<and>
    sp_dirty sp' = (sp_dirty sp \<or> siz b \<noteq> 0) \<and>
    (\<forall>x. keep (lower_val_bound sp) x \<longrightarrow> levels_content (merging sp') x =
      levels_content (merging sp) x + (if above (lower_key_bound sp) x then content b x else 0))"
proof (cases "siz b = 0")
  case True
  then have "spine_insert bt ts b sp = ok sp"
    using times [OF b] len [OF b] by (simp add: spine_insert_def bt_is_empty_def)
  then show ?thesis using inv True empty [OF b] by simp
next
  case False
  obtain b' where b': "(case lower_key_bound sp of Some bound \<Rightarrow> bt_truncate_keys_below bt b bound | None \<Rightarrow> ok b) = ok b'"
    "wf b'" "siz b' \<le> siz b" "\<forall>x. content b' x = (if above (lower_key_bound sp) x then content b x else 0)"
    using truncate [OF b] b by (cases "lower_key_bound sp") (auto simp: above_def)
  let ?sp = "sp\<lparr>sp_dirty := True,
    sp_lower := antichain_ref_meet (ts_less_equal ts) (antichain_as_ref (sp_lower sp)) (bt_lower bt b'),
    sp_upper := antichain_ref_join (ts_less_equal ts) (ts_join ts) (antichain_as_ref (sp_upper sp)) (bt_upper bt b')\<rparr>"
  let ?i = "log_ceil (siz b')"
  have i: "2 ^ ?i \<le> 2 * siz b" using log_ceil_bounds(2) [of "siz b'"] b'(3) False
    by (cases "siz b' = 0") (auto simp: log_ceil_def)
  have inv': "spine_inv ?sp" using inv by (simp add: spine_inv_def)
  obtain ms where m: "introduce_batch bt (Some b') ?i ?sp = ok (?sp\<lparr>merging := ms\<rparr>)"
    "spine_inv (?sp\<lparr>merging := ms\<rparr>)" "weight ms \<le> weight (merging sp) + 2 * 2 ^ ?i"
    using introduce_batch_ok [OF inv', of "Some b'" ?i] i w e siz b'(2,3) by auto
  have st: "states_ok (lower_val_bound ?sp) (merging ?sp)" using inv by (simp add: spine_inv_def)
  have mv: "moves_to (lower_val_bound sp) (merging sp) ms (content b') (siz b')"
    using introduce_batch_returns [OF st _ m(1)] b'(2) by (simp add: opt_content_def [abs_def] opt_siz_def)
  have idx: "res_bind (bt_len bt b') usize_next_power_of_two = Inr (2 ^ ?i)"
    using len [OF b'(2)] siz b'(3) by (simp add: usize_next_power_of_two_def next_power_of_two_log)
  obtain r where r: "reduced bt (?sp\<lparr>merging := ms\<rparr>) = Inr r" using reduced_ok [OF m(2)] by blast
  let ?sp' = "if \<not> r then activate (?sp\<lparr>merging := ms\<rparr>) else ?sp\<lparr>merging := ms\<rparr>"
  have eq: "spine_insert bt ts b sp = ok ?sp'"
    using times [OF b] len [OF b] False b'(1) idx m(1) r
    by (simp add: spine_insert_def bt_is_empty_def Let_def)
  have "spine_inv ?sp'" using m(2) by (simp add: spine_inv_def activate_def)
  moreover have "\<forall>x. keep (lower_val_bound sp) x \<longrightarrow> levels_content (merging ?sp') x =
      levels_content (merging sp) x + (if above (lower_key_bound sp) x then content b x else 0)"
    using mv b'(4) by (simp add: activate_def moves_to_def)
  moreover have "levels_siz (merging ?sp') \<le> levels_siz (merging sp) + siz b"
    using mv b'(3) by (simp add: activate_def moves_to_def)
  moreover have "weight (merging ?sp') \<le> weight (merging sp) + 4 * siz b"
    using m(3) i by (simp add: activate_def)
  ultimately show ?thesis unfolding eq using False by (intro exI [of _ ?sp']) (simp add: activate_def)
qed

section \<open>Consolidation\<close>

lemma held_digits: "(\<forall>m \<in> set ms. \<not> is_double m) \<Longrightarrow> held ms \<le> digits ms"
proof (induction ms)
  case (Cons m ms)
  then show ?case by (cases m) (auto simp: held_def digits_def)
qed (simp add: held_def)

text \<open>One call of \<^verbatim>\<open>exert\<close> with the fuel of \<^verbatim>\<open>consolidate\<close>, on the levels.\<close>

definition consolidating :: "('b, 'm, 'k, 'v, 't) spine \<Rightarrow> bool" where
  "consolidating sp \<longleftrightarrow> spine_inv sp \<and> weight (merging sp) < 2 ^ 31 \<and> levels_siz (merging sp) < 2 ^ 63"

lemma consolidating_tidy:
  assumes "consolidating sp"
  shows "\<exists>ms. tidy_layers bt sp = ok (sp\<lparr>merging := ms\<rparr>) \<and> consolidating (sp\<lparr>merging := ms\<rparr>) \<and>
    digits ms \<le> digits (merging sp) \<and> weight ms \<le> weight (merging sp)"
proof -
  have st: "states_ok (lower_val_bound sp) (merging sp)" and inv: "safe (merging sp)" "top_held (merging sp)"
    and bounds: "weight (merging sp) < 2 ^ 31" "levels_siz (merging sp) < 2 ^ 63"
    using assms by (simp_all add: consolidating_def spine_inv_def)
  have "length (merging sp) \<le> 31" using inv(2) bounds(1) by (rule top_held_bound)
  then obtain ms where t: "tidy_layers bt sp = ok (sp\<lparr>merging := ms\<rparr>)" "safe ms" "top_held ms"
    "weight ms \<le> weight (merging sp)" "digits ms \<le> digits (merging sp)"
    using tidy_layers_ok [OF st inv _ bounds(2)] by blast
  have "moves_to (lower_val_bound sp) (merging sp) ms (\<lambda>_. 0) 0" using tidy_layers_returns [OF st t(1)] by simp
  then show ?thesis using t bounds by (auto simp: consolidating_def spine_inv_def moves_to_def)
qed

lemma consolidating_fuel:
  assumes "spine_inv sp" and "\<exists>m \<in> set (merging sp). is_double m"
  shows "\<exists>ms. apply_fuel bt fuel sp = ok (sp\<lparr>merging := ms\<rparr>) \<and> spine_inv (sp\<lparr>merging := ms\<rparr>) \<and>
    (\<forall>m \<in> set ms. \<not> is_double m) \<and> digits ms < digits (merging sp) \<and>
    (consolidating sp \<longrightarrow> consolidating (sp\<lparr>merging := ms\<rparr>))"
proof -
  have st: "states_ok (lower_val_bound sp) (merging sp)" using assms(1) by (simp add: spine_inv_def)
  obtain ms where m: "apply_fuel bt fuel sp = ok (sp\<lparr>merging := ms\<rparr>)" "\<forall>m \<in> set ms. \<not> is_double m"
    "weight ms = weight (merging sp)" "top_held ms" "digits ms < digits (merging sp)"
    using apply_fuel_ok [OF st] assms by (auto simp: spine_inv_def)
  have "moves_to (lower_val_bound sp) (merging sp) ms (\<lambda>_. 0) 0" using apply_fuel_returns [OF st m(1)] by simp
  then show ?thesis using m safe_no_double [OF m(2)] by (auto simp: consolidating_def spine_inv_def moves_to_def)
qed

text \<open>The empty batch that \<^verbatim>\<open>exert\<close> introduces at level 63 collects everything in one merge.\<close>

lemma consolidating_introduce:
  assumes "consolidating sp" and "merging sp \<noteq> []"
  shows "\<exists>ms. introduce_batch bt None 63 sp = ok (sp\<lparr>merging := ms\<rparr>) \<and> spine_inv (sp\<lparr>merging := ms\<rparr>) \<and>
    ms \<noteq> [] \<and> is_double (last ms) \<and> digits ms = 2"
proof -
  have inv: "spine_inv sp" and bound: "weight (merging sp) < 2 ^ 31"
    using assms(1) by (simp_all add: consolidating_def)
  have "2 ^ (length (merging sp) - 1) \<le> weight (merging sp)"
    using top_held_length assms(2) inv by (auto simp: spine_inv_def)
  then have pos: "0 < weight (merging sp)" by (metis gr0I le_zero_eq power_not_zero zero_neq_numeral)
  have fuel: "res_bind (usize_shl 8 63) (\<lambda>f. usize_mul f (sp_effort sp)) = Inr 0"
    by (simp add: usize_shl_def usize_mul_def)
  from introduce_steps [OF inv opt_simps(1) this] obtain ms s where
    s: "introduce_batch bt None 63 sp = tidy_layers bt (sp\<lparr>merging := ms[63 := s]\<rparr>)" "rolled 63 ms"
    "states_ok (lower_val_bound sp) (ms[63 := s])" "safe (ms[63 := s])" "top_held (ms[63 := s])"
    "digit s = digit (ms ! 63) + 1" "weight ms \<le> weight (merging sp) + 2 ^ 63" "weight (merging sp) \<le> weight ms"
    by blast
  have ge: "63 < length ms" and vac: "\<forall>j < 63. ms ! j = Vacant" and nd: "\<not> is_double (ms ! 63)"
    using s(2) unfolding rolled_def by blast+
  have "length ms = 64"
  proof (rule ccontr)
    assume "length ms \<noteq> 64"
    then have "64 < length ms" using ge by simp
    then have th: "top_held ms" "ms \<noteq> []" using s(2) unfolding rolled_def by auto
    have "(2 :: nat) ^ 64 \<le> 2 ^ (length ms - 1)" using \<open>64 < length ms\<close> by (intro power_increasing) simp_all
    then have "2 ^ 64 \<le> weight ms" using top_held_length [OF th] by (rule order_trans)
    then show False using s(7) bound by simp
  qed
  have ms: "ms = replicate 63 Vacant @ [ms ! 63]"
  proof (intro nth_equalityI)
    fix i assume "i < length ms"
    then have "i < 63 \<or> i = 63" using \<open>length ms = 64\<close> by linarith
    then show "ms ! i = (replicate 63 Vacant @ [ms ! 63]) ! i" using vac by (auto simp: nth_append)
  qed (simp add: \<open>length ms = 64\<close>)
  then have "weight ms = 2 ^ 63 * digit (ms ! 63)" by (metis weight_append weight_replicate length_replicate weight.simps add_0 mult_0_right add_0_right)
  then have "digit (ms ! 63) = 1" using pos s(8) nd digit_kinds(6) [of "ms ! 63"] by (cases "digit (ms ! 63)") simp_all
  then have ds: "is_double s" using s(6) digit_kinds(4) [of s] by simp
  have upd: "ms[63 := s] = replicate 63 Vacant @ [s]" by (subst ms) (simp add: list_update_append)
  have "tidy_layers bt (sp\<lparr>merging := ms[63 := s]\<rparr>) = ok (sp\<lparr>merging := ms[63 := s]\<rparr>)"
    using ds unfolding upd tidy_layers_def by (cases s) (simp_all add: Let_def)
  moreover have "digits (ms[63 := s]) = 2" using ds digit_kinds(4) [of s] unfolding upd by (simp add: digits_def sum_list_replicate)
  ultimately show ?thesis using s(1,3-5) ds upd by (auto simp: spine_inv_def)
qed

lemma spine_inv_activate [simp]: "spine_inv (activate sp) \<longleftrightarrow> spine_inv sp" "merging (activate sp) = merging sp"
  by (simp_all add: spine_inv_def activate_def)

lemma list_ex_is_double: "list_ex is_double ms \<longleftrightarrow> (\<exists>m \<in> set ms. is_double m)"
  by (simp add: list_ex_iff)

text \<open>The last step: everything is in the merge of the top level.\<close>

lemma exert_last:
  assumes "spine_inv sp" and "merging sp \<noteq> []" and "is_double (last (merging sp))" and "digits (merging sp) = 2"
  shows "\<exists>sp'. exert bt fuel sp = ok sp' \<and> spine_inv sp' \<and> reduced bt sp' = Inr True"
proof -
  have d: "\<exists>m \<in> set (merging sp). is_double m" using assms(2,3) by (metis last_in_set)
  have t: "tidy_layers bt sp = ok sp"
    using assms(3) by (cases "last (merging sp)") (simp_all add: tidy_layers_def Let_def)
  obtain ms where ms: "apply_fuel bt fuel sp = ok (sp\<lparr>merging := ms\<rparr>)" "spine_inv (sp\<lparr>merging := ms\<rparr>)"
    "\<forall>m \<in> set ms. \<not> is_double m" "digits ms < 2"
    using consolidating_fuel [OF assms(1) d] assms(4) by auto
  have "held ms \<le> 1" using held_digits [OF ms(3)] ms(4) by simp
  then have "reduced bt (activate (sp\<lparr>merging := ms\<rparr>)) = Inr True"
    using reduced_ok [of "activate (sp\<lparr>merging := ms\<rparr>)"] ms(2,3) by simp
  moreover have "exert bt fuel sp = ok (activate (sp\<lparr>merging := ms\<rparr>))"
    using t ms(1) d reduced_ok [OF assms(1)] by (auto simp: exert_def list_ex_is_double)
  ultimately show ?thesis using ms(2) by simp
qed

lemma exert_step:
  assumes "consolidating sp" and "reduced bt sp = Inr False"
  shows "\<exists>sp'. exert bt isize_max sp = ok sp' \<and> spine_inv sp' \<and>
    (reduced bt sp' = Inr True \<or> consolidating sp' \<and> digits (merging sp') < digits (merging sp) \<or>
     merging sp' \<noteq> [] \<and> is_double (last (merging sp')) \<and> digits (merging sp') = 2)"
proof -
  obtain ms where t: "tidy_layers bt sp = ok (sp\<lparr>merging := ms\<rparr>)" "consolidating (sp\<lparr>merging := ms\<rparr>)"
    "digits ms \<le> digits (merging sp)" using consolidating_tidy [OF assms(1)] by blast
  let ?sp = "sp\<lparr>merging := ms\<rparr>"
  have inv: "spine_inv ?sp" using t(2) by (simp add: consolidating_def)
  note red = reduced_ok [OF inv]
  have "reduced bt ?sp = Inr True \<or> reduced bt ?sp = Inr False" using red by auto
  then consider (red) "reduced bt ?sp = Inr True" | (double) "reduced bt ?sp = Inr False" "\<exists>m \<in> set ms. is_double m"
    | (single) "reduced bt ?sp = Inr False" "\<forall>m \<in> set ms. \<not> is_double m" by blast
  then show ?thesis
  proof cases
    case red
    then show ?thesis using t(1) inv by (auto simp: exert_def)
  next
    case double
    obtain ms' where f: "apply_fuel bt isize_max ?sp = ok (?sp\<lparr>merging := ms'\<rparr>)" "spine_inv (?sp\<lparr>merging := ms'\<rparr>)"
      "digits ms' < digits ms" "consolidating (?sp\<lparr>merging := ms'\<rparr>)"
      using consolidating_fuel [OF inv] double(2) t(2) by auto
    have "exert bt isize_max sp = ok (activate (?sp\<lparr>merging := ms'\<rparr>))"
      using t(1) double f(1) by (simp add: exert_def list_ex_is_double)
    then show ?thesis using f t(3) by (simp add: consolidating_def)
  next
    case single
    have "ms \<noteq> []" using single(1) red by (auto simp: held_def)
    then obtain ms' where i: "introduce_batch bt None 63 ?sp = ok (?sp\<lparr>merging := ms'\<rparr>)"
      "spine_inv (?sp\<lparr>merging := ms'\<rparr>)" "ms' \<noteq> []" "is_double (last ms')" "digits ms' = 2"
      using consolidating_introduce [OF t(2)] by auto
    have "exert bt isize_max sp = ok (activate (?sp\<lparr>merging := ms'\<rparr>))"
      using t(1) single i(1) by (simp add: exert_def list_ex_is_double usize_next_power_of_two_max trailing_zeros_63)
    then show ?thesis using i by simp
  qed
qed

lemma consolidate_loop_reduced: "reduced bt sp = Inr True \<Longrightarrow> consolidate_loop bt fuel sp = ok sp"
  by (subst consolidate_loop.simps) simp

lemma consolidate_loop_step:
  "reduced bt sp = Inr False \<Longrightarrow> exert bt fuel sp = ok sp' \<Longrightarrow> consolidate_loop bt fuel sp = consolidate_loop bt fuel sp'"
  by (subst consolidate_loop.simps) simp

text \<open>
  The loop of \<^verbatim>\<open>consolidate\<close> ends, since every round but the last two removes a digit, and it keeps
  the content.
\<close>

lemma consolidate_loop_ends:
  assumes "consolidating sp"
  shows "\<exists>sp'. consolidate_loop bt isize_max sp = ok sp' \<and> spine_inv sp' \<and> reduced bt sp' = Inr True \<and>
    moves_to (lower_val_bound sp) (merging sp) (merging sp') (\<lambda>_. 0) 0"
  using assms
proof (induction "digits (merging sp)" arbitrary: sp rule: less_induct)
  case less
  have inv: "spine_inv sp" using less.prems by (simp add: consolidating_def)
  then have st: "states_ok (lower_val_bound sp) (merging sp)" by (simp add: spine_inv_def)
  show ?case
  proof (cases "reduced bt sp = Inr True")
    case True
    then show ?thesis using inv consolidate_loop_reduced moves_refl [OF st] by blast
  next
    case False
    then have red: "reduced bt sp = Inr False" using reduced_ok [OF inv] by simp
    obtain sp' where sp': "exert bt isize_max sp = ok sp'" "spine_inv sp'"
      "reduced bt sp' = Inr True \<or> consolidating sp' \<and> digits (merging sp') < digits (merging sp) \<or>
       merging sp' \<noteq> [] \<and> is_double (last (merging sp')) \<and> digits (merging sp') = 2"
      using exert_step [OF less.prems red] by blast
    have eq: "consolidate_loop bt isize_max sp = consolidate_loop bt isize_max sp'"
      using red sp'(1) by (rule consolidate_loop_step)
    have m: "moves_to (lower_val_bound sp) (merging sp) (merging sp') (\<lambda>_. 0) 0"
      and l: "lower_val_bound sp' = lower_val_bound sp" using exert_returns [OF st sp'(1)] by simp_all
    have "reduced bt sp' = Inr True \<or> reduced bt sp' = Inr False" using reduced_ok [OF sp'(2)] by auto
    then consider (red) "reduced bt sp' = Inr True"
      | (less) "consolidating sp'" "digits (merging sp') < digits (merging sp)"
      | (last) "reduced bt sp' = Inr False" "merging sp' \<noteq> []" "is_double (last (merging sp'))" "digits (merging sp') = 2"
      using sp'(3) by blast
    then show ?thesis
    proof cases
      case red
      then show ?thesis unfolding eq using sp'(2) consolidate_loop_reduced m by blast
    next
      case less
      then show ?thesis unfolding eq using less.hyps [OF less(2,1)] moves_trans0 [OF m] l by auto
    next
      case last
      obtain sp2 where sp2: "exert bt isize_max sp' = ok sp2" "spine_inv sp2" "reduced bt sp2 = Inr True"
        using exert_last [OF sp'(2) last(2-4)] by blast
      have "states_ok (lower_val_bound sp') (merging sp')" using sp'(2) by (simp add: spine_inv_def)
      then have "moves_to (lower_val_bound sp) (merging sp) (merging sp2) (\<lambda>_. 0) 0"
        using exert_returns [OF _ sp2(1)] moves_trans0 [OF m] l by auto
      then show ?thesis
        unfolding eq using consolidate_loop_step [OF last(1) sp2(1)] consolidate_loop_reduced [OF sp2(3)] sp2 by simp
    qed
  qed
qed

lemma spine_consolidate_ok:
  assumes "consolidating sp"
  shows "\<exists>b. spine_consolidate bt sp = ok b \<and> opt_ok b \<and> opt_siz b \<le> levels_siz (merging sp) \<and>
    (\<forall>x. keep (lower_val_bound sp) x \<longrightarrow> opt_content b x = levels_content (merging sp) x)"
proof -
  obtain sp' where l: "consolidate_loop bt isize_max sp = ok sp'" "spine_inv sp'" "reduced bt sp' = Inr True"
    "moves_to (lower_val_bound sp) (merging sp) (merging sp') (\<lambda>_. 0) 0"
    using consolidate_loop_ends [OF assms] by blast
  have "\<forall>m \<in> set (merging sp'). \<not> is_double m" "held (merging sp') \<le> 1" using l(3) reduced_ok [OF l(2)] by auto
  then obtain b where "find_single bt (merging sp') = Inr b" "opt_ok b" "opt_siz b \<le> levels_siz (merging sp')"
    "\<forall>x. opt_content b x = levels_content (merging sp') x"
    using find_single_ok [OF moves_ok [OF l(4)]] by blast
  then show ?thesis using l(1,4) by (auto simp: spine_consolidate_def moves_to_def)
qed

text \<open>\<^verbatim>\<open>exert\<close> with an ordinary effort.\<close>

lemma exert_ok:
  assumes inv: "spine_inv sp" and w: "weight (merging sp) + 4 * max 1 (nat e) < 2 ^ 31" and "0 \<le> e"
    and eff: "sp_effort sp \<le> 2 ^ 30" and siz: "levels_siz (merging sp) < 2 ^ 63"
  shows "\<exists>sp'. exert bt e sp = ok sp' \<and> spine_inv sp' \<and>
    weight (merging sp') \<le> weight (merging sp) + 4 * max 1 (nat e) \<and>
    sp_effort sp' = sp_effort sp \<and> lower_key_bound sp' = lower_key_bound sp"
proof -
  have cons: "consolidating sp" using inv w siz by (simp add: consolidating_def)
  obtain ms where t: "tidy_layers bt sp = ok (sp\<lparr>merging := ms\<rparr>)" "consolidating (sp\<lparr>merging := ms\<rparr>)"
    and w1: "weight ms \<le> weight (merging sp)" using consolidating_tidy [OF cons] by blast
  let ?sp = "sp\<lparr>merging := ms\<rparr>"
  have st: "states_ok (lower_val_bound sp) (merging sp)" using inv by (simp add: spine_inv_def)
  have inv1: "spine_inv ?sp" using t(2) by (simp add: consolidating_def)
  have m1: "moves_to (lower_val_bound sp) (merging sp) ms (\<lambda>_. 0) 0" using tidy_layers_returns [OF st t(1)] by simp
  let ?i = "log_ceil (nat e)"
  have i: "2 * 2 ^ ?i \<le> 4 * max 1 (nat e)"
    using log_ceil_bounds(2) [of "nat e"] by (cases "nat e = 0") (auto simp: log_ceil_def)
  have "nat e \<le> 2 ^ 63" "e < 2 ^ 63" using w by simp_all
  then have p: "usize_next_power_of_two (isize_as_usize e) = Inr (2 ^ ?i)"
    using assms(3) by (simp add: usize_next_power_of_two_def isize_as_usize_def next_power_of_two_log)
  obtain ms' where f: "apply_fuel bt e ?sp = ok (?sp\<lparr>merging := ms'\<rparr>)" "\<forall>m \<in> set ms'. \<not> is_double m"
    "weight ms' = weight ms" "top_held ms'"
    using apply_fuel_ok [of ?sp e] inv1 by (auto simp: spine_inv_def)
  have "states_ok (lower_val_bound sp) ms'"
    using apply_fuel_returns [OF _ f(1)] inv1 by (simp add: spine_inv_def moves_to_def)
  then have inv2: "spine_inv (?sp\<lparr>merging := ms'\<rparr>)" using f(4) safe_no_double [OF f(2)] by (simp add: spine_inv_def)
  have sz1: "levels_siz ms < 2 ^ 63" using m1 siz by (simp add: moves_to_def)
  obtain ms2 where n: "introduce_batch bt None ?i ?sp = ok (?sp\<lparr>merging := ms2\<rparr>)"
    "spine_inv (?sp\<lparr>merging := ms2\<rparr>)" "weight ms2 \<le> weight ms + 2 * 2 ^ ?i"
    using introduce_batch_ok [OF inv1 opt_simps(1), of ?i] w1 i w eff sz1 by auto
  obtain r where r: "reduced bt ?sp = Inr r" using reduced_ok [OF inv1] by blast
  have "exert bt e sp = ok (if r then ?sp else if list_ex is_double ms then activate (?sp\<lparr>merging := ms'\<rparr>)
      else activate (?sp\<lparr>merging := ms2\<rparr>))"
    using t(1) r f(1) n(1) p by (simp add: exert_def)
  then show ?thesis using inv1 inv2 n(2,3) f(3) w1 i by (auto simp: activate_def [abs_def] spine_inv_def)
qed

end

end
