(* ===== verification/Column_Layer.thy ===== *)
theory Column_Layer
  imports ZSets Advance
begin

text \<open>
  The leaf layer of the batches, a struct of arrays: \<^verbatim>\<open>crates/dbsp/src/trace/layers/column_layer\<close>
  (\<^verbatim>\<open>mod.rs\<close>, \<^verbatim>\<open>builders.rs\<close>, \<^verbatim>\<open>cursor.rs\<close>, \<^verbatim>\<open>consumer.rs\<close>) with the default methods of the
  trait \<^verbatim>\<open>Trie\<close> of \<^verbatim>\<open>layers/mod.rs\<close>.

  A layer is two parallel vectors and a lower bound below which keys are truncated.
  \<^verbatim>\<open>assume_invariants\<close> is a debug assertion. Capacities are not part of the value. An operation
  that searches returns a \<open>run\<close>, since the search loop is a partial function.
\<close>

section \<open>The layer\<close>

record ('k, 'r) column_layer =
  cl_keys :: "'k list"
  cl_diffs :: "'r list"
  cl_lower_bound :: nat

definition cl_empty :: "('k, 'r) column_layer" where
  "cl_empty = \<lparr>cl_keys = [], cl_diffs = [], cl_lower_bound = 0\<rparr>"

definition cl_with_capacity :: "nat \<Rightarrow> ('k, 'r) column_layer" where
  "cl_with_capacity capacity = \<lparr>cl_keys = [], cl_diffs = [], cl_lower_bound = 0\<rparr>"

definition cl_assume_invariants :: "('k, 'r) column_layer \<Rightarrow> unit res" where
  "cl_assume_invariants self =
     (if length (cl_keys self) = length (cl_diffs self) \<and> cl_lower_bound self \<le> length (cl_keys self)
      then Inr () else Inl DebugAssert)"

definition cl_from_parts :: "'k list \<Rightarrow> 'r list \<Rightarrow> nat \<Rightarrow> ('k, 'r) column_layer res" where
  "cl_from_parts keys diffs lower_bound =
     (if length keys = length diffs \<and> lower_bound \<le> length keys
      then Inr \<lparr>cl_keys = keys, cl_diffs = diffs, cl_lower_bound = lower_bound\<rparr>
      else Inl DebugAssert)"

definition cl_len :: "('k, 'r) column_layer \<Rightarrow> nat res" where
  "cl_len self = res_map (\<lambda>_. length (cl_keys self)) (cl_assume_invariants self)"

definition cl_is_empty :: "('k, 'r) column_layer \<Rightarrow> bool res" where
  "cl_is_empty self = res_map (\<lambda>n. n = 0) (cl_len self)"

definition cl_truncate :: "('k, 'r) column_layer \<Rightarrow> nat \<Rightarrow> ('k, 'r) column_layer res" where
  "cl_truncate self len =
     res_bind (cl_assume_invariants self) (\<lambda>_.
     let self = self\<lparr>cl_keys := take len (cl_keys self), cl_diffs := take len (cl_diffs self),
                     cl_lower_bound := min (cl_lower_bound self) len\<rparr>
     in res_map (\<lambda>_. self) (cl_assume_invariants self))"

definition cl_truncate_below :: "('k, 'r) column_layer \<Rightarrow> nat \<Rightarrow> ('k, 'r) column_layer" where
  "cl_truncate_below self lower_bound =
     (if lower_bound > cl_lower_bound self
      then self\<lparr>cl_lower_bound := min lower_bound (length (cl_keys self))\<rparr> else self)"

definition cl_truncate_keys_below ::
  "('k::linorder, 'r) column_layer \<Rightarrow> 'k \<Rightarrow> ('k, 'r) column_layer option" where
  "cl_truncate_keys_below self lower_bound =
     map_option (cl_truncate_below self) (advance (cl_keys self) (\<lambda>k. k < lower_bound))"

definition cl_trie_keys :: "('k, 'r) column_layer \<Rightarrow> nat res" where
  "cl_trie_keys self = res_map (\<lambda>n. n - cl_lower_bound self) (cl_len self)"

definition cl_trie_is_empty :: "('k, 'r) column_layer \<Rightarrow> bool res" where
  "cl_trie_is_empty self = res_map (\<lambda>n. n = 0) (cl_trie_keys self)"

definition cl_tuples :: "('k, 'r) column_layer \<Rightarrow> nat res" where
  "cl_tuples self = res_map (\<lambda>n. n - cl_lower_bound self) (cl_len self)"

text \<open>
  \<^verbatim>\<open>retain\<close>: the elements below the lower bound are dropped first, so the loop starts with
  \<open>lower_bound\<close> deleted elements. \<open>None\<close> is a loop that does not end.
\<close>

partial_function (option) cl_process_loop ::
  "bool \<Rightarrow> nat \<Rightarrow> ('k \<Rightarrow> 'r \<Rightarrow> bool) \<Rightarrow> 'k list \<Rightarrow> 'r list \<Rightarrow> nat \<Rightarrow> nat \<Rightarrow>
   ('k list \<times> 'r list \<times> nat \<times> nat) option" where
  "cl_process_loop DELETED original_len retain keys diffs processed_len deleted_cnt =
     (if processed_len \<noteq> original_len then
        if \<not> retain (keys ! processed_len) (diffs ! processed_len) then
          if DELETED then
            cl_process_loop DELETED original_len retain keys diffs
              (processed_len + 1) (deleted_cnt + 1)
          else Some (keys, diffs, processed_len + 1, deleted_cnt + 1)
        else
          cl_process_loop DELETED original_len retain
            (if DELETED then keys[processed_len - deleted_cnt := keys ! processed_len] else keys)
            (if DELETED then diffs[processed_len - deleted_cnt := diffs ! processed_len] else diffs)
            (processed_len + 1) deleted_cnt
      else Some (keys, diffs, processed_len, deleted_cnt))"

definition cl_backshift :: "'a list \<Rightarrow> nat \<Rightarrow> nat \<Rightarrow> nat \<Rightarrow> 'a list" where
  "cl_backshift v processed_len deleted_cnt original_len =
     take (original_len - deleted_cnt)
       (if deleted_cnt > 0 then
          take (processed_len - deleted_cnt) v @
          take (original_len - processed_len) (drop processed_len v) @
          drop (processed_len - deleted_cnt + (original_len - processed_len)) v
        else v)"

definition cl_retain ::
  "('k, 'r) column_layer \<Rightarrow> ('k \<Rightarrow> 'r \<Rightarrow> bool) \<Rightarrow> ('k, 'r) column_layer run" where
  "cl_retain self retain =
     run_bind (lift_res (cl_len self)) (\<lambda>original_len.
     let lower_bound = cl_lower_bound self
     in run_bind
          (lift_opt
             (if lower_bound = 0
              then cl_process_loop False original_len retain (cl_keys self) (cl_diffs self)
                     lower_bound lower_bound
              else Some (cl_keys self, cl_diffs self, lower_bound, lower_bound)))
          (\<lambda>(keys, diffs, processed_len, deleted_cnt).
        run_bind
          (lift_opt (cl_process_loop True original_len retain keys diffs processed_len deleted_cnt))
          (\<lambda>(keys, diffs, processed_len, deleted_cnt).
        ok \<lparr>cl_keys = cl_backshift keys processed_len deleted_cnt original_len,
            cl_diffs = cl_backshift diffs processed_len deleted_cnt original_len,
            cl_lower_bound = 0\<rparr>)))"

section \<open>The cursor\<close>

text \<open>The position is signed: \<open>-1\<close> is a cursor that rolled over the left bound of the range.\<close>

record ('k, 'r) cl_cursor_state =
  cc_pos :: int
  cc_storage :: "('k, 'r) column_layer"
  cc_lower :: nat
  cc_upper :: nat

definition cc_new :: "nat \<Rightarrow> ('k, 'r) column_layer \<Rightarrow> nat \<times> nat \<Rightarrow> ('k, 'r) cl_cursor_state" where
  "cc_new pos storage bounds =
     \<lparr>cc_pos = int pos, cc_storage = storage, cc_lower = fst bounds, cc_upper = snd bounds\<rparr>"

definition cl_cursor_from ::
  "('k, 'r) column_layer \<Rightarrow> nat \<Rightarrow> nat \<Rightarrow> ('k, 'r) cl_cursor_state res" where
  "cl_cursor_from self lower upper =
     res_map (\<lambda>_. cc_new lower self (lower, upper)) (cl_assume_invariants self)"

definition cl_cursor :: "('k, 'r) column_layer \<Rightarrow> ('k, 'r) cl_cursor_state res" where
  "cl_cursor self =
     res_bind (cl_trie_keys self) (\<lambda>n.
     cl_cursor_from self (cl_lower_bound self) (cl_lower_bound self + n))"

definition cc_valid :: "('k, 'r) cl_cursor_state \<Rightarrow> bool" where
  "cc_valid self \<longleftrightarrow> int (cc_lower self) \<le> cc_pos self \<and> cc_pos self < int (cc_upper self)"

definition cc_keys :: "('k, 'r) cl_cursor_state \<Rightarrow> nat" where
  "cc_keys self = cc_upper self - cc_lower self"

definition cc_position :: "('k, 'r) cl_cursor_state \<Rightarrow> nat" where
  "cc_position self = nat (cc_pos self)"

definition cc_item :: "('k, 'r) cl_cursor_state \<Rightarrow> ('k \<times> 'r) res" where
  "cc_item self =
     res_bind (cl_assume_invariants (cc_storage self)) (\<lambda>_.
     if int (length (cl_keys (cc_storage self))) \<le> cc_pos self \<or> cc_pos self < 0
     then Inl (Explicit ''the cursor was at the invalid position'')
     else Inr (cl_keys (cc_storage self) ! nat (cc_pos self),
               cl_diffs (cc_storage self) ! nat (cc_pos self)))"

definition cc_current_key :: "('k, 'r) cl_cursor_state \<Rightarrow> 'k res" where
  "cc_current_key self =
     (if \<not> 0 \<le> cc_pos self then Inl DebugAssert
      else if \<not> nat (cc_pos self) < length (cl_keys (cc_storage self)) then Inl IndexOutOfBounds
      else Inr (cl_keys (cc_storage self) ! nat (cc_pos self)))"

definition cc_current_diff :: "('k, 'r) cl_cursor_state \<Rightarrow> 'r res" where
  "cc_current_diff self =
     (if \<not> 0 \<le> cc_pos self then Inl DebugAssert
      else if \<not> nat (cc_pos self) < length (cl_diffs (cc_storage self)) then Inl IndexOutOfBounds
      else Inr (cl_diffs (cc_storage self) ! nat (cc_pos self)))"

definition cc_step :: "('k, 'r) cl_cursor_state \<Rightarrow> ('k, 'r) cl_cursor_state" where
  "cc_step self =
     (let pos = cc_pos self + 1
      in self\<lparr>cc_pos := if pos \<ge> int (cc_upper self) then int (cc_upper self) else pos\<rparr>)"

definition cc_step_reverse :: "('k, 'r) cl_cursor_state \<Rightarrow> ('k, 'r) cl_cursor_state" where
  "cc_step_reverse self =
     (let pos = cc_pos self - 1
      in self\<lparr>cc_pos := if pos < int (cc_lower self) then int (cc_lower self) - 1 else pos\<rparr>)"

definition cc_seek_key_with ::
  "('k, 'r) cl_cursor_state \<Rightarrow> ('k \<Rightarrow> bool) \<Rightarrow> ('k, 'r) cl_cursor_state run" where
  "cc_seek_key_with self predicate =
     run_bind (lift_res (cl_assume_invariants (cc_storage self))) (\<lambda>_.
     if cc_valid self then
       if cc_upper self \<le> length (cl_keys (cc_storage self)) then
         run_bind
           (lift_opt (advance
              (drop (nat (cc_pos self)) (take (cc_upper self) (cl_keys (cc_storage self))))
              predicate))
           (\<lambda>n. ok (self\<lparr>cc_pos := cc_pos self + int n\<rparr>))
       else lift_res (Inl IndexOutOfBounds)
     else ok self)"

definition cc_seek :: "('k::linorder, 'r) cl_cursor_state \<Rightarrow> 'k \<Rightarrow> ('k, 'r) cl_cursor_state run" where
  "cc_seek self key = cc_seek_key_with self (\<lambda>k. k < key)"

definition cc_seek_key_with_reverse ::
  "('k, 'r) cl_cursor_state \<Rightarrow> ('k \<Rightarrow> bool) \<Rightarrow> ('k, 'r) cl_cursor_state run" where
  "cc_seek_key_with_reverse self predicate =
     run_bind (lift_res (cl_assume_invariants (cc_storage self))) (\<lambda>_.
     if cc_valid self then
       if nat (cc_pos self) < length (cl_keys (cc_storage self)) then
         run_bind
           (lift_opt (retreat
              (drop (cc_lower self) (take (nat (cc_pos self) + 1) (cl_keys (cc_storage self))))
              predicate))
           (\<lambda>n. ok (self\<lparr>cc_pos := cc_pos self - int n\<rparr>))
       else lift_res (Inl IndexOutOfBounds)
     else ok self)"

definition cc_seek_reverse :: "('k::linorder, 'r) cl_cursor_state \<Rightarrow> 'k \<Rightarrow> ('k, 'r) cl_cursor_state run" where
  "cc_seek_reverse self key = cc_seek_key_with_reverse self (\<lambda>k. key < k)"

definition cc_rewind :: "('k, 'r) cl_cursor_state \<Rightarrow> ('k, 'r) cl_cursor_state" where
  "cc_rewind self = self\<lparr>cc_pos := int (cc_lower self)\<rparr>"

definition cc_fast_forward :: "('k, 'r) cl_cursor_state \<Rightarrow> ('k, 'r) cl_cursor_state" where
  "cc_fast_forward self = self\<lparr>cc_pos := int (cc_upper self) - 1\<rparr>"

definition cc_reposition :: "('k, 'r) cl_cursor_state \<Rightarrow> nat \<Rightarrow> nat \<Rightarrow> ('k, 'r) cl_cursor_state" where
  "cc_reposition self lower upper =
     self\<lparr>cc_pos := int lower, cc_lower := lower, cc_upper := upper\<rparr>"

section \<open>The builder\<close>

record ('k, 'r) cl_builder =
  cb_keys :: "'k list"
  cb_diffs :: "'r list"

definition cb_new :: "('k, 'r) cl_builder" where
  "cb_new = \<lparr>cb_keys = [], cb_diffs = []\<rparr>"

definition cb_with_key_capacity :: "nat \<Rightarrow> ('k, 'r) cl_builder" where
  "cb_with_key_capacity capacity = \<lparr>cb_keys = [], cb_diffs = []\<rparr>"

definition cb_with_capacity ::
  "('k, 'r) column_layer \<Rightarrow> ('k, 'r) column_layer \<Rightarrow> ('k, 'r) cl_builder res" where
  "cb_with_capacity left right =
     res_bind (cl_trie_keys left) (\<lambda>m.
     res_bind (cl_trie_keys right) (\<lambda>n. Inr (cb_with_key_capacity (m + n))))"

definition cb_assume_invariants :: "('k, 'r) cl_builder \<Rightarrow> unit res" where
  "cb_assume_invariants self =
     (if length (cb_keys self) = length (cb_diffs self) then Inr () else Inl DebugAssert)"

definition cb_boundary :: "('k, 'r) cl_builder \<Rightarrow> nat res" where
  "cb_boundary self = res_map (\<lambda>_. length (cb_keys self)) (cb_assume_invariants self)"

definition cb_done :: "('k, 'r) cl_builder \<Rightarrow> ('k, 'r) column_layer res" where
  "cb_done self =
     res_map (\<lambda>_. \<lparr>cl_keys = cb_keys self, cl_diffs = cb_diffs self, cl_lower_bound = 0\<rparr>)
       (cb_assume_invariants self)"

definition cb_push_tuple :: "('k, 'r) cl_builder \<Rightarrow> 'k \<times> 'r \<Rightarrow> ('k, 'r) cl_builder res" where
  "cb_push_tuple self tuple =
     res_bind (cb_assume_invariants self) (\<lambda>_.
     let self = \<lparr>cb_keys = cb_keys self @ [fst tuple], cb_diffs = cb_diffs self @ [snd tuple]\<rparr>
     in res_map (\<lambda>_. self) (cb_assume_invariants self))"

fun cb_extend_tuples :: "('k, 'r) cl_builder \<Rightarrow> ('k \<times> 'r) list \<Rightarrow> ('k, 'r) cl_builder res" where
  "cb_extend_tuples self [] = Inr self"
| "cb_extend_tuples self (tuple # tuples) =
     res_bind (cb_push_tuple self tuple) (\<lambda>self. cb_extend_tuples self tuples)"

definition cb_copy_range ::
  "('k, 'r) cl_builder \<Rightarrow> ('k, 'r) column_layer \<Rightarrow> nat \<Rightarrow> nat \<Rightarrow> ('k, 'r) cl_builder res" where
  "cb_copy_range self other lower upper =
     res_bind (cb_assume_invariants self) (\<lambda>_.
     res_bind (cl_assume_invariants other) (\<lambda>_.
     if \<not> (lower \<le> length (cl_keys other) \<and> upper \<le> length (cl_keys other)) then Inl AssertFailed
     else if \<not> lower \<le> upper then Inl IndexOutOfBounds
     else
       (let self = \<lparr>cb_keys = cb_keys self @ drop lower (take upper (cl_keys other)),
                    cb_diffs = cb_diffs self @ drop lower (take upper (cl_diffs other))\<rparr>
        in res_map (\<lambda>_. self) (cb_assume_invariants self))))"

text \<open>
  The loop of \<^verbatim>\<open>push_merge\<close> while both inputs are active. Every iteration consumes at least one
  element of one input, whatever the search returns.
\<close>

function cb_merge_loop ::
  "('k::linorder, 'r::comm_monoid_add) cl_builder \<Rightarrow> ('k, 'r) column_layer \<Rightarrow> ('k, 'r) column_layer \<Rightarrow>
   nat \<Rightarrow> nat \<Rightarrow> nat \<Rightarrow> nat \<Rightarrow> (('k, 'r) cl_builder \<times> nat \<times> nat) run" where
  "cb_merge_loop self trie1 trie2 lower1 upper1 lower2 upper2 =
     (if lower1 < upper1 \<and> lower2 < upper2 then
        if \<not> (upper1 \<le> length (cl_keys trie1) \<and> upper2 \<le> length (cl_keys trie2))
        then lift_res (Inl IndexOutOfBounds)
        else if cl_keys trie1 ! lower1 < cl_keys trie2 ! lower2 then
          run_bind
            (lift_opt (advance (drop (1 + lower1) (take upper1 (cl_keys trie1)))
               (\<lambda>x. x < cl_keys trie2 ! lower2)))
            (\<lambda>n. let step = min (1 + n) 1000
                 in run_bind (lift_res (cb_copy_range self trie1 lower1 (lower1 + step)))
                      (\<lambda>self. cb_merge_loop self trie1 trie2 (lower1 + step) upper1 lower2 upper2))
        else if cl_keys trie1 ! lower1 = cl_keys trie2 ! lower2 then
          (let sum = cl_diffs trie1 ! lower1 + cl_diffs trie2 ! lower2
           in run_bind
                (lift_res (if \<not> sum = 0 then cb_push_tuple self (cl_keys trie1 ! lower1, sum)
                           else Inr self))
                (\<lambda>self. cb_merge_loop self trie1 trie2 (lower1 + 1) upper1 (lower2 + 1) upper2))
        else
          run_bind
            (lift_opt (advance (drop (1 + lower2) (take upper2 (cl_keys trie2)))
               (\<lambda>x. x < cl_keys trie1 ! lower1)))
            (\<lambda>n. let step = min (1 + n) 1000
                 in run_bind (lift_res (cb_copy_range self trie2 lower2 (lower2 + step)))
                      (\<lambda>self. cb_merge_loop self trie1 trie2 lower1 upper1 (lower2 + step) upper2))
      else ok (self, lower1, lower2))"
  by pat_completeness auto
termination
  by (relation "measure (\<lambda>(_, _, _, lower1, upper1, lower2, upper2).
      (upper1 - lower1) + (upper2 - lower2))") auto

declare cb_merge_loop.simps [simp del]

definition cb_push_merge ::
  "('k::linorder, 'r::comm_monoid_add) cl_builder \<Rightarrow> ('k, 'r) cl_cursor_state \<Rightarrow> ('k, 'r) cl_cursor_state \<Rightarrow>
   (('k, 'r) cl_builder \<times> nat) run" where
  "cb_push_merge self cursor1 cursor2 =
     (let trie1 = cc_storage cursor1; trie2 = cc_storage cursor2;
          upper1 = cc_upper cursor1; lower1 = cc_position cursor1;
          upper2 = cc_upper cursor2; lower2 = cc_position cursor2
      in run_bind (lift_res (cb_assume_invariants self)) (\<lambda>_.
         run_bind (lift_res (cl_assume_invariants trie1)) (\<lambda>_.
         run_bind (lift_res (cl_assume_invariants trie2)) (\<lambda>_.
         if upper1 < lower1 \<or> upper2 < lower2 then lift_res (Inl Overflow)
         else
         run_bind (cb_merge_loop self trie1 trie2 lower1 upper1 lower2 upper2)
           (\<lambda>(self, lower1, lower2).
         run_bind (lift_res (if lower1 < upper1 then cb_copy_range self trie1 lower1 upper1
                             else Inr self)) (\<lambda>self.
         run_bind (lift_res (if lower2 < upper2 then cb_copy_range self trie2 lower2 upper2
                             else Inr self)) (\<lambda>self.
         run_bind (lift_res (cb_assume_invariants self)) (\<lambda>_.
         ok (self, length (cb_keys self))))))))))"

section \<open>Merging and algebra\<close>

definition cl_merge ::
  "('k::linorder, 'r::comm_monoid_add) column_layer \<Rightarrow> ('k, 'r) column_layer \<Rightarrow> ('k, 'r) column_layer run" where
  "cl_merge self other =
     run_bind (lift_res (cb_with_capacity self other)) (\<lambda>merger.
     run_bind (lift_res (cl_cursor self)) (\<lambda>cursor1.
     run_bind (lift_res (cl_cursor other)) (\<lambda>cursor2.
     run_bind (cb_push_merge merger cursor1 cursor2) (\<lambda>(merger, _).
     lift_res (cb_done merger)))))"

definition cl_add ::
  "('k::linorder, 'r::comm_monoid_add) column_layer \<Rightarrow> ('k, 'r) column_layer \<Rightarrow> ('k, 'r) column_layer run" where
  "cl_add self rhs =
     run_bind (lift_res (cl_is_empty self)) (\<lambda>e1.
     if e1 then ok rhs
     else
       run_bind (lift_res (cl_is_empty rhs)) (\<lambda>e2.
       if e2 then ok self else cl_merge self rhs))"

definition cl_add_assign ::
  "('k::linorder, 'r::comm_monoid_add) column_layer \<Rightarrow> ('k, 'r) column_layer \<Rightarrow> ('k, 'r) column_layer run" where
  "cl_add_assign self rhs =
     run_bind (lift_res (cl_is_empty rhs)) (\<lambda>e. if \<not> e then cl_merge self rhs else ok self)"

definition cl_add_assign_by_ref ::
  "('k::linorder, 'r::comm_monoid_add) column_layer \<Rightarrow> ('k, 'r) column_layer \<Rightarrow> ('k, 'r) column_layer run" where
  "cl_add_assign_by_ref self other =
     run_bind (lift_res (cl_is_empty other)) (\<lambda>e. if \<not> e then cl_merge self other else ok self)"

definition cl_add_by_ref ::
  "('k::linorder, 'r::comm_monoid_add) column_layer \<Rightarrow> ('k, 'r) column_layer \<Rightarrow> ('k, 'r) column_layer run" where
  "cl_add_by_ref self rhs = cl_merge self rhs"

definition cl_neg_by_ref :: "('k, 'r::uminus) column_layer \<Rightarrow> ('k, 'r) column_layer" where
  "cl_neg_by_ref self =
     \<lparr>cl_keys = cl_keys self, cl_diffs = map uminus (cl_diffs self),
      cl_lower_bound = cl_lower_bound self\<rparr>"

definition cl_neg :: "('k, 'r::uminus) column_layer \<Rightarrow> ('k, 'r) column_layer" where
  "cl_neg self =
     \<lparr>cl_keys = cl_keys self, cl_diffs = map uminus (cl_diffs self),
      cl_lower_bound = cl_lower_bound self\<rparr>"

definition cl_num_entries_shallow :: "('k, 'r) column_layer \<Rightarrow> nat res" where
  "cl_num_entries_shallow self = cl_len self"

definition cl_num_entries_deep :: "('k, 'r) column_layer \<Rightarrow> nat res" where
  "cl_num_entries_deep self = cl_len self"

section \<open>The consumer\<close>

text \<open>
  A consumer reads keys and weights out of the layer. The slots in front of the position are
  moved out; the model keeps them in the list and never reads them again.
\<close>

record ('k, 'r) cl_consumer =
  ck_position :: nat
  ck_storage :: "('k, 'r) column_layer"

record ('k, 'r) cl_values =
  cv_done :: bool
  cv_consumer :: "('k, 'r) cl_consumer"

definition ck_from :: "('k, 'r) column_layer \<Rightarrow> ('k, 'r) cl_consumer res" where
  "ck_from leaf =
     res_map (\<lambda>_. \<lparr>ck_position = 0, ck_storage = leaf\<rparr>) (cl_assume_invariants leaf)"

definition ck_key_valid :: "('k, 'r) cl_consumer \<Rightarrow> bool res" where
  "ck_key_valid self = res_map (\<lambda>n. ck_position self < n) (cl_len (ck_storage self))"

definition ck_peek_key :: "('k, 'r) cl_consumer \<Rightarrow> 'k res" where
  "ck_peek_key self =
     res_bind (ck_key_valid self) (\<lambda>v.
     if \<not> v then Inl (Explicit ''the cursor was at the invalid position'')
     else Inr (cl_keys (ck_storage self) ! ck_position self))"

definition ck_next_key :: "('k, 'r) cl_consumer \<Rightarrow> ('k \<times> ('k, 'r) cl_values) res" where
  "ck_next_key self =
     res_bind (ck_key_valid self) (\<lambda>v.
     if \<not> v then Inl (Explicit ''the cursor was at the invalid position'')
     else
       (let idx = ck_position self; self = self\<lparr>ck_position := idx + 1\<rparr>
        in Inr (cl_keys (ck_storage self) ! idx, \<lparr>cv_done = False, cv_consumer = self\<rparr>)))"

definition ck_seek_key :: "('k::linorder, 'r) cl_consumer \<Rightarrow> 'k \<Rightarrow> ('k, 'r) cl_consumer run" where
  "ck_seek_key self key =
     (if length (cl_keys (ck_storage self)) < ck_position self then lift_res (Inl IndexOutOfBounds)
      else
        run_bind
          (lift_opt (advance (drop (ck_position self) (cl_keys (ck_storage self))) (\<lambda>k. k < key)))
          (\<lambda>offset. ok (self\<lparr>ck_position := ck_position self + offset\<rparr>)))"

definition cv_value_valid :: "('k, 'r) cl_values \<Rightarrow> bool" where
  "cv_value_valid self \<longleftrightarrow> \<not> cv_done self"

definition cv_next_value :: "('k, 'r) cl_values \<Rightarrow> ('r \<times> ('k, 'r) cl_values) res" where
  "cv_next_value self =
     (if cv_done self
      then Inl (Explicit ''attempted to consume a value that was already consumed'')
      else if ck_position (cv_consumer self) = 0 then Inl Overflow
      else
        (let idx = ck_position (cv_consumer self) - 1
         in if \<not> idx < length (cl_diffs (ck_storage (cv_consumer self))) then Inl IndexOutOfBounds
            else Inr (cl_diffs (ck_storage (cv_consumer self)) ! idx, self\<lparr>cv_done := True\<rparr>)))"

definition cv_remaining_values :: "('k, 'r) cl_values \<Rightarrow> nat" where
  "cv_remaining_values self = (if cv_done self then 0 else 1)"

end
