(* ===== verification/Consolidation.thy ===== *)
theory Consolidation
  imports ZSets "HOL-Library.Monad_Syntax"
begin

text \<open>
  Consolidation of update lists: \<^verbatim>\<open>crates/dbsp/src/trace/consolidation/mod.rs\<close> and
  \<^verbatim>\<open>crates/dbsp/src/trace/consolidation/utils.rs\<close>.

  The in-place algorithms are modelled on lists with explicit read and write positions. The
  sort is an argument: \<^verbatim>\<open>sort_unstable_by\<close> of the standard library for vectors of pairs, the
  paired quicksort for split keys and weights; the contracts are the locales
  \<open>unstable_sort\<close> and \<open>paired_sort\<close>. The bounds that the \<^verbatim>\<open>unsafe\<close> blocks rely on (their
  \<^verbatim>\<open>debug_assert!\<close> and \<^verbatim>\<open>assume\<close> calls) are panics of the model. Unwinding out of a callback
  is not modelled.
\<close>

section \<open>Vec::dedup\_by\<close>

text \<open>
  The callback receives the current element and the last one kept, may change both, and tells
  whether they belong to the same bucket.
\<close>

type_synonym 'a bucket_fun = "'a \<Rightarrow> 'a \<Rightarrow> bool \<times> 'a \<times> 'a"

fun dedup_by :: "'a bucket_fun \<Rightarrow> 'a list \<Rightarrow> 'a list" where
  "dedup_by same_bucket [] = []"
| "dedup_by same_bucket [x] = [x]"
| "dedup_by same_bucket (prev # cur # rest) =
     (case same_bucket cur prev of
        (same, cur', prev') \<Rightarrow>
          if same then dedup_by same_bucket (prev' # rest)
          else prev' # dedup_by same_bucket (cur' # rest))"

text \<open>The callback of every consolidation: move the weight of equal keys to the kept element.\<close>

definition merge_bucket :: "('k \<times> 'r::comm_monoid_add) bucket_fun" where
  "merge_bucket cur prev =
     (if fst cur = fst prev then (True, (fst cur, 0), (fst prev, snd prev + snd cur))
      else (False, cur, prev))"

section \<open>dedup\_payload\_starting\_at\<close>

type_synonym ('k, 'p) payload_bucket_fun =
  "'k \<Rightarrow> 'p \<Rightarrow> 'k \<Rightarrow> 'p \<Rightarrow> bool \<times> ('k \<times> 'p) \<times> ('k \<times> 'p)"

function dedup_payload_loop ::
  "('k, 'p) payload_bucket_fun \<Rightarrow> nat \<Rightarrow> 'k list \<Rightarrow> 'p list \<Rightarrow> nat \<Rightarrow> nat \<Rightarrow> 'k list \<times> 'p list \<times> nat"
where
  "dedup_payload_loop same_bucket len keys payload read wr =
     (if read < len then
        (case same_bucket (keys ! read) (payload ! read) (keys ! (wr - 1)) (payload ! (wr - 1))
         of (same, (k1, p1), (k2, p2)) \<Rightarrow>
           (let keys = keys[read := k1, wr - 1 := k2];
                payload = payload[read := p1, wr - 1 := p2]
            in if same then dedup_payload_loop same_bucket len keys payload (read + 1) wr
               else dedup_payload_loop same_bucket len
                      (keys[wr := keys ! read]) (payload[wr := payload ! read])
                      (read + 1) (wr + 1)))
      else (keys, payload, wr))"
  by pat_completeness auto
termination
  by (relation "measure (\<lambda>(_, len, _, _, read, _). len - read)") auto

definition dedup_payload_starting_at ::
  "('k, 'p) payload_bucket_fun \<Rightarrow> 'k list \<Rightarrow> 'p list \<Rightarrow> nat \<Rightarrow> ('k list \<times> 'p list) res" where
  "dedup_payload_starting_at same_bucket keys payload starting_point =
     (if length payload \<noteq> length keys then Inl AssertFailed
      else if length keys \<le> 1 \<or> starting_point + 1 \<ge> length keys then Inr (keys, payload)
      else
        (case dedup_payload_loop same_bucket (length keys) keys payload
                (starting_point + 1) (starting_point + 1) of
           (keys, payload, wr) \<Rightarrow> Inr (take wr keys, take wr payload)))"

section \<open>retain\_starting\_at\<close>

text \<open>
  \<open>process_loop\<close> is the inner function of \<^verbatim>\<open>retain_starting_at\<close>, run once with \<open>DELETED\<close>
  false (until the first deletion) and once with \<open>DELETED\<close> true. \<open>None\<close> is a loop that does
  not end. \<open>backshift\<close> is the drop guard.
\<close>

partial_function (option) process_loop ::
  "bool \<Rightarrow> nat \<Rightarrow> ('a \<Rightarrow> bool) \<Rightarrow> 'a list \<Rightarrow> nat \<Rightarrow> nat \<Rightarrow> ('a list \<times> nat \<times> nat) option" where
  "process_loop DELETED original_len f v processed_len deleted_cnt =
     (if processed_len \<noteq> original_len then
        if \<not> f (v ! processed_len) then
          if DELETED then
            process_loop DELETED original_len f v (processed_len + 1) (deleted_cnt + 1)
          else Some (v, processed_len + 1, deleted_cnt + 1)
        else
          process_loop DELETED original_len f
            (if DELETED then v[processed_len - deleted_cnt := v ! processed_len] else v)
            (processed_len + 1) deleted_cnt
      else Some (v, processed_len, deleted_cnt))"

definition backshift :: "'a list \<Rightarrow> nat \<Rightarrow> nat \<Rightarrow> nat \<Rightarrow> 'a list" where
  "backshift v processed_len deleted_cnt original_len =
     take (original_len - deleted_cnt)
       (if deleted_cnt > 0 then
          take (processed_len - deleted_cnt) v @
          take (original_len - processed_len) (drop processed_len v) @
          drop (processed_len - deleted_cnt + (original_len - processed_len)) v
        else v)"

definition retain_starting_at :: "'a list \<Rightarrow> nat \<Rightarrow> ('a \<Rightarrow> bool) \<Rightarrow> 'a list option" where
  "retain_starting_at vec starting_point retain =
     (if vec = [] \<or> starting_point \<ge> length vec then Some vec
      else do {
        (v, processed_len, deleted_cnt) \<leftarrow>
          process_loop False (length vec) retain vec starting_point 0;
        (v, processed_len, deleted_cnt) \<leftarrow>
          process_loop True (length vec) retain v processed_len deleted_cnt;
        Some (backshift v processed_len deleted_cnt (length vec))
      })"

section \<open>retain\_payload\_starting\_at\<close>

partial_function (option) process_payload_loop ::
  "bool \<Rightarrow> nat \<Rightarrow> ('k \<Rightarrow> 'p \<Rightarrow> bool) \<Rightarrow> 'k list \<Rightarrow> 'p list \<Rightarrow> nat \<Rightarrow> nat \<Rightarrow>
   ('k list \<times> 'p list \<times> nat \<times> nat) option" where
  "process_payload_loop DELETED original_len retain keys payload processed_len deleted_cnt =
     (if processed_len \<noteq> original_len then
        if \<not> retain (keys ! processed_len) (payload ! processed_len) then
          if DELETED then
            process_payload_loop DELETED original_len retain keys payload
              (processed_len + 1) (deleted_cnt + 1)
          else Some (keys, payload, processed_len + 1, deleted_cnt + 1)
        else
          process_payload_loop DELETED original_len retain
            (if DELETED then keys[processed_len - deleted_cnt := keys ! processed_len] else keys)
            (if DELETED then payload[processed_len - deleted_cnt := payload ! processed_len]
             else payload)
            (processed_len + 1) deleted_cnt
      else Some (keys, payload, processed_len, deleted_cnt))"

definition retain_payload_starting_at ::
  "'k list \<Rightarrow> 'p list \<Rightarrow> nat \<Rightarrow> ('k \<Rightarrow> 'p \<Rightarrow> bool) \<Rightarrow> ('k list \<times> 'p list) option res" where
  "retain_payload_starting_at keys payload starting_point retain =
     (if length keys \<noteq> length payload then Inl AssertFailed
      else if keys = [] \<or> starting_point \<ge> length keys then Inr (Some (keys, payload))
      else Inr (do {
        (ks, ps, processed_len, deleted_cnt) \<leftarrow>
          process_payload_loop False (length keys) retain keys payload starting_point 0;
        (ks, ps, processed_len, deleted_cnt) \<leftarrow>
          process_payload_loop True (length keys) retain ks ps processed_len deleted_cnt;
        Some (backshift ks processed_len deleted_cnt (length keys),
              backshift ps processed_len deleted_cnt (length keys))
      }))"

section \<open>consolidate, consolidate\_from\<close>

definition consolidate ::
  "(('k \<times> 'r) list \<Rightarrow> ('k \<times> 'r) list) \<Rightarrow> ('k, 'r::comm_monoid_add) updates \<Rightarrow> ('k, 'r) updates"
where
  "consolidate sort_by vec =
     (if vec = [] then vec
      else
        (let vec = sort_by vec;
             vec = dedup_by merge_bucket vec
         in filter (\<lambda>(_, data). \<not> data = 0) vec))"

definition pair_bucket :: "('k \<times> 'r::comm_monoid_add, unit) payload_bucket_fun" where
  "pair_bucket x1 _ x2 _ =
     (if fst x1 = fst x2
      then (True, ((fst x1, 0), ()), ((fst x2, snd x2 + snd x1), ()))
      else (False, (x1, ()), (x2, ())))"

text \<open>
  \<^verbatim>\<open>vec[offset..]\<close> panics when the offset is past the end. The unit payload of
  \<^verbatim>\<open>consolidate_from\<close> is a list of units of the same length.
\<close>

definition consolidate_from ::
  "(('k \<times> 'r) list \<Rightarrow> ('k \<times> 'r) list) \<Rightarrow> ('k, 'r::comm_monoid_add) updates \<Rightarrow> nat \<Rightarrow>
   ('k, 'r) updates option res" where
  "consolidate_from sort_by vec offset =
     (if offset > length vec then Inl IndexOutOfBounds
      else if drop offset vec = [] then Inr (Some vec)
      else
        (let vec = take offset vec @ sort_by (drop offset vec)
         in res_map
              (\<lambda>(vec, _). retain_starting_at vec offset (\<lambda>(_, data). \<not> data = 0))
              (dedup_payload_starting_at pair_bucket vec (replicate (length vec) ()) offset)))"

section \<open>consolidate\_slice\<close>

text \<open>
  The loop \<^verbatim>\<open>for index in 1..slice_len\<close>. The assertions in front of the pointer accesses are
  the first test of each iteration.
\<close>

function consolidate_slice_loop ::
  "('a \<Rightarrow> 'a \<Rightarrow> bool) \<Rightarrow> ('a \<Rightarrow> 'a \<Rightarrow> 'a) \<Rightarrow> ('a \<Rightarrow> bool) \<Rightarrow> nat \<Rightarrow> 'a list \<Rightarrow> nat \<Rightarrow> nat \<Rightarrow>
   ('a list \<times> nat) res" where
  "consolidate_slice_loop are_equal merge is_zero slice_len sl offset index =
     (if index < slice_len then
        if \<not> (offset < index \<and> index < slice_len \<and> offset < slice_len) then Inl DebugAssert
        else if are_equal (sl ! offset) (sl ! index) then
          consolidate_slice_loop are_equal merge is_zero slice_len
            (sl[offset := merge (sl ! offset) (sl ! index)]) offset (index + 1)
        else
          (let offset = (if \<not> is_zero (sl ! offset) then offset + 1 else offset)
           in consolidate_slice_loop are_equal merge is_zero slice_len
                (swap_at sl offset index) offset (index + 1))
      else Inr (sl, offset))"
  by pat_completeness auto
termination
  by (relation "measure (\<lambda>(_, _, _, len, _, _, index). len - index)") auto

definition consolidate_slice_inner ::
  "('a \<Rightarrow> 'a \<Rightarrow> bool) \<Rightarrow> ('a \<Rightarrow> 'a \<Rightarrow> 'a) \<Rightarrow> ('a \<Rightarrow> bool) \<Rightarrow> 'a list \<Rightarrow> ('a list \<times> nat) res" where
  "consolidate_slice_inner are_equal merge is_zero sl =
     res_map
       (\<lambda>(sl', offset).
          (sl', if offset < length sl \<and> \<not> is_zero (sl' ! offset) then offset + 1 else offset))
       (consolidate_slice_loop are_equal merge is_zero (length sl) sl 0 1)"

definition consolidate_slice ::
  "(('k \<times> 'r) list \<Rightarrow> ('k \<times> 'r) list) \<Rightarrow> ('k, 'r::comm_monoid_add) updates \<Rightarrow>
   (('k, 'r) updates \<times> nat) res" where
  "consolidate_slice sort_by sl =
     (if sl = [] then Inr (sl, 0)
      else
        consolidate_slice_inner
          (\<lambda>(key1, _) (key2, _). key1 = key2)
          (\<lambda>(key1, diff1) (_, diff2). (key1, diff1 + diff2))
          (\<lambda>(_, diff). diff = 0)
          (sort_by sl))"

section \<open>Split keys and weights\<close>

definition diff_bucket :: "('k, 'r::comm_monoid_add) payload_bucket_fun" where
  "diff_bucket key1 diff1 key2 diff2 =
     (if key1 = key2 then (True, (key1, 0), (key2, diff2 + diff1))
      else (False, (key1, diff1), (key2, diff2)))"

definition consolidate_payload_from ::
  "('k list \<Rightarrow> 'r list \<Rightarrow> ('k list \<times> 'r list) res) \<Rightarrow> 'k list \<Rightarrow> 'r::comm_monoid_add list \<Rightarrow>
   nat \<Rightarrow> ('k list \<times> 'r list) option res" where
  "consolidate_payload_from quicksort keys diffs offset =
     (if length keys \<noteq> length diffs then Inl AssertFailed
      else if offset > length keys then Inl IndexOutOfBounds
      else if drop offset keys = [] then Inr (Some (keys, diffs))
      else
        res_bind (quicksort (drop offset keys) (drop offset diffs)) (\<lambda>(ks, ds).
        res_bind
          (dedup_payload_starting_at diff_bucket (take offset keys @ ks)
             (take offset diffs @ ds) offset) (\<lambda>(ks, ds).
        retain_payload_starting_at ks ds offset (\<lambda>_ diff. \<not> diff = 0))))"

function compact_loop ::
  "('r \<Rightarrow> bool) \<Rightarrow> nat \<Rightarrow> 'k list \<Rightarrow> 'r::comm_monoid_add list \<Rightarrow> nat \<Rightarrow> nat \<Rightarrow>
   ('k list \<times> 'r list \<times> nat) res" where
  "compact_loop is_zero len keys diffs offset index =
     (if index < len then
        if \<not> (offset < index \<and> index < len \<and> offset < len) then Inl DebugAssert
        else if keys ! offset = keys ! index then
          compact_loop is_zero len keys (diffs[offset := diffs ! offset + diffs ! index]) offset
            (index + 1)
        else
          (let offset = (if \<not> is_zero (diffs ! offset) then offset + 1 else offset)
           in if \<not> offset < len then Inl DebugAssert
              else compact_loop is_zero len (swap_at keys offset index) (swap_at diffs offset index)
                     offset (index + 1))
      else Inr (keys, diffs, offset))"
  by pat_completeness auto
termination
  by (relation "measure (\<lambda>(_, len, _, _, _, index). len - index)") auto

text \<open>
  \<open>zst_key\<close> and \<open>zst_diff\<close> are the tests \<^verbatim>\<open>size_of::<T>() == 0\<close> and
  \<^verbatim>\<open>size_of::<R>() == 0\<close>; \<open>is_zero\<close> is \<^verbatim>\<open>HasZero::is_zero\<close> of the weight type, which the
  zero-sized weight \<^verbatim>\<open>Present\<close> defines as false.
\<close>

definition compact_paired_slices ::
  "bool \<Rightarrow> bool \<Rightarrow> ('r \<Rightarrow> bool) \<Rightarrow> 'k list \<Rightarrow> 'r::comm_monoid_add list \<Rightarrow>
   ('k list \<times> 'r list \<times> nat) res" where
  "compact_paired_slices zst_key zst_diff is_zero keys diffs =
     (if keys = [] \<or> length keys \<noteq> length diffs then Inl DebugAssert
      else if zst_key then
        (let sum = foldl (+) (hd diffs) (tl diffs)
         in Inr (keys, sum # tl diffs, if is_zero sum then 0 else 1))
      else if zst_diff then Inr (keys, diffs, if is_zero (hd diffs) then 0 else 1)
      else
        res_map
          (\<lambda>(keys, diffs, offset).
             (keys, diffs,
              if offset < length keys \<and> \<not> is_zero (diffs ! offset) then offset + 1 else offset))
          (compact_loop is_zero (length keys) keys diffs 0 1))"

definition consolidate_paired_slices ::
  "bool \<Rightarrow> bool \<Rightarrow> ('r \<Rightarrow> bool) \<Rightarrow> ('k list \<Rightarrow> 'r list \<Rightarrow> ('k list \<times> 'r list) res) \<Rightarrow>
   'k list \<Rightarrow> 'r::comm_monoid_add list \<Rightarrow> ('k list \<times> 'r list \<times> nat) res" where
  "consolidate_paired_slices zst_key zst_diff is_zero quicksort keys diffs =
     (if length keys \<noteq> length diffs then Inl AssertFailed
      else if keys = [] then Inr (keys, diffs, 0)
      else
        res_bind (quicksort keys diffs)
          (\<lambda>(ks, ds). compact_paired_slices zst_key zst_diff is_zero ks ds))"

declare dedup_payload_loop.simps [simp del]
declare consolidate_slice_loop.simps [simp del]
declare compact_loop.simps [simp del]


section \<open>The merged list\<close>

fun merge_runs :: "('k, 'r::comm_monoid_add) updates \<Rightarrow> ('k, 'r) updates" where
  "merge_runs [] = []"
| "merge_runs [x] = [x]"
| "merge_runs ((k, r) # (k', r') # rest) =
     (if k' = k then merge_runs ((k, r + r') # rest) else (k, r) # merge_runs ((k', r') # rest))"

lemma dedup_by_merge: "dedup_by merge_bucket xs = merge_runs xs"
  by (induction xs rule: merge_runs.induct) (auto simp: merge_bucket_def)

lemma weight_of_merge_runs: "weight_of (merge_runs xs) k = weight_of xs k"
  by (induction xs rule: merge_runs.induct) (auto simp: add.assoc)

lemma keys_merge_runs: "fst ` set (merge_runs xs) = fst ` set xs"
  by (induction xs rule: merge_runs.induct) auto

lemma sorted_merge_runs:
  fixes xs :: "('k::linorder \<times> 'r::comm_monoid_add) list"
  shows "sorted (map fst xs) \<Longrightarrow> sorted_wrt (<) (map fst (merge_runs xs))"
proof (induction xs rule: merge_runs.induct)
  case (3 k r k' r' rest)
  show ?case
  proof (cases "k' = k")
    case False
    then have "k < k'" using "3.prems" by auto
    then have "k < y" if "y \<in> fst ` set (merge_runs ((k', r') # rest))" for y
      using that "3.prems" unfolding keys_merge_runs by force
    then show ?thesis using False 3 by simp
  qed (use 3 in simp)
qed simp_all

definition canon :: "('k, 'r::comm_monoid_add) updates \<Rightarrow> ('k, 'r) updates" where
  "canon xs = filter nonzero (merge_runs xs)"

lemma weight_of_canon [simp]: "weight_of (canon xs) = weight_of xs"
  by (rule ext) (simp add: canon_def weight_of_merge_runs)

lemma consolidated_canon: "sorted (map fst xs) \<Longrightarrow> consolidated (canon xs)"
  unfolding canon_def by (intro sorted_filter_nonzero sorted_merge_runs)

section \<open>In-place deduplication\<close>

definition zip_bucket :: "('k, 'p) payload_bucket_fun \<Rightarrow> ('k \<times> 'p) bucket_fun" where
  "zip_bucket f cur prev = f (fst cur) (snd cur) (fst prev) (snd prev)"

lemma zip_bucket_diff: "zip_bucket diff_bucket = merge_bucket"
  by (intro ext) (auto simp: zip_bucket_def diff_bucket_def merge_bucket_def)

text \<open>
  The same loop on one list of pairs. \<open>dedup_arr_correct\<close> relates the read and wr
  positions to the list function: what is written so far, followed by the deduplication of the
  last kept element and the unread rest.
\<close>

function dedup_arr :: "'a bucket_fun \<Rightarrow> 'a list \<Rightarrow> nat \<Rightarrow> nat \<Rightarrow> 'a list \<times> nat" where
  "dedup_arr f xs read wr =
     (if read < length xs then
        (case f (xs ! read) (xs ! (wr - 1)) of
           (same, cur, prev) \<Rightarrow>
             (let xs = xs[read := cur, wr - 1 := prev]
              in if same then dedup_arr f xs (read + 1) wr
                 else dedup_arr f (xs[wr := xs ! read]) (read + 1) (wr + 1)))
      else (xs, wr))"
  by pat_completeness auto
termination
  by (relation "measure (\<lambda>(_, xs, read, _). length xs - read)") auto

declare dedup_arr.simps [simp del]

lemma dedup_arr_correct:
  assumes "0 < wr" and "wr \<le> read" and "read \<le> length xs"
    and "dedup_arr f xs read wr = (xs', wr')"
  shows "wr' \<le> length xs \<and> length xs' = length xs \<and>
    take wr' xs' = take (wr - 1) xs @ dedup_by f (xs ! (wr - 1) # drop read xs)"
  using assms
proof (induction "length xs - read" arbitrary: xs read wr rule: less_induct)
  case less
  show ?case
  proof (cases "read < length xs")
    case False
    then have "read = length xs" "xs' = xs" "wr' = wr"
      using less.prems by (auto simp: dedup_arr.simps [of f xs])
    moreover have "take wr xs = take (wr - 1) xs @ [xs ! (wr - 1)]"
      using less.prems take_Suc_conv_app_nth [of "wr - 1" xs] by simp
    ultimately show ?thesis using less.prems by simp
  next
    case True
    obtain same cur prev where f: "f (xs ! read) (xs ! (wr - 1)) = (same, cur, prev)"
      by (metis prod.exhaust)
    define ys where "ys = xs[read := cur, wr - 1 := prev]"
    define zs where "zs = (if same then ys else ys[wr := ys ! read])"
    define w where "w = (if same then wr else wr + 1)"
    have step: "dedup_arr f xs read wr = dedup_arr f zs (read + 1) w"
      using True f by (simp add: dedup_arr.simps [of f xs] ys_def zs_def w_def Let_def)
    have cons: "drop read xs = xs ! read # drop (read + 1) xs"
      using True by (simp add: Cons_nth_drop_Suc)
    have rest: "drop (read + 1) zs = drop (read + 1) xs"
      using less.prems True by (simp add: zs_def ys_def drop_update_cancel)
    have len: "length zs = length xs" by (simp add: zs_def ys_def)
    have IH: "wr' \<le> length xs \<and> length xs' = length xs \<and>
      take wr' xs' = take (w - 1) zs @ dedup_by f (zs ! (w - 1) # drop (read + 1) xs)"
      using less.hyps [of zs "read + 1" w] less.prems True len rest step by (simp add: w_def)
    have "take (w - 1) zs @ dedup_by f (zs ! (w - 1) # drop (read + 1) xs) =
      take (wr - 1) xs @ dedup_by f (xs ! (wr - 1) # drop read xs)"
    proof (cases same)
      case True
      then show ?thesis using less.prems f cons by (simp add: w_def zs_def ys_def)
    next
      case False
      have "take wr zs = take (wr - 1) xs @ [prev]"
        using less.prems False take_Suc_conv_app_nth [of "wr - 1" zs] \<open>read < length xs\<close>
        by (simp add: zs_def ys_def)
      moreover have "zs ! wr = cur"
        using less.prems False \<open>read < length xs\<close> by (simp add: zs_def ys_def)
      ultimately show ?thesis using f cons False by (simp add: w_def)
    qed
    with IH show ?thesis by simp
  qed
qed

lemma dedup_payload_loop_zip:
  assumes "length keys = len" and "length payload = len" and "0 < wr" and "wr \<le> read"
    and "dedup_payload_loop f len keys payload read wr = (keys', payload', wr')"
  shows "length keys' = len \<and> length payload' = len \<and>
    dedup_arr (zip_bucket f) (zip keys payload) read wr = (zip keys' payload', wr')"
  using assms
proof (induction "len - read" arbitrary: keys payload read wr rule: less_induct)
  case less
  show ?case
  proof (cases "read < len")
    case False
    then show ?thesis
      using less.prems by (simp add: dedup_arr.simps dedup_payload_loop.simps [of f len keys])
  next
    case True
    obtain same k1 p1 k2 p2 where f:
      "f (keys ! read) (payload ! read) (keys ! (wr - 1)) (payload ! (wr - 1)) =
         (same, (k1, p1), (k2, p2))"
      by (metis prod.exhaust)
    define ks where "ks = keys[read := k1, wr - 1 := k2]"
    define ps where "ps = payload[read := p1, wr - 1 := p2]"
    define ks' where "ks' = (if same then ks else ks[wr := ks ! read])"
    define ps' where "ps' = (if same then ps else ps[wr := ps ! read])"
    define w where "w = (if same then wr else wr + 1)"
    have step: "dedup_payload_loop f len keys payload read wr =
        dedup_payload_loop f len ks' ps' (read + 1) w"
      using True f
      by (simp add: dedup_payload_loop.simps [of f len keys] ks_def ps_def ks'_def ps'_def w_def
          Let_def)
    have "dedup_arr (zip_bucket f) (zip keys payload) read wr =
        dedup_arr (zip_bucket f) (zip ks' ps') (read + 1) w"
      using True f less.prems
      by (simp add: dedup_arr.simps [of _ "zip keys payload"] zip_bucket_def ks_def ps_def ks'_def
          ps'_def w_def Let_def update_zip)
    moreover have "length ks' = len" "length ps' = len"
      using less.prems by (simp_all add: ks'_def ps'_def ks_def ps_def)
    ultimately show ?thesis
      using less.hyps [of "read + 1" ks' ps' w] less.prems True step by (simp add: w_def)
  qed
qed

lemma dedup_payload_starting_at_correct:
  assumes "length keys = length payload" and "offset \<le> length keys"
  shows "\<exists>ks ps. dedup_payload_starting_at f keys payload offset = Inr (ks, ps) \<and>
    length ks = length ps \<and>
    zip ks ps = take offset (zip keys payload) @
      dedup_by (zip_bucket f) (drop offset (zip keys payload))"
proof (cases "length keys \<le> 1 \<or> offset + 1 \<ge> length keys")
  case True
  have "length (drop offset (zip keys payload)) \<le> 1" using assms True by auto
  then have "dedup_by (zip_bucket f) (drop offset (zip keys payload)) = drop offset (zip keys payload)"
    by (cases "drop offset (zip keys payload)" rule: remdups_adj.cases) auto
  then show ?thesis using True assms by (auto simp: dedup_payload_starting_at_def)
next
  case False
  let ?z = "zip keys payload"
  obtain ks ps w where loop:
    "dedup_payload_loop f (length keys) keys payload (offset + 1) (offset + 1) = (ks, ps, w)"
    by (metis prod.exhaust)
  have sim: "length ks = length keys" "length ps = length keys"
    "dedup_arr (zip_bucket f) ?z (offset + 1) (offset + 1) = (zip ks ps, w)"
    using dedup_payload_loop_zip [OF refl _ _ _ loop] assms by simp_all
  have "take w (zip ks ps) = take offset ?z @ dedup_by (zip_bucket f) (?z ! offset # drop (offset + 1) ?z)"
    using dedup_arr_correct [OF _ _ _ sim(3)] assms False by simp
  moreover have "?z ! offset # drop (offset + 1) ?z = drop offset ?z"
    using assms False by (simp add: Cons_nth_drop_Suc del: nth_zip)
  ultimately have "zip (take w ks) (take w ps) =
      take offset ?z @ dedup_by (zip_bucket f) (drop offset ?z)"
    by (simp add: take_zip)
  then show ?thesis using False assms loop sim by (auto simp: dedup_payload_starting_at_def)
qed


section \<open>In-place filtering\<close>

text \<open>Stage 1 stops behind the first element that is deleted, or at the end.\<close>

lemma process_loop_stage1:
  assumes "p \<le> length v"
  shows "\<exists>p' d'. process_loop False (length v) f v p 0 = Some (v, p', d') \<and>
    p \<le> p' \<and> p' \<le> length v \<and> d' \<le> p' \<and> (d' = 0 \<longrightarrow> p' = length v) \<and>
    take p v @ filter f (drop p v) = take (p' - d') v @ filter f (drop p' v)"
  using assms
proof (induction "length v - p" arbitrary: p rule: less_induct)
  case less
  show ?case
  proof (cases "p = length v")
    case True
    then show ?thesis by (subst process_loop.simps) simp
  next
    case False
    with less.prems have p: "p < length v" by simp
    have cons: "drop p v = v ! p # drop (p + 1) v" using p by (simp add: Cons_nth_drop_Suc)
    show ?thesis
    proof (cases "f (v ! p)")
      case True
      have step: "process_loop False (length v) f v p 0 = process_loop False (length v) f v (p + 1) 0"
        by (subst process_loop.simps) (use p True in simp)
      obtain p' d' where "process_loop False (length v) f v (p + 1) 0 = Some (v, p', d')"
        "p + 1 \<le> p'" "p' \<le> length v" "d' \<le> p'" "d' = 0 \<longrightarrow> p' = length v"
        "take (p + 1) v @ filter f (drop (p + 1) v) = take (p' - d') v @ filter f (drop p' v)"
        using less.hyps [of "p + 1"] p diff_less_mono2 [of p "p + 1" "length v"] by auto
      moreover have "take (p + 1) v @ filter f (drop (p + 1) v) = take p v @ filter f (drop p v)"
        using p True cons by (simp add: take_Suc_conv_app_nth)
      ultimately show ?thesis using step by auto
    next
      case False
      then have "process_loop False (length v) f v p 0 = Some (v, p + 1, 1)"
        by (subst process_loop.simps) (use p in simp)
      then show ?thesis using p False cons by auto
    qed
  qed
qed

lemma process_loop_stage2:
  assumes "d \<le> p" and "p \<le> length v"
  shows "\<exists>v' d'. process_loop True (length v) f v p d = Some (v', length v, d') \<and>
    length v' = length v \<and> d' \<le> length v \<and>
    take (length v - d') v' = take (p - d) v @ filter f (drop p v)"
  using assms
proof (induction "length v - p" arbitrary: p d v rule: less_induct)
  case less
  show ?case
  proof (cases "p = length v")
    case True
    then show ?thesis using less.prems by (subst process_loop.simps) simp
  next
    case False
    with less.prems have p: "p < length v" by simp
    have cons: "drop p v = v ! p # drop (p + 1) v" using p by (simp add: Cons_nth_drop_Suc)
    show ?thesis
    proof (cases "f (v ! p)")
      case True
      let ?v = "v[p - d := v ! p]"
      have step: "process_loop True (length v) f v p d = process_loop True (length v) f ?v (p + 1) d"
        by (subst process_loop.simps) (use p True in simp)
      obtain v' d' where IH: "process_loop True (length ?v) f ?v (p + 1) d = Some (v', length ?v, d')"
        "length v' = length ?v" "d' \<le> length ?v"
        "take (length ?v - d') v' = take (p + 1 - d) ?v @ filter f (drop (p + 1) ?v)"
        using less.hyps [of ?v "p + 1" d] less.prems p diff_less_mono2 [of p "p + 1" "length v"]
        by auto
      have "take (p + 1 - d) ?v = take (p - d) v @ [v ! p]"
        using p less.prems take_Suc_conv_app_nth [of "p - d" ?v] by (simp add: Suc_diff_le)
      moreover have "drop (p + 1) ?v = drop (p + 1) v" using p less.prems by simp
      ultimately show ?thesis using IH step True cons by auto
    next
      case False
      have step: "process_loop True (length v) f v p d = process_loop True (length v) f v (p + 1) (d + 1)"
        by (subst process_loop.simps) (use p False in simp)
      then show ?thesis
        using less.hyps [of v "p + 1" "d + 1"] less.prems p False cons
          diff_less_mono2 [of p "p + 1" "length v"] by auto
    qed
  qed
qed

lemma backshift_end: "length v = n \<Longrightarrow> d \<le> n \<Longrightarrow> backshift v n d n = take (n - d) v"
  by (simp add: backshift_def)

lemma retain_starting_at_correct:
  assumes "offset \<le> length vec"
  shows "retain_starting_at vec offset f = Some (take offset vec @ filter f (drop offset vec))"
proof (cases "vec = [] \<or> offset \<ge> length vec")
  case True
  then show ?thesis using assms by (auto simp: retain_starting_at_def)
next
  case False
  obtain p d where s1: "process_loop False (length vec) f vec offset 0 = Some (vec, p, d)"
    "p \<le> length vec" "d \<le> p"
    "take offset vec @ filter f (drop offset vec) = take (p - d) vec @ filter f (drop p vec)"
    using process_loop_stage1 [OF assms] by blast
  obtain v' d' where s2: "process_loop True (length vec) f vec p d = Some (v', length vec, d')"
    "length v' = length vec" "d' \<le> length vec"
    "take (length vec - d') v' = take (p - d) vec @ filter f (drop p vec)"
    using process_loop_stage2 [OF s1(3,2)] by blast
  show ?thesis using False s1 s2 by (simp add: retain_starting_at_def backshift_end)
qed

text \<open>The paired version runs in lockstep with the plain one on the zipped list.\<close>

lemma process_payload_loop_zip:
  assumes "length keys = n" and "length payload = n" and "p \<le> n"
  shows "rel_option (\<lambda>(ks, ps, p', d') (v, p'', d''). zip ks ps = v \<and> length ks = n \<and>
      length ps = n \<and> p' = p'' \<and> d' = d'')
    (process_payload_loop del n f keys payload p d)
    (process_loop del n (\<lambda>(k, x). f k x) (zip keys payload) p d)"
  using assms
proof (induction "n - p" arbitrary: keys payload p d rule: less_induct)
  case less
  show ?case
  proof (cases "p = n")
    case True
    then show ?thesis
      using less.prems by (subst process_payload_loop.simps, subst process_loop.simps) simp
  next
    case False
    with less.prems have p: "p < n" by simp
    have z: "zip keys payload ! p = (keys ! p, payload ! p)" using less.prems p by simp
    define ks where "ks = (if del \<and> f (keys ! p) (payload ! p) then keys[p - d := keys ! p] else keys)"
    define ps where "ps = (if del \<and> f (keys ! p) (payload ! p) then payload[p - d := payload ! p] else payload)"
    have zip: "zip ks ps = (if del \<and> f (keys ! p) (payload ! p)
        then (zip keys payload)[p - d := zip keys payload ! p] else zip keys payload)"
      using less.prems p by (simp add: ks_def ps_def update_zip)
    have IH: "rel_option (\<lambda>(ks, ps, p', d') (v, p'', d''). zip ks ps = v \<and> length ks = n \<and>
        length ps = n \<and> p' = p'' \<and> d' = d'')
      (process_payload_loop del n f ks ps (p + 1) d')
      (process_loop del n (\<lambda>(k, x). f k x) (zip ks ps) (p + 1) d')" for d'
      using less.hyps [of "p + 1" ks ps] less.prems p by (simp add: ks_def ps_def)
    show ?thesis
      using IH [of d] IH [of "d + 1"] less.prems p zip
      by (subst process_payload_loop.simps, subst process_loop.simps)
        (cases "f (keys ! p) (payload ! p)"; cases del; simp add: z ks_def ps_def)
  qed
qed

lemma process_payload_loop_Some:
  assumes "length keys = n" and "length payload = n" and "p \<le> n"
    and "process_loop del n (\<lambda>(k, x). f k x) (zip keys payload) p d = Some (v, p', d')"
  obtains ks ps where "process_payload_loop del n f keys payload p d = Some (ks, ps, p', d')"
    and "zip ks ps = v" and "length ks = n" and "length ps = n"
  using process_payload_loop_zip [OF assms(1-3), of del f d]
  unfolding assms(4) option_rel_Some2 by (elim exE conjE) (simp split: prod.splits)

lemma zip_backshift:
  "length ks = n \<Longrightarrow> length ps = n \<Longrightarrow> p \<le> n \<Longrightarrow> d \<le> p \<Longrightarrow>
     zip (backshift ks p d n) (backshift ps p d n) = backshift (zip ks ps) p d n"
  by (simp add: backshift_def take_zip drop_zip zip_append)

lemma length_backshift: "length ks = n \<Longrightarrow> length ps = n \<Longrightarrow>
  length (backshift ks p d n) = length (backshift ps p d n)"
  by (simp add: backshift_def)

lemma retain_payload_starting_at_correct:
  assumes "length keys = length payload" and "offset \<le> length keys"
  shows "\<exists>ks ps. retain_payload_starting_at keys payload offset f = Inr (Some (ks, ps)) \<and>
    length ks = length ps \<and>
    zip ks ps = take offset (zip keys payload) @
      filter (\<lambda>(k, x). f k x) (drop offset (zip keys payload))"
proof (cases "keys = [] \<or> offset \<ge> length keys")
  case True
  then show ?thesis using assms by (auto simp: retain_payload_starting_at_def)
next
  case False
  let ?z = "zip keys payload" and ?n = "length keys" and ?f = "\<lambda>(k, x). f k x"
  have n: "length ?z = ?n" using assms by simp
  obtain p d where s1: "process_loop False ?n ?f ?z offset 0 = Some (?z, p, d)"
    "p \<le> ?n" "d \<le> p"
    "take offset ?z @ filter ?f (drop offset ?z) = take (p - d) ?z @ filter ?f (drop p ?z)"
    using process_loop_stage1 [of offset ?z ?f] assms n by auto
  obtain v' d' where s2: "process_loop True ?n ?f ?z p d = Some (v', ?n, d')"
    "length v' = ?n" "d' \<le> ?n" "take (?n - d') v' = take (p - d) ?z @ filter ?f (drop p ?z)"
    using process_loop_stage2 [OF s1(3), of ?z ?f] s1(2) unfolding n by blast
  obtain ks1 ps1 where r1: "process_payload_loop False ?n f keys payload offset 0 = Some (ks1, ps1, p, d)"
    "zip ks1 ps1 = ?z" "length ks1 = ?n" "length ps1 = ?n"
    using process_payload_loop_Some [OF refl assms(1) [symmetric] assms(2) s1(1)] .
  obtain ks2 ps2 where r2: "process_payload_loop True ?n f ks1 ps1 p d = Some (ks2, ps2, ?n, d')"
    "zip ks2 ps2 = v'" "length ks2 = ?n" "length ps2 = ?n"
    using process_payload_loop_Some [OF r1(3,4) s1(2) s2(1) [folded r1(2)]] .
  have "zip (backshift ks2 ?n d' ?n) (backshift ps2 ?n d' ?n) = backshift v' ?n d' ?n"
    using r2 s2 by (simp add: zip_backshift)
  also have "\<dots> = take offset ?z @ filter ?f (drop offset ?z)"
    using s1 s2 by (simp add: backshift_end)
  finally show ?thesis
    using False assms r1 r2 length_backshift [of ks2 ?n ps2]
    by (auto simp: retain_payload_starting_at_def)
qed


section \<open>In-place compaction of a sorted slice\<close>

abbreviation pair_equal :: "('k \<times> 'r) \<Rightarrow> ('k \<times> 'r) \<Rightarrow> bool" where
  "pair_equal \<equiv> (\<lambda>(key1, _) (key2, _). key1 = key2)"

abbreviation pair_merge :: "('k \<times> 'r::plus) \<Rightarrow> ('k \<times> 'r) \<Rightarrow> ('k \<times> 'r)" where
  "pair_merge \<equiv> (\<lambda>(key1, diff1) (_, diff2). (key1, diff1 + diff2))"

abbreviation pair_is_zero :: "('k \<times> 'r::zero) \<Rightarrow> bool" where
  "pair_is_zero \<equiv> (\<lambda>(_, diff). diff = 0)"

lemma merge_runs_Cons2:
  "merge_runs (x # y # rest) =
     (if fst y = fst x then merge_runs (pair_merge x y # rest) else x # merge_runs (y # rest))"
  by (cases x; cases y) auto

lemma merge_runs_nonempty: "merge_runs (x # xs) \<noteq> []"
  by (induction "x # xs" arbitrary: x xs rule: merge_runs.induct) auto

text \<open>
  The loop keeps \<open>offset < index\<close> (so no assertion fails) and has processed
  \<open>take offset sl\<close>; the element at \<open>offset\<close> is being accumulated.
\<close>

lemma consolidate_slice_loop_correct:
  assumes "offset < index" and "index \<le> length sl"
  shows "\<exists>sl' offset'.
    consolidate_slice_loop pair_equal pair_merge pair_is_zero (length sl) sl offset index =
      Inr (sl', offset') \<and>
    length sl' = length sl \<and> offset' < length sl \<and>
    take offset' sl' @ filter nonzero [sl' ! offset'] =
      take offset sl @ filter nonzero (merge_runs (sl ! offset # drop index sl))"
  using assms
proof (induction "length sl - index" arbitrary: sl offset index rule: less_induct)
  case less
  show ?case
  proof (cases "index < length sl")
    case False
    then show ?thesis
      using less.prems by (subst consolidate_slice_loop.simps) simp
  next
    case True
    note m = diff_less_mono2 [OF lessI True, simplified]
    have cons: "drop index sl = sl ! index # drop (index + 1) sl"
      using True by (simp add: Cons_nth_drop_Suc)
    define offset' where
      "offset' = (if fst (sl ! index) = fst (sl ! offset) \<or> snd (sl ! offset) = 0 then offset else offset + 1)"
    define ys where
      "ys = (if fst (sl ! index) = fst (sl ! offset)
             then sl[offset := pair_merge (sl ! offset) (sl ! index)] else swap_at sl offset' index)"
    have step: "consolidate_slice_loop pair_equal pair_merge pair_is_zero (length sl) sl offset index =
        consolidate_slice_loop pair_equal pair_merge pair_is_zero (length ys) ys offset' (index + 1)"
      using less.prems True
      by (subst consolidate_slice_loop.simps)
        (auto simp: ys_def offset'_def Let_def split_beta)
    have "take offset' ys @ filter nonzero (merge_runs (ys ! offset' # drop (index + 1) ys)) =
        take offset sl @ filter nonzero (merge_runs (sl ! offset # drop index sl))"
    proof (cases "fst (sl ! index) = fst (sl ! offset)")
      case True
      then show ?thesis
        using less.prems cons by (simp add: ys_def offset'_def merge_runs_Cons2)
    next
      case False
      have "ys ! offset' = sl ! index" "drop (index + 1) ys = drop (index + 1) sl"
        using False less.prems \<open>index < length sl\<close>
        by (auto simp: ys_def offset'_def nth_swap_at)
      moreover have "take offset' ys = take offset sl @ filter nonzero [sl ! offset]"
        using False less.prems \<open>index < length sl\<close>
        by (auto simp: ys_def offset'_def nonzero_def take_Suc_conv_app_nth)
      ultimately show ?thesis using False cons by (simp add: merge_runs_Cons2)
    qed
    moreover have "length ys = length sl" by (simp add: ys_def)
    moreover have "offset' < index + 1" using less.prems by (simp add: offset'_def)
    ultimately show ?thesis
      using less.hyps [of ys "index + 1" offset'] True m step by (auto simp: Suc_le_eq)
  qed
qed

lemma consolidate_slice_inner_correct:
  assumes "sl \<noteq> []"
  shows "\<exists>sl' n. consolidate_slice_inner pair_equal pair_merge pair_is_zero sl = Inr (sl', n) \<and>
    n \<le> length sl' \<and> length sl' = length sl \<and> take n sl' = canon sl"
proof -
  obtain sl' offset where loop:
    "consolidate_slice_loop pair_equal pair_merge pair_is_zero (length sl) sl 0 1 = Inr (sl', offset)"
    "length sl' = length sl" "offset < length sl"
    "take offset sl' @ filter nonzero [sl' ! offset] = filter nonzero (merge_runs (sl ! 0 # drop 1 sl))"
    using consolidate_slice_loop_correct [of 0 1 sl] assms by (auto simp: Suc_le_eq)
  moreover have "sl ! 0 # drop 1 sl = sl" using assms by (cases sl) auto
  ultimately show ?thesis
    by (auto simp: consolidate_slice_inner_def canon_def nonzero_def split_beta
        take_Suc_conv_app_nth Suc_le_eq)
qed

text \<open>The paired loop is the loop on the zipped list.\<close>

lemma compact_loop_zip:
  assumes "length keys = len" and "length diffs = len" and "offset < index" and "index \<le> len"
  shows "rel_sum (=) (\<lambda>(ks, ds, o1) (sl, o2). zip ks ds = sl \<and> length ks = len \<and>
      length ds = len \<and> o1 = o2)
    (compact_loop (\<lambda>r. r = 0) len keys diffs offset index)
    (consolidate_slice_loop pair_equal pair_merge pair_is_zero len (zip keys diffs) offset index)"
  using assms
proof (induction "len - index" arbitrary: keys diffs offset index rule: less_induct)
  case less
  show ?case
  proof (cases "index < len")
    case False
    then show ?thesis
      using less.prems by (subst compact_loop.simps, subst consolidate_slice_loop.simps) simp
  next
    case True
    define offset' where
      "offset' = (if keys ! offset = keys ! index \<or> diffs ! offset = 0 then offset else offset + 1)"
    define ks where "ks = (if keys ! offset = keys ! index then keys else swap_at keys offset' index)"
    define ds where
      "ds = (if keys ! offset = keys ! index then diffs[offset := diffs ! offset + diffs ! index]
             else swap_at diffs offset' index)"
    have 1: "compact_loop (\<lambda>r. r = 0) len keys diffs offset index =
        compact_loop (\<lambda>r. r = 0) len ks ds offset' (index + 1)"
      using less.prems True
      by (subst compact_loop.simps) (auto simp: ks_def ds_def offset'_def Let_def)
    have 2: "consolidate_slice_loop pair_equal pair_merge pair_is_zero len (zip keys diffs) offset index =
        consolidate_slice_loop pair_equal pair_merge pair_is_zero len (zip ks ds) offset' (index + 1)"
    proof -
      have "zip ks ds = (if keys ! offset = keys ! index
          then (zip keys diffs)[offset := (keys ! offset, diffs ! offset + diffs ! index)]
          else swap_at (zip keys diffs) offset' index)"
        using less.prems True list_update_id [of keys offset]
        by (auto simp: ks_def ds_def offset'_def swap_at_zip update_zip simp del: list_update_id)
      then show ?thesis
        using less.prems True
        by (subst consolidate_slice_loop.simps) (auto simp: offset'_def Let_def)
    qed
    show ?thesis
      unfolding 1 2
      using less.hyps [of "index + 1" ks ds offset'] less.prems True
      by (simp add: ks_def ds_def offset'_def)
  qed
qed

lemma compact_paired_slices_correct:
  fixes diffs :: "'r::comm_monoid_add list"
  assumes "keys \<noteq> []" and "length keys = length diffs"
  shows "\<exists>ks ds n. compact_paired_slices False False (\<lambda>r. r = 0) keys diffs = Inr (ks, ds, n) \<and>
    n \<le> length ks \<and> length ks = length ds \<and> zip (take n ks) (take n ds) = canon (zip keys diffs)"
proof -
  let ?z = "zip keys diffs"
  have ne: "?z \<noteq> []" using assms by (cases keys; cases diffs) auto
  have len: "length ?z = length keys" using assms by simp
  obtain sl offset where loop:
    "consolidate_slice_loop pair_equal pair_merge pair_is_zero (length keys) ?z 0 1 = Inr (sl, offset)"
    "length sl = length keys" "offset < length keys"
    "take offset sl @ filter nonzero [sl ! offset] = filter nonzero (merge_runs (?z ! 0 # drop 1 ?z))"
    using consolidate_slice_loop_correct [of 0 1 ?z] ne unfolding len by (auto simp: Suc_le_eq)
  have "1 \<le> length keys" using assms(1) by (simp add: Suc_le_eq)
  then obtain ks ds where c:
    "compact_loop (\<lambda>r. r = 0) (length keys) keys diffs 0 1 = Inr (ks, ds, offset)"
    "zip ks ds = sl" "length ks = length keys" "length ds = length keys"
    using compact_loop_zip [OF refl assms(2) [symmetric], of 0 1] loop(1)
    by (cases "compact_loop (\<lambda>r. r = 0) (length keys) keys diffs 0 1") auto
  have "?z ! 0 # drop 1 ?z = ?z" using ne by (cases ?z) auto
  then have "take offset sl @ filter nonzero [sl ! offset] = canon ?z"
    using loop(4) by (simp add: canon_def)
  moreover have "sl ! offset = (ks ! offset, ds ! offset)" using c loop by auto
  ultimately have "take (if ds ! offset = 0 then offset else offset + 1) sl = canon ?z"
    using loop by (auto simp: nonzero_def take_Suc_conv_app_nth)
  then show ?thesis
    using assms c loop(3)
    by (auto simp: compact_paired_slices_def take_zip [symmetric] Suc_le_eq)
qed


section \<open>Contracts of the sorts, and the consolidation theorems\<close>

locale unstable_sort =
  fixes sort_by :: "('k::linorder \<times> 'r::comm_monoid_add) list \<Rightarrow> ('k \<times> 'r) list"
  assumes sort_mset: "mset (sort_by xs) = mset xs"
    and sort_sorted: "sorted (map fst (sort_by xs))"
begin

lemma canon_sort_consolidated: "consolidated (canon (sort_by xs))"
  by (rule consolidated_canon [OF sort_sorted])

lemma canon_sort_weight: "weight_of (canon (sort_by xs)) = weight_of xs"
  using weight_of_mset [OF sort_mset] by simp

lemma sort_Nil_iff: "sort_by xs = [] \<longleftrightarrow> xs = []"
  using sort_mset [of xs] by (metis mset_zero_iff)

lemma length_sort: "length (sort_by xs) = length xs"
  using sort_mset [of xs] by (metis size_mset)

lemma consolidate_eq: "consolidate sort_by xs = canon (sort_by xs)"
proof -
  have f: "(\<lambda>(_, data). data \<noteq> 0) = nonzero" by (auto simp: nonzero_def)
  have "sort_by [] = []" by (simp add: sort_Nil_iff)
  then show ?thesis
    by (cases "xs = []") (simp_all add: consolidate_def canon_def dedup_by_merge f)
qed

lemma consolidate_slice_eq:
  "\<exists>sl n. consolidate_slice sort_by xs = Inr (sl, n) \<and> n \<le> length sl \<and>
     take n sl = canon (sort_by xs)"
proof (cases "xs = []")
  case True
  then show ?thesis using sort_Nil_iff [of "[]"] by (simp add: consolidate_slice_def canon_def)
next
  case False
  then show ?thesis
    using consolidate_slice_inner_correct [of "sort_by xs"] sort_Nil_iff
    by (auto simp: consolidate_slice_def)
qed

lemma zip_bucket_pair:
  "map fst (dedup_by (zip_bucket pair_bucket) (zip xs (replicate (length xs) ()))) =
     merge_runs (xs :: ('k \<times> 'r) list)"
  by (induction xs rule: merge_runs.induct)
    (auto simp: zip_bucket_def pair_bucket_def)

lemma consolidate_from_eq:
  assumes "offset \<le> length xs"
  shows "consolidate_from sort_by xs offset =
    Inr (Some (take offset xs @ canon (sort_by (drop offset xs))))"
proof (cases "drop offset xs = []")
  case True
  then have "sort_by (drop offset xs) = []" using sort_Nil_iff by blast
  then show ?thesis using assms True by (simp add: consolidate_from_def canon_def)
next
  case False
  let ?v = "take offset xs @ sort_by (drop offset xs)"
  let ?u = "replicate (length ?v) ()"
  obtain ks ps where d: "dedup_payload_starting_at pair_bucket ?v ?u offset = Inr (ks, ps)"
    "length ks = length ps"
    "zip ks ps = take offset (zip ?v ?u) @ dedup_by (zip_bucket pair_bucket) (drop offset (zip ?v ?u))"
    using dedup_payload_starting_at_correct [of ?v ?u offset pair_bucket] assms
    by (auto simp: length_sort)
  have tk: "take offset (zip ?v ?u) = zip (take offset xs) (replicate offset ())"
    and dr: "drop offset (zip ?v ?u) =
      zip (sort_by (drop offset xs)) (replicate (length (sort_by (drop offset xs))) ())"
    using assms by (simp_all add: take_zip drop_zip min_absorb1)
  have ks: "ks = take offset xs @ merge_runs (sort_by (drop offset xs))"
  proof -
    have "ks = map fst (zip ks ps)" using d(2) by simp
    also have "\<dots> = take offset xs @ merge_runs (sort_by (drop offset xs))"
      unfolding d(3) tk dr map_append zip_bucket_pair using assms by simp
    finally show ?thesis .
  qed
  have f: "(\<lambda>(_, data). data \<noteq> 0) = nonzero" by (auto simp: nonzero_def)
  show ?thesis
    using False assms d(1) retain_starting_at_correct [of offset ks nonzero]
    by (simp add: consolidate_from_def ks canon_def f)
qed

end

interpretation std_sort:
  unstable_sort "sort_key fst :: ('k::linorder \<times> 'r::comm_monoid_add) list \<Rightarrow> _"
  by unfold_locales simp_all

locale paired_sort =
  fixes quicksort :: "'k::linorder list \<Rightarrow> 'r::comm_monoid_add list \<Rightarrow> ('k list \<times> 'r list) res"
  assumes psort_returns: "length ks = length ds \<Longrightarrow> \<exists>ks' ds'. quicksort ks ds = Inr (ks', ds')"
    and psort_length: "length ks = length ds \<Longrightarrow> quicksort ks ds = Inr (ks', ds') \<Longrightarrow>
      length ks' = length ks \<and> length ds' = length ds"
    and psort_mset: "length ks = length ds \<Longrightarrow> quicksort ks ds = Inr (ks', ds') \<Longrightarrow>
      mset (zip ks' ds') = mset (zip ks ds)"
    and psort_sorted: "length ks = length ds \<Longrightarrow> quicksort ks ds = Inr (ks', ds') \<Longrightarrow> sorted ks'"
begin

text \<open>The canonical result on the zipped updates.\<close>

lemma psort_canon:
  assumes "length ks = length ds" and "quicksort ks ds = Inr (ks', ds')"
  shows "consolidated (canon (zip ks' ds'))" and "weight_of (canon (zip ks' ds')) = weight_of (zip ks ds)"
  using psort_length [OF assms] psort_mset [OF assms] psort_sorted [OF assms] assms(1)
    consolidated_canon [of "zip ks' ds'"] weight_of_mset
  by auto

lemma consolidate_paired_slices_correct:
  assumes "length keys = length diffs"
  shows "\<exists>ks ds n. consolidate_paired_slices False False (\<lambda>r. r = 0) quicksort keys diffs =
      Inr (ks, ds, n) \<and> n \<le> length ks \<and>
    consolidated (zip (take n ks) (take n ds)) \<and>
    weight_of (zip (take n ks) (take n ds)) = weight_of (zip keys diffs)"
proof (cases "keys = []")
  case True
  then show ?thesis using assms by (simp add: consolidate_paired_slices_def)
next
  case False
  obtain ks ds where q: "quicksort keys diffs = Inr (ks, ds)" using psort_returns [OF assms] by blast
  have "ks \<noteq> []" "length ks = length ds"
    using psort_length [OF assms q] assms False by (cases ks; auto)+
  from compact_paired_slices_correct [OF this] obtain ks' ds' n where
    "compact_paired_slices False False (\<lambda>r. r = 0) ks ds = Inr (ks', ds', n)"
    "n \<le> length ks'" "length ks' = length ds'" "zip (take n ks') (take n ds') = canon (zip ks ds)"
    by blast
  then show ?thesis
    using psort_canon [OF assms q] False assms
    by (auto simp: consolidate_paired_slices_def q)
qed

lemma consolidate_payload_from_correct:
  assumes "length keys = length diffs" and "offset \<le> length keys"
  shows "\<exists>ks ds c. consolidate_payload_from quicksort keys diffs offset = Inr (Some (ks, ds)) \<and>
    length ks = length ds \<and> zip ks ds = take offset (zip keys diffs) @ c \<and>
    consolidated c \<and> weight_of c = weight_of (drop offset (zip keys diffs))"
proof (cases "drop offset keys = []")
  case True
  then have "drop offset (zip keys diffs) = []" "take offset (zip keys diffs) = zip keys diffs"
    using assms by auto
  then show ?thesis
    using True assms by (intro exI [of _ keys] exI [of _ diffs] exI [of _ "[]"])
      (auto simp: consolidate_payload_from_def)
next
  case False
  have lens: "length (drop offset keys) = length (drop offset diffs)" using assms by simp
  obtain ks ds where q: "quicksort (drop offset keys) (drop offset diffs) = Inr (ks, ds)"
    using psort_returns [OF lens] by blast
  have ls: "length ks = length keys - offset" "length ds = length diffs - offset"
    using psort_length [OF lens q] by simp_all
  let ?K = "take offset keys @ ks" and ?D = "take offset diffs @ ds"
  have KD: "length ?K = length ?D" "offset \<le> length ?K" using assms ls by simp_all
  have tk: "take offset (zip ?K ?D) = take offset (zip keys diffs)"
    and dr: "drop offset (zip ?K ?D) = zip ks ds"
    using assms by (simp_all add: take_zip drop_zip)
  obtain ks1 ds1 where d: "dedup_payload_starting_at diff_bucket ?K ?D offset = Inr (ks1, ds1)"
    "length ks1 = length ds1"
    "zip ks1 ds1 = take offset (zip keys diffs) @ merge_runs (zip ks ds)"
    using dedup_payload_starting_at_correct [OF KD, of diff_bucket] tk dr
    by (auto simp: zip_bucket_diff dedup_by_merge)
  have len1: "length ks1 = offset + length (merge_runs (zip ks ds))"
  proof -
    have "length ks1 = length (zip ks1 ds1)" using d(2) by simp
    also have "\<dots> = offset + length (merge_runs (zip ks ds))" using assms by (simp add: d(3))
    finally show ?thesis .
  qed
  then have off: "offset \<le> length ks1" by simp
  have f: "(\<lambda>(k, data). data \<noteq> 0) = nonzero" by (auto simp: nonzero_def)
  obtain ks2 ds2 where r: "retain_payload_starting_at ks1 ds1 offset (\<lambda>_ diff. diff \<noteq> 0) = Inr (Some (ks2, ds2))"
    "length ks2 = length ds2"
    "zip ks2 ds2 = take offset (zip ks1 ds1) @ filter nonzero (drop offset (zip ks1 ds1))"
    using retain_payload_starting_at_correct [OF d(2) off, of "\<lambda>_ diff. diff \<noteq> 0"] unfolding f by blast
  have "length (take offset (zip keys diffs)) = offset" using assms by simp
  then have "zip ks2 ds2 = take offset (zip keys diffs) @ canon (zip ks ds)"
    using r(3) d(3) by (simp add: canon_def)
  moreover have "drop offset (zip keys diffs) = zip (drop offset keys) (drop offset diffs)"
    by (simp add: drop_zip)
  ultimately show ?thesis
    using psort_canon [OF lens q] False assms q d(1) r(1,2)
    by (auto simp: consolidate_payload_from_def)
qed

end

section \<open>Properties\<close>

text \<open>
  C24. \<^verbatim>\<open>consolidate\<close> with any unstable sort returns the updates in canonical form: strictly
  increasing keys, no zero weight, and every key with the weight it had in the input.
\<close>

theorem consolidate_canonical:
  assumes "unstable_sort sort_by"
  shows "consolidated (consolidate sort_by xs) \<and>
    weight_of (consolidate sort_by xs) = weight_of xs"
  using unstable_sort.canon_sort_consolidated [OF assms] unstable_sort.canon_sort_weight [OF assms]
  by (simp add: unstable_sort.consolidate_eq [OF assms])

theorem consolidate_canonical_witness:
  "consolidated (consolidate (sort_key fst) [(2 :: nat, 1), (1, 4), (2, - 1), (1, 3 :: int)]) \<and>
    weight_of (consolidate (sort_key fst) [(2, 1), (1, 4), (2, - 1), (1, 3)]) =
    weight_of [(2 :: nat, 1), (1, 4), (2, - 1), (1, 3 :: int)]"
  by (rule consolidate_canonical) (rule std_sort.unstable_sort_axioms)

text \<open>
  C25. The in-place \<^verbatim>\<open>consolidate_slice\<close> never fails one of the assertions in front of its
  pointer accesses, and the prefix it returns is the list that \<^verbatim>\<open>consolidate\<close> computes, also
  when the two use different unstable sorts.
\<close>

theorem consolidate_slice_as_consolidate:
  assumes "unstable_sort sort_by" and "unstable_sort sort_by'"
  shows "\<exists>sl n. consolidate_slice sort_by xs = Inr (sl, n) \<and> n \<le> length sl \<and>
    take n sl = consolidate sort_by' xs"
proof -
  have "canon (sort_by xs) = canon (sort_by' xs)"
    using assms unstable_sort.canon_sort_consolidated unstable_sort.canon_sort_weight
    by (metis consolidated_unique)
  then show ?thesis
    using unstable_sort.consolidate_slice_eq [OF assms(1), of xs]
    by (simp add: unstable_sort.consolidate_eq [OF assms(2)])
qed

theorem consolidate_slice_as_consolidate_witness:
  "\<exists>sl n. consolidate_slice (sort_key fst) [(2 :: nat, 1), (1, 4), (2, - 1 :: int)] = Inr (sl, n) \<and>
    n \<le> length sl \<and> take n sl = consolidate (sort_key fst) [(2, 1), (1, 4), (2, - 1)]"
  by (rule consolidate_slice_as_consolidate) (rule std_sort.unstable_sort_axioms)+

text \<open>
  \<^verbatim>\<open>consolidate_from\<close> at a valid offset ends without a panic, keeps everything before the
  offset and replaces the rest by what \<^verbatim>\<open>consolidate\<close> makes of it; past the end it panics.
\<close>

theorem consolidate_from_splits:
  assumes "unstable_sort sort_by"
  shows "consolidate_from sort_by xs offset =
    (if offset \<le> length xs
     then Inr (Some (take offset xs @ consolidate sort_by (drop offset xs)))
     else Inl IndexOutOfBounds)"
  using unstable_sort.consolidate_from_eq [OF assms, of offset xs]
  by (simp add: unstable_sort.consolidate_eq [OF assms] consolidate_from_def)

theorem consolidate_from_splits_witness:
  "consolidate_from (sort_key fst) [(9 :: nat, 1 :: int), (2, 1), (1, 4), (2, - 1)] 1 =
    Inr (Some ((9, 1) # consolidate (sort_key fst) [(2, 1), (1, 4), (2, - 1)]))"
  using consolidate_from_splits [OF std_sort.unstable_sort_axioms,
      of "[(9 :: nat, 1 :: int), (2, 1), (1, 4), (2, - 1)]" 1]
  by simp

text \<open>
  C26. The in-place routines on parallel vectors compute list functions on the zipped vector from
  the starting point on: \<^verbatim>\<open>dedup_payload_starting_at\<close> is \<^verbatim>\<open>dedup_by\<close> and
  \<^verbatim>\<open>retain_payload_starting_at\<close> is a filter. Both end and keep the two vectors equally long.
\<close>

theorem payload_routines_functional:
  assumes "length keys = length payload" and "offset \<le> length keys"
  shows "(\<exists>ks ps. dedup_payload_starting_at f keys payload offset = Inr (ks, ps) \<and>
      length ks = length ps \<and>
      zip ks ps = take offset (zip keys payload) @
        dedup_by (\<lambda>x y. f (fst x) (snd x) (fst y) (snd y)) (drop offset (zip keys payload))) \<and>
    (\<exists>ks ps. retain_payload_starting_at keys payload offset g = Inr (Some (ks, ps)) \<and>
      length ks = length ps \<and>
      zip ks ps = take offset (zip keys payload) @
        filter (\<lambda>(k, x). g k x) (drop offset (zip keys payload)))"
  using dedup_payload_starting_at_correct [OF assms, of f]
    retain_payload_starting_at_correct [OF assms, of g]
  by (simp add: zip_bucket_def [abs_def])

theorem payload_routines_functional_witness:
  "(\<exists>ks ps. dedup_payload_starting_at diff_bucket [7, 3, 3 :: nat] [1, 2, 5 :: int] 1 =
      Inr (ks, ps) \<and> length ks = length ps \<and> zip ks ps = [(7, 1), (3, 7)]) \<and>
    (\<exists>ks ps. retain_payload_starting_at [7, 3, 3 :: nat] [0, 2, 0 :: int] 1 (\<lambda>_ d. d \<noteq> 0) =
      Inr (Some (ks, ps)) \<and> length ks = length ps \<and> zip ks ps = [(7, 0), (3, 2)])"
  using payload_routines_functional [of "[7, 3, 3 :: nat]" "[1, 2, 5 :: int]" 1 diff_bucket "\<lambda>_ _. True"]
    payload_routines_functional [of "[7, 3, 3 :: nat]" "[0, 2, 0 :: int]" 1 diff_bucket "\<lambda>_ d. d \<noteq> 0"]
  by (simp add: diff_bucket_def)



end
