(* ===== verification/Column_Laws.thy ===== *)
theory Column_Laws
  imports Column_Layer Consolidation
begin

text \<open>
  What the leaf layer promises. The visible part of a layer is the list of pairs behind its
  lower bound; \<open>cl_wf\<close> is the invariant of a layer (\<open>cl_ok\<close>, the asserted part, and
  consolidated pairs). Merging adds the Z-sets of the visible parts, \<open>retain\<close> filters the
  visible part, truncation by key drops the smaller keys, and a cursor walks the pairs in
  front of it.
\<close>

section \<open>The invariant and the visible part\<close>

definition cl_ok :: "('k, 'r) column_layer \<Rightarrow> bool" where
  "cl_ok l \<longleftrightarrow> length (cl_keys l) = length (cl_diffs l) \<and> cl_lower_bound l \<le> length (cl_keys l)"

definition cl_pairs :: "('k, 'r) column_layer \<Rightarrow> ('k, 'r) updates" where
  "cl_pairs l = zip (cl_keys l) (cl_diffs l)"

definition cl_range :: "('k, 'r) column_layer \<Rightarrow> nat \<Rightarrow> nat \<Rightarrow> ('k, 'r) updates" where
  "cl_range l a b = drop a (take b (cl_pairs l))"

definition cl_visible :: "('k, 'r) column_layer \<Rightarrow> ('k, 'r) updates" where
  "cl_visible l = drop (cl_lower_bound l) (cl_pairs l)"

definition cl_wf :: "('k::linorder, 'r::comm_monoid_add) column_layer \<Rightarrow> bool" where
  "cl_wf l \<longleftrightarrow> cl_ok l \<and> consolidated (cl_pairs l)"

definition cb_ok :: "('k, 'r) cl_builder \<Rightarrow> bool" where
  "cb_ok b \<longleftrightarrow> length (cb_keys b) = length (cb_diffs b)"

definition cb_pairs :: "('k, 'r) cl_builder \<Rightarrow> ('k, 'r) updates" where
  "cb_pairs b = zip (cb_keys b) (cb_diffs b)"

lemma cl_assume_invariants_ok [simp]: "cl_ok l \<Longrightarrow> cl_assume_invariants l = Inr ()"
  by (simp add: cl_ok_def cl_assume_invariants_def)

lemma cb_assume_invariants_ok [simp]: "cb_ok b \<Longrightarrow> cb_assume_invariants b = Inr ()"
  by (simp add: cb_ok_def cb_assume_invariants_def)

lemma cl_len_ok [simp]: "cl_ok l \<Longrightarrow> cl_len l = Inr (length (cl_keys l))"
  by (simp add: cl_len_def)

lemma length_cl_pairs [simp]: "cl_ok l \<Longrightarrow> length (cl_pairs l) = length (cl_keys l)"
  by (simp add: cl_pairs_def cl_ok_def)

lemma map_fst_cl_pairs: "cl_ok l \<Longrightarrow> map fst (cl_pairs l) = cl_keys l"
  by (simp add: cl_pairs_def cl_ok_def)

lemma cl_wf_ok [simp]: "cl_wf l \<Longrightarrow> cl_ok l"
  by (simp add: cl_wf_def)

lemma cl_wf_consolidated: "cl_wf l \<Longrightarrow> consolidated (cl_pairs l)"
  by (simp add: cl_wf_def)

lemma cl_wf_sorted:
  assumes "cl_wf l"
  shows "sorted (cl_keys l)"
  using consolidated_sorted [OF cl_wf_consolidated [OF assms]] map_fst_cl_pairs [of l] assms by simp

lemma consolidated_slice: "consolidated xs \<Longrightarrow> consolidated (drop a (take b xs))"
  by (auto simp: consolidated_def sorted_wrt_drop sorted_wrt_take simp flip: drop_map take_map
      dest!: in_set_dropD in_set_takeD)

lemma cl_visible_range: "cl_ok l \<Longrightarrow> cl_visible l = cl_range l (cl_lower_bound l) (length (cl_keys l))"
  by (simp add: cl_visible_def cl_range_def)

lemma consolidated_visible: "cl_wf l \<Longrightarrow> consolidated (cl_visible l)"
  using consolidated_slice [OF cl_wf_consolidated, of l "cl_lower_bound l" "length (cl_keys l)"]
  by (simp add: cl_visible_range cl_range_def)

section \<open>Ranges\<close>

lemma cl_range_split: "a \<le> m \<Longrightarrow> m \<le> b \<Longrightarrow> cl_range l a b = cl_range l a m @ cl_range l m b"
proof -
  assume "a \<le> m" "m \<le> b"
  then have "take b xs = take m xs @ drop m (take b xs)" for xs :: "('a, 'b) updates"
    by (metis append_take_drop_id min.absorb1 take_take)
  then have "drop a (take b xs) = drop a (take m xs) @ drop (a - length (take m xs)) (drop m (take b xs))"
    for xs :: "('a, 'b) updates" by (metis drop_append)
  moreover have "drop (a - length (take m xs)) (drop m (take b xs)) = drop m (take b xs)"
    for xs :: "('a, 'b) updates" using \<open>a \<le> m\<close> by (cases "m \<le> length xs") simp_all
  ultimately show ?thesis by (simp add: cl_range_def)
qed

lemma cl_range_Cons:
  assumes "cl_ok l" and "a < b" and "b \<le> length (cl_keys l)"
  shows "cl_range l a b = (cl_keys l ! a, cl_diffs l ! a) # cl_range l (a + 1) b"
proof -
  have "drop a (take b (cl_pairs l)) = take b (cl_pairs l) ! a # drop (Suc a) (take b (cl_pairs l))"
    using assms by (intro Cons_nth_drop_Suc [symmetric]) simp
  then show ?thesis using assms by (simp add: cl_range_def cl_pairs_def cl_ok_def)
qed

lemma cl_range_Nil [simp]: "b \<le> a \<Longrightarrow> cl_range l a b = []"
  by (simp add: cl_range_def)

lemma map_fst_cl_range: "cl_ok l \<Longrightarrow> map fst (cl_range l a b) = drop a (take b (cl_keys l))"
  using map_fst_cl_pairs [of l] by (simp add: cl_range_def flip: drop_map take_map)

lemma falling_below:
  assumes "sorted (xs :: 'k::linorder list)"
  shows "falling (\<lambda>x. x < k) xs"
  using assms by (auto simp: falling_def elim!: sorted_wrt_mono_rel [rotated])

lemma sorted_slice: "sorted xs \<Longrightarrow> sorted (drop a (take b xs))"
  by (simp add: sorted_wrt_drop sorted_wrt_take)

lemma advance_below:
  "sorted (xs :: 'k::linorder list) \<Longrightarrow>
     advance xs (\<lambda>x. x < k) = Some (length (takeWhile (\<lambda>x. x < k) xs))"
  by (simp add: advance_def advance_raw_correct falling_below)

section \<open>The builder\<close>

lemma cb_push_tuple_ok:
  "cb_ok b \<Longrightarrow> \<exists>b'. cb_push_tuple b x = Inr b' \<and> cb_ok b' \<and> cb_pairs b' = cb_pairs b @ [x]"
  by (simp add: cb_push_tuple_def cb_ok_def cb_pairs_def cb_assume_invariants_def Let_def)

lemma cb_push_nonzero:
  "cb_ok b \<Longrightarrow> \<exists>b'. (if \<not> r = 0 then cb_push_tuple b (k, r) else Inr b) = Inr b' \<and> cb_ok b' \<and>
     cb_pairs b' = cb_pairs b @ (if r = 0 then [] else [(k, r)])"
  using cb_push_tuple_ok [of b "(k, r)"] by (cases "r = 0") auto

lemma cb_extend_tuples_ok:
  "cb_ok b \<Longrightarrow> \<exists>b'. cb_extend_tuples b xs = Inr b' \<and> cb_ok b' \<and> cb_pairs b' = cb_pairs b @ xs"
proof (induction xs arbitrary: b)
  case (Cons x xs)
  obtain b' where b': "cb_push_tuple b x = Inr b'" "cb_ok b'" "cb_pairs b' = cb_pairs b @ [x]"
    using cb_push_tuple_ok [OF Cons.prems] by blast
  show ?case using Cons.IH [OF b'(2)] b' by auto
qed simp

lemma cb_copy_range_ok:
  assumes "cb_ok b" and "cl_ok l" and "lower \<le> upper" and "upper \<le> length (cl_keys l)"
  shows "\<exists>b'. cb_copy_range b l lower upper = Inr b' \<and> cb_ok b' \<and>
    cb_pairs b' = cb_pairs b @ cl_range l lower upper"
  using assms
  by (auto simp: cb_copy_range_def cb_ok_def cl_ok_def cb_pairs_def cl_range_def cl_pairs_def
      cb_assume_invariants_def cl_assume_invariants_def Let_def drop_zip take_zip)

text \<open>
  One copying step of the merge: all keys of the copied range are below the other side's head,
  since the search counts them.
\<close>

lemma merge_step_below:
  assumes wf: "cl_wf l" and lu: "lower < upper" "upper \<le> length (cl_keys l)"
    and less: "cl_keys l ! lower < k"
    and n: "n = length (takeWhile (\<lambda>x. x < k) (drop (1 + lower) (take upper (cl_keys l))))"
    and step: "step = min (1 + n) 1000"
  shows "lower < lower + step" and "lower + step \<le> upper"
    and "\<And>x. x \<in> set (cl_range l lower (lower + step)) \<Longrightarrow> fst x < k"
proof -
  let ?ks = "drop (1 + lower) (take upper (cl_keys l))"
  have "n \<le> length ?ks" unfolding n by (rule length_takeWhile_le)
  then have n_le: "1 + lower + n \<le> upper" using lu by simp
  show "lower < lower + step" "lower + step \<le> upper" using n_le step by simp_all
  fix x assume "x \<in> set (cl_range l lower (lower + step))"
  then have "fst x \<in> set (drop lower (take (lower + step) (cl_keys l)))"
    using wf by (simp flip: map_fst_cl_range)
  then obtain i where i: "i < step" "lower + i < length (cl_keys l)" "fst x = cl_keys l ! (lower + i)"
    using lu n_le step by (auto simp: in_set_conv_nth)
  show "fst x < k"
  proof (cases i)
    case 0
    then show ?thesis using i less by simp
  next
    case (Suc j)
    then have j: "j < length (takeWhile (\<lambda>x. x < k) ?ks)" using i(1) step n by simp
    then have "takeWhile (\<lambda>x. x < k) ?ks ! j = ?ks ! j" by (rule takeWhile_nth)
    moreover have "takeWhile (\<lambda>x. x < k) ?ks ! j < k"
      using nth_mem [OF j] by (auto dest: set_takeWhileD)
    moreover have "?ks ! j = cl_keys l ! (lower + i)"
      using Suc i n_le lu step n j length_takeWhile_le [of "\<lambda>x. x < k" ?ks] by simp
    ultimately show ?thesis using i(3) by simp
  qed
qed

lemma merge_copy_step:
  assumes wf: "cl_wf l" and b: "cb_ok b" and lu: "lower < upper" "upper \<le> length (cl_keys l)"
    and less: "cl_keys l ! lower < k"
  obtains n step b' where
    "advance (drop (1 + lower) (take upper (cl_keys l))) (\<lambda>x. x < k) = Some n"
    "step = min (1 + n) 1000" "lower + step \<le> upper"
    "cb_copy_range b l lower (lower + step) = Inr b'" "cb_ok b'"
    "cb_pairs b' = cb_pairs b @ cl_range l lower (lower + step)"
    "\<And>x. x \<in> set (cl_range l lower (lower + step)) \<Longrightarrow> fst x < k"
    "cl_range l lower upper = cl_range l lower (lower + step) @ cl_range l (lower + step) upper"
proof -
  define n where "n = length (takeWhile (\<lambda>x. x < k) (drop (1 + lower) (take upper (cl_keys l))))"
  define step where "step = min (1 + n) 1000"
  note below = merge_step_below [OF wf lu less n_def step_def]
  obtain b' where "cb_copy_range b l lower (lower + step) = Inr b'" "cb_ok b'"
    "cb_pairs b' = cb_pairs b @ cl_range l lower (lower + step)"
    using cb_copy_range_ok [OF b cl_wf_ok [OF wf], of lower "lower + step"] below(2) lu by auto
  moreover have "advance (drop (1 + lower) (take upper (cl_keys l))) (\<lambda>x. x < k) = Some n"
    unfolding n_def by (intro advance_below sorted_slice cl_wf_sorted wf)
  moreover have "cl_range l lower upper = cl_range l lower (lower + step) @ cl_range l (lower + step) upper"
    using below(1,2) by (intro cl_range_split) simp_all
  ultimately show ?thesis using that step_def below(2,3) by blast
qed

lemma cb_merge_loop_ok:
  assumes "cl_wf t1" and "cl_wf t2" and "cb_ok b"
    and "l1 \<le> u1" and "u1 \<le> length (cl_keys t1)" and "l2 \<le> u2" and "u2 \<le> length (cl_keys t2)"
  shows "\<exists>b' l1' l2'. cb_merge_loop b t1 t2 l1 u1 l2 u2 = ok (b', l1', l2') \<and> cb_ok b' \<and>
    l1' \<le> u1 \<and> l2' \<le> u2 \<and> (l1' = u1 \<or> l2' = u2) \<and>
    cb_pairs b' @ merge_updates (cl_range t1 l1' u1) (cl_range t2 l2' u2) =
    cb_pairs b @ merge_updates (cl_range t1 l1 u1) (cl_range t2 l2 u2)"
  using assms
proof (induction b t1 t2 l1 u1 l2 u2 rule: cb_merge_loop.induct)
  case (1 b t1 t2 l1 u1 l2 u2)
  note wf = "1.prems"(1,2) and bnd = "1.prems"(4-7)
  let ?k1 = "cl_keys t1 ! l1" and ?k2 = "cl_keys t2 ! l2"
  show ?case
  proof (cases "l1 < u1 \<and> l2 < u2")
    case False
    then show ?thesis using "1.prems" by (subst cb_merge_loop.simps) auto
  next
    case True
    note r1 = cl_range_Cons [OF cl_wf_ok [OF wf(1)] _ bnd(2), of l1]
      and r2 = cl_range_Cons [OF cl_wf_ok [OF wf(2)] _ bnd(4), of l2]
    have bounds: "\<not> \<not> (u1 \<le> length (cl_keys t1) \<and> u2 \<le> length (cl_keys t2))" using bnd by simp
    consider (lt) "?k1 < ?k2" | (eq) "?k1 = ?k2" | (gt) "\<not> ?k1 < ?k2" "?k1 \<noteq> ?k2" "?k2 < ?k1"
      by fastforce
    then show ?thesis
    proof cases
      case lt
      obtain n step b' where s: "advance (drop (1 + l1) (take u1 (cl_keys t1))) (\<lambda>x. x < ?k2) = Some n"
        "step = min (1 + n) 1000" "l1 + step \<le> u1" "cb_copy_range b t1 l1 (l1 + step) = Inr b'"
        "cb_ok b'" "cb_pairs b' = cb_pairs b @ cl_range t1 l1 (l1 + step)"
        "\<And>x. x \<in> set (cl_range t1 l1 (l1 + step)) \<Longrightarrow> fst x < ?k2"
        "cl_range t1 l1 u1 = cl_range t1 l1 (l1 + step) @ cl_range t1 (l1 + step) u1"
        by (rule merge_copy_step [OF wf(1) "1.prems"(3) conjunct1 [OF True] bnd(2) lt]) blast
      have "cb_merge_loop b t1 t2 l1 u1 l2 u2 = cb_merge_loop b' t1 t2 (l1 + step) u1 l2 u2"
        using True bnd lt s(1,4) by (subst cb_merge_loop.simps) (simp add: Let_def s(2))
      then show ?thesis
        using "1.IH"(1) [OF True bounds lt, of n step b'] bnd s wf True r2
        by (simp add: merge_updates_copy_left)
    next
      case eq
      let ?sum = "cl_diffs t1 ! l1 + cl_diffs t2 ! l2"
      obtain b' where b': "(if \<not> ?sum = 0 then cb_push_tuple b (?k1, ?sum) else Inr b) = Inr b'"
        "cb_ok b'" "cb_pairs b' = cb_pairs b @ (if ?sum = 0 then [] else [(?k1, ?sum)])"
        using cb_push_nonzero [OF "1.prems"(3)] by blast
      have "cb_merge_loop b t1 t2 l1 u1 l2 u2 = cb_merge_loop b' t1 t2 (l1 + 1) u1 (l2 + 1) u2"
        using True bnd eq b'(1) by (subst cb_merge_loop.simps) (simp add: Let_def)
      moreover have "merge_updates (cl_range t1 l1 u1) (cl_range t2 l2 u2) =
          (if ?sum = 0 then [] else [(?k1, ?sum)]) @
          merge_updates (cl_range t1 (l1 + 1) u1) (cl_range t2 (l2 + 1) u2)"
        using r1 r2 True eq by simp
      moreover have "l1 + 1 \<le> u1" "l2 + 1 \<le> u2" using True by simp_all
      moreover have "\<not> ?k1 < ?k2" "lift_res (if \<not> ?sum = 0 then cb_push_tuple b (?k1, ?sum) else Inr b) = ok b'"
        using eq b'(1) by simp_all
      ultimately show ?thesis
        using "1.IH"(2) [OF True bounds _ eq refl _ wf b'(2) _ bnd(2) _ bnd(4)] b'(3)
        by simp
    next
      case gt
      obtain n step b' where s: "advance (drop (1 + l2) (take u2 (cl_keys t2))) (\<lambda>x. x < ?k1) = Some n"
        "step = min (1 + n) 1000" "l2 + step \<le> u2" "cb_copy_range b t2 l2 (l2 + step) = Inr b'"
        "cb_ok b'" "cb_pairs b' = cb_pairs b @ cl_range t2 l2 (l2 + step)"
        "\<And>x. x \<in> set (cl_range t2 l2 (l2 + step)) \<Longrightarrow> fst x < ?k1"
        "cl_range t2 l2 u2 = cl_range t2 l2 (l2 + step) @ cl_range t2 (l2 + step) u2"
        by (rule merge_copy_step [OF wf(2) "1.prems"(3) conjunct2 [OF True] bnd(4) gt(3)]) blast
      have "cb_merge_loop b t1 t2 l1 u1 l2 u2 = cb_merge_loop b' t1 t2 l1 u1 (l2 + step) u2"
        using True bnd gt s(1,4) by (subst cb_merge_loop.simps) (simp add: Let_def s(2))
      then show ?thesis
        using "1.IH"(3) [OF True bounds gt(1,2), of n step b'] bnd s wf True r1
        by (simp add: merge_updates_copy_right)
    qed
  qed
qed


text \<open>Behind the loop at most one of the inputs has elements left, and they are copied.\<close>

lemma cb_copy_rest:
  assumes "cb_ok b" and "cl_ok l" and "lower \<le> upper" and "upper \<le> length (cl_keys l)"
  shows "\<exists>b'. (if lower < upper then cb_copy_range b l lower upper else Inr b) = Inr b' \<and> cb_ok b' \<and>
    cb_pairs b' = cb_pairs b @ cl_range l lower upper"
  using cb_copy_range_ok [OF assms] assms by (cases "lower < upper") auto

definition cc_ok :: "('k, 'r) cl_cursor_state \<Rightarrow> bool" where
  "cc_ok c \<longleftrightarrow> cl_ok (cc_storage c) \<and> cc_lower c \<le> cc_upper c \<and>
     cc_upper c \<le> length (cl_keys (cc_storage c)) \<and>
     int (cc_lower c) - 1 \<le> cc_pos c \<and> cc_pos c \<le> int (cc_upper c)"

definition cc_rest :: "('k, 'r) cl_cursor_state \<Rightarrow> ('k, 'r) updates" where
  "cc_rest c =
     (if cc_pos c < int (cc_lower c) then [] else cl_range (cc_storage c) (nat (cc_pos c)) (cc_upper c))"

lemma cb_push_merge_ok:
  assumes "cc_ok c1" and "cc_ok c2" and "cl_wf (cc_storage c1)" and "cl_wf (cc_storage c2)"
    and "int (cc_lower c1) \<le> cc_pos c1" and "int (cc_lower c2) \<le> cc_pos c2" and "cb_ok b"
  shows "\<exists>b'. cb_push_merge b c1 c2 = ok (b', length (cb_keys b')) \<and> cb_ok b' \<and>
    cb_pairs b' = cb_pairs b @ merge_updates (cc_rest c1) (cc_rest c2)"
proof -
  let ?t1 = "cc_storage c1" and ?t2 = "cc_storage c2"
    and ?u1 = "cc_upper c1" and ?u2 = "cc_upper c2"
  have p: "cc_position c1 \<le> ?u1" "?u1 \<le> length (cl_keys ?t1)" "cc_position c2 \<le> ?u2"
    "?u2 \<le> length (cl_keys ?t2)" using assms(1,2) by (auto simp: cc_ok_def cc_position_def)
  obtain b1 l1 l2 where loop:
    "cb_merge_loop b ?t1 ?t2 (cc_position c1) ?u1 (cc_position c2) ?u2 = ok (b1, l1, l2)"
    "cb_ok b1" "l1 \<le> ?u1" "l2 \<le> ?u2" "l1 = ?u1 \<or> l2 = ?u2"
    "cb_pairs b1 @ merge_updates (cl_range ?t1 l1 ?u1) (cl_range ?t2 l2 ?u2) =
     cb_pairs b @ merge_updates (cl_range ?t1 (cc_position c1) ?u1) (cl_range ?t2 (cc_position c2) ?u2)"
    using cb_merge_loop_ok [OF assms(3,4,7) p] by blast
  obtain b2 where c1: "(if l1 < ?u1 then cb_copy_range b1 ?t1 l1 ?u1 else Inr b1) = Inr b2"
    "cb_ok b2" "cb_pairs b2 = cb_pairs b1 @ cl_range ?t1 l1 ?u1"
    using cb_copy_rest [OF loop(2) cl_wf_ok [OF assms(3)] loop(3) p(2)] by blast
  obtain b3 where c2: "(if l2 < ?u2 then cb_copy_range b2 ?t2 l2 ?u2 else Inr b2) = Inr b3"
    "cb_ok b3" "cb_pairs b3 = cb_pairs b2 @ cl_range ?t2 l2 ?u2"
    using cb_copy_rest [OF c1(2) cl_wf_ok [OF assms(4)] loop(4) p(4)] by blast
  have "merge_updates (cl_range ?t1 l1 ?u1) (cl_range ?t2 l2 ?u2) =
      cl_range ?t1 l1 ?u1 @ cl_range ?t2 l2 ?u2" using loop(5) by auto
  then have "cb_pairs b3 = cb_pairs b @ merge_updates (cc_rest c1) (cc_rest c2)"
    using c1(3) c2(3) loop(6) assms(5,6) by (simp add: cc_rest_def cc_position_def)
  then show ?thesis
    using p loop(1) c1(1) c2(1,2) assms(3,4,7) by (simp add: cb_push_merge_def Let_def)
qed

section \<open>Merging and algebra\<close>

lemma cl_trie_keys_ok [simp]:
  "cl_ok l \<Longrightarrow> cl_trie_keys l = Inr (length (cl_keys l) - cl_lower_bound l)"
  by (simp add: cl_trie_keys_def)

lemma cl_cursor_ok:
  assumes "cl_ok l"
  shows "\<exists>c. cl_cursor l = Inr c \<and> cc_ok c \<and> cc_storage c = l \<and>
    int (cc_lower c) \<le> cc_pos c \<and> cc_rest c = cl_visible l"
  using assms by (simp add: cl_cursor_def cl_cursor_from_def cc_new_def cc_ok_def cc_rest_def
      cl_visible_range cl_ok_def [of l])

lemma cb_done_ok:
  "cb_ok b \<Longrightarrow> \<exists>l. cb_done b = Inr l \<and> cl_ok l \<and> cl_pairs l = cb_pairs b \<and> cl_lower_bound l = 0 \<and>
     cl_keys l = cb_keys b"
  by (simp add: cb_done_def cl_ok_def cb_ok_def cl_pairs_def cb_pairs_def cb_assume_invariants_def)

lemma cl_merge_ok:
  assumes "cl_wf l1" and "cl_wf l2"
  shows "\<exists>l. cl_merge l1 l2 = ok l \<and> cl_wf l \<and> cl_lower_bound l = 0 \<and>
    cl_visible l = merge_updates (cl_visible l1) (cl_visible l2)"
proof -
  obtain c1 c2 where c: "cl_cursor l1 = Inr c1" "cc_ok c1" "cc_storage c1 = l1"
    "int (cc_lower c1) \<le> cc_pos c1" "cc_rest c1 = cl_visible l1"
    "cl_cursor l2 = Inr c2" "cc_ok c2" "cc_storage c2 = l2"
    "int (cc_lower c2) \<le> cc_pos c2" "cc_rest c2 = cl_visible l2"
    using cl_cursor_ok assms by (metis cl_wf_ok)
  have new: "cb_ok (cb_with_key_capacity n)" "cb_pairs (cb_with_key_capacity n) = []" for n
    by (simp_all add: cb_with_key_capacity_def cb_ok_def cb_pairs_def)
  obtain b where b: "cb_push_merge (cb_with_key_capacity
      (length (cl_keys l1) - cl_lower_bound l1 + (length (cl_keys l2) - cl_lower_bound l2))) c1 c2 =
      ok (b, length (cb_keys b))"
    "cb_ok b" "cb_pairs b = merge_updates (cl_visible l1) (cl_visible l2)"
    using cb_push_merge_ok [OF c(2,7) _ _ c(4,9) new(1)] assms c new(2) by fastforce
  obtain l where l: "cb_done b = Inr l" "cl_ok l" "cl_pairs l = cb_pairs b" "cl_lower_bound l = 0"
    using cb_done_ok [OF b(2)] by blast
  have "consolidated (cl_pairs l)"
    using l b(3) consolidated_merge consolidated_visible assms by metis
  then show ?thesis
    using l b assms c by (simp add: cl_merge_def cb_with_capacity_def cl_wf_def cl_visible_def)
qed

lemma cl_is_empty_ok: "cl_ok l \<Longrightarrow> cl_is_empty l = Inr (cl_keys l = [])"
  by (simp add: cl_is_empty_def)

lemma cl_visible_empty: "cl_keys l = [] \<Longrightarrow> cl_visible l = []"
  by (simp add: cl_visible_def cl_pairs_def)

text \<open>All the additions agree with the merge on the visible part.\<close>

lemma cl_add_ok:
  assumes "cl_wf l1" and "cl_wf l2"
    and "op = cl_add \<or> op = cl_add_assign \<or> op = cl_add_assign_by_ref \<or> op = cl_add_by_ref \<or> op = cl_merge"
  shows "\<exists>l. op l1 l2 = ok l \<and> cl_wf l \<and>
    cl_visible l = merge_updates (cl_visible l1) (cl_visible l2)"
  using assms cl_merge_ok [OF assms(1,2)] cl_visible_empty [of l1] cl_visible_empty [of l2]
  by (auto simp: cl_add_def cl_add_assign_def cl_add_assign_by_ref_def cl_add_by_ref_def cl_is_empty_ok)

lemma cl_neg_ok:
  fixes l :: "('k::linorder, 'r::ab_group_add) column_layer"
  assumes "cl_wf l" and "op = cl_neg \<or> op = cl_neg_by_ref"
  shows "cl_wf (op l)" and "cl_visible (op l) = map (\<lambda>(k, r). (k, - r)) (cl_visible l)"
proof -
  have pairs: "cl_pairs (op l) = map (\<lambda>(k, r). (k, - r)) (cl_pairs l)"
    using assms(2) by (auto simp: cl_neg_def cl_neg_by_ref_def cl_pairs_def zip_map2)
  have keys: "cl_keys (op l) = cl_keys l" "length (cl_diffs (op l)) = length (cl_diffs l)"
    "cl_lower_bound (op l) = cl_lower_bound l"
    using assms(2) by (auto simp: cl_neg_def cl_neg_by_ref_def)
  have fst: "fst \<circ> (\<lambda>(k, r). (k, - r)) = (fst :: 'k \<times> 'r \<Rightarrow> 'k)"
    by (auto simp: fun_eq_iff)
  have "consolidated (cl_pairs (op l))"
    using cl_wf_consolidated [OF assms(1)] unfolding pairs consolidated_def by (auto simp: fst)
  then show "cl_wf (op l)" using cl_wf_ok [OF assms(1)] keys by (simp add: cl_wf_def cl_ok_def)
  show "cl_visible (op l) = map (\<lambda>(k, r). (k, - r)) (cl_visible l)"
    using pairs keys by (simp add: cl_visible_def drop_map)
qed

lemma weight_of_neg:
  "weight_of (map (\<lambda>(k, r). (k, - r :: 'r::ab_group_add)) xs) k = - weight_of xs k"
  by (induction xs) auto

section \<open>Truncation\<close>

lemma cl_truncate_below_ok:
  assumes "cl_wf l"
  shows "cl_wf (cl_truncate_below l n)"
    and "cl_visible (cl_truncate_below l n) = drop (n - cl_lower_bound l) (cl_visible l)"
proof -
  have same: "cl_pairs (cl_truncate_below l n) = cl_pairs l"
    by (simp add: cl_truncate_below_def cl_pairs_def)
  have ok: "cl_ok (cl_truncate_below l n)"
    using cl_wf_ok [OF assms] by (auto simp: cl_truncate_below_def cl_ok_def)
  then show "cl_wf (cl_truncate_below l n)" using assms same by (simp add: cl_wf_def)
  show "cl_visible (cl_truncate_below l n) = drop (n - cl_lower_bound l) (cl_visible l)"
    using cl_wf_ok [OF assms] length_cl_pairs [OF cl_wf_ok [OF assms]]
    by (auto simp: cl_visible_def same cl_truncate_below_def cl_pairs_def cl_ok_def min_def)
qed

lemma drop_falling:
  "falling f xs \<Longrightarrow> drop (length (takeWhile f xs) - m) (drop m xs) = filter (\<lambda>x. \<not> f x) (drop m xs)"
proof (induction xs arbitrary: m)
  case (Cons x xs)
  show ?case
  proof (cases m)
    case 0
    then show ?thesis
      using dropWhile_falling_filter [OF Cons.prems] dropWhile_eq_drop [of f "x # xs"] by simp
  next
    case (Suc n)
    have "filter (\<lambda>y. \<not> f y) (drop n xs) = drop n xs" if "\<not> f x"
      using Cons.prems that by (auto simp: falling_Cons filter_id_conv dest: in_set_dropD)
    then show ?thesis using Cons Suc by (simp add: falling_Cons)
  qed
qed simp

lemma cl_truncate_keys_below_ok:
  assumes "cl_wf l"
  shows "\<exists>l'. cl_truncate_keys_below l k = Some l' \<and> cl_wf l' \<and> cl_keys l' = cl_keys l \<and>
    cl_visible l' = filter (\<lambda>x. k \<le> fst x) (cl_visible l)"
proof -
  let ?n = "length (takeWhile (\<lambda>x. x < k) (cl_keys l))"
  have n: "?n = length (takeWhile (\<lambda>x. fst x < k) (cl_pairs l))"
    unfolding map_fst_cl_pairs [OF cl_wf_ok [OF assms], symmetric] by (simp add: takeWhile_map comp_def)
  have "sorted (map fst (cl_pairs l))" using assms consolidated_sorted cl_wf_consolidated by blast
  then have "falling (\<lambda>x. fst x < k) (cl_pairs l)"
    by (auto simp: falling_def sorted_wrt_map elim!: sorted_wrt_mono_rel [rotated])
  then have "drop (?n - cl_lower_bound l) (cl_visible l) = filter (\<lambda>x. k \<le> fst x) (cl_visible l)"
    unfolding n cl_visible_def by (simp only: drop_falling not_less)
  moreover have "cl_keys (cl_truncate_below l ?n) = cl_keys l" by (simp add: cl_truncate_below_def)
  ultimately show ?thesis
    using cl_truncate_below_ok [OF assms, of ?n] cl_wf_sorted [OF assms]
    by (simp add: cl_truncate_keys_below_def advance_below)
qed

lemma cl_truncate_ok:
  assumes "cl_wf l"
  shows "\<exists>l'. cl_truncate l n = Inr l' \<and> cl_wf l' \<and>
    cl_visible l' = take (n - cl_lower_bound l) (cl_visible l)"
proof -
  define l' where "l' = l\<lparr>cl_keys := take n (cl_keys l), cl_diffs := take n (cl_diffs l),
    cl_lower_bound := min (cl_lower_bound l) n\<rparr>"
  have ok: "cl_ok l'" using cl_wf_ok [OF assms] by (auto simp: l'_def cl_ok_def)
  have pairs: "cl_pairs l' = take n (cl_pairs l)" by (simp add: l'_def cl_pairs_def take_zip)
  have "cl_wf l'"
    using ok consolidated_slice [OF cl_wf_consolidated [OF assms], of 0 n] by (simp add: cl_wf_def pairs)
  moreover have "cl_visible l' = take (n - cl_lower_bound l) (cl_visible l)"
    by (simp add: cl_visible_def pairs) (simp add: l'_def drop_take min_def)
  moreover have "cl_truncate l n = Inr l'"
    using ok assms by (simp add: cl_truncate_def flip: l'_def)
  ultimately show ?thesis by blast
qed

section \<open>In-place filtering\<close>

text \<open>The loop is that of \<^verbatim>\<open>retain_payload_starting_at\<close>.\<close>

lemma cl_process_loop_payload:
  assumes "p \<le> n"
  shows "cl_process_loop del n f keys diffs p d = process_payload_loop del n f keys diffs p d"
  using assms
proof (induction "n - p" arbitrary: keys diffs p d rule: less_induct)
  case less
  show ?case
  proof (cases "p = n")
    case True
    then show ?thesis by (subst cl_process_loop.simps, subst process_payload_loop.simps) simp
  next
    case False
    then have "n - (p + 1) < n - p" "p + 1 \<le> n" using less.prems by simp_all
    note IH = less.hyps [OF this]
    show ?thesis
      by (subst cl_process_loop.simps, subst process_payload_loop.simps) (simp only: IH)
  qed
qed

lemma cl_backshift_payload: "cl_backshift = backshift"
  by (intro ext) (simp add: cl_backshift_def backshift_def)

lemma cl_stage2:
  assumes "length keys = n" and "length diffs = n" and "d \<le> p" and "p \<le> n"
  shows "\<exists>ks ds p' d'. cl_process_loop True n f keys diffs p d = Some (ks, ds, p', d') \<and>
    length (backshift ks p' d' n) = length (backshift ds p' d' n) \<and>
    zip (backshift ks p' d' n) (backshift ds p' d' n) =
      take (p - d) (zip keys diffs) @ filter (\<lambda>(k, r). f k r) (drop p (zip keys diffs))"
proof -
  have len: "length (zip keys diffs) = n" using assms by simp
  obtain v d' where v: "process_loop True n (\<lambda>(k, r). f k r) (zip keys diffs) p d = Some (v, n, d')"
    "length v = n" "d' \<le> n"
    "take (n - d') v = take (p - d) (zip keys diffs) @ filter (\<lambda>(k, r). f k r) (drop p (zip keys diffs))"
    using process_loop_stage2 [OF assms(3), of "zip keys diffs" "\<lambda>(k, r). f k r"] assms(4)
    unfolding len by blast
  obtain ks ds where "process_payload_loop True n f keys diffs p d = Some (ks, ds, n, d')"
    "zip ks ds = v" "length ks = n" "length ds = n"
    using process_payload_loop_Some [OF assms(1,2,4) v(1)] by blast
  then show ?thesis
    using v assms zip_backshift [of ks n ds n d'] length_backshift [of ks n ds n d']
    by (simp add: cl_process_loop_payload backshift_end)
qed

lemma cl_retain_ok:
  assumes "cl_ok l"
  shows "\<exists>l'. cl_retain l f = ok l' \<and> cl_ok l' \<and> cl_lower_bound l' = 0 \<and>
    cl_visible l' = filter (\<lambda>(k, r). f k r) (cl_visible l)"
proof -
  let ?n = "length (cl_keys l)" and ?f = "\<lambda>(k, r). f k r"
  have len: "length (cl_keys l) = ?n" "length (cl_diffs l) = ?n" "cl_lower_bound l \<le> ?n"
    "length (cl_pairs l) = ?n" using assms by (simp_all add: cl_ok_def)
  have "\<exists>ks ds p d. (if cl_lower_bound l = 0
      then cl_process_loop False ?n f (cl_keys l) (cl_diffs l) (cl_lower_bound l) (cl_lower_bound l)
      else Some (cl_keys l, cl_diffs l, cl_lower_bound l, cl_lower_bound l)) = Some (ks, ds, p, d) \<and>
    length ks = ?n \<and> length ds = ?n \<and> d \<le> p \<and> p \<le> ?n \<and>
    take (p - d) (zip ks ds) @ filter ?f (drop p (zip ks ds)) = filter ?f (cl_visible l)"
  proof (cases "cl_lower_bound l = 0")
    case True
    obtain p d where s: "process_loop False ?n ?f (cl_pairs l) 0 0 = Some (cl_pairs l, p, d)"
      "p \<le> ?n" "d \<le> p" "filter ?f (cl_pairs l) = take (p - d) (cl_pairs l) @ filter ?f (drop p (cl_pairs l))"
      using process_loop_stage1 [of 0 "cl_pairs l" ?f] len(4) by auto
    obtain ks ds where "process_payload_loop False ?n f (cl_keys l) (cl_diffs l) 0 0 = Some (ks, ds, p, d)"
      "zip ks ds = cl_pairs l" "length ks = ?n" "length ds = ?n"
      using process_payload_loop_Some [OF len(1,2) _ s(1) [unfolded cl_pairs_def]]
      by (auto simp: cl_pairs_def)
    then show ?thesis using True s by (simp add: cl_process_loop_payload cl_visible_def)
  next
    case False
    then show ?thesis using len by (simp add: cl_visible_def cl_pairs_def)
  qed
  then obtain ks ds p d where s1: "(if cl_lower_bound l = 0
      then cl_process_loop False ?n f (cl_keys l) (cl_diffs l) (cl_lower_bound l) (cl_lower_bound l)
      else Some (cl_keys l, cl_diffs l, cl_lower_bound l, cl_lower_bound l)) = Some (ks, ds, p, d)"
    "length ks = ?n" "length ds = ?n" "d \<le> p" "p \<le> ?n"
    "take (p - d) (zip ks ds) @ filter ?f (drop p (zip ks ds)) = filter ?f (cl_visible l)"
    by blast
  obtain ks' ds' p' d' where "cl_process_loop True ?n f ks ds p d = Some (ks', ds', p', d')"
    "length (backshift ks' p' d' ?n) = length (backshift ds' p' d' ?n)"
    "zip (backshift ks' p' d' ?n) (backshift ds' p' d' ?n) = filter ?f (cl_visible l)"
    using cl_stage2 [OF s1(2-5), of f] s1(6) by auto
  then show ?thesis
    using s1(1) assms
    by (simp add: cl_retain_def Let_def cl_backshift_payload cl_ok_def [of "column_layer.make _ _ _"]
        cl_visible_def cl_pairs_def) (simp add: cl_ok_def)
qed

lemma cl_retain_wf:
  assumes "cl_wf l"
  shows "\<exists>l'. cl_retain l f = ok l' \<and> cl_wf l' \<and> cl_visible l' = filter (\<lambda>(k, r). f k r) (cl_visible l)"
  using cl_retain_ok [OF cl_wf_ok [OF assms], of f]
    consolidated_filter [OF consolidated_visible [OF assms]]
  by (metis cl_visible_def cl_wf_def drop_0)

section \<open>The cursor\<close>

text \<open>
  \<open>cc_rest\<close> is in front of the cursor, \<open>cc_back\<close> behind it (the current pair first), \<open>cc_total\<close>
  its whole range.
\<close>

definition cc_total :: "('k, 'r) cl_cursor_state \<Rightarrow> ('k, 'r) updates" where
  "cc_total c = cl_range (cc_storage c) (cc_lower c) (cc_upper c)"

definition cc_back :: "('k, 'r) cl_cursor_state \<Rightarrow> ('k, 'r) updates" where
  "cc_back c = rev (cl_range (cc_storage c) (cc_lower c) (nat (cc_pos c + 1)))"

lemma length_cl_range [simp]: "cl_ok l \<Longrightarrow> length (cl_range l a b) = min b (length (cl_keys l)) - a"
  by (simp add: cl_range_def)

lemma cc_valid_rest: "cc_ok c \<Longrightarrow> cc_valid c \<longleftrightarrow> cc_rest c \<noteq> []"
  using length_cl_range [of "cc_storage c" "nat (cc_pos c)" "cc_upper c"]
  by (auto simp: cc_valid_def cc_rest_def cc_ok_def simp flip: length_greater_0_conv)

lemma cc_valid_head:
  assumes "cc_ok c" and "cc_valid c"
  shows "cc_rest c = (cl_keys (cc_storage c) ! nat (cc_pos c), cl_diffs (cc_storage c) ! nat (cc_pos c)) #
      cl_range (cc_storage c) (nat (cc_pos c + 1)) (cc_upper c)"
    and "nat (cc_pos c) < length (cl_keys (cc_storage c))"
    and "cl_ok (cc_storage c)"
proof -
  show ok: "cl_ok (cc_storage c)" and "nat (cc_pos c) < length (cl_keys (cc_storage c))"
    using assms by (auto simp: cc_valid_def cc_ok_def)
  have "nat (cc_pos c + 1) = nat (cc_pos c) + 1" "nat (cc_pos c) < cc_upper c"
    "cc_upper c \<le> length (cl_keys (cc_storage c))" "\<not> cc_pos c < int (cc_lower c)"
    using assms by (auto simp: cc_valid_def cc_ok_def)
  then show "cc_rest c =
      (cl_keys (cc_storage c) ! nat (cc_pos c), cl_diffs (cc_storage c) ! nat (cc_pos c)) #
      cl_range (cc_storage c) (nat (cc_pos c + 1)) (cc_upper c)"
    using cl_range_Cons [OF ok, of "nat (cc_pos c)" "cc_upper c"] by (simp add: cc_rest_def)
qed

lemma cc_current_ok:
  assumes "cc_ok c" and "cc_valid c"
  shows "cc_current_key c = Inr (fst (hd (cc_rest c)))"
    and "cc_current_diff c = Inr (snd (hd (cc_rest c)))"
    and "cc_item c = Inr (hd (cc_rest c))"
  using assms cc_valid_head [OF assms]
  by (auto simp: cc_current_key_def cc_current_diff_def cc_item_def cc_valid_def cl_ok_def [of "cc_storage c"])

lemma cc_item_invalid:
  "cc_ok c \<Longrightarrow> \<not> (0 \<le> cc_pos c \<and> nat (cc_pos c) < length (cl_keys (cc_storage c))) \<Longrightarrow>
     cc_item c = Inl (Explicit ''the cursor was at the invalid position'')"
  by (auto simp: cc_item_def cc_ok_def)

lemma cc_step_ok:
  assumes "cc_ok c" and "cc_valid c"
  shows "cc_ok (cc_step c)" and "cc_rest (cc_step c) = tl (cc_rest c)" and "cc_total (cc_step c) = cc_total c"
  using assms cc_valid_head [OF assms]
  by (auto simp: cc_step_def cc_ok_def cc_rest_def cc_valid_def cc_total_def Let_def)

lemma cc_step_reverse_ok:
  assumes "cc_ok c" and "cc_valid c"
  shows "cc_ok (cc_step_reverse c)" and "cc_back (cc_step_reverse c) = tl (cc_back c)"
proof -
  show "cc_ok (cc_step_reverse c)"
    using assms by (auto simp: cc_step_reverse_def cc_ok_def cc_valid_def Let_def)
  have p: "0 \<le> cc_pos c" "cc_lower c \<le> nat (cc_pos c)" "nat (cc_pos c + 1) = nat (cc_pos c) + 1"
    using assms(2) by (auto simp: cc_valid_def)
  have "cl_range (cc_storage c) (cc_lower c) (nat (cc_pos c) + 1) =
      cl_range (cc_storage c) (cc_lower c) (nat (cc_pos c)) @
      cl_range (cc_storage c) (nat (cc_pos c)) (nat (cc_pos c) + 1)"
    using p by (intro cl_range_split) simp_all
  moreover have "\<exists>x. cl_range (cc_storage c) (nat (cc_pos c)) (nat (cc_pos c) + 1) = [x]"
    using cl_range_Cons [OF cc_valid_head(3) [OF assms], of "nat (cc_pos c)" "nat (cc_pos c) + 1"]
      cc_valid_head(2) [OF assms] by simp
  ultimately show "cc_back (cc_step_reverse c) = tl (cc_back c)"
    using p by (auto simp: cc_back_def cc_step_reverse_def Let_def)
qed

lemma cc_rewind_ok:
  "cc_ok c \<Longrightarrow> cc_ok (cc_rewind c) \<and> cc_rest (cc_rewind c) = cc_total c \<and> cc_total (cc_rewind c) = cc_total c"
  by (auto simp: cc_rewind_def cc_ok_def cc_rest_def cc_total_def)

lemma cc_fast_forward_ok:
  "cc_ok c \<Longrightarrow> cc_ok (cc_fast_forward c) \<and> cc_back (cc_fast_forward c) = rev (cc_total c)"
  by (auto simp: cc_fast_forward_def cc_ok_def cc_back_def cc_total_def)

lemma cl_range_drop: "cl_range l (a + n) b = drop n (cl_range l a b)"
  by (simp add: cl_range_def add.commute)

lemma cc_seek_key_with_ok:
  assumes "cc_ok c" and "falling (\<lambda>x. f (fst x)) (cc_rest c)"
  shows "\<exists>c'. cc_seek_key_with c f = ok c' \<and> cc_ok c' \<and> cc_total c' = cc_total c \<and>
    cc_storage c' = cc_storage c \<and> cc_rest c' = dropWhile (\<lambda>x. f (fst x)) (cc_rest c)"
proof (cases "cc_valid c")
  case False
  then show ?thesis using assms cc_valid_rest [OF assms(1)]
    by (auto simp: cc_seek_key_with_def cc_ok_def)
next
  case True
  define n where "n = length (takeWhile (\<lambda>x. f (fst x)) (cc_rest c))"
  have rest: "cc_rest c = cl_range (cc_storage c) (nat (cc_pos c)) (cc_upper c)"
    using True by (auto simp: cc_rest_def cc_valid_def)
  have keys: "map fst (cc_rest c) = drop (nat (cc_pos c)) (take (cc_upper c) (cl_keys (cc_storage c)))"
    using assms(1) by (simp add: rest map_fst_cl_range cc_ok_def)
  have "falling f (map fst (cc_rest c))"
    using assms(2) by (simp add: falling_def sorted_wrt_map)
  then have adv: "advance (map fst (cc_rest c)) f = Some n"
    by (simp add: advance_def advance_raw_correct n_def takeWhile_map comp_def)
  have n: "n \<le> length (cc_rest c)" unfolding n_def by (rule length_takeWhile_le)
  have len: "length (cc_rest c) = cc_upper c - nat (cc_pos c)"
    using assms(1) by (simp add: rest cl_range_def cc_ok_def)
  have drop: "cl_range (cc_storage c) (nat (cc_pos c + int n)) (cc_upper c) = drop n (cc_rest c)"
    using True by (simp add: rest cc_valid_def nat_add_distrib flip: cl_range_drop)
  define c' where "c' = c\<lparr>cc_pos := cc_pos c + int n\<rparr>"
  have seek: "cc_seek_key_with c f = ok c'"
    using assms(1) True adv by (simp add: cc_seek_key_with_def cc_ok_def c'_def flip: keys)
  have "cc_ok c'" using assms(1) True n len by (auto simp: cc_ok_def cc_valid_def c'_def)
  moreover have "cc_rest c' = dropWhile (\<lambda>x. f (fst x)) (cc_rest c)"
    using True drop unfolding cc_rest_def [of c'] by (auto simp: c'_def cc_valid_def n_def dropWhile_eq_drop)
  ultimately show ?thesis using seek by (auto simp: cc_total_def c'_def)
qed

lemma cc_seek_ok:
  assumes "cc_ok c" and "cl_wf (cc_storage c)"
  shows "\<exists>c'. cc_seek c k = ok c' \<and> cc_ok c' \<and> cc_total c' = cc_total c \<and>
    cc_storage c' = cc_storage c \<and> cc_rest c' = dropWhile (\<lambda>x. fst x < k) (cc_rest c)"
proof -
  have "consolidated (cc_rest c)"
    using consolidated_slice [OF cl_wf_consolidated [OF assms(2)]] by (simp add: cc_rest_def cl_range_def)
  then have "falling (\<lambda>x. fst x < k) (cc_rest c)"
    by (auto dest!: consolidated_sorted simp: falling_def sorted_wrt_map elim!: sorted_wrt_mono_rel [rotated])
  then show ?thesis unfolding cc_seek_def by (rule cc_seek_key_with_ok [OF assms(1)])
qed

lemma cc_seek_key_with_reverse_ok:
  assumes "cc_ok c" and "falling (\<lambda>x. f (fst x)) (cc_back c)"
    and "cc_valid c"
  shows "\<exists>c'. cc_seek_key_with_reverse c f = ok c' \<and> cc_ok c' \<and> cc_total c' = cc_total c \<and>
    cc_storage c' = cc_storage c \<and> cc_back c' = dropWhile (\<lambda>x. f (fst x)) (cc_back c)"
proof -
  define n where "n = length (takeWhile (\<lambda>x. f (fst x)) (cc_back c))"
  let ?r = "cl_range (cc_storage c) (cc_lower c) (nat (cc_pos c) + 1)"
  have p: "nat (cc_pos c + 1) = nat (cc_pos c) + 1" using assms(3) by (auto simp: cc_valid_def)
  have behind: "cc_back c = rev ?r" by (simp add: cc_back_def p)
  have keys: "map fst ?r = drop (cc_lower c) (take (nat (cc_pos c) + 1) (cl_keys (cc_storage c)))"
    using assms(1) by (simp add: map_fst_cl_range cc_ok_def)
  have "falling f (rev (map fst ?r))"
    using assms(2) by (simp add: behind falling_def sorted_wrt_map rev_map)
  then have adv: "retreat (map fst ?r) f = Some n"
    by (simp add: retreat_def retreat_raw_correct n_def behind takeWhile_map comp_def rev_map)
  have len: "length ?r = nat (cc_pos c) + 1 - cc_lower c"
    using cc_valid_head(2,3) [OF assms(1,3)] by (simp add: cl_range_def)
  have n: "n \<le> length ?r" using length_takeWhile_le [of _ "rev ?r"] by (simp add: n_def behind)
  define c' where "c' = c\<lparr>cc_pos := cc_pos c - int n\<rparr>"
  have seek: "cc_seek_key_with_reverse c f = ok c'"
    using assms(1,3) adv [unfolded keys] cc_valid_head(2) [OF assms(1,3)]
    by (simp add: cc_seek_key_with_reverse_def cc_ok_def c'_def)
  have "cc_ok c'" using assms(1,3) n len by (auto simp: cc_ok_def cc_valid_def c'_def)
  moreover have m: "nat (cc_pos c - int n + 1) - cc_lower c = length ?r - n"
    "length ?r - n \<le> nat (cc_pos c) + 1 - cc_lower c"
    using n assms(3) unfolding len cc_valid_def by linarith+
  then have "cl_range (cc_storage c) (cc_lower c) (nat (cc_pos c - int n + 1)) = take (length ?r - n) ?r"
    by (simp add: cl_range_def drop_take min_absorb1)
  then have "cc_back c' = dropWhile (\<lambda>x. f (fst x)) (cc_back c)"
    unfolding cc_back_def [of c'] by (simp add: c'_def n_def dropWhile_eq_drop behind drop_rev)
  ultimately show ?thesis using seek by (auto simp: cc_total_def c'_def)
qed

end
