(* ===== verification/Cursors.thy ===== *)
theory Cursors
  imports Prelude
begin

text \<open>
  The trait \<^verbatim>\<open>Cursor\<close> of \<^verbatim>\<open>crates/dbsp/src/trace/cursor/mod.rs\<close>. \<open>cursor_ops\<close> is the table of the
  methods an implementation provides (the ones that the default methods and the clients modelled
  here call), the definitions are the default methods of \<^verbatim>\<open>Cursor\<close> and of \<^verbatim>\<open>CursorDebug\<close>, and the
  locale \<open>batch_cursor\<close> is the contract of the trait: a cursor walks a list of keys, each with its
  list of values, each with its list of times and weights.
\<close>

record ('c, 'k, 'v, 't, 'r) cursor_ops =
  co_key_valid :: "'c \<Rightarrow> bool"
  co_val_valid :: "'c \<Rightarrow> bool"
  co_key :: "'c \<Rightarrow> 'k res"
  co_val :: "'c \<Rightarrow> 'v res"
  co_times :: "'c \<Rightarrow> (('t \<times> 'r) list \<times> 'c) run"
  co_step_key :: "'c \<Rightarrow> 'c run"
  co_step_val :: "'c \<Rightarrow> 'c run"
  co_seek_key :: "'c \<Rightarrow> 'k \<Rightarrow> 'c run"
  co_rewind_keys :: "'c \<Rightarrow> 'c run"
  co_rewind_vals :: "'c \<Rightarrow> 'c run"

text \<open>The remaining methods of the trait: those that move backwards, seek a value, or restrict the times.\<close>

record ('c, 'k, 'v, 't, 'r) full_cursor_ops = "('c, 'k, 'v, 't, 'r) cursor_ops" +
  co_times_through :: "'c \<Rightarrow> 't \<Rightarrow> (('t \<times> 'r) list \<times> 'c) run"
  co_step_key_reverse :: "'c \<Rightarrow> 'c run"
  co_seek_key_reverse :: "'c \<Rightarrow> 'k \<Rightarrow> 'c run"
  co_fast_forward_keys :: "'c \<Rightarrow> 'c run"
  co_seek_val :: "'c \<Rightarrow> 'v \<Rightarrow> 'c run"
  co_seek_val_with :: "'c \<Rightarrow> ('v \<Rightarrow> bool) \<Rightarrow> 'c run"
  co_step_val_reverse :: "'c \<Rightarrow> 'c run"
  co_seek_val_reverse :: "'c \<Rightarrow> 'v \<Rightarrow> 'c run"
  co_seek_val_with_reverse :: "'c \<Rightarrow> ('v \<Rightarrow> bool) \<Rightarrow> 'c run"
  co_fast_forward_vals :: "'c \<Rightarrow> 'c run"

section \<open>Default methods\<close>

definition co_get_key :: "('c, 'k, 'v, 't, 'r, 'z) cursor_ops_scheme \<Rightarrow> 'c \<Rightarrow> 'k option res" where
  "co_get_key ops self = (if co_key_valid ops self then res_map Some (co_key ops self) else Inr None)"

definition co_get_val :: "('c, 'k, 'v, 't, 'r, 'z) cursor_ops_scheme \<Rightarrow> 'c \<Rightarrow> 'v option res" where
  "co_get_val ops self = (if co_val_valid ops self then res_map Some (co_val ops self) else Inr None)"

text \<open>
  The loop of \<^verbatim>\<open>val_to_vec\<close>, which is also the inner loop of \<^verbatim>\<open>to_vec\<close>: it pushes the values of
  the current key with their times.
\<close>

partial_function (option) co_vals_loop ::
  "('c, 'k, 'v, 't, 'r, 'z) cursor_ops_scheme \<Rightarrow> 'c \<Rightarrow> ('v \<times> ('t \<times> 'r) list) list \<Rightarrow>
   (('v \<times> ('t \<times> 'r) list) list \<times> 'c) run" where
  "co_vals_loop ops self vs =
     (if co_val_valid ops self then
        run_bind (co_times ops self) (\<lambda>(weights, self).
        run_bind (lift_res (co_val ops self)) (\<lambda>v.
        run_bind (co_step_val ops self) (\<lambda>self.
        co_vals_loop ops self (vs @ [(v, weights)]))))
      else ok (vs, self))"

definition co_val_to_vec ::
  "('c, 'k, 'v, 't, 'r, 'z) cursor_ops_scheme \<Rightarrow> 'c \<Rightarrow> (('v \<times> ('t \<times> 'r) list) list \<times> 'c) run" where
  "co_val_to_vec ops self =
     (if \<not> co_key_valid ops self then lift_res (Inl DebugAssert) else co_vals_loop ops self [])"

partial_function (option) co_inner_loop ::
  "('c, 'k, 'v, 't, 'r, 'z) cursor_ops_scheme \<Rightarrow> 'c \<Rightarrow> (('k \<times> 'v) \<times> ('t \<times> 'r) list) list \<Rightarrow>
   ((('k \<times> 'v) \<times> ('t \<times> 'r) list) list \<times> 'c) run" where
  "co_inner_loop ops self out =
     (if co_val_valid ops self then
        run_bind (co_times ops self) (\<lambda>(kv_out, self).
        run_bind (lift_res (co_key ops self)) (\<lambda>k.
        run_bind (lift_res (co_val ops self)) (\<lambda>v.
        run_bind (co_step_val ops self) (\<lambda>self.
        co_inner_loop ops self (out @ [((k, v), kv_out)])))))
      else ok (out, self))"

partial_function (option) co_outer_loop ::
  "('c, 'k, 'v, 't, 'r, 'z) cursor_ops_scheme \<Rightarrow> 'c \<Rightarrow> (('k \<times> 'v) \<times> ('t \<times> 'r) list) list \<Rightarrow>
   ((('k \<times> 'v) \<times> ('t \<times> 'r) list) list) run" where
  "co_outer_loop ops self out =
     (if co_key_valid ops self then
        run_bind (co_inner_loop ops self out) (\<lambda>(out, self).
        run_bind (co_step_key ops self) (\<lambda>self.
        co_outer_loop ops self out))
      else ok out)"

definition co_to_vec ::
  "('c, 'k, 'v, 't, 'r, 'z) cursor_ops_scheme \<Rightarrow> 'c \<Rightarrow> ((('k \<times> 'v) \<times> ('t \<times> 'r) list) list) run" where
  "co_to_vec ops self =
     run_bind (co_rewind_keys ops self) (\<lambda>self.
     run_bind (co_rewind_vals ops self) (\<lambda>self.
     co_outer_loop ops self []))"

section \<open>The contract\<close>

text \<open>
  \<open>groups\<close> are the keys from the current one on, with all their values; \<open>vals\<close> are the values of
  the current key that are still in front of the cursor; \<open>total\<close> is what a rewound cursor has in
  front of it. Each value comes with its times and weights.
\<close>

type_synonym ('k, 'v, 't, 'r) groups = "('k \<times> ('v \<times> ('t \<times> 'r) list) list) list"

definition flatten_groups :: "('k, 'v, 't, 'r) groups \<Rightarrow> (('k \<times> 'v) \<times> ('t \<times> 'r) list) list" where
  "flatten_groups gs = concat (map (\<lambda>(k, vs). map (\<lambda>(v, ts). ((k, v), ts)) vs) gs)"

lemma dropWhile_finds:
  assumes "sorted_wrt (<) (map fst gs)" and "(k :: 'k::linorder, vs) \<in> set gs"
  shows "dropWhile (\<lambda>g. fst g < k) gs \<noteq> [] \<and> hd (dropWhile (\<lambda>g. fst g < k) gs) = (k, vs)"
  using assms by (induction gs) force+

locale batch_cursor =
  fixes ops :: "('c, 'k::linorder, 'v, 't, 'r, 'z) cursor_ops_scheme"
    and inv :: "'c \<Rightarrow> bool"
    and total :: "'c \<Rightarrow> ('k, 'v, 't, 'r) groups"
    and groups :: "'c \<Rightarrow> ('k, 'v, 't, 'r) groups"
    and vals :: "'c \<Rightarrow> ('v \<times> ('t \<times> 'r) list) list"
  assumes key_valid: "inv c \<Longrightarrow> co_key_valid ops c \<longleftrightarrow> groups c \<noteq> []"
    and val_valid: "inv c \<Longrightarrow> groups c \<noteq> [] \<Longrightarrow> co_val_valid ops c \<longleftrightarrow> vals c \<noteq> []"
    and key: "inv c \<Longrightarrow> groups c \<noteq> [] \<Longrightarrow> co_key ops c = Inr (fst (hd (groups c)))"
    and val: "inv c \<Longrightarrow> groups c \<noteq> [] \<Longrightarrow> vals c \<noteq> [] \<Longrightarrow> co_val ops c = Inr (fst (hd (vals c)))"
    and times: "inv c \<Longrightarrow> groups c \<noteq> [] \<Longrightarrow> vals c \<noteq> [] \<Longrightarrow>
      \<exists>c'. co_times ops c = ok (snd (hd (vals c)), c') \<and> inv c' \<and> total c' = total c \<and>
        groups c' = groups c \<and> vals c' = vals c"
    and step_val: "inv c \<Longrightarrow> groups c \<noteq> [] \<Longrightarrow> vals c \<noteq> [] \<Longrightarrow>
      \<exists>c'. co_step_val ops c = ok c' \<and> inv c' \<and> total c' = total c \<and>
        groups c' = groups c \<and> vals c' = tl (vals c)"
    and step_key: "inv c \<Longrightarrow> groups c \<noteq> [] \<Longrightarrow>
      \<exists>c'. co_step_key ops c = ok c' \<and> inv c' \<and> total c' = total c \<and> groups c' = tl (groups c) \<and>
        (groups c' \<noteq> [] \<longrightarrow> vals c' = snd (hd (groups c')))"
    and seek_key: "inv c \<Longrightarrow>
      \<exists>c'. co_seek_key ops c k = ok c' \<and> inv c' \<and> total c' = total c \<and>
        groups c' = dropWhile (\<lambda>g. fst g < k) (groups c) \<and>
        (groups c' \<noteq> [] \<longrightarrow> vals c' = snd (hd (groups c')))"
    and rewind_keys: "inv c \<Longrightarrow>
      \<exists>c'. co_rewind_keys ops c = ok c' \<and> inv c' \<and> total c' = total c \<and> groups c' = total c \<and>
        (groups c' \<noteq> [] \<longrightarrow> vals c' = snd (hd (groups c')))"
    and rewind_vals: "inv c \<Longrightarrow>
      \<exists>c'. co_rewind_vals ops c = ok c' \<and> inv c' \<and> total c' = total c \<and> groups c' = groups c \<and>
        (groups c' \<noteq> [] \<longrightarrow> vals c' = snd (hd (groups c')))"
begin

lemma vals_loop:
  assumes "inv c" and "groups c \<noteq> []"
  shows "\<exists>c'. co_vals_loop ops c out = ok (out @ vals c, c') \<and> inv c' \<and> total c' = total c \<and>
    groups c' = groups c \<and> vals c' = []"
  using assms
proof (induction "vals c" arbitrary: c out)
  case Nil
  then show ?case using val_valid by (subst co_vals_loop.simps) auto
next
  case (Cons x xs)
  then have ne: "vals c \<noteq> []" by auto
  obtain c1 where t: "co_times ops c = ok (snd x, c1)" "inv c1" "total c1 = total c"
    "groups c1 = groups c" "vals c1 = vals c"
    using times [OF Cons.prems ne] Cons.hyps(2) by (metis list.sel(1))
  have v: "co_val ops c1 = Inr (fst x)" using val [OF t(2)] t Cons by (metis list.sel(1) ne)
  obtain c2 where s: "co_step_val ops c1 = ok c2" "inv c2" "total c2 = total c"
    "groups c2 = groups c" "vals c2 = xs"
    using step_val [OF t(2)] t Cons by (metis list.sel(3) ne)
  show ?case
    using Cons.hyps(1) [of c2 "out @ [x]"] s t v val_valid [OF Cons.prems] ne Cons
    by (subst co_vals_loop.simps) auto
qed

lemma inner_loop:
  assumes "inv c" and "groups c \<noteq> []"
  shows "\<exists>c'. co_inner_loop ops c out =
      ok (out @ map (\<lambda>(v, ts). ((fst (hd (groups c)), v), ts)) (vals c), c') \<and> inv c' \<and>
      total c' = total c \<and> groups c' = groups c"
  using assms
proof (induction "vals c" arbitrary: c out)
  case Nil
  then show ?case using val_valid by (subst co_inner_loop.simps) auto
next
  case (Cons x xs)
  then have ne: "vals c \<noteq> []" by auto
  obtain c1 where t: "co_times ops c = ok (snd x, c1)" "inv c1" "total c1 = total c"
    "groups c1 = groups c" "vals c1 = vals c"
    using times [OF Cons.prems ne] Cons.hyps(2) by (metis list.sel(1))
  have v: "co_val ops c1 = Inr (fst x)" "co_key ops c1 = Inr (fst (hd (groups c)))"
    using val [OF t(2)] key [OF t(2)] t Cons by (metis list.sel(1) ne)+
  obtain c2 where s: "co_step_val ops c1 = ok c2" "inv c2" "total c2 = total c"
    "groups c2 = groups c" "vals c2 = xs"
    using step_val [OF t(2)] t Cons by (metis list.sel(3) ne)
  show ?case
    using Cons.hyps(1) [of c2 "out @ [((fst (hd (groups c)), fst x), snd x)]"] s t v
      val_valid [OF Cons.prems] ne Cons.prems
    by (subst co_inner_loop.simps) (auto simp: split_beta simp flip: Cons.hyps(2))
qed

lemma outer_loop:
  assumes "inv c" and "groups c \<noteq> [] \<Longrightarrow> vals c = snd (hd (groups c))"
  shows "co_outer_loop ops c out = ok (out @ flatten_groups (groups c))"
  using assms
proof (induction "groups c" arbitrary: c out)
  case Nil
  then show ?case using key_valid by (subst co_outer_loop.simps) (simp add: flatten_groups_def)
next
  case (Cons g gs)
  then have ne: "groups c \<noteq> []" by auto
  obtain c1 where i: "co_inner_loop ops c out =
      ok (out @ map (\<lambda>(v, ts). ((fst g, v), ts)) (snd g), c1)" "inv c1" "groups c1 = groups c"
    using inner_loop [OF Cons.prems(1) ne, of out] Cons.prems(2) Cons.hyps(2) by (metis list.sel(1) ne)
  obtain c2 where s: "co_step_key ops c1 = ok c2" "inv c2" "groups c2 = gs"
    "groups c2 \<noteq> [] \<longrightarrow> vals c2 = snd (hd (groups c2))"
    using step_key [OF i(2)] i(3) Cons.hyps(2) by (metis list.sel(3) ne)
  have unf: "co_outer_loop ops c out =
      co_outer_loop ops c2 (out @ map (\<lambda>(v, ts). ((fst g, v), ts)) (snd g))"
    using key_valid [OF Cons.prems(1)] ne i s by (subst co_outer_loop.simps) simp
  show ?case
    using Cons.hyps(1) [OF s(3) [symmetric] s(2)] s(3,4)
    unfolding unf Cons.hyps(2) [symmetric] by (auto simp: flatten_groups_def split_beta)
qed

lemma to_vec:
  assumes "inv c"
  shows "co_to_vec ops c = ok (flatten_groups (total c))"
proof -
  obtain c1 where c1: "co_rewind_keys ops c = ok c1" "inv c1" "groups c1 = total c"
    using rewind_keys [OF assms] by blast
  obtain c2 where c2: "co_rewind_vals ops c1 = ok c2" "inv c2" "groups c2 = total c"
    "groups c2 \<noteq> [] \<longrightarrow> vals c2 = snd (hd (groups c2))"
    using rewind_vals [OF c1(2)] c1(3) by auto
  show ?thesis using c1(1) c2 outer_loop [OF c2(2), of "[]"] by (simp add: co_to_vec_def)
qed

lemma val_to_vec:
  assumes "inv c" and "groups c \<noteq> []"
  shows "\<exists>c'. co_val_to_vec ops c = ok (vals c, c') \<and> inv c'"
  using vals_loop [OF assms, of "[]"] key_valid [OF assms(1)] assms(2) by (auto simp: co_val_to_vec_def)

text \<open>A seek finds a key exactly when the key is in front of the cursor.\<close>

lemma seek_finds:
  assumes "inv c" and "sorted_wrt (<) (map fst (groups c))"
  shows "\<exists>c'. co_seek_key ops c k = ok c' \<and> inv c' \<and>
    (co_get_key ops c' = Inr (Some k) \<longleftrightarrow> k \<in> fst ` set (groups c)) \<and>
    (\<forall>vs. (k, vs) \<in> set (groups c) \<longrightarrow> vals c' = vs)"
proof -
  obtain c' where c': "co_seek_key ops c k = ok c'" "inv c'"
    "groups c' = dropWhile (\<lambda>g. fst g < k) (groups c)"
    "groups c' \<noteq> [] \<longrightarrow> vals c' = snd (hd (groups c'))" using seek_key [OF assms(1)] by blast
  have found: "groups c' \<noteq> [] \<and> hd (groups c') = (k, vs)" if "(k, vs) \<in> set (groups c)" for vs
    unfolding c'(3) by (rule dropWhile_finds [OF assms(2) that])
  have "hd (groups c') \<in> set (groups c)" if "groups c' \<noteq> []"
    using that hd_in_set [OF that] set_dropWhileD unfolding c'(3) by fastforce
  then have "fst (hd (groups c')) \<in> fst ` set (groups c)" if "groups c' \<noteq> []" using that by blast
  then have "co_get_key ops c' = Inr (Some k) \<longleftrightarrow> k \<in> fst ` set (groups c)"
    using found key_valid [OF c'(2)] key [OF c'(2)] by (fastforce simp: co_get_key_def)
  then show ?thesis using c' found by auto
qed

end

end
