(* ===== verification/Merge_Batcher.thy ===== *)
theory Merge_Batcher
  imports Consolidation Batch_Traits
begin

text \<open>
  The batcher that assembles batches from unordered updates:
  \<^verbatim>\<open>crates/dbsp/src/trace/ord/merge_batcher/mod.rs\<close>, with the helpers of
  \<^verbatim>\<open>crates/dbsp/src/utils/vec_ext.rs\<close>.

  A \<^verbatim>\<open>Vec\<close> and a \<^verbatim>\<open>VecDeque\<close> are a \<open>buf\<close>, their elements and their capacity: the code decides by
  capacities when a chunk is full and which buffers are stashed. \<open>alloc n\<close> is the capacity of
  \<^verbatim>\<open>Vec::with_capacity(n)\<close>, which is at least \<open>n\<close>; \<open>sort_by\<close> is the sort of the standard library.
  The conversions between \<^verbatim>\<open>Vec\<close> and \<^verbatim>\<open>VecDeque\<close> keep the allocation. The top of the two stacks
  \<open>ms_queue\<close> and \<open>ms_stash\<close> is the end of the list.
\<close>

section \<open>Buffers\<close>

record 'a buf =
  buf_items :: "'a list"
  buf_cap :: nat

definition vec_new :: "'a buf" where
  "vec_new = \<lparr>buf_items = [], buf_cap = 0\<rparr>"

definition has_spare_capacity :: "'a buf \<Rightarrow> bool" where
  "has_spare_capacity v \<longleftrightarrow> buf_cap v - length (buf_items v) \<noteq> 0"

definition push_unchecked :: "'a buf \<Rightarrow> 'a \<Rightarrow> 'a buf res" where
  "push_unchecked v elem =
     (if buf_cap v = 0 then Inl DebugAssert
      else if \<not> length (buf_items v) < buf_cap v then Inl DebugAssert
      else Inr (v\<lparr>buf_items := buf_items v @ [elem]\<rparr>))"

fun is_sorted_from :: "'k::linorder \<Rightarrow> ('k \<times> 'r) list \<Rightarrow> bool" where
  "is_sorted_from l [] \<longleftrightarrow> True"
| "is_sorted_from l (current # iter) \<longleftrightarrow> (if fst current < l then False else is_sorted_from (fst current) iter)"

definition vec_is_sorted :: "('k::linorder \<times> 'r) buf \<Rightarrow> bool" where
  "vec_is_sorted v \<longleftrightarrow> (case buf_items v of [] \<Rightarrow> True | item # iter \<Rightarrow> is_sorted_from (fst item) iter)"

definition pop_last :: "'a list \<Rightarrow> ('a list \<times> 'a) option" where
  "pop_last xs = (if xs = [] then None else Some (butlast xs, last xs))"

definition pop_front_or_new :: "'a buf list \<Rightarrow> 'a buf \<times> 'a buf list" where
  "pop_front_or_new vs = (case vs of [] \<Rightarrow> (vec_new, []) | v # vs \<Rightarrow> (v, vs))"

section \<open>The sorter\<close>

record ('k, 'r) merge_sorter =
  ms_queue :: "('k \<times> 'r) buf list list"
  ms_stash :: "('k \<times> 'r) buf list"

definition BUFFER_BYTES :: nat where
  "BUFFER_BYTES = 2 ^ 13"

text \<open>The argument is the size of \<^verbatim>\<open>(D, R)\<close> in bytes.\<close>

definition BUFFER_ELEMENTS :: "nat \<Rightarrow> nat" where
  "BUFFER_ELEMENTS sz =
     (if sz = 0 then 2 ^ 64 - 1 else if sz \<le> BUFFER_BYTES then BUFFER_BYTES div sz else 1)"

definition ms_new :: "('k, 'r) merge_sorter" where
  "ms_new = \<lparr>ms_queue = [], ms_stash = []\<rparr>"

definition ms_buffer ::
  "(nat \<Rightarrow> nat) \<Rightarrow> nat \<Rightarrow> ('k, 'r) merge_sorter \<Rightarrow> (('k \<times> 'r) buf \<times> ('k, 'r) merge_sorter) res" where
  "ms_buffer alloc sz self =
     (let (empty, self) =
        (case pop_last (ms_stash self) of
           Some (stash, b) \<Rightarrow> (b, self\<lparr>ms_stash := stash\<rparr>)
         | None \<Rightarrow> (\<lparr>buf_items = [], buf_cap = alloc (BUFFER_ELEMENTS sz)\<rparr>, self))
      in if buf_items empty \<noteq> [] then Inl DebugAssert
         else if buf_cap empty = 0 then Inl DebugAssert
         else Inr (empty, self))"

definition ms_stash_push ::
  "nat \<Rightarrow> ('k, 'r) merge_sorter \<Rightarrow> ('k \<times> 'r) buf \<Rightarrow> ('k, 'r) merge_sorter" where
  "ms_stash_push sz self b =
     (if buf_cap b \<ge> BUFFER_ELEMENTS sz then self\<lparr>ms_stash := ms_stash self @ [b]\<rparr> else self)"

section \<open>merge\_by\<close>

text \<open>The result of comparing the two front elements; \<open>None\<close> is the \<^verbatim>\<open>continue\<close> on a zero sum.\<close>

definition merge_heads ::
  "('k::linorder \<times> 'r::comm_monoid_add) buf \<Rightarrow> ('k \<times> 'r) buf \<Rightarrow>
   (('k \<times> 'r) option \<times> ('k \<times> 'r) buf \<times> ('k \<times> 'r) buf) res" where
  "merge_heads head1 head2 =
     (case (buf_items head1, buf_items head2) of
        (x # xs, y # ys) \<Rightarrow>
          if fst x < fst y then Inr (Some x, head1\<lparr>buf_items := xs\<rparr>, head2)
          else if fst y < fst x then Inr (Some y, head1, head2\<lparr>buf_items := ys\<rparr>)
          else if fst x \<noteq> fst y then Inl DebugAssert
          else
            (let diff1 = snd x + snd y
             in Inr (if diff1 = 0 then None else Some (fst x, diff1),
                     head1\<lparr>buf_items := xs\<rparr>, head2\<lparr>buf_items := ys\<rparr>))
      | _ \<Rightarrow> Inl UnwrapNone)"

lemma merge_heads_less:
  "merge_heads head1 head2 = Inr (m, head1', head2') \<Longrightarrow>
     length (buf_items head1') + length (buf_items head2') <
     length (buf_items head1) + length (buf_items head2)"
  by (auto simp: merge_heads_def Let_def split: list.splits if_splits)

function merge_inner_loop ::
  "('k::linorder \<times> 'r::comm_monoid_add) buf \<Rightarrow> ('k \<times> 'r) buf \<Rightarrow> ('k \<times> 'r) buf \<Rightarrow>
   (('k \<times> 'r) buf \<times> ('k \<times> 'r) buf \<times> ('k \<times> 'r) buf) res" where
  "merge_inner_loop result head1 head2 =
     (if has_spare_capacity result \<and> buf_items head1 \<noteq> [] \<and> buf_items head2 \<noteq> [] then
        res_bind (merge_heads head1 head2) (\<lambda>(merged, head1, head2).
        case merged of
          None \<Rightarrow> merge_inner_loop result head1 head2
        | Some m \<Rightarrow>
            if buf_items result \<noteq> [] \<and> \<not> fst (last (buf_items result)) \<le> fst m then Inl DebugAssert
            else if \<not> has_spare_capacity result then Inl DebugAssert
            else res_bind (push_unchecked result m) (\<lambda>result. merge_inner_loop result head1 head2))
      else Inr (result, head1, head2))"
  by pat_completeness auto
termination
  by (relation "measure (\<lambda>(_, head1, head2). length (buf_items head1) + length (buf_items head2))")
    (auto dest: merge_heads_less)

declare merge_inner_loop.simps [simp del]

definition merge_refill ::
  "nat \<Rightarrow> ('k, 'r) merge_sorter \<Rightarrow> ('k \<times> 'r) buf \<Rightarrow> ('k \<times> 'r) buf list \<Rightarrow>
   ('k, 'r) merge_sorter \<times> ('k \<times> 'r) buf \<times> ('k \<times> 'r) buf list" where
  "merge_refill sz self head vs =
     (if buf_items head = [] then (ms_stash_push sz self head, pop_front_or_new vs)
      else (self, head, vs))"

partial_function (option) merge_outer_loop ::
  "(nat \<Rightarrow> nat) \<Rightarrow> nat \<Rightarrow> ('k::linorder, 'r::comm_monoid_add) merge_sorter \<Rightarrow> ('k \<times> 'r) buf list \<Rightarrow>
   ('k \<times> 'r) buf \<Rightarrow> ('k \<times> 'r) buf \<Rightarrow> ('k \<times> 'r) buf \<Rightarrow> ('k \<times> 'r) buf list \<Rightarrow> ('k \<times> 'r) buf list \<Rightarrow>
   (('k, 'r) merge_sorter \<times> ('k \<times> 'r) buf list \<times> ('k \<times> 'r) buf \<times> ('k \<times> 'r) buf \<times> ('k \<times> 'r) buf \<times>
    ('k \<times> 'r) buf list \<times> ('k \<times> 'r) buf list) run" where
  "merge_outer_loop alloc sz self output result head1 head2 list1 list2 =
     (if buf_items head1 \<noteq> [] \<and> buf_items head2 \<noteq> [] then
        if \<not> vec_is_sorted result then lift_res (Inl DebugAssert)
        else
          run_bind (lift_res (merge_inner_loop result head1 head2)) (\<lambda>(result, head1, head2).
          if \<not> vec_is_sorted result then lift_res (Inl DebugAssert)
          else
            run_bind
              (lift_res
                 (if \<not> has_spare_capacity result
                  then res_map (\<lambda>(b, self). (output @ [result], b, self)) (ms_buffer alloc sz self)
                  else Inr (output, result, self)))
              (\<lambda>(output, result, self).
            let (self, head1, list1) = merge_refill sz self head1 list1;
                (self, head2, list2) = merge_refill sz self head2 list2
            in merge_outer_loop alloc sz self output result head1 head2 list1 list2))
      else ok (self, output, result, head1, head2, list1, list2))"

text \<open>What is left of a buffer is output when it is not empty, otherwise the buffer is stashed.\<close>

definition merge_flush ::
  "nat \<Rightarrow> ('k::linorder, 'r) merge_sorter \<Rightarrow> ('k \<times> 'r) buf list \<Rightarrow> ('k \<times> 'r) buf \<Rightarrow>
   (('k, 'r) merge_sorter \<times> ('k \<times> 'r) buf list) res" where
  "merge_flush sz self output b =
     (if buf_items b \<noteq> [] then
        if \<not> vec_is_sorted b then Inl DebugAssert else Inr (self, output @ [b])
      else Inr (ms_stash_push sz self b, output))"

definition merge_by ::
  "(nat \<Rightarrow> nat) \<Rightarrow> nat \<Rightarrow> ('k::linorder, 'r::comm_monoid_add) merge_sorter \<Rightarrow> ('k \<times> 'r) buf list \<Rightarrow>
   ('k \<times> 'r) buf list \<Rightarrow> (('k, 'r) merge_sorter \<times> ('k \<times> 'r) buf list) run" where
  "merge_by alloc sz self list1 list2 =
     (let list1 = filter (\<lambda>batch. buf_items batch \<noteq> []) list1;
          list2 = filter (\<lambda>batch. buf_items batch \<noteq> []) list2
      in if \<not> list_all (\<lambda>batch. buf_items batch \<noteq> [] \<and> vec_is_sorted batch) (list1 @ list2)
         then lift_res (Inl AssertFailed)
         else
           run_bind (lift_res (ms_buffer alloc sz self)) (\<lambda>(result, self).
           let (head1, list1) = pop_front_or_new list1;
               (head2, list2) = pop_front_or_new list2
           in run_bind (merge_outer_loop alloc sz self [] result head1 head2 list1 list2)
                (\<lambda>(self, output, result, head1, head2, list1, list2).
              run_bind (lift_res (merge_flush sz self output result)) (\<lambda>(self, output).
              run_bind (lift_res (merge_flush sz self output head1)) (\<lambda>(self, output).
              run_bind (lift_res (merge_flush sz self (output @ list1) head2)) (\<lambda>(self, output).
              let output = output @ list2
              in if \<not> list_all (\<lambda>batch. buf_items batch \<noteq> []) output then lift_res (Inl DebugAssert)
                 else ok (self, output)))))))"

section \<open>Pushing and finishing\<close>

partial_function (option) ms_merge_loop ::
  "(nat \<Rightarrow> nat) \<Rightarrow> nat \<Rightarrow> ('k::linorder, 'r::comm_monoid_add) merge_sorter \<Rightarrow> ('k, 'r) merge_sorter run" where
  "ms_merge_loop alloc sz self =
     (let n = length (ms_queue self)
      in if n > 1 \<and> length (ms_queue self ! (n - 1)) \<ge> length (ms_queue self ! (n - 2)) div 2 then
           run_bind (lift_res (unwrap (pop_last (ms_queue self)))) (\<lambda>(queue, left).
           run_bind (lift_res (unwrap (pop_last queue))) (\<lambda>(queue, right).
           run_bind (merge_by alloc sz (self\<lparr>ms_queue := queue\<rparr>) left right) (\<lambda>(self, merged).
           ms_merge_loop alloc sz
             (if merged \<noteq> [] then self\<lparr>ms_queue := ms_queue self @ [merged]\<rparr> else self))))
         else ok self)"

text \<open>The buffer handed back to the caller, and the batch taken from it.\<close>

definition ms_take_batch ::
  "('k, 'r) merge_sorter \<Rightarrow> ('k \<times> 'r) buf \<Rightarrow> (('k, 'r) merge_sorter \<times> ('k \<times> 'r) buf \<times> ('k \<times> 'r) buf) res"
where
  "ms_take_batch self batch =
     (if length (ms_stash self) > 2
      then res_map (\<lambda>(stash, b). (self\<lparr>ms_stash := stash\<rparr>, b, batch)) (unwrap (pop_last (ms_stash self)))
      else Inr (self, vec_new, batch))"

definition ms_push ::
  "(('k \<times> 'r) list \<Rightarrow> ('k \<times> 'r) list) \<Rightarrow> (nat \<Rightarrow> nat) \<Rightarrow> nat \<Rightarrow>
   ('k::linorder, 'r::comm_monoid_add) merge_sorter \<Rightarrow> ('k \<times> 'r) buf \<Rightarrow>
   (('k, 'r) merge_sorter \<times> ('k \<times> 'r) buf) run" where
  "ms_push sort_by alloc sz self batch =
     (if buf_items batch \<noteq> [] then
        run_bind (lift_res (ms_take_batch self batch)) (\<lambda>(self, returned, batch).
        let batch = batch\<lparr>buf_items := consolidate sort_by (buf_items batch)\<rparr>
        in if buf_items batch \<noteq> [] then
             run_bind (ms_merge_loop alloc sz (self\<lparr>ms_queue := ms_queue self @ [[batch]]\<rparr>))
               (\<lambda>self. ok (self, returned))
           else ok (self, returned))
      else ok (self, batch))"

definition ms_push_consolidated ::
  "(nat \<Rightarrow> nat) \<Rightarrow> nat \<Rightarrow> ('k::linorder, 'r::comm_monoid_add) merge_sorter \<Rightarrow> ('k \<times> 'r) buf \<Rightarrow>
   (('k, 'r) merge_sorter \<times> ('k \<times> 'r) buf) run" where
  "ms_push_consolidated alloc sz self batch =
     (if buf_items batch \<noteq> [] then
        run_bind (lift_res (ms_take_batch self batch)) (\<lambda>(self, returned, batch).
        if buf_items batch \<noteq> [] then
          run_bind (ms_merge_loop alloc sz (self\<lparr>ms_queue := ms_queue self @ [[batch]]\<rparr>))
            (\<lambda>self. ok (self, returned))
        else ok (self, returned))
      else ok (self, batch))"

partial_function (option) ms_finish_loop ::
  "(nat \<Rightarrow> nat) \<Rightarrow> nat \<Rightarrow> ('k::linorder, 'r::comm_monoid_add) merge_sorter \<Rightarrow> ('k, 'r) merge_sorter run" where
  "ms_finish_loop alloc sz self =
     (if length (ms_queue self) \<ge> 2 then
        run_bind (lift_res (unwrap (pop_last (ms_queue self)))) (\<lambda>(queue, list1).
        run_bind (lift_res (unwrap (pop_last queue))) (\<lambda>(queue, list2).
        run_bind (merge_by alloc sz (self\<lparr>ms_queue := queue\<rparr>) list1 list2) (\<lambda>(self, merged).
        ms_finish_loop alloc sz
          (if merged \<noteq> [] then self\<lparr>ms_queue := ms_queue self @ [merged]\<rparr> else self))))
      else ok self)"

definition ms_finish_into ::
  "(nat \<Rightarrow> nat) \<Rightarrow> nat \<Rightarrow> ('k::linorder, 'r::comm_monoid_add) merge_sorter \<Rightarrow> ('k \<times> 'r) buf list \<Rightarrow>
   (('k, 'r) merge_sorter \<times> ('k \<times> 'r) buf list) run" where
  "ms_finish_into alloc sz self target =
     run_bind (ms_finish_loop alloc sz self) (\<lambda>self.
     let (self, target) =
       (case pop_last (ms_queue self) of
          Some (queue, l) \<Rightarrow> (self\<lparr>ms_queue := queue\<rparr>, l)
        | None \<Rightarrow> (self, target))
     in if ms_queue self \<noteq> [] then lift_res (Inl DebugAssert) else ok (self, target))"

definition ms_tuples :: "('k, 'r) merge_sorter \<Rightarrow> nat" where
  "ms_tuples self =
     sum_list (map (\<lambda>alloc. length (buf_items alloc)) (concat (ms_queue self))) +
     sum_list (map (\<lambda>stash. length (buf_items stash)) (ms_stash self))"

section \<open>The batcher\<close>

record ('k, 't, 'r) merge_batcher =
  mb_sorter :: "('k, 'r) merge_sorter"
  mb_time :: 't

definition mb_new_batcher :: "'t \<Rightarrow> ('k, 't, 'r) merge_batcher" where
  "mb_new_batcher time = \<lparr>mb_sorter = ms_new, mb_time = time\<rparr>"

definition mb_push_batch ::
  "(('k \<times> 'r) list \<Rightarrow> ('k \<times> 'r) list) \<Rightarrow> (nat \<Rightarrow> nat) \<Rightarrow> nat \<Rightarrow>
   ('k::linorder, 't, 'r::comm_monoid_add) merge_batcher \<Rightarrow> ('k \<times> 'r) buf \<Rightarrow>
   (('k, 't, 'r) merge_batcher \<times> ('k \<times> 'r) buf) run" where
  "mb_push_batch sort_by alloc sz self batch =
     run_bind (ms_push sort_by alloc sz (mb_sorter self) batch)
       (\<lambda>(sorter, batch). ok (self\<lparr>mb_sorter := sorter\<rparr>, batch))"

definition mb_push_consolidated_batch ::
  "(nat \<Rightarrow> nat) \<Rightarrow> nat \<Rightarrow> ('k::linorder, 't, 'r::comm_monoid_add) merge_batcher \<Rightarrow> ('k \<times> 'r) buf \<Rightarrow>
   (('k, 't, 'r) merge_batcher \<times> ('k \<times> 'r) buf) run" where
  "mb_push_consolidated_batch alloc sz self batch =
     run_bind (ms_push_consolidated alloc sz (mb_sorter self) batch)
       (\<lambda>(sorter, batch). ok (self\<lparr>mb_sorter := sorter\<rparr>, batch))"

definition mb_tuples :: "('k, 't, 'r) merge_batcher \<Rightarrow> nat" where
  "mb_tuples self = ms_tuples (mb_sorter self)"

fun mb_extend_all ::
  "('b, 'k, 't, 'r, 'o, 'z) builder_ops_scheme \<Rightarrow> 'b \<Rightarrow> ('k \<times> 'r) buf list \<Rightarrow> 'b res" where
  "mb_extend_all ops builder [] = Inr builder"
| "mb_extend_all ops builder (buffer # merged) =
     res_bind (bo_extend ops builder (buf_items buffer)) (\<lambda>builder. mb_extend_all ops builder merged)"

definition mb_seal ::
  "(nat \<Rightarrow> nat) \<Rightarrow> nat \<Rightarrow> ('b, 'k::linorder, 't, 'r::comm_monoid_add, 'o, 'z) builder_ops_scheme \<Rightarrow>
   ('k, 't, 'r) merge_batcher \<Rightarrow> 'o run" where
  "mb_seal alloc sz ops self =
     run_bind (ms_finish_into alloc sz (mb_sorter self) []) (\<lambda>(sorter, merged).
     let builder = bo_with_capacity ops (mb_time self) (sum_list (map (\<lambda>batch. length (buf_items batch)) merged))
     in run_bind (lift_res (mb_extend_all ops builder merged)) (\<lambda>builder.
        lift_res (bo_done ops builder)))"

end
