(* ===== verification/Merge_Laws.thy ===== *)
theory Merge_Laws
  imports Merge_Batcher
begin

text \<open>
  The batcher is correct: no assertion of the merge fails, every loop ends, and the queue always
  holds chunked consolidated lists whose Z-sets add up to the Z-set of everything that was pushed.
  A sealed batch is therefore the consolidation of all pushed updates (the properties at the end).
\<close>

section \<open>Chunks and stashes\<close>

definition chain :: "('k \<times> 'r) buf list \<Rightarrow> ('k, 'r) updates" where
  "chain vs = concat (map buf_items vs)"

definition nonempty_chunks :: "'a buf list \<Rightarrow> bool" where
  "nonempty_chunks vs \<longleftrightarrow> (\<forall>v \<in> set vs. buf_items v \<noteq> [])"

definition stash_ok :: "('k, 'r) merge_sorter \<Rightarrow> bool" where
  "stash_ok self \<longleftrightarrow> (\<forall>b \<in> set (ms_stash self). buf_items b = [] \<and> buf_cap b \<noteq> 0)"

lemma chain_simps [simp]:
  "chain [] = []" "chain (v # vs) = buf_items v @ chain vs" "chain (vs @ ws) = chain vs @ chain ws"
  by (simp_all add: chain_def)

lemma nonempty_chunks_simps [simp]:
  "nonempty_chunks []"
  "nonempty_chunks (v # vs) \<longleftrightarrow> buf_items v \<noteq> [] \<and> nonempty_chunks vs"
  "nonempty_chunks (vs @ ws) \<longleftrightarrow> nonempty_chunks vs \<and> nonempty_chunks ws"
  by (auto simp: nonempty_chunks_def)

lemma chain_Nil: "nonempty_chunks vs \<Longrightarrow> chain vs = [] \<longleftrightarrow> vs = []"
  by (cases vs) simp_all

lemma filter_nonempty_chunks [simp]:
  "nonempty_chunks vs \<Longrightarrow> filter (\<lambda>b. buf_items b \<noteq> []) vs = vs"
  by (simp add: nonempty_chunks_def filter_id_conv)

lemma BUFFER_ELEMENTS_pos: "0 < BUFFER_ELEMENTS sz"
  by (simp add: BUFFER_ELEMENTS_def div_greater_zero_iff)

lemma has_spare_iff: "has_spare_capacity v \<longleftrightarrow> length (buf_items v) < buf_cap v"
  by (auto simp: has_spare_capacity_def)

lemma is_sorted_from_iff: "is_sorted_from l xs \<longleftrightarrow> sorted (l # map fst xs)"
  by (induction xs arbitrary: l) (auto simp: not_less)

lemma vec_is_sorted_iff: "vec_is_sorted v \<longleftrightarrow> sorted (map fst (buf_items v))"
  by (auto simp: vec_is_sorted_def is_sorted_from_iff split: list.splits)

lemma ms_buffer_ok:
  assumes "stash_ok self" and "\<And>n. n \<le> alloc n"
  shows "\<exists>b self'. ms_buffer alloc sz self = Inr (b, self') \<and> buf_items b = [] \<and>
    has_spare_capacity b \<and> stash_ok self' \<and> ms_queue self' = ms_queue self"
proof (cases "ms_stash self = []")
  case True
  have "alloc (BUFFER_ELEMENTS sz) \<noteq> 0"
    using assms(2) [of "BUFFER_ELEMENTS sz"] BUFFER_ELEMENTS_pos [of sz] by linarith
  then show ?thesis using True assms(1) by (simp add: ms_buffer_def pop_last_def has_spare_iff)
next
  case False
  then have "last (ms_stash self) \<in> set (ms_stash self)" by simp
  then have "buf_items (last (ms_stash self)) = []" "buf_cap (last (ms_stash self)) \<noteq> 0"
    using assms(1) by (simp_all add: stash_ok_def)
  then show ?thesis
    using False assms(1)
    by (auto simp: ms_buffer_def pop_last_def has_spare_iff stash_ok_def dest: in_set_butlastD)
qed

lemma ms_stash_push_ok [simp]:
  "stash_ok self \<Longrightarrow> buf_items b = [] \<Longrightarrow> stash_ok (ms_stash_push sz self b)"
  "ms_queue (ms_stash_push sz self b) = ms_queue self"
  using BUFFER_ELEMENTS_pos [of sz] by (auto simp: ms_stash_push_def stash_ok_def)

section \<open>merge\_by\<close>

lemma merge_heads_merge:
  assumes "buf_items head1 \<noteq> []" and "buf_items head2 \<noteq> []"
  shows "\<exists>m head1' head2'. merge_heads head1 head2 = Inr (m, head1', head2') \<and>
    merge_updates (buf_items head1 @ xs) (buf_items head2 @ ys) =
    (case m of None \<Rightarrow> [] | Some x \<Rightarrow> [x]) @
      merge_updates (buf_items head1' @ xs) (buf_items head2' @ ys)"
proof -
  obtain x xs' y ys' where h: "buf_items head1 = x # xs'" "buf_items head2 = y # ys'"
    using assms by (meson neq_Nil_conv)
  consider "fst x < fst y" | "fst y < fst x" "\<not> fst x < fst y" | "fst x = fst y" by fastforce
  then show ?thesis by cases (simp_all add: merge_heads_def h Let_def)
qed

lemma consolidated_last:
  assumes "consolidated (xs @ x # ys)" and "xs \<noteq> []"
  shows "fst (last xs) \<le> fst x"
proof -
  have "\<forall>a \<in> set xs. fst a < fst x" using assms(1) by (simp add: consolidated_append)
  then show ?thesis using assms(2) last_in_set by (blast intro: less_imp_le)
qed

lemma merge_inner_loop_ok:
  assumes "consolidated (buf_items result @ merge_updates (buf_items head1 @ xs) (buf_items head2 @ ys))"
  shows "\<exists>result' head1' head2'. merge_inner_loop result head1 head2 = Inr (result', head1', head2') \<and>
    buf_cap result' = buf_cap result \<and>
    buf_items result' @ merge_updates (buf_items head1' @ xs) (buf_items head2' @ ys) =
      buf_items result @ merge_updates (buf_items head1 @ xs) (buf_items head2 @ ys) \<and>
    length (buf_items head1') + length (buf_items head2') \<le>
      length (buf_items head1) + length (buf_items head2) \<and>
    (has_spare_capacity result \<and> buf_items head1 \<noteq> [] \<and> buf_items head2 \<noteq> [] \<longrightarrow>
      length (buf_items head1') + length (buf_items head2') <
      length (buf_items head1) + length (buf_items head2))"
  using assms
proof (induction result head1 head2 rule: merge_inner_loop.induct)
  case (1 result head1 head2)
  show ?case
  proof (cases "has_spare_capacity result \<and> buf_items head1 \<noteq> [] \<and> buf_items head2 \<noteq> []")
    case False
    then show ?thesis by (subst merge_inner_loop.simps) auto
  next
    case True
    obtain m h1 h2 where h: "merge_heads head1 head2 = Inr (m, h1, h2)"
      "merge_updates (buf_items head1 @ xs) (buf_items head2 @ ys) =
       (case m of None \<Rightarrow> [] | Some x \<Rightarrow> [x]) @ merge_updates (buf_items h1 @ xs) (buf_items h2 @ ys)"
      using merge_heads_merge True by blast
    have less: "length (buf_items h1) + length (buf_items h2) <
        length (buf_items head1) + length (buf_items head2)" by (rule merge_heads_less [OF h(1)])
    show ?thesis
    proof (cases m)
      case None
      have "merge_inner_loop result head1 head2 = merge_inner_loop result h1 h2"
        using True h(1) None by (subst merge_inner_loop.simps) simp
      then show ?thesis
        using "1.IH"(1) [OF True h(1) refl refl None] "1.prems" h(2) None less by fastforce
    next
      case (Some x)
      define result1 where "result1 = result\<lparr>buf_items := buf_items result @ [x]\<rparr>"
      have push: "push_unchecked result x = Inr result1"
        using True by (auto simp: push_unchecked_def has_spare_iff result1_def)
      have last: "\<not> (buf_items result \<noteq> [] \<and> \<not> fst (last (buf_items result)) \<le> fst x)"
        using consolidated_last [of "buf_items result" x] "1.prems" h(2) Some by (cases x) auto
      have "merge_inner_loop result head1 head2 = merge_inner_loop result1 h1 h2"
        using True h(1) Some push last by (subst merge_inner_loop.simps) auto
      moreover have "buf_cap result1 = buf_cap result" by (simp add: result1_def)
      moreover have eq: "buf_items result1 @ merge_updates (buf_items h1 @ xs) (buf_items h2 @ ys) =
          buf_items result @ merge_updates (buf_items head1 @ xs) (buf_items head2 @ ys)"
        using h(2) Some by (simp add: result1_def)
      moreover have "\<exists>result' head1' head2'. merge_inner_loop result1 h1 h2 = Inr (result', head1', head2') \<and>
          buf_cap result' = buf_cap result1 \<and>
          buf_items result' @ merge_updates (buf_items head1' @ xs) (buf_items head2' @ ys) =
            buf_items result1 @ merge_updates (buf_items h1 @ xs) (buf_items h2 @ ys) \<and>
          length (buf_items head1') + length (buf_items head2') \<le>
            length (buf_items h1) + length (buf_items h2)"
        using "1.IH"(2) [OF True h(1) refl refl Some last _ push] True "1.prems" eq by auto
      ultimately show ?thesis using less by fastforce
    qed
  qed
qed

lemma merge_refill_ok:
  assumes "stash_ok self" and "nonempty_chunks vs"
  shows "\<exists>self' head' vs'. merge_refill sz self head vs = (self', head', vs') \<and> stash_ok self' \<and>
    ms_queue self' = ms_queue self \<and> nonempty_chunks vs' \<and>
    buf_items head' @ chain vs' = buf_items head @ chain vs \<and> (buf_items head' = [] \<longrightarrow> vs' = [])"
  using assms by (auto simp: merge_refill_def pop_front_or_new_def vec_new_def split: list.splits)

text \<open>The outer loop ends since each round consumes an element of one of the heads.\<close>

lemma consolidated_infix: "consolidated (xs @ ys @ zs) \<Longrightarrow> consolidated ys"
  by (simp add: consolidated_append)

definition merge_measure ::
  "('k \<times> 'r) buf \<Rightarrow> ('k \<times> 'r) buf \<Rightarrow> ('k \<times> 'r) buf list \<Rightarrow> ('k \<times> 'r) buf list \<Rightarrow> nat" where
  "merge_measure head1 head2 list1 list2 =
     length (buf_items head1 @ chain list1) + length (buf_items head2 @ chain list2)"

lemma merge_outer_round:
  assumes "\<And>n. n \<le> alloc n" and "stash_ok self" and "has_spare_capacity result"
    and "nonempty_chunks outp" and "nonempty_chunks list1" and "nonempty_chunks list2"
    and "buf_items head1 \<noteq> []" and "buf_items head2 \<noteq> []"
    and "consolidated (chain outp @ buf_items result @
      merge_updates (buf_items head1 @ chain list1) (buf_items head2 @ chain list2))"
  shows "\<exists>self' outp' result' head1' head2' list1' list2'.
    merge_outer_loop alloc sz self outp result head1 head2 list1 list2 =
      merge_outer_loop alloc sz self' outp' result' head1' head2' list1' list2' \<and>
    merge_measure head1' head2' list1' list2' < merge_measure head1 head2 list1 list2 \<and>
    stash_ok self' \<and> ms_queue self' = ms_queue self \<and> has_spare_capacity result' \<and>
    nonempty_chunks outp' \<and> nonempty_chunks list1' \<and> nonempty_chunks list2' \<and>
    (buf_items head1' = [] \<longrightarrow> list1' = []) \<and> (buf_items head2' = [] \<longrightarrow> list2' = []) \<and>
    chain outp' @ buf_items result' @
      merge_updates (buf_items head1' @ chain list1') (buf_items head2' @ chain list2') =
    chain outp @ buf_items result @
      merge_updates (buf_items head1 @ chain list1) (buf_items head2 @ chain list2)"
proof -
  let ?m = "\<lambda>h1 h2. merge_updates (buf_items h1 @ chain list1) (buf_items h2 @ chain list2)"
  obtain r h1 h2 where inner: "merge_inner_loop result head1 head2 = Inr (r, h1, h2)"
    "buf_cap r = buf_cap result" "buf_items r @ ?m h1 h2 = buf_items result @ ?m head1 head2"
    "length (buf_items h1) + length (buf_items h2) < length (buf_items head1) + length (buf_items head2)"
    using merge_inner_loop_ok [of result head1 "chain list1" head2 "chain list2"] assms(3,7-9)
    by (auto simp: consolidated_append)
  have "consolidated (buf_items result @ ?m head1 head2)" using assms(9) by (simp add: consolidated_append)
  then have sorted: "vec_is_sorted result" "vec_is_sorted r"
    using inner(3) by (metis consolidated_append consolidated_sorted vec_is_sorted_iff)+
  obtain outp2 r2 self2 where two: "(if \<not> has_spare_capacity r
      then res_map (\<lambda>(b, self). (outp @ [r], b, self)) (ms_buffer alloc sz self)
      else Inr (outp, r, self)) = Inr (outp2, r2, self2)"
    "chain outp2 @ buf_items r2 = chain outp @ buf_items r" "has_spare_capacity r2"
    "nonempty_chunks outp2" "stash_ok self2" "ms_queue self2 = ms_queue self"
  proof (cases "has_spare_capacity r")
    case False
    then have "buf_items r \<noteq> []" using assms(3) inner(2) by (auto simp: has_spare_iff)
    then show ?thesis using False ms_buffer_ok [OF assms(2,1), of sz] assms(4) that by fastforce
  qed (use assms(2,4) that in simp)
  obtain self3 h1' list1' where ref1: "merge_refill sz self2 h1 list1 = (self3, h1', list1')"
    "stash_ok self3" "ms_queue self3 = ms_queue self2" "nonempty_chunks list1'"
    "buf_items h1' @ chain list1' = buf_items h1 @ chain list1" "buf_items h1' = [] \<longrightarrow> list1' = []"
    using merge_refill_ok [OF two(5) assms(5)] by blast
  obtain self4 h2' list2' where ref2: "merge_refill sz self3 h2 list2 = (self4, h2', list2')"
    "stash_ok self4" "ms_queue self4 = ms_queue self3" "nonempty_chunks list2'"
    "buf_items h2' @ chain list2' = buf_items h2 @ chain list2" "buf_items h2' = [] \<longrightarrow> list2' = []"
    using merge_refill_ok [OF ref1(2) assms(6)] by blast
  have "merge_outer_loop alloc sz self outp result head1 head2 list1 list2 =
      merge_outer_loop alloc sz self4 outp2 r2 h1' h2' list1' list2'"
    using assms(7,8) sorted inner(1) two(1) ref1(1) ref2(1)
    by (subst merge_outer_loop.simps) simp
  moreover have "chain outp2 @ buf_items r2 @
      merge_updates (buf_items h1' @ chain list1') (buf_items h2' @ chain list2') =
    chain outp @ buf_items result @ ?m head1 head2"
    using two(2) inner(3) ref1(5) ref2(5) by (metis append.assoc)
  moreover have "merge_measure h1' h2' list1' list2' < merge_measure head1 head2 list1 list2"
    using inner(4) unfolding merge_measure_def ref1(5) ref2(5) by simp
  ultimately show ?thesis using two ref1 ref2 by metis
qed

lemma merge_outer_loop_ok:
  assumes "\<And>n. n \<le> alloc n" and "stash_ok self" and "has_spare_capacity result"
    and "nonempty_chunks outp" and "nonempty_chunks list1" and "nonempty_chunks list2"
    and "buf_items head1 = [] \<longrightarrow> list1 = []" and "buf_items head2 = [] \<longrightarrow> list2 = []"
    and "consolidated (chain outp @ buf_items result @
      merge_updates (buf_items head1 @ chain list1) (buf_items head2 @ chain list2))"
  shows "\<exists>self' outp' result' head1' head2' list1' list2'.
    merge_outer_loop alloc sz self outp result head1 head2 list1 list2 =
      ok (self', outp', result', head1', head2', list1', list2') \<and>
    stash_ok self' \<and> ms_queue self' = ms_queue self \<and>
    nonempty_chunks outp' \<and> nonempty_chunks list1' \<and> nonempty_chunks list2' \<and>
    chain outp' @ buf_items result' @ buf_items head1' @ chain list1' @ buf_items head2' @ chain list2' =
    chain outp @ buf_items result @
      merge_updates (buf_items head1 @ chain list1) (buf_items head2 @ chain list2)"
  using assms(2-)
proof (induction "merge_measure head1 head2 list1 list2"
    arbitrary: self outp result head1 head2 list1 list2 rule: less_induct)
  case less
  show ?case
  proof (cases "buf_items head1 \<noteq> [] \<and> buf_items head2 \<noteq> []")
    case True
    obtain self' outp' result' head1' head2' list1' list2' where r:
      "merge_outer_loop alloc sz self outp result head1 head2 list1 list2 =
        merge_outer_loop alloc sz self' outp' result' head1' head2' list1' list2'"
      "merge_measure head1' head2' list1' list2' < merge_measure head1 head2 list1 list2"
      "stash_ok self'" "ms_queue self' = ms_queue self" "has_spare_capacity result'"
      "nonempty_chunks outp'" "nonempty_chunks list1'" "nonempty_chunks list2'"
      "buf_items head1' = [] \<longrightarrow> list1' = []" "buf_items head2' = [] \<longrightarrow> list2' = []"
      "chain outp' @ buf_items result' @
        merge_updates (buf_items head1' @ chain list1') (buf_items head2' @ chain list2') =
       chain outp @ buf_items result @
        merge_updates (buf_items head1 @ chain list1) (buf_items head2 @ chain list2)"
      using merge_outer_round [where alloc = alloc and sz = sz, OF assms(1) less.prems(1-5)
        conjunct1 [OF True] conjunct2 [OF True] less.prems(8)] by blast
    show ?thesis
      using less.hyps [OF r(2,3,5-10)] less.prems(8) unfolding r(1,4,11) by simp
  next
    case False
    then have "buf_items head1 @ chain list1 = [] \<or> buf_items head2 @ chain list2 = []"
      using less.prems(6,7) by auto
    then show ?thesis using False less.prems by (subst merge_outer_loop.simps) auto
  qed
qed

lemma merge_flush_ok:
  assumes "stash_ok self" and "nonempty_chunks outp" and "consolidated (buf_items b)"
  shows "\<exists>self' outp'. merge_flush sz self outp b = Inr (self', outp') \<and> stash_ok self' \<and>
    ms_queue self' = ms_queue self \<and> nonempty_chunks outp' \<and> chain outp' = chain outp @ buf_items b"
  using assms consolidated_sorted [OF assms(3)]
  by (cases "buf_items b = []") (auto simp: merge_flush_def vec_is_sorted_iff)

lemma pop_front_ok:
  assumes "nonempty_chunks vs"
  shows "\<exists>head vs'. pop_front_or_new vs = (head, vs') \<and> nonempty_chunks vs' \<and>
    buf_items head @ chain vs' = chain vs \<and> (buf_items head = [] \<longrightarrow> vs' = [])"
  using assms by (auto simp: pop_front_or_new_def vec_new_def split: list.splits)

definition chunks_ok :: "('k::linorder \<times> 'r::comm_monoid_add) buf list \<Rightarrow> bool" where
  "chunks_ok vs \<longleftrightarrow> nonempty_chunks vs \<and> consolidated (chain vs)"

lemma chunks_sorted:
  assumes "chunks_ok vs"
  shows "list_all (\<lambda>b. buf_items b \<noteq> [] \<and> vec_is_sorted b) vs"
proof -
  have "consolidated (buf_items v)" if "v \<in> set vs" for v
    using assms split_list [OF that] by (auto simp: chunks_ok_def consolidated_append)
  then show ?thesis
    using assms consolidated_sorted
    by (auto simp: list_all_iff chunks_ok_def nonempty_chunks_def vec_is_sorted_iff)
qed

lemma merge_by_ok:
  assumes alloc: "\<And>n. n \<le> alloc n" and stash: "stash_ok self"
    and ok: "chunks_ok list1" "chunks_ok list2"
  shows "\<exists>self' outp. merge_by alloc sz self list1 list2 = ok (self', outp) \<and> stash_ok self' \<and>
    ms_queue self' = ms_queue self \<and> chunks_ok outp \<and>
    chain outp = merge_updates (chain list1) (chain list2)"
proof -
  have ne: "nonempty_chunks list1" "nonempty_chunks list2" using ok by (simp_all add: chunks_ok_def)
  have cons: "consolidated (merge_updates (chain list1) (chain list2))"
    using ok by (simp add: chunks_ok_def consolidated_merge)
  obtain b self1 where b: "ms_buffer alloc sz self = Inr (b, self1)" "buf_items b = []"
    "has_spare_capacity b" "stash_ok self1" "ms_queue self1 = ms_queue self"
    using ms_buffer_ok [OF stash alloc] by blast
  obtain h1 l1 where p1: "pop_front_or_new list1 = (h1, l1)" "nonempty_chunks l1"
    "buf_items h1 @ chain l1 = chain list1" "buf_items h1 = [] \<longrightarrow> l1 = []"
    using pop_front_ok [OF ne(1)] by blast
  obtain h2 l2 where p2: "pop_front_or_new list2 = (h2, l2)" "nonempty_chunks l2"
    "buf_items h2 @ chain l2 = chain list2" "buf_items h2 = [] \<longrightarrow> l2 = []"
    using pop_front_ok [OF ne(2)] by blast
  obtain self2 outp r h1' h2' l1' l2' where loop:
    "merge_outer_loop alloc sz self1 [] b h1 h2 l1 l2 = ok (self2, outp, r, h1', h2', l1', l2')"
    "stash_ok self2" "ms_queue self2 = ms_queue self1" "nonempty_chunks outp"
    "nonempty_chunks l1'" "nonempty_chunks l2'"
    "chain outp @ buf_items r @ buf_items h1' @ chain l1' @ buf_items h2' @ chain l2' =
     merge_updates (chain list1) (chain list2)"
    using merge_outer_loop_ok [OF alloc b(4,3) nonempty_chunks_simps(1) p1(2) p2(2) p1(4) p2(4), of sz]
      b(2) cons p1(3) p2(3) by auto
  have parts: "consolidated (buf_items r)" "consolidated (buf_items h1')" "consolidated (buf_items h2')"
    using cons unfolding loop(7) [symmetric] by (simp_all add: consolidated_append)
  obtain self3 o3 where f1: "merge_flush sz self2 outp r = Inr (self3, o3)" "stash_ok self3"
    "ms_queue self3 = ms_queue self2" "nonempty_chunks o3" "chain o3 = chain outp @ buf_items r"
    using merge_flush_ok [OF loop(2,4) parts(1)] by blast
  obtain self4 o4 where f2: "merge_flush sz self3 o3 h1' = Inr (self4, o4)" "stash_ok self4"
    "ms_queue self4 = ms_queue self3" "nonempty_chunks o4" "chain o4 = chain o3 @ buf_items h1'"
    using merge_flush_ok [OF f1(2,4) parts(2)] by blast
  have ne4: "nonempty_chunks (o4 @ l1')" using f2(4) loop(5) by simp
  obtain self5 o5 where f3: "merge_flush sz self4 (o4 @ l1') h2' = Inr (self5, o5)" "stash_ok self5"
    "ms_queue self5 = ms_queue self4" "nonempty_chunks o5" "chain o5 = chain (o4 @ l1') @ buf_items h2'"
    using merge_flush_ok [OF f2(2) ne4 parts(3)] by blast
  have nonempty: "list_all (\<lambda>b. buf_items b \<noteq> []) (o5 @ l2')"
    using f3(4) loop(6) by (auto simp: list_all_iff nonempty_chunks_def)
  have "merge_by alloc sz self list1 list2 = ok (self5, o5 @ l2')"
    using ne chunks_sorted [OF ok(1)] chunks_sorted [OF ok(2)] b(1) p1(1) p2(1) loop(1) f1(1) f2(1)
      f3(1) nonempty by (simp add: merge_by_def)
  moreover have "chain (o5 @ l2') = merge_updates (chain list1) (chain list2)"
    using f1(5) f2(5) f3(5) loop(7) by simp
  ultimately show ?thesis
    using f1 f2 f3 loop b(5) cons by (simp add: chunks_ok_def)
qed

section \<open>The sorter\<close>

definition ms_inv :: "('k::linorder, 'r::comm_monoid_add) merge_sorter \<Rightarrow> bool" where
  "ms_inv self \<longleftrightarrow> stash_ok self \<and> (\<forall>vs \<in> set (ms_queue self). chunks_ok vs)"

definition ms_content :: "('k, 'r::comm_monoid_add) merge_sorter \<Rightarrow> ('k, 'r) zset" where
  "ms_content self k = (\<Sum>vs\<leftarrow>ms_queue self. weight_of (chain vs) k)"

lemma last_two: "2 \<le> length xs \<Longrightarrow> \<exists>q b a. xs = q @ [b, a]"
proof (cases xs rule: rev_cases)
  case (snoc ys a)
  assume "2 \<le> length xs"
  then show ?thesis using snoc by (cases ys rule: rev_cases) auto
qed simp

text \<open>One round of the two loops over the queue: the two topmost lists are replaced by their merge.\<close>

lemma merge_top_two:
  assumes alloc: "\<And>n. n \<le> alloc n" and inv: "ms_inv self" and len: "2 \<le> length (ms_queue self)"
  shows "\<exists>queue2 queue1 a b self1 merged. pop_last (ms_queue self) = Some (queue1, a) \<and>
    pop_last queue1 = Some (queue2, b) \<and>
    merge_by alloc sz (self\<lparr>ms_queue := queue2\<rparr>) a b = ok (self1, merged) \<and>
    (let self2 = (if merged \<noteq> [] then self1\<lparr>ms_queue := ms_queue self1 @ [merged]\<rparr> else self1)
     in ms_inv self2 \<and> ms_content self2 = ms_content self \<and>
        length (ms_queue self2) < length (ms_queue self))"
proof -
  obtain q b a where q: "ms_queue self = q @ [b, a]" using last_two [OF len] by blast
  have "stash_ok (self\<lparr>ms_queue := q\<rparr>)" "chunks_ok a" "chunks_ok b"
    using inv q by (simp_all add: ms_inv_def stash_ok_def)
  then obtain self1 merged where m: "merge_by alloc sz (self\<lparr>ms_queue := q\<rparr>) a b = ok (self1, merged)"
    "stash_ok self1" "ms_queue self1 = q" "chunks_ok merged" "chain merged = merge_updates (chain a) (chain b)"
    using merge_by_ok [OF alloc, of "self\<lparr>ms_queue := q\<rparr>" a b sz] by auto
  define self2 where
    "self2 = (if merged \<noteq> [] then self1\<lparr>ms_queue := ms_queue self1 @ [merged]\<rparr> else self1)"
  have "ms_inv self2"
    using m inv q by (auto simp: self2_def ms_inv_def stash_ok_def)
  moreover have "ms_content self2 k = ms_content self k" for k
  proof -
    have "ms_content self2 k = (\<Sum>vs\<leftarrow>q. weight_of (chain vs) k) + weight_of (chain merged) k"
      using m(3) by (simp add: self2_def ms_content_def)
    then show ?thesis using m(5) q by (simp add: ms_content_def weight_of_merge ac_simps)
  qed
  moreover have "length (ms_queue self2) < length (ms_queue self)"
    using m(3) q by (simp add: self2_def)
  ultimately show ?thesis
    using m(1) q unfolding self2_def Let_def by (simp add: pop_last_def butlast_append fun_eq_iff)
qed

lemma ms_merge_loop_ok:
  assumes alloc: "\<And>n. n \<le> alloc n" and "ms_inv self"
  shows "\<exists>self'. ms_merge_loop alloc sz self = ok self' \<and> ms_inv self' \<and> ms_content self' = ms_content self"
  using assms(2)
proof (induction "length (ms_queue self)" arbitrary: self rule: less_induct)
  case less
  show ?case
  proof (cases "length (ms_queue self) > 1 \<and>
      length (ms_queue self ! (length (ms_queue self) - 1)) \<ge>
      length (ms_queue self ! (length (ms_queue self) - 2)) div 2")
    case True
    then have "2 \<le> length (ms_queue self)" by simp
    then obtain queue2 queue1 a b self1 merged where r: "pop_last (ms_queue self) = Some (queue1, a)"
      "pop_last queue1 = Some (queue2, b)"
      "merge_by alloc sz (self\<lparr>ms_queue := queue2\<rparr>) a b = ok (self1, merged)"
      "let self2 = (if merged \<noteq> [] then self1\<lparr>ms_queue := ms_queue self1 @ [merged]\<rparr> else self1)
       in ms_inv self2 \<and> ms_content self2 = ms_content self \<and>
          length (ms_queue self2) < length (ms_queue self)"
      using merge_top_two [OF alloc less.prems] by blast
    define self2 where
      "self2 = (if merged \<noteq> [] then self1\<lparr>ms_queue := ms_queue self1 @ [merged]\<rparr> else self1)"
    have "ms_merge_loop alloc sz self = ms_merge_loop alloc sz self2"
      using True r(1-3) by (subst ms_merge_loop.simps) (simp add: Let_def self2_def)
    then show ?thesis using r(4) less.hyps [of self2] unfolding Let_def self2_def [symmetric] by auto
  next
    case False
    then show ?thesis using less.prems by (subst ms_merge_loop.simps) (auto simp: Let_def)
  qed
qed

lemma ms_finish_loop_ok:
  assumes alloc: "\<And>n. n \<le> alloc n" and "ms_inv self"
  shows "\<exists>self'. ms_finish_loop alloc sz self = ok self' \<and> ms_inv self' \<and>
    ms_content self' = ms_content self \<and> length (ms_queue self') < 2"
  using assms(2)
proof (induction "length (ms_queue self)" arbitrary: self rule: less_induct)
  case less
  show ?case
  proof (cases "2 \<le> length (ms_queue self)")
    case True
    then obtain queue2 queue1 a b self1 merged where r: "pop_last (ms_queue self) = Some (queue1, a)"
      "pop_last queue1 = Some (queue2, b)"
      "merge_by alloc sz (self\<lparr>ms_queue := queue2\<rparr>) a b = ok (self1, merged)"
      "let self2 = (if merged \<noteq> [] then self1\<lparr>ms_queue := ms_queue self1 @ [merged]\<rparr> else self1)
       in ms_inv self2 \<and> ms_content self2 = ms_content self \<and>
          length (ms_queue self2) < length (ms_queue self)"
      using merge_top_two [OF alloc less.prems] by blast
    define self2 where
      "self2 = (if merged \<noteq> [] then self1\<lparr>ms_queue := ms_queue self1 @ [merged]\<rparr> else self1)"
    have "ms_finish_loop alloc sz self = ms_finish_loop alloc sz self2"
      using True r(1-3) by (subst ms_finish_loop.simps) (simp add: self2_def)
    then show ?thesis using r(4) less.hyps [of self2] unfolding Let_def self2_def [symmetric] by auto
  next
    case False
    then show ?thesis using less.prems by (subst ms_finish_loop.simps) auto
  qed
qed

lemma ms_take_batch_ok:
  assumes "ms_inv self"
  shows "\<exists>self' returned. ms_take_batch self batch = Inr (self', returned, batch) \<and> ms_inv self' \<and>
    ms_queue self' = ms_queue self \<and> buf_items returned = []"
proof (cases "length (ms_stash self) > 2")
  case True
  then have "last (ms_stash self) \<in> set (ms_stash self)" by (intro last_in_set) auto
  then show ?thesis
    using assms True
    by (auto simp: ms_take_batch_def pop_last_def ms_inv_def stash_ok_def dest: in_set_butlastD)
next
  case False
  then show ?thesis using assms by (simp add: ms_take_batch_def vec_new_def)
qed

lemma ms_enqueue_ok:
  assumes "\<And>n. n \<le> alloc n" and "ms_inv self" and "consolidated (buf_items b)" and "buf_items b \<noteq> []"
  shows "\<exists>self'. ms_merge_loop alloc sz (self\<lparr>ms_queue := ms_queue self @ [[b]]\<rparr>) = ok self' \<and>
    ms_inv self' \<and> (\<forall>k. ms_content self' k = ms_content self k + weight_of (buf_items b) k)"
proof -
  have "ms_inv (self\<lparr>ms_queue := ms_queue self @ [[b]]\<rparr>)"
    using assms by (auto simp: ms_inv_def stash_ok_def chunks_ok_def)
  then show ?thesis using ms_merge_loop_ok [OF assms(1)] by (fastforce simp: ms_content_def)
qed

lemma ms_push_ok:
  assumes "unstable_sort sort_by" and "\<And>n. n \<le> alloc n" and "ms_inv self"
  shows "\<exists>self' returned. ms_push sort_by alloc sz self batch = ok (self', returned) \<and> ms_inv self' \<and>
    buf_items returned = [] \<and> (\<forall>k. ms_content self' k = ms_content self k + weight_of (buf_items batch) k)"
proof (cases "buf_items batch = []")
  case True
  then show ?thesis using assms(3) by (simp add: ms_push_def)
next
  case False
  let ?c = "consolidate sort_by (buf_items batch)"
  have c: "consolidated ?c" "weight_of ?c = weight_of (buf_items batch)"
    using unstable_sort.canon_sort_consolidated [OF assms(1)] unstable_sort.canon_sort_weight [OF assms(1)]
    by (simp_all add: unstable_sort.consolidate_eq [OF assms(1)])
  obtain self1 ret where t: "ms_take_batch self batch = Inr (self1, ret, batch)" "ms_inv self1"
    "ms_queue self1 = ms_queue self" "buf_items ret = []" using ms_take_batch_ok [OF assms(3)] by blast
  have content: "ms_content self1 = ms_content self" using t(3) by (simp add: ms_content_def fun_eq_iff)
  show ?thesis
  proof (cases "?c = []")
    case True
    then have "weight_of (buf_items batch) k = 0" for k using c(2) by (metis weight_of.simps(1))
    then show ?thesis using False True t content by (simp add: ms_push_def Let_def)
  next
    case ne: False
    then show ?thesis
      using False t c content ms_enqueue_ok [OF assms(2) t(2), of "batch\<lparr>buf_items := ?c\<rparr>" sz]
      by (auto simp: ms_push_def Let_def)
  qed
qed

lemma ms_push_consolidated_ok:
  assumes "\<And>n. n \<le> alloc n" and "ms_inv self" and "consolidated (buf_items batch)"
  shows "\<exists>self' returned. ms_push_consolidated alloc sz self batch = ok (self', returned) \<and> ms_inv self' \<and>
    buf_items returned = [] \<and> (\<forall>k. ms_content self' k = ms_content self k + weight_of (buf_items batch) k)"
proof (cases "buf_items batch = []")
  case True
  then show ?thesis using assms(2) by (simp add: ms_push_consolidated_def)
next
  case False
  obtain self1 ret where t: "ms_take_batch self batch = Inr (self1, ret, batch)" "ms_inv self1"
    "ms_queue self1 = ms_queue self" "buf_items ret = []" using ms_take_batch_ok [OF assms(2)] by blast
  then have "ms_content self1 = ms_content self" by (simp add: ms_content_def fun_eq_iff)
  then show ?thesis
    using False t ms_enqueue_ok [OF assms(1) t(2) assms(3) False, of sz]
    by (auto simp: ms_push_consolidated_def)
qed

lemma ms_finish_into_ok:
  assumes "\<And>n. n \<le> alloc n" and "ms_inv self"
  shows "\<exists>self' outp. ms_finish_into alloc sz self [] = ok (self', outp) \<and> ms_queue self' = [] \<and>
    chunks_ok outp \<and> weight_of (chain outp) = ms_content self"
proof -
  obtain self1 where l: "ms_finish_loop alloc sz self = ok self1" "ms_inv self1"
    "ms_content self1 = ms_content self" "length (ms_queue self1) < 2"
    using ms_finish_loop_ok [OF assms] by blast
  consider "ms_queue self1 = []" | vs where "ms_queue self1 = [vs]"
    using l(4) by (cases "ms_queue self1") auto
  then show ?thesis
  proof cases
    case 1
    then have "ms_content self = (\<lambda>_. 0)"
      using l(3) unfolding ms_content_def by (simp add: fun_eq_iff)
    then show ?thesis
      using 1 l(1) by (simp add: ms_finish_into_def pop_last_def chunks_ok_def fun_eq_iff)
  next
    case 2
    then have "ms_content self = weight_of (chain vs)"
      using l(3) unfolding ms_content_def by (simp add: fun_eq_iff)
    then show ?thesis using 2 l(1,2) by (simp add: ms_finish_into_def pop_last_def ms_inv_def)
  qed
qed

lemma ms_new_ok: "ms_inv ms_new" "ms_content ms_new = (\<lambda>_. 0)"
  by (simp_all add: ms_new_def ms_inv_def stash_ok_def ms_content_def fun_eq_iff)

lemma ms_tuples_ok:
  "ms_inv self \<Longrightarrow> ms_tuples self = (\<Sum>vs\<leftarrow>ms_queue self. length (chain vs))"
proof -
  assume "ms_inv self"
  then have "sum_list (map (\<lambda>b. length (buf_items b)) (ms_stash self)) = 0"
    by (auto simp: ms_inv_def stash_ok_def)
  moreover have "sum_list (map (\<lambda>b. length (buf_items b)) (concat q)) = (\<Sum>vs\<leftarrow>q. length (chain vs))"
    for q :: "('a \<times> 'b) buf list list"
    by (induction q) (simp_all add: chain_def length_concat comp_def)
  ultimately show ?thesis by (simp add: ms_tuples_def)
qed

section \<open>Sequences of calls\<close>

text \<open>A client calls the batcher with unordered and with consolidated batches in any order.\<close>

datatype ('k, 'r) batcher_call =
    PushBatch "('k \<times> 'r) buf"
  | PushConsolidatedBatch "('k \<times> 'r) buf"

fun mb_calls ::
  "(('k \<times> 'r) list \<Rightarrow> ('k \<times> 'r) list) \<Rightarrow> (nat \<Rightarrow> nat) \<Rightarrow> nat \<Rightarrow>
   ('k::linorder, 't, 'r::comm_monoid_add) merge_batcher \<Rightarrow> ('k, 'r) batcher_call list \<Rightarrow>
   ('k, 't, 'r) merge_batcher run" where
  "mb_calls sort_by alloc sz self [] = ok self"
| "mb_calls sort_by alloc sz self (PushBatch b # calls) =
     run_bind (mb_push_batch sort_by alloc sz self b) (\<lambda>(self, _). mb_calls sort_by alloc sz self calls)"
| "mb_calls sort_by alloc sz self (PushConsolidatedBatch b # calls) =
     run_bind (mb_push_consolidated_batch alloc sz self b) (\<lambda>(self, _). mb_calls sort_by alloc sz self calls)"

fun call_ok :: "('k::linorder, 'r::comm_monoid_add) batcher_call \<Rightarrow> bool" where
  "call_ok (PushBatch b) \<longleftrightarrow> True"
| "call_ok (PushConsolidatedBatch b) \<longleftrightarrow> consolidated (buf_items b)"

fun call_items :: "('k, 'r) batcher_call \<Rightarrow> ('k, 'r) updates" where
  "call_items (PushBatch b) = buf_items b"
| "call_items (PushConsolidatedBatch b) = buf_items b"

lemma mb_calls_ok:
  assumes "unstable_sort sort_by" and "\<And>n. n \<le> alloc n" and "ms_inv (mb_sorter self)"
    and "list_all call_ok calls"
  shows "\<exists>self'. mb_calls sort_by alloc sz self calls = ok self' \<and> ms_inv (mb_sorter self') \<and>
    (\<forall>k. ms_content (mb_sorter self') k =
       ms_content (mb_sorter self) k + weight_of (concat (map call_items calls)) k)"
  using assms(3,4)
proof (induction calls arbitrary: self)
  case (Cons call calls)
  obtain self1 where step: "mb_calls sort_by alloc sz self (call # calls) = mb_calls sort_by alloc sz self1 calls"
    "ms_inv (mb_sorter self1)"
    "\<forall>k. ms_content (mb_sorter self1) k = ms_content (mb_sorter self) k + weight_of (call_items call) k"
  proof (cases call)
    case (PushBatch b)
    from ms_push_ok [OF assms(1,2) Cons.prems(1)] obtain s r where
      "ms_push sort_by alloc sz (mb_sorter self) b = ok (s, r)" "ms_inv s"
      "\<forall>k. ms_content s k = ms_content (mb_sorter self) k + weight_of (buf_items b) k" by blast
    then show ?thesis using PushBatch that [of "self\<lparr>mb_sorter := s\<rparr>"] by (simp add: mb_push_batch_def)
  next
    case (PushConsolidatedBatch b)
    with Cons.prems(2) have "consolidated (buf_items b)" by simp
    from ms_push_consolidated_ok [OF assms(2) Cons.prems(1) this] obtain s r where
      "ms_push_consolidated alloc sz (mb_sorter self) b = ok (s, r)" "ms_inv s"
      "\<forall>k. ms_content s k = ms_content (mb_sorter self) k + weight_of (buf_items b) k" by blast
    then show ?thesis
      using PushConsolidatedBatch that [of "self\<lparr>mb_sorter := s\<rparr>"]
      by (simp add: mb_push_consolidated_batch_def)
  qed
  then show ?case using Cons.IH [OF step(2)] Cons.prems(2) by (fastforce simp: add.assoc)
qed simp

context batch_builder
begin

lemma extend_all:
  "inv b \<Longrightarrow> \<exists>b'. mb_extend_all ops b merged = Inr b' \<and> inv b' \<and> pushed b' = pushed b @ chain merged"
proof (induction merged arbitrary: b)
  case (Cons v merged)
  obtain b' where b': "bo_extend ops b (buf_items v) = Inr b'" "inv b'" "pushed b' = pushed b @ buf_items v"
    using extend [OF Cons.prems] by blast
  show ?case using Cons.IH [OF b'(2)] b' by auto
qed simp

lemma seal:
  assumes "\<And>n. n \<le> alloc n" and "ms_inv (mb_sorter self)"
  shows "\<exists>out. mb_seal alloc sz ops self = ok out \<and> wf out \<and> consolidated (contents out) \<and>
    weight_of (contents out) = ms_content (mb_sorter self)"
proof -
  obtain s merged where f: "ms_finish_into alloc sz (mb_sorter self) [] = ok (s, merged)"
    "chunks_ok merged" "weight_of (chain merged) = ms_content (mb_sorter self)"
    using ms_finish_into_ok [OF assms] by blast
  let ?b = "bo_with_capacity ops (mb_time self) (sum_list (map (\<lambda>batch. length (buf_items batch)) merged))"
  obtain b where b: "mb_extend_all ops ?b merged = Inr b" "inv b" "pushed b = chain merged"
    using extend_all [of ?b merged] with_capacity by auto
  obtain out where "bo_done ops b = Inr out" "wf out" "contents out = chain merged"
    using finish [OF b(2)] b(3) f(2) by (auto simp: chunks_ok_def)
  then show ?thesis using f b by (simp add: mb_seal_def chunks_ok_def)
qed

lemma calls_and_seal:
  assumes "unstable_sort sort_by" and "\<And>n. n \<le> alloc n" and "list_all call_ok calls"
  shows "\<exists>out. run_bind (mb_calls sort_by alloc sz (mb_new_batcher t) calls) (mb_seal alloc sz ops) = ok out \<and>
    wf out \<and> contents out = consolidate sort_by (concat (map call_items calls))"
proof -
  have new: "ms_inv (mb_sorter (mb_new_batcher t :: ('i, 't, 'r) merge_batcher))"
    "ms_content (mb_sorter (mb_new_batcher t :: ('i, 't, 'r) merge_batcher)) = (\<lambda>_. 0)"
    by (simp_all add: mb_new_batcher_def ms_new_ok)
  from mb_calls_ok [OF assms(1,2) new(1) assms(3), of sz] obtain mb where
    mb: "mb_calls sort_by alloc sz (mb_new_batcher t) calls = ok mb" "ms_inv (mb_sorter mb)"
    "ms_content (mb_sorter mb) = weight_of (concat (map call_items calls))"
    using new(2) by (auto simp: fun_eq_iff)
  from seal [OF assms(2) mb(2)] obtain out where out: "mb_seal alloc sz ops mb = ok out" "wf out"
    "consolidated (contents out)" "weight_of (contents out) = ms_content (mb_sorter mb)" by blast
  have "contents out = consolidate sort_by (concat (map call_items calls))"
    using out mb(3) unstable_sort.consolidate_eq [OF assms(1)]
      unstable_sort.canon_sort_consolidated [OF assms(1)] unstable_sort.canon_sort_weight [OF assms(1)]
    by (metis consolidated_unique)
  then show ?thesis using mb(1) out by simp
qed

end

end
