(* ===== verification/Quicksort_Model.thy ===== *)
theory Quicksort_Model
  imports Prelude
begin

unbundle bit_operations_syntax

text \<open>
  The pattern-defeating quicksort on a slice of keys and a slice of payloads that is permuted
  along: \<^verbatim>\<open>crates/dbsp/src/trace/consolidation/quicksort.rs\<close>.

  Every operation takes and returns both slices. Pointers into a slice are indices; a sub-slice
  \<^verbatim>\<open>&mut v[a..b]\<close> is cut out, changed and put back. The temporary copies behind
  \<^verbatim>\<open>CopyOnDrop\<close> are the arguments \<open>tmp\<close> and \<open>tmp2\<close>; the write of the destructor is the
  update at \<open>dest\<close>. The assertions of the code are panics. \<open>is_less\<close> is the comparison of the
  keys, which \<^verbatim>\<open>quicksort\<close> instantiates to \<open><\<close>. \<^verbatim>\<open>usize\<close> has 64 bits.
\<close>

section \<open>Insertion sort\<close>

function shift_head_loop ::
  "('k \<Rightarrow> 'k \<Rightarrow> bool) \<Rightarrow> 'k \<Rightarrow> 'r \<Rightarrow> 'k list \<Rightarrow> 'r list \<Rightarrow> nat \<Rightarrow> nat \<Rightarrow> 'k list \<times> 'r list" where
  "shift_head_loop is_less tmp tmp2 v v2 dest i =
     (if i < length v \<and> is_less (v ! i) tmp then
        shift_head_loop is_less tmp tmp2 (v[i - 1 := v ! i]) (v2[i - 1 := v2 ! i]) i (i + 1)
      else (v[dest := tmp], v2[dest := tmp2]))"
  by pat_completeness auto
termination
  by (relation "measure (\<lambda>(_, _, _, v, _, _, i). length v - i)") auto

declare shift_head_loop.simps [simp del]

definition shift_head ::
  "('k \<Rightarrow> 'k \<Rightarrow> bool) \<Rightarrow> 'k list \<Rightarrow> 'r list \<Rightarrow> 'k list \<times> 'r list" where
  "shift_head is_less v v2 =
     (if length v \<ge> 2 \<and> is_less (v ! 1) (v ! 0) then
        shift_head_loop is_less (v ! 0) (v2 ! 0) (v[0 := v ! 1]) (v2[0 := v2 ! 1]) 1 2
      else (v, v2))"

text \<open>The loop \<^verbatim>\<open>for i in (0..len - 2).rev()\<close>; the last argument is one more than \<open>i\<close>.\<close>

fun shift_tail_loop ::
  "('k \<Rightarrow> 'k \<Rightarrow> bool) \<Rightarrow> 'k \<Rightarrow> 'r \<Rightarrow> 'k list \<Rightarrow> 'r list \<Rightarrow> nat \<Rightarrow> nat \<Rightarrow> 'k list \<times> 'r list" where
  "shift_tail_loop is_less tmp tmp2 v v2 dest 0 = (v[dest := tmp], v2[dest := tmp2])"
| "shift_tail_loop is_less tmp tmp2 v v2 dest (Suc i) =
     (if \<not> is_less tmp (v ! i) then (v[dest := tmp], v2[dest := tmp2])
      else shift_tail_loop is_less tmp tmp2 (v[i + 1 := v ! i]) (v2[i + 1 := v2 ! i]) i i)"

definition shift_tail ::
  "('k \<Rightarrow> 'k \<Rightarrow> bool) \<Rightarrow> 'k list \<Rightarrow> 'r list \<Rightarrow> 'k list \<times> 'r list" where
  "shift_tail is_less v v2 =
     (let len = length v
      in if len \<ge> 2 \<and> is_less (v ! (len - 1)) (v ! (len - 2)) then
           shift_tail_loop is_less (v ! (len - 1)) (v2 ! (len - 1))
             (v[len - 1 := v ! (len - 2)]) (v2[len - 1 := v2 ! (len - 2)]) (len - 2) (len - 2)
         else (v, v2))"

function next_unordered :: "('k \<Rightarrow> 'k \<Rightarrow> bool) \<Rightarrow> 'k list \<Rightarrow> nat \<Rightarrow> nat" where
  "next_unordered is_less v i =
     (if i < length v \<and> \<not> is_less (v ! i) (v ! (i - 1)) then next_unordered is_less v (i + 1)
      else i)"
  by pat_completeness auto
termination
  by (relation "measure (\<lambda>(_, v, i). length v - i)") auto

declare next_unordered.simps [simp del]

definition MAX_STEPS :: nat where
  "MAX_STEPS = 5"

definition SHORTEST_SHIFTING :: nat where
  "SHORTEST_SHIFTING = 50"

fun partial_insertion_loop ::
  "('k \<Rightarrow> 'k \<Rightarrow> bool) \<Rightarrow> 'k list \<Rightarrow> 'r list \<Rightarrow> nat \<Rightarrow> nat \<Rightarrow> 'k list \<times> 'r list \<times> bool" where
  "partial_insertion_loop is_less v v2 i 0 = (v, v2, False)"
| "partial_insertion_loop is_less v v2 i (Suc steps) =
     (let i = next_unordered is_less v i
      in if i = length v then (v, v2, True)
         else if length v < SHORTEST_SHIFTING then (v, v2, False)
         else
           (let v = swap_at v (i - 1) i;
                v2 = swap_at v2 (i - 1) i;
                (left, left2) = shift_tail is_less (take i v) (take i v2);
                (right, right2) = shift_head is_less (drop i v) (drop i v2)
            in partial_insertion_loop is_less (left @ right) (left2 @ right2) i steps))"

definition partial_insertion_sort ::
  "('k \<Rightarrow> 'k \<Rightarrow> bool) \<Rightarrow> 'k list \<Rightarrow> 'r list \<Rightarrow> 'k list \<times> 'r list \<times> bool" where
  "partial_insertion_sort is_less v v2 = partial_insertion_loop is_less v v2 1 MAX_STEPS"

function insertion_loop ::
  "('k \<Rightarrow> 'k \<Rightarrow> bool) \<Rightarrow> nat \<Rightarrow> 'k list \<Rightarrow> 'r list \<Rightarrow> nat \<Rightarrow> 'k list \<times> 'r list" where
  "insertion_loop is_less len v v2 i =
     (if i < len then
        (case shift_tail is_less (take (i + 1) v) (take (i + 1) v2) of
           (w, w2) \<Rightarrow>
             insertion_loop is_less len (w @ drop (i + 1) v) (w2 @ drop (i + 1) v2) (i + 1))
      else (v, v2))"
  by pat_completeness auto
termination
  by (relation "measure (\<lambda>(_, len, _, _, i). len - i)") auto

declare insertion_loop.simps [simp del]

definition insertion_sort ::
  "('k \<Rightarrow> 'k \<Rightarrow> bool) \<Rightarrow> 'k list \<Rightarrow> 'r list \<Rightarrow> 'k list \<times> 'r list" where
  "insertion_sort is_less v v2 = insertion_loop is_less (length v) v v2 1"

section \<open>Heap sort\<close>

text \<open>The closure \<^verbatim>\<open>sift_down\<close> on the first \<open>n\<close> elements of the slices.\<close>

function sift_down ::
  "('k \<Rightarrow> 'k \<Rightarrow> bool) \<Rightarrow> nat \<Rightarrow> 'k list \<Rightarrow> 'r list \<Rightarrow> nat \<Rightarrow> 'k list \<times> 'r list" where
  "sift_down is_less n v v2 node =
     (let child = 2 * node + 1
      in if child \<ge> n then (v, v2)
         else
           (let child =
                  (if child + 1 < n \<and> is_less (v ! child) (v ! (child + 1)) then child + 1
                   else child)
            in if \<not> is_less (v ! node) (v ! child) then (v, v2)
               else sift_down is_less n (swap_at v node child) (swap_at v2 node child) child))"
  by pat_completeness auto
termination
  by (relation "measure (\<lambda>(_, n, _, _, node). n - node)") auto

declare sift_down.simps [simp del]

fun heap_build ::
  "('k \<Rightarrow> 'k \<Rightarrow> bool) \<Rightarrow> 'k list \<Rightarrow> 'r list \<Rightarrow> nat \<Rightarrow> 'k list \<times> 'r list" where
  "heap_build is_less v v2 0 = (v, v2)"
| "heap_build is_less v v2 (Suc i) =
     (case sift_down is_less (length v) v v2 i of (v, v2) \<Rightarrow> heap_build is_less v v2 i)"

text \<open>The loop \<^verbatim>\<open>for i in (1..len).rev()\<close>; the last argument is \<open>i\<close>.\<close>

fun heap_pop ::
  "('k \<Rightarrow> 'k \<Rightarrow> bool) \<Rightarrow> 'k list \<Rightarrow> 'r list \<Rightarrow> nat \<Rightarrow> 'k list \<times> 'r list" where
  "heap_pop is_less v v2 0 = (v, v2)"
| "heap_pop is_less v v2 (Suc i) =
     (case sift_down is_less (Suc i) (swap_at v 0 (Suc i)) (swap_at v2 0 (Suc i)) 0 of
        (v, v2) \<Rightarrow> heap_pop is_less v v2 i)"

definition heapsort ::
  "('k \<Rightarrow> 'k \<Rightarrow> bool) \<Rightarrow> 'k list \<Rightarrow> 'r list \<Rightarrow> 'k list \<times> 'r list" where
  "heapsort is_less v v2 =
     (case heap_build is_less v v2 (length v div 2) of
        (v, v2) \<Rightarrow> heap_pop is_less v v2 (length v - 1))"

section \<open>Partitioning in blocks\<close>

definition BLOCK :: nat where
  "BLOCK = 128"

text \<open>
  \<open>offs_l\<close> and \<open>offs_r\<close> are the offsets between \<^verbatim>\<open>start\<close> and \<^verbatim>\<open>end\<close> of the two buffers; an
  offset is stored as a byte.
\<close>

definition trace_left :: "('k \<Rightarrow> 'k \<Rightarrow> bool) \<Rightarrow> 'k \<Rightarrow> 'k list \<Rightarrow> nat \<Rightarrow> nat \<Rightarrow> nat list" where
  "trace_left is_less pivot v l block_l =
     map (\<lambda>i. i mod 256) (filter (\<lambda>i. \<not> is_less (v ! (l + i)) pivot) [0..<block_l])"

definition trace_right :: "('k \<Rightarrow> 'k \<Rightarrow> bool) \<Rightarrow> 'k \<Rightarrow> 'k list \<Rightarrow> nat \<Rightarrow> nat \<Rightarrow> nat list" where
  "trace_right is_less pivot v r block_r =
     map (\<lambda>i. i mod 256) (filter (\<lambda>i. is_less (v ! (r - (i + 1))) pivot) [0..<block_r])"

fun cyclic_loop :: "nat \<Rightarrow> nat \<Rightarrow> 'a \<Rightarrow> nat \<Rightarrow> nat list \<Rightarrow> nat list \<Rightarrow> 'a list \<Rightarrow> 'a list" where
  "cyclic_loop l r tmp start_r (a # as) (b # bs) v =
     (let v = v[r - (start_r + 1) := v ! (l + a)];
          v = v[l + a := v ! (r - (b + 1))]
      in cyclic_loop l r tmp b as bs v)"
| "cyclic_loop l r tmp start_r as bs v = v[r - (start_r + 1) := tmp]"

definition cyclic_permutation :: "nat \<Rightarrow> nat \<Rightarrow> nat list \<Rightarrow> nat list \<Rightarrow> 'a list \<Rightarrow> 'a list" where
  "cyclic_permutation l r offs_l offs_r v =
     (case (offs_l, offs_r) of
        (a # as, b # bs) \<Rightarrow>
          (let tmp = v ! (l + a);
               v = v[l + a := v ! (r - (b + 1))]
           in cyclic_loop l r tmp b as bs v)
      | _ \<Rightarrow> v)"

definition block_sizes :: "nat \<Rightarrow> nat list \<Rightarrow> nat list \<Rightarrow> (nat \<times> nat) res" where
  "block_sizes width offs_l offs_r =
     (if width \<le> 2 * BLOCK then
        if (offs_l \<noteq> [] \<or> offs_r \<noteq> []) \<and> width < BLOCK then Inl Overflow
        else
          (let remaining = (if offs_l \<noteq> [] \<or> offs_r \<noteq> [] then width - BLOCK else width);
               (block_l, block_r) =
                 (if offs_l \<noteq> [] then (BLOCK, remaining)
                  else if offs_r \<noteq> [] then (remaining, BLOCK)
                  else (remaining div 2, remaining - remaining div 2))
           in if block_l \<le> BLOCK \<and> block_r \<le> BLOCK \<and> width = block_l + block_r
              then Inr (block_l, block_r) else Inl DebugAssert)
      else Inr (BLOCK, BLOCK))"

lemma block_sizes_far [simp]: "2 * BLOCK < width \<Longrightarrow> block_sizes width offs_l offs_r = Inr (BLOCK, BLOCK)"
  by (simp add: block_sizes_def)

text \<open>
  One iteration of the loop: trace a block where no offsets are left, exchange as many elements
  as both sides have, and move on behind a block whose offsets are used up.
\<close>

definition blocks_step ::
  "('k \<Rightarrow> 'k \<Rightarrow> bool) \<Rightarrow> 'k \<Rightarrow> 'k list \<Rightarrow> 'r list \<Rightarrow> nat \<Rightarrow> nat \<Rightarrow> nat list \<Rightarrow> nat list \<Rightarrow>
   ('k list \<times> 'r list \<times> nat \<times> nat \<times> nat \<times> nat \<times> nat list \<times> nat list) res" where
  "blocks_step is_less pivot v v2 l r offs_l offs_r =
     res_map
       (\<lambda>(block_l, block_r).
          let offs_l = (if offs_l = [] then trace_left is_less pivot v l block_l else offs_l);
              offs_r = (if offs_r = [] then trace_right is_less pivot v r block_r else offs_r);
              count = min (length offs_l) (length offs_r);
              v = cyclic_permutation l r (take count offs_l) (take count offs_r) v;
              v2 = cyclic_permutation l r (take count offs_l) (take count offs_r) v2;
              offs_l = drop count offs_l;
              offs_r = drop count offs_r;
              l = (if offs_l = [] then l + block_l else l);
              r = (if offs_r = [] then r - block_r else r)
          in (v, v2, l, r, block_l, block_r, offs_l, offs_r))
       (block_sizes (r - l) offs_l offs_r)"

lemma blocks_step_shrinks:
  assumes "blocks_step is_less pivot v v2 l r offs_l offs_r = Inr (v', v2', l', r', rest)"
    and "2 * BLOCK < r - l"
  shows "r' - l' < r - l"
  using assms by (auto simp: blocks_step_def Let_def min_def BLOCK_def)

function blocks_loop ::
  "('k \<Rightarrow> 'k \<Rightarrow> bool) \<Rightarrow> 'k \<Rightarrow> 'k list \<Rightarrow> 'r list \<Rightarrow> nat \<Rightarrow> nat \<Rightarrow> nat list \<Rightarrow> nat list \<Rightarrow>
   ('k list \<times> 'r list \<times> nat \<times> nat \<times> nat \<times> nat \<times> nat list \<times> nat list) res" where
  "blocks_loop is_less pivot v v2 l r offs_l offs_r =
     (if r - l \<le> 2 * BLOCK then blocks_step is_less pivot v v2 l r offs_l offs_r
      else
        res_bind (blocks_step is_less pivot v v2 l r offs_l offs_r)
          (\<lambda>(v, v2, l, r, block_l, block_r, offs_l, offs_r).
             blocks_loop is_less pivot v v2 l r offs_l offs_r))"
  by pat_completeness auto
termination
  by (relation "measure (\<lambda>(_, _, _, _, l, r, _, _). r - l)") (auto dest: blocks_step_shrinks)

declare blocks_loop.simps [simp del]

text \<open>The patch-up loops, which consume the remaining offsets from the end.\<close>

fun drain_left :: "nat \<Rightarrow> 'k list \<Rightarrow> 'r list \<Rightarrow> nat \<Rightarrow> nat list \<Rightarrow> 'k list \<times> 'r list \<times> nat" where
  "drain_left l v v2 r [] = (v, v2, r)"
| "drain_left l v v2 r (i # is) =
     drain_left l (swap_at v (l + i) (r - 1)) (swap_at v2 (l + i) (r - 1)) (r - 1) is"

fun drain_right :: "nat \<Rightarrow> 'k list \<Rightarrow> 'r list \<Rightarrow> nat \<Rightarrow> nat list \<Rightarrow> 'k list \<times> 'r list \<times> nat" where
  "drain_right r v v2 l [] = (v, v2, l)"
| "drain_right r v v2 l (i # is) =
     drain_right r (swap_at v l (r - (i + 1))) (swap_at v2 l (r - (i + 1))) (l + 1) is"

definition partition_in_blocks ::
  "('k \<Rightarrow> 'k \<Rightarrow> bool) \<Rightarrow> 'k list \<Rightarrow> 'r list \<Rightarrow> 'k \<Rightarrow> ('k list \<times> 'r list \<times> nat) res" where
  "partition_in_blocks is_less v v2 pivot =
     res_bind (blocks_loop is_less pivot v v2 0 (length v) [] [])
       (\<lambda>(v, v2, l, r, block_l, block_r, offs_l, offs_r).
          if offs_l \<noteq> [] then
            (if r - l \<noteq> block_l then Inl DebugAssert else Inr (drain_left l v v2 r (rev offs_l)))
          else if offs_r \<noteq> [] then
            (if r - l \<noteq> block_r then Inl DebugAssert else Inr (drain_right r v v2 l (rev offs_r)))
          else Inr (v, v2, l))"

section \<open>Partitioning around a pivot\<close>

function scan_up :: "('k \<Rightarrow> bool) \<Rightarrow> 'k list \<Rightarrow> nat \<Rightarrow> nat \<Rightarrow> nat" where
  "scan_up p v l r = (if l < r \<and> p (v ! l) then scan_up p v (l + 1) r else l)"
  by pat_completeness auto
termination
  by (relation "measure (\<lambda>(_, _, l, r). r - l)") auto

declare scan_up.simps [simp del]

function scan_down :: "('k \<Rightarrow> bool) \<Rightarrow> 'k list \<Rightarrow> nat \<Rightarrow> nat \<Rightarrow> nat" where
  "scan_down p v l r = (if l < r \<and> p (v ! (r - 1)) then scan_down p v l (r - 1) else r)"
  by pat_completeness auto
termination
  by (relation "measure (\<lambda>(_, _, l, r). r - l)") auto

declare scan_down.simps [simp del]

definition partition_pivot ::
  "('k \<Rightarrow> 'k \<Rightarrow> bool) \<Rightarrow> 'k list \<Rightarrow> 'r list \<Rightarrow> nat \<Rightarrow> ('k list \<times> 'r list \<times> nat \<times> bool) res" where
  "partition_pivot is_less v v2 pivot =
     (if \<not> pivot < length v then Inl IndexOutOfBounds
      else
        (let v = swap_at v 0 pivot;
             v2 = swap_at v2 0 pivot;
             tmp = v ! 0;
             w = drop 1 v;
             w2 = drop 1 v2;
             l = scan_up (\<lambda>x. is_less x tmp) w 0 (length w);
             r = scan_down (\<lambda>x. \<not> is_less x tmp) w l (length w)
         in res_bind
              (partition_in_blocks is_less (take (r - l) (drop l w)) (take (r - l) (drop l w2)) tmp)
              (\<lambda>(b, b2, n).
                 let v = take 1 v @ take l w @ b @ drop r w;
                     v2 = take 1 v2 @ take l w2 @ b2 @ drop r w2;
                     mid = l + n
                 in if \<not> mid < length v then Inl IndexOutOfBounds
                    else Inr (swap_at v 0 mid, swap_at v2 0 mid, mid, l \<ge> r))))"

lemma scan_up_bounds: "l \<le> r \<Longrightarrow> l \<le> scan_up p v l r \<and> scan_up p v l r \<le> r"
  by (induction p v l r rule: scan_up.induct) (subst (1 2) scan_up.simps, auto)

lemma scan_down_bounds: "l \<le> r \<Longrightarrow> l \<le> scan_down p v l r \<and> scan_down p v l r \<le> r"
  by (induction p v l r rule: scan_down.induct) (subst (1 2) scan_down.simps, force)

lemma scan_up_ge [simp]: "l \<le> scan_up p v l r"
  using scan_up_bounds [of l r p v] by (cases "l \<le> r") (auto simp: scan_up.simps)

lemma scan_down_le [simp]: "scan_down p v l r \<le> r"
  using scan_down_bounds [of l r p v] by (cases "l \<le> r") (auto simp: scan_down.simps)

function partition_equal_loop ::
  "('k \<Rightarrow> 'k \<Rightarrow> bool) \<Rightarrow> 'k \<Rightarrow> 'k list \<Rightarrow> 'r list \<Rightarrow> nat \<Rightarrow> nat \<Rightarrow> 'k list \<times> 'r list \<times> nat" where
  "partition_equal_loop is_less pivot v v2 l r =
     (let l' = scan_up (\<lambda>x. \<not> is_less pivot x) v l r;
          r' = scan_down (\<lambda>x. is_less pivot x) v l' r
      in if l' \<ge> r' then (v, v2, l')
         else partition_equal_loop is_less pivot (swap_at v l' (r' - 1)) (swap_at v2 l' (r' - 1))
                (l' + 1) (r' - 1))"
  by pat_completeness auto
termination
proof (relation "measure (\<lambda>(_, _, _, _, l, r). r - l)", simp)
  fix is_less :: "'k \<Rightarrow> 'k \<Rightarrow> bool" and pivot v l r l' r' and v2 :: "'r list"
  assume "l' = scan_up (\<lambda>x. \<not> is_less pivot x) v l r" "r' = scan_down (\<lambda>x. is_less pivot x) v l' r"
    "\<not> r' \<le> l'"
  then have "l \<le> l'" "r' \<le> r" "l' < r'" by auto
  then show "((is_less, pivot, swap_at v l' (r' - 1), swap_at v2 l' (r' - 1), l' + 1, r' - 1),
      is_less, pivot, v, v2, l, r) \<in> measure (\<lambda>(_, _, _, _, l, r). r - l)"
    by auto
qed

declare partition_equal_loop.simps [simp del]

definition partition_equal ::
  "('k \<Rightarrow> 'k \<Rightarrow> bool) \<Rightarrow> 'k list \<Rightarrow> 'r list \<Rightarrow> nat \<Rightarrow> ('k list \<times> 'r list \<times> nat) res" where
  "partition_equal is_less v v2 pivot =
     (if \<not> pivot < length v then Inl IndexOutOfBounds
      else
        (let v = swap_at v 0 pivot;
             v2 = swap_at v2 0 pivot;
             tmp = v ! 0
         in case partition_equal_loop is_less tmp (drop 1 v) (drop 1 v2) 0 (length v - 1) of
              (w, w2, l) \<Rightarrow> Inr (take 1 v @ w, take 1 v2 @ w2, l + 1)))"

section \<open>Breaking patterns\<close>

definition gen_u32 :: "u32 \<Rightarrow> u32" where
  "gen_u32 random =
     (let random = random XOR push_bit 13 random;
          random = random XOR drop_bit 17 random
      in random XOR push_bit 5 random)"

definition gen_usize :: "u32 \<Rightarrow> u64 \<times> u32" where
  "gen_usize random =
     (let high = gen_u32 random;
          low = gen_u32 high
      in (push_bit 32 (ucast high) OR ucast low, low))"

text \<open>The loop \<^verbatim>\<open>for i in 0..3\<close>; the last argument is the number of iterations left.\<close>

fun break_loop :: "nat \<Rightarrow> u32 \<Rightarrow> 'k list \<Rightarrow> 'r list \<Rightarrow> nat \<Rightarrow> nat \<Rightarrow> 'k list \<times> 'r list" where
  "break_loop len random v v2 i 0 = (v, v2)"
| "break_loop len random v v2 i (Suc n) =
     (let (w, random) = gen_usize random;
          pos = len div 4 * 2;
          modulus = next_power_of_two len;
          other = unat (w AND word_of_nat (modulus - 1));
          other = (if other \<ge> len then other - len else other)
      in break_loop len random (swap_at v (pos - 1 + i) other) (swap_at v2 (pos - 1 + i) other)
           (i + 1) n)"

definition break_patterns :: "'k list \<Rightarrow> 'r list \<Rightarrow> 'k list \<times> 'r list" where
  "break_patterns v v2 =
     (let len = length v
      in if len \<ge> 8 then break_loop len (word_of_nat len) v v2 0 3 else (v, v2))"

section \<open>Choosing a pivot\<close>

definition SHORTEST_MEDIAN_OF_MEDIANS :: nat where
  "SHORTEST_MEDIAN_OF_MEDIANS = 50"

definition MAX_SWAPS :: nat where
  "MAX_SWAPS = 4 * 3"

definition sort2 ::
  "('k \<Rightarrow> 'k \<Rightarrow> bool) \<Rightarrow> 'k list \<Rightarrow> nat \<times> nat \<times> nat \<Rightarrow> (nat \<times> nat \<times> nat) res" where
  "sort2 is_less v = (\<lambda>(a, b, swaps).
     if \<not> (a < length v \<and> b < length v) then Inl DebugAssert
     else if is_less (v ! b) (v ! a) then Inr (b, a, swaps + 1)
     else Inr (a, b, swaps))"

definition sort3 ::
  "('k \<Rightarrow> 'k \<Rightarrow> bool) \<Rightarrow> 'k list \<Rightarrow> nat \<times> nat \<times> nat \<times> nat \<Rightarrow> (nat \<times> nat \<times> nat \<times> nat) res" where
  "sort3 is_less v = (\<lambda>(a, b, c, swaps).
     res_bind (sort2 is_less v (a, b, swaps)) (\<lambda>(a, b, swaps).
     res_bind (sort2 is_less v (b, c, swaps)) (\<lambda>(b, c, swaps).
     res_bind (sort2 is_less v (a, b, swaps)) (\<lambda>(a, b, swaps).
     Inr (a, b, c, swaps)))))"

definition sort_adjacent ::
  "('k \<Rightarrow> 'k \<Rightarrow> bool) \<Rightarrow> 'k list \<Rightarrow> nat \<times> nat \<Rightarrow> (nat \<times> nat) res" where
  "sort_adjacent is_less v = (\<lambda>(a, swaps).
     res_map (\<lambda>(_, a, _, swaps). (a, swaps)) (sort3 is_less v (a - 1, a, a + 1, swaps)))"

definition choose_pivot_indices ::
  "('k \<Rightarrow> 'k \<Rightarrow> bool) \<Rightarrow> 'k list \<Rightarrow> (nat \<times> nat) res" where
  "choose_pivot_indices is_less v =
     (let len = length v; a = len div 4; b = len div 4 * 2; c = len div 4 * 3
      in if len \<ge> 8 then
           res_map (\<lambda>(_, b, _, swaps). (b, swaps))
             (res_bind
                (if len \<ge> SHORTEST_MEDIAN_OF_MEDIANS then
                   res_bind (sort_adjacent is_less v (a, 0)) (\<lambda>(a, swaps).
                   res_bind (sort_adjacent is_less v (b, swaps)) (\<lambda>(b, swaps).
                   res_bind (sort_adjacent is_less v (c, swaps)) (\<lambda>(c, swaps).
                   Inr (a, b, c, swaps))))
                 else Inr (a, b, c, 0))
                (sort3 is_less v))
         else Inr (b, 0))"

definition choose_pivot ::
  "('k \<Rightarrow> 'k \<Rightarrow> bool) \<Rightarrow> 'k list \<Rightarrow> 'r list \<Rightarrow> ('k list \<times> 'r list \<times> nat \<times> bool) res" where
  "choose_pivot is_less v v2 =
     res_map
       (\<lambda>(b, swaps).
          if swaps < MAX_SWAPS then (v, v2, b, swaps = 0)
          else (rev v, rev v2, length v - 1 - b, True))
       (choose_pivot_indices is_less v)"

end
