(* ===== verification/Quicksort_Small.thy ===== *)
theory Quicksort_Small
  imports Quicksort_Model
begin

text \<open>
  Insertion sort and heap sort of the paired quicksort: the loops with a hole are sequences of
  adjacent swaps, and both sorts return a sorted permutation of the keys with the payloads
  permuted along.
\<close>

section \<open>Permutations of paired slices\<close>

definition pperm :: "'k list \<times> 'r list \<Rightarrow> 'k list \<times> 'r list \<Rightarrow> bool" where
  "pperm s t \<longleftrightarrow> length (fst s) = length (snd s) \<and> length (fst t) = length (fst s) \<and>
     length (snd t) = length (snd s) \<and> mset (zip (fst t) (snd t)) = mset (zip (fst s) (snd s))"

lemma pperm_refl: "length v = length v2 \<Longrightarrow> pperm (v, v2) (v, v2)"
  by (simp add: pperm_def)

lemma pperm_trans [trans]: "pperm s t \<Longrightarrow> pperm t u \<Longrightarrow> pperm s u"
  by (simp add: pperm_def)

lemma pperm_length: "pperm (v, v2) (w, w2) \<Longrightarrow> length w = length v \<and> length w2 = length v2"
  by (simp add: pperm_def)

lemma pperm_mset: "pperm (v, v2) (w, w2) \<Longrightarrow> mset w = mset v"
proof -
  assume a: "pperm (v, v2) (w, w2)"
  then have "mset (map fst (zip w w2)) = mset (map fst (zip v v2))"
    by (simp add: pperm_def del: map_fst_zip map_fst_zip_eq)
  with a show ?thesis by (simp add: pperm_def)
qed

lemma pperm_set: "pperm (v, v2) (w, w2) \<Longrightarrow> set w = set v"
  using pperm_mset by (metis set_mset_mset)

lemma pperm_swap:
  "length v = length v2 \<Longrightarrow> i < length v \<Longrightarrow> j < length v \<Longrightarrow>
     pperm (v, v2) (swap_at v i j, swap_at v2 i j)"
  by (simp add: pperm_def swap_at_zip)

lemma pperm_append:
  assumes "pperm (a, a2) (b, b2)" and "pperm (c, c2) (d, d2)"
  shows "pperm (a @ c, a2 @ c2) (b @ d, b2 @ d2)"
  using assms by (simp add: pperm_def zip_append)

lemma pperm_take_drop:
  assumes "length v = length v2"
    and "pperm (take n v, take n v2) (a, a2)" and "pperm (drop n v, drop n v2) (b, b2)"
  shows "pperm (v, v2) (a @ b, a2 @ b2)"
  using pperm_append [OF assms(2,3)] by simp

lemma pperm_take:
  assumes "length v = length v2" and "pperm (take n v, take n v2) (a, a2)"
  shows "pperm (v, v2) (a @ drop n v, a2 @ drop n v2)"
  by (rule pperm_take_drop [OF assms]) (simp add: pperm_refl assms(1))

lemma pperm_rev: "length v = length v2 \<Longrightarrow> pperm (v, v2) (rev v, rev v2)"
  by (simp add: pperm_def zip_rev)

section \<open>Shifting an element into place\<close>

fun sink_left :: "'k::linorder list \<Rightarrow> 'r list \<Rightarrow> nat \<Rightarrow> 'k list \<times> 'r list" where
  "sink_left w w2 0 = (w, w2)"
| "sink_left w w2 (Suc i) =
     (if w ! Suc i < w ! i then sink_left (swap_at w i (Suc i)) (swap_at w2 i (Suc i)) i
      else (w, w2))"

lemma hole_swap_left:
  assumes "Suc i < length v"
  shows "v[Suc i := v ! i, i := tmp] = swap_at (v[Suc i := tmp]) i (Suc i)"
  using assms by (simp add: swap_at_def list_update_swap)

lemma shift_tail_loop_sink:
  assumes "i < length v" and "length v = length v2"
  shows "shift_tail_loop (<) tmp tmp2 v v2 i i = sink_left (v[i := tmp]) (v2[i := tmp2]) i"
  using assms
proof (induction i arbitrary: v v2)
  case (Suc i)
  then show ?case by (simp add: hole_swap_left [symmetric])
qed simp

lemma shift_tail_sink:
  assumes "length v = length v2"
  shows "shift_tail (<) v v2 = sink_left v v2 (length v - 1)"
proof (cases "length v \<ge> 2")
  case True
  then obtain n where n: "length v = Suc (Suc n)" by (metis add_2_eq_Suc le_Suc_ex)
  then show ?thesis
    using assms by (simp add: shift_tail_def shift_tail_loop_sink hole_swap_left)
next
  case False
  then have "length v - 1 = 0" by simp
  then show ?thesis using False unfolding shift_tail_def by simp
qed

lemma sink_left_pperm:
  "length w = length w2 \<Longrightarrow> i < length w \<Longrightarrow> sink_left w w2 i = (u, u2) \<Longrightarrow> pperm (w, w2) (u, u2)"
proof (induction i arbitrary: w w2)
  case 0
  then show ?case by (simp add: pperm_refl)
next
  case (Suc i)
  show ?case
  proof (cases "w ! Suc i < w ! i")
    case True
    have "pperm (w, w2) (swap_at w i (Suc i), swap_at w2 i (Suc i))"
      using Suc.prems by (simp add: pperm_swap)
    also have "pperm (swap_at w i (Suc i), swap_at w2 i (Suc i)) (u, u2)"
      using Suc.prems True by (intro Suc.IH) simp_all
    finally show ?thesis .
  qed (use Suc.prems in \<open>simp add: pperm_refl\<close>)
qed

lemma sink_left_sorted:
  assumes "i < length w" and "sink_left w w2 i = (u, u2)"
    and "\<And>a b. a < b \<Longrightarrow> b < length w \<Longrightarrow> a \<noteq> i \<Longrightarrow> b \<noteq> i \<Longrightarrow> w ! a \<le> w ! b"
    and "\<And>b. i < b \<Longrightarrow> b < length w \<Longrightarrow> w ! i \<le> w ! b"
  shows "sorted u"
  using assms
proof (induction i arbitrary: w w2)
  case 0
  then show ?case by (auto simp: sorted_iff_nth_mono_less)
next
  case (Suc i)
  show ?case
  proof (cases "w ! Suc i < w ! i")
    case True
    let ?w = "swap_at w i (Suc i)"
    have nth: "?w ! k = (if k = Suc i then w ! i else if k = i then w ! Suc i else w ! k)"
      if "k < length w" for k
      using that Suc.prems(1) by (simp add: nth_swap_at)
    show ?thesis
    proof (rule Suc.IH)
      show "i < length ?w" using Suc.prems(1) by simp
      show "sink_left ?w (swap_at w2 i (Suc i)) i = (u, u2)" using Suc.prems(2) True by simp
      show "?w ! a \<le> ?w ! b" if "a < b" "b < length ?w" "a \<noteq> i" "b \<noteq> i" for a b
        using that Suc.prems(1) Suc.prems(3) [of a b] Suc.prems(3) [of i b] Suc.prems(3) [of a i]
        by (auto simp: nth)
      show "?w ! i \<le> ?w ! b" if "i < b" "b < length ?w" for b
        using that Suc.prems(1) True Suc.prems(4) [of b] by (auto simp: nth)
    qed
  next
    case False
    have "w ! a \<le> w ! b" if "a < b" "b < length w" for a b
    proof (cases "b = Suc i")
      case True
      then show ?thesis
        using that Suc.prems(1) Suc.prems(3) [of a i] False by (cases "a = i") auto
    next
      case b: False
      then show ?thesis using that Suc.prems(3) [of a b] Suc.prems(4) [of b] by blast
    qed
    then show ?thesis using Suc.prems(2) False by (auto simp: sorted_iff_nth_mono_less)
  qed
qed

lemma shift_tail_correct:
  assumes "length v = length v2" and "shift_tail (<) v v2 = (w, w2)"
  shows "pperm (v, v2) (w, w2)" and "sorted (butlast v) \<Longrightarrow> sorted w"
proof -
  have eq: "sink_left v v2 (length v - 1) = (w, w2)"
    using assms by (simp add: shift_tail_sink)
  show "pperm (v, v2) (w, w2)"
  proof (cases "v = []")
    case True
    then show ?thesis using assms eq by (simp add: pperm_refl)
  next
    case False
    then show ?thesis using sink_left_pperm [OF assms(1) _ eq] by simp
  qed
  assume sorted: "sorted (butlast v)"
  show "sorted w"
  proof (cases "v = []")
    case True
    then show ?thesis using eq by simp
  next
    case False
    have "v ! a \<le> v ! b" if "a < b" "b < length v" "b \<noteq> length v - 1" for a b
    proof -
      have "b < length (butlast v)" using that by auto
      then show ?thesis
        using that sorted by (metis nth_butlast order.strict_trans sorted_nth_mono less_imp_le)
    qed
    then show ?thesis
      using False by (intro sink_left_sorted [OF _ eq]) auto
  qed
qed

function sink_right :: "'k::linorder list \<Rightarrow> 'r list \<Rightarrow> nat \<Rightarrow> 'k list \<times> 'r list" where
  "sink_right w w2 i =
     (if Suc i < length w \<and> w ! Suc i < w ! i
      then sink_right (swap_at w i (Suc i)) (swap_at w2 i (Suc i)) (Suc i)
      else (w, w2))"
  by pat_completeness auto
termination
  by (relation "measure (\<lambda>(w, _, i). length w - i)") auto

declare sink_right.simps [simp del]

lemma hole_swap_right:
  assumes "Suc i < length v"
  shows "v[i := v ! Suc i, Suc i := tmp] = swap_at (v[i := tmp]) i (Suc i)"
  using assms by (simp add: swap_at_def)

lemma shift_head_loop_sink:
  assumes "Suc i \<le> length v" and "length v = length v2"
  shows "shift_head_loop (<) tmp tmp2 v v2 i (Suc i) = sink_right (v[i := tmp]) (v2[i := tmp2]) i"
  using assms
proof (induction "length v - i" arbitrary: v v2 i rule: less_induct)
  case less
  show ?case
  proof (cases "Suc i < length v \<and> v ! Suc i < tmp")
    case True
    then have "shift_head_loop (<) tmp tmp2 v v2 i (Suc i) =
        shift_head_loop (<) tmp tmp2 (v[i := v ! Suc i]) (v2[i := v2 ! Suc i]) (Suc i) (Suc (Suc i))"
      by (subst shift_head_loop.simps) simp
    also have "\<dots> = sink_right (swap_at (v[i := tmp]) i (Suc i)) (swap_at (v2[i := tmp2]) i (Suc i)) (Suc i)"
      using True less.prems
      by (subst less.hyps) (auto simp: hole_swap_right)
    also have "\<dots> = sink_right (v[i := tmp]) (v2[i := tmp2]) i"
      using True by (subst sink_right.simps [of "v[i := tmp]"]) simp
    finally show ?thesis .
  next
    case False
    then show ?thesis
      using less.prems by (subst shift_head_loop.simps, subst sink_right.simps) auto
  qed
qed

lemma shift_head_sink:
  assumes "length v = length v2"
  shows "shift_head (<) v v2 = sink_right v v2 0"
proof (cases "length v \<ge> 2 \<and> v ! 1 < v ! 0")
  case True
  then show ?thesis
    using assms shift_head_loop_sink [of 1 "v[0 := v ! 1]" "v2[0 := v2 ! 1]" "v ! 0" "v2 ! 0"]
      hole_swap_right [of 0 v] hole_swap_right [of 0 v2]
    by (subst sink_right.simps) (simp add: shift_head_def numeral_2_eq_2)
next
  case False
  then show ?thesis by (subst sink_right.simps) (auto simp: shift_head_def)
qed

lemma sink_right_pperm:
  "length w = length w2 \<Longrightarrow> sink_right w w2 i = (u, u2) \<Longrightarrow> pperm (w, w2) (u, u2)"
proof (induction "length w - i" arbitrary: w w2 i rule: less_induct)
  case less
  show ?case
  proof (cases "Suc i < length w \<and> w ! Suc i < w ! i")
    case True
    have "pperm (w, w2) (swap_at w i (Suc i), swap_at w2 i (Suc i))"
      using less.prems True by (simp add: pperm_swap)
    also have "pperm (swap_at w i (Suc i), swap_at w2 i (Suc i)) (u, u2)"
      using less.prems True
      by (intro less.hyps [of _ "Suc i"]) (auto simp: sink_right.simps [of w])
    finally show ?thesis .
  next
    case False
    then have "sink_right w w2 i = (w, w2)" by (subst sink_right.simps) auto
    then show ?thesis using less.prems by (simp add: pperm_refl)
  qed
qed

lemma shift_head_pperm:
  fixes v :: "'k::linorder list"
  shows "length v = length v2 \<Longrightarrow> shift_head (<) v v2 = (w, w2) \<Longrightarrow> pperm (v, v2) (w, w2)"
  by (rule sink_right_pperm) (simp_all add: shift_head_sink)


section \<open>Insertion sort\<close>

lemma butlast_take_Suc: "i < length v \<Longrightarrow> butlast (take (Suc i) v) = take i v"
  by (simp add: butlast_take)

lemma insertion_loop_correct:
  fixes v :: "'k::linorder list"
  assumes "length v = length v2" and "sorted (take i v)" and "i \<le> length v"
    and "insertion_loop (<) (length v) v v2 i = (w, w2)"
  shows "pperm (v, v2) (w, w2) \<and> sorted w"
  using assms
proof (induction "length v - i" arbitrary: v v2 i rule: less_induct)
  case less
  show ?case
  proof (cases "i < length v")
    case True
    obtain a a2 where st: "shift_tail (<) (take (i + 1) v) (take (i + 1) v2) = (a, a2)" by fastforce
    have lens: "length (take (i + 1) v) = length (take (i + 1) v2)" using less.prems(1) by simp
    have p: "pperm (take (i + 1) v, take (i + 1) v2) (a, a2)" and s: "sorted a"
      using shift_tail_correct [OF lens st] less.prems(2) True by (simp_all add: butlast_take_Suc)
    let ?v = "a @ drop (i + 1) v" and ?v2 = "a2 @ drop (i + 1) v2"
    have vv: "pperm (v, v2) (?v, ?v2)" by (rule pperm_take [OF less.prems(1) p])
    have la: "length a = i + 1" using pperm_length [OF p] True by simp
    have eqn: "insertion_loop (<) (length ?v) ?v ?v2 (i + 1) = (w, w2)"
      using less.prems(4) True st pperm_length [OF vv] by (simp add: insertion_loop.simps [of _ _ v])
    have "pperm (?v, ?v2) (w, w2) \<and> sorted w"
    proof (rule less.hyps [OF _ _ _ _ eqn])
      show "length ?v - (i + 1) < length v - i" using True pperm_length [OF vv] by simp
      show "length ?v = length ?v2" using pperm_length [OF vv] less.prems(1) by simp
      show "sorted (take (i + 1) ?v)" using s la by simp
      show "i + 1 \<le> length ?v" using la by simp
    qed
    then show ?thesis using vv pperm_trans by blast
  next
    case False
    then have "insertion_loop (<) (length v) v v2 i = (v, v2)" by (subst insertion_loop.simps) simp
    then show ?thesis using less.prems False by (simp add: pperm_refl)
  qed
qed

lemma insertion_sort_correct:
  fixes v :: "'k::linorder list"
  assumes "length v = length v2" and "insertion_sort (<) v v2 = (w, w2)"
  shows "pperm (v, v2) (w, w2) \<and> sorted w"
proof (cases "v = []")
  case True
  then show ?thesis
    using assms by (simp add: insertion_sort_def insertion_loop.simps pperm_refl)
next
  case False
  then have "sorted (take 1 v)" "1 \<le> length v" by (cases v; simp)+
  from insertion_loop_correct [OF assms(1) this] show ?thesis
    using assms(2) by (simp add: insertion_sort_def)
qed

section \<open>Partial insertion sort\<close>

lemma next_unordered_correct:
  fixes v :: "'k::linorder list"
  assumes "sorted (take i v)" and "1 \<le> i" and "i \<le> length v"
  shows "i \<le> next_unordered (<) v i \<and> next_unordered (<) v i \<le> length v \<and>
    sorted (take (next_unordered (<) v i) v)"
  using assms
proof (induction "length v - i" arbitrary: i rule: less_induct)
  case less
  show ?case
  proof (cases "i < length v \<and> \<not> v ! i < v ! (i - 1)")
    case True
    have "x \<le> v ! i" if "x \<in> set (take i v)" for x
    proof -
      obtain j where "j < i" "j < length v" "x = v ! j"
        using \<open>x \<in> set (take i v)\<close> by (auto simp: in_set_conv_nth)
      moreover from this have "v ! j \<le> v ! (i - 1)"
        using sorted_nth_mono [OF less.prems(1), of j "i - 1"] less.prems(2) True by simp
      ultimately show ?thesis using True by auto
    qed
    then have "sorted (take (i + 1) v)"
      using True less.prems(1) by (simp add: take_Suc_conv_app_nth sorted_append)
    then have "i + 1 \<le> next_unordered (<) v (i + 1) \<and> next_unordered (<) v (i + 1) \<le> length v \<and>
        sorted (take (next_unordered (<) v (i + 1)) v)"
      using True by (intro less.hyps) auto
    then show ?thesis using True by (subst (1 2 3) next_unordered.simps) auto
  next
    case False
    then show ?thesis using less.prems by (subst (1 2 3) next_unordered.simps) auto
  qed
qed

lemma partial_insertion_loop_correct:
  fixes v :: "'k::linorder list"
  assumes "length v = length v2" and "sorted (take i v)" and "1 \<le> i" and "i \<le> length v"
    and "partial_insertion_loop (<) v v2 i n = (w, w2, fin)"
  shows "pperm (v, v2) (w, w2) \<and> (fin \<longrightarrow> sorted w)"
  using assms
proof (induction n arbitrary: v v2 i)
  case 0
  then show ?case by (simp add: pperm_refl)
next
  case (Suc n)
  define j where "j = next_unordered (<) v i"
  have j: "1 \<le> j" "j \<le> length v" "sorted (take j v)"
    using next_unordered_correct [OF Suc.prems(2-4)] Suc.prems(3) by (auto simp: j_def)
  show ?case
  proof (cases "j = length v \<or> length v < SHORTEST_SHIFTING")
    case True
    then have "w = v" "w2 = v2" "fin = (j = length v)"
      using Suc.prems(5) by (auto simp: j_def Let_def split: if_splits)
    then show ?thesis using Suc.prems(1) j by (auto simp: pperm_refl)
  next
    case False
    then have jl: "j < length v" using j by simp
    define u where "u = swap_at v (j - 1) j"
    define u2 where "u2 = swap_at v2 (j - 1) j"
    have pu: "pperm (v, v2) (u, u2)"
      unfolding u_def u2_def using Suc.prems(1) jl by (intro pperm_swap) auto
    have lu: "length u = length v" "length u2 = length v2" by (simp_all add: u_def u2_def)
    obtain a a2 where st: "shift_tail (<) (take j u) (take j u2) = (a, a2)" by fastforce
    obtain b b2 where sh: "shift_head (<) (drop j u) (drop j u2) = (b, b2)" by fastforce
    have "butlast (take j u) = take (j - 1) v"
      using jl j(1) by (simp add: butlast_take u_def)
    then have "sorted (butlast (take j u))"
      using j(3) sorted_wrt_take [of "(\<le>)" "take j v" "j - 1"] by simp
    then have a: "pperm (take j u, take j u2) (a, a2)" "sorted a"
      using shift_tail_correct [OF _ st] lu Suc.prems(1) by auto
    have b: "pperm (drop j u, drop j u2) (b, b2)"
      using shift_head_pperm [OF _ sh] lu Suc.prems(1) by simp
    have pab: "pperm (u, u2) (a @ b, a2 @ b2)"
      using pperm_take_drop [OF _ a(1) b] lu Suc.prems(1) by simp
    have la: "length a = j" using pperm_length [OF a(1)] lu jl by simp
    have lab: "length (a @ b) = length v" "length (a2 @ b2) = length v2"
      using pperm_length [OF pab] lu by simp_all
    have "partial_insertion_loop (<) (a @ b) (a2 @ b2) j n = (w, w2, fin)"
      using Suc.prems(5) False st sh by (simp add: j_def [symmetric] u_def u2_def Let_def)
    then have "pperm (a @ b, a2 @ b2) (w, w2) \<and> (fin \<longrightarrow> sorted w)"
      using lab Suc.prems(1) a(2) la j(1) jl by (intro Suc.IH) simp_all
    then show ?thesis using pu pab pperm_trans by blast
  qed
qed

lemma partial_insertion_sort_correct:
  fixes v :: "'k::linorder list"
  assumes "length v = length v2" and "v \<noteq> []" and "partial_insertion_sort (<) v v2 = (w, w2, fin)"
  shows "pperm (v, v2) (w, w2)" and "fin \<Longrightarrow> sorted w"
proof -
  have "sorted (take 1 v)" "1 \<le> length v" using assms(2) by (cases v; simp)+
  from partial_insertion_loop_correct [OF assms(1) this(1) le_refl this(2)
      assms(3) [unfolded partial_insertion_sort_def]]
  show "pperm (v, v2) (w, w2)" "fin \<Longrightarrow> sorted w" by blast+
qed

end
