(* ===== verification/Quicksort_Heap.thy ===== *)
theory Quicksort_Heap
  imports Quicksort_Small
begin

text \<open>
  Correctness of the heap sort that the quicksort falls back to: \<open>sift_down\<close> repairs a heap
  with one misplaced node, the build loop makes a heap, and the pop loop sorts it.
\<close>

section \<open>Heap sort\<close>

definition child_of :: "nat \<Rightarrow> nat \<Rightarrow> bool" where
  "child_of c i \<longleftrightarrow> c = 2 * i + 1 \<or> c = 2 * i + 2"

definition heap_from :: "nat \<Rightarrow> nat \<Rightarrow> 'k::linorder list \<Rightarrow> bool" where
  "heap_from lo n v \<longleftrightarrow> (\<forall>i c. lo \<le> i \<longrightarrow> child_of c i \<longrightarrow> c < n \<longrightarrow> v ! c \<le> v ! i)"

definition heap_hole :: "nat \<Rightarrow> nat \<Rightarrow> 'k::linorder list \<Rightarrow> nat \<Rightarrow> bool" where
  "heap_hole lo n v k \<longleftrightarrow>
     (\<forall>i c. lo \<le> i \<longrightarrow> i \<noteq> k \<longrightarrow> child_of c i \<longrightarrow> c < n \<longrightarrow> v ! c \<le> v ! i) \<and>
     (\<forall>i c. lo \<le> i \<longrightarrow> child_of k i \<longrightarrow> child_of c k \<longrightarrow> c < n \<longrightarrow> v ! c \<le> v ! i)"

lemma child_of_less: "child_of c i \<Longrightarrow> i < c"
  by (auto simp: child_of_def)

lemma child_of_unique: "child_of c i \<Longrightarrow> child_of c j \<Longrightarrow> i = j"
  by (auto simp: child_of_def)

lemma heap_hole_step:
  assumes hole: "heap_hole lo n v k" and lo: "lo \<le> k" and n: "n \<le> length v"
    and c: "child_of c k" "c < n" and max: "\<And>d. child_of d k \<Longrightarrow> d < n \<Longrightarrow> v ! d \<le> v ! c"
    and less: "v ! k < v ! c"
  shows "heap_hole lo n (swap_at v k c) c"
proof -
  have kc: "k < c" "c < length v" "k < length v" using child_of_less [OF c(1)] c(2) n by simp_all
  have nth: "swap_at v k c ! j = (if j = c then v ! k else if j = k then v ! c else v ! j)"
    if "j < n" for j
    using that kc n by (simp add: nth_swap_at)
  have h1: "v ! d \<le> v ! i" if "lo \<le> i" "i \<noteq> k" "child_of d i" "d < n" for i d
    using hole that by (auto simp: heap_hole_def)
  have h2: "v ! d \<le> v ! i" if "lo \<le> i" "child_of k i" "child_of d k" "d < n" for i d
    using hole that by (auto simp: heap_hole_def)
  have "swap_at v k c ! d \<le> swap_at v k c ! i"
    if i: "lo \<le> i" "i \<noteq> c" "child_of d i" "d < n" for i d
  proof -
    have id: "i < d" using child_of_less i(3) by blast
    have ni: "i < n" using id i(4) by simp
    consider "i = k" | "i \<noteq> k" "d = k" | "i \<noteq> k" "d \<noteq> k" by blast
    then show ?thesis
    proof cases
      case 1
      then show ?thesis using max [of d] i id ni less by (auto simp: nth)
    next
      case 2
      then show ?thesis using h2 [of i c] i c kc ni by (auto simp: nth)
    next
      case 3
      then have "d \<noteq> c" using child_of_unique c(1) i(3) by blast
      then show ?thesis using 3 h1 [of i d] i ni by (auto simp: nth)
    qed
  qed
  moreover have "swap_at v k c ! d \<le> swap_at v k c ! i"
    if i: "lo \<le> i" "child_of c i" "child_of d c" "d < n" for i d
  proof -
    have "i = k" using child_of_unique c(1) i(2) by blast
    moreover have "c < d" using child_of_less i(3) by blast
    moreover have "v ! d \<le> v ! c" using h1 [of c d] i lo kc by simp
    ultimately show ?thesis using kc c(2) i(4) by (simp add: nth)
  qed
  ultimately show ?thesis by (simp add: heap_hole_def)
qed

lemma sift_down_correct:
  fixes v :: "'k::linorder list"
  assumes "length v = length v2" and "n \<le> length v" and "lo \<le> k" and "heap_hole lo n v k"
    and "sift_down (<) n v v2 k = (w, w2)"
  shows "pperm (v, v2) (w, w2) \<and> heap_from lo n w \<and> drop n w = drop n v"
  using assms
proof (induction "n - k" arbitrary: v v2 k rule: less_induct)
  case less
  let ?c = "2 * k + 1"
  define c where "c = (if ?c + 1 < n \<and> v ! ?c < v ! (?c + 1) then ?c + 1 else ?c)"
  have stop: "heap_from lo n v" if "\<And>d. child_of d k \<Longrightarrow> d < n \<Longrightarrow> v ! d \<le> v ! k"
    using less.prems(4) that unfolding heap_hole_def heap_from_def by blast
  show ?case
  proof (cases "?c < n")
    case False
    then have "w = v" "w2 = v2" using less.prems(5) by (simp_all add: sift_down.simps [of _ n v])
    moreover have "heap_from lo n v" by (rule stop) (use False in \<open>auto simp: child_of_def\<close>)
    ultimately show ?thesis using less.prems(1) by (simp add: pperm_refl)
  next
    case True
    have c: "child_of c k" "c < n" using True by (auto simp: c_def child_of_def)
    have max: "v ! d \<le> v ! c" if "child_of d k" "d < n" for d
      using that by (auto simp: c_def child_of_def)
    have step: "sift_down (<) n v v2 k =
        (if v ! k < v ! c then sift_down (<) n (swap_at v k c) (swap_at v2 k c) c else (v, v2))"
      using True by (subst sift_down.simps) (simp add: c_def Let_def)
    show ?thesis
    proof (cases "v ! k < v ! c")
      case False
      have "heap_from lo n v" by (rule stop) (use False max in force)
      moreover have "w = v" "w2 = v2" using less.prems(5) False step by simp_all
      ultimately show ?thesis using less.prems(1) by (simp add: pperm_refl)
    next
      case True
      have kc: "k < c" by (rule child_of_less [OF c(1)])
      let ?u = "swap_at v k c" and ?u2 = "swap_at v2 k c"
      have "pperm (?u, ?u2) (w, w2) \<and> heap_from lo n w \<and> drop n w = drop n ?u"
      proof (rule less.hyps [of c])
        show "n - c < n - k" using c(2) kc by simp
        show "heap_hole lo n ?u c"
          by (rule heap_hole_step [OF less.prems(4,3,2) c max True])
      qed (use less.prems True step kc in simp_all)
      moreover have "pperm (v, v2) (?u, ?u2)"
        using less.prems(1,2) c kc by (intro pperm_swap) simp_all
      moreover have "drop n ?u = drop n v" using c kc by simp
      ultimately show ?thesis using pperm_trans by metis
    qed
  qed
qed

lemma heap_root_max:
  assumes "heap_from 0 n v" and "i < n"
  shows "v ! i \<le> v ! 0"
  using assms(2)
proof (induction i rule: less_induct)
  case (less i)
  show ?case
  proof (cases "i = 0")
    case False
    let ?p = "(i - 1) div 2"
    have "child_of i ?p" using False by (auto simp: child_of_def)
    then have "v ! i \<le> v ! ?p" using assms(1) less.prems by (simp add: heap_from_def)
    also have "\<dots> \<le> v ! 0" using less.IH [of ?p] less.prems False by force
    finally show ?thesis .
  qed simp
qed

lemma heap_build_correct:
  fixes v :: "'k::linorder list"
  assumes "length v = length v2" and "heap_from i (length v) v" and "heap_build (<) v v2 i = (w, w2)"
  shows "pperm (v, v2) (w, w2) \<and> heap_from 0 (length w) w"
  using assms
proof (induction i arbitrary: v v2)
  case 0
  then show ?case by (simp add: pperm_refl)
next
  case (Suc i)
  obtain u u2 where sd: "sift_down (<) (length v) v v2 i = (u, u2)" by fastforce
  have "heap_hole i (length v) v i"
    using Suc.prems(2) child_of_less unfolding heap_hole_def heap_from_def
    by (metis Suc_leI le_neq_implies_less leD)
  then have u: "pperm (v, v2) (u, u2)" "heap_from i (length v) u"
    using sift_down_correct [OF Suc.prems(1) le_refl le_refl _ sd] by simp_all
  have "pperm (u, u2) (w, w2) \<and> heap_from 0 (length w) w"
    using Suc.prems(1,3) sd u pperm_length [OF u(1)] by (intro Suc.IH) simp_all
  then show ?case using u(1) pperm_trans by blast
qed

lemma mset_take_same_drop: "mset w = mset v \<Longrightarrow> drop n w = drop n v \<Longrightarrow> mset (take n w) = mset (take n v)"
  by (metis add_right_cancel append_take_drop_id mset_append)

lemma heap_pop_correct:
  fixes v :: "'k::linorder list"
  assumes "length v = length v2" and "i < length v" and "heap_from 0 (Suc i) v"
    and "sorted (drop (Suc i) v)"
    and "\<And>x y. x \<in> set (take (Suc i) v) \<Longrightarrow> y \<in> set (drop (Suc i) v) \<Longrightarrow> x \<le> y"
    and "heap_pop (<) v v2 i = (w, w2)"
  shows "pperm (v, v2) (w, w2) \<and> sorted w"
  using assms
proof (induction i arbitrary: v v2)
  case 0
  then obtain x xs where v: "v = x # xs" by (cases v) auto
  then have "sorted v" using "0.prems"(4,5) by auto
  then show ?case using "0.prems"(1,6) by (simp add: pperm_refl)
next
  case (Suc i)
  define u where "u = swap_at v 0 (Suc i)"
  define u2 where "u2 = swap_at v2 0 (Suc i)"
  obtain x x2 where sd: "sift_down (<) (Suc i) u u2 0 = (x, x2)" by fastforce
  have lu: "length u = length v" "length u2 = length v2" by (simp_all add: u_def u2_def)
  have pu: "pperm (v, v2) (u, u2)"
    unfolding u_def u2_def using Suc.prems(1,2) by (intro pperm_swap) auto
  have nth: "u ! j = v ! j" if "0 < j" "j < Suc i" for j
    using that Suc.prems(2) by (simp add: u_def swap_at_def)
  have "heap_hole 0 (Suc i) u 0"
  proof -
    have "u ! c \<le> u ! j" if "j \<noteq> 0" "child_of c j" "c < Suc i" for j c
      using that Suc.prems(3) child_of_less [OF that(2)] nth [of c] nth [of j]
      by (simp add: heap_from_def)
    then show ?thesis using child_of_less unfolding heap_hole_def by blast
  qed
  then have x: "pperm (u, u2) (x, x2)" "heap_from 0 (Suc i) x" "drop (Suc i) x = drop (Suc i) u"
    using sift_down_correct [OF _ _ le_refl _ sd] Suc.prems(1,2) lu by simp_all
  have "u ! Suc i = v ! 0" "Suc i < length u"
    using Suc.prems(2) by (simp_all add: u_def swap_at_def)
  then have dropx: "drop (Suc i) x = v ! 0 # drop (Suc (Suc i)) v"
    using x(3) Cons_nth_drop_Suc [of "Suc i" u] by (simp add: u_def)
  have mx: "mset (take (Suc i) x) = mset (take (Suc i) u)"
    using x(3) pperm_mset [OF x(1)] by (intro mset_take_same_drop) simp_all
  have set_take: "set (take (Suc i) x) \<subseteq> set (take (Suc (Suc i)) v)"
  proof -
    have "mset (take (Suc (Suc i)) u) = mset (take (Suc (Suc i)) v)"
      using pperm_mset [OF pu] by (intro mset_take_same_drop) (simp_all add: u_def)
    then have "set (take (Suc (Suc i)) u) = set (take (Suc (Suc i)) v)" by (metis set_mset_mset)
    moreover have "set (take (Suc i) x) = set (take (Suc i) u)" using mx by (metis set_mset_mset)
    ultimately show ?thesis using set_take_subset_set_take [of "Suc i" "Suc (Suc i)" u] by simp
  qed
  have root: "y \<le> v ! 0" if "y \<in> set (take (Suc (Suc i)) v)" for y
    using that heap_root_max [OF Suc.prems(3)] by (auto simp: in_set_conv_nth)
  have v0: "v ! 0 \<in> set (take (Suc (Suc i)) v)" using Suc.prems(2) by (cases v) auto
  have lx: "length x = length v" "length x2 = length v2" using pperm_length [OF x(1)] lu by simp_all
  have "pperm (x, x2) (w, w2) \<and> sorted w"
  proof (rule Suc.IH)
    show "sorted (drop (Suc i) x)"
      using Suc.prems(4) Suc.prems(5) [OF v0] by (simp add: dropx)
    show "y \<le> z" if "y \<in> set (take (Suc i) x)" "z \<in> set (drop (Suc i) x)" for y z
      using that set_take root Suc.prems(5) by (auto simp: dropx)
    show "heap_pop (<) x x2 i = (w, w2)" using Suc.prems(6) sd by (simp add: u_def u2_def)
  qed (use Suc.prems(1,2) lx x in simp_all)
  then show ?case using pu x(1) pperm_trans by blast
qed

lemma heapsort_correct:
  fixes v :: "'k::linorder list"
  assumes "length v = length v2" and "v \<noteq> []" and "heapsort (<) v v2 = (w, w2)"
  shows "pperm (v, v2) (w, w2) \<and> sorted w"
proof -
  obtain u u2 where b: "heap_build (<) v v2 (length v div 2) = (u, u2)" by fastforce
  have "heap_from (length v div 2) (length v) v"
    by (auto simp: heap_from_def child_of_def)
  then have u: "pperm (v, v2) (u, u2)" "heap_from 0 (length u) u"
    using heap_build_correct [OF assms(1) _ b] by simp_all
  have lu: "length u = length v" "length u2 = length v2" using pperm_length [OF u(1)] by simp_all
  obtain m where m: "length u = Suc m" using assms(2) lu by (cases u) auto
  have "heap_pop (<) u u2 m = (w, w2)" using assms(3) b m by (simp add: heapsort_def)
  then have "pperm (u, u2) (w, w2) \<and> sorted w"
    using assms(1) u(2) lu m by (intro heap_pop_correct [of _ _ m]) simp_all
  then show ?thesis using u(1) pperm_trans by blast
qed

end
