(* ===== verification/Quicksort_Blocks.thy ===== *)
theory Quicksort_Blocks
  imports Quicksort_Small
begin

text \<open>
  Correctness of \<^verbatim>\<open>partition_in_blocks\<close>: no assertion fails, no subtraction underflows, and the
  result splits the slice into elements below the pivot and the rest.
\<close>

section \<open>The cyclic permutation\<close>

definition apart :: "nat \<Rightarrow> nat \<Rightarrow> nat list \<Rightarrow> nat list \<Rightarrow> bool" where
  "apart l r as bs \<longleftrightarrow> distinct as \<and> distinct bs \<and> (\<forall>b \<in> set bs. l + b + 1 \<le> r) \<and>
     (\<forall>a \<in> set as. \<forall>b \<in> set bs. l + a + b + 1 < r)"

lemma length_cyclic_loop [simp]: "length (cyclic_loop l r tmp s as bs v) = length v"
  by (induction l r tmp s as bs v rule: cyclic_loop.induct) (simp_all add: Let_def)

lemma length_cyclic_permutation [simp]: "length (cyclic_permutation l r as bs v) = length v"
  by (simp add: cyclic_permutation_def Let_def split: list.splits)

lemma apart_step: "apart l r (a # as) (s # b # bs) \<Longrightarrow> apart l r as (b # bs)"
  by (auto simp: apart_def)

lemma apart_right: "apart l r (a # as) bs \<Longrightarrow> b \<in> set bs \<Longrightarrow> c \<in> set bs \<Longrightarrow> r - Suc b = r - Suc c \<Longrightarrow> b = c"
  by (auto simp: apart_def)

lemma apart_left_right: "apart l r as bs \<Longrightarrow> a \<in> set as \<Longrightarrow> b \<in> set bs \<Longrightarrow> l + a < r - Suc b"
  by (force simp: apart_def)

lemma apart_neq:
  assumes "apart l r (a # as) (s # b # bs)"
  shows "r - Suc s \<noteq> l + a" "l + a \<noteq> r - Suc b" "r - Suc s \<noteq> r - Suc b" "0 < r" "l + a < r"
    and "c \<in> set bs \<Longrightarrow> r - Suc c \<noteq> r - Suc s" "c \<in> set bs \<Longrightarrow> r - Suc c \<noteq> r - Suc b"
    and "c \<in> set bs \<Longrightarrow> r - Suc c \<noteq> l + a"
    and "d \<in> set as \<Longrightarrow> l + d \<noteq> r - Suc s" "d \<in> set as \<Longrightarrow> l + d \<noteq> r - Suc b"
    and "d \<in> set as \<Longrightarrow> d \<noteq> a"
proof -
  note lr = apart_left_right [OF assms, of a] apart_left_right [OF assms, of d]
  have dist: "s \<noteq> b" "s \<notin> set bs" "b \<notin> set bs" "a \<notin> set as" using assms by (auto simp: apart_def)
  show "r - Suc s \<noteq> l + a" "l + a \<noteq> r - Suc b" "0 < r" "l + a < r"
    using lr(1) [of s] lr(1) [of b] by simp_all
  show "r - Suc s \<noteq> r - Suc b" using apart_right [OF assms, of s b] dist by auto
  show "c \<in> set bs \<Longrightarrow> r - Suc c \<noteq> r - Suc s" using apart_right [OF assms, of c s] dist by auto
  show "c \<in> set bs \<Longrightarrow> r - Suc c \<noteq> r - Suc b" using apart_right [OF assms, of c b] dist by auto
  show "c \<in> set bs \<Longrightarrow> r - Suc c \<noteq> l + a" using lr(1) [of c] by auto
  show "d \<in> set as \<Longrightarrow> l + d \<noteq> r - Suc s" "d \<in> set as \<Longrightarrow> l + d \<noteq> r - Suc b"
    using lr(2) [of s] lr(2) [of b] by auto
  show "d \<in> set as \<Longrightarrow> d \<noteq> a" using dist by auto
qed

lemma cyclic_loop_Cons:
  "apart l r (a # as) (s # b # bs) \<Longrightarrow> cyclic_loop l r tmp s (a # as) (b # bs) v =
     cyclic_loop l r tmp b as bs (v[r - Suc s := v ! (l + a), l + a := v ! (r - Suc b)])"
  using apart_neq(3) by (simp add: Let_def)

lemma cyclic_loop_zip:
  assumes "length as = length bs" and "length v = length v2" and "r \<le> length v"
    and "apart l r as (s # bs)"
  shows "zip (cyclic_loop l r tmp s as bs v) (cyclic_loop l r tmp2 s as bs v2) =
    cyclic_loop l r (tmp, tmp2) s as bs (zip v v2)"
  using assms
proof (induction as bs arbitrary: s v v2 rule: list_induct2)
  case (Cons a as b bs)
  have "l + a < length v" "r - Suc b < length v" using apart_neq [OF Cons.prems(3)] Cons.prems(2) by auto
  then show ?case
    using Cons.prems apart_step [OF Cons.prems(3)]
    by (simp add: cyclic_loop_Cons Cons.IH update_zip del: cyclic_loop.simps)
qed (simp add: update_zip)

lemma cyclic_loop_mset:
  assumes "length as = length bs" and "r \<le> length v" and "apart l r as (s # bs)" and "0 < r"
  shows "mset (cyclic_loop l r tmp s as bs v) = mset (v[r - Suc s := tmp])"
  using assms
proof (induction as bs arbitrary: s v rule: list_induct2)
  case (Cons a as b bs)
  let ?p = "r - Suc s" and ?q = "l + a" and ?t = "r - Suc b"
  let ?w = "v[?p := tmp]"
  note ne = apart_neq [OF Cons.prems(2)]
  have lt: "?p < length v" "?q < length v" "?t < length v" using ne Cons.prems(1) by auto
  have "v[?p := v ! ?q, ?q := v ! ?t, ?t := tmp] = swap_at (swap_at ?w ?p ?q) ?q ?t"
    by (rule nth_equalityI) (use ne(1-3) lt in \<open>auto simp: nth_list_update nth_swap_at\<close>)
  then have "mset (v[?p := v ! ?q, ?q := v ! ?t, ?t := tmp]) = mset ?w"
    using lt by simp
  then show ?case
    using Cons.prems apart_step [OF Cons.prems(2)]
    by (simp add: cyclic_loop_Cons Cons.IH del: cyclic_loop.simps)
qed simp

lemma cyclic_loop_nth:
  assumes "length as = length bs" and "r \<le> length v" and "0 < r" and "apart l r as (s # bs)" and "\<not> P tmp"
    and "\<forall>a \<in> set as. \<not> P (v ! (l + a))" and "\<forall>b \<in> set bs. P (v ! (r - Suc b))"
  shows "(\<forall>i. i \<noteq> r - Suc s \<longrightarrow> i \<notin> (+) l ` set as \<longrightarrow> i \<notin> (\<lambda>b. r - Suc b) ` set bs \<longrightarrow>
      cyclic_loop l r tmp s as bs v ! i = v ! i) \<and>
    (\<forall>a \<in> set as. P (cyclic_loop l r tmp s as bs v ! (l + a))) \<and>
    (\<forall>b \<in> set (s # bs). \<not> P (cyclic_loop l r tmp s as bs v ! (r - Suc b)))"
  using assms
proof (induction as bs arbitrary: s v rule: list_induct2)
  case (Cons a as b bs)
  let ?p = "r - Suc s" and ?q = "l + a" and ?t = "r - Suc b"
  note ne = apart_neq [OF Cons.prems(3)]
  have lt: "?p < length v" "?q < length v" "?t < length v" using ne(4,5) Cons.prems(1) by auto
  define u where "u = v[?p := v ! ?q, ?q := v ! ?t]"
  have step: "cyclic_loop l r tmp s (a # as) (b # bs) v = cyclic_loop l r tmp b as bs u"
    by (simp only: u_def cyclic_loop_Cons [OF Cons.prems(3)])
  have uo: "u ! i = v ! i" if "i \<noteq> ?q" "i \<noteq> ?p" for i using that by (simp add: u_def)
  have upq: "u ! ?q = v ! ?t" "u ! ?p = v ! ?q" using ne lt by (simp_all add: u_def)
  have pre: "\<forall>a \<in> set as. \<not> P (u ! (l + a))" "\<forall>b \<in> set bs. P (u ! (r - Suc b))"
    using Cons.prems(5,6) ne by (simp_all add: uo)
  have IH: "(\<forall>i. i \<noteq> ?t \<longrightarrow> i \<notin> (+) l ` set as \<longrightarrow> i \<notin> (\<lambda>b. r - Suc b) ` set bs \<longrightarrow>
      cyclic_loop l r tmp b as bs u ! i = u ! i) \<and>
    (\<forall>a \<in> set as. P (cyclic_loop l r tmp b as bs u ! (l + a))) \<and>
    (\<forall>c \<in> set (b # bs). \<not> P (cyclic_loop l r tmp b as bs u ! (r - Suc c)))"
    by (rule Cons.IH) (use Cons.prems(1,2,4) apart_step [OF Cons.prems(3)] pre in \<open>simp_all add: u_def\<close>)
  have mem: "?q \<notin> (+) l ` set as" "?q \<notin> (\<lambda>b. r - Suc b) ` set bs"
    "?p \<notin> (+) l ` set as" "?p \<notin> (\<lambda>b. r - Suc b) ` set bs"
    using ne(6,8,9,11) by (metis imageE add_left_cancel)+
  have "cyclic_loop l r tmp b as bs u ! ?q = u ! ?q" "cyclic_loop l r tmp b as bs u ! ?p = u ! ?p"
    using IH mem ne(1-3) by metis+
  then show ?case
    unfolding step using IH Cons.prems(5,6) by (auto simp: upq uo)
qed simp

lemma cyclic_permutation_pperm:
  assumes "length as = length bs" and "length v = length v2" and "r \<le> length v" and "apart l r as bs"
  shows "pperm (v, v2) (cyclic_permutation l r as bs v, cyclic_permutation l r as bs v2)"
proof (cases as)
  case Nil
  then show ?thesis using assms by (simp add: cyclic_permutation_def pperm_refl)
next
  case (Cons a as')
  then obtain b bs' where eq: "as = a # as'" "bs = b # bs'" using assms(1) by (cases bs) auto
  let ?q = "l + a" and ?t = "r - Suc b"
  have qt: "?q < ?t" using apart_left_right [OF assms(4)] eq by simp
  then have lt: "?q < length v" "?t < length v" "?q \<noteq> ?t" "0 < r" using assms(3) by auto
  have ap: "apart l r as' (b # bs')" using assms(4) eq by (auto simp: apart_def)
  have "zip (cyclic_permutation l r as bs v) (cyclic_permutation l r as bs v2) =
      cyclic_loop l r (zip v v2 ! ?q) b as' bs' ((zip v v2)[?q := zip v v2 ! ?t])"
    using assms lt ap by (simp add: eq cyclic_permutation_def cyclic_loop_zip update_zip)
  also have "mset \<dots> = mset (swap_at (zip v v2) ?q ?t)"
    using assms lt ap eq by (simp add: cyclic_loop_mset swap_at_def)
  also have "\<dots> = mset (zip v v2)" using assms lt by simp
  finally show ?thesis using assms(2) by (simp add: pperm_def)
qed

lemma cyclic_permutation_nth:
  assumes "r \<le> length v" and "apart l r as bs" and "length as = length bs"
    and "\<forall>a \<in> set as. \<not> P (v ! (l + a))" and "\<forall>b \<in> set bs. P (v ! (r - Suc b))"
  shows "(\<forall>i. i \<notin> (+) l ` set as \<longrightarrow> i \<notin> (\<lambda>b. r - Suc b) ` set bs \<longrightarrow>
      cyclic_permutation l r as bs v ! i = v ! i) \<and>
    (\<forall>a \<in> set as. P (cyclic_permutation l r as bs v ! (l + a))) \<and>
    (\<forall>b \<in> set bs. \<not> P (cyclic_permutation l r as bs v ! (r - Suc b)))"
proof (cases as)
  case Nil
  then show ?thesis using assms(3) by (simp add: cyclic_permutation_def)
next
  case (Cons a as')
  then obtain b bs' where eq: "as = a # as'" "bs = b # bs'" using assms(3) by (cases bs) auto
  let ?q = "l + a" and ?t = "r - Suc b"
  define u where "u = v[?q := v ! ?t]"
  have qt: "?q < ?t" using apart_left_right [OF assms(2)] eq by simp
  then have lt: "?q < length v" "?t < length v" "?q \<noteq> ?t" "0 < r" using assms(1) by auto
  have ap: "apart l r as' (b # bs')" and na: "a \<notin> set as'" using assms(2) eq by (auto simp: apart_def)
  have lr: "r - Suc c \<noteq> ?q" if "c \<in> set bs" for c
    using apart_left_right [OF assms(2), of a c] that eq by auto
  have rl: "l + c \<noteq> ?t" if "c \<in> set as'" for c
    using apart_left_right [OF ap that, of b] by auto
  have uo: "u ! i = v ! i" if "i \<noteq> ?q" for i using that by (simp add: u_def)
  have ul: "u ! (l + c) = v ! (l + c)" if "c \<in> set as'" for c
    using that na by (intro uo) auto
  have perm: "cyclic_permutation l r as bs v = cyclic_loop l r (v ! ?q) b as' bs' u"
    by (simp add: eq cyclic_permutation_def u_def)
  have "\<forall>a \<in> set as'. \<not> P (u ! (l + a))" "\<forall>b \<in> set bs'. P (u ! (r - Suc b))"
    using assms(4,5) lr by (simp_all add: ul uo eq)
  then have loop: "(\<forall>i. i \<noteq> ?t \<longrightarrow> i \<notin> (+) l ` set as' \<longrightarrow> i \<notin> (\<lambda>b. r - Suc b) ` set bs' \<longrightarrow>
      cyclic_loop l r (v ! ?q) b as' bs' u ! i = u ! i) \<and>
    (\<forall>a \<in> set as'. P (cyclic_loop l r (v ! ?q) b as' bs' u ! (l + a))) \<and>
    (\<forall>c \<in> set (b # bs'). \<not> P (cyclic_loop l r (v ! ?q) b as' bs' u ! (r - Suc c)))"
    using assms(1,3,4) ap lt by (intro cyclic_loop_nth) (simp_all add: u_def eq)
  have "?q \<notin> (+) l ` set as'" "?q \<notin> (\<lambda>b. r - Suc b) ` set bs'"
    using na lr eq by (auto, metis)
  then have "cyclic_loop l r (v ! ?q) b as' bs' u ! ?q = v ! ?t"
    using loop lt by (simp add: u_def)
  then show ?thesis
    unfolding perm using loop assms(5) by (auto simp: eq uo)
qed

end
