(* ===== verification/Quicksort_Partition.thy ===== *)
theory Quicksort_Partition
  imports Quicksort_Blocks
begin

text \<open>
  The loop of \<^verbatim>\<open>partition_in_blocks\<close> over pairs of blocks: its invariant, the sizes of the last
  blocks, the loops that move the elements left over in one block, and the resulting theorem.
\<close>

section \<open>Offsets of misplaced elements\<close>

definition out_left :: "('k \<Rightarrow> bool) \<Rightarrow> 'k list \<Rightarrow> nat \<Rightarrow> nat \<Rightarrow> nat list" where
  "out_left P v l n = filter (\<lambda>i. \<not> P (v ! (l + i))) [0..<n]"

definition out_right :: "('k \<Rightarrow> bool) \<Rightarrow> 'k list \<Rightarrow> nat \<Rightarrow> nat \<Rightarrow> nat list" where
  "out_right P v r n = filter (\<lambda>i. P (v ! (r - Suc i))) [0..<n]"

lemma trace_left_out:
  "n \<le> BLOCK \<Longrightarrow> trace_left is_less pivot v l n = out_left (\<lambda>x. is_less x pivot) v l n"
  unfolding trace_left_def out_left_def by (rule map_idI) (auto simp: BLOCK_def)

lemma trace_right_out:
  "n \<le> BLOCK \<Longrightarrow> trace_right is_less pivot v r n = out_right (\<lambda>x. is_less x pivot) v r n"
  unfolding trace_right_def out_right_def Suc_eq_plus1 by (rule map_idI) (auto simp: BLOCK_def)

lemma filter_notin_take: "distinct xs \<Longrightarrow> filter (\<lambda>x. x \<notin> set (take n xs)) xs = drop n xs"
proof -
  assume "distinct xs"
  then have "filter (\<lambda>x. x \<notin> set (take n xs)) (take n xs @ drop n xs) = drop n xs"
    using set_take_disj_set_drop_if_distinct [of xs n n]
    by (subst filter_append) (auto simp: filter_id_conv filter_empty_conv)
  then show ?thesis by simp
qed

lemma exchange:
  fixes v :: "'k list"
  assumes "r \<le> length v" and "l + bl + br \<le> r"
    and ol: "ol = out_left P v l bl" and orr: "orr = out_right P v r br"
    and c: "c = min (length ol) (length orr)"
    and w: "w = cyclic_permutation l r (take c ol) (take c orr) v"
  shows "apart l r (take c ol) (take c orr)" and "drop c ol = out_left P w l bl"
    and "drop c orr = out_right P w r br" and "i < l \<or> r \<le> i \<Longrightarrow> w ! i = v ! i"
proof -
  let ?as = "take c ol" and ?bs = "take c orr"
  have as: "set ?as \<subseteq> set ol" "set ol \<subseteq> {..<bl}" "distinct ol"
    and bs: "set ?bs \<subseteq> set orr" "set orr \<subseteq> {..<br}" "distinct orr"
    by (auto simp: ol orr out_left_def out_right_def dest: in_set_takeD)
  have lt: "a < bl" if "a \<in> set ?as" for a using that as by blast
  have ltb: "b < br" if "b \<in> set ?bs" for b using that bs by blast
  show ap: "apart l r ?as ?bs"
    using as(3) bs(3) assms(2) lt ltb unfolding apart_def by (fastforce simp: distinct_take)
  have "length ?as = length ?bs" by (simp add: c)
  moreover have "\<forall>a \<in> set ?as. \<not> P (v ! (l + a))" "\<forall>b \<in> set ?bs. P (v ! (r - Suc b))"
    using as(1) bs(1) by (auto simp: ol orr out_left_def out_right_def)
  ultimately have nth: "(\<forall>i. i \<notin> (+) l ` set ?as \<longrightarrow> i \<notin> (\<lambda>b. r - Suc b) ` set ?bs \<longrightarrow> w ! i = v ! i) \<and>
    (\<forall>a \<in> set ?as. P (w ! (l + a))) \<and> (\<forall>b \<in> set ?bs. \<not> P (w ! (r - Suc b)))"
    unfolding w by (rule cyclic_permutation_nth [OF assms(1) ap])
  have keep: "w ! i = v ! i" if "\<And>a. a \<in> set ?as \<Longrightarrow> i \<noteq> l + a" "\<And>b. b \<in> set ?bs \<Longrightarrow> i \<noteq> r - Suc b" for i
    using nth that by (metis imageE)
  show "i < l \<or> r \<le> i \<Longrightarrow> w ! i = v ! i"
    using assms(2) lt ltb by (intro keep) fastforce+
  have left: "w ! (l + i) = v ! (l + i)" if "i < bl" "i \<notin> set ?as" for i
    using that assms(2) ltb by (intro keep) fastforce+
  have right: "w ! (r - Suc i) = v ! (r - Suc i)" if "i < br" "i \<notin> set ?bs" for i
  proof (rule keep)
    show "r - Suc i \<noteq> l + a" if "a \<in> set ?as" for a using lt [OF that] \<open>i < br\<close> assms(2) by linarith
    show "r - Suc i \<noteq> r - Suc b" if "b \<in> set ?bs" for b
      using ltb [OF that] that \<open>i < br\<close> \<open>i \<notin> set ?bs\<close> assms(2) by (metis add_leD2 diff_diff_cancel le_trans less_eq_Suc_le nat.inject)
  qed
  have "out_left P w l bl = filter (\<lambda>i. i \<notin> set ?as) ol"
    unfolding ol out_left_def filter_filter
    by (rule filter_cong [OF refl]) (use nth left in \<open>auto simp: ol out_left_def\<close>)
  then show "drop c ol = out_left P w l bl" using filter_notin_take [OF as(3)] by simp
  have "out_right P w r br = filter (\<lambda>i. i \<notin> set ?bs) orr"
    unfolding orr out_right_def filter_filter
    by (rule filter_cong [OF refl]) (use nth right in \<open>auto simp: orr out_right_def\<close>)
  then show "drop c orr = out_right P w r br" using filter_notin_take [OF bs(3)] by simp
qed

section \<open>The loop over the blocks\<close>

definition blk_inv ::
  "('k \<Rightarrow> bool) \<Rightarrow> 'k list \<Rightarrow> nat \<Rightarrow> nat \<Rightarrow> nat \<Rightarrow> nat \<Rightarrow> nat list \<Rightarrow> nat list \<Rightarrow> bool" where
  "blk_inv P v l r nl nr ol orr \<longleftrightarrow> l \<le> r \<and> r \<le> length v \<and> (\<forall>i < l. P (v ! i)) \<and>
     (\<forall>i. r \<le> i \<longrightarrow> i < length v \<longrightarrow> \<not> P (v ! i)) \<and> (ol = [] \<or> orr = []) \<and>
     (ol \<noteq> [] \<longrightarrow> ol = out_left P v l nl) \<and> (orr \<noteq> [] \<longrightarrow> orr = out_right P v r nr)"

lemma block_sizes_correct:
  assumes "ol \<noteq> [] \<or> orr \<noteq> [] \<Longrightarrow> BLOCK < width" and "ol = [] \<or> orr = []"
  shows "\<exists>bl br. block_sizes width ol orr = Inr (bl, br) \<and> bl \<le> BLOCK \<and> br \<le> BLOCK \<and>
    (ol \<noteq> [] \<longrightarrow> bl = BLOCK) \<and> (orr \<noteq> [] \<longrightarrow> br = BLOCK) \<and> bl + br \<le> width \<and>
    (if width \<le> 2 * BLOCK then width = bl + br else bl = BLOCK \<and> br = BLOCK)"
  using assms by (auto simp: block_sizes_def BLOCK_def Let_def)

lemma blocks_step_correct:
  fixes v :: "'k list"
  assumes P: "P = (\<lambda>x. is_less x pivot)" and inv: "blk_inv P v l r BLOCK BLOCK ol orr" and len: "length v = length v2"
    and far: "ol \<noteq> [] \<or> orr \<noteq> [] \<Longrightarrow> BLOCK < r - l"
  shows "\<exists>w w2 l' r' bl br ol' orr'.
    blocks_step is_less pivot v v2 l r ol orr = Inr (w, w2, l', r', bl, br, ol', orr') \<and>
    pperm (v, v2) (w, w2) \<and> blk_inv P w l' r' bl br ol' orr' \<and>
    (if r - l \<le> 2 * BLOCK
     then (ol' \<noteq> [] \<longrightarrow> r' - l' = bl) \<and> (orr' \<noteq> [] \<longrightarrow> r' - l' = br) \<and> (ol' = [] \<and> orr' = [] \<longrightarrow> l' = r')
     else bl = BLOCK \<and> br = BLOCK \<and> (ol' \<noteq> [] \<or> orr' \<noteq> [] \<longrightarrow> BLOCK < r' - l'))"
proof -
  have one: "ol = [] \<or> orr = []" and lr: "l \<le> r" "r \<le> length v" using inv by (auto simp: blk_inv_def)
  obtain bl br where bs: "block_sizes (r - l) ol orr = Inr (bl, br)" "bl \<le> BLOCK" "br \<le> BLOCK"
    "ol \<noteq> [] \<longrightarrow> bl = BLOCK" "orr \<noteq> [] \<longrightarrow> br = BLOCK" "bl + br \<le> r - l"
    "if r - l \<le> 2 * BLOCK then r - l = bl + br else bl = BLOCK \<and> br = BLOCK"
    using block_sizes_correct [OF far one] by blast
  define a where "a = (if ol = [] then trace_left is_less pivot v l bl else ol)"
  define b where "b = (if orr = [] then trace_right is_less pivot v r br else orr)"
  define c where "c = min (length a) (length b)"
  define w where "w = cyclic_permutation l r (take c a) (take c b) v"
  define w2 where "w2 = cyclic_permutation l r (take c a) (take c b) v2"
  define a' where "a' = drop c a"
  define b' where "b' = drop c b"
  define l' where "l' = (if a' = [] then l + bl else l)"
  define r' where "r' = (if b' = [] then r - br else r)"
  have step: "blocks_step is_less pivot v v2 l r ol orr = Inr (w, w2, l', r', bl, br, a', b')"
    unfolding blocks_step_def bs(1) l'_def r'_def a'_def b'_def w_def w2_def c_def a_def b_def
    by (simp add: Let_def)
  have a: "a = out_left P v l bl" and b: "b = out_right P v r br"
    using inv bs by (auto simp: a_def b_def trace_left_out trace_right_out blk_inv_def P)
  have sz: "l + bl + br \<le> r" using bs(6) lr by linarith
  note ex = exchange [OF lr(2) sz a b c_def w_def]
  have pp: "pperm (v, v2) (w, w2)"
    unfolding w_def w2_def
    by (rule cyclic_permutation_pperm [OF _ len lr(2) ex(1)]) (simp add: c_def)
  have lw: "length w = length v" using pperm_length [OF pp] by simp
  have one': "a' = [] \<or> b' = []" by (auto simp: a'_def b'_def c_def min_def)
  have ab': "a' = out_left P w l bl" "b' = out_right P w r br"
    using ex(2,3) by (simp_all add: a'_def b'_def)
  have low: "P (w ! i)" if "i < l'" for i
  proof (cases "i < l")
    case True
    then show ?thesis using ex(4) [of i] inv by (simp add: blk_inv_def)
  next
    case False
    then have "a' = []" "i - l < bl" using that by (auto simp: l'_def split: if_splits)
    then have "P (w ! (l + (i - l)))" using ab'(1) by (auto simp: out_left_def filter_empty_conv)
    then show ?thesis using False by simp
  qed
  have high: "\<not> P (w ! i)" if "r' \<le> i" "i < length v" for i
  proof (cases "r \<le> i")
    case True
    then show ?thesis using ex(4) [of i] inv that by (simp add: blk_inv_def)
  next
    case False
    then have "b' = []" "r - Suc i < br" using that by (auto simp: r'_def split: if_splits)
    then have "\<not> P (w ! (r - Suc (r - Suc i)))" using ab'(2) by (auto simp: out_right_def filter_empty_conv)
    then show ?thesis using False by (simp add: Suc_diff_Suc)
  qed
  have "blk_inv P w l' r' bl br a' b'"
    using low high one' ab' lw sz lr(2)
    unfolding blk_inv_def l'_def r'_def by auto
  moreover have "if r - l \<le> 2 * BLOCK
     then (a' \<noteq> [] \<longrightarrow> r' - l' = bl) \<and> (b' \<noteq> [] \<longrightarrow> r' - l' = br) \<and> (a' = [] \<and> b' = [] \<longrightarrow> l' = r')
     else bl = BLOCK \<and> br = BLOCK \<and> (a' \<noteq> [] \<or> b' \<noteq> [] \<longrightarrow> BLOCK < r' - l')"
    using one' bs(7) sz by (auto simp: l'_def r'_def split: if_splits)
  ultimately show ?thesis using step pp by blast
qed

lemma blocks_loop_correct:
  fixes v :: "'k list"
  assumes P: "P = (\<lambda>x. is_less x pivot)" and "blk_inv P v l r BLOCK BLOCK ol orr" and "length v = length v2"
    and "ol \<noteq> [] \<or> orr \<noteq> [] \<Longrightarrow> BLOCK < r - l"
  shows "\<exists>w w2 l' r' bl br ol' orr'.
    blocks_loop is_less pivot v v2 l r ol orr = Inr (w, w2, l', r', bl, br, ol', orr') \<and>
    pperm (v, v2) (w, w2) \<and> blk_inv P w l' r' bl br ol' orr' \<and>
    (ol' \<noteq> [] \<longrightarrow> r' - l' = bl) \<and> (orr' \<noteq> [] \<longrightarrow> r' - l' = br) \<and> (ol' = [] \<and> orr' = [] \<longrightarrow> l' = r')"
  using assms(2-)
proof (induction "r - l" arbitrary: v v2 l r ol orr rule: less_induct)
  case less
  obtain w w2 l' r' bl br ol' orr' where
    s: "blocks_step is_less pivot v v2 l r ol orr = Inr (w, w2, l', r', bl, br, ol', orr')"
      "pperm (v, v2) (w, w2)" "blk_inv P w l' r' bl br ol' orr'"
      "if r - l \<le> 2 * BLOCK
       then (ol' \<noteq> [] \<longrightarrow> r' - l' = bl) \<and> (orr' \<noteq> [] \<longrightarrow> r' - l' = br) \<and> (ol' = [] \<and> orr' = [] \<longrightarrow> l' = r')
       else bl = BLOCK \<and> br = BLOCK \<and> (ol' \<noteq> [] \<or> orr' \<noteq> [] \<longrightarrow> BLOCK < r' - l')"
    using blocks_step_correct [where is_less = is_less and pivot = pivot, OF P less.prems] by blast
  show ?case
  proof (cases "r - l \<le> 2 * BLOCK")
    case True
    then show ?thesis using s by (subst blocks_loop.simps) auto
  next
    case False
    then have dec: "r' - l' < r - l" using blocks_step_shrinks [OF s(1)] by simp
    have len: "length w = length w2" using pperm_length [OF s(2)] less.prems(2) by simp
    have inv: "blk_inv P w l' r' BLOCK BLOCK ol' orr'" "ol' \<noteq> [] \<or> orr' \<noteq> [] \<Longrightarrow> BLOCK < r' - l'"
      using s(3,4) False by auto
    from less.hyps [OF dec inv(1) len inv(2)] obtain x x2 l'' r'' bl' br' ol'' orr'' where
      "blocks_loop is_less pivot w w2 l' r' ol' orr' = Inr (x, x2, l'', r'', bl', br', ol'', orr'')"
      "pperm (w, w2) (x, x2)" "blk_inv P x l'' r'' bl' br' ol'' orr''"
      "(ol'' \<noteq> [] \<longrightarrow> r'' - l'' = bl') \<and> (orr'' \<noteq> [] \<longrightarrow> r'' - l'' = br') \<and>
        (ol'' = [] \<and> orr'' = [] \<longrightarrow> l'' = r'')"
      by blast
    moreover have "blocks_loop is_less pivot v v2 l r ol orr =
        blocks_loop is_less pivot w w2 l' r' ol' orr'"
      using s(1) False by (subst blocks_loop.simps) simp
    ultimately show ?thesis using pperm_trans [OF s(2)] by metis
  qed
qed


section \<open>The remaining block\<close>

lemma upt_split: "i \<le> n \<Longrightarrow> [0..<n] = [0..<i] @ [i..<n]"
  using upt_add_eq_append [of 0 i "n - i"] by simp

lemma out_left_snoc:
  assumes "out_left P v l n = is @ [i]"
  shows "i < n" "\<not> P (v ! (l + i))" "\<And>j. i < j \<Longrightarrow> j < n \<Longrightarrow> P (v ! (l + j))"
    and "set is = {j. j < i \<and> \<not> P (v ! (l + j))}" and "is = filter (\<lambda>j. \<not> P (v ! (l + j))) [0..<i]"
proof -
  have mem: "i \<in> set (out_left P v l n)" using assms by simp
  then show i: "i < n" "\<not> P (v ! (l + i))" by (auto simp: out_left_def)
  have "[0..<n] = [0..<i] @ i # [Suc i..<n]"
    using i(1) upt_conv_Cons [of i n] upt_split [of i n] by simp
  then have split: "is @ [i] = filter (\<lambda>j. \<not> P (v ! (l + j))) [0..<i] @
      i # filter (\<lambda>j. \<not> P (v ! (l + j))) [Suc i..<n]"
    using assms i(2) by (simp add: out_left_def)
  have sorted: "sorted_wrt (<) (out_left P v l n)"
    by (simp add: out_left_def sorted_wrt_filter)
  have "filter (\<lambda>j. \<not> P (v ! (l + j))) [Suc i..<n] = []"
  proof (rule ccontr)
    assume ne: "\<not> ?thesis"
    then have "last (is @ [i]) = last (filter (\<lambda>j. \<not> P (v ! (l + j))) [Suc i..<n])"
      unfolding split by simp
    then have "i \<in> set (filter (\<lambda>j. \<not> P (v ! (l + j))) [Suc i..<n])" using last_in_set [OF ne] by simp
    then show False by simp
  qed
  then show "\<And>j. i < j \<Longrightarrow> j < n \<Longrightarrow> P (v ! (l + j))" and front: "is = filter (\<lambda>j. \<not> P (v ! (l + j))) [0..<i]"
    using split by (auto simp: filter_empty_conv)
  show "set is = {j. j < i \<and> \<not> P (v ! (l + j))}" unfolding front by auto
qed

definition partitioned :: "('k \<Rightarrow> bool) \<Rightarrow> 'k list \<Rightarrow> nat \<Rightarrow> bool" where
  "partitioned P w m \<longleftrightarrow> m \<le> length w \<and> (\<forall>i < m. P (w ! i)) \<and> (\<forall>i. m \<le> i \<longrightarrow> i < length w \<longrightarrow> \<not> P (w ! i))"

lemma drain_left_correct:
  assumes "l \<le> r" "r \<le> length v" "length v = length v2" "\<forall>i < l. P (v ! i)"
    and "\<forall>i. r \<le> i \<longrightarrow> i < length v \<longrightarrow> \<not> P (v ! i)" and "ol = out_left P v l (r - l)"
    and "drain_left l v v2 r (rev ol) = (w, w2, m)"
  shows "pperm (v, v2) (w, w2) \<and> partitioned P w m"
  using assms
proof (induction ol arbitrary: v v2 r rule: rev_induct)
  case Nil
  have "P (v ! i)" if "i < r" for i
  proof (cases "i < l")
    case False
    have "\<forall>x \<in> {0..<r - l}. P (v ! (l + x))"
      using Nil.prems(6) by (auto simp: out_left_def eq_commute [of "[]"] filter_empty_conv)
    then have "P (v ! (l + (i - l)))" by (rule bspec) (use False that in auto)
    then show ?thesis using False by simp
  qed (use Nil.prems(4) in simp)
  then show ?case using Nil.prems by (auto simp: partitioned_def pperm_refl)
next
  case (snoc i "is")
  note o = out_left_snoc [OF snoc.prems(6) [symmetric]]
  have lt: "l + i < length v" "r - Suc 0 < length v" "l \<le> r - Suc 0" "l + i \<le> r - Suc 0"
    using o(1) snoc.prems(1,2) by auto
  let ?u = "swap_at v (l + i) (r - Suc 0)" and ?u2 = "swap_at v2 (l + i) (r - Suc 0)"
  have nth: "?u ! j = (if j = r - Suc 0 then v ! (l + i) else if j = l + i then v ! (r - Suc 0) else v ! j)"
    if "j < length v" for j
    using that lt by (simp add: nth_swap_at)
  have keep: "?u ! j = v ! j" if "j < l + i" for j using that lt by (simp add: swap_at_def)
  have last: "l + i = r - Suc 0 \<or> P (v ! (r - Suc 0))"
    using o(3) [of "r - Suc 0 - l"] lt by (cases "l + i = r - Suc 0") auto
  have high: "\<not> P (?u ! j)" if "r - Suc 0 \<le> j" "j < length v" for j
    unfolding nth [OF that(2)] using that snoc.prems(5) o(2) lt by auto
  have P_mid: "P (?u ! (l + j))" if "i \<le> j" "j < r - Suc 0 - l" for j
  proof -
    have "l + j < length v" using that lt by linarith
    then show ?thesis unfolding nth [OF \<open>l + j < length v\<close>] using that last o(3) [of j] lt by auto
  qed
  have new: "is = out_left P ?u l (r - Suc 0 - l)"
  proof -
    have "[0..<r - Suc 0 - l] = [0..<i] @ [i..<r - Suc 0 - l]"
      using lt by (intro upt_split) linarith
    moreover have "filter (\<lambda>j. \<not> P (?u ! (l + j))) [i..<r - Suc 0 - l] = []"
      using P_mid by (auto simp: filter_empty_conv)
    moreover have "filter (\<lambda>j. \<not> P (?u ! (l + j))) [0..<i] = filter (\<lambda>j. \<not> P (v ! (l + j))) [0..<i]"
      by (rule filter_cong) (auto simp: keep)
    ultimately show ?thesis unfolding out_left_def o(5) by simp
  qed
  have "pperm (?u, ?u2) (w, w2) \<and> partitioned P w m"
  proof (rule snoc.IH)
    show "\<forall>i<l. P (?u ! i)" using snoc.prems(4) by (simp add: keep)
    show "drain_left l ?u ?u2 (r - Suc 0) (rev is) = (w, w2, m)" using snoc.prems(7) by simp
  qed (use lt new high snoc.prems(1-5) in simp_all)
  moreover have "pperm (v, v2) (?u, ?u2)" using lt snoc.prems(3) by (intro pperm_swap) auto
  ultimately show ?case using pperm_trans by blast
qed

text \<open>
  The right block is the left block of the reversed slice, with the predicate negated; the loop
  is proved directly in the same way.
\<close>

lemma out_right_snoc:
  assumes "out_right P v r n = is @ [i]"
  shows "i < n" "P (v ! (r - Suc i))" "\<And>j. i < j \<Longrightarrow> j < n \<Longrightarrow> \<not> P (v ! (r - Suc j))"
    and "is = filter (\<lambda>j. P (v ! (r - Suc j))) [0..<i]"
proof -
  have "out_left (\<lambda>x. \<not> P x) (map (\<lambda>j. v ! (r - Suc j)) [0..<n]) 0 n = out_right P v r n"
    unfolding out_left_def out_right_def by (rule filter_cong) auto
  then have eq: "out_left (\<lambda>x. \<not> P x) (map (\<lambda>j. v ! (r - Suc j)) [0..<n]) 0 n = is @ [i]"
    using assms by simp
  note o = out_left_snoc [OF eq]
  show i: "i < n" by (rule o(1))
  show "P (v ! (r - Suc i))" using o(2) i by simp
  show "\<And>j. i < j \<Longrightarrow> j < n \<Longrightarrow> \<not> P (v ! (r - Suc j))" using o(3) by simp
  show "is = filter (\<lambda>j. P (v ! (r - Suc j))) [0..<i]"
    by (rule o(5) [THEN trans], rule filter_cong) (use i in auto)
qed

lemma drain_right_correct:
  assumes "l \<le> r" "r \<le> length v" "length v = length v2" "\<forall>i < l. P (v ! i)"
    and "\<forall>i. r \<le> i \<longrightarrow> i < length v \<longrightarrow> \<not> P (v ! i)" and "orr = out_right P v r (r - l)"
    and "drain_right r v v2 l (rev orr) = (w, w2, m)"
  shows "pperm (v, v2) (w, w2) \<and> partitioned P w m"
  using assms
proof (induction orr arbitrary: v v2 l rule: rev_induct)
  case Nil
  have "\<not> P (v ! i)" if "l \<le> i" "i < length v" for i
  proof (cases "i < r")
    case True
    have "\<forall>x \<in> {0..<r - l}. \<not> P (v ! (r - Suc x))"
      using Nil.prems(6) by (auto simp: out_right_def eq_commute [of "[]"] filter_empty_conv)
    then have "\<not> P (v ! (r - Suc (r - Suc i)))" by (rule bspec) (use True that in auto)
    then show ?thesis using True by (simp add: Suc_diff_Suc)
  qed (use that Nil.prems(5) in simp)
  then show ?case using Nil.prems by (auto simp: partitioned_def pperm_refl)
next
  case (snoc i "is")
  note o = out_right_snoc [OF snoc.prems(6) [symmetric]]
  let ?q = "r - Suc i"
  have lt: "?q < length v" "l < length v" "l \<le> ?q" "l + 1 \<le> r" "?q < r"
    using o(1) snoc.prems(1,2) by auto
  let ?u = "swap_at v l ?q" and ?u2 = "swap_at v2 l ?q"
  have nth: "?u ! j = (if j = ?q then v ! l else if j = l then v ! ?q else v ! j)"
    if "j < length v" for j
    using that lt by (simp add: nth_swap_at)
  have keep: "?u ! j = v ! j" if "?q < j" "j < length v" for j using that lt by (simp add: nth)
  have first: "l = ?q \<or> \<not> P (v ! l)"
  proof (cases "l = ?q")
    case False
    then have "i < r - Suc l" "r - Suc l < r - l" using lt by auto
    then have "\<not> P (v ! (r - Suc (r - Suc l)))" by (rule o(3))
    then show ?thesis using lt by (simp add: Suc_diff_Suc)
  qed simp
  have low: "P (?u ! j)" if "j < l + 1" for j
    using that snoc.prems(4) o(2) lt by (cases "j = l") (auto simp: nth)
  have mid: "\<not> P (?u ! (r - Suc j))" if "i \<le> j" "j < r - (l + 1)" for j
  proof (cases "j = i")
    case True
    then show ?thesis using that first lt by (auto simp: nth)
  next
    case False
    then have "\<not> P (v ! (r - Suc j))" using o(3) [of j] that by simp
    moreover have "r - Suc j \<noteq> ?q" "r - Suc j \<noteq> l" "r - Suc j < length v" using False that snoc.prems(2) by auto
    ultimately show ?thesis by (simp add: nth)
  qed
  have new: "is = out_right P ?u r (r - (l + 1))"
  proof -
    have "[0..<r - (l + 1)] = [0..<i] @ [i..<r - (l + 1)]"
      using o(1) by (intro upt_split) linarith
    moreover have "filter (\<lambda>j. P (?u ! (r - Suc j))) [i..<r - (l + 1)] = []"
      using mid by (auto simp: filter_empty_conv)
    moreover have "filter (\<lambda>j. P (?u ! (r - Suc j))) [0..<i] = filter (\<lambda>j. P (v ! (r - Suc j))) [0..<i]"
    proof (rule filter_cong [OF refl])
      fix j assume "j \<in> set [0..<i]"
      then have "?q < r - Suc j" "r - Suc j < length v" using o(1) snoc.prems(2) by auto
      then show "P (?u ! (r - Suc j)) = P (v ! (r - Suc j))" by (simp add: keep)
    qed
    ultimately show ?thesis unfolding out_right_def o(4) by simp
  qed
  have "pperm (?u, ?u2) (w, w2) \<and> partitioned P w m"
  proof (rule snoc.IH)
    show "\<forall>i. r \<le> i \<longrightarrow> i < length ?u \<longrightarrow> \<not> P (?u ! i)" using snoc.prems(5) lt by (simp add: keep)
    show "drain_right r ?u ?u2 (l + 1) (rev is) = (w, w2, m)" using snoc.prems(7) by simp
  qed (use lt new low snoc.prems(1-5) in simp_all)
  moreover have "pperm (v, v2) (?u, ?u2)" using lt snoc.prems(3) by (intro pperm_swap) auto
  ultimately show ?case using pperm_trans by blast
qed

lemma partition_in_blocks_correct:
  fixes v :: "'k list"
  assumes "length v = length v2"
  shows "\<exists>w w2 m. partition_in_blocks is_less v v2 pivot = Inr (w, w2, m) \<and>
    pperm (v, v2) (w, w2) \<and> partitioned (\<lambda>x. is_less x pivot) w m"
proof -
  define P where "P = (\<lambda>x. is_less x pivot)"
  have "blk_inv P v 0 (length v) BLOCK BLOCK [] []" by (simp add: blk_inv_def)
  from blocks_loop_correct [where is_less = is_less and pivot = pivot, OF P_def this assms]
  obtain w w2 l r bl br ol orr where
    s: "blocks_loop is_less pivot v v2 0 (length v) [] [] = Inr (w, w2, l, r, bl, br, ol, orr)"
      "pperm (v, v2) (w, w2)" "blk_inv P w l r bl br ol orr"
      "ol \<noteq> [] \<longrightarrow> r - l = bl" "orr \<noteq> [] \<longrightarrow> r - l = br" "ol = [] \<and> orr = [] \<longrightarrow> l = r"
    by blast
  have len: "length w = length w2" using pperm_length [OF s(2)] assms by simp
  have inv: "l \<le> r" "r \<le> length w" "\<forall>i < l. P (w ! i)"
    "\<forall>i. r \<le> i \<longrightarrow> i < length w \<longrightarrow> \<not> P (w ! i)"
    "ol \<noteq> [] \<longrightarrow> ol = out_left P w l (r - l)" "orr \<noteq> [] \<longrightarrow> orr = out_right P w r (r - l)"
    using s(3-5) by (auto simp: blk_inv_def)
  obtain x x2 m where dl: "drain_left l w w2 r (rev ol) = (x, x2, m)" by (metis prod.exhaust)
  obtain y y2 n where dr: "drain_right r w w2 l (rev orr) = (y, y2, n)" by (metis prod.exhaust)
  consider "ol \<noteq> []" | "ol = []" "orr \<noteq> []" | "ol = []" "orr = []" by blast
  then show ?thesis
  proof cases
    case 1
    then have "pperm (w, w2) (x, x2) \<and> partitioned P x m"
      using inv by (intro drain_left_correct [OF inv(1,2) len inv(3,4) _ dl]) simp
    then show ?thesis
      using 1 s(1,2,4) dl pperm_trans by (fastforce simp: partition_in_blocks_def P_def)
  next
    case 2
    then have "pperm (w, w2) (y, y2) \<and> partitioned P y n"
      using inv by (intro drain_right_correct [OF inv(1,2) len inv(3,4) _ dr]) simp
    then show ?thesis
      using 2 s(1,2,5) dr pperm_trans by (fastforce simp: partition_in_blocks_def P_def)
  next
    case 3
    then show ?thesis
      using s(1,2,6) inv by (auto simp: partition_in_blocks_def partitioned_def P_def)
  qed
qed

end
