(* ===== verification/Quicksort.thy ===== *)
theory Quicksort
  imports Quicksort_Heap Quicksort_Partition Consolidation
begin

text \<open>
  The recursion of the paired quicksort, its termination and its correctness for every length,
  limit and history of the partitioning, and the interpretation of the contract
  \<open>paired_sort\<close> that the consolidation routines rely on.
\<close>

section \<open>Lengths\<close>

text \<open>No operation changes the length of the key slice, whatever the comparison is.\<close>

lemma length_shift_tail_loop [simp]:
  "length (fst (shift_tail_loop is_less tmp tmp2 v v2 dest i)) = length v"
  by (induction is_less tmp tmp2 v v2 dest i rule: shift_tail_loop.induct) simp_all

lemma length_shift_tail [simp]: "length (fst (shift_tail is_less v v2)) = length v"
  by (simp add: shift_tail_def Let_def)

lemma length_shift_head_loop [simp]:
  "length (fst (shift_head_loop is_less tmp tmp2 v v2 dest i)) = length v"
  by (induction is_less tmp tmp2 v v2 dest i rule: shift_head_loop.induct)
    (subst shift_head_loop.simps, simp)

lemma length_shift_head [simp]: "length (fst (shift_head is_less v v2)) = length v"
  by (simp add: shift_head_def)

lemma length_partial_insertion_loop:
  "partial_insertion_loop is_less v v2 i n = (w, w2, fin) \<Longrightarrow> length w = length v"
proof (induction is_less v v2 i n arbitrary: w w2 rule: partial_insertion_loop.induct)
  case (2 is_less v v2 i n)
  let ?i = "next_unordered is_less v i"
  let ?u = "swap_at v (?i - 1) ?i" and ?u2 = "swap_at v2 (?i - 1) ?i"
  obtain a a2 where st: "shift_tail is_less (take ?i ?u) (take ?i ?u2) = (a, a2)" by fastforce
  obtain b b2 where sh: "shift_head is_less (drop ?i ?u) (drop ?i ?u2) = (b, b2)" by fastforce
  have "length (a @ b) = length v"
    using length_shift_tail [of is_less "take ?i ?u" "take ?i ?u2"]
      length_shift_head [of is_less "drop ?i ?u" "drop ?i ?u2"]
    by (simp add: st sh del: One_nat_def length_shift_tail length_shift_head)
  then show ?case
    using "2.prems" "2.IH" [OF refl _ _ refl refl st [symmetric] refl sh [symmetric] refl]
    by (auto simp: Let_def st sh simp del: One_nat_def split: if_splits)
qed simp

lemma length_partial_insertion_sort [simp]:
  "length (fst (partial_insertion_sort is_less v v2)) = length v"
  unfolding partial_insertion_sort_def
  using length_partial_insertion_loop [of is_less v v2 1 MAX_STEPS] by (metis prod.collapse)

lemma length_blocks_step:
  "blocks_step is_less pivot v v2 l r ol orr = Inr (w, rest) \<Longrightarrow> length w = length v"
  by (auto simp: blocks_step_def Let_def panic_simps)

lemma length_blocks_loop:
  "blocks_loop is_less pivot v v2 l r ol orr = Inr (w, rest) \<Longrightarrow> length w = length v"
proof (induction "r - l" arbitrary: v v2 l r ol orr rule: less_induct)
  case less
  show ?case
  proof (cases "r - l \<le> 2 * BLOCK")
    case True
    then show ?thesis using less.prems length_blocks_step by (simp add: blocks_loop.simps [of _ _ v])
  next
    case False
    then obtain u u2 l' r' bl br ol' orr' where
      s: "blocks_step is_less pivot v v2 l r ol orr = Inr (u, u2, l', r', bl, br, ol', orr')"
      and loop: "blocks_loop is_less pivot u u2 l' r' ol' orr' = Inr (w, rest)"
      using less.prems by (auto simp: blocks_loop.simps [of _ _ v] panic_simps)
    have "r' - l' < r - l" using blocks_step_shrinks [OF s] False by simp
    from less.hyps [OF this loop] show ?thesis using length_blocks_step [OF s] by simp
  qed
qed

lemma length_drain_left: "drain_left l v v2 r os = (w, w2, m) \<Longrightarrow> length w = length v"
  by (induction l v v2 r os rule: drain_left.induct) auto

lemma length_drain_right: "drain_right r v v2 l os = (w, w2, m) \<Longrightarrow> length w = length v"
  by (induction r v v2 l os rule: drain_right.induct) auto

lemma length_partition_in_blocks:
  "partition_in_blocks is_less v v2 pivot = Inr (w, w2, m) \<Longrightarrow> length w = length v"
  by (auto simp: partition_in_blocks_def panic_simps split: if_splits
      dest!: length_drain_left length_drain_right length_blocks_loop)

lemma partition_pivot_unfold:
  assumes "pivot < length v" and "u = swap_at v 0 pivot" and "u2 = swap_at v2 0 pivot"
    and "t = drop 1 u" and "t2 = drop 1 u2"
    and "l = scan_up (\<lambda>x. is_less x (u ! 0)) t 0 (length t)"
    and "r = scan_down (\<lambda>x. \<not> is_less x (u ! 0)) t l (length t)"
  shows "partition_pivot is_less v v2 pivot =
    res_bind (partition_in_blocks is_less (take (r - l) (drop l t)) (take (r - l) (drop l t2)) (u ! 0))
      (\<lambda>(b, b2, n).
         if \<not> l + n < length (take 1 u @ take l t @ b @ drop r t) then Inl IndexOutOfBounds
         else Inr (swap_at (take 1 u @ take l t @ b @ drop r t) 0 (l + n),
                   swap_at (take 1 u2 @ take l t2 @ b2 @ drop r t2) 0 (l + n), l + n, l \<ge> r))"
  using assms(1) unfolding partition_pivot_def Let_def assms(2-) by (simp only: not_True_eq_False if_False)

lemma length_partition_pivot:
  assumes "partition_pivot is_less v v2 pivot = Inr (w, w2, mid, was)"
  shows "length w = length v \<and> mid < length v"
proof -
  define u where "u = swap_at v 0 pivot"
  define u2 where "u2 = swap_at v2 0 pivot"
  define t where "t = drop 1 u"
  define t2 where "t2 = drop 1 u2"
  define l where "l = scan_up (\<lambda>x. is_less x (u ! 0)) t 0 (length t)"
  define r where "r = scan_down (\<lambda>x. \<not> is_less x (u ! 0)) t l (length t)"
  have pv: "pivot < length v" using assms by (auto simp: partition_pivot_def split: if_splits)
  note eq = partition_pivot_unfold [where is_less = is_less, OF pv u_def u2_def t_def t2_def l_def r_def]
  have "l \<le> length t" unfolding l_def using scan_up_bounds [of 0 "length t"] by blast
  then have lr: "l \<le> length t" "l \<le> r" "r \<le> length t"
    unfolding r_def using scan_down_bounds [of l "length t"] by blast+
  obtain b b2 m where b: "partition_in_blocks is_less (take (r - l) (drop l t))
      (take (r - l) (drop l t2)) (u ! 0) = Inr (b, b2, m)"
    and w: "w = swap_at (take 1 u @ take l t @ b @ drop r t) 0 (l + m)" "mid = l + m"
      "l + m < length (take 1 u @ take l t @ b @ drop r t)"
    using assms unfolding eq res_bind_eq_Inr by (auto split: if_splits)
  have "length b = r - l" using length_partition_in_blocks [OF b] lr by simp
  moreover have "length t = length v - 1" "length (take 1 u) = 1" using pv by (simp_all add: t_def u_def)
  ultimately have "length (take 1 u @ take l t @ b @ drop r t) = length v" using lr pv by simp
  then show ?thesis using w by simp
qed

lemma length_partition_equal_loop:
  "partition_equal_loop is_less pivot v v2 l r = (w, w2, m) \<Longrightarrow> length w = length v"
proof (induction is_less pivot v v2 l r rule: partition_equal_loop.induct)
  case (1 is_less pivot v v2 l r)
  then show ?case
    by (subst (asm) partition_equal_loop.simps) (auto simp: Let_def split: if_splits)
qed

lemma length_partition_equal:
  assumes "partition_equal is_less v v2 pivot = Inr (w, w2, mid)"
  shows "length w = length v \<and> 1 \<le> mid"
  using assms
  by (auto simp: partition_equal_def Let_def split: if_splits prod.splits
      dest!: length_partition_equal_loop)

lemma length_break_loop [simp]: "length (fst (break_loop len random v v2 i n)) = length v"
  by (induction len random v v2 i n rule: break_loop.induct) (simp_all add: Let_def split: prod.split)

lemma length_break_patterns [simp]: "length (fst (break_patterns v v2)) = length v"
  by (simp add: break_patterns_def Let_def)

lemma length_choose_pivot: "choose_pivot is_less v v2 = Inr (w, w2, b, ls) \<Longrightarrow> length w = length v"
  by (auto simp: choose_pivot_def panic_simps split: if_splits)

section \<open>The recursion\<close>

definition MAX_INSERTION :: nat where
  "MAX_INSERTION = 20"

text \<open>
  The shuffling and the choice of the pivot in one iteration: the slices, the pivot and
  whether the partial insertion sort has finished the work.
\<close>

definition recurse_prepare ::
  "('k \<Rightarrow> 'k \<Rightarrow> bool) \<Rightarrow> 'k list \<Rightarrow> 'r list \<Rightarrow> bool \<Rightarrow> bool \<Rightarrow> ('k list \<times> 'r list \<times> nat \<times> bool) res" where
  "recurse_prepare is_less v v2 was_balanced was_partitioned =
     (let (v, v2) = (if \<not> was_balanced then break_patterns v v2 else (v, v2))
      in res_map
           (\<lambda>(v, v2, pivot, likely_sorted).
              if was_balanced \<and> was_partitioned \<and> likely_sorted then
                (case partial_insertion_sort is_less v v2 of (v, v2, fin) \<Rightarrow> (v, v2, pivot, fin))
              else (v, v2, pivot, False))
           (choose_pivot is_less v v2))"

lemma length_recurse_prepare:
  "recurse_prepare is_less v v2 wb wp = Inr (w, w2, pivot, fin) \<Longrightarrow> length w = length v"
  using length_break_patterns [of v v2]
  by (auto simp: recurse_prepare_def panic_simps split_beta Let_def split: if_splits
      dest!: length_choose_pivot)

function (sequential) recurse ::
  "('k \<Rightarrow> 'k \<Rightarrow> bool) \<Rightarrow> 'k list \<Rightarrow> 'r list \<Rightarrow> 'k option \<Rightarrow> nat \<Rightarrow> bool \<Rightarrow> bool \<Rightarrow> ('k list \<times> 'r list) res" where
  "recurse is_less v v2 pred limit was_balanced was_partitioned =
     (if length v \<le> MAX_INSERTION then Inr (insertion_sort is_less v v2)
      else if limit = 0 then Inr (heapsort is_less v v2)
      else
        (let len = length v; limit = (if \<not> was_balanced then limit - 1 else limit)
         in res_bind (recurse_prepare is_less v v2 was_balanced was_partitioned)
              (\<lambda>(v, v2, pivot, fin).
                 if fin then Inr (v, v2)
                 else if (case pred of None \<Rightarrow> False | Some p \<Rightarrow> \<not> is_less p (v ! pivot)) then
                   res_bind (partition_equal is_less v v2 pivot) (\<lambda>(v, v2, mid).
                   res_bind (recurse is_less (drop mid v) (drop mid v2) pred limit was_balanced
                       was_partitioned) (\<lambda>(w, w2).
                   Inr (take mid v @ w, take mid v2 @ w2)))
                 else
                   res_bind (partition_pivot is_less v v2 pivot) (\<lambda>(v, v2, mid, was_p).
                   let balanced = (min mid (len - mid) \<ge> len div 8);
                       left = take mid v; left2 = take mid v2;
                       right = drop (mid + 1) v; right2 = drop (mid + 1) v2
                   in if \<not> mid < length v then Inl IndexOutOfBounds
                      else if length left < length right then
                        res_bind (recurse is_less left left2 pred limit True True) (\<lambda>(a, a2).
                        res_bind (recurse is_less right right2 (Some (v ! mid)) limit balanced was_p)
                          (\<lambda>(b, b2). Inr (a @ [v ! mid] @ b, a2 @ [v2 ! mid] @ b2)))
                      else
                        res_bind (recurse is_less right right2 (Some (v ! mid)) limit True True)
                          (\<lambda>(b, b2).
                        res_bind (recurse is_less left left2 pred limit balanced was_p)
                          (\<lambda>(a, a2). Inr (a @ [v ! mid] @ b, a2 @ [v2 ! mid] @ b2)))))))"
  by pat_completeness auto
termination
  by (relation "measure (\<lambda>(_, v, _). length v)")
    (auto simp: MAX_INSERTION_def dest!: length_recurse_prepare length_partition_equal length_partition_pivot)

declare recurse.simps [simp del]

text \<open>\<open>zst_key\<close> and \<open>zst_payload\<close> are the tests for types of size zero.\<close>

definition quicksort ::
  "bool \<Rightarrow> bool \<Rightarrow> 'k::linorder list \<Rightarrow> 'r list \<Rightarrow> ('k list \<times> 'r list) res" where
  "quicksort zst_key zst_payload v v2 =
     (if length v \<noteq> length v2 then Inl DebugAssert
      else if zst_key then Inr (v, v2)
      else if zst_payload then Inr (sort v, v2)
      else recurse (<) v v2 None (bit_length (length v)) True True)"


section \<open>Correctness of the steps\<close>

lemma partitioned_iff:
  "partitioned P w m \<longleftrightarrow> m \<le> length w \<and> (\<forall>x \<in> set (take m w). P x) \<and> (\<forall>x \<in> set (drop m w). \<not> P x)"
proof -
  have "(\<forall>x \<in> set (take m w). P x) \<longleftrightarrow> (\<forall>i < m. P (w ! i))" if "m \<le> length w"
    using that by (auto simp: all_set_conv_all_nth)
  moreover have "(\<forall>x \<in> set (drop m w). \<not> P x) \<longleftrightarrow> (\<forall>i. m \<le> i \<longrightarrow> i < length w \<longrightarrow> \<not> P (w ! i))"
    if "m \<le> length w"
    using that by (auto simp: all_set_conv_all_nth) (metis add_diff_inverse_nat diff_less_mono leD)
  ultimately show ?thesis unfolding partitioned_def by blast
qed

lemma scan_up_correct:
  assumes "l \<le> i" and "i < scan_up p v l r"
  shows "p (v ! i)"
  using assms
proof (induction "r - l" arbitrary: l rule: less_induct)
  case less
  show ?case
  proof (cases "l < r \<and> p (v ! l)")
    case True
    then have "scan_up p v l r = scan_up p v (l + 1) r" by (subst scan_up.simps) simp
    then show ?thesis using less.hyps [of "l + 1"] less.prems True by (cases "i = l") auto
  next
    case False
    then have "scan_up p v l r = l" by (subst scan_up.simps) auto
    then show ?thesis using less.prems by simp
  qed
qed

lemma scan_up_stop: "scan_up p v l r < r \<Longrightarrow> \<not> p (v ! scan_up p v l r)"
  by (induction p v l r rule: scan_up.induct) (subst (asm) (2) scan_up.simps, subst scan_up.simps, auto split: if_splits)

lemma scan_down_correct:
  assumes "scan_down p v l r \<le> i" and "i < r"
  shows "p (v ! i)"
  using assms
proof (induction "r - l" arbitrary: r rule: less_induct)
  case less
  show ?case
  proof (cases "l < r \<and> p (v ! (r - 1))")
    case True
    then have "scan_down p v l r = scan_down p v l (r - 1)" by (subst scan_down.simps) simp
    then show ?thesis using less.hyps [of "r - 1"] less.prems True by (cases "i = r - 1") auto
  next
    case False
    then have "scan_down p v l r = r" by (subst scan_down.simps) auto
    then show ?thesis using less.prems by simp
  qed
qed

lemma scan_down_stop: "l < scan_down p v l r \<Longrightarrow> \<not> p (v ! (scan_down p v l r - 1))"
  by (induction p v l r rule: scan_down.induct) (subst (asm) (2) scan_down.simps, subst scan_down.simps, auto split: if_splits)

lemma head_split: "0 < length xs \<Longrightarrow> take 1 xs = [xs ! 0] \<and> xs = xs ! 0 # drop 1 xs"
  by (cases xs) auto

lemma split_at_nth:
  assumes "m < length w" and "\<And>i. i < m \<Longrightarrow> w ! i < w ! m"
    and "\<And>i. m < i \<Longrightarrow> i < length w \<Longrightarrow> w ! m \<le> w ! i"
  shows "(\<forall>x \<in> set (take m w). x < w ! m) \<and> (\<forall>x \<in> set (drop (m + 1) w). w ! m \<le> x)"
  using assms by (auto simp: in_set_conv_nth)

lemma partition_pivot_correct:
  fixes v :: "'k::linorder list"
  assumes len: "length v = length v2" and pv: "pivot < length v"
  shows "\<exists>w w2 mid was. partition_pivot (<) v v2 pivot = Inr (w, w2, mid, was) \<and>
    pperm (v, v2) (w, w2) \<and> mid < length v \<and>
    (\<forall>x \<in> set (take mid w). x < w ! mid) \<and> (\<forall>x \<in> set (drop (mid + 1) w). w ! mid \<le> x)"
proof -
  define u where "u = swap_at v 0 pivot"
  define u2 where "u2 = swap_at v2 0 pivot"
  define t where "t = drop 1 u"
  define t2 where "t2 = drop 1 u2"
  define l where "l = scan_up (\<lambda>x. x < u ! 0) t 0 (length t)"
  define r where "r = scan_down (\<lambda>x. \<not> x < u ! 0) t l (length t)"
  note eq = partition_pivot_unfold [where is_less = "(<)", OF pv u_def u2_def t_def t2_def l_def r_def]
  have "l \<le> length t" unfolding l_def using scan_up_bounds [of 0 "length t"] by blast
  then have lr: "l \<le> length t" "l \<le> r" "r \<le> length t"
    unfolding r_def using scan_down_bounds [of l "length t"] by blast+
  have lu: "length u = length v" "length u2 = length v" "length t = length v - 1" "length t2 = length v - 1"
    using len by (simp_all add: u_def u2_def t_def t2_def)
  let ?m = "take (r - l) (drop l t)" and ?m2 = "take (r - l) (drop l t2)"
  have "length ?m = length ?m2" using lu by simp
  from partition_in_blocks_correct [OF this, of "(<)" "u ! 0"] obtain b b2 n where
    b: "partition_in_blocks (<) ?m ?m2 (u ! 0) = Inr (b, b2, n)" "pperm (?m, ?m2) (b, b2)"
      "partitioned (\<lambda>x. x < u ! 0) b n" by blast
  define s where "s = take l t @ b @ drop r t"
  define s2 where "s2 = take l t2 @ b2 @ drop r t2"
  have t_split: "t = take l t @ ?m @ drop r t" "t2 = take l t2 @ ?m2 @ drop r t2"
    using lr by (metis append_take_drop_id drop_drop le_add_diff_inverse2 append_assoc)+
  have low: "x < u ! 0" if "x \<in> set (take l t)" for x
    using that scan_up_correct [of 0 _ "\<lambda>x. x < u ! 0" t "length t"] by (auto simp: l_def in_set_conv_nth)
  have high: "\<not> x < u ! 0" if "x \<in> set (drop r t)" for x
  proof -
    from that obtain i where "i < length t - r" "x = t ! (r + i)" by (auto simp: in_set_conv_nth)
    then show ?thesis
      using scan_down_correct [of "\<lambda>x. \<not> x < u ! 0" t l "length t" "r + i"] by (simp add: r_def)
  qed
  have bl: "length b = r - l" "n \<le> r - l" using pperm_length [OF b(2)] b(3) lr by (auto simp: partitioned_def)
  have ls: "length s = length v - 1" using bl lr lu by (simp add: s_def)
  have part: "partitioned (\<lambda>x. x < u ! 0) s (l + n)"
    using b(3) low high bl lr unfolding partitioned_iff s_def by auto
  have ps: "pperm (t, t2) (s, s2)"
  proof -
    have "pperm (take l t @ ?m @ drop r t, take l t2 @ ?m2 @ drop r t2) (s, s2)"
      unfolding s_def s2_def using lu
      by (intro pperm_append pperm_refl b(2)) simp_all
    then show ?thesis using t_split by simp
  qed
  have u0: "take 1 u = [u ! 0]" "take 1 u2 = [u2 ! 0]" "u = u ! 0 # t" "u2 = u2 ! 0 # t2"
    using head_split [of u] head_split [of u2] lu(1,2) pv unfolding t_def t2_def by linarith+
  let ?w = "swap_at (u ! 0 # s) 0 (l + n)" and ?w2 = "swap_at (u2 ! 0 # s2) 0 (l + n)"
  have mid: "l + n < length v" using bl lr lu pv by linarith
  have res: "partition_pivot (<) v v2 pivot = Inr (?w, ?w2, l + n, l \<ge> r)"
    unfolding eq b(1) using mid bl lr lu(3) pv
    by (simp add: u0(1,2) s_def [symmetric] s2_def [symmetric] del: One_nat_def)
  have "pperm (v, v2) (u, u2)" unfolding u_def u2_def using len pv by (intro pperm_swap) auto
  also have "pperm (u, u2) (u ! 0 # s, u2 ! 0 # s2)"
    using pperm_append [OF pperm_refl ps, of "[u ! 0]" "[u2 ! 0]"] u0(3,4) by simp
  also have "pperm (u ! 0 # s, u2 ! 0 # s2) (?w, ?w2)"
    using ls mid pperm_length [OF ps] lu by (intro pperm_swap) auto
  finally have pp: "pperm (v, v2) (?w, ?w2)" .
  have nth: "?w ! i = (if i = l + n then u ! 0 else if i = 0 then (u ! 0 # s) ! (l + n) else (u ! 0 # s) ! i)"
    if "i < length v" for i
    using that mid ls pv by (subst nth_swap_at) auto
  have P: "\<And>i. i < l + n \<Longrightarrow> s ! i < u ! 0" "\<And>i. l + n \<le> i \<Longrightarrow> i < length s \<Longrightarrow> \<not> s ! i < u ! 0"
    using part by (auto simp: partitioned_def)
  have "?w ! i < u ! 0" if "i < l + n" for i
    using that mid P(1) by (auto simp: nth nth_Cons split: nat.splits)
  moreover have "u ! 0 \<le> ?w ! i" if "l + n < i" "i < length v" for i
  proof -
    from that(1) obtain j where j: "i = Suc j" by (cases i) auto
    have "\<not> s ! j < u ! 0" using that j ls by (intro P(2)) linarith+
    then show ?thesis using that j by (simp add: nth)
  qed
  moreover have "?w ! (l + n) = u ! 0" using mid by (simp add: nth)
  ultimately have "(\<forall>x \<in> set (take (l + n) ?w). x < ?w ! (l + n)) \<and>
      (\<forall>x \<in> set (drop (l + n + 1) ?w). ?w ! (l + n) \<le> x)"
    using ls pv mid by (intro split_at_nth) auto
  then show ?thesis using res pp mid by blast
qed


lemma partition_equal_loop_correct:
  assumes "l \<le> r" and "r \<le> length v" and "length v = length v2"
    and "\<forall>i < l. \<not> is_less pivot (v ! i)" and "\<forall>i. r \<le> i \<longrightarrow> i < length v \<longrightarrow> is_less pivot (v ! i)"
    and "partition_equal_loop is_less pivot v v2 l r = (w, w2, m)"
  shows "pperm (v, v2) (w, w2) \<and> partitioned (\<lambda>x. \<not> is_less pivot x) w m"
  using assms
proof (induction "r - l" arbitrary: v v2 l r rule: less_induct)
  case less
  define l' where "l' = scan_up (\<lambda>x. \<not> is_less pivot x) v l r"
  define r' where "r' = scan_down (\<lambda>x. is_less pivot x) v l' r"
  have l': "l \<le> l'" "l' \<le> r" unfolding l'_def using scan_up_bounds [OF less.prems(1)] by blast+
  have r': "l' \<le> r'" "r' \<le> r" unfolding r'_def using scan_down_bounds [OF l'(2)] by blast+
  have low: "\<not> is_less pivot (v ! i)" if "i < l'" for i
    using that less.prems(4) scan_up_correct [of l i "\<lambda>x. \<not> is_less pivot x" v r]
    by (cases "i < l") (simp_all add: l'_def)
  have high: "is_less pivot (v ! i)" if "r' \<le> i" "i < length v" for i
    using that less.prems(5) scan_down_correct [of "\<lambda>x. is_less pivot x" v l' r i]
    by (cases "i < r") (simp_all add: r'_def)
  have step: "partition_equal_loop is_less pivot v v2 l r =
      (if l' \<ge> r' then (v, v2, l')
       else partition_equal_loop is_less pivot (swap_at v l' (r' - 1)) (swap_at v2 l' (r' - 1))
         (l' + 1) (r' - 1))"
    unfolding l'_def r'_def by (subst partition_equal_loop.simps) (simp only: Let_def)
  show ?case
  proof (cases "l' \<ge> r'")
    case True
    then have "w = v" "w2 = v2" "m = l'" using less.prems(6) step by simp_all
    then show ?thesis
      using low high True l' r' less.prems(2,3) by (auto simp: pperm_refl partitioned_def)
  next
    case False
    have fl: "is_less pivot (v ! l')"
      using scan_up_stop [of "\<lambda>x. \<not> is_less pivot x" v l r] False r' by (simp add: l'_def)
    have fr: "\<not> is_less pivot (v ! (r' - 1))"
      using scan_down_stop [of l' "\<lambda>x. is_less pivot x" v r] False by (simp add: r'_def)
    have ne: "l' < r' - 1" using fl fr False by (metis Suc_diff_1 less_SucE not_le not_less_zero neq0_conv)
    have lt: "l' < length v" "r' - 1 < length v" using ne r' less.prems(2) by linarith+
    let ?u = "swap_at v l' (r' - 1)" and ?u2 = "swap_at v2 l' (r' - 1)"
    have nth: "?u ! j = (if j = r' - 1 then v ! l' else if j = l' then v ! (r' - 1) else v ! j)"
      if "j < length v" for j
      using that lt by (intro nth_swap_at)
    have low': "\<not> is_less pivot (?u ! i)" if "i < l' + 1" for i
    proof -
      have "i < length v" using that lt by linarith
      then show ?thesis unfolding nth [OF \<open>i < length v\<close>] using that low fr ne by auto
    qed
    have high': "is_less pivot (?u ! i)" if "r' - 1 \<le> i" "i < length v" for i
      unfolding nth [OF that(2)] using that high fl ne by auto
    have "pperm (?u, ?u2) (w, w2) \<and> partitioned (\<lambda>x. \<not> is_less pivot x) w m"
    proof (rule less.hyps)
      show "r' - 1 - (l' + 1) < r - l" using ne l' r' by linarith
      show "partition_equal_loop is_less pivot ?u ?u2 (l' + 1) (r' - 1) = (w, w2, m)"
        using less.prems(6) step False by simp
      show "r' - 1 \<le> length ?u" "l' + 1 \<le> r' - 1" using ne lt by simp_all
    qed (use low' high' less.prems(3) in simp_all)
    moreover have "pperm (v, v2) (?u, ?u2)" using lt less.prems(3) by (intro pperm_swap) auto
    ultimately show ?thesis using pperm_trans by blast
  qed
qed

lemma partition_equal_correct:
  assumes len: "length v = length v2" and pv: "pivot < length v"
    and irrefl: "\<not> is_less (v ! pivot) (v ! pivot)"
  shows "\<exists>w w2 mid. partition_equal is_less v v2 pivot = Inr (w, w2, mid) \<and>
    pperm (v, v2) (w, w2) \<and> 1 \<le> mid \<and> mid \<le> length v \<and>
    (\<forall>x \<in> set (take mid w). \<not> is_less (v ! pivot) x) \<and> (\<forall>x \<in> set (drop mid w). is_less (v ! pivot) x)"
proof -
  define u where "u = swap_at v 0 pivot"
  define u2 where "u2 = swap_at v2 0 pivot"
  define t where "t = drop 1 u"
  define t2 where "t2 = drop 1 u2"
  have lu: "length u = length v" "length u2 = length v" "length t = length v - 1" "length t2 = length v - 1"
    using len by (simp_all add: u_def u2_def t_def t2_def)
  have "u ! 0 = v ! pivot" unfolding u_def using pv by (subst nth_swap_at) auto
  moreover have "take 1 u = [u ! 0]" "take 1 u2 = [u2 ! 0]" "u = u ! 0 # t" "u2 = u2 ! 0 # t2"
    using head_split [of u] head_split [of u2] lu(1,2) pv unfolding t_def t2_def by linarith+
  ultimately have u0: "u ! 0 = v ! pivot" "take 1 u = [u ! 0]" "take 1 u2 = [u2 ! 0]"
    "u = u ! 0 # t" "u2 = u2 ! 0 # t2" by blast+
  obtain s s2 m where loop: "partition_equal_loop is_less (u ! 0) t t2 0 (length t) = (s, s2, m)"
    by (metis prod.exhaust)
  have s: "pperm (t, t2) (s, s2)" "partitioned (\<lambda>x. \<not> is_less (u ! 0) x) s m"
    using partition_equal_loop_correct [OF _ _ _ _ _ loop] lu by simp_all
  have "partition_equal is_less v v2 pivot = Inr (take 1 u @ s, take 1 u2 @ s2, m + 1)"
    using pv loop lu
    by (simp add: partition_equal_def Let_def u_def [symmetric] u2_def [symmetric] t_def [symmetric]
        t2_def [symmetric] del: One_nat_def)
  moreover have "pperm (v, v2) (u ! 0 # s, u2 ! 0 # s2)"
  proof -
    have "pperm (v, v2) (u, u2)" unfolding u_def u2_def using len pv by (intro pperm_swap) auto
    also have "pperm (u, u2) (u ! 0 # s, u2 ! 0 # s2)"
      using pperm_append [OF pperm_refl s(1), of "[u ! 0]" "[u2 ! 0]"] u0(4,5) by simp
    finally show ?thesis .
  qed
  ultimately show ?thesis
    using s(2) irrefl pperm_length [OF s(1)] lu pv u0 unfolding partitioned_iff by auto
qed

lemma and_bound: "unat ((w :: u64) AND word_of_nat n) \<le> n"
proof -
  have "unat (w AND word_of_nat n) \<le> unat (word_of_nat n :: u64)"
    by (simp add: word_and_le1 flip: word_le_nat_alt)
  also have "\<dots> \<le> n" by (simp add: unat_of_nat)
  finally show ?thesis .
qed

lemma break_loop_pperm:
  assumes "length v = length v2" and "length v = len" and "8 \<le> len" and "i + n \<le> 3"
  shows "pperm (v, v2) (break_loop len random v v2 i n)"
  using assms
proof (induction n arbitrary: v v2 random i)
  case 0
  then show ?case by (simp add: pperm_refl)
next
  case (Suc n)
  obtain w rand where g: "gen_usize random = (w, rand)" by fastforce
  define x where "x = unat (w AND word_of_nat (next_power_of_two len - 1))"
  define y where "y = (if len \<le> x then x - len else x)"
  have "next_power_of_two len < 2 * len" using Suc.prems(3) by (intro next_power_of_two_bounds) simp
  then have "x < 2 * len" unfolding x_def using and_bound [of w "next_power_of_two len - 1"] by linarith
  then have y: "y < length v" using Suc.prems by (auto simp: y_def)
  have p: "len div 4 * 2 - 1 + i < length v" using Suc.prems by linarith
  have "pperm (v, v2) (swap_at v (len div 4 * 2 - 1 + i) y, swap_at v2 (len div 4 * 2 - 1 + i) y)"
    using Suc.prems(1) y p by (intro pperm_swap) auto
  also have "pperm (swap_at v (len div 4 * 2 - 1 + i) y, swap_at v2 (len div 4 * 2 - 1 + i) y)
      (break_loop len rand (swap_at v (len div 4 * 2 - 1 + i) y) (swap_at v2 (len div 4 * 2 - 1 + i) y) (i + 1) n)"
    using Suc.prems by (intro Suc.IH) simp_all
  finally show ?case by (auto simp: Let_def g x_def [symmetric] y_def simp del: One_nat_def split: if_splits)
qed

lemma break_patterns_pperm: "length v = length v2 \<Longrightarrow> pperm (v, v2) (break_patterns v v2)"
  by (simp add: break_patterns_def Let_def break_loop_pperm pperm_refl)

text \<open>Sorting indices returns indices among the given ones.\<close>

lemma sort2_correct:
  assumes "a < length v" and "b < length v"
  shows "\<exists>a' b' s. sort2 is_less v (a, b, swaps) = Inr (a', b', s) \<and> a' < length v \<and> b' < length v"
  using assms by (simp add: sort2_def)

lemma sort3_correct:
  assumes "a < length v" and "b < length v" and "c < length v"
  shows "\<exists>a' b' c' s. sort3 is_less v (a, b, c, swaps) = Inr (a', b', c', s) \<and>
    a' < length v \<and> b' < length v \<and> c' < length v"
  using assms by (simp add: sort3_def sort2_def)

lemma sort_adjacent_correct:
  assumes "a + 1 < length v"
  shows "\<exists>a' s. sort_adjacent is_less v (a, swaps) = Inr (a', s) \<and> a' < length v"
proof -
  have "a - 1 < length v" "a < length v" using assms by simp_all
  from sort3_correct [OF this assms, of is_less swaps] show ?thesis
    by (auto simp: sort_adjacent_def)
qed

lemma choose_pivot_indices_correct:
  assumes "8 \<le> length v"
  shows "\<exists>b s. choose_pivot_indices is_less v = Inr (b, s) \<and> b < length v"
proof -
  let ?n = "length v" and ?a = "length v div 4"
  have b: "?a < ?n" "?a * 2 < ?n" "?a * 3 < ?n" "?a + 1 < ?n" "?a * 2 + 1 < ?n" "?a * 3 + 1 < ?n"
    using assms by linarith+
  have "\<exists>a b c s. (if ?n \<ge> SHORTEST_MEDIAN_OF_MEDIANS then
         res_bind (sort_adjacent is_less v (?a, 0)) (\<lambda>(a, swaps).
         res_bind (sort_adjacent is_less v (?a * 2, swaps)) (\<lambda>(b, swaps).
         res_bind (sort_adjacent is_less v (?a * 3, swaps)) (\<lambda>(c, swaps).
         Inr (a, b, c, swaps))))
       else Inr (?a, ?a * 2, ?a * 3, 0)) = Inr (a, b, c, s) \<and> a < ?n \<and> b < ?n \<and> c < ?n"
  proof (cases "?n \<ge> SHORTEST_MEDIAN_OF_MEDIANS")
    case True
    obtain a s1 where 1: "sort_adjacent is_less v (?a, 0) = Inr (a, s1)" "a < ?n"
      using sort_adjacent_correct [OF b(4)] by blast
    obtain b' s2 where 2: "sort_adjacent is_less v (?a * 2, s1) = Inr (b', s2)" "b' < ?n"
      using sort_adjacent_correct [OF b(5)] by blast
    obtain c s3 where 3: "sort_adjacent is_less v (?a * 3, s2) = Inr (c, s3)" "c < ?n"
      using sort_adjacent_correct [OF b(6)] by blast
    show ?thesis using True 1 2 3 by simp
  qed (use b in simp)
  then obtain a b' c s where idx: "(if ?n \<ge> SHORTEST_MEDIAN_OF_MEDIANS then
         res_bind (sort_adjacent is_less v (?a, 0)) (\<lambda>(a, swaps).
         res_bind (sort_adjacent is_less v (?a * 2, swaps)) (\<lambda>(b, swaps).
         res_bind (sort_adjacent is_less v (?a * 3, swaps)) (\<lambda>(c, swaps).
         Inr (a, b, c, swaps))))
       else Inr (?a, ?a * 2, ?a * 3, 0)) = Inr (a, b', c, s)" "a < ?n" "b' < ?n" "c < ?n"
    by blast
  obtain a' b'' c' s' where "sort3 is_less v (a, b', c, s) = Inr (a', b'', c', s')" "b'' < ?n"
    using sort3_correct [OF idx(2-4)] by blast
  then show ?thesis using assms unfolding choose_pivot_indices_def Let_def idx(1) by simp
qed

lemma choose_pivot_correct:
  assumes "length v = length v2" and "8 \<le> length v"
  shows "\<exists>w w2 pivot likely. choose_pivot is_less v v2 = Inr (w, w2, pivot, likely) \<and>
    pperm (v, v2) (w, w2) \<and> pivot < length v"
proof -
  obtain b s where b: "choose_pivot_indices is_less v = Inr (b, s)" "b < length v"
    using choose_pivot_indices_correct [OF assms(2)] by blast
  then show ?thesis
    using assms by (auto simp: choose_pivot_def pperm_refl pperm_rev)
qed


lemma recurse_prepare_correct:
  fixes v :: "'k::linorder list"
  assumes "length v = length v2" and "8 \<le> length v"
  shows "\<exists>w w2 pivot fin. recurse_prepare (<) v v2 wb wp = Inr (w, w2, pivot, fin) \<and>
    pperm (v, v2) (w, w2) \<and> pivot < length v \<and> (fin \<longrightarrow> sorted w)"
proof -
  obtain u u2 where u: "(if \<not> wb then break_patterns v v2 else (v, v2)) = (u, u2)" by fastforce
  have pu: "pperm (v, v2) (u, u2)"
    using break_patterns_pperm [OF assms(1)] pperm_refl [OF assms(1)] u by (auto split: if_splits)
  have lu: "length u = length u2" "8 \<le> length u" "length u = length v"
    using pperm_length [OF pu] assms by simp_all
  obtain x x2 pivot likely where c: "choose_pivot (<) u u2 = Inr (x, x2, pivot, likely)"
    "pperm (u, u2) (x, x2)" "pivot < length u"
    using choose_pivot_correct [OF lu(1,2)] by blast
  have px: "pperm (v, v2) (x, x2)" using pu c(2) pperm_trans by blast
  have lx: "length x = length x2" "x \<noteq> []" using pperm_length [OF c(2)] lu by auto
  obtain y y2 fin where y: "partial_insertion_sort (<) x x2 = (y, y2, fin)" by (metis prod.exhaust)
  have py: "pperm (v, v2) (y, y2)" "fin \<longrightarrow> sorted y"
    using partial_insertion_sort_correct [OF lx y] px pperm_trans by blast+
  have "recurse_prepare (<) v v2 wb wp =
      Inr (if wb \<and> wp \<and> likely then (y, y2, pivot, fin) else (x, x2, pivot, False))"
    unfolding recurse_prepare_def u by (simp add: c(1) y)
  then show ?thesis using px py c(3) lu(3) by auto
qed

lemma sorted_three:
  assumes "sorted a" and "sorted b" and "\<forall>x \<in> set a. x \<le> p" and "\<forall>x \<in> set b. p \<le> x"
  shows "sorted (a @ [p] @ b)"
  using assms by (force simp: sorted_append)

lemma pperm_three:
  assumes "length v = length v2" and "mid < length v"
    and "pperm (take mid v, take mid v2) (a, a2)" and "pperm (drop (mid + 1) v, drop (mid + 1) v2) (b, b2)"
  shows "pperm (v, v2) (a @ [v ! mid] @ b, a2 @ [v2 ! mid] @ b2)"
proof -
  have "v = take mid v @ [v ! mid] @ drop (mid + 1) v" "v2 = take mid v2 @ [v2 ! mid] @ drop (mid + 1) v2"
    using assms(1,2) by (simp_all add: id_take_nth_drop)
  moreover have "pperm (take mid v @ [v ! mid] @ drop (mid + 1) v, take mid v2 @ [v2 ! mid] @ drop (mid + 1) v2)
      (a @ [v ! mid] @ b, a2 @ [v2 ! mid] @ b2)"
    by (intro pperm_append assms(3,4) pperm_refl) simp
  ultimately show ?thesis by metis
qed

text \<open>
  The sort returns, whatever the limit and the flags are, as long as no element is below the
  predecessor of the slice.
\<close>

lemma recurse_correct:
  fixes v :: "'k::linorder list"
  assumes "length v = length v2" and "\<And>p x. pred = Some p \<Longrightarrow> x \<in> set v \<Longrightarrow> p \<le> x"
  shows "\<exists>w w2. recurse (<) v v2 pred limit wb wp = Inr (w, w2) \<and> pperm (v, v2) (w, w2) \<and> sorted w"
  using assms
proof (induction "length v" arbitrary: v v2 pred limit wb wp rule: less_induct)
  case less
  note len = less.prems(1)
  show ?case
  proof (cases "length v \<le> MAX_INSERTION \<or> limit = 0")
    case True
    obtain w w2 where i: "insertion_sort (<) v v2 = (w, w2)" by fastforce
    obtain x x2 where h: "heapsort (<) v v2 = (x, x2)" by fastforce
    have "length v \<le> MAX_INSERTION \<or> v \<noteq> []" by (auto simp: MAX_INSERTION_def)
    then show ?thesis
      using True insertion_sort_correct [OF len i] heapsort_correct [OF len _ h] i h
      by (subst recurse.simps) auto
  next
    case False
    then have big: "8 \<le> length v" by (simp add: MAX_INSERTION_def)
    define lim where "lim = (if \<not> wb then limit - 1 else limit)"
    obtain u u2 pivot fin where p: "recurse_prepare (<) v v2 wb wp = Inr (u, u2, pivot, fin)"
      "pperm (v, v2) (u, u2)" "pivot < length v" "fin \<longrightarrow> sorted u"
      using recurse_prepare_correct [OF len big] by blast
    have lu: "length u = length u2" "length u = length v" using pperm_length [OF p(2)] len by simp_all
    have pred: "q \<le> x" if "pred = Some q" "x \<in> set u" for q x
      using that less.prems(2) pperm_set [OF p(2)] by simp
    define eqc where "eqc \<longleftrightarrow> (case pred of None \<Rightarrow> False | Some q \<Rightarrow> \<not> q < u ! pivot)"
    consider "fin" | "\<not> fin" "eqc" | "\<not> fin" "\<not> eqc" by blast
    then show ?thesis
    proof cases
      case 1
      then show ?thesis using p False by (subst recurse.simps) (auto simp: Let_def)
    next
      case 2
      then obtain q where q: "pred = Some q" "\<not> q < u ! pivot" by (auto simp: eqc_def split: option.splits)
      have pl: "pivot < length u" using p(3) lu by simp
      obtain w w2 mid where e: "partition_equal (<) u u2 pivot = Inr (w, w2, mid)" "pperm (u, u2) (w, w2)"
        "1 \<le> mid" "mid \<le> length u" "\<forall>x \<in> set (take mid w). \<not> u ! pivot < x"
        "\<forall>x \<in> set (drop mid w). u ! pivot < x"
        using partition_equal_correct [OF lu(1) pl, of "(<)"] by auto
      have lw: "length w = length v" "length w2 = length v" using pperm_length [OF e(2)] lu by simp_all
      have wu: "set w = set u" by (rule pperm_set [OF e(2)])
      have "length (drop mid w) < length v" using lw e(3) big by simp
      moreover have "length (drop mid w) = length (drop mid w2)" using lw by simp
      moreover have "r \<le> x" if "pred = Some r" "x \<in> set (drop mid w)" for r x
        using that pred wu in_set_dropD by metis
      ultimately obtain x x2 where r: "recurse (<) (drop mid w) (drop mid w2) pred lim wb wp = Inr (x, x2)"
        "pperm (drop mid w, drop mid w2) (x, x2)" "sorted x"
        using less.hyps by blast
      have "recurse (<) v v2 pred limit wb wp = Inr (take mid w @ x, take mid w2 @ x2)"
        using False 2 p(1) e(1) r(1)
        by (subst recurse.simps) (simp add: Let_def lim_def [symmetric] eqc_def [symmetric])
      moreover have "pperm (v, v2) (take mid w @ x, take mid w2 @ x2)"
      proof -
        have "pperm (w, w2) (take mid w @ x, take mid w2 @ x2)"
          by (rule pperm_take_drop [OF _ pperm_refl r(2)]) (use lw in simp_all)
        then show ?thesis using p(2) e(2) pperm_trans by blast
      qed
      moreover have "sorted (take mid w @ x)"
      proof -
        have "y = u ! pivot" if "y \<in> set (take mid w)" for y
        proof -
          have "q \<le> y" using that pred [OF q(1)] wu in_set_takeD by metis
          then show ?thesis using e(5) that q(2) by force
        qed
        then have "sorted (take mid w)" "\<forall>y \<in> set (take mid w). y = u ! pivot"
          by (auto simp: sorted_iff_nth_mono in_set_conv_nth)
             (metis length_take min_less_iff_conj nth_mem nth_take order.refl order.strict_trans1)
        moreover have "\<forall>y \<in> set x. u ! pivot < y" using e(6) pperm_set [OF r(2)] by simp
        ultimately show ?thesis using r(3) by (auto simp: sorted_append)
      qed
      ultimately show ?thesis by blast
    next
      case 3
      have pl: "pivot < length u" using p(3) lu by simp
      obtain w w2 mid was where e: "partition_pivot (<) u u2 pivot = Inr (w, w2, mid, was)"
        "pperm (u, u2) (w, w2)" "mid < length u"
        "\<forall>x \<in> set (take mid w). x < w ! mid" "\<forall>x \<in> set (drop (mid + 1) w). w ! mid \<le> x"
        using partition_pivot_correct [OF lu(1) pl] by blast
      define bal where "bal \<longleftrightarrow> length v div 8 \<le> min mid (length v - mid)"
      have lw: "length w = length v" "length w2 = length v" using pperm_length [OF e(2)] lu by simp_all
      have mid: "mid < length w" using e(3) lw lu by simp
      have wu: "set w = set u" by (rule pperm_set [OF e(2)])
      have left: "\<exists>a a2. recurse (<) (take mid w) (take mid w2) pred lim b1 b2 = Inr (a, a2) \<and>
          pperm (take mid w, take mid w2) (a, a2) \<and> sorted a" for b1 b2
      proof (rule less.hyps)
        show "r \<le> x" if "pred = Some r" "x \<in> set (take mid w)" for r x
          using that pred wu in_set_takeD by metis
      qed (use lw mid in simp_all)
      have right: "\<exists>a a2. recurse (<) (drop (mid + 1) w) (drop (mid + 1) w2) (Some (w ! mid)) lim b1 b2 = Inr (a, a2) \<and>
          pperm (drop (mid + 1) w, drop (mid + 1) w2) (a, a2) \<and> sorted a" for b1 b2
        by (rule less.hyps) (use lw mid e(5) in auto)
      define lft where "lft \<longleftrightarrow> length (take mid w) < length (drop (mid + 1) w)"
      obtain a a2 where a: "recurse (<) (take mid w) (take mid w2) pred lim
          (if lft then True else bal) (if lft then True else was) = Inr (a, a2)"
        "pperm (take mid w, take mid w2) (a, a2)" "sorted a" using left by blast
      obtain b b2 where b: "recurse (<) (drop (mid + 1) w) (drop (mid + 1) w2) (Some (w ! mid)) lim
          (if lft then bal else True) (if lft then was else True) = Inr (b, b2)"
        "pperm (drop (mid + 1) w, drop (mid + 1) w2) (b, b2)" "sorted b" using right by blast
      have "recurse (<) v v2 pred limit wb wp = Inr (a @ [w ! mid] @ b, a2 @ [w2 ! mid] @ b2)"
      proof (cases lft)
        case True
        show ?thesis
          using False 3 mid a(1) b(1) True
          by (subst recurse.simps)
            (simp add: Let_def p(1) e(1) lim_def [symmetric] eqc_def [symmetric] bal_def
              lft_def [symmetric] del: length_take length_drop One_nat_def)
      next
        case nl: False
        show ?thesis
          using False 3 mid a(1) b(1) nl
          by (subst recurse.simps)
            (simp add: Let_def p(1) e(1) lim_def [symmetric] eqc_def [symmetric] bal_def
              lft_def [symmetric] del: length_take length_drop One_nat_def)
      qed
      moreover have "pperm (v, v2) (a @ [w ! mid] @ b, a2 @ [w2 ! mid] @ b2)"
        using pperm_three [OF _ mid a(2) b(2)] lw p(2) e(2) pperm_trans by metis
      moreover have "sorted (a @ [w ! mid] @ b)"
        using a(3) b(3) e(4,5) pperm_set [OF a(2)] pperm_set [OF b(2)]
        by (intro sorted_three) (auto simp: less_imp_le)
      ultimately show ?thesis by blast
    qed
  qed
qed

lemma quicksort_correct:
  fixes v :: "'k::linorder list"
  assumes "length v = length v2"
  shows "\<exists>w w2. quicksort False False v v2 = Inr (w, w2) \<and> pperm (v, v2) (w, w2) \<and> sorted w"
  using recurse_correct [OF assms, of None] assms by (simp add: quicksort_def)


interpretation pdq: paired_sort "quicksort False False :: 'k::linorder list \<Rightarrow> 'r::comm_monoid_add list \<Rightarrow> _"
proof
  fix ks ks' :: "'k list" and ds ds' :: "'r list"
  assume len: "length ks = length ds"
  show "\<exists>ks' ds'. quicksort False False ks ds = Inr (ks', ds')"
    using quicksort_correct [OF len] by blast
  assume "quicksort False False ks ds = Inr (ks', ds')"
  then have "pperm (ks, ds) (ks', ds') \<and> sorted ks'" using quicksort_correct [OF len] by auto
  then show "length ks' = length ks \<and> length ds' = length ds" "mset (zip ks' ds') = mset (zip ks ds)"
    "sorted ks'" by (simp_all add: pperm_def)
qed

section \<open>Properties\<close>

text \<open>
  C22. The pattern-defeating quicksort on two slices of the same length ends without a panic (no
  failed assertion, index out of bounds or underflow) for every input, sorts the keys, and
  keeps every payload paired with its key.
\<close>

theorem quicksort_sorts_pairs:
  fixes v :: "'k::linorder list"
  assumes "length v = length v2"
  shows "\<exists>w w2. quicksort False False v v2 = Inr (w, w2) \<and> sorted w \<and> length w = length w2 \<and>
    mset (zip w w2) = mset (zip v v2)"
  using quicksort_correct [OF assms] assms by (auto simp: pperm_def)

theorem quicksort_sorts_pairs_witness:
  "\<exists>w w2. quicksort False False [3, 1, 2 :: nat] [''c'', ''a'', ''b''] = Inr (w, w2) \<and> sorted w \<and>
    length w = length w2 \<and> mset (zip w w2) = mset (zip [3, 1, 2 :: nat] [''c'', ''a'', ''b''])"
  by (rule quicksort_sorts_pairs) simp

text \<open>
  \<^verbatim>\<open>partition_in_blocks\<close> with any comparison returns without a failed assertion or an
  underflow of the remaining width; the returned count splits the slice into the elements below
  the pivot and the others, and keys and payloads are permuted together.
\<close>

theorem partition_in_blocks_splits:
  assumes "length v = length v2"
  shows "\<exists>w w2 m. partition_in_blocks is_less v v2 pivot = Inr (w, w2, m) \<and> m \<le> length w \<and>
    (\<forall>x \<in> set (take m w). is_less x pivot) \<and> (\<forall>x \<in> set (drop m w). \<not> is_less x pivot) \<and>
    length w = length w2 \<and> mset (zip w w2) = mset (zip v v2)"
proof -
  obtain w w2 m where "partition_in_blocks is_less v v2 pivot = Inr (w, w2, m)"
    "pperm (v, v2) (w, w2)" "partitioned (\<lambda>x. is_less x pivot) w m"
    using partition_in_blocks_correct [OF assms] by blast
  then show ?thesis using assms unfolding partitioned_iff by (auto simp: pperm_def)
qed

theorem partition_in_blocks_splits_witness:
  "\<exists>w w2 m. partition_in_blocks (<) [5, 1, 4 :: nat] [True, False, True] 4 = Inr (w, w2, m) \<and>
    m \<le> length w \<and> (\<forall>x \<in> set (take m w). x < 4) \<and> (\<forall>x \<in> set (drop m w). \<not> x < 4) \<and>
    length w = length w2 \<and> mset (zip w w2) = mset (zip [5, 1, 4 :: nat] [True, False, True])"
  by (rule partition_in_blocks_splits) simp

text \<open>
  C23. \<^verbatim>\<open>consolidate_paired_slices\<close> and \<^verbatim>\<open>consolidate_payload_from\<close>, run with the paired quicksort,
  return without a panic what \<^verbatim>\<open>consolidate\<close> computes on the vector of pairs: the first as a
  prefix of the slices, the second behind the offset.
\<close>

theorem consolidate_paired_as_consolidate:
  fixes keys :: "'k::linorder list" and diffs :: "'r::comm_monoid_add list"
  assumes "length keys = length diffs" and "offset \<le> length keys" and "unstable_sort sort_by"
  shows "(\<exists>ks ds n. consolidate_paired_slices False False (\<lambda>r. r = 0) (quicksort False False) keys diffs =
      Inr (ks, ds, n) \<and> n \<le> length ks \<and>
      zip (take n ks) (take n ds) = consolidate sort_by (zip keys diffs)) \<and>
    (\<exists>ks ds. consolidate_payload_from (quicksort False False) keys diffs offset = Inr (Some (ks, ds)) \<and>
      length ks = length ds \<and>
      zip ks ds = take offset (zip keys diffs) @ consolidate sort_by (drop offset (zip keys diffs)))"
proof -
  have uniq: "c = consolidate sort_by xs"
    if "consolidated c" "weight_of c = weight_of xs" for c xs :: "('k, 'r) updates"
    using that unstable_sort.canon_sort_consolidated [OF assms(3)]
      unstable_sort.canon_sort_weight [OF assms(3)]
    by (intro consolidated_unique) (simp_all add: unstable_sort.consolidate_eq [OF assms(3)])
  show ?thesis
    using pdq.consolidate_paired_slices_correct [OF assms(1)]
      pdq.consolidate_payload_from_correct [OF assms(1,2)] uniq by metis
qed

theorem consolidate_paired_as_consolidate_witness:
  "(\<exists>ks ds n. consolidate_paired_slices False False (\<lambda>r. r = 0) (quicksort False False)
      [2, 1, 2 :: nat] [1, 4, - 1 :: int] = Inr (ks, ds, n) \<and> n \<le> length ks \<and>
      zip (take n ks) (take n ds) = consolidate (sort_key fst) (zip [2, 1, 2] [1, 4, - 1])) \<and>
    (\<exists>ks ds. consolidate_payload_from (quicksort False False) [2, 1, 2 :: nat] [1, 4, - 1 :: int] 1 =
      Inr (Some (ks, ds)) \<and> length ks = length ds \<and>
      zip ks ds = take 1 (zip [2, 1, 2] [1, 4, - 1]) @
        consolidate (sort_key fst) (drop 1 (zip [2, 1, 2] [1, 4, - 1])))"
  by (rule consolidate_paired_as_consolidate) (simp_all add: std_sort.unstable_sort_axioms)

end
