(* ===== verification/Ord_ZSet_Laws.thy ===== *)
theory Ord_ZSet_Laws
  imports Ord_ZSet
begin

text \<open>
  The batch of Z-sets implements the abstract Z-sets: its visible pairs are the canonical list of
  its Z-set, building consolidates, merging and adding add Z-sets, and its cursor walks the visible
  pairs.
\<close>

definition oz_wf :: "('k::linorder, 'r::comm_monoid_add) ord_zset \<Rightarrow> bool" where
  "oz_wf z \<longleftrightarrow> cl_wf (oz_layer z)"

definition oz_contents :: "('k, 'r) ord_zset \<Rightarrow> ('k, 'r) updates" where
  "oz_contents z = cl_visible (oz_layer z)"

definition oz_zset :: "('k, 'r::comm_monoid_add) ord_zset \<Rightarrow> ('k, 'r) zset" where
  "oz_zset z = weight_of (oz_contents z)"

lemma oz_consolidated: "oz_wf z \<Longrightarrow> consolidated (oz_contents z)"
  by (simp add: oz_wf_def oz_contents_def consolidated_visible)

section \<open>The contracts\<close>

interpretation ozb: batch_builder ob_ops "\<lambda>b. cb_ok (ob_builder b)" "\<lambda>b. cb_pairs (ob_builder b)"
  oz_contents oz_wf
proof
  fix t :: unit and n :: nat and b :: "('k::linorder, 'r::comm_monoid_add) oz_builder" and x :: "'k \<times> 'r"
  show "cb_ok (ob_builder (bo_new_builder ob_ops t)) \<and> cb_pairs (ob_builder (bo_new_builder ob_ops t)) = []"
    by (simp add: ob_ops_def ob_new_builder_def cb_new_def cb_ok_def cb_pairs_def)
  show "cb_ok (ob_builder (bo_with_capacity ob_ops t n)) \<and>
      cb_pairs (ob_builder (bo_with_capacity ob_ops t n)) = []"
    by (simp add: ob_ops_def ob_with_capacity_def cb_with_key_capacity_def cb_ok_def cb_pairs_def)
  assume ok: "cb_ok (ob_builder b)"
  show "\<exists>b'. bo_push ob_ops b x = Inr b' \<and> cb_ok (ob_builder b') \<and>
      cb_pairs (ob_builder b') = cb_pairs (ob_builder b) @ [x]"
    using cb_push_tuple_ok [OF ok, of x] by (auto simp: ob_ops_def ob_push_def)
  show "\<exists>b'. bo_reserve ob_ops b n = Inr b' \<and> cb_ok (ob_builder b') \<and>
      cb_pairs (ob_builder b') = cb_pairs (ob_builder b)"
    using ok by (simp add: ob_ops_def ob_reserve_def)
  assume "consolidated (cb_pairs (ob_builder b))"
  then show "\<exists>out. bo_done ob_ops b = Inr out \<and> oz_wf out \<and> oz_contents out = cb_pairs (ob_builder b)"
    using cb_done_ok [OF ok]
    by (auto simp: ob_ops_def ob_done_def oz_wf_def oz_contents_def cl_wf_def cl_visible_def)
qed

definition oc_inv :: "('k::linorder, 'r::comm_monoid_add) oz_cursor_state \<Rightarrow> bool" where
  "oc_inv c \<longleftrightarrow> cc_ok (oc_cursor c) \<and> cl_wf (cc_storage (oc_cursor c))"

definition oz_groups :: "('k, 'r) updates \<Rightarrow> ('k, unit, unit, 'r) groups" where
  "oz_groups xs = map (\<lambda>(k, r). (k, [((), [((), r)])])) xs"

definition oc_vals :: "('k, 'r) oz_cursor_state \<Rightarrow> (unit \<times> (unit \<times> 'r) list) list" where
  "oc_vals c = (if oc_valid c \<and> cc_rest (oc_cursor c) \<noteq> []
     then [((), [((), snd (hd (cc_rest (oc_cursor c))))])] else [])"

lemma oz_groups_simps [simp]:
  "oz_groups xs = [] \<longleftrightarrow> xs = []" "fst (hd (oz_groups (x # xs))) = fst x"
  "tl (oz_groups xs) = oz_groups (tl xs)"
  "dropWhile (\<lambda>g. fst g < k) (oz_groups xs) = oz_groups (dropWhile (\<lambda>x. fst x < k) xs)"
  by (auto simp: oz_groups_def split_beta map_tl dropWhile_map comp_def)

lemma oz_groups_head: "xs \<noteq> [] \<Longrightarrow> hd (oz_groups xs) = (fst (hd xs), [((), [((), snd (hd xs))])])"
  by (cases xs) (auto simp: oz_groups_def)

lemma flatten_oz_groups: "flatten_groups (oz_groups xs) = map (\<lambda>(k, r). ((k, ()), [((), r)])) xs"
  by (induction xs) (auto simp: flatten_groups_def oz_groups_def)

interpretation ozc: batch_cursor oc_ops oc_inv "\<lambda>c. oz_groups (cc_total (oc_cursor c))"
  "\<lambda>c. oz_groups (cc_rest (oc_cursor c))" oc_vals
proof
  fix c :: "('k::linorder, 'r::comm_monoid_add) oz_cursor_state" and k :: 'k
  assume inv: "oc_inv c"
  then have ok: "cc_ok (oc_cursor c)" and wf: "cl_wf (cc_storage (oc_cursor c))"
    by (simp_all add: oc_inv_def)
  note rest = cc_valid_rest [OF ok]
  show "co_key_valid oc_ops c \<longleftrightarrow> oz_groups (cc_rest (oc_cursor c)) \<noteq> []"
    using rest by (simp add: oc_ops_def oc_key_valid_def)
  obtain c' where "cc_seek (oc_cursor c) k = ok c'" "cc_ok c'" "cc_total c' = cc_total (oc_cursor c)"
    "cc_storage c' = cc_storage (oc_cursor c)"
    "cc_rest c' = dropWhile (\<lambda>x. fst x < k) (cc_rest (oc_cursor c))"
    using cc_seek_ok [OF ok wf] by blast
  then show "\<exists>c'. co_seek_key oc_ops c k = ok c' \<and> oc_inv c' \<and>
      oz_groups (cc_total (oc_cursor c')) = oz_groups (cc_total (oc_cursor c)) \<and>
      oz_groups (cc_rest (oc_cursor c')) = dropWhile (\<lambda>g. fst g < k) (oz_groups (cc_rest (oc_cursor c))) \<and>
      (oz_groups (cc_rest (oc_cursor c')) \<noteq> [] \<longrightarrow> oc_vals c' = snd (hd (oz_groups (cc_rest (oc_cursor c')))))"
    using wf by (simp add: oc_ops_def oc_seek_key_def oc_inv_def oc_vals_def oz_groups_head)
  show "\<exists>c'. co_rewind_keys oc_ops c = ok c' \<and> oc_inv c' \<and>
      oz_groups (cc_total (oc_cursor c')) = oz_groups (cc_total (oc_cursor c)) \<and>
      oz_groups (cc_rest (oc_cursor c')) = oz_groups (cc_total (oc_cursor c)) \<and>
      (oz_groups (cc_rest (oc_cursor c')) \<noteq> [] \<longrightarrow> oc_vals c' = snd (hd (oz_groups (cc_rest (oc_cursor c')))))"
    using wf cc_rewind_ok [OF ok]
    by (simp add: oc_ops_def oc_rewind_keys_def oc_inv_def oc_vals_def oz_groups_head) (simp add: cc_rewind_def)
  show "\<exists>c'. co_rewind_vals oc_ops c = ok c' \<and> oc_inv c' \<and>
      oz_groups (cc_total (oc_cursor c')) = oz_groups (cc_total (oc_cursor c)) \<and>
      oz_groups (cc_rest (oc_cursor c')) = oz_groups (cc_rest (oc_cursor c)) \<and>
      (oz_groups (cc_rest (oc_cursor c')) \<noteq> [] \<longrightarrow> oc_vals c' = snd (hd (oz_groups (cc_rest (oc_cursor c')))))"
    using ok wf by (simp add: oc_ops_def oc_rewind_vals_def oc_inv_def oc_vals_def oz_groups_head)
  assume ne: "oz_groups (cc_rest (oc_cursor c)) \<noteq> []"
  then have valid: "cc_valid (oc_cursor c)" using rest by simp
  note cur = cc_current_ok [OF ok valid] and step = cc_step_ok [OF ok valid]
  show "co_val_valid oc_ops c \<longleftrightarrow> oc_vals c \<noteq> []"
    using ne by (simp add: oc_ops_def oc_val_valid_def oc_vals_def)
  show "co_key oc_ops c = Inr (fst (hd (oz_groups (cc_rest (oc_cursor c)))))"
    using ne cur by (simp add: oc_ops_def oc_key_def oz_groups_head)
  show "\<exists>c'. co_step_key oc_ops c = ok c' \<and> oc_inv c' \<and>
      oz_groups (cc_total (oc_cursor c')) = oz_groups (cc_total (oc_cursor c)) \<and>
      oz_groups (cc_rest (oc_cursor c')) = tl (oz_groups (cc_rest (oc_cursor c))) \<and>
      (oz_groups (cc_rest (oc_cursor c')) \<noteq> [] \<longrightarrow> oc_vals c' = snd (hd (oz_groups (cc_rest (oc_cursor c')))))"
    using step wf
    by (simp add: oc_ops_def oc_step_key_def oc_inv_def oc_vals_def oz_groups_head) (simp add: cc_step_def Let_def)
  assume vals: "oc_vals c \<noteq> []"
  show "co_val oc_ops c = Inr (fst (hd (oc_vals c)))" by (simp add: oc_ops_def oc_val_def)
  show "\<exists>c'. co_times oc_ops c = ok (snd (hd (oc_vals c)), c') \<and> oc_inv c' \<and>
      oz_groups (cc_total (oc_cursor c')) = oz_groups (cc_total (oc_cursor c)) \<and>
      oz_groups (cc_rest (oc_cursor c')) = oz_groups (cc_rest (oc_cursor c)) \<and> oc_vals c' = oc_vals c"
    using vals valid cur inv by (simp add: oc_ops_def oc_fold_times_def oc_vals_def split: if_splits)
  show "\<exists>c'. co_step_val oc_ops c = ok c' \<and> oc_inv c' \<and>
      oz_groups (cc_total (oc_cursor c')) = oz_groups (cc_total (oc_cursor c)) \<and>
      oz_groups (cc_rest (oc_cursor c')) = oz_groups (cc_rest (oc_cursor c)) \<and> oc_vals c' = tl (oc_vals c)"
    using ok wf by (simp add: oc_ops_def oc_step_val_def oc_inv_def oc_vals_def)
qed

section \<open>Operations\<close>

lemma oz_add_ok:
  assumes "oz_wf a" and "oz_wf b"
    and "op = oz_add \<or> op = oz_add_assign \<or> op = oz_add_assign_by_ref \<or> op = oz_add_by_ref"
  shows "\<exists>z. op a b = ok z \<and> oz_wf z \<and> oz_contents z = merge_updates (oz_contents a) (oz_contents b)"
proof -
  obtain lop where "op = (\<lambda>a b. run_bind (lop (oz_layer a) (oz_layer b)) (\<lambda>layer. ok \<lparr>oz_layer = layer\<rparr>))"
    "lop = cl_add \<or> lop = cl_add_assign \<or> lop = cl_add_assign_by_ref \<or> lop = cl_add_by_ref \<or> lop = cl_merge"
    using assms(3)
    by (auto simp: oz_add_def oz_add_assign_def oz_add_assign_by_ref_def oz_add_by_ref_def fun_eq_iff)
  then show ?thesis
    using cl_add_ok [of "oz_layer a" "oz_layer b" lop] assms(1,2)
    by (auto simp: oz_wf_def oz_contents_def)
qed

lemma oz_merge_as_layer_merge:
  assumes "oz_wf a" and "oz_wf b"
  shows "oz_merge a b = run_bind (cl_merge (oz_layer a) (oz_layer b)) (\<lambda>layer. ok \<lparr>oz_layer = layer\<rparr>)"
proof -
  have ok: "cl_ok (oz_layer a)" "cl_ok (oz_layer b)" using assms by (simp_all add: oz_wf_def)
  obtain ca cb where c: "cl_cursor (oz_layer a) = Inr ca" "cl_cursor (oz_layer b) = Inr cb"
    using cl_cursor_ok ok by blast
  show ?thesis
    using ok c
    by (simp add: oz_merge_def batch_merge_def om_ops_def om_new_merger_def om_work_def om_done_def
        cl_merge_def cb_with_capacity_def run_bind_def lift_res_def ok_def res_map_def
        split: option.splits sum.splits)
qed

lemma oz_merge_ok:
  assumes "oz_wf a" and "oz_wf b"
  shows "\<exists>z. oz_merge a b = ok z \<and> oz_wf z \<and> oz_contents z = merge_updates (oz_contents a) (oz_contents b)"
  using cl_merge_ok [of "oz_layer a" "oz_layer b"] assms
  unfolding oz_merge_as_layer_merge [OF assms] by (auto simp: oz_wf_def oz_contents_def)

lemma oz_cursor_ok:
  assumes "oz_wf z"
  shows "\<exists>c. oz_cursor z = Inr c \<and> oc_inv c \<and> cc_total (oc_cursor c) = oz_contents z \<and>
    cc_rest (oc_cursor c) = oz_contents z"
proof -
  have ok: "cl_ok (oz_layer z)" using assms by (simp add: oz_wf_def)
  then have "cl_lower_bound (oz_layer z) \<le> length (cl_keys (oz_layer z))" by (simp add: cl_ok_def)
  then show ?thesis
    using assms ok
    by (simp add: oz_cursor_def cl_cursor_def cl_cursor_from_def cc_new_def oc_inv_def cc_ok_def
        cc_total_def cc_rest_def oz_contents_def cl_visible_range oz_wf_def)
qed

lemma oz_from_tuples_calls:
  "oz_from_tuples sort_by alloc sz time tuples =
     run_bind (mb_calls sort_by alloc sz (mb_new_batcher time) [PushBatch tuples]) (mb_seal alloc sz ob_ops)"
  by (simp add: oz_from_tuples_def run_bind_def ok_def split: option.splits sum.splits)

section \<open>Properties\<close>

text \<open>
  C15. A client that pushes unordered and consolidated batches to the batcher in any order and then
  seals it obtains a well-formed batch that is the consolidation of all pushed updates. No assertion
  of the merge sorter fails and all of its loops end, for every allocator that grants the requested
  capacity and every size of the tuple type.
\<close>

theorem batcher_seals_consolidation:
  assumes "unstable_sort sort_by" and "\<And>n. n \<le> alloc n" and "list_all call_ok calls"
  shows "\<exists>z. run_bind (mb_calls sort_by alloc sz (mb_new_batcher ()) calls) (mb_seal alloc sz ob_ops) = ok z \<and>
    oz_wf z \<and> oz_contents z = consolidate sort_by (concat (map call_items calls))"
  using ozb.calls_and_seal [OF assms] by blast

definition sample_calls :: "(nat, int) batcher_call list" where
  "sample_calls =
     [PushBatch \<lparr>buf_items = [(2, 1), (1, 4), (2, - 1)], buf_cap = 3\<rparr>,
      PushConsolidatedBatch \<lparr>buf_items = [(1, - 4), (7, 2)], buf_cap = 2\<rparr>,
      PushBatch \<lparr>buf_items = [(3, 5)], buf_cap = 1\<rparr>]"

theorem batcher_seals_consolidation_witness:
  "\<exists>z. run_bind (mb_calls (sort_key fst) (\<lambda>n. n) 16 (mb_new_batcher ()) sample_calls)
      (mb_seal (\<lambda>n. n) 16 ob_ops) = ok z \<and> oz_wf z \<and> oz_contents z = [(3, 5), (7, 2)]"
proof -
  have "consolidate (sort_key fst) (concat (map call_items sample_calls)) = [(3, 5), (7, 2)]"
    unfolding sample_calls_def by code_simp
  moreover have "list_all call_ok sample_calls" by (simp add: sample_calls_def consolidated_def)
  ultimately show ?thesis
    using batcher_seals_consolidation
      [OF std_sort.unstable_sort_axioms, of "\<lambda>n. n" sample_calls 16] by simp
qed

text \<open>
  \<^verbatim>\<open>from_tuples\<close> builds, from updates in any order, the canonical batch of their Z-set, whatever
  unstable sort the standard library uses.
\<close>

theorem from_tuples_refines_zset:
  assumes "unstable_sort sort_by" and "\<And>n. n \<le> alloc n"
  shows "\<exists>z. oz_from_tuples sort_by alloc sz () tuples = ok z \<and> oz_wf z \<and>
    oz_zset z = weight_of (buf_items tuples)"
  using ozb.calls_and_seal [OF assms, of "[PushBatch tuples]" sz "()"]
    unstable_sort.consolidate_eq [OF assms(1)] unstable_sort.canon_sort_weight [OF assms(1)]
  unfolding oz_from_tuples_calls oz_zset_def by auto

theorem from_tuples_refines_zset_witness:
  "\<exists>z. oz_from_tuples (sort_key fst) (\<lambda>n. n + 4) 8 () \<lparr>buf_items = [(2 :: nat, 1 :: int), (1, 4), (2, - 1)], buf_cap = 3\<rparr> = ok z \<and>
    oz_wf z \<and> oz_zset z = weight_of [(2, 1), (1, 4), (2, - 1)]"
  using from_tuples_refines_zset [OF std_sort.unstable_sort_axioms, of "\<lambda>n. n + 4" 8
      "\<lparr>buf_items = [(2 :: nat, 1 :: int), (1, 4), (2, - 1)], buf_cap = 3\<rparr>"] by simp

text \<open>
  C16. The merge of two batches and the four additions return, on every well-formed input, a well-formed
  batch whose Z-set is the sum of the two Z-sets.
\<close>

theorem zset_merge_adds:
  assumes "oz_wf a" and "oz_wf b"
    and "op \<in> {oz_merge, oz_add, oz_add_assign, oz_add_assign_by_ref, oz_add_by_ref}"
  shows "\<exists>z. op a b = ok z \<and> oz_wf z \<and> oz_zset z = zset_plus (oz_zset a) (oz_zset b)"
proof -
  obtain z where "op a b = ok z" "oz_wf z" "oz_contents z = merge_updates (oz_contents a) (oz_contents b)"
    using oz_merge_ok [OF assms(1,2)] oz_add_ok [OF assms(1,2)] assms(3) by blast
  then show ?thesis by (auto simp: oz_zset_def zset_plus_def fun_eq_iff weight_of_merge)
qed

definition sample_zset :: "(nat, int) ord_zset" where
  "sample_zset = \<lparr>oz_layer = \<lparr>cl_keys = [1, 3, 5], cl_diffs = [2, - 1, 4], cl_lower_bound = 0\<rparr>\<rparr>"

lemma sample_zset_wf: "oz_wf sample_zset"
  by (simp add: oz_wf_def sample_zset_def cl_wf_def cl_ok_def cl_pairs_def consolidated_def)

lemma sample_zset_contents: "oz_contents sample_zset = [(1, 2), (3, - 1), (5, 4)]"
  by (simp add: oz_contents_def cl_visible_def cl_pairs_def sample_zset_def)

theorem zset_merge_adds_witness:
  "\<exists>z. oz_merge sample_zset sample_zset = ok z \<and> oz_wf z \<and>
    oz_zset z = zset_plus (oz_zset sample_zset) (oz_zset sample_zset)"
  using zset_merge_adds [OF sample_zset_wf sample_zset_wf, of oz_merge] by simp



text \<open>
  C17. A cursor reads exactly the batch: \<^verbatim>\<open>to_vec\<close> on the cursor of a well-formed batch ends and
  returns every visible key once, in order, with its weight; and a seek from the start stops at a
  key exactly when the batch has the key, with its weight as the only value.
\<close>

theorem cursor_reads_batch:
  assumes "oz_wf z"
  shows "\<exists>c. oz_cursor z = Inr c \<and>
    co_to_vec oc_ops c = ok (map (\<lambda>(k, r). ((k, ()), [((), r)])) (oz_contents z)) \<and>
    (\<forall>k. \<exists>c'. co_seek_key oc_ops c k = ok c' \<and>
      (co_get_key oc_ops c' = Inr (Some k) \<longleftrightarrow> oz_zset z k \<noteq> 0) \<and>
      (oz_zset z k \<noteq> 0 \<longrightarrow> oc_weight c' = Inr (oz_zset z k)))"
proof -
  obtain c where c: "oz_cursor z = Inr c" "oc_inv c" "cc_total (oc_cursor c) = oz_contents z"
    "cc_rest (oc_cursor c) = oz_contents z" using oz_cursor_ok [OF assms] by blast
  note cons = oz_consolidated [OF assms]
  have keys: "map fst (oz_groups xs) = map fst xs" for xs :: "('a, 'b) updates"
    by (simp add: oz_groups_def comp_def split_beta)
  have "sorted_wrt (<) (map fst (oz_groups (cc_rest (oc_cursor c))))"
    using cons c(4) keys by (simp add: consolidated_def)
  note seek = ozc.seek_finds [OF c(2) this]
  have supp: "oz_zset z k \<noteq> 0 \<longleftrightarrow> k \<in> fst ` set (oz_contents z)" for k
    using consolidated_support [OF cons] by (auto simp: oz_zset_def zset_support_def)
  have "\<exists>c'. co_seek_key oc_ops c k = ok c' \<and>
      (co_get_key oc_ops c' = Inr (Some k) \<longleftrightarrow> oz_zset z k \<noteq> 0) \<and>
      (oz_zset z k \<noteq> 0 \<longrightarrow> oc_weight c' = Inr (oz_zset z k))" for k
  proof -
    obtain c' where c': "co_seek_key oc_ops c k = ok c'" "oc_inv c'"
      "co_get_key oc_ops c' = Inr (Some k) \<longleftrightarrow> k \<in> fst ` set (oz_groups (cc_rest (oc_cursor c)))"
      "\<forall>vs. (k, vs) \<in> set (oz_groups (cc_rest (oc_cursor c))) \<longrightarrow> oc_vals c' = vs"
      using seek [of k] by blast
    have "oc_weight c' = Inr (oz_zset z k)" if nz: "oz_zset z k \<noteq> 0"
    proof -
      have mem: "(k, oz_zset z k) \<in> set (oz_contents z)"
        using nz supp weight_of_member [OF consolidated_distinct [OF cons]] by (force simp: oz_zset_def)
      then have "oc_vals c' = [((), [((), oz_zset z k)])]"
        using c'(4) c(4) by (force simp: oz_groups_def)
      then have v: "cc_rest (oc_cursor c') \<noteq> []" "snd (hd (cc_rest (oc_cursor c'))) = oz_zset z k"
        by (auto simp: oc_vals_def split: if_splits)
      have ok: "cc_ok (oc_cursor c')" using c'(2) by (simp add: oc_inv_def)
      then show ?thesis
        using v cc_valid_rest [OF ok] cc_current_ok(2) [OF ok] by (simp add: oc_weight_def)
    qed
    moreover have "fst ` set (oz_groups (oz_contents z)) = fst ` set (oz_contents z)"
      using keys [of "oz_contents z"] by (metis list.set_map)
    ultimately show ?thesis using c' c(4) supp by metis
  qed
  then show ?thesis using c ozc.to_vec [OF c(2)] by (simp add: flatten_oz_groups)
qed

theorem cursor_reads_batch_witness:
  "\<exists>c. oz_cursor sample_zset = Inr c \<and>
    co_to_vec oc_ops c = ok [((1, ()), [((), 2)]), ((3, ()), [((), - 1)]), ((5, ()), [((), 4)])]"
  using cursor_reads_batch [OF sample_zset_wf] by (auto simp: sample_zset_contents)

text \<open>
  C20. \<^verbatim>\<open>retain\<close> keeps exactly the visible pairs that satisfy the predicate and
  \<^verbatim>\<open>truncate_keys_below\<close> exactly those whose key is not below the bound; both results are
  well-formed, and a later read sees nothing of what was removed.
\<close>

theorem retain_and_truncate_filter:
  assumes "oz_wf z"
  shows "(\<exists>z'. oz_retain z f = ok z' \<and> oz_wf z' \<and> oz_contents z' = filter (\<lambda>(k, r). f k r) (oz_contents z)) \<and>
    (\<exists>z'. oz_truncate_keys_below z bound = ok z' \<and> oz_wf z' \<and>
       oz_contents z' = filter (\<lambda>x. bound \<le> fst x) (oz_contents z))"
  using cl_retain_wf [of "oz_layer z" f] cl_truncate_keys_below_ok [of "oz_layer z" bound] assms
  by (auto simp: oz_retain_def oz_truncate_keys_below_def oz_wf_def oz_contents_def)

theorem retain_and_truncate_filter_witness:
  "(\<exists>z'. oz_retain sample_zset (\<lambda>_ r. 0 < r) = ok z' \<and> oz_wf z' \<and> oz_contents z' = [(1, 2), (5, 4)]) \<and>
    (\<exists>z'. oz_truncate_keys_below sample_zset 2 = ok z' \<and> oz_wf z' \<and> oz_contents z' = [(3, - 1), (5, 4)])"
  using retain_and_truncate_filter [OF sample_zset_wf, of "\<lambda>_ r. 0 < r" 2]
  by (simp add: sample_zset_contents)

text \<open>
  C36. The consumer of a batch does not honour truncation: after \<^verbatim>\<open>truncate_keys_below\<close> with a bound
  above the first key, the consumer still starts at that key, which is no longer among the keys of
  the batch.
\<close>

theorem consumer_ignores_truncation:
  assumes "oz_wf z" and "cl_keys (oz_layer z) = k # ks" and "k < bound"
  shows "\<exists>z' c. oz_truncate_keys_below z bound = ok z' \<and> oz_consumer z' = Inr c \<and>
    on_peek_key c = Inr k \<and> k \<notin> fst ` set (oz_contents z')"
proof -
  obtain l where l: "cl_truncate_keys_below (oz_layer z) bound = Some l" "cl_wf l"
    "cl_keys l = cl_keys (oz_layer z)" "cl_visible l = filter (\<lambda>x. bound \<le> fst x) (cl_visible (oz_layer z))"
    using cl_truncate_keys_below_ok assms(1) unfolding oz_wf_def by blast
  have "k \<notin> fst ` set (cl_visible l)" using assms(3) by (auto simp: l(4))
  then show ?thesis
    using l assms(2)
    by (simp add: oz_truncate_keys_below_def oz_consumer_def ck_from_def on_peek_key_def ck_peek_key_def
        ck_key_valid_def oz_contents_def)
qed

theorem consumer_ignores_truncation_witness:
  "\<exists>z' c. oz_truncate_keys_below sample_zset 4 = ok z' \<and> oz_consumer z' = Inr c \<and>
    on_peek_key c = Inr 1 \<and> 1 \<notin> fst ` set (oz_contents z')"
  using consumer_ignores_truncation [OF sample_zset_wf, of 1 "[3, 5]" 4] by (simp add: sample_zset_def)

text \<open>
  \<^verbatim>\<open>from_columns\<close> sorts two parallel columns with the paired quicksort and consolidates them: it
  returns a well-formed batch with the Z-set of the zipped columns.
\<close>

theorem from_columns_refines_zset:
  assumes "length keys = length diffs"
  shows "\<exists>z. oz_from_columns False False keys diffs = ok z \<and> oz_wf z \<and> oz_zset z = weight_of (zip keys diffs)"
proof -
  obtain ks ds where "consolidate_payload_from (quicksort False False) keys diffs 0 = Inr (Some (ks, ds))"
    "length ks = length ds" "consolidated (zip ks ds)" "weight_of (zip ks ds) = weight_of (zip keys diffs)"
    using pdq.consolidate_payload_from_correct [OF assms, of 0] by auto
  then show ?thesis
    by (simp add: oz_from_columns_def cl_from_parts_def oz_wf_def cl_wf_def cl_ok_def cl_pairs_def
        oz_zset_def oz_contents_def cl_visible_def)
qed

theorem from_columns_refines_zset_witness:
  "\<exists>z. oz_from_columns False False [4, 2, 4 :: nat] [1, 2, 5 :: int] = ok z \<and> oz_wf z \<and>
    oz_zset z = weight_of [(4, 1), (2, 2), (4, 5)]"
  using from_columns_refines_zset [of "[4, 2, 4 :: nat]" "[1, 2, 5 :: int]"] by simp

end
