(* ===== verification/ZSet_Trace.thy ===== *)
theory ZSet_Trace
  imports Spine_Ops Ord_ZSet_Laws
begin

text \<open>
  The trace of Z-sets: the spine over the batches of \<^verbatim>\<open>zset_batch.rs\<close>. The interpretation discharges
  the contract of the spine on that batch type; the properties state what a client of the trace
  sees.
\<close>

definition oz_batch ::
  "(('k::linorder, 'r::comm_monoid_add) ord_zset, ('k, 'r) oz_merger, 'k, unit, unit) batch_ops" where
  "oz_batch = \<lparr>bt_len = oz_batch_len, bt_key_count = oz_key_count,
     bt_lower = (\<lambda>_. antichain_ref_new [()]), bt_upper = (\<lambda>_. antichain_ref_empty),
     bt_truncate_keys_below = oz_truncate_keys_below, bt_recede_to = (\<lambda>z t. ok (oz_recede_to z t)),
     bt_begin_merge = oz_begin_merge, bt_work = om_work, bt_done = om_done\<rparr>"

lemma oz_batch_len_ok: "oz_wf z \<Longrightarrow> oz_batch_len z = Inr (length (oz_contents z))"
  by (simp add: oz_batch_len_def oz_wf_def oz_contents_def cl_wf_def cl_tuples_def cl_visible_def cl_ok_def cl_pairs_def)

lemma length_merge_updates: "length (merge_updates xs ys) \<le> length xs + length ys"
  by (induction xs ys rule: merge_updates.induct) (auto simp: Let_def)

lemma om_work_ok:
  assumes "oz_wf a" and "oz_wf b" and "oz_begin_merge a b = Inr m"
  shows "\<exists>m' fuel'. om_work m a b lvb fuel = ok (m', fuel') \<and> fuel' > 0 \<and>
    (\<exists>z. om_done m' = Inr z \<and> oz_wf z \<and> oz_contents z = merge_updates (oz_contents a) (oz_contents b))"
proof -
  obtain z where "oz_merge a b = ok z" "oz_wf z" "oz_contents z = merge_updates (oz_contents a) (oz_contents b)"
    using oz_merge_ok [OF assms(1,2)] by blast
  then show ?thesis
    using assms(3)
    by (auto simp: oz_merge_def batch_merge_def om_ops_def oz_begin_merge_def om_work_def run_bind_eq_ok)
qed

interpretation ozs: eager_batch oz_batch oz_wf "\<lambda>z. length (oz_contents z)" oz_zset
  "\<lambda>_ m a b. oz_begin_merge a b = Inr m" "\<lambda>_ _. True" id
proof
  fix b b1 b2 :: "('k::linorder, 'r::comm_monoid_add) ord_zset" and x k :: 'k and lvb :: "unit option"
    and m m' and fuel fuel' :: int and t :: unit
  show "oz_wf b \<Longrightarrow> bt_len oz_batch b = Inr (length (oz_contents b))"
    by (simp add: oz_batch_def oz_batch_len_ok)
  show "oz_wf b \<Longrightarrow> length (oz_contents b) = 0 \<Longrightarrow> oz_zset b x = 0" by (simp add: oz_zset_def)
  show "\<not> antichain_ref_eq (bt_lower oz_batch b) (bt_upper oz_batch b)"
    by (simp add: oz_batch_def antichain_ref_eq_def antichain_ref_new_def antichain_ref_empty_def)
  show "oz_wf b \<Longrightarrow> \<exists>b'. bt_recede_to oz_batch b t = ok b' \<and> oz_wf b' \<and>
      length (oz_contents b') \<le> length (oz_contents b)"
    by (simp add: oz_batch_def oz_recede_to_def)
  show "\<exists>b'. bt_truncate_keys_below oz_batch b k = ok b' \<and> oz_wf b' \<and>
      length (oz_contents b') \<le> length (oz_contents b) \<and>
      (\<forall>x. oz_zset b' x = (if k \<le> id x then oz_zset b x else 0))" if "oz_wf b"
    using cl_truncate_keys_below_ok [of "oz_layer b" k] that
    by (auto simp: oz_batch_def oz_truncate_keys_below_def oz_wf_def oz_contents_def oz_zset_def
        weight_of_filter_key [of "\<lambda>k'. k \<le> k'"])
  assume wf: "oz_wf b1" "oz_wf b2"
  show "\<exists>m. bt_begin_merge oz_batch b1 b2 = Inr m \<and> oz_begin_merge b1 b2 = Inr m"
    using oz_merge_ok [OF wf]
    by (auto simp: oz_batch_def oz_merge_def batch_merge_def om_ops_def oz_begin_merge_def run_bind_eq_ok)
  assume m: "oz_begin_merge b1 b2 = Inr m"
  note w = om_work_ok [OF wf m]
  show "\<exists>m' fuel'. bt_work oz_batch m b1 b2 lvb fuel = ok (m', fuel') \<and>
      (if 0 < fuel' then \<exists>b. bt_done oz_batch m' = Inr b \<and> oz_wf b \<and>
           length (oz_contents b) \<le> length (oz_contents b1) + length (oz_contents b2) \<and>
           (\<forall>x. True \<longrightarrow> oz_zset b x = oz_zset b1 x + oz_zset b2 x)
       else oz_begin_merge b1 b2 = Inr m')"
  proof -
    obtain m' fuel' z where r: "om_work m b1 b2 lvb fuel = ok (m', fuel')" "0 < fuel'" "om_done m' = Inr z"
      "oz_wf z" "oz_contents z = merge_updates (oz_contents b1) (oz_contents b2)"
      using w [of lvb fuel] by blast
    then show ?thesis
      using length_merge_updates [of "oz_contents b1" "oz_contents b2"]
      by (intro exI [of _ m'] exI [of _ fuel']) (simp add: oz_batch_def oz_zset_def weight_of_merge)
  qed
  show "bt_work oz_batch m b1 b2 lvb isize_max = ok (m', fuel') \<Longrightarrow> 0 < fuel'"
    using w [of lvb isize_max] by (auto simp: oz_batch_def)
  show "bt_work oz_batch m b1 b2 lvb fuel = ok (m', fuel') \<Longrightarrow> 0 < fuel'"
    using w [of lvb fuel] by (auto simp: oz_batch_def)
qed

section \<open>A client of the trace\<close>

datatype ('k, 'r) trace_request =
    InsertBatch "('k, 'r) ord_zset"
  | TruncateKeysBelow 'k
  | TruncateValuesBelow
  | RecedeTo
  | Exert nat
  | ClearDirtyFlag

type_synonym ('k, 'r) zset_trace =
  "(('k, 'r) ord_zset, ('k, 'r) oz_merger, 'k, unit, unit) spine"

fun trace_call :: "('k::linorder, 'r::comm_monoid_add) trace_request \<Rightarrow> ('k, 'r) zset_trace \<Rightarrow> ('k, 'r) zset_trace run" where
  "trace_call (InsertBatch b) sp = spine_insert oz_batch unit_ops b sp"
| "trace_call (TruncateKeysBelow k) sp = spine_truncate_keys_below oz_batch k sp"
| "trace_call TruncateValuesBelow sp = ok (spine_truncate_values_below () sp)"
| "trace_call RecedeTo sp = spine_recede_to oz_batch () sp"
| "trace_call (Exert effort) sp = exert oz_batch (int effort) sp"
| "trace_call ClearDirtyFlag sp = ok (clear_dirty_flag sp)"

fun trace_calls ::
  "('k::linorder, 'r::comm_monoid_add) trace_request list \<Rightarrow> ('k, 'r) zset_trace \<Rightarrow> ('k, 'r) zset_trace run" where
  "trace_calls [] sp = ok sp"
| "trace_calls (c # cs) sp = run_bind (trace_call c sp) (trace_calls cs)"

text \<open>What a call costs in the redundant binary notation of the levels, and which calls are allowed.\<close>

fun call_cost :: "('k, 'r) trace_request \<Rightarrow> nat" where
  "call_cost (InsertBatch b) = length (oz_contents b)"
| "call_cost (Exert effort) = max 1 effort"
| "call_cost _ = 0"

fun call_wf :: "('k::linorder, 'r::comm_monoid_add) trace_request \<Rightarrow> bool" where
  "call_wf (InsertBatch b) \<longleftrightarrow> oz_wf b"
| "call_wf _ \<longleftrightarrow> True"

text \<open>
  The abstract trace: a Z-set and the greatest lower bound on keys that was set. An inserted Z-set
  is cut at the bound.
\<close>

record ('k, 'r) abstract_trace =
  at_zset :: "('k, 'r) zset"
  at_bound :: "'k option"

definition cut :: "'k::linorder option \<Rightarrow> ('k, 'r::comm_monoid_add) zset \<Rightarrow> ('k, 'r) zset" where
  "cut bound z k = (if (case bound of None \<Rightarrow> True | Some b \<Rightarrow> b \<le> k) then z k else 0)"

fun abstract_call ::
  "('k::linorder, 'r::comm_monoid_add) trace_request \<Rightarrow> ('k, 'r) abstract_trace \<Rightarrow> ('k, 'r) abstract_trace" where
  "abstract_call (InsertBatch b) a =
     a\<lparr>at_zset := zset_plus (at_zset a) (cut (at_bound a) (oz_zset b))\<rparr>"
| "abstract_call (TruncateKeysBelow k) a =
     (let bound = Some (case at_bound a of None \<Rightarrow> k | Some b \<Rightarrow> max b k)
      in a\<lparr>at_zset := cut bound (at_zset a), at_bound := bound\<rparr>)"
| "abstract_call _ a = a"

definition spine_zset :: "('k, 'r::comm_monoid_add) zset_trace \<Rightarrow> ('k, 'r) zset" where
  "spine_zset sp k = (\<Sum>m\<leftarrow>merging sp. \<Sum>b\<leftarrow>state_batches m. oz_zset b k)"

definition trace_abs :: "('k, 'r::comm_monoid_add) zset_trace \<Rightarrow> ('k, 'r) abstract_trace" where
  "trace_abs sp = \<lparr>at_zset = spine_zset sp, at_bound = lower_key_bound sp\<rparr>"

text \<open>
  The invariant of a trace that has spent \<open>n\<close>: the batches are well-formed, the levels are safe, and
  the levels and the sizes are bounded by what was spent.
\<close>

definition trace_inv :: "nat \<Rightarrow> ('k::linorder, 'r::comm_monoid_add) zset_trace \<Rightarrow> bool" where
  "trace_inv n sp \<longleftrightarrow> ozs.spine_inv sp \<and> weight (merging sp) \<le> 4 * n \<and>
     ozs.levels_siz (merging sp) \<le> n \<and> sp_effort sp = 1"

lemma spine_zset_levels: "spine_zset sp k = ozs.levels_content (merging sp) k"
  by (simp add: spine_zset_def ozs.levels_content_def ozs.state_content_def)

lemma trace_inv_new: "trace_inv 0 (spine_new unit_ops act)"
  by (simp add: trace_inv_def ozs.spine_inv_def spine_new_def with_effort_def ozs.states_ok_def safe_def
      top_held_def ozs.levels_siz_def)

lemma trace_abs_new: "trace_abs (spine_new unit_ops act) = \<lparr>at_zset = (\<lambda>_. 0), at_bound = None\<rparr>"
  by (simp add: trace_abs_def spine_zset_def [abs_def] spine_new_def with_effort_def)

lemma digits_by_kind:
  assumes "map is_double ms' = map is_double ms" and "map is_vacant ms' = map is_vacant ms"
  shows "map digit ms' = map digit ms"
  using assms
proof (induction ms arbitrary: ms')
  case (Cons m ms)
  then obtain m' ms1 where "ms' = m' # ms1" by (cases ms') auto
  then show ?case using Cons by (cases m; cases m') auto
qed simp

lemma weight_cong: "map digit ms' = map digit ms \<Longrightarrow> weight ms' = weight ms"
proof (induction ms arbitrary: ms')
  case (Cons m ms)
  then obtain m' ms1 where "ms' = m' # ms1" by (cases ms') auto
  then show ?case using Cons by auto
qed simp

lemma safe_cong:
  assumes "map digit ms' = map digit ms"
  shows "safe ms' = safe ms" and "top_held ms' = top_held ms"
proof -
  have len: "length ms' = length ms" using assms by (rule map_eq_imp_length_eq)
  have d: "digit (ms' ! k) = digit (ms ! k)" if "k < length ms" for k
    using assms that len by (metis nth_map)
  then have "is_double (ms' ! k) = is_double (ms ! k)" "is_vacant (ms' ! k) = is_vacant (ms ! k)"
    if "k < length ms" for k
    using that digit_kinds(4) digit_kinds(1) by metis+
  moreover have "weight (take k ms') = weight (take k ms)" for k
    using assms by (intro weight_cong) (metis take_map)
  moreover have "ms' = [] \<longleftrightarrow> ms = []" using len by auto
  ultimately show "safe ms' = safe ms" "top_held ms' = top_held ms"
    using len by (cases "ms = []"; simp add: safe_def top_held_def last_conv_nth)+
qed

section \<open>Every call refines its abstract counterpart\<close>

lemma truncate_call:
  assumes "trace_inv n sp"
  shows "\<exists>sp'. spine_truncate_keys_below oz_batch k sp = ok sp' \<and> trace_inv n sp' \<and>
    trace_abs sp' = abstract_call (TruncateKeysBelow k) (trace_abs sp)"
proof -
  let ?b = "case lower_key_bound sp of Some b \<Rightarrow> max b k | None \<Rightarrow> k"
  have st: "ozs.states_ok (lower_val_bound sp) (merging sp)" and inv: "safe (merging sp)" "top_held (merging sp)"
    using assms by (simp_all add: trace_inv_def ozs.spine_inv_def)
  note t = ozs.truncate_ok [OF st, of k]
  obtain sp' where sp': "spine_truncate_keys_below oz_batch k sp = ok sp'"
    "ozs.states_ok (lower_val_bound sp') (merging sp')"
    "ozs.levels_siz (merging sp') \<le> ozs.levels_siz (merging sp)"
    "map is_double (merging sp') = map is_double (merging sp)"
    "map is_vacant (merging sp') = map is_vacant (merging sp)" "lower_key_bound sp' = Some ?b"
    using t by blast
  have c: "spine_zset sp' x = (if ?b \<le> x then spine_zset sp x else 0)" for x
    using t [of x] sp'(1) by (auto simp: spine_zset_levels)
  have d: "map digit (merging sp') = map digit (merging sp)" using sp'(4,5) by (rule digits_by_kind)
  have "sp_effort sp' = sp_effort sp"
    using sp'(1) by (auto simp: spine_truncate_keys_below_def complete_merges_def map_batches_mut_def Let_def
        run_bind_eq_ok split: if_splits)
  then have "trace_inv n sp'"
    using assms sp'(2,3) safe_cong [OF d] weight_cong [OF d] by (simp add: trace_inv_def ozs.spine_inv_def)
  moreover have "trace_abs sp' = abstract_call (TruncateKeysBelow k) (trace_abs sp)"
    using sp'(6) c by (auto simp: trace_abs_def fun_eq_iff cut_def Let_def split: option.splits)
  ultimately show ?thesis using sp'(1) by blast
qed

lemma insert_call:
  assumes "trace_inv n sp" and "oz_wf b" and "n + length (oz_contents b) < 2 ^ 29"
  shows "\<exists>sp'. spine_insert oz_batch unit_ops b sp = ok sp' \<and> trace_inv (n + length (oz_contents b)) sp' \<and>
    trace_abs sp' = abstract_call (InsertBatch b) (trace_abs sp)"
proof -
  have inv: "ozs.spine_inv sp" "weight (merging sp) \<le> 4 * n" "ozs.levels_siz (merging sp) \<le> n" "sp_effort sp = 1"
    using assms(1) by (simp_all add: trace_inv_def)
  obtain sp' where sp': "spine_insert oz_batch unit_ops b sp = ok sp'" "ozs.spine_inv sp'"
    "weight (merging sp') \<le> weight (merging sp) + 4 * length (oz_contents b)"
    "ozs.levels_siz (merging sp') \<le> ozs.levels_siz (merging sp) + length (oz_contents b)"
    "sp_effort sp' = sp_effort sp" "lower_key_bound sp' = lower_key_bound sp"
    "\<forall>x. ozs.levels_content (merging sp') x = ozs.levels_content (merging sp) x +
      (if ozs.above (lower_key_bound sp) x then oz_zset b x else 0)"
    using ozs.spine_insert_ok [OF inv(1) assms(2), of unit_ops] inv(2-4) assms(3) by auto
  have "trace_inv (n + length (oz_contents b)) sp'" using sp'(2-5) inv by (simp add: trace_inv_def)
  moreover have "trace_abs sp' = abstract_call (InsertBatch b) (trace_abs sp)"
    using sp'(6,7) by (simp add: trace_abs_def spine_zset_levels zset_plus_def cut_def fun_eq_iff ozs.above_def
        split: option.splits)
  ultimately show ?thesis using sp'(1) by blast
qed

lemma exert_call:
  assumes "trace_inv n sp" and "n + max 1 e < 2 ^ 29"
  shows "\<exists>sp'. exert oz_batch (int e) sp = ok sp' \<and> trace_inv (n + max 1 e) sp' \<and> trace_abs sp' = trace_abs sp"
proof -
  have inv: "ozs.spine_inv sp" "weight (merging sp) \<le> 4 * n" "ozs.levels_siz (merging sp) \<le> n" "sp_effort sp = 1"
    using assms(1) by (simp_all add: trace_inv_def)
  have st: "ozs.states_ok (lower_val_bound sp) (merging sp)" using inv(1) by (simp add: ozs.spine_inv_def)
  have w: "weight (merging sp) + 4 * max 1 (nat (int e)) < 2 ^ 31" using inv(2) assms(2) by simp
  obtain sp' where sp': "exert oz_batch (int e) sp = ok sp'" "ozs.spine_inv sp'"
    "weight (merging sp') \<le> weight (merging sp) + 4 * max 1 e" "sp_effort sp' = sp_effort sp"
    "lower_key_bound sp' = lower_key_bound sp"
    using ozs.exert_ok [OF inv(1) w] inv(3,4) assms(2) by auto
  have "ozs.moves_to (lower_val_bound sp) (merging sp) (merging sp') (\<lambda>_. 0) 0"
    using ozs.exert_returns [OF st sp'(1)] by simp
  then have "ozs.levels_siz (merging sp') \<le> ozs.levels_siz (merging sp)" "spine_zset sp' = spine_zset sp"
    by (simp_all add: ozs.moves_to_def spine_zset_levels fun_eq_iff)
  then show ?thesis using sp' inv by (auto simp: trace_inv_def trace_abs_def)
qed

lemma recede_call:
  assumes "trace_inv n sp"
  shows "\<exists>sp'. spine_recede_to oz_batch () sp = ok sp' \<and> trace_inv n sp' \<and> trace_abs sp' = trace_abs sp"
proof -
  have st: "ozs.states_ok (lower_val_bound sp) (merging sp)"
    using assms by (simp add: trace_inv_def ozs.spine_inv_def)
  obtain ms where ms: "complete_merges oz_batch sp = ok (sp\<lparr>merging := ms\<rparr>)"
    "ozs.moves_to (lower_val_bound sp) (merging sp) ms (\<lambda>_. 0) 0" "list_all (\<lambda>m. \<not> is_inprogress m) ms"
    "map is_double ms = map is_double (merging sp)" "map is_vacant ms = map is_vacant (merging sp)"
    using ozs.complete_merges_ok [OF st] by blast
  have id: "map_state_mut (\<lambda>b. bt_recede_to oz_batch b ()) m = ok m" if "\<not> is_inprogress m"
    for m :: "(('a, 'b) ord_zset, ('a, 'b) oz_merger) merge_state"
    using that by (cases m rule: state_batches.cases) (simp_all add: oz_batch_def oz_recede_to_def)
  have "map_batches_mut_loop (\<lambda>b. bt_recede_to oz_batch b ()) ms = ok ms"
    using ms(3) by (induction ms) (simp_all add: id)
  then have "spine_recede_to oz_batch () sp = ok (sp\<lparr>merging := ms\<rparr>)"
    using ms(1) by (simp add: spine_recede_to_def map_batches_mut_def)
  moreover have d: "map digit ms = map digit (merging sp)" using ms(4,5) by (rule digits_by_kind)
  moreover have "trace_inv n (sp\<lparr>merging := ms\<rparr>)"
    using assms ms(2) safe_cong [OF d] weight_cong [OF d]
    by (auto simp: trace_inv_def ozs.spine_inv_def ozs.moves_to_def)
  moreover have "trace_abs (sp\<lparr>merging := ms\<rparr>) = trace_abs sp"
    using ms(2) by (simp add: trace_abs_def fun_eq_iff spine_zset_levels ozs.moves_to_def)
  ultimately show ?thesis by blast
qed

text \<open>The lower value bound does not matter to this batch type.\<close>

lemma states_ok_bound: "ozs.states_ok lvb ms = ozs.states_ok lvb' ms"
proof -
  have "ozs.state_ok lvb m = ozs.state_ok lvb' m" for m :: "(('a, 'b) ord_zset, ('a, 'b) oz_merger) merge_state"
    by (cases m rule: is_complete.cases) simp_all
  then show ?thesis by (simp add: ozs.states_ok_def)
qed

lemma values_call:
  "trace_inv n sp \<Longrightarrow> trace_inv n (spine_truncate_values_below () sp)"
  "trace_abs (spine_truncate_values_below () sp) = trace_abs sp"
  using states_ok_bound [of "lower_val_bound sp" "merging sp"]
  by (auto simp: trace_inv_def trace_abs_def ozs.spine_inv_def spine_truncate_values_below_def spine_zset_def fun_eq_iff)

lemma dirty_call:
  "trace_inv n sp \<Longrightarrow> trace_inv n (clear_dirty_flag sp)" "trace_abs (clear_dirty_flag sp) = trace_abs sp"
  by (simp_all add: trace_inv_def trace_abs_def ozs.spine_inv_def clear_dirty_flag_def spine_zset_def fun_eq_iff)

lemma trace_call_ok:
  assumes "trace_inv n sp" and "call_wf c" and "n + call_cost c < 2 ^ 29"
  shows "\<exists>sp'. trace_call c sp = ok sp' \<and> trace_inv (n + call_cost c) sp' \<and>
    trace_abs sp' = abstract_call c (trace_abs sp)"
proof (cases c)
  case (InsertBatch b)
  then show ?thesis using insert_call [of n sp b] assms by simp
next
  case (TruncateKeysBelow k)
  then show ?thesis using truncate_call [OF assms(1), of k] by simp
next
  case (Exert e)
  then show ?thesis using exert_call [OF assms(1), of e] assms(3) by simp
next
  case RecedeTo
  then show ?thesis using recede_call [OF assms(1)] by simp
next
  case TruncateValuesBelow
  then show ?thesis using values_call(1) [of n sp] values_call(2) [of sp] assms(1) by simp
next
  case ClearDirtyFlag
  then show ?thesis using dirty_call(1) [of n sp] dirty_call(2) [of sp] assms(1) by simp
qed

lemma trace_calls_ok:
  assumes "trace_inv n sp" and "list_all call_wf cs" and "n + (\<Sum>c\<leftarrow>cs. call_cost c) < 2 ^ 29"
  shows "\<exists>sp'. trace_calls cs sp = ok sp' \<and> trace_inv (n + (\<Sum>c\<leftarrow>cs. call_cost c)) sp' \<and>
    trace_abs sp' = fold abstract_call cs (trace_abs sp)"
  using assms
proof (induction cs arbitrary: n sp)
  case (Cons c cs)
  obtain sp1 where "trace_call c sp = ok sp1" "trace_inv (n + call_cost c) sp1"
    "trace_abs sp1 = abstract_call c (trace_abs sp)"
    using trace_call_ok [OF Cons.prems(1), of c] Cons.prems(2,3) by auto
  then show ?case using Cons.IH [of "n + call_cost c" sp1] Cons.prems by (simp add: add.assoc)
qed simp

lemma count_smaller_result: "count_smaller i a ms = Inl Overflow \<or> (\<exists>x. count_smaller i a ms = Inr x)"
proof (induction ms arbitrary: i a)
  case (Cons m ms)
  have "res_bind (i32_shl x i) (i32_add a) = Inl Overflow \<or> (\<exists>y. res_bind (i32_shl x i) (i32_add a) = Inr y)" for x
    by (auto simp: i32_shl_def i32_add_def)
  then have "(case m of Vacant \<Rightarrow> Inr a | Single _ \<Rightarrow> res_bind (i32_shl 1 i) (i32_add a)
      | Double _ \<Rightarrow> res_bind (i32_shl 2 i) (i32_add a)) = Inl Overflow \<or>
    (\<exists>y. (case m of Vacant \<Rightarrow> Inr a | Single _ \<Rightarrow> res_bind (i32_shl 1 i) (i32_add a)
      | Double _ \<Rightarrow> res_bind (i32_shl 2 i) (i32_add a)) = Inr y)" by (cases m) auto
  then show ?case
  proof
    assume "\<exists>y. (case m of Vacant \<Rightarrow> Inr a | Single _ \<Rightarrow> res_bind (i32_shl 1 i) (i32_add a)
      | Double _ \<Rightarrow> res_bind (i32_shl 2 i) (i32_add a)) = Inr y"
    then obtain y where "(case m of Vacant \<Rightarrow> Inr a | Single _ \<Rightarrow> res_bind (i32_shl 1 i) (i32_add a)
      | Double _ \<Rightarrow> res_bind (i32_shl 2 i) (i32_add a)) = Inr y" ..
    then show ?thesis using Cons.IH [of "Suc i" y] by simp
  qed simp
qed simp

lemma log_ceil_le: "n \<le> 2 ^ k \<Longrightarrow> log_ceil n \<le> k"
proof (cases "n = 0")
  case False
  assume "n \<le> 2 ^ k"
  then have "(2 :: nat) ^ log_ceil n < 2 ^ Suc k" using log_ceil_bounds(2) [of n] False by simp
  then show ?thesis using power_less_imp_less_exp [of "2 :: nat" "log_ceil n" "Suc k"] by simp
qed (simp add: log_ceil_def)

section \<open>Properties\<close>

text \<open>
  C3. A trace refines the abstract trace: every sequence of insertions, truncations and maintenance
  calls on a new trace returns, without meeting a merge in progress where it needs room, an
  overflowing shift or a failing assertion, and leaves a trace that denotes the Z-set and the bound of the
  abstract calls. The cost of the calls (the number of inserted tuples, the effort of every
  \<^verbatim>\<open>exert\<close>) is at most \<open>2 ^ 29\<close>, which keeps the levels below the 32 at which \<^verbatim>\<open>tidy_layers\<close> overflows.
\<close>

theorem trace_refines_abstract_trace:
  assumes "list_all call_wf cs" and "(\<Sum>c\<leftarrow>cs. call_cost c) < 2 ^ 29"
  shows "\<exists>sp. trace_calls cs (spine_new unit_ops act) = ok sp \<and>
    trace_abs sp = fold abstract_call cs \<lparr>at_zset = (\<lambda>_. 0), at_bound = None\<rparr>"
  using trace_calls_ok [OF trace_inv_new assms(1), of act] assms(2) by (auto simp: trace_abs_new)

definition sample_requests :: "(nat, int) trace_request list" where
  "sample_requests = [InsertBatch sample_zset, Exert 3, InsertBatch sample_zset, TruncateKeysBelow 2,
     InsertBatch sample_zset, RecedeTo, ClearDirtyFlag]"

theorem trace_refines_abstract_trace_witness:
  "\<exists>sp. trace_calls sample_requests (spine_new unit_ops (Some 0)) = ok sp \<and>
    trace_abs sp = fold abstract_call sample_requests \<lparr>at_zset = (\<lambda>_. 0), at_bound = None\<rparr>"
  by (rule trace_refines_abstract_trace)
     (simp_all add: sample_requests_def sample_zset_wf sample_zset_contents)

text \<open>
  C4. \<^verbatim>\<open>consolidate\<close> ends and loses nothing: after any such sequence of calls its maintenance loop
  terminates, and the batch it returns is well-formed and has the Z-set of the trace; it returns no
  batch only when that Z-set is zero.
\<close>

theorem consolidate_terminates:
  assumes "list_all call_wf cs" and "(\<Sum>c\<leftarrow>cs. call_cost c) < 2 ^ 29"
    and "trace_calls cs (spine_new unit_ops act) = ok sp"
  shows "\<exists>b. spine_consolidate oz_batch sp = ok b \<and> (\<forall>z. b = Some z \<longrightarrow> oz_wf z) \<and>
    (case b of None \<Rightarrow> (\<lambda>_. 0) | Some z \<Rightarrow> oz_zset z) = spine_zset sp"
proof -
  have "trace_inv (\<Sum>c\<leftarrow>cs. call_cost c) sp"
    using trace_calls_ok [OF trace_inv_new assms(1), of act] assms(2,3) by auto
  then have "ozs.consolidating sp" using assms(2) by (auto simp: trace_inv_def ozs.consolidating_def)
  then obtain b where b: "spine_consolidate oz_batch sp = ok b" "ozs.opt_ok b"
    "\<forall>x. ozs.opt_content b x = ozs.levels_content (merging sp) x"
    using ozs.spine_consolidate_ok by blast
  then have "(case b of None \<Rightarrow> (\<lambda>_. 0) | Some z \<Rightarrow> oz_zset z) = spine_zset sp"
    by (cases b) (auto simp: fun_eq_iff spine_zset_levels)
  then show ?thesis using b by (auto simp: ozs.opt_ok_def)
qed

theorem consolidate_terminates_witness:
  "\<exists>sp b. trace_calls sample_requests (spine_new unit_ops None) = ok sp \<and>
    spine_consolidate oz_batch sp = ok b \<and>
    (case b of None \<Rightarrow> (\<lambda>_. 0) | Some z \<Rightarrow> oz_zset z) = spine_zset sp"
proof -
  have wf: "list_all call_wf sample_requests" "(\<Sum>c\<leftarrow>sample_requests. call_cost c) < 2 ^ 29"
    by (simp_all add: sample_requests_def sample_zset_wf sample_zset_contents)
  obtain sp where "trace_calls sample_requests (spine_new unit_ops None) = ok sp"
    using trace_calls_ok [OF trace_inv_new wf(1)] wf(2) by auto
  then show ?thesis using consolidate_terminates [OF wf] by blast
qed

text \<open>
  C14. The levels of a reachable trace are safe: below a merge at level \<open>k\<close> the levels hold less than
  \<open>2 ^ k\<close>, the top level is not vacant, and the number of levels is logarithmic in the cost of the
  calls, whatever was truncated in between.
\<close>

theorem trace_levels_invariant:
  assumes "list_all call_wf cs" and "(\<Sum>c\<leftarrow>cs. call_cost c) < 2 ^ 29"
    and "trace_calls cs (spine_new unit_ops act) = ok sp"
  shows "safe (merging sp) \<and> top_held (merging sp) \<and>
    (merging sp \<noteq> [] \<longrightarrow> 2 ^ (length (merging sp) - 1) \<le> 4 * (\<Sum>c\<leftarrow>cs. call_cost c))"
proof -
  have inv: "trace_inv (\<Sum>c\<leftarrow>cs. call_cost c) sp"
    using trace_calls_ok [OF trace_inv_new assms(1), of act] assms(2,3) by auto
  then have top: "top_held (merging sp)" by (simp add: trace_inv_def ozs.spine_inv_def)
  show ?thesis
    using inv top_held_length [OF top] by (auto simp: trace_inv_def ozs.spine_inv_def intro: order_trans)
qed

theorem trace_levels_invariant_witness:
  "\<exists>sp. trace_calls sample_requests (spine_new unit_ops None) = ok sp \<and> safe (merging sp) \<and> top_held (merging sp)"
proof -
  have wf: "list_all call_wf sample_requests" "(\<Sum>c\<leftarrow>sample_requests. call_cost c) < 2 ^ 29"
    by (simp_all add: sample_requests_def sample_zset_wf sample_zset_contents)
  obtain sp where "trace_calls sample_requests (spine_new unit_ops None) = ok sp"
    using trace_calls_ok [OF trace_inv_new wf(1)] wf(2) by auto
  then show ?thesis using trace_levels_invariant [OF wf] by blast
qed

text \<open>
  C37. \<^verbatim>\<open>tidy_layers\<close> computes with 32-bit integers: when a spine of 32 levels or more has a batch at its top
  level that belongs at least one level lower and a batch at the level below, the shift \<^verbatim>\<open>1 << length\<close>
  overflows, for every batch type.
\<close>

theorem tidy_layers_overflows:
  assumes "merging sp = ms @ [Single (Some b), Single (Some t)]" and "30 \<le> length ms"
    and "bt_len bt t = Inr n" and "n \<le> 2 ^ min 63 (length ms)"
  shows "tidy_layers bt sp = Some (Inl Overflow)"
proof -
  have n: "n \<le> 2 ^ 63" "n \<le> 2 ^ length ms"
    using assms(4) power_increasing [of "min 63 (length ms)" 63 "2 :: nat"]
      power_increasing [of "min 63 (length ms)" "length ms" "2 :: nat"] by (auto intro: order_trans)
  then have "log_ceil n < length ms + 1" using log_ceil_le by (simp add: less_Suc_eq_le)
  moreover have "i32_shl 1 (length ms + 2) = Inl Overflow" using assms(2) by (simp add: i32_shl_def)
  ultimately have "tidy_loop bt (log_ceil n) (merging sp) = Some (Inl Overflow)"
    using count_smaller_result [of 0 0 ms] assms(1)
    by (subst tidy_loop.simps) (auto simp: Let_def nth_append lift_res_def)
  then show ?thesis
    using assms(1,3) n(1)
    by (simp add: tidy_layers_def usize_next_power_of_two_def next_power_of_two_log)
qed

definition tall_trace :: "(nat, int) zset_trace" where
  "tall_trace = (spine_new unit_ops None)
     \<lparr>merging := replicate 30 Vacant @ [Single (Some sample_zset), Single (Some sample_zset)]\<rparr>"

theorem tidy_layers_overflows_witness: "tidy_layers oz_batch tall_trace = Some (Inl Overflow)"
proof (rule tidy_layers_overflows)
  show "merging tall_trace = replicate 30 Vacant @ [Single (Some sample_zset), Single (Some sample_zset)]"
    by (simp add: tall_trace_def)
  show "bt_len oz_batch sample_zset = Inr 3"
    using oz_batch_len_ok [OF sample_zset_wf] by (simp add: oz_batch_def sample_zset_contents)
qed simp_all

end
