(* ===== verification/Cursor_List.thy ===== *)
theory Cursor_List
  imports Cursors
begin

text \<open>
  The merging cursor: \<^verbatim>\<open>crates/dbsp/src/trace/cursor/cursor_list.rs\<close>. A cursor list holds cursors over
  different batches with the indices of the ones at the least key, and of those at the least value
  of that key. It is generic in the cursor type, as the code is.
\<close>

datatype direction = Forward | Backward

record 'c cursor_list =
  cursors :: "'c list"
  current_key :: "nat list"
  current_val :: "nat list"
  direction :: direction

definition cursor_at :: "'c cursor_list \<Rightarrow> nat \<Rightarrow> 'c res" where
  "cursor_at self i = (if i < length (cursors self) then Inr (cursors self ! i) else Inl IndexOutOfBounds)"

text \<open>
  The scan that the four functions below share, each with its own comparison: \<open>best\<close> is
  \<^verbatim>\<open>min_key_opt\<close> (or \<^verbatim>\<open>max_key_opt\<close>, \<^verbatim>\<open>min_val\<close>, \<^verbatim>\<open>max_val\<close>) and \<open>current\<close> the list of indices.
\<close>

fun scan_loop ::
  "('a \<Rightarrow> 'a \<Rightarrow> bool) \<Rightarrow> (nat \<Rightarrow> 'a option res) \<Rightarrow> nat list \<Rightarrow> 'a option \<Rightarrow> nat list \<Rightarrow> nat list res" where
  "scan_loop better get [] best current = Inr current"
| "scan_loop better get (index # indices) best current =
     res_bind (get index) (\<lambda>key.
     case key of
       None \<Rightarrow> scan_loop better get indices best current
     | Some k \<Rightarrow>
         let (best, current) =
           (if best = None \<or> better k (the best) then (Some k, []) else (best, current));
             current = (if Some k = best then current @ [index] else current)
         in scan_loop better get indices best current)"

definition minimize_vals ::
  "('c, 'k, 'v::linorder, 't, 'r, 'z) cursor_ops_scheme \<Rightarrow> 'c cursor_list \<Rightarrow> 'c cursor_list res" where
  "minimize_vals ops self =
     (if direction self \<noteq> Forward then Inl DebugAssert
      else
        res_map (\<lambda>vs. self\<lparr>current_val := vs\<rparr>)
          (scan_loop (<) (\<lambda>i. res_bind (cursor_at self i) (co_get_val ops)) (current_key self) None []))"

definition maximize_vals ::
  "('c, 'k, 'v::linorder, 't, 'r, 'z) cursor_ops_scheme \<Rightarrow> 'c cursor_list \<Rightarrow> 'c cursor_list res" where
  "maximize_vals ops self =
     (if direction self \<noteq> Backward then Inl DebugAssert
      else
        res_map (\<lambda>vs. self\<lparr>current_val := vs\<rparr>)
          (scan_loop (>) (\<lambda>i. res_bind (cursor_at self i) (co_get_val ops)) (current_key self) None []))"

definition minimize_keys ::
  "('c, 'k::linorder, 'v::linorder, 't, 'r, 'z) cursor_ops_scheme \<Rightarrow> 'c cursor_list \<Rightarrow> 'c cursor_list res" where
  "minimize_keys ops self =
     (if direction self \<noteq> Forward then Inl DebugAssert
      else
        res_bind (scan_loop (<) (\<lambda>i. co_get_key ops (cursors self ! i)) [0..<length (cursors self)] None [])
          (\<lambda>ks. minimize_vals ops (self\<lparr>current_key := ks\<rparr>)))"

definition maximize_keys ::
  "('c, 'k::linorder, 'v::linorder, 't, 'r, 'z) cursor_ops_scheme \<Rightarrow> 'c cursor_list \<Rightarrow> 'c cursor_list res" where
  "maximize_keys ops self =
     res_bind (scan_loop (>) (\<lambda>i. co_get_key ops (cursors self ! i)) [0..<length (cursors self)] None [])
       (\<lambda>ks. minimize_vals ops (self\<lparr>current_key := ks\<rparr>))"

definition cursor_list_new ::
  "('c, 'k::linorder, 'v::linorder, 't, 'r, 'z) cursor_ops_scheme \<Rightarrow> 'c list \<Rightarrow> 'c cursor_list res" where
  "cursor_list_new ops cs =
     minimize_keys ops \<lparr>cursors = cs, current_key = [], current_val = [], direction = Forward\<rparr>"

section \<open>Reading\<close>

definition cls_key_valid :: "'c cursor_list \<Rightarrow> bool" where
  "cls_key_valid self \<longleftrightarrow> current_key self \<noteq> []"

definition cls_val_valid :: "'c cursor_list \<Rightarrow> bool" where
  "cls_val_valid self \<longleftrightarrow> current_val self \<noteq> []"

definition cls_key :: "('c, 'k, 'v, 't, 'r, 'z) cursor_ops_scheme \<Rightarrow> 'c cursor_list \<Rightarrow> 'k res" where
  "cls_key ops self =
     (if \<not> cls_key_valid self then Inl DebugAssert
      else
        res_bind (cursor_at self (current_key self ! 0)) (\<lambda>c.
        if \<not> co_key_valid ops c then Inl DebugAssert else co_key ops c))"

definition cls_val :: "('c, 'k, 'v, 't, 'r, 'z) cursor_ops_scheme \<Rightarrow> 'c cursor_list \<Rightarrow> 'v res" where
  "cls_val ops self =
     (if \<not> cls_key_valid self \<or> \<not> cls_val_valid self then Inl DebugAssert
      else
        res_bind (cursor_at self (current_val self ! 0)) (\<lambda>c.
        if \<not> co_val_valid ops c then Inl DebugAssert else co_val ops c))"

text \<open>The folds over times: a call at every index, with the pairs it visits.\<close>

fun times_loop ::
  "('c \<Rightarrow> ('a list \<times> 'c) run) \<Rightarrow> nat list \<Rightarrow> 'a list \<Rightarrow> 'c cursor_list \<Rightarrow> ('a list \<times> 'c cursor_list) run" where
  "times_loop f [] ts self = ok (ts, self)"
| "times_loop f (index # indices) ts self =
     run_bind (lift_res (cursor_at self index)) (\<lambda>c.
     run_bind (f c) (\<lambda>(ts', c).
     times_loop f indices (ts @ ts') (self\<lparr>cursors := (cursors self)[index := c]\<rparr>)))"

definition cls_times ::
  "('c, 'k, 'v, 't, 'r, 'z) cursor_ops_scheme \<Rightarrow> 'c cursor_list \<Rightarrow> (('t \<times> 'r) list \<times> 'c cursor_list) run" where
  "cls_times ops self = times_loop (co_times ops) (current_val self) [] self"

definition cls_times_through ::
  "('c, 'k, 'v, 't, 'r, 'z) full_cursor_ops_scheme \<Rightarrow> 'c cursor_list \<Rightarrow> 't \<Rightarrow>
   (('t \<times> 'r) list \<times> 'c cursor_list) run" where
  "cls_times_through ops self upper = times_loop (\<lambda>c. co_times_through ops c upper) (current_val self) [] self"

definition cls_weight ::
  "('c, 'k, 'v, 't, 'r::comm_monoid_add, 'z) cursor_ops_scheme \<Rightarrow> 'c cursor_list \<Rightarrow> ('r \<times> 'c cursor_list) run" where
  "cls_weight ops self =
     (if \<not> cls_key_valid self \<or> \<not> cls_val_valid self then lift_res (Inl DebugAssert)
      else
        run_bind (lift_res (cursor_at self (current_val self ! 0))) (\<lambda>c.
        if \<not> co_val_valid ops c then lift_res (Inl DebugAssert)
        else run_bind (cls_times ops self) (\<lambda>(ts, self). ok (fold (\<lambda>(t, w) res. res + w) ts 0, self))))"

section \<open>Moving\<close>

fun each_at :: "('c \<Rightarrow> 'c run) \<Rightarrow> nat list \<Rightarrow> 'c cursor_list \<Rightarrow> 'c cursor_list run" where
  "each_at f [] self = ok self"
| "each_at f (index # indices) self =
     run_bind (lift_res (cursor_at self index)) (\<lambda>c.
     run_bind (f c) (\<lambda>c.
     each_at f indices (self\<lparr>cursors := (cursors self)[index := c]\<rparr>)))"

text \<open>\<^verbatim>\<open>for cursor in self.cursors.iter_mut()\<close> is the same loop over all indices.\<close>

definition each_cursor :: "('c \<Rightarrow> 'c run) \<Rightarrow> 'c cursor_list \<Rightarrow> 'c cursor_list run" where
  "each_cursor f self = each_at f [0..<length (cursors self)] self"

definition forwards :: "'c cursor_list \<Rightarrow> 'c cursor_list" where
  "forwards self = self\<lparr>direction := Forward\<rparr>"

definition cls_step_key ::
  "('c, 'k::linorder, 'v::linorder, 't, 'r, 'z) cursor_ops_scheme \<Rightarrow> 'c cursor_list \<Rightarrow> 'c cursor_list run" where
  "cls_step_key ops self =
     run_bind (each_at (co_step_key ops) (current_key self) self) (\<lambda>self.
     lift_res (minimize_keys ops (forwards self)))"

definition cls_step_key_reverse ::
  "('c, 'k::linorder, 'v::linorder, 't, 'r, 'z) full_cursor_ops_scheme \<Rightarrow> 'c cursor_list \<Rightarrow> 'c cursor_list run" where
  "cls_step_key_reverse ops self =
     run_bind (each_at (co_step_key_reverse ops) (current_key self) self) (\<lambda>self.
     lift_res (maximize_keys ops (forwards self)))"

definition cls_seek_key ::
  "('c, 'k::linorder, 'v::linorder, 't, 'r, 'z) cursor_ops_scheme \<Rightarrow> 'c cursor_list \<Rightarrow> 'k \<Rightarrow> 'c cursor_list run" where
  "cls_seek_key ops self key =
     run_bind (each_cursor (\<lambda>c. co_seek_key ops c key) self) (\<lambda>self.
     lift_res (minimize_keys ops (forwards self)))"

definition cls_seek_key_reverse ::
  "('c, 'k::linorder, 'v::linorder, 't, 'r, 'z) full_cursor_ops_scheme \<Rightarrow> 'c cursor_list \<Rightarrow> 'k \<Rightarrow> 'c cursor_list run" where
  "cls_seek_key_reverse ops self key =
     run_bind (each_cursor (\<lambda>c. co_seek_key_reverse ops c key) self) (\<lambda>self.
     lift_res (maximize_keys ops (forwards self)))"

definition cls_step_val ::
  "('c, 'k, 'v::linorder, 't, 'r, 'z) cursor_ops_scheme \<Rightarrow> 'c cursor_list \<Rightarrow> 'c cursor_list run" where
  "cls_step_val ops self =
     (if direction self \<noteq> Forward then lift_res (Inl DebugAssert)
      else
        run_bind (each_at (co_step_val ops) (current_val self) self) (\<lambda>self. lift_res (minimize_vals ops self)))"

definition cls_seek_val ::
  "('c, 'k, 'v::linorder, 't, 'r, 'z) full_cursor_ops_scheme \<Rightarrow> 'c cursor_list \<Rightarrow> 'v \<Rightarrow> 'c cursor_list run" where
  "cls_seek_val ops self val =
     (if direction self \<noteq> Forward then lift_res (Inl DebugAssert)
      else
        run_bind (each_at (\<lambda>c. co_seek_val ops c val) (current_key self) self) (\<lambda>self.
        lift_res (minimize_vals ops self)))"

definition cls_seek_val_with ::
  "('c, 'k, 'v::linorder, 't, 'r, 'z) full_cursor_ops_scheme \<Rightarrow> 'c cursor_list \<Rightarrow> ('v \<Rightarrow> bool) \<Rightarrow> 'c cursor_list run" where
  "cls_seek_val_with ops self predicate =
     (if direction self \<noteq> Forward then lift_res (Inl DebugAssert)
      else
        run_bind (each_at (\<lambda>c. co_seek_val_with ops c predicate) (current_key self) self) (\<lambda>self.
        lift_res (minimize_vals ops self)))"

definition cls_rewind_keys ::
  "('c, 'k::linorder, 'v::linorder, 't, 'r, 'z) cursor_ops_scheme \<Rightarrow> 'c cursor_list \<Rightarrow> 'c cursor_list run" where
  "cls_rewind_keys ops self =
     run_bind (each_cursor (co_rewind_keys ops) self) (\<lambda>self. lift_res (minimize_keys ops (forwards self)))"

definition cls_fast_forward_keys ::
  "('c, 'k::linorder, 'v::linorder, 't, 'r, 'z) full_cursor_ops_scheme \<Rightarrow> 'c cursor_list \<Rightarrow> 'c cursor_list run" where
  "cls_fast_forward_keys ops self =
     run_bind (each_cursor (co_fast_forward_keys ops) self) (\<lambda>self.
     lift_res (maximize_keys ops (forwards self)))"

definition cls_rewind_vals ::
  "('c, 'k, 'v::linorder, 't, 'r, 'z) cursor_ops_scheme \<Rightarrow> 'c cursor_list \<Rightarrow> 'c cursor_list run" where
  "cls_rewind_vals ops self =
     run_bind (each_at (co_rewind_vals ops) (current_key self) self) (\<lambda>self.
     lift_res (minimize_vals ops (forwards self)))"

definition cls_step_val_reverse ::
  "('c, 'k, 'v::linorder, 't, 'r, 'z) full_cursor_ops_scheme \<Rightarrow> 'c cursor_list \<Rightarrow> 'c cursor_list run" where
  "cls_step_val_reverse ops self =
     (if direction self \<noteq> Backward then lift_res (Inl DebugAssert)
      else
        run_bind (each_at (co_step_val_reverse ops) (current_val self) self) (\<lambda>self.
        lift_res (maximize_vals ops self)))"

definition cls_seek_val_reverse ::
  "('c, 'k, 'v::linorder, 't, 'r, 'z) full_cursor_ops_scheme \<Rightarrow> 'c cursor_list \<Rightarrow> 'v \<Rightarrow> 'c cursor_list run" where
  "cls_seek_val_reverse ops self val =
     (if direction self \<noteq> Backward then lift_res (Inl DebugAssert)
      else
        run_bind (each_at (\<lambda>c. co_seek_val_reverse ops c val) (current_key self) self) (\<lambda>self.
        lift_res (maximize_vals ops self)))"

definition cls_seek_val_with_reverse ::
  "('c, 'k, 'v::linorder, 't, 'r, 'z) full_cursor_ops_scheme \<Rightarrow> 'c cursor_list \<Rightarrow> ('v \<Rightarrow> bool) \<Rightarrow> 'c cursor_list run" where
  "cls_seek_val_with_reverse ops self predicate =
     (if direction self \<noteq> Backward then lift_res (Inl DebugAssert)
      else
        run_bind (each_at (\<lambda>c. co_seek_val_with_reverse ops c predicate) (current_key self) self) (\<lambda>self.
        lift_res (maximize_vals ops self)))"

definition cls_fast_forward_vals ::
  "('c, 'k, 'v::linorder, 't, 'r, 'z) full_cursor_ops_scheme \<Rightarrow> 'c cursor_list \<Rightarrow> 'c cursor_list run" where
  "cls_fast_forward_vals ops self =
     run_bind (each_at (co_fast_forward_vals ops) (current_key self) self) (\<lambda>self.
     lift_res (maximize_vals ops (self\<lparr>direction := Backward\<rparr>)))"

text \<open>The method table of the list, from the table of its cursors.\<close>

definition cls_ops ::
  "('c, 'k::linorder, 'v::linorder, 't, 'r, 'z) cursor_ops_scheme \<Rightarrow>
   ('c cursor_list, 'k, 'v, 't, 'r) cursor_ops" where
  "cls_ops ops =
     \<lparr>co_key_valid = cls_key_valid, co_val_valid = cls_val_valid, co_key = cls_key ops, co_val = cls_val ops,
      co_times = cls_times ops, co_step_key = cls_step_key ops, co_step_val = cls_step_val ops,
      co_seek_key = cls_seek_key ops, co_rewind_keys = cls_rewind_keys ops, co_rewind_vals = cls_rewind_vals ops\<rparr>"

definition cls_full_ops ::
  "('c, 'k::linorder, 'v::linorder, 't, 'r, 'z) full_cursor_ops_scheme \<Rightarrow>
   ('c cursor_list, 'k, 'v, 't, 'r) full_cursor_ops" where
  "cls_full_ops ops = cursor_ops.extend (cls_ops ops)
     (full_cursor_ops.fields (cls_times_through ops) (cls_step_key_reverse ops) (cls_seek_key_reverse ops)
       (cls_fast_forward_keys ops) (cls_seek_val ops) (cls_seek_val_with ops) (cls_step_val_reverse ops)
       (cls_seek_val_reverse ops) (cls_seek_val_with_reverse ops) (cls_fast_forward_vals ops))"

end
