(* ===== verification/Cursor_List_Laws.thy ===== *)
theory Cursor_List_Laws
  imports Cursor_List
begin

text \<open>
  A cursor list over cursors that honour the contract of the trait honours it too: it walks the
  merge of what its cursors walk. \<open>kmerge\<close> is the merge of sorted association lists; it is used
  once for the keys and once for the values of a key.
\<close>

section \<open>Merging sorted association lists\<close>

definition keys_of :: "('k \<times> 'p) list list \<Rightarrow> 'k set" where
  "keys_of gss = (\<Union>gs \<in> set gss. fst ` set gs)"

definition at_key :: "'k \<Rightarrow> ('k \<times> 'p) list list \<Rightarrow> 'p list" where
  "at_key k gss = concat (map (\<lambda>gs. map snd (filter (\<lambda>g. fst g = k) gs)) gss)"

definition kmerge :: "('k::linorder \<times> 'p) list list \<Rightarrow> ('k \<times> 'p list) list" where
  "kmerge gss = map (\<lambda>k. (k, at_key k gss)) (sorted_list_of_set (keys_of gss))"

definition key_sorted :: "('k::linorder \<times> 'p) list \<Rightarrow> bool" where
  "key_sorted gs \<longleftrightarrow> sorted_wrt (<) (map fst gs)"

definition head_key :: "('k \<times> 'p) list \<Rightarrow> 'k option" where
  "head_key gs = (if gs = [] then None else Some (fst (hd gs)))"

lemma finite_keys_of [simp]: "finite (keys_of gss)"
  by (simp add: keys_of_def)

lemma keys_of_empty: "keys_of gss = {} \<longleftrightarrow> (\<forall>gs \<in> set gss. gs = [])"
  by (auto simp: keys_of_def)

lemma kmerge_empty: "kmerge gss = [] \<longleftrightarrow> (\<forall>gs \<in> set gss. head_key gs = None)"
  by (auto simp: kmerge_def keys_of_empty head_key_def)

lemma key_sorted_kmerge: "key_sorted (kmerge gss)"
  by (simp add: key_sorted_def kmerge_def comp_def)

lemma key_sorted_simps [simp]:
  "key_sorted []" "key_sorted (g # gs) \<longleftrightarrow> (\<forall>x \<in> set gs. fst g < fst x) \<and> key_sorted gs"
  by (auto simp: key_sorted_def)

lemma key_sorted_tl: "key_sorted gs \<Longrightarrow> key_sorted (tl gs)"
  by (cases gs) auto

lemma key_sorted_dropWhile: "key_sorted gs \<Longrightarrow> key_sorted (dropWhile P gs)"
  by (induction gs) auto

lemma Min_keys:
  assumes "\<forall>gs \<in> set gss. key_sorted gs" and "gs0 \<in> set gss" and "head_key gs0 = Some m"
    and "\<forall>gs \<in> set gss. \<forall>k. head_key gs = Some k \<longrightarrow> m \<le> k"
  shows "Min (keys_of gss) = m"
proof (rule Min_eqI)
  show "m \<in> keys_of gss" using assms(2,3) by (force simp: keys_of_def head_key_def split: if_splits)
  fix k assume "k \<in> keys_of gss"
  then obtain gs p where gs: "gs \<in> set gss" "(k, p) \<in> set gs" by (auto simp: keys_of_def)
  from gs(2) obtain g gs' where c: "gs = g # gs'" by (cases gs) simp_all
  have "key_sorted gs" using assms(1) gs(1) by blast
  then have "fst g \<le> k" using gs(2) c by force
  moreover have "m \<le> fst g" using assms(4) gs(1) c by (force simp: head_key_def)
  ultimately show "m \<le> k" by simp
qed simp

text \<open>The group at the head of the merge, and the merge of what is left.\<close>

lemma at_key_least:
  assumes "\<forall>gs \<in> set gss. key_sorted gs" and "\<forall>gs \<in> set gss. \<forall>k. head_key gs = Some k \<longrightarrow> m \<le> k"
  shows "at_key m gss = map (\<lambda>gs. snd (hd gs)) (filter (\<lambda>gs. head_key gs = Some m) gss)"
  using assms
proof (induction gss)
  case (Cons gs gss)
  have "map snd (filter (\<lambda>g. fst g = m) gs) = (if head_key gs = Some m then [snd (hd gs)] else [])"
  proof (cases gs)
    case (Cons g gs')
    then have "m \<le> fst g" "\<forall>x \<in> set gs'. fst g < fst x" using Cons.prems by (auto simp: head_key_def)
    then have "filter (\<lambda>g. fst g = m) gs' = []" by (auto simp: filter_empty_conv)
    then show ?thesis using Cons by (simp add: head_key_def)
  qed (simp add: head_key_def)
  then show ?case using Cons by (simp add: at_key_def)
qed (simp add: at_key_def)

lemma kmerge_step:
  assumes sorted: "\<forall>gs \<in> set gss. key_sorted gs" and mem: "gs0 \<in> set gss" "head_key gs0 = Some m"
    and least: "\<forall>gs \<in> set gss. \<forall>k. head_key gs = Some k \<longrightarrow> m \<le> k"
  shows "kmerge gss = (m, map (\<lambda>gs. snd (hd gs)) (filter (\<lambda>gs. head_key gs = Some m) gss)) #
      kmerge (map (\<lambda>gs. if head_key gs = Some m then tl gs else gs) gss)"
proof -
  let ?f = "\<lambda>gs. if head_key gs = Some m then tl gs else gs"
  have f: "filter (\<lambda>g. fst g \<noteq> m) gs = ?f gs" if "gs \<in> set gss" for gs
  proof (cases gs)
    case (Cons g gs')
    have "key_sorted (g # gs')" using sorted that Cons by blast
    then have "\<forall>x \<in> set gs'. fst g < fst x" by simp
    moreover have "head_key gs = Some (fst g)" using Cons by (simp add: head_key_def)
    then have "m \<le> fst g" using least that by blast
    ultimately have "m \<le> fst g" "\<forall>x \<in> set gs'. fst g < fst x" by simp_all
    then have "filter (\<lambda>g. fst g \<noteq> m) gs' = gs'" by (auto simp: filter_id_conv)
    then show ?thesis using Cons by (simp add: head_key_def)
  qed (simp add: head_key_def)
  have min: "Min (keys_of gss) = m" by (rule Min_keys [OF sorted mem least])
  have "gs0 \<noteq> []" using mem(2) by (auto simp: head_key_def)
  then have "keys_of gss \<noteq> {}" using mem(1) by (auto simp: keys_of_empty)
  then have keys: "sorted_list_of_set (keys_of gss) = m # sorted_list_of_set (keys_of gss - {m})"
    using sorted_list_of_set_nonempty [of "keys_of gss"] min by simp
  have k': "keys_of (map ?f gss) = keys_of gss - {m}"
  proof -
    have "keys_of (map ?f gss) = keys_of (map (filter (\<lambda>g. fst g \<noteq> m)) gss)"
      using f by (simp add: keys_of_def)
    then show ?thesis by (auto simp: keys_of_def)
  qed
  have a': "at_key k (map ?f gss) = at_key k gss" if "k \<noteq> m" for k
  proof -
    have "filter (\<lambda>g. fst g = k) (?f gs) = filter (\<lambda>g. fst g = k) gs" if "gs \<in> set gss" for gs
      using \<open>k \<noteq> m\<close> by (auto simp: f [OF that, symmetric] intro!: filter_cong)
    then show ?thesis by (auto simp: at_key_def intro!: arg_cong [where f = concat])
  qed
  show ?thesis
    unfolding kmerge_def keys k' using a' at_key_least [OF sorted least] by simp
qed

lemma dropWhile_key_sorted:
  "key_sorted gs \<Longrightarrow> dropWhile (\<lambda>g. fst g < k) gs = filter (\<lambda>g. \<not> fst g < k) gs"
  by (induction gs) (auto intro!: sym [OF filter_True])

lemma kmerge_dropWhile:
  assumes "\<forall>gs \<in> set gss. key_sorted gs"
  shows "kmerge (map (dropWhile (\<lambda>g. fst g < k)) gss) = dropWhile (\<lambda>g. fst g < k) (kmerge gss)"
proof -
  note d = dropWhile_key_sorted
  have keys: "keys_of (map (dropWhile (\<lambda>g. fst g < k)) gss) = {x \<in> keys_of gss. \<not> x < k}"
    using assms d by (fastforce simp: keys_of_def)
  have "sorted_list_of_set {x \<in> keys_of gss. \<not> x < k} = filter (\<lambda>x. \<not> x < k) (sorted_list_of_set (keys_of gss))"
    by (rule sorted_distinct_set_unique) (auto intro: sorted_wrt_filter)
  moreover have "at_key x (map (dropWhile (\<lambda>g. fst g < k)) gss) = at_key x gss" if "\<not> x < k" for x
  proof -
    have "filter (\<lambda>g. fst g = x) (dropWhile (\<lambda>g. fst g < k) gs) = filter (\<lambda>g. fst g = x) gs" if "gs \<in> set gss" for gs
      using assms that \<open>\<not> x < k\<close> by (auto simp: d intro!: filter_cong)
    then show ?thesis by (auto simp: at_key_def intro!: arg_cong [where f = concat])
  qed
  ultimately have "kmerge (map (dropWhile (\<lambda>g. fst g < k)) gss) =
      filter (\<lambda>g. \<not> fst g < k) (kmerge gss)"
    unfolding kmerge_def keys by (simp add: filter_map comp_def)
  then show ?thesis by (simp only: d [OF key_sorted_kmerge])
qed

section \<open>The scan for the least key\<close>

definition min_opt :: "'a::linorder option \<Rightarrow> 'a option \<Rightarrow> 'a option" where
  "min_opt a b = (case (a, b) of (None, _) \<Rightarrow> b | (_, None) \<Rightarrow> a | (Some x, Some y) \<Rightarrow> Some (min x y))"

lemma min_opt_simps [simp]:
  "min_opt None b = b" "min_opt a None = a" "min_opt (Some x) (Some y) = Some (min x y)"
  by (auto simp: min_opt_def split: option.splits)

definition least :: "(nat \<Rightarrow> 'a::linorder option) \<Rightarrow> nat list \<Rightarrow> 'a option" where
  "least h indices = fold (\<lambda>i b. min_opt b (h i)) indices None"

definition at_least :: "(nat \<Rightarrow> 'a::linorder option) \<Rightarrow> nat list \<Rightarrow> nat list" where
  "at_least h indices = filter (\<lambda>i. h i \<noteq> None \<and> h i = least h indices) indices"

lemma least_Some:
  "least h indices = Some m \<longleftrightarrow>
     (\<exists>i \<in> set indices. h i = Some m) \<and> (\<forall>i \<in> set indices. \<forall>k. h i = Some k \<longrightarrow> m \<le> k)"
  and least_None: "least h indices = None \<longleftrightarrow> (\<forall>i \<in> set indices. h i = None)"
proof -
  have "case least h indices of
      None \<Rightarrow> \<forall>i \<in> set indices. h i = None
    | Some m \<Rightarrow> (\<exists>i \<in> set indices. h i = Some m) \<and> (\<forall>i \<in> set indices. \<forall>k. h i = Some k \<longrightarrow> m \<le> k)"
  proof (induction indices rule: rev_induct)
    case (snoc i indices)
    have "least h (indices @ [i]) = min_opt (least h indices) (h i)" by (simp add: least_def)
    then show ?case
      using snoc by (cases "least h indices"; cases "h i") (auto simp: min_def split: if_splits)
  qed (simp add: least_def)
  then show "least h indices = Some m \<longleftrightarrow>
     (\<exists>i \<in> set indices. h i = Some m) \<and> (\<forall>i \<in> set indices. \<forall>k. h i = Some k \<longrightarrow> m \<le> k)"
    "least h indices = None \<longleftrightarrow> (\<forall>i \<in> set indices. h i = None)"
    by (auto split: option.splits intro: antisym)
qed

lemma at_least_empty: "at_least h indices = [] \<longleftrightarrow> least h indices = None"
proof (cases "least h indices")
  case (Some m)
  then show ?thesis using least_Some [of h indices m] by (auto simp: at_least_def filter_empty_conv)
qed (auto simp: at_least_def filter_empty_conv)

lemma at_least_cong:
  assumes "\<And>i. i \<in> set indices \<Longrightarrow> h i = h' i"
  shows "at_least h indices = at_least h' indices"
proof -
  have "least h indices = least h' indices" unfolding least_def by (rule fold_cong) (use assms in auto)
  then show ?thesis by (simp add: at_least_def assms cong: filter_cong)
qed

lemma fold_min_opt_le: "\<exists>l. fold (\<lambda>i b. min_opt b (h i)) indices (Some b) = Some l \<and> l \<le> b"
proof (induction indices arbitrary: b)
  case (Cons i indices)
  show ?case
  proof (cases "h i")
    case (Some a)
    then show ?thesis using Cons.IH [of "min b a"] by auto
  qed (use Cons.IH in simp)
qed simp

lemma scan_loop_general:
  assumes "\<forall>i \<in> set indices. get i = Inr (h i)" and "best = None \<Longrightarrow> current = []"
  shows "scan_loop (<) get indices best current =
    Inr ((if fold (\<lambda>i b. min_opt b (h i)) indices best = best then current else []) @
      filter (\<lambda>i. h i \<noteq> None \<and> h i = fold (\<lambda>i b. min_opt b (h i)) indices best) indices)"
  using assms
proof (induction indices arbitrary: best current)
  case (Cons i indices)
  show ?case
  proof (cases "h i")
    case None
    then show ?thesis using Cons by simp
  next
    case (Some k)
    show ?thesis
    proof (cases best)
      case None
      then show ?thesis
        using Cons.IH [of "Some k" "[i]"] Cons.prems Some fold_min_opt_le [of h indices k] by auto
    next
      case best: (Some b)
      let ?l = "\<lambda>b. fold (\<lambda>i b. min_opt b (h i)) indices (Some b)"
      have get: "get i = Inr (Some k)" "\<forall>i \<in> set indices. get i = Inr (h i)" using Cons.prems(1) Some by simp_all
      note IH = Cons.IH [OF get(2)]
      consider (less) "k < b" | (eq) "k = b" | (greater) "b < k" by fastforce
      then show ?thesis
      proof cases
        case less
        obtain l where l: "?l k = Some l" "l \<le> k" using fold_min_opt_le by blast
        have "min b k = k" "l \<noteq> b" using less l(2) by auto
        then show ?thesis using IH [of "Some k" "[i]"] get(1) Some best less l(1) by simp
      next
        case eq
        obtain l where "?l b = Some l" using fold_min_opt_le by blast
        then show ?thesis using IH [of "Some b" "current @ [i]"] get(1) Some best eq by auto
      next
        case greater
        obtain l where l: "?l b = Some l" "l \<le> b" using fold_min_opt_le by blast
        have "min b k = b" "k \<noteq> l" "\<not> k < b" "k \<noteq> b" using greater l(2) by auto
        then show ?thesis using IH [of "Some b" current] get(1) Some best l(1) by simp
      qed
    qed
  qed
qed simp

lemma scan_loop_least:
  "\<forall>i \<in> set indices. get i = Inr (h i) \<Longrightarrow> scan_loop (<) get indices None [] = Inr (at_least h indices)"
  using scan_loop_general [of indices get h None "[]"] by (simp add: at_least_def least_def)

section \<open>The contract\<close>

text \<open>
  The merge of the groups of several cursors: for each key the merge of its values, and for each
  value the times of all cursors in their order.
\<close>

definition merge_vals :: "('v::linorder \<times> 'a list) list list \<Rightarrow> ('v \<times> 'a list) list" where
  "merge_vals vss = map (\<lambda>(v, tss). (v, concat tss)) (kmerge vss)"

definition merge_groups :: "('k::linorder, 'v::linorder, 't, 'r) groups list \<Rightarrow> ('k, 'v, 't, 'r) groups" where
  "merge_groups gss = map (\<lambda>(k, vss). (k, merge_vals vss)) (kmerge gss)"

definition groups_sorted :: "('k::linorder, 'v::linorder, 't, 'r) groups \<Rightarrow> bool" where
  "groups_sorted gs \<longleftrightarrow> key_sorted gs \<and> (\<forall>g \<in> set gs. key_sorted (snd g))"

lemma key_sorted_map_snd: "key_sorted (map (\<lambda>(k, p). (k, f p)) gs) = key_sorted gs"
  by (induction gs) (auto split: prod.splits)

lemma key_sorted_merge_vals: "key_sorted (merge_vals vss)"
  by (simp add: merge_vals_def key_sorted_map_snd key_sorted_kmerge)

lemma groups_sorted_merge: "groups_sorted (merge_groups gss)"
  by (auto simp: groups_sorted_def merge_groups_def key_sorted_map_snd key_sorted_kmerge key_sorted_merge_vals)

lemma merge_groups_dropWhile:
  assumes "\<forall>gs \<in> set gss. key_sorted gs"
  shows "merge_groups (map (dropWhile (\<lambda>g. fst g < k)) gss) = dropWhile (\<lambda>g. fst g < k) (merge_groups gss)"
  using kmerge_dropWhile [OF assms, of k] by (simp add: merge_groups_def dropWhile_map comp_def split_beta)

text \<open>Selecting by index and selecting by element.\<close>

lemma map_filter_indices:
  "map (\<lambda>i. f (xs ! i)) (filter (\<lambda>i. P (xs ! i)) [0..<length xs]) = map f (filter P xs)"
proof -
  have "filter P (map ((!) xs) [0..<length xs]) = map ((!) xs) (filter (\<lambda>i. P (xs ! i)) [0..<length xs])"
    unfolding filter_map comp_def ..
  then show ?thesis by (simp add: map_nth)
qed

text \<open>The loops that call a method at a list of indices.\<close>

lemma each_at_ok:
  assumes "distinct indices" and "\<forall>i \<in> set indices. i < length (cursors l)"
    and "\<And>i. i \<in> set indices \<Longrightarrow> \<exists>c'. f (cursors l ! i) = ok c' \<and> r (cursors l ! i) c'"
  shows "\<exists>cs. each_at f indices l = ok (l\<lparr>cursors := cs\<rparr>) \<and> length cs = length (cursors l) \<and>
    (\<forall>i < length cs. if i \<in> set indices then r (cursors l ! i) (cs ! i) else cs ! i = cursors l ! i)"
  using assms
proof (induction indices arbitrary: l)
  case (Cons j indices)
  obtain c' where c': "f (cursors l ! j) = ok c'" "r (cursors l ! j) c'" using Cons.prems(3) [of j] by auto
  let ?l = "l\<lparr>cursors := (cursors l)[j := c']\<rparr>"
  have j: "j < length (cursors l)" using Cons.prems(2) by simp
  have "\<exists>c'. f (cursors ?l ! i) = ok c' \<and> r (cursors ?l ! i) c'" if "i \<in> set indices" for i
    using Cons.prems(1,3) that by (cases "i = j") auto
  then obtain cs where cs: "each_at f indices ?l = ok (?l\<lparr>cursors := cs\<rparr>)" "length cs = length (cursors ?l)"
    "\<forall>i < length cs. if i \<in> set indices then r (cursors ?l ! i) (cs ! i) else cs ! i = cursors ?l ! i"
    using Cons.IH [of ?l] Cons.prems(1,2) by auto
  have "if i \<in> set (j # indices) then r (cursors l ! i) (cs ! i) else cs ! i = cursors l ! i"
    if "i < length cs" for i
    using cs(2,3) that c'(2) Cons.prems(1) j by (cases "i = j") (auto split: if_splits)
  then show ?case using cs(1,2) c'(1) j by (auto simp: cursor_at_def)
next
  case Nil
  show ?case by (rule exI [of _ "cursors l"]) simp
qed

lemma times_loop_ok:
  assumes "distinct indices" and "\<forall>i \<in> set indices. i < length (cursors l)"
    and "\<And>i. i \<in> set indices \<Longrightarrow> \<exists>c'. f (cursors l ! i) = ok (t (cursors l ! i), c') \<and> r (cursors l ! i) c'"
  shows "\<exists>cs. times_loop f indices out l =
      ok (out @ concat (map (\<lambda>i. t (cursors l ! i)) indices), l\<lparr>cursors := cs\<rparr>) \<and>
    length cs = length (cursors l) \<and>
    (\<forall>i < length cs. if i \<in> set indices then r (cursors l ! i) (cs ! i) else cs ! i = cursors l ! i)"
  using assms
proof (induction indices arbitrary: l out)
  case (Cons j indices)
  obtain c' where c': "f (cursors l ! j) = ok (t (cursors l ! j), c')" "r (cursors l ! j) c'"
    using Cons.prems(3) [of j] by auto
  let ?l = "l\<lparr>cursors := (cursors l)[j := c']\<rparr>"
  have j: "j < length (cursors l)" using Cons.prems(2) by simp
  have same: "cursors ?l ! i = cursors l ! i" if "i \<in> set indices" for i
    using Cons.prems(1) that by (cases "i = j") simp_all
  have "\<exists>c'. f (cursors ?l ! i) = ok (t (cursors ?l ! i), c') \<and> r (cursors ?l ! i) c'" if "i \<in> set indices" for i
    using Cons.prems(3) same that by auto
  then obtain cs where cs: "times_loop f indices (out @ t (cursors l ! j)) ?l =
      ok ((out @ t (cursors l ! j)) @ concat (map (\<lambda>i. t (cursors ?l ! i)) indices), ?l\<lparr>cursors := cs\<rparr>)"
    "length cs = length (cursors ?l)"
    "\<forall>i < length cs. if i \<in> set indices then r (cursors ?l ! i) (cs ! i) else cs ! i = cursors ?l ! i"
    using Cons.IH [of ?l "out @ t (cursors l ! j)"] Cons.prems(1,2) by auto
  have m: "map (\<lambda>i. t (cursors ?l ! i)) indices = map (\<lambda>i. t (cursors l ! i)) indices" using same by simp
  have "if i \<in> set (j # indices) then r (cursors l ! i) (cs ! i) else cs ! i = cursors l ! i"
    if "i < length cs" for i
    using cs(2,3) that c'(2) Cons.prems(1) j by (cases "i = j") (auto split: if_splits)
  moreover have "times_loop f (j # indices) out l = times_loop f indices (out @ t (cursors l ! j)) ?l"
    using c'(1) j by (simp add: cursor_at_def)
  ultimately show ?case using cs(1,2) unfolding m by auto
next
  case Nil
  show ?case by (rule exI [of _ "cursors l"]) simp
qed

locale ordered_cursor = batch_cursor ops inv total groups vals
  for ops :: "('c, 'k::linorder, 'v::linorder, 't, 'r, 'z) cursor_ops_scheme"
    and inv :: "'c \<Rightarrow> bool"
    and total :: "'c \<Rightarrow> ('k, 'v, 't, 'r) groups"
    and groups :: "'c \<Rightarrow> ('k, 'v, 't, 'r) groups"
    and vals :: "'c \<Rightarrow> ('v \<times> ('t \<times> 'r) list) list" +
  assumes sorted_groups: "inv c \<Longrightarrow> groups_sorted (groups c)"
    and sorted_total: "inv c \<Longrightarrow> groups_sorted (total c)"
    and sorted_vals: "inv c \<Longrightarrow> groups c \<noteq> [] \<Longrightarrow> key_sorted (vals c)"
begin

definition all_inv :: "'c cursor_list \<Rightarrow> bool" where
  "all_inv l \<longleftrightarrow> (\<forall>c \<in> set (cursors l). inv c) \<and> direction l = Forward"

definition fresh :: "'c \<Rightarrow> bool" where
  "fresh c \<longleftrightarrow> (groups c \<noteq> [] \<longrightarrow> vals c = snd (hd (groups c)))"

definition kheads :: "'c cursor_list \<Rightarrow> nat \<Rightarrow> 'k option" where
  "kheads l i = head_key (groups (cursors l ! i))"

definition vheads :: "'c cursor_list \<Rightarrow> nat \<Rightarrow> 'v option" where
  "vheads l i = head_key (vals (cursors l ! i))"

definition list_groups :: "'c cursor_list \<Rightarrow> ('k, 'v, 't, 'r) groups" where
  "list_groups l = merge_groups (map groups (cursors l))"

definition list_total :: "'c cursor_list \<Rightarrow> ('k, 'v, 't, 'r) groups" where
  "list_total l = merge_groups (map total (cursors l))"

definition list_vals :: "'c cursor_list \<Rightarrow> ('v \<times> ('t \<times> 'r) list) list" where
  "list_vals l = merge_vals (map (\<lambda>i. vals (cursors l ! i)) (current_key l))"

definition keys_ok :: "'c cursor_list \<Rightarrow> bool" where
  "keys_ok l \<longleftrightarrow> all_inv l \<and> current_key l = at_least (kheads l) [0..<length (cursors l)] \<and>
     (\<forall>i < length (cursors l). i \<notin> set (current_key l) \<longrightarrow> fresh (cursors l ! i))"

definition list_inv :: "'c cursor_list \<Rightarrow> bool" where
  "list_inv l \<longleftrightarrow> keys_ok l \<and> current_val l = at_least (vheads l) (current_key l)"

lemma nth_inv: "all_inv l \<Longrightarrow> i < length (cursors l) \<Longrightarrow> inv (cursors l ! i)"
  by (simp add: all_inv_def)

lemma get_key_head: "inv c \<Longrightarrow> co_get_key ops c = Inr (head_key (groups c))"
  using key_valid [of c] key [of c] by (simp add: co_get_key_def head_key_def)

lemma get_val_head: "inv c \<Longrightarrow> groups c \<noteq> [] \<Longrightarrow> co_get_val ops c = Inr (head_key (vals c))"
  using val_valid [of c] val [of c] by (simp add: co_get_val_def head_key_def)

lemma current_key_facts:
  assumes "keys_ok l" and "i \<in> set (current_key l)"
  shows "i < length (cursors l)" and "groups (cursors l ! i) \<noteq> []"
    and "least (kheads l) [0..<length (cursors l)] = Some (fst (hd (groups (cursors l ! i))))"
  using assms by (auto simp: keys_ok_def at_least_def kheads_def head_key_def split: if_splits)

lemma minimize_vals_ok:
  assumes "keys_ok l"
  shows "minimize_vals ops l = Inr (l\<lparr>current_val := at_least (vheads l) (current_key l)\<rparr>)"
    and "list_inv (l\<lparr>current_val := at_least (vheads l) (current_key l)\<rparr>)"
proof -
  have "all_inv l" using assms by (simp add: keys_ok_def)
  then have "\<forall>i \<in> set (current_key l). res_bind (cursor_at l i) (co_get_val ops) = Inr (vheads l i)"
    using current_key_facts [OF assms] nth_inv by (auto simp: cursor_at_def vheads_def intro!: get_val_head)
  from scan_loop_least [OF this]
  show "minimize_vals ops l = Inr (l\<lparr>current_val := at_least (vheads l) (current_key l)\<rparr>)"
    using \<open>all_inv l\<close> by (simp add: minimize_vals_def all_inv_def)
  show "list_inv (l\<lparr>current_val := at_least (vheads l) (current_key l)\<rparr>)"
    using assms by (simp add: list_inv_def keys_ok_def all_inv_def kheads_def [abs_def] vheads_def [abs_def])
qed

lemma minimize_keys_ok:
  assumes "all_inv l" and "\<forall>c \<in> set (cursors l). fresh c"
  shows "\<exists>l'. minimize_keys ops l = Inr l' \<and> list_inv l' \<and> cursors l' = cursors l"
proof -
  let ?l = "l\<lparr>current_key := at_least (kheads l) [0..<length (cursors l)]\<rparr>"
  have "\<forall>i \<in> set [0..<length (cursors l)]. co_get_key ops (cursors l ! i) = Inr (kheads l i)"
    using nth_inv [OF assms(1)] by (simp add: get_key_head kheads_def)
  from scan_loop_least [OF this] have m: "minimize_keys ops l = minimize_vals ops ?l"
    using assms(1) by (simp add: minimize_keys_def all_inv_def)
  have "keys_ok ?l" using assms by (simp add: keys_ok_def all_inv_def kheads_def [abs_def])
  then show ?thesis using m minimize_vals_ok [of ?l] by auto
qed

lemma current_key_filter:
  assumes "keys_ok l" and "least (kheads l) [0..<length (cursors l)] = Some m"
  shows "current_key l = filter (\<lambda>i. head_key (groups (cursors l ! i)) = Some m) [0..<length (cursors l)]"
  using assms by (auto simp: keys_ok_def at_least_def kheads_def intro!: filter_cong)

lemma groups_least:
  assumes "keys_ok l" and "least (kheads l) [0..<length (cursors l)] = Some m"
  shows "\<exists>gs0 \<in> set (map groups (cursors l)). head_key gs0 = Some m"
    and "\<forall>gs \<in> set (map groups (cursors l)). \<forall>k. head_key gs = Some k \<longrightarrow> m \<le> k"
    and "\<forall>gs \<in> set (map groups (cursors l)). key_sorted gs"
proof -
  have "\<exists>i < length (cursors l). kheads l i = Some m" "\<forall>i < length (cursors l). \<forall>k. kheads l i = Some k \<longrightarrow> m \<le> k"
    using assms(2) by (auto simp: least_Some)
  then show "\<exists>gs0 \<in> set (map groups (cursors l)). head_key gs0 = Some m"
    "\<forall>gs \<in> set (map groups (cursors l)). \<forall>k. head_key gs = Some k \<longrightarrow> m \<le> k"
    by (force simp: kheads_def in_set_conv_nth)+
  show "\<forall>gs \<in> set (map groups (cursors l)). key_sorted gs"
    using assms(1) sorted_groups by (auto simp: keys_ok_def all_inv_def groups_sorted_def)
qed

lemma list_groups_head:
  assumes "keys_ok l" and "least (kheads l) [0..<length (cursors l)] = Some m"
  shows "list_groups l = (m, merge_vals (map (\<lambda>i. snd (hd (groups (cursors l ! i)))) (current_key l))) #
    merge_groups (map (\<lambda>c. if head_key (groups c) = Some m then tl (groups c) else groups c) (cursors l))"
proof -
  obtain gs0 where gs0: "gs0 \<in> set (map groups (cursors l))" "head_key gs0 = Some m"
    using groups_least(1) [OF assms] by blast
  have "map (\<lambda>gs. snd (hd gs)) (filter (\<lambda>gs. head_key gs = Some m) (map groups (cursors l))) =
      map (\<lambda>i. snd (hd (groups (cursors l ! i)))) (current_key l)"
    unfolding current_key_filter [OF assms]
    using map_filter_indices [of "\<lambda>c. snd (hd (groups c))" "cursors l" "\<lambda>c. head_key (groups c) = Some m"]
    by (simp add: filter_map comp_def)
  then show ?thesis
    using kmerge_step [OF groups_least(3) [OF assms] gs0 groups_least(2) [OF assms]]
    by (simp add: list_groups_def merge_groups_def comp_def)
qed

lemma list_groups_empty:
  assumes "keys_ok l"
  shows "list_groups l = [] \<longleftrightarrow> current_key l = []" and
    "current_key l = [] \<longleftrightarrow> least (kheads l) [0..<length (cursors l)] = None"
proof -
  show k: "current_key l = [] \<longleftrightarrow> least (kheads l) [0..<length (cursors l)] = None"
    using assms at_least_empty by (simp add: keys_ok_def)
  show "list_groups l = [] \<longleftrightarrow> current_key l = []"
    unfolding k least_None
    by (simp add: list_groups_def merge_groups_def kmerge_empty kheads_def all_set_conv_all_nth)
      (simp add: Ball_def)
qed

lemma list_vals_fresh:
  assumes "keys_ok l" and "\<forall>i \<in> set (current_key l). fresh (cursors l ! i)" and "list_groups l \<noteq> []"
  shows "list_vals l = snd (hd (list_groups l))"
proof -
  obtain m where m: "least (kheads l) [0..<length (cursors l)] = Some m"
    using list_groups_empty [OF assms(1)] assms(3) by auto
  have "map (\<lambda>i. vals (cursors l ! i)) (current_key l) =
      map (\<lambda>i. snd (hd (groups (cursors l ! i)))) (current_key l)"
    using assms(2) current_key_facts(2) [OF assms(1)] by (simp add: fresh_def)
  then show ?thesis using list_groups_head [OF assms(1) m] by (simp only: list_vals_def list.sel snd_conv)
qed

text \<open>The same for the values of the current key.\<close>

lemma vals_least:
  assumes "keys_ok l" and "least (vheads l) (current_key l) = Some v"
  shows "\<exists>vs \<in> set (map (\<lambda>i. vals (cursors l ! i)) (current_key l)). head_key vs = Some v"
    and "\<forall>vs \<in> set (map (\<lambda>i. vals (cursors l ! i)) (current_key l)). \<forall>k. head_key vs = Some k \<longrightarrow> v \<le> k"
    and "\<forall>vs \<in> set (map (\<lambda>i. vals (cursors l ! i)) (current_key l)). key_sorted vs"
  using assms(2) current_key_facts(1,2) [OF assms(1)] sorted_vals nth_inv assms(1)
  by (auto simp: least_Some vheads_def keys_ok_def)

lemma list_vals_head:
  assumes "list_inv l" and "least (vheads l) (current_key l) = Some v"
  shows "list_vals l = (v, concat (map (\<lambda>i. snd (hd (vals (cursors l ! i)))) (current_val l))) #
    merge_vals (map (\<lambda>i. if vheads l i = Some v then tl (vals (cursors l ! i)) else vals (cursors l ! i)) (current_key l))"
proof -
  have ok: "keys_ok l" using assms(1) by (simp add: list_inv_def)
  obtain vs0 where vs0: "vs0 \<in> set (map (\<lambda>i. vals (cursors l ! i)) (current_key l))" "head_key vs0 = Some v"
    using vals_least(1) [OF ok assms(2)] by blast
  have "current_val l = filter (\<lambda>i. vheads l i = Some v) (current_key l)"
    using assms by (auto simp: list_inv_def at_least_def intro!: filter_cong)
  then have "map (\<lambda>vs. snd (hd vs)) (filter (\<lambda>vs. head_key vs = Some v) (map (\<lambda>i. vals (cursors l ! i)) (current_key l))) =
      map (\<lambda>i. snd (hd (vals (cursors l ! i)))) (current_val l)"
    by (simp add: filter_map comp_def vheads_def)
  then show ?thesis
    using kmerge_step [OF vals_least(3) [OF ok assms(2)] vs0 vals_least(2) [OF ok assms(2)]]
    by (simp add: list_vals_def merge_vals_def comp_def vheads_def)
qed

lemma list_vals_empty:
  assumes "list_inv l"
  shows "list_vals l = [] \<longleftrightarrow> current_val l = []"
    and "current_val l = [] \<longleftrightarrow> least (vheads l) (current_key l) = None"
proof -
  show k: "current_val l = [] \<longleftrightarrow> least (vheads l) (current_key l) = None"
    using assms at_least_empty by (simp add: list_inv_def)
  show "list_vals l = [] \<longleftrightarrow> current_val l = []"
    unfolding k least_None by (auto simp: list_vals_def merge_vals_def kmerge_empty vheads_def)
qed

section \<open>The methods\<close>

lemma distinct_current: "list_inv l \<Longrightarrow> distinct (current_key l)" "list_inv l \<Longrightarrow> distinct (current_val l)"
  by (auto simp: list_inv_def keys_ok_def at_least_def)

lemma current_val_facts:
  assumes "list_inv l" and "i \<in> set (current_val l)"
  shows "i \<in> set (current_key l)" and "vals (cursors l ! i) \<noteq> []"
    and "least (vheads l) (current_key l) = Some (fst (hd (vals (cursors l ! i))))"
  using assms by (auto simp: list_inv_def at_least_def vheads_def head_key_def split: if_splits)

lemma list_key:
  assumes "list_inv l" and "list_groups l \<noteq> []"
  shows "cls_key ops l = Inr (fst (hd (list_groups l)))"
proof -
  have ok: "keys_ok l" and inv: "all_inv l" using assms(1) by (simp_all add: list_inv_def keys_ok_def)
  then obtain i is' where i: "current_key l = i # is'" using list_groups_empty(1) assms(2) by (cases "current_key l") auto
  note f = current_key_facts [OF ok, of i]
  have "inv (cursors l ! i)" using nth_inv [OF inv] f(1) i by simp
  then show ?thesis
    using f i list_groups_head [OF ok f(3)] key_valid key
    by (simp add: cls_key_def cls_key_valid_def cursor_at_def)
qed

lemma list_val:
  assumes "list_inv l" and "list_groups l \<noteq> []" and "list_vals l \<noteq> []"
  shows "cls_val ops l = Inr (fst (hd (list_vals l)))"
proof -
  have ok: "keys_ok l" and inv: "all_inv l" using assms(1) by (simp_all add: list_inv_def keys_ok_def)
  obtain i is' where i: "current_val l = i # is'" using list_vals_empty(1) [OF assms(1)] assms(3) by (cases "current_val l") auto
  note g = current_val_facts [OF assms(1), of i]
  note f = current_key_facts [OF ok, of i]
  have "inv (cursors l ! i)" using nth_inv [OF inv] f(1) g(1) i by simp
  moreover have "current_key l \<noteq> []" using list_groups_empty(1) [OF ok] assms(2) by simp
  ultimately show ?thesis
    using f g i list_vals_head [OF assms(1) g(3)] val_valid val
    by (simp add: cls_val_def cls_key_valid_def cls_val_valid_def cursor_at_def)
qed

text \<open>Moving the cursors so that all of them are fresh, then looking for the least key.\<close>

lemma refresh:
  assumes "all_inv l" and "\<forall>c \<in> set (cursors l). fresh c"
  shows "\<exists>l'. minimize_keys ops (forwards l) = Inr l' \<and> list_inv l' \<and> cursors l' = cursors l \<and>
    (list_groups l' \<noteq> [] \<longrightarrow> list_vals l' = snd (hd (list_groups l')))"
proof -
  have f: "forwards l = l" using assms(1) by (simp add: forwards_def all_inv_def)
  obtain l' where l': "minimize_keys ops l = Inr l'" "list_inv l'" "cursors l' = cursors l"
    using minimize_keys_ok [OF assms] by blast
  have "keys_ok l'" using l'(2) by (simp add: list_inv_def)
  moreover have "\<forall>i \<in> set (current_key l'). fresh (cursors l' ! i)"
    using assms(2) l'(3) current_key_facts(1) [OF \<open>keys_ok l'\<close>] by simp
  ultimately show ?thesis using l' list_vals_fresh f by auto
qed

lemma refresh_after:
  assumes "all_inv l" and "length cs = length (cursors l)"
    and "\<forall>i < length cs. inv (cs ! i) \<and> total (cs ! i) = total (cursors l ! i) \<and>
      groups (cs ! i) = f (cursors l ! i) \<and> fresh (cs ! i)"
  shows "\<exists>l'. minimize_keys ops (forwards (l\<lparr>cursors := cs\<rparr>)) = Inr l' \<and> list_inv l' \<and>
    list_total l' = list_total l \<and> list_groups l' = merge_groups (map f (cursors l)) \<and>
    (list_groups l' \<noteq> [] \<longrightarrow> list_vals l' = snd (hd (list_groups l')))"
proof -
  have "all_inv (l\<lparr>cursors := cs\<rparr>)" "\<forall>c \<in> set cs. fresh c"
    using assms by (auto simp: all_inv_def in_set_conv_nth)
  then obtain l' where l': "minimize_keys ops (forwards (l\<lparr>cursors := cs\<rparr>)) = Inr l'" "list_inv l'"
    "cursors l' = cs" "list_groups l' \<noteq> [] \<longrightarrow> list_vals l' = snd (hd (list_groups l'))"
    using refresh [of "l\<lparr>cursors := cs\<rparr>"] by auto
  have "map total cs = map total (cursors l)" "map groups cs = map f (cursors l)"
    using assms(2,3) by (auto intro!: nth_equalityI)
  then show ?thesis using l' by (simp add: list_total_def list_groups_def)
qed

lemma refresh_each:
  assumes "all_inv l" and "\<And>c. inv c \<Longrightarrow> \<exists>c'. g c = ok c' \<and> inv c' \<and> total c' = total c \<and> groups c' = f c \<and>
      (groups c' \<noteq> [] \<longrightarrow> vals c' = snd (hd (groups c')))"
  shows "\<exists>l'. run_bind (each_cursor g l) (\<lambda>l. lift_res (minimize_keys ops (forwards l))) = ok l' \<and> list_inv l' \<and>
    list_total l' = list_total l \<and> list_groups l' = merge_groups (map f (cursors l)) \<and>
    (list_groups l' \<noteq> [] \<longrightarrow> list_vals l' = snd (hd (list_groups l')))"
proof -
  let ?r = "\<lambda>c c'. inv c' \<and> total c' = total c \<and> groups c' = f c \<and> fresh c'"
  have "\<exists>c'. g (cursors l ! i) = ok c' \<and> ?r (cursors l ! i) c'" if "i \<in> set [0..<length (cursors l)]" for i
    using assms(2) [OF nth_inv [OF assms(1), of i]] that by (auto simp: fresh_def)
  from each_at_ok [of "[0..<length (cursors l)]" l g ?r, OF _ _ this]
  obtain cs where cs: "each_cursor g l = ok (l\<lparr>cursors := cs\<rparr>)" "length cs = length (cursors l)"
    "\<forall>i < length cs. ?r (cursors l ! i) (cs ! i)" by (auto simp: each_cursor_def)
  show ?thesis using refresh_after [OF assms(1) cs(2,3)] cs(1) by auto
qed

lemma list_seek_key:
  assumes "list_inv l"
  shows "\<exists>l'. cls_seek_key ops l k = ok l' \<and> list_inv l' \<and> list_total l' = list_total l \<and>
    list_groups l' = dropWhile (\<lambda>g. fst g < k) (list_groups l) \<and>
    (list_groups l' \<noteq> [] \<longrightarrow> list_vals l' = snd (hd (list_groups l')))"
proof -
  have inv: "all_inv l" using assms by (simp add: list_inv_def keys_ok_def)
  have "\<forall>gs \<in> set (map groups (cursors l)). key_sorted gs"
    using inv sorted_groups by (auto simp: all_inv_def groups_sorted_def)
  from merge_groups_dropWhile [OF this, of k] show ?thesis
    using refresh_each [OF inv seek_key [of _ k]] by (simp add: cls_seek_key_def list_groups_def comp_def)
qed

lemma list_rewind_keys:
  assumes "list_inv l"
  shows "\<exists>l'. cls_rewind_keys ops l = ok l' \<and> list_inv l' \<and> list_total l' = list_total l \<and>
    list_groups l' = list_total l \<and> (list_groups l' \<noteq> [] \<longrightarrow> list_vals l' = snd (hd (list_groups l')))"
proof -
  have inv: "all_inv l" using assms by (simp add: list_inv_def keys_ok_def)
  show ?thesis
    using refresh_each [OF inv rewind_keys] unfolding cls_rewind_keys_def list_total_def [of l, symmetric] .
qed

lemma list_step_key:
  assumes "list_inv l" and "list_groups l \<noteq> []"
  shows "\<exists>l'. cls_step_key ops l = ok l' \<and> list_inv l' \<and> list_total l' = list_total l \<and>
    list_groups l' = tl (list_groups l) \<and> (list_groups l' \<noteq> [] \<longrightarrow> list_vals l' = snd (hd (list_groups l')))"
proof -
  have ok: "keys_ok l" and inv: "all_inv l" using assms(1) by (simp_all add: list_inv_def keys_ok_def)
  obtain m where m: "least (kheads l) [0..<length (cursors l)] = Some m"
    using list_groups_empty [OF ok] assms(2) by auto
  let ?f = "\<lambda>c. if head_key (groups c) = Some m then tl (groups c) else groups c"
  let ?r = "\<lambda>c c'. inv c' \<and> total c' = total c \<and> groups c' = tl (groups c) \<and> fresh c'"
  have "\<exists>c'. co_step_key ops (cursors l ! i) = ok c' \<and> ?r (cursors l ! i) c'" if "i \<in> set (current_key l)" for i
    using step_key [OF nth_inv [OF inv, of i]] current_key_facts [OF ok that] by (auto simp: fresh_def)
  from each_at_ok [of "current_key l" l "co_step_key ops" ?r, OF distinct_current(1) [OF assms(1)] _ this]
  obtain cs where cs: "each_at (co_step_key ops) (current_key l) l = ok (l\<lparr>cursors := cs\<rparr>)"
    "length cs = length (cursors l)"
    "\<forall>i < length cs. if i \<in> set (current_key l) then ?r (cursors l ! i) (cs ! i) else cs ! i = cursors l ! i"
    using current_key_facts(1) [OF ok] by auto
  have "inv (cs ! i) \<and> total (cs ! i) = total (cursors l ! i) \<and> groups (cs ! i) = ?f (cursors l ! i) \<and> fresh (cs ! i)"
    if i: "i < length cs" for i
  proof -
    have mem: "i \<in> set (current_key l) \<longleftrightarrow> head_key (groups (cursors l ! i)) = Some m"
      using current_key_filter [OF ok m] i cs(2) by simp
    show ?thesis
    proof (cases "i \<in> set (current_key l)")
      case True
      then show ?thesis using cs(3) i mem by auto
    next
      case False
      then show ?thesis using cs(2,3) i mem ok nth_inv [OF inv, of i] by (auto simp: keys_ok_def)
    qed
  qed
  then have "\<exists>l'. minimize_keys ops (forwards (l\<lparr>cursors := cs\<rparr>)) = Inr l' \<and> list_inv l' \<and>
      list_total l' = list_total l \<and> list_groups l' = merge_groups (map ?f (cursors l)) \<and>
      (list_groups l' \<noteq> [] \<longrightarrow> list_vals l' = snd (hd (list_groups l')))"
    by (intro refresh_after [OF inv cs(2)]) simp
  then show ?thesis using cs(1) list_groups_head [OF ok m] by (auto simp: cls_step_key_def)
qed

text \<open>Methods that move some cursors at the current key within its values.\<close>

lemma vals_after:
  assumes "list_inv l" and "length cs = length (cursors l)"
    and "\<forall>i < length cs. if i \<in> set indices
      then inv (cs ! i) \<and> total (cs ! i) = total (cursors l ! i) \<and> groups (cs ! i) = groups (cursors l ! i) \<and>
        (vals (cs ! i) = f i)
      else cs ! i = cursors l ! i"
    and "set indices \<subseteq> set (current_key l)"
  shows "keys_ok (l\<lparr>cursors := cs\<rparr>)" and "list_total (l\<lparr>cursors := cs\<rparr>) = list_total l"
    and "list_groups (l\<lparr>cursors := cs\<rparr>) = list_groups l"
    and "list_vals (l\<lparr>cursors := cs\<rparr>) =
      merge_vals (map (\<lambda>i. if i \<in> set indices then f i else vals (cursors l ! i)) (current_key l))"
proof -
  have ok: "keys_ok l" using assms(1) by (simp add: list_inv_def)
  have nth: "total (cs ! i) = total (cursors l ! i)" "groups (cs ! i) = groups (cursors l ! i)" "inv (cs ! i)"
    if "i < length cs" for i
    using assms(2,3) that ok nth_inv [of l i] by (auto simp: keys_ok_def split: if_splits)
  have "map total cs = map total (cursors l)" "map groups cs = map groups (cursors l)"
    using nth assms(2) by (auto intro!: nth_equalityI)
  then show "list_total (l\<lparr>cursors := cs\<rparr>) = list_total l" "list_groups (l\<lparr>cursors := cs\<rparr>) = list_groups l"
    by (simp_all add: list_total_def list_groups_def)
  have heads: "kheads (l\<lparr>cursors := cs\<rparr>) i = kheads l i" if "i < length cs" for i
    using nth [OF that] by (simp add: kheads_def)
  then have same: "at_least (kheads (l\<lparr>cursors := cs\<rparr>)) [0..<length cs] = at_least (kheads l) [0..<length cs]"
    by (intro at_least_cong) simp
  have "all_inv (l\<lparr>cursors := cs\<rparr>)" using ok nth(3) by (auto simp: keys_ok_def all_inv_def in_set_conv_nth)
  moreover have "fresh (cs ! i)" if "i < length cs" "i \<notin> set (current_key l)" for i
    using ok assms that by (auto simp: keys_ok_def split: if_splits)
  ultimately show "keys_ok (l\<lparr>cursors := cs\<rparr>)" using ok same assms(2) by (simp add: keys_ok_def)
  have "vals (cs ! i) = (if i \<in> set indices then f i else vals (cursors l ! i))" if "i \<in> set (current_key l)" for i
    using assms(2,3) current_key_facts(1) [OF ok that] by (auto split: if_splits)
  then show "list_vals (l\<lparr>cursors := cs\<rparr>) =
      merge_vals (map (\<lambda>i. if i \<in> set indices then f i else vals (cursors l ! i)) (current_key l))"
    by (auto simp: list_vals_def intro!: arg_cong [where f = merge_vals])
qed

lemma list_vals_current: "list_vals (l\<lparr>current_val := vs\<rparr>) = list_vals l" "list_groups (l\<lparr>current_val := vs\<rparr>) = list_groups l"
  "list_total (l\<lparr>current_val := vs\<rparr>) = list_total l"
  by (simp_all add: list_vals_def list_groups_def list_total_def)

lemma current_val_subset: "list_inv l \<Longrightarrow> set (current_val l) \<subseteq> set (current_key l)"
  by (auto simp: list_inv_def at_least_def)

lemma list_step_val:
  assumes "list_inv l" and "list_vals l \<noteq> []"
  shows "\<exists>l'. cls_step_val ops l = ok l' \<and> list_inv l' \<and> list_total l' = list_total l \<and>
    list_groups l' = list_groups l \<and> list_vals l' = tl (list_vals l)"
proof -
  have ok: "keys_ok l" and inv: "all_inv l" using assms(1) by (simp_all add: list_inv_def keys_ok_def)
  obtain v where v: "least (vheads l) (current_key l) = Some v" using list_vals_empty [OF assms(1)] assms(2) by auto
  have cv: "current_val l = filter (\<lambda>i. vheads l i = Some v) (current_key l)"
    using assms v by (auto simp: list_inv_def at_least_def intro!: filter_cong)
  let ?r = "\<lambda>c c'. inv c' \<and> total c' = total c \<and> groups c' = groups c \<and> vals c' = tl (vals c)"
  have "\<exists>c'. co_step_val ops (cursors l ! i) = ok c' \<and> ?r (cursors l ! i) c'" if "i \<in> set (current_val l)" for i
    using step_val [OF nth_inv [OF inv, of i]] current_val_facts [OF assms(1) that]
      current_key_facts [OF ok current_val_facts(1) [OF assms(1) that]] by auto
  from each_at_ok [of "current_val l" l "co_step_val ops" ?r, OF distinct_current(2) [OF assms(1)] _ this]
  obtain cs where cs: "each_at (co_step_val ops) (current_val l) l = ok (l\<lparr>cursors := cs\<rparr>)"
    "length cs = length (cursors l)"
    "\<forall>i < length cs. if i \<in> set (current_val l) then ?r (cursors l ! i) (cs ! i) else cs ! i = cursors l ! i"
    using current_key_facts(1) [OF ok] current_val_facts(1) [OF assms(1)] by auto
  note after = vals_after [OF assms(1) cs(2), of "current_val l" "\<lambda>i. tl (vals (cursors l ! i))", OF cs(3)
      current_val_subset [OF assms(1)]]
  have "merge_vals (map (\<lambda>i. if i \<in> set (current_val l) then tl (vals (cursors l ! i)) else vals (cursors l ! i))
      (current_key l)) = tl (list_vals l)"
    unfolding list_vals_head [OF assms(1) v] cv by (auto intro!: arg_cong [where f = merge_vals])
  then show ?thesis
    using minimize_vals_ok [OF after(1)] after(2-4) cs(1) inv
    by (auto simp: cls_step_val_def all_inv_def list_vals_current)
qed

lemma list_rewind_vals:
  assumes "list_inv l"
  shows "\<exists>l'. cls_rewind_vals ops l = ok l' \<and> list_inv l' \<and> list_total l' = list_total l \<and>
    list_groups l' = list_groups l \<and> (list_groups l' \<noteq> [] \<longrightarrow> list_vals l' = snd (hd (list_groups l')))"
proof -
  have ok: "keys_ok l" and inv: "all_inv l" using assms(1) by (simp_all add: list_inv_def keys_ok_def)
  let ?r = "\<lambda>c c'. inv c' \<and> total c' = total c \<and> groups c' = groups c \<and> vals c' = snd (hd (groups c))"
  have "\<exists>c'. co_rewind_vals ops (cursors l ! i) = ok c' \<and> ?r (cursors l ! i) c'" if "i \<in> set (current_key l)" for i
    using rewind_vals [OF nth_inv [OF inv, of i]] current_key_facts [OF ok that] by auto
  from each_at_ok [of "current_key l" l "co_rewind_vals ops" ?r, OF distinct_current(1) [OF assms] _ this]
  obtain cs where cs: "each_at (co_rewind_vals ops) (current_key l) l = ok (l\<lparr>cursors := cs\<rparr>)"
    "length cs = length (cursors l)"
    "\<forall>i < length cs. if i \<in> set (current_key l) then ?r (cursors l ! i) (cs ! i) else cs ! i = cursors l ! i"
    using current_key_facts(1) [OF ok] by auto
  note after = vals_after [OF assms cs(2), of "current_key l" "\<lambda>i. snd (hd (groups (cursors l ! i)))", OF cs(3) subset_refl]
  let ?l = "l\<lparr>cursors := cs\<rparr>"
  have "\<forall>i \<in> set (current_key ?l). fresh (cursors ?l ! i)"
    using cs(2,3) current_key_facts(1) [OF ok] by (auto simp: fresh_def split: if_splits)
  then have "list_groups ?l \<noteq> [] \<longrightarrow> list_vals ?l = snd (hd (list_groups ?l))" using list_vals_fresh [OF after(1)] by blast
  moreover have "forwards ?l = ?l" using inv by (simp add: forwards_def all_inv_def)
  ultimately show ?thesis
    using minimize_vals_ok [OF after(1)] after(2,3) cs(1) by (auto simp: cls_rewind_vals_def list_vals_current)
qed

lemma list_times:
  assumes "list_inv l" and "list_vals l \<noteq> []"
  shows "\<exists>l'. cls_times ops l = ok (snd (hd (list_vals l)), l') \<and> list_inv l' \<and> list_total l' = list_total l \<and>
    list_groups l' = list_groups l \<and> list_vals l' = list_vals l"
proof -
  have ok: "keys_ok l" and inv: "all_inv l" using assms(1) by (simp_all add: list_inv_def keys_ok_def)
  obtain v where v: "least (vheads l) (current_key l) = Some v" using list_vals_empty [OF assms(1)] assms(2) by auto
  let ?r = "\<lambda>c c'. inv c' \<and> total c' = total c \<and> groups c' = groups c \<and> vals c' = vals c"
  have "\<exists>c'. co_times ops (cursors l ! i) = ok (snd (hd (vals (cursors l ! i))), c') \<and> ?r (cursors l ! i) c'"
    if "i \<in> set (current_val l)" for i
    using times [OF nth_inv [OF inv, of i]] current_val_facts [OF assms(1) that]
      current_key_facts [OF ok current_val_facts(1) [OF assms(1) that]] by auto
  from times_loop_ok [of "current_val l" l "co_times ops" "\<lambda>c. snd (hd (vals c))" ?r "[]",
      OF distinct_current(2) [OF assms(1)] _ this]
  obtain cs where cs: "cls_times ops l = ok (concat (map (\<lambda>i. snd (hd (vals (cursors l ! i)))) (current_val l)), l\<lparr>cursors := cs\<rparr>)"
    "length cs = length (cursors l)"
    "\<forall>i < length cs. if i \<in> set (current_val l) then ?r (cursors l ! i) (cs ! i) else cs ! i = cursors l ! i"
    using current_key_facts(1) [OF ok] current_val_facts(1) [OF assms(1)] by (auto simp: cls_times_def)
  note after = vals_after [OF assms(1) cs(2), of "current_val l" "\<lambda>i. vals (cursors l ! i)", OF cs(3)
      current_val_subset [OF assms(1)]]
  have "vheads (l\<lparr>cursors := cs\<rparr>) i = vheads l i" if "i \<in> set (current_key l)" for i
    using cs(2,3) current_key_facts(1) [OF ok that] by (auto simp: vheads_def split: if_splits)
  then have h: "at_least (vheads (l\<lparr>cursors := cs\<rparr>)) (current_key l) = at_least (vheads l) (current_key l)"
    by (rule at_least_cong)
  have "list_inv (l\<lparr>cursors := cs\<rparr>)" using assms(1) after(1) h by (simp add: list_inv_def)
  then show ?thesis using cs(1) after(2-4) list_vals_head [OF assms(1) v] by (simp add: list_vals_def)
qed

lemma list_valid:
  assumes "list_inv l"
  shows "cls_key_valid l \<longleftrightarrow> list_groups l \<noteq> []" and "cls_val_valid l \<longleftrightarrow> list_vals l \<noteq> []"
  using assms list_groups_empty(1) [of l] list_vals_empty(1) [of l]
  by (auto simp: list_inv_def cls_key_valid_def cls_val_valid_def)

text \<open>The cursor list is a cursor.\<close>

theorem list_cursor: "ordered_cursor (cls_ops ops) list_inv list_total list_groups list_vals"
proof
  fix l and k :: 'k
  assume l: "list_inv l"
  note cls = cls_ops_def
  show "co_key_valid (cls_ops ops) l \<longleftrightarrow> list_groups l \<noteq> []" using list_valid(1) [OF l] by (simp add: cls)
  show "co_val_valid (cls_ops ops) l \<longleftrightarrow> list_vals l \<noteq> []" using list_valid(2) [OF l] by (simp add: cls)
  show "list_groups l \<noteq> [] \<Longrightarrow> co_key (cls_ops ops) l = Inr (fst (hd (list_groups l)))"
    using list_key [OF l] by (simp add: cls)
  show "list_groups l \<noteq> [] \<Longrightarrow> list_vals l \<noteq> [] \<Longrightarrow> co_val (cls_ops ops) l = Inr (fst (hd (list_vals l)))"
    using list_val [OF l] by (simp add: cls)
  show "list_vals l \<noteq> [] \<Longrightarrow> \<exists>l'. co_times (cls_ops ops) l = ok (snd (hd (list_vals l)), l') \<and> list_inv l' \<and>
      list_total l' = list_total l \<and> list_groups l' = list_groups l \<and> list_vals l' = list_vals l"
    using list_times [OF l] by (simp add: cls)
  show "list_vals l \<noteq> [] \<Longrightarrow> \<exists>l'. co_step_val (cls_ops ops) l = ok l' \<and> list_inv l' \<and>
      list_total l' = list_total l \<and> list_groups l' = list_groups l \<and> list_vals l' = tl (list_vals l)"
    using list_step_val [OF l] by (simp add: cls)
  show "list_groups l \<noteq> [] \<Longrightarrow> \<exists>l'. co_step_key (cls_ops ops) l = ok l' \<and> list_inv l' \<and>
      list_total l' = list_total l \<and> list_groups l' = tl (list_groups l) \<and>
      (list_groups l' \<noteq> [] \<longrightarrow> list_vals l' = snd (hd (list_groups l')))"
    using list_step_key [OF l] by (simp add: cls)
  show "\<exists>l'. co_seek_key (cls_ops ops) l k = ok l' \<and> list_inv l' \<and> list_total l' = list_total l \<and>
      list_groups l' = dropWhile (\<lambda>g. fst g < k) (list_groups l) \<and>
      (list_groups l' \<noteq> [] \<longrightarrow> list_vals l' = snd (hd (list_groups l')))"
    using list_seek_key [OF l] by (simp add: cls)
  show "\<exists>l'. co_rewind_keys (cls_ops ops) l = ok l' \<and> list_inv l' \<and> list_total l' = list_total l \<and>
      list_groups l' = list_total l \<and> (list_groups l' \<noteq> [] \<longrightarrow> list_vals l' = snd (hd (list_groups l')))"
    using list_rewind_keys [OF l] by (simp add: cls)
  show "\<exists>l'. co_rewind_vals (cls_ops ops) l = ok l' \<and> list_inv l' \<and> list_total l' = list_total l \<and>
      list_groups l' = list_groups l \<and> (list_groups l' \<noteq> [] \<longrightarrow> list_vals l' = snd (hd (list_groups l')))"
    using list_rewind_vals [OF l] by (simp add: cls)
  show "groups_sorted (list_groups l)" "groups_sorted (list_total l)" "key_sorted (list_vals l)"
    by (simp_all add: list_groups_def list_total_def list_vals_def groups_sorted_merge key_sorted_merge_vals)
qed

lemma list_new:
  assumes "\<forall>c \<in> set cs. inv c \<and> fresh c"
  shows "\<exists>l. cursor_list_new ops cs = Inr l \<and> list_inv l \<and> cursors l = cs"
  using minimize_keys_ok [of "\<lparr>cursors = cs, current_key = [], current_val = [], direction = Forward\<rparr>"] assms
  by (auto simp: cursor_list_new_def all_inv_def)

end

end
