(* ===== verification/Trace_Cursor.thy ===== *)
theory Trace_Cursor
  imports ZSet_Trace Cursor_List_Laws
begin

text \<open>
  The cursor of a trace: \<^verbatim>\<open>SpineCursor\<close> of \<^verbatim>\<open>spine_fueled.rs\<close> is a cursor list over the cursors of the batches
  that are not empty, and forwards every method to it. Over the batches of Z-sets it shows every
  key of the trace once, with the weights that the batches hold for it.
\<close>

definition spine_cursor ::
  "('b, 'm, 'k::linorder, 'v::linorder, 't) batch_ops \<Rightarrow> ('b \<Rightarrow> 'c res) \<Rightarrow>
   ('c, 'k, 'v, 't, 'r, 'z) cursor_ops_scheme \<Rightarrow> ('b, 'm, 'k, 'v, 't) spine \<Rightarrow> 'c cursor_list res" where
  "spine_cursor bt cursor ops self = res_bind (spine_cursors bt cursor self) (cursor_list_new ops)"

text \<open>The method table of \<^verbatim>\<open>SpineCursor\<close>.\<close>

definition sc_ops ::
  "('c, 'k::linorder, 'v::linorder, 't, 'r, 'z) full_cursor_ops_scheme \<Rightarrow>
   ('c cursor_list, 'k, 'v, 't, 'r) full_cursor_ops" where
  "sc_ops ops = cls_full_ops ops"

section \<open>The contract\<close>

lemma key_sorted_oz_groups: "key_sorted xs \<Longrightarrow> groups_sorted (oz_groups xs)"
  by (auto simp: groups_sorted_def key_sorted_def oz_groups_def comp_def split_beta)

lemma key_sorted_range: "cl_wf l \<Longrightarrow> key_sorted (cl_range l a b)"
  by (simp add: cl_wf_def consolidated_def key_sorted_def cl_range_def sorted_wrt_take sorted_wrt_drop
      flip: drop_map take_map)

interpretation ozo: ordered_cursor oc_ops oc_inv "\<lambda>c. oz_groups (cc_total (oc_cursor c))"
  "\<lambda>c. oz_groups (cc_rest (oc_cursor c))" oc_vals
proof unfold_locales
  fix c :: "('k::linorder, 'r::comm_monoid_add) oz_cursor_state"
  assume "oc_inv c"
  then have "cl_wf (cc_storage (oc_cursor c))" by (simp add: oc_inv_def)
  then show "groups_sorted (oz_groups (cc_rest (oc_cursor c)))" "groups_sorted (oz_groups (cc_total (oc_cursor c)))"
    using key_sorted_range by (auto simp: cc_rest_def cc_total_def intro!: key_sorted_oz_groups)
  show "key_sorted (oc_vals c)" by (simp add: oc_vals_def)
qed

lemma sc_ops_simps:
  "co_key_valid (sc_ops ops) = co_key_valid (cls_ops ops)" "co_val_valid (sc_ops ops) = co_val_valid (cls_ops ops)"
  "co_key (sc_ops ops) = co_key (cls_ops ops)" "co_val (sc_ops ops) = co_val (cls_ops ops)"
  "co_times (sc_ops ops) = co_times (cls_ops ops)" "co_step_key (sc_ops ops) = co_step_key (cls_ops ops)"
  "co_step_val (sc_ops ops) = co_step_val (cls_ops ops)" "co_seek_key (sc_ops ops) = co_seek_key (cls_ops ops)"
  "co_rewind_keys (sc_ops ops) = co_rewind_keys (cls_ops ops)"
  "co_rewind_vals (sc_ops ops) = co_rewind_vals (cls_ops ops)"
  by (simp_all add: sc_ops_def cls_full_ops_def cls_ops_def cursor_ops.defs)

interpretation ozt: ordered_cursor "sc_ops oc_ops" ozo.list_inv ozo.list_total ozo.list_groups ozo.list_vals
  using ozo.list_cursor
  by (simp only: ordered_cursor_def batch_cursor_def ordered_cursor_axioms_def sc_ops_simps)

section \<open>The cursor of a Z-set trace\<close>

definition trace_batches :: "('k, 'r) zset_trace \<Rightarrow> ('k, 'r) ord_zset list" where
  "trace_batches sp = concat (map state_batches (rev (merging sp)))"

lemma spine_zset_batches: "spine_zset sp k = (\<Sum>b\<leftarrow>trace_batches sp. weight_of (oz_contents b) k)"
proof -
  have "(\<Sum>m\<leftarrow>ms. \<Sum>b\<leftarrow>state_batches m. oz_zset b k) =
      (\<Sum>b\<leftarrow>concat (map state_batches (rev ms)). oz_zset b k)" for ms
    by (induction ms) (simp_all add: add.commute)
  then show ?thesis by (simp add: spine_zset_def trace_batches_def oz_zset_def)
qed

lemma trace_batches_wf:
  assumes "trace_inv n sp" and "b \<in> set (trace_batches sp)"
  shows "oz_wf b"
proof -
  obtain m where m: "m \<in> set (merging sp)" "b \<in> set (state_batches m)"
    using assms(2) by (auto simp: trace_batches_def)
  then have "ozs.state_ok (lower_val_bound sp) m"
    using assms(1) by (simp add: trace_inv_def ozs.spine_inv_def ozs.states_ok_def)
  then show ?thesis using m(2) by (cases m rule: state_batches.cases) auto
qed

lemma cursors_loop:
  assumes "\<forall>b \<in> set bs. oz_wf b"
  shows "\<exists>cs. fold_batches_loop (\<lambda>cursors b. res_bind (bt_is_empty oz_batch b) (\<lambda>e.
      if \<not> e then res_map (\<lambda>c. cursors @ [c]) (oz_cursor b) else Inr cursors)) cs0 bs = Inr (cs0 @ cs) \<and>
    (\<forall>c \<in> set cs. oc_inv c \<and> ozo.fresh c) \<and>
    map (\<lambda>c. cc_total (oc_cursor c)) cs = filter (\<lambda>xs. xs \<noteq> []) (map oz_contents bs) \<and>
    map (\<lambda>c. cc_rest (oc_cursor c)) cs = filter (\<lambda>xs. xs \<noteq> []) (map oz_contents bs)"
  using assms
proof (induction bs arbitrary: cs0)
  case (Cons b bs)
  have b: "oz_wf b" using Cons.prems by simp
  have e: "bt_is_empty oz_batch b = Inr (oz_contents b = [])"
    using oz_batch_len_ok [OF b] by (simp add: bt_is_empty_def oz_batch_def)
  obtain c where c: "oz_cursor b = Inr c" "oc_inv c" "cc_total (oc_cursor c) = oz_contents b"
    "cc_rest (oc_cursor c) = oz_contents b" using oz_cursor_ok [OF b] by blast
  have "oc_valid c" using c(1) by (auto simp: oz_cursor_def res_map_eq_Inr)
  then have "ozo.fresh c" by (auto simp: ozo.fresh_def oc_vals_def oz_groups_head)
  then show ?case
    using Cons.IH [of "if oz_contents b = [] then cs0 else cs0 @ [c]"] Cons.prems e c
    by (cases "oz_contents b = []") fastforce+
qed simp

lemma trace_cursor_ok:
  assumes "trace_inv n sp"
  shows "\<exists>c. spine_cursor oz_batch oz_cursor oc_ops sp = Inr c \<and> ozo.list_inv c \<and>
    map (\<lambda>c. cc_total (oc_cursor c)) (cursors c) = filter (\<lambda>xs. xs \<noteq> []) (map oz_contents (trace_batches sp)) \<and>
    map (\<lambda>c. cc_rest (oc_cursor c)) (cursors c) = filter (\<lambda>xs. xs \<noteq> []) (map oz_contents (trace_batches sp)) \<and>
    (\<forall>c \<in> set (cursors c). ozo.fresh c)"
proof -
  have "\<forall>b \<in> set (trace_batches sp). oz_wf b" using trace_batches_wf [OF assms] by blast
  from cursors_loop [OF this, of "[]"]
  obtain cs where cs: "spine_cursors oz_batch oz_cursor sp = Inr cs" "\<forall>c \<in> set cs. oc_inv c \<and> ozo.fresh c"
    "map (\<lambda>c. cc_total (oc_cursor c)) cs = filter (\<lambda>xs. xs \<noteq> []) (map oz_contents (trace_batches sp))"
    "map (\<lambda>c. cc_rest (oc_cursor c)) cs = filter (\<lambda>xs. xs \<noteq> []) (map oz_contents (trace_batches sp))"
    by (auto simp: spine_cursors_def fold_batches_def trace_batches_def)
  then show ?thesis using ozo.list_new [OF cs(2)] by (auto simp: spine_cursor_def)
qed

lemma merge_unit_vals:
  "merge_vals (map (\<lambda>r. [((), [((), r)])]) rs) = (if rs = [] then [] else [((), map (Pair ()) rs)])"
proof -
  have "keys_of (map (\<lambda>r. [((), [((), r)])]) rs) = (if rs = [] then {} else {()})" by (auto simp: keys_of_def)
  moreover have "at_key () (map (\<lambda>r. [((), [((), r)])]) rs) = map (\<lambda>r. [((), r)]) rs"
    by (induction rs) (simp_all add: at_key_def)
  moreover have "concat (map (\<lambda>r. [((), r)]) rs) = map (Pair ()) rs" by (induction rs) simp_all
  ultimately show ?thesis by (simp add: merge_vals_def kmerge_def)
qed

lemma at_key_Nil: "at_key k xss = [] \<longleftrightarrow> k \<notin> keys_of xss"
  by (force simp: at_key_def keys_of_def filter_empty_conv)

lemma merge_oz_groups_eq:
  "merge_groups (map oz_groups xss) =
     map (\<lambda>k. (k, [((), map (Pair ()) (at_key k xss))])) (sorted_list_of_set (keys_of xss))"
proof -
  have k: "keys_of (map oz_groups xss) = keys_of xss" by (force simp: keys_of_def oz_groups_def)
  have a: "at_key x (map oz_groups xss) = map (\<lambda>r. [((), [((), r)])]) (at_key x xss)" for x
    by (induction xss) (simp_all add: at_key_def oz_groups_def filter_map comp_def split_beta)
  show ?thesis
    using at_key_Nil [of _ xss] by (simp add: merge_groups_def kmerge_def k a merge_unit_vals)
qed

lemma merge_oz_groups:
  "flatten_groups (merge_groups (map oz_groups xss)) =
     map (\<lambda>k. ((k, ()), map (Pair ()) (at_key k xss))) (sorted_list_of_set (keys_of xss))"
  unfolding merge_oz_groups_eq by (simp add: flatten_groups_def comp_def concat_map_singleton)

lemma sum_at_key: "sum_list (at_key k xss) = (\<Sum>xs\<leftarrow>xss. weight_of xs k)"
proof -
  have w: "sum_list (map snd (filter (\<lambda>g. fst g = k) xs)) = weight_of xs k" for xs
    by (induction xs) auto
  show ?thesis by (induction xss) (simp_all add: at_key_def w)
qed

lemma sum_weight_nonempty: "(\<Sum>xs\<leftarrow>filter (\<lambda>xs. xs \<noteq> []) xss. weight_of xs k) = (\<Sum>xs\<leftarrow>xss. weight_of xs k)"
  by (induction xss) auto

section \<open>Properties\<close>

text \<open>
  C13. The cursor of a trace reads the trace: after any sequence of calls of cost below \<open>2 ^ 29\<close> the
  cursor can be built, \<^verbatim>\<open>to_vec\<close> ends and returns keys in strictly increasing order, the weights it
  lists for a key add up to the weight of the key in the Z-set of the trace, and no key of that
  Z-set is missing.
\<close>

theorem trace_cursor_reads_trace:
  assumes "list_all call_wf cs" and "(\<Sum>c\<leftarrow>cs. call_cost c) < 2 ^ 29"
    and "trace_calls cs (spine_new unit_ops act) = ok sp"
  shows "\<exists>c out. spine_cursor oz_batch oz_cursor oc_ops sp = Inr c \<and> co_to_vec (sc_ops oc_ops) c = ok out \<and>
    sorted_wrt (<) (map (fst \<circ> fst) out) \<and>
    (\<forall>kv ts. (kv, ts) \<in> set out \<longrightarrow> sum_list (map snd ts) = spine_zset sp (fst kv)) \<and>
    (\<forall>k. spine_zset sp k \<noteq> 0 \<longrightarrow> k \<in> set (map (fst \<circ> fst) out))"
proof -
  have inv: "trace_inv (\<Sum>c\<leftarrow>cs. call_cost c) sp"
    using trace_calls_ok [OF trace_inv_new assms(1), of act] assms(2,3) by auto
  let ?xss = "filter (\<lambda>xs. xs \<noteq> []) (map oz_contents (trace_batches sp))"
  obtain c where c: "spine_cursor oz_batch oz_cursor oc_ops sp = Inr c" "ozo.list_inv c"
    "map (\<lambda>c. cc_total (oc_cursor c)) (cursors c) = ?xss" using trace_cursor_ok [OF inv] by blast
  have "ozo.list_total c = merge_groups (map oz_groups ?xss)"
    unfolding c(3) [symmetric] by (simp add: ozo.list_total_def comp_def)
  then have out: "co_to_vec (sc_ops oc_ops) c =
      ok (map (\<lambda>k. ((k, ()), map (Pair ()) (at_key k ?xss))) (sorted_list_of_set (keys_of ?xss)))"
    using ozt.to_vec [OF c(2)] merge_oz_groups by simp
  have weights: "sum_list (at_key k ?xss) = spine_zset sp k" for k
    unfolding sum_at_key sum_weight_nonempty by (simp add: spine_zset_batches comp_def)
  have all: "k \<in> keys_of ?xss" if "spine_zset sp k \<noteq> 0" for k
    using that at_key_Nil [of k ?xss] weights [of k] by auto
  show ?thesis
  proof (intro exI conjI)
    show "sorted_wrt (<) (map (fst \<circ> fst) (map (\<lambda>k. ((k, ()), map (Pair ()) (at_key k ?xss)))
        (sorted_list_of_set (keys_of ?xss))))" by (simp add: comp_def)
    show "\<forall>k. spine_zset sp k \<noteq> 0 \<longrightarrow> k \<in> set (map (fst \<circ> fst) (map (\<lambda>k. ((k, ()), map (Pair ()) (at_key k ?xss)))
        (sorted_list_of_set (keys_of ?xss))))" using all by (simp add: comp_def)
  qed (use c(1) out weights in \<open>auto simp: comp_def\<close>)
qed

theorem trace_cursor_reads_trace_witness:
  "\<exists>sp c out. trace_calls sample_requests (spine_new unit_ops None) = ok sp \<and>
    spine_cursor oz_batch oz_cursor oc_ops sp = Inr c \<and> co_to_vec (sc_ops oc_ops) c = ok out \<and>
    sorted_wrt (<) (map (fst \<circ> fst) out)"
proof -
  have wf: "list_all call_wf sample_requests" "(\<Sum>c\<leftarrow>sample_requests. call_cost c) < 2 ^ 29"
    by (simp_all add: sample_requests_def sample_zset_wf sample_zset_contents)
  obtain sp where "trace_calls sample_requests (spine_new unit_ops None) = ok sp"
    using trace_calls_ok [OF trace_inv_new wf(1)] wf(2) by auto
  then show ?thesis using trace_cursor_reads_trace [OF wf] by blast
qed




end
