(* ===== verification/Weighted_Cursors.thy ===== *)
theory Weighted_Cursors
  imports Trace_Cursor Weights
begin

text \<open>
  Cursors over untimed data: the method \<^verbatim>\<open>weight\<close> of the trait \<^verbatim>\<open>Cursor\<close>, and the readers and batches
  (\<^verbatim>\<open>BatchReader\<close>, \<^verbatim>\<open>Batch\<close> of \<^verbatim>\<open>crates/dbsp/src/trace/mod.rs\<close>) that operators are generic in.  The locale
  \<open>weighted_cursor\<close> is the contract of the two methods that operators use beside those of
  \<open>batch_cursor\<close>; a cursor list over such cursors honours it too, so that it holds of the cursors of
  Z-sets and of their traces.
\<close>

record ('c, 'k, 'v, 't, 'r) weighted_cursor_ops = "('c, 'k, 'v, 't, 'r) full_cursor_ops" +
  co_weight :: "'c \<Rightarrow> ('r \<times> 'c) run"

definition weighted_ops ::
  "('c, 'k, 'v, 't, 'r) full_cursor_ops \<Rightarrow> ('c \<Rightarrow> ('r \<times> 'c) run) \<Rightarrow>
   ('c, 'k, 'v, 't, 'r) weighted_cursor_ops" where
  "weighted_ops ops w = full_cursor_ops.extend ops (weighted_cursor_ops.fields w)"

definition oc_weighted :: "(('k::linorder, 'r) oz_cursor_state, 'k, unit, unit, 'r) weighted_cursor_ops" where
  "oc_weighted = weighted_ops oc_ops (\<lambda>self. lift_res (res_map (\<lambda>w. (w, self)) (oc_weight self)))"

definition sc_weighted ::
  "('c, 'k::linorder, 'v::linorder, 't, 'r::comm_monoid_add, 'z) weighted_cursor_ops_scheme \<Rightarrow>
   ('c cursor_list, 'k, 'v, 't, 'r) weighted_cursor_ops" where
  "sc_weighted ops = weighted_ops (sc_ops ops) (cls_weight ops)"

lemma weighted_ops_simps [simp]:
  "co_key_valid (weighted_ops ops w) = co_key_valid ops" "co_val_valid (weighted_ops ops w) = co_val_valid ops"
  "co_key (weighted_ops ops w) = co_key ops" "co_val (weighted_ops ops w) = co_val ops"
  "co_times (weighted_ops ops w) = co_times ops" "co_step_key (weighted_ops ops w) = co_step_key ops"
  "co_step_val (weighted_ops ops w) = co_step_val ops" "co_seek_key (weighted_ops ops w) = co_seek_key ops"
  "co_rewind_keys (weighted_ops ops w) = co_rewind_keys ops" "co_rewind_vals (weighted_ops ops w) = co_rewind_vals ops"
  "co_seek_val (weighted_ops ops w) = co_seek_val ops" "co_weight (weighted_ops ops w) = w"
  by (simp_all add: weighted_ops_def full_cursor_ops.defs weighted_cursor_ops.defs)

lemma ordered_weighted:
  "ordered_cursor (weighted_ops ops w) I T G V \<longleftrightarrow> ordered_cursor ops I T G V"
  by (simp only: ordered_cursor_def batch_cursor_def ordered_cursor_axioms_def weighted_ops_simps)

lemma ordered_sc_ops:
  "ordered_cursor (sc_ops ops) I T G V \<longleftrightarrow> ordered_cursor (cls_ops ops) I T G V"
  by (simp only: ordered_cursor_def batch_cursor_def ordered_cursor_axioms_def sc_ops_simps)

section \<open>The contract\<close>

locale weighted_cursor = ordered_cursor ops inv total groups vals
  for ops :: "('c, 'k::linorder, 'v::linorder, 't, 'r::comm_monoid_add, 'z) weighted_cursor_ops_scheme"
    and inv :: "'c \<Rightarrow> bool"
    and total :: "'c \<Rightarrow> ('k, 'v, 't, 'r) groups"
    and groups :: "'c \<Rightarrow> ('k, 'v, 't, 'r) groups"
    and vals :: "'c \<Rightarrow> ('v \<times> ('t \<times> 'r) list) list" +
  assumes seek_val: "inv c \<Longrightarrow> groups c \<noteq> [] \<Longrightarrow>
      \<exists>c'. co_seek_val ops c v = ok c' \<and> inv c' \<and> total c' = total c \<and> groups c' = groups c \<and>
        vals c' = dropWhile (\<lambda>x. fst x < v) (vals c)"
    and weight: "inv c \<Longrightarrow> groups c \<noteq> [] \<Longrightarrow> vals c \<noteq> [] \<Longrightarrow>
      \<exists>c'. co_weight ops c = ok (\<Sum>(t, r)\<leftarrow>snd (hd (vals c)). r, c') \<and> inv c' \<and> total c' = total c \<and>
        groups c' = groups c \<and> vals c' = vals c"
begin

lemma list_seek_val:
  assumes "list_inv l"
  shows "\<exists>l'. cls_seek_val ops l v = ok l' \<and> list_inv l' \<and> list_total l' = list_total l \<and>
    list_groups l' = list_groups l \<and> list_vals l' = dropWhile (\<lambda>x. fst x < v) (list_vals l)"
proof -
  have ok: "keys_ok l" and inv: "all_inv l" using assms by (simp_all add: list_inv_def keys_ok_def)
  let ?d = "dropWhile (\<lambda>x. fst x < v)"
  let ?r = "\<lambda>c c'. inv c' \<and> total c' = total c \<and> groups c' = groups c \<and> vals c' = ?d (vals c)"
  have "\<exists>c'. co_seek_val ops (cursors l ! i) v = ok c' \<and> ?r (cursors l ! i) c'" if "i \<in> set (current_key l)" for i
    using seek_val [OF nth_inv [OF inv, of i]] current_key_facts [OF ok that] by auto
  from each_at_ok [of "current_key l" l "\<lambda>c. co_seek_val ops c v" ?r, OF distinct_current(1) [OF assms] _ this]
  obtain cs where cs: "each_at (\<lambda>c. co_seek_val ops c v) (current_key l) l = ok (l\<lparr>cursors := cs\<rparr>)"
    "length cs = length (cursors l)"
    "\<forall>i < length cs. if i \<in> set (current_key l) then ?r (cursors l ! i) (cs ! i) else cs ! i = cursors l ! i"
    using current_key_facts(1) [OF ok] by auto
  note after = vals_after [OF assms cs(2), of "current_key l" "\<lambda>i. ?d (vals (cursors l ! i))", OF cs(3) subset_refl]
  have sorted: "\<forall>gs \<in> set (map (\<lambda>i. vals (cursors l ! i)) (current_key l)). key_sorted gs"
    using current_key_facts(1,2) [OF ok] sorted_vals [OF nth_inv [OF inv]] by auto
  have "merge_vals (map (\<lambda>i. if i \<in> set (current_key l) then ?d (vals (cursors l ! i)) else vals (cursors l ! i))
      (current_key l)) = merge_vals (map ?d (map (\<lambda>i. vals (cursors l ! i)) (current_key l)))"
    by (auto intro!: arg_cong [where f = merge_vals])
  also have "\<dots> = ?d (list_vals l)"
    using kmerge_dropWhile [OF sorted, of v]
    by (simp add: list_vals_def merge_vals_def dropWhile_map comp_def split_beta)
  finally have vals: "list_vals (l\<lparr>cursors := cs\<rparr>) = ?d (list_vals l)" using after(4) by simp
  show ?thesis
    using minimize_vals_ok [OF after(1)] after(2,3) vals cs(1) inv
    by (auto simp: cls_seek_val_def all_inv_def list_vals_current)
qed

lemma list_weight:
  assumes "list_inv l" and "list_groups l \<noteq> []" and "list_vals l \<noteq> []"
  shows "\<exists>l'. cls_weight ops l = ok (\<Sum>(t, r)\<leftarrow>snd (hd (list_vals l)). r, l') \<and> list_inv l' \<and>
    list_total l' = list_total l \<and> list_groups l' = list_groups l \<and> list_vals l' = list_vals l"
proof -
  have ok: "keys_ok l" and inv: "all_inv l" using assms(1) by (simp_all add: list_inv_def keys_ok_def)
  have v: "cls_key_valid l" "cls_val_valid l" using list_valid [OF assms(1)] assms(2,3) by simp_all
  define i where "i = current_val l ! 0"
  have mem: "i \<in> set (current_val l)" using v(2) by (simp add: cls_val_valid_def i_def)
  note key = current_key_facts [OF ok current_val_facts(1) [OF assms(1) mem]]
  have "co_val_valid ops (cursors l ! i)"
    using val_valid [OF nth_inv [OF inv key(1)] key(2)] current_val_facts(2) [OF assms(1) mem] by simp
  moreover obtain l' where l': "cls_times ops l = ok (snd (hd (list_vals l)), l')" "list_inv l'"
    "list_total l' = list_total l" "list_groups l' = list_groups l" "list_vals l' = list_vals l"
    using list_times [OF assms(1,3)] by blast
  moreover have "fold (\<lambda>(t, w) res. res + w) ts a = a + (\<Sum>(t, r)\<leftarrow>ts. r)" for ts :: "('t \<times> 'r) list" and a
    by (induction ts arbitrary: a) (auto simp: add.assoc split: prod.splits)
  ultimately show ?thesis
    using v key(1) by (simp add: cls_weight_def cursor_at_def i_def [symmetric])
qed

lemma list_weighted: "weighted_cursor (sc_weighted ops) list_inv list_total list_groups list_vals"
proof (intro weighted_cursor.intro weighted_cursor_axioms.intro)
  show "ordered_cursor (sc_weighted ops) list_inv list_total list_groups list_vals"
    unfolding sc_weighted_def ordered_weighted ordered_sc_ops by (rule list_cursor)
  fix l and v :: 'v
  assume l: "list_inv l"
  have "co_seek_val (sc_ops ops) = cls_seek_val ops"
    by (simp add: sc_ops_def cls_full_ops_def cursor_ops.defs full_cursor_ops.defs)
  then show "\<exists>l'. co_seek_val (sc_weighted ops) l v = ok l' \<and> list_inv l' \<and> list_total l' = list_total l \<and>
      list_groups l' = list_groups l \<and> list_vals l' = dropWhile (\<lambda>x. fst x < v) (list_vals l)"
    using list_seek_val [OF l] by (simp add: sc_weighted_def)
  assume "list_groups l \<noteq> []" "list_vals l \<noteq> []"
  then show "\<exists>l'. co_weight (sc_weighted ops) l = ok (\<Sum>(t, r)\<leftarrow>snd (hd (list_vals l)). r, l') \<and> list_inv l' \<and>
      list_total l' = list_total l \<and> list_groups l' = list_groups l \<and> list_vals l' = list_vals l"
    using list_weight [OF l] by (simp add: sc_weighted_def)
qed

end

section \<open>Cursors of Z-sets and of their traces\<close>

interpretation ozw: weighted_cursor oc_weighted oc_inv "\<lambda>c. oz_groups (cc_total (oc_cursor c))"
  "\<lambda>c. oz_groups (cc_rest (oc_cursor c))" oc_vals
proof (intro weighted_cursor.intro weighted_cursor_axioms.intro)
  show "ordered_cursor oc_weighted oc_inv (\<lambda>c. oz_groups (cc_total (oc_cursor c)))
      (\<lambda>c. oz_groups (cc_rest (oc_cursor c))) oc_vals"
    unfolding oc_weighted_def ordered_weighted by (rule ozo.ordered_cursor_axioms)
  fix c :: "('k::linorder, 'r::comm_monoid_add) oz_cursor_state" and v :: unit
  assume inv: "oc_inv c"
  show "\<exists>c'. co_seek_val oc_weighted c v = ok c' \<and> oc_inv c' \<and>
      oz_groups (cc_total (oc_cursor c')) = oz_groups (cc_total (oc_cursor c)) \<and>
      oz_groups (cc_rest (oc_cursor c')) = oz_groups (cc_rest (oc_cursor c)) \<and>
      oc_vals c' = dropWhile (\<lambda>x. fst x < v) (oc_vals c)"
    using inv by (simp add: oc_weighted_def oc_ops_def oc_seek_val_def oc_vals_def)
  assume ne: "oz_groups (cc_rest (oc_cursor c)) \<noteq> []" "oc_vals c \<noteq> []"
  have ok: "cc_ok (oc_cursor c)" using inv by (simp add: oc_inv_def)
  then have valid: "cc_valid (oc_cursor c)" using ne(1) cc_valid_rest by auto
  then show "\<exists>c'. co_weight oc_weighted c = ok (\<Sum>(t, r)\<leftarrow>snd (hd (oc_vals c)). r, c') \<and> oc_inv c' \<and>
      oz_groups (cc_total (oc_cursor c')) = oz_groups (cc_total (oc_cursor c)) \<and>
      oz_groups (cc_rest (oc_cursor c')) = oz_groups (cc_rest (oc_cursor c)) \<and> oc_vals c' = oc_vals c"
    using ne(2) inv cc_current_ok [OF ok valid]
    by (simp add: oc_weighted_def oc_weight_def oc_vals_def split: if_splits)
qed

interpretation ozwt: weighted_cursor "sc_weighted oc_weighted" ozw.list_inv ozw.list_total ozw.list_groups ozw.list_vals
  by (rule ozw.list_weighted)

end
