(* ===== verification/Indexed_ZSets.thy ===== *)
theory Indexed_ZSets
  imports Weighted_Cursors
begin

text \<open>
  The traits \<^verbatim>\<open>BatchReader\<close> and \<^verbatim>\<open>Batch\<close> as tables of methods, and the default methods of indexed
  Z-sets (\<^verbatim>\<open>crates/dbsp/src/algebra/zset/mod.rs\<close>), which walk a batch with its cursor and build another:
  \<^verbatim>\<open>distinct\<close>, the iterator over the tuples, the weighted count.
\<close>

record ('z, 'c, 'k, 'v, 't, 'r) reader_ops =
  rd_key_count :: "'z \<Rightarrow> nat res"
  rd_len :: "'z \<Rightarrow> nat res"
  rd_cursor :: "'z \<Rightarrow> 'c res"
  rd_cursor_ops :: "('c, 'k, 'v, 't, 'r) weighted_cursor_ops"

record ('z, 'c, 'k, 'v, 't, 'r, 'b, 'i) zset_ops = "('z, 'c, 'k, 'v, 't, 'r) reader_ops" +
  zo_item_from :: "'k \<Rightarrow> 'v \<Rightarrow> 'i"
  zo_builder :: "('b, 'i, 't, 'r, 'z) builder_ops"

definition oz_item_from :: "'k \<Rightarrow> unit \<Rightarrow> 'k" where
  "oz_item_from key val = key"

definition oz_ops ::
  "(('k::linorder, 'r) ord_zset, ('k, 'r) oz_cursor_state, 'k, unit, unit, 'r, ('k, 'r) oz_builder, 'k) zset_ops" where
  "oz_ops = \<lparr>rd_key_count = oz_key_count, rd_len = oz_batch_len, rd_cursor = oz_cursor,
     rd_cursor_ops = oc_weighted, zo_item_from = oz_item_from, zo_builder = ob_ops\<rparr>"

definition oz_trace_reader ::
  "(('k::linorder, 'r::comm_monoid_add) zset_trace, ('k, 'r) oz_cursor_state cursor_list, 'k, unit, unit, 'r) reader_ops" where
  "oz_trace_reader = \<lparr>rd_key_count = spine_key_count oz_batch, rd_len = spine_len oz_batch,
     rd_cursor = spine_cursor oz_batch oz_cursor oc_weighted, rd_cursor_ops = sc_weighted oc_weighted\<rparr>"

section \<open>Walking a cursor\<close>

text \<open>
  \<^verbatim>\<open>while cursor.val_valid() { body; cursor.step_val(); }\<close>, and the same for keys; the body may move
  other cursors and builders, its state \<open>s\<close>.
\<close>

partial_function (option) while_vals ::
  "('c, 'k, 'v, 't, 'r, 'z) cursor_ops_scheme \<Rightarrow> ('c \<Rightarrow> 's \<Rightarrow> ('c \<times> 's) run) \<Rightarrow> 'c \<Rightarrow> 's \<Rightarrow> ('c \<times> 's) run" where
  "while_vals ops body cursor s =
     (if co_val_valid ops cursor then
        run_bind (body cursor s) (\<lambda>(cursor, s).
        run_bind (co_step_val ops cursor) (\<lambda>cursor. while_vals ops body cursor s))
      else ok (cursor, s))"

partial_function (option) while_keys ::
  "('c, 'k, 'v, 't, 'r, 'z) cursor_ops_scheme \<Rightarrow> ('c \<Rightarrow> 's \<Rightarrow> ('c \<times> 's) run) \<Rightarrow> 'c \<Rightarrow> 's \<Rightarrow> ('c \<times> 's) run" where
  "while_keys ops body cursor s =
     (if co_key_valid ops cursor then
        run_bind (body cursor s) (\<lambda>(cursor, s).
        run_bind (co_step_key ops cursor) (\<lambda>cursor. while_keys ops body cursor s))
      else ok (cursor, s))"

section \<open>Indexed Z-sets\<close>

text \<open>Push of the current key and value with a weight.\<close>

definition push_current ::
  "('z, 'c, 'k, 'v, 't, 'r, 'b, 'i) zset_ops \<Rightarrow> 'c \<Rightarrow> 'v \<Rightarrow> 'r \<Rightarrow> 'b \<Rightarrow> 'b run" where
  "push_current zo cursor v w builder =
     run_bind (lift_res (co_key (rd_cursor_ops zo) cursor)) (\<lambda>k.
     lift_res (bo_push (zo_builder zo) builder (zo_item_from zo k v, w)))"

definition distinct_val ::
  "('z, 'c, 'k, 'v, unit, 'r::{zero,one,ord}, 'b, 'i) zset_ops \<Rightarrow> 'c \<Rightarrow> 'b \<Rightarrow> ('c \<times> 'b) run" where
  "distinct_val zo cursor builder =
     (let ops = rd_cursor_ops zo in
      run_bind (co_weight ops cursor) (\<lambda>(w, cursor).
      if ge0 w then
        run_bind (lift_res (co_val ops cursor)) (\<lambda>v.
        run_bind (push_current zo cursor v 1 builder) (\<lambda>builder. ok (cursor, builder)))
      else ok (cursor, builder)))"

definition izset_distinct ::
  "('z, 'c, 'k, 'v, unit, 'r::{zero,one,ord}, 'b, 'i) zset_ops \<Rightarrow> 'z \<Rightarrow> 'z run" where
  "izset_distinct zo self =
     run_bind (lift_res (rd_key_count zo self)) (\<lambda>n.
     run_bind (lift_res (rd_cursor zo self)) (\<lambda>cursor.
     run_bind (while_keys (rd_cursor_ops zo) (while_vals (rd_cursor_ops zo) (distinct_val zo)) cursor
         (bo_with_capacity (zo_builder zo) () n)) (\<lambda>(cursor, builder).
     lift_res (bo_done (zo_builder zo) builder))))"

definition izset_distinct_owned ::
  "('z, 'c, 'k, 'v, unit, 'r::{zero,one,ord}, 'b, 'i) zset_ops \<Rightarrow> 'z \<Rightarrow> 'z run" where
  "izset_distinct_owned zo self = izset_distinct zo self"

text \<open>The iterator is a cursor; \<open>izset_next\<close> is its method \<^verbatim>\<open>next\<close>.\<close>

definition izset_iter :: "('z, 'c, 'k, 'v, 't, 'r, 'x) reader_ops_scheme \<Rightarrow> 'z \<Rightarrow> 'c res" where
  "izset_iter zo self = rd_cursor zo self"

partial_function (option) izset_next ::
  "('c, 'k, 'v, 't, 'r, 'x) weighted_cursor_ops_scheme \<Rightarrow> 'c \<Rightarrow> (('k \<times> 'v \<times> 'r) option \<times> 'c) run" where
  "izset_next ops cursor =
     (if co_key_valid ops cursor then
        if co_val_valid ops cursor then
          run_bind (lift_res (co_key ops cursor)) (\<lambda>k.
          run_bind (lift_res (co_val ops cursor)) (\<lambda>v.
          run_bind (co_weight ops cursor) (\<lambda>(w, cursor).
          run_bind (co_step_val ops cursor) (\<lambda>cursor. ok (Some (k, v, w), cursor)))))
        else run_bind (co_step_key ops cursor) (\<lambda>cursor. izset_next ops cursor)
      else ok (None, cursor))"

definition weighted_count ::
  "('z, 'c, 'k, unit, unit, 'r::comm_monoid_add, 'x) reader_ops_scheme \<Rightarrow> 'z \<Rightarrow> 'r run" where
  "weighted_count zo self =
     run_bind (lift_res (rd_cursor zo self)) (\<lambda>cursor.
     run_bind (while_keys (rd_cursor_ops zo)
         (\<lambda>cursor sum. run_bind (co_weight (rd_cursor_ops zo) cursor) (\<lambda>(w, cursor). ok (cursor, sum + w)))
         cursor 0) (\<lambda>(cursor, sum). ok sum))"

section \<open>Laws of the loops\<close>

text \<open>
  The invariant of a loop speaks of what is still in front of the cursor.
\<close>

context batch_cursor
begin

lemma while_vals_ok:
  assumes "inv c" "groups c \<noteq> []" "I (vals c) s"
    and "\<And>c' s x xs. inv c' \<Longrightarrow> total c' = total c \<Longrightarrow> groups c' = groups c \<Longrightarrow> vals c' = x # xs \<Longrightarrow> I (x # xs) s \<Longrightarrow>
      \<exists>c'' s'. body c' s = ok (c'', s') \<and> inv c'' \<and> total c'' = total c \<and> groups c'' = groups c \<and>
        vals c'' = x # xs \<and> I xs s'"
  shows "\<exists>c' s'. while_vals ops body c s = ok (c', s') \<and> inv c' \<and> total c' = total c \<and> groups c' = groups c \<and> I [] s'"
  using assms
proof (induction "vals c" arbitrary: c s)
  case Nil
  then show ?case using val_valid by (subst while_vals.simps) simp
next
  case (Cons x xs)
  obtain c1 s1 where b: "body c s = ok (c1, s1)" "inv c1" "total c1 = total c" "groups c1 = groups c"
      "vals c1 = x # xs" "I xs s1"
    using Cons.prems(4) [OF Cons.prems(1) refl refl Cons.hyps(2) [symmetric]] Cons.prems(3)
    unfolding Cons.hyps(2) [symmetric] by blast
  obtain c2 where s: "co_step_val ops c1 = ok c2" "inv c2" "total c2 = total c" "groups c2 = groups c" "vals c2 = xs"
    using step_val [OF b(2)] b Cons.prems(2) by auto
  have "\<exists>c' s'. while_vals ops body c2 s1 = ok (c', s') \<and> inv c' \<and> total c' = total c2 \<and> groups c' = groups c2 \<and> I [] s'"
    using Cons.hyps(1) [OF s(5) [symmetric] s(2)] s b(6) Cons.prems(2,4) by simp
  moreover have "co_val_valid ops c" using val_valid [OF Cons.prems(1,2)] Cons.hyps(2) by (metis list.distinct(1))
  ultimately show ?case using b(1) s(1,3,4) by (subst while_vals.simps) simp
qed

definition at_start :: "'c \<Rightarrow> bool" where
  "at_start c \<longleftrightarrow> (groups c \<noteq> [] \<longrightarrow> vals c = snd (hd (groups c)))"

lemma while_keys_ok:
  assumes "inv c" "at_start c" "I (groups c) s"
    and "\<And>c' s g gs. inv c' \<Longrightarrow> groups c' = g # gs \<Longrightarrow> vals c' = snd g \<Longrightarrow> I (g # gs) s \<Longrightarrow>
      \<exists>c'' s'. body c' s = ok (c'', s') \<and> inv c'' \<and> groups c'' = g # gs \<and> I gs s'"
  shows "\<exists>c' s'. while_keys ops body c s = ok (c', s') \<and> inv c' \<and> I [] s'"
  using assms
proof (induction "groups c" arbitrary: c s)
  case Nil
  then show ?case using key_valid by (subst while_keys.simps) simp
next
  case (Cons g gs)
  have "vals c = snd g" using Cons.prems(2) Cons.hyps(2) by (metis at_start_def list.distinct(1) list.sel(1))
  then obtain c1 s1 where b: "body c s = ok (c1, s1)" "inv c1" "groups c1 = g # gs" "I gs s1"
    using Cons.prems(4) [OF Cons.prems(1) Cons.hyps(2) [symmetric]] Cons.prems(3)
    unfolding Cons.hyps(2) [symmetric] by blast
  obtain c2 where s: "co_step_key ops c1 = ok c2" "inv c2" "groups c2 = gs" "at_start c2"
    using step_key [OF b(2)] b(3) by (auto simp: at_start_def)
  have "\<exists>c' s'. while_keys ops body c2 s1 = ok (c', s') \<and> inv c' \<and> I [] s'"
    using Cons.hyps(1) [OF s(3) [symmetric] s(2,4)] s(3) b(4) Cons.prems(4) by simp
  moreover have "co_key_valid ops c" using key_valid [OF Cons.prems(1)] Cons.hyps(2) by (metis list.distinct(1))
  ultimately show ?case using b(1) s(1) by (subst while_keys.simps) simp
qed

end

section \<open>Batches\<close>

definition times_weight :: "('t \<times> 'r::comm_monoid_add) list \<Rightarrow> 'r" where
  "times_weight ts = (\<Sum>(t, r)\<leftarrow>ts. r)"

locale zset_batch =
  delta: weighted_cursor "rd_cursor_ops zo" dinv dtotal dgroups dvals +
  builder: batch_builder "zo_builder zo" binv pushed contents wf
  for zo :: "('z, 'c, 'k::linorder, 'v::linorder, unit, 'r::linordered_idom, 'b, 'i::linorder) zset_ops"
    and dinv :: "'c \<Rightarrow> bool" and dtotal dgroups :: "'c \<Rightarrow> ('k, 'v, unit, 'r) groups"
    and dvals :: "'c \<Rightarrow> ('v \<times> (unit \<times> 'r) list) list"
    and binv :: "'b \<Rightarrow> bool" and pushed :: "'b \<Rightarrow> ('i, 'r) updates"
    and contents :: "'z \<Rightarrow> ('i, 'r) updates" and wf :: "'z \<Rightarrow> bool"
begin

lemma push_current_ok:
  assumes "dinv c" "dgroups c = (k, vs) # gs" "binv b"
  shows "\<exists>b'. push_current zo c v w b = ok b' \<and> binv b' \<and> pushed b' = pushed b @ [(zo_item_from zo k v, w)]"
  using builder.push [OF assms(3), of "(zo_item_from zo k v, w)"] delta.key [OF assms(1)] assms(2)
  by (auto simp: push_current_def)

lemma delta_weight_val:
  assumes "dinv c" "dgroups c \<noteq> []" "dvals c = (v, ts) # xs"
  shows "\<exists>c'. co_weight (rd_cursor_ops zo) c = ok (times_weight ts, c') \<and> co_val (rd_cursor_ops zo) c' = Inr v \<and>
    dinv c' \<and> dtotal c' = dtotal c \<and> dgroups c' = dgroups c \<and> dvals c' = dvals c"
  using delta.weight [OF assms(1,2)] delta.val assms(2,3) by (fastforce simp: times_weight_def)

definition positives :: "'k \<Rightarrow> ('v \<times> (unit \<times> 'r) list) list \<Rightarrow> ('i \<times> 'r) list" where
  "positives k vs = map (\<lambda>(v, ts). (zo_item_from zo k v, 1)) (filter (\<lambda>(v, ts). 0 \<le> times_weight ts) vs)"

lemma distinct_val_ok:
  assumes "dinv c" "dgroups c = (k, vs) # gs" "dvals c = (v, ts) # xs" "binv b"
  shows "\<exists>c' b'. distinct_val zo c b = ok (c', b') \<and> dinv c' \<and> dtotal c' = dtotal c \<and> dgroups c' = dgroups c \<and>
    dvals c' = dvals c \<and> binv b' \<and> pushed b' = pushed b @ positives k [(v, ts)]"
proof -
  obtain c1 where c1: "co_weight (rd_cursor_ops zo) c = ok (times_weight ts, c1)" "co_val (rd_cursor_ops zo) c1 = Inr v"
      "dinv c1" "dtotal c1 = dtotal c" "dgroups c1 = dgroups c" "dvals c1 = dvals c"
    using delta_weight_val [OF assms(1) _ assms(3)] assms(2) by auto
  show ?thesis
    using push_current_ok [OF c1(3) c1(5) [unfolded assms(2)] assms(4), of v 1] c1 assms(4)
    by (cases "0 \<le> times_weight ts") (auto simp: distinct_val_def ge0_def positives_def)
qed

lemma distinct_key_ok:
  assumes "dinv c" "dgroups c = (k, vs) # gs" "dvals c = vs" "binv b"
  shows "\<exists>c' b'. while_vals (rd_cursor_ops zo) (distinct_val zo) c b = ok (c', b') \<and> dinv c' \<and>
    dgroups c' = dgroups c \<and> binv b' \<and> pushed b' = pushed b @ positives k vs"
proof -
  let ?I = "\<lambda>xs b'. binv b' \<and> pushed b' @ positives k xs = pushed b @ positives k vs"
  have "\<exists>c' b'. while_vals (rd_cursor_ops zo) (distinct_val zo) c b = ok (c', b') \<and> dinv c' \<and>
      dtotal c' = dtotal c \<and> dgroups c' = dgroups c \<and> ?I [] b'"
  proof (rule delta.while_vals_ok [OF assms(1)])
    show "dgroups c \<noteq> []" "?I (dvals c) b" using assms by simp_all
    fix c' b' x xs
    assume a: "dinv c'" "dtotal c' = dtotal c" "dgroups c' = dgroups c" "dvals c' = x # xs" "?I (x # xs) b'"
    obtain v ts where x: "x = (v, ts)" by (cases x)
    show "\<exists>c'' s'. distinct_val zo c' b' = ok (c'', s') \<and> dinv c'' \<and> dtotal c'' = dtotal c \<and> dgroups c'' = dgroups c \<and>
        dvals c'' = x # xs \<and> ?I xs s'"
      using distinct_val_ok [of c' k vs gs v ts xs b'] a assms(2) x by (fastforce simp: positives_def)
  qed
  then show ?thesis by (auto simp: positives_def)
qed

lemma distinct_ok:
  assumes "rd_key_count zo d = Inr n" "rd_cursor zo d = Inr c" "dinv c" "delta.at_start c"
    and "consolidated (concat (map (\<lambda>(k, vs). positives k vs) (dgroups c)))"
  shows "\<exists>out. izset_distinct zo d = ok out \<and> wf out \<and>
    contents out = concat (map (\<lambda>(k, vs). positives k vs) (dgroups c))"
proof -
  let ?b = "bo_with_capacity (zo_builder zo) () n" and ?P = "\<lambda>gs. concat (map (\<lambda>(k, vs). positives k vs) gs)"
  let ?I = "\<lambda>gs b'. binv b' \<and> pushed b' @ ?P gs = ?P (dgroups c)"
  have "\<exists>c' b'. while_keys (rd_cursor_ops zo) (while_vals (rd_cursor_ops zo) (distinct_val zo)) c ?b = ok (c', b') \<and>
      dinv c' \<and> ?I [] b'"
  proof (rule delta.while_keys_ok [OF assms(3,4)])
    show "?I (dgroups c) ?b" using builder.with_capacity by simp
    fix c' b' g gs
    assume a: "dinv c'" "dgroups c' = g # gs" "dvals c' = snd g" "?I (g # gs) b'"
    obtain k vs where g: "g = (k, vs)" by (cases g)
    show "\<exists>c'' s'. while_vals (rd_cursor_ops zo) (distinct_val zo) c' b' = ok (c'', s') \<and> dinv c'' \<and>
        dgroups c'' = g # gs \<and> ?I gs s'"
      using distinct_key_ok [of c' k vs gs b'] a g by fastforce
  qed
  then obtain c' b' where w: "while_keys (rd_cursor_ops zo) (while_vals (rd_cursor_ops zo) (distinct_val zo)) c ?b =
      ok (c', b')" "binv b'" "pushed b' = ?P (dgroups c)" by auto
  then show ?thesis using builder.finish [OF w(2)] assms(1,2,5) by (auto simp: izset_distinct_def)
qed

end

section \<open>Z-sets\<close>

text \<open>The contract holds of the batches of Z-sets.\<close>

lemma oz_ops_simps [simp]:
  "rd_key_count oz_ops = oz_key_count" "rd_len oz_ops = oz_batch_len" "rd_cursor oz_ops = oz_cursor"
  "rd_cursor_ops oz_ops = oc_weighted" "zo_item_from oz_ops = oz_item_from" "zo_builder oz_ops = ob_ops"
  by (simp_all add: oz_ops_def)

interpretation ozz: zset_batch oz_ops oc_inv "\<lambda>c. oz_groups (cc_total (oc_cursor c))"
  "\<lambda>c. oz_groups (cc_rest (oc_cursor c))" oc_vals "\<lambda>b. cb_ok (ob_builder b)" "\<lambda>b. cb_pairs (ob_builder b)"
  oz_contents oz_wf
  unfolding zset_batch_def oz_ops_simps using ozw.weighted_cursor_axioms ozb.batch_builder_axioms by blast

lemma oz_cursor_start:
  assumes "oz_wf z"
  shows "\<exists>c. oz_cursor z = Inr c \<and> oc_inv c \<and> ozw.at_start c \<and> cc_rest (oc_cursor c) = oz_contents z"
proof -
  obtain c where c: "oz_cursor z = Inr c" "oc_inv c" "cc_rest (oc_cursor c) = oz_contents z"
    using oz_cursor_ok [OF assms] by blast
  then have "oc_valid c" by (auto simp: oz_cursor_def res_map_eq_Inr)
  then show ?thesis using c by (auto simp: ozw.at_start_def oc_vals_def oz_groups_head)
qed

end
