(* ===== verification/Trace_Operators.thy ===== *)
theory Trace_Operators
  imports Indexed_ZSets
begin

text \<open>
  The operators that keep a trace in a circuit (\<^verbatim>\<open>crates/dbsp/src/operator/trace.rs\<close>): bounds on the keys and
  values that consumers still need, the operators that append a batch to a trace, and \<^verbatim>\<open>Z1Trace\<close>, the delay that
  hands the trace from one clock cycle to the next.  The trace is a table of the methods of the trait
  \<^verbatim>\<open>Trace\<close>; \<open>spine_trace_ops\<close> is the table of the spine.
\<close>

record ('x, 'b, 'k, 'v, 't) trace_ops =
  tr_new :: 'x
  tr_insert :: "'b \<Rightarrow> 'x \<Rightarrow> 'x run"
  tr_dirty :: "'x \<Rightarrow> bool"
  tr_clear_dirty_flag :: "'x \<Rightarrow> 'x"
  tr_truncate_keys_below :: "'k \<Rightarrow> 'x \<Rightarrow> 'x run"
  tr_truncate_values_below :: "'v \<Rightarrow> 'x \<Rightarrow> 'x run"
  tr_recede_to :: "'t \<Rightarrow> 'x \<Rightarrow> 'x run"

definition spine_trace_ops ::
  "('b, 'm, 'k::linorder, 'v::linorder, 't) batch_ops \<Rightarrow> 't timestamp_ops \<Rightarrow>
   (('b, 'm, 'k, 'v, 't) spine, 'b, 'k, 'v, 't) trace_ops" where
  "spine_trace_ops bt ts = \<lparr>tr_new = spine_new ts None, tr_insert = spine_insert bt ts, tr_dirty = sp_dirty,
     tr_clear_dirty_flag = clear_dirty_flag, tr_truncate_keys_below = spine_truncate_keys_below bt,
     tr_truncate_values_below = (\<lambda>v sp. ok (spine_truncate_values_below v sp)), tr_recede_to = spine_recede_to bt\<rparr>"

section \<open>Bounds\<close>

text \<open>
  A bound is a cell that its writer and the trace share, here an address in a list of cells; no value
  is no bound, and less than every bound.
\<close>

type_synonym trace_bound = nat

definition trace_bound_new :: "'k option list \<Rightarrow> trace_bound \<times> 'k option list" where
  "trace_bound_new cells = (length cells, cells @ [None])"

definition trace_bound_set :: "trace_bound \<Rightarrow> 'k::linorder \<Rightarrow> 'k option list \<Rightarrow> 'k option list res" where
  "trace_bound_set self bound cells =
     (if \<not> (case cells ! self of None \<Rightarrow> True | Some b \<Rightarrow> b \<le> bound) then Inl DebugAssert
      else Inr (cells[self := Some bound]))"

definition trace_bound_get :: "trace_bound \<Rightarrow> 'k option list \<Rightarrow> 'k option" where
  "trace_bound_get self cells = cells ! self"

record trace_bounds =
  tb_key_bounds :: "trace_bound list"
  tb_val_bounds :: "trace_bound list"

definition trace_bounds_new :: trace_bounds where
  "trace_bounds_new = \<lparr>tb_key_bounds = [], tb_val_bounds = []\<rparr>"

definition trace_bounds_unbounded ::
  "'k option list \<Rightarrow> 'v option list \<Rightarrow> trace_bounds \<times> 'k option list \<times> 'v option list" where
  "trace_bounds_unbounded kcells vcells =
     (let (kb, kcells) = trace_bound_new kcells; (vb, vcells) = trace_bound_new vcells
      in (\<lparr>tb_key_bounds = [kb], tb_val_bounds = [vb]\<rparr>, kcells, vcells))"

definition add_key_bound :: "trace_bound \<Rightarrow> trace_bounds \<Rightarrow> trace_bounds" where
  "add_key_bound bound self = self\<lparr>tb_key_bounds := tb_key_bounds self @ [bound]\<rparr>"

definition add_val_bound :: "trace_bound \<Rightarrow> trace_bounds \<Rightarrow> trace_bounds" where
  "add_val_bound bound self = self\<lparr>tb_val_bounds := tb_val_bounds self @ [bound]\<rparr>"

fun bound_min :: "'k::linorder option \<Rightarrow> 'k option \<Rightarrow> 'k option" where
  "bound_min (Some a) (Some b) = Some (min a b)"
| "bound_min _ _ = None"

definition effective_bound :: "trace_bound list \<Rightarrow> 'k::linorder option list \<Rightarrow> 'k option res" where
  "effective_bound bounds cells =
     (case map (\<lambda>b. trace_bound_get b cells) bounds of
        [] \<Rightarrow> Inl (Explicit ''At least one trace bound must be set'')
      | b # bs \<Rightarrow> Inr (fold bound_min bs b))"

definition effective_key_bound :: "trace_bounds \<Rightarrow> 'k::linorder option list \<Rightarrow> 'k option res" where
  "effective_key_bound self = effective_bound (tb_key_bounds self)"

definition effective_val_bound :: "trace_bounds \<Rightarrow> 'v::linorder option list \<Rightarrow> 'v option res" where
  "effective_val_bound self = effective_bound (tb_val_bounds self)"

section \<open>Appending to a trace\<close>

text \<open>The output has its own type of times, items and builder.\<close>

definition batch_add_time ::
  "('z, 'c, 'k, 'v, unit, 'r, 'x) reader_ops_scheme \<Rightarrow> ('k \<Rightarrow> 'v \<Rightarrow> 'i) \<Rightarrow> ('b, 'i, 't, 'r, 'y) builder_ops \<Rightarrow>
   'z \<Rightarrow> 't \<Rightarrow> 'y run" where
  "batch_add_time ri item_from bo batch time =
     (let ops = rd_cursor_ops ri in
      run_bind (lift_res (rd_len ri batch)) (\<lambda>n.
      run_bind (lift_res (rd_cursor ri batch)) (\<lambda>cursor.
      run_bind (while_keys ops (while_vals ops (\<lambda>cursor builder.
          run_bind (lift_res (co_val ops cursor)) (\<lambda>val.
          run_bind (co_weight ops cursor) (\<lambda>(w, cursor).
          run_bind (lift_res (co_key ops cursor)) (\<lambda>key.
          run_bind (lift_res (bo_push bo builder (item_from key val, w))) (\<lambda>builder. ok (cursor, builder)))))))
          cursor (bo_with_capacity bo time n)) (\<lambda>(cursor, builder).
      lift_res (bo_done bo builder)))))"

definition untimed_append_eval :: "'x \<Rightarrow> 'b \<Rightarrow> 'x run" where
  "untimed_append_eval trace batch =
     lift_res (Inl (Explicit ''UntimedTraceAppend::eval(): cannot accept trace by reference''))"

definition untimed_append_eval_owned_and_ref ::
  "('x, 'b, 'k, 'v, 't) trace_ops \<Rightarrow> 'x \<Rightarrow> 'b \<Rightarrow> 'x run" where
  "untimed_append_eval_owned_and_ref to trace batch = tr_insert to batch trace"

definition untimed_append_eval_ref_and_owned :: "'x \<Rightarrow> 'b \<Rightarrow> 'x run" where
  "untimed_append_eval_ref_and_owned trace batch =
     lift_res (Inl (Explicit ''UntimedTraceAppend::eval_ref_and_owned(): cannot accept trace by reference''))"

definition untimed_append_eval_owned ::
  "('x, 'b, 'k, 'v, 't) trace_ops \<Rightarrow> 'x \<Rightarrow> 'b \<Rightarrow> 'x run" where
  "untimed_append_eval_owned to trace batch = tr_insert to batch trace"

text \<open>The clock of the circuit gives the time at which the batch is appended.\<close>

definition trace_append_eval :: "'x \<Rightarrow> 'b \<Rightarrow> 'x run" where
  "trace_append_eval trace batch = lift_res (Inl (Explicit ''not implemented''))"

definition trace_append_eval_owned_and_ref ::
  "('x, 'y, 'k, 'v, 't) trace_ops \<Rightarrow> ('z, 'c, 'k, 'v, unit, 'r, 'q) reader_ops_scheme \<Rightarrow> ('k \<Rightarrow> 'v \<Rightarrow> 'i) \<Rightarrow>
   ('b, 'i, 't, 'r, 'y) builder_ops \<Rightarrow> 't \<Rightarrow> 'x \<Rightarrow> 'z \<Rightarrow> 'x run" where
  "trace_append_eval_owned_and_ref to ri item_from bo time trace batch =
     run_bind (batch_add_time ri item_from bo batch time) (\<lambda>timed. tr_insert to timed trace)"

definition trace_append_eval_ref_and_owned :: "'x \<Rightarrow> 'b \<Rightarrow> 'x run" where
  "trace_append_eval_ref_and_owned trace batch = lift_res (Inl (Explicit ''not implemented''))"

definition trace_append_eval_owned ::
  "('x, 'y, 'k, 'v, 't) trace_ops \<Rightarrow> ('z, 'c, 'k, 'v, unit, 'r, 'q) reader_ops_scheme \<Rightarrow> ('k \<Rightarrow> 'v \<Rightarrow> 'i) \<Rightarrow>
   ('b, 'i, 't, 'r, 'y) builder_ops \<Rightarrow> 't \<Rightarrow> 'x \<Rightarrow> 'z \<Rightarrow> 'x run" where
  "trace_append_eval_owned to ri item_from bo time trace batch =
     run_bind (batch_add_time ri item_from bo batch time) (\<lambda>timed. tr_insert to timed trace)"

section \<open>Delay of a trace\<close>

record ('x, 'k, 'v, 't) z1_trace =
  zt_time :: 't
  zt_trace :: "'x option"
  zt_dirty :: "bool list"
  zt_root_scope :: scope
  zt_reset_on_clock_start :: bool
  zt_bounds :: trace_bounds
  zt_effective_key_bound :: "'k option"
  zt_effective_val_bound :: "'v option"

definition zt_new :: "'t timestamp_ops \<Rightarrow> bool \<Rightarrow> scope \<Rightarrow> trace_bounds \<Rightarrow> ('x, 'k, 'v, 't) z1_trace" where
  "zt_new ts reset_on_clock_start root_scope bounds =
     \<lparr>zt_time = ts_clock_start ts, zt_trace = None, zt_dirty = replicate (root_scope + 1) False,
      zt_root_scope = root_scope, zt_reset_on_clock_start = reset_on_clock_start, zt_bounds = bounds,
      zt_effective_key_bound = None, zt_effective_val_bound = None\<rparr>"

definition zt_clock_start ::
  "('x, 'b, 'k, 'v, 't) trace_ops \<Rightarrow> scope \<Rightarrow> ('x, 'k, 'v, 't) z1_trace \<Rightarrow> ('x, 'k, 'v, 't) z1_trace res" where
  "zt_clock_start to scope self =
     (if length (zt_dirty self) \<le> scope then Inl IndexOutOfBounds
      else let self = self\<lparr>zt_dirty := (zt_dirty self)[scope := False]\<rparr> in
        if scope = 0 \<and> zt_trace self = None then Inr (self\<lparr>zt_trace := Some (tr_new to)\<rparr>) else Inr self)"

text \<open>The last statement computes the advanced time and drops it.\<close>

definition zt_clock_end ::
  "'t timestamp_ops \<Rightarrow> ('x, 'b, 'k, 'v, 't) trace_ops \<Rightarrow> scope \<Rightarrow> ('x, 'k, 'v, 't) z1_trace \<Rightarrow>
   ('x, 'k, 'v, 't) z1_trace run" where
  "zt_clock_end ts to scope self =
     run_bind
       (if scope + 1 = zt_root_scope self \<and> \<not> zt_reset_on_clock_start self then
          case zt_trace self of
            None \<Rightarrow> ok self
          | Some tr \<Rightarrow>
              run_bind (lift_res (ts_epoch_end ts (zt_time self) (zt_root_scope self))) (\<lambda>t.
              run_bind (lift_res (ts_recede ts t (zt_root_scope self))) (\<lambda>t.
              run_bind (tr_recede_to to t tr) (\<lambda>tr. ok (self\<lparr>zt_trace := Some tr\<rparr>))))
        else ok self) (\<lambda>self.
     run_bind (lift_res (ts_advance ts (zt_time self) (scope + 1))) (\<lambda>_. ok self))"

definition zt_fixedpoint :: "scope \<Rightarrow> ('x, 'k, 'v, 't) z1_trace \<Rightarrow> bool res" where
  "zt_fixedpoint scope self =
     (if length (zt_dirty self) \<le> scope then Inl IndexOutOfBounds else Inr (\<not> zt_dirty self ! scope))"

definition zt_get_output ::
  "('x, 'b, 'k, 'v, 't) trace_ops \<Rightarrow> ('x, 'k, 'v, 't) z1_trace \<Rightarrow> ('x \<times> ('x, 'k, 'v, 't) z1_trace) res" where
  "zt_get_output to self =
     res_map (\<lambda>result. (tr_clear_dirty_flag to result, self\<lparr>zt_trace := None\<rparr>)) (unwrap (zt_trace self))"

definition zt_get_final_output ::
  "('x, 'b, 'k, 'v, 't) trace_ops \<Rightarrow> ('x, 'k, 'v, 't) z1_trace \<Rightarrow> ('x \<times> ('x, 'k, 'v, 't) z1_trace) res" where
  "zt_get_final_output to self =
     (if zt_reset_on_clock_start self then zt_get_output to self else Inr (tr_new to, self))"

definition zt_eval_strict :: "'x \<Rightarrow> ('x, 'k, 'v, 't) z1_trace \<Rightarrow> ('x, 'k, 'v, 't) z1_trace run" where
  "zt_eval_strict i self = lift_res (Inl (Explicit ''not implemented''))"

definition zt_truncate :: "('a \<Rightarrow> 'x \<Rightarrow> 'x run) \<Rightarrow> 'a option \<Rightarrow> 'a option \<Rightarrow> 'x \<Rightarrow> 'x run" where
  "zt_truncate cut_below old new i =
     (if new \<noteq> old then (case new of Some bound \<Rightarrow> cut_below bound i | None \<Rightarrow> ok i) else ok i)"

definition zt_eval_strict_owned ::
  "'t timestamp_ops \<Rightarrow> ('x, 'b, 'k::linorder, 'v::linorder, 't) trace_ops \<Rightarrow> 'k option list \<Rightarrow> 'v option list \<Rightarrow>
   'x \<Rightarrow> ('x, 'k, 'v, 't) z1_trace \<Rightarrow> ('x, 'k, 'v, 't) z1_trace run" where
  "zt_eval_strict_owned ts to kcells vcells i self =
     run_bind (lift_res (ts_advance ts (zt_time self) 0)) (\<lambda>time.
     let dirty = tr_dirty to i in
     run_bind (lift_res (effective_key_bound (zt_bounds self) kcells)) (\<lambda>kb.
     run_bind (zt_truncate (tr_truncate_keys_below to) (zt_effective_key_bound self) kb i) (\<lambda>i.
     run_bind (lift_res (effective_val_bound (zt_bounds self) vcells)) (\<lambda>vb.
     run_bind (zt_truncate (tr_truncate_values_below to) (zt_effective_val_bound self) vb i) (\<lambda>i.
     case zt_dirty self of
       [] \<Rightarrow> lift_res (Inl IndexOutOfBounds)
     | _ # ds \<Rightarrow>
         ok (self\<lparr>zt_time := time, zt_effective_key_bound := kb, zt_effective_val_bound := vb,
               zt_trace := Some i, zt_dirty := dirty # map (\<lambda>d. d \<or> dirty) ds\<rparr>))))))"

section \<open>Traces of Z-sets\<close>

text \<open>
  The nodes that \<^verbatim>\<open>integrate_trace\<close> adds to a root circuit, for Z-sets: the delay, and the node that appends the
  change to the trace, which always owns the trace and may own the change.
\<close>

type_synonym ('k, 'r) zset_delay = "(('k, 'r) zset_trace, 'k, unit, unit) z1_trace"

definition zset_trace_ops ::
  "(('k::linorder, 'r::comm_monoid_add) zset_trace, ('k, 'r) ord_zset, 'k, unit, unit) trace_ops" where
  "zset_trace_ops = spine_trace_ops oz_batch unit_ops"

definition untimed_append_node ::
  "bool \<Rightarrow> ('k::linorder, 'r::comm_monoid_add) zset_trace \<Rightarrow> ('k, 'r) ord_zset \<Rightarrow> ('k, 'r) zset_trace run" where
  "untimed_append_node owned = (if owned then untimed_append_eval_owned zset_trace_ops
     else untimed_append_eval_owned_and_ref zset_trace_ops)"

text \<open>The delay of \<^verbatim>\<open>integrate_trace\<close>, with one key bound and one value bound that are never set, when the clock starts.\<close>

definition integrate_trace_start :: "('k::linorder, 'r::comm_monoid_add) zset_delay res" where
  "integrate_trace_start = zt_clock_start zset_trace_ops 0
     (zt_new unit_ops True 0 (add_val_bound 0 (add_key_bound 0 trace_bounds_new)))"

definition delay_inv :: "nat \<Rightarrow> ('k::linorder, 'r::comm_monoid_add) zset_delay \<Rightarrow> ('k, 'r) zset_trace \<Rightarrow> bool" where
  "delay_inv n z1 sp \<longleftrightarrow> zt_trace z1 = Some sp \<and> trace_inv n sp \<and> lower_key_bound sp = None \<and>
     zt_bounds z1 = add_val_bound 0 (add_key_bound 0 trace_bounds_new) \<and> zt_effective_key_bound z1 = None \<and>
     zt_effective_val_bound z1 = None \<and> zt_dirty z1 \<noteq> []"

lemmas zset_trace_ops_defs = zset_trace_ops_def spine_trace_ops_def
lemmas bounds_defs = add_val_bound_def add_key_bound_def trace_bounds_new_def effective_key_bound_def
  effective_val_bound_def effective_bound_def trace_bound_get_def

lemma integrate_trace_start_ok:
  "\<exists>z1. integrate_trace_start = Inr z1 \<and> delay_inv 0 z1 (spine_new unit_ops None)"
  by (simp add: integrate_trace_start_def zt_clock_start_def zt_new_def delay_inv_def trace_inv_new zset_trace_ops_defs)
    (simp add: spine_new_def with_effort_def)

lemma eval_strict_owned_ok:
  assumes "trace_inv n sp" "lower_key_bound sp = None"
    and "zt_bounds z1 = add_val_bound 0 (add_key_bound 0 trace_bounds_new)" "zt_effective_key_bound z1 = None"
      "zt_effective_val_bound z1 = None" "zt_dirty z1 \<noteq> []"
  shows "\<exists>z1'. zt_eval_strict_owned unit_ops zset_trace_ops [None] [None] sp z1 = ok z1' \<and> delay_inv n z1' sp"
  using assms
  by (cases "zt_dirty z1") (simp_all add: zt_eval_strict_owned_def delay_inv_def zt_truncate_def bounds_defs unit_ops_def Let_def)

lemma delay_turn:
  assumes "delay_inv n z1 sp" "oz_wf d" "n + length (oz_contents d) < 2 ^ 29"
  shows "\<exists>sp1 z2 sp' z1'. zt_get_output zset_trace_ops z1 = Inr (sp1, z2) \<and> trace_inv n sp1 \<and>
    spine_zset sp1 = spine_zset sp \<and> untimed_append_node owned sp1 d = ok sp' \<and>
    trace_inv (n + length (oz_contents d)) sp' \<and> (\<forall>k. spine_zset sp' k = spine_zset sp k + oz_zset d k) \<and>
    zt_eval_strict_owned unit_ops zset_trace_ops [None] [None] sp' z2 = ok z1' \<and>
    delay_inv (n + length (oz_contents d)) z1' sp'"
proof -
  let ?sp = "clear_dirty_flag sp"
  have inv: "trace_inv n ?sp" "trace_abs ?sp = trace_abs sp"
    using assms(1) dirty_call by (auto simp: delay_inv_def)
  then have same: "spine_zset ?sp = spine_zset sp" "lower_key_bound ?sp = None"
    using assms(1) by (simp_all add: trace_abs_def delay_inv_def)
  obtain sp' where sp': "spine_insert oz_batch unit_ops d ?sp = ok sp'" "trace_inv (n + length (oz_contents d)) sp'"
      "trace_abs sp' = abstract_call (InsertBatch d) (trace_abs ?sp)"
    using insert_call [OF inv(1) assms(2,3)] by blast
  have content: "lower_key_bound sp' = None" "spine_zset sp' k = spine_zset sp k + oz_zset d k" for k
    using sp'(3) same by (simp_all add: trace_abs_def zset_plus_def cut_def)
  obtain z1' where "zt_eval_strict_owned unit_ops zset_trace_ops [None] [None] sp' (z1\<lparr>zt_trace := None\<rparr>) = ok z1'"
      "delay_inv (n + length (oz_contents d)) z1' sp'"
    using eval_strict_owned_ok [OF sp'(2) content(1), of "z1\<lparr>zt_trace := None\<rparr>"] assms(1)
    by (auto simp: delay_inv_def)
  moreover have "zt_get_output zset_trace_ops z1 = Inr (?sp, z1\<lparr>zt_trace := None\<rparr>)"
    using assms(1) by (simp add: delay_inv_def zt_get_output_def zset_trace_ops_defs)
  moreover have "untimed_append_node owned ?sp d = ok sp'"
    using sp'(1) by (simp add: untimed_append_node_def untimed_append_eval_owned_def
        untimed_append_eval_owned_and_ref_def zset_trace_ops_defs)
  ultimately show ?thesis using inv(1) same(1) sp'(2) content(2) by blast
qed

text \<open>The cursor of a trace of Z-sets.\<close>

lemma get_weighted: "co_get_key oc_weighted = co_get_key oc_ops" "co_get_val oc_weighted = co_get_val oc_ops"
  by (auto simp: co_get_key_def co_get_val_def oc_weighted_def fun_eq_iff)

lemma spine_cursor_weighted: "spine_cursor bt cur oc_weighted = spine_cursor bt cur oc_ops"
  by (simp add: spine_cursor_def [abs_def] cursor_list_new_def [abs_def] minimize_keys_def minimize_vals_def
      get_weighted)

lemma trace_reader_ok:
  assumes "trace_inv n sp"
  shows "\<exists>e xss. rd_cursor oz_trace_reader sp = Inr e \<and> ozw.list_inv e \<and> ozwt.at_start e \<and>
    ozw.list_groups e = merge_groups (map oz_groups xss) \<and> (\<forall>k. (\<Sum>xs\<leftarrow>xss. weight_of xs k) = spine_zset sp k)"
proof -
  let ?xss = "filter (\<lambda>xs. xs \<noteq> []) (map oz_contents (trace_batches sp))"
  obtain e where e: "spine_cursor oz_batch oz_cursor oc_ops sp = Inr e" "ozw.list_inv e"
      "map (\<lambda>c. cc_rest (oc_cursor c)) (cursors e) = ?xss" "\<forall>c \<in> set (cursors e). ozw.fresh c"
    using trace_cursor_ok [OF assms] by blast
  have "ozw.list_groups e = merge_groups (map oz_groups ?xss)"
    unfolding e(3) [symmetric] by (simp add: ozw.list_groups_def comp_def)
  moreover have "ozwt.at_start e" using ozw.list_vals_fresh [of e] e(2,4) ozw.current_key_facts(1) [of e]
    by (auto simp: ozwt.at_start_def ozw.list_inv_def)
  ultimately show ?thesis
    using e(1,2) by (intro exI [of _ e] exI [of _ ?xss])
      (simp add: oz_trace_reader_def spine_cursor_weighted sum_weight_nonempty spine_zset_batches comp_def)
qed

end
