(* ===== verification/Join.thy ===== *)
theory Join
  imports Trace_Operators
begin

text \<open>
  Joins in the root circuit (\<^verbatim>\<open>crates/dbsp/src/operator/join.rs\<close>): the operators \<^verbatim>\<open>Join\<close> and \<^verbatim>\<open>MonotonicJoin\<close>, which
  walk two cursors to their common keys and emit the products of weights of all pairs of values.  The
  two differ in where the tuples go: a vector that is sorted afterwards, or directly a builder.
\<close>

section \<open>The loops\<close>

definition join_pair ::
  "('c, 'k, 'v, unit, 'r, 'p) weighted_cursor_ops_scheme \<Rightarrow> ('e, 'k, 'u, unit, 'r::times, 'q) weighted_cursor_ops_scheme \<Rightarrow>
   ('k \<Rightarrow> 'v \<Rightarrow> 'u \<Rightarrow> 'i) \<Rightarrow> ('o \<Rightarrow> 'i \<times> 'r \<Rightarrow> 'o run) \<Rightarrow> 'c \<Rightarrow> 'r \<Rightarrow> 'v \<Rightarrow> 'e \<Rightarrow> 'o \<Rightarrow> ('e \<times> 'o) run" where
  "join_pair ops1 ops2 join_func push cursor1 w1 v1 cursor2 out =
     run_bind (co_weight ops2 cursor2) (\<lambda>(w2, cursor2).
     run_bind (lift_res (co_val ops2 cursor2)) (\<lambda>v2.
     run_bind (lift_res (co_key ops1 cursor1)) (\<lambda>k.
     run_bind (push out (join_func k v1 v2, w1 * w2)) (\<lambda>out. ok (cursor2, out)))))"

definition join_val ::
  "('c, 'k, 'v, unit, 'r, 'p) weighted_cursor_ops_scheme \<Rightarrow> ('e, 'k, 'u, unit, 'r::times, 'q) weighted_cursor_ops_scheme \<Rightarrow>
   ('k \<Rightarrow> 'v \<Rightarrow> 'u \<Rightarrow> 'i) \<Rightarrow> ('o \<Rightarrow> 'i \<times> 'r \<Rightarrow> 'o run) \<Rightarrow> 'c \<Rightarrow> 'e \<times> 'o \<Rightarrow> ('c \<times> 'e \<times> 'o) run" where
  "join_val ops1 ops2 join_func push cursor1 s =
     (let (cursor2, out) = s in
      run_bind (co_weight ops1 cursor1) (\<lambda>(w1, cursor1).
      run_bind (lift_res (co_val ops1 cursor1)) (\<lambda>v1.
      run_bind (while_vals ops2 (join_pair ops1 ops2 join_func push cursor1 w1 v1) cursor2 out) (\<lambda>(cursor2, out).
      run_bind (co_rewind_vals ops2 cursor2) (\<lambda>cursor2. ok (cursor1, cursor2, out))))))"

partial_function (option) join_loop ::
  "('c, 'k::linorder, 'v, unit, 'r, 'p) weighted_cursor_ops_scheme \<Rightarrow>
   ('e, 'k, 'u, unit, 'r::times, 'q) weighted_cursor_ops_scheme \<Rightarrow>
   ('k \<Rightarrow> 'v \<Rightarrow> 'u \<Rightarrow> 'i) \<Rightarrow> ('o \<Rightarrow> 'i \<times> 'r \<Rightarrow> 'o run) \<Rightarrow> 'c \<Rightarrow> 'e \<Rightarrow> 'o \<Rightarrow> 'o run" where
  "join_loop ops1 ops2 join_func push cursor1 cursor2 out =
     (if co_key_valid ops1 cursor1 \<and> co_key_valid ops2 cursor2 then
        run_bind (lift_res (co_key ops1 cursor1)) (\<lambda>k1.
        run_bind (lift_res (co_key ops2 cursor2)) (\<lambda>k2.
        if k1 < k2 then
          run_bind (co_seek_key ops1 cursor1 k2) (\<lambda>cursor1.
          join_loop ops1 ops2 join_func push cursor1 cursor2 out)
        else if k2 < k1 then
          run_bind (co_seek_key ops2 cursor2 k1) (\<lambda>cursor2.
          join_loop ops1 ops2 join_func push cursor1 cursor2 out)
        else
          run_bind (while_vals ops1 (join_val ops1 ops2 join_func push) cursor1 (cursor2, out))
            (\<lambda>(cursor1, cursor2, out).
          run_bind (co_step_key ops1 cursor1) (\<lambda>cursor1.
          run_bind (co_step_key ops2 cursor2) (\<lambda>cursor2.
          join_loop ops1 ops2 join_func push cursor1 cursor2 out)))))
      else ok out)"

section \<open>The operators\<close>

text \<open>
  \<open>vec_cap n m\<close> is the capacity of a vector made for \<open>n\<close> elements after \<open>m\<close> were pushed, which the
  standard library chooses; \<open>from_keys\<close> is the constructor of the output batch.
\<close>

definition join_eval ::
  "('x, 'c, 'k::linorder, 'v, unit, 'r, 'p) reader_ops_scheme \<Rightarrow> ('y, 'e, 'k, 'u, unit, 'r::times, 'q) reader_ops_scheme \<Rightarrow>
   (nat \<Rightarrow> nat \<Rightarrow> nat) \<Rightarrow> (('i \<times> 'r) buf \<Rightarrow> 'z run) \<Rightarrow> ('k \<Rightarrow> 'v \<Rightarrow> 'u \<Rightarrow> 'i) \<Rightarrow> 'x \<Rightarrow> 'y \<Rightarrow> 'z run" where
  "join_eval r1 r2 vec_cap from_keys join_func i1 i2 =
     run_bind (lift_res (rd_cursor r1 i1)) (\<lambda>cursor1.
     run_bind (lift_res (rd_cursor r2 i2)) (\<lambda>cursor2.
     run_bind (lift_res (rd_len r1 i1)) (\<lambda>n1.
     run_bind (lift_res (rd_len r2 i2)) (\<lambda>n2.
     run_bind (join_loop (rd_cursor_ops r1) (rd_cursor_ops r2) join_func (\<lambda>batch t. ok (batch @ [t]))
         cursor1 cursor2 []) (\<lambda>batch.
     from_keys \<lparr>buf_items = batch, buf_cap = vec_cap (min n1 n2) (length batch)\<rparr>)))))"

definition monotonic_join_eval ::
  "('x, 'c, 'k::linorder, 'v, unit, 'r, 'p) reader_ops_scheme \<Rightarrow> ('y, 'e, 'k, 'u, unit, 'r::times, 'q) reader_ops_scheme \<Rightarrow>
   ('z, 'h, 'l, unit, unit, 'r, 'b, 'i) zset_ops \<Rightarrow> ('k \<Rightarrow> 'v \<Rightarrow> 'u \<Rightarrow> 'l) \<Rightarrow> 'x \<Rightarrow> 'y \<Rightarrow> 'z run" where
  "monotonic_join_eval r1 r2 zo join_func i1 i2 =
     run_bind (lift_res (rd_cursor r1 i1)) (\<lambda>cursor1.
     run_bind (lift_res (rd_cursor r2 i2)) (\<lambda>cursor2.
     run_bind (lift_res (rd_len r1 i1)) (\<lambda>n1.
     run_bind (lift_res (rd_len r2 i2)) (\<lambda>n2.
     run_bind (join_loop (rd_cursor_ops r1) (rd_cursor_ops r2) join_func
         (\<lambda>builder (key, w). lift_res (bo_push (zo_builder zo) builder (zo_item_from zo key (), w)))
         cursor1 cursor2 (bo_with_capacity (zo_builder zo) () (min n1 n2))) (\<lambda>builder.
     lift_res (bo_done (zo_builder zo) builder))))))"

section \<open>Specification\<close>

definition join_vals ::
  "('k \<Rightarrow> 'v \<Rightarrow> 'u \<Rightarrow> 'i) \<Rightarrow> 'k \<Rightarrow> ('v \<times> ('t \<times> 'r::semiring_0) list) list \<Rightarrow> ('u \<times> ('t \<times> 'r) list) list \<Rightarrow> ('i \<times> 'r) list" where
  "join_vals f k vs us =
     concat (map (\<lambda>(v, ts). map (\<lambda>(u, rs). (f k v u, times_weight ts * times_weight rs)) us) vs)"

definition join_key ::
  "('k \<Rightarrow> 'v \<Rightarrow> 'u \<Rightarrow> 'i) \<Rightarrow> ('k, 'u, 't, 'r::semiring_0) groups \<Rightarrow> 'k \<Rightarrow> ('v \<times> ('t \<times> 'r) list) list \<Rightarrow> ('i \<times> 'r) list" where
  "join_key f hs k vs = concat (map (\<lambda>(k', us). if k' = k then join_vals f k vs us else []) hs)"

definition join_groups ::
  "('k \<Rightarrow> 'v \<Rightarrow> 'u \<Rightarrow> 'i) \<Rightarrow> ('k, 'v, 't, 'r::semiring_0) groups \<Rightarrow> ('k, 'u, 't, 'r) groups \<Rightarrow> ('i \<times> 'r) list" where
  "join_groups f gs hs = concat (map (\<lambda>(k, vs). join_key f hs k vs) gs)"

lemma join_key_absent: "k \<notin> fst ` set hs \<Longrightarrow> join_key f hs k vs = []"
  by (induction hs) (auto simp: join_key_def)

lemma join_groups_seek1:
  assumes "\<forall>h \<in> set hs. (k :: 'k::linorder) \<le> fst h"
  shows "join_groups f (dropWhile (\<lambda>g. fst g < k) gs) hs = join_groups f gs hs"
proof (induction gs)
  case (Cons g gs)
  have "join_key f hs (fst g) (snd g) = []" if "fst g < k" using assms that by (intro join_key_absent) auto
  then show ?case using Cons by (cases g) (simp add: join_groups_def)
qed simp

lemma join_key_seek2:
  "k \<le> (k' :: 'k::linorder) \<Longrightarrow> join_key f (dropWhile (\<lambda>g. fst g < k) hs) k' vs = join_key f hs k' vs"
  by (induction hs) (auto simp: join_key_def)

lemma join_groups_seek2:
  assumes "\<forall>g \<in> set gs. (k :: 'k::linorder) \<le> fst g"
  shows "join_groups f gs (dropWhile (\<lambda>g. fst g < k) hs) = join_groups f gs hs"
  using assms join_key_seek2 by (force simp: join_groups_def intro!: arg_cong [where f = concat])

lemma join_groups_head:
  assumes "key_sorted ((k, vs) # gs)" "key_sorted ((k, us) # hs)"
  shows "join_groups f ((k, vs) # gs) ((k, us) # hs) = join_vals f k vs us @ join_groups f gs hs"
proof -
  have "join_key f hs k vs = []" using assms(2) by (intro join_key_absent) auto
  moreover have "join_key f ((k, us) # hs) k' ws = join_key f hs k' ws" if "(k', ws) \<in> set gs" for k' ws
    using assms(1) that by (force simp: join_key_def)
  then have "map (\<lambda>(k', ws). join_key f ((k, us) # hs) k' ws) gs = map (\<lambda>(k', ws). join_key f hs k' ws) gs" by auto
  moreover have "join_key f ((k, us) # hs) k vs = join_vals f k vs us @ join_key f hs k vs" by (simp add: join_key_def)
  ultimately show ?thesis by (simp only: join_groups_def list.map concat.simps prod.case append_Nil2)
qed

section \<open>Correctness, for any two cursors\<close>

text \<open>\<open>holds out ts\<close> says that the output holds the tuples \<open>ts\<close>.\<close>

locale join_cursors =
  left: weighted_cursor ops1 inv1 total1 groups1 vals1 +
  right: weighted_cursor ops2 inv2 total2 groups2 vals2
  for ops1 :: "('c, 'k::linorder, 'v::linorder, unit, 'r::semiring_0) weighted_cursor_ops"
    and inv1 :: "'c \<Rightarrow> bool" and total1 groups1 :: "'c \<Rightarrow> ('k, 'v, unit, 'r) groups"
    and vals1 :: "'c \<Rightarrow> ('v \<times> (unit \<times> 'r) list) list"
    and ops2 :: "('e, 'k, 'u::linorder, unit, 'r) weighted_cursor_ops"
    and inv2 :: "'e \<Rightarrow> bool" and total2 groups2 :: "'e \<Rightarrow> ('k, 'u, unit, 'r) groups"
    and vals2 :: "'e \<Rightarrow> ('u \<times> (unit \<times> 'r) list) list" +
  fixes push :: "'o \<Rightarrow> 'i \<times> 'r \<Rightarrow> 'o run" and holds :: "'o \<Rightarrow> ('i \<times> 'r) list \<Rightarrow> bool"
  assumes push_ok: "holds out ts \<Longrightarrow> \<exists>out'. push out t = ok out' \<and> holds out' (ts @ [t])"
begin

lemma pair_ok:
  assumes "inv1 c" "groups1 c = (k, vs) # gs" "inv2 e" "groups2 e \<noteq> []" "vals2 e = (u, rs) # us" "holds out T"
  shows "\<exists>e' out'. join_pair ops1 ops2 f push c w v e out = ok (e', out') \<and> inv2 e' \<and> total2 e' = total2 e \<and>
    groups2 e' = groups2 e \<and> vals2 e' = vals2 e \<and> holds out' (T @ [(f k v u, w * times_weight rs)])"
proof -
  obtain e' where e': "co_weight ops2 e = ok (times_weight rs, e')" "inv2 e'" "total2 e' = total2 e"
      "groups2 e' = groups2 e" "vals2 e' = vals2 e"
    using right.weight [OF assms(3,4)] assms(5) by (auto simp: times_weight_def)
  then have "co_val ops2 e' = Inr u" using right.val [OF e'(2)] assms(4,5) by simp
  moreover have "co_key ops1 c = Inr k" using left.key [OF assms(1)] assms(2) by simp
  ultimately show ?thesis
    using e' push_ok [OF assms(6), of "(f k v u, w * times_weight rs)"] by (auto simp: join_pair_def)
qed

lemma val_ok:
  assumes c: "inv1 c" "groups1 c = (k, vs) # gs" "vals1 c = (v, ts) # xs"
    and e: "inv2 e" "groups2 e = (k, us) # hs" "vals2 e = us" and out: "holds out T"
  shows "\<exists>c' e' out'. join_val ops1 ops2 f push c (e, out) = ok (c', e', out') \<and> inv1 c' \<and> total1 c' = total1 c \<and>
    groups1 c' = groups1 c \<and> vals1 c' = vals1 c \<and> inv2 e' \<and> groups2 e' = groups2 e \<and> vals2 e' = us \<and>
    holds out' (T @ join_vals f k [(v, ts)] us)"
proof -
  let ?w = "times_weight ts"
  obtain c1 where c1: "co_weight ops1 c = ok (?w, c1)" "inv1 c1" "total1 c1 = total1 c"
      "groups1 c1 = groups1 c" "vals1 c1 = vals1 c"
    using left.weight [OF c(1)] c(2,3) by (auto simp: times_weight_def)
  then have v: "co_val ops1 c1 = Inr v" using left.val [OF c1(2)] c(2,3) by simp
  have g: "groups1 c1 = (k, vs) # gs" using c1(4) c(2) by simp
  let ?P = "\<lambda>us :: ('u \<times> (unit \<times> 'r) list) list. map (\<lambda>(u, rs). (f k v u, ?w * times_weight rs)) us"
  let ?I = "\<lambda>us out'. \<exists>T'. holds out' T' \<and> T' @ ?P us = T @ join_vals f k [(v, ts)] (vals2 e)"
  have "\<exists>e' out'. while_vals ops2 (join_pair ops1 ops2 f push c1 ?w v) e out = ok (e', out') \<and> inv2 e' \<and>
      total2 e' = total2 e \<and> groups2 e' = groups2 e \<and> ?I [] out'"
  proof (rule right.while_vals_ok [where I = ?I, OF e(1)])
    show "groups2 e \<noteq> []" "?I (vals2 e) out" using e out by (auto simp: join_vals_def)
    fix e' out' x xs
    assume a: "inv2 e'" "total2 e' = total2 e" "groups2 e' = groups2 e" "vals2 e' = x # xs" "?I (x # xs) out'"
    obtain u rs where x: "x = (u, rs)" by (cases x)
    obtain T' where T': "holds out' T'" "T' @ ?P (x # xs) = T @ join_vals f k [(v, ts)] (vals2 e)" using a(5) by blast
    show "\<exists>e'' s'. join_pair ops1 ops2 f push c1 ?w v e' out' = ok (e'', s') \<and> inv2 e'' \<and> total2 e'' = total2 e \<and>
        groups2 e'' = groups2 e \<and> vals2 e'' = x # xs \<and> ?I xs s'"
      using pair_ok [OF c1(2) g a(1) _ a(4) [unfolded x] T'(1), of f ?w v] a e(2) x T'(2) by fastforce
  qed
  then obtain e1 out1 where w: "while_vals ops2 (join_pair ops1 ops2 f push c1 ?w v) e out = ok (e1, out1)"
      "inv2 e1" "groups2 e1 = groups2 e" "holds out1 (T @ join_vals f k [(v, ts)] us)" using e(3) by auto
  obtain e2 where "co_rewind_vals ops2 e1 = ok e2" "inv2 e2" "groups2 e2 = groups2 e" "vals2 e2 = us"
    using right.rewind_vals [OF w(2)] w(3) e(2) by auto
  then show ?thesis using c1 v w by (auto simp: join_val_def)
qed

lemma key_ok:
  assumes c: "inv1 c" "groups1 c = (k, vs) # gs" "vals1 c = vs"
    and e: "inv2 e" "groups2 e = (k, us) # hs" "vals2 e = us" and out: "holds out T"
  shows "\<exists>c' e' out'. while_vals ops1 (join_val ops1 ops2 f push) c (e, out) = ok (c', e', out') \<and>
    inv1 c' \<and> groups1 c' = groups1 c \<and> inv2 e' \<and> groups2 e' = groups2 e \<and> holds out' (T @ join_vals f k vs us)"
proof -
  let ?I = "\<lambda>xs (e', out'). inv2 e' \<and> groups2 e' = groups2 e \<and> vals2 e' = us \<and>
    (\<exists>T'. holds out' T' \<and> T' @ join_vals f k xs us = T @ join_vals f k vs us)"
  have "\<exists>c' s'. while_vals ops1 (join_val ops1 ops2 f push) c (e, out) = ok (c', s') \<and> inv1 c' \<and>
      total1 c' = total1 c \<and> groups1 c' = groups1 c \<and> ?I [] s'"
  proof (rule left.while_vals_ok [where I = ?I, OF c(1)])
    show "groups1 c \<noteq> []" "?I (vals1 c) (e, out)" using c e out by auto
    fix c' s x xs
    assume a: "inv1 c'" "total1 c' = total1 c" "groups1 c' = groups1 c" "vals1 c' = x # xs" "?I (x # xs) s"
    obtain v ts e' out' where x: "x = (v, ts)" "s = (e', out')" by (cases x; cases s) auto
    obtain T' where T': "inv2 e'" "groups2 e' = (k, us) # hs" "vals2 e' = us" "holds out' T'"
        "T' @ join_vals f k (x # xs) us = T @ join_vals f k vs us" using a(5) x(2) e(2) by auto
    have "join_vals f k (x # xs) us = join_vals f k [(v, ts)] us @ join_vals f k xs us" using x by (simp add: join_vals_def)
    then show "\<exists>c'' s'. join_val ops1 ops2 f push c' s = ok (c'', s') \<and> inv1 c'' \<and> total1 c'' = total1 c \<and>
        groups1 c'' = groups1 c \<and> vals1 c'' = x # xs \<and> ?I xs s'"
      using val_ok [OF a(1) a(3) [unfolded c(2)] a(4) [unfolded x(1)] T'(1-4), of f] T'(2,5) a(2-4) x e(2) by fastforce
  qed
  then show ?thesis by (auto simp: join_vals_def)
qed

theorem loop_ok:
  assumes "inv1 c" "left.at_start c" "inv2 e" "right.at_start e" "holds out T"
  shows "\<exists>out'. join_loop ops1 ops2 f push c e out = ok out' \<and> holds out' (T @ join_groups f (groups1 c) (groups2 e))"
  using assms
proof (induction "length (groups1 c) + length (groups2 e)" arbitrary: c e out T rule: less_induct)
  case less
  note key1 = left.key_valid [OF less.prems(1)] and key2 = right.key_valid [OF less.prems(3)]
  have sorted: "key_sorted (groups1 c)" "key_sorted (groups2 e)"
    using left.sorted_groups [OF less.prems(1)] right.sorted_groups [OF less.prems(3)] by (auto simp: groups_sorted_def)
  show ?case
  proof (cases "groups1 c = [] \<or> groups2 e = []")
    case True
    then have "join_groups f (groups1 c) (groups2 e) = []" by (auto simp: join_groups_def join_key_def)
    then show ?thesis using True key1 key2 less.prems(5) by (subst join_loop.simps) auto
  next
    case False
    then obtain k1 vs gs k2 us hs where g: "groups1 c = (k1, vs) # gs" "groups2 e = (k2, us) # hs"
      by (metis list.exhaust prod.exhaust)
    have keys: "co_key ops1 c = Inr k1" "co_key ops2 e = Inr k2" "co_key_valid ops1 c" "co_key_valid ops2 e"
      using left.key [OF less.prems(1)] right.key [OF less.prems(3)] key1 key2 g by simp_all
    have v: "vals1 c = vs" "vals2 e = us" using less.prems(2,4) g by (simp_all add: left.at_start_def right.at_start_def)
    consider "k1 < k2" | "k2 < k1" | "k1 = k2" by force
    then show ?thesis
    proof cases
      case 1
      obtain c' where c': "co_seek_key ops1 c k2 = ok c'" "inv1 c'" "left.at_start c'"
          "groups1 c' = dropWhile (\<lambda>g. fst g < k2) (groups1 c)"
        using left.seek_key [OF less.prems(1)] by (metis left.at_start_def)
      have short: "length (groups1 c') < length (groups1 c)"
        using c'(4) g(1) 1 length_dropWhile_le [of _ gs] by (simp add: le_imp_less_Suc)
      have "join_groups f (groups1 c') (groups2 e) = join_groups f (groups1 c) (groups2 e)"
        unfolding c'(4) using sorted(2) g(2) by (intro join_groups_seek1) force
      then show ?thesis
        using less.hyps [of c' e out T] short c' less.prems(3-5) keys 1 by (subst join_loop.simps) simp
    next
      case 2
      obtain e' where e': "co_seek_key ops2 e k1 = ok e'" "inv2 e'" "right.at_start e'"
          "groups2 e' = dropWhile (\<lambda>g. fst g < k1) (groups2 e)"
        using right.seek_key [OF less.prems(3)] by (metis right.at_start_def)
      have short: "length (groups2 e') < length (groups2 e)"
        using e'(4) g(2) 2 length_dropWhile_le [of _ hs] by (simp add: le_imp_less_Suc)
      have "join_groups f (groups1 c) (groups2 e') = join_groups f (groups1 c) (groups2 e)"
        unfolding e'(4) using sorted(1) g(1) by (intro join_groups_seek2) force
      then show ?thesis
        using less.hyps [of c e' out T] short e' less.prems(1,2,5) keys 2 less_not_sym [OF 2] by (subst join_loop.simps) simp
    next
      case 3
      obtain c1 e1 out1 where w: "while_vals ops1 (join_val ops1 ops2 f push) c (e, out) = ok (c1, e1, out1)"
          "inv1 c1" "groups1 c1 = groups1 c" "inv2 e1" "groups2 e1 = groups2 e" "holds out1 (T @ join_vals f k1 vs us)"
        using key_ok [OF less.prems(1) g(1) v(1) less.prems(3) g(2) [folded 3] v(2) less.prems(5), of f] by blast
      obtain c2 where c2: "co_step_key ops1 c1 = ok c2" "inv1 c2" "groups1 c2 = gs" "left.at_start c2"
        using left.step_key [OF w(2)] w(3) g(1) by (auto simp: left.at_start_def)
      obtain e2 where e2: "co_step_key ops2 e1 = ok e2" "inv2 e2" "groups2 e2 = hs" "right.at_start e2"
        using right.step_key [OF w(4)] w(5) g(2) by (auto simp: right.at_start_def)
      have "join_groups f (groups1 c) (groups2 e) = join_vals f k1 vs us @ join_groups f gs hs"
        using join_groups_head [of k1 vs gs us hs f] sorted g 3 by simp
      then show ?thesis
        using less.hyps [of c2 e2 out1 "T @ join_vals f k1 vs us"] c2 e2 w(1,6) keys g 3
        by (subst join_loop.simps) simp
    qed
  qed
qed

end

end
