(* ===== verification/Distinct.thy ===== *)
theory Distinct
  imports Indexed_ZSets
begin

text \<open>
  The operators of \<^verbatim>\<open>crates/dbsp/src/operator/distinct.rs\<close> for the root circuit: \<^verbatim>\<open>Distinct\<close>, which maps a
  Z-set to the set of its tuples of positive weight, and \<^verbatim>\<open>DistinctIncrementalTotal\<close>, which computes the
  change of that set from a change \<^verbatim>\<open>delta\<close> of the Z-set and the Z-set before the change, looking only at the
  tuples of \<^verbatim>\<open>delta\<close>.
\<close>

definition distinct_eval ::
  "('z, 'c, 'k, 'v, unit, 'r::{zero,one,ord}, 'b, 'i) zset_ops \<Rightarrow> 'z \<Rightarrow> 'z run" where
  "distinct_eval zo input = izset_distinct zo input"

definition distinct_eval_owned ::
  "('z, 'c, 'k, 'v, unit, 'r::{zero,one,ord}, 'b, 'i) zset_ops \<Rightarrow> 'z \<Rightarrow> 'z run" where
  "distinct_eval_owned zo input = izset_distinct_owned zo input"

section \<open>The incremental operator\<close>

text \<open>One value of a key that the integral has, one value of a key that it does not have, one key.\<close>

definition dit_found_val ::
  "('z, 'c, 'k, 'v, unit, 'r::{comm_monoid_add,one,uminus,ord}, 'b, 'i) zset_ops \<Rightarrow>
   ('y, 'e, 'k, 'v, unit, 'r) reader_ops \<Rightarrow> 'c \<Rightarrow> 'e \<times> 'b \<Rightarrow> ('c \<times> 'e \<times> 'b) run" where
  "dit_found_val zo io delta_cursor s =
     (let dops = rd_cursor_ops zo; iops = rd_cursor_ops io; (integral_cursor, builder) = s in
      run_bind (co_weight dops delta_cursor) (\<lambda>(w, delta_cursor).
      run_bind (lift_res (co_val dops delta_cursor)) (\<lambda>v.
      run_bind (co_seek_val iops integral_cursor v) (\<lambda>integral_cursor.
      run_bind
        (if co_val_valid iops integral_cursor then
           run_bind (lift_res (co_val iops integral_cursor)) (\<lambda>v'.
           if v' = v then co_weight iops integral_cursor else ok (0, integral_cursor))
         else ok (0, integral_cursor)) (\<lambda>(old_weight, integral_cursor).
      let new_weight = old_weight + w in
      run_bind
        (if le0 old_weight then
           if ge0 new_weight \<and> new_weight \<noteq> 0 then push_current zo delta_cursor v 1 builder else ok builder
         else if le0 new_weight then push_current zo delta_cursor v (- 1) builder
         else ok builder) (\<lambda>builder.
      ok (delta_cursor, integral_cursor, builder)))))))"

definition dit_new_val ::
  "('z, 'c, 'k, 'v, unit, 'r::{comm_monoid_add,one,uminus,ord}, 'b, 'i) zset_ops \<Rightarrow>
   'c \<Rightarrow> 'e \<times> 'b \<Rightarrow> ('c \<times> 'e \<times> 'b) run" where
  "dit_new_val zo delta_cursor s =
     (let dops = rd_cursor_ops zo; (integral_cursor, builder) = s in
      run_bind (co_weight dops delta_cursor) (\<lambda>(new_weight, delta_cursor).
      run_bind
        (if ge0 new_weight \<and> new_weight \<noteq> 0 then
           run_bind (lift_res (co_val dops delta_cursor)) (\<lambda>v. push_current zo delta_cursor v 1 builder)
         else ok builder) (\<lambda>builder.
      ok (delta_cursor, integral_cursor, builder))))"

definition dit_key ::
  "('z, 'c, 'k, 'v, unit, 'r::{comm_monoid_add,one,uminus,ord}, 'b, 'i) zset_ops \<Rightarrow>
   ('y, 'e, 'k, 'v, unit, 'r) reader_ops \<Rightarrow> 'c \<Rightarrow> 'e \<times> 'b \<Rightarrow> ('c \<times> 'e \<times> 'b) run" where
  "dit_key zo io delta_cursor s =
     (let dops = rd_cursor_ops zo; iops = rd_cursor_ops io; (integral_cursor, builder) = s in
      run_bind (lift_res (co_key dops delta_cursor)) (\<lambda>k.
      run_bind (co_seek_key iops integral_cursor k) (\<lambda>integral_cursor.
      run_bind
        (if co_key_valid iops integral_cursor
         then run_bind (lift_res (co_key iops integral_cursor)) (\<lambda>k'. ok (k' = k))
         else ok False) (\<lambda>found.
      if found then while_vals dops (dit_found_val zo io) delta_cursor (integral_cursor, builder)
      else while_vals dops (dit_new_val zo) delta_cursor (integral_cursor, builder)))))"

definition distinct_incremental_total_eval ::
  "('z, 'c, 'k, 'v, unit, 'r::{comm_monoid_add,one,uminus,ord}, 'b, 'i) zset_ops \<Rightarrow>
   ('y, 'e, 'k, 'v, unit, 'r) reader_ops \<Rightarrow> 'z \<Rightarrow> 'y \<Rightarrow> 'z run" where
  "distinct_incremental_total_eval zo io delta delayed_integral =
     run_bind (lift_res (rd_len zo delta)) (\<lambda>n.
     run_bind (lift_res (rd_cursor zo delta)) (\<lambda>delta_cursor.
     run_bind (lift_res (rd_cursor io delayed_integral)) (\<lambda>integral_cursor.
     run_bind (while_keys (rd_cursor_ops zo) (dit_key zo io) delta_cursor
         (integral_cursor, bo_with_capacity (zo_builder zo) () n)) (\<lambda>(delta_cursor, integral_cursor, builder).
     lift_res (bo_done (zo_builder zo) builder)))))"

definition distinct_incremental_total_eval_owned_and_ref ::
  "('z, 'c, 'k, 'v, unit, 'r::{comm_monoid_add,one,uminus,ord}, 'b, 'i) zset_ops \<Rightarrow>
   ('y, 'e, 'k, 'v, unit, 'r) reader_ops \<Rightarrow> 'z \<Rightarrow> 'y \<Rightarrow> 'z run" where
  "distinct_incremental_total_eval_owned_and_ref zo io delta delayed_integral =
     distinct_incremental_total_eval zo io delta delayed_integral"

definition distinct_incremental_total_eval_owned ::
  "('z, 'c, 'k, 'v, unit, 'r::{comm_monoid_add,one,uminus,ord}, 'b, 'i) zset_ops \<Rightarrow>
   ('y, 'e, 'k, 'v, unit, 'r) reader_ops \<Rightarrow> 'z \<Rightarrow> 'y \<Rightarrow> 'z run" where
  "distinct_incremental_total_eval_owned zo io delta delayed_integral =
     distinct_incremental_total_eval_owned_and_ref zo io delta delayed_integral"

section \<open>Specification\<close>

text \<open>The weight of a tuple in a set, the change of it, and the weights that groups hold.\<close>

definition set_weight :: "'r::linordered_idom \<Rightarrow> 'r" where
  "set_weight w = (if 0 < w then 1 else 0)"

definition set_change :: "'r::linordered_idom \<Rightarrow> 'r \<Rightarrow> 'r" where
  "set_change old w = set_weight (old + w) - set_weight old"

definition val_weight :: "('v \<times> ('t \<times> 'r::comm_monoid_add) list) list \<Rightarrow> 'v \<Rightarrow> 'r" where
  "val_weight vs v = (\<Sum>(v', ts)\<leftarrow>vs. if v' = v then times_weight ts else 0)"

definition group_weight :: "('k, 'v, 't, 'r::comm_monoid_add) groups \<Rightarrow> 'k \<Rightarrow> 'v \<Rightarrow> 'r" where
  "group_weight gs k v = (\<Sum>(k', vs)\<leftarrow>gs. if k' = k then val_weight vs v else 0)"

definition change_pushes ::
  "('k \<Rightarrow> 'v \<Rightarrow> 'i) \<Rightarrow> ('k \<Rightarrow> 'v \<Rightarrow> 'r::linordered_idom) \<Rightarrow> 'k \<Rightarrow> ('v \<times> ('t \<times> 'r) list) list \<Rightarrow> ('i \<times> 'r) list" where
  "change_pushes item W k vs =
     filter nonzero (map (\<lambda>(v, ts). (item k v, set_change (W k v) (times_weight ts))) vs)"

lemma change_pushes_simps [simp]:
  "change_pushes item W k [] = []"
  "change_pushes item W k ((v, ts) # vs) =
     (if set_change (W k v) (times_weight ts) = 0 then [] else [(item k v, set_change (W k v) (times_weight ts))]) @
     change_pushes item W k vs"
  by (simp_all add: change_pushes_def nonzero_def)

lemma set_change_cases:
  "old \<le> 0 \<Longrightarrow> 0 < old + w \<Longrightarrow> set_change old w = 1"
  "old \<le> 0 \<Longrightarrow> \<not> 0 < old + w \<Longrightarrow> set_change old w = 0"
  "0 < old \<Longrightarrow> old + w \<le> 0 \<Longrightarrow> set_change old w = - 1"
  "0 < old \<Longrightarrow> 0 < old + w \<Longrightarrow> set_change old w = 0"
  by (simp_all add: set_change_def set_weight_def)

lemma val_weight_dropWhile: "v \<le> v' \<Longrightarrow> val_weight (dropWhile (\<lambda>x. fst x < v) vs) v' = val_weight vs (v' :: 'v::linorder)"
  by (induction vs) (auto simp: val_weight_def)

lemma group_weight_dropWhile:
  "k \<le> k' \<Longrightarrow> group_weight (dropWhile (\<lambda>x. fst x < k) gs) (k' :: 'k::linorder) v = group_weight gs k' v"
  by (induction gs) (auto simp: group_weight_def)

lemma val_weight_above: "\<forall>x \<in> set vs. v < fst x \<Longrightarrow> val_weight vs (v :: 'v::linorder) = 0"
  by (induction vs) (auto simp: val_weight_def)

lemma group_weight_above: "\<forall>x \<in> set gs. k < fst x \<Longrightarrow> group_weight gs (k :: 'k::linorder) v = 0"
  by (induction gs) (auto simp: group_weight_def)

text \<open>What a cursor shows after it has sought a value, and after it has sought a key.\<close>

lemma dropWhile_below:
  assumes "key_sorted gs"
  obtains (found) p gs' where "dropWhile (\<lambda>x. fst x < k) gs = (k, p) # gs'" "\<forall>x \<in> set gs'. k < fst x"
  | (absent) "\<forall>x \<in> set (dropWhile (\<lambda>x. fst x < k) gs). k < fst x"
proof (cases "dropWhile (\<lambda>x. fst x < k) gs")
  case Nil
  then have "\<forall>x \<in> set (dropWhile (\<lambda>x. fst x < k) gs). k < fst x" by (simp only: list.set ball_empty)
  then show ?thesis by (rule absent)
next
  case (Cons g gs')
  have s: "key_sorted (g # gs')" using key_sorted_dropWhile [OF assms, of "\<lambda>x. fst x < k"] Cons by simp
  have g: "k \<le> fst g" using hd_dropWhile [of "\<lambda>x. fst x < k" gs] Cons by simp
  show ?thesis
  proof (cases "fst g = k")
    case True
    then show ?thesis using found [of "snd g" gs'] s Cons by (metis key_sorted_simps(2) prod.collapse)
  next
    case False
    then have "k < fst g" using g by simp
    then have "\<forall>x \<in> set (g # gs'). k < fst x" using s by force
    then show ?thesis using absent Cons by simp
  qed
qed

section \<open>Correctness, for any cursors and builder\<close>

locale incremental_distinct = zset_batch zo dinv dtotal dgroups dvals binv pushed contents wf +
  integral: weighted_cursor "rd_cursor_ops io" iinv itotal igroups ivals
  for zo :: "('z, 'c, 'k::linorder, 'v::linorder, unit, 'r::linordered_idom, 'b, 'i::linorder) zset_ops"
    and dinv :: "'c \<Rightarrow> bool" and dtotal dgroups :: "'c \<Rightarrow> ('k, 'v, unit, 'r) groups"
    and dvals :: "'c \<Rightarrow> ('v \<times> (unit \<times> 'r) list) list"
    and binv :: "'b \<Rightarrow> bool" and pushed :: "'b \<Rightarrow> ('i, 'r) updates"
    and contents :: "'z \<Rightarrow> ('i, 'r) updates" and wf :: "'z \<Rightarrow> bool"
    and io :: "('y, 'e, 'k, 'v, unit, 'r) reader_ops"
    and iinv :: "'e \<Rightarrow> bool" and itotal igroups :: "'e \<Rightarrow> ('k, 'v, unit, 'r) groups"
    and ivals :: "'e \<Rightarrow> ('v \<times> (unit \<times> 'r) list) list"
begin

abbreviation pushes :: "('k \<Rightarrow> 'v \<Rightarrow> 'r) \<Rightarrow> 'k \<Rightarrow> ('v \<times> (unit \<times> 'r) list) list \<Rightarrow> ('i \<times> 'r) list" where
  "pushes \<equiv> change_pushes (zo_item_from zo)"

text \<open>The weight that the integral has for a value of the current key.\<close>

lemma old_weight_ok:
  assumes "iinv e" "igroups e \<noteq> []"
  shows "\<exists>e'. run_bind (co_seek_val (rd_cursor_ops io) e v) (\<lambda>e.
      if co_val_valid (rd_cursor_ops io) e then
        run_bind (lift_res (co_val (rd_cursor_ops io) e)) (\<lambda>v'.
        if v' = v then co_weight (rd_cursor_ops io) e else ok (0, e))
      else ok (0, e)) = ok (val_weight (ivals e) v, e') \<and>
    iinv e' \<and> igroups e' = igroups e \<and> (\<forall>v' > v. val_weight (ivals e') v' = val_weight (ivals e) v')"
proof -
  let ?d = "dropWhile (\<lambda>x. fst x < v) (ivals e)"
  obtain e1 where e1: "co_seek_val (rd_cursor_ops io) e v = ok e1" "iinv e1" "igroups e1 = igroups e" "ivals e1 = ?d"
    using integral.seek_val [OF assms] by blast
  have later: "val_weight ?d v' = val_weight (ivals e) v'" if "v \<le> v'" for v'
    using val_weight_dropWhile [OF that] .
  have ne: "igroups e1 \<noteq> []" using e1(3) assms(2) by simp
  note valid = integral.val_valid [OF e1(2) ne] and shown = integral.val [OF e1(2) ne]
  from integral.sorted_vals [OF assms] show ?thesis
  proof (cases rule: dropWhile_below [of _ v])
    case (found ts vs')
    obtain e2 where e2: "co_weight (rd_cursor_ops io) e1 = ok (times_weight ts, e2)" "iinv e2" "igroups e2 = igroups e1"
        "ivals e2 = ivals e1"
      using integral.weight [OF e1(2) ne] e1(4) found by (auto simp: times_weight_def)
    have "val_weight (ivals e) v = times_weight ts"
      using later [of v] val_weight_above [OF found(2)] found(1) by (simp add: val_weight_def)
    then show ?thesis using e1 e2 found(1) valid shown later by auto
  next
    case absent
    then have "val_weight (ivals e) v = 0" using later [of v] val_weight_above [OF absent] by simp
    moreover have "fst (hd ?d) \<noteq> v" if "?d \<noteq> []" using absent hd_in_set [OF that] by auto
    ultimately show ?thesis using e1 valid shown later by (cases ?d) auto
  qed
qed

lemma found_val_ok:
  assumes "dinv c" "dgroups c = (k, vs) # gs" "dvals c = (v, ts) # xs"
    and "iinv e" "igroups e \<noteq> []" "val_weight (ivals e) v = W k v" "binv b"
  shows "\<exists>c' e' b'. dit_found_val zo io c (e, b) = ok (c', e', b') \<and>
    dinv c' \<and> dtotal c' = dtotal c \<and> dgroups c' = dgroups c \<and> dvals c' = dvals c \<and>
    iinv e' \<and> igroups e' = igroups e \<and> (\<forall>v' > v. val_weight (ivals e') v' = val_weight (ivals e) v') \<and>
    binv b' \<and> pushed b' = pushed b @ pushes W k [(v, ts)]"
proof -
  obtain c1 where c1: "co_weight (rd_cursor_ops zo) c = ok (times_weight ts, c1)" "co_val (rd_cursor_ops zo) c1 = Inr v"
      "dinv c1" "dtotal c1 = dtotal c" "dgroups c1 = dgroups c" "dvals c1 = dvals c"
    using delta_weight_val [OF assms(1) _ assms(3)] assms(2) by auto
  obtain e1 e2 where e: "co_seek_val (rd_cursor_ops io) e v = ok e1"
      "(if co_val_valid (rd_cursor_ops io) e1 then
        run_bind (lift_res (co_val (rd_cursor_ops io) e1)) (\<lambda>v'.
        if v' = v then co_weight (rd_cursor_ops io) e1 else ok (0, e1))
      else ok (0, e1)) = ok (W k v, e2)"
      "iinv e2" "igroups e2 = igroups e" "\<forall>v' > v. val_weight (ivals e2) v' = val_weight (ivals e) v'"
    using old_weight_ok [OF assms(4,5), of v] unfolding assms(6) run_bind_eq_ok by blast
  let ?old = "W k v" and ?new = "W k v + times_weight ts"
  have "\<exists>b'. (if le0 ?old then
       if ge0 ?new \<and> ?new \<noteq> 0 then push_current zo c1 v 1 b else ok b
     else if le0 ?new then push_current zo c1 v (- 1) b else ok b) = ok b' \<and>
     binv b' \<and> pushed b' = pushed b @ pushes W k [(v, ts)]"
    using push_current_ok [OF c1(3) c1(5) [unfolded assms(2)] assms(7), of v]
      set_change_cases [of ?old "times_weight ts"] assms(7)
    by (cases "?old \<le> 0"; cases "0 < ?new") (auto simp: le0_def ge0_def)
  then obtain b' where b': "(if le0 ?old then
       if ge0 ?new \<and> ?new \<noteq> 0 then push_current zo c1 v 1 b else ok b
     else if le0 ?new then push_current zo c1 v (- 1) b else ok b) = ok b'"
     "binv b'" "pushed b' = pushed b @ pushes W k [(v, ts)]" by blast
  have "dit_found_val zo io c (e, b) = ok (c1, e2, b')"
    using c1(1,2) e(1,2) b'(1) by (simp only: dit_found_val_def Let_def prod.case run_bind_simps lift_simps)
  then show ?thesis using c1 e b' by blast
qed

lemma new_val_ok:
  assumes "dinv c" "dgroups c = (k, vs) # gs" "dvals c = (v, ts) # xs" "W k v = 0" "binv b"
  shows "\<exists>c' b'. dit_new_val zo c (e, b) = ok (c', e, b') \<and>
    dinv c' \<and> dtotal c' = dtotal c \<and> dgroups c' = dgroups c \<and> dvals c' = dvals c \<and>
    binv b' \<and> pushed b' = pushed b @ pushes W k [(v, ts)]"
proof -
  obtain c1 where c1: "co_weight (rd_cursor_ops zo) c = ok (times_weight ts, c1)" "co_val (rd_cursor_ops zo) c1 = Inr v"
      "dinv c1" "dtotal c1 = dtotal c" "dgroups c1 = dgroups c" "dvals c1 = dvals c"
    using delta_weight_val [OF assms(1) _ assms(3)] assms(2) by auto
  show ?thesis
    using push_current_ok [OF c1(3) c1(5) [unfolded assms(2)] assms(5), of v 1] c1 assms(4,5)
      set_change_cases(1,2) [of 0 "times_weight ts"]
    by (cases "0 < times_weight ts") (auto simp: dit_new_val_def ge0_def)
qed

lemma key_ok:
  assumes c: "dinv c" "dgroups c = (k, vs) # gs" "dvals c = vs"
    and e: "iinv e" "\<forall>v. group_weight (igroups e) k v = W k v" and b: "binv b"
  shows "\<exists>c' e' b'. dit_key zo io c (e, b) = ok (c', e', b') \<and> dinv c' \<and> dgroups c' = dgroups c \<and>
    iinv e' \<and> (\<forall>k' > k. \<forall>v. group_weight (igroups e') k' v = group_weight (igroups e) k' v) \<and>
    binv b' \<and> pushed b' = pushed b @ pushes W k vs"
proof -
  let ?d = "dropWhile (\<lambda>x. fst x < k) (igroups e)"
  have key: "co_key (rd_cursor_ops zo) c = Inr k" using delta.key [OF c(1)] c(2) by simp
  obtain e1 where e1: "co_seek_key (rd_cursor_ops io) e k = ok e1" "iinv e1" "igroups e1 = ?d"
      "?d \<noteq> [] \<longrightarrow> ivals e1 = snd (hd ?d)"
    using integral.seek_key [OF e(1)] by metis
  have later: "group_weight ?d k' v = group_weight (igroups e) k' v" if "k \<le> k'" for k' v
    using group_weight_dropWhile [OF that] .
  note valid = integral.key_valid [OF e1(2)] and ikey = integral.key [OF e1(2)]
  have "key_sorted (igroups e)" using integral.sorted_groups [OF e(1)] by (simp add: groups_sorted_def)
  then show ?thesis
  proof (cases rule: dropWhile_below [of _ k])
    case (found us gs')
    have old: "val_weight (ivals e1) v = W k v" for v
      using e(2) later [of k v] group_weight_above [OF found(2)] e1(4) found(1) by (simp add: group_weight_def)
    let ?I = "\<lambda>xs (e', b'). iinv e' \<and> igroups e' = ?d \<and> (\<forall>x \<in> set xs. val_weight (ivals e') (fst x) = W k (fst x)) \<and>
      binv b' \<and> pushed b' @ pushes W k xs = pushed b @ pushes W k vs"
    have "\<exists>c' s'. while_vals (rd_cursor_ops zo) (dit_found_val zo io) c (e1, b) = ok (c', s') \<and> dinv c' \<and>
        dtotal c' = dtotal c \<and> dgroups c' = dgroups c \<and> ?I [] s'"
    proof (rule delta.while_vals_ok [OF c(1)])
      show "dgroups c \<noteq> []" "?I (dvals c) (e1, b)" using c e1 b old by simp_all
      fix c' s x xs
      assume a: "dinv c'" "dtotal c' = dtotal c" "dgroups c' = dgroups c" "dvals c' = x # xs" "?I (x # xs) s"
      obtain v ts e' b' where x: "x = (v, ts)" "s = (e', b')" by (cases x; cases s) auto
      have "key_sorted (x # xs)" using delta.sorted_vals [OF a(1)] a(3,4) c(2) by simp
      then have above: "\<forall>y \<in> set xs. v < fst y" using x by simp
      have "\<exists>c'' e'' b''. dit_found_val zo io c' (e', b') = ok (c'', e'', b'') \<and>
        dinv c'' \<and> dtotal c'' = dtotal c' \<and> dgroups c'' = dgroups c' \<and> dvals c'' = dvals c' \<and>
        iinv e'' \<and> igroups e'' = igroups e' \<and> (\<forall>v' > v. val_weight (ivals e'') v' = val_weight (ivals e') v') \<and>
        binv b'' \<and> pushed b'' = pushed b' @ pushes W k [(v, ts)]"
        using a x found(1) by (intro found_val_ok [OF a(1) a(3) [unfolded c(2)] a(4) [unfolded x(1)]]) simp_all
      then show "\<exists>c'' s'. dit_found_val zo io c' s = ok (c'', s') \<and> dinv c'' \<and> dtotal c'' = dtotal c \<and>
          dgroups c'' = dgroups c \<and> dvals c'' = x # xs \<and> ?I xs s'"
        using a x above by fastforce
    qed
    then show ?thesis using key e1(1,3) valid ikey found(1) later by (fastforce simp: dit_key_def Let_def)
  next
    case absent
    have old: "W k v = 0" for v using e(2) later [of k v] group_weight_above [OF absent] by simp
    let ?I = "\<lambda>xs (e', b'). e' = e1 \<and> binv b' \<and> pushed b' @ pushes W k xs = pushed b @ pushes W k vs"
    have "\<exists>c' s'. while_vals (rd_cursor_ops zo) (dit_new_val zo) c (e1, b) = ok (c', s') \<and> dinv c' \<and>
        dtotal c' = dtotal c \<and> dgroups c' = dgroups c \<and> ?I [] s'"
    proof (rule delta.while_vals_ok [OF c(1)])
      show "dgroups c \<noteq> []" "?I (dvals c) (e1, b)" using c b by simp_all
      fix c' s x xs
      assume a: "dinv c'" "dtotal c' = dtotal c" "dgroups c' = dgroups c" "dvals c' = x # xs" "?I (x # xs) s"
      obtain v ts b' where x: "x = (v, ts)" "s = (e1, b')" using a(5) by (cases x; cases s) auto
      show "\<exists>c'' s'. dit_new_val zo c' s = ok (c'', s') \<and> dinv c'' \<and> dtotal c'' = dtotal c \<and>
          dgroups c'' = dgroups c \<and> dvals c'' = x # xs \<and> ?I xs s'"
        using new_val_ok [of c' k vs gs v ts xs W b' e1] a c(2) x old by fastforce
    qed
    moreover have "fst (hd ?d) \<noteq> k" if "?d \<noteq> []" using absent hd_in_set [OF that] by auto
    ultimately show ?thesis using key e1 valid ikey later by (cases "?d = []") (fastforce simp: dit_key_def Let_def)+
  qed
qed

theorem incremental_eval:
  assumes "rd_len zo d = Inr n" "rd_cursor zo d = Inr c" "dinv c" "delta.at_start c"
    and "rd_cursor io y = Inr e" "iinv e"
    and "consolidated (concat (map (\<lambda>(k, vs). pushes (group_weight (igroups e)) k vs) (dgroups c)))"
  shows "\<exists>out. distinct_incremental_total_eval zo io d y = ok out \<and> wf out \<and>
    contents out = concat (map (\<lambda>(k, vs). pushes (group_weight (igroups e)) k vs) (dgroups c))"
proof -
  let ?W = "group_weight (igroups e)" and ?b = "bo_with_capacity (zo_builder zo) () n"
  let ?P = "\<lambda>gs. concat (map (\<lambda>(k, vs). pushes ?W k vs) gs)"
  let ?I = "\<lambda>gs (e', b'). iinv e' \<and> (\<forall>g \<in> set gs. \<forall>v. group_weight (igroups e') (fst g) v = ?W (fst g) v) \<and>
    binv b' \<and> pushed b' @ ?P gs = ?P (dgroups c)"
  have "\<exists>c' s'. while_keys (rd_cursor_ops zo) (dit_key zo io) c (e, ?b) = ok (c', s') \<and> dinv c' \<and> ?I [] s'"
  proof (rule delta.while_keys_ok [OF assms(3,4)])
    show "?I (dgroups c) (e, ?b)" using assms(6) builder.with_capacity by simp
    fix c' s g gs
    assume a: "dinv c'" "dgroups c' = g # gs" "dvals c' = snd g" "?I (g # gs) s"
    obtain k vs e' b' where x: "g = (k, vs)" "s = (e', b')" by (cases g; cases s) auto
    have "key_sorted (g # gs)" using delta.sorted_groups [OF a(1)] a(2) by (simp add: groups_sorted_def)
    then have above: "\<forall>h \<in> set gs. k < fst h" using x by simp
    have "\<exists>c'' e'' b''. dit_key zo io c' (e', b') = ok (c'', e'', b'') \<and> dinv c'' \<and> dgroups c'' = dgroups c' \<and>
      iinv e'' \<and> (\<forall>k' > k. \<forall>v. group_weight (igroups e'') k' v = group_weight (igroups e') k' v) \<and>
      binv b'' \<and> pushed b'' = pushed b' @ pushes ?W k vs"
      using a x by (intro key_ok) simp_all
    then show "\<exists>c'' s'. dit_key zo io c' s = ok (c'', s') \<and> dinv c'' \<and> dgroups c'' = g # gs \<and> ?I gs s'"
      using a x above by fastforce
  qed
  then obtain c' e' b' where w: "while_keys (rd_cursor_ops zo) (dit_key zo io) c (e, ?b) = ok (c', e', b')"
      "binv b'" "pushed b' = ?P (dgroups c)" by auto
  then show ?thesis
    using builder.finish [OF w(2)] assms(1,2,5,7) by (auto simp: distinct_incremental_total_eval_def)
qed

end

end
