(* ===== verification/Incremental_Distinct.thy ===== *)
theory Incremental_Distinct
  imports Distinct Trace_Operators
begin

text \<open>
  The incremental \<^verbatim>\<open>distinct\<close> of a root circuit computes, cycle by cycle, the changes of what \<^verbatim>\<open>distinct\<close>
  computes from scratch: batch, cursor, trace and delay composed.
\<close>

section \<open>The operators on Z-sets\<close>

lemma oz_trace_reader_simps [simp]: "rd_cursor_ops oz_trace_reader = sc_weighted oc_weighted"
  by (simp add: oz_trace_reader_def)

interpretation ozd: incremental_distinct oz_ops oc_inv "\<lambda>c. oz_groups (cc_total (oc_cursor c))"
  "\<lambda>c. oz_groups (cc_rest (oc_cursor c))" oc_vals "\<lambda>b. cb_ok (ob_builder b)" "\<lambda>b. cb_pairs (ob_builder b)"
  oz_contents oz_wf oz_trace_reader ozw.list_inv ozw.list_total ozw.list_groups ozw.list_vals
  unfolding incremental_distinct_def oz_trace_reader_simps
  using ozz.zset_batch_axioms ozwt.weighted_cursor_axioms by blast

lemma key_count_ok: "oz_wf z \<Longrightarrow> \<exists>n. oz_key_count z = Inr n"
  using cl_trie_keys_ok [of "oz_layer z"] by (auto simp: oz_key_count_def oz_wf_def cl_wf_def)

lemma consolidated_map_weights:
  "consolidated xs \<Longrightarrow> consolidated (filter nonzero (map (\<lambda>(k, w). (k, f k w)) xs))"
  by (induction xs) (force simp: consolidated_Cons nonzero_def)+

lemma weight_of_map_weights:
  assumes "consolidated xs" "f k 0 = 0"
  shows "weight_of (filter nonzero (map (\<lambda>(k, w). (k, f k w)) xs)) k = f k (weight_of xs k)"
  using assms
proof (induction xs)
  case (Cons x xs)
  obtain k' w where x: "x = (k', w)" by (cases x)
  have above: "\<forall>y \<in> set xs. k' < fst y" and IH: "weight_of (filter nonzero (map (\<lambda>(k, w). (k, f k w)) xs)) k =
      f k (weight_of xs k)" using Cons x by (simp_all add: consolidated_Cons)
  show ?case
  proof (cases "k' = k")
    case True
    then have "k \<notin> fst ` set xs" using above by auto
    then have "weight_of xs k = 0" by (rule weight_of_notin)
    then show ?thesis using IH x True assms(2) by (simp only: weight_of_filter_nonzero) simp
  next
    case False
    then show ?thesis using IH x by simp
  qed
qed (simp add: assms(2))

lemma positives_oz:
  "\<forall>x \<in> set xs. snd x \<noteq> 0 \<Longrightarrow> concat (map (\<lambda>(k, vs). ozz.positives k vs) (oz_groups xs)) =
     filter nonzero (map (\<lambda>(k, w). (k, set_weight w)) xs)"
  by (induction xs)
    (auto simp: oz_groups_def ozz.positives_def times_weight_def set_weight_def nonzero_def oz_item_from_def
      split: if_splits)

text \<open>Tuples of a Z-set have weights other than zero, so that \<^verbatim>\<open>ge0\<close> selects the positive ones.\<close>

lemma distinct_eval_ok:
  assumes "oz_wf (z :: ('k::linorder, 'r::linordered_idom) ord_zset)"
  shows "\<exists>out. distinct_eval oz_ops z = ok out \<and> oz_wf out \<and> (\<forall>k. oz_zset out k = set_weight (oz_zset z k))"
proof -
  obtain c where c: "oz_cursor z = Inr c" "oc_inv c" "ozw.at_start c" "cc_rest (oc_cursor c) = oz_contents z"
    using oz_cursor_start [OF assms] by blast
  obtain n where n: "oz_key_count z = Inr n" using key_count_ok [OF assms] by blast
  have cons: "consolidated (oz_contents z)" by (rule oz_consolidated [OF assms])
  then have out: "concat (map (\<lambda>(k, vs). ozz.positives k vs) (oz_groups (oz_contents z))) =
      filter nonzero (map (\<lambda>(k, w). (k, set_weight w)) (oz_contents z))"
    by (intro positives_oz) (simp add: consolidated_def)
  show ?thesis
    using ozz.distinct_ok [of z n c] c n consolidated_map_weights [OF cons, of "\<lambda>_. set_weight"]
      weight_of_map_weights [OF cons, of "\<lambda>_. set_weight"]
    by (auto simp: distinct_eval_def oz_zset_def out) (simp add: set_weight_def)
qed

section \<open>A cycle\<close>

lemma group_weight_trace:
  fixes xss :: "('k::linorder, 'r::comm_monoid_add) updates list"
  shows "group_weight (merge_groups (map oz_groups xss)) k () = (\<Sum>xs\<leftarrow>xss. weight_of xs k)"
proof -
  have t: "times_weight (map (Pair ()) rs) = sum_list rs" for rs :: "'r list"
    by (induction rs) (simp_all add: times_weight_def)
  have "group_weight (merge_groups (map oz_groups xss)) k () =
      (\<Sum>k'\<leftarrow>sorted_list_of_set (keys_of xss). if k' = k then sum_list (at_key k xss) else 0)"
    unfolding merge_oz_groups_eq group_weight_def
    by (auto simp: comp_def val_weight_def t intro!: arg_cong [where f = sum_list])
  also have "\<dots> = (if k \<in> keys_of xss then sum_list (at_key k xss) else 0)"
    by (simp add: sum_list_distinct_conv_sum_set)
  also have "\<dots> = (\<Sum>xs\<leftarrow>xss. weight_of xs k)"
    using at_key_Nil [of k xss] sum_at_key [of k xss] by auto
  finally show ?thesis .
qed

lemma change_pushes_oz:
  "concat (map (\<lambda>(k, vs). change_pushes oz_item_from (\<lambda>k _. W k) k vs) (oz_groups xs)) =
     filter nonzero (map (\<lambda>(k, w). (k, set_change (W k) w)) xs)"
  by (induction xs) (auto simp: oz_groups_def change_pushes_def times_weight_def oz_item_from_def)

lemma incremental_eval_ok:
  assumes "oz_wf (d :: ('k::linorder, 'r::linordered_idom) ord_zset)" "trace_inv n sp"
  shows "\<exists>out. distinct_incremental_total_eval oz_ops oz_trace_reader d sp = ok out \<and> oz_wf out \<and>
    (\<forall>k. oz_zset out k = set_change (spine_zset sp k) (oz_zset d k))"
proof -
  obtain c where c: "oz_cursor d = Inr c" "oc_inv c" "ozw.at_start c" "cc_rest (oc_cursor c) = oz_contents d"
    using oz_cursor_start [OF assms(1)] by blast
  obtain e xss where e: "rd_cursor oz_trace_reader sp = Inr e" "ozw.list_inv e"
      "ozw.list_groups e = merge_groups (map oz_groups xss)" "\<forall>k. (\<Sum>xs\<leftarrow>xss. weight_of xs k) = spine_zset sp k"
    using trace_reader_ok [OF assms(2)] by blast
  have W: "group_weight (ozw.list_groups e) = (\<lambda>k _. spine_zset sp k)"
    using e(3,4) by (auto simp: fun_eq_iff group_weight_trace)
  have cons: "consolidated (oz_contents d)" by (rule oz_consolidated [OF assms(1)])
  have "\<exists>out. distinct_incremental_total_eval oz_ops oz_trace_reader d sp = ok out \<and> oz_wf out \<and>
      oz_contents out = filter nonzero (map (\<lambda>(k, w). (k, set_change (spine_zset sp k) w)) (oz_contents d))"
    using ozd.incremental_eval [of d _ c sp e] c e(1,2) oz_batch_len_ok [OF assms(1)]
      consolidated_map_weights [OF cons, of "\<lambda>k. set_change (spine_zset sp k)"]
    unfolding W by (simp add: change_pushes_oz)
  then show ?thesis
    using weight_of_map_weights [OF cons, of "\<lambda>k. set_change (spine_zset sp k)"]
    by (auto simp: oz_zset_def set_change_def)
qed

text \<open>
  The nodes that \<^verbatim>\<open>distinct\<close> adds to the root circuit, evaluated once: the output half of the delay gives the
  trace, the operator reads the change and the trace, then the node that appends the change to the trace takes
  the trace itself (it strongly prefers to own it, so that it comes after the other readers), and the
  input half of the delay keeps it.  The flag says whether the appended batch is owned or borrowed.
\<close>

definition distinct_cycle ::
  "('k::linorder, 'r::linordered_idom) ord_zset \<times> bool \<Rightarrow> ('k, 'r) zset_delay \<Rightarrow>
   (('k, 'r) ord_zset \<times> ('k, 'r) zset_delay) run" where
  "distinct_cycle input z1 =
     (let (delta, owned) = input in
      run_bind (lift_res (zt_get_output zset_trace_ops z1)) (\<lambda>(trace, z1).
      run_bind (distinct_incremental_total_eval oz_ops oz_trace_reader delta trace) (\<lambda>out.
      run_bind (untimed_append_node owned trace delta) (\<lambda>trace.
      run_bind (zt_eval_strict_owned unit_ops zset_trace_ops [None] [None] trace z1) (\<lambda>z1.
      ok (out, z1))))))"

fun distinct_cycles ::
  "(('k::linorder, 'r::linordered_idom) ord_zset \<times> bool) list \<Rightarrow> ('k, 'r) zset_delay \<Rightarrow>
   (('k, 'r) ord_zset list \<times> ('k, 'r) zset_delay) run" where
  "distinct_cycles [] z1 = ok ([], z1)"
| "distinct_cycles (input # inputs) z1 =
     run_bind (distinct_cycle input z1) (\<lambda>(out, z1).
     run_bind (distinct_cycles inputs z1) (\<lambda>(outs, z1). ok (out # outs, z1)))"

lemma distinct_cycle_ok:
  assumes "delay_inv n z1 sp" "oz_wf d" "n + length (oz_contents d) < 2 ^ 29"
  shows "\<exists>out z1' sp'. distinct_cycle (d, owned) z1 = ok (out, z1') \<and> oz_wf out \<and>
    (\<forall>k. oz_zset out k = set_change (spine_zset sp k) (oz_zset d k)) \<and>
    delay_inv (n + length (oz_contents d)) z1' sp' \<and> (\<forall>k. spine_zset sp' k = spine_zset sp k + oz_zset d k)"
proof -
  obtain sp1 z2 sp' z1' where turn: "zt_get_output zset_trace_ops z1 = Inr (sp1, z2)" "trace_inv n sp1"
      "spine_zset sp1 = spine_zset sp" "untimed_append_node owned sp1 d = ok sp'"
      "\<forall>k. spine_zset sp' k = spine_zset sp k + oz_zset d k"
      "zt_eval_strict_owned unit_ops zset_trace_ops [None] [None] sp' z2 = ok z1'"
      "delay_inv (n + length (oz_contents d)) z1' sp'"
    using delay_turn [OF assms, of owned] by blast
  obtain out where "distinct_incremental_total_eval oz_ops oz_trace_reader d sp1 = ok out" "oz_wf out"
      "\<forall>k. oz_zset out k = set_change (spine_zset sp k) (oz_zset d k)"
    using incremental_eval_ok [OF assms(2) turn(2)] turn(3) by auto
  then show ?thesis using turn by (auto simp: distinct_cycle_def)
qed

text \<open>The changes add up to the set of the accumulated Z-set.\<close>

lemma distinct_cycles_ok:
  assumes "delay_inv n z1 sp" "\<forall>(d, owned) \<in> set inputs. oz_wf d"
    and "n + (\<Sum>(d, owned)\<leftarrow>inputs. length (oz_contents d)) < 2 ^ 29"
  shows "\<exists>outs z1'. distinct_cycles inputs z1 = ok (outs, z1') \<and> length outs = length inputs \<and>
    (\<forall>out \<in> set outs. oz_wf out) \<and>
    (\<forall>m \<le> length inputs. \<forall>k. set_weight (spine_zset sp k) + (\<Sum>out\<leftarrow>take m outs. oz_zset out k) =
       set_weight (spine_zset sp k + (\<Sum>(d, owned)\<leftarrow>take m inputs. oz_zset d k)))"
  using assms
proof (induction inputs arbitrary: n z1 sp)
  case (Cons input inputs)
  obtain d owned where input: "input = (d, owned)" by (cases input)
  obtain out z1' sp' where step: "distinct_cycle (d, owned) z1 = ok (out, z1')" "oz_wf out"
      "\<forall>k. oz_zset out k = set_change (spine_zset sp k) (oz_zset d k)"
      "delay_inv (n + length (oz_contents d)) z1' sp'" "\<forall>k. spine_zset sp' k = spine_zset sp k + oz_zset d k"
    using distinct_cycle_ok [OF Cons.prems(1), of d owned] Cons.prems(2,3) input by auto
  obtain outs z1'' where rest: "distinct_cycles inputs z1' = ok (outs, z1'')" "length outs = length inputs"
      "\<forall>out \<in> set outs. oz_wf out"
      "\<forall>m \<le> length inputs. \<forall>k. set_weight (spine_zset sp' k) + (\<Sum>out\<leftarrow>take m outs. oz_zset out k) =
         set_weight (spine_zset sp' k + (\<Sum>(d, owned)\<leftarrow>take m inputs. oz_zset d k))"
    using Cons.IH [OF step(4)] Cons.prems(2,3) input by (auto simp: add.assoc)
  have "set_weight (spine_zset sp k) + (\<Sum>out\<leftarrow>take m (out # outs). oz_zset out k) =
      set_weight (spine_zset sp k + (\<Sum>(d, owned)\<leftarrow>take m (input # inputs). oz_zset d k))"
    if m: "m \<le> length (input # inputs)" for m k
  proof (cases m)
    case (Suc m')
    then have "set_weight (spine_zset sp' k) + (\<Sum>out\<leftarrow>take m' outs. oz_zset out k) =
        set_weight (spine_zset sp' k + (\<Sum>(d, owned)\<leftarrow>take m' inputs. oz_zset d k))"
      using rest(4) m by simp
    moreover have "oz_zset out k + set_weight (spine_zset sp k) = set_weight (spine_zset sp' k)"
      using step(3,5) by (simp add: set_change_def)
    ultimately show ?thesis using Suc step(5) input by (simp add: add.assoc add.left_commute)
  qed simp
  then show ?case using step(1,2) rest(1-3) input by auto
qed simp

section \<open>Properties\<close>

text \<open>
  C1. The incremental \<^verbatim>\<open>distinct\<close> is correct: for every sequence of changes of fewer than \<open>2 ^ 29\<close> tuples the nodes
  that \<^verbatim>\<open>distinct\<close> adds to a root circuit run without a panic, and after every cycle the outputs so
  far add up to the result of the operator \<^verbatim>\<open>Distinct\<close> on any batch that holds the sum of the changes so far.
\<close>

theorem incremental_distinct_correct:
  fixes inputs :: "(('k::linorder, 'r::linordered_idom) ord_zset \<times> bool) list"
  assumes "\<forall>(d, owned) \<in> set inputs. oz_wf d" "(\<Sum>(d, owned)\<leftarrow>inputs. length (oz_contents d)) < 2 ^ 29"
  shows "\<exists>z1 outs z1'. integrate_trace_start = Inr z1 \<and> distinct_cycles inputs z1 = ok (outs, z1') \<and>
    length outs = length inputs \<and> (\<forall>out \<in> set outs. oz_wf out) \<and>
    (\<forall>m \<le> length inputs. \<forall>z. oz_wf z \<and> (\<forall>k. oz_zset z k = (\<Sum>(d, owned)\<leftarrow>take m inputs. oz_zset d k)) \<longrightarrow>
       (\<exists>full. distinct_eval oz_ops z = ok full \<and> oz_wf full \<and>
          (\<forall>k. oz_zset full k = (\<Sum>out\<leftarrow>take m outs. oz_zset out k))))"
proof -
  obtain z1 :: "('k, 'r) zset_delay" where z1: "integrate_trace_start = Inr z1" "delay_inv 0 z1 (spine_new unit_ops None)"
    using integrate_trace_start_ok by blast
  have zero: "spine_zset (spine_new unit_ops None :: ('k, 'r) zset_trace) k = 0" for k
    by (simp add: spine_zset_def spine_new_def with_effort_def)
  obtain outs z1' where outs: "distinct_cycles inputs z1 = ok (outs, z1')" "length outs = length inputs"
      "\<forall>out \<in> set outs. oz_wf out"
      "\<forall>m \<le> length inputs. \<forall>k. (\<Sum>out\<leftarrow>take m outs. oz_zset out k) =
         set_weight (\<Sum>(d, owned)\<leftarrow>take m inputs. oz_zset d k)"
    using distinct_cycles_ok [OF z1(2) assms(1)] assms(2) by (auto simp: zero set_weight_def)
  have "\<exists>full. distinct_eval oz_ops z = ok full \<and> oz_wf full \<and>
      (\<forall>k. oz_zset full k = (\<Sum>out\<leftarrow>take m outs. oz_zset out k))"
    if "m \<le> length inputs" "oz_wf z" "\<forall>k. oz_zset z k = (\<Sum>(d, owned)\<leftarrow>take m inputs. oz_zset d k)" for m z
    using distinct_eval_ok [OF that(2)] outs(4) that(1,3) by metis
  then show ?thesis using z1(1) outs(1-3) by blast
qed

theorem incremental_distinct_correct_witness:
  "\<exists>z1 outs z1' full. integrate_trace_start = Inr z1 \<and>
     distinct_cycles [(sample_zset, True), (oz_neg sample_zset, False)] z1 = ok (outs, z1') \<and> length outs = 2 \<and>
     distinct_eval oz_ops sample_zset = ok full \<and> (\<forall>k. oz_zset full k = oz_zset (outs ! 0) k)"
proof -
  let ?is = "[(sample_zset, True), (oz_neg sample_zset, False)]"
  have neg: "oz_wf (oz_neg sample_zset)" "length (oz_contents (oz_neg sample_zset)) = 3"
    by (simp_all add: sample_zset_def oz_neg_def cl_neg_def cl_neg_by_ref_def oz_wf_def cl_wf_def oz_contents_def
        cl_visible_def cl_pairs_def cl_ok_def consolidated_def)
  have wf: "\<forall>(d, owned) \<in> set ?is. oz_wf d" using neg(1) sample_zset_wf by simp
  have "(\<Sum>(d, owned)\<leftarrow>?is. length (oz_contents d)) < 2 ^ 29" by (simp add: neg(2) sample_zset_contents)
  from incremental_distinct_correct [OF wf this]
  obtain z1 outs z1' where r: "integrate_trace_start = Inr z1" "distinct_cycles ?is z1 = ok (outs, z1')" "length outs = 2"
      "\<forall>m \<le> 2. \<forall>z. oz_wf z \<and> (\<forall>k. oz_zset z k = (\<Sum>(d, owned)\<leftarrow>take m ?is. oz_zset d k)) \<longrightarrow>
       (\<exists>full. distinct_eval oz_ops z = ok full \<and> oz_wf full \<and>
          (\<forall>k. oz_zset full k = (\<Sum>out\<leftarrow>take m outs. oz_zset out k)))" by auto
  have "take 1 outs = [outs ! 0]" using r(3) by (cases outs) simp_all
  then have "\<exists>full. distinct_eval oz_ops sample_zset = ok full \<and> (\<forall>k. oz_zset full k = oz_zset (outs ! 0) k)"
    using r(4) [rule_format, of 1 sample_zset] sample_zset_wf by auto
  then show ?thesis using r(1-3) by blast
qed

section \<open>The clock of a nested trace\<close>

text \<open>
  The delay of a trace in a nested circuit, over epochs of the child's clock: in every iteration the output half
  gives the trace away, some node makes a new trace of it, and the input half keeps that; at the
  end of the epoch the trace is exported and the clock advances.
\<close>

fun zt_steps ::
  "'t timestamp_ops \<Rightarrow> ('x, 'b, 'k::linorder, 'v::linorder, 't) trace_ops \<Rightarrow> 'k option list \<Rightarrow> 'v option list \<Rightarrow>
   ('x \<Rightarrow> 'x run) list \<Rightarrow> ('x, 'k, 'v, 't) z1_trace \<Rightarrow> ('x, 'k, 'v, 't) z1_trace run" where
  "zt_steps ts to kcells vcells [] z1 = ok z1"
| "zt_steps ts to kcells vcells (f # fs) z1 =
     run_bind (lift_res (zt_get_output to z1)) (\<lambda>(trace, z1).
     run_bind (f trace) (\<lambda>trace.
     run_bind (zt_eval_strict_owned ts to kcells vcells trace z1) (zt_steps ts to kcells vcells fs)))"

fun zt_epochs ::
  "'t timestamp_ops \<Rightarrow> ('x, 'b, 'k::linorder, 'v::linorder, 't) trace_ops \<Rightarrow> 'k option list \<Rightarrow> 'v option list \<Rightarrow>
   ('x \<Rightarrow> 'x run) list list \<Rightarrow> ('x, 'k, 'v, 't) z1_trace \<Rightarrow> ('x, 'k, 'v, 't) z1_trace run" where
  "zt_epochs ts to kcells vcells [] z1 = ok z1"
| "zt_epochs ts to kcells vcells (fs # fss) z1 =
     run_bind (lift_res (zt_clock_start to 0 z1)) (\<lambda>z1.
     run_bind (zt_steps ts to kcells vcells fs z1) (\<lambda>z1.
     run_bind (lift_res (zt_get_final_output to z1)) (\<lambda>(trace, z1).
     run_bind (zt_clock_end ts to 0 z1) (zt_epochs ts to kcells vcells fss))))"

lemma zt_time_frames:
  "zt_clock_start to sc z1 = Inr z1' \<Longrightarrow> zt_time z1' = zt_time z1"
  "zt_get_output to z1 = Inr (tr, z1') \<Longrightarrow> zt_time z1' = zt_time z1"
  "zt_get_final_output to z1 = Inr (tr, z1') \<Longrightarrow> zt_time z1' = zt_time z1"
  "zt_clock_end ts to sc z1 = ok z1' \<Longrightarrow> zt_time z1' = zt_time z1"
  by (auto simp: zt_clock_start_def zt_get_output_def zt_get_final_output_def zt_clock_end_def Let_def
      res_map_eq_Inr run_bind_eq_ok split: if_splits option.splits)

lemma zt_time_step:
  assumes "zt_eval_strict_owned nts_ops to kcells vcells i z1 = ok z1'"
  shows "unat (nts_inner (zt_time z1')) = Suc (unat (nts_inner (zt_time z1)))"
proof -
  have t: "nts_advance (zt_time z1) 0 = Inr (zt_time z1')"
    using assms
    by (cases "zt_dirty z1") (auto simp: zt_eval_strict_owned_def nts_ops_def run_bind_eq_ok Let_def)
  then have ne: "nts_inner (zt_time z1) \<noteq> INNER_MASK" by (auto simp: nts_advance_0)
  then have "nts_inner (zt_time z1') = nts_inner (zt_time z1) + 1"
    using t nts_tick(2) [OF ne] by (auto simp: nts_advance_0)
  then show ?thesis using nts_tick_nonzero [OF ne] unatSuc [of "nts_inner (zt_time z1)"] by (simp add: add.commute)
qed

lemma zt_time_steps:
  assumes "zt_steps nts_ops to kcells vcells fs z1 = ok z1'"
  shows "unat (nts_inner (zt_time z1')) = unat (nts_inner (zt_time z1)) + length fs"
  using assms
  by (induction fs arbitrary: z1) (auto simp: run_bind_eq_ok dest!: zt_time_frames(2) zt_time_step)

lemma zt_time_epochs:
  assumes "zt_epochs nts_ops to kcells vcells fss z1 = ok z1'"
  shows "unat (nts_inner (zt_time z1')) = unat (nts_inner (zt_time z1)) + (\<Sum>fs\<leftarrow>fss. length fs)"
  using assms
  by (induction fss arbitrary: z1)
    (auto simp: run_bind_eq_ok dest!: zt_time_frames(1,3,4) zt_time_steps)

text \<open>
  C32. The delay of a nested trace counts the iterations of all epochs: at the end of an epoch it computes the advanced
  time, whose iteration is zero, and drops it.  After \<open>2 ^ 31 - 1\<close> iterations in total, however few
  there were in any epoch, the next iteration panics with a timestamp overflow.
\<close>

theorem z1_trace_time_never_resets:
  assumes "zt_epochs nts_ops to kcells vcells fss (zt_new nts_ops False 1 bounds) = ok z1"
  shows "unat (nts_inner (zt_time z1)) = (\<Sum>fs\<leftarrow>fss. length fs) \<and>
    ((\<Sum>fs\<leftarrow>fss. length fs) = 2 ^ 31 - 1 \<longrightarrow> zt_eval_strict_owned nts_ops to kcells vcells i z1 =
       Some (Inl (Explicit ''NestedTimestamp32::advance timestamp overflow'')))"
proof -
  have t: "unat (nts_inner (zt_time z1)) = (\<Sum>fs\<leftarrow>fss. length fs)"
    using zt_time_epochs [OF assms] by (simp add: zt_new_def nts_ops_def)
  moreover have "nts_inner (zt_time z1) = INNER_MASK" if "(\<Sum>fs\<leftarrow>fss. length fs) = 2 ^ 31 - 1"
    using t that by (intro unat_u32_eqI) (simp add: INNER_MASK_def)
  ultimately show ?thesis by (simp add: zt_eval_strict_owned_def nts_ops_def nts_advance_0 lift_res_def)
qed

text \<open>A trace that only records whether it changed.\<close>

definition flag_trace_ops :: "(bool, unit, nat, unit, nested_timestamp32) trace_ops" where
  "flag_trace_ops = \<lparr>tr_new = False, tr_insert = (\<lambda>_ _. ok True), tr_dirty = (\<lambda>d. d),
     tr_clear_dirty_flag = (\<lambda>_. False), tr_truncate_keys_below = (\<lambda>_. ok),
     tr_truncate_values_below = (\<lambda>_. ok), tr_recede_to = (\<lambda>_. ok)\<rparr>"

theorem z1_trace_time_never_resets_witness:
  "\<exists>z1. zt_epochs nts_ops flag_trace_ops [None] [None] [[ok, ok], [ok]]
      (zt_new nts_ops False 1 (add_val_bound 0 (add_key_bound 0 trace_bounds_new))) = ok z1 \<and>
    unat (nts_inner (zt_time z1)) = 3"
proof -
  let ?run = "zt_epochs nts_ops flag_trace_ops [None] [None] [[ok, ok], [ok]]
      (zt_new nts_ops False 1 (add_val_bound 0 (add_key_bound 0 trace_bounds_new)))"
  have "(case ?run of Some (Inr z1) \<Rightarrow> True | _ \<Rightarrow> False)"
    unfolding flag_trace_ops_def nts_ops_def by code_simp
  then obtain z1 where z1: "?run = ok z1" by (auto simp: ok_def split: option.splits sum.splits)
  show ?thesis using z1 z1_trace_time_never_resets [OF z1] by simp
qed

end
