(* ===== verification/Incremental_Join.thy ===== *)
theory Incremental_Join
  imports Join Incremental_Distinct
begin

text \<open>
  Joins of Z-sets.  \<^verbatim>\<open>Join\<close> computes the bilinear product of two Z-sets, be they batches or traces, and
  \<^verbatim>\<open>join_incremental\<close>, which adds two such joins in every clock cycle, computes its changes.
\<close>

section \<open>The operator on batches and traces\<close>

interpretation jzz: join_cursors oc_weighted oc_inv "\<lambda>c. oz_groups (cc_total (oc_cursor c))"
  "\<lambda>c. oz_groups (cc_rest (oc_cursor c))" oc_vals
  oc_weighted oc_inv "\<lambda>c. oz_groups (cc_total (oc_cursor c))" "\<lambda>c. oz_groups (cc_rest (oc_cursor c))" oc_vals
  "\<lambda>batch t. ok (batch @ [t])" "(=)"
  by unfold_locales auto

interpretation jtz: join_cursors "sc_weighted oc_weighted" ozw.list_inv ozw.list_total ozw.list_groups ozw.list_vals
  oc_weighted oc_inv "\<lambda>c. oz_groups (cc_total (oc_cursor c))" "\<lambda>c. oz_groups (cc_rest (oc_cursor c))" oc_vals
  "\<lambda>batch t. ok (batch @ [t])" "(=)"
  by unfold_locales auto

interpretation jzt: join_cursors oc_weighted oc_inv "\<lambda>c. oz_groups (cc_total (oc_cursor c))"
  "\<lambda>c. oz_groups (cc_rest (oc_cursor c))" oc_vals
  "sc_weighted oc_weighted" ozw.list_inv ozw.list_total ozw.list_groups ozw.list_vals
  "\<lambda>batch t. ok (batch @ [t])" "(=)"
  by unfold_locales auto

interpretation jmz: join_cursors oc_weighted oc_inv "\<lambda>c. oz_groups (cc_total (oc_cursor c))"
  "\<lambda>c. oz_groups (cc_rest (oc_cursor c))" oc_vals
  oc_weighted oc_inv "\<lambda>c. oz_groups (cc_total (oc_cursor c))" "\<lambda>c. oz_groups (cc_rest (oc_cursor c))" oc_vals
  "\<lambda>builder (key, w). lift_res (bo_push ob_ops builder (oz_item_from key (), w))"
  "\<lambda>(b :: ('i::linorder, 'r::semiring_0) oz_builder) ts. cb_ok (ob_builder b) \<and> cb_pairs (ob_builder b) = ts"
proof (unfold_locales, goal_cases)
  case (1 b ts t)
  then show ?case using ozb.push [of b t] by (cases t) (auto simp: oz_item_from_def)
qed

text \<open>The product of two Z-sets over a finite set of keys, for a function of the keys.\<close>

definition join_on ::
  "'k set \<Rightarrow> ('k \<Rightarrow> unit \<Rightarrow> unit \<Rightarrow> 'i) \<Rightarrow> ('k, 'r::semiring_0) zset \<Rightarrow> ('k, 'r) zset \<Rightarrow> ('i, 'r) zset" where
  "join_on S f A B x = (\<Sum>k\<in>S. if f k () () = x then A k * B k else 0)"

lemma join_on_linear:
  "join_on S f (\<lambda>k. A k + A' k) B x = join_on S f A B x + join_on S f A' B x"
  "join_on S f A (\<lambda>k. B k + B' k) x = join_on S f A B x + join_on S f A B' x"
  by (auto simp: join_on_def distrib_left distrib_right simp flip: sum.distrib intro!: sum.cong)

lemma join_on_zero: "join_on S f (\<lambda>_. 0) B x = 0"
  by (simp add: join_on_def cong: if_cong)

lemma weight_join_vals:
  fixes vs us :: "(unit \<times> ('t \<times> 'r::semiring_0) list) list"
  shows "weight_of (join_vals f k vs us) x = (if f k () () = x then val_weight vs () * val_weight us () else 0)"
proof -
  have "weight_of (map (\<lambda>(u, rs). (f k v u, times_weight ts * times_weight rs)) us) x =
      (if f k () () = x then times_weight ts * val_weight us () else 0)" for v and ts :: "('t \<times> 'r) list"
    by (induction us) (auto simp: val_weight_def distrib_left)
  then show ?thesis by (induction vs) (auto simp: join_vals_def val_weight_def distrib_right)
qed

lemma weight_join_key:
  "weight_of (join_key f hs k vs) x = (if f k () () = x then val_weight vs () * group_weight hs k () else 0)"
  by (induction hs) (auto simp: join_key_def weight_join_vals group_weight_def distrib_left)

lemma weight_join_groups:
  assumes "finite S" "\<And>k. group_weight gs k () \<noteq> 0 \<Longrightarrow> k \<in> S"
  shows "weight_of (join_groups f gs hs) x = join_on S f (\<lambda>k. group_weight gs k ()) (\<lambda>k. group_weight hs k ()) x"
proof -
  have all: "weight_of (join_groups f gs hs) x = join_on T f (\<lambda>k. group_weight gs k ()) (\<lambda>k. group_weight hs k ()) x"
    if "finite T" "fst ` set gs \<subseteq> T" for T
    using that(2)
  proof (induction gs)
    case (Cons g gs)
    obtain k vs where g: "g = (k, vs)" by (cases g)
    have "(\<lambda>k'. group_weight (g # gs) k' ()) = (\<lambda>k'. (if k' = k then val_weight vs () else 0) + group_weight gs k' ())"
      using g by (auto simp: group_weight_def)
    then have "join_on T f (\<lambda>k. group_weight (g # gs) k ()) (\<lambda>k. group_weight hs k ()) x =
        join_on T f (\<lambda>k'. if k' = k then val_weight vs () else 0) (\<lambda>k. group_weight hs k ()) x +
        join_on T f (\<lambda>k. group_weight gs k ()) (\<lambda>k. group_weight hs k ()) x"
      by (simp add: join_on_linear)
    moreover have "join_on T f (\<lambda>k'. if k' = k then val_weight vs () else 0) (\<lambda>k. group_weight hs k ()) x =
        (\<Sum>k'\<in>T. if k' = k then (if f k () () = x then val_weight vs () * group_weight hs k () else 0) else 0)"
      unfolding join_on_def by (intro sum.cong) auto
    ultimately show ?case
      using Cons g \<open>finite T\<close> by (simp add: join_groups_def weight_join_key)
  qed (simp add: join_groups_def join_on_def group_weight_def cong: if_cong)
  have "join_on (S \<union> fst ` set gs) f (\<lambda>k. group_weight gs k ()) (\<lambda>k. group_weight hs k ()) x =
      join_on S f (\<lambda>k. group_weight gs k ()) (\<lambda>k. group_weight hs k ()) x"
    unfolding join_on_def using assms by (intro sum.mono_neutral_right) (auto, metis mult_zero_left)
  then show ?thesis using all [of "S \<union> fst ` set gs"] assms(1) by simp
qed

section \<open>The operator on Z-sets and traces\<close>

lemma group_weight_oz: "group_weight (oz_groups xs) k () = weight_of xs k"
  by (induction xs) (auto simp: oz_groups_def group_weight_def val_weight_def times_weight_def)

lemma fold_len:
  assumes "\<forall>b \<in> set bs. oz_wf b" "n + (\<Sum>b\<leftarrow>bs. length (oz_contents b)) < 2 ^ 64"
  shows "fold_batches_loop (\<lambda>acc b. res_bind (bt_len oz_batch b) (usize_add acc)) n bs =
    Inr (n + (\<Sum>b\<leftarrow>bs. length (oz_contents b)))"
  using assms by (induction bs arbitrary: n) (simp_all add: oz_batch_def oz_batch_len_ok usize_add_def add.assoc)

lemma levels_siz_batches: "(\<Sum>b\<leftarrow>concat (map state_batches (rev ms)). length (oz_contents b)) = ozs.levels_siz ms"
  by (induction ms) (simp_all add: ozs.levels_siz_def ozs.state_siz_def add.commute)

lemma trace_len_ok:
  assumes "trace_inv n sp" "n < 2 ^ 29"
  shows "\<exists>m. rd_len oz_trace_reader sp = Inr m"
proof -
  have "(\<Sum>b\<leftarrow>trace_batches sp. length (oz_contents b)) \<le> n"
    using assms(1) by (simp only: trace_inv_def trace_batches_def levels_siz_batches)
  then show ?thesis
    using fold_len [of "trace_batches sp" 0] trace_batches_wf [OF assms(1)] assms(2)
    by (simp add: oz_trace_reader_def spine_len_def fold_batches_def trace_batches_def)
qed

text \<open>What the operator reads of a batch and of a trace.\<close>

lemma zset_reads:
  assumes "oz_wf z"
  obtains c where "rd_cursor oz_ops z = Inr c" "oc_inv c" "ozw.at_start c" "rd_len oz_ops z = Inr (length (oz_contents z))"
    "(\<lambda>k. group_weight (oz_groups (cc_rest (oc_cursor c))) k ()) = oz_zset z"
  using oz_cursor_start [OF assms] oz_batch_len_ok [OF assms] by (auto simp: oz_ops_def oz_zset_def group_weight_oz)

lemma trace_reads:
  assumes "trace_inv n sp" "n < 2 ^ 29"
  obtains e m where "rd_cursor oz_trace_reader sp = Inr e" "ozw.list_inv e" "ozwt.at_start e"
    "rd_len oz_trace_reader sp = Inr m" "(\<lambda>k. group_weight (ozw.list_groups e) k ()) = spine_zset sp"
  using trace_reader_ok [OF assms(1)] trace_len_ok [OF assms] by (auto simp: group_weight_trace)

text \<open>The vector of products is sorted and consolidated into the output batch.\<close>

lemma join_eval_weights:
  assumes "unstable_sort sort_by" "\<And>n. n \<le> alloc n"
    and "rd_cursor r1 i1 = Inr c" "rd_cursor r2 i2 = Inr e" "rd_len r1 i1 = Inr n1" "rd_len r2 i2 = Inr n2"
    and "\<exists>ts. join_loop (rd_cursor_ops r1) (rd_cursor_ops r2) f (\<lambda>batch t. ok (batch @ [t])) c e [] = ok ts \<and>
      ts = [] @ join_groups f gs hs"
    and "finite S" "\<And>k. group_weight gs k () \<noteq> 0 \<Longrightarrow> k \<in> S"
  shows "\<exists>out. join_eval r1 r2 vec_cap (oz_from_keys sort_by alloc sz ()) f i1 i2 = ok out \<and> oz_wf out \<and>
    oz_zset out = join_on S f (\<lambda>k. group_weight gs k ()) (\<lambda>k. group_weight hs k ())"
  using assms(3-7) weight_join_groups [OF assms(8,9), where f = f and hs = hs]
    from_tuples_refines_zset [OF assms(1,2), of sz
      "\<lparr>buf_items = join_groups f gs hs, buf_cap = vec_cap (min n1 n2) (length (join_groups f gs hs))\<rparr>"]
  by (auto simp: join_eval_def oz_from_keys_def fun_eq_iff)

lemma join_batches_ok:
  fixes f :: "'k::linorder \<Rightarrow> unit \<Rightarrow> unit \<Rightarrow> 'i::linorder" and a b :: "('k, 'r::semiring_0) ord_zset"
  assumes "unstable_sort (sort_by :: ('i \<times> 'r) list \<Rightarrow> _)" "\<And>n. n \<le> alloc n" "finite S"
    and "oz_wf a" "oz_wf b" "\<And>k. oz_zset a k \<noteq> 0 \<Longrightarrow> k \<in> S"
  shows "\<exists>out. join_eval oz_ops oz_ops vec_cap (oz_from_keys sort_by alloc sz ()) f a b = ok out \<and> oz_wf out \<and>
    oz_zset out = join_on S f (oz_zset a) (oz_zset b)"
proof -
  obtain c where c: "rd_cursor oz_ops a = Inr c" "oc_inv c" "ozw.at_start c" "rd_len oz_ops a = Inr (length (oz_contents a))"
      "(\<lambda>k. group_weight (oz_groups (cc_rest (oc_cursor c))) k ()) = oz_zset a" using zset_reads [OF assms(4)] by blast
  obtain e where e: "rd_cursor oz_ops b = Inr e" "oc_inv e" "ozw.at_start e" "rd_len oz_ops b = Inr (length (oz_contents b))"
      "(\<lambda>k. group_weight (oz_groups (cc_rest (oc_cursor e))) k ()) = oz_zset b" using zset_reads [OF assms(5)] by blast
  show ?thesis
    using join_eval_weights [OF assms(1,2) c(1) e(1) c(4) e(4) _ assms(3), of f "oz_groups (cc_rest (oc_cursor c))" "oz_groups (cc_rest (oc_cursor e))"]
      jzz.loop_ok [OF c(2,3) e(2,3), of "[]" "[]" f] assms(6) c(5) e(5) by (simp add: fun_eq_iff)
qed

lemma join_trace_batch_ok:
  fixes f :: "'k::linorder \<Rightarrow> unit \<Rightarrow> unit \<Rightarrow> 'i::linorder" and b :: "('k, 'r::semiring_0) ord_zset" and sp :: "('k, 'r) zset_trace"
  assumes "unstable_sort (sort_by :: ('i \<times> 'r) list \<Rightarrow> _)" "\<And>n. n \<le> alloc n" "finite S"
    and "trace_inv n sp" "n < 2 ^ 29" "oz_wf b" "\<And>k. spine_zset sp k \<noteq> 0 \<Longrightarrow> k \<in> S"
  shows "\<exists>out. join_eval oz_trace_reader oz_ops vec_cap (oz_from_keys sort_by alloc sz ()) f sp b = ok out \<and> oz_wf out \<and>
    oz_zset out = join_on S f (spine_zset sp) (oz_zset b)"
proof -
  obtain c m where c: "rd_cursor oz_trace_reader sp = Inr c" "ozw.list_inv c" "ozwt.at_start c" "rd_len oz_trace_reader sp = Inr m"
      "(\<lambda>k. group_weight (ozw.list_groups c) k ()) = spine_zset sp" using trace_reads [OF assms(4,5)] by blast
  obtain e where e: "rd_cursor oz_ops b = Inr e" "oc_inv e" "ozw.at_start e" "rd_len oz_ops b = Inr (length (oz_contents b))"
      "(\<lambda>k. group_weight (oz_groups (cc_rest (oc_cursor e))) k ()) = oz_zset b" using zset_reads [OF assms(6)] by blast
  show ?thesis
    using join_eval_weights [OF assms(1,2) c(1) e(1) c(4) e(4) _ assms(3), of f "ozw.list_groups c" "oz_groups (cc_rest (oc_cursor e))"]
      jtz.loop_ok [OF c(2,3) e(2,3), of "[]" "[]" f] assms(7) c(5) e(5) by (simp add: fun_eq_iff)
qed

lemma join_batch_trace_ok:
  fixes f :: "'k::linorder \<Rightarrow> unit \<Rightarrow> unit \<Rightarrow> 'i::linorder" and a :: "('k, 'r::semiring_0) ord_zset" and sp :: "('k, 'r) zset_trace"
  assumes "unstable_sort (sort_by :: ('i \<times> 'r) list \<Rightarrow> _)" "\<And>n. n \<le> alloc n" "finite S"
    and "oz_wf a" "trace_inv n sp" "n < 2 ^ 29" "\<And>k. oz_zset a k \<noteq> 0 \<Longrightarrow> k \<in> S"
  shows "\<exists>out. join_eval oz_ops oz_trace_reader vec_cap (oz_from_keys sort_by alloc sz ()) f a sp = ok out \<and> oz_wf out \<and>
    oz_zset out = join_on S f (oz_zset a) (spine_zset sp)"
proof -
  obtain c where c: "rd_cursor oz_ops a = Inr c" "oc_inv c" "ozw.at_start c" "rd_len oz_ops a = Inr (length (oz_contents a))"
      "(\<lambda>k. group_weight (oz_groups (cc_rest (oc_cursor c))) k ()) = oz_zset a" using zset_reads [OF assms(4)] by blast
  obtain e m where e: "rd_cursor oz_trace_reader sp = Inr e" "ozw.list_inv e" "ozwt.at_start e" "rd_len oz_trace_reader sp = Inr m"
      "(\<lambda>k. group_weight (ozw.list_groups e) k ()) = spine_zset sp" using trace_reads [OF assms(5,6)] by blast
  show ?thesis
    using join_eval_weights [OF assms(1,2) c(1) e(1) c(4) e(4) _ assms(3), of f "oz_groups (cc_rest (oc_cursor c))" "ozw.list_groups e"]
      jzt.loop_ok [OF c(2,3) e(2,3), of "[]" "[]" f] assms(7) c(5) e(5) by (simp add: fun_eq_iff)
qed

section \<open>The incremental join\<close>

text \<open>
  The nodes that \<^verbatim>\<open>join_incremental\<close> adds to the root circuit, evaluated once, for two different input
  streams: the join of the delayed trace of the left stream with the right change, before the append takes the
  trace; the join of the left change with the trace of the right stream, after the append and before
  the delay takes it; and the sum of both, whose inputs have no other consumer, so that \<^verbatim>\<open>Plus\<close> owns them.
  The flags say whether the appended batches are owned or borrowed.
\<close>

definition join_cycle ::
  "(nat \<Rightarrow> nat \<Rightarrow> nat) \<Rightarrow> (('i \<times> 'r) buf \<Rightarrow> ('i, 'r) ord_zset run) \<Rightarrow> ('k \<Rightarrow> unit \<Rightarrow> unit \<Rightarrow> 'i) \<Rightarrow>
   (('k::linorder, 'r::semiring_0) ord_zset \<times> bool) \<times> (('k, 'r) ord_zset \<times> bool) \<Rightarrow>
   ('k, 'r) zset_delay \<times> ('k, 'r) zset_delay \<Rightarrow>
   (('i::linorder, 'r) ord_zset \<times> ('k, 'r) zset_delay \<times> ('k, 'r) zset_delay) run" where
  "join_cycle vec_cap from_keys join_func input z1s =
     (let ((left, owned1), (right, owned2)) = input; (z1, z2) = z1s in
      run_bind (lift_res (zt_get_output zset_trace_ops z1)) (\<lambda>(trace1, z1).
      run_bind (lift_res (zt_get_output zset_trace_ops z2)) (\<lambda>(trace2, z2).
      run_bind (join_eval oz_trace_reader oz_ops vec_cap from_keys join_func trace1 right) (\<lambda>out1.
      run_bind (untimed_append_node owned1 trace1 left) (\<lambda>trace1.
      run_bind (untimed_append_node owned2 trace2 right) (\<lambda>trace2.
      run_bind (join_eval oz_ops oz_trace_reader vec_cap from_keys join_func left trace2) (\<lambda>out2.
      run_bind (zt_eval_strict_owned unit_ops zset_trace_ops [None] [None] trace1 z1) (\<lambda>z1.
      run_bind (zt_eval_strict_owned unit_ops zset_trace_ops [None] [None] trace2 z2) (\<lambda>z2.
      run_bind (oz_add out1 out2) (\<lambda>out. ok (out, z1, z2)))))))))))"

fun join_cycles ::
  "(nat \<Rightarrow> nat \<Rightarrow> nat) \<Rightarrow> (('i \<times> 'r) buf \<Rightarrow> ('i, 'r) ord_zset run) \<Rightarrow> ('k \<Rightarrow> unit \<Rightarrow> unit \<Rightarrow> 'i) \<Rightarrow>
   ((('k::linorder, 'r::semiring_0) ord_zset \<times> bool) \<times> (('k, 'r) ord_zset \<times> bool)) list \<Rightarrow>
   ('k, 'r) zset_delay \<times> ('k, 'r) zset_delay \<Rightarrow>
   (('i::linorder, 'r) ord_zset list \<times> ('k, 'r) zset_delay \<times> ('k, 'r) zset_delay) run" where
  "join_cycles vec_cap from_keys join_func [] z1s = ok ([], z1s)"
| "join_cycles vec_cap from_keys join_func (input # inputs) z1s =
     run_bind (join_cycle vec_cap from_keys join_func input z1s) (\<lambda>(out, z1s).
     run_bind (join_cycles vec_cap from_keys join_func inputs z1s) (\<lambda>(outs, z1s). ok (out # outs, z1s)))"

text \<open>A cycle returns the change of the product.\<close>

lemma join_cycle_ok:
  fixes f :: "'k::linorder \<Rightarrow> unit \<Rightarrow> unit \<Rightarrow> 'i::linorder" and a b :: "('k, 'r::semiring_0) ord_zset"
  assumes "unstable_sort (sort_by :: ('i \<times> 'r) list \<Rightarrow> _)" "\<And>n. n \<le> alloc n" "finite S"
    and inv: "delay_inv n z1 sp1" "delay_inv m z2 sp2" and wf: "oz_wf a" "oz_wf b"
    and n: "n + length (oz_contents a) < 2 ^ 29" "m + length (oz_contents b) < 2 ^ 29"
    and S: "\<And>k. spine_zset sp1 k \<noteq> 0 \<Longrightarrow> k \<in> S" "\<And>k. oz_zset a k \<noteq> 0 \<Longrightarrow> k \<in> S"
  shows "\<exists>out z1' z2' sp1' sp2'. join_cycle vec_cap (oz_from_keys sort_by alloc sz ()) f ((a, p), (b, q)) (z1, z2) =
      ok (out, z1', z2') \<and> oz_wf out \<and>
    delay_inv (n + length (oz_contents a)) z1' sp1' \<and> delay_inv (m + length (oz_contents b)) z2' sp2' \<and>
    (\<forall>k. spine_zset sp1' k = spine_zset sp1 k + oz_zset a k) \<and> (\<forall>k. spine_zset sp2' k = spine_zset sp2 k + oz_zset b k) \<and>
    (\<forall>x. join_on S f (spine_zset sp1) (spine_zset sp2) x + oz_zset out x = join_on S f (spine_zset sp1') (spine_zset sp2') x)"
proof -
  obtain t1 y1 sp1' z1' where t1: "zt_get_output zset_trace_ops z1 = Inr (t1, y1)" "trace_inv n t1"
      "spine_zset t1 = spine_zset sp1" "untimed_append_node p t1 a = ok sp1'"
      "\<forall>k. spine_zset sp1' k = spine_zset sp1 k + oz_zset a k"
      "zt_eval_strict_owned unit_ops zset_trace_ops [None] [None] sp1' y1 = ok z1'"
      "delay_inv (n + length (oz_contents a)) z1' sp1'" using delay_turn [OF inv(1) wf(1) n(1), of p] by blast
  obtain t2 y2 sp2' z2' where t2: "zt_get_output zset_trace_ops z2 = Inr (t2, y2)" "untimed_append_node q t2 b = ok sp2'"
      "trace_inv (m + length (oz_contents b)) sp2'" "\<forall>k. spine_zset sp2' k = spine_zset sp2 k + oz_zset b k"
      "zt_eval_strict_owned unit_ops zset_trace_ops [None] [None] sp2' y2 = ok z2'"
      "delay_inv (m + length (oz_contents b)) z2' sp2'" using delay_turn [OF inv(2) wf(2) n(2), of q] by blast
  let ?fk = "oz_from_keys sort_by alloc sz ()"
  obtain out1 where o1: "join_eval oz_trace_reader oz_ops vec_cap ?fk f t1 b = ok out1" "oz_wf out1"
      "oz_zset out1 = join_on S f (spine_zset sp1) (oz_zset b)"
    using join_trace_batch_ok [OF assms(1-3) t1(2) _ wf(2), where f = f and vec_cap = vec_cap and sz = sz] n(1) S(1) t1(3) by auto
  obtain out2 where o2: "join_eval oz_ops oz_trace_reader vec_cap ?fk f a sp2' = ok out2" "oz_wf out2"
      "oz_zset out2 = join_on S f (oz_zset a) (spine_zset sp2')"
    using join_batch_trace_ok [OF assms(1-3) wf(1) t2(3) n(2), where f = f and vec_cap = vec_cap and sz = sz] S(2) by auto
  obtain out where out: "oz_add out1 out2 = ok out" "oz_wf out" "oz_zset out x = oz_zset out1 x + oz_zset out2 x" for x
    using oz_add_ok [OF o1(2) o2(2), of oz_add] by (auto simp: oz_zset_def weight_of_merge)
  have new: "spine_zset sp1' = (\<lambda>k. spine_zset sp1 k + oz_zset a k)" "spine_zset sp2' = (\<lambda>k. spine_zset sp2 k + oz_zset b k)"
    using t1(5) t2(4) by auto
  have "join_on S f (spine_zset sp1) (spine_zset sp2) x + oz_zset out x = join_on S f (spine_zset sp1') (spine_zset sp2') x" for x
    unfolding out(3) o1(3) o2(3) new by (simp add: join_on_linear add.assoc)
  then show ?thesis using t1 t2 o1(1) o2(1) out(1,2) by (auto simp: join_cycle_def)
qed

text \<open>The changes of the two sides, over an input of a cycle.\<close>

abbreviation left_change :: "('x \<times> bool) \<times> ('y \<times> bool) \<Rightarrow> 'x" where "left_change i \<equiv> fst (fst i)"
abbreviation right_change :: "('x \<times> bool) \<times> ('y \<times> bool) \<Rightarrow> 'y" where "right_change i \<equiv> fst (snd i)"

lemma join_cycles_ok:
  fixes f :: "'k::linorder \<Rightarrow> unit \<Rightarrow> unit \<Rightarrow> 'i::linorder"
    and inputs :: "((('k, 'r::semiring_0) ord_zset \<times> bool) \<times> (('k, 'r) ord_zset \<times> bool)) list"
  assumes sort: "unstable_sort (sort_by :: ('i \<times> 'r) list \<Rightarrow> _)" "\<And>n. n \<le> alloc n" "finite S"
    and "delay_inv n z1 sp1" "delay_inv m z2 sp2" "\<And>k. spine_zset sp1 k \<noteq> 0 \<Longrightarrow> k \<in> S"
    and "\<forall>i \<in> set inputs. oz_wf (left_change i) \<and> oz_wf (right_change i) \<and> (\<forall>k. oz_zset (left_change i) k \<noteq> 0 \<longrightarrow> k \<in> S)"
    and "n + (\<Sum>i\<leftarrow>inputs. length (oz_contents (left_change i))) < 2 ^ 29"
    and "m + (\<Sum>i\<leftarrow>inputs. length (oz_contents (right_change i))) < 2 ^ 29"
  shows "\<exists>outs z1s'. join_cycles vec_cap (oz_from_keys sort_by alloc sz ()) f inputs (z1, z2) = ok (outs, z1s') \<and>
    length outs = length inputs \<and> (\<forall>out \<in> set outs. oz_wf out) \<and>
    (\<forall>l \<le> length inputs. \<forall>x. join_on S f (spine_zset sp1) (spine_zset sp2) x + (\<Sum>out\<leftarrow>take l outs. oz_zset out x) =
       join_on S f (\<lambda>k. spine_zset sp1 k + (\<Sum>i\<leftarrow>take l inputs. oz_zset (left_change i) k))
         (\<lambda>k. spine_zset sp2 k + (\<Sum>i\<leftarrow>take l inputs. oz_zset (right_change i) k)) x)"
  using assms(4-)
proof (induction inputs arbitrary: n m z1 z2 sp1 sp2)
  case (Cons input inputs)
  obtain a o1 b o2 where input: "input = ((a, o1), (b, o2))" by (metis prod.exhaust)
  obtain out z1' z2' sp1' sp2' where step:
      "join_cycle vec_cap (oz_from_keys sort_by alloc sz ()) f ((a, o1), (b, o2)) (z1, z2) = ok (out, z1', z2')" "oz_wf out"
      "delay_inv (n + length (oz_contents a)) z1' sp1'" "delay_inv (m + length (oz_contents b)) z2' sp2'"
      "\<forall>k. spine_zset sp1' k = spine_zset sp1 k + oz_zset a k" "\<forall>k. spine_zset sp2' k = spine_zset sp2 k + oz_zset b k"
      "\<forall>x. join_on S f (spine_zset sp1) (spine_zset sp2) x + oz_zset out x = join_on S f (spine_zset sp1') (spine_zset sp2') x"
    using join_cycle_ok [OF sort Cons.prems(1,2), of a b, where f = f and vec_cap = vec_cap and sz = sz and p = o1 and q = o2] Cons.prems(3-6) input by auto
  have "k \<in> S" if "spine_zset sp1' k \<noteq> 0" for k
    using that step(5) Cons.prems(3,4) input by (cases "spine_zset sp1 k = 0") auto
  then obtain outs z1s' where rest: "join_cycles vec_cap (oz_from_keys sort_by alloc sz ()) f inputs (z1', z2') = ok (outs, z1s')"
      "length outs = length inputs" "\<forall>out \<in> set outs. oz_wf out"
      "\<forall>l \<le> length inputs. \<forall>x. join_on S f (spine_zset sp1') (spine_zset sp2') x + (\<Sum>out\<leftarrow>take l outs. oz_zset out x) =
         join_on S f (\<lambda>k. spine_zset sp1' k + (\<Sum>i\<leftarrow>take l inputs. oz_zset (left_change i) k))
           (\<lambda>k. spine_zset sp2' k + (\<Sum>i\<leftarrow>take l inputs. oz_zset (right_change i) k)) x"
    using Cons.IH [OF step(3,4)] Cons.prems(4-6) input by (auto simp: add.assoc)
  have "join_on S f (spine_zset sp1) (spine_zset sp2) x + (\<Sum>out\<leftarrow>take l (out # outs). oz_zset out x) =
      join_on S f (\<lambda>k. spine_zset sp1 k + (\<Sum>i\<leftarrow>take l (input # inputs). oz_zset (left_change i) k))
         (\<lambda>k. spine_zset sp2 k + (\<Sum>i\<leftarrow>take l (input # inputs). oz_zset (right_change i) k)) x"
    if l: "l \<le> length (input # inputs)" for l x
  proof (cases l)
    case (Suc l')
    then show ?thesis
      using rest(4) [rule_format, of l' x] l step(5,6) step(7) [rule_format, of x, symmetric] input by (simp add: add.assoc)
  qed simp
  then show ?case using step(1,2) rest(1-3) input by auto
qed simp

section \<open>Properties\<close>

lemma weight_nonzero: "oz_zset z k \<noteq> 0 \<Longrightarrow> k \<in> fst ` set (oz_contents z)"
  unfolding oz_zset_def using weight_of_notin by metis

lemma sum_changes_support:
  assumes "(\<Sum>i\<leftarrow>take m inputs. oz_zset (left_change i) k) \<noteq> 0"
  shows "\<exists>i \<in> set inputs. k \<in> fst ` set (oz_contents (left_change i))"
proof (rule ccontr)
  assume "\<not> ?thesis"
  then have "\<forall>i \<in> set (take m inputs). oz_zset (left_change i) k = 0" using weight_nonzero in_set_takeD by fastforce
  then have "map (\<lambda>i. oz_zset (left_change i) k) (take m inputs) = map (\<lambda>i. 0) (take m inputs)" by (intro map_cong) auto
  then show False using assms by (simp only: sum_list_0) simp
qed

text \<open>
  C2. The incremental join is correct: for all sequences of changes of the two sides of fewer than \<open>2 ^ 29\<close> tuples each,
  the nodes that \<^verbatim>\<open>join_incremental\<close> adds to a root circuit run without a panic, and after every cycle the
  outputs so far add up to the result of the operator \<^verbatim>\<open>Join\<close> on any two batches that hold the sums of the
  changes so far, for every join function, which need be neither injective nor monotone.
\<close>

theorem incremental_join_correct:
  fixes f :: "'k::linorder \<Rightarrow> unit \<Rightarrow> unit \<Rightarrow> 'i::linorder"
    and inputs :: "((('k, 'r::semiring_0) ord_zset \<times> bool) \<times> (('k, 'r) ord_zset \<times> bool)) list"
  assumes "unstable_sort (sort_by :: ('i \<times> 'r) list \<Rightarrow> _)" "\<And>n. n \<le> alloc n"
    and "\<forall>i \<in> set inputs. oz_wf (left_change i) \<and> oz_wf (right_change i)"
    and "(\<Sum>i\<leftarrow>inputs. length (oz_contents (left_change i))) < 2 ^ 29"
    and "(\<Sum>i\<leftarrow>inputs. length (oz_contents (right_change i))) < 2 ^ 29"
  shows "\<exists>z1 z2 outs z1s'. integrate_trace_start = Inr z1 \<and> integrate_trace_start = Inr z2 \<and>
    join_cycles vec_cap (oz_from_keys sort_by alloc sz ()) f inputs (z1, z2) = ok (outs, z1s') \<and>
    length outs = length inputs \<and> (\<forall>out \<in> set outs. oz_wf out) \<and>
    (\<forall>m \<le> length inputs. \<forall>a b. oz_wf a \<and> oz_wf b \<and>
       (\<forall>k. oz_zset a k = (\<Sum>i\<leftarrow>take m inputs. oz_zset (left_change i) k)) \<and>
       (\<forall>k. oz_zset b k = (\<Sum>i\<leftarrow>take m inputs. oz_zset (right_change i) k)) \<longrightarrow>
       (\<exists>full. join_eval oz_ops oz_ops vec_cap (oz_from_keys sort_by alloc sz ()) f a b = ok full \<and> oz_wf full \<and>
          (\<forall>x. oz_zset full x = (\<Sum>out\<leftarrow>take m outs. oz_zset out x))))"
proof -
  let ?S = "\<Union>i \<in> set inputs. fst ` set (oz_contents (left_change i))"
  let ?fk = "oz_from_keys sort_by alloc sz ()"
  obtain z1 :: "('k, 'r) zset_delay" where z1: "integrate_trace_start = Inr z1" "delay_inv 0 z1 (spine_new unit_ops None)"
    using integrate_trace_start_ok by blast
  have S: "finite ?S" by auto
  have inS: "\<forall>i \<in> set inputs. oz_wf (left_change i) \<and> oz_wf (right_change i) \<and> (\<forall>k. oz_zset (left_change i) k \<noteq> 0 \<longrightarrow> k \<in> ?S)"
    using assms(3) weight_nonzero by fastforce
  have empty: "spine_zset (spine_new unit_ops None :: ('k, 'r) zset_trace) = (\<lambda>_. 0)"
    by (simp add: spine_zset_def [abs_def] spine_new_def with_effort_def)
  obtain outs z1s' where outs: "join_cycles vec_cap ?fk f inputs (z1, z1) = ok (outs, z1s')"
      "length outs = length inputs" "\<forall>out \<in> set outs. oz_wf out"
      "\<forall>l \<le> length inputs. \<forall>x. (\<Sum>out\<leftarrow>take l outs. oz_zset out x) =
         join_on ?S f (\<lambda>k. \<Sum>i\<leftarrow>take l inputs. oz_zset (left_change i) k) (\<lambda>k. \<Sum>i\<leftarrow>take l inputs. oz_zset (right_change i) k) x"
    using join_cycles_ok [OF assms(1,2) S z1(2) z1(2) _ inS, where f = f and vec_cap = vec_cap and sz = sz] assms(4,5) by (auto simp: empty join_on_zero)
  have "\<exists>full. join_eval oz_ops oz_ops vec_cap ?fk f a b = ok full \<and> oz_wf full \<and>
      (\<forall>x. oz_zset full x = (\<Sum>out\<leftarrow>take m outs. oz_zset out x))"
    if m: "m \<le> length inputs" "oz_wf a" "oz_wf b" and ab: "\<forall>k. oz_zset a k = (\<Sum>i\<leftarrow>take m inputs. oz_zset (left_change i) k)"
      "\<forall>k. oz_zset b k = (\<Sum>i\<leftarrow>take m inputs. oz_zset (right_change i) k)" for m a b
  proof -
    have "oz_zset a = (\<lambda>k. \<Sum>i\<leftarrow>take m inputs. oz_zset (left_change i) k)"
      "oz_zset b = (\<lambda>k. \<Sum>i\<leftarrow>take m inputs. oz_zset (right_change i) k)" using ab by auto
    then show ?thesis
      using join_batches_ok [OF assms(1,2) S m(2,3), where f = f and vec_cap = vec_cap and sz = sz] outs(4) m(1)
        sum_changes_support [where m = m and inputs = inputs] by auto
  qed
  then show ?thesis using z1(1) outs(1-3) by blast
qed

theorem incremental_join_correct_witness:
  "\<exists>z1 z2 outs z1s' full. integrate_trace_start = Inr z1 \<and> integrate_trace_start = Inr z2 \<and>
     join_cycles max (oz_from_keys (sort_key fst) (\<lambda>n. n) 16 ()) (\<lambda>k _ _. k mod 2)
       [((sample_zset, True), (sample_zset, False)), ((sample_zset, False), (sample_zset, True))] (z1, z2) = ok (outs, z1s') \<and>
     length outs = 2 \<and>
     join_eval oz_ops oz_ops max (oz_from_keys (sort_key fst) (\<lambda>n. n) 16 ()) (\<lambda>k _ _. k mod 2) sample_zset sample_zset = ok full \<and>
     (\<forall>x. oz_zset full x = oz_zset (outs ! 0) x)"
proof -
  let ?is = "[((sample_zset, True), (sample_zset, False)), ((sample_zset, False), (sample_zset, True))]"
  let ?fk = "oz_from_keys (sort_key fst) (\<lambda>n. n) 16 () :: (nat \<times> int) buf \<Rightarrow> _"
  let ?f = "\<lambda>k _ _. k mod 2 :: nat"
  have wf: "\<forall>i \<in> set ?is. oz_wf (left_change i) \<and> oz_wf (right_change i)" using sample_zset_wf by simp
  have "(\<Sum>i\<leftarrow>?is. length (oz_contents (left_change i))) < 2 ^ 29"
    "(\<Sum>i\<leftarrow>?is. length (oz_contents (right_change i))) < 2 ^ 29" by (simp_all add: sample_zset_contents)
  from incremental_join_correct [OF std_sort.unstable_sort_axioms _ wf this, of "\<lambda>n. n" max 16 ?f]
  obtain z1 z2 outs z1s' where r: "integrate_trace_start = Inr z1" "integrate_trace_start = Inr z2"
      "join_cycles max ?fk ?f ?is (z1, z2) = ok (outs, z1s')" "length outs = 2"
      "\<forall>m \<le> 2. \<forall>a b. oz_wf a \<and> oz_wf b \<and>
         (\<forall>k. oz_zset a k = (\<Sum>i\<leftarrow>take m ?is. oz_zset (left_change i) k)) \<and>
         (\<forall>k. oz_zset b k = (\<Sum>i\<leftarrow>take m ?is. oz_zset (right_change i) k)) \<longrightarrow>
         (\<exists>full. join_eval oz_ops oz_ops max ?fk ?f a b = ok full \<and> oz_wf full \<and>
            (\<forall>x. oz_zset full x = (\<Sum>out\<leftarrow>take m outs. oz_zset out x)))" by auto
  have "take 1 outs = [outs ! 0]" using r(4) by (cases outs) simp_all
  then have "\<exists>full. join_eval oz_ops oz_ops max ?fk ?f sample_zset sample_zset = ok full \<and>
      (\<forall>x. oz_zset full x = oz_zset (outs ! 0) x)"
    using r(5) [rule_format, of 1 sample_zset sample_zset] sample_zset_wf by auto
  then show ?thesis using r(1-4) by blast
qed

section \<open>The monotonic join\<close>

lemma join_key_oz:
  assumes "consolidated ys"
  shows "join_key f (oz_groups ys) k [((), [((), w)])] =
    (if weight_of ys k = 0 then [] else [(f k () (), w * weight_of ys k)])"
  using assms
proof (induction ys)
  case (Cons y ys)
  obtain k' w' where y: "y = (k', w')" by (cases y)
  have above: "\<forall>z \<in> set ys. k' < fst z" and nz: "w' \<noteq> 0"
    and IH: "join_key f (oz_groups ys) k [((), [((), w)])] = (if weight_of ys k = 0 then [] else [(f k () (), w * weight_of ys k)])"
    using Cons y by (simp_all add: consolidated_Cons)
  have "weight_of ys k = 0" if "k' = k" using above that weight_of_notin [of k ys] by force
  then show ?case using IH nz y by (auto simp: join_key_def oz_groups_def join_vals_def times_weight_def)
qed (simp add: join_key_def oz_groups_def)

lemma join_groups_oz:
  assumes "consolidated ys"
  shows "join_groups f (oz_groups xs) (oz_groups ys) =
    map (\<lambda>(k, w). (f k () (), w * weight_of ys k)) (filter (\<lambda>(k, w). weight_of ys k \<noteq> 0) xs)"
proof (induction xs)
  case (Cons x xs)
  then show ?case using join_key_oz [OF assms, of f "fst x" "snd x"]
    by (cases x) (simp add: join_groups_def oz_groups_def)
qed (simp add: join_groups_def oz_groups_def)

lemma join_groups_consolidated:
  fixes xs ys :: "('k::linorder \<times> 'r::semiring_no_zero_divisors) list"
  assumes "consolidated xs" "consolidated ys" "\<And>k k'. k < k' \<Longrightarrow> f k () () < (f k' () () :: 'i::linorder)"
  shows "consolidated (join_groups f (oz_groups xs) (oz_groups ys))"
  unfolding join_groups_oz [OF assms(2)] using assms(1)
  by (induction xs) (force simp: consolidated_Cons intro!: assms(3))+

text \<open>
  C18. \<^verbatim>\<open>MonotonicJoin\<close>, which pushes the products straight to the builder of the output, returns the batch that \<^verbatim>\<open>Join\<close>
  builds by sorting and consolidating them, whenever the join function is strictly increasing in the key
  and the weights have no zero divisors.
\<close>

theorem monotonic_join_as_join:
  fixes f :: "'k::linorder \<Rightarrow> unit \<Rightarrow> unit \<Rightarrow> 'i::linorder" and a b :: "('k, 'r::semiring_no_zero_divisors) ord_zset"
  assumes "unstable_sort (sort_by :: ('i \<times> 'r) list \<Rightarrow> _)" "\<And>n. n \<le> alloc n" "oz_wf a" "oz_wf b"
    and "\<And>k k'. k < k' \<Longrightarrow> f k () () < f k' () ()"
  shows "\<exists>out out'. join_eval oz_ops oz_ops vec_cap (oz_from_keys sort_by alloc sz ()) f a b = ok out \<and>
    monotonic_join_eval oz_ops oz_ops oz_ops f a b = ok out' \<and> oz_wf out' \<and> oz_contents out' = oz_contents out"
proof -
  obtain c where c: "oz_cursor a = Inr c" "oc_inv c" "ozw.at_start c" "cc_rest (oc_cursor c) = oz_contents a"
    using oz_cursor_start [OF assms(3)] by blast
  obtain e where e: "oz_cursor b = Inr e" "oc_inv e" "ozw.at_start e" "cc_rest (oc_cursor e) = oz_contents b"
    using oz_cursor_start [OF assms(4)] by blast
  note len = oz_batch_len_ok [OF assms(3)] oz_batch_len_ok [OF assms(4)]
  let ?ts = "join_groups f (oz_groups (oz_contents a)) (oz_groups (oz_contents b))"
  have cons: "consolidated ?ts"
    using join_groups_consolidated [OF oz_consolidated [OF assms(3)] oz_consolidated [OF assms(4)], of f] assms(5) by blast
  let ?b = "bo_with_capacity ob_ops () (min (length (oz_contents a)) (length (oz_contents b))) :: ('i, 'r) oz_builder"
  obtain b' where b': "join_loop oc_weighted oc_weighted f (\<lambda>builder (key, w). lift_res (bo_push ob_ops builder (oz_item_from key (), w))) c e ?b = ok b'"
      "cb_ok (ob_builder b')" "cb_pairs (ob_builder b') = ?ts"
    using jmz.loop_ok [OF c(2,3) e(2,3), of ?b "[]" f] ozb.with_capacity [of "()" "min (length (oz_contents a)) (length (oz_contents b))"]
    by (auto simp: c(4) e(4))
  then obtain out' where out': "bo_done ob_ops b' = Inr out'" "oz_wf out'" "oz_contents out' = ?ts"
    using ozb.finish [OF b'(2)] cons by auto
  obtain out where out: "join_eval oz_ops oz_ops vec_cap (oz_from_keys sort_by alloc sz ()) f a b = ok out" "oz_wf out"
      "oz_zset out = weight_of ?ts"
    using jzz.loop_ok [OF c(2,3) e(2,3), of "[]" "[]" f] c e len
      from_tuples_refines_zset [OF assms(1,2), of sz
        "\<lparr>buf_items = ?ts, buf_cap = vec_cap (min (length (oz_contents a)) (length (oz_contents b))) (length ?ts)\<rparr>"]
    by (auto simp: join_eval_def oz_from_keys_def oz_ops_def)
  have "oz_contents out' = oz_contents out"
    using consolidated_unique [OF cons oz_consolidated [OF out(2)]] out(3) out'(3) by (simp add: oz_zset_def fun_eq_iff)
  then show ?thesis using c e len b'(1) out out'(1,2) by (auto simp: monotonic_join_eval_def oz_ops_def)
qed

theorem monotonic_join_as_join_witness:
  "\<exists>out out'. join_eval oz_ops oz_ops max (oz_from_keys (sort_key fst) (\<lambda>n. n) 16 ()) (\<lambda>k _ _. k + 7) sample_zset sample_zset = ok out \<and>
    monotonic_join_eval oz_ops oz_ops oz_ops (\<lambda>k _ _. k + 7) sample_zset sample_zset = ok out' \<and> oz_wf out' \<and>
    oz_contents out' = oz_contents out"
  using monotonic_join_as_join [OF std_sort.unstable_sort_axioms _ sample_zset_wf sample_zset_wf, of "\<lambda>n. n" "\<lambda>k _ _. k + 7" max 16]
  by simp

end
