(* ===== verification/Spec2Isabelle.thy ===== *)
theory Spec2Isabelle
  imports Timestamps Weights Advance Schedule_Monitor Circuit_Theorems Delay_Theorems Incremental_Join
begin

text \<open>
  A verification library for the core of the DBSP stream processor
  (\<^verbatim>\<open>src/crates/dbsp/src\<close>).

  \<^bold>\<open>The program.\<close>  DBSP evaluates circuits of operators over streams of Z-sets: finite maps
  from keys to weights in a commutative group.  A change enters as an unordered vector of
  weighted tuples, is sorted and consolidated into an immutable \<^emph>\<open>batch\<close> (columns of keys and
  weights), and batches are accumulated in a \<^emph>\<open>trace\<close>, a log structured merge tree called the
  spine, that merges them in the background, a bounded amount of work (fuel) per insertion.
  Operators read batches and traces through \<^emph>\<open>cursors\<close>; the cursor of a trace merges the cursors
  of its batches.  Tuples may carry logical times, partially ordered and compared through
  antichains.  The operators are the nodes of a \<^emph>\<open>circuit\<close>; in every clock cycle a \<^emph>\<open>scheduler\<close>
  evaluates each node once, producers before consumers and a consumer that wants to own its input
  after the others.  Circuits and schedulers report events, and a \<^emph>\<open>trace monitor\<close> checks the
  reported sequence against the protocol.

  \<^bold>\<open>Theories and sources\<close>, from the bottom up.  Unless said otherwise the paths are relative to
  \<^verbatim>\<open>src/crates/dbsp/src\<close>.

  \<^item> \<^verbatim>\<open>Prelude\<close>: the named collections of rules, arrays as lists, results of panicking
    operations as sums, and the facts on sorted lists the components share.
  \<^item> \<^verbatim>\<open>Order_Lattice\<close> (\<^verbatim>\<open>algebra/order.rs\<close>, \<^verbatim>\<open>algebra/lattice.rs\<close>): partial orders and lattices
    of times as tables of operations, with the laws as locales.
  \<^item> \<^verbatim>\<open>Antichains\<close> (\<^verbatim>\<open>time/antichain.rs\<close>): insertion keeps the frontier minimal and denotes
    the same up-set; equality, order and hash agree; join and meet are the lattice operations.
  \<^item> \<^verbatim>\<open>Timestamps\<close> (\<^verbatim>\<open>time/mod.rs\<close>, \<^verbatim>\<open>time/nested_ts32.rs\<close>, \<^verbatim>\<open>time/product.rs\<close>): the clocks, with
    32 bit epochs and iterations packed in one word.
  \<^item> \<^verbatim>\<open>Weights\<close> (\<^verbatim>\<open>algebra/checked_int.rs\<close>, \<^verbatim>\<open>algebra/present.rs\<close>, \<^verbatim>\<open>algebra/mod.rs\<close>): checked
    arithmetic returns the exact result or panics.
  \<^item> \<^verbatim>\<open>ZSets\<close>: the abstract specification, sums of weights per key, of everything below.
  \<^item> \<^verbatim>\<open>Advance\<close> (\<^verbatim>\<open>trace/layers/advance.rs\<close>): galloping search finds the partition point.
  \<^item> \<^verbatim>\<open>Consolidation\<close> (\<^verbatim>\<open>trace/consolidation/mod.rs\<close>, \<^verbatim>\<open>utils.rs\<close>): the in-place compaction loops
    compute the canonical form: sorted, distinct, no zero weight, same sums.
  \<^item> \<^verbatim>\<open>Quicksort_Model\<close>, \<^verbatim>\<open>_Small\<close>, \<^verbatim>\<open>_Heap\<close>, \<^verbatim>\<open>_Blocks\<close>, \<^verbatim>\<open>_Partition\<close>, \<^verbatim>\<open>Quicksort\<close>
    (\<^verbatim>\<open>trace/consolidation/quicksort.rs\<close>): the pattern-defeating quicksort on two parallel slices,
    statement by statement; it never indexes out of bounds, terminates, and permutes both slices
    alike into sorted order.
  \<^item> \<^verbatim>\<open>Column_Layer\<close>, \<^verbatim>\<open>Column_Laws\<close> (\<^verbatim>\<open>trace/layers/column_layer\<close>, \<^verbatim>\<open>trace/layers/mod.rs\<close>): the
    columns, their builder, merge loops, cursor and consumer.
  \<^item> \<^verbatim>\<open>Cursors\<close> (\<^verbatim>\<open>trace/cursor/mod.rs\<close>): the trait as a table of operations, its default methods,
    and its contract, the locale \<^verbatim>\<open>batch_cursor\<close>.
  \<^item> \<^verbatim>\<open>Batch_Traits\<close> (\<^verbatim>\<open>trace/mod.rs\<close>): the default methods of builders and batches.
  \<^item> \<^verbatim>\<open>Merge_Batcher\<close>, \<^verbatim>\<open>Merge_Laws\<close> (\<^verbatim>\<open>trace/ord/merge_batcher/mod.rs\<close>, \<^verbatim>\<open>utils/vec_ext.rs\<close>): the
    queue of sorted runs of doubling length that turns pushes into one sorted batch.
  \<^item> \<^verbatim>\<open>Ord_ZSet\<close>, \<^verbatim>\<open>Ord_ZSet_Laws\<close> (\<^verbatim>\<open>trace/ord/zset_batch.rs\<close>): Z-set batches.  Every way to build
    one refines the sum of weights, merging is addition, equality is equality of Z-sets, the
    cursor reads exactly the batch.
  \<^item> \<^verbatim>\<open>Spine\<close> (\<^verbatim>\<open>trace/spine_fueled.rs\<close>): levels, merge states, \<^verbatim>\<open>introduce_batch\<close>, \<^verbatim>\<open>roll_up\<close>,
    \<^verbatim>\<open>apply_fuel\<close>, \<^verbatim>\<open>tidy_layers\<close>, \<^verbatim>\<open>consolidate\<close>, \<^verbatim>\<open>exert\<close>, truncation.  \<^verbatim>\<open>Spine_Content\<close>: every step keeps
    the content (locale \<^verbatim>\<open>mergeable_batch\<close>).  \<^verbatim>\<open>Spine_Levels\<close>, \<^verbatim>\<open>Spine_Ops\<close>: the counting argument of
    the comments of the source, as an invariant under which no panic of the code is reached
    (locale \<^verbatim>\<open>eager_batch\<close>).
  \<^item> \<^verbatim>\<open>ZSet_Trace\<close>: the locales interpreted on Z-set batches; sequences of calls of a trace refine
    the abstract trace, a map from keys to sums of weights with a lower bound.
  \<^item> \<^verbatim>\<open>Cursor_List\<close>, \<^verbatim>\<open>Cursor_List_Laws\<close> (\<^verbatim>\<open>trace/cursor/cursor_list.rs\<close>): the k-way merge of cursors,
    generic in the cursor, with its laws in the locale \<^verbatim>\<open>ordered_cursor\<close>.
  \<^item> \<^verbatim>\<open>Trace_Cursor\<close>: the cursor of a trace reads the abstract trace: both contracts composed.
  \<^item> \<^verbatim>\<open>Circuit_Events\<close> (\<^verbatim>\<open>circuit/trace.rs\<close>, \<^verbatim>\<open>circuit/circuit_builder.rs\<close>): identifiers of nodes,
    edges, ownership preferences and the events of building and of running a circuit.
  \<^item> \<^verbatim>\<open>Trace_Monitor\<close> (\<^verbatim>\<open>monitor/mod.rs\<close>, \<^verbatim>\<open>monitor/circuit_graph.rs\<close>): the graph and the state
    machine of the monitor, one function per event, with the errors it reports as values.
  \<^item> \<^verbatim>\<open>Scheduler\<close> (\<^verbatim>\<open>circuit/schedule/*.rs\<close>): ownership constraints, the dynamic scheduler (tasks
    with counts of unsatisfied dependencies, a queue of ready tasks, notifications of
    asynchronous operators), the static scheduler, the executors.  \<^verbatim>\<open>Scheduler_Laws\<close>: the
    invariant of the tasks.  \<^verbatim>\<open>Schedule_Runs\<close>, \<^verbatim>\<open>Schedule_Validity\<close>: the log of a step lists every node
    once, in an order that respects all edges and the ownership constraints, for both schedulers.
    \<^verbatim>\<open>Schedule_Liveness\<close>: a step of the dynamic scheduler ends.  \<^verbatim>\<open>Schedule_Theorems\<close>: both as
    properties of the states that circuits and schedulers reach.  \<^verbatim>\<open>Schedule_Monitor\<close>: the monitor
    accepts what executors emit, nested circuits included, and one protocol violation it misses.
  \<^item> \<^verbatim>\<open>Circuit_Nodes\<close> (\<^verbatim>\<open>circuit/circuit_builder.rs\<close>, \<^verbatim>\<open>circuit/operator_traits.rs\<close>): streams as cells of a store
    with a value and tokens of the consumers, \<^verbatim>\<open>take\<close> and \<^verbatim>\<open>peek\<close>, the operator traits as records and
    \<^verbatim>\<open>eval\<close> of every kind of node, aliased inputs included.  \<^verbatim>\<open>Circuit_Builder\<close>: the constructors of the
    builder, the feedback connectors and the cache (\<^verbatim>\<open>circuit/cache.rs\<close>).  \<^verbatim>\<open>Node_Semantics\<close>, \<^verbatim>\<open>Circuit_Dataflow\<close>:
    the denotation of a clock cycle, a function from the values of the inputs to those of the outputs
    without tokens and ownership, and that evaluating the nodes in any valid order computes it.
    \<^verbatim>\<open>Circuit_Built\<close>: circuits that the constructors make are well formed.  \<^verbatim>\<open>Circuit_Schedule\<close>,
    \<^verbatim>\<open>Circuit_Theorems\<close>: the dynamic scheduler composed with the nodes refines the denotation, a strong
    owner owns its input, and a ternary node that reads one stream twice leaks a token.
  \<^item> \<^verbatim>\<open>Stream_Operators\<close> (\<^verbatim>\<open>operator/z1.rs\<close>, \<^verbatim>\<open>delta0.rs\<close>, \<^verbatim>\<open>plus.rs\<close>, \<^verbatim>\<open>neg.rs\<close>, \<^verbatim>\<open>sum.rs\<close>, \<^verbatim>\<open>generator.rs\<close>,
    \<^verbatim>\<open>inspect.rs\<close>, \<^verbatim>\<open>apply.rs\<close>, \<^verbatim>\<open>apply2.rs\<close>): the operators on values.  \<^verbatim>\<open>Derived_Streams\<close> (also
    \<^verbatim>\<open>integrate.rs\<close>, \<^verbatim>\<open>differentiate.rs\<close>, \<^verbatim>\<open>stream_fold.rs\<close>): the methods of \<^verbatim>\<open>Stream\<close> that add nodes
    and look them up in the cache.  \<^verbatim>\<open>Stream_Cycles\<close>, \<^verbatim>\<open>Stream_Programs\<close>, \<^verbatim>\<open>Stream_Laws\<close>: what a stream of a
    built circuit carries in every cycle does not depend on nodes added later, and every entry of the cache
    carries what its key says.  \<^verbatim>\<open>Stream_Theorems\<close>, \<^verbatim>\<open>Delay_Theorems\<close>: integrals are sums, integration
    and differentiation are inverse, the nested delay replays the previous epoch, and two flaws.
  \<^item> \<^verbatim>\<open>Weighted_Cursors\<close> (\<^verbatim>\<open>trace/cursor/mod.rs\<close>): \<^verbatim>\<open>weight\<close> of untimed cursors; the locale \<^verbatim>\<open>weighted_cursor\<close>
    holds of the cursors of batches and of traces.  \<^verbatim>\<open>Indexed_ZSets\<close> (\<^verbatim>\<open>algebra/zset/mod.rs\<close>): \<^verbatim>\<open>distinct\<close>,
    the iterator and \<^verbatim>\<open>weighted_count\<close> of any batch, in the locale \<^verbatim>\<open>zset_batch\<close>.
  \<^item> \<^verbatim>\<open>Distinct\<close> (\<^verbatim>\<open>operator/distinct.rs\<close>), \<^verbatim>\<open>Trace_Operators\<close> (\<^verbatim>\<open>operator/trace.rs\<close>), \<^verbatim>\<open>Join\<close> (\<^verbatim>\<open>operator/join.rs\<close>): the
    operators over cursors, generic in them (locales \<^verbatim>\<open>incremental_distinct\<close>, \<^verbatim>\<open>join_cursors\<close>); appending to a
    trace, its delay and its bounds.  \<^verbatim>\<open>Incremental_Distinct\<close>, \<^verbatim>\<open>Incremental_Join\<close>: the locales interpreted on Z-sets and their
    traces, and the clock cycles of the nodes that \<^verbatim>\<open>distinct\<close> and \<^verbatim>\<open>join_incremental\<close> add: what
    they emit adds up to what the operators compute from scratch; the clock of a nested trace.

  \<^bold>\<open>Conventions.\<close>  A Rust struct is a record, an enum a datatype, a trait whose implementation is
  a parameter a record of its operations with its laws in a locale.  A panic (index out of
  bounds, \<^verbatim>\<open>unwrap\<close> of none, failed assertion, arithmetic overflow as checked in debug builds) is
  a value \<^verbatim>\<open>Inl\<close> naming its reason, so a theorem that an operation returns \<^verbatim>\<open>Inr\<close> says that it
  does not panic.  Loops that are not structurally recursive carry a termination proof; loops that may
  diverge are partial functions into the option type, and that they return is a theorem.
  Weights are elements of a commutative group (or monoid, where no inverse is used); keys of a
  linear order.  Reference counts, capacities of vectors and memory layout are not part of the
  values.

  \<^bold>\<open>Parameters.\<close>  Code outside the repository is an argument with named hypotheses: the priority
  queue of tasks (predicate \<^verbatim>\<open>priority_queue\<close>), the topological sort of the graph library, the
  orders in which hash maps iterate, and, for every turn of the dynamic scheduler, an environment
  that says which asynchronous operators became ready.  The operators of a circuit are a table
  of operations; user closures are functions with a state of their own.  That an operator gives the same
  result for an owned and a borrowed input is the hypothesis \<^verbatim>\<open>node_by_value\<close> of the dataflow theorem, and the
  circuits of its witnesses satisfy it.  The theorems on streams take values in a commutative group, with the
  number of entries of a value as a parameter; the dataflow theorem takes an environment in which other threads
  notify the scheduler but do not change the operators.  Joins take the unstable sort, the allocator (it grants at least the requested capacity) and the growth
  of vectors as parameters.  The cycles of \<^verbatim>\<open>distinct\<close> and \<^verbatim>\<open>join_incremental\<close> evaluate their nodes in the one
  order, up to independent nodes, that the scheduler theorems allow; they are about one worker, in which
  resharding is the identity.  The liveness theorem assumes of the environment that a waiting asynchronous
  operator is eventually notified and that evaluation does not fail; both hypotheses have
  witnesses.

  \<^bold>\<open>Bounds.\<close>  \<^verbatim>\<open>tidy_layers\<close> computes with \<^verbatim>\<open>i32\<close> powers of two, which overflow when a level beyond
  the thirtieth is vacant below a full one: the theorem \<^verbatim>\<open>tidy_layers_overflows\<close> exhibits it.
  The trace theorems therefore count calls: with fewer than \<^term>\<open>(2::nat) ^ 29\<close> inserted
  tuples the spine stays below that level.  The effort given to \<^verbatim>\<open>exert\<close> is bounded by
  \<^term>\<open>(2::nat) ^ 30\<close> for the same reason (it is added to itself in machine words).

  \<^bold>\<open>Not modelled.\<close>  Nested circuits as nodes (\<^verbatim>\<open>ChildNode\<close>, \<^verbatim>\<open>subcircuit\<close>, \<^verbatim>\<open>CircuitHandle\<close>) and their timed
  operators (\<^verbatim>\<open>DistinctIncremental\<close>, \<^verbatim>\<open>JoinTrace\<close>); aggregation, filters and maps, indexing, windows and
  input handles; batches other than Z-sets and the ordered and erased layers below them.  Unwinding of a panicking comparison or drop; \<^verbatim>\<open>Display\<close>, \<^verbatim>\<open>Debug\<close>, \<^verbatim>\<open>SizeOf\<close> and
  serialisation; the persistent traces, whose behaviour is that of RocksDB; the worker threads
  (one worker is modelled; what other threads do reaches it as the environment of a turn),
  transports and the web services around the engine; the JIT compiler, whose meaning is that of the code
  generator it calls.
\<close>

end
